(* ===== verification/Prelude.thy ===== *)
theory Prelude
  imports Main "HOL-Library.Word" "HOL-Library.Multiset"
begin

unbundle bit_operations_syntax

text \<open>
  Shared vocabulary of the development: the machine types of the storage engine
  (64-bit little-endian target, the one the application is built for), byte memory
  with its read, write and move operations, the 16-bit arithmetic of page offsets,
  and the lemma collections the component theories use.
\<close>

section \<open>Machine types\<close>

type_synonym u8 = "8 word"
type_synonym u16 = "16 word"
type_synonym u32 = "32 word"
type_synonym u64 = "64 word"
type_synonym bytes = "u8 list"

text \<open>A byte memory: the contents of a page or of an allocation, by offset.\<close>
type_synonym mem = "nat \<Rightarrow> u8"

named_theorems mem_simps \<open>reads over writes\<close>
named_theorems flag_simps \<open>tests of flag words\<close>

text \<open>Conversions between the widths, where nothing is lost.\<close>

lemma unat_ucast_32 [simp]: "unat (w :: u64) < 2 ^ 32 \<Longrightarrow> unat (ucast w :: u32) = unat w"
  by (simp add: unsigned_ucast_eq take_bit_nat_eq_self)

section \<open>Flag words\<close>

text \<open>\<open>F_ISSET(w, f)\<close>: all bits of \<open>f\<close> are set in \<open>w\<close>.\<close>

definition F_ISSET :: "'a::len word \<Rightarrow> 'a word \<Rightarrow> bool" where
  "F_ISSET w f \<longleftrightarrow> w AND f = f"

text \<open>\<open>w & f\<close> used as a condition.\<close>

definition any_set :: "'a::len word \<Rightarrow> 'a word \<Rightarrow> bool" where
  "any_set w f \<longleftrightarrow> w AND f \<noteq> 0"

text \<open>\<open>w &= ~f\<close>.\<close>

definition clear_flag :: "'a::len word \<Rightarrow> 'a word \<Rightarrow> 'a word" where
  "clear_flag w f = w AND NOT f"

lemma F_ISSET_or [flag_simps]: "F_ISSET (w OR f) f"
  by (simp add: F_ISSET_def word_bw_comms word_ao_absorbs)

lemma any_set_clear [flag_simps]: "\<not> any_set (clear_flag w f) f"
  by (simp add: any_set_def clear_flag_def word_bw_assocs)

lemma F_ISSET_clear_other [flag_simps]:
  assumes "f AND g = 0"
  shows "F_ISSET (clear_flag w f) g \<longleftrightarrow> F_ISSET w g"
proof -
  have "(w AND NOT f) AND g = w AND g"
  proof (rule bit_word_eqI)
    fix n
    have "\<not> (bit f n \<and> bit g n)"
      using assms by (metis bit_0_eq bit_and_iff bot_apply bot_bool_def)
    then show "bit ((w AND NOT f) AND g) n = bit (w AND g) n" if "n < LENGTH('a)"
      using that by (auto simp: bit_simps)
  qed
  then show ?thesis by (simp add: F_ISSET_def clear_flag_def)
qed

lemma F_ISSET_or_other [flag_simps]:
  assumes "f AND g = 0"
  shows "F_ISSET (w OR f) g \<longleftrightarrow> F_ISSET w g"
proof -
  have "(w OR f) AND g = w AND g"
    using assms by (simp add: word_ao_dist)
  then show ?thesis by (simp add: F_ISSET_def)
qed

section \<open>Byte memory\<close>

definition rd :: "mem \<Rightarrow> nat \<Rightarrow> nat \<Rightarrow> bytes" where
  "rd m a n = map m [a..<a + n]"

definition wr :: "mem \<Rightarrow> nat \<Rightarrow> bytes \<Rightarrow> mem" where
  "wr m a bs = (\<lambda>x. if a \<le> x \<and> x < a + length bs then bs ! (x - a) else m x)"

text \<open>\<open>memmove(base + dst, base + src, n)\<close>, and \<open>memcpy\<close> on disjoint areas.\<close>

definition mem_move :: "mem \<Rightarrow> nat \<Rightarrow> nat \<Rightarrow> nat \<Rightarrow> mem" where
  "mem_move m dst src n = wr m dst (rd m src n)"

text \<open>An unsigned short in memory, low byte first.\<close>

definition rd16 :: "mem \<Rightarrow> nat \<Rightarrow> u16" where
  "rd16 m a = ucast (m a) OR push_bit 8 (ucast (m (a + 1)))"

definition bytes16 :: "u16 \<Rightarrow> bytes" where
  "bytes16 w = [ucast w, ucast (drop_bit 8 w)]"

definition wr16 :: "mem \<Rightarrow> nat \<Rightarrow> u16 \<Rightarrow> mem" where
  "wr16 m a w = wr m a (bytes16 w)"

lemma length_rd [simp]: "length (rd m a n) = n"
  by (simp add: rd_def)

lemma nth_rd [simp]: "i < n \<Longrightarrow> rd m a n ! i = m (a + i)"
  by (simp add: rd_def)

lemma rd_0 [simp]: "rd m a 0 = []"
  by (simp add: rd_def)

lemma length_bytes16 [simp]: "length (bytes16 w) = 2"
  by (simp add: bytes16_def)

lemma rd_eqI: "(\<And>i. i < n \<Longrightarrow> m (a + i) = m' (b + i)) \<Longrightarrow> rd m a n = rd m' b n"
  by (rule nth_equalityI) auto

lemma rd_eqD: "rd m a n = rd m' b n \<Longrightarrow> i < n \<Longrightarrow> m (a + i) = m' (b + i)"
  by (metis nth_rd)

lemma rd_prefix: "rd m a n = rd m' b n \<Longrightarrow> k \<le> n \<Longrightarrow> rd m a k = rd m' b k"
  by (rule rd_eqI) (erule rd_eqD, simp)

lemma rd_part:
  "rd m a n = rd m' b n \<Longrightarrow> i + k \<le> n \<Longrightarrow> rd m (a + i) k = rd m' (b + i) k"
  by (rule rd_eqI) (metis add.assoc add_less_cancel_left less_le_trans rd_eqD)

lemma rd_append: "rd m a (i + j) = rd m a i @ rd m (a + i) j"
  by (rule nth_equalityI) (auto simp: nth_append)

lemma rd_wr_same [mem_simps]: "n = length bs \<Longrightarrow> rd (wr m a bs) a n = bs"
  by (rule nth_equalityI) (auto simp: wr_def)

lemma rd_wr_disjoint [mem_simps]:
  "a + n \<le> b \<or> b + length bs \<le> a \<Longrightarrow> rd (wr m b bs) a n = rd m a n"
  by (rule nth_equalityI) (auto simp: wr_def)

lemma wr_outside: "x < a \<or> a + length bs \<le> x \<Longrightarrow> wr m a bs x = m x"
  by (auto simp: wr_def)

lemma rd_wr_inside:
  "i + k \<le> length bs \<Longrightarrow> rd (wr m a bs) (a + i) k = take k (drop i bs)"
  by (rule nth_equalityI) (auto simp: wr_def)

lemma rd_move_disjoint [mem_simps]:
  "a + n \<le> dst \<or> dst + k \<le> a \<Longrightarrow> rd (mem_move m dst src k) a n = rd m a n"
  by (simp add: mem_move_def rd_wr_disjoint)

lemma rd_move_same:
  "i + n \<le> k \<Longrightarrow> rd (mem_move m dst src k) (dst + i) n = rd m (src + i) n"
  by (rule nth_equalityI) (auto simp: mem_move_def wr_def add.assoc)

lemma mem_move_zero [simp]: "mem_move m dst src 0 = m"
  by (rule ext) (auto simp: mem_move_def wr_def)

lemma rd16_cong: "rd m a n = rd m' b n \<Longrightarrow> i + 2 \<le> n \<Longrightarrow> rd16 m (a + i) = rd16 m' (b + i)"
  using rd_eqD [of m a n m' b i] rd_eqD [of m a n m' b "Suc i"] by (simp add: rd16_def)

lemma rd16_wr16_same [mem_simps]: "rd16 (wr16 m a w) a = w"
proof (rule bit_word_eqI)
  fix n assume "n < LENGTH(16)"
  then show "bit (rd16 (wr16 m a w) a) n = bit w n"
    by (auto simp: rd16_def wr16_def wr_def bytes16_def bit_simps)
qed

lemma rd16_wr_disjoint [mem_simps]:
  "a + 2 \<le> b \<or> b + length bs \<le> a \<Longrightarrow> rd16 (wr m b bs) a = rd16 m a"
  by (auto simp: rd16_def wr_def)

lemma rd16_wr16_other [mem_simps]: "a + 2 \<le> b \<or> b + 2 \<le> a \<Longrightarrow> rd16 (wr16 m b w) a = rd16 m a"
  by (simp add: wr16_def rd16_wr_disjoint)

lemma rd_wr16_other [mem_simps]: "a + n \<le> b \<or> b + 2 \<le> a \<Longrightarrow> rd (wr16 m b w) a n = rd m a n"
  by (simp add: wr16_def rd_wr_disjoint)

section \<open>Little-endian numbers\<close>

text \<open>A number as \<open>n\<close> bytes, low byte first, and back.\<close>

fun le_bytes :: "nat \<Rightarrow> nat \<Rightarrow> bytes" where
  "le_bytes 0 v = []"
| "le_bytes (Suc n) v = word_of_nat (v mod 256) # le_bytes n (v div 256)"

fun of_le :: "bytes \<Rightarrow> nat" where
  "of_le [] = 0"
| "of_le (b # bs) = unat b + 256 * of_le bs"

lemma length_le_bytes [simp]: "length (le_bytes n v) = n"
  by (induction n arbitrary: v) auto

lemma of_le_le_bytes: "of_le (le_bytes n v) = v mod 256 ^ n"
proof (induction n arbitrary: v)
  case 0
  then show ?case by simp
next
  case (Suc n)
  have "unat (word_of_nat (v mod 256) :: u8) = v mod 256"
    by (simp add: unat_of_nat)
  with Suc show ?case
    by (simp add: mod_mult2_eq add.commute)
qed

lemma of_le_bound: "of_le bs < 256 ^ length bs"
proof (induction bs)
  case Nil
  then show ?case by simp
next
  case (Cons b bs)
  have "unat b < 256" using unsigned_less [of b] by simp
  with Cons show ?case by simp
qed

lemma of_le_append: "of_le (xs @ ys) = of_le xs + 256 ^ length xs * of_le ys"
  by (induction xs) (auto simp: algebra_simps)

lemma le_bytes_of_le: "le_bytes (length bs) (of_le bs) = bs"
proof (induction bs)
  case Nil
  then show ?case by simp
next
  case (Cons b bs)
  have "unat b < 256" using unsigned_less [of b] by simp
  with Cons show ?case by simp
qed

lemma of_le_inj: "length xs = length ys \<Longrightarrow> of_le xs = of_le ys \<longleftrightarrow> xs = ys"
  by (metis le_bytes_of_le)

text \<open>The bytes of a 64-bit number in memory, as \<open>memcpy\<close> moves it.\<close>

definition u64_bytes :: "u64 \<Rightarrow> bytes" where
  "u64_bytes w = le_bytes 8 (unat w)"

definition bytes_u64 :: "bytes \<Rightarrow> u64" where
  "bytes_u64 bs = word_of_nat (of_le bs)"

lemma length_u64_bytes [simp]: "length (u64_bytes w) = 8"
  by (simp add: u64_bytes_def)

lemma bytes_u64_bytes [simp]: "bytes_u64 (u64_bytes w) = w"
proof -
  have "unat w < 256 ^ 8" using unsigned_less [of w] by simp
  then show ?thesis by (simp add: bytes_u64_def u64_bytes_def of_le_le_bytes)
qed

section \<open>16-bit offsets\<close>

text \<open>
  Page offsets and indices are \<open>uint16_t\<close> (\<open>indx_t\<close>). They are kept as natural
  numbers below \<open>2 ^ 16\<close>; every store and difference reduces modulo \<open>2 ^ 16\<close>
  as the assignment to an \<open>indx_t\<close> does.
\<close>

definition indx_t :: "nat \<Rightarrow> nat" where
  "indx_t n = n mod 65536"

definition indx_sub :: "nat \<Rightarrow> nat \<Rightarrow> nat" where
  "indx_sub a b = (a + (65536 - b mod 65536)) mod 65536"

lemma indx_t_id [simp]: "n < 65536 \<Longrightarrow> indx_t n = n"
  by (simp add: indx_t_def)

lemma indx_t_bound [simp]: "indx_t n < 65536"
  by (simp add: indx_t_def)

lemma indx_sub_le: "b \<le> a \<Longrightarrow> a < 65536 \<Longrightarrow> indx_sub a b = a - b"
proof -
  assume ba: "b \<le> a" and a: "a < 65536"
  then have "a + (65536 - b mod 65536) = (a - b) + 65536" by simp
  then have "indx_sub a b = (a - b + 65536) mod 65536" by (simp only: indx_sub_def)
  also have "\<dots> = (a - b) mod 65536" by (rule mod_add_self2)
  also have "\<dots> = a - b" using ba a by simp
  finally show ?thesis .
qed

lemma indx_sub_bound [simp]: "indx_sub a b < 65536"
  by (simp add: indx_sub_def)

text \<open>\<open>EVEN(n)\<close>: round up to an even number.\<close>

definition EVEN :: "nat \<Rightarrow> nat" where
  "EVEN n = (n + 1) - (n + 1) mod 2"

lemma EVEN_ge [simp]: "n \<le> EVEN n"
  unfolding EVEN_def by presburger

lemma EVEN_le: "EVEN n \<le> n + 1"
  by (simp add: EVEN_def)

lemma even_EVEN [simp]: "even (EVEN n)"
  unfolding EVEN_def by presburger

lemma EVEN_mono: "m \<le> n \<Longrightarrow> EVEN m \<le> EVEN n"
  unfolding EVEN_def by presburger

lemma EVEN_even [simp]: "even n \<Longrightarrow> EVEN n = n"
  unfolding EVEN_def by presburger

lemma EVEN_add: "even a \<Longrightarrow> EVEN (a + b) = a + EVEN b"
  by (auto simp: EVEN_def)

lemma EVEN_8: "EVEN (8 + n) = 8 + EVEN n"
  unfolding EVEN_def by presburger

section \<open>Lists\<close>

text \<open>Insertion and removal at a position, the abstract effect of editing a page.\<close>

definition insert_at :: "nat \<Rightarrow> 'a \<Rightarrow> 'a list \<Rightarrow> 'a list" where
  "insert_at i x xs = take i xs @ x # drop i xs"

definition remove_at :: "nat \<Rightarrow> 'a list \<Rightarrow> 'a list" where
  "remove_at i xs = take i xs @ drop (Suc i) xs"

lemma length_insert_at [simp]: "i \<le> length xs \<Longrightarrow> length (insert_at i x xs) = Suc (length xs)"
  by (simp add: insert_at_def)

lemma length_remove_at [simp]: "i < length xs \<Longrightarrow> length (remove_at i xs) = length xs - 1"
  by (simp add: remove_at_def)

lemma nth_insert_at:
  "i \<le> length xs \<Longrightarrow> k \<le> length xs \<Longrightarrow>
   insert_at i x xs ! k = (if k < i then xs ! k else if k = i then x else xs ! (k - 1))"
  by (auto simp: insert_at_def nth_append nth_Cons' min_def)

lemma nth_remove_at:
  "i < length xs \<Longrightarrow> k < length xs - 1 \<Longrightarrow>
   remove_at i xs ! k = (if k < i then xs ! k else xs ! Suc k)"
  by (auto simp: remove_at_def nth_append min_def)

lemma remove_insert_at: "i \<le> length xs \<Longrightarrow> remove_at i (insert_at i x xs) = xs"
  by (auto simp: remove_at_def insert_at_def min_def)

lemma mset_insert_at: "mset (insert_at i x xs) = add_mset x (mset xs)"
  by (simp add: insert_at_def) (metis append_take_drop_id mset_append)

lemma mset_remove_at: "i < length xs \<Longrightarrow> add_mset (xs ! i) (mset (remove_at i xs)) = mset xs"
  by (simp add: remove_at_def)
    (metis id_take_nth_drop mset.simps(2) mset_append union_mset_add_mset_right)

lemma sum_list_remove_at:
  fixes f :: "'a \<Rightarrow> nat"
  assumes "i < length xs"
  shows "f (xs ! i) + (\<Sum>x \<leftarrow> remove_at i xs. f x) = (\<Sum>x \<leftarrow> xs. f x)"
proof -
  have "(\<Sum>x \<leftarrow> xs. f x) = (\<Sum>x \<leftarrow> take i xs @ xs ! i # drop (Suc i) xs. f x)"
    using assms by (simp only: id_take_nth_drop [symmetric])
  then show ?thesis by (simp add: remove_at_def)
qed

lemma sum_list_update_at:
  fixes f :: "'a \<Rightarrow> nat"
  shows "i < length xs \<Longrightarrow> (\<Sum>x \<leftarrow> xs[i := y]. f x) + f (xs ! i) = (\<Sum>x \<leftarrow> xs. f x) + f y"
proof (induction xs arbitrary: i)
  case (Cons a xs)
  then show ?case by (cases i) auto
qed simp

text \<open>A list descending, and strictly descending.\<close>

abbreviation desc :: "'a::linorder list \<Rightarrow> bool" where
  "desc xs \<equiv> sorted_wrt (\<ge>) xs"

abbreviation strict_desc :: "'a::linorder list \<Rightarrow> bool" where
  "strict_desc xs \<equiv> sorted_wrt (>) xs"

lemma mset_swap_update:
  "i < length xs \<Longrightarrow> j < length xs \<Longrightarrow> mset (xs[i := xs ! j, j := xs ! i]) = mset xs"
  by (rule mset_swap)

end
