(* ===== verification/Errors.thy ===== *)
theory Errors
  imports Prelude
begin

text \<open>
  Return codes of the storage engine: the \<open>MDB_\<close> codes of \<open>lmdb.h\<close>, the system
  codes the engine returns itself, and \<open>mdb_strerror\<close>. An operation of the model
  returns \<open>Inl\<close> an error where the code returns a non-zero code.
\<close>

datatype mdb_err =
    MDB_KEYEXIST | MDB_NOTFOUND | MDB_PAGE_NOTFOUND | MDB_CORRUPTED | MDB_PANIC
  | MDB_VERSION_MISMATCH | MDB_INVALID | MDB_MAP_FULL | MDB_DBS_FULL | MDB_READERS_FULL
  | MDB_TLS_FULL | MDB_TXN_FULL | MDB_CURSOR_FULL | MDB_PAGE_FULL | MDB_MAP_RESIZED
  | MDB_INCOMPATIBLE | MDB_BAD_RSLOT | MDB_BAD_TXN | MDB_BAD_VALSIZE | MDB_BAD_DBI
  | ENOENT | EIO | ENOMEM | EACCES | EINVAL | ENOSPC
  | Errno int

definition MDB_KEYEXIST_code :: int where "MDB_KEYEXIST_code = -30799"
definition MDB_LAST_ERRCODE :: int where "MDB_LAST_ERRCODE = -30780"

fun err_code :: "mdb_err \<Rightarrow> int" where
  "err_code MDB_KEYEXIST = -30799"
| "err_code MDB_NOTFOUND = -30798"
| "err_code MDB_PAGE_NOTFOUND = -30797"
| "err_code MDB_CORRUPTED = -30796"
| "err_code MDB_PANIC = -30795"
| "err_code MDB_VERSION_MISMATCH = -30794"
| "err_code MDB_INVALID = -30793"
| "err_code MDB_MAP_FULL = -30792"
| "err_code MDB_DBS_FULL = -30791"
| "err_code MDB_READERS_FULL = -30790"
| "err_code MDB_TLS_FULL = -30789"
| "err_code MDB_TXN_FULL = -30788"
| "err_code MDB_CURSOR_FULL = -30787"
| "err_code MDB_PAGE_FULL = -30786"
| "err_code MDB_MAP_RESIZED = -30785"
| "err_code MDB_INCOMPATIBLE = -30784"
| "err_code MDB_BAD_RSLOT = -30783"
| "err_code MDB_BAD_TXN = -30782"
| "err_code MDB_BAD_VALSIZE = -30781"
| "err_code MDB_BAD_DBI = -30780"
| "err_code ENOENT = 2"
| "err_code EIO = 5"
| "err_code ENOMEM = 12"
| "err_code EACCES = 13"
| "err_code EINVAL = 22"
| "err_code ENOSPC = 28"
| "err_code (Errno n) = n"

text \<open>The table of descriptions, in the order of the codes.\<close>

definition mdb_errstr :: "string list" where
  "mdb_errstr = [
    ''MDB_KEYEXIST: Key/data pair already exists'',
    ''MDB_NOTFOUND: No matching key/data pair found'',
    ''MDB_PAGE_NOTFOUND: Requested page not found'',
    ''MDB_CORRUPTED: Located page was wrong type'',
    ''MDB_PANIC: Update of meta page failed or environment had fatal error'',
    ''MDB_VERSION_MISMATCH: Database environment version mismatch'',
    ''MDB_INVALID: File is not an LMDB file'',
    ''MDB_MAP_FULL: Environment mapsize limit reached'',
    ''MDB_DBS_FULL: Environment maxdbs limit reached'',
    ''MDB_READERS_FULL: Environment maxreaders limit reached'',
    ''MDB_TLS_FULL: Thread-local storage keys full - too many environments open'',
    ''MDB_TXN_FULL: Transaction has too many dirty pages - transaction too big'',
    ''MDB_CURSOR_FULL: Internal error - cursor stack limit reached'',
    ''MDB_PAGE_FULL: Internal error - page has no more space'',
    ''MDB_MAP_RESIZED: Database contents grew beyond environment mapsize'',
    ''MDB_INCOMPATIBLE: Operation and DB incompatible, or DB flags changed'',
    ''MDB_BAD_RSLOT: Invalid reuse of reader locktable slot'',
    ''MDB_BAD_TXN: Transaction cannot recover - it must be aborted'',
    ''MDB_BAD_VALSIZE: Unsupported size of key/DB name/data, or wrong DUPFIXED size'',
    ''MDB_BAD_DBI: The specified DBI handle was closed/changed unexpectedly'']"

text \<open>
  \<open>strerror\<close> is the C library's; the engine only passes it codes of its own range
  excluded. An index outside the table would read past it: \<open>None\<close>.
\<close>

definition mdb_strerror :: "(int \<Rightarrow> string) \<Rightarrow> int \<Rightarrow> string option" where
  "mdb_strerror strerror err =
     (if err = 0 then Some ''Successful return: 0''
      else if MDB_KEYEXIST_code \<le> err \<and> err \<le> MDB_LAST_ERRCODE then
        (let i = nat (err - MDB_KEYEXIST_code) in
         if i < length mdb_errstr then Some (mdb_errstr ! i) else None)
      else Some (strerror err))"

text \<open>The name of a code, as the header spells it.\<close>

fun err_name :: "mdb_err \<Rightarrow> string" where
  "err_name MDB_KEYEXIST = ''MDB_KEYEXIST''"
| "err_name MDB_NOTFOUND = ''MDB_NOTFOUND''"
| "err_name MDB_PAGE_NOTFOUND = ''MDB_PAGE_NOTFOUND''"
| "err_name MDB_CORRUPTED = ''MDB_CORRUPTED''"
| "err_name MDB_PANIC = ''MDB_PANIC''"
| "err_name MDB_VERSION_MISMATCH = ''MDB_VERSION_MISMATCH''"
| "err_name MDB_INVALID = ''MDB_INVALID''"
| "err_name MDB_MAP_FULL = ''MDB_MAP_FULL''"
| "err_name MDB_DBS_FULL = ''MDB_DBS_FULL''"
| "err_name MDB_READERS_FULL = ''MDB_READERS_FULL''"
| "err_name MDB_TLS_FULL = ''MDB_TLS_FULL''"
| "err_name MDB_TXN_FULL = ''MDB_TXN_FULL''"
| "err_name MDB_CURSOR_FULL = ''MDB_CURSOR_FULL''"
| "err_name MDB_PAGE_FULL = ''MDB_PAGE_FULL''"
| "err_name MDB_MAP_RESIZED = ''MDB_MAP_RESIZED''"
| "err_name MDB_INCOMPATIBLE = ''MDB_INCOMPATIBLE''"
| "err_name MDB_BAD_RSLOT = ''MDB_BAD_RSLOT''"
| "err_name MDB_BAD_TXN = ''MDB_BAD_TXN''"
| "err_name MDB_BAD_VALSIZE = ''MDB_BAD_VALSIZE''"
| "err_name MDB_BAD_DBI = ''MDB_BAD_DBI''"
| "err_name _ = ''''"

lemma length_mdb_errstr: "length mdb_errstr = 20"
  by (simp add: mdb_errstr_def)

lemma mdb_strerror_defined: "\<exists>s. mdb_strerror f err = Some s"
proof (cases "MDB_KEYEXIST_code \<le> err \<and> err \<le> MDB_LAST_ERRCODE")
  case True
  then have "nat (err - MDB_KEYEXIST_code) < 20"
    by (auto simp: MDB_KEYEXIST_code_def MDB_LAST_ERRCODE_def nat_less_iff)
  then have "nat (err - MDB_KEYEXIST_code) < length mdb_errstr"
    by (simp only: length_mdb_errstr)
  then show ?thesis by (simp add: mdb_strerror_def)
next
  case False
  then show ?thesis by (auto simp: mdb_strerror_def)
qed

text \<open>The codes of the engine's own range, and the table, agree name by name.\<close>

lemma mdb_strerror_names:
  assumes "err_name e \<noteq> ''''"
  shows "\<exists>d. mdb_strerror f (err_code e) = Some (err_name e @ '': '' @ d)"
  using assms
  by (cases e)
    (simp_all add: mdb_strerror_def MDB_KEYEXIST_code_def MDB_LAST_ERRCODE_def mdb_errstr_def)

text \<open>
  \<open>mdb_strerror\<close> never reads outside its table, for any integer passed to it, and for
  each of the engine's own codes the description it returns begins with the name of that
  code: the table and the codes of the header are in the same order.
\<close>

theorem mdb_strerror_names_code:
  "(\<exists>s. mdb_strerror f err = Some s) \<and>
   (err_name e \<noteq> '''' \<longrightarrow>
     (\<exists>d. mdb_strerror f (err_code e) = Some (err_name e @ '': '' @ d)))"
  using mdb_strerror_defined mdb_strerror_names by blast

theorem mdb_strerror_witness:
  "\<exists>d. mdb_strerror (\<lambda>n. '''') (err_code MDB_TXN_FULL) = Some (''MDB_TXN_FULL'' @ '': '' @ d)"
  using mdb_strerror_names_code [of "\<lambda>n. ''''" 0 MDB_TXN_FULL] by simp

end
