(* ===== verification/Midl.thy ===== *)
theory Midl
  imports Errors
begin

text \<open>
  ID lists (\<open>midl.c\<close>): the arrays that hold free, spilled and dirty page numbers.
  \<open>MDB_IDL\<close> points at the count cell \<open>ids[0]\<close> of an allocation whose cell before it,
  \<open>ids[-1]\<close>, records the capacity. The model keeps the capacity in \<open>mi_alloc\<close> and the
  cells from \<open>ids[0]\<close> on in \<open>mi_ids\<close>, so that an index of the model is the index of the
  code and the length of \<open>mi_ids\<close> is what the allocation really holds. Cells that the
  code leaves uninitialised are 0 in the model; no operation reads above the count.
  \<open>MDB_ID2L\<close> is an array of ID/pointer pairs with the count in the first \<open>mid\<close>.
\<close>

section \<open>Data\<close>

type_synonym mdb_id = u64

record midl =
  mi_alloc :: nat
  mi_ids :: "mdb_id list"

definition MDB_IDL_LOGN :: nat where "MDB_IDL_LOGN = 16"
definition MDB_IDL_UM_SIZE :: nat where "MDB_IDL_UM_SIZE = 2 ^ (MDB_IDL_LOGN + 1)"
definition MDB_IDL_UM_MAX :: nat where "MDB_IDL_UM_MAX = MDB_IDL_UM_SIZE - 1"

text \<open>The count cell, and the elements it counts.\<close>

definition idl_count :: "mdb_id list \<Rightarrow> nat" where
  "idl_count ids = unat (ids ! 0)"

definition idl_elems :: "mdb_id list \<Rightarrow> mdb_id list" where
  "idl_elems ids = take (idl_count ids) (tl ids)"

definition idl_ok :: "mdb_id list \<Rightarrow> bool" where
  "idl_ok ids \<longleftrightarrow> ids \<noteq> [] \<and> idl_count ids < length ids"

text \<open>What an allocation promises: room for \<open>mi_alloc\<close> elements after the count cell.\<close>

definition midl_wf :: "midl \<Rightarrow> bool" where
  "midl_wf l \<longleftrightarrow> idl_ok (mi_ids l) \<and> idl_count (mi_ids l) \<le> mi_alloc l
     \<and> mi_alloc l + 1 \<le> length (mi_ids l) \<and> mi_alloc l < 2 ^ 31"

section \<open>Binary search\<close>

text \<open>\<open>CMP(x, y)\<close>.\<close>

definition CMP :: "'a::linorder \<Rightarrow> 'a \<Rightarrow> int" where
  "CMP x y = (if x < y then -1 else if x > y then 1 else 0)"

text \<open>
  The search loop that \<open>mdb_midl_search\<close>, \<open>mdb_mid2l_search\<close> and \<open>mdb_pid_insert\<close>
  share: \<open>v cursor\<close> is the comparison the loop makes at a slot. The result is whether
  the loop stopped on a match, and the final \<open>cursor\<close> and \<open>val\<close>.
\<close>

function id_search_loop ::
  "(nat \<Rightarrow> int) \<Rightarrow> nat \<Rightarrow> nat \<Rightarrow> nat \<Rightarrow> int \<Rightarrow> bool \<times> nat \<times> int" where
  "id_search_loop v base cursor n val =
     (if 0 < n then
        (let pivot = n div 2;
             cursor = base + pivot + 1;
             val = v cursor
         in if val < 0 then id_search_loop v base cursor pivot val
            else if val > 0 then id_search_loop v cursor cursor (n - (pivot + 1)) val
            else (True, cursor, val))
      else (False, cursor, val))"
  by pat_completeness auto
termination
  by (relation "measure (\<lambda>(v, base, cursor, n, val). n)") auto

declare id_search_loop.simps [simp del]

text \<open>\<open>if (val > 0) ++cursor; return cursor;\<close>\<close>

definition id_search_result :: "bool \<times> nat \<times> int \<Rightarrow> nat" where
  "id_search_result r = (case r of (found, cursor, val) \<Rightarrow>
     if found then cursor else if val > 0 then cursor + 1 else cursor)"

definition mdb_midl_search :: "mdb_id list \<Rightarrow> mdb_id \<Rightarrow> nat" where
  "mdb_midl_search ids ident =
     id_search_result (id_search_loop (\<lambda>cursor. CMP (ids ! cursor) ident) 0 1
       (unat (ucast (ids ! 0) :: u32)) 0)"

text \<open>
  The contract of a searched array: the sign of the comparison goes from positive over
  zero to negative as the slot number grows.
\<close>

locale ordered_slots =
  fixes slots :: "'l \<Rightarrow> nat"
    and cmp_at :: "'l \<Rightarrow> 'k \<Rightarrow> nat \<Rightarrow> int"
    and ok :: "'l \<Rightarrow> bool"
  assumes pos_down: "ok l \<Longrightarrow> 1 \<le> i \<Longrightarrow> i \<le> j \<Longrightarrow> j \<le> slots l \<Longrightarrow> 0 < cmp_at l k j \<Longrightarrow> 0 < cmp_at l k i"
    and neg_up: "ok l \<Longrightarrow> 1 \<le> i \<Longrightarrow> i \<le> j \<Longrightarrow> j \<le> slots l \<Longrightarrow> cmp_at l k i < 0 \<Longrightarrow> cmp_at l k j < 0"
begin

text \<open>
  The loop's invariant: the answer lies in the window of \<open>n\<close> slots after \<open>base\<close>, all
  slots up to \<open>base\<close> are positive and all slots after the window negative; once the
  window is empty, \<open>cursor\<close> is next to it. What the search promises: the slots before
  the result are not negative, the slots from it on not positive, and it tells a match.
\<close>

definition search_spec :: "'l \<Rightarrow> 'k \<Rightarrow> bool \<times> nat \<times> int \<Rightarrow> bool" where
  "search_spec l k r \<longleftrightarrow> (let x = id_search_result r in
     1 \<le> x \<and> x \<le> slots l + 1 \<and>
     (if fst r then x = fst (snd r) \<and> x \<le> slots l \<and> cmp_at l k x = 0
      else (\<forall>i. 1 \<le> i \<and> i < x \<longrightarrow> 0 < cmp_at l k i) \<and>
           (\<forall>i. x \<le> i \<and> i \<le> slots l \<longrightarrow> cmp_at l k i < 0)))"

lemma search_loop_spec:
  assumes "ok l" and "base + n \<le> slots l"
    and "\<And>i. 1 \<le> i \<Longrightarrow> i \<le> base \<Longrightarrow> 0 < cmp_at l k i"
    and "\<And>i. base + n < i \<Longrightarrow> i \<le> slots l \<Longrightarrow> cmp_at l k i < 0"
    and "n = 0 \<Longrightarrow> (0 < val \<and> cursor = base) \<or> (val \<le> 0 \<and> cursor = base + 1)"
  shows "search_spec l k (id_search_loop (cmp_at l k) base cursor n val)"
  using assms
proof (induction "cmp_at l k" base cursor n val rule: id_search_loop.induct)
  case (1 base cursor n val)
  show ?case
  proof (cases "0 < n")
    case False
    then have n: "n = 0" by simp
    have loop: "id_search_loop (cmp_at l k) base cursor n val = (False, cursor, val)"
      using n by (simp add: id_search_loop.simps)
    have res: "id_search_result (False, cursor, val) = base + 1"
      using "1.prems"(5) n by (auto simp: id_search_result_def)
    show ?thesis
      unfolding loop using "1.prems"(2,3,4) n by (auto simp: search_spec_def res)
  next
    case True
    define pivot where "pivot = n div 2"
    define c where "c = base + pivot + 1"
    have pn: "pivot < n" using True by (simp add: pivot_def)
    have step: "id_search_loop (cmp_at l k) base cursor n val =
      (if cmp_at l k c < 0 then id_search_loop (cmp_at l k) base c pivot (cmp_at l k c)
       else if 0 < cmp_at l k c
         then id_search_loop (cmp_at l k) c c (n - (pivot + 1)) (cmp_at l k c)
       else (True, c, cmp_at l k c))"
      using True by (simp add: id_search_loop.simps [of _ base] pivot_def c_def Let_def)
    have cb: "1 \<le> c" "c \<le> slots l"
      using "1.prems"(2) pn by (auto simp: c_def)
    consider (lt) "cmp_at l k c < 0" | (gt) "0 < cmp_at l k c" | (eq) "cmp_at l k c = 0"
      by linarith
    then show ?thesis
    proof cases
      case lt
      have "search_spec l k (id_search_loop (cmp_at l k) base c pivot (cmp_at l k c))"
      proof (rule "1.hyps"(1) [OF True pivot_def])
        show "c = base + pivot + 1" by (rule c_def)
        show "base + pivot \<le> slots l" using "1.prems"(2) pn by simp
        show "cmp_at l k i < 0" if "base + pivot < i" "i \<le> slots l" for i
          using neg_up [OF "1.prems"(1) cb(1) _ that(2) lt] that(1) by (simp add: c_def)
      qed (use lt "1.prems"(1,3) c_def in auto)
      then show ?thesis using lt by (simp add: step)
    next
      case gt
      have "search_spec l k (id_search_loop (cmp_at l k) c c (n - (pivot + 1)) (cmp_at l k c))"
      proof (rule "1.hyps"(2) [OF True pivot_def])
        show "c = base + pivot + 1" by (rule c_def)
        show "c + (n - (pivot + 1)) \<le> slots l" using "1.prems"(2) pn by (simp add: c_def)
        show "0 < cmp_at l k i" if "1 \<le> i" "i \<le> c" for i
          using pos_down [OF "1.prems"(1) that cb(2) gt] .
        show "cmp_at l k i < 0" if "c + (n - (pivot + 1)) < i" "i \<le> slots l" for i
          using "1.prems"(4) that pn by (simp add: c_def)
      qed (use gt "1.prems"(1) in auto)
      then show ?thesis using gt by (simp add: step)
    next
      case eq
      then show ?thesis
        using cb by (simp add: step search_spec_def id_search_result_def)
    qed
  qed
qed

lemma search_spec_start:
  "ok l \<Longrightarrow> search_spec l k (id_search_loop (cmp_at l k) 0 1 (slots l) 0)"
  by (rule search_loop_spec) auto

text \<open>The result separates the slots; with a strict order it is the position of the key.\<close>

lemma search_separates:
  assumes "ok l" and "x = id_search_result (id_search_loop (cmp_at l k) 0 1 (slots l) 0)"
  shows "1 \<le> x" and "x \<le> slots l + 1"
    and "1 \<le> i \<Longrightarrow> i < x \<Longrightarrow> 0 \<le> cmp_at l k i"
    and "x \<le> i \<Longrightarrow> i \<le> slots l \<Longrightarrow> cmp_at l k i \<le> 0"
    and "(\<exists>i. 1 \<le> i \<and> i \<le> slots l \<and> cmp_at l k i = 0) \<longleftrightarrow> x \<le> slots l \<and> cmp_at l k x = 0"
proof -
  obtain r where r: "r = id_search_loop (cmp_at l k) 0 1 (slots l) 0" by simp
  have s: "search_spec l k r" using search_spec_start [OF assms(1)] r by simp
  have x: "x = id_search_result r" using assms(2) r by simp
  show lo: "1 \<le> x" and hi: "x \<le> slots l + 1"
    using s by (auto simp: x search_spec_def Let_def)
  show "0 \<le> cmp_at l k i" if "1 \<le> i" "i < x"
  proof (cases "fst r")
    case True
    then have "x \<le> slots l" "cmp_at l k x = 0" using s by (auto simp: x search_spec_def Let_def)
    then show ?thesis using neg_up [OF assms(1) that(1), of x k] that(2) by force
  next
    case False
    then show ?thesis using s that by (auto simp: x search_spec_def Let_def intro: less_imp_le)
  qed
  show "cmp_at l k i \<le> 0" if "x \<le> i" "i \<le> slots l"
  proof (cases "fst r")
    case True
    then have "cmp_at l k x = 0" using s by (auto simp: x search_spec_def Let_def)
    then show ?thesis using pos_down [OF assms(1) lo that, of k] by force
  next
    case False
    then show ?thesis using s that by (auto simp: x search_spec_def Let_def intro: less_imp_le)
  qed
  show "(\<exists>i. 1 \<le> i \<and> i \<le> slots l \<and> cmp_at l k i = 0) \<longleftrightarrow> x \<le> slots l \<and> cmp_at l k x = 0"
  proof (cases "fst r")
    case True
    then show ?thesis using s lo by (auto simp: x search_spec_def Let_def)
  next
    case False
    then have *: "\<forall>i. 1 \<le> i \<and> i < x \<longrightarrow> 0 < cmp_at l k i"
      "\<forall>i. x \<le> i \<and> i \<le> slots l \<longrightarrow> cmp_at l k i < 0"
      using s by (auto simp: x search_spec_def Let_def)
    then show ?thesis using lo by (metis less_irrefl not_less)
  qed
qed

end

text \<open>
  A position that separates a list into elements that satisfy a predicate and elements
  that do not is where the linear scan for the predicate stops.
\<close>

lemma takeWhile_separates:
  assumes "n \<le> length xs" "\<And>i. i < n \<Longrightarrow> P (xs ! i)" "n < length xs \<Longrightarrow> \<not> P (xs ! n)"
  shows "length (takeWhile P xs) = n"
proof -
  have "takeWhile P xs = take n xs"
    using assms by (intro takeWhile_eq_take_P_nth) auto
  then show ?thesis using assms(1) by simp
qed

text \<open>
  With distinct keys at most one slot matches, and the search stops where a linear scan
  from the first slot would.
\<close>

locale strict_slots = ordered_slots +
  assumes zero_up: "ok l \<Longrightarrow> 1 \<le> i \<Longrightarrow> i < j \<Longrightarrow> j \<le> slots l \<Longrightarrow> cmp_at l k i = 0 \<Longrightarrow> cmp_at l k j < 0"
begin

lemma search_linear:
  assumes "ok l"
  shows "id_search_result (id_search_loop (cmp_at l k) 0 1 (slots l) 0)
    = Suc (length (takeWhile (\<lambda>c. 0 < cmp_at l k c) [1..<Suc (slots l)]))"
    (is "?x = _")
proof -
  note sep = search_separates [OF assms refl, where k = k]
  have "length (takeWhile (\<lambda>c. 0 < cmp_at l k c) [1..<Suc (slots l)]) = ?x - 1"
  proof (rule takeWhile_separates)
    show "?x - 1 \<le> length [1..<Suc (slots l)]"
      using sep(2) by (simp only: length_upt)
    fix i assume "i < ?x - 1"
    then have i: "1 \<le> Suc i" "Suc i < ?x" by linarith+
    have "Suc i \<le> slots l" using i sep(2) by linarith
    have "cmp_at l k (Suc i) \<noteq> 0"
    proof
      assume 0: "cmp_at l k (Suc i) = 0"
      then have "?x \<le> slots l \<and> cmp_at l k ?x = 0"
        using sep(5) i(1) \<open>Suc i \<le> slots l\<close> by blast
      then show False using zero_up [OF assms i(1) i(2) _ 0] by simp
    qed
    then show "0 < cmp_at l k ([1..<Suc (slots l)] ! i)"
      using sep(3) [OF i] \<open>Suc i \<le> slots l\<close> by (simp del: upt_Suc)
  next
    assume "?x - 1 < length [1..<Suc (slots l)]"
    then have "?x \<le> slots l" and "[1..<Suc (slots l)] ! (?x - 1) = ?x"
      using sep(1) by (auto simp del: upt_Suc)
    then show "\<not> 0 < cmp_at l k ([1..<Suc (slots l)] ! (?x - 1))"
      using sep(4) [of ?x] by simp
  qed
  then show ?thesis using sep(1) by linarith
qed

lemma search_found:
  assumes "ok l" and "x = id_search_result (id_search_loop (cmp_at l k) 0 1 (slots l) 0)"
  shows "x \<le> slots l \<and> cmp_at l k x = 0 \<longleftrightarrow> (\<exists>i. 1 \<le> i \<and> i \<le> slots l \<and> cmp_at l k i = 0)"
  using search_separates(5) [OF assms(1) assms(2)] by simp

end

section \<open>Allocation and growth\<close>

text \<open>
  \<open>ok\<close> says whether the C library's \<open>malloc\<close> or \<open>realloc\<close> succeeded. \<open>realloc_ids k\<close>
  are the cells left when the allocation holds \<open>k\<close> cells from \<open>ids[0]\<close> on.
\<close>

definition realloc_ids :: "nat \<Rightarrow> mdb_id list \<Rightarrow> mdb_id list" where
  "realloc_ids k ids = take k ids @ replicate (k - length ids) 0"

definition mdb_midl_alloc :: "bool \<Rightarrow> nat \<Rightarrow> midl option" where
  "mdb_midl_alloc ok num =
     (if ok then Some \<lparr>mi_alloc = num, mi_ids = 0 # replicate num 0\<rparr> else None)"

definition mdb_midl_shrink :: "bool \<Rightarrow> midl \<Rightarrow> bool \<times> midl" where
  "mdb_midl_shrink ok l =
     (if mi_alloc l > MDB_IDL_UM_MAX \<and> ok
      then (True, \<lparr>mi_alloc = MDB_IDL_UM_MAX, mi_ids = realloc_ids MDB_IDL_UM_MAX (mi_ids l)\<rparr>)
      else (False, l))"

text \<open>\<open>num\<close> is an \<open>int\<close>: it is sign-extended before it is added to the capacity cell.\<close>

definition mdb_midl_grow :: "bool \<Rightarrow> midl \<Rightarrow> u32 \<Rightarrow> mdb_err + midl" where
  "mdb_midl_grow ok l num =
     (let total = word_of_nat (mi_alloc l) + scast num :: u64 in
      if ok then Inr \<lparr>mi_alloc = unat total,
                      mi_ids = realloc_ids (unat (total + 2) - 1) (mi_ids l)\<rparr>
      else Inl ENOMEM)"

text \<open>\<open>num\<close> is an \<open>unsigned\<close>: the rounding up to a multiple of 256 is 32-bit arithmetic.\<close>

definition mdb_midl_need :: "bool \<Rightarrow> midl \<Rightarrow> u32 \<Rightarrow> mdb_err + midl" where
  "mdb_midl_need ok l num =
     (let num = num + ucast (mi_ids l ! 0) in
      if unat num > mi_alloc l then
        (let num = (num + num div 4 + (256 + 2)) AND (- 256) in
         if ok then Inr \<lparr>mi_alloc = unat (num - 2),
                         mi_ids = realloc_ids (unat num - 1) (mi_ids l)\<rparr>
         else Inl ENOMEM)
      else Inr l)"

section \<open>Appending\<close>

text \<open>The macro \<open>mdb_midl_xappend\<close>: the list must be big enough.\<close>

definition mdb_midl_xappend :: "mdb_id list \<Rightarrow> mdb_id \<Rightarrow> mdb_id list" where
  "mdb_midl_xappend ids ident =
     (let xlen = ids ! 0 + 1 in (ids[0 := xlen])[unat xlen := ident])"

definition mdb_midl_append :: "bool \<Rightarrow> midl \<Rightarrow> mdb_id \<Rightarrow> mdb_err + midl" where
  "mdb_midl_append ok l ident =
     (case (if unat (mi_ids l ! 0) \<ge> mi_alloc l then mdb_midl_grow ok l (word_of_nat MDB_IDL_UM_MAX) else Inr l) of
        Inl e \<Rightarrow> Inl e
      | Inr l \<Rightarrow>
          (let ids = (mi_ids l)[0 := mi_ids l ! 0 + 1]
           in Inr (l\<lparr>mi_ids := ids[unat (ids ! 0) := ident]\<rparr>)))"

text \<open>\<open>memcpy\<close> of cells into an array.\<close>

definition blit :: "'a list \<Rightarrow> nat \<Rightarrow> 'a list \<Rightarrow> 'a list" where
  "blit dst i src = take i dst @ take (length dst - i) src @ drop (i + length src) dst"

definition mdb_midl_append_list :: "bool \<Rightarrow> midl \<Rightarrow> mdb_id list \<Rightarrow> mdb_err + midl" where
  "mdb_midl_append_list ok l app =
     (case (if unat (mi_ids l ! 0 + app ! 0) \<ge> mi_alloc l
            then mdb_midl_grow ok l (ucast (app ! 0)) else Inr l) of
        Inl e \<Rightarrow> Inl e
      | Inr l \<Rightarrow>
          (let ids = blit (mi_ids l) (unat (mi_ids l ! 0) + 1) (idl_elems app)
           in Inr (l\<lparr>mi_ids := ids[0 := ids ! 0 + app ! 0]\<rparr>)))"

text \<open>\<open>ids += len; while (n) ids[n--] = id++;\<close>\<close>

fun append_range_loop :: "mdb_id list \<Rightarrow> nat \<Rightarrow> mdb_id \<Rightarrow> nat \<Rightarrow> mdb_id list" where
  "append_range_loop ids len ident 0 = ids"
| "append_range_loop ids len ident (Suc n) =
     append_range_loop (ids[len + Suc n := ident]) len (ident + 1) n"

definition mdb_midl_append_range :: "bool \<Rightarrow> midl \<Rightarrow> mdb_id \<Rightarrow> u32 \<Rightarrow> mdb_err + midl" where
  "mdb_midl_append_range ok l ident n =
     (let len = mi_ids l ! 0 in
      case (if unat (len + ucast n) > mi_alloc l
            then mdb_midl_grow ok l (n OR word_of_nat MDB_IDL_UM_MAX) else Inr l) of
        Inl e \<Rightarrow> Inl e
      | Inr l \<Rightarrow>
          (let ids = (mi_ids l)[0 := len + ucast n]
           in Inr (l\<lparr>mi_ids := append_range_loop ids (unat len) ident (unat n)\<rparr>)))"

section \<open>Merging\<close>

text \<open>
  The inner loop moves the elements below \<open>merge_id\<close> up. \<open>ids[0]\<close> holds the largest ID
  while it runs, so it stops at slot 0 at the latest; the model's guard \<open>0 < j\<close> says so.
\<close>

fun xmerge_shift :: "mdb_id list \<Rightarrow> mdb_id \<Rightarrow> nat \<Rightarrow> nat \<Rightarrow> mdb_id list \<times> nat \<times> nat" where
  "xmerge_shift idl merge_id j k =
     (if 0 < j \<and> idl ! j < merge_id
      then xmerge_shift (idl[k := idl ! j]) merge_id (j - 1) (k - 1)
      else (idl, j, k))"

declare xmerge_shift.simps [simp del]

fun xmerge_loop :: "mdb_id list \<Rightarrow> mdb_id list \<Rightarrow> nat \<Rightarrow> nat \<Rightarrow> nat \<Rightarrow> mdb_id list" where
  "xmerge_loop idl merge 0 j k = idl"
| "xmerge_loop idl merge (Suc i) j k =
     (let merge_id = merge ! Suc i;
          (idl, j, k) = xmerge_shift idl merge_id j k
      in xmerge_loop (idl[k := merge_id]) merge i j (k - 1))"

definition mdb_midl_xmerge :: "mdb_id list \<Rightarrow> mdb_id list \<Rightarrow> mdb_id list" where
  "mdb_midl_xmerge idl merge =
     (let i = unat (merge ! 0); j = unat (idl ! 0); total = i + j in
      (xmerge_loop (idl[0 := - 1]) merge i j total)[0 := word_of_nat total])"

section \<open>ID2 lists\<close>

record 'p mdb_id2 =
  mid :: mdb_id
  mptr :: 'p

type_synonym 'p id2l = "'p mdb_id2 list"

definition id2l_count :: "'p id2l \<Rightarrow> nat" where
  "id2l_count dl = unat (mid (dl ! 0))"

definition mdb_mid2l_search :: "'p id2l \<Rightarrow> mdb_id \<Rightarrow> nat" where
  "mdb_mid2l_search ids ident =
     id_search_result (id_search_loop (\<lambda>cursor. CMP ident (mid (ids ! cursor))) 0 1
       (unat (ucast (mid (ids ! 0)) :: u32)) 0)"

text \<open>\<open>for (i = ids[0].mid; i > x; i--) ids[i] = ids[i-1];\<close>\<close>

fun id2l_shift :: "'a list \<Rightarrow> nat \<Rightarrow> nat \<Rightarrow> 'a list" where
  "id2l_shift ids x 0 = ids"
| "id2l_shift ids x (Suc i) =
     (if Suc i > x then id2l_shift (ids[Suc i := ids ! i]) x i else ids)"

text \<open>The result is the C return code: 0, -1 (duplicate) or -2 (too big).\<close>

definition mdb_mid2l_insert :: "'p id2l \<Rightarrow> 'p mdb_id2 \<Rightarrow> int \<times> 'p id2l" where
  "mdb_mid2l_insert ids ident =
     (let x = mdb_mid2l_search ids (mid ident) in
      if x < 1 then (-2, ids)
      else if word_of_nat x \<le> mid (ids ! 0) \<and> mid (ids ! x) = mid ident then (-1, ids)
      else if id2l_count ids \<ge> MDB_IDL_UM_MAX then (-2, ids)
      else
        (let ids = ids[0 := (ids ! 0)\<lparr>mid := mid (ids ! 0) + 1\<rparr>];
             ids = id2l_shift ids x (unat (ucast (mid (ids ! 0)) :: u32))
         in (0, ids[x := ident])))"

definition mdb_mid2l_append :: "'p id2l \<Rightarrow> 'p mdb_id2 \<Rightarrow> int \<times> 'p id2l" where
  "mdb_mid2l_append ids ident =
     (if id2l_count ids \<ge> MDB_IDL_UM_MAX then (-2, ids)
      else
        (let ids = ids[0 := (ids ! 0)\<lparr>mid := mid (ids ! 0) + 1\<rparr>]
         in (0, ids[id2l_count ids := ident])))"

section \<open>Cells of a list\<close>

lemma length_idl_elems [simp]: "idl_ok ids \<Longrightarrow> length (idl_elems ids) = idl_count ids"
  by (auto simp: idl_elems_def idl_ok_def min_def)

lemma nth_idl_elems: "idl_ok ids \<Longrightarrow> i < idl_count ids \<Longrightarrow> idl_elems ids ! i = ids ! Suc i"
  by (cases ids) (auto simp: idl_elems_def idl_ok_def)

lemma idl_elems_map:
  "idl_ok ids \<Longrightarrow> idl_elems ids = map (\<lambda>c. ids ! c) [1..<Suc (idl_count ids)]"
  by (rule nth_equalityI) (simp_all add: nth_idl_elems del: upt_Suc)

lemma CMP_pos [simp]: "0 < CMP x y \<longleftrightarrow> y < x"
  and CMP_neg [simp]: "CMP x y < 0 \<longleftrightarrow> x < y"
  and CMP_zero [simp]: "CMP x y = 0 \<longleftrightarrow> x = y"
  by (auto simp: CMP_def)

lemma idl_cell_less:
  "idl_ok ids \<Longrightarrow> strict_desc (idl_elems ids) \<Longrightarrow> 1 \<le> i \<Longrightarrow> i < j \<Longrightarrow> j \<le> idl_count ids
   \<Longrightarrow> ids ! j < ids ! i"
  using sorted_wrt_nth_less [of "(>)" "idl_elems ids" "i - 1" "j - 1"]
  by (simp add: nth_idl_elems)

interpretation idl_search: strict_slots
  "\<lambda>ids. unat (ucast (ids ! 0) :: u32)" "\<lambda>ids ident c. CMP (ids ! c) (ident :: mdb_id)"
  "\<lambda>ids. idl_ok ids \<and> idl_count ids < 2 ^ 32 \<and> strict_desc (idl_elems ids)"
proof
  fix ids :: "mdb_id list" and ident and i j :: nat
  assume ok: "idl_ok ids \<and> idl_count ids < 2 ^ 32 \<and> strict_desc (idl_elems ids)"
    and i: "1 \<le> i" and j: "j \<le> unat (ucast (ids ! 0) :: u32)"
  then have jn: "j \<le> idl_count ids" by (simp add: idl_count_def)
  have less: "ids ! j < ids ! i" if "i < j" using ok i that jn by (intro idl_cell_less) auto
  then show "CMP (ids ! i) ident = 0 \<Longrightarrow> i < j \<Longrightarrow> CMP (ids ! j) ident < 0" by auto
  assume "i \<le> j"
  then have "ids ! j \<le> ids ! i" using less by (cases "i = j") auto
  then show "0 < CMP (ids ! j) ident \<Longrightarrow> 0 < CMP (ids ! i) ident"
    and "CMP (ids ! i) ident < 0 \<Longrightarrow> CMP (ids ! j) ident < 0" by auto
qed

text \<open>On a strictly descending list the binary search is the linear scan.\<close>

lemma midl_search_linear:
  assumes "idl_ok ids" "idl_count ids < 2 ^ 32" "strict_desc (idl_elems ids)"
  shows "mdb_midl_search ids ident = Suc (length (takeWhile (\<lambda>y. ident < y) (idl_elems ids)))"
proof -
  have n: "unat (ucast (ids ! 0) :: u32) = idl_count ids"
    using assms(2) by (simp add: idl_count_def)
  show ?thesis
    using assms idl_search.search_linear [of ids ident]
    by (simp add: mdb_midl_search_def idl_elems_map takeWhile_map comp_def n del: upt_Suc)
qed

section \<open>ID2 lists keep their order\<close>

definition id2l_ok :: "'p id2l \<Rightarrow> bool" where
  "id2l_ok dl \<longleftrightarrow> dl \<noteq> [] \<and> id2l_count dl < length dl"

definition id2l_elems :: "'p id2l \<Rightarrow> 'p mdb_id2 list" where
  "id2l_elems dl = take (id2l_count dl) (tl dl)"

text \<open>A dirty list: \<open>MDB_IDL_UM_SIZE\<close> cells, sorted by ID without duplicates.\<close>

definition id2l_wf :: "'p id2l \<Rightarrow> bool" where
  "id2l_wf dl \<longleftrightarrow> length dl = MDB_IDL_UM_SIZE \<and> id2l_count dl \<le> MDB_IDL_UM_MAX
     \<and> sorted_wrt (<) (map mid (id2l_elems dl))"

lemma MDB_IDL_UM_SIZE_value [simp]: "MDB_IDL_UM_SIZE = 131072"
  and MDB_IDL_UM_MAX_value [simp]: "MDB_IDL_UM_MAX = 131071"
  by (simp_all add: MDB_IDL_UM_MAX_def MDB_IDL_UM_SIZE_def MDB_IDL_LOGN_def)

lemma id2l_wf_ok: "id2l_wf dl \<Longrightarrow> id2l_ok dl"
  by (auto simp: id2l_wf_def id2l_ok_def)

lemma length_id2l_elems [simp]: "id2l_ok dl \<Longrightarrow> length (id2l_elems dl) = id2l_count dl"
  by (auto simp: id2l_elems_def id2l_ok_def min_def)

lemma nth_id2l_elems: "id2l_ok dl \<Longrightarrow> i < id2l_count dl \<Longrightarrow> id2l_elems dl ! i = dl ! Suc i"
  by (cases dl) (auto simp: id2l_elems_def id2l_ok_def)

lemma id2l_elems_map:
  "id2l_ok dl \<Longrightarrow> id2l_elems dl = map (\<lambda>c. dl ! c) [1..<Suc (id2l_count dl)]"
  by (rule nth_equalityI) (simp_all add: nth_id2l_elems del: upt_Suc)

lemma id2l_cell_less:
  "id2l_wf dl \<Longrightarrow> 1 \<le> i \<Longrightarrow> i < j \<Longrightarrow> j \<le> id2l_count dl \<Longrightarrow> mid (dl ! i) < mid (dl ! j)"
  using sorted_wrt_nth_less [of "(<)" "map mid (id2l_elems dl)" "i - 1" "j - 1"] id2l_wf_ok [of dl]
  by (simp add: nth_id2l_elems id2l_wf_def)

interpretation id2l_search: strict_slots
  "\<lambda>dl. unat (ucast (mid (dl ! 0)) :: u32)" "\<lambda>dl ident c. CMP ident (mid (dl ! c))"
  "id2l_wf :: 'p id2l \<Rightarrow> bool"
proof
  fix dl :: "'p id2l" and ident and i j :: nat
  assume ok: "id2l_wf dl" and i: "1 \<le> i" and j: "j \<le> unat (ucast (mid (dl ! 0)) :: u32)"
  then have jn: "j \<le> id2l_count dl" by (simp add: id2l_count_def id2l_wf_def)
  have less: "mid (dl ! i) < mid (dl ! j)" if "i < j" using ok i that jn by (rule id2l_cell_less)
  then show "CMP ident (mid (dl ! i)) = 0 \<Longrightarrow> i < j \<Longrightarrow> CMP ident (mid (dl ! j)) < 0" by auto
  assume "i \<le> j"
  then have "mid (dl ! i) \<le> mid (dl ! j)" using less by (cases "i = j") auto
  then show "0 < CMP ident (mid (dl ! j)) \<Longrightarrow> 0 < CMP ident (mid (dl ! i))"
    and "CMP ident (mid (dl ! i)) < 0 \<Longrightarrow> CMP ident (mid (dl ! j)) < 0" by auto
qed

lemma unat_id2l_count [simp]:
  "id2l_wf dl \<Longrightarrow> unat (ucast (mid (dl ! 0)) :: u32) = id2l_count dl"
  by (simp add: id2l_count_def id2l_wf_def)

lemma mid2l_search_linear:
  assumes "id2l_wf dl"
  shows "mdb_mid2l_search dl ident =
    Suc (length (takeWhile (\<lambda>e. mid e < ident) (id2l_elems dl)))"
  using assms id2l_search.search_linear [of dl ident]
  by (simp add: mdb_mid2l_search_def id2l_elems_map id2l_wf_ok takeWhile_map comp_def del: upt_Suc)

lemma mid2l_search_bounds:
  assumes "id2l_wf dl"
  shows "1 \<le> mdb_mid2l_search dl ident" "mdb_mid2l_search dl ident \<le> Suc (id2l_count dl)"
  using id2l_search.search_separates(1,2) [OF assms mdb_mid2l_search_def] assms by auto

lemma mid2l_search_found:
  assumes "id2l_wf dl"
  shows "mdb_mid2l_search dl ident \<le> id2l_count dl \<and> mid (dl ! mdb_mid2l_search dl ident) = ident
    \<longleftrightarrow> ident \<in> mid ` set (id2l_elems dl)"
  using id2l_search.search_found [OF assms mdb_mid2l_search_def, of ident] assms
  by (auto simp: id2l_elems_map id2l_wf_ok simp del: upt_Suc)

lemma id2l_shift_nth:
  "i < length ids \<Longrightarrow> k < length ids \<Longrightarrow>
   id2l_shift ids x i ! k = (if x < k \<and> k \<le> i then ids ! (k - 1) else ids ! k)"
  by (induction ids x i rule: id2l_shift.induct) (auto simp: nth_list_update le_Suc_eq)

lemma length_id2l_shift [simp]: "length (id2l_shift ids x i) = length ids"
  by (induction ids x i rule: id2l_shift.induct) auto

lemma word_of_nat_le_iff:
  "x < 2 ^ 64 \<Longrightarrow> (word_of_nat x :: u64) \<le> w \<longleftrightarrow> x \<le> unat w"
  by (simp add: word_le_nat_alt unat_of_nat)

lemma unat_inc: "unat (w :: u64) < 2 ^ 63 \<Longrightarrow> unat (w + 1) = Suc (unat w)"
  by (simp add: unat_word_ariths)

text \<open>The cells after an insertion at slot \<open>x\<close>.\<close>

lemma id2l_elems_insert:
  assumes "id2l_wf dl" "id2l_count dl < MDB_IDL_UM_MAX" "1 \<le> x" "x \<le> Suc (id2l_count dl)"
    and d: "d = dl[0 := (dl ! 0)\<lparr>mid := mid (dl ! 0) + 1\<rparr>]"
    and d': "d' = (id2l_shift d x (Suc (id2l_count dl)))[x := e]"
  shows "id2l_count d' = Suc (id2l_count dl)" "length d' = length dl"
    "id2l_elems d' = insert_at (x - 1) e (id2l_elems dl)"
proof -
  have len: "length dl = 131072" "id2l_count dl < 131071" using assms(1,2) by (auto simp: id2l_wf_def)
  have d0: "d' ! 0 = d ! 0" using assms(3,4) len by (simp add: d' d id2l_shift_nth)
  show c: "id2l_count d' = Suc (id2l_count dl)"
    using len unat_inc [of "mid (dl ! 0)"] by (simp add: id2l_count_def d0) (simp add: d)
  show l: "length d' = length dl" by (simp add: d d')
  have ok: "id2l_ok d'" "id2l_ok dl" using c l len by (auto simp: id2l_ok_def)
  show "id2l_elems d' = insert_at (x - 1) e (id2l_elems dl)"
  proof (rule nth_equalityI)
    show "length (id2l_elems d') = length (insert_at (x - 1) e (id2l_elems dl))"
      using assms(3,4) c ok by simp
    fix i assume "i < length (id2l_elems d')"
    then have i: "i \<le> id2l_count dl" using c ok by simp
    then have "d' ! Suc i = (if Suc i = x then e else if x < Suc i then dl ! i else dl ! Suc i)"
      using assms(3) len
      by (cases "i = id2l_count dl") (auto simp: d' d id2l_shift_nth nth_list_update)
    then show "id2l_elems d' ! i = insert_at (x - 1) e (id2l_elems dl) ! i"
      using i assms(3,4) ok c by (auto simp: nth_insert_at nth_id2l_elems)
  qed
qed

lemma mid2l_insert_sorted:
  assumes "id2l_wf dl" and new: "mid e \<notin> mid ` set (id2l_elems dl)"
  shows "sorted_wrt (<) (map mid (insert_at
      (length (takeWhile (\<lambda>d. mid d < mid e) (id2l_elems dl))) e (id2l_elems dl)))"
proof -
  let ?P = "\<lambda>d. mid d < mid e"
  define as bs where "as = takeWhile ?P (id2l_elems dl)" and "bs = dropWhile ?P (id2l_elems dl)"
  have xs: "id2l_elems dl = as @ bs" by (simp add: as_def bs_def)
  have s: "sorted_wrt (<) (map mid as)" "sorted_wrt (<) (map mid bs)"
    "\<And>a b. a \<in> set as \<Longrightarrow> b \<in> set bs \<Longrightarrow> mid a < mid b"
    using assms(1) by (auto simp: id2l_wf_def xs sorted_wrt_append)
  have below: "mid a < mid e" if "a \<in> set as" for a
    using that unfolding as_def by (rule set_takeWhileD [THEN conjunct2])
  have above: "mid e < mid b" if b: "b \<in> set bs" for b
  proof -
    obtain y ys where y: "bs = y # ys" using b by (cases bs) auto
    then have "mid e \<le> mid y" using hd_dropWhile [of ?P "id2l_elems dl"] by (auto simp: bs_def)
    moreover have "mid y \<noteq> mid e" using new xs y by force
    moreover have "mid y \<le> mid b" using s(2) b y by auto
    ultimately show ?thesis by simp
  qed
  have "insert_at (length as) e (id2l_elems dl) = as @ e # bs" by (simp add: insert_at_def xs)
  then show ?thesis
    using s below above by (auto simp: as_def [symmetric] sorted_wrt_append)
qed

lemma id2l_wf_insert:
  assumes "id2l_wf dl"
  shows "case mdb_mid2l_insert dl e of (rc, dl') \<Rightarrow> id2l_wf dl' \<and>
    (if mid e \<in> mid ` set (id2l_elems dl) then rc = -1 \<and> dl' = dl
     else if id2l_count dl = MDB_IDL_UM_MAX then rc = -2 \<and> dl' = dl
     else rc = 0 \<and> id2l_elems dl' =
       insert_at (length (takeWhile (\<lambda>d. mid d < mid e) (id2l_elems dl))) e (id2l_elems dl))"
proof -
  let ?x = "mdb_mid2l_search dl (mid e)"
  have b: "1 \<le> ?x" "?x \<le> Suc (id2l_count dl)" using assms by (rule mid2l_search_bounds)+
  have c: "id2l_count dl \<le> 131071" using assms by (simp add: id2l_wf_def)
  have le: "word_of_nat ?x \<le> mid (dl ! 0) \<longleftrightarrow> ?x \<le> id2l_count dl"
    using b c by (simp add: word_of_nat_le_iff id2l_count_def)
  have dup: "word_of_nat ?x \<le> mid (dl ! 0) \<and> mid (dl ! ?x) = mid e \<longleftrightarrow> mid e \<in> mid ` set (id2l_elems dl)"
    unfolding le using assms by (rule mid2l_search_found)
  consider (dup) "mid e \<in> mid ` set (id2l_elems dl)"
    | (full) "mid e \<notin> mid ` set (id2l_elems dl)" "id2l_count dl = 131071"
    | (room) "mid e \<notin> mid ` set (id2l_elems dl)" "id2l_count dl < 131071"
    using c by linarith
  then show ?thesis
  proof cases
    case dup
    then show ?thesis using assms b \<open>_ \<longleftrightarrow> mid e \<in> mid ` set (id2l_elems dl)\<close>
      by (simp add: mdb_mid2l_insert_def Let_def)
  next
    case full
    then show ?thesis using assms b dup by (simp add: mdb_mid2l_insert_def Let_def)
  next
    case room
    define d where "d = dl[0 := (dl ! 0)\<lparr>mid := mid (dl ! 0) + 1\<rparr>]"
    define d' where "d' = (id2l_shift d ?x (Suc (id2l_count dl)))[?x := e]"
    have ins: "id2l_count d' = Suc (id2l_count dl)" "length d' = length dl"
      "id2l_elems d' = insert_at (?x - 1) e (id2l_elems dl)"
      using id2l_elems_insert [OF assms _ b d_def d'_def] room by auto
    have "length dl = 131072" using assms by (simp add: id2l_wf_def)
    then have "unat (ucast (mid (d ! 0)) :: u32) = Suc (id2l_count dl)"
      using room unat_inc [of "mid (dl ! 0)"] by (simp add: d_def id2l_count_def)
    then have "mdb_mid2l_insert dl e = (0, d')"
      using b room dup by (simp add: mdb_mid2l_insert_def Let_def d_def [symmetric] d'_def)
    moreover have "id2l_elems d' =
        insert_at (length (takeWhile (\<lambda>d. mid d < mid e) (id2l_elems dl))) e (id2l_elems dl)"
      unfolding ins(3) using mid2l_search_linear [OF assms] by simp
    ultimately show ?thesis
      using ins(1,2) room assms mid2l_insert_sorted [OF assms room(1)]
      by (simp add: id2l_wf_def)
  qed
qed

end
