(* ===== verification/Midl_Lists.thy ===== *)
theory Midl_Lists
  imports Midl
begin

text \<open>
  What the ID list operations promise: growth and appending keep an allocation well formed
  and extend the list, reserving room leaves the elements alone, and merging two descending
  lists gives their descending merge.
\<close>

named_theorems idl_simps \<open>cells and elements of ID lists after an operation\<close>

section \<open>Reallocation\<close>

lemma length_realloc_ids [simp]: "length (realloc_ids k ids) = k"
  by (simp add: realloc_ids_def)

lemma nth_realloc_ids [idl_simps]:
  "i < k \<Longrightarrow> i < length ids \<Longrightarrow> realloc_ids k ids ! i = ids ! i"
  by (simp add: realloc_ids_def nth_append)

lemma idl_count_realloc [idl_simps]:
  "0 < k \<Longrightarrow> ids \<noteq> [] \<Longrightarrow> idl_count (realloc_ids k ids) = idl_count ids"
  by (simp add: idl_count_def nth_realloc_ids)

lemma idl_ok_realloc [idl_simps]:
  assumes "idl_ok ids" "idl_count ids < k"
  shows "idl_ok (realloc_ids k ids)"
  using assms idl_count_realloc [of k ids] by (auto simp: idl_ok_def realloc_ids_def)

lemma idl_elems_realloc [idl_simps]:
  assumes "idl_ok ids" "idl_count ids < k"
  shows "idl_elems (realloc_ids k ids) = idl_elems ids"
proof (rule nth_equalityI)
  have ok: "idl_ok (realloc_ids k ids)" and c: "idl_count (realloc_ids k ids) = idl_count ids"
    using assms idl_ok_realloc idl_count_realloc [of k ids] by (auto simp: idl_ok_def)
  then show "length (idl_elems (realloc_ids k ids)) = length (idl_elems ids)"
    using assms by simp
  fix i assume "i < length (idl_elems (realloc_ids k ids))"
  then show "idl_elems (realloc_ids k ids) ! i = idl_elems ids ! i"
    using assms ok c by (auto simp: nth_idl_elems nth_realloc_ids idl_ok_def)
qed

text \<open>Cells that agree with a list up to its count, with a larger count, extend it.\<close>

lemma idl_elems_extend:
  assumes "idl_ok ids" "idl_ok ids'" "idl_count ids' = idl_count ids + n"
    and "\<And>i. 1 \<le> i \<Longrightarrow> i \<le> idl_count ids \<Longrightarrow> ids' ! i = ids ! i"
  shows "idl_elems ids' = idl_elems ids @ map (\<lambda>i. ids' ! (idl_count ids + Suc i)) [0..<n]"
proof (rule nth_equalityI)
  show "length (idl_elems ids')
      = length (idl_elems ids @ map (\<lambda>i. ids' ! (idl_count ids + Suc i)) [0..<n])"
    using assms by simp
  fix i assume "i < length (idl_elems ids')"
  then show "idl_elems ids' ! i
      = (idl_elems ids @ map (\<lambda>i. ids' ! (idl_count ids + Suc i)) [0..<n]) ! i"
    using assms by (auto simp: nth_idl_elems nth_append)
qed

lemma sint_small:
  assumes "unat (w :: u32) < 2 ^ 31"
  shows "sint w = int (unat w)"
proof -
  have "int (unat w) < int (2 ^ 31)" using assms by (rule of_nat_less_iff [THEN iffD2])
  then have u: "uint w < 2 ^ 31" by simp
  show ?thesis
    using u order_trans [of "- (2 ^ 31)" 0 "uint w"]
    by (simp add: sint_uint signed_take_bit_int_eq_self)
qed

lemma scast_small:
  "unat (w :: u32) < 2 ^ 31 \<Longrightarrow> (scast w :: u64) = word_of_nat (unat w)"
  by (simp add: scast_eq sint_small)

text \<open>\<open>mdb_midl_grow\<close> adds \<open>num\<close> cells and keeps the elements.\<close>

lemma midl_grow:
  assumes "midl_wf l" "unat num < 2 ^ 31" "mi_alloc l + unat num < 2 ^ 31"
  shows "mdb_midl_grow True l num = Inr \<lparr>mi_alloc = mi_alloc l + unat num,
      mi_ids = realloc_ids (mi_alloc l + unat num + 1) (mi_ids l)\<rparr>"
proof -
  have "unat (word_of_nat (mi_alloc l) + scast num :: u64) = mi_alloc l + unat num"
    unfolding scast_small [OF assms(2)] of_nat_add [symmetric]
    using assms(3) by (simp only: unat_of_nat) simp
  moreover from this have "unat (word_of_nat (mi_alloc l) + scast num + 2 :: u64) = mi_alloc l + unat num + 2"
    using assms(2,3) by (simp add: unat_word_ariths)
  ultimately show ?thesis by (simp add: mdb_midl_grow_def Let_def)
qed

lemma midl_wf_realloc:
  assumes "midl_wf l" "mi_alloc l \<le> a" "a < 2 ^ 31" "a + 1 \<le> k"
  shows "midl_wf \<lparr>mi_alloc = a, mi_ids = realloc_ids k (mi_ids l)\<rparr>"
    "idl_elems (realloc_ids k (mi_ids l)) = idl_elems (mi_ids l)"
    "realloc_ids k (mi_ids l) ! 0 = mi_ids l ! 0"
    "idl_count (realloc_ids k (mi_ids l)) = idl_count (mi_ids l)"
proof -
  have ok: "idl_ok (mi_ids l)" "idl_count (mi_ids l) < k" "mi_ids l \<noteq> []" "0 < k"
    using assms by (auto simp: midl_wf_def idl_ok_def)
  show "idl_elems (realloc_ids k (mi_ids l)) = idl_elems (mi_ids l)"
    using ok by (simp add: idl_simps)
  show "realloc_ids k (mi_ids l) ! 0 = mi_ids l ! 0" using ok by (simp add: idl_simps)
  show c: "idl_count (realloc_ids k (mi_ids l)) = idl_count (mi_ids l)"
    using ok by (simp add: idl_simps)
  show "midl_wf \<lparr>mi_alloc = a, mi_ids = realloc_ids k (mi_ids l)\<rparr>"
    using ok assms by (simp add: midl_wf_def idl_ok_realloc c)
qed

section \<open>Appending\<close>

lemma unat_add_64: "unat (a :: u64) + unat b < 2 ^ 64 \<Longrightarrow> unat (a + b) = unat a + unat b"
  by (simp add: unat_word_ariths)

text \<open>Filling \<open>n\<close> cells after the count and raising the count extends the list by them.\<close>

lemma idl_fill:
  assumes wf: "midl_wf l" and room: "idl_count (mi_ids l) + length xs \<le> mi_alloc l"
    and len: "length ids' = length (mi_ids l)"
    and count: "unat (ids' ! 0) = idl_count (mi_ids l) + length xs"
    and old: "\<And>k. 1 \<le> k \<Longrightarrow> k \<le> idl_count (mi_ids l) \<Longrightarrow> ids' ! k = mi_ids l ! k"
    and new: "\<And>k. k < length xs \<Longrightarrow> ids' ! (idl_count (mi_ids l) + Suc k) = xs ! k"
  shows "midl_wf (l\<lparr>mi_ids := ids'\<rparr>)" "idl_elems ids' = idl_elems (mi_ids l) @ xs"
proof -
  have ok: "idl_ok (mi_ids l)" and a: "Suc (mi_alloc l) \<le> length (mi_ids l)" "mi_alloc l < 2 ^ 31"
    using wf by (auto simp: midl_wf_def)
  have c: "idl_count ids' = idl_count (mi_ids l) + length xs" using count by (simp add: idl_count_def)
  have ok': "idl_ok ids'" using c len a room ok by (auto simp: idl_ok_def)
  show "midl_wf (l\<lparr>mi_ids := ids'\<rparr>)" using ok' c room a len by (simp add: midl_wf_def)
  have "map (\<lambda>i. ids' ! (idl_count (mi_ids l) + Suc i)) [0..<length xs] = xs"
    by (rule nth_equalityI) (use new in auto)
  then show "idl_elems ids' = idl_elems (mi_ids l) @ xs"
    using idl_elems_extend [OF ok ok' c old] by simp
qed

text \<open>The macro appends in place, where the list has room.\<close>

lemma midl_xappend_spec:
  assumes "midl_wf l" "idl_count (mi_ids l) < mi_alloc l"
  shows "idl_elems (mdb_midl_xappend (mi_ids l) x) = idl_elems (mi_ids l) @ [x]"
    and "midl_wf (l\<lparr>mi_ids := mdb_midl_xappend (mi_ids l) x\<rparr>)"
proof -
  let ?n = "idl_count (mi_ids l)"
  have n: "?n < mi_alloc l" "mi_alloc l < 2 ^ 31" "Suc (mi_alloc l) \<le> length (mi_ids l)"
      "mi_ids l \<noteq> []"
    using assms by (auto simp: midl_wf_def)
  have inc: "unat (mi_ids l ! 0 + 1) = Suc ?n"
    using n by (simp add: idl_count_def unat_inc)
  have cells: "mdb_midl_xappend (mi_ids l) x = (mi_ids l)[0 := mi_ids l ! 0 + 1, Suc ?n := x]"
    by (simp add: mdb_midl_xappend_def inc Let_def)
  have "midl_wf (l\<lparr>mi_ids := mdb_midl_xappend (mi_ids l) x\<rparr>) \<and>
      idl_elems (mdb_midl_xappend (mi_ids l) x) = idl_elems (mi_ids l) @ [x]"
    by (intro conjI; rule idl_fill [OF assms(1), where xs = "[x]"]) (use n inc in \<open>auto simp: cells\<close>)
  then show "idl_elems (mdb_midl_xappend (mi_ids l) x) = idl_elems (mi_ids l) @ [x]"
    and "midl_wf (l\<lparr>mi_ids := mdb_midl_xappend (mi_ids l) x\<rparr>)" by auto
qed

text \<open>
  Appending one ID: with no room left the list grows first, and only then can the
  operation fail; the elements are those of before and the new one at the end.
\<close>

lemma midl_append_xappend:
  "midl_wf l \<Longrightarrow> (let ids = (mi_ids l)[0 := mi_ids l ! 0 + 1] in ids[unat (ids ! 0) := x])
    = mdb_midl_xappend (mi_ids l) x"
  by (auto simp: mdb_midl_xappend_def midl_wf_def idl_ok_def Let_def)

lemma midl_append_spec:
  assumes "midl_wf l" "mi_alloc l + MDB_IDL_UM_MAX < 2 ^ 31"
  shows "case mdb_midl_append ok l x of
      Inl e \<Rightarrow> e = ENOMEM \<and> \<not> ok \<and> idl_count (mi_ids l) = mi_alloc l
    | Inr l' \<Rightarrow> midl_wf l' \<and> idl_elems (mi_ids l') = idl_elems (mi_ids l) @ [x] \<and>
        mi_alloc l \<le> mi_alloc l'"
proof (cases "idl_count (mi_ids l) < mi_alloc l")
  case True
  then show ?thesis
    using midl_xappend_spec [OF assms(1) True, of x] assms(1)
    by (simp add: mdb_midl_append_def midl_append_xappend [unfolded Let_def] idl_count_def Let_def)
next
  case False
  then have full: "idl_count (mi_ids l) = mi_alloc l" using assms(1) by (simp add: midl_wf_def)
  show ?thesis
  proof (cases ok)
    case False
    then show ?thesis
      using full by (simp add: mdb_midl_append_def idl_count_def mdb_midl_grow_def)
  next
    case True
    let ?g = "\<lparr>mi_alloc = mi_alloc l + 131071, mi_ids = realloc_ids (131072 + mi_alloc l) (mi_ids l)\<rparr>"
    have u: "unat (word_of_nat 131071 :: u32) = 131071" by simp
    have g: "mdb_midl_grow True l (word_of_nat MDB_IDL_UM_MAX) = Inr ?g"
      using midl_grow [OF assms(1), of "word_of_nat MDB_IDL_UM_MAX"] assms(2)
      unfolding u MDB_IDL_UM_MAX_value by simp
    have w: "midl_wf ?g" "idl_elems (mi_ids ?g) = idl_elems (mi_ids l)"
      "mi_ids ?g ! 0 = mi_ids l ! 0" "idl_count (mi_ids ?g) = idl_count (mi_ids l)"
      using midl_wf_realloc [OF assms(1), of "mi_alloc l + 131071" "131072 + mi_alloc l"] assms(2)
      by simp_all
    show ?thesis
      using midl_xappend_spec [OF w(1), of x] w full True g
        midl_append_xappend [OF w(1), unfolded Let_def, of x]
      by (simp add: mdb_midl_append_def idl_count_def Let_def)
  qed
qed

section \<open>Appending lists and ranges\<close>

lemma length_blit [simp]: "i \<le> length dst \<Longrightarrow> length (blit dst i src) = length dst"
  by (auto simp: blit_def min_def)

lemma nth_blit:
  "i + length src \<le> length dst \<Longrightarrow> k < length dst \<Longrightarrow>
   blit dst i src ! k = (if i \<le> k \<and> k < i + length src then src ! (k - i) else dst ! k)"
  by (auto simp: blit_def nth_append min_def)

lemma midl_append_list_spec:
  assumes "midl_wf l" "idl_ok app" "mi_alloc l + idl_count app < 2 ^ 31"
  shows "case mdb_midl_append_list ok l app of
      Inl e \<Rightarrow> e = ENOMEM \<and> \<not> ok
    | Inr l' \<Rightarrow> midl_wf l' \<and> idl_elems (mi_ids l') = idl_elems (mi_ids l) @ idl_elems app"
proof -
  let ?n = "idl_count (mi_ids l)" and ?m = "idl_count app"
  have n: "?n \<le> mi_alloc l" using assms(1) by (simp add: midl_wf_def)
  have sum: "unat (mi_ids l ! 0 + app ! 0) = ?n + ?m"
    using assms(3) n by (simp add: idl_count_def unat_add_64)
  have fill: "midl_wf (g\<lparr>mi_ids := (blit (mi_ids g) (Suc ?n) (idl_elems app))[0 := mi_ids l ! 0 + app ! 0]\<rparr>)
      \<and> idl_elems ((blit (mi_ids g) (Suc ?n) (idl_elems app))[0 := mi_ids l ! 0 + app ! 0])
        = idl_elems (mi_ids l) @ idl_elems app"
    if g: "midl_wf g" "idl_elems (mi_ids g) = idl_elems (mi_ids l)" "idl_count (mi_ids g) = ?n"
      "?n + ?m \<le> mi_alloc g" for g
  proof -
    have len: "Suc (?n + ?m) \<le> length (mi_ids g)" "0 < length (mi_ids g)"
      using g(1,4) by (auto simp: midl_wf_def idl_ok_def)
    show ?thesis
      unfolding g(2) [symmetric]
      by (intro conjI; rule idl_fill [OF g(1), where xs = "idl_elems app"])
        (use g(3,4) len assms(2) sum in \<open>auto simp: nth_blit nth_list_update\<close>)
  qed
  have blit0: "blit (mi_ids g) (Suc ?n) (idl_elems app) ! 0 = mi_ids g ! 0" if "midl_wf g" for g
    using that by (cases "mi_ids g") (auto simp: blit_def midl_wf_def idl_ok_def)
  show ?thesis
  proof (cases "?n + ?m < mi_alloc l")
    case True
    then show ?thesis
      using fill [OF assms(1)] blit0 [OF assms(1)] sum
      by (simp add: mdb_midl_append_list_def Let_def idl_count_def)
  next
    case False
    show ?thesis
    proof (cases ok)
      case False
      then show ?thesis
        using \<open>\<not> ?n + ?m < mi_alloc l\<close> sum by (simp add: mdb_midl_append_list_def mdb_midl_grow_def)
    next
      case True
      define g where "g = \<lparr>mi_alloc = mi_alloc l + ?m, mi_ids = realloc_ids (mi_alloc l + ?m + 1) (mi_ids l)\<rparr>"
      have m: "unat (ucast (app ! 0) :: u32) = ?m"
        using assms(3) by (simp add: idl_count_def)
      have grow: "mdb_midl_grow True l (ucast (app ! 0)) = Inr g"
        using midl_grow [OF assms(1), of "ucast (app ! 0)"] assms(3) by (simp add: m g_def)
      have w: "midl_wf g" "idl_elems (mi_ids g) = idl_elems (mi_ids l)"
        "mi_ids g ! 0 = mi_ids l ! 0" "idl_count (mi_ids g) = ?n"
        using midl_wf_realloc [OF assms(1), of "mi_alloc l + ?m" "mi_alloc l + ?m + 1"] assms(3)
        by (simp_all add: g_def)
      have "?n + ?m \<le> mi_alloc g" using n by (simp add: g_def)
      then show ?thesis
        using fill [OF w(1,2,4)] blit0 [OF w(1)] w(3) sum \<open>\<not> ?n + ?m < mi_alloc l\<close> True grow
        by (simp add: mdb_midl_append_list_def Let_def idl_count_def)
    qed
  qed
qed

text \<open>The loop of \<open>mdb_midl_append_range\<close> writes the range downwards from its highest cell.\<close>

lemma append_range_loop_cells:
  "len + n < length ids \<Longrightarrow> k < length ids \<Longrightarrow>
   append_range_loop ids len ident n ! k =
     (if len < k \<and> k \<le> len + n then ident + word_of_nat (len + n - k) else ids ! k)"
  by (induction ids len ident n arbitrary: k rule: append_range_loop.induct)
    (auto simp: nth_list_update le_Suc_eq Suc_diff_le algebra_simps)

lemma length_append_range_loop [simp]: "length (append_range_loop ids len ident n) = length ids"
  by (induction ids len ident n rule: append_range_loop.induct) auto

lemma or_word_ge: "unat n \<le> unat (n OR m)"
proof -
  have "uint n \<le> uint n OR uint m" by (rule or_greater_eq) simp
  then have "n \<le> n OR m" by (simp add: word_le_def unsigned_or_eq)
  then show ?thesis by (simp add: word_le_nat_alt)
qed

text \<open>
  A range of \<open>n\<close> IDs from \<open>ident\<close> up is appended highest first, so that the list can
  stay descending.
\<close>

lemma midl_append_range_spec:
  assumes "midl_wf l" "mi_alloc l + unat (n OR word_of_nat MDB_IDL_UM_MAX) < 2 ^ 31"
  shows "case mdb_midl_append_range ok l ident n of
      Inl e \<Rightarrow> e = ENOMEM \<and> \<not> ok
    | Inr l' \<Rightarrow> midl_wf l' \<and> idl_elems (mi_ids l') =
        idl_elems (mi_ids l) @ rev (map (\<lambda>i. ident + word_of_nat i) [0..<unat n])"
proof -
  let ?c = "idl_count (mi_ids l)" and ?g = "n OR word_of_nat MDB_IDL_UM_MAX"
  define new where "new = rev (map (\<lambda>i. ident + word_of_nat i :: u64) [0..<unat n])"
  have c: "?c \<le> mi_alloc l" using assms(1) by (simp add: midl_wf_def)
  have nb: "unat n \<le> unat ?g" by (rule or_word_ge)
  have sum: "unat (mi_ids l ! 0 + ucast n) = ?c + unat n"
    using assms(2) c nb by (simp add: idl_count_def unat_add_64 unsigned_ucast_eq take_bit_nat_eq_self)
  have fill: "midl_wf (g\<lparr>mi_ids := append_range_loop ((mi_ids g)[0 := mi_ids l ! 0 + ucast n]) ?c ident (unat n)\<rparr>)
      \<and> idl_elems (append_range_loop ((mi_ids g)[0 := mi_ids l ! 0 + ucast n]) ?c ident (unat n))
        = idl_elems (mi_ids l) @ new"
    if g: "midl_wf g" "idl_elems (mi_ids g) = idl_elems (mi_ids l)" "idl_count (mi_ids g) = ?c"
      "?c + unat n \<le> mi_alloc g" for g
  proof -
    have len: "?c + unat n < length (mi_ids g)" "0 < length (mi_ids g)"
      using g(1,4) by (auto simp: midl_wf_def idl_ok_def)
    show ?thesis
      unfolding g(2) [symmetric]
      by (intro conjI; rule idl_fill [OF g(1), where xs = new])
        (use g(3,4) len sum in \<open>auto simp: append_range_loop_cells new_def rev_nth\<close>)
  qed
  show ?thesis
  proof (cases "?c + unat n \<le> mi_alloc l")
    case True
    then show ?thesis
      using fill [OF assms(1)] sum
      by (simp add: mdb_midl_append_range_def Let_def idl_count_def new_def)
  next
    case False
    show ?thesis
    proof (cases ok)
      case False
      then show ?thesis
        using \<open>\<not> ?c + unat n \<le> mi_alloc l\<close> sum
        by (simp add: mdb_midl_append_range_def mdb_midl_grow_def)
    next
      case True
      define a where "a = mi_alloc l + unat ?g"
      define g where "g = \<lparr>mi_alloc = a, mi_ids = realloc_ids (a + 1) (mi_ids l)\<rparr>"
      have grow: "mdb_midl_grow True l ?g = Inr g"
        using midl_grow [OF assms(1), of ?g] assms(2) by (simp add: g_def a_def)
      have w: "midl_wf g" "idl_elems (mi_ids g) = idl_elems (mi_ids l)" "idl_count (mi_ids g) = ?c"
        using midl_wf_realloc [OF assms(1), of a "a + 1"] assms(2) by (simp_all add: g_def a_def)
      have "?c + unat n \<le> mi_alloc g" using c nb by (simp add: g_def a_def)
      then show ?thesis
        using fill [OF w(1,2,3)] sum \<open>\<not> ?c + unat n \<le> mi_alloc l\<close> True grow
        by (simp add: mdb_midl_append_range_def Let_def idl_count_def new_def)
    qed
  qed
qed

section \<open>Reserving room\<close>

lemma and_neg_256: "unat (w AND (- 256) :: u32) = unat w - unat w mod 256"
proof -
  have "w AND (- 256) = w - take_bit 8 w"
  proof -
    have "(- 256 :: u32) = NOT (mask 8)" by (simp add: mask_eq_exp_minus_1 not_eq_complement)
    then have "w AND (- 256) = w AND NOT (mask 8)" by (simp only:)
    also have "\<dots> = push_bit 8 (drop_bit 8 w)"
      by (intro bit_word_eqI) (auto simp: bit_simps)
    finally show ?thesis using bits_ident [of 8 w] by (simp add: eq_diff_eq)
  qed
  moreover have "unat (take_bit 8 w) = unat w mod 256"
    unfolding unsigned_take_bit_eq by (simp add: take_bit_eq_mod)
  ultimately show ?thesis by (simp add: unat_sub word_le_nat_alt)
qed

text \<open>
  \<open>mdb_midl_need\<close>: afterwards there is room for \<open>num\<close> more elements, and the elements
  are those of before.
\<close>

lemma midl_need_spec:
  assumes "midl_wf l" "idl_count (mi_ids l) + unat num < 2 ^ 30"
  shows "case mdb_midl_need ok l num of
      Inl e \<Rightarrow> e = ENOMEM \<and> \<not> ok
    | Inr l' \<Rightarrow> midl_wf l' \<and> idl_elems (mi_ids l') = idl_elems (mi_ids l)
        \<and> idl_count (mi_ids l) + unat num \<le> mi_alloc l'"
proof -
  let ?c = "idl_count (mi_ids l)"
  define m where "m = ?c + unat num"
  define w where "w = num + ucast (mi_ids l ! 0)"
  have m: "unat w = m" "m < 1073741824"
    using assms(2) by (simp_all add: w_def m_def idl_count_def unat_word_ariths unsigned_ucast_eq take_bit_nat_eq_self)
  have "unat (w div 4) = m div 4" by (simp add: unat_div_distrib m(1))
  then have s: "unat (w + w div 4 + (256 + 2)) = m + m div 4 + 258"
    using m by (simp add: unat_word_ariths)
  define r where "r = (m + m div 4 + 258) - (m + m div 4 + 258) mod 256"
  have r: "unat ((w + w div 4 + (256 + 2)) AND (- 256)) = r"
    unfolding and_neg_256 s r_def ..
  have rb: "m + 3 \<le> r" "r < 2 ^ 31" using m(2) by (auto simp: r_def)
  have r2: "unat (((w + w div 4 + (256 + 2)) AND (- 256)) - 2) = r - 2"
    using rb(1) r by (simp add: unat_sub_if')
  show ?thesis
  proof (cases "m > mi_alloc l")
    case False
    then show ?thesis
      using assms(1) m by (simp add: mdb_midl_need_def Let_def w_def [symmetric] m_def)
  next
    case True
    have "midl_wf \<lparr>mi_alloc = r - 2, mi_ids = realloc_ids (r - 1) (mi_ids l)\<rparr> \<and>
      idl_elems (realloc_ids (r - 1) (mi_ids l)) = idl_elems (mi_ids l)"
      using midl_wf_realloc [OF assms(1), of "r - 2" "r - 1"] rb True by auto
    then show ?thesis
      using True m rb r r2 le_diff_conv2 [of 2 r m]
      by (simp add: mdb_midl_need_def Let_def w_def [symmetric] m_def [symmetric])
  qed
qed

section \<open>Merging descending lists\<close>

text \<open>The cells from \<open>p\<close> up to, but not including, \<open>q\<close>.\<close>

definition cells :: "mdb_id list \<Rightarrow> nat \<Rightarrow> nat \<Rightarrow> mdb_id list" where
  "cells a p q = map (\<lambda>x. a ! x) [p..<q]"

lemma length_cells [simp]: "length (cells a p q) = q - p"
  by (simp add: cells_def)

lemma nth_cells [simp]: "i < q - p \<Longrightarrow> cells a p q ! i = a ! (p + i)"
  by (simp add: cells_def)

lemma cells_split: "p \<le> q \<Longrightarrow> q \<le> r \<Longrightarrow> cells a p r = cells a p q @ cells a q r"
  unfolding cells_def by (metis le_Suc_ex map_append upt_add_eq_append)

lemma cells_Suc: "p \<le> q \<Longrightarrow> cells a p (Suc q) = cells a p q @ [a ! q]"
  by (simp add: cells_def)

lemma cells_Cons: "p < q \<Longrightarrow> cells a p q = a ! p # cells a (Suc p) q"
  by (simp add: cells_def upt_conv_Cons)

lemma cells_eqI: "(\<And>x. p \<le> x \<Longrightarrow> x < q \<Longrightarrow> a ! x = b ! x) \<Longrightarrow> cells a p q = cells b p q"
  by (simp add: cells_def)

lemma set_cells: "set (cells a p q) = (\<lambda>x. a ! x) ` {p..<q}"
  by (simp add: cells_def)

lemma idl_elems_cells: "idl_ok ids \<Longrightarrow> idl_elems ids = cells ids 1 (Suc (idl_count ids))"
  by (simp only: idl_elems_map cells_def)

text \<open>With the delimiter in \<open>ids[0]\<close> the inner loop needs no bound on \<open>j\<close>.\<close>

lemma xmerge_delimiter: "idl ! 0 = (- 1 :: mdb_id) \<Longrightarrow> 0 < j \<and> idl ! j < merge_id \<longleftrightarrow> idl ! j < merge_id"
  using word_n1_ge [of merge_id] by (cases j) auto

text \<open>
  The inner loop moves the maximal run of cells below \<open>merge_id\<close> that ends at \<open>j\<close> to the
  cells that end at \<open>k\<close>, and touches no cell at or below its new \<open>k\<close> or above the old one.
\<close>

lemma xmerge_shift_spec:
  assumes "j \<le> k" "k < length a" "xmerge_shift a m j k = (a', j', k')"
  shows "j' \<le> j \<and> k' + j = k + j' \<and> length a' = length a \<and>
    (\<forall>x. x \<le> k' \<or> k < x \<longrightarrow> a' ! x = a ! x) \<and>
    (\<forall>x. j' < x \<and> x \<le> j \<longrightarrow> a' ! (x + (k - j)) = a ! x \<and> a ! x < m) \<and>
    (j' = 0 \<or> m \<le> a ! j')"
  using assms
proof (induction a m j k rule: xmerge_shift.induct)
  case (1 a m j k)
  show ?case
  proof (cases "0 < j \<and> a ! j < m")
    case False
    then have "xmerge_shift a m j k = (a, j, k)" by (subst xmerge_shift.simps) auto
    then show ?thesis using "1.prems" False by auto
  next
    case True
    let ?a = "a[k := a ! j]"
    have "j - 1 \<le> k - 1" "k - 1 < length ?a" "xmerge_shift ?a m (j - 1) (k - 1) = (a', j', k')"
      using "1.prems" True by (simp_all add: xmerge_shift.simps [of a])
    note ih = "1.IH" [OF True this]
    have jk: "j \<le> k" "0 < j" "k < length a" using "1.prems" True by auto
    have "a' ! (x + (k - j)) = a ! x \<and> a ! x < m" if "j' < x" "x \<le> j" for x
    proof (cases "x = j")
      case True
      have "a' ! k = ?a ! k" using ih jk by auto
      then show ?thesis using True \<open>0 < j \<and> a ! j < m\<close> jk by simp
    next
      case False
      then have "a' ! (x + (k - 1 - (j - 1))) = ?a ! x" "?a ! x < m" using ih that by auto
      moreover have "k - 1 - (j - 1) = k - j" using jk by simp
      ultimately show ?thesis using False that jk by simp
    qed
    then show ?thesis using ih jk by (auto simp: nth_list_update split: if_splits)
  qed
qed

lemma xmerge_loop_spec:
  assumes "k = i + j" "k \<le> t" "t < length a"
    and "desc (cells a 1 (Suc j) @ cells a (Suc k) (Suc t))"
    and "desc (cells b 1 (Suc i) @ cells a (Suc k) (Suc t))"
  shows "length (xmerge_loop a b i j k) = length a \<and>
    desc (cells (xmerge_loop a b i j k) 1 (Suc t)) \<and>
    mset (cells (xmerge_loop a b i j k) 1 (Suc t)) =
      mset (cells a 1 (Suc j)) + mset (cells b 1 (Suc i)) + mset (cells a (Suc k) (Suc t))"
  using assms
proof (induction i arbitrary: a j k)
  case 0
  have "cells b 1 (Suc 0) = []" by (simp add: cells_def)
  moreover have "cells a 1 (Suc t) = cells a 1 (Suc k) @ cells a (Suc k) (Suc t)"
    using 0 by (intro cells_split) auto
  ultimately show ?case using 0 by simp
next
  case (Suc i)
  let ?m = "b ! Suc i"
  obtain a1 j1 k1 where sh: "xmerge_shift a ?m j k = (a1, j1, k1)" by (cases "xmerge_shift a ?m j k")
  have jk: "j \<le> k" "k < length a" using Suc.prems by auto
  note s = xmerge_shift_spec [OF jk sh]
  define a2 where "a2 = a1[k1 := ?m]"
  have k1: "k1 = Suc i + j1" "k1 \<le> k" "k1 < length a1" "0 < k1" using s Suc.prems by auto
  \<comment> \<open>the old cells: those kept in place, and those moved\<close>
  define ys zs where "ys = cells a 1 (Suc j1)" and "zs = cells a (Suc j1) (Suc j)"
  define ds where "ds = cells a (Suc k) (Suc t)"
  have old: "cells a 1 (Suc j) = ys @ zs" unfolding ys_def zs_def by (rule cells_split) (use s in auto)
  have keep: "cells a2 1 (Suc j1) = ys"
    unfolding ys_def by (rule cells_eqI) (use s k1 in \<open>auto simp: a2_def\<close>)
  have moved: "cells a2 (Suc k1) (Suc k) = zs"
  proof (rule nth_equalityI)
    show "length (cells a2 (Suc k1) (Suc k)) = length zs" using s by (auto simp: zs_def)
    fix x assume "x < length (cells a2 (Suc k1) (Suc k))"
    then have x: "x < j - j1" using s by auto
    then have "j1 < Suc j1 + x \<and> Suc j1 + x \<le> j" by linarith
    then have "a1 ! (Suc j1 + x + (k - j)) = a ! (Suc j1 + x)" using s by blast
    moreover have "Suc j1 + x + (k - j) = Suc k1 + x" using s jk by linarith
    ultimately have "a1 ! (Suc k1 + x) = a ! (Suc j1 + x)" by (simp only:)
    moreover have "x < Suc k - Suc k1" "x < Suc j - Suc j1" using s x by linarith+
    ultimately show "cells a2 (Suc k1) (Suc k) ! x = zs ! x"
      by (simp only: nth_cells zs_def a2_def) simp
  qed
  have done_cells: "cells a2 (Suc k) (Suc t) = ds"
    unfolding ds_def by (rule cells_eqI) (use s k1 in \<open>auto simp: a2_def\<close>)
  have "cells a2 (Suc k1) (Suc t) = zs @ ds"
    unfolding moved [symmetric] done_cells [symmetric]
    by (rule cells_split) (use k1 Suc.prems(2) in auto)
  moreover have "cells a2 k1 (Suc t) = a2 ! k1 # cells a2 (Suc k1) (Suc t)"
    by (rule cells_Cons) (use k1 Suc.prems(2) in auto)
  moreover have "a2 ! k1 = ?m" using k1 by (simp add: a2_def)
  moreover have "Suc (k1 - 1) = k1" using k1 by simp
  ultimately have new: "cells a2 (Suc (k1 - 1)) (Suc t) = ?m # zs @ ds" by (simp only:)
  have zm: "z < ?m" if "z \<in> set zs" for z
    using that s by (auto simp: zs_def set_cells)
  have d1: "desc (ys @ zs @ ds)" and d2: "desc (cells b 1 (Suc i) @ ?m # ds)"
    using Suc.prems(4,5) by (simp_all add: old ds_def cells_Suc del: One_nat_def)
  have ym: "?m \<le> y" if "y \<in> set ys" for y
  proof -
    have "0 < j1" using that by (cases j1) (auto simp: ys_def cells_def)
    then have "ys = cells a 1 j1 @ [a ! j1]" "?m \<le> a ! j1"
      using s by (auto simp: ys_def cells_Suc)
    then show ?thesis using that d1 by (auto simp: sorted_wrt_append)
  qed
  have "desc (ys @ ?m # zs @ ds)" and "desc (cells b 1 (Suc i) @ ?m # zs @ ds)"
    using d1 d2 ym zm by (fastforce simp: sorted_wrt_append)+
  then have d: "desc (cells a2 1 (Suc j1) @ cells a2 (Suc (k1 - 1)) (Suc t))"
    "desc (cells b 1 (Suc i) @ cells a2 (Suc (k1 - 1)) (Suc t))"
    by (simp_all only: keep new)
  have e: "k1 - 1 = i + j1" "k1 - 1 \<le> t" "t < length a2"
    using k1 s Suc.prems by (auto simp: a2_def)
  note ih = Suc.IH [OF e d, unfolded keep new]
  have "length a2 = length a" using s by (simp add: a2_def)
  then show ?case
    using ih by (simp add: sh Let_def a2_def [symmetric] old ds_def cells_Suc del: One_nat_def)
qed

lemma midl_xmerge_spec:
  assumes ok: "idl_ok idl" "idl_ok merge"
    and room: "idl_count idl + idl_count merge < length idl" "length idl < 2 ^ 63"
    and desc: "desc (idl_elems idl)" "desc (idl_elems merge)"
  shows "idl_ok (mdb_midl_xmerge idl merge)"
    and "desc (idl_elems (mdb_midl_xmerge idl merge))"
    and "mset (idl_elems (mdb_midl_xmerge idl merge)) = mset (idl_elems idl) + mset (idl_elems merge)"
proof -
  let ?i = "idl_count merge" and ?j = "idl_count idl"
  let ?t = "?i + ?j" and ?a = "idl[0 := - 1]"
  define r where "r = xmerge_loop ?a merge ?i ?j ?t"
  have m: "mdb_midl_xmerge idl merge = r[0 := word_of_nat ?t]"
    by (simp add: mdb_midl_xmerge_def r_def idl_count_def Let_def)
  have old: "cells ?a 1 (Suc ?j) = idl_elems idl"
    unfolding idl_elems_cells [OF ok(1)] by (rule cells_eqI) auto
  have none: "cells ?a (Suc ?t) (Suc ?t) = []" by (simp add: cells_def)
  have "length r = length ?a \<and> desc (cells r 1 (Suc ?t)) \<and> mset (cells r 1 (Suc ?t)) =
      mset (cells ?a 1 (Suc ?j)) + mset (cells merge 1 (Suc ?i)) + mset (cells ?a (Suc ?t) (Suc ?t))"
    unfolding r_def
    by (rule xmerge_loop_spec) (use room desc ok in \<open>auto simp: old none idl_elems_cells [symmetric] simp del: One_nat_def\<close>)
  then have r: "length r = length idl" "desc (cells r 1 (Suc ?t))"
    "mset (cells r 1 (Suc ?t)) = mset (idl_elems idl) + mset (idl_elems merge)"
    by (simp_all add: old none idl_elems_cells [OF ok(2)] del: One_nat_def)
  have c: "idl_count (r[0 := word_of_nat ?t]) = ?t"
    using room r(1) ok(1)
    by (simp add: idl_count_def [of "r[0 := _]"] idl_ok_def unat_of_nat flip: of_nat_add)
  then have ok': "idl_ok (r[0 := word_of_nat ?t])"
    using room r(1) by (auto simp: idl_ok_def)
  then show "idl_ok (mdb_midl_xmerge idl merge)" by (simp only: m)
  have "idl_elems (mdb_midl_xmerge idl merge) = cells r 1 (Suc ?t)"
    unfolding m idl_elems_cells [OF ok'] c by (rule cells_eqI) auto
  then show "desc (idl_elems (mdb_midl_xmerge idl merge))"
    and "mset (idl_elems (mdb_midl_xmerge idl merge)) = mset (idl_elems idl) + mset (idl_elems merge)"
    using r(2,3) by simp_all
qed

section \<open>Shrinking\<close>

text \<open>
  \<open>mdb_midl_shrink\<close> reallocates to \<open>MDB_IDL_UM_MAX + 1\<close> cells, one of which holds the
  capacity and one the count, but records a capacity of \<open>MDB_IDL_UM_MAX\<close> elements.
\<close>

lemma midl_shrink_capacity:
  assumes "mi_alloc l > MDB_IDL_UM_MAX"
  shows "mi_alloc (snd (mdb_midl_shrink True l)) = length (mi_ids (snd (mdb_midl_shrink True l)))"
    and "\<not> midl_wf (snd (mdb_midl_shrink True l))"
  using assms by (simp_all add: mdb_midl_shrink_def midl_wf_def)

section \<open>Properties\<close>

text \<open>
  On a strictly descending ID list, the binary search of \<open>mdb_midl_search\<close> returns the
  position a linear scan from the front would stop at: one past the last ID greater than
  the one searched; and that position holds the ID if and only if the list contains it.
\<close>

theorem midl_search_correct:
  assumes "idl_ok ids" "idl_count ids < 2 ^ 32" "strict_desc (idl_elems ids)"
  shows "mdb_midl_search ids ident = Suc (length (takeWhile (\<lambda>y. ident < y) (idl_elems ids)))
    \<and> (mdb_midl_search ids ident \<le> idl_count ids \<and> ids ! mdb_midl_search ids ident = ident
        \<longleftrightarrow> ident \<in> set (idl_elems ids))"
proof -
  have n: "unat (ucast (ids ! 0) :: u32) = idl_count ids"
    using assms(2) by (simp add: idl_count_def)
  have "mdb_midl_search ids ident \<le> idl_count ids \<and> ids ! mdb_midl_search ids ident = ident
      \<longleftrightarrow> (\<exists>i. 1 \<le> i \<and> i \<le> idl_count ids \<and> ids ! i = ident)"
    using idl_search.search_found [where l = ids and k = ident, OF _ mdb_midl_search_def] assms
    by (simp add: n)
  also have "\<dots> \<longleftrightarrow> ident \<in> set (idl_elems ids)"
    by (auto simp: idl_elems_map [OF assms(1)] simp del: upt_Suc)
  finally show ?thesis using midl_search_linear [OF assms] by blast
qed

theorem midl_search_witness:
  "mdb_midl_search [3, 9, 5, 2, 0] 5 = 2 \<and> 5 \<in> set (idl_elems [3, 9, 5, 2, 0])"
  using midl_search_correct [of "[3, 9, 5, 2, 0]" 5]
  by (simp add: idl_ok_def idl_count_def idl_elems_def)

text \<open>
  C25: Inserting a page into a dirty list (\<open>mdb_mid2l_insert\<close>) keeps the list sorted by page
  number without duplicates and within its 131071 entries, for every outcome: a number
  already there is refused with -1 and a full list with -2, both without a change;
  otherwise the result is 0 and the entry stands before the first greater number.
\<close>

theorem mid2l_insert_correct:
  assumes "id2l_wf dl"
  shows "case mdb_mid2l_insert dl e of (rc, dl') \<Rightarrow> id2l_wf dl' \<and>
    (if mid e \<in> mid ` set (id2l_elems dl) then rc = -1 \<and> dl' = dl
     else if id2l_count dl = MDB_IDL_UM_MAX then rc = -2 \<and> dl' = dl
     else rc = 0 \<and> id2l_elems dl' =
       insert_at (length (takeWhile (\<lambda>d. mid d < mid e) (id2l_elems dl))) e (id2l_elems dl))"
  using assms by (rule id2l_wf_insert)

theorem mid2l_insert_witness:
  "case mdb_mid2l_insert (replicate 131072 \<lparr>mid = 0, mptr = ()\<rparr>) \<lparr>mid = 7, mptr = ()\<rparr> of
    (rc, dl') \<Rightarrow> id2l_wf dl' \<and> rc = 0 \<and> id2l_elems dl' = [\<lparr>mid = 7, mptr = ()\<rparr>]"
proof -
  let ?dl = "replicate 131072 \<lparr>mid = 0, mptr = ()\<rparr>"
  have c: "id2l_count ?dl = 0" by (simp add: id2l_count_def)
  then have e: "id2l_elems ?dl = []" by (simp add: id2l_elems_def)
  have "id2l_wf ?dl" by (simp add: id2l_wf_def c e)
  from mid2l_insert_correct [OF this, of "\<lparr>mid = 7, mptr = ()\<rparr>"] show ?thesis
    by (simp add: c e insert_at_def split: prod.splits)
qed

text \<open>
  Appending page numbers: \<open>mdb_midl_append\<close> adds one ID at the end, growing the
  allocation when it is full, and keeps the recorded capacity within what the allocation
  holds; its only failure is \<open>ENOMEM\<close>, when the list is full and the reallocation fails.
\<close>

theorem midl_append_correct:
  assumes "midl_wf l" "mi_alloc l + MDB_IDL_UM_MAX < 2 ^ 31"
  shows "case mdb_midl_append ok l x of
      Inl e \<Rightarrow> e = ENOMEM \<and> \<not> ok \<and> idl_count (mi_ids l) = mi_alloc l
    | Inr l' \<Rightarrow> midl_wf l' \<and> idl_elems (mi_ids l') = idl_elems (mi_ids l) @ [x] \<and>
        mi_alloc l \<le> mi_alloc l'"
  using assms by (rule midl_append_spec)

theorem midl_append_witness:
  "case mdb_midl_append False \<lparr>mi_alloc = 2, mi_ids = [1, 9, 0]\<rparr> 4 of
      Inl e \<Rightarrow> False | Inr l' \<Rightarrow> midl_wf l' \<and> idl_elems (mi_ids l') = [9, 4]"
proof -
  have "midl_wf \<lparr>mi_alloc = 2, mi_ids = [1, 9, 0]\<rparr>"
    by (simp add: midl_wf_def idl_ok_def idl_count_def)
  from midl_append_correct [OF this, of False 4] show ?thesis
    by (simp add: idl_count_def idl_elems_def split: sum.splits)
qed

text \<open>
  \<open>mdb_midl_append_range\<close> appends the \<open>n\<close> consecutive page numbers from \<open>ident\<close> up,
  highest first, which keeps a list of freed pages in the descending order the free list
  needs; \<open>ENOMEM\<close> only when a reallocation fails.
\<close>

theorem midl_append_range_correct:
  assumes "midl_wf l" "mi_alloc l + unat (n OR word_of_nat MDB_IDL_UM_MAX) < 2 ^ 31"
  shows "case mdb_midl_append_range ok l ident n of
      Inl e \<Rightarrow> e = ENOMEM \<and> \<not> ok
    | Inr l' \<Rightarrow> midl_wf l' \<and> idl_elems (mi_ids l') =
        idl_elems (mi_ids l) @ rev (map (\<lambda>i. ident + word_of_nat i) [0..<unat n])"
  using assms by (rule midl_append_range_spec)

theorem midl_append_range_witness:
  "case mdb_midl_append_range True \<lparr>mi_alloc = 2, mi_ids = [1, 9, 0]\<rparr> 4 3 of
      Inl e \<Rightarrow> False | Inr l' \<Rightarrow> midl_wf l' \<and> idl_elems (mi_ids l') = [9, 6, 5, 4]"
proof -
  have "midl_wf \<lparr>mi_alloc = 2, mi_ids = [1, 9, 0]\<rparr>"
    by (simp add: midl_wf_def idl_ok_def idl_count_def)
  from midl_append_range_correct [OF this, of 3 True 4] show ?thesis
    by (simp add: idl_count_def idl_elems_def upt_rec split: sum.splits)
qed

text \<open>
  C22: \<open>mdb_midl_xmerge\<close> merges a descending list into another in place, from the end
  towards the front: the result is descending and holds exactly the elements of both.
\<close>

theorem midl_xmerge_correct:
  assumes "idl_ok idl" "idl_ok merge"
    and "idl_count idl + idl_count merge < length idl" "length idl < 2 ^ 63"
    and "desc (idl_elems idl)" "desc (idl_elems merge)"
  shows "idl_ok (mdb_midl_xmerge idl merge)
    \<and> desc (idl_elems (mdb_midl_xmerge idl merge))
    \<and> mset (idl_elems (mdb_midl_xmerge idl merge)) = mset (idl_elems idl) + mset (idl_elems merge)"
  using midl_xmerge_spec [OF assms] by blast

theorem midl_xmerge_witness:
  "desc (idl_elems (mdb_midl_xmerge [2, 9, 4, 0, 0] [2, 7, 1]))
    \<and> mset (idl_elems (mdb_midl_xmerge [2, 9, 4, 0, 0] [2, 7, 1])) = {#9, 4, 7, 1#}"
proof -
  have "idl_ok [2, 9, 4, 0, 0]" "idl_ok [2, 7, 1]"
    "idl_count [2, 9, 4, 0, 0] + idl_count [2, 7, 1] < length [2 :: mdb_id, 9, 4, 0, 0]"
    "desc (idl_elems [2, 9, 4, 0, 0])" "desc (idl_elems [2, 7, 1])"
    by (simp_all add: idl_ok_def idl_count_def idl_elems_def)
  note m = midl_xmerge_correct [OF this(1-3) _ this(4,5)]
  then show ?thesis by (simp add: idl_elems_def idl_count_def)
qed

text \<open>
  C26: After \<open>mdb_midl_shrink\<close> has shrunk a list, the capacity it records counts one
  element more than the allocation has room for: the header cell, the count and
  \<open>MDB_IDL_UM_MAX\<close> elements need \<open>MDB_IDL_UM_MAX + 2\<close> cells, and it reallocates to one
  cell less. The invariant of allocations is lost.
\<close>

theorem midl_shrink_loses_capacity:
  assumes "mi_alloc l > MDB_IDL_UM_MAX"
  shows "fst (mdb_midl_shrink True l)
    \<and> mi_alloc (snd (mdb_midl_shrink True l)) = length (mi_ids (snd (mdb_midl_shrink True l)))
    \<and> \<not> midl_wf (snd (mdb_midl_shrink True l))"
  using midl_shrink_capacity [OF assms] assms by (simp add: mdb_midl_shrink_def)

theorem midl_shrink_witness:
  "\<not> midl_wf (snd (mdb_midl_shrink True \<lparr>mi_alloc = 262142, mi_ids = replicate 262143 0\<rparr>))"
  using midl_shrink_loses_capacity [of "\<lparr>mi_alloc = 262142, mi_ids = replicate 262143 0\<rparr>"] by simp

end
