(* ===== verification/Midl_Sort.thy ===== *)
theory Midl_Sort
  imports Midl_Lists
begin

text \<open>
  \<open>mdb_midl_sort\<close>: a quicksort into descending order that sorts ranges of fewer than
  \<open>SMALL\<close> cells by insertion and keeps the ranges still to do in an array of
  64 integers on the C stack. The model keeps them as a list of pairs, the top of
  \<open>istack\<close> first, and fails where the code would write beyond \<open>istack\<close>, read beyond the
  cells of the list, or overflow an \<open>int\<close>. The theorem at the end says that none of
  this happens, that the sort returns, and that it sorts.
\<close>

section \<open>The code\<close>

definition SMALL :: nat where "SMALL = 8"
definition ISTACK_SIZE :: nat where "ISTACK_SIZE = 4 * 8 * 2"

definition MIDL_SWAP :: "mdb_id list \<Rightarrow> nat \<Rightarrow> nat \<Rightarrow> mdb_id list" where
  "MIDL_SWAP ids a b = ids[a := ids ! b, b := ids ! a]"

text \<open>\<open>for (i=j-1;i>=1;i--) { if (ids[i] >= a) break; ids[i+1] = ids[i]; }\<close>\<close>

fun insertion_shift :: "mdb_id list \<Rightarrow> mdb_id \<Rightarrow> nat \<Rightarrow> mdb_id list \<times> nat" where
  "insertion_shift ids a 0 = (ids, 0)"
| "insertion_shift ids a (Suc i) =
     (if ids ! Suc i \<ge> a then (ids, Suc i)
      else insertion_shift (ids[Suc i + 1 := ids ! Suc i]) a i)"

function insertion_sort :: "mdb_id list \<Rightarrow> nat \<Rightarrow> nat \<Rightarrow> mdb_id list" where
  "insertion_sort ids j ir =
     (if j \<le> ir then
        (let a = ids ! j; (ids, i) = insertion_shift ids a (j - 1)
         in insertion_sort (ids[i + 1 := a]) (j + 1) ir)
      else ids)"
  by pat_completeness auto
termination
  by (relation "measure (\<lambda>(ids, j, ir). Suc ir - j)") auto

declare insertion_sort.simps [simp del]

text \<open>\<open>do i++; while (ids[i] > a);\<close> and \<open>do j--; while (ids[j] < a);\<close>\<close>

function scan_up :: "mdb_id list \<Rightarrow> mdb_id \<Rightarrow> nat \<Rightarrow> nat option" where
  "scan_up ids a i =
     (if i + 1 < length ids then
        (if ids ! (i + 1) > a then scan_up ids a (i + 1) else Some (i + 1))
      else None)"
  by pat_completeness auto
termination
  by (relation "measure (\<lambda>(ids, a, i). length ids - i)") auto

declare scan_up.simps [simp del]

fun scan_down :: "mdb_id list \<Rightarrow> mdb_id \<Rightarrow> nat \<Rightarrow> nat option" where
  "scan_down ids a 0 = None"
| "scan_down ids a (Suc j) = (if ids ! j < a then scan_down ids a j else Some j)"

lemma scan_up_Some: "scan_up ids a i = Some i' \<Longrightarrow>
    i < i' \<and> i' < length ids \<and> \<not> ids ! i' > a \<and> (\<forall>x. i < x \<and> x < i' \<longrightarrow> ids ! x > a)"
proof (induction ids a i rule: scan_up.induct)
  case (1 ids a i)
  show ?case
  proof (cases "i + 1 < length ids \<and> ids ! (i + 1) > a")
    case True
    then have "scan_up ids a (i + 1) = Some i'"
      using "1.prems" by (simp add: scan_up.simps [of ids a i])
    then have "i + 1 < i' \<and> i' < length ids \<and> \<not> ids ! i' > a \<and> (\<forall>x. i + 1 < x \<and> x < i' \<longrightarrow> ids ! x > a)"
      using "1.IH" True by blast
    then show ?thesis using True by (metis add_lessD1 less_add_one linorder_neqE_nat nat_less_le Suc_leI Suc_eq_plus1)
  next
    case False
    then show ?thesis using "1.prems" by (auto simp: scan_up.simps [of ids a i] split: if_splits)
  qed
qed

text \<open>The inner loop of the partition; \<open>i\<close> grows, so it ends.\<close>

function partition_loop ::
  "mdb_id list \<Rightarrow> mdb_id \<Rightarrow> nat \<Rightarrow> nat \<Rightarrow> (mdb_id list \<times> nat \<times> nat) option" where
  "partition_loop ids a i j =
     (case scan_up ids a i of None \<Rightarrow> None | Some i \<Rightarrow>
      (case scan_down ids a j of None \<Rightarrow> None | Some j \<Rightarrow>
        if j < i then Some (ids, i, j)
        else partition_loop (MIDL_SWAP ids i j) a i j))"
  by pat_completeness auto
termination
  by (relation "measure (\<lambda>(ids, a, i, j). length ids - i)")
    (auto dest!: scan_up_Some simp: MIDL_SWAP_def)

declare partition_loop.simps [simp del]

definition median3 :: "mdb_id list \<Rightarrow> nat \<Rightarrow> nat \<Rightarrow> mdb_id list" where
  "median3 ids l ir =
     (let k = (l + ir) div 2;
          ids = MIDL_SWAP ids k (l + 1);
          ids = (if ids ! l < ids ! ir then MIDL_SWAP ids l ir else ids);
          ids = (if ids ! (l + 1) < ids ! ir then MIDL_SWAP ids (l + 1) ir else ids)
      in if ids ! l < ids ! (l + 1) then MIDL_SWAP ids l (l + 1) else ids)"

definition sort_partition :: "mdb_id list \<Rightarrow> nat \<Rightarrow> nat \<Rightarrow> (mdb_id list \<times> nat \<times> nat) option" where
  "sort_partition ids l ir =
     (let ids = median3 ids l ir; a = ids ! (l + 1) in
      case partition_loop ids a (l + 1) ir of None \<Rightarrow> None
      | Some (ids, i, j) \<Rightarrow> Some (ids[l + 1 := ids ! j, j := a], i, j))"

partial_function (option) sort_loop ::
  "mdb_id list \<Rightarrow> nat \<Rightarrow> nat \<Rightarrow> (nat \<times> nat) list \<Rightarrow> mdb_id list option" where
  "sort_loop ids l ir stack =
     (if ir < l + SMALL then
        (let ids = insertion_sort ids (l + 1) ir in
         case stack of [] \<Rightarrow> Some ids
         | (l, ir) # stack \<Rightarrow> sort_loop ids l ir stack)
      else if l + ir \<ge> 2 ^ 31 then None
      else
        (case sort_partition ids l ir of None \<Rightarrow> None
         | Some (ids, i, j) \<Rightarrow>
             if 2 * length stack + 2 \<ge> ISTACK_SIZE then None
             else if ir + 1 + l \<ge> j + i then sort_loop ids l (j - 1) ((i, ir) # stack)
             else sort_loop ids i ir ((l, j - 1) # stack)))"

definition mdb_midl_sort :: "mdb_id list \<Rightarrow> mdb_id list option" where
  "mdb_midl_sort ids = sort_loop ids 1 (nat (sint (ucast (ids ! 0) :: u32))) []"

section \<open>Insertion\<close>

text \<open>
  The shift stops at the last cell not below \<open>a\<close>; the cells after it have moved up by one.
\<close>

lemma insertion_shift_spec:
  assumes "insertion_shift ids a i = (ids', i')" "Suc i < length ids"
  shows "i' \<le> i \<and> length ids' = length ids \<and> (i' = 0 \<or> a \<le> ids ! i') \<and>
    (\<forall>x. i' < x \<and> x \<le> i \<longrightarrow> ids ! x < a \<and> ids' ! Suc x = ids ! x) \<and>
    (\<forall>x. x \<le> i' \<or> Suc i < x \<longrightarrow> ids' ! x = ids ! x)"
  using assms
proof (induction ids a i arbitrary: ids' i' rule: insertion_shift.induct)
  case (2 ids a i)
  show ?case
  proof (cases "a \<le> ids ! Suc i")
    case True
    then show ?thesis using "2.prems" by auto
  next
    case False
    let ?b = "ids[Suc i + 1 := ids ! Suc i]"
    have "insertion_shift ?b a i = (ids', i')" "Suc i < length ?b"
      using "2.prems" False by auto
    note ih = "2.IH" [OF _ this]
    then have "ids' ! Suc x = ids ! x \<and> ids ! x < a" if "i' < x" "x \<le> Suc i" for x
      using that False "2.prems"(2) by (cases "x = Suc i") (auto simp: not_le)
    then show ?thesis using ih False "2.prems"(2) by (auto simp: not_le)
  qed
qed auto

lemma desc_cells_iff:
  "desc (cells a p q) \<longleftrightarrow> (\<forall>x y. p \<le> x \<and> x < y \<and> y < q \<longrightarrow> a ! y \<le> a ! x)"
proof
  assume d: "desc (cells a p q)"
  show "\<forall>x y. p \<le> x \<and> x < y \<and> y < q \<longrightarrow> a ! y \<le> a ! x"
  proof (intro allI impI)
    fix x y assume xy: "p \<le> x \<and> x < y \<and> y < q"
    then have "cells a p q ! (y - p) \<le> cells a p q ! (x - p)"
      by (intro sorted_wrt_nth_less [OF d]) auto
    moreover have "y - p < q - p" "x - p < q - p" using xy by linarith+
    ultimately show "a ! y \<le> a ! x" using xy by simp
  qed
next
  assume "\<forall>x y. p \<le> x \<and> x < y \<and> y < q \<longrightarrow> a ! y \<le> a ! x"
  then show "desc (cells a p q)" by (auto simp: sorted_wrt_iff_nth_less)
qed

text \<open>
  One insertion, into the sorted cells from \<open>l\<close> to \<open>j - 1\<close>. The cells before \<open>l\<close> are not
  below those of the range, so the shift does not go past \<open>l\<close>.
\<close>

lemma insertion_step:
  assumes "1 \<le> l" "l < j" "j < length ids" "desc (cells ids l j)"
    and left: "\<And>p. 1 \<le> p \<Longrightarrow> p < l \<Longrightarrow> ids ! j \<le> ids ! p"
    and sh: "insertion_shift ids (ids ! j) (j - 1) = (ids', i')"
  defines "r \<equiv> ids'[Suc i' := ids ! j]"
  shows "length r = length ids \<and> desc (cells r l (Suc j)) \<and>
    mset (cells r l (Suc j)) = mset (cells ids l (Suc j)) \<and> (\<forall>x. x < l \<or> j < x \<longrightarrow> r ! x = ids ! x)"
proof -
  let ?a = "ids ! j"
  have j: "Suc (j - 1) = j" using assms(2) by simp
  note s = insertion_shift_spec [OF sh, unfolded j, OF assms(3)]
  have shifted: "i' < x \<Longrightarrow> x < j \<Longrightarrow> ids ! x < ?a \<and> ids' ! Suc x = ids ! x" for x
    using s assms(2) by (metis Suc_diff_1 gr_implies_not0 less_Suc_eq_le neq0_conv)
  have il: "l \<le> Suc i'"
  proof (rule ccontr)
    assume "\<not> l \<le> Suc i'"
    then show False using left [of "Suc i'"] shifted [of "Suc i'"] assms(2) by auto
  qed
  have ij: "Suc i' \<le> j" using s assms(2) by auto
  define u v where "u = cells ids l (Suc i')" and "v = cells ids (Suc i') j"
  have before: "cells ids l (Suc j) = u @ v @ [?a]"
    using cells_split [OF il ij, of ids] cells_Suc [of l j ids] assms(2) by (simp add: u_def v_def)
  have u: "cells r l (Suc i') = u"
    unfolding u_def r_def by (rule cells_eqI) (use s in auto)
  have "cells r (Suc (Suc i')) (Suc j) = v"
  proof (rule nth_equalityI)
    fix x assume "x < length (cells r (Suc (Suc i')) (Suc j))"
    then show "cells r (Suc (Suc i')) (Suc j) ! x = v ! x"
      using shifted [of "Suc i' + x"] by (simp add: v_def r_def)
  qed (simp add: v_def)
  moreover have "r ! Suc i' = ?a" using s ij assms(3) by (auto simp: r_def)
  moreover have "cells r l (Suc j) = cells r l (Suc i') @ cells r (Suc i') (Suc j)"
    using il ij by (intro cells_split) auto
  moreover have "cells r (Suc i') (Suc j) = r ! Suc i' # cells r (Suc (Suc i')) (Suc j)"
    using ij by (intro cells_Cons) auto
  ultimately have after: "cells r l (Suc j) = u @ ?a # v" using u by (simp only:)
  have "cells ids l j = u @ v" unfolding u_def v_def using il ij by (rule cells_split)
  then have d: "desc (u @ v)" using assms(4) by simp
  have va: "x < ?a" if "x \<in> set v" for x
    using that shifted by (auto simp: v_def set_cells)
  have ua: "?a \<le> x" if x: "x \<in> set u" for x
  proof -
    obtain p where p: "l \<le> p" "p < Suc i'" "x = ids ! p" using x by (auto simp: u_def set_cells)
    then have "ids ! i' \<le> ids ! p"
      using assms(4) ij by (cases "p = i'") (auto simp: desc_cells_iff)
    moreover have "?a \<le> ids ! i'" using s p assms(1) by auto
    ultimately show ?thesis using p by simp
  qed
  have "desc (u @ ?a # v)" using d ua va by (fastforce simp: sorted_wrt_append)
  moreover have "\<forall>x. x < l \<or> j < x \<longrightarrow> r ! x = ids ! x"
    using s il ij assms(2) by (auto simp: r_def)
  ultimately show ?thesis using s by (simp add: before after) (simp add: r_def)
qed

lemma insertion_sort_spec:
  assumes "1 \<le> l" "l < j" "ir < length ids" "desc (cells ids l (min j (Suc ir)))"
    and "\<And>p q. 1 \<le> p \<Longrightarrow> p < l \<Longrightarrow> l \<le> q \<Longrightarrow> q \<le> ir \<Longrightarrow> ids ! q \<le> ids ! p"
  shows "length (insertion_sort ids j ir) = length ids \<and>
    desc (cells (insertion_sort ids j ir) l (Suc ir)) \<and>
    mset (cells (insertion_sort ids j ir) l (Suc ir)) = mset (cells ids l (Suc ir)) \<and>
    (\<forall>x. x < l \<or> ir < x \<longrightarrow> insertion_sort ids j ir ! x = ids ! x)"
  using assms
proof (induction ids j ir rule: insertion_sort.induct)
  case (1 ids j ir)
  show ?case
  proof (cases "j \<le> ir")
    case False
    moreover from this have "min j (Suc ir) = Suc ir" by simp
    ultimately show ?thesis using "1.prems"(4) by (simp add: insertion_sort.simps)
  next
    case True
    obtain ids' i' where sh: "insertion_shift ids (ids ! j) (j - 1) = (ids', i')"
      by (cases "insertion_shift ids (ids ! j) (j - 1)")
    define r where "r = ids'[Suc i' := ids ! j]"
    have s: "length r = length ids" "desc (cells r l (Suc j))"
      "mset (cells r l (Suc j)) = mset (cells ids l (Suc j))"
      "\<And>x. x < l \<or> j < x \<Longrightarrow> r ! x = ids ! x"
      using insertion_step [of l j ids ids' i'] "1.prems" True sh by (auto simp: r_def min_def)
    have rest: "cells r (Suc j) (Suc ir) = cells ids (Suc j) (Suc ir)"
      by (rule cells_eqI) (use s(4) in auto)
    have m: "mset (cells r l (Suc ir)) = mset (cells ids l (Suc ir))"
      using s(3) True "1.prems"(2)
      by (simp add: cells_split [of l "Suc j" "Suc ir"] rest)
    then have set: "set (cells r l (Suc ir)) = set (cells ids l (Suc ir))" by (rule mset_eq_setD)
    have left: "r ! q \<le> r ! p" if p: "1 \<le> p" "p < l" and q: "l \<le> q" "q \<le> ir" for p q
    proof -
      have "r ! q \<in> set (cells r l (Suc ir))" using q by (auto simp: set_cells)
      then obtain q' where "l \<le> q'" "q' \<le> ir" "r ! q = ids ! q'" unfolding set by (auto simp: set_cells)
      then show ?thesis using "1.prems"(5) [OF p] s(4) [of p] p by simp
    qed
    have "insertion_sort ids j ir = insertion_sort r (j + 1) ir"
      using True by (simp add: insertion_sort.simps [of ids] sh r_def Let_def del: One_nat_def) simp
    moreover have "length (insertion_sort r (j + 1) ir) = length r \<and>
      desc (cells (insertion_sort r (j + 1) ir) l (Suc ir)) \<and>
      mset (cells (insertion_sort r (j + 1) ir) l (Suc ir)) = mset (cells r l (Suc ir)) \<and>
      (\<forall>x. x < l \<or> ir < x \<longrightarrow> insertion_sort r (j + 1) ir ! x = r ! x)"
      using "1.IH" [OF True refl sh [symmetric]] s left "1.prems" True by (simp add: r_def)
    ultimately show ?thesis using m s True by auto
  qed
qed

section \<open>Permuting a range\<close>

text \<open>\<open>r\<close> holds the cells of \<open>ids\<close>, those from \<open>p\<close> to \<open>q\<close> in another order.\<close>

definition perm_on :: "nat \<Rightarrow> nat \<Rightarrow> mdb_id list \<Rightarrow> mdb_id list \<Rightarrow> bool" where
  "perm_on p q ids r \<longleftrightarrow> length r = length ids \<and> mset r = mset ids
     \<and> (\<forall>x. x < p \<or> q < x \<longrightarrow> r ! x = ids ! x)"

lemma perm_on_refl [simp]: "perm_on p q ids ids"
  by (simp add: perm_on_def)

lemma perm_on_trans: "perm_on p q a b \<Longrightarrow> perm_on p q b c \<Longrightarrow> perm_on p q a c"
  by (auto simp: perm_on_def)

lemma perm_on_mono: "perm_on p q a b \<Longrightarrow> p' \<le> p \<Longrightarrow> q \<le> q' \<Longrightarrow> perm_on p' q' a b"
  by (auto simp: perm_on_def)

lemma perm_on_swap:
  "p \<le> x \<Longrightarrow> x \<le> q \<Longrightarrow> p \<le> y \<Longrightarrow> y \<le> q \<Longrightarrow> q < length ids \<Longrightarrow> perm_on p q ids (MIDL_SWAP ids x y)"
  by (auto simp: perm_on_def MIDL_SWAP_def mset_swap)

lemma list_cells: "a = cells a 0 (length a)"
  by (rule nth_equalityI) auto

lemma list_split_cells:
  "p \<le> Suc q \<Longrightarrow> Suc q \<le> length a \<Longrightarrow> a = cells a 0 p @ cells a p (Suc q) @ cells a (Suc q) (length a)"
  by (metis cells_split le0 le_trans list_cells)

lemma perm_on_cells:
  assumes "length r = length a" "\<And>x. x < p \<or> q < x \<Longrightarrow> r ! x = a ! x" "p \<le> Suc q" "q < length a"
  shows "perm_on p q a r \<longleftrightarrow> mset (cells r p (Suc q)) = mset (cells a p (Suc q))"
proof -
  have "cells r 0 p = cells a 0 p" and "cells r (Suc q) (length a) = cells a (Suc q) (length a)"
    using assms(2) by (auto intro!: cells_eqI)
  then have "mset r = mset a \<longleftrightarrow> mset (cells r p (Suc q)) = mset (cells a p (Suc q))"
    using arg_cong [OF list_split_cells [of p q a], of mset] arg_cong [OF list_split_cells [of p q r], of mset]
      assms by simp
  then show ?thesis using assms by (auto simp: perm_on_def)
qed

lemma perm_on_mem:
  assumes "perm_on p q a r" "p \<le> x" "x \<le> q" "q < length a"
  obtains y where "p \<le> y" "y \<le> q" "r ! x = a ! y"
proof -
  have "mset (cells r p (Suc q)) = mset (cells a p (Suc q))"
    using assms perm_on_cells [of r a p q] by (auto simp: perm_on_def)
  then have "set (cells r p (Suc q)) = set (cells a p (Suc q))" by (rule mset_eq_setD)
  moreover have "r ! x \<in> set (cells r p (Suc q))" using assms by (auto simp: set_cells)
  ultimately show thesis using that by (auto simp: set_cells)
qed

section \<open>Partition\<close>

lemma scan_up_exists:
  "i < t \<Longrightarrow> t < length ids \<Longrightarrow> ids ! t \<le> a \<Longrightarrow> \<exists>i'. scan_up ids a i = Some i' \<and> i' \<le> t"
proof (induction ids a i rule: scan_up.induct)
  case (1 ids a i)
  show ?case
  proof (cases "a < ids ! (i + 1)")
    case True
    then have "i + 1 < t" using "1.prems" by (cases "i + 1 = t") auto
    then show ?thesis using "1.IH" "1.prems" True by (auto simp: scan_up.simps [of ids a i])
  next
    case False
    then show ?thesis using "1.prems" by (auto simp: scan_up.simps [of ids a i])
  qed
qed

lemma scan_down_exists:
  "t < j \<Longrightarrow> a \<le> ids ! t \<Longrightarrow> \<exists>j'. scan_down ids a j = Some j' \<and> t \<le> j'"
  by (induction ids a j rule: scan_down.induct) (auto simp: less_Suc_eq)

lemma scan_down_Some:
  "scan_down ids a j = Some j' \<Longrightarrow> j' < j \<and> a \<le> ids ! j' \<and> (\<forall>x. j' < x \<and> x < j \<longrightarrow> ids ! x < a)"
  by (induction ids a j rule: scan_down.induct) (auto split: if_splits simp: less_Suc_eq)

text \<open>
  What the partition loop keeps: the cells up to \<open>i\<close> are not below the pivot, the cells
  from \<open>j\<close> on not above it, so that each scan meets a cell that stops it.
\<close>

lemma partition_loop_spec:
  assumes "ir < length ids" "l + 1 \<le> i" "i \<le> j" "j \<le> ir" "i < j \<or> j < ir \<and> l + 2 \<le> i"
    and "ids ! (l + 1) = a"
    and "\<And>x. l \<le> x \<Longrightarrow> x \<le> i \<Longrightarrow> a \<le> ids ! x" and "\<And>x. j \<le> x \<Longrightarrow> x \<le> ir \<Longrightarrow> ids ! x \<le> a"
  shows "\<exists>r i' j'. partition_loop ids a i j = Some (r, i', j') \<and> perm_on (l + 2) ir ids r \<and>
    l + 1 \<le> j' \<and> j' < i' \<and> i' \<le> ir \<and> l + 2 \<le> i' \<and> j' < ir \<and>
    (\<forall>x. l \<le> x \<and> x < i' \<longrightarrow> a \<le> r ! x) \<and> (\<forall>x. j' \<le> x \<and> x \<le> ir \<longrightarrow> x = j' \<or> r ! x \<le> a)"
  using assms
proof (induction ids a i j rule: partition_loop.induct)
  case (1 ids a i j)
  let ?t = "if i < j then j else j + 1"
  have t: "i < ?t" "?t \<le> ir" "ids ! ?t \<le> a" using "1.prems"(3,4,5,8) by auto
  then obtain i1 where i1: "scan_up ids a i = Some i1" "i1 \<le> ?t"
    using scan_up_exists [of i ?t ids a] "1.prems"(1) by auto
  note up = scan_up_Some [OF i1(1)]
  let ?b = "if i < j then i else l + 1"
  have "?b < j" "a \<le> ids ! ?b" using "1.prems"(2,3,5,7) by auto
  then obtain j1 where j1: "scan_down ids a j = Some j1" "?b \<le> j1"
    using scan_down_exists by blast
  note down = scan_down_Some [OF j1(1)]
  have lo: "l + 1 \<le> j1" "l + 2 \<le> i1" "i1 \<le> ir"
    using j1(2) "1.prems"(2) up i1(2) t(2) by (auto split: if_splits)
  have big: "a \<le> ids ! x" if "l \<le> x" "x < i1" for x
    using that up "1.prems"(7) by (cases "x \<le> i") (auto intro: less_imp_le)
  have small: "ids ! x \<le> a" if "j1 < x" "x \<le> ir" for x
    using that down "1.prems"(8) by (cases "j \<le> x") (auto simp: less_imp_le)
  show ?case
  proof (cases "j1 < i1")
    case True
    then have "partition_loop ids a i j = Some (ids, i1, j1)"
      by (simp add: partition_loop.simps [of ids] i1 j1)
    moreover have "x = j1 \<or> ids ! x \<le> a" if "j1 \<le> x" "x \<le> ir" for x
      using small that le_neq_implies_less by blast
    ultimately show ?thesis using True lo big down "1.prems"(4) by auto
  next
    case False
    let ?ids = "MIDL_SWAP ids i1 j1"
    have loop: "partition_loop ids a i j = partition_loop ?ids a i1 j1"
      using False by (simp add: partition_loop.simps [of ids] i1 j1)
    have j1b: "j1 < j" "j1 < ir" "j1 < length ids" using down "1.prems"(1,4) by auto
    have perm: "perm_on (l + 2) ir ids ?ids"
      using lo False j1b "1.prems"(1) by (intro perm_on_swap) auto
    have "\<exists>r i' j'. partition_loop ?ids a i1 j1 = Some (r, i', j') \<and> perm_on (l + 2) ir ?ids r \<and>
        l + 1 \<le> j' \<and> j' < i' \<and> i' \<le> ir \<and> l + 2 \<le> i' \<and> j' < ir \<and>
        (\<forall>x. l \<le> x \<and> x < i' \<longrightarrow> a \<le> r ! x) \<and> (\<forall>x. j' \<le> x \<and> x \<le> ir \<longrightarrow> x = j' \<or> r ! x \<le> a)"
    proof (rule "1.IH" [OF i1(1) j1(1) False])
      show "?ids ! (l + 1) = a" using perm "1.prems"(6) by (simp add: perm_on_def)
      show "a \<le> ?ids ! x" if "l \<le> x" "x \<le> i1" for x
        using that big down False j1b by (auto simp: MIDL_SWAP_def nth_list_update)
      show "?ids ! x \<le> a" if "j1 \<le> x" "x \<le> ir" for x
        using that small up False j1b by (auto simp: MIDL_SWAP_def nth_list_update not_less)
    qed (use "1.prems" lo False j1b in \<open>auto simp: MIDL_SWAP_def\<close>)
    then obtain r i' j' where r: "partition_loop ?ids a i1 j1 = Some (r, i', j')" "perm_on (l + 2) ir ?ids r"
      and rest: "l + 1 \<le> j' \<and> j' < i' \<and> i' \<le> ir \<and> l + 2 \<le> i' \<and> j' < ir \<and>
        (\<forall>x. l \<le> x \<and> x < i' \<longrightarrow> a \<le> r ! x) \<and> (\<forall>x. j' \<le> x \<and> x \<le> ir \<longrightarrow> x = j' \<or> r ! x \<le> a)"
      by blast
    have "perm_on (l + 2) ir ids r" using perm r(2) by (rule perm_on_trans)
    then show ?thesis unfolding loop using r(1) rest by blast
  qed
qed

lemma nth_MIDL_SWAP:
  "x < length ids \<Longrightarrow> y < length ids \<Longrightarrow> k < length ids \<Longrightarrow>
   MIDL_SWAP ids x y ! k = (if k = y then ids ! x else if k = x then ids ! y else ids ! k)"
  by (auto simp: MIDL_SWAP_def nth_list_update)

lemma length_MIDL_SWAP [simp]: "length (MIDL_SWAP ids x y) = length ids"
  by (simp add: MIDL_SWAP_def)

text \<open>The median of three: the pivot in cell \<open>l + 1\<close>, between the cells \<open>ir\<close> and \<open>l\<close>.\<close>

lemma median3_spec:
  assumes "l + 2 \<le> ir" "ir < length ids"
  shows "perm_on l ir ids (median3 ids l ir) \<and>
    median3 ids l ir ! (l + 1) \<le> median3 ids l ir ! l \<and>
    median3 ids l ir ! ir \<le> median3 ids l ir ! (l + 1)"
proof -
  define a where "a = MIDL_SWAP ids ((l + ir) div 2) (l + 1)"
  define b where "b = (if a ! l < a ! ir then MIDL_SWAP a l ir else a)"
  define c where "c = (if b ! (l + 1) < b ! ir then MIDL_SWAP b (l + 1) ir else b)"
  define d where "d = (if c ! l < c ! (l + 1) then MIDL_SWAP c l (l + 1) else c)"
  have d: "median3 ids l ir = d"
    by (simp only: median3_def Let_def a_def b_def c_def d_def)
  have len: "length a = length ids" "length b = length ids" "length c = length ids"
    by (simp_all add: a_def b_def c_def MIDL_SWAP_def)
  have "perm_on l ir ids a" unfolding a_def using assms by (intro perm_on_swap) auto
  moreover have "perm_on l ir a b" "perm_on l ir b c" "perm_on l ir c d"
    unfolding b_def c_def d_def using assms len by (auto intro!: perm_on_swap)
  ultimately have "perm_on l ir ids d" by (blast intro: perm_on_trans)
  moreover have "b ! ir \<le> b ! l"
    using assms len by (auto simp: b_def nth_MIDL_SWAP)
  then have "c ! ir \<le> c ! l" "c ! ir \<le> c ! (l + 1)"
    using assms len by (auto simp: c_def nth_MIDL_SWAP)
  then have "d ! (l + 1) \<le> d ! l" "d ! ir \<le> d ! (l + 1)"
    using assms len by (auto simp: d_def nth_MIDL_SWAP)
  ultimately show ?thesis by (simp add: d)
qed

lemma sort_partition_spec:
  assumes "l + 2 \<le> ir" "ir < length ids"
  shows "\<exists>r i j. sort_partition ids l ir = Some (r, i, j) \<and> perm_on l ir ids r \<and>
    l + 1 \<le> j \<and> j < i \<and> i \<le> ir \<and> j < ir \<and>
    (\<forall>p q. l \<le> p \<and> p < q \<and> q \<le> ir \<and> j \<le> q \<and> p < i \<longrightarrow> r ! q \<le> r ! p)"
proof -
  let ?m = "median3 ids l ir"
  let ?a = "?m ! (l + 1)"
  note m = median3_spec [OF assms]
  then have len: "length ?m = length ids" by (simp add: perm_on_def)
  have "\<exists>r i' j'. partition_loop ?m ?a (l + 1) ir = Some (r, i', j') \<and> perm_on (l + 2) ir ?m r \<and>
    l + 1 \<le> j' \<and> j' < i' \<and> i' \<le> ir \<and> l + 2 \<le> i' \<and> j' < ir \<and>
    (\<forall>x. l \<le> x \<and> x < i' \<longrightarrow> ?a \<le> r ! x) \<and> (\<forall>x. j' \<le> x \<and> x \<le> ir \<longrightarrow> x = j' \<or> r ! x \<le> ?a)"
  proof (rule partition_loop_spec)
    show "?a \<le> ?m ! x" if "l \<le> x" "x \<le> l + 1" for x
      using that m by (cases "x = l") (auto simp: le_Suc_eq)
    show "?m ! x \<le> ?a" if "ir \<le> x" "x \<le> ir" for x
      using that m by auto
  qed (use assms len in auto)
  then obtain r i j where r: "partition_loop ?m ?a (l + 1) ir = Some (r, i, j)" "perm_on (l + 2) ir ?m r"
    and b: "l + 1 \<le> j" "j < i" "i \<le> ir" "j < ir"
    and big: "\<And>x. l \<le> x \<Longrightarrow> x < i \<Longrightarrow> ?a \<le> r ! x"
    and small: "\<And>x. j < x \<Longrightarrow> x \<le> ir \<Longrightarrow> r ! x \<le> ?a"
    by (metis less_imp_le nat_neq_iff)
  have ra: "r ! (l + 1) = ?a" and lr: "length r = length ids"
    using r(2) len by (auto simp: perm_on_def)
  define s where "s = MIDL_SWAP r (l + 1) j"
  have s: "sort_partition ids l ir = Some (s, i, j)"
    using ra r(1) by (simp add: sort_partition_def Let_def s_def MIDL_SWAP_def)
  have "perm_on l ir ids s"
    using m perm_on_mono [OF r(2), of l ir] perm_on_swap [of l "l + 1" ir j r] b lr assms
    by (auto simp: s_def intro: perm_on_trans)
  moreover have "?a \<le> s ! x" if "l \<le> x" "x < i" for x
    using that big b lr assms ra by (auto simp: s_def nth_MIDL_SWAP)
  moreover have "s ! x \<le> ?a" if "j \<le> x" "x \<le> ir" for x
    using that small b lr assms ra by (auto simp: s_def nth_MIDL_SWAP)
  ultimately have "perm_on l ir ids s \<and>
      (\<forall>p q. l \<le> p \<and> p < q \<and> q \<le> ir \<and> j \<le> q \<and> p < i \<longrightarrow> s ! q \<le> s ! p)"
    by (meson order_trans)
  then show ?thesis using s b by blast
qed

section \<open>The loop over the pending ranges\<close>

definition in_range :: "nat \<times> nat \<Rightarrow> nat \<Rightarrow> bool" where
  "in_range r x \<longleftrightarrow> fst r \<le> x \<and> x \<le> snd r"

definition range_size :: "nat \<times> nat \<Rightarrow> nat" where
  "range_size r = Suc (snd r) - fst r"

definition disjoint_ranges :: "nat \<times> nat \<Rightarrow> nat \<times> nat \<Rightarrow> bool" where
  "disjoint_ranges r s \<longleftrightarrow> (\<forall>x. \<not> (in_range r x \<and> in_range s x))"

text \<open>
  Every pair of cells is in order or lies in one pending range; the ranges are disjoint,
  lie in the list, and the one below \<open>d\<close> others on the stack has at most \<open>N / 2 ^ d\<close> cells.
\<close>

definition sort_inv :: "nat \<Rightarrow> mdb_id list \<Rightarrow> (nat \<times> nat) list \<Rightarrow> bool" where
  "sort_inv N ids rs \<longleftrightarrow> N < length ids \<and>
     (\<forall>r \<in> set rs. 1 \<le> fst r \<and> snd r \<le> N) \<and>
     sorted_wrt disjoint_ranges rs \<and>
     (\<forall>p q. 1 \<le> p \<and> p < q \<and> q \<le> N \<longrightarrow> ids ! q \<le> ids ! p \<or> (\<exists>r \<in> set rs. in_range r p \<and> in_range r q))"

fun stack_ok :: "nat \<Rightarrow> (nat \<times> nat) list \<Rightarrow> bool" where
  "stack_ok N [] \<longleftrightarrow> True"
| "stack_ok N (r # rs) \<longleftrightarrow> range_size r * 2 ^ length rs \<le> N \<and> stack_ok N rs"

definition sort_measure :: "(nat \<times> nat) list \<Rightarrow> nat" where
  "sort_measure rs = (\<Sum>r \<leftarrow> rs. 2 * range_size r + 1)"

lemma sort_measure_Cons: "sort_measure (r # rs) = 2 * range_size r + 1 + sort_measure rs"
  by (simp add: sort_measure_def)

text \<open>
  Reordering the cells of the current range leaves every pair in order that does not lie
  in that range or in another pending one.
\<close>

lemma sort_inv_perm:
  assumes inv: "sort_inv N ids ((l, ir) # rs)" and perm: "perm_on l ir ids r"
    and pq: "1 \<le> p" "p < q" "q \<le> N" and out: "\<not> (l \<le> p \<and> q \<le> ir)"
  shows "r ! q \<le> r ! p \<or> (\<exists>s \<in> set rs. in_range s p \<and> in_range s q)"
proof -
  have b: "1 \<le> l" "ir \<le> N" "N < length ids" using inv by (auto simp: sort_inv_def)
  have src: "\<exists>x'. r ! x = ids ! x' \<and> (x' = x \<or> in_range (l, ir) x \<and> in_range (l, ir) x')" for x
  proof (cases "l \<le> x \<and> x \<le> ir")
    case True
    then show ?thesis
      using perm_on_mem [OF perm, of x] b by (metis fst_conv in_range_def le_less_trans snd_conv)
  next
    case False
    then show ?thesis using perm by (auto simp: perm_on_def)
  qed
  obtain p' q' where p': "r ! p = ids ! p'" "p' = p \<or> in_range (l, ir) p \<and> in_range (l, ir) p'"
    and q': "r ! q = ids ! q'" "q' = q \<or> in_range (l, ir) q \<and> in_range (l, ir) q'"
    using src by metis
  have pq': "1 \<le> p'" "p' < q'" "q' \<le> N"
    using p'(2) q'(2) pq b out by (auto simp: in_range_def)
  then have "ids ! q' \<le> ids ! p' \<or> (\<exists>s \<in> set ((l, ir) # rs). in_range s p' \<and> in_range s q')"
    using inv unfolding sort_inv_def by blast
  moreover have "in_range s p \<and> in_range s q" if "s \<in> set rs" "in_range s p' \<and> in_range s q'" for s
  proof -
    have "disjoint_ranges (l, ir) s" using inv that(1) by (simp add: sort_inv_def)
    then have "\<not> in_range (l, ir) p'" "\<not> in_range (l, ir) q'"
      using that(2) unfolding disjoint_ranges_def by blast+
    then show ?thesis using p'(2) q'(2) that by auto
  qed
  moreover have "\<not> (in_range (l, ir) p' \<and> in_range (l, ir) q')"
    using out p'(2) q'(2) pq by (auto simp: in_range_def)
  ultimately show ?thesis using p'(1) q'(1) by auto
qed

text \<open>Insertion finishes the current range.\<close>

lemma sort_inv_insertion:
  assumes inv: "sort_inv N ids ((l, ir) # rs)"
  defines "r \<equiv> insertion_sort ids (l + 1) ir"
  shows "sort_inv N r rs" and "perm_on 1 N ids r"
proof -
  have b: "1 \<le> l" "ir \<le> N" "N < length ids" using inv by (auto simp: sort_inv_def)
  have left: "ids ! q \<le> ids ! p" if p: "1 \<le> p" "p < l" and q: "l \<le> q" "q \<le> ir" for p q
  proof -
    have "ids ! q \<le> ids ! p \<or> (\<exists>s \<in> set ((l, ir) # rs). in_range s p \<and> in_range s q)"
      using inv p q b unfolding sort_inv_def by (meson le_trans less_le_trans)
    moreover have "\<not> (in_range s p \<and> in_range s q)" if "s \<in> set ((l, ir) # rs)" for s
      using inv that p q by (auto simp: sort_inv_def disjoint_ranges_def in_range_def)
    ultimately show ?thesis by blast
  qed
  have "l < l + 1" "ir < length ids" using b by auto
  moreover have "desc (cells ids l (min (l + 1) (Suc ir)))"
    by (auto simp: desc_cells_iff)
  ultimately have s: "length r = length ids" "desc (cells r l (Suc ir))"
    "mset (cells r l (Suc ir)) = mset (cells ids l (Suc ir))" "\<And>x. x < l \<or> ir < x \<Longrightarrow> r ! x = ids ! x"
    using insertion_sort_spec [of l "l + 1" ir ids] b(1) left by (auto simp: r_def)
  have perm: "perm_on l ir ids r"
  proof (cases "l \<le> Suc ir")
    case True
    then show ?thesis using s b perm_on_cells [of r ids l ir] by auto
  next
    case False
    then have "x < l \<or> ir < x" for x by linarith
    then have "r = ids" using s(1,4) by (intro nth_equalityI) auto
    then show ?thesis by simp
  qed
  have "r ! q \<le> r ! p \<or> (\<exists>s \<in> set rs. in_range s p \<and> in_range s q)"
    if pq: "1 \<le> p" "p < q" "q \<le> N" for p q
  proof (cases "l \<le> p \<and> q \<le> ir")
    case True
    then show ?thesis using s(2) pq by (auto simp: desc_cells_iff)
  next
    case False
    then show ?thesis using sort_inv_perm [OF inv perm pq] by blast
  qed
  then show "sort_inv N r rs" using inv s(1) by (simp add: sort_inv_def)
  show "perm_on 1 N ids r" using perm b(1,2) by (rule perm_on_mono)
qed

text \<open>Partition splits the current range in two.\<close>

lemma sort_inv_partition:
  assumes inv: "sort_inv N ids ((l, ir) # rs)" and ir: "l + 2 \<le> ir"
    and p: "perm_on l ir ids r" "l + 1 \<le> j" "j < i" "i \<le> ir" "j < ir"
    and ord: "\<forall>p q. l \<le> p \<and> p < q \<and> q \<le> ir \<and> j \<le> q \<and> p < i \<longrightarrow> r ! q \<le> r ! p"
  shows "sort_inv N r ((l, j - 1) # (i, ir) # rs)" and "sort_inv N r ((i, ir) # (l, j - 1) # rs)"
proof -
  have b: "1 \<le> l" "ir \<le> N" "N < length ids" using inv by (auto simp: sort_inv_def)
  have dis: "disjoint_ranges (l, ir) s" if "s \<in> set rs" for s
    using inv that by (simp add: sort_inv_def)
  then have d: "disjoint_ranges (l, j - 1) s \<and> disjoint_ranges (i, ir) s" if "s \<in> set rs" for s
    using that p(2,3,4) by (fastforce simp: disjoint_ranges_def in_range_def)
  have two: "disjoint_ranges (l, j - 1) (i, ir)" "disjoint_ranges (i, ir) (l, j - 1)"
    using p by (auto simp: disjoint_ranges_def in_range_def)
  have order: "r ! q \<le> r ! p \<or> (\<exists>s \<in> insert (l, j - 1) (insert (i, ir) (set rs)). in_range s p \<and> in_range s q)"
    if pq: "1 \<le> p" "p < q" "q \<le> N" for p q
  proof (cases "l \<le> p \<and> q \<le> ir")
    case True
    then show ?thesis using ord pq p(2) by (fastforce simp: in_range_def)
  next
    case False
    then show ?thesis using sort_inv_perm [OF inv p(1) pq] by auto
  qed
  have "length r = length ids" using p(1) by (simp add: perm_on_def)
  then show "sort_inv N r ((l, j - 1) # (i, ir) # rs)" and "sort_inv N r ((i, ir) # (l, j - 1) # rs)"
    using inv order d two b p by (auto simp: sort_inv_def)
qed

text \<open>The two parts of a range are smaller than it, the one continued with at most half of it.\<close>

lemma stack_ok_push:
  assumes "stack_ok N ((l, ir) # rs)" "l + 1 \<le> j" "j < i" "i \<le> ir"
  shows "j + i \<le> ir + 1 + l \<Longrightarrow> stack_ok N ((l, j - 1) # (i, ir) # rs)"
    and "ir + 1 + l \<le> j + i \<Longrightarrow> stack_ok N ((i, ir) # (l, j - 1) # rs)"
proof -
  let ?s = "Suc ir - l" and ?p = "2 ^ length rs :: nat"
  have N: "?s * ?p \<le> N" and rs: "stack_ok N rs" using assms(1) by (auto simp: range_size_def)
  have le: "x * ?p \<le> N" if "x \<le> ?s" for x
    using N that by (meson le_trans mult_le_mono1)
  have sizes: "range_size (l, j - 1) = j - l" "range_size (i, ir) = Suc ir - i"
    using assms(2,3,4) by (auto simp: range_size_def)
  have sum: "(j - l) + (Suc ir - i) \<le> ?s" using assms(2,3,4) by linarith
  show "stack_ok N ((l, j - 1) # (i, ir) # rs)" if "j + i \<le> ir + 1 + l"
  proof -
    have "2 * (j - l) \<le> ?s" using sum that assms(2,3,4) by linarith
    then have "2 * (j - l) * ?p \<le> N" and "(Suc ir - i) * ?p \<le> N" using sum by (auto intro!: le)
    then show ?thesis using rs by (simp add: sizes mult_ac del: One_nat_def)
  qed
  show "stack_ok N ((i, ir) # (l, j - 1) # rs)" if "ir + 1 + l \<le> j + i"
  proof -
    have "2 * (Suc ir - i) \<le> ?s" using sum that assms(2,3,4) by linarith
    then have "2 * (Suc ir - i) * ?p \<le> N" and "(j - l) * ?p \<le> N" using sum by (auto intro!: le)
    then show ?thesis using rs by (simp add: sizes mult_ac del: One_nat_def)
  qed
qed

lemma stack_depth:
  assumes "stack_ok N ((l, ir) # rs)" "l + SMALL \<le> ir" "N < 2 ^ 30"
  shows "2 * length rs + 2 < ISTACK_SIZE"
proof -
  have "1 * 2 ^ length rs \<le> (Suc ir - l) * 2 ^ length rs"
    using assms(2) by (intro mult_le_mono1) (simp add: SMALL_def)
  also have "\<dots> \<le> N" using assms(1) by (simp add: range_size_def)
  finally have "(2 :: nat) ^ length rs < 2 ^ 30" using assms(3) by simp
  then have "length rs < 30" by (rule power_less_imp_less_exp [rotated]) simp
  then show ?thesis by (simp add: ISTACK_SIZE_def)
qed

lemma sort_loop_spec:
  assumes "sort_inv N ids ((l, ir) # rs)" "stack_ok N ((l, ir) # rs)" "N < 2 ^ 30"
  shows "\<exists>r. sort_loop ids l ir rs = Some r \<and> perm_on 1 N ids r \<and> sort_inv N r []"
  using assms
proof (induction "sort_measure ((l, ir) # rs)" arbitrary: ids l ir rs rule: less_induct)
  case less
  have b: "1 \<le> l" "ir \<le> N" "N < length ids" using less.prems(1) by (auto simp: sort_inv_def)
  show ?case
  proof (cases "ir < l + SMALL")
    case True
    let ?r = "insertion_sort ids (l + 1) ir"
    note ins = sort_inv_insertion [OF less.prems(1)]
    show ?thesis
    proof (cases rs)
      case Nil
      then have "sort_loop ids l ir rs = Some ?r" using True by (simp add: sort_loop.simps Let_def)
      then show ?thesis using ins Nil by auto
    next
      case (Cons s rs')
      obtain l' ir' where s: "s = (l', ir')" by (cases s)
      have loop: "sort_loop ids l ir rs = sort_loop ?r l' ir' rs'"
        using True by (simp add: sort_loop.simps [of ids] Let_def Cons s)
      have "\<exists>r. sort_loop ?r l' ir' rs' = Some r \<and> perm_on 1 N ?r r \<and> sort_inv N r []"
        by (rule less.hyps)
          (use ins less.prems Cons s in \<open>auto simp: sort_measure_Cons\<close>)
      then show ?thesis using loop ins perm_on_trans by metis
    qed
  next
    case False
    then have big: "l + 2 \<le> ir" "l + SMALL \<le> ir" "ir < length ids"
      using b by (auto simp: SMALL_def)
    then obtain r i j where part: "sort_partition ids l ir = Some (r, i, j)"
      and p: "perm_on l ir ids r" "l + 1 \<le> j" "j < i" "i \<le> ir" "j < ir"
      and ord: "\<forall>p q. l \<le> p \<and> p < q \<and> q \<le> ir \<and> j \<le> q \<and> p < i \<longrightarrow> r ! q \<le> r ! p"
      using sort_partition_spec [OF big(1,3)] by blast
    have r: "perm_on 1 N ids r" using p(1) b(1,2) by (rule perm_on_mono)
    note depth = stack_depth [OF less.prems(2) big(2) less.prems(3)]
    note inv = sort_inv_partition [OF less.prems(1) big(1) p ord]
    have small: "range_size (l, j - 1) + range_size (i, ir) < range_size (l, ir)"
      using p by (auto simp: range_size_def)
    have loop: "sort_loop ids l ir rs =
        (if ir + 1 + l \<ge> j + i then sort_loop r l (j - 1) ((i, ir) # rs)
         else sort_loop r i ir ((l, j - 1) # rs))"
      using False depth part b less.prems(3) by (subst sort_loop.simps) (simp add: del: One_nat_def)
    show ?thesis
    proof (cases "ir + 1 + l \<ge> j + i")
      case True
      have "\<exists>r'. sort_loop r l (j - 1) ((i, ir) # rs) = Some r' \<and> perm_on 1 N r r' \<and> sort_inv N r' []"
        by (rule less.hyps [OF _ inv(1) stack_ok_push(1) [OF less.prems(2) p(2,3,4) True] less.prems(3)])
          (use small in \<open>simp add: sort_measure_Cons\<close>)
      then show ?thesis using loop True perm_on_trans [OF r] by metis
    next
      case False
      then have "ir + 1 + l \<le> j + i" by simp
      then have "\<exists>r'. sort_loop r i ir ((l, j - 1) # rs) = Some r' \<and> perm_on 1 N r r' \<and> sort_inv N r' []"
        by (intro less.hyps [OF _ inv(2) stack_ok_push(2) [OF less.prems(2) p(2,3,4)] less.prems(3)])
          (use small in \<open>simp_all add: sort_measure_Cons\<close>)
      then show ?thesis using loop False perm_on_trans [OF r] by metis
    qed
  qed
qed

text \<open>
  The sort returns, within its stack, and leaves the elements in descending order.
\<close>

lemma midl_sort_spec:
  assumes "idl_ok ids" "idl_count ids < 2 ^ 30"
  shows "\<exists>r. mdb_midl_sort ids = Some r \<and> idl_ok r \<and> idl_count r = idl_count ids \<and>
    length r = length ids \<and> desc (idl_elems r) \<and> mset (idl_elems r) = mset (idl_elems ids)"
proof -
  let ?N = "idl_count ids"
  have "unat (ucast (ids ! 0) :: u32) = ?N" using assms(2) by (simp add: idl_count_def)
  then have ir: "nat (sint (ucast (ids ! 0) :: u32)) = ?N"
    using sint_small [of "ucast (ids ! 0)"] assms(2) by simp
  have len: "?N < length ids" "ids \<noteq> []" using assms(1) by (auto simp: idl_ok_def)
  have "sort_inv ?N ids [(1, ?N)]" using len by (auto simp: sort_inv_def in_range_def)
  moreover have "stack_ok ?N [(1, ?N)]" by (simp add: range_size_def)
  ultimately obtain r where r: "mdb_midl_sort ids = Some r" "perm_on 1 ?N ids r" "sort_inv ?N r []"
    using sort_loop_spec [of ?N ids 1 ?N "[]"] assms(2) by (auto simp: mdb_midl_sort_def ir)
  have l: "length r = length ids" and c: "idl_count r = ?N"
    using r(2) by (simp_all add: perm_on_def idl_count_def)
  then have ok: "idl_ok r" using len by (auto simp: idl_ok_def)
  have "desc (idl_elems r)"
    using r(3) by (simp add: idl_elems_cells [OF ok] c desc_cells_iff sort_inv_def)
  moreover have "mset (idl_elems r) = mset (idl_elems ids)"
    using r(2) perm_on_cells [of r ids 1 ?N] len l
    by (auto simp: idl_elems_cells [OF ok] idl_elems_cells [OF assms(1)] c perm_on_def
      simp del: One_nat_def)
  ultimately show ?thesis using r(1) l ok c by auto
qed

section \<open>Properties\<close>

text \<open>
  C16: \<open>mdb_midl_sort\<close> returns for every list of fewer than \<open>2 ^ 30\<close> IDs: its scans stay
  within the cells, its 64-entry stack is never overrun and no index overflows an \<open>int\<close>;
  and it leaves the same IDs, in descending order.
\<close>

theorem midl_sort_correct:
  assumes "idl_ok ids" "idl_count ids < 2 ^ 30"
  shows "\<exists>r. mdb_midl_sort ids = Some r \<and> idl_ok r \<and> idl_count r = idl_count ids \<and>
    length r = length ids \<and> desc (idl_elems r) \<and> mset (idl_elems r) = mset (idl_elems ids)"
  using assms by (rule midl_sort_spec)

theorem midl_sort_witness:
  "\<exists>r. mdb_midl_sort [12, 3, 5, 1, 4, 8, 2, 9, 9, 7, 0, 6, 11] = Some r
    \<and> desc (idl_elems r) \<and> mset (idl_elems r) = {#3, 5, 1, 4, 8, 2, 9, 9, 7, 0, 6, 11#}"
  using midl_sort_correct [of "[12, 3, 5, 1, 4, 8, 2, 9, 9, 7, 0, 6, 11]"]
  by (auto simp: idl_ok_def idl_count_def idl_elems_def)

end
