(* ===== verification/Compare.thy ===== *)
theory Compare
  imports Errors "HOL-Library.List_Lexorder"
begin

text \<open>
  The key comparison functions of \<open>mdb.c\<close> and the choice between them. Keys are byte
  strings; a comparison gives a C \<open>int\<close> of which callers read the sign. The integer
  comparisons read their operands without looking at the sizes, so their theorems ask for
  keys of the size the database flags promise; bytes beyond a key read as 0 in the model.
\<close>

section \<open>The comparison functions\<close>

text \<open>
  \<open>memcmp(a, b, n)\<close>: the difference of the first bytes that differ (the C library promises
  its sign only).
\<close>

fun memcmp :: "bytes \<Rightarrow> bytes \<Rightarrow> nat \<Rightarrow> int" where
  "memcmp (x # xs) (y # ys) (Suc n) =
     (if x = y then memcmp xs ys n else uint x - uint y)"
| "memcmp _ _ _ = 0"

text \<open>\<open>len\<close> is an \<open>unsigned int\<close>: the size is cut to 32 bits.\<close>

definition mdb_cmp_memn :: "bytes \<Rightarrow> bytes \<Rightarrow> int" where
  "mdb_cmp_memn a b =
     (let len = length a mod 2 ^ 32;
          len_diff = int (length a) - int (length b);
          (len, len_diff) = (if len_diff > 0 then (length b mod 2 ^ 32, 1) else (len, len_diff));
          diff = memcmp a b len
      in if diff \<noteq> 0 then diff else if len_diff < 0 then - 1 else len_diff)"

text \<open>\<open>while (p1 > p1_lim) { diff = *--p1 - *--p2; if (diff) return diff; }\<close>, \<open>n\<close> steps left.\<close>

fun memnr_loop :: "bytes \<Rightarrow> bytes \<Rightarrow> nat \<Rightarrow> nat \<Rightarrow> nat \<Rightarrow> int" where
  "memnr_loop a b p1 p2 0 = 0"
| "memnr_loop a b p1 p2 (Suc n) =
     (let diff = uint (a ! (p1 - 1)) - uint (b ! (p2 - 1)) in
      if diff \<noteq> 0 then diff else memnr_loop a b (p1 - 1) (p2 - 1) n)"

definition mdb_cmp_memnr :: "bytes \<Rightarrow> bytes \<Rightarrow> int" where
  "mdb_cmp_memnr a b =
     (let p1 = length a; p2 = length b;
          len_diff = int (length a) - int (length b);
          (p1_lim, len_diff) = (if len_diff > 0 then (length a - length b, 1) else (0, len_diff));
          diff = memnr_loop a b p1 p2 (p1 - p1_lim)
      in if diff \<noteq> 0 then diff else if len_diff < 0 then - 1 else len_diff)"

text \<open>The number in the first \<open>n\<close> bytes of a key, read with one load.\<close>

definition load_le :: "nat \<Rightarrow> bytes \<Rightarrow> nat" where
  "load_le n a = of_le (take n a)"

definition mdb_cmp_long :: "bytes \<Rightarrow> bytes \<Rightarrow> int" where
  "mdb_cmp_long a b =
     (if load_le 8 a < load_le 8 b then - 1 else if load_le 8 a > load_le 8 b then 1 else 0)"

definition mdb_cmp_int :: "bytes \<Rightarrow> bytes \<Rightarrow> int" where
  "mdb_cmp_int a b =
     (if load_le 4 a < load_le 4 b then - 1 else if load_le 4 a > load_le 4 b then 1 else 0)"

text \<open>
  \<open>mdb_cmp_cint\<close> on a little-endian machine: 16-bit units from the end of the key, all at
  the offset that the size of \<open>a\<close> gives. \<open>n\<close> is the offset of \<open>u\<close> and \<open>c\<close>.
\<close>

definition ushort_at :: "bytes \<Rightarrow> nat \<Rightarrow> int" where
  "ushort_at a i = uint (a ! i) + 256 * uint (a ! Suc i)"

fun cint_loop :: "bytes \<Rightarrow> bytes \<Rightarrow> nat \<Rightarrow> int" where
  "cint_loop a b (Suc (Suc n)) =
     (let x = ushort_at a n - ushort_at b n in
      if x = 0 \<and> n > 0 then cint_loop a b n else x)"
| "cint_loop a b n = 0"

definition mdb_cmp_cint :: "bytes \<Rightarrow> bytes \<Rightarrow> int" where
  "mdb_cmp_cint a b = cint_loop a b (length a)"

section \<open>Choosing a comparison\<close>

text \<open>The functions a database may use; \<open>Cmp_user\<close> is one set by \<open>mdb_set_compare\<close>.\<close>

datatype cmp_func = Cmp_memn | Cmp_memnr | Cmp_int | Cmp_cint | Cmp_long | Cmp_user nat

fun run_cmp :: "(nat \<Rightarrow> bytes \<Rightarrow> bytes \<Rightarrow> int) \<Rightarrow> cmp_func \<Rightarrow> bytes \<Rightarrow> bytes \<Rightarrow> int" where
  "run_cmp user Cmp_memn = mdb_cmp_memn"
| "run_cmp user Cmp_memnr = mdb_cmp_memnr"
| "run_cmp user Cmp_int = mdb_cmp_int"
| "run_cmp user Cmp_cint = mdb_cmp_cint"
| "run_cmp user Cmp_long = mdb_cmp_long"
| "run_cmp user (Cmp_user k) = user k"

definition MDB_REVERSEKEY :: u16 where "MDB_REVERSEKEY = 0x02"
definition MDB_DUPSORT :: u16 where "MDB_DUPSORT = 0x04"
definition MDB_INTEGERKEY :: u16 where "MDB_INTEGERKEY = 0x08"
definition MDB_DUPFIXED :: u16 where "MDB_DUPFIXED = 0x10"
definition MDB_INTEGERDUP :: u16 where "MDB_INTEGERDUP = 0x20"
definition MDB_REVERSEDUP :: u16 where "MDB_REVERSEDUP = 0x40"

text \<open>\<open>mdb_default_cmp\<close>: the key comparison, and the data comparison or 0.\<close>

definition mdb_default_cmp :: "u16 \<Rightarrow> cmp_func \<times> cmp_func option" where
  "mdb_default_cmp f =
     (if any_set f MDB_REVERSEKEY then Cmp_memnr
      else if any_set f MDB_INTEGERKEY then Cmp_cint else Cmp_memn,
      if \<not> any_set f MDB_DUPSORT then None
      else Some (if any_set f MDB_INTEGERDUP
                 then (if any_set f MDB_DUPFIXED then Cmp_int else Cmp_cint)
                 else (if any_set f MDB_REVERSEDUP then Cmp_memnr else Cmp_memn)))"

section \<open>What a comparison must be\<close>

text \<open>
  The contract the tree relies on: on the keys of the database the comparison decides
  equality and is a strict order.
\<close>

locale key_order =
  fixes cmp :: "bytes \<Rightarrow> bytes \<Rightarrow> int"
    and valid :: "bytes \<Rightarrow> bool"
  assumes cmp_zero: "valid a \<Longrightarrow> valid b \<Longrightarrow> cmp a b = 0 \<longleftrightarrow> a = b"
    and cmp_flip: "valid a \<Longrightarrow> valid b \<Longrightarrow> cmp a b < 0 \<longleftrightarrow> 0 < cmp b a"
    and cmp_trans: "valid a \<Longrightarrow> valid b \<Longrightarrow> valid c \<Longrightarrow> cmp a b < 0 \<Longrightarrow> cmp b c < 0 \<Longrightarrow> cmp a c < 0"
begin

lemma cmp_refl [simp]: "valid a \<Longrightarrow> cmp a a = 0"
  by (simp add: cmp_zero)

lemma cmp_pos: "valid a \<Longrightarrow> valid b \<Longrightarrow> 0 < cmp a b \<longleftrightarrow> cmp b a < 0"
  by (simp add: cmp_flip)

lemma cmp_le_trans:
  assumes "valid a" "valid b" "valid c" "cmp a b \<le> 0" "cmp b c \<le> 0"
  shows "cmp a c \<le> 0"
proof (cases "a = b \<or> b = c")
  case True
  then show ?thesis using assms by auto
next
  case False
  then have "cmp a b < 0" "cmp b c < 0"
    using assms by (auto simp: order_le_less cmp_zero)
  then show ?thesis using cmp_trans [OF assms(1-3)] by simp
qed

lemma cmp_total: "valid a \<Longrightarrow> valid b \<Longrightarrow> cmp a b < 0 \<or> a = b \<or> cmp b a < 0"
  using cmp_zero [of a b] cmp_flip [of b a] by linarith

text \<open>Keys in strictly increasing order; a search argument splits them in three.\<close>

abbreviation increasing :: "bytes list \<Rightarrow> bool" where
  "increasing ks \<equiv> sorted_wrt (\<lambda>a b. cmp a b < 0) ks"

lemma increasing_distinct: "\<forall>k \<in> set ks. valid k \<Longrightarrow> increasing ks \<Longrightarrow> distinct ks"
  by (induction ks) (auto dest: cmp_zero [THEN iffD2, OF _ _ refl])

lemma increasing_nth:
  assumes "\<forall>k \<in> set ks. valid k" "increasing ks" "valid key" "i \<le> j" "j < length ks"
  shows "cmp key (ks ! i) < 0 \<Longrightarrow> cmp key (ks ! j) < 0"
    and "0 < cmp key (ks ! j) \<Longrightarrow> 0 < cmp key (ks ! i)"
proof -
  have v: "valid (ks ! i)" "valid (ks ! j)" using assms(1,4,5) by auto
  have le: "i = j \<or> cmp (ks ! i) (ks ! j) < 0"
    using sorted_wrt_nth_less [OF assms(2), of i j] assms(4,5) by linarith
  show "cmp key (ks ! i) < 0 \<Longrightarrow> cmp key (ks ! j) < 0"
    using le cmp_trans [OF assms(3) v] by auto
  show "0 < cmp key (ks ! j) \<Longrightarrow> 0 < cmp key (ks ! i)"
    using le cmp_trans [OF v(1) v(2) assms(3)] v assms(3) by (auto simp: cmp_pos)
qed

end

text \<open>
  Each comparison is the order of some type read through a function that tells keys apart.
\<close>

locale key_embedding =
  fixes cmp :: "bytes \<Rightarrow> bytes \<Rightarrow> int"
    and valid :: "bytes \<Rightarrow> bool"
    and rank :: "bytes \<Rightarrow> 'o::linorder"
  assumes cmp_less: "valid a \<Longrightarrow> valid b \<Longrightarrow> cmp a b < 0 \<longleftrightarrow> rank a < rank b"
    and cmp_greater: "valid a \<Longrightarrow> valid b \<Longrightarrow> 0 < cmp a b \<longleftrightarrow> rank b < rank a"
    and rank_inj: "valid a \<Longrightarrow> valid b \<Longrightarrow> rank a = rank b \<Longrightarrow> a = b"
begin

lemma cmp_eq_rank:
  assumes "valid a" "valid b"
  shows "cmp a b = 0 \<longleftrightarrow> rank a = rank b"
  using cmp_less [OF assms] cmp_greater [OF assms] by (metis less_irrefl linorder_neqE)

end

sublocale key_embedding \<subseteq> key_order
proof
  fix a b c
  assume v: "valid a" "valid b"
  show "cmp a b = 0 \<longleftrightarrow> a = b" using cmp_eq_rank [OF v] rank_inj [OF v] by auto
  show "cmp a b < 0 \<longleftrightarrow> 0 < cmp b a" using v by (simp add: cmp_less cmp_greater)
  assume "valid c" "cmp a b < 0" "cmp b c < 0"
  then show "cmp a c < 0" using v by (auto simp: cmp_less)
qed

section \<open>The comparisons are orders\<close>

text \<open>Lexicographic comparison of byte strings, shorter first.\<close>

lemma memcmp_lex:
  "(memcmp a b n < 0 \<longleftrightarrow> take n a < take n b) \<and> (0 < memcmp a b n \<longleftrightarrow> take n b < take n a)"
  if "n \<le> length a" "n \<le> length b"
  using that
proof (induction a b n rule: memcmp.induct)
  case (1 x xs y ys n)
  then show ?case by (auto simp: word_less_def word_le_def)
qed auto

lemma list_less_split:
  "length a = length c \<Longrightarrow> (a @ b :: 'a::linorder list) < c @ d \<longleftrightarrow> a < c \<or> (a = c \<and> b < d)"
  by (induction a c rule: list_induct2) auto

lemma lex_take:
  fixes a b :: bytes
  assumes "n = min (length a) (length b)"
  shows "a < b \<longleftrightarrow> take n a < take n b \<or> (take n a = take n b \<and> length a < length b)"
proof -
  have "a < b \<longleftrightarrow> take n a @ drop n a < take n b @ drop n b" by simp
  also have "\<dots> \<longleftrightarrow> take n a < take n b \<or> (take n a = take n b \<and> drop n a < drop n b)"
    by (rule list_less_split) (simp add: assms)
  also have "drop n a < drop n b \<longleftrightarrow> length a < length b"
  proof (cases "length a \<le> length b")
    case True
    then have "drop n a = []" using assms by simp
    moreover have "drop n b = [] \<longleftrightarrow> length a = length b" using assms True by auto
    ultimately show ?thesis using True by (cases "drop n b") auto
  next
    case False
    then have "drop n b = []" using assms by simp
    then show ?thesis using False by simp
  qed
  finally show ?thesis .
qed

lemma cmp_memn_lex:
  assumes "length a < 2 ^ 32" "length b < 2 ^ 32"
  shows "(mdb_cmp_memn a b < 0 \<longleftrightarrow> a < b) \<and> (0 < mdb_cmp_memn a b \<longleftrightarrow> b < a)"
proof -
  let ?n = "min (length a) (length b)"
  define d where "d = memcmp a b ?n"
  have m: "d < 0 \<longleftrightarrow> take ?n a < take ?n b" "0 < d \<longleftrightarrow> take ?n b < take ?n a"
    unfolding d_def using memcmp_lex [of ?n a b] by auto
  have "mdb_cmp_memn a b = (if d \<noteq> 0 then d else if length a < length b then - 1
      else if length b < length a then 1 else 0)"
    using assms by (auto simp: mdb_cmp_memn_def d_def min_def Let_def)
  moreover have "a < b \<longleftrightarrow> take ?n a < take ?n b \<or> (take ?n a = take ?n b \<and> length a < length b)"
    "b < a \<longleftrightarrow> take ?n b < take ?n a \<or> (take ?n b = take ?n a \<and> length b < length a)"
    by (rule lex_take; simp)+
  moreover define A B where "A = take ?n a" and "B = take ?n b"
  ultimately have cmp: "mdb_cmp_memn a b = (if d \<noteq> 0 then d else if length a < length b then - 1
      else if length b < length a then 1 else 0)"
    and ab: "a < b \<longleftrightarrow> A < B \<or> (A = B \<and> length a < length b)"
      "b < a \<longleftrightarrow> B < A \<or> (B = A \<and> length b < length a)"
    by simp_all
  have d: "d < 0 \<longleftrightarrow> A < B" "0 < d \<longleftrightarrow> B < A" using m by (simp_all add: A_def B_def)
  show ?thesis
  proof (cases A B rule: linorder_cases)
    case less
    then have "d < 0" "\<not> B < A" "A \<noteq> B" using d by auto
    then show ?thesis using \<open>A < B\<close> by (auto simp: cmp ab)
  next
    case equal
    then have "d = 0" using d by (metis less_irrefl linorder_neqE)
    then show ?thesis using equal by (simp add: cmp ab)
  next
    case greater
    then have "0 < d" "\<not> A < B" "A \<noteq> B" using d by auto
    then show ?thesis using greater by (auto simp: cmp ab)
  qed
qed

interpretation memn: key_embedding mdb_cmp_memn "\<lambda>k. length k < 2 ^ 32" "\<lambda>k. k"
  by unfold_locales (use cmp_memn_lex in auto)

text \<open>Comparison from the last byte backwards is comparison of the reversed keys.\<close>

lemma memnr_loop_memcmp:
  "n \<le> p1 \<Longrightarrow> n \<le> p2 \<Longrightarrow> p1 \<le> length a \<Longrightarrow> p2 \<le> length b \<Longrightarrow>
   memnr_loop a b p1 p2 n = memcmp (rev (take p1 a)) (rev (take p2 b)) n"
proof (induction n arbitrary: p1 p2)
  case (Suc n)
  obtain q1 q2 where q: "p1 = Suc q1" "p2 = Suc q2"
    using Suc.prems by (metis Suc_le_D)
  have t: "take p1 a = take q1 a @ [a ! q1]" "take p2 b = take q2 b @ [b ! q2]"
    using q Suc.prems by (simp_all add: take_Suc_conv_app_nth)
  show ?case
    using Suc.IH [of q1 q2] Suc.prems q
    by (simp add: t [unfolded q] Let_def word_uint_eq_iff)
qed simp

lemma cmp_memnr_rev:
  assumes "length a < 2 ^ 32" "length b < 2 ^ 32"
  shows "mdb_cmp_memnr a b = mdb_cmp_memn (rev a) (rev b)"
  using assms memnr_loop_memcmp [of "min (length a) (length b)" "length a" "length b" a b]
  by (auto simp: mdb_cmp_memnr_def mdb_cmp_memn_def min_def Let_def)

interpretation memnr: key_embedding mdb_cmp_memnr "\<lambda>k. length k < 2 ^ 32" rev
  by unfold_locales (auto simp: cmp_memnr_rev memn.cmp_less memn.cmp_greater)

text \<open>The integer comparisons order keys by the little-endian number they hold.\<close>

lemma load_le_all: "length a = n \<Longrightarrow> load_le n a = of_le a"
  by (simp add: load_le_def)

interpretation cmp_long: key_embedding mdb_cmp_long "\<lambda>k. length k = 8" of_le
  by unfold_locales (auto simp: mdb_cmp_long_def load_le_all of_le_inj)

interpretation cmp_int: key_embedding mdb_cmp_int "\<lambda>k. length k = 4" of_le
  by unfold_locales (auto simp: mdb_cmp_int_def load_le_all of_le_inj)

lemma of_le_pair: "Suc i < length a \<Longrightarrow> of_le (take (Suc (Suc i)) a) =
    of_le (take i a) + 256 ^ i * (unat (a ! i) + 256 * unat (a ! Suc i))"
  by (simp add: take_Suc_conv_app_nth of_le_append algebra_simps)

lemma ushort_at_nat: "ushort_at a i = int (unat (a ! i) + 256 * unat (a ! Suc i))"
  by (simp add: ushort_at_def)

lemma le_digit_less:
  fixes x y :: nat
  assumes "x < B" "y < B"
  shows "x + B * u < y + B * v \<longleftrightarrow> u < v \<or> (u = v \<and> x < y)"
proof (cases u v rule: linorder_cases)
  case less
  then have "B * Suc u \<le> B * v" by (intro mult_le_mono2) simp
  then show ?thesis using less assms by simp
next
  case greater
  then have "B * Suc v \<le> B * u" by (intro mult_le_mono2) simp
  then show ?thesis using greater assms by simp
qed simp

lemma cint_loop_le:
  assumes "even n" "0 < n" "n \<le> length a" "n \<le> length b"
  shows "(cint_loop a b n < 0 \<longleftrightarrow> of_le (take n a) < of_le (take n b)) \<and>
    (0 < cint_loop a b n \<longleftrightarrow> of_le (take n b) < of_le (take n a))"
  using assms
proof (induction a b n rule: cint_loop.induct)
  case (1 a b n)
  let ?u = "unat (a ! n) + 256 * unat (a ! Suc n)" and ?v = "unat (b ! n) + 256 * unat (b ! Suc n)"
  have bounds: "of_le (take n a) < 256 ^ n" "of_le (take n b) < 256 ^ n"
    using of_le_bound [of "take n a"] of_le_bound [of "take n b"] "1.prems" by simp_all
  have split: "of_le (take (Suc (Suc n)) a) = of_le (take n a) + 256 ^ n * ?u"
    "of_le (take (Suc (Suc n)) b) = of_le (take n b) + 256 ^ n * ?v"
    using "1.prems" by (simp_all add: of_le_pair)
  have x: "ushort_at a n = int ?u" "ushort_at b n = int ?v" by (rule ushort_at_nat)+
  show ?case
  proof (cases "?u = ?v \<and> n > 0")
    case True
    then have "ushort_at a n = ushort_at b n" by (simp only: x)
    then have loop: "cint_loop a b (Suc (Suc n)) = cint_loop a b n" using True by simp
    have "(cint_loop a b n < 0 \<longleftrightarrow> of_le (take n a) < of_le (take n b)) \<and>
        (0 < cint_loop a b n \<longleftrightarrow> of_le (take n b) < of_le (take n a))"
      using "1.IH" [OF refl] "1.prems" True \<open>ushort_at a n = ushort_at b n\<close> by simp
    then show ?thesis unfolding loop split using True by simp
  next
    case False
    then have "n = 0 \<or> int ?u \<noteq> int ?v" unfolding of_nat_eq_iff neq0_conv [symmetric] by blast
    then have c: "cint_loop a b (Suc (Suc n)) = int ?u - int ?v"
      using x by (auto simp: Let_def simp del: of_nat_add of_nat_mult of_nat_unat)
    have "?u = ?v \<Longrightarrow> n = 0" using False unfolding neq0_conv [symmetric] by blast
    then show ?thesis
      unfolding c split le_digit_less [OF bounds] le_digit_less [OF bounds(2) bounds(1)]
      by (auto simp del: of_nat_add of_nat_mult of_nat_unat)
  qed
qed auto

lemma cmp_cint_le:
  assumes "length a = length b" "even (length a)" "0 < length a"
  shows "(mdb_cmp_cint a b < 0 \<longleftrightarrow> of_le a < of_le b) \<and> (0 < mdb_cmp_cint a b \<longleftrightarrow> of_le b < of_le a)"
  using cint_loop_le [of "length a" a b] assms by (simp add: mdb_cmp_cint_def)

lemma cmp_cint_less:
  "length a = length b \<Longrightarrow> even (length b) \<Longrightarrow> 0 < length b \<Longrightarrow> mdb_cmp_cint a b < 0 \<longleftrightarrow> of_le a < of_le b"
  and cmp_cint_greater:
  "length a = length b \<Longrightarrow> even (length b) \<Longrightarrow> 0 < length b \<Longrightarrow> 0 < mdb_cmp_cint a b \<longleftrightarrow> of_le b < of_le a"
  using cmp_cint_le [of a b] by simp_all

interpretation cint4: key_embedding mdb_cmp_cint "\<lambda>k. length k = 4" of_le
  by unfold_locales (simp_all add: cmp_cint_less cmp_cint_greater of_le_inj)

interpretation cint8: key_embedding mdb_cmp_cint "\<lambda>k. length k = 8" of_le
  by unfold_locales (simp_all add: cmp_cint_less cmp_cint_greater of_le_inj)

section \<open>Properties\<close>

text \<open>
  The default comparison of keys, \<open>mdb_cmp_memn\<close>, is the lexicographic order of byte
  strings, a proper prefix first: it is negative exactly when the first key is below the
  second, positive when it is above, and zero only for equal keys.
\<close>

theorem cmp_memn_lexicographic:
  assumes "length a < 2 ^ 32" "length b < 2 ^ 32"
  shows "(mdb_cmp_memn a b < 0 \<longleftrightarrow> a < b) \<and> (0 < mdb_cmp_memn a b \<longleftrightarrow> b < a)
    \<and> (mdb_cmp_memn a b = 0 \<longleftrightarrow> a = b)"
  using cmp_memn_lex [OF assms] memn.cmp_zero [of a b] assms by simp

theorem cmp_memn_witness: "mdb_cmp_memn [1, 2] [1, 2, 0] < 0 \<and> 0 < mdb_cmp_memn [2] [1, 9]"
  using cmp_memn_lexicographic [of "[1, 2]" "[1, 2, 0]"] cmp_memn_lexicographic [of "[2]" "[1, 9]"]
  by simp

text \<open>
  The comparison of integer keys of unknown alignment, \<open>mdb_cmp_cint\<close>, which reads the
  keys as 16-bit units from the end, orders keys of one even size by the little-endian
  number they hold, as the aligned comparison of 8-byte keys does.
\<close>

theorem cmp_cint_numeric:
  assumes "length a = length b" "even (length a)" "0 < length a"
  shows "(mdb_cmp_cint a b < 0 \<longleftrightarrow> of_le a < of_le b)
    \<and> (0 < mdb_cmp_cint a b \<longleftrightarrow> of_le b < of_le a)
    \<and> (mdb_cmp_cint a b = 0 \<longleftrightarrow> a = b)
    \<and> (length a = 8 \<longrightarrow> sgn (mdb_cmp_cint a b) = mdb_cmp_long a b)"
proof -
  note c = cmp_cint_le [OF assms]
  have "mdb_cmp_cint a b = 0 \<longleftrightarrow> of_le a = of_le b" using c by linarith
  then have "mdb_cmp_cint a b = 0 \<longleftrightarrow> a = b" using assms(1) by (simp add: of_le_inj)
  moreover have "sgn (mdb_cmp_cint a b) = mdb_cmp_long a b" if "length a = 8"
    using c that assms(1) \<open>mdb_cmp_cint a b = 0 \<longleftrightarrow> of_le a = of_le b\<close>
    by (auto simp: mdb_cmp_long_def load_le_all sgn_if)
  ultimately show ?thesis using c by blast
qed

theorem cmp_cint_witness: "mdb_cmp_cint [255, 0, 0, 0] [0, 1, 0, 0] < 0"
  using cmp_cint_numeric [of "[255, 0, 0, 0]" "[0, 1, 0, 0]"] by simp

text \<open>
  Whatever flags a database has, on keys of 8 bytes the comparison that
  \<open>mdb_default_cmp\<close> selects is a strict total order: it tells different keys apart,
  swapping its arguments swaps its sign, and it is transitive.
\<close>

theorem default_cmp_is_order:
  assumes "length a = 8" "length b = 8" "length c = 8"
  shows "let cmp = run_cmp user (fst (mdb_default_cmp f)) in
    (cmp a b = 0 \<longleftrightarrow> a = b) \<and> (cmp a b < 0 \<longleftrightarrow> 0 < cmp b a)
    \<and> (cmp a b < 0 \<longrightarrow> cmp b c < 0 \<longrightarrow> cmp a c < 0)"
proof -
  have l: "length a < 2 ^ 32" "length b < 2 ^ 32" "length c < 2 ^ 32" using assms(1-3) by simp_all
  show ?thesis
    using memn.cmp_zero [OF l(1,2)] memn.cmp_flip [OF l(1,2)] memn.cmp_trans [OF l]
      memnr.cmp_zero [OF l(1,2)] memnr.cmp_flip [OF l(1,2)] memnr.cmp_trans [OF l]
      cint8.cmp_zero [OF assms(1,2)] cint8.cmp_flip [OF assms(1,2)] cint8.cmp_trans [OF assms(1-3)]
    by (simp add: mdb_default_cmp_def Let_def)
qed

theorem default_cmp_witness:
  "run_cmp (\<lambda>_ _ _. 0) (fst (mdb_default_cmp MDB_INTEGERKEY)) [1, 0, 0, 0, 0, 0, 0, 0] [2, 0, 0, 0, 0, 0, 0, 0] \<noteq> 0"
  using default_cmp_is_order [of "[1, 0, 0, 0, 0, 0, 0, 0]" "[2, 0, 0, 0, 0, 0, 0, 0]"
    "[2, 0, 0, 0, 0, 0, 0, 0]" "\<lambda>_ _ _. 0" MDB_INTEGERKEY] by (simp add: Let_def)

end
