(* ===== verification/Hash.thy ===== *)
theory Hash
  imports Prelude
begin

text \<open>
  The 64-bit FNV-1a hash of the database path and its text form (\<open>mdb_hash_val\<close>,
  \<open>mdb_pack85\<close>, \<open>mdb_hash_enc\<close>): on this platform the names of the semaphores that
  guard the reader table and the writer are made of it.
\<close>

definition MDB_HASH_INIT :: u64 where "MDB_HASH_INIT = 0xcbf29ce484222325"

text \<open>One turn of the loop: xor the octet in, then multiply by shifts and adds.\<close>

definition hash_step :: "u64 \<Rightarrow> u8 \<Rightarrow> u64" where
  "hash_step hval s =
     (let hval = hval XOR ucast s in
      hval + (push_bit 1 hval + push_bit 4 hval + push_bit 5 hval
        + push_bit 7 hval + push_bit 8 hval + push_bit 40 hval))"

fun mdb_hash_val :: "bytes \<Rightarrow> u64 \<Rightarrow> u64" where
  "mdb_hash_val [] hval = hval"
| "mdb_hash_val (s # val) hval = mdb_hash_val val (hash_step hval s)"

definition mdb_a85 :: string where
  "mdb_a85 = ''0123456789ABCDEFGHIJKLMNOPQRSTUVWXYZabcdefghijklmnopqrstuvwxyz!#$%&()*+-;<=>?@^_`{|}~''"

fun pack85_loop :: "nat \<Rightarrow> u64 \<Rightarrow> string" where
  "pack85_loop 0 l = []"
| "pack85_loop (Suc n) l = mdb_a85 ! unat (l mod 85) # pack85_loop n (l div 85)"

definition mdb_pack85 :: "u64 \<Rightarrow> string" where
  "mdb_pack85 l = pack85_loop 5 l"

definition mdb_hash_enc :: "bytes \<Rightarrow> string" where
  "mdb_hash_enc val =
     (let h = mdb_hash_val val MDB_HASH_INIT
      in mdb_pack85 h @ mdb_pack85 (drop_bit 32 h) @ [CHR 0x00])"

section \<open>Lemmas\<close>

definition FNV_prime :: u64 where "FNV_prime = 0x100000001b3"

lemma hash_step_mult: "hash_step h s = (h XOR ucast s) * FNV_prime"
proof -
  have "push_bit n x = x * 2 ^ n" for n and x :: u64
    by (simp add: push_bit_eq_mult)
  then show ?thesis
    by (simp add: hash_step_def FNV_prime_def Let_def algebra_simps)
qed

lemma length_mdb_a85: "length mdb_a85 = 85"
  by (simp add: mdb_a85_def)

lemma distinct_mdb_a85: "distinct mdb_a85"
  by (simp add: mdb_a85_def)

lemma a85_no_slash: "CHR ''/'' \<notin> set mdb_a85 \<and> CHR 0x00 \<notin> set mdb_a85"
  by (simp add: mdb_a85_def)

lemma mod85_bound: "unat (l mod 85 :: u64) < 85"
  by (simp add: unat_mod_distrib)

lemma pack85_loop_spec:
  "length (pack85_loop n l) = n \<and> set (pack85_loop n l) \<subseteq> set mdb_a85"
proof (induction n arbitrary: l)
  case (Suc n)
  have "mdb_a85 ! unat (l mod 85) \<in> set mdb_a85"
    using mod85_bound [of l] length_mdb_a85 by (simp del: length_mdb_a85)
  then show ?case using Suc by auto
qed simp

lemma digit_eq:
  assumes "r < 85" "s < 85"
  shows "85 * a + r = 85 * b + s \<longleftrightarrow> r = s \<and> a = (b :: nat)"
proof
  assume e: "85 * a + r = 85 * b + s"
  have "(85 * a + r) mod 85 = r" "(85 * b + s) mod 85 = s" using assms by simp_all
  then have "r = s" using e by (simp only:)
  then show "r = s \<and> a = b" using e by simp
qed simp

text \<open>The digits hold the number modulo \<open>85 ^ n\<close>: different remainders, different strings.\<close>

lemma pack85_loop_inj:
  "pack85_loop n k = pack85_loop n l \<longleftrightarrow> unat k mod 85 ^ n = unat l mod 85 ^ n"
proof (induction n arbitrary: k l)
  case (Suc n)
  have "mdb_a85 ! unat (k mod 85) = mdb_a85 ! unat (l mod 85) \<longleftrightarrow> unat (k mod 85) = unat (l mod 85)"
    using mod85_bound [of k] mod85_bound [of l] distinct_mdb_a85 length_mdb_a85
    by (simp add: nth_eq_iff_index_eq)
  also have "\<dots> \<longleftrightarrow> unat k mod 85 = unat l mod 85"
    by (simp add: unat_mod_distrib)
  finally have digit: "mdb_a85 ! unat (k mod 85) = mdb_a85 ! unat (l mod 85) \<longleftrightarrow> unat k mod 85 = unat l mod 85" .
  have rest: "pack85_loop n (k div 85) = pack85_loop n (l div 85) \<longleftrightarrow>
      unat k div 85 mod 85 ^ n = unat l div 85 mod 85 ^ n"
    by (simp add: Suc.IH unat_div_distrib)
  have split: "x mod 85 ^ Suc n = 85 * (x div 85 mod 85 ^ n) + x mod 85" for x :: nat
    by (simp add: mod_mult2_eq)
  have "x mod 85 ^ Suc n = y mod 85 ^ Suc n \<longleftrightarrow>
      x mod 85 = y mod 85 \<and> x div 85 mod 85 ^ n = y div 85 mod 85 ^ n" for x y :: nat
    unfolding split by (rule digit_eq) simp_all
  then show ?case using digit rest by simp
qed simp

section \<open>Properties\<close>

text \<open>
  C31: \<open>mdb_hash_val\<close> is FNV-1a: its shifts and adds multiply by the 64-bit FNV prime
  modulo \<open>2 ^ 64\<close> after each octet is xored in, and hashing in two pieces, the first
  result as the initial value of the second, is hashing the whole.
\<close>

theorem hash_val_fnv1a:
  "mdb_hash_val val hval = foldl (\<lambda>h s. (h XOR ucast s) * 0x100000001b3) hval val
   \<and> mdb_hash_val (val @ val') hval = mdb_hash_val val' (mdb_hash_val val hval)"
proof
  show "mdb_hash_val val hval = foldl (\<lambda>h s. (h XOR ucast s) * 0x100000001b3) hval val"
    by (induction val hval rule: mdb_hash_val.induct) (simp_all add: hash_step_mult FNV_prime_def)
  show "mdb_hash_val (val @ val') hval = mdb_hash_val val' (mdb_hash_val val hval)"
    by (induction val hval rule: mdb_hash_val.induct) simp_all
qed

text \<open>
  The text form of a hash fits the 11 characters of its buffer with the terminator,
  has no slash and no other terminator in it, so that it can be a semaphore name, and
  two paths get the same text only if their hashes agree modulo \<open>85 ^ 5\<close> in the whole
  and in the upper half.
\<close>

theorem hash_enc_name:
  "length (mdb_hash_enc val) = 11 \<and> last (mdb_hash_enc val) = CHR 0x00
   \<and> CHR ''/'' \<notin> set (butlast (mdb_hash_enc val)) \<and> CHR 0x00 \<notin> set (butlast (mdb_hash_enc val))
   \<and> (mdb_hash_enc val = mdb_hash_enc val' \<longleftrightarrow>
      (let h = mdb_hash_val val MDB_HASH_INIT; h' = mdb_hash_val val' MDB_HASH_INIT in
       unat h mod 85 ^ 5 = unat h' mod 85 ^ 5 \<and>
       unat (drop_bit 32 h) mod 85 ^ 5 = unat (drop_bit 32 h') mod 85 ^ 5))"
proof -
  have len: "length (mdb_pack85 l) = 5" and sub: "set (mdb_pack85 l) \<subseteq> set mdb_a85" for l
    using pack85_loop_spec [of 5 l] by (simp_all add: mdb_pack85_def)
  have "mdb_hash_enc val = mdb_hash_enc val' \<longleftrightarrow>
      mdb_pack85 (mdb_hash_val val MDB_HASH_INIT) = mdb_pack85 (mdb_hash_val val' MDB_HASH_INIT) \<and>
      mdb_pack85 (drop_bit 32 (mdb_hash_val val MDB_HASH_INIT))
        = mdb_pack85 (drop_bit 32 (mdb_hash_val val' MDB_HASH_INIT))"
    by (simp add: mdb_hash_enc_def Let_def len)
  also have "\<dots> \<longleftrightarrow> (let h = mdb_hash_val val MDB_HASH_INIT; h' = mdb_hash_val val' MDB_HASH_INIT in
       unat h mod 85 ^ 5 = unat h' mod 85 ^ 5 \<and>
       unat (drop_bit 32 h) mod 85 ^ 5 = unat (drop_bit 32 h') mod 85 ^ 5)"
    unfolding Let_def mdb_pack85_def by (simp only: pack85_loop_inj)
  finally show ?thesis
    using sub a85_no_slash by (auto simp: mdb_hash_enc_def Let_def len butlast_append)
qed

end
