(* ===== verification/Page.thy ===== *)
theory Page
  imports Errors
begin

text \<open>
  B-tree pages of \<open>mdb.c\<close>: the page and node headers, the macros that read them, and the
  operations that edit one page in place (\<open>mdb_node_add\<close>, \<open>mdb_node_del\<close>,
  \<open>mdb_update_key\<close>, \<open>mdb_page_copy\<close>). The header fields and the array of node offsets
  \<open>mp_ptrs\<close> are fields of the record; the bytes of the page, where the nodes live and
  the operations move them, are the memory \<open>mp_body\<close>, addressed by offset from the start
  of the page. \<open>PAGEBASE\<close> is 0 in the release configuration (\<open>MDB_DEVEL\<close> is 0).
\<close>

section \<open>Page headers\<close>

record mdb_page =
  mp_pgno :: u64
  mp_pad :: u16
  mp_flags :: u16
  mp_lower :: nat
  mp_upper :: nat
  mp_ptrs :: "nat \<Rightarrow> nat"
  mp_body :: mem

definition P_BRANCH :: u16 where "P_BRANCH = 0x01"
definition P_LEAF :: u16 where "P_LEAF = 0x02"
definition P_OVERFLOW :: u16 where "P_OVERFLOW = 0x04"
definition P_META :: u16 where "P_META = 0x08"
definition P_DIRTY :: u16 where "P_DIRTY = 0x10"
definition P_LEAF2 :: u16 where "P_LEAF2 = 0x20"
definition P_SUBP :: u16 where "P_SUBP = 0x40"
definition P_LOOSE :: u16 where "P_LOOSE = 0x4000"
definition P_KEEP :: u16 where "P_KEEP = 0x8000"

text \<open>The union \<open>mp_pb\<close>: the count of an overflow page lies over the two bounds.\<close>

definition mp_pages :: "mdb_page \<Rightarrow> nat" where
  "mp_pages p = mp_lower p + 65536 * mp_upper p"

definition set_mp_pages :: "nat \<Rightarrow> mdb_page \<Rightarrow> mdb_page" where
  "set_mp_pages n p = p\<lparr>mp_lower := n mod 65536, mp_upper := n div 65536 mod 65536\<rparr>"

definition PAGEHDRSZ :: nat where "PAGEHDRSZ = 16"
definition PAGEBASE :: nat where "PAGEBASE = 0"

definition NUMKEYS :: "mdb_page \<Rightarrow> nat" where
  "NUMKEYS p = (mp_lower p - (PAGEHDRSZ - PAGEBASE)) div 2"

definition SIZELEFT :: "mdb_page \<Rightarrow> nat" where
  "SIZELEFT p = indx_sub (mp_upper p) (mp_lower p)"

definition PAGEFILL :: "nat \<Rightarrow> mdb_page \<Rightarrow> nat" where
  "PAGEFILL psize p = 1000 * (psize - PAGEHDRSZ - SIZELEFT p) div (psize - PAGEHDRSZ)"

definition FILL_THRESHOLD :: nat where "FILL_THRESHOLD = 250"

definition IS_LEAF :: "mdb_page \<Rightarrow> bool" where "IS_LEAF p = F_ISSET (mp_flags p) P_LEAF"
definition IS_LEAF2 :: "mdb_page \<Rightarrow> bool" where "IS_LEAF2 p = F_ISSET (mp_flags p) P_LEAF2"
definition IS_BRANCH :: "mdb_page \<Rightarrow> bool" where "IS_BRANCH p = F_ISSET (mp_flags p) P_BRANCH"
definition IS_OVERFLOW :: "mdb_page \<Rightarrow> bool" where "IS_OVERFLOW p = F_ISSET (mp_flags p) P_OVERFLOW"
definition IS_SUBP :: "mdb_page \<Rightarrow> bool" where "IS_SUBP p = F_ISSET (mp_flags p) P_SUBP"

definition OVPAGES :: "nat \<Rightarrow> nat \<Rightarrow> nat" where
  "OVPAGES sz psize = (PAGEHDRSZ - 1 + sz) div psize + 1"

section \<open>Nodes\<close>

text \<open>
  A node lies in the bytes of its page at an offset: four unsigned shorts, then the key,
  then the data of a leaf node (or the number of the overflow page that has it).
\<close>

definition NODESIZE :: nat where "NODESIZE = 8"

definition F_BIGDATA :: u16 where "F_BIGDATA = 0x01"
definition F_SUBDATA :: u16 where "F_SUBDATA = 0x02"
definition F_DUPDATA :: u16 where "F_DUPDATA = 0x04"
definition MDB_RESERVE :: u32 where "MDB_RESERVE = 0x10000"

definition mn_lo :: "mem \<Rightarrow> nat \<Rightarrow> u16" where "mn_lo m node = rd16 m node"
definition mn_hi :: "mem \<Rightarrow> nat \<Rightarrow> u16" where "mn_hi m node = rd16 m (node + 2)"
definition mn_flags :: "mem \<Rightarrow> nat \<Rightarrow> u16" where "mn_flags m node = rd16 m (node + 4)"
definition mn_ksize :: "mem \<Rightarrow> nat \<Rightarrow> u16" where "mn_ksize m node = rd16 m (node + 6)"

definition NODEPTR :: "mdb_page \<Rightarrow> nat \<Rightarrow> nat" where
  "NODEPTR p i = mp_ptrs p i + PAGEBASE"

definition NODEKSZ :: "mem \<Rightarrow> nat \<Rightarrow> nat" where
  "NODEKSZ m node = unat (mn_ksize m node)"

text \<open>The key of a node (\<open>NODEKEY\<close> with \<open>NODEKSZ\<close>).\<close>

definition NODEKEY :: "mem \<Rightarrow> nat \<Rightarrow> bytes" where
  "NODEKEY m node = rd m (node + NODESIZE) (NODEKSZ m node)"

definition NODEDATA :: "mem \<Rightarrow> nat \<Rightarrow> nat" where
  "NODEDATA m node = node + NODESIZE + NODEKSZ m node"

definition NODEPGNO :: "mem \<Rightarrow> nat \<Rightarrow> u64" where
  "NODEPGNO m node = ucast (mn_lo m node) OR push_bit 16 (ucast (mn_hi m node))
     OR push_bit 32 (ucast (mn_flags m node))"

definition SETPGNO :: "mem \<Rightarrow> nat \<Rightarrow> u64 \<Rightarrow> mem" where
  "SETPGNO m node pgno =
     (let m = wr16 m node (ucast (pgno AND 0xffff));
          m = wr16 m (node + 2) (ucast (drop_bit 16 pgno))
      in wr16 m (node + 4) (ucast (drop_bit 32 pgno)))"

definition NODEDSZ :: "mem \<Rightarrow> nat \<Rightarrow> u32" where
  "NODEDSZ m node = ucast (mn_lo m node) OR push_bit 16 (ucast (mn_hi m node))"

definition SETDSZ :: "mem \<Rightarrow> nat \<Rightarrow> u64 \<Rightarrow> mem" where
  "SETDSZ m node sz =
     (let m = wr16 m node (ucast (sz AND 0xffff))
      in wr16 m (node + 2) (ucast (drop_bit 16 sz)))"

definition LEAF2KEY :: "nat \<Rightarrow> nat \<Rightarrow> nat" where
  "LEAF2KEY i ks = PAGEHDRSZ + i * ks"

text \<open>A key or data argument: \<open>mv_size\<close> and the bytes \<open>mv_data\<close> points at.\<close>

record mdb_val =
  mv_size :: nat
  mv_data :: bytes

definition INDXSIZE :: "mdb_val option \<Rightarrow> nat" where
  "INDXSIZE k = NODESIZE + (case k of None \<Rightarrow> 0 | Some k \<Rightarrow> mv_size k)"

definition LEAFSIZE :: "mdb_val \<Rightarrow> mdb_val \<Rightarrow> nat" where
  "LEAFSIZE k d = NODESIZE + mv_size k + mv_size d"

text \<open>
  The space a new node takes with its slot in \<open>mp_ptrs\<close>: too large a data item goes to an
  overflow page and leaves an 8-byte page number.
\<close>

definition mdb_leaf_size :: "nat \<Rightarrow> mdb_val \<Rightarrow> mdb_val \<Rightarrow> nat" where
  "mdb_leaf_size me_nodemax key data =
     (let sz = LEAFSIZE key data;
          sz = (if sz > me_nodemax then sz + 8 - mv_size data else sz)
      in EVEN (sz + 2))"

definition mdb_branch_size :: "mdb_val option \<Rightarrow> nat" where
  "mdb_branch_size key = INDXSIZE key + 2"

section \<open>Adding a node\<close>

text \<open>\<open>for (i = NUMKEYS(mp); i > indx; i--) mp->mp_ptrs[i] = mp->mp_ptrs[i - 1];\<close>\<close>

fun ptrs_shift_up :: "(nat \<Rightarrow> nat) \<Rightarrow> nat \<Rightarrow> nat \<Rightarrow> (nat \<Rightarrow> nat)" where
  "ptrs_shift_up ptrs indx 0 = ptrs"
| "ptrs_shift_up ptrs indx (Suc i) =
     (if Suc i > indx then ptrs_shift_up (ptrs(Suc i := ptrs i)) indx i else ptrs)"

text \<open>
  From the label \<open>update\<close> on: move the higher pointers, take \<open>node_size\<close> bytes off the free
  space, write header, key and data. \<open>ofp\<close> is the overflow page taken for the data, if
  any. The assertion on the free space is \<open>None\<close> when it fails.
\<close>

definition node_add_update ::
  "mdb_page \<Rightarrow> nat \<Rightarrow> nat \<Rightarrow> mdb_val option \<Rightarrow> mdb_val option \<Rightarrow> u64 \<Rightarrow> u32 \<Rightarrow> mdb_page option
   \<Rightarrow> (mdb_page \<times> mdb_page option) option" where
  "node_add_update mp indx node_size key data pgno flags ofp =
     (let ptrs = ptrs_shift_up (mp_ptrs mp) indx (NUMKEYS mp);
          ofs = indx_sub (mp_upper mp) node_size in
      if \<not> (ofs \<ge> mp_lower mp + 2) then None
      else
       (let mp = mp\<lparr>mp_ptrs := ptrs(indx := ofs), mp_upper := ofs,
                    mp_lower := indx_t (mp_lower mp + 2)\<rparr>;
            node = NODEPTR mp indx;
            ksize = (case key of None \<Rightarrow> 0 | Some k \<Rightarrow> mv_size k);
            m = wr16 (mp_body mp) (node + 6) (word_of_nat ksize);
            m = wr16 m (node + 4) (ucast flags);
            m = (if IS_LEAF mp then (case data of None \<Rightarrow> m | Some d \<Rightarrow> SETDSZ m node (word_of_nat (mv_size d)))
                 else SETPGNO m node pgno);
            m = (case key of None \<Rightarrow> m | Some k \<Rightarrow> wr m (node + NODESIZE) (take ksize (mv_data k)))
        in case (IS_LEAF mp, key, data) of
             (False, _, _) \<Rightarrow> Some (mp\<lparr>mp_body := m\<rparr>, ofp)
           | (True, Some k, Some d) \<Rightarrow>
               (let dst = node + NODESIZE + ksize in
                case ofp of
                  None \<Rightarrow>
                    (let m = (if F_ISSET flags (ucast F_BIGDATA) then wr m dst (take 8 (mv_data d))
                              else if F_ISSET flags MDB_RESERVE then m
                              else wr m dst (take (mv_size d) (mv_data d)))
                     in Some (mp\<lparr>mp_body := m\<rparr>, None))
                | Some ov \<Rightarrow>
                    (let m = wr m dst (u64_bytes (mp_pgno ov));
                         ov = (if F_ISSET flags MDB_RESERVE then ov
                               else ov\<lparr>mp_body := wr (mp_body ov) PAGEHDRSZ (take (mv_size d) (mv_data d))\<rparr>)
                     in Some (mp\<lparr>mp_body := m\<rparr>, Some ov)))
           | _ \<Rightarrow> None))"

text \<open>The \<open>P_LEAF2\<close> case: keys of one size, stored next to each other.\<close>

definition node_add_leaf2 :: "nat \<Rightarrow> mdb_page \<Rightarrow> nat \<Rightarrow> bytes \<Rightarrow> mdb_page" where
  "node_add_leaf2 ksize mp indx key =
     (let ptr = LEAF2KEY indx ksize;
          dif = int (NUMKEYS mp) - int indx;
          m = (if dif > 0 then mem_move (mp_body mp) (ptr + ksize) ptr (nat dif * ksize) else mp_body mp)
      in mp\<lparr>mp_body := wr m ptr (take ksize key),
            mp_lower := indx_t (mp_lower mp + 2),
            mp_upper := indx_sub (mp_upper mp + 2) ksize\<rparr>)"

definition MDB_TXN_ERROR :: u32 where "MDB_TXN_ERROR = 0x02"

text \<open>
  \<open>mdb_node_add\<close>. \<open>page_new s n\<close> is \<open>mdb_page_new(mc, P_OVERFLOW, n)\<close> on the state \<open>s\<close> of
  the transaction; the other arguments are what the function reads of the cursor, its
  transaction and environment. A page without room is refused with \<open>MDB_PAGE_FULL\<close>, and
  the transaction marked as failed.
\<close>

definition mdb_node_add ::
  "('s \<Rightarrow> nat \<Rightarrow> 's \<times> (mdb_err + mdb_page)) \<Rightarrow> nat \<Rightarrow> nat \<Rightarrow> nat \<Rightarrow> 's \<Rightarrow> u32 \<Rightarrow> mdb_page \<Rightarrow> nat
   \<Rightarrow> mdb_val option \<Rightarrow> mdb_val option \<Rightarrow> u64 \<Rightarrow> u32
   \<Rightarrow> ('s \<times> u32 \<times> (mdb_err + mdb_page \<times> mdb_page option)) option" where
  "mdb_node_add page_new md_pad me_nodemax me_psize s mt_flags mp indx key data pgno flags =
     (if \<not> mp_upper mp \<ge> mp_lower mp then None
      else if IS_LEAF2 mp then
        (case key of None \<Rightarrow> None
         | Some k \<Rightarrow> Some (s, mt_flags, Inr (node_add_leaf2 md_pad mp indx (mv_data k), None)))
      else
        (let room = int (SIZELEFT mp) - 2;
             full = Some (s, mt_flags OR MDB_TXN_ERROR, Inl MDB_PAGE_FULL);
             node_size = INDXSIZE key;
             finish = (\<lambda>node_size.
               if int (EVEN node_size) > room then full
               else (case node_add_update mp indx (EVEN node_size) key data pgno flags None of
                       None \<Rightarrow> None | Some r \<Rightarrow> Some (s, mt_flags, Inr r)))
         in
         if IS_LEAF mp then
           (case data of None \<Rightarrow> None
            | Some d \<Rightarrow>
               if F_ISSET flags (ucast F_BIGDATA) then finish (node_size + 8)
               else if node_size + mv_size d > me_nodemax then
                 (let ovpages = OVPAGES (mv_size d) me_psize;
                      node_size = EVEN (node_size + 8) in
                  if int node_size > room then full
                  else (case page_new s ovpages of
                          (s, Inl rc) \<Rightarrow> Some (s, mt_flags, Inl rc)
                        | (s, Inr ofp) \<Rightarrow>
                            (case node_add_update mp indx node_size key data pgno
                                    (flags OR ucast F_BIGDATA) (Some ofp) of
                               None \<Rightarrow> None | Some r \<Rightarrow> Some (s, mt_flags, Inr r))))
               else finish (node_size + mv_size d))
         else finish node_size))"

section \<open>Deleting a node\<close>

text \<open>
  \<open>for (i = j = 0; i < numkeys; i++) if (i != indx) ...\<close>: the pointers after \<open>indx\<close> move
  down, those below \<open>ptr\<close> are raised by the size of the gap.
\<close>

fun ptrs_close_gap :: "(nat \<Rightarrow> nat) \<Rightarrow> nat \<Rightarrow> nat \<Rightarrow> nat \<Rightarrow> nat \<Rightarrow> nat \<Rightarrow> nat \<Rightarrow> (nat \<Rightarrow> nat)" where
  "ptrs_close_gap ptrs indx ptr sz i j 0 = ptrs"
| "ptrs_close_gap ptrs indx ptr sz i j (Suc n) =
     (if i \<noteq> indx then
        (let old = ptrs i;
             ptrs = ptrs(j := old);
             ptrs = (if ptrs i < ptr then ptrs(j := indx_t (ptrs j + sz)) else ptrs)
         in ptrs_close_gap ptrs indx ptr sz (i + 1) (j + 1) n)
      else ptrs_close_gap ptrs indx ptr sz (i + 1) j n)"

definition mdb_node_del :: "nat \<Rightarrow> mdb_page \<Rightarrow> nat \<Rightarrow> mdb_page option" where
  "mdb_node_del ksize mp indx =
     (let numkeys = NUMKEYS mp in
      if \<not> indx < numkeys then None
      else if IS_LEAF2 mp then
        (let x = numkeys - 1 - indx; base = LEAF2KEY indx ksize in
         Some (mp\<lparr>mp_body := (if x \<noteq> 0 then mem_move (mp_body mp) base (base + ksize) (x * ksize)
                              else mp_body mp),
                  mp_lower := indx_sub (mp_lower mp) 2,
                  mp_upper := indx_t (mp_upper mp + ksize - 2)\<rparr>))
      else
        (let m = mp_body mp;
             node = NODEPTR mp indx;
             sz = NODESIZE + NODEKSZ m node;
             sz = (if IS_LEAF mp
                   then (if F_ISSET (mn_flags m node) F_BIGDATA then sz + 8 else sz + unat (NODEDSZ m node))
                   else sz);
             sz = EVEN sz;
             ptr = mp_ptrs mp indx;
             ptrs = ptrs_close_gap (mp_ptrs mp) indx ptr sz 0 0 numkeys;
             base = mp_upper mp + PAGEBASE
         in Some (mp\<lparr>mp_ptrs := ptrs,
                     mp_body := mem_move m (base + sz) base (ptr - mp_upper mp),
                     mp_lower := indx_sub (mp_lower mp) 2,
                     mp_upper := indx_t (mp_upper mp + sz)\<rparr>)))"

section \<open>Replacing the key of a node\<close>

text \<open>\<open>for (i = 0; i < numkeys; i++) if (mp->mp_ptrs[i] <= ptr) mp->mp_ptrs[i] -= delta;\<close>\<close>

fun ptrs_adjust :: "(nat \<Rightarrow> nat) \<Rightarrow> nat \<Rightarrow> int \<Rightarrow> nat \<Rightarrow> (nat \<Rightarrow> nat)" where
  "ptrs_adjust ptrs ptr delta 0 = ptrs"
| "ptrs_adjust ptrs ptr delta (Suc n) =
     (let ptrs = ptrs_adjust ptrs ptr delta n in
      if ptrs n \<le> ptr then ptrs(n := nat ((int (ptrs n) - delta) mod 65536)) else ptrs)"

text \<open>
  \<open>mdb_update_key\<close>. When the longer key does not fit, the code deletes the node and goes on
  with \<open>mdb_page_split\<close>: the result \<open>Inl\<close> is the page after the deletion and the child's
  page number that the split inserts again.
\<close>

definition mdb_update_key :: "mdb_page \<Rightarrow> nat \<Rightarrow> mdb_val \<Rightarrow> (mdb_page \<times> u64 + mdb_page) option" where
  "mdb_update_key mp indx key =
     (let m = mp_body mp;
          node = NODEPTR mp indx;
          ptr = mp_ptrs mp indx;
          ksize = EVEN (mv_size key);
          oksize = EVEN (NODEKSZ m node);
          delta = int ksize - int oksize in
      if delta > 0 \<and> int (SIZELEFT mp) < delta then
        (case mdb_node_del 0 mp indx of None \<Rightarrow> None
         | Some mp' \<Rightarrow> Some (Inl (mp', NODEPGNO m node)))
      else
        (let mp = (if delta \<noteq> 0 then
                     (let base = mp_upper mp + PAGEBASE;
                          len = ptr - mp_upper mp + NODESIZE
                      in mp\<lparr>mp_ptrs := ptrs_adjust (mp_ptrs mp) ptr delta (NUMKEYS mp),
                            mp_body := mem_move m (nat (int base - delta)) base len,
                            mp_upper := nat ((int (mp_upper mp) - delta) mod 65536)\<rparr>)
                   else mp);
             node = NODEPTR mp indx;
             m = mp_body mp;
             m = (if NODEKSZ m node \<noteq> mv_size key then wr16 m (node + 6) (word_of_nat (mv_size key)) else m);
             m = (if mv_size key \<noteq> 0 then wr m (node + NODESIZE) (take (mv_size key) (mv_data key)) else m)
         in Some (Inr (mp\<lparr>mp_body := m\<rparr>))))"

section \<open>Copying a page\<close>

text \<open>\<open>memcpy\<close> of the first \<open>n\<close> bytes of a page: header, pointers and bytes.\<close>

definition page_memcpy_head :: "mdb_page \<Rightarrow> mdb_page \<Rightarrow> nat \<Rightarrow> mdb_page" where
  "page_memcpy_head dst src n =
     src\<lparr>mp_ptrs := (\<lambda>i. if PAGEHDRSZ + 2 * i + 2 \<le> n then mp_ptrs src i else mp_ptrs dst i),
         mp_body := (\<lambda>x. if x < n then mp_body src x else mp_body dst x)\<rparr>"

definition page_memcpy_tail :: "mdb_page \<Rightarrow> mdb_page \<Rightarrow> nat \<Rightarrow> nat \<Rightarrow> mdb_page" where
  "page_memcpy_tail dst src start lim =
     dst\<lparr>mp_body := (\<lambda>x. if start \<le> x \<and> x < lim then mp_body src x else mp_body dst x)\<rparr>"

text \<open>\<open>n & -Align\<close> with \<open>Align\<close> 8.\<close>

definition align_down :: "nat \<Rightarrow> nat" where
  "align_down n = n - n mod 8"

definition mdb_page_copy :: "mdb_page \<Rightarrow> mdb_page \<Rightarrow> nat \<Rightarrow> mdb_page" where
  "mdb_page_copy dst src psize =
     (let upper = mp_upper src; lower = mp_lower src;
          unused = align_down (indx_sub upper lower) in
      if unused \<noteq> 0 \<and> \<not> IS_LEAF2 src then
        (let upper = align_down (upper + PAGEBASE);
             dst = page_memcpy_head dst src (align_down (lower + PAGEBASE + 7))
         in page_memcpy_tail dst src upper psize)
      else page_memcpy_head dst src (psize - unused))"

end
