(* ===== verification/Page_Facts.thy ===== *)
theory Page_Facts
  imports Page
begin

text \<open>
  What the page operations do to the nodes of a page. A page is seen as the list of its
  nodes, each the bytes of its header, key and data in the order of the pointers;
  inserting, deleting and copying act on that list as on a list, whatever the offsets
  are, and keep the page well formed: the nodes lie between \<open>mp_upper\<close> and the end of the
  page, do not overlap, and fill that space without holes.
\<close>

named_theorems page_simps \<open>header fields of nodes after writes\<close>

section \<open>The nodes of a page\<close>

text \<open>The length of the node at an offset of a leaf or branch page, and its bytes.\<close>

definition node_len :: "bool \<Rightarrow> mem \<Rightarrow> nat \<Rightarrow> nat" where
  "node_len leaf m node = NODESIZE + NODEKSZ m node +
     (if leaf then (if F_ISSET (mn_flags m node) F_BIGDATA then 8 else unat (NODEDSZ m node)) else 0)"

definition node_image :: "bool \<Rightarrow> mem \<Rightarrow> nat \<Rightarrow> bytes" where
  "node_image leaf m node = rd m node (node_len leaf m node)"

definition page_nodes :: "mdb_page \<Rightarrow> bytes list" where
  "page_nodes p = map (\<lambda>i. node_image (IS_LEAF p) (mp_body p) (mp_ptrs p i)) [0..<NUMKEYS p]"

definition node_sz :: "mdb_page \<Rightarrow> nat \<Rightarrow> nat" where
  "node_sz p i = EVEN (node_len (IS_LEAF p) (mp_body p) (mp_ptrs p i))"

definition page_ok :: "nat \<Rightarrow> mdb_page \<Rightarrow> bool" where
  "page_ok psize p \<longleftrightarrow> \<not> IS_LEAF2 p \<and> psize \<le> 32768 \<and> even psize
     \<and> mp_lower p = PAGEHDRSZ + 2 * NUMKEYS p \<and> mp_lower p \<le> mp_upper p \<and> mp_upper p \<le> psize
     \<and> (\<forall>i < NUMKEYS p. even (mp_ptrs p i) \<and> mp_upper p \<le> mp_ptrs p i
          \<and> mp_ptrs p i + node_sz p i \<le> psize)
     \<and> (\<forall>i < NUMKEYS p. \<forall>j < NUMKEYS p. i \<noteq> j \<longrightarrow>
          mp_ptrs p i + node_sz p i \<le> mp_ptrs p j \<or> mp_ptrs p j + node_sz p j \<le> mp_ptrs p i)
     \<and> (\<Sum>x \<leftarrow> page_nodes p. EVEN (length x)) = psize - mp_upper p"

lemma length_page_nodes [simp]: "length (page_nodes p) = NUMKEYS p"
  by (simp add: page_nodes_def)

lemma nth_page_nodes:
  "i < NUMKEYS p \<Longrightarrow> page_nodes p ! i = node_image (IS_LEAF p) (mp_body p) (mp_ptrs p i)"
  by (simp add: page_nodes_def)

lemma node_len_ge: "8 \<le> node_len leaf m node"
  by (simp add: node_len_def NODESIZE_def)

lemma length_node_image [simp]: "length (node_image leaf m node) = node_len leaf m node"
  by (simp add: node_image_def)

lemma node_sz_ge: "node_len (IS_LEAF p) (mp_body p) (mp_ptrs p i) \<le> node_sz p i"
  by (simp add: node_sz_def)

lemma node_sz_ge8: "8 \<le> node_sz p i"
  using node_sz_ge [of p i] node_len_ge order_trans by blast

lemma even_node_sz [simp]: "even (node_sz p i)"
  by (simp add: node_sz_def)

text \<open>The header, and so the length, depends on the eight bytes of the header only.\<close>

lemma node_header_cong:
  assumes "rd m a 8 = rd m' b 8"
  shows "mn_lo m a = mn_lo m' b" "mn_hi m a = mn_hi m' b" "mn_flags m a = mn_flags m' b"
    "mn_ksize m a = mn_ksize m' b"
  using rd16_cong [OF assms, of 0] rd16_cong [OF assms, of 2] rd16_cong [OF assms, of 4]
    rd16_cong [OF assms, of 6]
  by (simp_all add: mn_lo_def mn_hi_def mn_flags_def mn_ksize_def)

lemma node_len_cong:
  assumes "rd m a 8 = rd m' b 8"
  shows "node_len leaf m a = node_len leaf m' b"
  by (simp add: node_len_def NODEKSZ_def NODEDSZ_def node_header_cong [OF assms])

lemma node_image_cong:
  assumes "rd m' b (node_len leaf m a) = rd m a (node_len leaf m a)"
  shows "node_len leaf m' b = node_len leaf m a" "node_image leaf m' b = node_image leaf m a"
proof -
  have "rd m' b 8 = rd m a 8" using rd_prefix [OF assms node_len_ge] .
  then show l: "node_len leaf m' b = node_len leaf m a" by (rule node_len_cong)
  show "node_image leaf m' b = node_image leaf m a" using assms by (simp add: node_image_def l)
qed

text \<open>The bytes a node of the given parts has.\<close>

definition mk_node :: "u16 \<Rightarrow> u16 \<Rightarrow> u16 \<Rightarrow> bytes \<Rightarrow> bytes \<Rightarrow> bytes" where
  "mk_node lo hi flags key data =
     bytes16 lo @ bytes16 hi @ bytes16 flags @ bytes16 (word_of_nat (length key)) @ key @ data"

lemma rd16_of_bytes: "rd m a 2 = bytes16 w \<Longrightarrow> rd16 m a = w"
proof -
  assume "rd m a 2 = bytes16 w"
  then have "rd m a 2 = rd (wr16 m a w) a 2" by (simp add: wr16_def rd_wr_same)
  from rd16_cong [OF this, of 0] show ?thesis by (simp add: rd16_wr16_same)
qed

lemma mk_node_header:
  assumes "rd m a (8 + length key + length data) = mk_node lo hi flags key data"
  shows "mn_lo m a = lo" "mn_hi m a = hi" "mn_flags m a = flags" "mn_ksize m a = word_of_nat (length key)"
proof -
  have part: "rd m (a + i) 2 = take 2 (drop i (mk_node lo hi flags key data))" if "i + 2 \<le> 8" for i
    unfolding assms [symmetric] using that
    by (intro nth_equalityI) (auto simp: add.assoc)
  show "mn_lo m a = lo" "mn_hi m a = hi" "mn_flags m a = flags" "mn_ksize m a = word_of_nat (length key)"
    using part [of 0] part [of 2] part [of 4] part [of 6]
    by (auto intro!: rd16_of_bytes simp: mn_lo_def mn_hi_def mn_flags_def mn_ksize_def mk_node_def)
qed

section \<open>Inserting a node\<close>

lemma ptrs_shift_up_nth:
  "indx \<le> n \<Longrightarrow> ptrs_shift_up ptrs indx n k = (if indx < k \<and> k \<le> n then ptrs (k - 1) else ptrs k)"
  by (induction ptrs indx n rule: ptrs_shift_up.induct) (auto simp: le_Suc_eq)

lemma page_ok_node:
  assumes "page_ok psize p" "i < NUMKEYS p"
  shows "even (mp_ptrs p i)" "mp_upper p \<le> mp_ptrs p i" "mp_ptrs p i + node_sz p i \<le> psize"
    "j < NUMKEYS p \<Longrightarrow> i \<noteq> j \<Longrightarrow>
      mp_ptrs p i + node_sz p i \<le> mp_ptrs p j \<or> mp_ptrs p j + node_sz p j \<le> mp_ptrs p i"
  using assms by (auto simp: page_ok_def)

lemma page_ok_bounds:
  assumes "page_ok psize p"
  shows "mp_lower p = 16 + 2 * NUMKEYS p" "mp_lower p \<le> mp_upper p" "mp_upper p \<le> psize"
    "psize \<le> 32768" "SIZELEFT p = mp_upper p - mp_lower p" "even (mp_upper p)"
proof -
  show b: "mp_lower p = 16 + 2 * NUMKEYS p" "mp_lower p \<le> mp_upper p" "mp_upper p \<le> psize"
    "psize \<le> 32768"
    using assms by (simp_all add: page_ok_def PAGEHDRSZ_def)
  then show "SIZELEFT p = mp_upper p - mp_lower p" by (simp add: SIZELEFT_def indx_sub_le)
  have "even (\<Sum>x \<leftarrow> xs. EVEN (length x))" for xs :: "bytes list" by (induction xs) auto
  moreover have "(\<Sum>x \<leftarrow> page_nodes p. EVEN (length x)) = psize - mp_upper p" "even psize"
    using assms by (simp_all add: page_ok_def)
  ultimately have "even (psize - mp_upper p)" by metis
  then show "even (mp_upper p)" using \<open>even psize\<close> b(3) by simp
qed

lemma node_sz_nth: "i < NUMKEYS p \<Longrightarrow> node_sz p i = EVEN (length (page_nodes p ! i))"
  by (simp add: node_sz_def nth_page_nodes)

text \<open>
  The general form of an insertion: the image \<open>img\<close> in the bytes just below \<open>mp_upper\<close>,
  the bytes above it as before.
\<close>

lemma page_insert:
  assumes ok: "page_ok psize p" and i: "indx \<le> NUMKEYS p"
    and room: "mp_lower p + 2 + EVEN (length img) \<le> mp_upper p"
    and ofs: "ofs = mp_upper p - EVEN (length img)"
    and img: "node_image (IS_LEAF p) m ofs = img"
    and same: "\<And>x. mp_upper p \<le> x \<Longrightarrow> m x = mp_body p x"
    and p': "p' = p\<lparr>mp_ptrs := (ptrs_shift_up (mp_ptrs p) indx (NUMKEYS p))(indx := ofs), mp_upper := ofs,
      mp_lower := mp_lower p + 2, mp_body := m\<rparr>"
  shows "page_ok psize p'" and "page_nodes p' = insert_at indx img (page_nodes p)"
proof -
  let ?n = "NUMKEYS p"
  note b = page_ok_bounds [OF ok]
  have leaf: "IS_LEAF p' = IS_LEAF p" "IS_LEAF2 p' = IS_LEAF2 p" by (simp_all add: p' IS_LEAF_def IS_LEAF2_def)
  have n': "NUMKEYS p' = Suc ?n" using b(1) by (simp add: p' NUMKEYS_def PAGEHDRSZ_def PAGEBASE_def)
  have ptr: "mp_ptrs p' k = (if k < indx then mp_ptrs p k else if k = indx then ofs else mp_ptrs p (k - 1))"
    if "k \<le> ?n" for k
    using that i by (auto simp: p' ptrs_shift_up_nth)
  have old: "node_image (IS_LEAF p) m (mp_ptrs p k) = node_image (IS_LEAF p) (mp_body p) (mp_ptrs p k)"
    if "k < ?n" for k
    by (rule node_image_cong(2), rule rd_eqI)
      (use page_ok_node(2) [OF ok that] same in simp)
  show nodes: "page_nodes p' = insert_at indx img (page_nodes p)"
  proof (rule nth_equalityI)
    show "length (page_nodes p') = length (insert_at indx img (page_nodes p))"
      using i n' by simp
    fix k assume "k < length (page_nodes p')"
    then have k: "k \<le> ?n" using n' by simp
    have "page_nodes p' ! k = node_image (IS_LEAF p) m (mp_ptrs p' k)"
      using k n' leaf by (simp add: nth_page_nodes) (simp add: p')
    then show "page_nodes p' ! k = insert_at indx img (page_nodes p) ! k"
      using k i old img by (auto simp: ptr nth_insert_at nth_page_nodes)
  qed
  have sz: "node_sz p' k = (if k < indx then node_sz p k else if k = indx then EVEN (length img) else node_sz p (k - 1))"
    if "k \<le> ?n" for k
    using that i n' by (auto simp: node_sz_nth nodes nth_insert_at)
  have "(\<Sum>x \<leftarrow> page_nodes p'. EVEN (length x)) = EVEN (length img) + (\<Sum>x \<leftarrow> page_nodes p. EVEN (length x))"
    unfolding nodes by (simp add: insert_at_def) (metis append_take_drop_id map_append sum_list_append)
  moreover have "\<dots> = psize - ofs"
    using ok room b by (simp add: page_ok_def ofs)
  moreover have "even (mp_ptrs p' k) \<and> ofs \<le> mp_ptrs p' k \<and> mp_ptrs p' k + node_sz p' k \<le> psize"
    if k: "k \<le> ?n" for k
  proof (cases "k = indx")
    case True
    then show ?thesis using b room by (simp add: ptr [OF i] sz [OF i] ofs)
  next
    case False
    define q where "q = (if k < indx then k else k - 1)"
    then have "q < ?n" using False k i by auto
    then show ?thesis
      using page_ok_node [OF ok \<open>q < ?n\<close>] False ofs by (auto simp: ptr [OF k] sz [OF k] q_def split: if_splits)
  qed
  moreover have "mp_ptrs p' k + node_sz p' k \<le> mp_ptrs p' l \<or> mp_ptrs p' l + node_sz p' l \<le> mp_ptrs p' k"
    if k: "k \<le> ?n" and l: "l \<le> ?n" and kl: "k \<noteq> l" for k l
  proof -
    define q r where "q = (if k < indx then k else k - 1)" and "r = (if l < indx then l else l - 1)"
    have q: "k \<noteq> indx \<Longrightarrow> q < ?n \<and> mp_ptrs p' k = mp_ptrs p q \<and> node_sz p' k = node_sz p q"
      using k i by (auto simp: q_def ptr [OF k] sz [OF k])
    have r: "l \<noteq> indx \<Longrightarrow> r < ?n \<and> mp_ptrs p' l = mp_ptrs p r \<and> node_sz p' l = node_sz p r"
      using l i by (auto simp: r_def ptr [OF l] sz [OF l])
    have new: "mp_ptrs p' indx + node_sz p' indx = mp_upper p"
      using room by (simp add: ptr [OF i] sz [OF i] ofs)
    consider "k = indx" | "l = indx" | "k \<noteq> indx" "l \<noteq> indx" by blast
    then show ?thesis
    proof cases
      case 1
      then show ?thesis using new r kl page_ok_node(2) [OF ok, of r] by auto
    next
      case 2
      then show ?thesis using new q kl page_ok_node(2) [OF ok, of q] by auto
    next
      case 3
      then have "q \<noteq> r" using kl by (auto simp: q_def r_def split: if_splits)
      then show ?thesis using q [OF 3(1)] r [OF 3(2)] page_ok_node(4) [OF ok, of q r] by auto
    qed
  qed
  moreover have "mp_lower p' = PAGEHDRSZ + 2 * NUMKEYS p'" "mp_lower p' \<le> mp_upper p'" "mp_upper p' \<le> psize"
    using b room n' by (simp_all add: p' ofs PAGEHDRSZ_def)
  moreover have "mp_upper p' = ofs" by (simp add: p')
  ultimately show "page_ok psize p'"
    using ok by (simp add: page_ok_def n' leaf less_Suc_eq_le)
qed

section \<open>Writing a node\<close>

lemma wr_append: "b = a + length xs \<Longrightarrow> wr (wr m a xs) b ys = wr m a (xs @ ys)"
  by (rule ext) (auto simp: wr_def nth_append)

lemma wr_commute:
  "a + length xs \<le> b \<or> b + length ys \<le> a \<Longrightarrow> wr (wr m a xs) b ys = wr (wr m b ys) a xs"
  by (rule ext) (auto simp: wr_def)

lemma wr_overwrite: "length xs = length ys \<Longrightarrow> wr (wr m a xs) a ys = wr m a ys"
  by (rule ext) (auto simp: wr_def)

text \<open>The four header fields, in whatever order they are written, then key and data.\<close>

lemma wr_fields_swap:
  "wr (wr m (a + 6) (bytes16 u)) (a + 4) (bytes16 v) = wr (wr m (a + 4) (bytes16 v)) (a + 6) (bytes16 u)"
  "wr (wr m (a + 6) (bytes16 u)) (a + 2) (bytes16 v) = wr (wr m (a + 2) (bytes16 v)) (a + 6) (bytes16 u)"
  "wr (wr m (a + 6) (bytes16 u)) a (bytes16 v) = wr (wr m a (bytes16 v)) (a + 6) (bytes16 u)"
  "wr (wr m (a + 4) (bytes16 u)) (a + 2) (bytes16 v) = wr (wr m (a + 2) (bytes16 v)) (a + 4) (bytes16 u)"
  "wr (wr m (a + 4) (bytes16 u)) a (bytes16 v) = wr (wr m a (bytes16 v)) (a + 4) (bytes16 u)"
  by (simp_all add: wr_commute)

lemma header_fields:
  "wr m a (bytes16 lo @ bytes16 hi @ bytes16 fl @ bytes16 ks) =
    wr (wr (wr (wr m a (bytes16 lo)) (a + 2) (bytes16 hi)) (a + 4) (bytes16 fl)) (a + 6) (bytes16 ks)"
  by (simp add: wr_append)

lemma header_bytes:
  "wr16 (wr16 (wr16 (wr16 m (a + 6) ks) (a + 4) fl) a lo) (a + 2) hi
    = wr m a (bytes16 lo @ bytes16 hi @ bytes16 fl @ bytes16 ks)"
  unfolding header_fields wr16_def by (simp only: wr_fields_swap)

lemma header_bytes_again:
  "wr16 (wr m a (bytes16 lo @ bytes16 hi @ bytes16 fl @ bytes16 ks)) (a + 4) fl'
    = wr m a (bytes16 lo @ bytes16 hi @ bytes16 fl' @ bytes16 ks)"
  unfolding header_fields wr16_def by (simp only: wr_fields_swap) (simp add: wr_overwrite)

lemma length_mk_node [simp]: "length (mk_node lo hi fl key data) = 8 + length key + length data"
  by (simp add: mk_node_def)

lemma node_image_mk:
  assumes m: "m = wr m0 a (mk_node lo hi fl key data)" and k: "length key < 65536"
    and len: "length data = (if leaf then (if F_ISSET fl F_BIGDATA then 8
        else unat (ucast lo OR push_bit 16 (ucast hi) :: u32)) else 0)"
  shows "node_image leaf m a = mk_node lo hi fl key data"
proof -
  have r: "rd m a (8 + length key + length data) = mk_node lo hi fl key data"
    unfolding m by (rule rd_wr_same) simp
  note h = mk_node_header [OF r]
  have "node_len leaf m a = 8 + length key + length data"
    using k len by (simp add: node_len_def NODEKSZ_def NODEDSZ_def NODESIZE_def h unat_of_nat)
  then show ?thesis by (simp add: node_image_def r)
qed

lemma dsize_parts:
  assumes "n < 2 ^ 32"
  shows "unat (ucast (ucast ((word_of_nat n :: u64) AND 0xffff) :: u16)
      OR push_bit 16 (ucast (ucast (drop_bit 16 (word_of_nat n :: u64)) :: u16)) :: u32) = n"
proof -
  have "(0xffff :: u64) = mask 16" by (simp add: mask_eq_exp_minus_1)
  then have and_mask: "w AND 0xffff = take_bit 16 w" for w :: u64 by (simp only: take_bit_eq_mask)
  have "ucast (ucast (w AND 0xffff) :: u16) OR push_bit 16 (ucast (ucast (drop_bit 16 w) :: u16))
      = (ucast w :: u32)" for w :: u64
    unfolding and_mask by (rule bit_word_eqI) (auto simp: bit_simps)
  moreover have "unat (ucast (word_of_nat n :: u64) :: u32) = n"
    using assms by (subst unat_ucast_32) (simp_all add: unat_of_nat)
  ultimately show ?thesis by simp
qed

text \<open>The images of the nodes \<open>mdb_node_add\<close> makes.\<close>

definition leaf_node :: "u16 \<Rightarrow> nat \<Rightarrow> bytes \<Rightarrow> bytes \<Rightarrow> bytes" where
  "leaf_node fl dsize key data =
     mk_node (ucast ((word_of_nat dsize :: u64) AND 0xffff)) (ucast (drop_bit 16 (word_of_nat dsize :: u64)))
       fl key data"

definition branch_node :: "u64 \<Rightarrow> bytes \<Rightarrow> bytes" where
  "branch_node pgno key =
     mk_node (ucast (pgno AND 0xffff)) (ucast (drop_bit 16 pgno)) (ucast (drop_bit 32 pgno)) key []"

text \<open>A key or data argument whose bytes are there.\<close>

definition val_ok :: "mdb_val \<Rightarrow> bool" where
  "val_ok v \<longleftrightarrow> mv_size v \<le> length (mv_data v)"

abbreviation val_bytes :: "mdb_val \<Rightarrow> bytes" where
  "val_bytes v \<equiv> take (mv_size v) (mv_data v)"

lemma length_val_bytes [simp]: "val_ok v \<Longrightarrow> length (val_bytes v) = mv_size v"
  by (simp add: val_ok_def)

lemma page_type_update [simp]:
  "IS_LEAF (mp_ptrs_update f p) = IS_LEAF p" "IS_LEAF (mp_upper_update g p) = IS_LEAF p"
  "IS_LEAF (mp_lower_update g p) = IS_LEAF p" "IS_LEAF (mp_body_update h p) = IS_LEAF p"
  "IS_LEAF2 (mp_ptrs_update f p) = IS_LEAF2 p" "IS_LEAF2 (mp_upper_update g p) = IS_LEAF2 p"
  "IS_LEAF2 (mp_lower_update g p) = IS_LEAF2 p" "IS_LEAF2 (mp_body_update h p) = IS_LEAF2 p"
  by (simp_all add: IS_LEAF_def IS_LEAF2_def)

text \<open>The page and its bytes after the write of a leaf node, and of a branch node.\<close>

definition ovpage_data :: "u32 \<Rightarrow> mdb_val \<Rightarrow> mdb_page \<Rightarrow> mdb_page" where
  "ovpage_data flags d ov = (if F_ISSET flags MDB_RESERVE then ov
     else ov\<lparr>mp_body := wr (mp_body ov) PAGEHDRSZ (val_bytes d)\<rparr>)"

lemma node_add_update_leaf_page:
  assumes "IS_LEAF p" "indx_sub (mp_upper p) node_size = ofs" "mp_lower p + 2 \<le> ofs" "ofs < 65536"
    and hdr: "hdr = wr (mp_body p) ofs (bytes16 (ucast ((word_of_nat (mv_size d) :: u64) AND 0xffff))
      @ bytes16 (ucast (drop_bit 16 (word_of_nat (mv_size d) :: u64))) @ bytes16 (ucast flags)
      @ bytes16 (word_of_nat (mv_size k)))"
    and data: "data = (case ofp of Some ov \<Rightarrow> u64_bytes (mp_pgno ov)
        | None \<Rightarrow> if F_ISSET flags (ucast F_BIGDATA) then take 8 (mv_data d) else val_bytes d)"
    and fl: "F_ISSET flags (ucast F_BIGDATA) \<or> ofp \<noteq> None \<or> \<not> F_ISSET flags MDB_RESERVE"
  shows "node_add_update p indx node_size (Some k) (Some d) pgno flags ofp =
    Some (p\<lparr>mp_ptrs := (ptrs_shift_up (mp_ptrs p) indx (NUMKEYS p))(indx := ofs), mp_upper := ofs,
      mp_lower := mp_lower p + 2,
      mp_body := wr (wr hdr (ofs + 8) (val_bytes k)) (ofs + 8 + mv_size k) data\<rparr>,
      map_option (ovpage_data flags d) ofp)"
proof -
  have hdr': "SETDSZ (wr16 (wr16 (mp_body p) (ofs + 6) (word_of_nat (mv_size k))) (ofs + 4) (ucast flags)) ofs
      (word_of_nat (mv_size d)) = hdr"
    unfolding hdr SETDSZ_def Let_def by (rule header_bytes)
  have lower: "indx_t (Suc (Suc (mp_lower p))) = Suc (Suc (mp_lower p))" "Suc (Suc (mp_lower p)) \<le> ofs"
    using assms(3,4) by simp_all
  note step = node_add_update_def Let_def assms(1,2) lower NODEPTR_def PAGEBASE_def NODESIZE_def hdr'
  show ?thesis
  proof (cases ofp)
    case None
    then show ?thesis using fl by (auto simp: step data)
  next
    case (Some ov)
    then show ?thesis by (simp add: step data ovpage_data_def)
  qed
qed

lemma node_add_update_branch_page:
  assumes "\<not> IS_LEAF p" "indx_sub (mp_upper p) node_size = ofs" "mp_lower p + 2 \<le> ofs" "ofs < 65536"
    and "key = None \<and> k = \<lparr>mv_size = 0, mv_data = []\<rparr> \<or> key = Some k"
  shows "node_add_update p indx node_size key data pgno flags ofp =
    Some (p\<lparr>mp_ptrs := (ptrs_shift_up (mp_ptrs p) indx (NUMKEYS p))(indx := ofs), mp_upper := ofs,
      mp_lower := mp_lower p + 2,
      mp_body := wr (wr (mp_body p) ofs (bytes16 (ucast (pgno AND 0xffff)) @ bytes16 (ucast (drop_bit 16 pgno))
        @ bytes16 (ucast (drop_bit 32 pgno)) @ bytes16 (word_of_nat (mv_size k)))) (ofs + 8) (val_bytes k)\<rparr>, ofp)"
proof -
  have hdr: "SETPGNO (wr16 (wr16 (mp_body p) (ofs + 6) ks) (ofs + 4) fl) ofs pgno =
      wr (mp_body p) ofs (bytes16 (ucast (pgno AND 0xffff)) @ bytes16 (ucast (drop_bit 16 pgno))
        @ bytes16 (ucast (drop_bit 32 pgno)) @ bytes16 ks)" for ks fl
    unfolding SETPGNO_def Let_def header_bytes by (rule header_bytes_again)
  have lower: "indx_t (Suc (Suc (mp_lower p))) = Suc (Suc (mp_lower p))" "Suc (Suc (mp_lower p)) \<le> ofs"
    using assms(3,4) by simp_all
  note step = node_add_update_def Let_def assms(1,2) lower NODEPTR_def PAGEBASE_def NODESIZE_def hdr
  have "wr m a [] = m" for m a by (rule ext) (auto simp: wr_def)
  then show ?thesis using assms(5) by (auto simp: step)
qed

text \<open>
  The write of the node below \<open>mp_upper\<close> leaves a well formed page with the new node in
  its place: for a leaf node with its data, with the number of a page that has the data
  already, with an overflow page just taken, and for a branch node.
\<close>

lemma node_add_update_leaf:
  assumes ok: "page_ok psize p" and i: "indx \<le> NUMKEYS p" and leaf: "IS_LEAF p"
    and k: "val_ok k" "mv_size k < 65536" and d: "mv_size d < 2 ^ 32"
    and data: "data = (case ofp of Some ov \<Rightarrow> u64_bytes (mp_pgno ov)
        | None \<Rightarrow> if F_ISSET flags (ucast F_BIGDATA) then take 8 (mv_data d) else val_bytes d)"
    and len: "length data = (if F_ISSET (ucast flags :: u16) F_BIGDATA then 8 else mv_size d)"
    and fl: "F_ISSET flags (ucast F_BIGDATA) \<or> ofp \<noteq> None \<or> \<not> F_ISSET flags MDB_RESERVE"
    and sz: "node_size = EVEN (8 + mv_size k + length data)"
    and room: "mp_lower p + 2 + node_size \<le> mp_upper p"
  shows "\<exists>p'. node_add_update p indx node_size (Some k) (Some d) pgno flags ofp =
      Some (p', map_option (ovpage_data flags d) ofp) \<and>
    page_ok psize p' \<and>
    page_nodes p' = insert_at indx (leaf_node (ucast flags) (mv_size d) (val_bytes k) data) (page_nodes p) \<and>
    mp_pgno p' = mp_pgno p \<and> mp_flags p' = mp_flags p"
proof -
  note b = page_ok_bounds [OF ok]
  define ofs where "ofs = mp_upper p - node_size"
  have ofs: "indx_sub (mp_upper p) node_size = ofs" "mp_lower p + 2 \<le> ofs" "ofs < 65536"
    "indx_t (mp_lower p + 2) = mp_lower p + 2"
    using room b by (simp_all add: indx_sub_le ofs_def)
  define img where "img = leaf_node (ucast flags) (mv_size d) (val_bytes k) data"
  define m where "m = wr (mp_body p) ofs img"
  define p' where "p' = p\<lparr>mp_ptrs := (ptrs_shift_up (mp_ptrs p) indx (NUMKEYS p))(indx := ofs),
      mp_upper := ofs, mp_lower := mp_lower p + 2, mp_body := m\<rparr>"
  have len_img: "length img = 8 + mv_size k + length data"
    using k by (simp add: img_def leaf_node_def del: length_take)
  have image: "node_image True m ofs = img"
    unfolding img_def leaf_node_def
  proof (rule node_image_mk)
    show "m = wr (mp_body p) ofs (mk_node (ucast ((word_of_nat (mv_size d) :: u64) AND 0xffff))
        (ucast (drop_bit 16 (word_of_nat (mv_size d) :: u64))) (ucast flags) (val_bytes k) data)"
      by (simp add: m_def img_def leaf_node_def)
  qed (use k len d dsize_parts [OF d] in auto)
  have es: "node_size = EVEN (length img)" by (simp add: sz len_img)
  have same: "m x = mp_body p x" if "mp_upper p \<le> x" for x
    unfolding m_def using that room EVEN_ge [of "length img"]
    by (intro wr_outside disjI2) (unfold ofs_def es, linarith)
  have "page_ok psize p'" "page_nodes p' = insert_at indx img (page_nodes p)"
    using page_insert [OF ok i room [unfolded es] ofs_def [unfolded es] _ same p'_def] image leaf by simp_all
  moreover have m': "m = wr (wr (wr (mp_body p) ofs (bytes16 (ucast ((word_of_nat (mv_size d) :: u64) AND 0xffff))
      @ bytes16 (ucast (drop_bit 16 (word_of_nat (mv_size d) :: u64))) @ bytes16 (ucast flags)
      @ bytes16 (word_of_nat (mv_size k)))) (ofs + 8) (val_bytes k)) (ofs + 8 + mv_size k) data"
    using k by (simp add: m_def img_def leaf_node_def mk_node_def wr_append del: length_take)
  moreover have "node_add_update p indx node_size (Some k) (Some d) pgno flags ofp =
      Some (p', map_option (ovpage_data flags d) ofp)"
    using node_add_update_leaf_page [OF leaf ofs(1,2,3) refl data fl, of indx k pgno] m'
    by (simp add: p'_def)
  ultimately show ?thesis by (auto simp: p'_def img_def)
qed

lemma node_add_update_branch:
  assumes ok: "page_ok psize p" and i: "indx \<le> NUMKEYS p" and branch: "\<not> IS_LEAF p"
    and k: "key = None \<and> k = \<lparr>mv_size = 0, mv_data = []\<rparr> \<or> key = Some k" "val_ok k" "mv_size k < 65536"
    and sz: "node_size = EVEN (8 + mv_size k)"
    and room: "mp_lower p + 2 + node_size \<le> mp_upper p"
  shows "\<exists>p'. node_add_update p indx node_size key data pgno flags ofp = Some (p', ofp) \<and>
    page_ok psize p' \<and> page_nodes p' = insert_at indx (branch_node pgno (val_bytes k)) (page_nodes p) \<and>
    mp_pgno p' = mp_pgno p \<and> mp_flags p' = mp_flags p"
proof -
  note b = page_ok_bounds [OF ok]
  define ofs where "ofs = mp_upper p - node_size"
  have ofs: "indx_sub (mp_upper p) node_size = ofs" "mp_lower p + 2 \<le> ofs" "ofs < 65536"
    using room b by (simp_all add: indx_sub_le ofs_def)
  define img where "img = branch_node pgno (val_bytes k)"
  define m where "m = wr (mp_body p) ofs img"
  define p' where "p' = p\<lparr>mp_ptrs := (ptrs_shift_up (mp_ptrs p) indx (NUMKEYS p))(indx := ofs),
      mp_upper := ofs, mp_lower := mp_lower p + 2, mp_body := m\<rparr>"
  have len_img: "length img = 8 + mv_size k"
    using k by (simp add: img_def branch_node_def del: length_take)
  have "m = wr (mp_body p) ofs (mk_node (ucast (pgno AND 0xffff)) (ucast (drop_bit 16 pgno))
      (ucast (drop_bit 32 pgno)) (val_bytes k) [])"
    by (simp add: m_def img_def branch_node_def)
  then have image: "node_image False m ofs = img"
    unfolding img_def branch_node_def by (rule node_image_mk) (use k in auto)
  have es: "node_size = EVEN (length img)" by (simp add: sz len_img)
  have same: "m x = mp_body p x" if "mp_upper p \<le> x" for x
    unfolding m_def using that room EVEN_ge [of "length img"]
    by (intro wr_outside disjI2) (unfold ofs_def es, linarith)
  have "page_ok psize p'" "page_nodes p' = insert_at indx img (page_nodes p)"
    using page_insert [OF ok i room [unfolded es] ofs_def [unfolded es] _ same p'_def] image branch
    by simp_all
  moreover have "m = wr (wr (mp_body p) ofs (bytes16 (ucast (pgno AND 0xffff)) @ bytes16 (ucast (drop_bit 16 pgno))
        @ bytes16 (ucast (drop_bit 32 pgno)) @ bytes16 (word_of_nat (mv_size k)))) (ofs + 8) (val_bytes k)"
    using k by (simp add: m_def img_def branch_node_def mk_node_def wr_append del: length_take)
  then have "node_add_update p indx node_size key data pgno flags ofp = Some (p', ofp)"
    using node_add_update_branch_page [OF branch ofs k(1)] by (simp add: p'_def)
  ultimately show ?thesis by (auto simp: p'_def img_def)
qed

section \<open>The whole of \<open>mdb_node_add\<close>\<close>

lemma F_ISSET_1: "F_ISSET (w :: 'a::len word) 1 \<longleftrightarrow> bit w 0"
  by (simp add: F_ISSET_def and_one_eq bit_0 odd_iff_mod_2_eq_one)

lemma bigdata_bit [simp]:
  "F_ISSET (flags :: u32) (ucast F_BIGDATA) \<longleftrightarrow> bit flags 0"
  "F_ISSET (w :: u16) F_BIGDATA \<longleftrightarrow> bit w 0"
  by (simp_all add: F_BIGDATA_def F_ISSET_1)

lemma bigdata_bit_0 [simp]: "bit F_BIGDATA 0" "bit (ucast F_BIGDATA :: u32) 0"
  by (simp_all add: F_BIGDATA_def)

text \<open>What a leaf node keeps of its data: the bytes, or the number of an overflow page.\<close>

definition node_add_need :: "nat \<Rightarrow> mdb_val \<Rightarrow> mdb_val \<Rightarrow> nat" where
  "node_add_need me_nodemax k d =
     EVEN (8 + mv_size k + (if 8 + mv_size k + mv_size d > me_nodemax then 8 else mv_size d))"

lemma node_add_room:
  assumes "page_ok psize p"
  shows "int n > int (SIZELEFT p) - 2 \<longleftrightarrow> mp_upper p < mp_lower p + 2 + n"
  using page_ok_bounds [OF assms] by auto

lemma node_add_leaf_spec:
  assumes ok: "page_ok psize p" and i: "indx \<le> NUMKEYS p" and leaf: "IS_LEAF p"
    and k: "val_ok k" "mv_size k < 65536" and d: "val_ok d" "mv_size d < 2 ^ 32"
    and fl: "\<not> bit flags 0" "\<not> F_ISSET flags MDB_RESERVE"
  shows "\<exists>s' fl' r. mdb_node_add page_new pad me_nodemax psize s mt_flags p indx (Some k) (Some d) pgno flags
      = Some (s', fl', r) \<and>
    (if mp_upper p < mp_lower p + 2 + node_add_need me_nodemax k d
     then s' = s \<and> fl' = mt_flags OR MDB_TXN_ERROR \<and> r = Inl MDB_PAGE_FULL
     else if 8 + mv_size k + mv_size d > me_nodemax then
       (case page_new s (OVPAGES (mv_size d) psize) of
          (s1, Inl e) \<Rightarrow> s' = s1 \<and> fl' = mt_flags \<and> r = Inl e
        | (s1, Inr ov) \<Rightarrow> s' = s1 \<and> fl' = mt_flags \<and> (\<exists>p' ov'. r = Inr (p', Some ov') \<and>
            page_ok psize p' \<and> page_nodes p' = insert_at indx
              (leaf_node (ucast flags OR F_BIGDATA) (mv_size d) (val_bytes k) (u64_bytes (mp_pgno ov))) (page_nodes p) \<and>
            mp_pgno ov' = mp_pgno ov \<and> rd (mp_body ov') PAGEHDRSZ (mv_size d) = val_bytes d))
     else s' = s \<and> fl' = mt_flags \<and> (\<exists>p'. r = Inr (p', None) \<and> page_ok psize p' \<and>
            page_nodes p' = insert_at indx (leaf_node (ucast flags) (mv_size d) (val_bytes k) (val_bytes d))
              (page_nodes p)))"
proof -
  have b: "mp_lower p \<le> mp_upper p" "\<not> IS_LEAF2 p" using ok by (simp_all add: page_ok_def)
  note full = node_add_room [OF ok]
  note code = mdb_node_add_def Let_def b leaf fl INDXSIZE_def NODESIZE_def node_add_need_def full
  show ?thesis
  proof (cases "8 + mv_size k + mv_size d > me_nodemax")
    case big: True
    let ?need = "EVEN (8 + mv_size k + 8)"
    show ?thesis
    proof (cases "mp_upper p < mp_lower p + 2 + ?need")
      case True
      then show ?thesis using big by (simp add: code)
    next
      case room: False
      obtain s1 r1 where new: "page_new s (OVPAGES (mv_size d) psize) = (s1, r1)" by fastforce
      show ?thesis
      proof (cases r1)
        case (Inl e)
        then show ?thesis using big room new by (simp add: code)
      next
        case (Inr ov)
        let ?fl = "flags OR ucast F_BIGDATA"
        have f: "ucast ?fl = ucast flags OR F_BIGDATA" "bit ?fl 0" "\<not> F_ISSET ?fl MDB_RESERVE"
        proof -
          have "F_BIGDATA = 1" by (simp add: F_BIGDATA_def)
          then show "ucast ?fl = ucast flags OR F_BIGDATA" "bit ?fl 0"
            by (simp_all add: bit_or_iff) (rule bit_word_eqI, auto simp: bit_simps)
          show "\<not> F_ISSET ?fl MDB_RESERVE"
            using fl(2) by (simp add: F_ISSET_or_other F_BIGDATA_def MDB_RESERVE_def F_ISSET_def word_ao_dist)
        qed
        obtain p' where u: "node_add_update p indx ?need (Some k) (Some d) pgno ?fl (Some ov) =
            Some (p', Some (ovpage_data ?fl d ov))"
          "page_ok psize p'" "page_nodes p' = insert_at indx
            (leaf_node (ucast ?fl) (mv_size d) (val_bytes k) (u64_bytes (mp_pgno ov))) (page_nodes p)"
          using node_add_update_leaf [OF ok i leaf k d(2), where data = "u64_bytes (mp_pgno ov)" and ofp = "Some ov"
              and flags = ?fl and node_size = ?need and pgno = pgno]
            room f by (auto simp: bit_or_iff)
        moreover have "rd (wr (mp_body ov) PAGEHDRSZ (val_bytes d)) PAGEHDRSZ (mv_size d) = val_bytes d"
          by (rule rd_wr_same) (use d(1) in \<open>simp add: val_ok_def\<close>)
        ultimately show ?thesis
          using big room new Inr f(1,3) by (simp add: code) (simp add: ovpage_data_def)
      qed
    qed
  next
    case small: False
    let ?need = "EVEN (8 + mv_size k + mv_size d)"
    show ?thesis
    proof (cases "mp_upper p < mp_lower p + 2 + ?need")
      case True
      then show ?thesis using small by (simp add: code)
    next
      case room: False
      have "\<not> bit (ucast flags :: u16) 0" using fl(1) by (simp add: bit_simps)
      then obtain p' where "node_add_update p indx ?need (Some k) (Some d) pgno flags None = Some (p', None)"
        "page_ok psize p'"
        "page_nodes p' = insert_at indx (leaf_node (ucast flags) (mv_size d) (val_bytes k) (val_bytes d)) (page_nodes p)"
        using node_add_update_leaf [OF ok i leaf k d(2), where data = "val_bytes d" and ofp = None
            and flags = flags and node_size = ?need and pgno = pgno] room fl d(1)
        by (auto simp: val_ok_def)
      then show ?thesis using small room by (simp add: code)
    qed
  qed
qed

end
