(* ===== verification/Page_Del.thy ===== *)
theory Page_Del
  imports Page_Facts
begin

text \<open>
  Deleting a node, replacing the key of a branch node and copying a page, on the list of
  nodes of the page.
\<close>

section \<open>Deleting a node\<close>

lemma ptrs_close_gap_below: "k < j \<Longrightarrow> ptrs_close_gap ptrs indx ptr sz i j n k = ptrs k"
  by (induction ptrs indx ptr sz i j n rule: ptrs_close_gap.induct) (auto simp: Let_def)

lemma ptrs_close_gap_nth:
  assumes "j = (if i \<le> indx then i else i - 1)" "j \<le> k" "k < i + n - (if indx < i + n then 1 else 0)"
  shows "ptrs_close_gap ptrs indx ptr sz i j n k =
    (let q = ptrs (if k < indx then k else Suc k) in if q < ptr then indx_t (q + sz) else q)"
  using assms
proof (induction ptrs indx ptr sz i j n arbitrary: k rule: ptrs_close_gap.induct)
  case (1 ptrs indx ptr sz i j)
  then show ?case by (auto split: if_splits)
next
  case (2 ptrs indx ptr sz i j n)
  show ?case
  proof (cases "i = indx")
    case True
    then have "j = indx" using "2.prems"(1) by simp
    have "ptrs_close_gap ptrs indx ptr sz (i + 1) j n k =
        (let q = ptrs (if k < indx then k else Suc k) in if q < ptr then indx_t (q + sz) else q)"
      by (rule "2.IH"(2)) (use True \<open>j = indx\<close> "2.prems" in auto)
    then show ?thesis using True by simp
  next
    case False
    define p1 where "p1 = ptrs(j := ptrs i)"
    define p2 where "p2 = (if p1 i < ptr then p1(j := indx_t (p1 j + sz)) else p1)"
    have ji: "j \<le> i" using "2.prems"(1) by (auto split: if_splits)
    have p1: "p1 i = ptrs i" "p1 j = ptrs i" by (auto simp: p1_def)
    have p2: "p2 j = (if ptrs i < ptr then indx_t (ptrs i + sz) else ptrs i)"
      "\<And>x. x \<noteq> j \<Longrightarrow> p2 x = ptrs x"
      using p1 by (auto simp: p2_def) (auto simp: p1_def)
    have loop: "ptrs_close_gap ptrs indx ptr sz i j (Suc n) = ptrs_close_gap p2 indx ptr sz (i + 1) (j + 1) n"
      using False by (simp add: Let_def p1_def p2_def)
    show ?thesis
    proof (cases "j < k")
      case True
      have "ptrs_close_gap p2 indx ptr sz (i + 1) (j + 1) n k =
          (let q = p2 (if k < indx then k else Suc k) in if q < ptr then indx_t (q + sz) else q)"
        unfolding p2_def
        by (rule "2.IH"(1) [OF False refl p1_def])
          (use True False "2.prems" in \<open>auto split: if_splits\<close>)
      moreover have "(if k < indx then k else Suc k) \<noteq> j" using True by auto
      ultimately show ?thesis unfolding loop by (simp add: p2(2))
    next
      case False
      then have "k = j" using "2.prems"(2) by simp
      moreover from this have "(if k < indx then k else Suc k) = i"
        using "2.prems"(1) \<open>i \<noteq> indx\<close> by (auto split: if_splits)
      moreover have "ptrs_close_gap p2 indx ptr sz (i + 1) (j + 1) n j = p2 j"
        by (rule ptrs_close_gap_below) simp
      ultimately show ?thesis unfolding loop by (simp add: p2(1) Let_def)
    qed
  qed
qed

text \<open>
  The nodes below the deleted one move up by its size, so that the free space stays one
  piece.
\<close>

lemma page_remove:
  assumes ok: "page_ok psize p" and i: "indx < NUMKEYS p"
    and sz: "sz = node_sz p indx" and ptr: "ptr = mp_ptrs p indx"
    and ptrs: "\<And>k. k < NUMKEYS p - 1 \<Longrightarrow> ptrs' k =
      (let q = mp_ptrs p (if k < indx then k else Suc k) in if q < ptr then q + sz else q)"
    and p': "p' = p\<lparr>mp_ptrs := ptrs', mp_body := mem_move (mp_body p) (mp_upper p + sz) (mp_upper p) (ptr - mp_upper p),
      mp_lower := mp_lower p - 2, mp_upper := mp_upper p + sz\<rparr>"
  shows "page_ok psize p'" and "page_nodes p' = remove_at indx (page_nodes p)"
proof -
  let ?n = "NUMKEYS p"
  note b = page_ok_bounds [OF ok]
  note del = page_ok_node [OF ok i]
  define src where "src k = (if k < indx then k else Suc k)" for k
  have leaf: "IS_LEAF p' = IS_LEAF p" "IS_LEAF2 p' = IS_LEAF2 p" by (simp_all add: p')
  have n': "NUMKEYS p' = ?n - 1" using b(1) i by (simp add: p' NUMKEYS_def PAGEHDRSZ_def PAGEBASE_def)
  have src: "src k < ?n" "src k \<noteq> indx" if "k < ?n - 1" for k
    using that i by (auto simp: src_def)
  have ptr': "mp_ptrs p' k = (if mp_ptrs p (src k) < ptr then mp_ptrs p (src k) + sz else mp_ptrs p (src k))"
    if "k < ?n - 1" for k
    using ptrs [OF that] by (simp add: p' src_def Let_def)
  have side: "mp_ptrs p q + node_sz p q \<le> ptr \<or> ptr + sz \<le> mp_ptrs p q" if "q < ?n" "q \<noteq> indx" for q
    using page_ok_node(4) [OF ok that(1) i] that(2) sz ptr by auto
  have image: "node_image (IS_LEAF p) (mp_body p') (mp_ptrs p' k) =
      node_image (IS_LEAF p) (mp_body p) (mp_ptrs p (src k))" if k: "k < ?n - 1" for k
  proof (rule node_image_cong(2))
    let ?q = "mp_ptrs p (src k)" and ?l = "node_len (IS_LEAF p) (mp_body p) (mp_ptrs p (src k))"
    have q: "mp_upper p \<le> ?q" "?l \<le> node_sz p (src k)"
      using page_ok_node(2) [OF ok src(1) [OF k]] node_sz_ge by auto
    show "rd (mp_body p') (mp_ptrs p' k) ?l = rd (mp_body p) ?q ?l"
    proof (cases "?q < ptr")
      case True
      then have "?q + ?l \<le> ptr" using side [OF src [OF k]] q(2) by linarith
      then have "rd (mem_move (mp_body p) (mp_upper p + sz) (mp_upper p) (ptr - mp_upper p))
          (mp_upper p + sz + (?q - mp_upper p)) ?l = rd (mp_body p) (mp_upper p + (?q - mp_upper p)) ?l"
        using q(1) by (intro rd_move_same) linarith
      then show ?thesis using True q(1) by (simp add: ptr' [OF k]) (simp add: p' add.commute)
    next
      case False
      then have "ptr + sz \<le> ?q" using side [OF src [OF k]] node_sz_ge8 [of p "src k"] by linarith
      moreover have "mp_upper p \<le> ptr" using del(2) ptr by simp
      ultimately have "rd (mem_move (mp_body p) (mp_upper p + sz) (mp_upper p) (ptr - mp_upper p)) ?q ?l
          = rd (mp_body p) ?q ?l"
        by (intro rd_move_disjoint) linarith
      then show ?thesis using False by (simp add: ptr' [OF k]) (simp add: p')
    qed
  qed
  show nodes: "page_nodes p' = remove_at indx (page_nodes p)"
  proof (rule nth_equalityI)
    show "length (page_nodes p') = length (remove_at indx (page_nodes p))" using i n' by simp
    fix k assume "k < length (page_nodes p')"
    then have k: "k < ?n - 1" using n' by simp
    then show "page_nodes p' ! k = remove_at indx (page_nodes p) ! k"
      using image [OF k] leaf i n' src(1) [OF k]
      by (auto simp: nth_page_nodes nth_remove_at src_def split: if_splits)
  qed
  have szk: "node_sz p' k = node_sz p (src k)" if "k < ?n - 1" for k
    using image [OF that] by (simp add: node_sz_def leaf) (metis length_node_image)
  have range: "even (mp_ptrs p' k) \<and> mp_upper p + sz \<le> mp_ptrs p' k \<and> mp_ptrs p' k + node_sz p' k \<le> psize"
    if k: "k < ?n - 1" for k
    using page_ok_node(1-3) [OF ok src(1) [OF k]] side [OF src [OF k]] del(2,3) ptr sz node_sz_ge8 [of p "src k"]
    by (auto simp: ptr' [OF k] szk [OF k])
  have disj: "mp_ptrs p' k + node_sz p' k \<le> mp_ptrs p' l \<or> mp_ptrs p' l + node_sz p' l \<le> mp_ptrs p' k"
    if k: "k < ?n - 1" and l: "l < ?n - 1" and kl: "k \<noteq> l" for k l
  proof -
    have "src k \<noteq> src l" using kl by (auto simp: src_def split: if_splits)
    then have "mp_ptrs p (src k) + node_sz p (src k) \<le> mp_ptrs p (src l) \<or>
        mp_ptrs p (src l) + node_sz p (src l) \<le> mp_ptrs p (src k)"
      using page_ok_node(4) [OF ok src(1) [OF k] src(1) [OF l]] by blast
    then show ?thesis
      using side [OF src [OF k]] side [OF src [OF l]] node_sz_ge8 [of p "src k"] node_sz_ge8 [of p "src l"]
      by (auto simp: ptr' [OF k] ptr' [OF l] szk [OF k] szk [OF l])
  qed
  have sum: "EVEN (length (page_nodes p ! indx)) + (\<Sum>x \<leftarrow> page_nodes p'. EVEN (length x)) =
      (\<Sum>x \<leftarrow> page_nodes p. EVEN (length x))"
    unfolding nodes by (rule sum_list_remove_at) (use i in simp)
  have "sz \<le> psize - mp_upper p" using del(2,3) sz by linarith
  then have "(\<Sum>x \<leftarrow> page_nodes p'. EVEN (length x)) = psize - (mp_upper p + sz)"
    using sum ok i by (simp add: sz node_sz_nth page_ok_def)
  moreover have "mp_lower p' = PAGEHDRSZ + 2 * NUMKEYS p'" "mp_lower p' \<le> mp_upper p'" "mp_upper p' \<le> psize"
    using b n' i del(2,3) sz by (auto simp: p' PAGEHDRSZ_def)
  moreover have "mp_upper p' = mp_upper p + sz" by (simp add: p')
  ultimately show "page_ok psize p'"
    using ok range disj by (simp add: page_ok_def n' leaf)
qed

lemma node_del_spec:
  assumes ok: "page_ok psize p" and i: "indx < NUMKEYS p"
  shows "\<exists>p'. mdb_node_del ks p indx = Some p' \<and> page_ok psize p' \<and>
    page_nodes p' = remove_at indx (page_nodes p) \<and> mp_flags p' = mp_flags p \<and> mp_pgno p' = mp_pgno p \<and>
    SIZELEFT p' = SIZELEFT p + node_sz p indx + 2"
proof -
  note b = page_ok_bounds [OF ok]
  note del = page_ok_node [OF ok i]
  define sz where "sz = node_sz p indx"
  define ptrs' where "ptrs' = ptrs_close_gap (mp_ptrs p) indx (mp_ptrs p indx) sz 0 0 (NUMKEYS p)"
  define p' where "p' = p\<lparr>mp_ptrs := ptrs', mp_body := mem_move (mp_body p) (mp_upper p + sz) (mp_upper p)
      (mp_ptrs p indx - mp_upper p), mp_lower := mp_lower p - 2, mp_upper := mp_upper p + sz\<rparr>"
  have "ptrs' k = (let q = mp_ptrs p (if k < indx then k else Suc k) in if q < mp_ptrs p indx then q + sz else q)"
    if k: "k < NUMKEYS p - 1" for k
  proof -
    have "ptrs' k = (let q = mp_ptrs p (if k < indx then k else Suc k) in
        if q < mp_ptrs p indx then indx_t (q + sz) else q)"
      unfolding ptrs'_def by (rule ptrs_close_gap_nth) (use k i in auto)
    moreover have "q < mp_ptrs p indx \<Longrightarrow> q + sz < 65536" for q
      using del(3) b(4) by (simp add: sz_def)
    ultimately show ?thesis by (simp add: Let_def)
  qed
  note r = page_remove [OF ok i sz_def refl this p'_def]
  have "(let sz = NODESIZE + NODEKSZ (mp_body p) (NODEPTR p indx);
      sz = (if IS_LEAF p then (if F_ISSET (mn_flags (mp_body p) (NODEPTR p indx)) F_BIGDATA then sz + 8
        else sz + unat (NODEDSZ (mp_body p) (NODEPTR p indx))) else sz) in EVEN sz) = sz"
    by (simp add: sz_def node_sz_def node_len_def NODEPTR_def PAGEBASE_def Let_def)
  moreover have "indx_t (mp_upper p + sz) = mp_upper p + sz"
    using del(2,3) b(4) by (simp add: sz_def)
  moreover have "indx_sub (mp_lower p) 2 = mp_lower p - 2"
    using b by (simp add: indx_sub_le)
  moreover have "\<not> IS_LEAF2 p" using ok by (simp add: page_ok_def)
  ultimately have "mdb_node_del ks p indx = Some p'"
    using i by (simp add: mdb_node_del_def Let_def p'_def ptrs'_def PAGEBASE_def)
  moreover have "SIZELEFT p' = SIZELEFT p + sz + 2"
    using page_ok_bounds(5) [OF r(1)] b i by (simp add: p'_def)
  ultimately show ?thesis using r by (auto simp: p'_def sz_def)
qed

section \<open>Copying\<close>

text \<open>A page with the same header, the same pointers and the same bytes above \<open>mp_upper\<close>.\<close>

lemma page_same:
  assumes ok: "page_ok psize p"
    and hdr: "mp_flags p' = mp_flags p" "mp_lower p' = mp_lower p" "mp_upper p' = mp_upper p"
    and ptrs: "\<And>i. i < NUMKEYS p \<Longrightarrow> mp_ptrs p' i = mp_ptrs p i"
    and body: "\<And>x. mp_upper p \<le> x \<Longrightarrow> x < psize \<Longrightarrow> mp_body p' x = mp_body p x"
  shows "page_nodes p' = page_nodes p" "page_ok psize p'"
proof -
  have n: "NUMKEYS p' = NUMKEYS p" and leaf: "IS_LEAF p' = IS_LEAF p" "IS_LEAF2 p' = IS_LEAF2 p"
    by (simp_all add: NUMKEYS_def IS_LEAF_def IS_LEAF2_def hdr)
  have image: "node_image (IS_LEAF p) (mp_body p') (mp_ptrs p i) = node_image (IS_LEAF p) (mp_body p) (mp_ptrs p i)"
    if i: "i < NUMKEYS p" for i
    by (rule node_image_cong(2), rule rd_eqI)
      (use page_ok_node(2,3) [OF ok i] node_sz_ge [of p i] body in auto)
  show nodes: "page_nodes p' = page_nodes p"
    by (rule nth_equalityI) (simp_all add: n nth_page_nodes leaf ptrs image)
  have "node_sz p' i = node_sz p i" if "i < NUMKEYS p" for i
    using that n nodes by (simp add: node_sz_nth)
  then show "page_ok psize p'"
    using ok by (simp add: page_ok_def n leaf hdr ptrs nodes)
qed

lemma align_down_le: "align_down n \<le> n"
  by (simp add: align_down_def)

lemma align_down_up: "n \<le> align_down (n + 7)"
  unfolding align_down_def by presburger

lemma page_copy_spec:
  assumes "page_ok psize src"
  shows "page_nodes (mdb_page_copy dst src psize) = page_nodes src" "page_ok psize (mdb_page_copy dst src psize)"
    and "mp_flags (mdb_page_copy dst src psize) = mp_flags src" "mp_pgno (mdb_page_copy dst src psize) = mp_pgno src"
proof -
  note b = page_ok_bounds [OF assms]
  let ?c = "mdb_page_copy dst src psize"
  have un: "indx_sub (mp_upper src) (mp_lower src) = SIZELEFT src" by (simp add: SIZELEFT_def)
  have small: "\<not> IS_LEAF2 src" using assms by (simp add: page_ok_def)
  have hdr: "mp_flags ?c = mp_flags src \<and> mp_lower ?c = mp_lower src \<and> mp_upper ?c = mp_upper src \<and> mp_pgno ?c = mp_pgno src"
    by (simp add: mdb_page_copy_def Let_def page_memcpy_head_def page_memcpy_tail_def)
  have ptrs: "mp_ptrs ?c i = mp_ptrs src i" if i: "i < NUMKEYS src" for i
  proof -
    have "PAGEHDRSZ + 2 * i + 2 \<le> mp_lower src" using i b(1) by (simp add: PAGEHDRSZ_def)
    then have "PAGEHDRSZ + 2 * i + 2 \<le> align_down (mp_lower src + 7)" "PAGEHDRSZ + 2 * i + 2 \<le> psize"
      using align_down_up [of "mp_lower src"] b(2,3) by linarith+
    then show ?thesis
      by (simp add: mdb_page_copy_def Let_def page_memcpy_head_def page_memcpy_tail_def PAGEBASE_def small)
  qed
  have body: "mp_body ?c x = mp_body src x" if "mp_upper src \<le> x" "x < psize" for x
    using that align_down_le [of "mp_upper src"] small
    by (auto simp: mdb_page_copy_def Let_def page_memcpy_head_def page_memcpy_tail_def PAGEBASE_def)
  show "page_nodes ?c = page_nodes src" "page_ok psize ?c"
    using page_same [OF assms, of ?c] hdr ptrs body by auto
  show "mp_flags ?c = mp_flags src" "mp_pgno ?c = mp_pgno src" using hdr by auto
qed

section \<open>Replacing a key\<close>

lemma ptrs_adjust_nth:
  "ptrs_adjust ptrs ptr delta n k =
    (if k < n \<and> ptrs k \<le> ptr then nat ((int (ptrs k) - delta) mod 65536) else ptrs k)"
proof (induction n arbitrary: k)
  case (Suc n)
  have "ptrs_adjust ptrs ptr delta n n = ptrs n" using Suc.IH [of n] by simp
  then show ?case using Suc.IH by (auto simp: Let_def less_Suc_eq)
qed simp

text \<open>The node with its key replaced: page number, flags and the rest of the header stay.\<close>

definition rekey :: "bytes \<Rightarrow> bytes \<Rightarrow> bytes" where
  "rekey node key = take 6 node @ bytes16 (word_of_nat (length key)) @ key"

lemma mod_65536_id: "0 \<le> x \<Longrightarrow> x < 65536 \<Longrightarrow> nat (x mod 65536) = nat x"
  by simp

text \<open>The code's writes in one form, whether or not the node has to move.\<close>

lemma wr16_same: "wr16 m a (rd16 m a) = m"
proof (rule ext)
  fix x
  have "ucast (rd16 m a) = m a" "ucast (drop_bit 8 (rd16 m a)) = m (a + 1)"
    by (rule bit_word_eqI, auto simp: rd16_def bit_simps dest: bit_imp_le_length)+
  moreover have "x < a \<or> x = a \<or> x = a + 1 \<or> a + 2 \<le> x" by linarith
  ultimately show "wr16 m a (rd16 m a) x = m x"
    by (auto simp: wr16_def wr_def bytes16_def)
qed

lemma mem_move_self: "mem_move m a a n = m"
  by (rule ext) (auto simp: mem_move_def wr_def)

lemma wr_Nil [simp]: "wr m a [] = m"
  by (rule ext) (auto simp: wr_def)

lemma mem_move_nth:
  "mem_move m dst src n x = (if dst \<le> x \<and> x < dst + n then m (x - dst + src) else m x)"
  by (auto simp: mem_move_def wr_def add.commute)

lemma update_key_page:
  assumes ok: "page_ok psize p" and i: "indx < NUMKEYS p" and key: "mv_size key < 65536"
    and new: "new = EVEN (mv_size key)" and old: "old = EVEN (NODEKSZ (mp_body p) (mp_ptrs p indx))"
    and room: "new \<le> old + SIZELEFT p" and fits: "mp_ptrs p indx + 8 + old \<le> psize"
    and ptr: "ptr = mp_ptrs p indx"
  shows "\<exists>ptrs'. mdb_update_key p indx key = Some (Inr (p\<lparr>mp_ptrs := ptrs', mp_upper := mp_upper p + old - new,
      mp_body := wr (wr16 (mem_move (mp_body p) (mp_upper p + old - new) (mp_upper p) (ptr - mp_upper p + 8))
        (ptr + old - new + 6) (word_of_nat (mv_size key))) (ptr + old - new + 8) (val_bytes key)\<rparr>)) \<and>
    (\<forall>k < NUMKEYS p. ptrs' k = (if mp_ptrs p k \<le> ptr then mp_ptrs p k + old - new else mp_ptrs p k))"
proof -
  note b = page_ok_bounds [OF ok]
  let ?m = "mp_body p" and ?up = "mp_upper p" and ?delta = "int new - int old"
  have up: "?up \<le> ptr" using page_ok_node(2) [OF ok i] ptr by simp
  define ptrs' where "ptrs' = (if ?delta \<noteq> 0 then ptrs_adjust (mp_ptrs p) ptr ?delta (NUMKEYS p) else mp_ptrs p)"
  define m1 where "m1 = mem_move ?m (?up + old - new) ?up (ptr - ?up + 8)"
  define p1 where "p1 = p\<lparr>mp_ptrs := ptrs', mp_body := m1, mp_upper := ?up + old - new\<rparr>"
  have upper_val: "nat ((int ?up - ?delta) mod 65536) = ?up + old - new"
    using room b fits up by (subst mod_65536_id) auto
  have ptrs': "ptrs' k = (if mp_ptrs p k \<le> ptr then mp_ptrs p k + old - new else mp_ptrs p k)"
    if k: "k < NUMKEYS p" for k
  proof -
    have "nat ((int (mp_ptrs p k) - ?delta) mod 65536) = mp_ptrs p k + old - new" if "mp_ptrs p k \<le> ptr"
      using that page_ok_node(2,3) [OF ok k] room b fits ptr by (subst mod_65536_id) auto
    then show ?thesis using k by (auto simp: ptrs'_def ptrs_adjust_nth)
  qed
  have shift: "(if ?delta \<noteq> 0 then p\<lparr>mp_ptrs := ptrs_adjust (mp_ptrs p) ptr ?delta (NUMKEYS p),
      mp_body := mem_move ?m (nat (int (?up + PAGEBASE) - ?delta)) (?up + PAGEBASE) (ptr - ?up + NODESIZE),
      mp_upper := nat ((int ?up - ?delta) mod 65536)\<rparr> else p) = p1"
  proof (cases "?delta = 0")
    case True
    then show ?thesis by (simp add: p1_def ptrs'_def m1_def mem_move_self)
  next
    case False
    moreover have "nat (int (?up + PAGEBASE) - ?delta) = ?up + old - new" "?up + PAGEBASE = ?up" "NODESIZE = 8"
      by (simp_all add: PAGEBASE_def NODESIZE_def)
    ultimately show ?thesis by (simp only: p1_def ptrs'_def m1_def upper_val if_True simp_thms)
  qed
  have node: "NODEPTR p1 indx = ptr + old - new"
    using ptrs' [OF i] by (simp add: NODEPTR_def PAGEBASE_def p1_def ptr)
  have ks: "(if NODEKSZ m1 n \<noteq> mv_size key then wr16 m1 (n + 6) (word_of_nat (mv_size key)) else m1)
      = wr16 m1 (n + 6) (word_of_nat (mv_size key))" for n
  proof (cases "NODEKSZ m1 n = mv_size key")
    case True
    then have "word_of_nat (mv_size key) = rd16 m1 (n + 6)"
      unfolding NODEKSZ_def mn_ksize_def by (metis of_nat_unat ucast_id)
    then show ?thesis using True by (simp only: wr16_same) simp
  qed simp
  have kw: "(if mv_size key \<noteq> 0 then wr m2 n (val_bytes key) else m2) = wr m2 n (val_bytes key)" for m2 n
    by simp
  have names: "EVEN (mv_size key) = new" "EVEN (NODEKSZ ?m (NODEPTR p indx)) = old" "mp_ptrs p indx = ptr"
      "mp_body p1 = m1"
    by (simp_all add: new old ptr NODEPTR_def PAGEBASE_def p1_def)
  have no_split: "(?delta > 0 \<and> int (SIZELEFT p) < ?delta) = False" using room by simp
  have "mdb_update_key p indx key = Some (Inr (p1\<lparr>mp_body :=
      wr (wr16 m1 (ptr + old - new + 6) (word_of_nat (mv_size key))) (ptr + old - new + NODESIZE) (val_bytes key)\<rparr>))"
    unfolding mdb_update_key_def Let_def names no_split if_False shift node ks kw ..
  then show ?thesis
    using ptrs' by (auto simp: p1_def m1_def NODESIZE_def)
qed

lemma update_key_spec:
  assumes ok: "page_ok psize p" and i: "indx < NUMKEYS p" and branch: "\<not> IS_LEAF p"
    and key: "val_ok key" "mv_size key < 65536"
    and room: "EVEN (mv_size key) \<le> EVEN (NODEKSZ (mp_body p) (mp_ptrs p indx)) + SIZELEFT p"
  shows "\<exists>p'. mdb_update_key p indx key = Some (Inr p') \<and> page_ok psize p' \<and>
    page_nodes p' = (page_nodes p)[indx := rekey (page_nodes p ! indx) (val_bytes key)] \<and>
    mp_flags p' = mp_flags p \<and> mp_pgno p' = mp_pgno p"
proof -
  note b = page_ok_bounds [OF ok]
  note nd = page_ok_node [OF ok i]
  let ?n = "NUMKEYS p" and ?m = "mp_body p" and ?up = "mp_upper p" and ?s = "mv_size key"
  define ptr where "ptr = mp_ptrs p indx"
  define new old where "new = EVEN ?s" and "old = EVEN (NODEKSZ ?m ptr)"
  define up' ptr' where "up' = ?up + old - new" and "ptr' = ptr + old - new"
  have sz: "node_sz p indx = 8 + old"
    using branch by (simp add: node_sz_def node_len_def NODESIZE_def ptr_def old_def EVEN_8)
  have fits: "ptr + 8 + old \<le> psize" using nd(3) sz by (simp add: ptr_def)
  have ptr: "?up \<le> ptr" using nd(2) by (simp add: ptr_def)
  have nr: "new \<le> old + SIZELEFT p" using room by (simp add: new_def old_def ptr_def)
  have s: "?s \<le> new" by (simp add: new_def)
  define m1 where "m1 = mem_move ?m up' ?up (ptr - ?up + 8)"
  define m2 where "m2 = wr (wr16 m1 (ptr' + 6) (word_of_nat ?s)) (ptr' + 8) (val_bytes key)"
  obtain ptrs' where upd: "mdb_update_key p indx key = Some (Inr (p\<lparr>mp_ptrs := ptrs', mp_upper := up', mp_body := m2\<rparr>))"
    and ptrs': "\<And>k. k < ?n \<Longrightarrow> ptrs' k = (if mp_ptrs p k \<le> ptr then mp_ptrs p k + old - new else mp_ptrs p k)"
    using update_key_page [OF ok i key(2) new_def _ nr _ ptr_def] fits
    by (auto simp: m2_def m1_def up'_def ptr'_def old_def ptr_def)
  define p' where "p' = p\<lparr>mp_ptrs := ptrs', mp_upper := up', mp_body := m2\<rparr>"
  have n': "NUMKEYS p' = ?n" and leaf: "IS_LEAF p' = IS_LEAF p" "IS_LEAF2 p' = IS_LEAF2 p"
    by (simp_all add: p'_def NUMKEYS_def)
  have up: "mp_lower p \<le> up'" "up' + new = ?up + old" "ptr' + new = ptr + old" "up' \<le> ptr'"
    using nr ptr b(2,5) by (auto simp: up'_def ptr'_def)
  \<comment> \<open>the bytes afterwards: above the node as before, below and in the header moved\<close>
  have above: "m2 x = ?m x" if "ptr + 8 + old \<le> x" for x
    using that up s ptr key(1)
    by (auto simp: m2_def m1_def wr16_def wr_def mem_move_nth)
  have moved: "m2 x = ?m y" if "x + new = y + old" "?up \<le> y" "y < ptr + 6" for x y
    using that up s ptr
    by (auto simp: m2_def m1_def wr16_def wr_def mem_move_nth intro!: arg_cong [where f = ?m])
  have image_new: "node_image False m2 ptr' = rekey (node_image False ?m ptr) (val_bytes key)"
  proof -
    have "rd m2 ptr' 6 = rd ?m ptr 6" by (rule rd_eqI, rule moved) (use up ptr in auto)
    moreover have "take 6 (node_image False ?m ptr) = rd ?m ptr 6"
      using node_len_ge [of False ?m ptr] by (intro nth_equalityI) (auto simp: node_image_def)
    moreover have "rd m2 (ptr' + 6) 2 = bytes16 (word_of_nat ?s)"
      by (simp add: m2_def mem_simps wr16_def)
    moreover have "rd m2 (ptr' + 8) ?s = val_bytes key"
      unfolding m2_def using key(1) by (intro rd_wr_same) (simp add: val_ok_def)
    moreover have "rd m2 ptr' (6 + (2 + ?s)) = rd m2 ptr' 6 @ rd m2 (ptr' + 6) 2 @ rd m2 (ptr' + 6 + 2) ?s"
      by (simp only: rd_append)
    moreover have "ptr' + 6 + 2 = ptr' + 8" "6 + (2 + ?s) = 8 + ?s" by simp_all
    ultimately have r: "rd m2 ptr' (8 + ?s) = rekey (node_image False ?m ptr) (val_bytes key)"
      by (simp only: rekey_def length_val_bytes [OF key(1)])
    have "mn_ksize m2 ptr' = word_of_nat ?s"
      unfolding mn_ksize_def by (rule rd16_of_bytes) (simp add: m2_def mem_simps wr16_def)
    then have "node_len False m2 ptr' = 8 + ?s"
      using key(2) by (simp add: node_len_def NODEKSZ_def NODESIZE_def unat_of_nat)
    then show ?thesis by (simp add: node_image_def r)
  qed
  have image_old: "node_image False m2 (ptrs' k) = node_image False ?m (mp_ptrs p k)"
    if k: "k < ?n" "k \<noteq> indx" for k
  proof (rule node_image_cong(2), rule rd_eqI)
    fix x assume x: "x < node_len False ?m (mp_ptrs p k)"
    have l: "node_len False ?m (mp_ptrs p k) \<le> node_sz p k" using node_sz_ge [of p k] branch by simp
    consider "mp_ptrs p k + node_sz p k \<le> ptr" | "ptr + (8 + old) \<le> mp_ptrs p k"
      using page_ok_node(4) [OF ok k(1) i k(2)] sz by (auto simp: ptr_def)
    then show "m2 (ptrs' k + x) = ?m (mp_ptrs p k + x)"
    proof cases
      case 1
      then have "mp_ptrs p k \<le> ptr" by simp
      then show ?thesis
        using 1 x l page_ok_node(2) [OF ok k(1)] up by (intro moved) (auto simp: ptrs' [OF k(1)])
    next
      case 2
      then show ?thesis using above by (auto simp: ptrs' [OF k(1)])
    qed
  qed
  have nodes: "page_nodes p' = (page_nodes p)[indx := rekey (page_nodes p ! indx) (val_bytes key)]"
  proof (rule nth_equalityI)
    fix k assume "k < length (page_nodes p')"
    then have k: "k < ?n" by (simp add: n')
    then have "page_nodes p' ! k = node_image False m2 (ptrs' k)"
      using branch by (simp add: nth_page_nodes n' leaf) (simp add: p'_def)
    then show "page_nodes p' ! k = (page_nodes p)[indx := rekey (page_nodes p ! indx) (val_bytes key)] ! k"
      using k i image_old image_new branch ptrs' [OF i]
      by (auto simp: nth_list_update nth_page_nodes ptr_def ptr'_def)
  qed (simp add: n')
  have len_new: "length (rekey (page_nodes p ! indx) (val_bytes key)) = 8 + ?s"
    using key(1) i node_len_ge [of False ?m ptr] branch
    by (simp add: rekey_def nth_page_nodes ptr_def val_ok_def min_def)
  have szk: "node_sz p' k = (if k = indx then 8 + new else node_sz p k)" if k: "k < ?n" for k
    using k i by (simp add: node_sz_nth n' nodes nth_list_update len_new new_def EVEN_8)
  have "(\<Sum>x \<leftarrow> page_nodes p'. EVEN (length x)) + node_sz p indx = (\<Sum>x \<leftarrow> page_nodes p. EVEN (length x)) + (8 + new)"
    unfolding nodes node_sz_nth [OF i]
    using sum_list_update_at [of indx "page_nodes p" "\<lambda>x. EVEN (length x)"] i
    by (simp add: len_new new_def EVEN_8)
  moreover have "(\<Sum>x \<leftarrow> page_nodes p. EVEN (length x)) = psize - ?up" using ok by (simp add: page_ok_def)
  moreover have "?up \<le> psize" "up' \<le> psize" using b(3) fits ptr up by auto
  ultimately have sum: "(\<Sum>x \<leftarrow> page_nodes p'. EVEN (length x)) = psize - up'"
    using sz up(2) fits ptr by linarith
  have even: "even new" "even old" by (simp_all add: new_def old_def)
  have ptrs_k: "mp_ptrs p' k = (if mp_ptrs p k \<le> ptr then mp_ptrs p k + old - new else mp_ptrs p k)"
    if "k < ?n" for k
    using ptrs' [OF that] by (simp add: p'_def)
  have side: "k = indx \<or> (mp_ptrs p k < ptr \<and> mp_ptrs p k + node_sz p k \<le> ptr) \<or>
      (ptr < mp_ptrs p k \<and> ptr + (8 + old) \<le> mp_ptrs p k)" if k: "k < ?n" for k
    using page_ok_node(4) [OF ok k i] sz node_sz_ge8 [of p k] by (fastforce simp: ptr_def)
  have inside: "even (mp_ptrs p' k) \<and> up' \<le> mp_ptrs p' k \<and> mp_ptrs p' k + node_sz p' k \<le> psize"
    if k: "k < ?n" for k
    using page_ok_node(1-3) [OF ok k] side [OF k] up fits even ptr
    by (auto simp: ptrs_k [OF k] szk [OF k] ptr_def up'_def)
  have place: "(k = indx \<and> mp_ptrs p' k = ptr' \<and> node_sz p' k = 8 + new) \<or>
      (k \<noteq> indx \<and> mp_ptrs p' k + new = mp_ptrs p k + old \<and> mp_ptrs p k + node_sz p k \<le> ptr \<and> node_sz p' k = node_sz p k) \<or>
      (k \<noteq> indx \<and> mp_ptrs p' k = mp_ptrs p k \<and> ptr + (8 + old) \<le> mp_ptrs p k \<and> node_sz p' k = node_sz p k)"
    if k: "k < ?n" for k
    using side [OF k] page_ok_node(2) [OF ok k] up
    by (auto simp: ptrs_k [OF k] szk [OF k] ptr_def ptr'_def up'_def)
  have disj: "mp_ptrs p' k + node_sz p' k \<le> mp_ptrs p' l \<or> mp_ptrs p' l + node_sz p' l \<le> mp_ptrs p' k"
    if k: "k < ?n" and l: "l < ?n" and kl: "k \<noteq> l" for k l
  proof -
    have "mp_ptrs p k + node_sz p k \<le> mp_ptrs p l \<or> mp_ptrs p l + node_sz p l \<le> mp_ptrs p k"
      using page_ok_node(4) [OF ok k l kl] .
    then show ?thesis using place [OF k] place [OF l] kl up(3) by (elim disjE conjE) linarith+
  qed
  have "page_ok psize p'"
    using ok sum inside disj up(1) \<open>up' \<le> psize\<close> by (simp add: page_ok_def n' leaf) (simp add: p'_def)
  then show ?thesis using nodes upd by (auto simp: p'_def)
qed

lemma node_add_branch_spec:
  assumes ok: "page_ok psize p" and i: "indx \<le> NUMKEYS p" and branch: "\<not> IS_LEAF p"
    and k: "key = None \<and> k = \<lparr>mv_size = 0, mv_data = []\<rparr> \<or> key = Some k" "val_ok k" "mv_size k < 65536"
  shows "\<exists>r fl'. mdb_node_add page_new pad me_nodemax psize s mt_flags p indx key data pgno flags
      = Some (s, fl', r) \<and>
    (if mp_upper p < mp_lower p + 2 + EVEN (8 + mv_size k)
     then fl' = mt_flags OR MDB_TXN_ERROR \<and> r = Inl MDB_PAGE_FULL
     else fl' = mt_flags \<and> (\<exists>p'. r = Inr (p', None) \<and> page_ok psize p' \<and>
       page_nodes p' = insert_at indx (branch_node pgno (val_bytes k)) (page_nodes p)))"
proof -
  have b: "mp_lower p \<le> mp_upper p" "\<not> IS_LEAF2 p" using ok by (simp_all add: page_ok_def)
  have sz: "INDXSIZE key = 8 + mv_size k" using k(1) by (auto simp: INDXSIZE_def NODESIZE_def)
  note code = mdb_node_add_def Let_def b branch sz node_add_room [OF ok]
  show ?thesis
  proof (cases "mp_upper p < mp_lower p + 2 + EVEN (8 + mv_size k)")
    case True
    then show ?thesis by (simp add: code)
  next
    case False
    then show ?thesis
      using node_add_update_branch [OF ok i branch k refl, of data pgno flags None] by (auto simp: code)
  qed
qed

section \<open>Properties\<close>

text \<open>An empty page, as \<open>mdb_page_new\<close> leaves it.\<close>

definition empty_page :: "nat \<Rightarrow> u16 \<Rightarrow> mdb_page" where
  "empty_page psize flags = \<lparr>mp_pgno = 7, mp_pad = 0, mp_flags = flags, mp_lower = 16, mp_upper = psize,
     mp_ptrs = (\<lambda>_. 0), mp_body = (\<lambda>_. 0)\<rparr>"

lemma empty_page_ok:
  "psize \<le> 32768 \<Longrightarrow> even psize \<Longrightarrow> 16 \<le> psize \<Longrightarrow> \<not> F_ISSET flags P_LEAF2 \<Longrightarrow>
   page_ok psize (empty_page psize flags) \<and> page_nodes (empty_page psize flags) = [] \<and>
   NUMKEYS (empty_page psize flags) = 0"
  by (simp add: page_ok_def empty_page_def NUMKEYS_def page_nodes_def PAGEHDRSZ_def PAGEBASE_def IS_LEAF2_def)

text \<open>
  C18: \<open>mdb_node_add\<close> on a leaf page. If the node (with the data, or an 8-byte page number
  when key and data exceed \<open>me_nodemax\<close>) and its slot do not fit between \<open>mp_lower\<close> and
  \<open>mp_upper\<close>, the result is \<open>MDB_PAGE_FULL\<close>, the page is unchanged and the transaction
  marked failed. Otherwise the page stays well formed and its list of nodes is the old one
  with the new node at index \<open>indx\<close>; large data goes to the overflow page that
  \<open>mdb_page_new\<close> gave, whose number the node holds, and a failure of \<open>mdb_page_new\<close> is
  passed on with the page unchanged.
\<close>

theorem node_add_leaf_correct:
  assumes "page_ok psize p" "indx \<le> NUMKEYS p" "IS_LEAF p"
    and "val_ok k" "mv_size k < 65536" "val_ok d" "mv_size d < 2 ^ 32"
    and "\<not> bit flags 0" "\<not> F_ISSET flags MDB_RESERVE"
  shows "\<exists>s' fl' r. mdb_node_add page_new pad me_nodemax psize s mt_flags p indx (Some k) (Some d) pgno flags
      = Some (s', fl', r) \<and>
    (if mp_upper p < mp_lower p + 2 + node_add_need me_nodemax k d
     then s' = s \<and> fl' = mt_flags OR MDB_TXN_ERROR \<and> r = Inl MDB_PAGE_FULL
     else if 8 + mv_size k + mv_size d > me_nodemax then
       (case page_new s (OVPAGES (mv_size d) psize) of
          (s1, Inl e) \<Rightarrow> s' = s1 \<and> fl' = mt_flags \<and> r = Inl e
        | (s1, Inr ov) \<Rightarrow> s' = s1 \<and> fl' = mt_flags \<and> (\<exists>p' ov'. r = Inr (p', Some ov') \<and>
            page_ok psize p' \<and> page_nodes p' = insert_at indx
              (leaf_node (ucast flags OR F_BIGDATA) (mv_size d) (val_bytes k) (u64_bytes (mp_pgno ov))) (page_nodes p) \<and>
            mp_pgno ov' = mp_pgno ov \<and> rd (mp_body ov') PAGEHDRSZ (mv_size d) = val_bytes d))
     else s' = s \<and> fl' = mt_flags \<and> (\<exists>p'. r = Inr (p', None) \<and> page_ok psize p' \<and>
            page_nodes p' = insert_at indx (leaf_node (ucast flags) (mv_size d) (val_bytes k) (val_bytes d))
              (page_nodes p)))"
  using assms by (rule node_add_leaf_spec)

theorem node_add_leaf_witness:
  "\<exists>s' fl' p'. mdb_node_add (\<lambda>s n. (s, Inl MDB_MAP_FULL)) 0 2000 4096 () 0 (empty_page 4096 P_LEAF) 0
      (Some \<lparr>mv_size = 1, mv_data = [5]\<rparr>) (Some \<lparr>mv_size = 2, mv_data = [6, 7]\<rparr>) 0 0
    = Some (s', fl', Inr (p', None)) \<and> page_nodes p' = [leaf_node 0 2 [5] [6, 7]]"
  using node_add_leaf_correct [of 4096 "empty_page 4096 P_LEAF" 0 "\<lparr>mv_size = 1, mv_data = [5]\<rparr>"
      "\<lparr>mv_size = 2, mv_data = [6, 7]\<rparr>" 0 "\<lambda>s n. (s, Inl MDB_MAP_FULL)" 0 2000 "()" 0 0]
    empty_page_ok [of 4096 P_LEAF]
  by (auto simp: empty_page_def P_LEAF_def P_LEAF2_def IS_LEAF_def F_ISSET_def MDB_RESERVE_def val_ok_def
      node_add_need_def EVEN_def insert_at_def)

text \<open>
  \<open>mdb_node_add\<close> on a branch page: refused with \<open>MDB_PAGE_FULL\<close> exactly when header, key
  and slot do not fit; otherwise the well-formed page has the branch node, with the child's
  48-bit page number and the key (none for the first node), at index \<open>indx\<close>.
\<close>

theorem node_add_branch_correct:
  assumes "page_ok psize p" "indx \<le> NUMKEYS p" "\<not> IS_LEAF p"
    and "key = None \<and> k = \<lparr>mv_size = 0, mv_data = []\<rparr> \<or> key = Some k" "val_ok k" "mv_size k < 65536"
  shows "\<exists>r fl'. mdb_node_add page_new pad me_nodemax psize s mt_flags p indx key data pgno flags
      = Some (s, fl', r) \<and>
    (if mp_upper p < mp_lower p + 2 + EVEN (8 + mv_size k)
     then fl' = mt_flags OR MDB_TXN_ERROR \<and> r = Inl MDB_PAGE_FULL
     else fl' = mt_flags \<and> (\<exists>p'. r = Inr (p', None) \<and> page_ok psize p' \<and>
       page_nodes p' = insert_at indx (branch_node pgno (val_bytes k)) (page_nodes p)))"
  using assms by (rule node_add_branch_spec)

theorem node_add_branch_witness:
  "\<exists>fl' p'. mdb_node_add (\<lambda>s n. (s, Inl MDB_MAP_FULL)) 0 2000 4096 () 0 (empty_page 4096 P_BRANCH) 0 None None 9 0
    = Some ((), fl', Inr (p', None)) \<and> page_nodes p' = [branch_node 9 []]"
  using node_add_branch_correct [of 4096 "empty_page 4096 P_BRANCH" 0 None "\<lparr>mv_size = 0, mv_data = []\<rparr>"
      "\<lambda>s n. (s, Inl MDB_MAP_FULL)" 0 2000 "()" 0 None 9 0]
    empty_page_ok [of 4096 P_BRANCH]
  by (auto simp: empty_page_def P_LEAF_def P_LEAF2_def P_BRANCH_def IS_LEAF_def F_ISSET_def val_ok_def
      EVEN_def insert_at_def)

text \<open>
  C19: \<open>mdb_node_del\<close> removes exactly the node at index \<open>indx\<close>: the other nodes keep their
  bytes and their order though they move within the page, the page stays well formed, and
  the free space grows by the node and its slot.
\<close>

theorem node_del_correct:
  assumes "page_ok psize p" "indx < NUMKEYS p"
  shows "\<exists>p'. mdb_node_del ks p indx = Some p' \<and> page_ok psize p' \<and>
    page_nodes p' = remove_at indx (page_nodes p) \<and> mp_flags p' = mp_flags p \<and> mp_pgno p' = mp_pgno p \<and>
    SIZELEFT p' = SIZELEFT p + node_sz p indx + 2"
  using assms by (rule node_del_spec)

theorem node_del_witness:
  "\<exists>p p'. page_nodes p = [branch_node 9 []] \<and> mdb_node_del 0 p 0 = Some p' \<and> page_nodes p' = []"
proof -
  obtain p where p: "page_ok 4096 p" "page_nodes p = [branch_node 9 []]"
    using node_add_branch_spec [of 4096 "empty_page 4096 P_BRANCH" 0 None "\<lparr>mv_size = 0, mv_data = []\<rparr>"
        "\<lambda>s n. (s, Inl MDB_MAP_FULL)" 0 2000 "()" 0 None 9 0]
      empty_page_ok [of 4096 P_BRANCH]
    by (auto simp: empty_page_def P_LEAF_def P_LEAF2_def P_BRANCH_def IS_LEAF_def F_ISSET_def val_ok_def
        EVEN_def insert_at_def)
  then have "0 < NUMKEYS p" by (metis length_page_nodes length_Cons zero_less_Suc)
  then show ?thesis
    using node_del_correct [OF p(1), of 0 0] p(2) by (auto simp: remove_at_def)
qed

text \<open>
  C27: \<open>mdb_update_key\<close> on a branch page: if the longer key does not fit, the node is deleted
  and its page number handed to the split; otherwise the key of that one node is
  replaced, its page number and every other node stay, and the page stays well formed,
  also when the nodes below had to move.
\<close>

theorem update_key_correct:
  assumes "page_ok psize p" "indx < NUMKEYS p" "\<not> IS_LEAF p" "val_ok key" "mv_size key < 65536"
  shows "\<exists>r. mdb_update_key p indx key = Some r \<and>
    (if EVEN (mv_size key) \<le> EVEN (NODEKSZ (mp_body p) (mp_ptrs p indx)) + SIZELEFT p
     then (\<exists>p'. r = Inr p' \<and> page_ok psize p' \<and>
       page_nodes p' = (page_nodes p)[indx := rekey (page_nodes p ! indx) (val_bytes key)])
     else (\<exists>p'. r = Inl (p', NODEPGNO (mp_body p) (mp_ptrs p indx)) \<and> page_ok psize p' \<and>
       page_nodes p' = remove_at indx (page_nodes p)))"
proof (cases "EVEN (mv_size key) \<le> EVEN (NODEKSZ (mp_body p) (mp_ptrs p indx)) + SIZELEFT p")
  case True
  then show ?thesis using update_key_spec [OF assms True] by auto
next
  case False
  then show ?thesis
    using node_del_spec [OF assms(1,2), of 0]
    by (auto simp: mdb_update_key_def Let_def NODEPTR_def PAGEBASE_def)
qed

theorem update_key_witness:
  "\<exists>p p'. page_nodes p = [branch_node 9 []] \<and> mdb_update_key p 0 \<lparr>mv_size = 1, mv_data = [3]\<rparr> = Some (Inr p')
     \<and> page_nodes p' = [rekey (branch_node 9 []) [3]]"
proof -
  obtain p where p: "page_ok 4096 p" "page_nodes p = [branch_node 9 []]" "SIZELEFT p = 4070" "\<not> IS_LEAF p"
  proof -
    have e: "page_ok 4096 (empty_page 4096 P_BRANCH)" "\<not> IS_LEAF (empty_page 4096 P_BRANCH)"
      "page_nodes (empty_page 4096 P_BRANCH) = []"
      using empty_page_ok [of 4096 P_BRANCH]
      by (simp_all add: empty_page_def P_LEAF_def P_LEAF2_def P_BRANCH_def IS_LEAF_def F_ISSET_def)
    obtain p where "node_add_update (empty_page 4096 P_BRANCH) 0 8 None None 9 0 None = Some (p, None)"
      and p: "page_ok 4096 p" "page_nodes p = [branch_node 9 []]" "mp_flags p = P_BRANCH"
      using node_add_update_branch [OF e(1) _ e(2), of 0 None "\<lparr>mv_size = 0, mv_data = []\<rparr>" 8 None 9 0 None]
      by (auto simp: empty_page_def val_ok_def EVEN_def insert_at_def e(3) [unfolded empty_page_def])
    have "NUMKEYS p = 1" using p(2) by (metis length_page_nodes length_Cons list.size(3) One_nat_def)
    moreover have "8 + mp_upper p = 4096"
    proof -
      have "4096 - mp_upper p = 8" using p(1,2) by (simp add: page_ok_def branch_node_def EVEN_def)
      then show ?thesis by linarith
    qed
    ultimately have "SIZELEFT p = 4070" using page_ok_bounds [OF p(1)] by simp
    moreover have "\<not> IS_LEAF p" using p(3) by (simp add: IS_LEAF_def P_LEAF_def P_BRANCH_def F_ISSET_def)
    ultimately show thesis using that p by blast
  qed
  have e1: "EVEN (Suc 0) = 2" by (simp add: EVEN_def)
  have "0 < NUMKEYS p" using p(2) by (metis length_page_nodes length_Cons zero_less_Suc)
  then show ?thesis
    using update_key_correct [OF p(1) _ p(4), of 0 "\<lparr>mv_size = 1, mv_data = [3]\<rparr>"] p e1
    by (auto simp: val_ok_def)
qed

text \<open>
  \<open>mdb_page_copy\<close>, which copies only the used parts of a page that is not full, gives a
  page with the same nodes in the same order, and well formed, whatever the target held.
\<close>

theorem page_copy_correct:
  assumes "page_ok psize src"
  shows "page_nodes (mdb_page_copy dst src psize) = page_nodes src
    \<and> page_ok psize (mdb_page_copy dst src psize)"
  using page_copy_spec [OF assms] by blast

theorem page_copy_witness:
  "page_nodes (mdb_page_copy (empty_page 512 P_LEAF) (empty_page 4096 P_BRANCH) 4096) = []"
  using page_copy_correct [of 4096 "empty_page 4096 P_BRANCH" "empty_page 512 P_LEAF"]
    empty_page_ok [of 4096 P_BRANCH]
  by (simp add: P_LEAF2_def P_BRANCH_def F_ISSET_def)

end
