(* ===== verification/Search.thy ===== *)
theory Search
  imports Compare Page_Facts
begin

text \<open>
  \<open>mdb_node_search\<close>: binary search for a key among the nodes of one page. The first node
  of a branch page has no key, so the search there starts at the second. The result is
  the flag \<open>*exactp\<close>, the index stored in the cursor, and the node or \<open>None\<close> for \<open>NULL\<close>.
\<close>

section \<open>The code\<close>

text \<open>The loop; \<open>low\<close> never is negative, \<open>high\<close> may be. \<open>cmp_at\<close> compares the key with the node at an index.\<close>

function node_search_loop :: "(nat \<Rightarrow> int) \<Rightarrow> nat \<Rightarrow> int \<Rightarrow> nat \<Rightarrow> int \<Rightarrow> nat \<times> int" where
  "node_search_loop cmp_at low high i rc =
     (if int low \<le> high then
        (let i = (low + nat high) div 2;
             rc = cmp_at i
         in if rc = 0 then (i, rc)
            else if rc > 0 then node_search_loop cmp_at (i + 1) high i rc
            else node_search_loop cmp_at low (int i - 1) i rc)
      else (i, rc))"
  by pat_completeness auto
termination
  by (relation "measure (\<lambda>(f, low, high, i, rc). nat (high - int low + 1))") auto

declare node_search_loop.simps [simp del]

text \<open>
  Branch pages have no data, so integer keys are aligned there and the faster comparison
  of the size of the second key is used.
\<close>

definition node_cmp :: "cmp_func \<Rightarrow> mdb_page \<Rightarrow> cmp_func" where
  "node_cmp cmp mp =
     (if cmp = Cmp_cint \<and> IS_BRANCH mp then
        (if NODEKSZ (mp_body mp) (NODEPTR mp 1) = 8 then Cmp_long else Cmp_int)
      else cmp)"

definition mdb_node_search ::
  "(nat \<Rightarrow> bytes \<Rightarrow> bytes \<Rightarrow> int) \<Rightarrow> cmp_func \<Rightarrow> nat \<Rightarrow> mdb_page \<Rightarrow> bytes \<Rightarrow> bool \<times> nat \<times> nat option" where
  "mdb_node_search user md_cmp md_pad mp key =
     (let nkeys = NUMKEYS mp;
          low = (if IS_LEAF mp then 0 else 1);
          high = int nkeys - 1;
          cmp = run_cmp user (node_cmp md_cmp mp);
          m = mp_body mp;
          nodekey = (\<lambda>i. if IS_LEAF2 mp then rd m (LEAF2KEY i md_pad) md_pad
                         else NODEKEY m (NODEPTR mp i));
          (i, rc) = node_search_loop (\<lambda>i. cmp key (nodekey i)) low high 0 0;
          node = (if IS_LEAF2 mp then Some (NODEPTR mp 0)
                  else if int low \<le> high then Some (NODEPTR mp i) else None);
          (i, node) = (if rc > 0 then (i + 1, if IS_LEAF2 mp then node else Some (NODEPTR mp (i + 1)))
                       else (i, node))
      in (rc = 0 \<and> nkeys > 0, i, if i \<ge> nkeys then None else node))"

section \<open>The search on an ordered page\<close>

lemma node_search_loop_cong:
  "(\<And>j. int j \<le> high \<Longrightarrow> f j = g j) \<Longrightarrow>
    node_search_loop f low high i rc = node_search_loop g low high i rc"
proof (induction f low high i rc rule: node_search_loop.induct)
  case (1 f low high i rc)
  show ?case
  proof (cases "int low \<le> high")
    case False
    then show ?thesis by (simp add: node_search_loop.simps)
  next
    case True
    define c where "c = (low + nat high) div 2"
    have c: "int c \<le> high" using True by (auto simp: c_def)
    note IH = "1.IH" [OF True c_def refl]
    have up: "0 < g c \<Longrightarrow> node_search_loop f (c + 1) high c (g c) = node_search_loop g (c + 1) high c (g c)"
      using IH(1) "1.prems" c by auto
    have down: "g c < 0 \<Longrightarrow> node_search_loop f low (int c - 1) c (g c) = node_search_loop g low (int c - 1) c (g c)"
      using IH(2) "1.prems" c by auto
    show ?thesis
      using True up down "1.prems" [OF c]
      by (simp add: node_search_loop.simps [of _ low] c_def [symmetric] Let_def linorder_not_less order_le_less)
  qed
qed

definition page_keys :: "mdb_page \<Rightarrow> bytes list" where
  "page_keys p = map (\<lambda>i. NODEKEY (mp_body p) (NODEPTR p i)) [0..<NUMKEYS p]"

lemma length_page_keys [simp]: "length (page_keys p) = NUMKEYS p"
  by (simp add: page_keys_def)

lemma nth_page_keys: "i < NUMKEYS p \<Longrightarrow> page_keys p ! i = NODEKEY (mp_body p) (NODEPTR p i)"
  by (simp add: page_keys_def)

context key_order
begin

text \<open>
  The invariant: the nodes from \<open>lo\<close> to \<open>low\<close> are below the key, those above \<open>high\<close> above
  it; once the interval is empty the last comparison says on which side of \<open>low\<close> the
  last index lies.
\<close>

lemma order_from:
  assumes ks: "\<forall>k \<in> set (drop lo ks). valid k" "increasing (drop lo ks)" "valid key"
    and ij: "lo \<le> i" "i \<le> j" "j < length ks"
  shows "cmp key (ks ! i) < 0 \<Longrightarrow> cmp key (ks ! j) < 0"
    and "0 < cmp key (ks ! j) \<Longrightarrow> 0 < cmp key (ks ! i)"
    and "i < j \<Longrightarrow> ks ! j = key \<Longrightarrow> 0 < cmp key (ks ! i)"
    and "i < j \<Longrightarrow> ks ! i = key \<Longrightarrow> cmp key (ks ! j) < 0"
    and "valid (ks ! i)"
proof -
  have n: "drop lo ks ! (i - lo) = ks ! i" "drop lo ks ! (j - lo) = ks ! j" "i - lo \<le> j - lo"
    "j - lo < length (drop lo ks)" "i - lo < length (drop lo ks)" using ij by auto
  show "cmp key (ks ! i) < 0 \<Longrightarrow> cmp key (ks ! j) < 0" "0 < cmp key (ks ! j) \<Longrightarrow> 0 < cmp key (ks ! i)"
    using increasing_nth [OF ks n(3,4)] n by auto
  have v: "valid (ks ! i)" "valid (ks ! j)" using ks(1) nth_mem [OF n(5)] nth_mem [OF n(4)] n by auto
  then show "valid (ks ! i)" by simp
  assume "i < j"
  then have less: "cmp (ks ! i) (ks ! j) < 0"
    using sorted_wrt_nth_less [OF ks(2), of "i - lo" "j - lo"] n ij by auto
  then show "ks ! j = key \<Longrightarrow> 0 < cmp key (ks ! i)" "ks ! i = key \<Longrightarrow> cmp key (ks ! j) < 0"
    using cmp_pos [OF ks(3) v(1)] by auto
qed

lemma node_search_loop_spec:
  assumes ks: "\<forall>k \<in> set (drop lo ks). valid k" "increasing (drop lo ks)" "valid key"
    and "lo \<le> low" "int low \<le> high + 1" "high < int (length ks)"
    and "\<And>j. lo \<le> j \<Longrightarrow> j < low \<Longrightarrow> 0 < cmp key (ks ! j)"
    and "\<And>j. high < int j \<Longrightarrow> j < length ks \<Longrightarrow> cmp key (ks ! j) < 0"
    and "high < int low \<Longrightarrow> (0 < rc \<and> i + 1 = low) \<or> (rc < 0 \<and> i = low)"
    and r: "node_search_loop (\<lambda>i. cmp key (ks ! i)) low high i rc = (i', rc')"
    and x: "x = (if 0 < rc' then i' + 1 else i')"
  shows "lo \<le> x \<and> x \<le> length ks \<and> (\<forall>j. lo \<le> j \<and> j < x \<longrightarrow> 0 < cmp key (ks ! j)) \<and>
    (rc' = 0 \<longrightarrow> x < length ks \<and> ks ! x = key) \<and>
    (\<forall>j. (if rc' = 0 then x < j else x \<le> j) \<and> j < length ks \<longrightarrow> cmp key (ks ! j) < 0)"
  using assms(4-10)
proof (induction "\<lambda>i. cmp key (ks ! i)" low high i rc rule: node_search_loop.induct)
  case (1 low high i rc)
  note order = order_from [OF ks]
  show ?case
  proof (cases "int low \<le> high")
    case False
    then have i': "i' = i" "rc' = rc" using "1.prems"(7) by (auto simp: node_search_loop.simps)
    have "x = low" using False "1.prems"(6) x i' by auto
    moreover have "high = int low - 1" "rc' \<noteq> 0" using False "1.prems"(2,6) i' by auto
    ultimately show ?thesis using "1.prems"(1,3-5) by auto
  next
    case True
    define c where "c = (low + nat high) div 2"
    have c: "low \<le> c" "int c \<le> high" using True by (auto simp: c_def)
    then have lc: "lo \<le> c" "c < length ks" using "1.prems"(1,3) by linarith+
    let ?r = "cmp key (ks ! c)"
    have step: "node_search_loop (\<lambda>i. cmp key (ks ! i)) low high i rc =
      (if ?r = 0 then (c, ?r) else if ?r > 0 then node_search_loop (\<lambda>i. cmp key (ks ! i)) (c + 1) high c ?r
       else node_search_loop (\<lambda>i. cmp key (ks ! i)) low (int c - 1) c ?r)"
      using True by (simp add: node_search_loop.simps [of _ low] c_def Let_def)
    consider (eq) "?r = 0" | (gr) "?r > 0" | (le) "?r < 0" by linarith
    then show ?thesis
    proof cases
      case eq
      then have i': "i' = c" "rc' = 0" "x = c" using "1.prems"(7) x by (auto simp: step)
      have kc: "ks ! c = key"
        using eq cmp_zero [OF ks(3) order(5) [OF lc(1) order_refl lc(2)]] by simp
      show ?thesis using i' kc lc order(3) [of _ c] order(4) [of c] by auto
    next
      case gr
      then have r': "node_search_loop (\<lambda>i. cmp key (ks ! i)) (c + 1) high c ?r = (i', rc')"
        using "1.prems"(7) by (simp add: step)
      have below: "0 < cmp key (ks ! j)" if "lo \<le> j" "j < c + 1" for j
        using order(2) [of j c] that lc gr by auto
      show ?thesis
        by (rule "1.hyps"(1) [OF True c_def refl _ gr _ _ _ below _ _ r'])
          (use gr c lc "1.prems"(2,3,5) in auto)
    next
      case le
      then have r': "node_search_loop (\<lambda>i. cmp key (ks ! i)) low (int c - 1) c ?r = (i', rc')"
        using "1.prems"(7) by (simp add: step)
      have above: "cmp key (ks ! j) < 0" if "int c - 1 < int j" "j < length ks" for j
        using order(1) [of c j] that lc le by auto
      show ?thesis
        by (rule "1.hyps"(2) [OF True c_def refl _ _ _ _ _ _ above _ r'])
          (use le c lc "1.prems"(1,3,4) in auto)
    qed
  qed
qed

text \<open>
  In terms of the keys from \<open>lo\<close> on: the index is past those below the key, the flag tells
  whether the key is there.
\<close>

lemma node_search_from:
  assumes ks: "\<forall>k \<in> set (drop lo ks). valid k" "increasing (drop lo ks)" "valid key"
    and lo: "lo < length ks"
    and r: "node_search_loop (\<lambda>i. cmp key (ks ! i)) lo (int (length ks) - 1) 0 0 = (i, rc)"
  shows "(if 0 < rc then i + 1 else i) = lo + length (filter (\<lambda>k. cmp k key < 0) (drop lo ks))"
    and "rc = 0 \<longleftrightarrow> key \<in> set (drop lo ks)"
proof -
  define x where "x = (if 0 < rc then i + 1 else i)"
  have s: "lo \<le> x" "x \<le> length ks" "\<And>j. lo \<le> j \<Longrightarrow> j < x \<Longrightarrow> 0 < cmp key (ks ! j)"
    "rc = 0 \<Longrightarrow> x < length ks \<and> ks ! x = key"
    "\<And>j. (if rc = 0 then x < j else x \<le> j) \<Longrightarrow> j < length ks \<Longrightarrow> cmp key (ks ! j) < 0"
    using node_search_loop_spec [OF ks order_refl _ _ _ _ _ r x_def] lo by auto
  have v: "valid (ks ! j)" if "lo \<le> j" "j < length ks" for j
    using order_from(5) [OF ks that(1) order_refl that(2)] .
  have "filter (\<lambda>k. cmp k key < 0) (take (x - lo) (drop lo ks)) = take (x - lo) (drop lo ks)"
  proof (rule filter_True, rule ballI)
    fix k assume "k \<in> set (take (x - lo) (drop lo ks))"
    then obtain j where "j < x - lo" "k = ks ! (lo + j)" using s(1,2) by (auto simp: in_set_conv_nth)
    then show "cmp k key < 0" using s(1,2) s(3) [of "lo + j"] cmp_pos [OF ks(3) v] by auto
  qed
  moreover have "filter (\<lambda>k. cmp k key < 0) (drop (x - lo) (drop lo ks)) = []"
  proof -
    have "\<not> cmp (ks ! j) key < 0" if j: "x \<le> j" "j < length ks" for j
    proof (cases "rc = 0 \<and> x = j")
      case True
      then show ?thesis using s(4) ks(3) by auto
    next
      case False
      then have "cmp key (ks ! j) < 0" using s(5) [OF _ j(2)] j(1) by auto
      moreover have "lo \<le> j" using s(1) j(1) by simp
      ultimately show ?thesis using cmp_pos [OF ks(3) v [OF _ j(2)]] by auto
    qed
    then show ?thesis using s(1) by (auto simp: filter_empty_conv in_set_conv_nth)
  qed
  ultimately have "length (filter (\<lambda>k. cmp k key < 0) (drop lo ks)) = x - lo"
    using s(1,2) by (metis append.right_neutral append_take_drop_id diff_le_mono filter_append
        length_drop length_take min.absorb2)
  then show "(if 0 < rc then i + 1 else i) = lo + length (filter (\<lambda>k. cmp k key < 0) (drop lo ks))"
    using s(1) by (simp add: x_def)
  show "rc = 0 \<longleftrightarrow> key \<in> set (drop lo ks)"
  proof
    assume "rc = 0"
    then have "drop lo ks ! (x - lo) = key" "x - lo < length (drop lo ks)" using s(1,4) by auto
    then show "key \<in> set (drop lo ks)" by (metis nth_mem)
  next
    assume "key \<in> set (drop lo ks)"
    then obtain j where j: "lo \<le> j" "j < length ks" "ks ! j = key"
      by (auto simp: in_set_conv_nth) (metis le_add1 less_diff_conv add.commute)
    then have "cmp key (ks ! j) = 0" using ks(3) by simp
    then show "rc = 0" using s(3) [OF j(1)] s(5) [of j] j(2) by (cases "j < x"; cases "rc = 0") auto
  qed
qed

end

section \<open>Searching a page\<close>

lemma node_search_eq:
  assumes "\<not> IS_LEAF2 p" and "lo = (if IS_LEAF p then 0 else 1)" and "lo < NUMKEYS p"
    and r: "node_search_loop (\<lambda>i. run_cmp user (node_cmp c p) key (page_keys p ! i)) lo
      (int (NUMKEYS p) - 1) 0 0 = (i, rc)"
    and x: "x = (if 0 < rc then i + 1 else i)"
  shows "mdb_node_search user c pad p key
    = (rc = 0, x, if x < NUMKEYS p then Some (NODEPTR p x) else None)"
proof -
  have "node_search_loop (\<lambda>i. run_cmp user (node_cmp c p) key (NODEKEY (mp_body p) (NODEPTR p i))) lo
      (int (NUMKEYS p) - 1) 0 0 = (i, rc)"
    unfolding r [symmetric] by (rule node_search_loop_cong) (simp add: nth_page_keys)
  then show ?thesis
    using assms(1-3) x by (auto simp: mdb_node_search_def Let_def)
qed

lemma page_keys_short: "k \<in> set (page_keys p) \<Longrightarrow> length k < 2 ^ 16"
  using unsigned_less [of "w :: u16" for w] by (auto simp: page_keys_def NODEKEY_def NODEKSZ_def)

context key_order
begin

lemma node_search_leaf:
  assumes "IS_LEAF p" "\<not> IS_LEAF2 p" and c: "run_cmp user (node_cmp c p) = cmp"
    and ks: "\<forall>k \<in> set (page_keys p). valid k" "increasing (page_keys p)" "valid key"
    and x: "x = length (filter (\<lambda>k. cmp k key < 0) (page_keys p))"
  shows "mdb_node_search user c pad p key
    = (key \<in> set (page_keys p), x, if x < NUMKEYS p then Some (NODEPTR p x) else None)"
proof (cases "NUMKEYS p = 0")
  case True
  then have "page_keys p = []" by (simp add: page_keys_def)
  then show ?thesis using assms(1,2) True
    by (simp add: mdb_node_search_def x node_search_loop.simps Let_def)
next
  case False
  obtain i rc where r: "node_search_loop (\<lambda>i. cmp key (page_keys p ! i)) 0 (int (NUMKEYS p) - 1) 0 0 = (i, rc)"
    by fastforce
  have "(if 0 < rc then i + 1 else i) = x" "rc = 0 \<longleftrightarrow> key \<in> set (page_keys p)"
    using node_search_from [of 0 "page_keys p" key i rc] ks r False x by auto
  then show ?thesis
    using node_search_eq [of p 0 user c key i rc, unfolded c, OF assms(2) _ _ r refl] assms(1) False by auto
qed

lemma node_search_branch:
  assumes "\<not> IS_LEAF p" "\<not> IS_LEAF2 p" "1 < NUMKEYS p" and c: "run_cmp user (node_cmp c p) = cmp"
    and ks: "\<forall>k \<in> set (tl (page_keys p)). valid k" "increasing (tl (page_keys p))" "valid key"
    and x: "x = 1 + length (filter (\<lambda>k. cmp k key < 0) (tl (page_keys p)))"
  shows "mdb_node_search user c pad p key
    = (key \<in> set (tl (page_keys p)), x, if x < NUMKEYS p then Some (NODEPTR p x) else None)"
proof -
  obtain i rc where r: "node_search_loop (\<lambda>i. cmp key (page_keys p ! i)) 1 (int (NUMKEYS p) - 1) 0 0 = (i, rc)"
    by fastforce
  have "(if 0 < rc then i + 1 else i) = x" "rc = 0 \<longleftrightarrow> key \<in> set (tl (page_keys p))"
    using node_search_from [of 1 "page_keys p" key i rc] ks r assms(3) x by (auto simp: drop_Suc)
  then show ?thesis
    using node_search_eq [of p 1 user c key i rc, unfolded c, OF assms(2) _ _ r refl] assms(1,3) by auto
qed

end

lemma memn_increasing:
  "\<forall>k \<in> set ks. length k < 2 ^ 32 \<Longrightarrow> sorted_wrt (<) ks \<Longrightarrow> memn.increasing ks"
  by (induction ks) (auto simp: memn.cmp_less)

lemma set_tl: "k \<in> set (tl ks) \<Longrightarrow> k \<in> set ks"
  by (cases ks) auto

lemma node_cmp_leaf: "IS_LEAF p \<Longrightarrow> \<not> IS_BRANCH p \<Longrightarrow> node_cmp c p = c"
  by (simp add: node_cmp_def)

lemma node_cmp_memn: "node_cmp Cmp_memn p = Cmp_memn"
  by (simp add: node_cmp_def)

lemma filter_memn:
  "\<forall>k \<in> set ks. length k < 2 ^ 32 \<Longrightarrow> length key < 2 ^ 32 \<Longrightarrow>
    filter (\<lambda>k. mdb_cmp_memn k key < 0) ks = filter (\<lambda>k. k < key) ks"
  by (rule filter_cong) (auto simp: memn.cmp_less)

section \<open>Properties\<close>

text \<open>A page with the keys 5 and 9, for the witnesses.\<close>

definition two_keys :: "u16 \<Rightarrow> mdb_page" where
  "two_keys flags = \<lparr>mp_pgno = 7, mp_pad = 0, mp_flags = flags, mp_lower = 20, mp_upper = 80,
     mp_ptrs = (\<lambda>i. if i = 0 then 80 else 90),
     mp_body = (\<lambda>_. 0)(86 := 1, 88 := 5, 96 := 1, 98 := 9)\<rparr>"

lemma two_keys_leaf [simp]: "IS_LEAF (two_keys P_LEAF)" "\<not> IS_LEAF2 (two_keys P_LEAF)"
  "\<not> IS_LEAF (two_keys P_BRANCH)" "\<not> IS_LEAF2 (two_keys P_BRANCH)" "IS_BRANCH (two_keys P_BRANCH)"
  by (simp_all add: two_keys_def IS_LEAF_def IS_LEAF2_def IS_BRANCH_def F_ISSET_def P_LEAF_def P_LEAF2_def P_BRANCH_def)

lemma two_keys_keys [simp]: "NUMKEYS (two_keys flags) = 2" "page_keys (two_keys flags) = [[5], [9]]"
  "NODEPTR (two_keys flags) (Suc 0) = 90"
proof -
  show n: "NUMKEYS (two_keys flags) = 2" by (simp add: NUMKEYS_def two_keys_def PAGEHDRSZ_def PAGEBASE_def)
  show p: "NODEPTR (two_keys flags) (Suc 0) = 90" by (simp add: NODEPTR_def two_keys_def PAGEBASE_def)
  have p0: "NODEPTR (two_keys flags) 0 = 80" by (simp add: NODEPTR_def two_keys_def PAGEBASE_def)
  have k: "NODEKSZ (mp_body (two_keys flags)) 80 = 1" "NODEKSZ (mp_body (two_keys flags)) 90 = 1"
    by (simp_all add: NODEKSZ_def mn_ksize_def rd16_def two_keys_def)
  have "NODEKEY (mp_body (two_keys flags)) 80 = [5]" "NODEKEY (mp_body (two_keys flags)) 90 = [9]"
    by (simp_all add: NODEKEY_def k NODESIZE_def rd_def) (simp_all add: two_keys_def)
  then show "page_keys (two_keys flags) = [[5], [9]]"
    unfolding page_keys_def n by (simp add: numeral_2_eq_2 p p0)
qed

text \<open>
  C29: On a leaf page whose keys are in strictly ascending order, \<open>mdb_node_search\<close> with the
  default comparison stores in the cursor the number of keys below the search key, reports an
  exact match exactly when the key is on the page, and returns the node at that index, or
  NULL when every key is below.
\<close>

theorem node_search_leaf_correct:
  assumes "IS_LEAF p" "\<not> IS_LEAF2 p" "sorted_wrt (<) (page_keys p)" "length key < 2 ^ 32"
  shows "mdb_node_search user Cmp_memn pad p key =
    (let x = length (filter (\<lambda>k. k < key) (page_keys p)) in
     (key \<in> set (page_keys p), x, if x < NUMKEYS p then Some (NODEPTR p x) else None))"
proof -
  have v: "\<forall>k \<in> set (page_keys p). length k < 2 ^ 32" using page_keys_short by fastforce
  show ?thesis
    using memn.node_search_leaf [OF assms(1,2) _ v memn_increasing [OF v assms(3)] assms(4) refl, of user Cmp_memn pad]
    by (simp add: node_cmp_memn filter_memn [OF v assms(4)] Let_def)
qed

theorem node_search_leaf_witness:
  "mdb_node_search (\<lambda>_ _ _. 0) Cmp_memn 0 (two_keys P_LEAF) [7] = (False, 1, Some 90)"
  using node_search_leaf_correct [of "two_keys P_LEAF" "[7]" "\<lambda>_ _ _. 0" 0]
  by (simp add: two_keys_leaf two_keys_keys Let_def)

text \<open>
  C30: On a branch page with at least two nodes whose keys after the first are in strictly
  ascending order, \<open>mdb_node_search\<close> with the default comparison gives the index one past
  the nodes whose key is below the search key, the first node counting as below every key.
\<close>

theorem node_search_branch_correct:
  assumes "\<not> IS_LEAF p" "\<not> IS_LEAF2 p" "1 < NUMKEYS p" "sorted_wrt (<) (tl (page_keys p))"
    "length key < 2 ^ 32"
  shows "mdb_node_search user Cmp_memn pad p key =
    (let x = 1 + length (filter (\<lambda>k. k < key) (tl (page_keys p))) in
     (key \<in> set (tl (page_keys p)), x, if x < NUMKEYS p then Some (NODEPTR p x) else None))"
proof -
  have v: "\<forall>k \<in> set (tl (page_keys p)). length k < 2 ^ 32"
    using page_keys_short set_tl by fastforce
  show ?thesis
    using memn.node_search_branch [OF assms(1-3) _ v memn_increasing [OF v assms(4)] assms(5) refl, of user Cmp_memn pad]
    by (simp add: node_cmp_memn filter_memn [OF v assms(5)] Let_def)
qed

theorem node_search_branch_witness:
  "mdb_node_search (\<lambda>_ _ _. 0) Cmp_memn 0 (two_keys P_BRANCH) [7] = (False, 1, Some 90)"
  using node_search_branch_correct [of "two_keys P_BRANCH" "[7]" "\<lambda>_ _ _. 0" 0]
  by (simp add: two_keys_leaf two_keys_keys Let_def)

text \<open>
  On a branch page of a database of 8-byte integer keys \<open>mdb_node_search\<close> exchanges the
  comparison \<open>mdb_cmp_cint\<close> of the database for the aligned \<open>mdb_cmp_long\<close> and finds the
  place of the key by the little-endian numbers the keys hold.
\<close>

theorem node_search_integer_keys:
  assumes "IS_BRANCH p" "\<not> IS_LEAF p" "\<not> IS_LEAF2 p" "1 < NUMKEYS p"
    "\<forall>k \<in> set (tl (page_keys p)). length k = 8" "sorted_wrt (\<lambda>a b. of_le a < of_le b) (tl (page_keys p))"
    "length key = 8"
  shows "mdb_node_search user Cmp_cint pad p key =
    (let x = 1 + length (filter (\<lambda>k. of_le k < of_le key) (tl (page_keys p))) in
     (key \<in> set (tl (page_keys p)), x, if x < NUMKEYS p then Some (NODEPTR p x) else None))"
proof -
  have "page_keys p ! 1 \<in> set (tl (page_keys p))"
    using assms(4) nth_mem [of 0 "tl (page_keys p)"] by (simp add: nth_tl)
  then have "length (page_keys p ! 1) = 8" using assms(5) by simp
  then have c: "run_cmp user (node_cmp Cmp_cint p) = mdb_cmp_long"
    using assms(1,4) by (simp add: node_cmp_def nth_page_keys NODEKEY_def)
  have "cmp_long.increasing (tl (page_keys p))"
    by (rule sorted_wrt_mono_rel [OF _ assms(6)]) (use assms(5) in \<open>simp add: cmp_long.cmp_less\<close>)
  moreover have "filter (\<lambda>k. mdb_cmp_long k key < 0) (tl (page_keys p))
      = filter (\<lambda>k. of_le k < of_le key) (tl (page_keys p))"
    by (rule filter_cong) (use assms(5,7) in \<open>auto simp: cmp_long.cmp_less\<close>)
  ultimately show ?thesis
    using cmp_long.node_search_branch [OF assms(2-4) c assms(5) _ assms(7) refl, of pad]
    by (simp add: Let_def)
qed

text \<open>A branch page with one separator, the 8-byte number 258.\<close>

definition long_keys :: mdb_page where
  "long_keys = \<lparr>mp_pgno = 7, mp_pad = 0, mp_flags = P_BRANCH, mp_lower = 20, mp_upper = 80,
     mp_ptrs = (\<lambda>i. if i = 0 then 80 else 88),
     mp_body = (\<lambda>_. 0)(94 := 8, 96 := 2, 97 := 1)\<rparr>"

lemma long_keys_simps: "NUMKEYS long_keys = 2" "page_keys long_keys = [[], [2, 1, 0, 0, 0, 0, 0, 0]]"
  "\<not> IS_LEAF long_keys" "\<not> IS_LEAF2 long_keys" "IS_BRANCH long_keys" "NODEPTR long_keys (Suc 0) = 88"
proof -
  show n: "NUMKEYS long_keys = 2" by (simp add: NUMKEYS_def long_keys_def PAGEHDRSZ_def PAGEBASE_def)
  show p: "NODEPTR long_keys (Suc 0) = 88" by (simp add: NODEPTR_def long_keys_def PAGEBASE_def)
  have p0: "NODEPTR long_keys 0 = 80" by (simp add: NODEPTR_def long_keys_def PAGEBASE_def)
  have k: "NODEKSZ (mp_body long_keys) 80 = 0" "NODEKSZ (mp_body long_keys) 88 = 8"
    by (simp_all add: NODEKSZ_def mn_ksize_def rd16_def long_keys_def)
  have "NODEKEY (mp_body long_keys) 80 = []" "NODEKEY (mp_body long_keys) 88 = [2, 1, 0, 0, 0, 0, 0, 0]"
    by (simp_all add: NODEKEY_def k NODESIZE_def rd_def) (simp_all add: long_keys_def)
  then show "page_keys long_keys = [[], [2, 1, 0, 0, 0, 0, 0, 0]]"
    unfolding page_keys_def n by (simp add: numeral_2_eq_2 p p0)
  show "\<not> IS_LEAF long_keys" "\<not> IS_LEAF2 long_keys" "IS_BRANCH long_keys"
    by (simp_all add: long_keys_def IS_LEAF_def IS_LEAF2_def IS_BRANCH_def F_ISSET_def P_LEAF_def
        P_LEAF2_def P_BRANCH_def)
qed

theorem node_search_integer_witness:
  "mdb_node_search (\<lambda>_ _ _. 0) Cmp_cint 0 long_keys [255, 0, 0, 0, 0, 0, 0, 0] = (False, 1, Some 88)"
  using node_search_integer_keys [of long_keys "[255, 0, 0, 0, 0, 0, 0, 0]" "\<lambda>_ _ _. 0" 0]
  by (simp add: long_keys_simps Let_def)

end
