(* ===== verification/State.thy ===== *)
theory State
  imports Midl_Sort Compare Page_Del
begin

text \<open>
  The state of the engine: databases, meta pages, the reader table, cursors, transactions
  and the environment, as the structs of \<open>mdb.c\<close> have them, and the memory they point
  into. Arrays of the code are functions from indices; a pointer to a page is a
  \<open>page_ref\<close>, into the read-only memory map or to a page taken with \<open>malloc\<close>. The model
  is of the configuration the application runs: 64-bit, POSIX semaphores, no sorted
  duplicates, no nested transactions (\<open>mt_parent\<close> and \<open>mt_child\<close> are NULL).
\<close>

section \<open>Databases and meta pages\<close>

record mdb_db =
  md_pad :: u32
  md_flags :: u16
  md_depth :: u16
  md_branch_pages :: u64
  md_leaf_pages :: u64
  md_overflow_pages :: u64
  md_entries :: u64
  md_root :: u64

definition MDB_VALID :: u16 where "MDB_VALID = 0x8000"
definition PERSISTENT_FLAGS :: u16 where "PERSISTENT_FLAGS = 0xffff AND NOT MDB_VALID"
definition FREE_DBI :: nat where "FREE_DBI = 0"
definition MAIN_DBI :: nat where "MAIN_DBI = 1"
definition P_INVALID :: u64 where "P_INVALID = NOT 0"

definition MDB_MAGIC :: u32 where "MDB_MAGIC = 0xBEEFC0DE"
definition MDB_DATA_VERSION :: u32 where "MDB_DATA_VERSION = 1"

text \<open>\<open>mm_dbs\<close> is the pair of the free and the main database.\<close>

record mdb_meta =
  mm_magic :: u32
  mm_version :: u32
  mm_address :: u64
  mm_mapsize :: u64
  mm_dbs :: "mdb_db \<times> mdb_db"
  mm_last_pg :: u64
  mm_txnid :: u64

abbreviation mm_psize :: "mdb_meta \<Rightarrow> u32" where "mm_psize m \<equiv> md_pad (fst (mm_dbs m))"

text \<open>The static information of a database; names are strings, \<open>None\<close> a NULL name.\<close>

record mdb_dbx =
  md_name :: "bytes option"
  md_cmp :: "cmp_func option"
  md_dcmp :: "cmp_func option"

section \<open>The reader table\<close>

record mdb_reader =
  mr_txnid :: u64
  mr_pid :: int
  mr_tid :: u64

record mdb_txninfo =
  mti_txnid :: u64
  mti_numreaders :: nat
  mti_readers :: "nat \<Rightarrow> mdb_reader"

section \<open>Page references and cursors\<close>

datatype page_ref = NullPg | MapPg u64 | HeapPg nat

definition CURSOR_STACK :: nat where "CURSOR_STACK = 32"

definition C_INITIALIZED :: u32 where "C_INITIALIZED = 0x01"
definition C_EOF :: u32 where "C_EOF = 0x02"
definition C_SUB :: u32 where "C_SUB = 0x04"
definition C_DEL :: u32 where "C_DEL = 0x08"
definition C_SPLITTING :: u32 where "C_SPLITTING = 0x20"
definition C_UNTRACK :: u32 where "C_UNTRACK = 0x40"

text \<open>
  The database record and flags a cursor points at (\<open>mc_db\<close>, \<open>mc_dbx\<close>, \<open>mc_dbflag\<close>) are
  the entries \<open>mc_dbi\<close> of the arrays of its transaction.
\<close>

record mdb_cursor =
  mc_dbi :: nat
  mc_snum :: nat
  mc_top :: nat
  mc_flags :: u32
  mc_pg :: "nat \<Rightarrow> page_ref"
  mc_ki :: "nat \<Rightarrow> nat"

section \<open>Transactions\<close>

definition DB_DIRTY :: u8 where "DB_DIRTY = 0x01"
definition DB_STALE :: u8 where "DB_STALE = 0x02"
definition DB_NEW :: u8 where "DB_NEW = 0x04"
definition DB_VALID :: u8 where "DB_VALID = 0x08"

definition MDB_TXN_RDONLY :: u32 where "MDB_TXN_RDONLY = 0x01"
definition MDB_TXN_DIRTY :: u32 where "MDB_TXN_DIRTY = 0x04"
definition MDB_TXN_SPILLS :: u32 where "MDB_TXN_SPILLS = 0x08"

text \<open>
  \<open>mt_dirty_list\<close> and \<open>mt_reader\<close> (a slot of the reader table) are the two cases of the
  union \<open>mt_u\<close>; the loose pages, linked through the pages themselves, are a list; \<open>mt_dbxs\<close>
  tells whether the pointer is set; \<open>mt_cursors\<close> gives the tracked cursors of a database,
  the head of the linked list first, by their address in the cursor store.
\<close>

record mdb_txn =
  mt_next_pgno :: u64
  mt_txnid :: u64
  mt_free_pgs :: midl
  mt_loose_pgs :: "page_ref list"
  mt_loose_count :: int
  mt_spill_pgs :: "midl option"
  mt_dirty_list :: "page_ref id2l"
  mt_reader :: "nat option"
  mt_dbxs :: bool
  mt_dbs :: "nat \<Rightarrow> mdb_db"
  mt_dbiseqs :: "nat \<Rightarrow> u32"
  mt_cursors :: "nat \<Rightarrow> nat list"
  mt_dbflags :: "nat \<Rightarrow> u8"
  mt_numdbs :: nat
  mt_flags :: u32
  mt_dirty_room :: nat

section \<open>The environment\<close>

definition MDB_FATAL_ERROR :: u32 where "MDB_FATAL_ERROR = 0x80000000"
definition MDB_ENV_ACTIVE :: u32 where "MDB_ENV_ACTIVE = 0x20000000"
definition MDB_NOSYNC :: u32 where "MDB_NOSYNC = 0x10000"
definition MDB_RDONLY :: u32 where "MDB_RDONLY = 0x20000"
definition MDB_NOMETASYNC :: u32 where "MDB_NOMETASYNC = 0x40000"
definition MDB_WRITEMAP :: u32 where "MDB_WRITEMAP = 0x80000"
definition MDB_MAPASYNC :: u32 where "MDB_MAPASYNC = 0x100000"
definition MDB_NOTLS :: u32 where "MDB_NOTLS = 0x200000"
definition MDB_NOMEMINIT :: u32 where "MDB_NOMEMINIT = 0x1000000"

text \<open>
  \<open>me_txns\<close> is \<open>None\<close> for NULL (no lock file); \<open>me_txn\<close> tells whether a write transaction
  is current; \<open>me_txn0\<close> is the struct every write transaction uses, as the last one left it;
  \<open>me_rlocked\<close> and \<open>me_wlocked\<close> are the two mutexes.
\<close>

record mdb_env =
  me_flags :: u32
  me_psize :: nat
  me_os_psize :: nat
  me_maxreaders :: nat
  me_numreaders :: nat
  me_numdbs :: nat
  me_maxdbs :: nat
  me_pid :: int
  me_txns :: "mdb_txninfo option"
  me_metas :: "nat \<Rightarrow> mdb_meta"
  me_txn :: bool
  me_txn0 :: mdb_txn
  me_mapsize :: u64
  me_maxpg :: u64
  me_dbxs :: "nat \<Rightarrow> mdb_dbx"
  me_dbflags :: "nat \<Rightarrow> u16"
  me_dbiseqs :: "nat \<Rightarrow> u32"
  me_txkey :: "nat option"
  me_pgoldest :: u64
  me_pglast :: u64
  me_pghead :: "midl option"
  me_dpages :: "nat list"
  me_free_pgs :: midl
  me_dirty_list :: "page_ref id2l"
  me_maxfree_1pg :: nat
  me_nodemax :: nat
  me_live_reader :: bool
  me_rlocked :: bool
  me_wlocked :: bool

section \<open>Writes to the file\<close>

text \<open>
  What \<open>pwrite\<close> may do: report that \<open>n\<close> bytes were written, or fail with an error number
  after \<open>n\<close> bytes reached the file.
\<close>

datatype write_result = Wrote nat | Write_failed int nat

fun reached :: "write_result \<Rightarrow> nat" where
  "reached (Wrote n) = n"
| "reached (Write_failed e n) = n"

section \<open>The whole state\<close>

text \<open>
  The memory: pages of the map (the data file, by page number), pages taken with
  \<open>malloc\<close> by address with the next fresh address, and the cursors by address, also with
  the next fresh one (a cursor on the stack of a function is a fresh cursor). A page that
  was freed is \<open>None\<close>; using it is an error the model shows as \<open>None\<close>. \<open>st_user\<close> are the
  comparisons the application set. What the C library and the system decide is given
  beforehand: \<open>st_raw\<close> are the contents fresh memory happens to have; the call number
  \<open>st_clock\<close> is an allocation that succeeds if \<open>st_oracle\<close> says so, a write of so many bytes
  with the result \<open>st_write\<close>, or a seek or sync with the error number \<open>st_sync\<close>.
  \<open>st_torn old new n\<close> is what a page is when only the first \<open>n\<close> bytes of a write of it
  reached the file. A large page is one page of the map, at its first number.
\<close>

record mdb_state =
  st_env :: mdb_env
  st_txn :: mdb_txn
  st_map :: "u64 \<Rightarrow> mdb_page"
  st_heap :: "nat \<Rightarrow> mdb_page option"
  st_fresh :: nat
  st_cursors :: "nat \<Rightarrow> mdb_cursor"
  st_cfresh :: nat
  st_user :: "nat \<Rightarrow> bytes \<Rightarrow> bytes \<Rightarrow> int"
  st_raw :: "nat \<Rightarrow> mdb_page"
  st_oracle :: "nat \<Rightarrow> bool"
  st_write :: "nat \<Rightarrow> nat \<Rightarrow> write_result"
  st_torn :: "mdb_page \<Rightarrow> mdb_page \<Rightarrow> nat \<Rightarrow> mdb_page"
  st_sync :: "nat \<Rightarrow> int"
  st_clock :: nat

text \<open>Reading and writing a page through its pointer; the map is read-only.\<close>

fun page_at :: "mdb_state \<Rightarrow> page_ref \<Rightarrow> mdb_page option" where
  "page_at s NullPg = None"
| "page_at s (MapPg pg) = Some (st_map s pg)"
| "page_at s (HeapPg a) = st_heap s a"

fun set_page :: "mdb_state \<Rightarrow> page_ref \<Rightarrow> mdb_page \<Rightarrow> mdb_state option" where
  "set_page s NullPg p = None"
| "set_page s (MapPg pg) p =
     (if any_set (me_flags (st_env s)) MDB_WRITEMAP then Some (s\<lparr>st_map := (st_map s)(pg := p)\<rparr>) else None)"
| "set_page s (HeapPg a) p =
     (case st_heap s a of None \<Rightarrow> None | Some _ \<Rightarrow> Some (s\<lparr>st_heap := (st_heap s)(a := Some p)\<rparr>))"

abbreviation map_env :: "(mdb_env \<Rightarrow> mdb_env) \<Rightarrow> mdb_state \<Rightarrow> mdb_state" where
  "map_env f s \<equiv> s\<lparr>st_env := f (st_env s)\<rparr>"

abbreviation map_txn :: "(mdb_txn \<Rightarrow> mdb_txn) \<Rightarrow> mdb_state \<Rightarrow> mdb_state" where
  "map_txn f s \<equiv> s\<lparr>st_txn := f (st_txn s)\<rparr>"

abbreviation set_mt_flag :: "u32 \<Rightarrow> mdb_state \<Rightarrow> mdb_state" where
  "set_mt_flag fl s \<equiv> map_txn (\<lambda>t. t\<lparr>mt_flags := mt_flags t OR fl\<rparr>) s"

lemma set_page_heap [simp]:
  "st_heap s a = Some q \<Longrightarrow> set_page s (HeapPg a) p = Some (s\<lparr>st_heap := (st_heap s)(a := Some p)\<rparr>)"
  by simp

lemma page_at_set_page:
  assumes "set_page s r p = Some s'"
  shows "page_at s' r' = (if r' = r then Some p else page_at s r')"
  using assms by (cases r; cases r') (auto split: if_splits option.splits)

lemma set_page_env_txn:
  assumes "set_page s r p = Some s'"
  shows "st_env s' = st_env s" "st_txn s' = st_txn s" "st_cursors s' = st_cursors s" "st_fresh s' = st_fresh s"
  using assms by (cases r; auto split: if_splits option.splits)+

end
