(* ===== verification/Meta.thy ===== *)
theory Meta
  imports State
begin

text \<open>
  The two meta pages, of which the newer one is the root of the database:
  \<open>mdb_env_read_header\<close>, \<open>mdb_env_init_meta\<close>, \<open>mdb_env_write_meta\<close> and
  \<open>mdb_env_pick_meta\<close>. A commit writes the meta page of the older transaction; what reaches
  the file of a write that fails or is cut off is a prefix of its bytes, so the model writes
  the bytes of the struct in their order.
\<close>

section \<open>The bytes of a meta page\<close>

definition db_bytes :: "mdb_db \<Rightarrow> bytes" where
  "db_bytes d = le_bytes 4 (unat (md_pad d)) @ le_bytes 2 (unat (md_flags d)) @ le_bytes 2 (unat (md_depth d))
     @ u64_bytes (md_branch_pages d) @ u64_bytes (md_leaf_pages d) @ u64_bytes (md_overflow_pages d)
     @ u64_bytes (md_entries d) @ u64_bytes (md_root d)"

definition bytes_db :: "bytes \<Rightarrow> mdb_db" where
  "bytes_db bs = \<lparr>md_pad = word_of_nat (of_le (take 4 bs)), md_flags = word_of_nat (of_le (take 2 (drop 4 bs))),
     md_depth = word_of_nat (of_le (take 2 (drop 6 bs))), md_branch_pages = bytes_u64 (take 8 (drop 8 bs)),
     md_leaf_pages = bytes_u64 (take 8 (drop 16 bs)), md_overflow_pages = bytes_u64 (take 8 (drop 24 bs)),
     md_entries = bytes_u64 (take 8 (drop 32 bs)), md_root = bytes_u64 (take 8 (drop 40 bs))\<rparr>"

text \<open>The struct from \<open>mm_mapsize\<close> on: the part a commit writes.\<close>

definition meta_tail :: "mdb_meta \<Rightarrow> bytes" where
  "meta_tail m = u64_bytes (mm_mapsize m) @ db_bytes (fst (mm_dbs m)) @ db_bytes (snd (mm_dbs m))
     @ u64_bytes (mm_last_pg m) @ u64_bytes (mm_txnid m)"

definition set_meta_tail :: "bytes \<Rightarrow> mdb_meta \<Rightarrow> mdb_meta" where
  "set_meta_tail bs m = m\<lparr>mm_mapsize := bytes_u64 (take 8 bs),
     mm_dbs := (bytes_db (take 48 (drop 8 bs)), bytes_db (take 48 (drop 56 bs))),
     mm_last_pg := bytes_u64 (take 8 (drop 104 bs)), mm_txnid := bytes_u64 (take 8 (drop 112 bs))\<rparr>"

text \<open>The first \<open>n\<close> bytes of \<open>bs\<close> reach the page.\<close>

definition write_prefix :: "nat \<Rightarrow> bytes \<Rightarrow> mdb_meta \<Rightarrow> mdb_meta" where
  "write_prefix n bs m = set_meta_tail (take n bs @ drop n (meta_tail m)) m"

section \<open>Choosing the meta page\<close>

definition mdb_env_pick_meta :: "mdb_env \<Rightarrow> nat" where
  "mdb_env_pick_meta env = (if mm_txnid (me_metas env 0) < mm_txnid (me_metas env 1) then 1 else 0)"

section \<open>Reading the header of a database file\<close>

text \<open>
  \<open>pread\<close> of a meta page at an offset: an error, fewer bytes than asked for, or the flags
  of the page and its meta struct.
\<close>

datatype read_result = Read_failed int | Read_short nat | Read_meta u16 mdb_meta

fun read_header_loop :: "(nat \<Rightarrow> read_result) \<Rightarrow> nat \<Rightarrow> nat \<Rightarrow> mdb_meta option \<Rightarrow> mdb_err + mdb_meta option" where
  "read_header_loop pread 0 off meta = Inr meta"
| "read_header_loop pread (Suc i) off meta =
     (case pread off of
        Read_failed e \<Rightarrow> Inl (Errno e)
      | Read_short n \<Rightarrow> Inl (if n = 0 \<and> off = 0 then ENOENT else MDB_INVALID)
      | Read_meta flags m \<Rightarrow>
          if \<not> F_ISSET flags P_META then Inl MDB_INVALID
          else if mm_magic m \<noteq> MDB_MAGIC then Inl MDB_INVALID
          else if mm_version m \<noteq> MDB_DATA_VERSION then Inl MDB_VERSION_MISMATCH
          else
            (let meta = (case meta of None \<Rightarrow> m
                         | Some m0 \<Rightarrow> if off = 0 \<or> mm_txnid m > mm_txnid m0 then m else m0)
             in read_header_loop pread i (unat (mm_psize meta)) (Some meta)))"

definition mdb_env_read_header :: "(nat \<Rightarrow> read_result) \<Rightarrow> mdb_err + mdb_meta option" where
  "mdb_env_read_header pread = read_header_loop pread 2 0 None"

section \<open>A new database\<close>

definition mdb_env_init_meta0 :: "mdb_env \<Rightarrow> mdb_meta \<Rightarrow> mdb_meta" where
  "mdb_env_init_meta0 env meta =
     (let (d0, d1) = mm_dbs meta;
          d0 = d0\<lparr>md_pad := word_of_nat (me_psize env)\<rparr>;
          d0 = d0\<lparr>md_flags := ucast (me_flags env AND 0xffff)\<rparr>;
          d0 = d0\<lparr>md_flags := md_flags d0 OR MDB_INTEGERKEY\<rparr>
      in meta\<lparr>mm_magic := MDB_MAGIC, mm_version := MDB_DATA_VERSION, mm_mapsize := me_mapsize env,
              mm_last_pg := 1,
              mm_dbs := (d0\<lparr>md_root := P_INVALID\<rparr>, d1\<lparr>md_root := P_INVALID\<rparr>)\<rparr>)"

text \<open>
  Both meta pages go to the file in one write of \<open>2 * psize\<close> bytes. \<open>mem\<close> is whether \<open>calloc\<close>
  gives the memory for them: the code writes to it without a test, so without memory it uses a
  NULL pointer (\<open>None\<close>). The result is the caller's meta struct, the file's pages when the write
  is complete, and the return code; the flags of both pages are \<open>P_META\<close>.
\<close>

definition mdb_env_init_meta ::
  "bool \<Rightarrow> (nat \<Rightarrow> write_result) \<Rightarrow> mdb_env \<Rightarrow> mdb_meta \<Rightarrow> (mdb_meta \<times> (mdb_err + (nat \<Rightarrow> read_result))) option" where
  "mdb_env_init_meta mem pwrite env meta =
     (let psize = me_psize env;
          meta = mdb_env_init_meta0 env meta
      in if \<not> mem then None
         else Some (meta, case pwrite (psize * 2) of
           Write_failed e n \<Rightarrow> Inl (Errno e)
         | Wrote n \<Rightarrow>
             if n = psize * 2
             then Inr (\<lambda>off. if off = 0 \<or> off = psize then Read_meta P_META meta else Read_short 0)
             else Inl ENOSPC))"

section \<open>Committing a meta page\<close>

definition meta_of_txn :: "u64 \<Rightarrow> mdb_txn \<Rightarrow> mdb_meta \<Rightarrow> mdb_meta" where
  "meta_of_txn mapsize txn m =
     m\<lparr>mm_mapsize := mapsize, mm_dbs := (mt_dbs txn 0, mt_dbs txn 1),
       mm_last_pg := mt_next_pgno txn - 1, mm_txnid := mt_txnid txn\<rparr>"

text \<open>
  \<open>pwrite n sync bs off\<close> is the write to the file, the first (\<open>n = 0\<close>) or the second of
  the call, through the descriptor opened with \<open>O_DSYNC\<close> or not; \<open>msync off len async\<close> gives 0 or an error number. The record of the
  last transaction in the lock file is updated last.
\<close>

definition mdb_env_write_meta ::
  "(nat \<Rightarrow> bool \<Rightarrow> bytes \<Rightarrow> nat \<Rightarrow> write_result) \<Rightarrow> (nat \<Rightarrow> nat \<Rightarrow> bool \<Rightarrow> int) \<Rightarrow> mdb_env \<Rightarrow> mdb_txn
   \<Rightarrow> mdb_env \<times> (mdb_err + unit)" where
  "mdb_env_write_meta pwrite msync env txn =
     (let toggle = unat (mt_txnid txn AND 1);
          mp = me_metas env toggle;
          mapsize = mm_mapsize (me_metas env (1 - toggle));
          mapsize = (if mapsize < me_mapsize env then me_mapsize env else mapsize);
          new = meta_of_txn mapsize txn mp;
          fail = (\<lambda>env rc. (env\<lparr>me_flags := me_flags env OR MDB_FATAL_ERROR\<rparr>, Inl rc));
          done = (\<lambda>env. (case me_txns env of None \<Rightarrow> env
                         | Some ti \<Rightarrow> env\<lparr>me_txns := Some (ti\<lparr>mti_txnid := mt_txnid txn\<rparr>)\<rparr>, Inr ()))
      in
      if any_set (me_flags env) MDB_WRITEMAP then
        (let env = env\<lparr>me_metas := (me_metas env)(toggle := new)\<rparr>;
             async = any_set (me_flags env) MDB_MAPASYNC;
             (ptr, meta_size) =
               (if toggle \<noteq> 0 then
                  (if me_psize env < me_os_psize env then (0, me_psize env + me_psize env)
                   else (me_psize env, me_psize env))
                else (0, me_psize env));
             rc = (if any_set (me_flags env) (MDB_NOMETASYNC OR MDB_NOSYNC) then 0
                   else msync ptr meta_size async)
         in if rc \<noteq> 0 then fail env (Errno rc) else done env)
      else
        (let off = (if toggle \<noteq> 0 then me_psize env else 0) + 16 + PAGEHDRSZ;
             sync = (\<not> any_set (me_flags env) (MDB_NOSYNC OR MDB_NOMETASYNC));
             res = pwrite 0 sync (meta_tail new) off;
             env = env\<lparr>me_metas := (me_metas env)(toggle := write_prefix (reached res) (meta_tail new) mp)\<rparr>
         in if res = Wrote (length (meta_tail new)) then done env
            else
              (let rc = (case res of Wrote n \<Rightarrow> EIO | Write_failed e n \<Rightarrow> Errno e);
                   old = new\<lparr>mm_last_pg := mm_last_pg mp, mm_txnid := mm_txnid mp\<rparr>;
                   res2 = pwrite 1 False (meta_tail old) off;
                   env = env\<lparr>me_metas := (me_metas env)(toggle :=
                     write_prefix (reached res2) (meta_tail old) (me_metas env toggle))\<rparr>
               in fail env rc)))"

section \<open>Encoding and decoding\<close>

lemma length_db_bytes [simp]: "length (db_bytes d) = 48"
  by (simp add: db_bytes_def)

lemma length_meta_tail [simp]: "length (meta_tail m) = 120"
  by (simp add: meta_tail_def)

lemma word_le_bytes:
  fixes w :: "'a::len word"
  assumes "256 ^ n = (2 :: nat) ^ LENGTH('a)"
  shows "word_of_nat (of_le (le_bytes n (unat w))) = w"
  using unsigned_less [of w] assms by (simp add: of_le_le_bytes)

lemma bytes_db_bytes [simp]: "bytes_db (db_bytes d) = d"
  by (cases d) (simp add: bytes_db_def db_bytes_def word_le_bytes)

lemma meta_tail_parts:
  assumes "bs = meta_tail m"
  shows "take 8 bs = u64_bytes (mm_mapsize m)" "take 48 (drop 8 bs) = db_bytes (fst (mm_dbs m))"
    "take 48 (drop 56 bs) = db_bytes (snd (mm_dbs m))" "take 8 (drop 104 bs) = u64_bytes (mm_last_pg m)"
    "take 8 (drop 112 bs) = u64_bytes (mm_txnid m)"
    "drop 112 bs = u64_bytes (mm_txnid m)"
  by (simp_all add: assms meta_tail_def)

lemma set_meta_tail_all:
  "set_meta_tail (meta_tail m) m0 = m0\<lparr>mm_mapsize := mm_mapsize m, mm_dbs := mm_dbs m,
     mm_last_pg := mm_last_pg m, mm_txnid := mm_txnid m\<rparr>"
  by (simp add: set_meta_tail_def meta_tail_parts)

lemma set_meta_tail_txn [simp]: "set_meta_tail (meta_tail (meta_of_txn ms txn m)) m = meta_of_txn ms txn m"
  by (cases m) (simp add: set_meta_tail_all meta_of_txn_def)

lemma write_prefix_all: "120 \<le> n \<Longrightarrow> write_prefix n (meta_tail m) m0 = set_meta_tail (meta_tail m) m0"
  by (simp add: write_prefix_def)

section \<open>Torn writes\<close>

text \<open>A number of which the low \<open>k\<close> bytes are new and the others old.\<close>

lemma of_le_take_drop: "of_le (take k bs) = of_le bs mod 256 ^ k \<and> of_le (drop k bs) = of_le bs div 256 ^ k"
  if "k \<le> length bs"
proof -
  have "of_le bs = of_le (take k bs) + 256 ^ k * of_le (drop k bs)"
    using of_le_append [of "take k bs" "drop k bs"] that by simp
  moreover have "of_le (take k bs) < 256 ^ k"
    using of_le_bound [of "take k bs"] that by simp
  ultimately show ?thesis by simp
qed

lemma of_le_u64_bytes: "of_le (u64_bytes w) = unat w"
proof -
  have "unat w < 256 ^ 8" using unsigned_less [of w] by simp
  then show ?thesis by (simp add: u64_bytes_def of_le_le_bytes)
qed

lemma torn_value:
  fixes old new :: u64
  assumes "k \<le> 8"
  shows "of_le (take k (u64_bytes new) @ drop k (u64_bytes old))
    = unat new mod 256 ^ k + 256 ^ k * (unat old div 256 ^ k)"
proof -
  have "length (take k (u64_bytes new)) = k" using assms by simp
  then show ?thesis
    using of_le_take_drop [of k "u64_bytes new"] of_le_take_drop [of k "u64_bytes old"] assms
    by (simp only: of_le_append of_le_u64_bytes length_u64_bytes)
qed

lemma torn_number:
  fixes old new :: u64
  assumes "old < new" "k \<le> 8"
  defines "v \<equiv> bytes_u64 (take k (u64_bytes new) @ drop k (u64_bytes old))"
  shows "v = new \<or> v < new" and "0 < k \<Longrightarrow> even (unat v) \<longleftrightarrow> even (unat new)"
proof -
  let ?b = "256 ^ k :: nat"
  define N and M where "N = unat new" and "M = unat old"
  have lt: "M < N" using assms(1) by (simp add: N_def M_def word_less_nat_alt)
  have le: "N mod ?b + ?b * (M div ?b) \<le> N"
    using lt by (metis add.commute add_left_mono div_le_mono less_imp_le mult_le_mono2 mult_div_mod_eq)
  have v: "v = word_of_nat (N mod ?b + ?b * (M div ?b))"
    by (simp only: v_def bytes_u64_def torn_value [OF assms(2)] N_def M_def)
  have N: "N < 2 ^ 64" using unsigned_less [of new] by (simp add: N_def)
  define V where "V = N mod ?b + ?b * (M div ?b)"
  have "V < 2 ^ 64" using N le by (simp only: V_def)
  then have u: "unat v = N mod ?b + ?b * (M div ?b)"
    unfolding v V_def [symmetric] by (simp add: unat_of_nat)
  then have "unat v \<le> unat new" using le by (simp add: N_def)
  then have "v \<le> new" by (simp add: word_le_nat_alt)
  then show "v = new \<or> v < new" by (simp add: order_le_less disj_commute)
  assume "0 < k"
  then have "even ?b" by simp
  then show "even (unat v) \<longleftrightarrow> even (unat new)"
    unfolding u N_def [symmetric] by (metis dvd_add_left_iff dvd_mult2 dvd_mod_iff)
qed

text \<open>The transaction ID of a page after \<open>n\<close> bytes of a commit reached it.\<close>

lemma mm_txnid_prefix:
  "mm_txnid (write_prefix n (meta_tail new) m)
    = bytes_u64 (take (n - 112) (u64_bytes (mm_txnid new)) @ drop (n - 112) (u64_bytes (mm_txnid m)))"
proof -
  have "drop 112 (take n (meta_tail new) @ drop n (meta_tail m))
      = take (n - 112) (drop 112 (meta_tail new)) @ drop (n - 112) (drop 112 (meta_tail m))"
  proof (cases "n \<le> 112")
    case True
    then show ?thesis by (simp add: min_def)
  next
    case False
    then show ?thesis by (cases "n \<le> 120") (auto simp: min_def drop_take)
  qed
  moreover have "take 8 (take (n - 112) (u64_bytes (mm_txnid new)) @ drop (n - 112) (u64_bytes (mm_txnid m)))
      = take (n - 112) (u64_bytes (mm_txnid new)) @ drop (n - 112) (u64_bytes (mm_txnid m))"
    by (simp add: min_def)
  moreover have "mm_txnid (set_meta_tail bs m) = bytes_u64 (take 8 (drop 112 bs))" for bs
    by (simp add: set_meta_tail_def)
  ultimately show ?thesis by (simp only: write_prefix_def meta_tail_parts(6) [OF refl])
qed

lemma prefix_dbs:
  assumes "104 \<le> n"
  shows "mm_dbs (write_prefix n (meta_tail new) m) = mm_dbs new"
    and "mm_mapsize (write_prefix n (meta_tail new) m) = mm_mapsize new"
    and "112 \<le> n \<Longrightarrow> mm_last_pg (write_prefix n (meta_tail new) m) = mm_last_pg new"
proof -
  have "take k (drop j (take n (meta_tail new) @ drop n (meta_tail m))) = take k (drop j (meta_tail new))"
    if "j + k \<le> n" "j + k \<le> 120" for j k
    using that by (intro nth_equalityI) (auto simp: nth_append)
  from this [of 0 8] this [of 8 48] this [of 56 48] this [of 104 8]
  show "mm_dbs (write_prefix n (meta_tail new) m) = mm_dbs new"
    and "mm_mapsize (write_prefix n (meta_tail new) m) = mm_mapsize new"
    and "112 \<le> n \<Longrightarrow> mm_last_pg (write_prefix n (meta_tail new) m) = mm_last_pg new"
    using assms by (auto simp: write_prefix_def set_meta_tail_def meta_tail_parts prod_eq_iff)
qed

lemma write_prefix_untouched [simp]:
  "mm_magic (write_prefix n bs m) = mm_magic m" "mm_version (write_prefix n bs m) = mm_version m"
  "mm_address (write_prefix n bs m) = mm_address m"
  by (simp_all add: write_prefix_def set_meta_tail_def)

section \<open>The pair of meta pages\<close>

text \<open>
  The newer page is the one whose index is the parity of its transaction; only a new
  database has two pages of the same transaction, number 0.
\<close>

definition pick :: "(nat \<Rightarrow> mdb_meta) \<Rightarrow> nat" where
  "pick ms = (if mm_txnid (ms 0) < mm_txnid (ms 1) then 1 else 0)"

definition metas_ok :: "(nat \<Rightarrow> mdb_meta) \<Rightarrow> bool" where
  "metas_ok ms \<longleftrightarrow> unat (mm_txnid (ms (pick ms))) mod 2 = pick ms
     \<and> (mm_txnid (ms (1 - pick ms)) < mm_txnid (ms (pick ms)) \<or> mm_txnid (ms 0) = 0 \<and> mm_txnid (ms 1) = 0)"

lemma pick_meta_env: "mdb_env_pick_meta env = pick (me_metas env)"
  by (simp add: mdb_env_pick_meta_def pick_def)

lemma and_1_mod: "unat (w AND 1 :: u64) = unat w mod 2"
  by (simp add: and_one_eq unat_mod)

lemma next_toggle:
  assumes "metas_ok ms" "mt = mm_txnid (ms (pick ms)) + 1" "mt \<noteq> 0"
  shows "unat (mt AND 1) = 1 - pick ms" "mm_txnid (ms (1 - pick ms)) < mt"
    "unat mt = Suc (unat (mm_txnid (ms (pick ms))))" "pick ms \<le> 1"
proof -
  show p: "pick ms \<le> 1" by (simp add: pick_def)
  show u: "unat mt = Suc (unat (mm_txnid (ms (pick ms))))"
    using assms(2,3) by (metis Suc_eq_plus1 unatSuc add.commute)
  show "unat (mt AND 1) = 1 - pick ms"
  proof -
    have "unat (mm_txnid (ms (pick ms))) mod 2 = pick ms" using assms(1) by (simp add: metas_ok_def)
    then show ?thesis using p unfolding and_1_mod u by presburger
  qed
  have "mm_txnid (ms (1 - pick ms)) \<le> mm_txnid (ms (pick ms))"
    using assms(1) by (auto simp: metas_ok_def pick_def)
  then show "mm_txnid (ms (1 - pick ms)) < mt"
    using u by (simp add: word_less_nat_alt word_le_nat_alt)
qed

text \<open>
  The two pages after a page with transaction ID \<open>v\<close> replaced the older one: a \<open>v\<close> of the
  new parity or below the current transaction.
\<close>

lemma pick_after:
  assumes ok: "metas_ok ms" and mt: "mt = mm_txnid (ms (pick ms)) + 1" "mt \<noteq> 0"
    and v: "mm_txnid m = v" "v \<le> mt" "v \<noteq> mt \<longrightarrow> v < mt \<and> (even (unat v) \<longleftrightarrow> even (unat mt)) \<or> v = mm_txnid (ms (1 - pick ms))"
  shows "if v = mt then pick (ms(1 - pick ms := m)) = 1 - pick ms \<and> metas_ok (ms(1 - pick ms := m))
    else pick (ms(1 - pick ms := m)) = pick ms"
proof -
  define p where "p = pick ms"
  note n = next_toggle [OF ok mt, folded p_def]
  have cur: "mm_txnid (ms p) < mt" using n(3) by (simp add: word_less_nat_alt p_def)
  have p01: "p = 0 \<or> p = 1" using n(4) by linarith
  have odd: "unat (mm_txnid (ms p)) mod 2 = p" using ok by (simp add: metas_ok_def p_def)
  show ?thesis
    unfolding p_def [symmetric]
  proof (cases "v = mt")
    case True
    have p': "pick (ms(1 - p := m)) = 1 - p"
      using p01 cur v(1) True by (auto simp: pick_def)
    have "unat mt mod 2 = 1 - p" using odd p01 unfolding n(3) by (auto simp: p_def [symmetric] mod_Suc)
    then have "metas_ok (ms(1 - p := m))"
      unfolding metas_ok_def p' using p01 cur v(1) True by auto
    then show "if v = mt then pick (ms(1 - p := m)) = 1 - p \<and> metas_ok (ms(1 - p := m))
        else pick (ms(1 - p := m)) = p" using p' True by simp
  next
    case False
    then have "unat v < unat mt" using v(2) by (simp add: word_less_nat_alt [symmetric])
    then have le: "v \<le> mm_txnid (ms p)" using n(3) by (simp add: word_le_nat_alt p_def)
    have "v < mm_txnid (ms p)" if p1: "p = 1"
    proof -
      have "mm_txnid (ms 0) < mm_txnid (ms 1)"
      proof (rule ccontr)
        assume "\<not> mm_txnid (ms 0) < mm_txnid (ms 1)"
        then have "pick ms = 0" by (simp only: pick_def if_False)
        then show False using p1 p_def by linarith
      qed
      then have old: "mm_txnid (ms (1 - p)) < mm_txnid (ms p)" using p1 by simp
      have "odd (unat (mm_txnid (ms p)))" using trans [OF odd p1] by (simp only: odd_iff_mod_2_eq_one)
      moreover have "even (unat mt)" unfolding n(3) p_def [symmetric] using calculation by simp
      moreover have "v < mt \<and> (even (unat v) \<longleftrightarrow> even (unat mt)) \<or> v = mm_txnid (ms (1 - p))"
        using v(3) False by (simp add: p_def)
      ultimately have "v \<noteq> mm_txnid (ms p)" using old by (metis order_less_irrefl)
      then show "v < mm_txnid (ms p)" using le by simp
    qed
    then have "pick (ms(1 - p := m)) = p"
      using p01 v(1) le by (auto simp: pick_def)
    then show "if v = mt then pick (ms(1 - p := m)) = 1 - p \<and> metas_ok (ms(1 - p := m))
        else pick (ms(1 - p := m)) = p" using False by simp
  qed
qed

lemma txnid_prefix_cases:
  fixes m new :: mdb_meta and n :: nat
  assumes "mm_txnid m < mm_txnid new"
  defines "v \<equiv> mm_txnid (write_prefix n (meta_tail new) m)"
  shows "v \<le> mm_txnid new"
    "v \<noteq> mm_txnid new \<longrightarrow> v < mm_txnid new \<and> (even (unat v) \<longleftrightarrow> even (unat (mm_txnid new))) \<or> v = mm_txnid m"
    "v = mm_txnid new \<longrightarrow> 112 < n"
proof -
  define k where "k = min 8 (n - 112)"
  have v: "v = bytes_u64 (take k (u64_bytes (mm_txnid new)) @ drop k (u64_bytes (mm_txnid m)))"
    unfolding v_def mm_txnid_prefix by (simp add: k_def min_def)
  have k: "k \<le> 8" by (simp add: k_def)
  note t = torn_number [OF assms(1) k, folded v]
  show "v \<le> mm_txnid new" using t(1) by auto
  have z: "k = 0 \<Longrightarrow> v = mm_txnid m" by (simp add: v)
  show "v \<noteq> mm_txnid new \<longrightarrow> v < mm_txnid new \<and> (even (unat v) \<longleftrightarrow> even (unat (mm_txnid new))) \<or> v = mm_txnid m"
    using t z by (cases "k = 0") auto
  show "v = mm_txnid new \<longrightarrow> 112 < n" using z assms(1) by (cases "k = 0") (auto simp: k_def)
qed

lemma meta_tail_eqI:
  "mm_mapsize a = mm_mapsize b \<Longrightarrow> mm_dbs a = mm_dbs b \<Longrightarrow> mm_last_pg a = mm_last_pg b \<Longrightarrow>
    mm_txnid a = mm_txnid b \<Longrightarrow> meta_tail a = meta_tail b"
  by (simp add: meta_tail_def)

lemma torn_commit:
  assumes ok: "metas_ok ms" and mt: "mm_txnid new = mm_txnid (ms (pick ms)) + 1" "mm_txnid new \<noteq> 0"
    and ms': "ms' = ms(1 - pick ms := write_prefix n (meta_tail new) (ms (1 - pick ms)))"
  shows "ms' (pick ms') = ms (pick ms) \<or>
    112 < n \<and> pick ms' = 1 - pick ms \<and> meta_tail (ms' (pick ms')) = meta_tail new \<and> metas_ok ms'"
proof -
  let ?m = "write_prefix n (meta_tail new) (ms (1 - pick ms))"
  note n = next_toggle [OF ok mt]
  note t = txnid_prefix_cases [OF n(2), of n]
  note p = pick_after [OF ok mt refl t(1,2), folded ms']
  show ?thesis
  proof (cases "mm_txnid ?m = mm_txnid new")
    case True
    then have "112 < n" using t(3) by simp
    then have "meta_tail ?m = meta_tail new"
      by (intro meta_tail_eqI prefix_dbs True) simp_all
    then show ?thesis using p True \<open>112 < n\<close> by (simp add: ms')
  next
    case False
    then have "pick ms' = pick ms" using p by simp
    then show ?thesis using n(4) by (auto simp: ms' pick_def)
  qed
qed

text \<open>
  After a failed commit the old transaction ID and last page are written back; the page then
  has the old ID, or the recovery stopped before it and the page is as after the commit.
\<close>

lemma failed_commit:
  assumes ok: "metas_ok ms" and mt: "mm_txnid new = mm_txnid (ms (pick ms)) + 1" "mm_txnid new \<noteq> 0"
    and m1: "m1 = write_prefix n (meta_tail new) (ms (1 - pick ms))"
    and old: "mm_txnid old = mm_txnid (ms (1 - pick ms))" "mm_mapsize old = mm_mapsize new" "mm_dbs old = mm_dbs new"
    and k: "k \<le> 112 \<or> 120 \<le> k"
    and ms': "ms' = ms(1 - pick ms := write_prefix k (meta_tail old) m1)"
  shows "ms' (pick ms') = ms (pick ms) \<or>
    mm_txnid (ms' (pick ms')) = mm_txnid new \<and> mm_dbs (ms' (pick ms')) = mm_dbs new"
proof -
  let ?m = "write_prefix k (meta_tail old) m1"
  note n = next_toggle [OF ok mt]
  note t = txnid_prefix_cases [OF n(2), of n, folded m1]
  have id_new: "mm_txnid ?m = (if k \<le> 112 then mm_txnid m1 else mm_txnid old)"
    using k by (auto simp: mm_txnid_prefix)
  have v: "mm_txnid ?m \<le> mm_txnid new"
    "mm_txnid ?m \<noteq> mm_txnid new \<longrightarrow> mm_txnid ?m < mm_txnid new \<and>
      (even (unat (mm_txnid ?m)) \<longleftrightarrow> even (unat (mm_txnid new))) \<or> mm_txnid ?m = mm_txnid (ms (1 - pick ms))"
    using t(1,2) n(2) old(1) by (auto simp: id_new)
  note p = pick_after [OF ok mt refl v, folded ms']
  show ?thesis
  proof (cases "mm_txnid ?m = mm_txnid new")
    case True
    then have "112 < n" using t(3) n(2) old(1) by (auto simp: id_new split: if_splits)
    then have d: "mm_dbs m1 = mm_dbs new" by (simp add: m1 prefix_dbs)
    have "mm_dbs ?m = mm_dbs new"
    proof (cases "104 \<le> k")
      case True
      then show ?thesis by (simp add: prefix_dbs old)
    next
      case False
      have part: "take 96 (drop 8 (meta_tail old)) = take 96 (drop 8 (meta_tail m1))"
        using old(3) d by (simp add: meta_tail_def)
      then have e: "meta_tail old ! i = meta_tail m1 ! i" if "8 \<le> i" "i < 104" for i
      proof -
        have "take 96 (drop 8 (meta_tail old)) ! (i - 8) = take 96 (drop 8 (meta_tail m1)) ! (i - 8)"
          using part by simp
        then show ?thesis using that by simp
      qed
      have "take 48 (drop j (take k (meta_tail old) @ drop k (meta_tail m1))) = take 48 (drop j (meta_tail m1))"
        if j: "8 \<le> j" "j \<le> 56" for j
      proof -
        have nth: "(take k (meta_tail old) @ drop k (meta_tail m1)) ! x
            = (if x < k then meta_tail old ! x else meta_tail m1 ! x)" if "x < 120" for x
          using that by (auto simp: nth_append min_def)
        show ?thesis
          using j False by (intro nth_equalityI) (auto simp: nth e simp del: drop_append take_append)
      qed
      from this [of 8] this [of 56] show ?thesis
        by (simp add: write_prefix_def set_meta_tail_def meta_tail_parts d prod_eq_iff)
    qed
    then show ?thesis using p True by (simp add: ms')
  next
    case False
    then have "pick ms' = pick ms" using p by simp
    then show ?thesis using n(4) by (auto simp: ms' pick_def)
  qed
qed

section \<open>Properties\<close>

text \<open>
  C17: A commit is atomic against a crash while its meta page is written: if any prefix of
  the bytes reaches the page of the older transaction, \<open>mdb_env_pick_meta\<close> then chooses
  either the meta page of the last commit, which is untouched, or the new one with every
  field the commit writes.
\<close>

theorem meta_write_torn_safe:
  assumes "metas_ok (me_metas env)"
    and "mt_txnid txn = mm_txnid (me_metas env (mdb_env_pick_meta env)) + 1" "mt_txnid txn \<noteq> 0"
  shows "let t = unat (mt_txnid txn AND 1);
             new = meta_of_txn mapsize txn (me_metas env t);
             env' = env\<lparr>me_metas := (me_metas env)(t := write_prefix n (meta_tail new) (me_metas env t))\<rparr>;
             chosen = me_metas env' (mdb_env_pick_meta env')
    in chosen = me_metas env (mdb_env_pick_meta env) \<or> (112 < n \<and> meta_tail chosen = meta_tail new)"
proof -
  define new where "new = meta_of_txn mapsize txn (me_metas env (unat (mt_txnid txn AND 1)))"
  have mt: "mm_txnid new = mm_txnid (me_metas env (pick (me_metas env))) + 1" "mm_txnid new \<noteq> 0"
    using assms(2,3) by (simp_all add: new_def meta_of_txn_def pick_meta_env)
  have "mm_txnid new = mt_txnid txn" by (simp add: new_def meta_of_txn_def)
  then have t: "unat (mt_txnid txn AND 1) = 1 - pick (me_metas env)"
    using next_toggle(1) [OF assms(1) mt] by simp
  show ?thesis
    using torn_commit [OF assms(1) mt refl, of n]
    by (auto simp: Let_def pick_meta_env t new_def)
qed

lemma write_meta_done:
  assumes "metas_ok (me_metas env)" "\<not> any_set (me_flags env) MDB_WRITEMAP"
    and "mt_txnid txn = mm_txnid (me_metas env (mdb_env_pick_meta env)) + 1" "mt_txnid txn \<noteq> 0"
    and "\<And>bs off. reached (pwrite 1 False bs off) \<le> 112 \<or> 120 \<le> reached (pwrite 1 False bs off)"
    and "mdb_env_write_meta pwrite msync env txn = (env', r)"
    and "chosen = me_metas env' (mdb_env_pick_meta env')"
  shows "(case r of
      Inr _ \<Rightarrow> mm_txnid chosen = mt_txnid txn \<and> mm_dbs chosen = (mt_dbs txn 0, mt_dbs txn 1) \<and>
        mm_last_pg chosen = mt_next_pgno txn - 1 \<and> me_mapsize env \<le> mm_mapsize chosen \<and>
        metas_ok (me_metas env') \<and> (\<forall>ti. me_txns env' = Some ti \<longrightarrow> mti_txnid ti = mt_txnid txn)
    | Inl e \<Rightarrow> any_set (me_flags env') MDB_FATAL_ERROR \<and>
        (chosen = me_metas env (mdb_env_pick_meta env) \<or>
         mm_txnid chosen = mt_txnid txn \<and> mm_dbs chosen = (mt_dbs txn 0, mt_dbs txn 1)))"
proof -
  define ms where "ms = me_metas env"
  define t where "t = unat (mt_txnid txn AND 1)"
  define size where "size = (if mm_mapsize (ms (1 - t)) < me_mapsize env then me_mapsize env else mm_mapsize (ms (1 - t)))"
  define new where "new = meta_of_txn size txn (ms t)"
  define old where "old = new\<lparr>mm_last_pg := mm_last_pg (ms t), mm_txnid := mm_txnid (ms t)\<rparr>"
  define off where "off = (if t \<noteq> 0 then me_psize env else 0) + 16 + PAGEHDRSZ"
  define res where "res = pwrite 0 (\<not> any_set (me_flags env) (MDB_NOSYNC OR MDB_NOMETASYNC)) (meta_tail new) off"
  define m1 where "m1 = write_prefix (reached res) (meta_tail new) (ms t)"
  have id_new: "mm_txnid new = mt_txnid txn" "mm_dbs new = (mt_dbs txn 0, mt_dbs txn 1)"
    "mm_last_pg new = mt_next_pgno txn - 1" "mm_mapsize new = size"
    by (simp_all add: new_def meta_of_txn_def)
  have ok: "metas_ok ms" using assms(1) by (simp add: ms_def)
  have mt: "mm_txnid new = mm_txnid (ms (pick ms)) + 1" "mm_txnid new \<noteq> 0"
    using assms(3,4) by (simp_all add: id_new ms_def pick_meta_env)
  have tp: "t = 1 - pick ms" using next_toggle(1) [OF ok mt] by (simp add: t_def id_new)
  show ?thesis
  proof (cases "res = Wrote 120")
    case True
    have m1': "m1 = write_prefix 120 (meta_tail new) (ms t)" using True by (simp add: m1_def)
    have e: "me_metas env' = ms(t := m1)" "r = Inr ()" "\<forall>ti. me_txns env' = Some ti \<longrightarrow> mti_txnid ti = mt_txnid txn"
      using assms(2,6) True
      by (auto simp: mdb_env_write_meta_def Let_def ms_def [symmetric] t_def [symmetric] size_def [symmetric]
          new_def [symmetric] off_def [symmetric] res_def [symmetric] m1' split: option.splits
          simp del: One_nat_def neq0_conv)
    have m: "m1 = new" by (simp add: m1' write_prefix_all new_def)
    have "pick (ms(t := m1)) = t \<and> metas_ok (ms(t := m1))"
      using pick_after [OF ok mt refl, of m1] next_toggle(2) [OF ok mt] by (simp add: m tp)
    moreover have "me_mapsize env \<le> size" by (auto simp: size_def)
    ultimately show ?thesis
      using e assms(7) by (simp add: pick_meta_env m id_new)
  next
    case False
    define k where "k = reached (pwrite 1 False (meta_tail old) off)"
    have e: "me_metas env' = ms(t := write_prefix k (meta_tail old) m1)"
      "me_flags env' = me_flags env OR MDB_FATAL_ERROR" "\<exists>e. r = Inl e"
      using assms(2,6) False
      by (auto simp: mdb_env_write_meta_def Let_def ms_def [symmetric] t_def [symmetric] size_def [symmetric]
          new_def [symmetric] off_def [symmetric] res_def [symmetric] m1_def [symmetric] old_def [symmetric]
          k_def [symmetric] split: option.splits simp del: One_nat_def neq0_conv)
    have "any_set (me_flags env') MDB_FATAL_ERROR"
      unfolding e(2) any_set_def by (simp add: word_bw_comms word_ao_absorbs MDB_FATAL_ERROR_def)
    moreover have "k \<le> 112 \<or> 120 \<le> k" using assms(5) by (simp add: k_def)
    ultimately show ?thesis
      using failed_commit [OF ok mt, of m1 "reached res" old k "me_metas env'"] e assms(7)
      by (auto simp: pick_meta_env m1_def tp old_def id_new ms_def [symmetric])
  qed
qed

text \<open>
  \<open>mdb_env_write_meta\<close> through the file. When the write of the meta page is complete
  the commit succeeds: the page chosen next is the one of this transaction with its root
  pages, and the lock file names the transaction. When it fails, whatever part of it and of
  the recovery write reached the page (the latter not in the middle of the 8-byte
  transaction ID), the environment is marked as failed and the page chosen is the untouched
  one of the last commit, or one with this transaction's ID and root pages.
\<close>

theorem write_meta_correct:
  assumes "metas_ok (me_metas env)" "\<not> any_set (me_flags env) MDB_WRITEMAP"
    and "mt_txnid txn = mm_txnid (me_metas env (mdb_env_pick_meta env)) + 1" "mt_txnid txn \<noteq> 0"
    and "\<And>bs off. reached (pwrite 1 False bs off) \<le> 112 \<or> 120 \<le> reached (pwrite 1 False bs off)"
    and "mdb_env_write_meta pwrite msync env txn = (env', r)"
    and "chosen = me_metas env' (mdb_env_pick_meta env')"
  shows "(case r of
      Inr _ \<Rightarrow> mm_txnid chosen = mt_txnid txn \<and> mm_dbs chosen = (mt_dbs txn 0, mt_dbs txn 1) \<and>
        mm_last_pg chosen = mt_next_pgno txn - 1 \<and> me_mapsize env \<le> mm_mapsize chosen \<and>
        metas_ok (me_metas env') \<and> (\<forall>ti. me_txns env' = Some ti \<longrightarrow> mti_txnid ti = mt_txnid txn)
    | Inl e \<Rightarrow> any_set (me_flags env') MDB_FATAL_ERROR \<and>
        (chosen = me_metas env (mdb_env_pick_meta env) \<or>
         mm_txnid chosen = mt_txnid txn \<and> mm_dbs chosen = (mt_dbs txn 0, mt_dbs txn 1)))"
  using write_meta_done [OF assms(1-4) _ assms(6,7)] assms(5) by blast

text \<open>Environments and transactions for the witnesses.\<close>

definition db0 :: mdb_db where
  "db0 = \<lparr>md_pad = 4096, md_flags = MDB_INTEGERKEY, md_depth = 0, md_branch_pages = 0, md_leaf_pages = 0,
     md_overflow_pages = 0, md_entries = 0, md_root = P_INVALID\<rparr>"

definition meta0 :: mdb_meta where
  "meta0 = \<lparr>mm_magic = MDB_MAGIC, mm_version = MDB_DATA_VERSION, mm_address = 0, mm_mapsize = 1048576,
     mm_dbs = (db0, db0), mm_last_pg = 1, mm_txnid = 0\<rparr>"

definition midl0 :: midl where
  "midl0 = \<lparr>mi_alloc = 8, mi_ids = replicate 9 0\<rparr>"

definition txn1 :: mdb_txn where
  "txn1 = \<lparr>mt_next_pgno = 3, mt_txnid = 1, mt_free_pgs = midl0, mt_loose_pgs = [], mt_loose_count = 0,
     mt_spill_pgs = None, mt_dirty_list = [], mt_reader = None, mt_dbxs = True, mt_dbs = (\<lambda>_. db0\<lparr>md_root := 2\<rparr>),
     mt_dbiseqs = (\<lambda>_. 0), mt_cursors = (\<lambda>_. []), mt_dbflags = (\<lambda>_. DB_VALID), mt_numdbs = 2, mt_flags = 0,
     mt_dirty_room = 131071\<rparr>"

definition env0 :: mdb_env where
  "env0 = \<lparr>me_flags = 0, me_psize = 4096, me_os_psize = 4096, me_maxreaders = 126, me_numreaders = 0,
     me_numdbs = 2, me_maxdbs = 2, me_pid = 42,
     me_txns = Some \<lparr>mti_txnid = 0, mti_numreaders = 0, mti_readers = (\<lambda>_. \<lparr>mr_txnid = 0, mr_pid = 0, mr_tid = 0\<rparr>)\<rparr>,
     me_metas = (\<lambda>_. meta0), me_txn = False, me_txn0 = txn1, me_mapsize = 1048576, me_maxpg = 256,
     me_dbxs = (\<lambda>_. \<lparr>md_name = None, md_cmp = Some Cmp_memn, md_dcmp = None\<rparr>), me_dbflags = (\<lambda>_. 0),
     me_dbiseqs = (\<lambda>_. 0), me_txkey = None, me_pgoldest = 0, me_pglast = 0, me_pghead = None, me_dpages = [],
     me_free_pgs = midl0, me_dirty_list = [], me_maxfree_1pg = 509, me_nodemax = 2038,
     me_live_reader = False, me_rlocked = False, me_wlocked = False\<rparr>"

lemma env0_flags: "me_flags env0 = 0" "me_psize env0 = 4096" "\<not> any_set (me_flags env0) MDB_WRITEMAP"
  by (simp_all add: env0_def any_set_def)

lemma env0_simps [simp]: "me_metas env0 = (\<lambda>_. meta0)" "mm_txnid meta0 = 0" "mt_txnid txn1 = 1"
  "metas_ok (\<lambda>_. meta0)" "pick (\<lambda>_. meta0) = 0"
  by (simp_all add: env0_def meta0_def txn1_def metas_ok_def pick_def)

theorem meta_write_torn_witness:
  "let new = meta_of_txn 1048576 txn1 meta0;
       env' = env0\<lparr>me_metas := (me_metas env0)(1 := write_prefix 60 (meta_tail new) meta0)\<rparr>
   in me_metas env' (mdb_env_pick_meta env') = meta0"
  using meta_write_torn_safe [of env0 txn1 1048576 60]
  by (simp add: pick_meta_env Let_def)

theorem write_meta_witness:
  "\<exists>env'. mdb_env_write_meta (\<lambda>_ _ _ _. Wrote 120) (\<lambda>_ _ _. 0) env0 txn1 = (env', Inr ()) \<and>
     mm_txnid (me_metas env' (mdb_env_pick_meta env')) = 1"
proof -
  obtain env' r where e: "mdb_env_write_meta (\<lambda>_ _ _ _. Wrote 120) (\<lambda>_ _ _. 0) env0 txn1 = (env', r)"
    by (cases "mdb_env_write_meta (\<lambda>_ _ _ _. Wrote 120) (\<lambda>_ _ _. 0) env0 txn1") auto
  moreover have "r = Inr ()"
    using e env0_flags(3) by (simp add: mdb_env_write_meta_def Let_def)
  ultimately show ?thesis
    using write_meta_correct [OF _ env0_flags(3) _ _ _ e refl] by (simp add: pick_meta_env)
qed

text \<open>
  \<open>mdb_env_read_header\<close> on a file with two well-formed meta pages gives the newer one,
  the same that \<open>mdb_env_pick_meta\<close> chooses once both are mapped, and the first page when
  they are of one age; a first page that is no meta page, has another magic number or
  version, or an empty file, is refused with the code for it.
\<close>

theorem read_header_newest:
  assumes "pread 0 = Read_meta fl0 m0" "pread (unat (mm_psize m0)) = Read_meta fl1 m1" "unat (mm_psize m0) \<noteq> 0"
    and "F_ISSET fl1 P_META" "mm_magic m1 = MDB_MAGIC" "mm_version m1 = MDB_DATA_VERSION"
  shows "mdb_env_read_header pread =
    (if \<not> F_ISSET fl0 P_META \<or> mm_magic m0 \<noteq> MDB_MAGIC then Inl MDB_INVALID
     else if mm_version m0 \<noteq> MDB_DATA_VERSION then Inl MDB_VERSION_MISMATCH
     else Inr (Some (if mdb_env_pick_meta (env\<lparr>me_metas := (\<lambda>_. m1)(0 := m0)\<rparr>) = 0 then m0 else m1)))"
  using assms by (auto simp: mdb_env_read_header_def numeral_2_eq_2 mdb_env_pick_meta_def not_less_iff_gr_or_eq)

theorem read_header_witness:
  "mdb_env_read_header (\<lambda>off. Read_meta P_META (meta0\<lparr>mm_txnid := of_nat off\<rparr>))
    = Inr (Some (meta0\<lparr>mm_txnid := 4096\<rparr>))"
  using read_header_newest [of "\<lambda>off. Read_meta P_META (meta0\<lparr>mm_txnid := of_nat off\<rparr>)" P_META
      "meta0\<lparr>mm_txnid := 0\<rparr>" P_META "meta0\<lparr>mm_txnid := 4096\<rparr>" env0]
  by (simp add: F_ISSET_def meta0_def db0_def mdb_env_pick_meta_def)

text \<open>
  C32: \<open>mdb_env_init_meta\<close> writes two meta pages that \<open>mdb_env_read_header\<close> accepts: when
  the write is complete, reading the header back gives the meta struct of the new database,
  with no root pages and page 1 the last; a failed or short write is reported. The memory for
  the pages is there; without it the function uses a NULL pointer.
\<close>

theorem init_meta_roundtrip:
  assumes "0 < me_psize env" "me_psize env < 2 ^ 32"
  shows "\<exists>meta r. mdb_env_init_meta True pwrite env m = Some (meta, r) \<and> (case r of
      Inr file \<Rightarrow> pwrite (me_psize env * 2) = Wrote (me_psize env * 2) \<and>
        mdb_env_read_header file = Inr (Some meta) \<and> unat (mm_psize meta) = me_psize env \<and>
        mm_last_pg meta = 1 \<and> md_root (fst (mm_dbs meta)) = P_INVALID \<and> md_root (snd (mm_dbs meta)) = P_INVALID
    | Inl e \<Rightarrow> pwrite (me_psize env * 2) \<noteq> Wrote (me_psize env * 2) \<and>
        (e = ENOSPC \<or> (\<exists>c n. pwrite (me_psize env * 2) = Write_failed c n \<and> e = Errno c)))"
proof -
  define meta' where "meta' = mdb_env_init_meta0 env m"
  have p: "unat (mm_psize meta') = me_psize env" "mm_magic meta' = MDB_MAGIC" "mm_version meta' = MDB_DATA_VERSION"
    "mm_last_pg meta' = 1" "md_root (fst (mm_dbs meta')) = P_INVALID" "md_root (snd (mm_dbs meta')) = P_INVALID"
    using assms(2) by (simp_all add: meta'_def mdb_env_init_meta0_def Let_def unat_of_nat split: prod.splits)
  have "mdb_env_read_header (\<lambda>off. if off = 0 \<or> off = me_psize env then Read_meta P_META meta' else Read_short 0)
      = Inr (Some meta')"
    using p by (simp add: mdb_env_read_header_def numeral_2_eq_2 F_ISSET_def)
  then show ?thesis
    using p by (auto simp: mdb_env_init_meta_def Let_def meta'_def [symmetric] split: write_result.splits)
qed

theorem init_meta_witness:
  "\<exists>meta file. mdb_env_init_meta True Wrote env0 meta0 = Some (meta, Inr file) \<and> mdb_env_read_header file = Inr (Some meta)"
proof -
  have "0 < me_psize env0" "me_psize env0 < 2 ^ 32" by (simp_all add: env0_flags)
  from init_meta_roundtrip [OF this, of Wrote meta0] show ?thesis
    by (elim exE conjE) (auto split: sum.split_asm)
qed

end
