(* ===== verification/Readers.thy ===== *)
theory Readers
  imports Meta
begin

text \<open>
  The reader table of the lock file: the oldest snapshot still read
  (\<open>mdb_find_oldest\<close>), the listing of the readers, and the removal of the readers of
  processes that died (\<open>mdb_reader_check0\<close>, with its sorted list of checked processes).
\<close>

section \<open>The oldest snapshot in use\<close>

text \<open>\<open>for (i = mti_numreaders; --i >= 0; )\<close>\<close>

fun find_oldest_loop :: "(nat \<Rightarrow> mdb_reader) \<Rightarrow> nat \<Rightarrow> u64 \<Rightarrow> u64" where
  "find_oldest_loop r 0 oldest = oldest"
| "find_oldest_loop r (Suc i) oldest =
     find_oldest_loop r i
       (if mr_pid (r i) \<noteq> 0 then
          (let mr = mr_txnid (r i) in if oldest > mr then mr else oldest)
        else oldest)"

definition mdb_find_oldest :: "mdb_env \<Rightarrow> mdb_txn \<Rightarrow> u64" where
  "mdb_find_oldest env txn =
     (let oldest = mt_txnid txn - 1 in
      case me_txns env of
        None \<Rightarrow> oldest
      | Some ti \<Rightarrow> find_oldest_loop (mti_readers ti) (mti_numreaders ti) oldest)"

section \<open>Listing the readers\<close>

text \<open>
  The lines the caller's function is given: that there are no locks, the heading, one line
  per reader with process, thread and transaction (none for a parked reader), or that there
  is no active reader. \<open>func\<close> is the caller's function; a negative result stops the list.
  The result is the return code and the lines given, in order.
\<close>

datatype reader_msg = No_reader_locks | Heading | Reader_row int u64 "u64 option" | No_active_readers

fun reader_list_loop ::
  "(reader_msg \<Rightarrow> int) \<Rightarrow> (nat \<Rightarrow> mdb_reader) \<Rightarrow> nat \<Rightarrow> nat \<Rightarrow> bool \<Rightarrow> int \<Rightarrow> reader_msg list
   \<Rightarrow> int \<times> bool \<times> reader_msg list" where
  "reader_list_loop func mr i 0 first rc out = (rc, first, out)"
| "reader_list_loop func mr i (Suc n) first rc out =
     (if mr_pid (mr i) \<noteq> 0 then
        (let txnid = mr_txnid (mr i);
             buf = Reader_row (mr_pid (mr i)) (mr_tid (mr i)) (if txnid = - 1 then None else Some txnid);
             (rc, out) = (if first then (func Heading, out @ [Heading]) else (rc, out))
         in if first \<and> rc < 0 then (rc, False, out)
            else
              (let rc = func buf; out = out @ [buf] in
               if rc < 0 then (rc, False, out) else reader_list_loop func mr (i + 1) n False rc out))
      else reader_list_loop func mr (i + 1) n first rc out)"

definition mdb_reader_list :: "mdb_env option \<Rightarrow> (reader_msg \<Rightarrow> int) option \<Rightarrow> int \<times> reader_msg list" where
  "mdb_reader_list env func =
     (case (env, func) of
        (Some env, Some func) \<Rightarrow>
          (case me_txns env of
             None \<Rightarrow> (func No_reader_locks, [No_reader_locks])
           | Some ti \<Rightarrow>
               (case reader_list_loop func (mti_readers ti) 0 (mti_numreaders ti) True 0 [] of
                  (rc, first, out) \<Rightarrow>
                    if first then (func No_active_readers, out @ [No_active_readers]) else (rc, out)))
      | _ \<Rightarrow> (- 1, []))"

section \<open>Readers of dead processes\<close>

text \<open>
  The checked processes, an array with its count in cell 0, ascending. The result is -1
  when the process is there already.
\<close>

definition mdb_pid_insert :: "int list \<Rightarrow> int \<Rightarrow> int \<times> int list" where
  "mdb_pid_insert ids pid =
     (case id_search_loop (\<lambda>cursor. pid - ids ! cursor) 0 1 (nat (ids ! 0)) 0 of
        (True, cursor, val) \<Rightarrow> (- 1, ids)
      | (False, cursor, val) \<Rightarrow>
          (let cursor = (if val > 0 then cursor + 1 else cursor);
               ids = ids[0 := ids ! 0 + 1];
               ids = id2l_shift ids cursor (nat (ids ! 0))
           in (0, ids[cursor := pid])))"

text \<open>\<open>for (; j < rdrs; j++) if (mr[j].mr_pid == pid) { mr[j].mr_pid = 0; count++; }\<close>\<close>

fun clear_pid :: "(nat \<Rightarrow> mdb_reader) \<Rightarrow> int \<Rightarrow> nat \<Rightarrow> nat \<Rightarrow> nat \<Rightarrow> (nat \<Rightarrow> mdb_reader) \<times> nat" where
  "clear_pid mr pid j 0 cnt = (mr, cnt)"
| "clear_pid mr pid j (Suc n) cnt =
     (if mr_pid (mr j) = pid
      then clear_pid (mr(j := (mr j)\<lparr>mr_pid := 0\<rparr>)) pid (j + 1) n (cnt + 1)
      else clear_pid mr pid (j + 1) n cnt)"

text \<open>
  \<open>alive1\<close> and \<open>alive2\<close> tell whether \<open>mdb_reader_pid(env, Pidcheck, pid)\<close> is non-zero, on
  the first check and once the mutex is held; \<open>lock\<close> is what \<open>LOCK_MUTEX0\<close> returns for the
  reader at hand (mutexes are not robust here, so a failure ends the loop). The arguments
  are the readers, the index, the number of readers left, the processes and the count.
\<close>

fun reader_check_loop ::
  "(int \<Rightarrow> bool) \<Rightarrow> (int \<Rightarrow> bool) \<Rightarrow> (nat \<Rightarrow> int) \<Rightarrow> bool \<Rightarrow> int \<Rightarrow> (nat \<Rightarrow> mdb_reader) \<Rightarrow> nat \<Rightarrow> nat
   \<Rightarrow> int list \<Rightarrow> nat \<Rightarrow> (nat \<Rightarrow> mdb_reader) \<times> nat \<times> int" where
  "reader_check_loop alive1 alive2 lock rmutex self mr i 0 pids cnt = (mr, cnt, 0)"
| "reader_check_loop alive1 alive2 lock rmutex self mr i (Suc n) pids cnt =
     (let pid = mr_pid (mr i); next = (\<lambda>mr pids cnt. reader_check_loop alive1 alive2 lock rmutex self mr (i + 1) n pids cnt) in
      if pid \<noteq> 0 \<and> pid \<noteq> self then
        (case mdb_pid_insert pids pid of (rc, pids) \<Rightarrow>
           if rc = 0 \<and> \<not> alive1 pid then
             (if rmutex \<and> lock i \<noteq> 0 then (mr, cnt, lock i)
              else if rmutex \<and> alive2 pid then next mr pids cnt
              else (case clear_pid mr pid i (Suc n) cnt of (mr, cnt) \<Rightarrow> next mr pids cnt))
           else next mr pids cnt)
      else next mr pids cnt)"

definition mdb_reader_check0 ::
  "bool \<Rightarrow> (int \<Rightarrow> bool) \<Rightarrow> (int \<Rightarrow> bool) \<Rightarrow> (nat \<Rightarrow> int) \<Rightarrow> mdb_env \<Rightarrow> mdb_txninfo \<Rightarrow> bool
   \<Rightarrow> mdb_env \<times> nat option \<times> (mdb_err + unit)" where
  "mdb_reader_check0 malloc_ok alive1 alive2 lock env ti rlocked =
     (let rdrs = mti_numreaders ti in
      if \<not> malloc_ok then (env, None, Inl ENOMEM)
      else (case reader_check_loop alive1 alive2 lock (\<not> rlocked) (me_pid env) (mti_readers ti) 0 rdrs
                   (replicate (rdrs + 1) 0) 0 of
              (mr, cnt, rc) \<Rightarrow>
                (env\<lparr>me_txns := Some (ti\<lparr>mti_readers := mr\<rparr>)\<rparr>, Some cnt, if rc \<noteq> 0 then Inl (Errno rc) else Inr ())))"

text \<open>The public entry; \<open>dead\<close> is 0 without a reader table.\<close>

definition mdb_reader_check ::
  "bool \<Rightarrow> (int \<Rightarrow> bool) \<Rightarrow> (int \<Rightarrow> bool) \<Rightarrow> (nat \<Rightarrow> int) \<Rightarrow> mdb_env option
   \<Rightarrow> mdb_env option \<times> nat option \<times> (mdb_err + unit)" where
  "mdb_reader_check malloc_ok alive1 alive2 lock env =
     (case env of None \<Rightarrow> (None, None, Inl EINVAL)
      | Some env \<Rightarrow>
          (case me_txns env of None \<Rightarrow> (Some env, Some 0, Inr ())
           | Some ti \<Rightarrow>
               (case mdb_reader_check0 malloc_ok alive1 alive2 lock env ti False of
                  (env, dead, r) \<Rightarrow> (Some env, Some (case dead of None \<Rightarrow> 0 | Some n \<Rightarrow> n), r))))"

section \<open>The oldest snapshot\<close>

text \<open>The transactions a writer may not overwrite: the last one, and those of the readers.\<close>

definition snapshots :: "(nat \<Rightarrow> mdb_reader) \<Rightarrow> nat \<Rightarrow> u64 set" where
  "snapshots r n = (\<lambda>i. mr_txnid (r i)) ` {i. i < n \<and> mr_pid (r i) \<noteq> 0}"

lemma snapshots_Suc:
  "snapshots r (Suc n) = (if mr_pid (r n) \<noteq> 0 then insert (mr_txnid (r n)) (snapshots r n) else snapshots r n)"
  by (auto simp: snapshots_def less_Suc_eq)

lemma finite_snapshots [simp]: "finite (snapshots r n)"
  by (simp add: snapshots_def)

lemma find_oldest_loop_Min: "find_oldest_loop r n oldest = Min (insert oldest (snapshots r n))"
proof (induction n arbitrary: oldest)
  case 0
  then show ?case by (simp add: snapshots_def)
next
  case (Suc n)
  have "Min (insert (min a b) S) = Min (insert a (insert b S))" if "finite S" for a b :: u64 and S
    using that by (cases "S = {}") (auto simp: min.assoc)
  moreover have "(let mr = b in if oldest > mr then mr else oldest) = min oldest b" for b :: u64
    by (auto simp: min_def Let_def)
  ultimately show ?case using Suc by (simp add: snapshots_Suc)
qed

section \<open>The list of checked processes\<close>

definition pid_count :: "int list \<Rightarrow> nat" where
  "pid_count ids = nat (ids ! 0)"

definition pid_elems :: "int list \<Rightarrow> int list" where
  "pid_elems ids = take (pid_count ids) (tl ids)"

definition pid_ok :: "int list \<Rightarrow> bool" where
  "pid_ok ids \<longleftrightarrow> ids \<noteq> [] \<and> 0 \<le> ids ! 0 \<and> pid_count ids < length ids \<and> sorted_wrt (<) (pid_elems ids)"

lemma length_pid_elems [simp]: "pid_ok ids \<Longrightarrow> length (pid_elems ids) = pid_count ids"
  by (auto simp: pid_elems_def pid_ok_def min_def)

lemma nth_pid_elems: "pid_ok ids \<Longrightarrow> i < pid_count ids \<Longrightarrow> pid_elems ids ! i = ids ! Suc i"
  by (cases ids) (auto simp: pid_elems_def pid_ok_def)

lemma pid_cell_less:
  "pid_ok ids \<Longrightarrow> 1 \<le> i \<Longrightarrow> i < j \<Longrightarrow> j \<le> pid_count ids \<Longrightarrow> ids ! i < ids ! j"
  using sorted_wrt_nth_less [of "(<)" "pid_elems ids" "i - 1" "j - 1"]
  by (simp add: nth_pid_elems pid_ok_def [of ids])

interpretation pid_search: strict_slots "\<lambda>ids. pid_count ids" "\<lambda>ids pid c. pid - ids ! c" pid_ok
proof
  fix ids :: "int list" and pid :: int and i j :: nat
  assume ok: "pid_ok ids" and i: "1 \<le> i" and j: "j \<le> pid_count ids"
  have less: "ids ! i < ids ! j" if "i < j" using ok i that j by (rule pid_cell_less)
  then show "pid - ids ! i = 0 \<Longrightarrow> i < j \<Longrightarrow> pid - ids ! j < 0" by auto
  assume "i \<le> j"
  then have "ids ! i \<le> ids ! j" using less by (cases "i = j") auto
  then show "0 < pid - ids ! j \<Longrightarrow> 0 < pid - ids ! i" and "pid - ids ! i < 0 \<Longrightarrow> pid - ids ! j < 0" by auto
qed

text \<open>Insertion keeps the list sorted and adds the process, unless it is there.\<close>

lemma pid_insert_spec:
  assumes ok: "pid_ok ids" and room: "pid_count ids + 1 < length ids"
  shows "case mdb_pid_insert ids pid of (rc, ids') \<Rightarrow>
    if pid \<in> set (pid_elems ids) then rc = - 1 \<and> ids' = ids
    else rc = 0 \<and> pid_ok ids' \<and> length ids' = length ids \<and> pid_count ids' = Suc (pid_count ids)
      \<and> set (pid_elems ids') = insert pid (set (pid_elems ids))"
proof -
  obtain found cursor val where r: "id_search_loop (\<lambda>c. pid - ids ! c) 0 1 (pid_count ids) 0 = (found, cursor, val)"
    by (metis prod_cases3)
  have "pid_search.search_spec ids pid (found, cursor, val)"
    unfolding r [symmetric] by (rule pid_search.search_loop_spec [OF ok]) auto
  then have sp: "pid_search.search_spec ids pid (found, cursor, val)" .
  have mem: "ids ! i \<in> set (pid_elems ids)" if "1 \<le> i" "i \<le> pid_count ids" for i
    using nth_mem [of "i - 1" "pid_elems ids"] that ok by (simp add: nth_pid_elems)
  show ?thesis
  proof (cases found)
    case True
    then have "1 \<le> cursor" "cursor \<le> pid_count ids" "pid - ids ! cursor = 0"
      using sp by (auto simp: pid_search.search_spec_def Let_def id_search_result_def)
    then show ?thesis using True r mem [of cursor] by (simp add: mdb_pid_insert_def pid_count_def)
  next
    case False
    define x where "x = (if val > 0 then cursor + 1 else cursor)"
    have x: "1 \<le> x" "x \<le> Suc (pid_count ids)" "\<And>i. 1 \<le> i \<Longrightarrow> i < x \<Longrightarrow> ids ! i < pid"
      "\<And>i. x \<le> i \<Longrightarrow> i \<le> pid_count ids \<Longrightarrow> pid < ids ! i"
      using sp False by (auto simp: pid_search.search_spec_def Let_def id_search_result_def x_def)
    define d where "d = ids[0 := ids ! 0 + 1]"
    define d' where "d' = (id2l_shift d x (Suc (pid_count ids)))[x := pid]"
    have n0: "0 \<le> ids ! 0" "ids \<noteq> []" using ok by (auto simp: pid_ok_def)
    have d0: "d ! 0 = ids ! 0 + 1" using n0 by (simp add: d_def)
    then have c0: "nat (d ! 0) = Suc (pid_count ids)" using n0 by (simp add: pid_count_def nat_add_distrib)
    have res: "mdb_pid_insert ids pid = (0, d')"
      using r False c0 by (simp add: mdb_pid_insert_def pid_count_def [symmetric] Let_def x_def [symmetric] d_def [symmetric] d'_def)
    have nin: "pid \<notin> set (pid_elems ids)"
    proof
      assume "pid \<in> set (pid_elems ids)"
      then obtain i where "i < pid_count ids" "ids ! Suc i = pid"
        using ok by (auto simp: in_set_conv_nth nth_pid_elems)
      then show False using x(3) [of "Suc i"] x(4) [of "Suc i"] by (cases "Suc i < x") auto
    qed
    have len: "length d' = length ids" by (simp add: d'_def d_def)
    have d'0: "d' ! 0 = d ! 0" using x(1,2) room n0
      by (simp add: d'_def id2l_shift_nth d_def del: id2l_shift.simps)
    then have cnt: "pid_count d' = Suc (pid_count ids)" using c0 by (simp add: pid_count_def)
    have cell: "d' ! Suc i = insert_at (x - 1) pid (pid_elems ids) ! i" if "i \<le> pid_count ids" for i
    proof -
      have "d' ! Suc i = (if Suc i = x then pid else if x < Suc i then ids ! i else ids ! Suc i)"
        using x(1) room that by (auto simp: d'_def d_def id2l_shift_nth nth_list_update simp del: id2l_shift.simps)
      then show ?thesis
        using that x(1,2) ok by (auto simp: nth_insert_at nth_pid_elems)
    qed
    have el: "pid_elems d' = insert_at (x - 1) pid (pid_elems ids)"
    proof (rule nth_equalityI)
      show "length (pid_elems d') = length (insert_at (x - 1) pid (pid_elems ids))"
      proof -
        have "Suc (pid_count ids) \<le> length (tl d')" using len room by simp
        then have "length (pid_elems d') = Suc (pid_count ids)" by (simp add: pid_elems_def cnt)
        then show ?thesis using x(1,2) ok by simp
      qed
      fix i assume "i < length (pid_elems d')"
      then have "i \<le> pid_count ids" "i < length (tl d')" using cnt len by (auto simp: pid_elems_def)
      then show "pid_elems d' ! i = insert_at (x - 1) pid (pid_elems ids) ! i"
        using cell cnt len room by (simp add: pid_elems_def nth_tl)
    qed
    have "sorted_wrt (<) (pid_elems d')"
    proof -
      have s: "sorted_wrt (<) (take (x - 1) (pid_elems ids) @ drop (x - 1) (pid_elems ids))"
        using ok by (simp add: pid_ok_def)
      have "a < pid" if "a \<in> set (take (x - 1) (pid_elems ids))" for a
        using that x(1,2,3) ok by (auto simp: in_set_conv_nth nth_pid_elems)
      moreover have "pid < b" if "b \<in> set (drop (x - 1) (pid_elems ids))" for b
        using that x(1,2,4) ok by (auto simp: in_set_conv_nth nth_pid_elems)
      ultimately show ?thesis
        using s unfolding el insert_at_def sorted_wrt_append by auto
    qed
    then have "pid_ok d'" using cnt len room d0 d'0 n0 by (auto simp: pid_ok_def)
    moreover have "set (pid_elems d') = insert pid (set (pid_elems ids))"
      unfolding el insert_at_def by (simp add: Un_commute [of "set (take _ _)"]) (metis append_take_drop_id set_append Un_commute)
    ultimately show ?thesis using res nin len cnt by simp
  qed
qed

section \<open>Removing the readers of dead processes\<close>

text \<open>The readers \<open>k\<close> of \<open>n\<close> from \<open>i\<close> on that are to go.\<close>

definition dead_slots :: "(int \<Rightarrow> bool) \<Rightarrow> int \<Rightarrow> (nat \<Rightarrow> mdb_reader) \<Rightarrow> nat \<Rightarrow> nat \<Rightarrow> nat set" where
  "dead_slots alive self mr i n =
     {k. i \<le> k \<and> k < i + n \<and> mr_pid (mr k) \<noteq> 0 \<and> mr_pid (mr k) \<noteq> self \<and> \<not> alive (mr_pid (mr k))}"

definition clear_slots :: "nat set \<Rightarrow> (nat \<Rightarrow> mdb_reader) \<Rightarrow> nat \<Rightarrow> mdb_reader" where
  "clear_slots S mr = (\<lambda>k. if k \<in> S then (mr k)\<lparr>mr_pid := 0\<rparr> else mr k)"

lemma finite_dead_slots [simp]: "finite (dead_slots alive self mr i n)"
  by (rule finite_subset [of _ "{i..<i + n}"]) (auto simp: dead_slots_def)

lemma clear_pid_spec:
  assumes "pid \<noteq> 0"
  shows "clear_pid mr pid j n cnt =
    (clear_slots {k. j \<le> k \<and> k < j + n \<and> mr_pid (mr k) = pid} mr,
     cnt + card {k. j \<le> k \<and> k < j + n \<and> mr_pid (mr k) = pid})"
proof (induction n arbitrary: mr j cnt)
  case 0
  then show ?case by (auto simp: clear_slots_def fun_eq_iff)
next
  case (Suc n)
  let ?S = "\<lambda>mr j n. {k. j \<le> k \<and> k < j + n \<and> mr_pid (mr k) = pid}"
  have fin: "finite (?S mr j n)" for mr :: "nat \<Rightarrow> mdb_reader" and j n
    by (rule finite_subset [of _ "{j..<j + n}"]) auto
  show ?case
  proof (cases "mr_pid (mr j) = pid")
    case True
    let ?m = "mr(j := (mr j)\<lparr>mr_pid := 0\<rparr>)"
    have same: "?S ?m (Suc j) n = ?S mr (Suc j) n" by auto
    have split: "?S mr j (Suc n) = insert j (?S mr (Suc j) n)" using True by (auto simp: le_eq_less_or_eq)
    have "clear_slots (?S mr (Suc j) n) ?m = clear_slots (?S mr j (Suc n)) mr"
      unfolding split by (rule ext) (auto simp: clear_slots_def)
    moreover have "card (?S mr j (Suc n)) = Suc (card (?S mr (Suc j) n))"
      unfolding split using fin by (subst card_insert_disjoint) auto
    ultimately show ?thesis using Suc [of ?m "Suc j" "Suc cnt"] True by (simp only: same) (simp add: fun_upd_def)
  next
    case False
    have "?S mr j (Suc n) = ?S mr (Suc j) n" using False by (auto simp: le_eq_less_or_eq)
    then show ?thesis using Suc [of mr "Suc j" cnt] False by simp
  qed
qed

lemma reader_check_loop_spec:
  assumes "pid_ok pids" "pid_count pids + n < length pids" "\<And>k. lock k = 0" "0 \<notin> set (pid_elems pids)"
    and "\<And>k. i \<le> k \<Longrightarrow> k < i + n \<Longrightarrow> mr_pid (mr k) \<in> set (pid_elems pids) \<Longrightarrow> alive (mr_pid (mr k))"
  shows "reader_check_loop alive alive lock rmutex self mr i n pids cnt =
    (clear_slots (dead_slots alive self mr i n) mr, cnt + card (dead_slots alive self mr i n), 0)"
  using assms(1,2,4,5)
proof (induction n arbitrary: mr i pids cnt)
  case 0
  then show ?case by (auto simp: dead_slots_def clear_slots_def fun_eq_iff)
next
  case (Suc n)
  let ?pid = "mr_pid (mr i)"
  show ?case
  proof (cases "?pid \<noteq> 0 \<and> ?pid \<noteq> self")
    case False
    have "dead_slots alive self mr i (Suc n) = dead_slots alive self mr (Suc i) n"
      using False by (auto simp: dead_slots_def le_eq_less_or_eq)
    then show ?thesis using Suc.IH [of pids "Suc i" mr cnt] Suc.prems False by (auto simp: Let_def)
  next
    case True
    obtain rc pids' where ins: "mdb_pid_insert pids ?pid = (rc, pids')" by fastforce
    note sp = pid_insert_spec [OF Suc.prems(1), of ?pid, unfolded ins]
    have ok': "pid_ok pids'" "pid_count pids' + n < length pids'"
      "set (pid_elems pids') = insert ?pid (set (pid_elems pids))"
      "rc = 0 \<longleftrightarrow> ?pid \<notin> set (pid_elems pids)"
      using sp Suc.prems(1,2) by (auto split: if_splits)
    have skip: "reader_check_loop alive alive lock rmutex self mr (Suc i) n pids' cnt =
        (clear_slots (dead_slots alive self mr i (Suc n)) mr, cnt + card (dead_slots alive self mr i (Suc n)), 0)"
      if "alive ?pid"
    proof -
      have "dead_slots alive self mr i (Suc n) = dead_slots alive self mr (Suc i) n"
        using that by (auto simp: dead_slots_def le_eq_less_or_eq)
      moreover have "alive (mr_pid (mr k))"
        if "Suc i \<le> k" "k < Suc i + n" "mr_pid (mr k) \<in> set (pid_elems pids')" for k
        using that \<open>alive ?pid\<close> ok'(3) Suc.prems(4) [of k] by auto
      moreover have "0 \<notin> set (pid_elems pids')" using ok'(3) Suc.prems(3) True by auto
      ultimately show ?thesis
        using Suc.IH [of pids' "Suc i" mr cnt, OF ok'(1,2)] by simp
    qed
    show ?thesis
    proof (cases "rc = 0 \<and> \<not> alive ?pid")
      case False
      then have "alive ?pid" using ok'(4) Suc.prems(4) [of i] by auto
      then show ?thesis using skip True ins by simp
    next
      case dead: True
      define S where "S = {k. i \<le> k \<and> k < i + Suc n \<and> mr_pid (mr k) = ?pid}"
      define m where "m = clear_slots S mr"
      have fin: "finite S" by (rule finite_subset [of _ "{i..<i + Suc n}"]) (auto simp: S_def)
      have clear: "clear_pid mr ?pid i (Suc n) cnt = (m, cnt + card S)"
        using clear_pid_spec [of ?pid mr i "Suc n" cnt] True by (simp add: S_def m_def)
      have parts: "dead_slots alive self mr i (Suc n) = S \<union> dead_slots alive self m (Suc i) n"
        "S \<inter> dead_slots alive self m (Suc i) n = {}"
        using True dead by (auto simp: dead_slots_def m_def clear_slots_def S_def le_eq_less_or_eq)
      have "alive (mr_pid (m k))" if "Suc i \<le> k" "k < Suc i + n" "mr_pid (m k) \<in> set (pid_elems pids')" for k
      proof -
        have "k \<notin> S"
        proof
          assume "k \<in> S"
          then have "mr_pid (m k) = 0" by (simp add: m_def clear_slots_def)
          then show False using that(3) ok'(3) Suc.prems(3) True by auto
        qed
        then have "m k = mr k" "mr_pid (mr k) \<noteq> ?pid" using that(1,2) by (auto simp: S_def m_def clear_slots_def)
        then show ?thesis using that Suc.prems(4) [of k] ok'(3) by auto
      qed
      then have "reader_check_loop alive alive lock rmutex self m (Suc i) n pids' (cnt + card S) =
          (clear_slots (dead_slots alive self m (Suc i) n) m, cnt + card S + card (dead_slots alive self m (Suc i) n), 0)"
        using Suc.IH [of pids' "Suc i" m "cnt + card S"] ok'(1-3) Suc.prems(3) True by auto
      moreover have "clear_slots (dead_slots alive self m (Suc i) n) m = clear_slots (dead_slots alive self mr i (Suc n)) mr"
        unfolding parts(1) by (rule ext) (auto simp: clear_slots_def m_def)
      moreover have "card (dead_slots alive self mr i (Suc n)) = card S + card (dead_slots alive self m (Suc i) n)"
        unfolding parts(1) by (rule card_Un_disjoint) (use fin parts(2) in auto)
      ultimately show ?thesis using dead ins clear True assms(3) [of i] by simp
    qed
  qed
qed

section \<open>Properties\<close>

text \<open>
  C20: \<open>mdb_find_oldest\<close> gives the oldest snapshot that may still be read: the least of the
  transaction before the current one and the transactions of all claimed reader slots. So
  no reader has a snapshot older than the result.
\<close>

theorem find_oldest_correct:
  "mdb_find_oldest env txn = Min (insert (mt_txnid txn - 1)
     (case me_txns env of None \<Rightarrow> {} | Some ti \<Rightarrow> snapshots (mti_readers ti) (mti_numreaders ti)))"
  by (simp add: mdb_find_oldest_def Let_def find_oldest_loop_Min split: option.split)

text \<open>
  C21: \<open>mdb_reader_check0\<close> frees the slots of dead processes and no others: with every
  lock granted and the liveness of processes unchanged during the check, exactly the claimed
  slots of processes that are neither this one nor alive lose their process ID, the count of
  them is returned, and each process is checked once though it may hold many slots.
\<close>

theorem reader_check_correct:
  assumes "\<And>k. lock k = 0"
  shows "mdb_reader_check0 True alive alive lock env ti rlocked =
    (let dead = dead_slots alive (me_pid env) (mti_readers ti) 0 (mti_numreaders ti) in
     (env\<lparr>me_txns := Some (ti\<lparr>mti_readers := clear_slots dead (mti_readers ti)\<rparr>)\<rparr>, Some (card dead), Inr ()))"
proof -
  let ?pids = "0 # replicate (mti_numreaders ti) (0 :: int)"
  have p: "?pids ! 0 = 0" "length ?pids = Suc (mti_numreaders ti)" by simp_all
  then have c: "pid_count ?pids = 0" by (simp add: pid_count_def)
  then have e: "pid_elems ?pids = []" by (simp add: pid_elems_def)
  have "pid_ok ?pids" by (simp add: pid_ok_def c e)
  then show ?thesis
    using reader_check_loop_spec [of ?pids "mti_numreaders ti" lock 0 "mti_readers ti" alive "\<not> rlocked" "me_pid env" 0]
      assms c e by (simp add: mdb_reader_check0_def Let_def)
qed

theorem reader_check_witness:
  "fst (snd (mdb_reader_check0 True (\<lambda>_. False) (\<lambda>_. False) (\<lambda>_. 0) env0
     \<lparr>mti_txnid = 5, mti_numreaders = 2, mti_readers = (\<lambda>k. \<lparr>mr_txnid = 4, mr_pid = 7, mr_tid = 1\<rparr>)\<rparr> False)) = Some 2"
  using reader_check_correct [of "\<lambda>_. 0" "\<lambda>_. False" env0
    "\<lparr>mti_txnid = 5, mti_numreaders = 2, mti_readers = (\<lambda>k. \<lparr>mr_txnid = 4, mr_pid = 7, mr_tid = 1\<rparr>)\<rparr>" False]
  by (simp add: Let_def dead_slots_def env0_def)

end
