(* ===== verification/Ops.thy ===== *)
theory Ops
  imports Meta
begin

text \<open>
  Operations of the engine as functions of the whole state. An operation changes the state
  and returns a value or an error code; the state it leaves when it fails is kept, as in the
  code. \<open>None\<close> is undefined behaviour of the code: a failed assertion, the use of a freed
  page or of a NULL pointer, a write to the read-only map. With them the memory of pages:
  \<open>mdb_page_malloc\<close>, \<open>mdb_page_free\<close>, \<open>mdb_dpage_free\<close> and \<open>mdb_dlist_free\<close>.
\<close>

section \<open>Sequencing\<close>

type_synonym 'a op = "mdb_state \<Rightarrow> (mdb_state \<times> (mdb_err + 'a)) option"

definition ret :: "'a \<Rightarrow> 'a op" where
  "ret x = (\<lambda>s. Some (s, Inr x))"

definition err :: "mdb_err \<Rightarrow> 'a op" where
  "err e = (\<lambda>s. Some (s, Inl e))"

definition stuck :: "'a op" where
  "stuck = (\<lambda>s. None)"

definition bindM :: "'a op \<Rightarrow> ('a \<Rightarrow> 'b op) \<Rightarrow> 'b op" where
  "bindM m f = (\<lambda>s. case m s of
     None \<Rightarrow> None
   | Some (s', Inl e) \<Rightarrow> Some (s', Inl e)
   | Some (s', Inr x) \<Rightarrow> f x s')"

text \<open>\<open>rc = m; \<dots>\<close>: go on with the result, whether it is an error or not.\<close>

definition tryM :: "'a op \<Rightarrow> (mdb_err + 'a \<Rightarrow> 'b op) \<Rightarrow> 'b op" where
  "tryM m f = (\<lambda>s. case m s of None \<Rightarrow> None | Some (s', r) \<Rightarrow> f r s')"

definition seqM :: "unit op \<Rightarrow> 'b op \<Rightarrow> 'b op" where
  "seqM m n = bindM m (\<lambda>_. n)"

definition getM :: "(mdb_state \<Rightarrow> 'a) \<Rightarrow> 'a op" where
  "getM f = (\<lambda>s. Some (s, Inr (f s)))"

definition updM :: "(mdb_state \<Rightarrow> mdb_state) \<Rightarrow> unit op" where
  "updM f = (\<lambda>s. Some (f s, Inr ()))"

definition assertM :: "(mdb_state \<Rightarrow> bool) \<Rightarrow> unit op" where
  "assertM P = (\<lambda>s. if P s then Some (s, Inr ()) else None)"

definition whenM :: "bool \<Rightarrow> unit op \<Rightarrow> unit op" where
  "whenM b m = (if b then m else ret ())"

text \<open>On an error, change the state and pass the error on (\<open>goto fail\<close>).\<close>

definition onfail :: "(mdb_state \<Rightarrow> mdb_state) \<Rightarrow> 'a op \<Rightarrow> 'a op" where
  "onfail f m = (\<lambda>s. case m s of Some (s', Inl e) \<Rightarrow> Some (f s', Inl e) | r \<Rightarrow> r)"

text \<open>The page a pointer refers to, and a store through the pointer.\<close>

definition pageM :: "page_ref \<Rightarrow> mdb_page op" where
  "pageM r = (\<lambda>s. case page_at s r of None \<Rightarrow> None | Some p \<Rightarrow> Some (s, Inr p))"

definition set_pageM :: "page_ref \<Rightarrow> mdb_page \<Rightarrow> unit op" where
  "set_pageM r p = (\<lambda>s. case set_page s r p of None \<Rightarrow> None | Some s' \<Rightarrow> Some (s', Inr ()))"

definition upd_pageM :: "page_ref \<Rightarrow> (mdb_page \<Rightarrow> mdb_page) \<Rightarrow> unit op" where
  "upd_pageM r f = bindM (pageM r) (\<lambda>p. set_pageM r (f p))"

text \<open>A new cursor on the stack of a function; the fields of a cursor.\<close>

definition new_cursor :: "nat op" where
  "new_cursor = (\<lambda>s. Some (s\<lparr>st_cfresh := st_cfresh s + 1\<rparr>, Inr (st_cfresh s)))"

definition curM :: "nat \<Rightarrow> mdb_cursor op" where
  "curM mc = getM (\<lambda>s. st_cursors s mc)"

definition upd_curM :: "nat \<Rightarrow> (mdb_cursor \<Rightarrow> mdb_cursor) \<Rightarrow> unit op" where
  "upd_curM mc f = updM (\<lambda>s. s\<lparr>st_cursors := (st_cursors s)(mc := f (st_cursors s mc))\<rparr>)"

abbreviation envM :: "(mdb_env \<Rightarrow> mdb_env) \<Rightarrow> unit op" where
  "envM f \<equiv> updM (\<lambda>s. s\<lparr>st_env := f (st_env s)\<rparr>)"

abbreviation txnM :: "(mdb_txn \<Rightarrow> mdb_txn) \<Rightarrow> unit op" where
  "txnM f \<equiv> updM (\<lambda>s. s\<lparr>st_txn := f (st_txn s)\<rparr>)"

abbreviation flagM :: "u32 \<Rightarrow> unit op" where
  "flagM fl \<equiv> txnM (\<lambda>t. t\<lparr>mt_flags := mt_flags t OR fl\<rparr>)"

text \<open>Whether the next allocation succeeds.\<close>

definition askM :: "bool op" where
  "askM = (\<lambda>s. Some (s\<lparr>st_clock := st_clock s + 1\<rparr>, Inr (st_oracle s (st_clock s))))"

text \<open>An operation of a list of page numbers that may reallocate it.\<close>

definition idlM :: "(bool \<Rightarrow> midl \<Rightarrow> mdb_err + midl) \<Rightarrow> midl \<Rightarrow> midl op" where
  "idlM f l = bindM askM (\<lambda>ok. case f ok l of Inl e \<Rightarrow> err e | Inr l' \<Rightarrow> ret l')"

section \<open>Rules\<close>

named_theorems op_simps \<open>how operations run\<close>

lemma ret_run [op_simps]: "ret x s = Some (s, Inr x)"
  and err_run [op_simps]: "err e s = Some (s, Inl e)"
  and stuck_run [op_simps]: "stuck s = None"
  and getM_run [op_simps]: "getM f s = Some (s, Inr (f s))"
  and updM_run [op_simps]: "updM g s = Some (g s, Inr ())"
  and assertM_run [op_simps]: "assertM P s = (if P s then Some (s, Inr ()) else None)"
  and curM_run [op_simps]: "curM mc s = Some (s, Inr (st_cursors s mc))"
  and askM_run [op_simps]: "askM s = Some (s\<lparr>st_clock := st_clock s + 1\<rparr>, Inr (st_oracle s (st_clock s)))"
  and new_cursor_run [op_simps]: "new_cursor s = Some (s\<lparr>st_cfresh := st_cfresh s + 1\<rparr>, Inr (st_cfresh s))"
  and upd_curM_run [op_simps]:
    "upd_curM mc h s = Some (s\<lparr>st_cursors := (st_cursors s)(mc := h (st_cursors s mc))\<rparr>, Inr ())"
  by (simp_all add: ret_def err_def stuck_def getM_def updM_def assertM_def curM_def askM_def new_cursor_def
      upd_curM_def)

lemma bindM_run [op_simps]:
  "bindM m f s = (case m s of None \<Rightarrow> None | Some (s', Inl e) \<Rightarrow> Some (s', Inl e) | Some (s', Inr x) \<Rightarrow> f x s')"
  and tryM_run [op_simps]: "tryM m g s = (case m s of None \<Rightarrow> None | Some (s', r) \<Rightarrow> g r s')"
  and seqM_run [op_simps]:
    "seqM m' n s = (case m' s of None \<Rightarrow> None | Some (s', Inl e) \<Rightarrow> Some (s', Inl e) | Some (s', Inr x) \<Rightarrow> n s')"
  and whenM_run [op_simps]: "whenM b m' s = (if b then m' s else Some (s, Inr ()))"
  and onfail_run [op_simps]:
    "onfail h m s = (case m s of Some (s', Inl e) \<Rightarrow> Some (h s', Inl e) | r \<Rightarrow> r)"
  by (simp_all add: bindM_def tryM_def seqM_def whenM_def onfail_def ret_def)

lemma pageM_run [op_simps]: "page_at s r = Some p \<Longrightarrow> pageM r s = Some (s, Inr p)"
  by (simp add: pageM_def)

lemma set_pageM_run [op_simps]: "set_page s r p = Some s' \<Longrightarrow> set_pageM r p s = Some (s', Inr ())"
  by (simp add: set_pageM_def)

lemma upd_pageM_heap [op_simps]:
  "st_heap s a = Some p \<Longrightarrow>
    upd_pageM (HeapPg a) f s = Some (s\<lparr>st_heap := (st_heap s)(a := Some (f p))\<rparr>, Inr ())"
  by (simp add: upd_pageM_def bindM_run pageM_def set_pageM_def)

section \<open>Memory of pages\<close>

text \<open>
  \<open>mdb_page_malloc\<close>: a single page comes from the list of freed pages if there is one;
  fresh memory is cleared after the header, for several pages on the last page only. A
  failed allocation marks the transaction and gives NULL.
\<close>

definition cleared :: "nat \<Rightarrow> nat \<Rightarrow> mdb_page \<Rightarrow> mdb_page" where
  "cleared off psize p =
     p\<lparr>mp_ptrs := (\<lambda>i. if off \<le> PAGEHDRSZ + 2 * i \<and> PAGEHDRSZ + 2 * i < off + psize then 0 else mp_ptrs p i),
       mp_body := (\<lambda>x. if off \<le> x \<and> x < off + psize then 0 else mp_body p x), mp_pad := 0\<rparr>"

definition mdb_page_malloc :: "nat \<Rightarrow> page_ref op" where
  "mdb_page_malloc num =
     bindM (getM st_env) (\<lambda>env.
     if num = 1 \<and> me_dpages env \<noteq> [] then
       seqM (envM (\<lambda>e. e\<lparr>me_dpages := tl (me_dpages e)\<rparr>))
       (ret (HeapPg (hd (me_dpages env))))
     else
       (let psize = me_psize env;
            (psize, off) = (if num = 1 then (psize - PAGEHDRSZ, PAGEHDRSZ) else (psize, psize * num - psize))
        in bindM askM (\<lambda>ok.
           if ok then
             bindM (getM st_fresh) (\<lambda>a.
             bindM (getM (\<lambda>s. st_raw s a)) (\<lambda>p.
             seqM (updM (\<lambda>s. s\<lparr>st_fresh := a + 1, st_heap := (st_heap s)(a :=
                Some (if any_set (me_flags env) MDB_NOMEMINIT then p else cleared off psize p))\<rparr>))
             (ret (HeapPg a))))
           else seqM (flagM MDB_TXN_ERROR) (ret NullPg))))"

text \<open>A single page is kept for later; the block of a large one is freed.\<close>

definition mdb_page_free :: "page_ref \<Rightarrow> unit op" where
  "mdb_page_free mp =
     (case mp of HeapPg a \<Rightarrow> envM (\<lambda>e. e\<lparr>me_dpages := a # me_dpages e\<rparr>) | _ \<Rightarrow> stuck)"

definition mdb_dpage_free :: "page_ref \<Rightarrow> unit op" where
  "mdb_dpage_free dp =
     bindM (pageM dp) (\<lambda>p.
     if \<not> IS_OVERFLOW p \<or> mp_pages p = 1 then mdb_page_free dp
     else (case dp of
             HeapPg a \<Rightarrow> updM (\<lambda>s. s\<lparr>st_heap := (st_heap s)(a := None)\<rparr>)
           | _ \<Rightarrow> stuck))"

text \<open>\<open>for (i = 1; i <= n; i++) mdb_dpage_free(env, dl[i].mptr);\<close>\<close>

fun dlist_free_loop :: "page_ref id2l \<Rightarrow> nat \<Rightarrow> nat \<Rightarrow> unit op" where
  "dlist_free_loop dl i 0 = ret ()"
| "dlist_free_loop dl i (Suc n) = seqM (mdb_dpage_free (mptr (dl ! i))) (dlist_free_loop dl (i + 1) n)"

definition mdb_dlist_free :: "unit op" where
  "mdb_dlist_free =
     bindM (getM (\<lambda>s. mt_dirty_list (st_txn s))) (\<lambda>dl.
     seqM (dlist_free_loop dl 1 (id2l_count dl))
     (txnM (\<lambda>t. t\<lparr>mt_dirty_list := (mt_dirty_list t)[0 := (mt_dirty_list t ! 0)\<lparr>mid := 0\<rparr>]\<rparr>)))"

end
