(* ===== verification/Cursor.thy ===== *)
theory Cursor
  imports Ops Search
begin

text \<open>
  Cursors of \<open>mdb.c\<close>: a path of (page, index) pairs from the root of a database to a leaf.
  Looking up pages by number (\<open>mdb_page_get\<close>), the descent (\<open>mdb_page_search\<close>), reading a
  node, and the moves of \<open>mdb_cursor_get\<close>. Making pages writable on the way down is
  \<open>mdb_page_touch\<close>, which itself searches the free database: it is the parameter \<open>touch\<close>
  of the descent. Keys and data are byte strings; the key of a search is \<open>None\<close> for NULL.
  Databases with sorted duplicates are out of scope, and using one is undefined here.
\<close>

section \<open>Finding a page\<close>

text \<open>A spilled page is in the list with its number shifted left by one bit.\<close>

definition spilled_at :: "mdb_txn \<Rightarrow> u64 \<Rightarrow> nat option" where
  "spilled_at txn pgno =
     (case mt_spill_pgs txn of None \<Rightarrow> None
      | Some sl \<Rightarrow>
          (let pn = push_bit 1 pgno; x = mdb_midl_search (mi_ids sl) pn in
           if word_of_nat x \<le> mi_ids sl ! 0 \<and> mi_ids sl ! x = pn then Some x else None))"

definition dirty_at :: "mdb_txn \<Rightarrow> u64 \<Rightarrow> nat option" where
  "dirty_at txn pgno =
     (let dl = mt_dirty_list txn in
      if mid (dl ! 0) \<noteq> 0 then
        (let x = mdb_mid2l_search dl pgno in
         if word_of_nat x \<le> mid (dl ! 0) \<and> mid (dl ! x) = pgno then Some x else None)
      else None)"

text \<open>
  \<open>mdb_page_get\<close>: the page and its level, 1 for a page of this transaction (its dirty list,
  or the map where it was spilled to), 0 for a page of the map.
\<close>

definition page_lookup :: "mdb_env \<Rightarrow> mdb_txn \<Rightarrow> u64 \<Rightarrow> (page_ref \<times> nat) option" where
  "page_lookup env txn pgno =
     (let mapped = (if pgno < mt_next_pgno txn then Some (MapPg pgno, 0) else None) in
      if \<not> any_set (mt_flags txn) MDB_TXN_RDONLY \<and> \<not> any_set (me_flags env) MDB_WRITEMAP then
        (if spilled_at txn pgno \<noteq> None then Some (MapPg pgno, 1)
         else (case dirty_at txn pgno of
                 Some x \<Rightarrow> Some (mptr (mt_dirty_list txn ! x), 1)
               | None \<Rightarrow> mapped))
      else mapped)"

definition mdb_page_get :: "u64 \<Rightarrow> (page_ref \<times> nat) op" where
  "mdb_page_get pgno =
     bindM (getM (\<lambda>s. page_lookup (st_env s) (st_txn s) pgno)) (\<lambda>r.
     case r of
       Some p \<Rightarrow> ret p
     | None \<Rightarrow> seqM (flagM MDB_TXN_ERROR) (err MDB_PAGE_NOTFOUND))"

section \<open>The stack of a cursor\<close>

text \<open>The top page; using an unset one is undefined.\<close>

definition top_ref :: "mdb_cursor \<Rightarrow> page_ref" where
  "top_ref c = mc_pg c (mc_top c)"

definition top_ki :: "mdb_cursor \<Rightarrow> nat" where
  "top_ki c = mc_ki c (mc_top c)"

definition set_top_ki :: "nat \<Rightarrow> mdb_cursor \<Rightarrow> mdb_cursor" where
  "set_top_ki i c = c\<lparr>mc_ki := (mc_ki c)(mc_top c := indx_t i)\<rparr>"

definition topM :: "nat \<Rightarrow> mdb_page op" where
  "topM mc = bindM (curM mc) (\<lambda>c. pageM (top_ref c))"

definition mdb_cursor_pop :: "mdb_cursor \<Rightarrow> mdb_cursor" where
  "mdb_cursor_pop c =
     (if mc_snum c \<noteq> 0 then
        (let c = c\<lparr>mc_snum := mc_snum c - 1\<rparr> in
         if mc_snum c \<noteq> 0 then c\<lparr>mc_top := mc_top c - 1\<rparr> else c)
      else c)"

definition mdb_cursor_push :: "nat \<Rightarrow> page_ref \<Rightarrow> unit op" where
  "mdb_cursor_push mc mp =
     bindM (curM mc) (\<lambda>c.
     if mc_snum c \<ge> CURSOR_STACK then seqM (flagM MDB_TXN_ERROR) (err MDB_CURSOR_FULL)
     else upd_curM mc (\<lambda>c. c\<lparr>mc_top := mc_snum c, mc_snum := mc_snum c + 1,
                            mc_pg := (mc_pg c)(mc_snum c := mp), mc_ki := (mc_ki c)(mc_snum c := 0)\<rparr>))"

text \<open>The comparison of the cursor's database, and the search in its top page.\<close>

definition cursor_db :: "mdb_state \<Rightarrow> nat \<Rightarrow> mdb_db" where
  "cursor_db s mc = mt_dbs (st_txn s) (mc_dbi (st_cursors s mc))"

definition cmpM :: "nat \<Rightarrow> bytes \<Rightarrow> bytes \<Rightarrow> int op" where
  "cmpM mc a b =
     bindM (curM mc) (\<lambda>c.
     bindM (getM (\<lambda>s. (st_user s, md_cmp (me_dbxs (st_env s) (mc_dbi c))))) (\<lambda>(user, cmp).
     case cmp of None \<Rightarrow> stuck | Some f \<Rightarrow> ret (run_cmp user f a b)))"

definition node_searchM :: "nat \<Rightarrow> bytes \<Rightarrow> (bool \<times> nat option) op" where
  "node_searchM mc key =
     bindM (topM mc) (\<lambda>mp.
     bindM (curM mc) (\<lambda>c.
     bindM (getM (\<lambda>s. (st_user s, md_cmp (me_dbxs (st_env s) (mc_dbi c)), md_pad (cursor_db s mc))))
       (\<lambda>(user, cmp, pad).
     case cmp of None \<Rightarrow> stuck
     | Some f \<Rightarrow>
         (case mdb_node_search user f (unat pad) mp key of
            (exact, i, node) \<Rightarrow> seqM (upd_curM mc (set_top_ki i)) (ret (exact, node))))))"

section \<open>Reading a node\<close>

definition mdb_node_read :: "mem \<Rightarrow> nat \<Rightarrow> bytes op" where
  "mdb_node_read m leaf =
     (if \<not> F_ISSET (mn_flags m leaf) F_BIGDATA then ret (rd m (NODEDATA m leaf) (unat (NODEDSZ m leaf)))
      else
        (let size = unat (NODEDSZ m leaf); pgno = bytes_u64 (rd m (NODEDATA m leaf) 8) in
         bindM (mdb_page_get pgno) (\<lambda>(omp, lvl).
         bindM (pageM omp) (\<lambda>p. ret (rd (mp_body p) PAGEHDRSZ size)))))"

section \<open>The descent\<close>

definition MDB_PS_MODIFY :: u32 where "MDB_PS_MODIFY = 1"
definition MDB_PS_ROOTONLY :: u32 where "MDB_PS_ROOTONLY = 2"
definition MDB_PS_FIRST :: u32 where "MDB_PS_FIRST = 4"
definition MDB_PS_LAST :: u32 where "MDB_PS_LAST = 8"

text \<open>The child to follow on a branch page.\<close>

definition search_child :: "nat \<Rightarrow> mdb_page \<Rightarrow> bytes option \<Rightarrow> u32 \<Rightarrow> nat op" where
  "search_child mc mp key flags =
     (if any_set flags (MDB_PS_FIRST OR MDB_PS_LAST)
      then ret (if any_set flags MDB_PS_LAST then NUMKEYS mp - 1 else 0)
      else
        (case key of None \<Rightarrow> stuck
         | Some k \<Rightarrow>
             bindM (node_searchM mc k) (\<lambda>(exact, node).
             case node of
               None \<Rightarrow> ret (NUMKEYS mp - 1)
             | Some _ \<Rightarrow>
                 bindM (curM mc) (\<lambda>c.
                 if \<not> exact then seqM (assertM (\<lambda>_. top_ki c > 0)) (ret (top_ki c - 1))
                 else ret (top_ki c)))))"

text \<open>
  The loop \<open>while (IS_BRANCH(mp))\<close>. Every round pushes a page, so \<open>CURSOR_STACK\<close> rounds
  are enough; the first argument counts them down. The result is the last page.
\<close>

fun search_root_loop ::
  "nat \<Rightarrow> (nat \<Rightarrow> unit op) \<Rightarrow> nat \<Rightarrow> page_ref \<Rightarrow> bytes option \<Rightarrow> u32 \<Rightarrow> page_ref op" where
  "search_root_loop fuel touch mc mpr key flags =
     bindM (pageM mpr) (\<lambda>mp.
     if \<not> IS_BRANCH mp then ret mpr
     else
       (case fuel of
          0 \<Rightarrow> stuck
        | Suc fuel \<Rightarrow>
            seqM (assertM (\<lambda>_. NUMKEYS mp > 1))
            (bindM (search_child mc mp key flags) (\<lambda>i.
             seqM (assertM (\<lambda>_. i < NUMKEYS mp))
             (bindM (mdb_page_get (NODEPGNO (mp_body mp) (NODEPTR mp i))) (\<lambda>(child, lvl).
              seqM (upd_curM mc (set_top_ki i))
              (seqM (mdb_cursor_push mc child)
              (if any_set flags MDB_PS_MODIFY then
                 seqM (touch mc)
                 (bindM (curM mc) (\<lambda>c. search_root_loop fuel touch mc (top_ref c) key flags))
               else search_root_loop fuel touch mc child key flags))))))))"

declare search_root_loop.simps [simp del]

definition mdb_page_search_root :: "(nat \<Rightarrow> unit op) \<Rightarrow> nat \<Rightarrow> bytes option \<Rightarrow> u32 \<Rightarrow> unit op" where
  "mdb_page_search_root touch mc key flags =
     bindM (curM mc) (\<lambda>c.
     bindM (search_root_loop CURSOR_STACK touch mc (top_ref c) key flags) (\<lambda>mpr.
     bindM (pageM mpr) (\<lambda>mp.
     if \<not> IS_LEAF mp then seqM (flagM MDB_TXN_ERROR) (err MDB_CORRUPTED)
     else upd_curM mc (\<lambda>c. c\<lparr>mc_flags := clear_flag (mc_flags c OR C_INITIALIZED) C_EOF\<rparr>))))"

definition mdb_page_search_lowest :: "nat \<Rightarrow> unit op" where
  "mdb_page_search_lowest mc =
     bindM (topM mc) (\<lambda>mp.
     bindM (mdb_page_get (NODEPGNO (mp_body mp) (NODEPTR mp 0))) (\<lambda>(child, lvl).
     seqM (upd_curM mc (set_top_ki 0))
     (seqM (mdb_cursor_push mc child)
     (mdb_page_search_root (\<lambda>_. stuck) mc None MDB_PS_FIRST))))"

text \<open>
  \<open>mdb_cursor_init\<close>, with the search it makes for the root of a stale database as a
  parameter; a failure of that search is ignored.
\<close>

definition cursor_init_with :: "(nat \<Rightarrow> unit op) \<Rightarrow> nat \<Rightarrow> nat \<Rightarrow> unit op" where
  "cursor_init_with search_rootonly mc dbi =
     seqM (upd_curM mc (\<lambda>c. c\<lparr>mc_dbi := dbi, mc_snum := 0, mc_top := 0,
                            mc_pg := (mc_pg c)(0 := NullPg), mc_flags := 0\<rparr>))
     (seqM (assertM (\<lambda>s. \<not> any_set (md_flags (mt_dbs (st_txn s) dbi)) MDB_DUPSORT))
     (bindM (getM (\<lambda>s. mt_dbflags (st_txn s) dbi)) (\<lambda>dbflag.
      whenM (any_set dbflag DB_STALE) (tryM (search_rootonly mc) (\<lambda>_. ret ())))))"

text \<open>The bytes of a database record, as a named database has them in its node.\<close>

definition db_flags_in :: "bytes \<Rightarrow> u16" where
  "db_flags_in data = word_of_nat (of_le (take 2 (drop 4 data)))"

text \<open>
  \<open>mdb_page_search\<close>. The record of a stale named database is first read from the main
  database, whose own record never is stale: the nesting, bounded by the first argument, is
  2 at most.
\<close>

text \<open>A read-only transaction has no sequence numbers of its own: it shares the environment's.\<close>

definition TXN_DBI_CHANGED :: "mdb_state \<Rightarrow> nat \<Rightarrow> bool" where
  "TXN_DBI_CHANGED s dbi \<longleftrightarrow> \<not> any_set (mt_flags (st_txn s)) MDB_TXN_RDONLY \<and> mt_dbiseqs (st_txn s) dbi \<noteq> me_dbiseqs (st_env s) dbi"

definition read_stale_db :: "(nat \<Rightarrow> bytes option \<Rightarrow> u32 \<Rightarrow> unit op) \<Rightarrow> nat \<Rightarrow> unit op" where
  "read_stale_db search mc =
     bindM (curM mc) (\<lambda>c.
     bindM (getM (\<lambda>s. (TXN_DBI_CHANGED s (mc_dbi c), md_name (me_dbxs (st_env s) (mc_dbi c))))) (\<lambda>(changed, name).
     if changed then err MDB_BAD_DBI
     else
       bindM new_cursor (\<lambda>mc2.
       seqM (cursor_init_with (\<lambda>mc. search mc None MDB_PS_ROOTONLY) mc2 MAIN_DBI)
       (seqM (search mc2 name 0)
       (case name of None \<Rightarrow> stuck
        | Some nm \<Rightarrow>
            bindM (node_searchM mc2 nm) (\<lambda>(exact, leaf).
            if \<not> exact then err MDB_NOTFOUND
            else (case leaf of None \<Rightarrow> stuck
             | Some node \<Rightarrow>
                 bindM (topM mc2) (\<lambda>mp.
                 bindM (mdb_node_read (mp_body mp) node) (\<lambda>data.
                 bindM (getM (\<lambda>s. cursor_db s mc)) (\<lambda>db.
                 if md_flags db AND PERSISTENT_FLAGS \<noteq> db_flags_in data then err MDB_INCOMPATIBLE
                 else txnM (\<lambda>t. t\<lparr>mt_dbs := (mt_dbs t)(mc_dbi c := bytes_db data),
                                 mt_dbflags := (mt_dbflags t)(mc_dbi c := clear_flag (mt_dbflags t (mc_dbi c)) DB_STALE)\<rparr>)))))))))))"

text \<open>\<open>!mc->mc_pg[0] || mc->mc_pg[0]->mp_pgno != root\<close>\<close>

definition root_cached :: "page_ref \<Rightarrow> u64 \<Rightarrow> bool op" where
  "root_cached r root =
     (if r = NullPg then ret False else bindM (pageM r) (\<lambda>p. ret (mp_pgno p = root)))"

fun page_search :: "nat \<Rightarrow> (nat \<Rightarrow> unit op) \<Rightarrow> nat \<Rightarrow> bytes option \<Rightarrow> u32 \<Rightarrow> unit op" where
  "page_search n touch mc key flags =
     bindM (getM st_txn) (\<lambda>txn.
     if F_ISSET (mt_flags txn) MDB_TXN_ERROR then err MDB_BAD_TXN
     else
       bindM (curM mc) (\<lambda>c.
       seqM (if any_set (mt_dbflags txn (mc_dbi c)) DB_STALE
             then (case n of 0 \<Rightarrow> stuck | Suc n \<Rightarrow> read_stale_db (page_search n (\<lambda>_. stuck)) mc)
             else ret ())
       (bindM (getM (\<lambda>s. md_root (cursor_db s mc))) (\<lambda>root.
        if root = P_INVALID then err MDB_NOTFOUND
        else
          seqM (assertM (\<lambda>_. root > 1))
          (bindM (root_cached (mc_pg c 0) root) (\<lambda>cached.
           seqM (if cached then ret ()
                 else bindM (mdb_page_get root) (\<lambda>(r, lvl). upd_curM mc (\<lambda>c. c\<lparr>mc_pg := (mc_pg c)(0 := r)\<rparr>)))
           (seqM (upd_curM mc (\<lambda>c. c\<lparr>mc_snum := 1, mc_top := 0\<rparr>))
           (seqM (if any_set flags MDB_PS_MODIFY then touch mc else ret ())
           (if any_set flags MDB_PS_ROOTONLY then ret ()
            else mdb_page_search_root touch mc key flags)))))))))"

declare page_search.simps [simp del]

definition mdb_page_search :: "(nat \<Rightarrow> unit op) \<Rightarrow> nat \<Rightarrow> bytes option \<Rightarrow> u32 \<Rightarrow> unit op" where
  "mdb_page_search touch mc key flags = page_search 2 touch mc key flags"

text \<open>A search that does not modify.\<close>

abbreviation search_ro :: "nat \<Rightarrow> bytes option \<Rightarrow> u32 \<Rightarrow> unit op" where
  "search_ro \<equiv> mdb_page_search (\<lambda>_. stuck)"

definition mdb_cursor_init :: "nat \<Rightarrow> nat \<Rightarrow> unit op" where
  "mdb_cursor_init mc dbi = cursor_init_with (\<lambda>mc. search_ro mc None MDB_PS_ROOTONLY) mc dbi"

end
