(* ===== verification/Cursor_Get.thy ===== *)
theory Cursor_Get
  imports Cursor
begin

text \<open>
  The moves of a cursor and the read operations of the interface: \<open>mdb_cursor_sibling\<close>,
  \<open>mdb_cursor_next\<close>, \<open>mdb_cursor_prev\<close>, \<open>mdb_cursor_set\<close>, \<open>mdb_cursor_first\<close>,
  \<open>mdb_cursor_last\<close>, \<open>mdb_cursor_get\<close> and \<open>mdb_get\<close>. A move returns the key and, when the
  caller asked for it, the data.
\<close>

section \<open>Siblings\<close>

text \<open>The child at the new index is looked up and pushed; to the left its last node is next.\<close>

definition sibling_child :: "nat \<Rightarrow> bool \<Rightarrow> unit op" where
  "sibling_child mc move_right =
     bindM (topM mc) (\<lambda>mp.
     seqM (assertM (\<lambda>_. IS_BRANCH mp))
     (bindM (curM mc) (\<lambda>c.
      bindM (tryM (mdb_page_get (NODEPGNO (mp_body mp) (NODEPTR mp (top_ki c)))) (\<lambda>r.
         case r of
           Inl e \<Rightarrow> seqM (upd_curM mc (\<lambda>c. c\<lparr>mc_flags := clear_flag (mc_flags c) (C_INITIALIZED OR C_EOF)\<rparr>)) (err e)
         | Inr x \<Rightarrow> ret x)) (\<lambda>(child, lvl).
      tryM (mdb_cursor_push mc child) (\<lambda>_.
      if move_right then ret ()
      else bindM (pageM child) (\<lambda>p. upd_curM mc (set_top_ki (indx_sub (NUMKEYS p) 1))))))))"

text \<open>
  Every level of the recursion pops a page, so the size of the stack bounds it (the first
  argument). A failure below restores the stack.
\<close>

fun cursor_sibling :: "nat \<Rightarrow> nat \<Rightarrow> bool \<Rightarrow> unit op" where
  "cursor_sibling n mc move_right =
     bindM (curM mc) (\<lambda>c0.
     if mc_snum c0 < 2 then err MDB_NOTFOUND
     else
       (case n of 0 \<Rightarrow> stuck
        | Suc n \<Rightarrow>
          seqM (upd_curM mc mdb_cursor_pop)
          (bindM (curM mc) (\<lambda>c.
           bindM (pageM (top_ref c)) (\<lambda>mp.
           bindM
             (if (if move_right then top_ki c + 1 \<ge> NUMKEYS mp else top_ki c = 0) then
                tryM (cursor_sibling n mc move_right) (\<lambda>r.
                  case r of
                    Inl e \<Rightarrow> seqM (upd_curM mc (\<lambda>c. c\<lparr>mc_top := mc_top c + 1, mc_snum := mc_snum c + 1\<rparr>)) (err e)
                  | Inr x \<Rightarrow> ret ())
              else if move_right then upd_curM mc (\<lambda>c. set_top_ki (top_ki c + 1) c)
              else upd_curM mc (\<lambda>c. set_top_ki (top_ki c - 1) c))
             (\<lambda>_.
           sibling_child mc move_right))))))"

declare cursor_sibling.simps [simp del]

definition mdb_cursor_sibling :: "nat \<Rightarrow> bool \<Rightarrow> unit op" where
  "mdb_cursor_sibling mc move_right = bindM (curM mc) (\<lambda>c. cursor_sibling (mc_snum c) mc move_right)"

section \<open>Returning the item at the cursor\<close>

text \<open>
  The common end of the moves: on a \<open>P_LEAF2\<close> page the key only; otherwise the data is read,
  if asked for, and then the key. An item with sorted duplicates is out of scope.
\<close>

definition node_item :: "bool \<Rightarrow> mdb_page \<Rightarrow> nat \<Rightarrow> (bytes \<times> bytes option) op" where
  "node_item want mp leaf =
     (if F_ISSET (mn_flags (mp_body mp) leaf) F_DUPDATA then stuck
      else if want then
        bindM (mdb_node_read (mp_body mp) leaf) (\<lambda>data. ret (NODEKEY (mp_body mp) leaf, Some data))
      else ret (NODEKEY (mp_body mp) leaf, None))"

definition leaf2_key :: "mdb_page \<Rightarrow> nat \<Rightarrow> nat \<Rightarrow> bytes" where
  "leaf2_key mp i pad = rd (mp_body mp) (LEAF2KEY i pad) pad"

definition item_at :: "nat \<Rightarrow> bool \<Rightarrow> (bytes \<times> bytes option) op" where
  "item_at mc want =
     bindM (topM mc) (\<lambda>mp.
     bindM (curM mc) (\<lambda>c.
     if IS_LEAF2 mp then
       bindM (getM (\<lambda>s. md_pad (cursor_db s mc))) (\<lambda>pad. ret (leaf2_key mp (top_ki c) (unat pad), None))
     else
       seqM (assertM (\<lambda>_. IS_LEAF mp))
       (node_item want mp (NODEPTR mp (top_ki c)))))"

text \<open>The database of a cursor has no sorted duplicates.\<close>

definition plain_db :: "nat \<Rightarrow> unit op" where
  "plain_db mc = assertM (\<lambda>s. \<not> any_set (md_flags (cursor_db s mc)) MDB_DUPSORT)"

section \<open>Next and previous\<close>

definition mdb_cursor_next :: "nat \<Rightarrow> bool \<Rightarrow> (bytes \<times> bytes option) op" where
  "mdb_cursor_next mc want =
     bindM (curM mc) (\<lambda>c.
     if any_set (mc_flags c) C_EOF then err MDB_NOTFOUND
     else
       seqM (assertM (\<lambda>_. any_set (mc_flags c) C_INITIALIZED))
       (seqM (plain_db mc)
       (seqM
         (if any_set (mc_flags c) C_DEL then ret ()
          else
            bindM (topM mc) (\<lambda>mp.
            if top_ki c + 1 \<ge> NUMKEYS mp then
              tryM (mdb_cursor_sibling mc True) (\<lambda>r.
                case r of Inl e \<Rightarrow> seqM (upd_curM mc (\<lambda>c. c\<lparr>mc_flags := mc_flags c OR C_EOF\<rparr>)) (err e)
                | Inr x \<Rightarrow> ret ())
            else upd_curM mc (\<lambda>c. set_top_ki (top_ki c + 1) c)))
       (item_at mc want))))"

definition mdb_cursor_prev :: "nat \<Rightarrow> bool \<Rightarrow> (bytes \<times> bytes option) op" where
  "mdb_cursor_prev mc want =
     bindM (curM mc) (\<lambda>c.
     seqM (assertM (\<lambda>_. any_set (mc_flags c) C_INITIALIZED))
     (seqM (plain_db mc)
     (seqM
       (if top_ki c = 0 then
          seqM (mdb_cursor_sibling mc False)
          (bindM (topM mc) (\<lambda>mp. upd_curM mc (set_top_ki (indx_sub (NUMKEYS mp) 1))))
        else upd_curM mc (\<lambda>c. set_top_ki (top_ki c - 1) c))
     (seqM (upd_curM mc (\<lambda>c. c\<lparr>mc_flags := clear_flag (mc_flags c) C_EOF\<rparr>))
     (item_at mc want)))))"

section \<open>First and last\<close>

definition mdb_cursor_first :: "nat \<Rightarrow> bool \<Rightarrow> (bytes \<times> bytes option) op" where
  "mdb_cursor_first mc want =
     bindM (curM mc) (\<lambda>c.
     seqM (if \<not> any_set (mc_flags c) C_INITIALIZED \<or> mc_top c \<noteq> 0
           then search_ro mc None MDB_PS_FIRST else ret ())
     (bindM (topM mc) (\<lambda>mp.
      seqM (assertM (\<lambda>_. IS_LEAF mp))
      (seqM (upd_curM mc (\<lambda>c. set_top_ki 0 (c\<lparr>mc_flags := clear_flag (mc_flags c OR C_INITIALIZED) C_EOF\<rparr>)))
      (item_at mc want)))))"

definition mdb_cursor_last :: "nat \<Rightarrow> bool \<Rightarrow> (bytes \<times> bytes option) op" where
  "mdb_cursor_last mc want =
     bindM (curM mc) (\<lambda>c.
     seqM (if any_set (mc_flags c) C_EOF then ret ()
           else
             seqM (if \<not> any_set (mc_flags c) C_INITIALIZED \<or> mc_top c \<noteq> 0
                   then search_ro mc None MDB_PS_LAST else ret ())
             (bindM (topM mc) (\<lambda>mp. assertM (\<lambda>_. IS_LEAF mp))))
     (bindM (topM mc) (\<lambda>mp.
      seqM (upd_curM mc (\<lambda>c. set_top_ki (indx_sub (NUMKEYS mp) 1)
                               (c\<lparr>mc_flags := mc_flags c OR (C_INITIALIZED OR C_EOF)\<rparr>)))
      (item_at mc want))))"

section \<open>Setting a cursor on a key\<close>

datatype cursor_op =
    MDB_FIRST | MDB_FIRST_DUP | MDB_GET_BOTH | MDB_GET_BOTH_RANGE | MDB_GET_CURRENT | MDB_GET_MULTIPLE
  | MDB_LAST | MDB_LAST_DUP | MDB_NEXT | MDB_NEXT_DUP | MDB_NEXT_MULTIPLE | MDB_NEXT_NODUP
  | MDB_PREV | MDB_PREV_DUP | MDB_PREV_NODUP | MDB_SET | MDB_SET_KEY | MDB_SET_RANGE

text \<open>
  Where \<open>mdb_cursor_set\<close> is after looking at the page the cursor is on: done with the
  index set and the node or slot found (\<open>set1\<close>), to search this page (\<open>set2\<close>), to search
  from the root, or to return an error.
\<close>

datatype set_where = At_set1 | At_set2 | From_root | Set_fails mdb_err

definition key_at :: "mdb_page \<Rightarrow> nat \<Rightarrow> nat \<Rightarrow> bytes" where
  "key_at mp pad i = (if any_set (mp_flags mp) P_LEAF2 then leaf2_key mp i pad
                      else NODEKEY (mp_body mp) (NODEPTR mp i))"

text \<open>
  \<open>for (i = 0; i < mc_top; i++) if (mc_ki[i] < NUMKEYS(mc_pg[i]) - 1) break;\<close> The
  comparison is of unsigned numbers, so it holds for a page without keys.
\<close>

fun parent_has_right :: "nat \<Rightarrow> nat \<Rightarrow> nat \<Rightarrow> bool op" where
  "parent_has_right mc i 0 = ret False"
| "parent_has_right mc i (Suc n) =
     bindM (curM mc) (\<lambda>c.
     bindM (pageM (mc_pg c i)) (\<lambda>p.
     if NUMKEYS p = 0 \<or> mc_ki c i < NUMKEYS p - 1 then ret True else parent_has_right mc (i + 1) n))"

text \<open>\<open>exactp\<close> tells whether the caller passed a pointer for the exact flag.\<close>

definition set_on_page :: "nat \<Rightarrow> bytes \<Rightarrow> cursor_op \<Rightarrow> bool \<Rightarrow> set_where op" where
  "set_on_page mc key oper exactp =
     bindM (topM mc) (\<lambda>mp.
     bindM (getM (\<lambda>s. unat (md_pad (cursor_db s mc)))) (\<lambda>pad.
     bindM (curM mc) (\<lambda>c.
     let nkeys = NUMKEYS mp; ki = (\<lambda>i. upd_curM mc (set_top_ki i));
         only_page =
           (if mc_top c = 0 then
              seqM (ki 0)
              (ret (if oper = MDB_SET_RANGE \<and> \<not> exactp then At_set1 else Set_fails MDB_NOTFOUND))
            else ret From_root)
     in
     if nkeys = 0 then seqM (ki 0) (ret (Set_fails MDB_NOTFOUND))
     else
       bindM (cmpM mc key (key_at mp pad 0)) (\<lambda>rc.
       if rc = 0 then seqM (ki 0) (ret (At_set1))
       else if rc > 0 then
         bindM
           (if nkeys > 1 then
              bindM (cmpM mc key (key_at mp pad (nkeys - 1))) (\<lambda>rc.
              if rc = 0 then seqM (ki (nkeys - 1)) (ret (Some (At_set1)))
              else if rc < 0 then
                (if top_ki c < nkeys then
                   bindM (cmpM mc key (key_at mp pad (top_ki c))) (\<lambda>rc.
                   ret (Some (if rc = 0 then At_set1 else At_set2)))
                 else ret (Some At_set2))
              else ret None)
            else ret None)
           (\<lambda>r. case r of
              Some w \<Rightarrow> ret w
            | None \<Rightarrow>
                bindM (parent_has_right mc 0 (mc_top c)) (\<lambda>right.
                if \<not> right then seqM (ki nkeys) (ret (Set_fails MDB_NOTFOUND))
                else only_page))
       else only_page))))"

text \<open>
  From the label \<open>set1\<close> on. The node is the one at the cursor's index: \<open>leaf\<close> is that node
  wherever the code jumps to the label (in the range case on the only page the first node).
\<close>

definition cursor_set1 :: "nat \<Rightarrow> bytes \<Rightarrow> bool \<Rightarrow> cursor_op \<Rightarrow> (bytes \<times> bytes option) op" where
  "cursor_set1 mc key want oper =
     seqM (upd_curM mc (\<lambda>c. c\<lparr>mc_flags := clear_flag (mc_flags c OR C_INITIALIZED) C_EOF\<rparr>))
     (bindM (topM mc) (\<lambda>mp.
      bindM (curM mc) (\<lambda>c.
      if IS_LEAF2 mp then
        bindM (getM (\<lambda>s. unat (md_pad (cursor_db s mc)))) (\<lambda>pad.
        ret (if oper = MDB_SET_RANGE \<or> oper = MDB_SET_KEY then leaf2_key mp (top_ki c) pad else key, None))
      else
        (let leaf = NODEPTR mp (top_ki c) in
         if F_ISSET (mn_flags (mp_body mp) leaf) F_DUPDATA then stuck
         else
           bindM (if want then
                    (if oper = MDB_GET_BOTH \<or> oper = MDB_GET_BOTH_RANGE then stuck
                     else bindM (mdb_node_read (mp_body mp) leaf) (\<lambda>d. ret (Some d)))
                  else ret None) (\<lambda>data.
           ret (if oper = MDB_SET_RANGE \<or> oper = MDB_SET_KEY then NODEKEY (mp_body mp) leaf else key, data))))))"

definition cursor_set2 :: "nat \<Rightarrow> bytes \<Rightarrow> bool \<Rightarrow> cursor_op \<Rightarrow> bool \<Rightarrow> (bytes \<times> bytes option) op" where
  "cursor_set2 mc key want oper exactp =
     bindM (node_searchM mc key) (\<lambda>(exact, leaf).
     if exactp \<and> \<not> exact then err MDB_NOTFOUND
     else
       seqM (case leaf of
               Some node \<Rightarrow> ret ()
             | None \<Rightarrow>
                 seqM (mdb_cursor_sibling mc True)
                 (bindM (topM mc) (\<lambda>mp. assertM (\<lambda>_. IS_LEAF mp))))
       (cursor_set1 mc key want oper))"

definition mdb_cursor_set :: "nat \<Rightarrow> bytes \<Rightarrow> bool \<Rightarrow> cursor_op \<Rightarrow> bool \<Rightarrow> (bytes \<times> bytes option) op" where
  "mdb_cursor_set mc key want oper exactp =
     (if length key = 0 then err MDB_BAD_VALSIZE
      else
        bindM (curM mc) (\<lambda>c.
        bindM (if any_set (mc_flags c) C_INITIALIZED then set_on_page mc key oper exactp else ret From_root) (\<lambda>w.
        case w of
          At_set1 \<Rightarrow> cursor_set1 mc key want oper
        | At_set2 \<Rightarrow> cursor_set2 mc key want oper exactp
        | Set_fails e \<Rightarrow> err e
        | From_root \<Rightarrow>
            seqM (search_ro mc (Some key) 0)
            (bindM (topM mc) (\<lambda>mp.
             seqM (assertM (\<lambda>_. IS_LEAF mp))
             (cursor_set2 mc key want oper exactp))))))"

section \<open>The read operations of the interface\<close>

text \<open>
  \<open>mdb_cursor_get\<close> on a database without sorted duplicates, where \<open>mc_xcursor\<close> is NULL.
  \<open>key\<close> is the caller's key, \<open>want\<close> whether a pointer for the data was passed.
\<close>

definition mdb_cursor_get :: "nat \<Rightarrow> bytes option \<Rightarrow> bool \<Rightarrow> cursor_op \<Rightarrow> (bytes \<times> bytes option) op" where
  "mdb_cursor_get mc key want oper =
     bindM (getM st_txn) (\<lambda>txn.
     if any_set (mt_flags txn) MDB_TXN_ERROR then err MDB_BAD_TXN
     else
       tryM
         (bindM (curM mc) (\<lambda>c.
          let init = any_set (mc_flags c) C_INITIALIZED in
          case oper of
            MDB_GET_CURRENT \<Rightarrow>
              (if \<not> init then err EINVAL
               else
                 bindM (topM mc) (\<lambda>mp.
                 if NUMKEYS mp = 0 \<or> top_ki c \<ge> NUMKEYS mp
                 then seqM (upd_curM mc (set_top_ki (NUMKEYS mp))) (err MDB_NOTFOUND)
                 else if IS_LEAF2 mp then
                   bindM (getM (\<lambda>s. unat (md_pad (cursor_db s mc)))) (\<lambda>pad. ret (leaf2_key mp (top_ki c) pad, None))
                 else node_item want mp (NODEPTR mp (top_ki c))))
          | MDB_GET_BOTH \<Rightarrow> err (if want then MDB_INCOMPATIBLE else EINVAL)
          | MDB_GET_BOTH_RANGE \<Rightarrow> err (if want then MDB_INCOMPATIBLE else EINVAL)
          | MDB_SET \<Rightarrow> (case key of None \<Rightarrow> err EINVAL | Some k \<Rightarrow> mdb_cursor_set mc k want oper True)
          | MDB_SET_KEY \<Rightarrow> (case key of None \<Rightarrow> err EINVAL | Some k \<Rightarrow> mdb_cursor_set mc k want oper True)
          | MDB_SET_RANGE \<Rightarrow> (case key of None \<Rightarrow> err EINVAL | Some k \<Rightarrow> mdb_cursor_set mc k want oper False)
          | MDB_GET_MULTIPLE \<Rightarrow> (if \<not> want \<or> \<not> init then err EINVAL else seqM (plain_db mc) (err MDB_INCOMPATIBLE))
          | MDB_NEXT_MULTIPLE \<Rightarrow> (if \<not> want then err EINVAL else seqM (plain_db mc) (err MDB_INCOMPATIBLE))
          | MDB_NEXT \<Rightarrow> (if \<not> init then mdb_cursor_first mc want else mdb_cursor_next mc want)
          | MDB_NEXT_DUP \<Rightarrow> (if \<not> init then mdb_cursor_first mc want else mdb_cursor_next mc want)
          | MDB_NEXT_NODUP \<Rightarrow> (if \<not> init then mdb_cursor_first mc want else mdb_cursor_next mc want)
          | MDB_FIRST \<Rightarrow> mdb_cursor_first mc want
          | MDB_LAST \<Rightarrow> mdb_cursor_last mc want
          | MDB_FIRST_DUP \<Rightarrow> (if \<not> want \<or> \<not> init then err EINVAL else err MDB_INCOMPATIBLE)
          | MDB_LAST_DUP \<Rightarrow> (if \<not> want \<or> \<not> init then err EINVAL else err MDB_INCOMPATIBLE)
          | _ \<Rightarrow>
              seqM (if init then ret ()
                    else
                      bindM (mdb_cursor_last mc want) (\<lambda>_.
                      upd_curM mc (\<lambda>c. set_top_ki (top_ki c + 1) (c\<lparr>mc_flags := mc_flags c OR C_INITIALIZED\<rparr>))))
              (mdb_cursor_prev mc want)))
         (\<lambda>r.
          seqM (upd_curM mc (\<lambda>c. if any_set (mc_flags c) C_DEL then c\<lparr>mc_flags := mc_flags c XOR C_DEL\<rparr> else c))
          (case r of Inl e \<Rightarrow> err e | Inr x \<Rightarrow> ret x)))"

definition TXN_DBI_EXIST :: "mdb_txn \<Rightarrow> nat \<Rightarrow> bool" where
  "TXN_DBI_EXIST txn dbi \<longleftrightarrow> dbi < mt_numdbs txn \<and> any_set (mt_dbflags txn dbi) DB_VALID"

definition mdb_get :: "nat \<Rightarrow> bytes option \<Rightarrow> bool \<Rightarrow> bytes op" where
  "mdb_get dbi key want =
     bindM (getM st_txn) (\<lambda>txn.
     if key = None \<or> \<not> want \<or> dbi = FREE_DBI \<or> \<not> TXN_DBI_EXIST txn dbi then err EINVAL
     else if any_set (mt_flags txn) MDB_TXN_ERROR then err MDB_BAD_TXN
     else
       bindM new_cursor (\<lambda>mc.
       seqM (mdb_cursor_init mc dbi)
       (bindM (mdb_cursor_set mc (the key) True MDB_SET True) (\<lambda>(k, data).
        case data of None \<Rightarrow> stuck | Some d \<Rightarrow> ret d))))"

end
