(* ===== verification/Alloc.thy ===== *)
theory Alloc
  imports Cursor_Get Readers
begin

text \<open>
  Page numbers and memory for writing: \<open>mdb_page_dirty\<close>, \<open>mdb_page_alloc\<close> with the
  search of the reclaimed pages, \<open>mdb_page_unspill\<close>, \<open>mdb_page_touch\<close>, \<open>mdb_page_new\<close>,
  \<open>mdb_page_loose\<close> and \<open>mdb_ovpage_free\<close>. The list of reclaimed page numbers is
  \<open>me_pghead\<close>; a list of the code is an array whose cell 0 is the count.
\<close>

section \<open>The dirty list\<close>

definition mdb_page_dirty :: "page_ref \<Rightarrow> unit op" where
  "mdb_page_dirty mp =
     bindM (pageM mp) (\<lambda>p.
     bindM (getM (\<lambda>s. (me_flags (st_env s), mt_dirty_list (st_txn s)))) (\<lambda>(flags, dl).
     (case (if any_set flags MDB_WRITEMAP then mdb_mid2l_append else mdb_mid2l_insert) dl \<lparr>mid = mp_pgno p, mptr = mp\<rparr> of
        (rc, dl) \<Rightarrow>
          seqM (txnM (\<lambda>t. t\<lparr>mt_dirty_list := dl\<rparr>))
          (seqM (assertM (\<lambda>_. rc = 0))
          (txnM (\<lambda>t. t\<lparr>mt_dirty_room := mt_dirty_room t - 1\<rparr>))))))"

section \<open>Allocating pages\<close>

text \<open>
  The search for \<open>n2 + 1\<close> consecutive numbers in the descending list, from the tail:
  \<open>i = mop_len; do { if (mop[i-n2] == mop[i]+n2) found } while (--i > n2)\<close>.
\<close>

fun find_range :: "mdb_id list \<Rightarrow> nat \<Rightarrow> nat \<Rightarrow> nat option" where
  "find_range mop n2 0 = None"
| "find_range mop n2 (Suc i) =
     (if mop ! (Suc i - n2) = mop ! Suc i + word_of_nat n2 then Some (Suc i)
      else if i > n2 then find_range mop n2 i else None)"

text \<open>\<open>for (j = i-num; j < mop_len; ) mop[++j] = mop[++i];\<close>\<close>

function move_stragglers :: "mdb_id list \<Rightarrow> nat \<Rightarrow> nat \<Rightarrow> nat \<Rightarrow> mdb_id list" where
  "move_stragglers mop mop_len i j =
     (if j < mop_len then move_stragglers (mop[j + 1 := mop ! (i + 1)]) mop_len (i + 1) (j + 1) else mop)"
  by pat_completeness auto
termination
  by (relation "measure (\<lambda>(mop, mop_len, i, j). mop_len - j)") auto

declare move_stragglers.simps [simp del]

text \<open>
  The variables of the loop over the records of the free database: the cursor, the
  operation, the last record, the oldest snapshot and whether that is fresh.
\<close>

record alloc_loop =
  al_cursor :: nat
  al_op :: cursor_op
  al_last :: u64
  al_oldest :: u64
  al_found_old :: bool

text \<open>\<open>if (oldest <= last) { if (!found_old) \<dots> ; if (oldest <= last) break; }\<close>: whether to break.\<close>

definition too_recent :: "alloc_loop \<Rightarrow> (bool \<times> alloc_loop) op" where
  "too_recent v =
     (if al_oldest v \<le> al_last v then
        bindM (if al_found_old v then ret v
               else bindM (getM (\<lambda>s. mdb_find_oldest (st_env s) (st_txn s))) (\<lambda>oldest.
                    seqM (envM (\<lambda>e. e\<lparr>me_pgoldest := oldest\<rparr>))
                    (ret (v\<lparr>al_oldest := oldest, al_found_old := True\<rparr>))))
          (\<lambda>v. ret (al_oldest v \<le> al_last v, v))
      else ret (False, v))"

text \<open>The numbers of a record of the free database: its data are the cells of an ID list.\<close>

fun ids_of_bytes :: "nat \<Rightarrow> bytes \<Rightarrow> mdb_id list" where
  "ids_of_bytes 0 bs = []"
| "ids_of_bytes (Suc n) bs = bytes_u64 (take 8 bs) # ids_of_bytes n (drop 8 bs)"

definition merge_record :: "bytes \<Rightarrow> u64 \<Rightarrow> unit op" where
  "merge_record data lasttxn =
     (let idl = ids_of_bytes (length data div 8) data; i = (ucast (idl ! 0) :: u32) in
      bindM (getM (\<lambda>s. me_pghead (st_env s))) (\<lambda>head.
      bindM (case head of
               None \<Rightarrow> bindM askM (\<lambda>ok. case mdb_midl_alloc ok (unat i) of None \<Rightarrow> err ENOMEM | Some l \<Rightarrow> ret l)
             | Some l \<Rightarrow> idlM (\<lambda>ok l. mdb_midl_need ok l i) l) (\<lambda>mop.
      envM (\<lambda>e. e\<lparr>me_pghead := Some (mop\<lparr>mi_ids := mdb_midl_xmerge (mi_ids mop) idl\<rparr>), me_pglast := lasttxn\<rparr>))))"

text \<open>
  \<open>fetch_first\<close> prepares the first read; \<open>fetch_record\<close> reads one more record and merges
  it, or gives \<open>False\<close> to end the loop. A failure marks the transaction (\<open>goto fail\<close>).
\<close>

definition fetch_first :: "alloc_loop op" where
  "fetch_first =
     bindM (getM st_env) (\<lambda>env.
     bindM new_cursor (\<lambda>m2.
     seqM (mdb_cursor_init m2 FREE_DBI)
     (ret \<lparr>al_cursor = m2, al_op = (if me_pglast env \<noteq> 0 then MDB_SET_RANGE else MDB_FIRST),
           al_last = me_pglast env, al_oldest = me_pgoldest env, al_found_old = False\<rparr>)))"

definition fail_txn :: "mdb_state \<Rightarrow> mdb_state" where
  "fail_txn s = s\<lparr>st_txn := (st_txn s)\<lparr>mt_flags := mt_flags (st_txn s) OR MDB_TXN_ERROR\<rparr>\<rparr>"

definition fetch_record :: "alloc_loop \<Rightarrow> (bool \<times> alloc_loop) op" where
  "fetch_record v =
     bindM (too_recent (v\<lparr>al_last := al_last v + 1\<rparr>)) (\<lambda>(stop, v).
     if stop then ret (False, v)
     else
       tryM (mdb_cursor_get (al_cursor v) (Some (u64_bytes (al_last v))) False (al_op v)) (\<lambda>r.
       case r of
         Inl e \<Rightarrow> if e = MDB_NOTFOUND then ret (False, v) else onfail fail_txn (err e)
       | Inr (key, _) \<Rightarrow>
           bindM (too_recent (v\<lparr>al_last := bytes_u64 key\<rparr>)) (\<lambda>(stop, v).
           if stop then ret (False, v)
           else
             bindM (topM (al_cursor v)) (\<lambda>np.
             bindM (curM (al_cursor v)) (\<lambda>c.
             bindM (mdb_node_read (mp_body np) (NODEPTR np (top_ki c))) (\<lambda>data.
             seqM (onfail fail_txn (merge_record data (al_last v)))
             (ret (True, v\<lparr>al_op := MDB_NEXT\<rparr>))))))))"

text \<open>The cells of \<open>me_pghead\<close>; a missing list counts as empty.\<close>

definition pghead_ids :: "mdb_state \<Rightarrow> mdb_id list" where
  "pghead_ids s = (case me_pghead (st_env s) of None \<Rightarrow> [0] | Some l \<Rightarrow> mi_ids l)"

text \<open>
  The loop \<open>for (op = MDB_FIRST;; op = MDB_NEXT)\<close>: the place of the range found in
  \<open>me_pghead\<close>, or \<open>None\<close> to take new pages from the map. \<open>v\<close> is \<open>None\<close> before the first
  read. Nothing in the loop bounds the number of records read; if it does not end, the
  result is \<open>None\<close>.
\<close>

partial_function (option) alloc_search ::
  "nat \<Rightarrow> int \<Rightarrow> alloc_loop option \<Rightarrow> mdb_state \<Rightarrow> (mdb_state \<times> (mdb_err + nat option)) option" where
  "alloc_search num retry v s =
     (let mop = pghead_ids s; n2 = num - 1; mop_len = unat (mop ! 0); big = mop_len > n2;
          found = (if big then find_range mop n2 mop_len else None);
          retry = (if big then retry - 1 else retry)
      in if found \<noteq> None then Some (s, Inr found)
         else if big \<and> retry < 0 then Some (s, Inr None)
         else
           (case (case v of None \<Rightarrow> fetch_first s | Some v \<Rightarrow> Some (s, Inr v)) of
              None \<Rightarrow> None
            | Some (s, Inl e) \<Rightarrow> Some (s, Inl e)
            | Some (s, Inr v) \<Rightarrow>
                (case fetch_record v s of
                   None \<Rightarrow> None
                 | Some (s, Inl e) \<Rightarrow> Some (s, Inl e)
                 | Some (s, Inr (goes_on, v)) \<Rightarrow>
                     if goes_on then alloc_search num retry (Some v) s else Some (s, Inr None))))"

text \<open>
  After the loop: new numbers past the last page when nothing was found, the memory, and
  the numbers taken off the list with those behind them moved down.
\<close>

definition take_pages :: "nat \<Rightarrow> nat option \<Rightarrow> page_ref op" where
  "take_pages num found =
     bindM (getM st_env) (\<lambda>env.
     bindM (getM pghead_ids) (\<lambda>mop.
     bindM (getM (\<lambda>s. mt_next_pgno (st_txn s))) (\<lambda>nxt.
     let pgno = (case found of Some i \<Rightarrow> mop ! i | None \<Rightarrow> nxt) in
     if found = None \<and> pgno + word_of_nat num \<ge> me_maxpg env then err MDB_MAP_FULL
     else
       bindM (if any_set (me_flags env) MDB_WRITEMAP then ret (MapPg pgno) else mdb_page_malloc num) (\<lambda>np.
       if np = NullPg then err ENOMEM
       else
         seqM (case found of
                 Some i \<Rightarrow>
                   (let mop_len = unat (mop ! 0) - num in
                    envM (\<lambda>e. e\<lparr>me_pghead := (case me_pghead e of None \<Rightarrow> None
                      | Some l \<Rightarrow> Some (l\<lparr>mi_ids :=
                          move_stragglers (mop[0 := word_of_nat mop_len]) mop_len i (i - num)\<rparr>))\<rparr>))
               | None \<Rightarrow> txnM (\<lambda>t. t\<lparr>mt_next_pgno := pgno + word_of_nat num\<rparr>))
         (seqM (upd_pageM np (\<lambda>p. p\<lparr>mp_pgno := pgno\<rparr>))
         (seqM (mdb_page_dirty np) (ret np)))))))"

definition mdb_page_alloc :: "nat \<Rightarrow> page_ref op" where
  "mdb_page_alloc num =
     bindM (getM st_txn) (\<lambda>txn.
     if num = 1 \<and> mt_loose_pgs txn \<noteq> [] then
       seqM (txnM (\<lambda>t. t\<lparr>mt_loose_pgs := tl (mt_loose_pgs t), mt_loose_count := mt_loose_count t - 1\<rparr>))
       (ret (hd (mt_loose_pgs txn)))
     else if mt_dirty_room txn = 0 then onfail fail_txn (err MDB_TXN_FULL)
     else
       bindM (alloc_search num (int num * 60) None) (\<lambda>found.
       onfail fail_txn (take_pages num found)))"

section \<open>New pages\<close>

definition mdb_page_new :: "nat \<Rightarrow> u32 \<Rightarrow> nat \<Rightarrow> page_ref op" where
  "mdb_page_new mc flags num =
     bindM (mdb_page_alloc num) (\<lambda>np.
     bindM (getM (\<lambda>s. me_psize (st_env s))) (\<lambda>psize.
     seqM (upd_pageM np (\<lambda>p. p\<lparr>mp_flags := ucast (flags OR ucast P_DIRTY), mp_lower := PAGEHDRSZ - PAGEBASE,
                              mp_upper := indx_t (psize - PAGEBASE)\<rparr>))
     (bindM (pageM np) (\<lambda>p.
      bindM (curM mc) (\<lambda>c.
      let upd_db = (\<lambda>f. txnM (\<lambda>t. t\<lparr>mt_dbs := (mt_dbs t)(mc_dbi c := f (mt_dbs t (mc_dbi c)))\<rparr>)) in
      seqM (if IS_BRANCH p then upd_db (\<lambda>d. d\<lparr>md_branch_pages := md_branch_pages d + 1\<rparr>)
            else if IS_LEAF p then upd_db (\<lambda>d. d\<lparr>md_leaf_pages := md_leaf_pages d + 1\<rparr>)
            else if IS_OVERFLOW p then
              seqM (upd_db (\<lambda>d. d\<lparr>md_overflow_pages := md_overflow_pages d + word_of_nat num\<rparr>))
              (upd_pageM np (set_mp_pages num))
            else ret ())
      (ret np))))))"

section \<open>Pages given up\<close>

text \<open>Without a parent transaction, a dirty page outside the free database is loosened.\<close>

definition mdb_page_loose :: "nat \<Rightarrow> page_ref \<Rightarrow> unit op" where
  "mdb_page_loose mc mp =
     bindM (pageM mp) (\<lambda>p.
     bindM (curM mc) (\<lambda>c.
     if any_set (mp_flags p) P_DIRTY \<and> mc_dbi c \<noteq> FREE_DBI then
       seqM (txnM (\<lambda>t. t\<lparr>mt_loose_pgs := mp # mt_loose_pgs t, mt_loose_count := mt_loose_count t + 1\<rparr>))
       (upd_pageM mp (\<lambda>p. p\<lparr>mp_flags := mp_flags p OR P_LOOSE\<rparr>))
     else
       bindM (getM (\<lambda>s. mt_free_pgs (st_txn s))) (\<lambda>l.
       bindM (idlM (\<lambda>ok l. mdb_midl_append ok l (mp_pgno p)) l) (\<lambda>l.
       txnM (\<lambda>t. t\<lparr>mt_free_pgs := l\<rparr>)))))"

text \<open>The page \<open>mp\<close> is looked for from the end of the dirty list, the entries moving down.\<close>

fun dirty_remove :: "page_ref id2l \<Rightarrow> page_ref \<Rightarrow> nat \<Rightarrow> page_ref mdb_id2 \<Rightarrow> page_ref id2l option" where
  "dirty_remove dl mp x ix =
     (if mptr ix = mp then Some dl
      else if x > 1 then dirty_remove (dl[x - 1 := ix]) mp (x - 1) (dl ! (x - 1))
      else None)"

declare dirty_remove.simps [simp del]

text \<open>\<open>for (i = mop[0]; i && mop[i] < pg; i--) mop[j--] = mop[i];\<close> and \<open>while (j > i) mop[j--] = pg++;\<close>\<close>

fun release_shift :: "mdb_id list \<Rightarrow> nat \<Rightarrow> nat \<Rightarrow> u64 \<Rightarrow> mdb_id list \<times> nat \<times> nat" where
  "release_shift mop 0 j pg = (mop, 0, j)"
| "release_shift mop (Suc i) j pg =
     (if mop ! Suc i < pg then release_shift (mop[j := mop ! Suc i]) i (j - 1) pg else (mop, Suc i, j))"

fun release_fill :: "mdb_id list \<Rightarrow> nat \<Rightarrow> nat \<Rightarrow> u64 \<Rightarrow> mdb_id list" where
  "release_fill mop i j pg = (if j > i then release_fill (mop[j := pg]) i (j - 1) (pg + 1) else mop)"

declare release_fill.simps [simp del]

definition release_pages :: "mdb_id list \<Rightarrow> u64 \<Rightarrow> nat \<Rightarrow> mdb_id list" where
  "release_pages mop pg ovpages =
     (case release_shift mop (unat (mop ! 0)) (unat (mop ! 0) + ovpages) pg of
        (mop, i, j) \<Rightarrow>
          (let mop = release_fill mop i j pg in mop[0 := mop ! 0 + word_of_nat ovpages]))"

text \<open>
  A spilled page taken back: its entry is dropped when it is the last, otherwise the low bit
  of the entry marks it as deleted.
\<close>

definition unspill_at :: "nat \<Rightarrow> midl \<Rightarrow> midl" where
  "unspill_at x sl =
     sl\<lparr>mi_ids := (if word_of_nat x = mi_ids sl ! 0 then (mi_ids sl)[0 := mi_ids sl ! 0 - 1]
                  else (mi_ids sl)[x := mi_ids sl ! x OR 1])\<rparr>"

definition mdb_ovpage_free :: "nat \<Rightarrow> page_ref \<Rightarrow> unit op" where
  "mdb_ovpage_free mc mp =
     bindM (pageM mp) (\<lambda>p.
     bindM (curM mc) (\<lambda>c.
     bindM (getM st_env) (\<lambda>env.
     bindM (getM st_txn) (\<lambda>txn.
     let pg = mp_pgno p; ovpages = mp_pages p; dirty = any_set (mp_flags p) P_DIRTY in
     seqM
       (case me_pghead env of
          Some head \<Rightarrow>
            if dirty \<or> spilled_at txn pg \<noteq> None then
              bindM (idlM (\<lambda>ok l. mdb_midl_need ok l (word_of_nat ovpages)) head) (\<lambda>head.
              seqM (envM (\<lambda>e. e\<lparr>me_pghead := Some head\<rparr>))
              (seqM
                (if \<not> dirty then
                   txnM (\<lambda>t. t\<lparr>mt_spill_pgs := map_option (unspill_at (the (spilled_at txn pg))) (mt_spill_pgs t)\<rparr>)
                 else
                   (let dl = mt_dirty_list txn; x = unat (mid (dl ! 0)) in
                    case dirty_remove (dl[0 := (dl ! 0)\<lparr>mid := mid (dl ! 0) - 1\<rparr>]) mp x (dl ! x) of
                      None \<Rightarrow> stuck
                    | Some dl \<Rightarrow>
                        seqM (txnM (\<lambda>t. t\<lparr>mt_dirty_list := dl\<rparr>))
                        (whenM (\<not> any_set (me_flags env) MDB_WRITEMAP) (mdb_dpage_free mp))))
              (envM (\<lambda>e. e\<lparr>me_pghead := Some (head\<lparr>mi_ids := release_pages (mi_ids head) pg ovpages\<rparr>)\<rparr>))))
            else
              bindM (idlM (\<lambda>ok l. mdb_midl_append_range ok l pg (word_of_nat ovpages)) (mt_free_pgs txn)) (\<lambda>l.
              txnM (\<lambda>t. t\<lparr>mt_free_pgs := l\<rparr>))
        | None \<Rightarrow>
              bindM (idlM (\<lambda>ok l. mdb_midl_append_range ok l pg (word_of_nat ovpages)) (mt_free_pgs txn)) (\<lambda>l.
              txnM (\<lambda>t. t\<lparr>mt_free_pgs := l\<rparr>)))
       (txnM (\<lambda>t. t\<lparr>mt_dbs := (mt_dbs t)(mc_dbi c :=
          (mt_dbs t (mc_dbi c))\<lparr>md_overflow_pages := md_overflow_pages (mt_dbs t (mc_dbi c)) - word_of_nat ovpages\<rparr>)\<rparr>))))))"

section \<open>Making a page writable\<close>

text \<open>\<open>mdb_page_unspill\<close>: the writable page if \<open>mp\<close> was spilled, otherwise \<open>NullPg\<close>.\<close>

definition mdb_page_unspill :: "page_ref \<Rightarrow> page_ref op" where
  "mdb_page_unspill mp =
     bindM (pageM mp) (\<lambda>p.
     bindM (getM st_env) (\<lambda>env.
     bindM (getM st_txn) (\<lambda>txn.
     case spilled_at txn (mp_pgno p) of
       None \<Rightarrow> ret NullPg
     | Some x \<Rightarrow>
         if mt_dirty_room txn = 0 then err MDB_TXN_FULL
         else
           (let num = (if IS_OVERFLOW p then mp_pages p else 1) in
            bindM
              (if any_set (me_flags env) MDB_WRITEMAP then ret mp
               else
                 bindM (mdb_page_malloc num) (\<lambda>np.
                 if np = NullPg then err ENOMEM
                 else seqM (upd_pageM np (\<lambda>q. if num > 1 then p else mdb_page_copy q p (me_psize env))) (ret np)))
              (\<lambda>np.
            seqM (txnM (\<lambda>t. t\<lparr>mt_spill_pgs := map_option (unspill_at x) (mt_spill_pgs t)\<rparr>))
            (seqM (mdb_page_dirty np)
            (seqM (upd_pageM np (\<lambda>q. q\<lparr>mp_flags := mp_flags q OR P_DIRTY\<rparr>))
            (ret np))))))))"

text \<open>The tracked cursors of the database that stand on the page, moved to its copy.\<close>

fun redirect_cursors :: "nat list \<Rightarrow> nat \<Rightarrow> nat \<Rightarrow> page_ref \<Rightarrow> page_ref \<Rightarrow> unit op" where
  "redirect_cursors [] snum lvl mp np = ret ()"
| "redirect_cursors (m2 # ms) snum lvl mp np =
     bindM (curM m2) (\<lambda>c.
     seqM (whenM (mc_snum c \<ge> snum \<and> mc_pg c lvl = mp) (upd_curM m2 (\<lambda>c. c\<lparr>mc_pg := (mc_pg c)(lvl := np)\<rparr>)))
     (redirect_cursors ms snum lvl mp np))"

definition touch_done :: "nat \<Rightarrow> page_ref \<Rightarrow> page_ref \<Rightarrow> unit op" where
  "touch_done mc mp np =
     seqM (upd_curM mc (\<lambda>c. c\<lparr>mc_pg := (mc_pg c)(mc_top c := np)\<rparr>))
     (bindM (curM mc) (\<lambda>c.
      bindM (getM (\<lambda>s. mt_cursors (st_txn s) (mc_dbi c))) (\<lambda>ms.
      redirect_cursors ms (mc_snum c) (mc_top c) mp np)))"

text \<open>A fresh number for the page, put into the parent node or the root of the database.\<close>

definition touch_copy :: "nat \<Rightarrow> page_ref \<Rightarrow> mdb_page \<Rightarrow> page_ref op" where
  "touch_copy mc mp p =
     bindM (getM (\<lambda>s. mt_free_pgs (st_txn s))) (\<lambda>l.
     bindM (idlM (\<lambda>ok l. mdb_midl_need ok l 1) l) (\<lambda>l.
     seqM (txnM (\<lambda>t. t\<lparr>mt_free_pgs := l\<rparr>))
     (bindM (mdb_page_alloc 1) (\<lambda>np.
      bindM (pageM np) (\<lambda>q.
      let pgno = mp_pgno q in
      seqM (assertM (\<lambda>_. mp_pgno p \<noteq> pgno))
      (seqM (txnM (\<lambda>t. t\<lparr>mt_free_pgs := (mt_free_pgs t)\<lparr>mi_ids :=
                mdb_midl_xappend (mi_ids (mt_free_pgs t)) (mp_pgno p)\<rparr>\<rparr>))
      (bindM (curM mc) (\<lambda>c.
       seqM (if mc_top c \<noteq> 0 then
               upd_pageM (mc_pg c (mc_top c - 1)) (\<lambda>parent.
                 parent\<lparr>mp_body := SETPGNO (mp_body parent) (NODEPTR parent (mc_ki c (mc_top c - 1))) pgno\<rparr>)
             else
               txnM (\<lambda>t. t\<lparr>mt_dbs := (mt_dbs t)(mc_dbi c := (mt_dbs t (mc_dbi c))\<lparr>md_root := pgno\<rparr>)\<rparr>))
       (ret np)))))))))"

definition mdb_page_touch :: "nat \<Rightarrow> unit op" where
  "mdb_page_touch mc =
     bindM (curM mc) (\<lambda>c.
     let mp = top_ref c in
     bindM (pageM mp) (\<lambda>p.
     if F_ISSET (mp_flags p) P_DIRTY then ret ()
     else
       bindM (onfail fail_txn
         (bindM (getM (\<lambda>s. mt_flags (st_txn s))) (\<lambda>flags.
          bindM (if any_set flags MDB_TXN_SPILLS then mdb_page_unspill mp else ret NullPg) (\<lambda>np.
          if np \<noteq> NullPg then ret (np, True)
          else bindM (touch_copy mc mp p) (\<lambda>np. ret (np, False)))))) (\<lambda>(np, unspilled).
       seqM
         (if unspilled then ret ()
          else
            bindM (getM (\<lambda>s. me_psize (st_env s))) (\<lambda>psize.
            bindM (pageM np) (\<lambda>q.
            upd_pageM np (\<lambda>dst. (mdb_page_copy dst p psize)\<lparr>mp_pgno := mp_pgno q,
                                 mp_flags := mp_flags (mdb_page_copy dst p psize) OR P_DIRTY\<rparr>))))
       (touch_done mc mp np))))"

end
