(* ===== verification/Spill.thy ===== *)
theory Spill
  imports Alloc
begin

text \<open>
  Writing dirty pages to the file: \<open>mdb_page_flush\<close>, which groups adjacent pages into one
  write, \<open>mdb_page_spill\<close>, which makes room in the dirty list in the middle of a
  transaction, \<open>mdb_pages_xkeep\<close>, which marks the pages a spill must keep, and
  \<open>mdb_env_sync\<close>.
\<close>

section \<open>Marking the pages to keep\<close>

definition KEEP_MASK :: u16 where "KEEP_MASK = P_SUBP OR P_DIRTY OR P_LOOSE OR P_KEEP"

text \<open>A page of the map is not written to: its flags never match, as it is not dirty.\<close>

definition xkeep_ref :: "u16 \<Rightarrow> page_ref \<Rightarrow> unit op" where
  "xkeep_ref pflags r =
     bindM (pageM r) (\<lambda>p.
     if mp_flags p AND KEEP_MASK = pflags then set_pageM r (p\<lparr>mp_flags := mp_flags p XOR P_KEEP\<rparr>) else ret ())"

fun xkeep_path :: "u16 \<Rightarrow> mdb_cursor \<Rightarrow> nat \<Rightarrow> nat \<Rightarrow> unit op" where
  "xkeep_path pflags c j 0 = ret ()"
| "xkeep_path pflags c j (Suc n) = seqM (xkeep_ref pflags (mc_pg c j)) (xkeep_path pflags c (j + 1) n)"

fun xkeep_cursors :: "u16 \<Rightarrow> nat list \<Rightarrow> unit op" where
  "xkeep_cursors pflags [] = ret ()"
| "xkeep_cursors pflags (mc # ms) =
     seqM (bindM (curM mc) (\<lambda>c.
             if any_set (mc_flags c) C_INITIALIZED then xkeep_path pflags c 0 (mc_snum c) else ret ()))
     (xkeep_cursors pflags ms)"

text \<open>The tracked cursors of the databases below \<open>n\<close>, the last database first.\<close>

fun tracked_from :: "(nat \<Rightarrow> nat list) \<Rightarrow> nat \<Rightarrow> nat list" where
  "tracked_from cursors 0 = []"
| "tracked_from cursors (Suc i) = cursors i @ tracked_from cursors i"

fun xkeep_roots :: "u16 \<Rightarrow> nat \<Rightarrow> nat \<Rightarrow> unit op" where
  "xkeep_roots pflags i 0 = ret ()"
| "xkeep_roots pflags i (Suc n) =
     bindM (getM (\<lambda>s. (mt_dbflags (st_txn s) i, md_root (mt_dbs (st_txn s) i)))) (\<lambda>(dbflag, pgno).
     if any_set dbflag DB_DIRTY \<and> pgno \<noteq> P_INVALID then
       bindM (mdb_page_get pgno) (\<lambda>(dp, lvl).
       seqM (if lvl \<le> 1 then xkeep_ref pflags dp else ret ()) (xkeep_roots pflags (i + 1) n))
     else xkeep_roots pflags (i + 1) n)"

definition mdb_pages_xkeep :: "nat \<Rightarrow> u16 \<Rightarrow> bool \<Rightarrow> unit op" where
  "mdb_pages_xkeep mc pflags all_roots =
     bindM (curM mc) (\<lambda>c.
     bindM (getM st_txn) (\<lambda>txn.
     seqM (xkeep_cursors pflags ((if any_set (mc_flags c) C_UNTRACK then [] else [mc])
             @ tracked_from (mt_cursors txn) (mt_numdbs txn)))
     (if all_roots then xkeep_roots pflags 0 (mt_numdbs txn) else ret ())))"

section \<open>Writing a group of pages\<close>

definition MDB_COMMIT_PAGES :: nat where "MDB_COMMIT_PAGES = 64"
definition MAX_WRITE :: u64 where "MAX_WRITE = 0x80000000"

definition page_bytes :: "nat \<Rightarrow> mdb_page \<Rightarrow> nat" where
  "page_bytes psize p = (if IS_OVERFLOW p then psize * mp_pages p else psize)"

text \<open>
  The first \<open>n\<close> bytes of the pages reach the file at the position \<open>wpos\<close>, the pages one
  after the other.
\<close>

fun store_iov :: "nat \<Rightarrow> u64 \<Rightarrow> nat \<Rightarrow> page_ref list \<Rightarrow> unit op" where
  "store_iov psize wpos n [] = ret ()"
| "store_iov psize wpos n (r # rs) =
     bindM (pageM r) (\<lambda>p.
     let pgno = wpos div word_of_nat psize; len = page_bytes psize p in
     seqM (updM (\<lambda>s. s\<lparr>st_map := (st_map s)(pgno :=
             (if len \<le> n then p else if n = 0 then st_map s pgno else st_torn s (st_map s pgno) p n))\<rparr>))
     (store_iov psize (wpos + word_of_nat len) (n - len) rs))"

definition next_call :: "nat op" where
  "next_call = (\<lambda>s. Some (s\<lparr>st_clock := st_clock s + 1\<rparr>, Inr (st_clock s)))"

text \<open>\<open>pwrite\<close> for one page; \<open>lseek\<close> and \<open>writev\<close> for several.\<close>

definition write_group :: "u64 \<Rightarrow> u64 \<Rightarrow> page_ref list \<Rightarrow> unit op" where
  "write_group wpos wsize iov =
     bindM (getM (\<lambda>s. me_psize (st_env s))) (\<lambda>psize.
     bindM (if length iov = 1 then ret 0 else bindM next_call (\<lambda>k. getM (\<lambda>s. st_sync s k))) (\<lambda>seek.
     if seek \<noteq> 0 then err (Errno seek)
     else
       bindM next_call (\<lambda>k.
       bindM (getM (\<lambda>s. st_write s k (unat wsize))) (\<lambda>res.
       seqM (store_iov psize wpos (reached res) iov)
       (case res of
          Wrote n \<Rightarrow> if n \<noteq> unat wsize then err EIO else ret ()
        | Write_failed e n \<Rightarrow> err (Errno e))))))"

section \<open>Flushing the dirty list\<close>

text \<open>
  The variables of the loop that writes: the pages waiting to be written, where and how many
  bytes they are, the position behind them, and the position and size of the last page
  looked at.
\<close>

record flush_vars =
  fv_iov :: "page_ref list"
  fv_wpos :: u64
  fv_wsize :: u64
  fv_next :: u64
  fv_pos :: u64
  fv_size :: u64

text \<open>
  \<open>if (pos != next_pos || n == MDB_COMMIT_PAGES || wsize+size > MAX_WRITE)\<close>: write the
  pages waiting. \<open>False\<close> means that the loop goes on with a page to add.
\<close>

definition flush_pending :: "bool \<Rightarrow> flush_vars \<Rightarrow> flush_vars op" where
  "flush_pending at_end v =
     (if fv_pos v \<noteq> fv_next v \<or> length (fv_iov v) = MDB_COMMIT_PAGES \<or> fv_wsize v + fv_size v > MAX_WRITE then
        seqM (if fv_iov v \<noteq> [] then write_group (fv_wpos v) (fv_wsize v) (fv_iov v) else ret ())
        (ret (if at_end then v\<lparr>fv_iov := []\<rparr> else v\<lparr>fv_iov := [], fv_wpos := fv_pos v, fv_wsize := 0\<rparr>))
      else ret v)"

text \<open>
  \<open>flush_write i n v\<close>: \<open>n\<close> more entries of the dirty list from \<open>i\<close>. Behind the last entry
  the position differs from the one after the pages waiting, so they are written.
\<close>

fun flush_write :: "nat \<Rightarrow> nat \<Rightarrow> flush_vars \<Rightarrow> unit op" where
  "flush_write i 0 v =
     (if fv_pos v \<noteq> fv_next v \<or> length (fv_iov v) = MDB_COMMIT_PAGES \<or> fv_wsize v + fv_size v > MAX_WRITE
      then bindM (flush_pending True v) (\<lambda>v. ret ())
      else stuck)"
| "flush_write i (Suc n) v =
     bindM (getM (\<lambda>s. mt_dirty_list (st_txn s) ! i)) (\<lambda>e.
     bindM (getM (\<lambda>s. me_psize (st_env s))) (\<lambda>psize.
     bindM (pageM (mptr e)) (\<lambda>dp.
     if any_set (mp_flags dp) (P_LOOSE OR P_KEEP) then
       seqM (upd_pageM (mptr e) (\<lambda>p. p\<lparr>mp_flags := clear_flag (mp_flags p) P_KEEP\<rparr>))
       (seqM (txnM (\<lambda>t. t\<lparr>mt_dirty_list := (mt_dirty_list t)[i := (mt_dirty_list t ! i)\<lparr>mid := 0\<rparr>]\<rparr>))
       (flush_write (i + 1) n v))
     else
       seqM (upd_pageM (mptr e) (\<lambda>p. p\<lparr>mp_flags := clear_flag (mp_flags p) P_DIRTY\<rparr>))
       (bindM (flush_pending False (v\<lparr>fv_pos := mid e * word_of_nat psize,
                                      fv_size := word_of_nat (page_bytes psize dp)\<rparr>)) (\<lambda>v.
        flush_write (i + 1) n (v\<lparr>fv_next := fv_pos v + fv_size v, fv_iov := fv_iov v @ [mptr e],
                                 fv_wsize := fv_wsize v + fv_size v\<rparr>))))))"

text \<open>The entries that were skipped stay, the pages of the others are freed; \<open>j\<close> counts those kept.\<close>

fun flush_compact :: "nat \<Rightarrow> nat \<Rightarrow> nat \<Rightarrow> nat op" where
  "flush_compact i j 0 = ret j"
| "flush_compact i j (Suc n) =
     bindM (getM (\<lambda>s. mt_dirty_list (st_txn s) ! i)) (\<lambda>e.
     if mid e = 0 then
       bindM (pageM (mptr e)) (\<lambda>dp.
       seqM (txnM (\<lambda>t. t\<lparr>mt_dirty_list := (mt_dirty_list t)[j + 1 := e\<lparr>mid := mp_pgno dp\<rparr>]\<rparr>))
       (flush_compact (i + 1) (j + 1) n))
     else seqM (mdb_dpage_free (mptr e)) (flush_compact (i + 1) j n))"

text \<open>With \<open>MDB_WRITEMAP\<close> the pages are in the map already; only their dirty flags go.\<close>

fun flush_map :: "nat \<Rightarrow> nat \<Rightarrow> nat \<Rightarrow> nat op" where
  "flush_map i j 0 = ret j"
| "flush_map i j (Suc n) =
     bindM (getM (\<lambda>s. mt_dirty_list (st_txn s) ! i)) (\<lambda>e.
     bindM (pageM (mptr e)) (\<lambda>dp.
     if any_set (mp_flags dp) (P_LOOSE OR P_KEEP) then
       seqM (upd_pageM (mptr e) (\<lambda>p. p\<lparr>mp_flags := clear_flag (mp_flags p) P_KEEP\<rparr>))
       (seqM (txnM (\<lambda>t. t\<lparr>mt_dirty_list := (mt_dirty_list t)[j + 1 := e]\<rparr>))
       (flush_map (i + 1) (j + 1) n))
     else
       seqM (upd_pageM (mptr e) (\<lambda>p. p\<lparr>mp_flags := clear_flag (mp_flags p) P_DIRTY\<rparr>))
       (flush_map (i + 1) j n)))"

definition mdb_page_flush :: "nat \<Rightarrow> unit op" where
  "mdb_page_flush keep =
     bindM (getM (\<lambda>s. id2l_count (mt_dirty_list (st_txn s)))) (\<lambda>pagecount.
     bindM (getM (\<lambda>s. me_flags (st_env s))) (\<lambda>flags.
     bindM
       (if any_set flags MDB_WRITEMAP then flush_map (keep + 1) keep (pagecount - keep)
        else
          seqM (flush_write (keep + 1) (pagecount - keep)
                 \<lparr>fv_iov = [], fv_wpos = 0, fv_wsize = 0, fv_next = 1, fv_pos = 0, fv_size = 0\<rparr>)
          (flush_compact (keep + 1) keep (pagecount - keep))) (\<lambda>j.
     txnM (\<lambda>t. t\<lparr>mt_dirty_room := mt_dirty_room t + (pagecount - j),
              mt_dirty_list := (mt_dirty_list t)[0 := (mt_dirty_list t ! 0)\<lparr>mid := word_of_nat j\<rparr>]\<rparr>))))"

section \<open>Spilling\<close>

text \<open>\<open>for (i=1; i<=num; i++) if (!(sl[i] & 1)) sl[++j] = sl[i];\<close>\<close>

fun purge_slots :: "mdb_id list \<Rightarrow> nat \<Rightarrow> nat \<Rightarrow> nat \<Rightarrow> mdb_id list \<times> nat" where
  "purge_slots sl i j 0 = (sl, j)"
| "purge_slots sl i j (Suc n) =
     (if sl ! i AND 1 = 0 then purge_slots (sl[j + 1 := sl ! i]) (i + 1) (j + 1) n
      else purge_slots sl (i + 1) j n)"

definition purge_spilled :: "midl \<Rightarrow> midl" where
  "purge_spilled l =
     (case purge_slots (mi_ids l) 1 0 (unat (mi_ids l ! 0)) of
        (sl, j) \<Rightarrow> l\<lparr>mi_ids := sl[0 := word_of_nat j]\<rparr>)"

text \<open>
  \<open>for (i = dl[0].mid; i && need; i--)\<close>: save the numbers of the pages to spill; the result
  is the number of entries at the front of the list that stay.
\<close>

fun spill_select :: "nat \<Rightarrow> nat \<Rightarrow> nat op" where
  "spill_select 0 need = ret 0"
| "spill_select (Suc i) need =
     (if need = 0 then ret (Suc i)
      else
        bindM (getM (\<lambda>s. mt_dirty_list (st_txn s) ! Suc i)) (\<lambda>e.
        bindM (pageM (mptr e)) (\<lambda>dp.
        if any_set (mp_flags dp) (P_LOOSE OR P_KEEP) then spill_select i need
        else
          bindM (getM (\<lambda>s. mt_spill_pgs (st_txn s))) (\<lambda>sl.
          case sl of None \<Rightarrow> stuck
          | Some sl \<Rightarrow>
              bindM (idlM (\<lambda>ok l. mdb_midl_append ok l (push_bit 1 (mid e))) sl) (\<lambda>sl.
              seqM (txnM (\<lambda>t. t\<lparr>mt_spill_pgs := Some sl\<rparr>)) (spill_select i (need - 1)))))))"

definition spill_need :: "mdb_txn \<Rightarrow> nat \<Rightarrow> nat \<Rightarrow> mdb_val option \<Rightarrow> mdb_val \<Rightarrow> nat" where
  "spill_need txn dbi psize key data =
     (let i = unat (md_depth (mt_dbs txn dbi));
          i = (if dbi > MAIN_DBI then i + unat (md_depth (mt_dbs txn MAIN_DBI)) else i);
          i = (case key of None \<Rightarrow> i | Some k \<Rightarrow> i + (LEAFSIZE k data + psize) div psize)
      in i + i)"

definition mdb_page_spill :: "nat \<Rightarrow> mdb_val option \<Rightarrow> mdb_val \<Rightarrow> unit op" where
  "mdb_page_spill m0 key data =
     bindM (curM m0) (\<lambda>c.
     bindM (getM st_txn) (\<lambda>txn.
     bindM (getM (\<lambda>s. me_psize (st_env s))) (\<lambda>psize.
     let need = spill_need txn (mc_dbi c) psize key data in
     if any_set (mc_flags c) C_SUB then ret ()
     else if mt_dirty_room txn > need then ret ()
     else
       seqM
         (case mt_spill_pgs txn of
            None \<Rightarrow>
              bindM askM (\<lambda>ok. case mdb_midl_alloc ok MDB_IDL_UM_MAX of
                None \<Rightarrow> err ENOMEM | Some l \<Rightarrow> txnM (\<lambda>t. t\<lparr>mt_spill_pgs := Some l\<rparr>))
          | Some l \<Rightarrow> txnM (\<lambda>t. t\<lparr>mt_spill_pgs := Some (purge_spilled l)\<rparr>))
       (tryM
         (seqM (mdb_pages_xkeep m0 P_DIRTY True)
         (bindM (spill_select (id2l_count (mt_dirty_list txn)) (max need (MDB_IDL_UM_MAX div 8))) (\<lambda>i.
          bindM (getM (\<lambda>s. mt_spill_pgs (st_txn s))) (\<lambda>sl.
          case sl of None \<Rightarrow> stuck
          | Some sl \<Rightarrow>
              (case mdb_midl_sort (mi_ids sl) of None \<Rightarrow> stuck
               | Some ids \<Rightarrow>
                   seqM (txnM (\<lambda>t. t\<lparr>mt_spill_pgs := Some (sl\<lparr>mi_ids := ids\<rparr>)\<rparr>))
                   (seqM (mdb_page_flush i)
                   (mdb_pages_xkeep m0 (P_DIRTY OR P_KEEP) (i \<noteq> 0))))))))
         (\<lambda>r. case r of
            Inl e \<Rightarrow> seqM (flagM MDB_TXN_ERROR) (err e)
          | Inr _ \<Rightarrow> flagM MDB_TXN_SPILLS)))))"

section \<open>Syncing\<close>

definition mdb_env_sync :: "bool \<Rightarrow> unit op" where
  "mdb_env_sync force =
     bindM (getM (\<lambda>s. me_flags (st_env s))) (\<lambda>flags.
     if force \<or> \<not> F_ISSET flags MDB_NOSYNC then
       bindM next_call (\<lambda>k.
       bindM (getM (\<lambda>s. st_sync s k)) (\<lambda>rc.
       if rc \<noteq> 0 then err (Errno rc) else ret ()))
     else ret ())"

end
