(* ===== verification/Txn.thy ===== *)
theory Txn
  imports Spill
begin

text \<open>
  Transactions: \<open>mdb_txn_begin\<close>, \<open>mdb_txn_renew\<close>, \<open>mdb_txn_reset\<close>, \<open>mdb_txn_abort\<close> and
  what they are made of. The transaction an operation is given is \<open>st_txn\<close>; a write
  transaction is the struct \<open>me_txn0\<close>, and what one leaves in it the next one finds. A call
  that would wait for a mutex held by another does not return. A system call fails with the
  error number \<open>st_sync\<close> gives for it.
\<close>

section \<open>Mutexes and system calls\<close>

definition syscallM :: "unit op" where
  "syscallM =
     bindM next_call (\<lambda>k. bindM (getM (\<lambda>s. st_sync s k)) (\<lambda>rc. if rc \<noteq> 0 then err (Errno rc) else ret ()))"

definition lock_r :: "unit op" where
  "lock_r = seqM (assertM (\<lambda>s. \<not> me_rlocked (st_env s))) (seqM syscallM (envM (\<lambda>e. e\<lparr>me_rlocked := True\<rparr>)))"

definition unlock_r :: "unit op" where
  "unlock_r = envM (\<lambda>e. e\<lparr>me_rlocked := False\<rparr>)"

definition lock_w :: "unit op" where
  "lock_w = seqM (assertM (\<lambda>s. \<not> me_wlocked (st_env s))) (seqM syscallM (envM (\<lambda>e. e\<lparr>me_wlocked := True\<rparr>)))"

definition unlock_w :: "unit op" where
  "unlock_w = envM (\<lambda>e. e\<lparr>me_wlocked := False\<rparr>)"

section \<open>Handles and cursors at the end of a transaction\<close>

text \<open>\<open>for (i = n; --i >= 2;)\<close> over the handles that are new in the transaction.\<close>

fun dbis_update_loop :: "mdb_txn \<Rightarrow> bool \<Rightarrow> nat \<Rightarrow> mdb_env \<Rightarrow> mdb_env" where
  "dbis_update_loop txn keep 0 env = env"
| "dbis_update_loop txn keep (Suc i) env =
     (if i < 2 then env
      else
        dbis_update_loop txn keep i
          (if any_set (mt_dbflags txn i) DB_NEW then
             (if keep then env\<lparr>me_dbflags := (me_dbflags env)(i := md_flags (mt_dbs txn i) OR MDB_VALID)\<rparr>
              else if md_name (me_dbxs env i) \<noteq> None then
                env\<lparr>me_dbxs := (me_dbxs env)(i := (me_dbxs env i)\<lparr>md_name := None\<rparr>),
                    me_dbflags := (me_dbflags env)(i := 0),
                    me_dbiseqs := (me_dbiseqs env)(i := me_dbiseqs env i + 1)\<rparr>
              else env)
           else env))"

definition mdb_dbis_update :: "mdb_txn \<Rightarrow> bool \<Rightarrow> mdb_env \<Rightarrow> mdb_env" where
  "mdb_dbis_update txn keep env =
     (let env = dbis_update_loop txn keep (mt_numdbs txn) env in
      if keep \<and> me_numdbs env < mt_numdbs txn then env\<lparr>me_numdbs := mt_numdbs txn\<rparr> else env)"

text \<open>Without nested transactions no cursor has a backup: all of them are freed.\<close>

definition mdb_cursors_close :: "mdb_txn \<Rightarrow> mdb_txn" where
  "mdb_cursors_close txn = txn\<lparr>mt_cursors := (\<lambda>i. if i < mt_numdbs txn then [] else mt_cursors txn i)\<rparr>"

text \<open>Changes to a slot of the reader table.\<close>

definition upd_reader :: "nat \<Rightarrow> (mdb_reader \<Rightarrow> mdb_reader) \<Rightarrow> mdb_env \<Rightarrow> mdb_env" where
  "upd_reader i f env =
     env\<lparr>me_txns := map_option (\<lambda>ti. ti\<lparr>mti_readers := (mti_readers ti)(i := f (mti_readers ti i))\<rparr>) (me_txns env)\<rparr>"

section \<open>Reset and abort\<close>

text \<open>The struct of the write transaction, as it is left.\<close>

definition leave_txn0 :: "unit op" where
  "leave_txn0 = bindM (getM st_txn) (\<lambda>txn. envM (\<lambda>e. e\<lparr>me_txn0 := txn\<rparr>))"

definition mdb_txn_reset0 :: "unit op" where
  "mdb_txn_reset0 =
     bindM (getM st_txn) (\<lambda>txn.
     seqM (envM (mdb_dbis_update txn False))
     (if F_ISSET (mt_flags txn) MDB_TXN_RDONLY then
        bindM (getM (\<lambda>s. me_flags (st_env s))) (\<lambda>flags.
        seqM (case mt_reader txn of
                None \<Rightarrow> ret ()
              | Some i \<Rightarrow>
                  seqM (envM (upd_reader i (\<lambda>r. r\<lparr>mr_txnid := - 1\<rparr>)))
                  (whenM (\<not> any_set flags MDB_NOTLS) (txnM (\<lambda>t. t\<lparr>mt_reader := None\<rparr>))))
        (txnM (\<lambda>t. t\<lparr>mt_numdbs := 0, mt_dbxs := False\<rparr>)))
      else
        bindM (getM (\<lambda>s. me_flags (st_env s))) (\<lambda>flags.
        seqM (envM (\<lambda>e. e\<lparr>me_pghead := None, me_pglast := 0\<rparr>))
        (seqM (whenM (\<not> any_set flags MDB_WRITEMAP) mdb_dlist_free)
        (bindM askM (\<lambda>ok.
         bindM (getM (\<lambda>s. mdb_midl_shrink ok (mt_free_pgs (st_txn s)))) (\<lambda>(shrunk, l).
         seqM (whenM shrunk (seqM (txnM (\<lambda>t. t\<lparr>mt_free_pgs := l\<rparr>)) (envM (\<lambda>e. e\<lparr>me_free_pgs := l\<rparr>))))
         (seqM (envM (\<lambda>e. e\<lparr>me_txn := False\<rparr>))
         (bindM (getM (\<lambda>s. me_txns (st_env s))) (\<lambda>ti.
          seqM (whenM (ti \<noteq> None) unlock_w)
          (seqM (txnM mdb_cursors_close)
          leave_txn0)))))))))))"

text \<open>\<open>mdb_txn_reset\<close> does nothing for a write transaction.\<close>

definition mdb_txn_reset :: "unit op" where
  "mdb_txn_reset =
     bindM (getM (\<lambda>s. mt_flags (st_txn s))) (\<lambda>flags.
     if \<not> any_set flags MDB_TXN_RDONLY then ret () else mdb_txn_reset0)"

definition mdb_txn_abort :: "unit op" where
  "mdb_txn_abort =
     seqM mdb_txn_reset0
     (bindM (getM st_txn) (\<lambda>txn.
      case mt_reader txn of
        Some i \<Rightarrow> if any_set (mt_flags txn) MDB_TXN_RDONLY then envM (upd_reader i (\<lambda>r. r\<lparr>mr_pid := 0\<rparr>)) else ret ()
      | None \<Rightarrow> ret ()))"

section \<open>Beginning and renewing\<close>

text \<open>\<open>for (i=0; i<nr; i++) if (mti_readers[i].mr_pid == 0) break;\<close>\<close>

fun free_slot :: "(nat \<Rightarrow> mdb_reader) \<Rightarrow> nat \<Rightarrow> nat \<Rightarrow> nat" where
  "free_slot r i 0 = i"
| "free_slot r i (Suc n) = (if mr_pid (r i) = 0 then i else free_slot r (i + 1) n)"

text \<open>
  A slot of the reader table for the thread \<open>tid\<close>: the one it has, or a free one, claimed
  under the mutex. The result also tells whether the slot is new under \<open>MDB_NOTLS\<close>.
\<close>

definition reader_slot :: "u64 \<Rightarrow> mdb_txninfo \<Rightarrow> (nat \<times> bool) op" where
  "reader_slot tid ti =
     bindM (getM st_env) (\<lambda>env.
     bindM (getM (\<lambda>s. mt_reader (st_txn s))) (\<lambda>mine.
     let notls = any_set (me_flags env) MDB_NOTLS in
     case (if notls then mine else me_txkey env) of
       Some i \<Rightarrow>
         if mr_pid (mti_readers ti i) \<noteq> me_pid env \<or> mr_txnid (mti_readers ti i) \<noteq> - 1
         then err MDB_BAD_RSLOT else ret (i, False)
     | None \<Rightarrow>
         seqM (if me_live_reader env then ret ()
               else seqM syscallM (envM (\<lambda>e. e\<lparr>me_live_reader := True\<rparr>)))
         (seqM lock_r
         (let nr = mti_numreaders ti; i = free_slot (mti_readers ti) 0 nr in
          if i = me_maxreaders env then seqM unlock_r (err MDB_READERS_FULL)
          else
            seqM (envM (upd_reader i (\<lambda>r. r\<lparr>mr_pid := me_pid env, mr_tid := tid\<rparr>)))
            (seqM (envM (\<lambda>e. e\<lparr>me_txns := map_option (\<lambda>ti. ti\<lparr>mti_numreaders := (if i = nr then nr + 1 else nr)\<rparr>)
                               (me_txns e),
                             me_numreaders := (if i = nr then nr + 1 else nr)\<rparr>))
            (seqM unlock_r
            (seqM (if notls then ret ()
                   else
                     seqM (onfail (\<lambda>s. s\<lparr>st_env := upd_reader i (\<lambda>r. r\<lparr>mr_pid := 0\<rparr>) (st_env s)\<rparr>) syscallM)
                     (envM (\<lambda>e. e\<lparr>me_txkey := Some i\<rparr>)))
            (ret (i, notls)))))))))"

text \<open>The meta page a transaction starts from, and whether its reader slot is new.\<close>

definition renew_rdonly :: "u64 \<Rightarrow> (mdb_meta \<times> bool) op" where
  "renew_rdonly tid =
     bindM (getM st_env) (\<lambda>env.
     case me_txns env of
       None \<Rightarrow>
         (let meta = me_metas env (mdb_env_pick_meta env) in
          seqM (txnM (\<lambda>t. t\<lparr>mt_txnid := mm_txnid meta, mt_reader := None\<rparr>))
          (ret (meta, False)))
     | Some ti \<Rightarrow>
         bindM (reader_slot tid ti) (\<lambda>(i, new_notls).
         seqM (envM (upd_reader i (\<lambda>r. r\<lparr>mr_txnid := mti_txnid ti\<rparr>)))
         (seqM (txnM (\<lambda>t. t\<lparr>mt_txnid := mti_txnid ti, mt_reader := Some i\<rparr>))
         (bindM (getM (\<lambda>s. me_metas (st_env s) (unat (mti_txnid ti AND 1)))) (\<lambda>meta. ret (meta, new_notls))))))"

definition renew_write :: "mdb_meta op" where
  "renew_write =
     bindM (getM st_env) (\<lambda>env.
     bindM
       (case me_txns env of
          Some ti \<Rightarrow>
            seqM lock_w
            (seqM (txnM (\<lambda>t. t\<lparr>mt_txnid := mti_txnid ti\<rparr>))
            (ret (me_metas env (unat (mti_txnid ti AND 1)))))
        | None \<Rightarrow>
            (let meta = me_metas env (mdb_env_pick_meta env) in
             seqM (txnM (\<lambda>t. t\<lparr>mt_txnid := mm_txnid meta\<rparr>)) (ret meta))) (\<lambda>meta.
     seqM (txnM (\<lambda>t. t\<lparr>mt_txnid := mt_txnid t + 1, mt_dirty_room := MDB_IDL_UM_MAX,
              mt_dirty_list := (me_dirty_list env)[0 := (me_dirty_list env ! 0)\<lparr>mid := 0\<rparr>],
              mt_free_pgs := (me_free_pgs env)\<lparr>mi_ids := (mi_ids (me_free_pgs env))[0 := 0]\<rparr>,
              mt_spill_pgs := None\<rparr>))
     (seqM (envM (\<lambda>e. e\<lparr>me_txn := True\<rparr>))
     (seqM (txnM (\<lambda>t. t\<lparr>mt_dbiseqs := (\<lambda>i. if i < me_maxdbs env then me_dbiseqs env i else mt_dbiseqs t i)\<rparr>))
     (ret meta)))))"

definition db_infos :: "mdb_env \<Rightarrow> mdb_meta \<Rightarrow> mdb_txn \<Rightarrow> mdb_txn" where
  "db_infos env meta t =
     t\<lparr>mt_dbs := (\<lambda>i. if i = 0 then fst (mm_dbs meta) else if i = 1 then snd (mm_dbs meta)
                   else if i < mt_numdbs t then (mt_dbs t i)\<lparr>md_flags := me_dbflags env i AND PERSISTENT_FLAGS\<rparr>
                   else mt_dbs t i),
       mt_next_pgno := mm_last_pg meta + 1,
       mt_dbflags := (\<lambda>i. if i < 2 then DB_VALID
                   else if i < mt_numdbs t then
                     (if any_set (me_dbflags env i) MDB_VALID then DB_VALID OR DB_STALE else 0)
                   else mt_dbflags t i)\<rparr>"

definition mdb_txn_renew0 :: "u64 \<Rightarrow> unit op" where
  "mdb_txn_renew0 tid =
     seqM (bindM (getM (\<lambda>s. me_numdbs (st_env s))) (\<lambda>n. txnM (\<lambda>t. t\<lparr>mt_numdbs := n, mt_dbxs := True\<rparr>)))
     (bindM (getM (\<lambda>s. mt_flags (st_txn s))) (\<lambda>flags.
      bindM (if any_set flags MDB_TXN_RDONLY then renew_rdonly tid
             else bindM renew_write (\<lambda>meta. ret (meta, False))) (\<lambda>(meta, new_notls).
      bindM (getM st_env) (\<lambda>env.
      seqM (txnM (db_infos env meta))
      (bindM (getM (\<lambda>s. mt_next_pgno (st_txn s))) (\<lambda>nxt.
       if me_maxpg env < nxt then
         bindM (getM (\<lambda>s. mt_reader (st_txn s))) (\<lambda>r.
         seqM mdb_txn_reset0
         (seqM (if new_notls then
                  (case r of None \<Rightarrow> stuck
                   | Some i \<Rightarrow> seqM (envM (upd_reader i (\<lambda>r. r\<lparr>mr_pid := 0\<rparr>))) (txnM (\<lambda>t. t\<lparr>mt_reader := None\<rparr>)))
                else ret ())
         (err MDB_MAP_RESIZED)))
       else ret ()))))))"

definition mdb_txn_renew :: "u64 \<Rightarrow> unit op" where
  "mdb_txn_renew tid =
     bindM (getM (\<lambda>s. (mt_dbxs (st_txn s), me_flags (st_env s)))) (\<lambda>(live, flags).
     if live then err EINVAL
     else if any_set flags MDB_FATAL_ERROR then err MDB_PANIC
     else mdb_txn_renew0 tid)"

text \<open>
  A read-only transaction is a fresh struct, cleared by \<open>calloc\<close>; a write transaction is
  \<open>me_txn0\<close> with its flags cleared.
\<close>

definition blank_db :: mdb_db where
  "blank_db = \<lparr>md_pad = 0, md_flags = 0, md_depth = 0, md_branch_pages = 0, md_leaf_pages = 0,
     md_overflow_pages = 0, md_entries = 0, md_root = 0\<rparr>"

definition blank_txn :: mdb_txn where
  "blank_txn = \<lparr>mt_next_pgno = 0, mt_txnid = 0, mt_free_pgs = \<lparr>mi_alloc = 0, mi_ids = [0]\<rparr>, mt_loose_pgs = [],
     mt_loose_count = 0, mt_spill_pgs = None, mt_dirty_list = [], mt_reader = None, mt_dbxs = False,
     mt_dbs = (\<lambda>_. blank_db), mt_dbiseqs = (\<lambda>_. 0), mt_cursors = (\<lambda>_. []), mt_dbflags = (\<lambda>_. 0), mt_numdbs = 0,
     mt_flags = 0, mt_dirty_room = 0\<rparr>"

definition mdb_txn_begin :: "u64 \<Rightarrow> u32 \<Rightarrow> unit op" where
  "mdb_txn_begin tid flags =
     bindM (getM st_env) (\<lambda>env.
     if any_set (me_flags env) MDB_FATAL_ERROR then err MDB_PANIC
     else if any_set (me_flags env) MDB_RDONLY \<and> \<not> any_set flags MDB_RDONLY then err EACCES
     else
       seqM
         (if any_set flags MDB_RDONLY then
            bindM askM (\<lambda>ok.
            if ok then txnM (\<lambda>t. blank_txn\<lparr>mt_flags := MDB_TXN_RDONLY\<rparr>) else err ENOMEM)
          else txnM (\<lambda>t. (me_txn0 env)\<lparr>mt_flags := 0\<rparr>))
       (mdb_txn_renew0 tid))"

end
