(* ===== verification/Tree.thy ===== *)
theory Tree
  imports Cursor_Get
begin

text \<open>
  The abstract view of a database: the B+tree below a root page as a list of items, and the
  theorem that looking up a key in the code (\<open>mdb_get\<close>, through \<open>mdb_cursor_set\<close>,
  \<open>mdb_page_search\<close> and \<open>mdb_node_search\<close>) finds what a search of that list finds.
\<close>

section \<open>The tree below a page\<close>

text \<open>The page a number stands for in the current transaction, and the children of a branch page.\<close>

definition page_of :: "mdb_state \<Rightarrow> u64 \<Rightarrow> (page_ref \<times> mdb_page) option" where
  "page_of s pgno =
     (case page_lookup (st_env s) (st_txn s) pgno of
        None \<Rightarrow> None
      | Some (r, lvl) \<Rightarrow> (case page_at s r of None \<Rightarrow> None | Some p \<Rightarrow> Some (r, p)))"

definition child :: "mdb_page \<Rightarrow> nat \<Rightarrow> u64" where
  "child p i = NODEPGNO (mp_body p) (NODEPTR p i)"

text \<open>The value of a node, in the page or on overflow pages.\<close>

definition node_value :: "mdb_state \<Rightarrow> mem \<Rightarrow> nat \<Rightarrow> bytes option" where
  "node_value s m leaf =
     (if \<not> F_ISSET (mn_flags m leaf) F_BIGDATA then Some (rd m (NODEDATA m leaf) (unat (NODEDSZ m leaf)))
      else (case page_of s (bytes_u64 (rd m (NODEDATA m leaf) 8)) of
              None \<Rightarrow> None
            | Some (r, p) \<Rightarrow> Some (rd (mp_body p) PAGEHDRSZ (unat (NODEDSZ m leaf)))))"

definition leaf_items :: "mdb_state \<Rightarrow> mdb_page \<Rightarrow> (bytes \<times> bytes) list" where
  "leaf_items s p =
     map (\<lambda>i. (NODEKEY (mp_body p) (NODEPTR p i), the (node_value s (mp_body p) (NODEPTR p i)))) [0..<NUMKEYS p]"

fun tree_items :: "mdb_state \<Rightarrow> nat \<Rightarrow> u64 \<Rightarrow> (bytes \<times> bytes) list" where
  "tree_items s 0 pg = (case page_of s pg of None \<Rightarrow> [] | Some (r, p) \<Rightarrow> leaf_items s p)"
| "tree_items s (Suc d) pg =
     (case page_of s pg of None \<Rightarrow> []
      | Some (r, p) \<Rightarrow> concat (map (\<lambda>i. tree_items s d (child p i)) [0..<NUMKEYS p]))"

text \<open>
  A well-formed tree of depth \<open>d\<close> (the number of branch levels), with the keys read as
  elements of a linear order: every page is of its kind, keys and separators ascend, and the
  keys below a child lie between the separators around it. The first key of a branch page is
  not looked at. \<open>lo\<close> and \<open>hi\<close> bound the keys from below and strictly from above.
\<close>

definition within :: "'o::linorder option \<Rightarrow> 'o option \<Rightarrow> 'o \<Rightarrow> bool" where
  "within lo hi x \<longleftrightarrow> (case lo of None \<Rightarrow> True | Some l \<Rightarrow> l \<le> x) \<and> (case hi of None \<Rightarrow> True | Some h \<Rightarrow> x < h)"

definition leaf_ok ::
  "(bytes \<Rightarrow> bool) \<Rightarrow> (bytes \<Rightarrow> 'o::linorder) \<Rightarrow> mdb_state \<Rightarrow> mdb_page \<Rightarrow> 'o option \<Rightarrow> 'o option \<Rightarrow> bool" where
  "leaf_ok valid rank s p lo hi \<longleftrightarrow>
     IS_LEAF p \<and> \<not> IS_BRANCH p \<and> \<not> IS_LEAF2 p \<and> NUMKEYS p < 65535 \<and>
     (\<forall>k \<in> set (page_keys p). valid k \<and> within lo hi (rank k)) \<and>
     sorted_wrt (<) (map rank (page_keys p)) \<and>
     (\<forall>i < NUMKEYS p. \<not> F_ISSET (mn_flags (mp_body p) (NODEPTR p i)) F_DUPDATA \<and>
        node_value s (mp_body p) (NODEPTR p i) \<noteq> None)"

definition branch_ok ::
  "(bytes \<Rightarrow> bool) \<Rightarrow> (bytes \<Rightarrow> 'o::linorder) \<Rightarrow> mdb_page \<Rightarrow> 'o option \<Rightarrow> 'o option \<Rightarrow> bool" where
  "branch_ok valid rank p lo hi \<longleftrightarrow>
     IS_BRANCH p \<and> \<not> IS_LEAF p \<and> \<not> IS_LEAF2 p \<and> 1 < NUMKEYS p \<and> NUMKEYS p < 65535 \<and>
     (\<forall>k \<in> set (tl (page_keys p)). valid k \<and> within lo hi (rank k)) \<and>
     sorted_wrt (<) (map rank (tl (page_keys p)))"

definition low_of :: "(bytes \<Rightarrow> 'o) \<Rightarrow> mdb_page \<Rightarrow> 'o option \<Rightarrow> nat \<Rightarrow> 'o option" where
  "low_of rank p lo i = (if i = 0 then lo else Some (rank (page_keys p ! i)))"

definition high_of :: "(bytes \<Rightarrow> 'o) \<Rightarrow> mdb_page \<Rightarrow> 'o option \<Rightarrow> nat \<Rightarrow> 'o option" where
  "high_of rank p hi i = (if i + 1 < NUMKEYS p then Some (rank (page_keys p ! (i + 1))) else hi)"

fun tree_ok ::
  "(bytes \<Rightarrow> bool) \<Rightarrow> (bytes \<Rightarrow> 'o::linorder) \<Rightarrow> mdb_state \<Rightarrow> nat \<Rightarrow> u64 \<Rightarrow> 'o option \<Rightarrow> 'o option \<Rightarrow> bool" where
  "tree_ok valid rank s 0 pg lo hi =
     (case page_of s pg of None \<Rightarrow> False | Some (r, p) \<Rightarrow> leaf_ok valid rank s p lo hi)"
| "tree_ok valid rank s (Suc d) pg lo hi =
     (case page_of s pg of None \<Rightarrow> False
      | Some (r, p) \<Rightarrow> branch_ok valid rank p lo hi \<and>
          (\<forall>i < NUMKEYS p. tree_ok valid rank s d (child p i) (low_of rank p lo i) (high_of rank p hi i)))"

section \<open>Keys of a tree\<close>

lemma keys_leaf_items: "map fst (leaf_items s p) = page_keys p"
  by (simp add: leaf_items_def page_keys_def)

lemma length_leaf_items [simp]: "length (leaf_items s p) = NUMKEYS p"
  by (simp add: leaf_items_def)

lemma within_weaken:
  "within lo' hi' x \<Longrightarrow> (\<And>l. lo = Some l \<Longrightarrow> within lo' hi' x \<Longrightarrow> l \<le> x)
    \<Longrightarrow> (\<And>h. hi = Some h \<Longrightarrow> within lo' hi' x \<Longrightarrow> x < h) \<Longrightarrow> within lo hi x"
  by (auto simp: within_def split: option.splits)

lemma tl_nth_page_keys: "0 < i \<Longrightarrow> i < NUMKEYS p \<Longrightarrow> page_keys p ! i \<in> set (tl (page_keys p))"
  using nth_mem [of "i - 1" "tl (page_keys p)"] by (simp add: nth_tl)

lemma branch_sep_less:
  assumes "branch_ok valid rank p lo hi" "0 < i" "i < j" "j < NUMKEYS p"
  shows "rank (page_keys p ! i) < rank (page_keys p ! j)"
  using sorted_wrt_nth_less [of "(<)" "map rank (tl (page_keys p))" "i - 1" "j - 1"] assms
  by (simp add: branch_ok_def nth_tl)

lemma branch_child_within:
  assumes "branch_ok valid rank p lo hi" "i < NUMKEYS p"
    and w: "within (low_of rank p lo i) (high_of rank p hi i) x"
  shows "within lo hi x"
proof (rule within_weaken [OF w])
  fix l assume l: "lo = Some l"
  show "l \<le> x"
  proof (cases "i = 0")
    case True
    then show ?thesis using w l by (simp add: low_of_def within_def)
  next
    case False
    then have "l \<le> rank (page_keys p ! i)"
      using assms(1,2) l tl_nth_page_keys [of i p] by (auto simp: branch_ok_def within_def)
    then show ?thesis using w False by (auto simp: low_of_def within_def)
  qed
next
  fix h assume h: "hi = Some h"
  show "x < h"
  proof (cases "i + 1 < NUMKEYS p")
    case True
    then have "rank (page_keys p ! (i + 1)) < h"
      using assms(1) h tl_nth_page_keys [of "i + 1" p] by (auto simp: branch_ok_def within_def)
    then show ?thesis using w True by (auto simp: high_of_def within_def split: option.splits)
  next
    case False
    then show ?thesis using w h by (auto simp: high_of_def within_def split: option.splits)
  qed
qed

lemma tree_keys_within:
  "tree_ok valid rank s d pg lo hi \<Longrightarrow> k \<in> fst ` set (tree_items s d pg) \<Longrightarrow> valid k \<and> within lo hi (rank k)"
proof (induction d arbitrary: pg lo hi)
  case 0
  then obtain r p where "page_of s pg = Some (r, p)" "leaf_ok valid rank s p lo hi"
    by (auto split: option.splits)
  moreover then have "k \<in> set (page_keys p)"
    using 0(2) keys_leaf_items [of s p] by (metis (mono_tags, lifting) list.set_map option.case(2) split_conv tree_items.simps(1))
  ultimately show ?case by (auto simp: leaf_ok_def)
next
  case (Suc d)
  then obtain r p where p: "page_of s pg = Some (r, p)" "branch_ok valid rank p lo hi"
    "\<And>i. i < NUMKEYS p \<Longrightarrow> tree_ok valid rank s d (child p i) (low_of rank p lo i) (high_of rank p hi i)"
    by (auto split: option.splits)
  have "k \<in> (\<Union>i \<in> {0..<NUMKEYS p}. fst ` set (tree_items s d (child p i)))"
    using Suc.prems(2) p(1) by (simp add: image_UN)
  then obtain i where i: "i < NUMKEYS p" "k \<in> fst ` set (tree_items s d (child p i))"
    unfolding UN_iff Bex_def atLeastLessThan_iff by blast
  then show ?case
    using Suc.IH [OF p(3) [OF i(1)] i(2)] branch_child_within [OF p(2) i(1)] by blast
qed

text \<open>The items of a branch page before, in and after a child.\<close>

lemma in_concat_map: "x \<in> set (concat (map f xs)) \<longleftrightarrow> (\<exists>j \<in> set xs. x \<in> set (f j))"
  by auto

lemma items_split:
  assumes "i < n"
  shows "concat (map f [0..<n]) = concat (map f [0..<i]) @ f i @ concat (map f [i + 1..<n])"
proof -
  have "[0..<n] = [0..<i] @ i # [i + 1..<n]" using assms
    by (metis add.commute add_0 le_add2 less_imp_add_positive plus_1_eq_Suc upt_add_eq_append upt_conv_Cons le_add1)
  then show ?thesis by simp
qed

lemma tree_sorted:
  "tree_ok valid rank s d pg lo hi \<Longrightarrow> sorted_wrt (\<lambda>a b. rank (fst a) < rank (fst b)) (tree_items s d pg)"
proof (induction d arbitrary: pg lo hi)
  case 0
  then obtain r p where p: "page_of s pg = Some (r, p)" "leaf_ok valid rank s p lo hi"
    by (auto split: option.splits)
  have "sorted_wrt (\<lambda>a b. rank a < rank b) (map fst (leaf_items s p))"
    using p(2) unfolding keys_leaf_items leaf_ok_def sorted_wrt_map by simp
  then show ?case using p(1) by (simp add: sorted_wrt_map)
next
  case (Suc d)
  then obtain r p where p: "page_of s pg = Some (r, p)" "branch_ok valid rank p lo hi"
    "\<And>i. i < NUMKEYS p \<Longrightarrow> tree_ok valid rank s d (child p i) (low_of rank p lo i) (high_of rank p hi i)"
    by (auto split: option.splits)
  have cross: "rank (fst x) < rank (fst y)"
    if ij: "i < j" "j < NUMKEYS p" and x: "x \<in> set (tree_items s d (child p i))"
      and y: "y \<in> set (tree_items s d (child p j))" for i j x y
  proof -
    have wx: "within (low_of rank p lo i) (high_of rank p hi i) (rank (fst x))"
      using tree_keys_within [OF p(3), of i "fst x"] ij x by auto
    have wy: "within (low_of rank p lo j) (high_of rank p hi j) (rank (fst y))"
      using tree_keys_within [OF p(3), of j "fst y"] ij y by auto
    have "rank (page_keys p ! (i + 1)) \<le> rank (page_keys p ! j)"
      using branch_sep_less [OF p(2), of "i + 1" j] ij by (cases "i + 1 = j") auto
    then show ?thesis
      using wx wy ij by (auto simp: within_def low_of_def high_of_def)
  qed
  have inner: "sorted_wrt (\<lambda>a b. rank (fst a) < rank (fst b)) (tree_items s d (child p i))" if "i < NUMKEYS p" for i
    using Suc.IH [OF p(3) [OF that]] .
  have "n \<le> NUMKEYS p \<Longrightarrow>
      sorted_wrt (\<lambda>a b. rank (fst a) < rank (fst b)) (concat (map (\<lambda>i. tree_items s d (child p i)) [0..<n]))" for n
  proof (induction n)
    case (Suc n)
    then show ?case using inner [of n] cross by (auto simp: sorted_wrt_append)
  qed simp
  then show ?case using p(1) by simp
qed


section \<open>The child that holds a key\<close>

text \<open>The number of separators not above the key.\<close>

definition child_index :: "(bytes \<Rightarrow> 'o::linorder) \<Rightarrow> mdb_page \<Rightarrow> bytes \<Rightarrow> nat" where
  "child_index rank p key = length (filter (\<lambda>k. rank k \<le> rank key) (tl (page_keys p)))"

lemma filter_sorted_prefix:
  assumes "sorted_wrt (<) (map f xs)"
    and md: "\<And>a b. P b \<Longrightarrow> f a < f b \<Longrightarrow> P a"
  shows "j < length xs \<Longrightarrow> P (xs ! j) \<longleftrightarrow> j < length (filter P xs)"
  using assms(1)
proof (induction xs arbitrary: j)
  case (Cons x xs)
  have none: "filter P xs = []" if "\<not> P x"
    using Cons.prems md that by (auto simp: filter_empty_conv)
  show ?case
  proof (cases j)
    case 0
    then show ?thesis using none by auto
  next
    case (Suc j')
    then have "P (xs ! j') \<longleftrightarrow> j' < length (filter P xs)" using Cons by simp
    then show ?thesis using Suc none by auto
  qed
qed simp

lemma child_index_within:
  assumes b: "branch_ok valid rank p lo hi" and w: "within lo hi (rank key)"
  shows "child_index rank p key < NUMKEYS p"
    and "within (low_of rank p lo (child_index rank p key)) (high_of rank p hi (child_index rank p key)) (rank key)"
proof -
  define i where "i = child_index rank p key"
  have len: "length (tl (page_keys p)) = NUMKEYS p - 1" by simp
  have "i \<le> NUMKEYS p - 1" unfolding i_def child_index_def len [symmetric] by (rule length_filter_le)
  then show n: "child_index rank p key < NUMKEYS p" using b by (auto simp: i_def branch_ok_def)
  have s: "sorted_wrt (<) (map rank (tl (page_keys p)))" using b by (simp add: branch_ok_def)
  have at: "rank (page_keys p ! (j + 1)) \<le> rank key \<longleftrightarrow> j < i" if "j + 1 < NUMKEYS p" for j
    using filter_sorted_prefix [OF s, of "\<lambda>k. rank k \<le> rank key" j] that
    by (simp add: i_def child_index_def nth_tl less_diff_conv order_trans [OF less_imp_le])
  have low: "rank (page_keys p ! i) \<le> rank key" if "0 < i"
    using at [of "i - 1"] that n by (simp add: i_def)
  have high: "rank key < rank (page_keys p ! (i + 1))" if "i + 1 < NUMKEYS p"
    using at [OF that] by auto
  show "within (low_of rank p lo (child_index rank p key)) (high_of rank p hi (child_index rank p key)) (rank key)"
    using low high w by (auto simp: i_def [symmetric] within_def low_of_def high_of_def)
qed

text \<open>What a descent keeps: the items on this path, those before below the key, those after above it.\<close>

lemma tree_child_split:
  assumes "tree_ok valid rank s (Suc d) pg lo hi" "within lo hi (rank key)" "page_of s pg = Some (r, p)"
  defines "before \<equiv> concat (map (\<lambda>i. tree_items s d (child p i)) [0..<child_index rank p key])"
    and "after \<equiv> concat (map (\<lambda>i. tree_items s d (child p i)) [child_index rank p key + 1..<NUMKEYS p])"
  shows "tree_items s (Suc d) pg = before @ tree_items s d (child p (child_index rank p key)) @ after"
    and "\<forall>x \<in> set before. rank (fst x) < rank key" "\<forall>x \<in> set after. rank key < rank (fst x)"
proof -
  define i where "i = child_index rank p key"
  have b: "branch_ok valid rank p lo hi"
    and c: "\<And>j. j < NUMKEYS p \<Longrightarrow> tree_ok valid rank s d (child p j) (low_of rank p lo j) (high_of rank p hi j)"
    using assms(1,3) by auto
  note i = child_index_within [OF b assms(2), folded i_def]
  have key_in: "within (low_of rank p lo j) (high_of rank p hi j) (rank (fst x))"
    if "j < NUMKEYS p" "x \<in> set (tree_items s d (child p j))" for j x
    using tree_keys_within [OF c [OF that(1)], of "fst x"] that(2) by auto
  have sep: "rank (page_keys p ! j) \<le> rank (page_keys p ! k)" if "0 < j" "j \<le> k" "k < NUMKEYS p" for j k
    using branch_sep_less [OF b that(1), of k] that by (cases "j = k") auto
  have low: "rank (fst x) < rank key" if j: "j < i" "x \<in> set (tree_items s d (child p j))" for j x
  proof -
    have "rank (fst x) < rank (page_keys p ! (j + 1))"
      using key_in [of j x] j i(1) by (auto simp: within_def high_of_def)
    also have "\<dots> \<le> rank (page_keys p ! i)" using sep [of "j + 1" i] j i(1) by simp
    also have "\<dots> \<le> rank key" using i(2) j by (simp add: within_def low_of_def split: if_splits)
    finally show ?thesis .
  qed
  have high: "rank key < rank (fst x)" if j: "i < j" "j < NUMKEYS p" "x \<in> set (tree_items s d (child p j))" for j x
  proof -
    have "rank key < rank (page_keys p ! (i + 1))" using i(2) j by (simp add: within_def high_of_def)
    also have "\<dots> \<le> rank (page_keys p ! j)" using sep [of "i + 1" j] j by simp
    also have "\<dots> \<le> rank (fst x)" using key_in [of j x] j by (auto simp: within_def low_of_def)
    finally show ?thesis .
  qed
  show "tree_items s (Suc d) pg = before @ tree_items s d (child p (child_index rank p key)) @ after"
    using assms(3) items_split [OF i(1)] by (simp add: i_def [symmetric] before_def after_def)
  show "\<forall>x \<in> set before. rank (fst x) < rank key"
    unfolding before_def i_def [symmetric]
    by (intro ballI) (unfold in_concat_map, elim bexE, rule low, simp_all)
  show "\<forall>x \<in> set after. rank key < rank (fst x)"
    unfolding after_def i_def [symmetric]
    by (intro ballI) (unfold in_concat_map, elim bexE, rule high, simp_all)
qed


section \<open>Cursors do not change the tree\<close>

lemma page_at_cursors [simp]: "page_at (s\<lparr>st_cursors := cs\<rparr>) r = page_at s r"
  "page_at (s\<lparr>st_cfresh := n\<rparr>) r = page_at s r"
  by (cases r; simp)+

lemma page_of_cursors [simp]: "page_of (s\<lparr>st_cursors := cs\<rparr>) pg = page_of s pg"
  "page_of (s\<lparr>st_cfresh := n\<rparr>) pg = page_of s pg"
  by (auto simp: page_of_def split: option.splits)

lemma node_value_cursors [simp]: "node_value (s\<lparr>st_cursors := cs\<rparr>) = node_value s"
  "node_value (s\<lparr>st_cfresh := n\<rparr>) = node_value s"
  by (simp_all add: node_value_def fun_eq_iff)

lemma leaf_items_cursors [simp]: "leaf_items (s\<lparr>st_cursors := cs\<rparr>) = leaf_items s"
  "leaf_items (s\<lparr>st_cfresh := n\<rparr>) = leaf_items s"
  by (simp_all add: leaf_items_def fun_eq_iff)

lemma leaf_ok_cursors [simp]: "leaf_ok valid rank (s\<lparr>st_cursors := cs\<rparr>) = leaf_ok valid rank s"
  "leaf_ok valid rank (s\<lparr>st_cfresh := n\<rparr>) = leaf_ok valid rank s"
  by (simp_all add: leaf_ok_def fun_eq_iff)

lemma tree_items_cursors [simp]: "tree_items (s\<lparr>st_cursors := cs\<rparr>) d pg = tree_items s d pg"
  "tree_items (s\<lparr>st_cfresh := n\<rparr>) d pg = tree_items s d pg"
  by (induction d arbitrary: pg) (auto split: option.splits)

lemma tree_ok_cursors [simp]: "tree_ok valid rank (s\<lparr>st_cursors := cs\<rparr>) d pg lo hi = tree_ok valid rank s d pg lo hi"
  "tree_ok valid rank (s\<lparr>st_cfresh := n\<rparr>) d pg lo hi = tree_ok valid rank s d pg lo hi"
  by (induction d arbitrary: pg lo hi) (auto split: option.splits)

text \<open>The path of a cursor from level \<open>j\<close> on, below page \<open>pg\<close>: its pages and the indices of the branch pages.\<close>

fun on_path :: "mdb_state \<Rightarrow> mdb_cursor \<Rightarrow> nat \<Rightarrow> nat \<Rightarrow> u64 \<Rightarrow> bool" where
  "on_path s c j 0 pg = (case page_of s pg of None \<Rightarrow> False | Some (r, p) \<Rightarrow> mc_pg c j = r)"
| "on_path s c j (Suc d) pg =
     (case page_of s pg of None \<Rightarrow> False
      | Some (r, p) \<Rightarrow> mc_pg c j = r \<and> mc_ki c j < NUMKEYS p \<and> on_path s c (j + 1) d (child p (mc_ki c j)))"

lemma on_path_cursors [simp]: "on_path (s\<lparr>st_cursors := cs\<rparr>) c j d pg = on_path s c j d pg"
  by (induction d arbitrary: j pg) (auto split: option.splits)

text \<open>The path of a cursor in the descent for a key: at each branch page the child that covers the key.\<close>

fun key_path :: "(bytes \<Rightarrow> 'o::linorder) \<Rightarrow> mdb_state \<Rightarrow> bytes \<Rightarrow> mdb_cursor \<Rightarrow> nat \<Rightarrow> nat \<Rightarrow> u64 \<Rightarrow> bool" where
  "key_path rank s key c j 0 pg = (case page_of s pg of None \<Rightarrow> False | Some (r, p) \<Rightarrow> mc_pg c j = r)"
| "key_path rank s key c j (Suc d) pg =
     (case page_of s pg of None \<Rightarrow> False
      | Some (r, p) \<Rightarrow> mc_pg c j = r \<and> mc_ki c j = child_index rank p key \<and>
          key_path rank s key c (j + 1) d (child p (child_index rank p key)))"

lemma key_path_cursors [simp]: "key_path rank (s\<lparr>st_cursors := cs\<rparr>) key c j d pg = key_path rank s key c j d pg"
  "key_path rank (s\<lparr>st_cfresh := n\<rparr>) key c j d pg = key_path rank s key c j d pg"
  by (induction d arbitrary: j pg) (auto split: option.splits)

lemma key_path_cong:
  assumes "\<forall>k. j \<le> k \<and> k \<le> j + d \<longrightarrow> mc_pg c' k = mc_pg c k" "\<forall>k. j \<le> k \<and> k < j + d \<longrightarrow> mc_ki c' k = mc_ki c k"
  shows "key_path rank s key c' j d pg = key_path rank s key c j d pg"
  using assms by (induction d arbitrary: j pg) (auto split: option.splits)

lemma page_get_run:
  assumes "page_of s pg = Some (r, p)"
  shows "\<exists>lvl. mdb_page_get pg s = Some (s, Inr (r, lvl))" and "page_at s r = Some p"
  using assms by (auto simp: page_of_def mdb_page_get_def op_simps split: option.splits)

lemma node_read_run:
  assumes "node_value s m n = Some v"
  shows "mdb_node_read m n s = Some (s, Inr v)"
proof (cases "F_ISSET (mn_flags m n) F_BIGDATA")
  case False
  then show ?thesis using assms by (simp add: mdb_node_read_def node_value_def op_simps)
next
  case True
  then obtain r p where p: "page_of s (bytes_u64 (rd m (NODEDATA m n) 8)) = Some (r, p)"
    "v = rd (mp_body p) PAGEHDRSZ (unat (NODEDSZ m n))"
    using assms by (auto simp: node_value_def split: option.splits)
  then obtain lvl where "mdb_page_get (bytes_u64 (rd m (NODEDATA m n) 8)) s = Some (s, Inr (r, lvl))"
    using page_get_run(1) by blast
  then show ?thesis using p True page_get_run(2) [OF p(1)] by (simp add: mdb_node_read_def op_simps pageM_def)
qed

section \<open>The descent\<close>

definition cursor_cmp :: "mdb_state \<Rightarrow> nat \<Rightarrow> cmp_func option" where
  "cursor_cmp s mc = md_cmp (me_dbxs (st_env s) (mc_dbi (st_cursors s mc)))"

lemma node_searchM_run:
  assumes "page_at s (top_ref (st_cursors s mc)) = Some p" "cursor_cmp s mc = Some f"
    and "mdb_node_search (st_user s) f (unat (md_pad (cursor_db s mc))) p key = (exact, x, node)"
  shows "node_searchM mc key s
    = Some (s\<lparr>st_cursors := (st_cursors s)(mc := set_top_ki x (st_cursors s mc))\<rparr>, Inr (exact, node))"
  using assms by (simp add: node_searchM_def topM_def op_simps cursor_cmp_def)

text \<open>The page a cursor has cached as its root, if it is the root, is the current one.\<close>

definition root_ready :: "mdb_state \<Rightarrow> page_ref \<Rightarrow> u64 \<Rightarrow> bool" where
  "root_ready s r root \<longleftrightarrow> r = NullPg \<or>
     (\<exists>q. page_at s r = Some q \<and> (mp_pgno q = root \<longrightarrow> page_of s root = Some (r, q)))"

lemma on_path_flags [simp]: "on_path s (c\<lparr>mc_flags := fl\<rparr>) j d pg = on_path s c j d pg"
  by (induction d arbitrary: j pg) (auto split: option.splits)

lemma key_path_flags [simp]: "key_path rank s key (c\<lparr>mc_flags := fl\<rparr>) j d pg = key_path rank s key c j d pg"
  by (rule key_path_cong) simp_all

text \<open>
  Where a descent for \<open>key\<close> from the cursor \<open>c\<close> at page \<open>pg\<close> ends: on the leaf that holds the
  key if the tree does, \<open>d\<close> levels down, the levels above unchanged.
\<close>

definition key_leaf ::
  "(bytes \<Rightarrow> bool) \<Rightarrow> (bytes \<Rightarrow> 'o::linorder) \<Rightarrow> mdb_state \<Rightarrow> bytes \<Rightarrow> (bytes \<times> bytes) list \<Rightarrow> mdb_page \<Rightarrow> bool" where
  "key_leaf valid rank s key items p \<longleftrightarrow>
     (\<exists>before after lo hi. leaf_ok valid rank s p lo hi \<and> items = before @ leaf_items s p @ after \<and>
        (\<forall>x \<in> set before. rank (fst x) < rank key) \<and> (\<forall>x \<in> set after. rank key < rank (fst x)))"

definition arrived ::
  "(bytes \<Rightarrow> bool) \<Rightarrow> (bytes \<Rightarrow> 'o::linorder) \<Rightarrow> mdb_state \<Rightarrow> bytes \<Rightarrow> nat \<Rightarrow> u64 \<Rightarrow> mdb_cursor \<Rightarrow> mdb_cursor \<Rightarrow> bool" where
  "arrived valid rank s key d pg c c' \<longleftrightarrow>
     (\<exists>p. page_at s (top_ref c') = Some p \<and> key_leaf valid rank s key (tree_items s d pg) p) \<and>
     key_path rank s key c' (mc_top c) d pg \<and> mc_top c' = mc_top c + d \<and> mc_snum c' = mc_top c' + 1 \<and>
     mc_dbi c' = mc_dbi c \<and> mc_flags c' = mc_flags c \<and>
     (\<forall>j < mc_top c. mc_pg c' j = mc_pg c j \<and> mc_ki c' j = mc_ki c j)"

lemma key_leaf_cursors [simp]: "key_leaf valid rank (s\<lparr>st_cursors := cs\<rparr>) = key_leaf valid rank s"
  "key_leaf valid rank (s\<lparr>st_cfresh := n\<rparr>) = key_leaf valid rank s"
  by (simp_all add: key_leaf_def fun_eq_iff)

lemma key_leaf_extend:
  assumes "key_leaf valid rank s key items p"
    and "\<forall>x \<in> set before. rank (fst x) < rank key" "\<forall>x \<in> set after. rank key < rank (fst x)"
  shows "key_leaf valid rank s key (before @ items @ after) p"
proof -
  obtain b a lo hi where *: "leaf_ok valid rank s p lo hi" "items = b @ leaf_items s p @ a"
    "\<forall>x \<in> set b. rank (fst x) < rank key" "\<forall>x \<in> set a. rank key < rank (fst x)"
    using assms(1) unfolding key_leaf_def by blast
  show ?thesis unfolding key_leaf_def
    by (rule exI [of _ "before @ b"], rule exI [of _ "a @ after"], rule exI [of _ lo], rule exI [of _ hi])
      (use * assms(2,3) in auto)
qed

text \<open>
  \<open>mdb_page_search\<close> around the descent, on a database whose record is at hand, from a cursor
  that is unset or whose cached root page is current.
\<close>

definition search_ready :: "mdb_state \<Rightarrow> nat \<Rightarrow> bool" where
  "search_ready s mc \<longleftrightarrow> \<not> F_ISSET (mt_flags (st_txn s)) MDB_TXN_ERROR \<and>
     1 < md_root (cursor_db s mc) \<and> md_root (cursor_db s mc) \<noteq> P_INVALID \<and>
     \<not> any_set (mt_dbflags (st_txn s) (mc_dbi (st_cursors s mc))) DB_STALE \<and>
     root_ready s (mc_pg (st_cursors s mc) 0) (md_root (cursor_db s mc))"

definition at_root :: "mdb_cursor \<Rightarrow> page_ref \<Rightarrow> mdb_cursor" where
  "at_root c r = c\<lparr>mc_pg := (mc_pg c)(0 := r), mc_snum := 1, mc_top := 0\<rparr>"

definition found_flags :: "mdb_cursor \<Rightarrow> mdb_cursor" where
  "found_flags c = c\<lparr>mc_flags := clear_flag (mc_flags c OR C_INITIALIZED) C_EOF\<rparr>"

lemma page_search_step:
  assumes ready: "search_ready s mc" and rp: "page_of s (md_root (cursor_db s mc)) = Some (r, p)"
    and c': "search_root_loop CURSOR_STACK touch mc r key flags (s\<lparr>st_cursors := (st_cursors s)(mc := at_root (st_cursors s mc) r)\<rparr>)
      = Some (s\<lparr>st_cursors := (st_cursors s)(mc := c')\<rparr>, Inr (top_ref c'))"
    and q: "page_at s (top_ref c') = Some q" "IS_LEAF q" and fl: "flags = 0 \<or> flags = MDB_PS_FIRST"
  shows "page_search n touch mc key flags s = Some (s\<lparr>st_cursors := (st_cursors s)(mc := found_flags c')\<rparr>, Inr ())"
proof -
  define root where "root = md_root (cursor_db s mc)"
  define c where "c = st_cursors s mc"
  define s1 where "s1 = s\<lparr>st_cursors := (st_cursors s)(mc := at_root c r)\<rparr>"
  have fl': "\<not> any_set flags MDB_PS_MODIFY" "\<not> any_set flags MDB_PS_ROOTONLY"
    using fl by (auto simp: any_set_def MDB_PS_MODIFY_def MDB_PS_ROOTONLY_def MDB_PS_FIRST_def)
  have root_step: "mdb_page_search_root touch mc key flags s1
    = Some (s\<lparr>st_cursors := (st_cursors s)(mc := found_flags c')\<rparr>, Inr ())"
    using c' q by (simp add: mdb_page_search_root_def op_simps s1_def at_root_def c_def top_ref_def pageM_def found_flags_def)
  have rd: "\<not> F_ISSET (mt_flags (st_txn s)) MDB_TXN_ERROR" "1 < root" "root \<noteq> P_INVALID"
    "\<not> any_set (mt_dbflags (st_txn s) (mc_dbi c)) DB_STALE" "root_ready s (mc_pg c 0) root"
    using ready by (simp_all add: search_ready_def root_def c_def)
  have rp: "page_of s root = Some (r, p)" using rp by (simp add: root_def)
  show ?thesis
  proof (cases "\<exists>q. page_at s (mc_pg c 0) = Some q \<and> mp_pgno q = root \<and> mc_pg c 0 \<noteq> NullPg")
    case True
    then have *: "mc_pg c 0 = r" "root_cached (mc_pg c 0) root s = Some (s, Inr True)"
      using rd(5) rp by (auto simp: root_ready_def root_cached_def op_simps pageM_def)
    then have "(mc_pg c)(0 := r) = mc_pg c" by auto
    then have "s1 = s\<lparr>st_cursors := (st_cursors s)(mc := c\<lparr>mc_snum := 1, mc_top := 0\<rparr>)\<rparr>"
      by (cases c) (simp add: s1_def at_root_def)
    then show ?thesis
      using rd(1-4) root_step * fl'
      by (simp add: page_search.simps op_simps c_def [symmetric] root_def [symmetric])
  next
    case False
    then have rc: "root_cached (mc_pg c 0) root s = Some (s, Inr False)"
      using rd(5) by (auto simp: root_ready_def root_cached_def op_simps pageM_def)
    obtain lvl where "mdb_page_get root s = Some (s, Inr (r, lvl))" using page_get_run(1) [OF rp] by blast
    then show ?thesis
      using rd(1-4) root_step rc fl'
      by (simp add: page_search.simps op_simps c_def [symmetric] root_def [symmetric] s1_def at_root_def)
  qed
qed

text \<open>
  Where \<open>mdb_cursor_set\<close> takes a cursor that is not yet initialised: to the leaf that covers
  the key, at the first key that is not below it.
\<close>

definition key_start :: "mdb_cursor \<Rightarrow> mdb_cursor" where
  "key_start c = c\<lparr>mc_snum := 1, mc_top := 0, mc_flags := clear_flag (mc_flags c OR C_INITIALIZED) C_EOF\<rparr>"

definition key_position ::
  "(bytes \<Rightarrow> bool) \<Rightarrow> (bytes \<Rightarrow> 'o::linorder) \<Rightarrow> mdb_state \<Rightarrow> bytes \<Rightarrow> nat \<Rightarrow> u64 \<Rightarrow> mdb_cursor \<Rightarrow> mdb_cursor \<Rightarrow> bool" where
  "key_position valid rank s key d pg c c' \<longleftrightarrow> arrived valid rank s key d pg (key_start c) c' \<and>
     (\<forall>p. page_at s (top_ref c') = Some p \<longrightarrow> top_ki c' = length (filter (\<lambda>k. rank k < rank key) (page_keys p)))"

lemma key_position_at:
  assumes "arrived valid rank s key d pg (key_start c) c'" "page_at s (top_ref c') = Some p"
    and "x = length (filter (\<lambda>k. rank k < rank key) (page_keys p))" "indx_t x = x"
  shows "key_position valid rank s key d pg c (set_top_ki x c')"
    and "key_position valid rank s key d pg c (found_flags (set_top_ki x c'))"
proof -
  have fl: "clear_flag (clear_flag (w OR C_INITIALIZED) C_EOF OR C_INITIALIZED) C_EOF = clear_flag (w OR C_INITIALIZED) C_EOF"
    for w by (rule bit_eqI) (auto simp: clear_flag_def bit_simps)
  have "key_path rank s key (set_top_ki x c') (mc_top c') 0 pg' = key_path rank s key c' (mc_top c') 0 pg'" for pg'
    by (rule key_path_cong) (simp_all add: set_top_ki_def)
  then show "key_position valid rank s key d pg c (set_top_ki x c')"
    "key_position valid rank s key d pg c (found_flags (set_top_ki x c'))"
    using assms key_path_cong [of 0 d "set_top_ki x c'" c' rank s key pg] fl
    by (auto simp: key_position_def arrived_def key_start_def top_ref_def top_ki_def set_top_ki_def found_flags_def)
qed

context key_embedding
begin

lemma cmp_rank_filter:
  "\<forall>k \<in> set ks. valid k \<Longrightarrow> valid key \<Longrightarrow> filter (\<lambda>k. cmp k key < 0) ks = filter (\<lambda>k. rank k < rank key) ks"
  by (rule filter_cong) (auto simp: cmp_less)

lemma rank_increasing:
  "\<forall>k \<in> set ks. valid k \<Longrightarrow> sorted_wrt (<) (map rank ks) \<Longrightarrow> increasing ks"
  unfolding sorted_wrt_map by (rule sorted_wrt_mono_rel) (auto simp: cmp_less)

lemma filter_le_less:
  assumes "\<forall>k \<in> set ks. valid k" "valid key" "sorted_wrt (<) (map rank ks)"
  shows "length (filter (\<lambda>k. rank k \<le> rank key) ks)
    = length (filter (\<lambda>k. rank k < rank key) ks) + (if key \<in> set ks then 1 else 0)"
  using assms
proof (induction ks)
  case (Cons k ks)
  have above: "rank key < rank k'" if "k' \<in> set ks" "rank key \<le> rank k" for k'
    using Cons.prems that by (auto intro: le_less_trans)
  have none: "filter (\<lambda>k. rank k \<le> rank key) ks = []" "filter (\<lambda>k. rank k < rank key) ks = []" "key \<notin> set ks"
    if r: "rank key \<le> rank k"
  proof -
    have "\<not> rank k' \<le> rank key \<and> \<not> rank k' < rank key" if "k' \<in> set ks" for k'
      using above [OF that r] by (simp add: not_le not_less less_imp_le)
    then show "filter (\<lambda>k. rank k \<le> rank key) ks = []" "filter (\<lambda>k. rank k < rank key) ks = []" "key \<notin> set ks"
      unfolding filter_empty_conv by blast+
  qed
  show ?case
  proof (cases "rank k < rank key")
    case True
    then show ?thesis using Cons by (cases "k = key") simp_all
  next
    case False
    then have r: "rank key \<le> rank k" unfolding not_less .
    have eq: "rank k \<le> rank key \<longleftrightarrow> k = key"
      using rank_inj [of k key] Cons.prems(1,2) r by (metis list.set_intros(1) order_antisym order_refl)
    show ?thesis using False none [OF r] by (simp only: filter.simps eq) auto
  qed
qed simp

lemma search_child_run:
  assumes p: "page_at s (top_ref (st_cursors s mc)) = Some p" "branch_ok valid rank p lo hi"
    and f: "cursor_cmp s mc = Some f" "run_cmp (st_user s) f = cmp" "node_cmp f p = f"
    and key: "valid key" and fl: "\<not> any_set flags (MDB_PS_FIRST OR MDB_PS_LAST)"
  shows "\<exists>x. search_child mc p (Some key) flags s
    = Some (s\<lparr>st_cursors := (st_cursors s)(mc := set_top_ki x (st_cursors s mc))\<rparr>, Inr (child_index rank p key))"
proof -
  define ks where "ks = tl (page_keys p)"
  have b: "\<not> IS_LEAF p" "\<not> IS_LEAF2 p" "1 < NUMKEYS p" "NUMKEYS p < 65535" "\<forall>k \<in> set ks. valid k" "sorted_wrt (<) (map rank ks)"
    using p(2) by (auto simp: branch_ok_def ks_def)
  define x where "x = 1 + length (filter (\<lambda>k. rank k < rank key) ks)"
  have le: "x \<le> NUMKEYS p" using length_filter_le [of "\<lambda>k. rank k < rank key" ks] b(3) by (simp add: x_def ks_def)
  have x: "mdb_node_search (st_user s) f pad p key
    = (key \<in> set ks, x, if x < NUMKEYS p then Some (NODEPTR p x) else None)" for pad
    using node_search_branch [OF b(1-3) _ b(5) [unfolded ks_def] rank_increasing [OF b(5,6), unfolded ks_def] key refl,
        of "st_user s" f pad] f(2,3)
    by (simp add: x_def ks_def [symmetric] cmp_rank_filter [OF b(5) key])
  have i: "child_index rank p key = x - (if key \<in> set ks then 0 else 1)" "0 < x"
    using filter_le_less [OF b(5) key b(6)] by (simp_all add: child_index_def x_def ks_def [symmetric])
  have ix: "indx_t x = x" using le b(4) by simp
  have last: "x = NUMKEYS p \<Longrightarrow> key \<notin> set ks"
  proof
    assume "x = NUMKEYS p" "key \<in> set ks"
    then have "length (filter (\<lambda>k. rank k \<le> rank key) ks) = NUMKEYS p"
      using filter_le_less [OF b(5) key b(6)] by (simp add: x_def)
    then show False using length_filter_le [of "\<lambda>k. rank k \<le> rank key" ks] b(3) by (simp add: ks_def)
  qed
  have "search_child mc p (Some key) flags s
    = Some (s\<lparr>st_cursors := (st_cursors s)(mc := set_top_ki x (st_cursors s mc))\<rparr>, Inr (child_index rank p key))"
    using fl i ix le last
    by (auto simp: search_child_def op_simps node_searchM_run [OF p(1) f(1) x] set_top_ki_def top_ki_def)
  then show ?thesis by blast
qed

lemma search_root_step:
  assumes p: "page_at s r = Some p" "branch_ok valid rank p lo hi" "1 < NUMKEYS p"
    and c: "c = st_cursors s mc" "top_ref c = r" "mc_snum c = mc_top c + 1" "mc_snum c < CURSOR_STACK"
    and f: "cursor_cmp s mc = Some f" "run_cmp (st_user s) f = cmp" "\<And>p. node_cmp f p = f"
    and key: "valid key" and fl: "flags = 0"
    and i: "i = child_index rank p key" "i < NUMKEYS p" and q: "page_of s (child p i) = Some (r', q)"
    and c': "c' = c\<lparr>mc_top := mc_top c + 1, mc_snum := mc_snum c + 1,
      mc_pg := (mc_pg c)(mc_top c + 1 := r'), mc_ki := (mc_ki c)(mc_top c := i, mc_top c + 1 := 0)\<rparr>"
  shows "search_root_loop (Suc n) touch mc r (Some key) flags s
    = search_root_loop n touch mc r' (Some key) flags (s\<lparr>st_cursors := (st_cursors s)(mc := c')\<rparr>)"
proof -
  have pt: "page_at s (top_ref (st_cursors s mc)) = Some p" using p(1) c(1,2) by simp
  obtain x where x: "search_child mc p (Some key) flags s
      = Some (s\<lparr>st_cursors := (st_cursors s)(mc := set_top_ki x c)\<rparr>, Inr i)"
    using search_child_run [OF pt p(2) f(1,2) f(3) key, of flags] fl i(1) c(1) by (auto simp: any_set_def)
  let ?s = "s\<lparr>st_cursors := (st_cursors s)(mc := set_top_ki x c)\<rparr>"
  obtain lvl where g: "mdb_page_get (child p i) ?s = Some (?s, Inr (r', lvl))"
    using page_get_run(1) [of ?s "child p i" r' q] q by auto
  have ib: "IS_BRANCH p" "indx_t i = i" using p(2) i(2) by (auto simp: branch_ok_def)
  show ?thesis
    using ib c(2-4) c' i(2) p(3)
    by (simp add: search_root_loop.simps [of "Suc n"] op_simps pageM_run [OF p(1)] x [unfolded fl] fl
        g [unfolded child_def set_top_ki_def] c(1) [symmetric] mdb_cursor_push_def set_top_ki_def any_set_def)
qed

lemma search_root_run:
  assumes "tree_ok valid rank s d pg lo hi" "within lo hi (rank key)" "valid key" "page_of s pg = Some (r, p)"
    and "c = st_cursors s mc" "top_ref c = r" "mc_snum c = mc_top c + 1" "mc_top c + d < CURSOR_STACK" "d \<le> n"
    and f: "run_cmp (st_user s) f = cmp" "\<And>p. node_cmp f p = f" and "cursor_cmp s mc = Some f"
  shows "\<exists>c'. search_root_loop n touch mc r (Some key) 0 s
      = Some (s\<lparr>st_cursors := (st_cursors s)(mc := c')\<rparr>, Inr (top_ref c')) \<and>
    arrived valid rank s key d pg c c'"
  using assms(1,2,4-9,12) f(1)
proof (induction d arbitrary: s pg lo hi r p c n)
  case 0
  have leaf: "leaf_ok valid rank s p lo hi" using 0 by simp
  have "key_leaf valid rank s key (leaf_items s p) p"
    unfolding key_leaf_def using leaf by (intro exI [of _ "[]"] exI) auto
  moreover have "search_root_loop n touch mc r (Some key) 0 s = Some (s, Inr r)"
    using leaf page_get_run(2) [OF 0(3)] by (simp add: search_root_loop.simps op_simps leaf_ok_def)
  moreover have "s\<lparr>st_cursors := (st_cursors s)(mc := c)\<rparr> = s" using 0(4) by simp
  ultimately show ?case
    using 0 page_get_run(2) [OF 0(3)] by (intro exI [of _ c]) (simp add: arrived_def top_ref_def)
next
  case (Suc d)
  define i where "i = child_index rank p key"
  have p: "page_at s r = Some p" "branch_ok valid rank p lo hi" "1 < NUMKEYS p"
    and t: "\<And>j. j < NUMKEYS p \<Longrightarrow> tree_ok valid rank s d (child p j) (low_of rank p lo j) (high_of rank p hi j)"
    using Suc.prems(1,3) page_get_run(2) [OF Suc.prems(3)] by (auto simp: branch_ok_def)
  note i = child_index_within [OF p(2) Suc.prems(2), folded i_def]
  obtain r' q where q: "page_of s (child p i) = Some (r', q)"
    using t [OF i(1)] by (cases d) (auto split: option.splits)
  define c1 where "c1 = c\<lparr>mc_top := mc_top c + 1, mc_snum := mc_snum c + 1,
      mc_pg := (mc_pg c)(mc_top c + 1 := r'), mc_ki := (mc_ki c)(mc_top c := i, mc_top c + 1 := 0)\<rparr>"
  define s1 where "s1 = s\<lparr>st_cursors := (st_cursors s)(mc := c1)\<rparr>"
  obtain n' where n: "n = Suc n'" "d \<le> n'" using Suc.prems(8) by (cases n) auto
  have "\<exists>c'. search_root_loop n' touch mc r' (Some key) 0 s1
      = Some (s1\<lparr>st_cursors := (st_cursors s1)(mc := c')\<rparr>, Inr (top_ref c')) \<and>
    arrived valid rank s1 key d (child p i) c1 c'"
  proof (rule Suc.IH)
    show "tree_ok valid rank s1 d (child p i) (low_of rank p lo i) (high_of rank p hi i)"
      using t [OF i(1)] by (simp add: s1_def)
    show "page_of s1 (child p i) = Some (r', q)" using q by (simp add: s1_def)
    show "cursor_cmp s1 mc = Some f" using Suc.prems(4,9) by (simp add: cursor_cmp_def s1_def c1_def)
  qed (use i(2) n(2) Suc.prems in \<open>auto simp: s1_def c1_def top_ref_def\<close>)
  then obtain c' where c': "search_root_loop n' touch mc r' (Some key) 0 s1
      = Some (s\<lparr>st_cursors := (st_cursors s)(mc := c')\<rparr>, Inr (top_ref c'))"
    "arrived valid rank s1 key d (child p i) c1 c'"
    by (auto simp: s1_def)
  have step: "search_root_loop n touch mc r (Some key) 0 s = search_root_loop n' touch mc r' (Some key) 0 s1"
    unfolding n(1) s1_def
    by (rule search_root_step [OF p Suc.prems(4,5,6) _ Suc.prems(9,10) f(2) assms(3) refl i_def i(1) q c1_def])
      (use Suc.prems(6,7) in simp)
  obtain before after where split: "tree_items s (Suc d) pg = before @ tree_items s d (child p i) @ after"
    "\<forall>x \<in> set before. rank (fst x) < rank key" "\<forall>x \<in> set after. rank key < rank (fst x)"
    using tree_child_split [OF Suc.prems(1,2,3), folded i_def] by blast
  have same: "mc_pg c' (mc_top c) = mc_pg c (mc_top c)" "mc_ki c' (mc_top c) = i"
    using c'(2) by (auto simp: arrived_def c1_def)
  have arr: "arrived valid rank s key (Suc d) pg c c'"
    using c'(2) same i(1) Suc.prems(3,5) key_leaf_extend [OF _ split(2,3)] split(1)
    by (auto simp: arrived_def s1_def c1_def top_ref_def i_def)
  show ?case
    by (rule exI [of _ c']) (simp only: step c'(1) arr)
qed

lemma page_search_run:
  assumes t: "tree_ok valid rank s d (md_root (cursor_db s mc)) None None" "d < CURSOR_STACK" and v: "valid key"
    and ready: "search_ready s mc"
    and f: "run_cmp (st_user s) f = cmp" "\<And>p. node_cmp f p = f" "cursor_cmp s mc = Some f"
    and c0: "c0 = (st_cursors s mc)\<lparr>mc_snum := 1, mc_top := 0,
      mc_flags := clear_flag (mc_flags (st_cursors s mc) OR C_INITIALIZED) C_EOF\<rparr>"
  shows "\<exists>c'. page_search n touch mc (Some key) 0 s = Some (s\<lparr>st_cursors := (st_cursors s)(mc := c')\<rparr>, Inr ()) \<and>
    arrived valid rank s key d (md_root (cursor_db s mc)) c0 c'"
proof -
  define root where "root = md_root (cursor_db s mc)"
  define c where "c = st_cursors s mc"
  obtain r p where rp: "page_of s root = Some (r, p)"
    using t(1) by (cases d) (auto simp: root_def split: option.splits)
  define s1 where "s1 = s\<lparr>st_cursors := (st_cursors s)(mc := at_root c r)\<rparr>"
  have "\<exists>c'. search_root_loop CURSOR_STACK touch mc r (Some key) 0 s1
      = Some (s1\<lparr>st_cursors := (st_cursors s1)(mc := c')\<rparr>, Inr (top_ref c')) \<and> arrived valid rank s1 key d root (at_root c r) c'"
  proof (rule search_root_run)
    show "tree_ok valid rank s1 d root None None" using t(1) by (simp add: s1_def root_def)
    show "page_of s1 root = Some (r, p)" using rp by (simp add: s1_def)
    show "cursor_cmp s1 mc = Some f" using f(3) by (simp add: cursor_cmp_def s1_def at_root_def c_def)
    show "run_cmp (st_user s1) f = cmp" using f(1) by (simp add: s1_def)
  qed (use t(2) v f(2) in \<open>auto simp: s1_def at_root_def top_ref_def within_def\<close>)
  then obtain c' where c': "search_root_loop CURSOR_STACK touch mc r (Some key) 0 s1
      = Some (s\<lparr>st_cursors := (st_cursors s)(mc := c')\<rparr>, Inr (top_ref c'))" "arrived valid rank s key d root (at_root c r) c'"
    by (auto simp: s1_def arrived_def)
  obtain q where q: "page_at s (top_ref c') = Some q" "IS_LEAF q"
    using c'(2) by (auto simp: arrived_def key_leaf_def leaf_ok_def)
  have "page_search n touch mc (Some key) 0 s = Some (s\<lparr>st_cursors := (st_cursors s)(mc := found_flags c')\<rparr>, Inr ())"
    by (rule page_search_step [OF ready _ _ q]) (use rp c'(1) in \<open>simp_all add: root_def s1_def c_def\<close>)
  moreover have "arrived valid rank s key d root c0 (found_flags c')"
    using c'(2) by (auto simp: arrived_def at_root_def c0 c_def found_flags_def top_ref_def)
  ultimately show ?thesis unfolding root_def by blast
qed

section \<open>Looking up a key\<close>

lemma leaf_search:
  assumes l: "leaf_ok valid rank s p lo hi" and key: "valid key" and f: "run_cmp user f = cmp" "node_cmp f p = f"
    and x: "x = length (filter (\<lambda>k. rank k < rank key) (page_keys p))"
  shows "mdb_node_search user f pad p key
    = (key \<in> set (page_keys p), x, if x < NUMKEYS p then Some (NODEPTR p x) else None)"
proof -
  have b: "IS_LEAF p" "\<not> IS_LEAF2 p" "\<forall>k \<in> set (page_keys p). valid k" "sorted_wrt (<) (map rank (page_keys p))"
    using l by (auto simp: leaf_ok_def)
  show ?thesis
    using node_search_leaf [OF b(1,2) _ b(3) rank_increasing [OF b(3,4)] key refl, of user f pad] f
    by (simp add: x cmp_rank_filter [OF b(3) key])
qed

lemma leaf_index:
  assumes l: "leaf_ok valid rank s p lo hi" and x: "x = length (filter (\<lambda>k. rank k < rank key) (page_keys p))"
  shows "x \<le> NUMKEYS p" and "i < NUMKEYS p \<Longrightarrow> rank (page_keys p ! i) < rank key \<longleftrightarrow> i < x"
    and "key \<in> set (page_keys p) \<Longrightarrow> x < NUMKEYS p \<and> page_keys p ! x = key"
proof -
  have b: "sorted_wrt (<) (map rank (page_keys p))" using l by (auto simp: leaf_ok_def)
  show "x \<le> NUMKEYS p"
    using length_filter_le [of "\<lambda>k. rank k < rank key" "page_keys p"] by (simp add: x)
  have at: "rank (page_keys p ! i) < rank key \<longleftrightarrow> i < x" if "i < NUMKEYS p" for i
    unfolding x by (rule filter_sorted_prefix [OF b]) (use that in auto)
  then show "i < NUMKEYS p \<Longrightarrow> rank (page_keys p ! i) < rank key \<longleftrightarrow> i < x" .
  assume "key \<in> set (page_keys p)"
  then obtain j where j: "j < NUMKEYS p" "page_keys p ! j = key" by (auto simp: in_set_conv_nth)
  have "\<not> j < x" using at [OF j(1)] j(2) by simp
  moreover have "i < x" if "i < j" for i
    using sorted_wrt_nth_less [OF b that] at [of i] j that by simp
  then have "\<not> x < j" by blast
  ultimately have "x = j" by simp
  then show "x < NUMKEYS p \<and> page_keys p ! x = key" using j by simp
qed

lemma map_of_leaf:
  assumes l: "key_leaf valid rank s key items p" and v: "valid key"
    and x: "x = length (filter (\<lambda>k. rank k < rank key) (page_keys p))"
  shows "map_of items key
    = (if key \<in> set (page_keys p) then node_value s (mp_body p) (NODEPTR p x) else None)"
proof -
  obtain before after lo hi where i: "leaf_ok valid rank s p lo hi" "items = before @ leaf_items s p @ after"
    "\<forall>x \<in> set before. rank (fst x) < rank key" "\<forall>x \<in> set after. rank key < rank (fst x)"
    using l unfolding key_leaf_def by blast
  have out: "map_of before key = None" "map_of after key = None"
    using i(3,4) by (force simp: map_of_eq_None_iff)+
  have d: "distinct (map fst (leaf_items s p))"
    unfolding keys_leaf_items using i(1) unfolding leaf_ok_def by (metis distinct_map strict_sorted_iff)
  show ?thesis
  proof (cases "key \<in> set (page_keys p)")
    case False
    then have "map_of (leaf_items s p) key = None" by (simp only: map_of_eq_None_iff flip: set_map) (simp add: keys_leaf_items)
    then show ?thesis using False out i(2) by (simp add: map_add_def)
  next
    case True
    then have n: "x < NUMKEYS p" "page_keys p ! x = key"
      using leaf_index(3) [OF i(1) x] by auto
    have v: "node_value s (mp_body p) (NODEPTR p x) \<noteq> None" using i(1) n(1) by (simp add: leaf_ok_def)
    have "leaf_items s p ! x = (key, the (node_value s (mp_body p) (NODEPTR p x)))"
      using n by (simp add: leaf_items_def nth_page_keys)
    then have "(key, the (node_value s (mp_body p) (NODEPTR p x))) \<in> set (leaf_items s p)"
      using n(1) by (metis length_leaf_items nth_mem)
    then have "map_of (leaf_items s p) key = Some (the (node_value s (mp_body p) (NODEPTR p x)))"
      using d by simp
    then show ?thesis using True v out i(2) by (auto simp: map_add_def)
  qed
qed

text \<open>
  \<open>mdb_cursor_set\<close> for an exact key, from a cursor that is not yet initialised. The cursor
  stands in the leaf that covers the key, at the first key that is not below it.
\<close>

lemma cursor_set_run:
  assumes t: "tree_ok valid rank s d (md_root (cursor_db s mc)) None None" "d < CURSOR_STACK"
    and v: "valid key" "key \<noteq> []"
    and ready: "search_ready s mc" and c: "\<not> any_set (mc_flags (st_cursors s mc)) C_INITIALIZED"
    and f: "run_cmp (st_user s) f = cmp" "\<And>p. node_cmp f p = f" "cursor_cmp s mc = Some f"
  shows "\<exists>c'. mdb_cursor_set mc key want MDB_SET True s
    = Some (s\<lparr>st_cursors := (st_cursors s)(mc := c')\<rparr>,
        case map_of (tree_items s d (md_root (cursor_db s mc))) key of
          None \<Rightarrow> Inl MDB_NOTFOUND | Some v \<Rightarrow> Inr (key, if want then Some v else None)) \<and>
    key_position valid rank s key d (md_root (cursor_db s mc)) (st_cursors s mc) c'"
proof -
  define root where "root = md_root (cursor_db s mc)"
  obtain c' where c': "page_search 2 (\<lambda>_. stuck) mc (Some key) 0 s = Some (s\<lparr>st_cursors := (st_cursors s)(mc := c')\<rparr>, Inr ())"
    "arrived valid rank s key d root (key_start (st_cursors s mc)) c'"
    using page_search_run [OF t v(1) ready f refl, of 2 "\<lambda>_. stuck"] by (auto simp: root_def key_start_def)
  then obtain p where p: "page_at s (top_ref c') = Some p" "key_leaf valid rank s key (tree_items s d root) p"
    by (auto simp: arrived_def)
  then obtain lo hi where l: "leaf_ok valid rank s p lo hi" by (auto simp: key_leaf_def)
  then have lf: "IS_LEAF p" "\<not> IS_LEAF2 p" "NUMKEYS p < 65535" by (auto simp: leaf_ok_def)
  define x where "x = length (filter (\<lambda>k. rank k < rank key) (page_keys p))"
  note i = leaf_index [OF l x_def]
  define s1 where "s1 = s\<lparr>st_cursors := (st_cursors s)(mc := c')\<rparr>"
  have dbi: "mc_dbi c' = mc_dbi (st_cursors s mc)" using c'(2) by (simp add: arrived_def key_start_def)
  have ns: "node_searchM mc key s1
    = Some (s\<lparr>st_cursors := (st_cursors s)(mc := set_top_ki x c')\<rparr>,
        Inr (key \<in> set (page_keys p), if x < NUMKEYS p then Some (NODEPTR p x) else None))"
  proof -
    have "page_at s1 (top_ref (st_cursors s1 mc)) = Some p" "cursor_cmp s1 mc = Some f"
      using p(1) f(3) dbi by (simp_all add: s1_def cursor_cmp_def)
    from node_searchM_run [OF this leaf_search [OF l v(1) _ _ x_def]]
    show ?thesis using f(1,2) by (simp add: s1_def)
  qed
  have ix: "top_ki (set_top_ki x c') = x" "top_ref (set_top_ki x c') = top_ref c'"
    using i(1) lf(3) by (simp_all add: top_ki_def set_top_ki_def top_ref_def)
  note at = key_position_at [OF c'(2) p(1) x_def]
  have "indx_t x = x" using i(1) lf(3) by simp
  note at = at [OF this]
  have start: "mdb_cursor_set mc key want MDB_SET True s = cursor_set2 mc key want MDB_SET True s1"
    using c v(2) c'(1) p(1) lf
    by (simp add: mdb_cursor_set_def op_simps mdb_page_search_def topM_def s1_def)
  show ?thesis
  proof (cases "key \<in> set (page_keys p)")
    case False
    then have "map_of (tree_items s d root) key = None" using map_of_leaf [OF p(2) v(1) x_def] by simp
    then show ?thesis
      using start ns False at(1) by (intro exI [of _ "set_top_ki x c'"]) (auto simp: cursor_set2_def op_simps root_def [symmetric])
  next
    case True
    then have n: "x < NUMKEYS p" "page_keys p ! x = key" using i(3) by auto
    then obtain val where val: "node_value s (mp_body p) (NODEPTR p x) = Some val"
      "\<not> F_ISSET (mn_flags (mp_body p) (NODEPTR p x)) F_DUPDATA"
      using l by (auto simp: leaf_ok_def)
    have m: "map_of (tree_items s d root) key = Some val" using map_of_leaf [OF p(2) v(1) x_def] True val by simp
    have rd: "mdb_node_read (mp_body p) (NODEPTR p x) (s\<lparr>st_cursors := cs\<rparr>) = Some (s\<lparr>st_cursors := cs\<rparr>, Inr val)" for cs
      using node_read_run [of "s\<lparr>st_cursors := cs\<rparr>"] val(1) by simp
    show ?thesis
      using start ns True n(1) m ix p(1) lf(2) val(2) rd at(2)
      by (intro exI [of _ "found_flags (set_top_ki x c')"]) (auto simp: found_flags_def cursor_set2_def cursor_set1_def op_simps topM_def root_def [symmetric] top_ref_def top_ki_def set_top_ki_def)
  qed
qed

end

text \<open>A database that is ready to be read: its record is there and has a tree.\<close>

definition db_ready :: "mdb_state \<Rightarrow> nat \<Rightarrow> bool" where
  "db_ready s dbi \<longleftrightarrow> dbi \<noteq> FREE_DBI \<and> TXN_DBI_EXIST (st_txn s) dbi \<and>
     mt_flags (st_txn s) AND MDB_TXN_ERROR = 0 \<and>
     \<not> any_set (mt_dbflags (st_txn s) dbi) DB_STALE \<and> \<not> any_set (md_flags (mt_dbs (st_txn s) dbi)) MDB_DUPSORT \<and>
     1 < md_root (mt_dbs (st_txn s) dbi) \<and> md_root (mt_dbs (st_txn s) dbi) \<noteq> P_INVALID"

text \<open>The cursor on the stack of \<open>mdb_get\<close> and the operations like it.\<close>

definition start_cursor :: "nat \<Rightarrow> mdb_state \<Rightarrow> mdb_cursor" where
  "start_cursor dbi s = (st_cursors s (st_cfresh s))\<lparr>mc_dbi := dbi, mc_snum := 0, mc_top := 0,
     mc_pg := (mc_pg (st_cursors s (st_cfresh s)))(0 := NullPg), mc_flags := 0\<rparr>"

definition with_fresh :: "mdb_state \<Rightarrow> mdb_cursor \<Rightarrow> mdb_state" where
  "with_fresh s c = s\<lparr>st_cfresh := st_cfresh s + 1, st_cursors := (st_cursors s)(st_cfresh s := c)\<rparr>"

abbreviation start_state :: "nat \<Rightarrow> mdb_state \<Rightarrow> mdb_state" where
  "start_state dbi s \<equiv> with_fresh s (start_cursor dbi s)"

lemma cursor_init_run:
  assumes "db_ready s dbi"
  shows "mdb_cursor_init (st_cfresh s) dbi (s\<lparr>st_cfresh := st_cfresh s + 1\<rparr>) = Some (start_state dbi s, Inr ())"
  using assms by (simp add: mdb_cursor_init_def cursor_init_with_def op_simps with_fresh_def start_cursor_def db_ready_def)

context key_embedding
begin

lemma fresh_set_run:
  assumes "db_ready s dbi" and t: "tree_ok valid rank s d (md_root (mt_dbs (st_txn s) dbi)) None None" "d < CURSOR_STACK"
    and v: "valid key" "key \<noteq> []"
    and f: "run_cmp (st_user s) f = cmp" "\<And>p. node_cmp f p = f" "md_cmp (me_dbxs (st_env s) dbi) = Some f"
  shows "\<exists>c'. mdb_cursor_set (st_cfresh s) key want MDB_SET True (start_state dbi s)
    = Some (with_fresh s c',
        case map_of (tree_items s d (md_root (mt_dbs (st_txn s) dbi))) key of
          None \<Rightarrow> Inl MDB_NOTFOUND | Some v \<Rightarrow> Inr (key, if want then Some v else None)) \<and>
    key_position valid rank s key d (md_root (mt_dbs (st_txn s) dbi)) (start_cursor dbi s) c'"
proof -
  define mc where "mc = st_cfresh s"
  define s1 where "s1 = start_state dbi s"
  have c: "st_cursors s1 mc = start_cursor dbi s" "mc_dbi (start_cursor dbi s) = dbi" "mc_flags (start_cursor dbi s) = 0"
    "mc_pg (start_cursor dbi s) 0 = NullPg"
    by (simp_all add: s1_def with_fresh_def mc_def start_cursor_def)
  have db: "cursor_db s1 mc = mt_dbs (st_txn s) dbi" by (simp add: cursor_db_def c) (simp add: s1_def with_fresh_def)
  have same: "tree_items s1 = tree_items s" "tree_ok valid rank s1 = tree_ok valid rank s"
    "key_position valid rank s1 = key_position valid rank s"
    by (simp_all add: s1_def with_fresh_def fun_eq_iff key_position_def arrived_def)
  have "\<exists>c'. mdb_cursor_set mc key want MDB_SET True s1
    = Some (s1\<lparr>st_cursors := (st_cursors s1)(mc := c')\<rparr>,
        case map_of (tree_items s1 d (md_root (cursor_db s1 mc))) key of
          None \<Rightarrow> Inl MDB_NOTFOUND | Some v \<Rightarrow> Inr (key, if want then Some v else None)) \<and>
    key_position valid rank s1 key d (md_root (cursor_db s1 mc)) (st_cursors s1 mc) c'"
  proof (rule cursor_set_run)
    show "tree_ok valid rank s1 d (md_root (cursor_db s1 mc)) None None"
      unfolding db same using t(1) .
    show "search_ready s1 mc"
      using assms(1) unfolding search_ready_def db c
      by (auto simp: db_ready_def root_ready_def s1_def with_fresh_def F_ISSET_def MDB_TXN_ERROR_def)
    show "cursor_cmp s1 mc = Some f" using f(3) by (simp add: cursor_cmp_def c) (simp add: s1_def with_fresh_def)
    show "run_cmp (st_user s1) f = cmp" using f(1) by (simp add: s1_def with_fresh_def)
  qed (use t(2) v f(2) c in \<open>auto simp: any_set_def\<close>)
  then show ?thesis
    unfolding db same c by (simp add: s1_def with_fresh_def mc_def)
qed

lemma get_run:
  assumes "db_ready s dbi" and t: "tree_ok valid rank s d (md_root (mt_dbs (st_txn s) dbi)) None None" "d < CURSOR_STACK"
    and v: "valid key" "key \<noteq> []"
    and f: "run_cmp (st_user s) f = cmp" "\<And>p. node_cmp f p = f" "md_cmp (me_dbxs (st_env s) dbi) = Some f"
  shows "\<exists>cs. mdb_get dbi (Some key) True s
    = Some (s\<lparr>st_cfresh := st_cfresh s + 1, st_cursors := cs\<rparr>,
        case map_of (tree_items s d (md_root (mt_dbs (st_txn s) dbi))) key of
          None \<Rightarrow> Inl MDB_NOTFOUND | Some v \<Rightarrow> Inr v)"
proof -
  obtain cs where cs: "mdb_cursor_set (st_cfresh s) key True MDB_SET True (start_state dbi s)
    = Some (s\<lparr>st_cfresh := st_cfresh s + 1, st_cursors := cs\<rparr>,
        case map_of (tree_items s d (md_root (mt_dbs (st_txn s) dbi))) key of
          None \<Rightarrow> Inl MDB_NOTFOUND | Some v \<Rightarrow> Inr (key, Some v))"
    using fresh_set_run [OF assms, of True] unfolding if_True by (auto simp: with_fresh_def)
  then show ?thesis
    using assms(1) cursor_init_run [OF assms(1)]
    by (auto simp: mdb_get_def op_simps db_ready_def any_set_def ret_def stuck_def split: option.splits)
qed

end


section \<open>Properties\<close>

text \<open>
  C1: \<open>mdb_get\<close> is a lookup in the map that the database's B+tree stands for. In a
  transaction without error, for a valid handle whose record is at hand, and a well-formed
  tree of at most 31 branch levels in the default key order, a look-up with a non-empty key
  always returns: with the value the list of the tree's items associates with the key, read
  from the leaf or its overflow pages, and with \<open>MDB_NOTFOUND\<close> when there is none. Of the
  state only cursors change.
\<close>

theorem mdb_get_correct:
  assumes "db_ready s dbi"
    and "tree_ok (\<lambda>k. length k < 2 ^ 32) (\<lambda>k. k) s d (md_root (mt_dbs (st_txn s) dbi)) None None" "d < CURSOR_STACK"
    and "key \<noteq> []" "length key < 2 ^ 32" "md_cmp (me_dbxs (st_env s) dbi) = Some Cmp_memn"
  shows "\<exists>cs. mdb_get dbi (Some key) True s
    = Some (s\<lparr>st_cfresh := st_cfresh s + 1, st_cursors := cs\<rparr>,
        case map_of (tree_items s d (md_root (mt_dbs (st_txn s) dbi))) key of
          None \<Rightarrow> Inl MDB_NOTFOUND | Some v \<Rightarrow> Inr v)"
  using memn.get_run [OF assms(1-3,5,4) _ _ assms(6)] by (simp add: node_cmp_memn)

text \<open>
  For the witnesses: a state with a database of three pages, page 2 the root with children 3
  and 4, read by a read-only transaction.
\<close>

definition leaf_page :: "u64 \<Rightarrow> u8 \<Rightarrow> u8 \<Rightarrow> mdb_page" where
  "leaf_page pg a b = \<lparr>mp_pgno = pg, mp_pad = 0, mp_flags = P_LEAF, mp_lower = 20, mp_upper = 80,
     mp_ptrs = (\<lambda>i. if i = 0 then 80 else 90),
     mp_body = (\<lambda>_. 0)(80 := 1, 86 := 1, 88 := a, 89 := a + 100, 90 := 1, 96 := 1, 98 := b, 99 := b + 100)\<rparr>"

definition branch_page :: mdb_page where
  "branch_page = \<lparr>mp_pgno = 2, mp_pad = 0, mp_flags = P_BRANCH, mp_lower = 20, mp_upper = 80,
     mp_ptrs = (\<lambda>i. if i = 0 then 80 else 90),
     mp_body = (\<lambda>_. 0)(80 := 3, 90 := 4, 96 := 1, 98 := 7)\<rparr>"

definition state0 :: mdb_state where
  "state0 = \<lparr>st_env = env0, st_txn = txn1\<lparr>mt_flags := MDB_TXN_RDONLY, mt_next_pgno := 5\<rparr>,
     st_map = (\<lambda>_. branch_page)(3 := leaf_page 3 5 6, 4 := leaf_page 4 7 9), st_heap = (\<lambda>_. None), st_fresh = 0,
     st_cursors = (\<lambda>_. \<lparr>mc_dbi = 0, mc_snum = 0, mc_top = 0, mc_flags = 0, mc_pg = (\<lambda>_. NullPg), mc_ki = (\<lambda>_. 0)\<rparr>),
     st_cfresh = 0, st_user = (\<lambda>_ _ _. 0), st_raw = (\<lambda>_. branch_page), st_oracle = (\<lambda>_. True),
     st_write = (\<lambda>_ n. Wrote n), st_torn = (\<lambda>old new n. old), st_sync = (\<lambda>_. 0), st_clock = 0\<rparr>"

lemma page_of_state0:
  "page_of state0 2 = Some (MapPg 2, branch_page)" "page_of state0 3 = Some (MapPg 3, leaf_page 3 5 6)"
  "page_of state0 4 = Some (MapPg 4, leaf_page 4 7 9)"
  by (simp_all add: page_of_def page_lookup_def state0_def any_set_def MDB_TXN_RDONLY_def)

lemma leaf_page_simps [simp]: "NUMKEYS (leaf_page pg a b) = 2" "IS_LEAF (leaf_page pg a b)"
  "\<not> IS_BRANCH (leaf_page pg a b)" "\<not> IS_LEAF2 (leaf_page pg a b)" "NODEPTR (leaf_page pg a b) 0 = 80"
  "NODEPTR (leaf_page pg a b) (Suc 0) = 90"
  by (simp_all add: leaf_page_def NUMKEYS_def PAGEHDRSZ_def PAGEBASE_def NODEPTR_def IS_LEAF_def IS_BRANCH_def
      IS_LEAF2_def F_ISSET_def P_LEAF_def P_BRANCH_def P_LEAF2_def)

lemma leaf_page_nodes:
  fixes a b :: u8 and pg :: u64
  defines "m \<equiv> mp_body (leaf_page pg a b)"
  shows "NODEKEY m 80 = [a]" "NODEKEY m 90 = [b]" "mn_flags m 80 = 0" "mn_flags m 90 = 0"
    "rd m (NODEDATA m 80) (unat (NODEDSZ m 80)) = [a + 100]" "rd m (NODEDATA m 90) (unat (NODEDSZ m 90)) = [b + 100]"
proof -
  have k: "NODEKSZ m 80 = 1" "NODEKSZ m 90 = 1" "unat (NODEDSZ m 80) = 1" "unat (NODEDSZ m 90) = 1"
    by (simp_all add: m_def leaf_page_def NODEKSZ_def mn_ksize_def NODEDSZ_def mn_lo_def mn_hi_def rd16_def)
  show "NODEKEY m 80 = [a]" "NODEKEY m 90 = [b]"
    "rd m (NODEDATA m 80) (unat (NODEDSZ m 80)) = [a + 100]" "rd m (NODEDATA m 90) (unat (NODEDSZ m 90)) = [b + 100]"
    by (simp_all add: NODEKEY_def NODEDATA_def k NODESIZE_def rd_def) (simp_all add: m_def leaf_page_def)
  show "mn_flags m 80 = 0" "mn_flags m 90 = 0" by (simp_all add: m_def leaf_page_def mn_flags_def rd16_def)
qed

lemma leaf_page_keys [simp]: "page_keys (leaf_page pg a b) = [[a], [b]]"
  by (simp add: page_keys_def numeral_2_eq_2 leaf_page_nodes)

lemma leaf_page_values [simp]:
  "node_value s (mp_body (leaf_page pg a b)) 80 = Some [a + 100]"
  "node_value s (mp_body (leaf_page pg a b)) 90 = Some [b + 100]"
  by (simp_all add: node_value_def leaf_page_nodes F_ISSET_def F_BIGDATA_def)

lemma branch_page_simps [simp]: "NUMKEYS branch_page = 2" "\<not> IS_LEAF branch_page" "IS_BRANCH branch_page"
  "\<not> IS_LEAF2 branch_page" "page_keys branch_page = [[], [7]]" "child branch_page 0 = 3" "child branch_page (Suc 0) = 4"
proof -
  show n: "NUMKEYS branch_page = 2" "\<not> IS_LEAF branch_page" "IS_BRANCH branch_page" "\<not> IS_LEAF2 branch_page"
    by (simp_all add: branch_page_def NUMKEYS_def PAGEHDRSZ_def PAGEBASE_def NODEPTR_def IS_LEAF_def IS_BRANCH_def
        IS_LEAF2_def F_ISSET_def P_LEAF_def P_BRANCH_def P_LEAF2_def)
  have p: "NODEPTR branch_page 0 = 80" "NODEPTR branch_page (Suc 0) = 90"
    by (simp_all add: branch_page_def NODEPTR_def PAGEBASE_def)
  have k: "NODEKSZ (mp_body branch_page) 80 = 0" "NODEKSZ (mp_body branch_page) 90 = 1"
    by (simp_all add: branch_page_def NODEKSZ_def mn_ksize_def rd16_def)
  have "NODEKEY (mp_body branch_page) 80 = []" "NODEKEY (mp_body branch_page) 90 = [7]"
    by (simp_all add: NODEKEY_def k NODESIZE_def rd_def) (simp_all add: branch_page_def)
  then show "page_keys branch_page = [[], [7]]"
    by (simp add: page_keys_def n numeral_2_eq_2 p)
  show "child branch_page 0 = 3" "child branch_page (Suc 0) = 4"
    unfolding child_def p NODEPGNO_def by (simp_all add: branch_page_def mn_lo_def mn_hi_def mn_flags_def rd16_def)
qed

lemma less_2: "i < (2 :: nat) \<longleftrightarrow> i = 0 \<or> i = Suc 0"
  by auto

lemma tree_ok_state0: "tree_ok (\<lambda>k. length k < 2 ^ 32) (\<lambda>k. k) state0 1 2 None None"
proof -
  have l: "leaf_ok (\<lambda>k. length k < 2 ^ 32) (\<lambda>k. k) state0 (leaf_page 3 5 6) None (Some [7])"
    "leaf_ok (\<lambda>k. length k < 2 ^ 32) (\<lambda>k. k) state0 (leaf_page 4 7 9) (Some [7]) None"
    by (auto simp: leaf_ok_def within_def less_2 leaf_page_nodes F_ISSET_def F_DUPDATA_def)
  have b: "branch_ok (\<lambda>k. length k < 2 ^ 32) (\<lambda>k. k) branch_page None None"
    by (simp add: branch_ok_def within_def)
  show ?thesis
    using l b by (auto simp: page_of_state0 less_2 low_of_def high_of_def)
qed

lemma tree_items_state0: "tree_items state0 1 2 = [([5], [105]), ([6], [106]), ([7], [107]), ([9], [109])]"
  by (simp add: page_of_state0 leaf_items_def numeral_2_eq_2 leaf_page_nodes)

lemma db_ready_state0: "db_ready state0 1"
  by (simp add: db_ready_def state0_def txn1_def TXN_DBI_EXIST_def any_set_def FREE_DBI_def DB_VALID_def
      DB_STALE_def MDB_TXN_ERROR_def MDB_TXN_RDONLY_def db0_def MDB_DUPSORT_def P_INVALID_def MDB_INTEGERKEY_def)

lemma root_state0: "md_root (mt_dbs (st_txn state0) 1) = 2" "md_cmp (me_dbxs (st_env state0) 1) = Some Cmp_memn"
  by (simp_all add: state0_def txn1_def env0_def)

theorem mdb_get_witness:
  "\<exists>cs. mdb_get 1 (Some [7]) True state0
    = Some (state0\<lparr>st_cfresh := st_cfresh state0 + 1, st_cursors := cs\<rparr>, Inr [107])"
  using mdb_get_correct [of state0 1 1 "[7]", unfolded root_state0] db_ready_state0 tree_ok_state0 root_state0(2)
  by (simp only: tree_items_state0) (simp add: CURSOR_STACK_def)

end
