(* ===== verification/Iterate.thy ===== *)
theory Iterate
  imports Tree
begin

text \<open>
  Cursor moves as iteration over the list of items of a tree: a cursor stands at a position
  of that list, \<open>mdb_cursor_first\<close> takes it to the beginning, \<open>mdb_cursor_next\<close> to the next
  item, across leaf pages through \<open>mdb_cursor_sibling\<close>, and to the end of the list it
  answers \<open>MDB_NOTFOUND\<close>. The contract of such moves is the locale \<open>iterator\<close>.
\<close>

section \<open>Positions\<close>

text \<open>The number of items in the leaves before the one the cursor is on.\<close>

fun leaf_start :: "mdb_state \<Rightarrow> mdb_cursor \<Rightarrow> nat \<Rightarrow> nat \<Rightarrow> u64 \<Rightarrow> nat" where
  "leaf_start s c j 0 pg = 0"
| "leaf_start s c j (Suc d) pg =
     (case page_of s pg of None \<Rightarrow> 0
      | Some (r, p) \<Rightarrow>
          length (concat (map (\<lambda>i. tree_items s d (child p i)) [0..<mc_ki c j]))
          + leaf_start s c (j + 1) d (child p (mc_ki c j)))"

text \<open>Every leaf has an item.\<close>

fun leaves_full :: "mdb_state \<Rightarrow> nat \<Rightarrow> u64 \<Rightarrow> bool" where
  "leaves_full s 0 pg = (case page_of s pg of None \<Rightarrow> False | Some (r, p) \<Rightarrow> 0 < NUMKEYS p)"
| "leaves_full s (Suc d) pg =
     (case page_of s pg of None \<Rightarrow> False | Some (r, p) \<Rightarrow> \<forall>i < NUMKEYS p. leaves_full s d (child p i))"

text \<open>The page at a level of the path, and the pages with their kind.\<close>

definition level_page :: "mdb_state \<Rightarrow> mdb_cursor \<Rightarrow> nat \<Rightarrow> mdb_page" where
  "level_page s c j = the (page_at s (mc_pg c j))"

lemma leaf_start_cursors [simp]: "leaf_start (s\<lparr>st_cursors := cs\<rparr>) c j d pg = leaf_start s c j d pg"
  by (induction d arbitrary: j pg) (auto split: option.splits)

lemma leaves_full_cursors [simp]: "leaves_full (s\<lparr>st_cursors := cs\<rparr>) d pg = leaves_full s d pg"
  by (induction d arbitrary: pg) (auto split: option.splits)

lemma level_page_cursors [simp]: "level_page (s\<lparr>st_cursors := cs\<rparr>) c j = level_page s c j"
  by (simp add: level_page_def)

lemma on_path_pages:
  "on_path s c j d pg \<Longrightarrow> tree_ok valid rank s d pg lo hi \<Longrightarrow> j \<le> k \<Longrightarrow> k \<le> j + d \<Longrightarrow>
    page_at s (mc_pg c k) = Some (level_page s c k) \<and>
    (k < j + d \<longrightarrow> IS_BRANCH (level_page s c k) \<and> mc_ki c k < NUMKEYS (level_page s c k) \<and> NUMKEYS (level_page s c k) < 65535) \<and>
    (k = j + d \<longrightarrow> (\<exists>lo hi. leaf_ok valid rank s (level_page s c k) lo hi))"
proof (induction d arbitrary: j pg lo hi)
  case 0
  then obtain r p where "page_of s pg = Some (r, p)" "leaf_ok valid rank s p lo hi" "mc_pg c k = r"
    by (auto split: option.splits)
  then show ?case using 0 page_get_run(2) [of s pg r p] by (auto simp: level_page_def)
next
  case (Suc d)
  then obtain r p where p: "page_of s pg = Some (r, p)" "branch_ok valid rank p lo hi" "mc_pg c j = r"
    "mc_ki c j < NUMKEYS p" "on_path s c (j + 1) d (child p (mc_ki c j))"
    "tree_ok valid rank s d (child p (mc_ki c j)) (low_of rank p lo (mc_ki c j)) (high_of rank p hi (mc_ki c j))"
    by (auto split: option.splits)
  show ?case
  proof (cases "k = j")
    case True
    then show ?thesis using p page_get_run(2) [OF p(1)] by (auto simp: level_page_def branch_ok_def)
  next
    case False
    then show ?thesis using Suc.IH [OF p(5,6)] Suc.prems(3,4) by auto
  qed
qed

text \<open>The item under the cursor is the one at its position.\<close>

lemma leaf_at:
  "on_path s c j d pg \<Longrightarrow> \<exists>before after. tree_items s d pg = before @ leaf_items s (level_page s c (j + d)) @ after \<and>
    length before = leaf_start s c j d pg"
proof (induction d arbitrary: j pg)
  case 0
  then obtain r p where "page_of s pg = Some (r, p)" "mc_pg c j = r" by (auto split: option.splits)
  then have "tree_items s 0 pg = [] @ leaf_items s (level_page s c (j + 0)) @ []"
    using page_get_run(2) [of s pg r p] by (simp add: level_page_def)
  then show ?case by (metis leaf_start.simps(1) list.size(3))
next
  case (Suc d)
  then obtain r p where p: "page_of s pg = Some (r, p)" "mc_ki c j < NUMKEYS p"
    "on_path s c (j + 1) d (child p (mc_ki c j))"
    by (auto split: option.splits)
  obtain b a where ba: "tree_items s d (child p (mc_ki c j)) = b @ leaf_items s (level_page s c (j + Suc d)) @ a"
    "length b = leaf_start s c (j + 1) d (child p (mc_ki c j))"
    using Suc.IH [OF p(3)] by auto
  show ?case
    using p(1) items_split [OF p(2), of "\<lambda>i. tree_items s d (child p i)"] ba
    by (intro exI [of _ "concat (map (\<lambda>i. tree_items s d (child p i)) [0..<mc_ki c j]) @ b"] exI
        [of _ "a @ concat (map (\<lambda>i. tree_items s d (child p i)) [mc_ki c j + 1..<NUMKEYS p])"]) simp
qed

lemma item_nth:
  assumes "on_path s c 0 d pg" "i < NUMKEYS (level_page s c d)"
  shows "leaf_start s c 0 d pg + i < length (tree_items s d pg)"
    and "tree_items s d pg ! (leaf_start s c 0 d pg + i) = leaf_items s (level_page s c d) ! i"
proof -
  obtain b a where "tree_items s d pg = b @ leaf_items s (level_page s c d) @ a"
    "length b = leaf_start s c 0 d pg"
    using leaf_at [OF assms(1)] by auto
  then show "leaf_start s c 0 d pg + i < length (tree_items s d pg)"
    "tree_items s d pg ! (leaf_start s c 0 d pg + i) = leaf_items s (level_page s c d) ! i"
    using assms(2) by (auto simp: nth_append)
qed

section \<open>Paths\<close>

lemma on_path_cong:
  assumes "\<And>k. j \<le> k \<Longrightarrow> k \<le> j + d \<Longrightarrow> mc_pg c' k = mc_pg c k" "\<And>k. j \<le> k \<Longrightarrow> k < j + d \<Longrightarrow> mc_ki c' k = mc_ki c k"
  shows "on_path s c' j d pg = on_path s c j d pg" and "leaf_start s c' j d pg = leaf_start s c j d pg"
  using assms
proof (induction d arbitrary: j pg)
  case (Suc d)
  { case 1 then show ?case using Suc.IH(1) [of "j + 1"] by (auto split: option.splits)
  next case 2 then show ?case using Suc.IH(2) [of "j + 1"] by (auto split: option.splits) }
qed (auto split: option.splits)

text \<open>One level more at the lower end of a path, and one less.\<close>

lemma on_path_snoc:
  "on_path s c j (Suc d) pg \<longleftrightarrow> on_path s c j d pg \<and> mc_ki c (j + d) < NUMKEYS (level_page s c (j + d)) \<and>
    (case page_of s (child (level_page s c (j + d)) (mc_ki c (j + d))) of
       None \<Rightarrow> False | Some (r, p) \<Rightarrow> mc_pg c (j + d + 1) = r)"
proof (induction d arbitrary: j pg)
  case 0
  then show ?case using page_get_run(2) by (fastforce simp: level_page_def split: option.splits)
next
  case (Suc d)
  show ?case
    unfolding on_path.simps(2) [of s c j "Suc d"] on_path.simps(2) [of s c j d] Suc.IH [of "j + 1"]
    by (auto split: option.splits simp del: on_path.simps)
qed


section \<open>The next leaf\<close>

text \<open>
  The cursor \<open>c'\<close> is on the path after that of \<open>c\<close>, to level \<open>t\<close>: at level \<open>k\<close> it is one
  child further; below, \<open>c\<close> was at the last child of each page and \<open>c'\<close> is at the first.
\<close>

definition at_last :: "mdb_state \<Rightarrow> mdb_cursor \<Rightarrow> nat \<Rightarrow> bool" where
  "at_last s c j \<longleftrightarrow> mc_ki c j + 1 \<ge> NUMKEYS (level_page s c j)"

definition moved_right :: "mdb_state \<Rightarrow> mdb_cursor \<Rightarrow> mdb_cursor \<Rightarrow> nat \<Rightarrow> nat \<Rightarrow> u64 \<Rightarrow> bool" where
  "moved_right s c c' k t pg \<longleftrightarrow> k < t \<and> on_path s c' 0 t pg \<and>
     (\<forall>j \<le> k. mc_pg c' j = mc_pg c j) \<and> (\<forall>j < k. mc_ki c' j = mc_ki c j) \<and> mc_ki c' k = mc_ki c k + 1 \<and>
     (\<forall>j. k < j \<and> j \<le> t \<longrightarrow> mc_ki c' j = 0) \<and> (\<forall>j. k < j \<and> j < t \<longrightarrow> at_last s c j) \<and>
     mc_top c' = mc_top c \<and> mc_snum c' = mc_snum c \<and> mc_dbi c' = mc_dbi c \<and> mc_flags c' = mc_flags c"

lemma moved_right_cursors [simp]: "moved_right (s\<lparr>st_cursors := cs\<rparr>) = moved_right s"
  "at_last (s\<lparr>st_cursors := cs\<rparr>) = at_last s"
  by (simp_all add: moved_right_def at_last_def fun_eq_iff)

lemma last_path:
  "on_path s c j d pg \<Longrightarrow> \<forall>k. j \<le> k \<and> k < j + d \<longrightarrow> at_last s c k \<Longrightarrow>
    leaf_start s c j d pg + NUMKEYS (level_page s c (j + d)) = length (tree_items s d pg)"
proof (induction d arbitrary: j pg)
  case 0
  then show ?case using page_get_run(2) by (fastforce simp: level_page_def split: option.splits)
next
  case (Suc d)
  then obtain r p where p: "page_of s pg = Some (r, p)" "mc_pg c j = r" "mc_ki c j < NUMKEYS p"
    "on_path s c (j + 1) d (child p (mc_ki c j))"
    by (auto split: option.splits)
  have "at_last s c j" using Suc.prems(2) by simp
  then have l: "mc_ki c j + 1 = NUMKEYS p"
    using p page_get_run(2) [OF p(1)] by (simp add: at_last_def level_page_def)
  have "leaf_start s c (j + 1) d (child p (mc_ki c j)) + NUMKEYS (level_page s c (j + Suc d))
    = length (tree_items s d (child p (mc_ki c j)))"
    using Suc.IH [OF p(4)] Suc.prems(2) by simp
  then show ?case
    using p(1) l [symmetric] by simp
qed

lemma first_path:
  "\<forall>k. j \<le> k \<and> k < j + d \<longrightarrow> mc_ki c k = 0 \<Longrightarrow> leaf_start s c j d pg = 0"
  by (induction d arbitrary: j pg) (auto split: option.splits)

lemma moved_start:
  assumes "moved_right s c c' k t pg" "on_path s c 0 t pg"
  shows "leaf_start s c' 0 t pg = leaf_start s c 0 t pg + NUMKEYS (level_page s c t)"
proof -
  have k: "k < t" "\<And>j. j < k \<Longrightarrow> mc_ki c' j = mc_ki c j" "mc_ki c' k = mc_ki c k + 1"
    "\<And>j. k < j \<Longrightarrow> j \<le> t \<Longrightarrow> mc_ki c' j = 0" "\<And>j. k < j \<Longrightarrow> j < t \<Longrightarrow> at_last s c j"
    using assms(1) by (auto simp: moved_right_def)
  have "j + d = t \<Longrightarrow> j \<le> k \<Longrightarrow> on_path s c j d pg \<Longrightarrow>
    leaf_start s c' j d pg = leaf_start s c j d pg + NUMKEYS (level_page s c t)" for j d
  proof (induction d arbitrary: j pg)
    case 0
    then show ?case using k(1) by simp
  next
    case (Suc d)
    then obtain r p where p: "page_of s pg = Some (r, p)" "mc_ki c j < NUMKEYS p"
      "on_path s c (j + 1) d (child p (mc_ki c j))"
      by (auto split: option.splits)
    show ?case
    proof (cases "j = k")
      case True
      have "leaf_start s c' (j + 1) d (child p (mc_ki c' j)) = 0"
        by (rule first_path) (use k(4) Suc.prems(1) True in auto)
      moreover have "leaf_start s c (j + 1) d (child p (mc_ki c j)) + NUMKEYS (level_page s c t)
        = length (tree_items s d (child p (mc_ki c j)))"
        using last_path [OF p(3)] k(5) Suc.prems(1) True by auto
      ultimately show ?thesis using p(1) k(3) True by simp
    next
      case False
      then show ?thesis using Suc.IH [of "j + 1", OF _ _ p(3)] Suc.prems(1,2) p(1) k(2) [of j] by simp
    qed
  qed
  then show ?thesis using assms(2) by simp
qed


text \<open>The page at the lower end of a path is the root of a well-formed subtree.\<close>

lemma on_path_tree:
  "on_path s c j t pg \<Longrightarrow> tree_ok valid rank s (t + e) pg lo hi \<Longrightarrow>
    \<exists>pg' lo hi. page_of s pg' = Some (mc_pg c (j + t), level_page s c (j + t)) \<and> tree_ok valid rank s e pg' lo hi"
proof (induction t arbitrary: j pg lo hi)
  case 0
  then obtain r p where "page_of s pg = Some (r, p)" "mc_pg c j = r" by (auto split: option.splits)
  then show ?case using 0 page_get_run(2) [of s pg r p] by (auto simp: level_page_def)
next
  case (Suc t)
  then obtain r p where p: "page_of s pg = Some (r, p)" "mc_ki c j < NUMKEYS p"
    "on_path s c (j + 1) t (child p (mc_ki c j))"
    "tree_ok valid rank s (t + e) (child p (mc_ki c j)) (low_of rank p lo (mc_ki c j)) (high_of rank p hi (mc_ki c j))"
    by (auto split: option.splits)
  then show ?case using Suc.IH [OF p(3,4)] by simp
qed

text \<open>The pushed page: the child at the cursor's index one level up.\<close>

definition pushed :: "mdb_cursor \<Rightarrow> page_ref \<Rightarrow> mdb_cursor" where
  "pushed c r = c\<lparr>mc_top := mc_top c + 1, mc_snum := mc_snum c + 1, mc_pg := (mc_pg c)(mc_snum c := r),
     mc_ki := (mc_ki c)(mc_snum c := 0)\<rparr>"

lemma push_child:
  assumes "on_path s c 0 t pg" "tree_ok valid rank s (Suc t + e) pg lo hi"
    and "mc_top c = t" "mc_snum c = t + 1" "t + 1 < CURSOR_STACK" "mc_ki c t < NUMKEYS (level_page s c t)"
  shows "IS_BRANCH (level_page s c t)" "page_at s (mc_pg c t) = Some (level_page s c t)"
    "1 < NUMKEYS (level_page s c t)" "NUMKEYS (level_page s c t) < 65535"
    "\<exists>r. on_path s (pushed c r) 0 (Suc t) pg \<and>
      sibling_child mc True (s\<lparr>st_cursors := (st_cursors s)(mc := c)\<rparr>)
        = Some (s\<lparr>st_cursors := (st_cursors s)(mc := pushed c r)\<rparr>, Inr ())"
proof -
  obtain pg' lo' hi' where p: "page_of s pg' = Some (mc_pg c t, level_page s c t)" "tree_ok valid rank s (Suc e) pg' lo' hi'"
    using on_path_tree [OF assms(1), of valid rank "Suc e" lo hi] assms(2) unfolding add_0 add_Suc_right add_Suc
    by blast
  then have b: "branch_ok valid rank (level_page s c t) lo' hi'"
    and "\<exists>lo hi. tree_ok valid rank s e (child (level_page s c t) (mc_ki c t)) lo hi"
    using assms(6) by auto
  then obtain r q where q: "page_of s (child (level_page s c t) (mc_ki c t)) = Some (r, q)"
    by (cases e) (auto split: option.splits)
  show b': "IS_BRANCH (level_page s c t)" "page_at s (mc_pg c t) = Some (level_page s c t)"
    "1 < NUMKEYS (level_page s c t)" "NUMKEYS (level_page s c t) < 65535"
    using b page_get_run(2) [OF p(1)] by (auto simp: branch_ok_def)
  let ?s = "s\<lparr>st_cursors := (st_cursors s)(mc := c)\<rparr>"
  have "page_of ?s (child (level_page s c t) (mc_ki c t)) = Some (r, q)" using q by simp
  then obtain lvl where "mdb_page_get (child (level_page s c t) (mc_ki c t)) ?s = Some (?s, Inr (r, lvl))"
    using page_get_run(1) by blast
  then have "sibling_child mc True ?s = Some (s\<lparr>st_cursors := (st_cursors s)(mc := pushed c r)\<rparr>, Inr ())"
    using b' assms(3-5)
    by (simp add: sibling_child_def op_simps topM_def top_ref_def top_ki_def child_def [symmetric]
        mdb_cursor_push_def pageM_def pushed_def)
  moreover have "level_page s (pushed c r) t = level_page s c t" by (simp add: level_page_def pushed_def assms(4))
  moreover have "on_path s (pushed c r) 0 t pg"
    using assms(1,4) on_path_cong(1) [of 0 t "pushed c r" c s pg] by (simp add: pushed_def)
  ultimately show "\<exists>r. on_path s (pushed c r) 0 (Suc t) pg \<and>
      sibling_child mc True ?s = Some (s\<lparr>st_cursors := (st_cursors s)(mc := pushed c r)\<rparr>, Inr ())"
    unfolding on_path_snoc using assms(4,6) q by (intro exI [of _ r]) (simp add: pushed_def)
qed

lemma sibling_right:
  assumes "on_path s c 0 t pg" "tree_ok valid rank s (t + e) pg lo hi" "c = st_cursors s mc"
    and "mc_top c = t" "mc_snum c = t + 1" "t \<le> n" "t < CURSOR_STACK"
  shows "if \<forall>j < t. at_last s c j then cursor_sibling n mc True s = Some (s, Inl MDB_NOTFOUND)
    else \<exists>c' k. moved_right s c c' k t pg \<and>
      cursor_sibling n mc True s = Some (s\<lparr>st_cursors := (st_cursors s)(mc := c')\<rparr>, Inr ())"
  using assms
proof (induction t arbitrary: s c n e)
  case 0
  then show ?case by (simp add: cursor_sibling.simps op_simps)
next
  case (Suc t)
  obtain n' where n: "n = Suc n'" "t \<le> n'" using Suc.prems(6) by (cases n) auto
  define c1 where "c1 = c\<lparr>mc_top := t, mc_snum := t + 1\<rparr>"
  define s1 where "s1 = s\<lparr>st_cursors := (st_cursors s)(mc := c1)\<rparr>"
  define p where "p = level_page s c t"
  have pop: "mdb_cursor_pop c = c1" using Suc.prems(4,5) by (cases c) (simp add: mdb_cursor_pop_def c1_def)
  have path1: "on_path s c1 0 t pg"
    using Suc.prems(1) [unfolded on_path_snoc] on_path_cong(1) [of 0 t c1 c s pg] by (simp add: c1_def)
  have ki: "mc_ki c t < NUMKEYS p" using Suc.prems(1) [unfolded on_path_snoc] by (simp add: p_def)
  have lp: "level_page s c1 = level_page s c" by (simp add: level_page_def c1_def fun_eq_iff)
  have b: "IS_BRANCH p" "page_at s (mc_pg c t) = Some p" "NUMKEYS p < 65535" "1 < NUMKEYS p"
    using push_child(1-4) [OF path1 Suc.prems(2)] ki Suc.prems(7) lp by (auto simp: c1_def p_def)
  have start: "pageM (mc_pg c t) s1 = Some (s1, Inr p)" "top_ref c1 = mc_pg c t" "top_ki c1 = mc_ki c t"
    "st_cursors s1 mc = c1"
    using b(2) by (simp_all add: s1_def pageM_def c1_def top_ref_def top_ki_def)
  have push: "upd_curM mc mdb_cursor_pop s = Some (s1, Inr ())"
    using pop Suc.prems(3) by (simp add: op_simps s1_def)
  show ?case
  proof (cases "at_last s c t")
    case False
    then have lt: "mc_ki c t + 1 < NUMKEYS p" by (simp add: at_last_def p_def)
    define c2 where "c2 = c1\<lparr>mc_ki := (mc_ki c1)(t := mc_ki c t + 1)\<rparr>"
    have set: "set_top_ki (mc_ki c t + 1) c1 = c2" using lt b(3) by (simp add: set_top_ki_def c2_def c1_def)
    have "on_path s c2 0 t pg" using path1 on_path_cong(1) [of 0 t c2 c1 s pg] by (simp add: c2_def)
    moreover have "level_page s c2 t = p" by (simp add: level_page_def p_def c2_def c1_def)
    ultimately obtain r where r: "on_path s (pushed c2 r) 0 (Suc t) pg"
      "sibling_child mc True (s\<lparr>st_cursors := (st_cursors s)(mc := c2)\<rparr>)
        = Some (s\<lparr>st_cursors := (st_cursors s)(mc := pushed c2 r)\<rparr>, Inr ())"
      using push_child(5) [OF _ Suc.prems(2), of c2 mc] lt Suc.prems(7) by (auto simp: c2_def c1_def)
    have run: "cursor_sibling n mc True s = Some (s\<lparr>st_cursors := (st_cursors s)(mc := pushed c2 r)\<rparr>, Inr ())"
      using r(2) lt start push set Suc.prems(3) [symmetric] Suc.prems(5) n(1)
      by (simp add: cursor_sibling.simps [of "Suc n'"] op_simps) (simp add: s1_def)
    have "moved_right s c (pushed c2 r) t (Suc t) pg"
      unfolding moved_right_def using r(1) Suc.prems(4,5) by (auto simp: c2_def c1_def pushed_def)
    moreover have "\<not> (\<forall>j < Suc t. at_last s c j)" using False by auto
    ultimately show ?thesis unfolding if_not_P [OF \<open>\<not> (\<forall>j < Suc t. at_last s c j)\<close>] using run by blast
  next
    case True
    have IH: "if \<forall>j < t. at_last s1 c1 j then cursor_sibling n' mc True s1 = Some (s1, Inl MDB_NOTFOUND)
      else \<exists>c' k. moved_right s1 c1 c' k t pg \<and>
        cursor_sibling n' mc True s1 = Some (s1\<lparr>st_cursors := (st_cursors s1)(mc := c')\<rparr>, Inr ())"
    proof (rule Suc.IH [of _ _ "Suc e"])
      show "tree_ok valid rank s1 (t + Suc e) pg lo hi"
        using Suc.prems(2) unfolding s1_def tree_ok_cursors add_Suc add_Suc_right .
      show "on_path s1 c1 0 t pg" using path1 by (simp add: s1_def)
    qed (use Suc.prems(6,7) n in \<open>simp_all add: s1_def c1_def\<close>)
    have al: "at_last s1 c1 j \<longleftrightarrow> at_last s c j" for j
      by (simp add: at_last_def s1_def c1_def level_page_def)
    have all: "(\<forall>j < Suc t. at_last s c j) \<longleftrightarrow> (\<forall>j < t. at_last s1 c1 j)" using True by (auto simp: al less_Suc_eq)
    have last: "mc_ki c t + 1 \<ge> NUMKEYS p" using True by (simp add: at_last_def p_def)
    show ?thesis
    proof (cases "\<forall>j < t. at_last s1 c1 j")
      case True
      then have "cursor_sibling n' mc True s1 = Some (s1, Inl MDB_NOTFOUND)" using IH by simp
      moreover have "s\<lparr>st_cursors := (st_cursors s)(mc := c)\<rparr> = s" using Suc.prems(3) by simp
      moreover have "c1\<lparr>mc_top := Suc t, mc_snum := Suc (Suc t)\<rparr> = c" using Suc.prems(4,5) by (cases c) (simp add: c1_def)
      ultimately have "cursor_sibling n mc True s = Some (s, Inl MDB_NOTFOUND)"
        using start push last Suc.prems(3) [symmetric] Suc.prems(5) n(1)
        by (simp add: cursor_sibling.simps [of "Suc n'"] op_simps) (simp add: s1_def c1_def)
      then show ?thesis using True all by simp
    next
      case False
      then obtain c2 k where c2: "moved_right s c1 c2 k t pg"
        "cursor_sibling n' mc True s1 = Some (s\<lparr>st_cursors := (st_cursors s)(mc := c2)\<rparr>, Inr ())"
        using IH unfolding if_not_P [OF False] by (auto simp: s1_def)
      have m: "on_path s c2 0 t pg" "mc_top c2 = t" "mc_snum c2 = t + 1" "mc_ki c2 t = 0" "k < t"
        using c2(1) by (auto simp: moved_right_def c1_def)
      have "0 < NUMKEYS (level_page s c2 t)"
        using on_path_tree [OF m(1), of valid rank "Suc e" lo hi] Suc.prems(2) unfolding add_Suc_right add_Suc
        by (auto simp: branch_ok_def simp del: add_Suc_right)
      then obtain r where r: "on_path s (pushed c2 r) 0 (Suc t) pg"
        "sibling_child mc True (s\<lparr>st_cursors := (st_cursors s)(mc := c2)\<rparr>)
          = Some (s\<lparr>st_cursors := (st_cursors s)(mc := pushed c2 r)\<rparr>, Inr ())"
        using push_child(5) [OF m(1) Suc.prems(2) m(2,3), of mc] m(4) Suc.prems(7) by auto
      have run: "cursor_sibling n mc True s = Some (s\<lparr>st_cursors := (st_cursors s)(mc := pushed c2 r)\<rparr>, Inr ())"
        using r(2) start push last c2(2) Suc.prems(3) [symmetric] Suc.prems(5) n(1)
        by (simp add: cursor_sibling.simps [of "Suc n'"] op_simps)
      have "moved_right s c (pushed c2 r) k (Suc t) pg"
        unfolding moved_right_def
        using r(1) c2(1) Suc.prems(4,5) \<open>at_last s c t\<close> al m(2,3,5)
        by (auto simp: moved_right_def c1_def s1_def at_last_def level_page_def less_Suc_eq pushed_def)
      moreover have "\<not> (\<forall>j < Suc t. at_last s c j)" using False all by auto
      ultimately show ?thesis unfolding if_not_P [OF \<open>\<not> (\<forall>j < Suc t. at_last s c j)\<close>] using run by blast
    qed
  qed
qed


section \<open>The contract of an iterator\<close>

text \<open>
  A state \<open>x\<close> stands at a position of the list \<open>items\<close>; \<open>start\<close> takes it to the beginning,
  \<open>next\<close> to the next position or says that there is none.
\<close>

locale iterator =
  fixes start advance :: "'s \<Rightarrow> ('s \<times> 'a option) option"
    and ready :: "'s \<Rightarrow> bool"
    and at :: "'s \<Rightarrow> nat \<Rightarrow> bool"
    and items :: "'a list"
  assumes start_ok: "ready x \<Longrightarrow> items \<noteq> [] \<Longrightarrow> \<exists>x'. start x = Some (x', Some (items ! 0)) \<and> at x' 0"
    and advance_ok: "at x n \<Longrightarrow> n + 1 < length items \<Longrightarrow> \<exists>x'. advance x = Some (x', Some (items ! (n + 1))) \<and> at x' (n + 1)"
    and advance_end: "at x n \<Longrightarrow> n + 1 = length items \<Longrightarrow> \<exists>x'. advance x = Some (x', None)"
    and at_less: "at x n \<Longrightarrow> n < length items"

text \<open>A loop over all items from the start; the first argument bounds the moves.\<close>

fun scan_from :: "('s \<Rightarrow> ('s \<times> 'a option) option) \<Rightarrow> nat \<Rightarrow> 's \<Rightarrow> 'a list option" where
  "scan_from advance 0 x = None"
| "scan_from advance (Suc k) x =
     (case advance x of None \<Rightarrow> None
      | Some (x, None) \<Rightarrow> Some []
      | Some (x, Some a) \<Rightarrow> map_option (\<lambda>as. a # as) (scan_from advance k x))"

definition scan :: "('s \<Rightarrow> ('s \<times> 'a option) option) \<Rightarrow> ('s \<Rightarrow> ('s \<times> 'a option) option) \<Rightarrow> nat \<Rightarrow> 's \<Rightarrow> 'a list option" where
  "scan start advance k x =
     (case start x of None \<Rightarrow> None
      | Some (x, None) \<Rightarrow> Some []
      | Some (x, Some a) \<Rightarrow> map_option (\<lambda>as. a # as) (scan_from advance k x))"

context iterator
begin

lemma scan_from_at: "at x n \<Longrightarrow> length items \<le> n + k \<Longrightarrow> scan_from advance k x = Some (drop (n + 1) items)"
proof (induction k arbitrary: x n)
  case 0
  then show ?case using at_less [OF 0(1)] by simp
next
  case (Suc k)
  show ?case
  proof (cases "n + 1 < length items")
    case True
    then obtain x' where "advance x = Some (x', Some (items ! (n + 1)))" "at x' (n + 1)"
      using advance_ok Suc.prems(1) by blast
    then show ?thesis using Suc.IH [of x' "n + 1"] Suc.prems(2) True by (simp add: Cons_nth_drop_Suc)
  next
    case False
    then have "n + 1 = length items" using at_less [OF Suc.prems(1)] by simp
    then show ?thesis using advance_end Suc.prems(1) by fastforce
  qed
qed

lemma scan_all: "ready x \<Longrightarrow> items \<noteq> [] \<Longrightarrow> scan start advance (length items) x = Some items"
  using start_ok [of x] scan_from_at [of _ 0 "length items"] by (cases items) (fastforce simp: scan_def)+

end

section \<open>Cursors as iterators\<close>

definition item_result :: "bool \<Rightarrow> bytes \<times> bytes \<Rightarrow> bytes \<times> bytes option" where
  "item_result want it = (fst it, if want then Some (snd it) else None)"

lemma item_at_run:
  assumes p: "page_at s (top_ref (st_cursors s mc)) = Some p" and l: "leaf_ok valid rank s p lo hi"
    and ki: "top_ki (st_cursors s mc) < NUMKEYS p"
  shows "item_at mc want s = Some (s, Inr (item_result want (leaf_items s p ! top_ki (st_cursors s mc))))"
proof -
  define i where "i = top_ki (st_cursors s mc)"
  obtain v where v: "node_value s (mp_body p) (NODEPTR p i) = Some v"
    "\<not> F_ISSET (mn_flags (mp_body p) (NODEPTR p i)) F_DUPDATA"
    using l ki by (auto simp: leaf_ok_def i_def)
  have "leaf_items s p ! i = (NODEKEY (mp_body p) (NODEPTR p i), v)"
    using ki v(1) by (simp add: leaf_items_def i_def)
  then show ?thesis
    using l p v(2) node_read_run [OF v(1)]
    by (simp add: item_at_def topM_def op_simps pageM_def leaf_ok_def node_item_def item_result_def i_def [symmetric])
qed

text \<open>The cursor \<open>mc\<close> stands at position \<open>n\<close> of the tree of depth \<open>d\<close> below \<open>root\<close>.\<close>

definition standing :: "mdb_state \<Rightarrow> nat \<Rightarrow> nat \<Rightarrow> u64 \<Rightarrow> nat \<Rightarrow> bool" where
  "standing s mc d root n \<longleftrightarrow>
     (let c = st_cursors s mc in
      on_path s c 0 d root \<and> mc_top c = d \<and> mc_snum c = d + 1 \<and> any_set (mc_flags c) C_INITIALIZED \<and>
      \<not> any_set (mc_flags c) C_EOF \<and> \<not> any_set (mc_flags c) C_DEL \<and>
      mc_ki c d < NUMKEYS (level_page s c d) \<and> n = leaf_start s c 0 d root + mc_ki c d)"

text \<open>The tree of the cursor's database, read in the order \<open>rank\<close>.\<close>

definition tree_ready ::
  "(bytes \<Rightarrow> bool) \<Rightarrow> (bytes \<Rightarrow> 'o::linorder) \<Rightarrow> mdb_state \<Rightarrow> nat \<Rightarrow> nat \<Rightarrow> bool" where
  "tree_ready valid rank s mc d \<longleftrightarrow>
     (let root = md_root (cursor_db s mc) in
      tree_ok valid rank s d root None None \<and> leaves_full s d root \<and> d < CURSOR_STACK \<and>
      \<not> any_set (md_flags (cursor_db s mc)) MDB_DUPSORT)"

lemma on_path_full:
  "on_path s c j d pg \<Longrightarrow> leaves_full s d pg \<Longrightarrow> 0 < NUMKEYS (level_page s c (j + d))"
proof (induction d arbitrary: j pg)
  case 0
  then show ?case using page_get_run(2) by (fastforce simp: level_page_def split: option.splits)
next
  case (Suc d)
  then show ?case using Suc.IH [of "j + 1"] by (auto split: option.splits)
qed

lemma standing_item:
  assumes "standing s mc d (md_root (cursor_db s mc)) n" "tree_ready valid rank s mc d"
  shows "n < length (tree_items s d (md_root (cursor_db s mc)))"
    and "item_at mc want s = Some (s, Inr (item_result want (tree_items s d (md_root (cursor_db s mc)) ! n)))"
proof -
  define c where "c = st_cursors s mc"
  have st: "on_path s c 0 d (md_root (cursor_db s mc))" "mc_top c = d" "mc_ki c d < NUMKEYS (level_page s c d)"
    "n = leaf_start s c 0 d (md_root (cursor_db s mc)) + mc_ki c d"
    using assms(1) by (auto simp: standing_def c_def Let_def)
  then show "n < length (tree_items s d (md_root (cursor_db s mc)))" using item_nth(1) [OF st(1,3)] by simp
  obtain lo hi where p: "page_at s (mc_pg c d) = Some (level_page s c d)" "leaf_ok valid rank s (level_page s c d) lo hi"
    using on_path_pages [OF st(1), of valid rank None None d] assms(2) by (auto simp: tree_ready_def Let_def)
  show "item_at mc want s = Some (s, Inr (item_result want (tree_items s d (md_root (cursor_db s mc)) ! n)))"
    using item_at_run [of s mc "level_page s c d" valid rank lo hi want] p st item_nth(2) [OF st(1,3)]
    by (simp add: top_ref_def top_ki_def c_def [symmetric])
qed

lemma cursor_db_cursors [simp]:
  "mc_dbi c' = mc_dbi (st_cursors s mc) \<Longrightarrow> cursor_db (s\<lparr>st_cursors := (st_cursors s)(mc := c')\<rparr>) mc = cursor_db s mc"
  by (simp add: cursor_db_def)

lemma tree_ready_cursors:
  "mc_dbi c' = mc_dbi (st_cursors s mc) \<Longrightarrow>
    tree_ready valid rank (s\<lparr>st_cursors := (st_cursors s)(mc := c')\<rparr>) mc d = tree_ready valid rank s mc d"
  by (simp add: tree_ready_def)

lemma next_run:
  assumes st: "standing s mc d (md_root (cursor_db s mc)) n" and t: "tree_ready valid rank s mc d"
  defines "its \<equiv> tree_items s d (md_root (cursor_db s mc))"
  shows "if n + 1 < length its
    then \<exists>c'. mdb_cursor_next mc want s
        = Some (s\<lparr>st_cursors := (st_cursors s)(mc := c')\<rparr>, Inr (item_result want (its ! (n + 1)))) \<and>
      mc_dbi c' = mc_dbi (st_cursors s mc) \<and>
      standing (s\<lparr>st_cursors := (st_cursors s)(mc := c')\<rparr>) mc d (md_root (cursor_db s mc)) (n + 1)
    else mdb_cursor_next mc want s = Some (s\<lparr>st_cursors := (st_cursors s)(mc :=
        (st_cursors s mc)\<lparr>mc_flags := mc_flags (st_cursors s mc) OR C_EOF\<rparr>)\<rparr>, Inl MDB_NOTFOUND)"
proof -
  define c where "c = st_cursors s mc"
  define root where "root = md_root (cursor_db s mc)"
  define lf where "lf = level_page s c d"
  have c: "on_path s c 0 d root" "mc_top c = d" "mc_snum c = d + 1" "any_set (mc_flags c) C_INITIALIZED"
    "\<not> any_set (mc_flags c) C_EOF" "\<not> any_set (mc_flags c) C_DEL" "mc_ki c d < NUMKEYS lf"
    "n = leaf_start s c 0 d root + mc_ki c d"
    using st by (auto simp: standing_def c_def root_def lf_def Let_def)
  have t': "tree_ok valid rank s d root None None" "leaves_full s d root" "d < CURSOR_STACK"
    "\<not> any_set (md_flags (cursor_db s mc)) MDB_DUPSORT"
    using t by (auto simp: tree_ready_def root_def Let_def)
  obtain lo hi where p: "page_at s (mc_pg c d) = Some lf" "leaf_ok valid rank s lf lo hi"
    using on_path_pages [OF c(1) t'(1), of d] by (auto simp: lf_def)
  define rest where "rest = item_at mc want"
  have done_at: "\<exists>c''. rest (s\<lparr>st_cursors := (st_cursors s)(mc := c')\<rparr>)
        = Some (s\<lparr>st_cursors := (st_cursors s)(mc := c'')\<rparr>, Inr (item_result want (its ! (n + 1)))) \<and>
      mc_dbi c'' = mc_dbi (st_cursors s mc) \<and>
      standing (s\<lparr>st_cursors := (st_cursors s)(mc := c'')\<rparr>) mc d (md_root (cursor_db s mc)) (n + 1)"
    if "standing (s\<lparr>st_cursors := (st_cursors s)(mc := c')\<rparr>) mc d root (n + 1)" "mc_dbi c' = mc_dbi c" for c'
    using standing_item(2) [of "s\<lparr>st_cursors := (st_cursors s)(mc := c')\<rparr>" mc d "n + 1" valid rank want]
      tree_ready_cursors [of c' s mc valid rank d] t that
    by (intro exI [of _ c']) (simp add: root_def c_def rest_def its_def)
  show ?thesis
  proof (cases "mc_ki c d + 1 < NUMKEYS lf")
    case True
    define c' where "c' = set_top_ki (mc_ki c d + 1) c"
    have c': "c' = c\<lparr>mc_ki := (mc_ki c)(d := mc_ki c d + 1)\<rparr>"
      using True p(2) c(2) by (simp add: c'_def set_top_ki_def leaf_ok_def)
    have "standing (s\<lparr>st_cursors := (st_cursors s)(mc := c')\<rparr>) mc d root (n + 1)"
      using c True on_path_cong [of 0 d c' c s root]
      by (simp add: standing_def Let_def c' level_page_def lf_def)
    moreover have "mdb_cursor_next mc want s = rest (s\<lparr>st_cursors := (st_cursors s)(mc := c')\<rparr>)"
      using c(2-6) t'(4) p(1) True
      by (simp add: mdb_cursor_next_def op_simps c_def [symmetric] plain_db_def topM_def top_ref_def top_ki_def
          pageM_def c'_def rest_def)
    moreover have "n + 1 < length its"
      using standing_item(1) [of "s\<lparr>st_cursors := (st_cursors s)(mc := c')\<rparr>" mc d "n + 1" valid rank]
        tree_ready_cursors [of c' s mc valid rank d] t calculation(1) by (simp add: c' c_def root_def its_def)
    moreover have "mc_dbi c' = mc_dbi c" by (simp add: c')
    ultimately show ?thesis using done_at [of c'] by simp
  next
    case False
    then have last: "mc_ki c d + 1 = NUMKEYS lf" using c(7) by simp
    note sib = sibling_right [OF c(1) _ c_def c(2,3), of valid rank 0 None None "d + 1"]
    show ?thesis
    proof (cases "\<forall>j < d. at_last s c j")
      case True
      then have "cursor_sibling (d + 1) mc True s = Some (s, Inl MDB_NOTFOUND)" using sib t'(1,3) by simp
      then have "mdb_cursor_next mc want s = Some (s\<lparr>st_cursors := (st_cursors s)(mc :=
          c\<lparr>mc_flags := mc_flags c OR C_EOF\<rparr>)\<rparr>, Inl MDB_NOTFOUND)"
        using c(2-6) t'(4) p(1) last
        by (simp add: mdb_cursor_next_def op_simps c_def [symmetric] plain_db_def topM_def top_ref_def top_ki_def
            pageM_def mdb_cursor_sibling_def)
      moreover have "\<not> n + 1 < length its"
        using last_path [OF c(1)] True last c(8) by (simp add: its_def root_def lf_def)
      ultimately show ?thesis by (simp add: c_def)
    next
      case False
      then obtain c' k where m: "moved_right s c c' k d root"
        "cursor_sibling (d + 1) mc True s = Some (s\<lparr>st_cursors := (st_cursors s)(mc := c')\<rparr>, Inr ())"
        using sib t'(1,3) unfolding if_not_P [OF False] by auto
      have "0 < NUMKEYS (level_page s c' d)"
        using on_path_full [of s c' 0 d root] t'(2) m(1) by (simp add: moved_right_def)
      then have "standing (s\<lparr>st_cursors := (st_cursors s)(mc := c')\<rparr>) mc d root (n + 1)"
        using moved_start [OF m(1) c(1)] m(1) c last by (simp add: standing_def Let_def moved_right_def lf_def)
      moreover have "mdb_cursor_next mc want s = rest (s\<lparr>st_cursors := (st_cursors s)(mc := c')\<rparr>)"
        using c(2-6) t'(4) p(1) last m(2)
        by (simp add: mdb_cursor_next_def op_simps c_def [symmetric] plain_db_def topM_def top_ref_def top_ki_def
            pageM_def mdb_cursor_sibling_def rest_def)
      moreover have "mc_dbi c' = mc_dbi c" using m(1) by (simp add: moved_right_def)
      moreover from this have "n + 1 < length its"
        using standing_item(1) [of "s\<lparr>st_cursors := (st_cursors s)(mc := c')\<rparr>" mc d "n + 1" valid rank]
          tree_ready_cursors [of c' s mc valid rank d] t calculation(1) by (simp add: c_def root_def its_def)
      ultimately show ?thesis using done_at [of c'] by simp
    qed
  qed
qed


section \<open>The first item\<close>

text \<open>A descent along the first children.\<close>

lemma search_root_first:
  assumes "tree_ok valid rank s d pg lo hi" "page_of s pg = Some (r, p)" "c = st_cursors s mc"
    and "top_ref c = r" "mc_snum c = mc_top c + 1" "mc_top c + d < CURSOR_STACK" "d \<le> n"
  shows "\<exists>c'. search_root_loop n touch mc r key MDB_PS_FIRST s
      = Some (s\<lparr>st_cursors := (st_cursors s)(mc := c')\<rparr>, Inr (top_ref c')) \<and>
    on_path s c' (mc_top c) d pg \<and> (\<forall>j. mc_top c \<le> j \<and> j < mc_top c + d \<longrightarrow> mc_ki c' j = 0) \<and>
    (\<forall>j < mc_top c. mc_pg c' j = mc_pg c j \<and> mc_ki c' j = mc_ki c j) \<and>
    mc_top c' = mc_top c + d \<and> mc_snum c' = mc_top c' + 1 \<and> mc_dbi c' = mc_dbi c \<and> mc_flags c' = mc_flags c"
  using assms
proof (induction d arbitrary: s pg lo hi r p c n)
  case 0
  have leaf: "\<not> IS_BRANCH p" using 0 by (simp add: leaf_ok_def)
  have "search_root_loop n touch mc r key MDB_PS_FIRST s = Some (s, Inr r)"
    using leaf page_get_run(2) [OF 0(2)] by (simp add: search_root_loop.simps op_simps)
  moreover have "s\<lparr>st_cursors := (st_cursors s)(mc := c)\<rparr> = s" using 0(3) by simp
  ultimately show ?case
    using 0 by (intro exI [of _ c]) (simp add: top_ref_def)
next
  case (Suc d)
  have p: "page_at s r = Some p" "branch_ok valid rank p lo hi"
    and t: "\<And>j. j < NUMKEYS p \<Longrightarrow> tree_ok valid rank s d (child p j) (low_of rank p lo j) (high_of rank p hi j)"
    using Suc.prems(1,2) page_get_run(2) [OF Suc.prems(2)] by auto
  have b: "IS_BRANCH p" "1 < NUMKEYS p" using p(2) by (auto simp: branch_ok_def)
  obtain r' q where q: "page_of s (child p 0) = Some (r', q)"
    using t [of 0] b(2) by (cases d) (auto split: option.splits)
  obtain n' where n: "n = Suc n'" "d \<le> n'" using Suc.prems(7) by (cases n) auto
  define c1 where "c1 = pushed (set_top_ki 0 c) r'"
  define s1 where "s1 = s\<lparr>st_cursors := (st_cursors s)(mc := c1)\<rparr>"
  have "\<exists>c'. search_root_loop n' touch mc r' key MDB_PS_FIRST s1
      = Some (s1\<lparr>st_cursors := (st_cursors s1)(mc := c')\<rparr>, Inr (top_ref c')) \<and>
    on_path s1 c' (mc_top c1) d (child p 0) \<and> (\<forall>j. mc_top c1 \<le> j \<and> j < mc_top c1 + d \<longrightarrow> mc_ki c' j = 0) \<and>
    (\<forall>j < mc_top c1. mc_pg c' j = mc_pg c1 j \<and> mc_ki c' j = mc_ki c1 j) \<and>
    mc_top c' = mc_top c1 + d \<and> mc_snum c' = mc_top c' + 1 \<and> mc_dbi c' = mc_dbi c1 \<and> mc_flags c' = mc_flags c1"
  proof (rule Suc.IH)
    show "tree_ok valid rank s1 d (child p 0) (low_of rank p lo 0) (high_of rank p hi 0)"
      using t [of 0] b(2) by (simp add: s1_def)
    show "page_of s1 (child p 0) = Some (r', q)" using q by (simp add: s1_def)
  qed (use n(2) Suc.prems(3-6) in \<open>auto simp: s1_def c1_def top_ref_def pushed_def set_top_ki_def\<close>)
  then obtain c' where c': "search_root_loop n' touch mc r' key MDB_PS_FIRST s1
      = Some (s\<lparr>st_cursors := (st_cursors s)(mc := c')\<rparr>, Inr (top_ref c'))"
    "on_path s c' (mc_top c + 1) d (child p 0)" "\<forall>j. mc_top c + 1 \<le> j \<and> j < mc_top c + 1 + d \<longrightarrow> mc_ki c' j = 0"
    "\<forall>j < mc_top c + 1. mc_pg c' j = mc_pg c j \<and> mc_ki c' j = (if j = mc_top c then 0 else mc_ki c j)"
    "mc_top c' = mc_top c + 1 + d" "mc_snum c' = mc_top c' + 1" "mc_dbi c' = mc_dbi c" "mc_flags c' = mc_flags c"
    using Suc.prems(5) by (auto simp: s1_def c1_def pushed_def set_top_ki_def)
  obtain lvl where g: "mdb_page_get (child p 0) s = Some (s, Inr (r', lvl))"
    using page_get_run(1) [OF q] by auto
  have step: "search_root_loop n touch mc r key MDB_PS_FIRST s = search_root_loop n' touch mc r' key MDB_PS_FIRST s1"
    using b Suc.prems(3) [symmetric] Suc.prems(5,6) g
    by (simp add: n(1) search_root_loop.simps [of "Suc n'"] op_simps pageM_run [OF p(1)] search_child_def any_set_def
        MDB_PS_FIRST_def MDB_PS_LAST_def MDB_PS_MODIFY_def child_def mdb_cursor_push_def s1_def c1_def pushed_def set_top_ki_def)
  have "mc_ki c' j = 0" if "mc_top c \<le> j" "j < mc_top c + Suc d" for j
    using that c'(3,4) by (cases "j = mc_top c") auto
  moreover have "on_path s c' (mc_top c) (Suc d) pg"
    using c'(2,4) Suc.prems(2,4) b(2) by (simp add: top_ref_def)
  ultimately show ?case
    using step c' by (intro exI [of _ c']) (simp add: fun_upd_def)
qed

lemma any_set_bits:
  "any_set w 1 = bit w 0" "any_set w 2 = bit w 1" "any_set w 8 = bit w 3" for w :: u32
  using and_exp_eq_0_iff_not_bit [of w 0] and_exp_eq_0_iff_not_bit [of w 1] and_exp_eq_0_iff_not_bit [of w 3]
  by (simp_all add: any_set_def)

lemmas cursor_flag_bits = any_set_bits clear_flag_def C_INITIALIZED_def C_EOF_def C_DEL_def

lemma first_run:
  assumes t: "tree_ready valid rank s mc d" and ready: "search_ready s mc"
    and "\<not> any_set (mc_flags (st_cursors s mc)) C_INITIALIZED" "\<not> any_set (mc_flags (st_cursors s mc)) C_DEL"
  shows "\<exists>c'. mdb_cursor_first mc want s
      = Some (s\<lparr>st_cursors := (st_cursors s)(mc := c')\<rparr>,
          Inr (item_result want (tree_items s d (md_root (cursor_db s mc)) ! 0))) \<and>
    mc_dbi c' = mc_dbi (st_cursors s mc) \<and>
    standing (s\<lparr>st_cursors := (st_cursors s)(mc := c')\<rparr>) mc d (md_root (cursor_db s mc)) 0"
proof -
  define c where "c = st_cursors s mc"
  define root where "root = md_root (cursor_db s mc)"
  have t': "tree_ok valid rank s d root None None" "leaves_full s d root" "d < CURSOR_STACK"
    using t by (auto simp: tree_ready_def root_def Let_def)
  obtain r p where rp: "page_of s root = Some (r, p)"
    using t'(1) by (cases d) (auto split: option.splits)
  define s1 where "s1 = s\<lparr>st_cursors := (st_cursors s)(mc := at_root c r)\<rparr>"
  have "\<exists>c'. search_root_loop CURSOR_STACK (\<lambda>_. stuck) mc r None MDB_PS_FIRST s1
      = Some (s1\<lparr>st_cursors := (st_cursors s1)(mc := c')\<rparr>, Inr (top_ref c')) \<and>
    on_path s1 c' (mc_top (at_root c r)) d root \<and>
    (\<forall>j. mc_top (at_root c r) \<le> j \<and> j < mc_top (at_root c r) + d \<longrightarrow> mc_ki c' j = 0) \<and>
    (\<forall>j < mc_top (at_root c r). mc_pg c' j = mc_pg (at_root c r) j \<and> mc_ki c' j = mc_ki (at_root c r) j) \<and>
    mc_top c' = mc_top (at_root c r) + d \<and> mc_snum c' = mc_top c' + 1 \<and> mc_dbi c' = mc_dbi (at_root c r) \<and>
    mc_flags c' = mc_flags (at_root c r)"
  proof (rule search_root_first)
    show "tree_ok valid rank s1 d root None None" using t'(1) by (simp add: s1_def)
    show "page_of s1 root = Some (r, p)" using rp by (simp add: s1_def)
  qed (use t'(3) in \<open>auto simp: s1_def at_root_def top_ref_def\<close>)
  then obtain c' where c': "search_root_loop CURSOR_STACK (\<lambda>_. stuck) mc r None MDB_PS_FIRST s1
      = Some (s\<lparr>st_cursors := (st_cursors s)(mc := c')\<rparr>, Inr (top_ref c'))"
    "on_path s c' 0 d root" "\<forall>j < d. mc_ki c' j = 0" "mc_top c' = d" "mc_snum c' = d + 1" "mc_dbi c' = mc_dbi c"
    "mc_flags c' = mc_flags c"
    by (auto simp: s1_def at_root_def)
  obtain lo hi where q: "page_at s (mc_pg c' d) = Some (level_page s c' d)" "leaf_ok valid rank s (level_page s c' d) lo hi"
    using on_path_pages [OF c'(2) t'(1), of d] by auto
  define c2 where "c2 = set_top_ki 0 ((found_flags c')\<lparr>mc_flags := clear_flag (mc_flags (found_flags c') OR C_INITIALIZED) C_EOF\<rparr>)"
  have search: "search_ro mc None MDB_PS_FIRST s = Some (s\<lparr>st_cursors := (st_cursors s)(mc := found_flags c')\<rparr>, Inr ())"
    unfolding mdb_page_search_def
    by (rule page_search_step [OF ready]) (use rp c'(1,4) q in \<open>auto simp: root_def s1_def c_def top_ref_def leaf_ok_def\<close>)
  have fl: "any_set (mc_flags c2) C_INITIALIZED" "\<not> any_set (mc_flags c2) C_EOF" "\<not> any_set (mc_flags c2) C_DEL"
    using assms(4) c'(7)
    by (auto simp: c2_def found_flags_def set_top_ki_def cursor_flag_bits c_def bit_simps)
  have path: "on_path s c2 0 d root" "leaf_start s c2 0 d root = 0"
    using c'(2) on_path_cong(1) [of 0 d c2 c' s root] first_path [of 0 d c2 s root] c'(3,4)
    by (auto simp: c2_def set_top_ki_def found_flags_def)
  have "0 < NUMKEYS (level_page s c2 d)" using on_path_full [OF path(1) t'(2)] by simp
  then have st: "standing (s\<lparr>st_cursors := (st_cursors s)(mc := c2)\<rparr>) mc d root 0"
    using path fl c'(4,5) by (simp add: standing_def Let_def) (simp add: c2_def set_top_ki_def found_flags_def)
  have dbi: "mc_dbi c2 = mc_dbi (st_cursors s mc)" using c'(6) by (simp add: c2_def set_top_ki_def found_flags_def c_def)
  have "mdb_cursor_first mc want s = item_at mc want (s\<lparr>st_cursors := (st_cursors s)(mc := c2)\<rparr>)"
    using search assms(3) q c'(4)
    by (simp add: mdb_cursor_first_def op_simps topM_def top_ref_def pageM_def leaf_ok_def c2_def found_flags_def)
  then show ?thesis
    using standing_item(2) [of "s\<lparr>st_cursors := (st_cursors s)(mc := c2)\<rparr>" mc d 0 valid rank want]
      tree_ready_cursors [OF dbi, of valid rank d] t st dbi
    by (intro exI [of _ c2]) (simp add: root_def)
qed


section \<open>\<open>mdb_cursor_get\<close> is an iterator\<close>

definition cursor_step :: "nat \<Rightarrow> bool \<Rightarrow> cursor_op \<Rightarrow> mdb_state \<Rightarrow> (mdb_state \<times> (bytes \<times> bytes option) option) option" where
  "cursor_step mc want oper s =
     (case mdb_cursor_get mc None want oper s of
        None \<Rightarrow> None
      | Some (s', Inr x) \<Rightarrow> Some (s', Some x)
      | Some (s', Inl e) \<Rightarrow> if e = MDB_NOTFOUND then Some (s', None) else None)"

text \<open>
  The items \<open>its\<close> of the database of the cursor, whose keys are in the default order; a
  fresh cursor for the start.
\<close>

definition has_items :: "nat \<Rightarrow> nat \<Rightarrow> (bytes \<times> bytes) list \<Rightarrow> mdb_state \<Rightarrow> bool" where
  "has_items mc d its s \<longleftrightarrow> tree_ready (\<lambda>k. length k < 2 ^ 32) (\<lambda>k. k) s mc d \<and>
     its = tree_items s d (md_root (cursor_db s mc)) \<and> mt_flags (st_txn s) AND MDB_TXN_ERROR = 0"

definition fresh_cursor :: "nat \<Rightarrow> mdb_state \<Rightarrow> bool" where
  "fresh_cursor mc s \<longleftrightarrow> search_ready s mc \<and> mc_flags (st_cursors s mc) = 0"

definition stands_at :: "nat \<Rightarrow> nat \<Rightarrow> (bytes \<times> bytes) list \<Rightarrow> mdb_state \<Rightarrow> nat \<Rightarrow> bool" where
  "stands_at mc d its s n \<longleftrightarrow> has_items mc d its s \<and> standing s mc d (md_root (cursor_db s mc)) n"

lemma has_items_cursors:
  "mc_dbi c' = mc_dbi (st_cursors s mc) \<Longrightarrow>
    has_items mc d its (s\<lparr>st_cursors := (st_cursors s)(mc := c')\<rparr>) = has_items mc d its s"
  by (simp add: has_items_def tree_ready_cursors)

text \<open>After the operation only the deletion mark of the cursor is looked at.\<close>

lemma cursor_get_finish:
  assumes "mt_flags (st_txn s) AND MDB_TXN_ERROR = 0"
    and "oper = MDB_FIRST \<and> m = mdb_cursor_first mc want \<or>
      oper = MDB_NEXT \<and> any_set (mc_flags (st_cursors s mc)) C_INITIALIZED \<and> m = mdb_cursor_next mc want"
    and "m s = Some (s', r)" "\<not> any_set (mc_flags (st_cursors s' mc)) C_DEL"
  shows "mdb_cursor_get mc None want oper s = Some (s', r)"
proof -
  have "s'\<lparr>st_cursors := (st_cursors s')(mc := st_cursors s' mc)\<rparr> = s'" by simp
  then show ?thesis
    using assms by (auto simp: mdb_cursor_get_def op_simps Let_def any_set_def split: sum.splits)
qed

interpretation cursor: iterator "cursor_step mc want MDB_FIRST" "cursor_step mc want MDB_NEXT"
  "\<lambda>s. has_items mc d its s \<and> fresh_cursor mc s" "stands_at mc d its" "map (item_result want) its"
  for mc want d its
proof
  fix s
  assume "has_items mc d its s \<and> fresh_cursor mc s" "map (item_result want) its \<noteq> []"
  then have h: "has_items mc d its s" "search_ready s mc" "mc_flags (st_cursors s mc) = 0" "its \<noteq> []"
    by (auto simp: fresh_cursor_def)
  then obtain c' where c': "mdb_cursor_first mc want s
      = Some (s\<lparr>st_cursors := (st_cursors s)(mc := c')\<rparr>, Inr (item_result want (its ! 0)))"
    "mc_dbi c' = mc_dbi (st_cursors s mc)"
    "standing (s\<lparr>st_cursors := (st_cursors s)(mc := c')\<rparr>) mc d (md_root (cursor_db s mc)) 0"
    using first_run [of "\<lambda>k. length k < 2 ^ 32" "\<lambda>k. k" s mc d want] by (auto simp: has_items_def any_set_def)
  let ?s = "s\<lparr>st_cursors := (st_cursors s)(mc := c')\<rparr>"
  have "mdb_cursor_get mc None want MDB_FIRST s = Some (?s, Inr (item_result want (its ! 0)))"
    by (rule cursor_get_finish [where m = "mdb_cursor_first mc want", OF _ _ c'(1)]) (use h(1) c'(3) in \<open>auto simp: has_items_def standing_def Let_def\<close>)
  moreover have "stands_at mc d its ?s 0" using c'(2,3) h(1) by (simp add: stands_at_def has_items_cursors)
  ultimately show "\<exists>x'. cursor_step mc want MDB_FIRST s = Some (x', Some (map (item_result want) its ! 0)) \<and> stands_at mc d its x' 0"
    using h(4) by (simp add: cursor_step_def)
next
  fix s n
  assume s: "stands_at mc d its s n"
  then have h: "has_items mc d its s" "standing s mc d (md_root (cursor_db s mc)) n"
    "tree_ready (\<lambda>k. length k < 2 ^ 32) (\<lambda>k. k) s mc d" "its = tree_items s d (md_root (cursor_db s mc))"
    by (auto simp: stands_at_def has_items_def)
  note nr = next_run [OF h(2,3), folded h(4), of want]
  have init: "any_set (mc_flags (st_cursors s mc)) C_INITIALIZED" "\<not> any_set (mc_flags (st_cursors s mc)) C_DEL"
    using h(2) by (auto simp: standing_def Let_def)
  have ok: "mt_flags (st_txn s) AND MDB_TXN_ERROR = 0" using h(1) by (simp add: has_items_def)
  show "n < length (map (item_result want) its)" using standing_item(1) [OF h(2,3)] h(4) by simp
  show "\<exists>x'. cursor_step mc want MDB_NEXT s = Some (x', Some (map (item_result want) its ! (n + 1))) \<and> stands_at mc d its x' (n + 1)"
    if "n + 1 < length (map (item_result want) its)"
  proof -
    have lt: "n + 1 < length its" using that by simp
    obtain c' where c': "mdb_cursor_next mc want s
        = Some (s\<lparr>st_cursors := (st_cursors s)(mc := c')\<rparr>, Inr (item_result want (its ! (n + 1))))"
      "mc_dbi c' = mc_dbi (st_cursors s mc)"
      "standing (s\<lparr>st_cursors := (st_cursors s)(mc := c')\<rparr>) mc d (md_root (cursor_db s mc)) (n + 1)"
      using nr unfolding if_P [OF lt] by blast
    have "mdb_cursor_get mc None want MDB_NEXT s
        = Some (s\<lparr>st_cursors := (st_cursors s)(mc := c')\<rparr>, Inr (item_result want (its ! (n + 1))))"
      by (rule cursor_get_finish [where m = "mdb_cursor_next mc want", OF ok _ c'(1)]) (use init c'(3) in \<open>auto simp: standing_def Let_def\<close>)
    moreover have "stands_at mc d its (s\<lparr>st_cursors := (st_cursors s)(mc := c')\<rparr>) (n + 1)"
      using c'(2,3) h(1) by (simp add: stands_at_def has_items_cursors)
    ultimately show ?thesis using that by (simp add: cursor_step_def)
  qed
  show "\<exists>x'. cursor_step mc want MDB_NEXT s = Some (x', None)" if "n + 1 = length (map (item_result want) its)"
  proof -
    define c' where "c' = (st_cursors s mc)\<lparr>mc_flags := mc_flags (st_cursors s mc) OR C_EOF\<rparr>"
    have n: "mdb_cursor_next mc want s = Some (s\<lparr>st_cursors := (st_cursors s)(mc := c')\<rparr>, Inl MDB_NOTFOUND)"
      using nr that by (simp add: c'_def)
    have "mdb_cursor_get mc None want MDB_NEXT s = Some (s\<lparr>st_cursors := (st_cursors s)(mc := c')\<rparr>, Inl MDB_NOTFOUND)"
      by (rule cursor_get_finish [where m = "mdb_cursor_next mc want", OF ok _ n])
        (use init in \<open>auto simp: c'_def cursor_flag_bits bit_simps\<close>)
    then show ?thesis by (simp add: cursor_step_def)
  qed
qed

section \<open>Properties\<close>

text \<open>
  C11: A cursor iterates over its database. From a fresh cursor on a database with at least
  one item, \<open>mdb_cursor_get\<close> with \<open>MDB_FIRST\<close> and then with \<open>MDB_NEXT\<close> until it answers
  \<open>MDB_NOTFOUND\<close> returns every item of the B+tree exactly once, in the order of the keys,
  with its data; the moves cross from leaf to leaf through any number of levels, and the
  loop ends.
\<close>

theorem cursor_scan_correct:
  assumes "tree_ready (\<lambda>k. length k < 2 ^ 32) (\<lambda>k. k) s mc d" "search_ready s mc"
    and "mc_flags (st_cursors s mc) = 0" "mt_flags (st_txn s) AND MDB_TXN_ERROR = 0"
  defines "its \<equiv> tree_items s d (md_root (cursor_db s mc))"
  assumes "its \<noteq> []"
  shows "scan (cursor_step mc True MDB_FIRST) (cursor_step mc True MDB_NEXT) (length its) s
    = Some (map (\<lambda>(k, v). (k, Some v)) its)"
proof -
  have "has_items mc d its s \<and> fresh_cursor mc s"
    using assms by (simp add: has_items_def fresh_cursor_def)
  then have "scan (cursor_step mc True MDB_FIRST) (cursor_step mc True MDB_NEXT) (length its) s
      = Some (map (item_result True) its)"
    using cursor.scan_all [of mc d its s True] assms(6) by simp
  moreover have "item_result True = (\<lambda>(k, v). (k, Some v))" by (auto simp: item_result_def)
  ultimately show ?thesis by simp
qed

definition cursor_state0 :: mdb_state where
  "cursor_state0 = state0\<lparr>st_cursors := (\<lambda>_. (st_cursors state0 0)\<lparr>mc_dbi := 1\<rparr>)\<rparr>"

theorem cursor_scan_witness:
  "scan (cursor_step 0 True MDB_FIRST) (cursor_step 0 True MDB_NEXT) 4 cursor_state0
    = Some [([5], Some [105]), ([6], Some [106]), ([7], Some [107]), ([9], Some [109])]"
proof -
  have db: "cursor_db cursor_state0 0 = mt_dbs (st_txn state0) 1" "mc_dbi (st_cursors cursor_state0 0) = 1"
    "st_txn cursor_state0 = st_txn state0" "mc_pg (st_cursors cursor_state0 0) 0 = NullPg"
    "mc_flags (st_cursors cursor_state0 0) = 0"
    by (simp_all add: cursor_db_def cursor_state0_def) (simp_all add: state0_def)
  have full: "leaves_full cursor_state0 1 2"
    by (simp add: cursor_state0_def page_of_state0 less_2)
  have ok: "tree_ok (\<lambda>k. length k < 2 ^ 32) (\<lambda>k. k) cursor_state0 1 2 None None"
    using tree_ok_state0 unfolding cursor_state0_def tree_ok_cursors .
  have rd: "\<not> any_set (md_flags (mt_dbs (st_txn state0) 1)) MDB_DUPSORT" "\<not> F_ISSET (mt_flags (st_txn state0)) MDB_TXN_ERROR"
    "\<not> any_set (mt_dbflags (st_txn state0) 1) DB_STALE" "mt_flags (st_txn state0) AND MDB_TXN_ERROR = 0"
    using db_ready_state0 by (auto simp: db_ready_def F_ISSET_def MDB_TXN_ERROR_def)
  have its: "tree_items cursor_state0 1 2 = [([5], [105]), ([6], [106]), ([7], [107]), ([9], [109])]"
    using tree_items_state0 unfolding cursor_state0_def tree_items_cursors .
  have tr: "tree_ready (\<lambda>k. length k < 2 ^ 32) (\<lambda>k. k) cursor_state0 0 1"
    unfolding tree_ready_def db root_state0 Let_def using ok full rd(1) by (simp add: CURSOR_STACK_def)
  have sr: "search_ready cursor_state0 0"
    unfolding search_ready_def db root_state0 using rd by (simp add: root_ready_def P_INVALID_def)
  show ?thesis
    using cursor_scan_correct [OF tr sr db(5), unfolded db root_state0 its] rd(4)
    by (simp add: numeral_eq_Suc)
qed

end
