(* ===== verification/Split.thy ===== *)
theory Split
  imports Spill
begin

text \<open>
  Adding, deleting and renaming nodes through a cursor, and \<open>mdb_page_split\<close>, which divides
  a full page in two, puts the new node into one of the halves and the separator into the
  parent, splitting that in turn if it must.
\<close>

section \<open>Nodes of the page a cursor is on\<close>

definition upd_dbM :: "nat \<Rightarrow> (mdb_db \<Rightarrow> mdb_db) \<Rightarrow> unit op" where
  "upd_dbM mc f =
     bindM (curM mc) (\<lambda>c. txnM (\<lambda>t. t\<lparr>mt_dbs := (mt_dbs t)(mc_dbi c := f (mt_dbs t (mc_dbi c)))\<rparr>))"

definition mdb_cursor_copy :: "nat \<Rightarrow> nat \<Rightarrow> unit op" where
  "mdb_cursor_copy csrc cdst =
     bindM (curM csrc) (\<lambda>c.
     upd_curM cdst (\<lambda>d. \<lparr>mc_dbi = mc_dbi c, mc_snum = mc_snum c, mc_top = mc_top c, mc_flags = mc_flags c,
        mc_pg = (\<lambda>i. if i < mc_snum c then mc_pg c i else mc_pg d i),
        mc_ki = (\<lambda>i. if i < mc_snum c then mc_ki c i else mc_ki d i)\<rparr>))"

text \<open>
  \<open>mdb_node_add\<close> on the state: the overflow pages it takes come from \<open>mdb_page_new\<close>. Stored
  are the page, the overflow page when one was taken, and the flags of the transaction.
\<close>

definition ovpage_new ::
  "nat \<Rightarrow> (mdb_state \<times> page_ref) option \<Rightarrow> nat \<Rightarrow> (mdb_state \<times> page_ref) option \<times> (mdb_err + mdb_page)" where
  "ovpage_new mc so n =
     (case so of
        None \<Rightarrow> (None, Inl ENOMEM)
      | Some (s, _) \<Rightarrow>
          (case mdb_page_new mc (ucast P_OVERFLOW) n s of
             None \<Rightarrow> (None, Inl ENOMEM)
           | Some (s, Inl e) \<Rightarrow> (Some (s, NullPg), Inl e)
           | Some (s, Inr r) \<Rightarrow> (case page_at s r of None \<Rightarrow> (None, Inl ENOMEM) | Some p \<Rightarrow> (Some (s, r), Inr p))))"

definition node_addM :: "nat \<Rightarrow> nat \<Rightarrow> mdb_val option \<Rightarrow> mdb_val option \<Rightarrow> u64 \<Rightarrow> u32 \<Rightarrow> unit op" where
  "node_addM mc indx key data pgno flags =
     bindM (curM mc) (\<lambda>c.
     bindM (topM mc) (\<lambda>mp.
     bindM (getM st_env) (\<lambda>env.
     bindM (getM (\<lambda>s. unat (md_pad (cursor_db s mc)))) (\<lambda>pad. \<lambda>s.
       case mdb_node_add (ovpage_new mc) pad (me_nodemax env) (me_psize env) (Some (s, NullPg))
              (mt_flags (st_txn s)) mp indx key data pgno flags of
         None \<Rightarrow> None
       | Some (None, _, _) \<Rightarrow> None
       | Some (Some (s, ofp), mtf, r) \<Rightarrow>
           seqM (flagM mtf)
           (case r of
              Inl e \<Rightarrow> err e
            | Inr (p, ov) \<Rightarrow>
                seqM (set_pageM (top_ref c) p)
                (case ov of None \<Rightarrow> ret () | Some q \<Rightarrow> set_pageM ofp q)) s))))"

definition node_delM :: "nat \<Rightarrow> nat \<Rightarrow> unit op" where
  "node_delM mc ksize =
     bindM (curM mc) (\<lambda>c.
     bindM (topM mc) (\<lambda>mp.
     case mdb_node_del ksize mp (top_ki c) of None \<Rightarrow> stuck | Some p \<Rightarrow> set_pageM (top_ref c) p))"

definition val_of :: "bytes \<Rightarrow> mdb_val" where
  "val_of bs = \<lparr>mv_size = length bs, mv_data = bs\<rparr>"

section \<open>Splitting a page\<close>

definition MDB_APPEND :: u32 where "MDB_APPEND = 0x20000"
definition MDB_APPENDDUP :: u32 where "MDB_APPENDDUP = 0x40000"
definition MDB_SPLIT_REPLACE :: u32 where "MDB_SPLIT_REPLACE = MDB_APPENDDUP"

text \<open>
  A root page gets a new parent first. The result is whether it did, and the level of the
  parent. A failure to add the left pointer is undone.
\<close>

definition split_root :: "nat \<Rightarrow> page_ref \<Rightarrow> (bool \<times> nat) op" where
  "split_root mc mp =
     bindM (curM mc) (\<lambda>c.
     if mc_snum c < 2 then
       bindM (mdb_page_new mc (ucast P_BRANCH) 1) (\<lambda>pp.
       bindM (pageM pp) (\<lambda>q.
       bindM (pageM mp) (\<lambda>p.
       seqM (upd_curM mc (\<lambda>c. c\<lparr>mc_pg := (mc_pg c)(1 := mc_pg c 0, 0 := pp), mc_ki := (mc_ki c)(1 := mc_ki c 0, 0 := 0)\<rparr>))
       (seqM (upd_dbM mc (\<lambda>d. d\<lparr>md_root := mp_pgno q, md_depth := md_depth d + 1\<rparr>))
       (tryM (node_addM mc 0 None None (mp_pgno p) 0) (\<lambda>r.
        case r of
          Inl e \<Rightarrow>
            seqM (upd_curM mc (\<lambda>c. c\<lparr>mc_pg := (mc_pg c)(0 := mc_pg c 1), mc_ki := (mc_ki c)(0 := mc_ki c 1)\<rparr>))
            (seqM (upd_dbM mc (\<lambda>d. d\<lparr>md_root := mp_pgno p, md_depth := md_depth d - 1\<rparr>))
            (err e))
        | Inr _ \<Rightarrow> seqM (upd_curM mc (\<lambda>c. c\<lparr>mc_snum := 2, mc_top := 1\<rparr>)) (ret (True, 0))))))))
     else ret (False, mc_top c - 1))"

text \<open>
  The pointers of the page with a gap for the new node:
  \<open>for (i=0, j=0; i<nkeys; i++) { if (i == newindx) copy[j++] = 0; copy[j++] = mp[i]; }\<close>
\<close>

fun split_ptrs :: "(nat \<Rightarrow> nat) \<Rightarrow> nat \<Rightarrow> (nat \<Rightarrow> nat) \<Rightarrow> nat \<Rightarrow> nat \<Rightarrow> nat \<Rightarrow> (nat \<Rightarrow> nat)" where
  "split_ptrs src newindx dst i j 0 = dst"
| "split_ptrs src newindx dst i j (Suc n) =
     (let (dst, j) = (if i = newindx then (dst(j := 0), j + 1) else (dst, j))
      in split_ptrs src newindx (dst(j := src i)) (i + 1) (j + 1) n)"

text \<open>
  \<open>for (; i!=k; i+=j)\<close>: add up the sizes of the nodes of one half until they no longer fit
  an empty page. The number of rounds left is the last argument; \<open>None\<close> leaves the split
  point as it is.
\<close>

definition split_node_size :: "mdb_page \<Rightarrow> nat \<Rightarrow> nat" where
  "split_node_size mp node =
     (let m = mp_body mp; sz = NODESIZE + NODEKSZ m node + 2
      in if IS_LEAF mp
         then (if F_ISSET (mn_flags m node) F_BIGDATA then sz + 8 else sz + unat (NODEDSZ m node))
         else sz)"

fun split_scan ::
  "mdb_page \<Rightarrow> (nat \<Rightarrow> nat) \<Rightarrow> nat \<Rightarrow> nat \<Rightarrow> nat \<Rightarrow> int \<Rightarrow> int \<Rightarrow> nat \<Rightarrow> int \<Rightarrow> nat \<Rightarrow> nat option" where
  "split_scan mp ptrs newindx nsize pmax j k psize i 0 = None"
| "split_scan mp ptrs newindx nsize pmax j k psize i (Suc n) =
     (let psize = (if nat i = newindx then psize + nsize
                   else EVEN (psize + split_node_size mp (ptrs (nat i) + PAGEBASE)))
      in if psize > pmax \<or> i = k - j then Some (nat i + (if j < 0 then 1 else 0))
         else split_scan mp ptrs newindx nsize pmax j k psize (i + j) n)"

definition split_point :: "nat \<Rightarrow> mdb_page \<Rightarrow> (nat \<Rightarrow> nat) \<Rightarrow> nat \<Rightarrow> nat \<Rightarrow> nat \<Rightarrow> nat" where
  "split_point pagesize mp ptrs newindx nsize split_indx =
     (let nkeys = NUMKEYS mp; pmax = pagesize - PAGEHDRSZ in
      if nkeys < 20 \<or> nsize > pmax div 16 \<or> newindx \<ge> nkeys then
        (let (i, j, k) =
           (if newindx \<le> split_indx \<or> newindx \<ge> nkeys
            then (0, 1, if newindx \<ge> nkeys then int nkeys else int split_indx + 2)
            else (int nkeys, -1, int split_indx - 1))
         in case split_scan mp ptrs newindx nsize pmax j k 0 i (nat \<bar>k - i\<bar>) of
              None \<Rightarrow> split_indx | Some x \<Rightarrow> x)
      else split_indx)"

text \<open>
  A \<open>P_LEAF2\<close> page: half of the keys move to the right sibling, with the new key in its place.
  The result is the two pages, the separator and, when the new key is on the right, its index.
\<close>

definition split_leaf2 ::
  "nat \<Rightarrow> mdb_page \<Rightarrow> mdb_page \<Rightarrow> nat \<Rightarrow> nat \<Rightarrow> bytes \<Rightarrow> mdb_page \<times> mdb_page \<times> bytes \<times> nat option" where
  "split_leaf2 ksize mp rp ki split_indx key =
     (let nkeys = NUMKEYS mp;
          split = LEAF2KEY split_indx ksize;
          rsize = (nkeys - split_indx) * ksize;
          lsize = (nkeys - split_indx) * 2;
          m = mp_body mp;
          mp = mp\<lparr>mp_lower := indx_sub (mp_lower mp) lsize, mp_upper := indx_sub (mp_upper mp + rsize) lsize\<rparr>;
          rp = rp\<lparr>mp_lower := indx_t (mp_lower rp + lsize), mp_upper := indx_sub (mp_upper rp + lsize) rsize\<rparr>;
          sep = (if ki = split_indx then take ksize key else rd m split ksize)
      in if ki < split_indx then
           (let ins = LEAF2KEY ki ksize;
                rp = rp\<lparr>mp_body := wr (mp_body rp) PAGEHDRSZ (rd m split rsize)\<rparr>;
                m = mem_move m (ins + ksize) ins ((split_indx - ki) * ksize);
                m = wr m ins (take ksize key)
            in (mp\<lparr>mp_body := m, mp_lower := indx_t (mp_lower mp + 2), mp_upper := indx_sub (mp_upper mp + 2) ksize\<rparr>,
                rp, sep, None))
         else
           (let x = ki - split_indx;
                ins = LEAF2KEY x ksize;
                r = wr (mp_body rp) PAGEHDRSZ (rd m split (x * ksize));
                r = wr r ins (take ksize key);
                r = wr r (ins + ksize) (rd m (split + x * ksize) (rsize - x * ksize))
            in (mp, rp\<lparr>mp_body := r, mp_lower := indx_t (mp_lower rp + 2), mp_upper := indx_sub (mp_upper rp + 2) ksize\<rparr>,
                sep, Some x)))"

text \<open>
  The separator goes into the parent, through the cursor \<open>mn\<close> on the right sibling. If the
  parent is full it is split by \<open>split\<close>; the cursor \<open>mc\<close> then follows. The result is
  whether that happened, and the level of the parent.
\<close>

definition split_follow :: "nat \<Rightarrow> nat \<Rightarrow> nat \<Rightarrow> nat op" where
  "split_follow mc mn ptop =
     bindM (curM mc) (\<lambda>c.
     bindM (curM mn) (\<lambda>n.
     bindM
       (if mc_snum n = mc_snum c then
          seqM (upd_curM mc (\<lambda>c. c\<lparr>
             mc_pg := (mc_pg c)(mc_snum c := mc_pg c (mc_top c), mc_top c := mc_pg c ptop),
             mc_ki := (mc_ki c)(mc_snum c := mc_ki c (mc_top c), mc_top c := mc_ki c ptop),
             mc_snum := mc_snum c + 1, mc_top := mc_top c + 1\<rparr>))
          (ret (ptop + 1))
        else ret ptop) (\<lambda>ptop.
     bindM (curM mc) (\<lambda>c.
     bindM (pageM (mc_pg c ptop)) (\<lambda>pp.
     seqM
       (if mc_pg n ptop \<noteq> mc_pg c ptop \<and> mc_ki c ptop \<ge> NUMKEYS pp then
          seqM (upd_curM mc (\<lambda>c. c\<lparr>
             mc_pg := (\<lambda>i. if i \<le> ptop then mc_pg n i else mc_pg c i),
             mc_ki := (\<lambda>i. if i < ptop then mc_ki n i
                           else if i = ptop then (if mc_ki n ptop \<noteq> 0 then mc_ki n ptop - 1 else mc_ki n ptop)
                           else mc_ki c i)\<rparr>))
          (if mc_ki n ptop \<noteq> 0 then ret () else tryM (mdb_cursor_sibling mc False) (\<lambda>_. ret ()))
        else ret ())
     (ret ptop))))))"

definition split_parent ::
  "(nat \<Rightarrow> mdb_val \<Rightarrow> mdb_val option \<Rightarrow> u64 \<Rightarrow> u32 \<Rightarrow> unit op) \<Rightarrow> nat \<Rightarrow> nat \<Rightarrow> page_ref \<Rightarrow> mdb_val \<Rightarrow> nat
   \<Rightarrow> (bool \<times> nat) op" where
  "split_parent split mc mn rp sepkey ptop =
     bindM (pageM rp) (\<lambda>r.
     bindM (curM mn) (\<lambda>n.
     bindM (pageM (mc_pg n ptop)) (\<lambda>pp.
     bindM
       (if SIZELEFT pp < mdb_branch_size (Some sepkey) then
          seqM (upd_curM mn (\<lambda>c. c\<lparr>mc_snum := mc_snum c - 1, mc_top := mc_top c - 1\<rparr>))
          (seqM (split mn sepkey None (mp_pgno r) 0)
          (bindM (split_follow mc mn ptop) (\<lambda>ptop. ret (Inr (), True, ptop))))
        else
          seqM (upd_curM mn (\<lambda>c. c\<lparr>mc_top := mc_top c - 1\<rparr>))
          (tryM (node_addM mn (mc_ki n ptop) (Some sepkey) None (mp_pgno r) 0) (\<lambda>rc.
           seqM (upd_curM mn (\<lambda>c. c\<lparr>mc_top := mc_top c + 1\<rparr>))
           (ret (rc, False, ptop))))) (\<lambda>(rc, did_split, ptop).
     seqM (upd_curM mc (\<lambda>c. c\<lparr>mc_flags := mc_flags c XOR C_SPLITTING\<rparr>))
     (case rc of Inl e \<Rightarrow> err e | Inr _ \<Rightarrow> ret (did_split, ptop))))))"

text \<open>
  The nodes from the split point on go to the right sibling, then those before it to the
  copy; the new node among them. A branch page's first node has no key.
\<close>

definition node_to_move ::
  "mdb_page \<Rightarrow> nat \<Rightarrow> mdb_val option \<times> mdb_val option \<times> u64 \<times> u32" where
  "node_to_move mp node =
     (let m = mp_body mp; big = F_ISSET (mn_flags m node) F_BIGDATA in
      (Some (val_of (NODEKEY m node)),
       if IS_LEAF mp
       then Some \<lparr>mv_size = unat (NODEDSZ m node),
                  mv_data = rd m (NODEDATA m node) (if big then 8 else unat (NODEDSZ m node))\<rparr>
       else None,
       NODEPGNO m node, ucast (mn_flags m node)))"

fun move_nodes ::
  "nat \<Rightarrow> page_ref \<Rightarrow> page_ref \<Rightarrow> nat \<Rightarrow> nat \<Rightarrow> nat \<Rightarrow> mdb_val option \<times> mdb_val option \<times> u64 \<times> u32
   \<Rightarrow> nat \<Rightarrow> nat \<Rightarrow> nat \<Rightarrow> unit op" where
  "move_nodes mc mp copy newindx nkeys split_indx new i j 0 = stuck"
| "move_nodes mc mp copy newindx nkeys split_indx new i j (Suc n) =
     bindM (pageM mp) (\<lambda>p.
     bindM (pageM copy) (\<lambda>q.
     let (rkey, rdata, pgno, flags) = (if i = newindx then new else node_to_move p (mp_ptrs q i + PAGEBASE));
         rkey = (if \<not> IS_LEAF p \<and> j = 0 then map_option (\<lambda>k. k\<lparr>mv_size := 0\<rparr>) rkey else rkey);
         (i', j') = (if i = nkeys then (0, 0) else (i + 1, j + 1))
     in
     seqM (whenM (i = newindx) (upd_curM mc (set_top_ki j)))
     (seqM (node_addM mc j rkey rdata pgno flags)
     (seqM (whenM (i = nkeys) (upd_curM mc (\<lambda>c. c\<lparr>mc_pg := (mc_pg c)(mc_top c := copy)\<rparr>)))
     (if i' = split_indx then ret ()
      else move_nodes mc mp copy newindx nkeys split_indx new i' j' n)))))"

text \<open>The left half is copied back, and the cursor set on the page the new node went to.\<close>

definition split_reset :: "nat \<Rightarrow> nat \<Rightarrow> page_ref \<Rightarrow> page_ref \<Rightarrow> page_ref \<Rightarrow> nat \<Rightarrow> nat \<Rightarrow> nat \<Rightarrow> unit op" where
  "split_reset mc mn mp rp copy newindx split_indx ptop =
     bindM (pageM copy) (\<lambda>q.
     let nkeys = NUMKEYS q in
     if nkeys = 0 then stuck
     else
       bindM (getM (\<lambda>s. me_psize (st_env s))) (\<lambda>psize.
       seqM (upd_pageM mp (\<lambda>p.
          let base = mp_ptrs q (nkeys - 1) + PAGEBASE in
          p\<lparr>mp_ptrs := (\<lambda>i. if i < nkeys then mp_ptrs q i else mp_ptrs p i),
            mp_lower := mp_lower q, mp_upper := mp_upper q,
            mp_body := wr (mp_body p) base (rd (mp_body q) base (psize - mp_upper q - PAGEBASE))\<rparr>))
       (if newindx < split_indx then upd_curM mc (\<lambda>c. c\<lparr>mc_pg := (mc_pg c)(mc_top c := mp)\<rparr>)
        else
          seqM (upd_curM mc (\<lambda>c. c\<lparr>mc_pg := (mc_pg c)(mc_top c := rp),
                                  mc_ki := (mc_ki c)(ptop := indx_t (mc_ki c ptop + 1))\<rparr>))
          (bindM (curM mc) (\<lambda>c.
           bindM (curM mn) (\<lambda>n.
           bindM (pageM (mc_pg c ptop)) (\<lambda>pp.
           whenM (mc_pg n ptop \<noteq> mc_pg c ptop \<and> mc_ki c ptop \<ge> NUMKEYS pp)
             (upd_curM mc (\<lambda>c. c\<lparr>mc_pg := (\<lambda>i. if i \<le> ptop then mc_pg n i else mc_pg c i),
                                mc_ki := (\<lambda>i. if i \<le> ptop then mc_ki n i else mc_ki c i)\<rparr>)))))))))"

text \<open>The other cursors of the database: \<open>c\<close> is the cursor that split, \<open>n\<close> the one on the right.\<close>

definition split_adjust ::
  "mdb_cursor \<Rightarrow> mdb_cursor \<Rightarrow> page_ref \<Rightarrow> page_ref \<Rightarrow> nat \<Rightarrow> nat \<Rightarrow> nat \<Rightarrow> bool \<Rightarrow> bool \<Rightarrow> nat \<Rightarrow> u32
   \<Rightarrow> mdb_cursor \<Rightarrow> mdb_cursor" where
  "split_adjust c n mp rp newindx fixup split_indx new_root did_split ptop nflags m =
     (let m = (if new_root then
                 m\<lparr>mc_ki := (\<lambda>k. if k = 0 then (if mc_ki m 0 \<ge> split_indx then 1 else 0)
                                else if k \<le> mc_top m + 1 then mc_ki m (k - 1) else mc_ki m k),
                   mc_pg := (\<lambda>k. if k = 0 then mc_pg c 0 else if k \<le> mc_top m + 1 then mc_pg m (k - 1) else mc_pg m k),
                   mc_snum := mc_snum m + 1, mc_top := mc_top m + 1\<rparr>
               else m);
          lvl = mc_top c
      in if mc_top m \<ge> lvl \<and> mc_pg m lvl = mp then
           (let m = (if mc_ki m lvl \<ge> newindx \<and> \<not> any_set nflags MDB_SPLIT_REPLACE
                     then m\<lparr>mc_ki := (mc_ki m)(lvl := indx_t (mc_ki m lvl + 1))\<rparr> else m)
            in if mc_ki m lvl \<ge> fixup
               then m\<lparr>mc_pg := (mc_pg m)(lvl := rp),
                      mc_ki := (mc_ki m)(lvl := mc_ki m lvl - fixup, ptop := mc_ki n ptop)\<rparr>
               else m)
         else if \<not> did_split \<and> mc_top m \<ge> ptop \<and> mc_pg m ptop = mc_pg c ptop \<and> mc_ki m ptop \<ge> mc_ki c ptop
         then m\<lparr>mc_ki := (mc_ki m)(ptop := indx_t (mc_ki m ptop + 1))\<rparr>
         else m)"

fun adjust_cursors :: "(mdb_cursor \<Rightarrow> mdb_cursor) \<Rightarrow> (mdb_cursor \<Rightarrow> bool) \<Rightarrow> nat \<Rightarrow> nat list \<Rightarrow> unit op" where
  "adjust_cursors f P mc [] = ret ()"
| "adjust_cursors f P mc (m # ms) =
     bindM (curM m) (\<lambda>c.
     seqM (whenM (m \<noteq> mc \<and> P c) (upd_curM m f)) (adjust_cursors f P mc ms))"

definition trackedM :: "nat \<Rightarrow> nat list op" where
  "trackedM mc = bindM (curM mc) (\<lambda>c. getM (\<lambda>s. mt_cursors (st_txn s) (mc_dbi c)))"

definition split_cursors ::
  "nat \<Rightarrow> nat \<Rightarrow> page_ref \<Rightarrow> page_ref \<Rightarrow> nat \<Rightarrow> nat \<Rightarrow> bool \<Rightarrow> bool \<Rightarrow> nat \<Rightarrow> u32 \<Rightarrow> unit op" where
  "split_cursors mc mn mp rp newindx split_indx new_root did_split ptop nflags =
     bindM (pageM mp) (\<lambda>p.
     bindM (curM mc) (\<lambda>c.
     bindM (curM mn) (\<lambda>n.
     bindM (trackedM mc) (\<lambda>ms.
     seqM (assertM (\<lambda>_. \<not> any_set (mc_flags c) C_SUB))
     (adjust_cursors (split_adjust c n mp rp newindx (NUMKEYS p) split_indx new_root did_split ptop nflags)
       (\<lambda>m. any_set (mc_flags m) C_INITIALIZED \<and> \<not> any_set (mc_flags m) C_SPLITTING) mc ms)))))"

text \<open>
  The three ways to split: an appended node alone on the right page; a \<open>P_LEAF2\<close> page; and
  in general, with a temporary copy of the page, which is freed at the end in every case.
  Each gives the split point and what \<open>split_parent\<close> gave.
\<close>

type_synonym splitter = "nat \<Rightarrow> mdb_val \<Rightarrow> mdb_val option \<Rightarrow> u64 \<Rightarrow> u32 \<Rightarrow> unit op"

definition split_append ::
  "splitter \<Rightarrow> nat \<Rightarrow> nat \<Rightarrow> page_ref \<Rightarrow> mdb_val \<Rightarrow> mdb_val option \<Rightarrow> u64 \<Rightarrow> u32 \<Rightarrow> nat \<Rightarrow> nat \<Rightarrow> (nat \<times> bool \<times> nat) op" where
  "split_append split mc mn rp newkey newdata newpgno nflags newindx ptop =
     seqM (upd_curM mn (set_top_ki 0))
     (bindM (split_parent split mc mn rp newkey ptop) (\<lambda>(did_split, ptop).
      seqM (upd_curM mc (\<lambda>c. set_top_ki 0 (c\<lparr>mc_pg := (mc_pg c)(mc_top c := rp)\<rparr>)))
      (seqM (node_addM mc 0 (Some newkey) newdata newpgno nflags)
      (bindM (curM mn) (\<lambda>n.
       seqM (upd_curM mc (\<lambda>c. c\<lparr>mc_ki := (\<lambda>i. if i < mc_top c then mc_ki n i else mc_ki c i)\<rparr>))
       (ret (newindx, did_split, ptop)))))))"

definition split_fixed ::
  "splitter \<Rightarrow> nat \<Rightarrow> nat \<Rightarrow> page_ref \<Rightarrow> page_ref \<Rightarrow> mdb_val \<Rightarrow> nat \<Rightarrow> nat \<Rightarrow> (nat \<times> bool \<times> nat) op" where
  "split_fixed split mc mn mp rp newkey newindx ptop =
     bindM (pageM mp) (\<lambda>p.
     bindM (pageM rp) (\<lambda>r.
     bindM (getM (\<lambda>s. unat (md_pad (cursor_db s mc)))) (\<lambda>ksize.
     let split_indx = (NUMKEYS p + 1) div 2 in
     case split_leaf2 ksize p r newindx split_indx (mv_data newkey) of
       (p, r, sep, x) \<Rightarrow>
         seqM (set_pageM mp p)
         (seqM (set_pageM rp r)
         (seqM (case x of None \<Rightarrow> ret ()
                | Some i \<Rightarrow> upd_curM mc (\<lambda>c. set_top_ki i (c\<lparr>mc_pg := (mc_pg c)(mc_top c := rp)\<rparr>)))
         (bindM (split_parent split mc mn rp (val_of sep) ptop) (\<lambda>(did_split, ptop).
          ret (split_indx, did_split, ptop))))))))"

definition split_nodes ::
  "splitter \<Rightarrow> nat \<Rightarrow> nat \<Rightarrow> page_ref \<Rightarrow> page_ref \<Rightarrow> page_ref \<Rightarrow> mdb_val \<Rightarrow> mdb_val option \<Rightarrow> u64 \<Rightarrow> u32
   \<Rightarrow> nat \<Rightarrow> nat \<Rightarrow> (nat \<times> bool \<times> nat) op" where
  "split_nodes split mc mn mp rp copy newkey newdata newpgno nflags newindx ptop =
     bindM (pageM mp) (\<lambda>p.
     bindM (getM st_env) (\<lambda>env.
     let nkeys = NUMKEYS p;
         nsize = EVEN (if IS_LEAF p then mdb_leaf_size (me_nodemax env) newkey (the newdata)
                       else mdb_branch_size (Some newkey))
     in
     seqM (assertM (\<lambda>_. IS_LEAF p \<longrightarrow> newdata \<noteq> None))
     (seqM (upd_pageM copy (\<lambda>q. q\<lparr>mp_pgno := mp_pgno p, mp_flags := mp_flags p,
              mp_lower := PAGEHDRSZ - PAGEBASE, mp_upper := indx_t (me_psize env - PAGEBASE),
              mp_ptrs := split_ptrs (mp_ptrs p) newindx (mp_ptrs q) 0 0 nkeys\<rparr>))
     (bindM (pageM copy) (\<lambda>q.
      let split_indx = split_point (me_psize env) p (mp_ptrs q) newindx nsize ((nkeys + 1) div 2);
          sepkey = (if split_indx = newindx then newkey
                    else val_of (NODEKEY (mp_body p) (mp_ptrs q split_indx + PAGEBASE)))
      in
      bindM (split_parent split mc mn rp sepkey ptop) (\<lambda>(did_split, ptop).
      seqM (upd_curM mc (\<lambda>c. c\<lparr>mc_pg := (mc_pg c)(mc_top c := rp)\<rparr>))
      (seqM (move_nodes mc mp copy newindx nkeys split_indx (Some newkey, newdata, newpgno, nflags) split_indx 0 (nkeys + 1))
      (seqM (split_reset mc mn mp rp copy newindx split_indx ptop)
      (ret (split_indx, did_split, ptop))))))))))"

definition with_copy :: "(page_ref \<Rightarrow> 'a op) \<Rightarrow> 'a op" where
  "with_copy f =
     bindM (mdb_page_malloc 1) (\<lambda>copy.
     if copy = NullPg then err ENOMEM
     else tryM (f copy) (\<lambda>r. seqM (mdb_page_free copy) (case r of Inl e \<Rightarrow> err e | Inr x \<Rightarrow> ret x)))"

text \<open>
  \<open>mdb_page_split\<close>. A right sibling is taken, and for a root a new parent. Every error after
  the first page marks the transaction.
\<close>

definition split_step :: "splitter \<Rightarrow> splitter" where
  "split_step split mc newkey newdata newpgno nflags =
     bindM (curM mc) (\<lambda>c.
     let mp = top_ref c; newindx = top_ki c in
     bindM (pageM mp) (\<lambda>p.
     bindM (mdb_page_new mc (ucast (mp_flags p)) 1) (\<lambda>rp.
     onfail fail_txn
       (bindM (split_root mc mp) (\<lambda>(new_root, ptop).
        seqM (upd_curM mc (\<lambda>c. c\<lparr>mc_flags := mc_flags c OR C_SPLITTING\<rparr>))
        (bindM new_cursor (\<lambda>mn.
         seqM (mdb_cursor_copy mc mn)
         (seqM (upd_curM mn (\<lambda>n. n\<lparr>mc_pg := (mc_pg n)(mc_top n := rp),
                                  mc_ki := (mc_ki n)(ptop := indx_t (mc_ki n ptop + 1))\<rparr>))
         (bindM
           (if any_set nflags MDB_APPEND then
              split_append split mc mn rp newkey newdata newpgno nflags newindx ptop
            else if IS_LEAF2 p then split_fixed split mc mn mp rp newkey newindx ptop
            else with_copy (\<lambda>copy. split_nodes split mc mn mp rp copy newkey newdata newpgno nflags newindx ptop))
           (\<lambda>(split_indx, did_split, ptop).
         split_cursors mc mn mp rp newindx split_indx new_root did_split ptop nflags))))))))))"

text \<open>Every split further up is one level nearer to the root, so the stack bounds the recursion.\<close>

primrec page_split :: "nat \<Rightarrow> splitter" where
  "page_split 0 = split_step (\<lambda>mc newkey newdata newpgno nflags. stuck)"
| "page_split (Suc n) = split_step (page_split n)"

definition mdb_page_split :: splitter where
  "mdb_page_split = page_split CURSOR_STACK"

section \<open>Replacing the key of a branch node\<close>

definition update_keyM :: "nat \<Rightarrow> mdb_val \<Rightarrow> unit op" where
  "update_keyM mc key =
     bindM (curM mc) (\<lambda>c.
     bindM (topM mc) (\<lambda>mp.
     case mdb_update_key mp (top_ki c) key of
       None \<Rightarrow> stuck
     | Some (Inr p) \<Rightarrow> set_pageM (top_ref c) p
     | Some (Inl (p, pgno)) \<Rightarrow>
         seqM (set_pageM (top_ref c) p)
         (mdb_page_split mc key None pgno MDB_SPLIT_REPLACE)))"

end
