(* ===== verification/Put.thy ===== *)
theory Put
  imports Split
begin

text \<open>
  Writing an item: \<open>mdb_cursor_touch\<close>, \<open>mdb_cursor_put\<close> and \<open>mdb_put\<close>, for databases without
  sorted duplicates. \<open>MDB_MULTIPLE\<close> is refused there; sub-cursors (\<open>C_SUB\<close>) do not occur.
\<close>

section \<open>Making the path of a cursor writable\<close>

fun touch_path :: "nat \<Rightarrow> nat \<Rightarrow> unit op" where
  "touch_path mc 0 = ret ()"
| "touch_path mc (Suc n) =
     seqM (mdb_page_touch mc)
     (seqM (upd_curM mc (\<lambda>c. c\<lparr>mc_top := mc_top c + 1\<rparr>)) (touch_path mc n))"

text \<open>
  The record of a named database lives in the main database, whose path to it is touched
  first. \<open>mc_top\<close> is set in every case.
\<close>

definition touch_main :: "nat \<Rightarrow> unit op" where
  "touch_main mc =
     bindM (curM mc) (\<lambda>c.
     bindM (getM (\<lambda>s. (mt_dbflags (st_txn s) (mc_dbi c), TXN_DBI_CHANGED s (mc_dbi c),
                       md_name (me_dbxs (st_env s) (mc_dbi c))))) (\<lambda>(dbflag, changed, name).
     if mc_dbi c > MAIN_DBI \<and> \<not> any_set dbflag DB_DIRTY then
       (if changed then err MDB_BAD_DBI
        else
          bindM new_cursor (\<lambda>mc2.
          seqM (mdb_cursor_init mc2 MAIN_DBI)
          (seqM (mdb_page_search mdb_page_touch mc2 name MDB_PS_MODIFY)
          (txnM (\<lambda>t. t\<lparr>mt_dbflags := (mt_dbflags t)(mc_dbi c := mt_dbflags t (mc_dbi c) OR DB_DIRTY)\<rparr>)))))
     else ret ()))"

definition mdb_cursor_touch :: "nat \<Rightarrow> unit op" where
  "mdb_cursor_touch mc =
     seqM (touch_main mc)
     (seqM (upd_curM mc (\<lambda>c. c\<lparr>mc_top := 0\<rparr>))
     (bindM (curM mc) (\<lambda>c.
      if mc_snum c = 0 then ret ()
      else
        tryM (touch_path mc (mc_snum c)) (\<lambda>r.
        seqM (upd_curM mc (\<lambda>c. c\<lparr>mc_top := mc_snum c - 1\<rparr>))
        (case r of Inl e \<Rightarrow> err e | Inr _ \<Rightarrow> ret ())))))"

section \<open>Finding the place\<close>

definition MDB_NOOVERWRITE :: u32 where "MDB_NOOVERWRITE = 0x10"
definition MDB_NODUPDATA :: u32 where "MDB_NODUPDATA = 0x20"
definition MDB_CURRENT :: u32 where "MDB_CURRENT = 0x40"
definition MDB_MULTIPLE :: u32 where "MDB_MULTIPLE = 0x80000"
definition MDB_NOSPILL :: u32 where "MDB_NOSPILL = 0x8000"

definition NODE_ADD_FLAGS :: u32 where
  "NODE_ADD_FLAGS = ucast F_DUPDATA OR ucast F_SUBDATA OR MDB_RESERVE OR MDB_APPEND"

text \<open>
  \<open>Key_exists d\<close> is the early return with \<open>MDB_KEYEXIST\<close> that gives the caller the
  existing data; the others are \<open>rc\<close> as success, \<open>MDB_NOTFOUND\<close> and \<open>MDB_NO_ROOT\<close>.
\<close>

datatype put_at = Key_found | Key_missing | No_root | Key_exists bytes

text \<open>Whether \<open>rc\<close> is success; an error other than \<open>MDB_NOTFOUND\<close> is returned.\<close>

definition found_or_missing :: "(mdb_err + 'a) \<Rightarrow> ('a \<Rightarrow> put_at op) \<Rightarrow> put_at op" where
  "found_or_missing r f =
     (case r of Inr x \<Rightarrow> f x | Inl e \<Rightarrow> if e = MDB_NOTFOUND then ret Key_missing else err e)"

definition put_position :: "nat \<Rightarrow> bytes \<Rightarrow> u32 \<Rightarrow> put_at op" where
  "put_position mc key flags =
     bindM (curM mc) (\<lambda>c.
     bindM (getM (\<lambda>s. cursor_db s mc)) (\<lambda>db.
     if flags = MDB_CURRENT then
       (if \<not> any_set (mc_flags c) C_INITIALIZED then err EINVAL else ret Key_found)
     else if md_root db = P_INVALID then
       seqM (upd_curM mc (\<lambda>c. c\<lparr>mc_snum := 0, mc_top := 0, mc_flags := clear_flag (mc_flags c) C_INITIALIZED\<rparr>))
       (ret No_root)
     else if any_set flags MDB_APPEND then
       tryM (mdb_cursor_last mc True) (\<lambda>r.
       found_or_missing r (\<lambda>(k2, d2).
         bindM (cmpM mc key k2) (\<lambda>rc.
         if rc > 0 then seqM (upd_curM mc (\<lambda>c. set_top_ki (top_ki c + 1) c)) (ret Key_missing)
         else err MDB_KEYEXIST)))
     else
       tryM (mdb_cursor_set mc key True MDB_SET True) (\<lambda>r.
       found_or_missing r (\<lambda>(k, d2).
         ret (if any_set flags MDB_NOOVERWRITE then Key_exists (case d2 of None \<Rightarrow> [] | Some d \<Rightarrow> d) else Key_found)))))"

section \<open>A new root page\<close>

definition put_new_root :: "nat \<Rightarrow> unit op" where
  "put_new_root mc =
     bindM (mdb_page_new mc (ucast P_LEAF) 1) (\<lambda>np.
     seqM (tryM (mdb_cursor_push mc np) (\<lambda>_. ret ()))
     (bindM (pageM np) (\<lambda>p.
      bindM (curM mc) (\<lambda>c.
      seqM (upd_dbM mc (\<lambda>d. d\<lparr>md_root := mp_pgno p, md_depth := md_depth d + 1\<rparr>))
      (seqM (txnM (\<lambda>t. t\<lparr>mt_dbflags := (mt_dbflags t)(mc_dbi c := mt_dbflags t (mc_dbi c) OR DB_DIRTY)\<rparr>))
      (bindM (getM (\<lambda>s. md_flags (cursor_db s mc))) (\<lambda>dbf.
       seqM (whenM (dbf AND (MDB_DUPSORT OR MDB_DUPFIXED) = MDB_DUPFIXED)
               (upd_pageM np (\<lambda>p. p\<lparr>mp_flags := mp_flags p OR P_LEAF2\<rparr>)))
       (upd_curM mc (\<lambda>c. c\<lparr>mc_flags := mc_flags c OR C_INITIALIZED\<rparr>)))))))))"

section \<open>Overwriting\<close>

text \<open>
  What a successful put gives the caller: nothing; with \<open>MDB_RESERVE\<close> the place of the
  reserved space, as a page and an offset; or the existing data, with the return code
  \<open>MDB_KEYEXIST\<close>.
\<close>

datatype put_result = Stored | Reserved page_ref nat | Exists bytes

text \<open>
  The label \<open>fix_parent\<close>: overwriting slot 0 of a leaf changes the separator. Slot 0 of a
  branch page has no key, so the level above that is not in slot 0 is looked for.
\<close>

fun real_slot :: "(nat \<Rightarrow> nat) \<Rightarrow> nat \<Rightarrow> nat" where
  "real_slot ki 0 = 0"
| "real_slot ki (Suc n) = (if ki (Suc n) = 0 then real_slot ki n else Suc n)"

definition fix_parent :: "nat \<Rightarrow> bytes \<Rightarrow> unit op" where
  "fix_parent mc key =
     bindM (curM mc) (\<lambda>c.
     if mc_top c \<noteq> 0 \<and> top_ki c = 0 then
       (let lvl = real_slot (mc_ki c) (mc_top c - 1) in
        seqM (upd_curM mc (\<lambda>c. c\<lparr>mc_top := lvl\<rparr>))
        (tryM (if mc_ki c lvl \<noteq> 0 then update_keyM mc (val_of key) else ret ()) (\<lambda>r.
         seqM (upd_curM mc (\<lambda>d. d\<lparr>mc_top := mc_top c\<rparr>))
         (case r of Inl e \<Rightarrow> err e | Inr _ \<Rightarrow> ret ()))))
     else ret ())"

definition overwrite_leaf2 :: "nat \<Rightarrow> mdb_page \<Rightarrow> bytes \<Rightarrow> unit op" where
  "overwrite_leaf2 mc mp key =
     bindM (curM mc) (\<lambda>c.
     bindM (getM (\<lambda>s. unat (md_pad (cursor_db s mc)))) (\<lambda>ksize.
     if length key \<noteq> ksize then err MDB_BAD_VALSIZE
     else
       seqM (set_pageM (top_ref c) (mp\<lparr>mp_body := wr (mp_body mp) (LEAF2KEY (top_ki c) ksize) key\<rparr>))
       (fix_parent mc key)))"

text \<open>
  Data on overflow pages: if the pages are enough and dirty in this transaction (or spilled
  by it), the data is written there; otherwise they are freed and the result is \<open>None\<close>. The
  level is at most 1 without parent transactions.
\<close>

definition overwrite_big :: "nat \<Rightarrow> mdb_page \<Rightarrow> nat \<Rightarrow> mdb_val \<Rightarrow> u32 \<Rightarrow> put_result option op" where
  "overwrite_big mc mp leaf data flags =
     bindM (curM mc) (\<lambda>c.
     bindM (getM st_env) (\<lambda>env.
     bindM (mdb_page_get (bytes_u64 (rd (mp_body mp) (NODEDATA (mp_body mp) leaf) 8))) (\<lambda>(omp, level).
     bindM (pageM omp) (\<lambda>p.
     let release = seqM (mdb_ovpage_free mc omp) (ret None) in
     if mp_pages p \<ge> OVPAGES (mv_size data) (me_psize env) then
       bindM
         (if \<not> any_set (mp_flags p) P_DIRTY \<and> (level \<noteq> 0 \<or> any_set (me_flags env) MDB_WRITEMAP)
          then bindM (mdb_page_unspill omp) (\<lambda>r. ret (if r = NullPg then omp else r))
          else ret omp) (\<lambda>omp.
       bindM (pageM omp) (\<lambda>p.
       if any_set (mp_flags p) P_DIRTY then
         seqM (upd_pageM (top_ref c) (\<lambda>mp. mp\<lparr>mp_body := SETDSZ (mp_body mp) leaf (word_of_nat (mv_size data))\<rparr>))
         (if F_ISSET flags MDB_RESERVE then ret (Some (Reserved omp PAGEHDRSZ))
          else
            seqM (set_pageM omp (p\<lparr>mp_body := wr (mp_body p) PAGEHDRSZ (take (mv_size data) (mv_data data))\<rparr>))
            (ret (Some Stored)))
       else seqM (mdb_ovpage_free mc omp) (ret None)))
     else release))))"

text \<open>
  The label \<open>current\<close>: data of the same size is replaced in place; otherwise the node is
  deleted, to be added again.
\<close>

definition overwrite_node :: "nat \<Rightarrow> mdb_page \<Rightarrow> mdb_val \<Rightarrow> u32 \<Rightarrow> put_result option op" where
  "overwrite_node mc mp data flags =
     bindM (curM mc) (\<lambda>c.
     let m = mp_body mp; leaf = NODEPTR mp (top_ki c) in
     seqM (plain_db mc)
     (if F_ISSET (mn_flags m leaf) F_BIGDATA then
        bindM (overwrite_big mc mp leaf data flags) (\<lambda>r.
        case r of Some x \<Rightarrow> ret (Some x) | None \<Rightarrow> seqM (node_delM mc 0) (ret None))
      else if mv_size data = unat (NODEDSZ m leaf) then
        (if F_ISSET flags MDB_RESERVE then ret (Some (Reserved (top_ref c) (NODEDATA m leaf)))
         else if any_set (mc_flags c) C_SUB then stuck
         else
           seqM (set_pageM (top_ref c) (mp\<lparr>mp_body := wr m (NODEDATA m leaf) (take (mv_size data) (mv_data data))\<rparr>))
           (ret (Some Stored)))
      else seqM (node_delM mc 0) (ret None)))"

section \<open>Inserting\<close>

text \<open>
  The place of the data \<open>mdb_node_add\<close> left room for: in the node the cursor is on, or on
  its overflow page.
\<close>

definition reserved_at :: "nat \<Rightarrow> put_result op" where
  "reserved_at mc =
     bindM (curM mc) (\<lambda>c.
     bindM (topM mc) (\<lambda>mp.
     let m = mp_body mp; leaf = NODEPTR mp (top_ki c) in
     if F_ISSET (mn_flags m leaf) F_BIGDATA then
       bindM (mdb_page_get (bytes_u64 (rd m (NODEDATA m leaf) 8))) (\<lambda>(omp, lvl). ret (Reserved omp PAGEHDRSZ))
     else ret (Reserved (top_ref c) (NODEDATA m leaf))))"

text \<open>From the label \<open>new_sub\<close> on. An error marks the transaction.\<close>

definition put_insert :: "nat \<Rightarrow> bytes \<Rightarrow> mdb_val \<Rightarrow> u32 \<Rightarrow> bool \<Rightarrow> put_result op" where
  "put_insert mc key data flags insert_key =
     bindM (topM mc) (\<lambda>mp.
     bindM (getM (\<lambda>s. me_nodemax (st_env s))) (\<lambda>nodemax.
     let nflags = flags AND NODE_ADD_FLAGS;
         nsize = (if IS_LEAF2 mp then length key else mdb_leaf_size nodemax (val_of key) data)
     in
     seqM
       (onfail fail_txn
         (if SIZELEFT mp < nsize then
            (let nflags = (if flags AND (ucast F_DUPDATA OR ucast F_SUBDATA) = ucast F_DUPDATA
                           then clear_flag nflags MDB_APPEND else nflags);
                 nflags = (if insert_key then nflags else nflags OR MDB_SPLIT_REPLACE)
             in mdb_page_split mc (val_of key) (Some data) P_INVALID nflags)
          else
            bindM (curM mc) (\<lambda>c.
            seqM (node_addM mc (top_ki c) (Some (val_of key)) (Some data) 0 nflags)
            (whenM insert_key
              (bindM (trackedM mc) (\<lambda>ms.
               adjust_cursors (\<lambda>m. m\<lparr>mc_ki := (mc_ki m)(mc_top c := indx_t (mc_ki m (mc_top c) + 1))\<rparr>)
                 (\<lambda>m. mc_snum m \<ge> mc_snum c \<and> mc_pg m (mc_top c) = top_ref c \<and> mc_ki m (mc_top c) \<ge> top_ki c)
                 mc ms))))))
     (seqM (whenM insert_key
              (seqM (upd_dbM mc (\<lambda>d. d\<lparr>md_entries := md_entries d + 1\<rparr>))
              (upd_curM mc (\<lambda>c. c\<lparr>mc_flags := mc_flags c OR C_INITIALIZED\<rparr>))))
     (if F_ISSET flags MDB_RESERVE \<and> \<not> IS_LEAF2 mp then reserved_at mc else ret Stored))))"

section \<open>Put\<close>

definition MAXDATASIZE :: nat where "MAXDATASIZE = 0xffffffff"
definition MDB_MAXKEYSIZE :: nat where "MDB_MAXKEYSIZE = 511"

definition mdb_cursor_put :: "nat \<Rightarrow> bytes \<Rightarrow> mdb_val \<Rightarrow> u32 \<Rightarrow> put_result op" where
  "mdb_cursor_put mc key data flags0 =
     bindM (getM (\<lambda>s. (mt_flags (st_txn s), md_flags (cursor_db s mc)))) (\<lambda>(mtf, dbf).
     let nospill = any_set flags0 MDB_NOSPILL; flags = clear_flag flags0 MDB_NOSPILL in
     if any_set flags0 MDB_MULTIPLE \<and> \<not> F_ISSET dbf MDB_DUPFIXED then err MDB_INCOMPATIBLE
     else if any_set mtf (MDB_TXN_RDONLY OR MDB_TXN_ERROR)
     then err (if any_set mtf MDB_TXN_RDONLY then EACCES else MDB_BAD_TXN)
     else if length key = 0 \<or> length key > MDB_MAXKEYSIZE then err MDB_BAD_VALSIZE
     else if mv_size data > (if any_set dbf MDB_DUPSORT then MDB_MAXKEYSIZE else MAXDATASIZE)
     then err MDB_BAD_VALSIZE
     else if any_set flags0 MDB_MULTIPLE then stuck
     else
       bindM (put_position mc key flags) (\<lambda>pos.
       case pos of
         Key_exists d \<Rightarrow> ret (Exists d)
       | _ \<Rightarrow>
           seqM (upd_curM mc (\<lambda>c. if any_set (mc_flags c) C_DEL then c\<lparr>mc_flags := mc_flags c XOR C_DEL\<rparr> else c))
           (seqM (if nospill then ret () else mdb_page_spill mc (Some (val_of key)) data)
           (seqM (if pos = No_root then put_new_root mc else mdb_cursor_touch mc)
           (if pos = Key_found then
              bindM (topM mc) (\<lambda>mp.
              if IS_LEAF2 mp then seqM (overwrite_leaf2 mc mp key) (ret Stored)
              else
                bindM (overwrite_node mc mp data flags) (\<lambda>r.
                case r of Some x \<Rightarrow> ret x | None \<Rightarrow> put_insert mc key data flags False))
            else seqM (plain_db mc) (put_insert mc key data flags True))))))"

definition mdb_put :: "nat \<Rightarrow> bytes option \<Rightarrow> mdb_val option \<Rightarrow> u32 \<Rightarrow> put_result op" where
  "mdb_put dbi key data flags =
     bindM (getM st_txn) (\<lambda>txn.
     if key = None \<or> data = None \<or> dbi = FREE_DBI \<or> \<not> TXN_DBI_EXIST txn dbi then err EINVAL
     else if flags AND (MDB_NOOVERWRITE OR MDB_NODUPDATA OR MDB_RESERVE OR MDB_APPEND OR MDB_APPENDDUP) \<noteq> flags
     then err EINVAL
     else
       bindM new_cursor (\<lambda>mc.
       seqM (mdb_cursor_init mc dbi)
       (mdb_cursor_put mc (the key) (the data) flags)))"

end
