(* ===== verification/Rebalance.thy ===== *)
theory Rebalance
  imports Put
begin

text \<open>
  Deleting an item: \<open>mdb_node_move\<close>, \<open>mdb_page_merge\<close> and \<open>mdb_rebalance\<close>, which keep the
  pages of the tree filled, and \<open>mdb_cursor_del\<close> and \<open>mdb_del\<close>. With them the opening and
  closing of cursors.
\<close>

section \<open>Moving a node to a neighbour\<close>

text \<open>The key in a slot of the top page of a cursor; a node's key.\<close>

definition slot_key :: "nat \<Rightarrow> nat \<Rightarrow> bytes op" where
  "slot_key mc i =
     bindM (topM mc) (\<lambda>mp.
     bindM (getM (\<lambda>s. unat (md_pad (cursor_db s mc)))) (\<lambda>pad.
     ret (if IS_LEAF2 mp then leaf2_key mp i pad else NODEKEY (mp_body mp) (NODEPTR mp i))))"

text \<open>The lowest key below the node the cursor is on; the cursor is left on that leaf.\<close>

definition lowest_key :: "nat \<Rightarrow> bytes op" where
  "lowest_key mc = seqM (mdb_page_search_lowest mc) (slot_key mc 0)"

definition cursor_up :: "nat \<Rightarrow> nat \<Rightarrow> unit op" where
  "cursor_up mc snum = upd_curM mc (\<lambda>c. c\<lparr>mc_snum := snum, mc_top := snum - 1\<rparr>)"

text \<open>
  The node at the cursor \<open>csrc\<close>: key, data, page number and flags. The first key of a
  branch page is not stored there; it is the lowest one below.
\<close>

definition moved_node :: "nat \<Rightarrow> (bytes \<times> mdb_val option \<times> u64 \<times> u32) op" where
  "moved_node csrc =
     bindM (topM csrc) (\<lambda>mp.
     bindM (curM csrc) (\<lambda>c.
     if IS_LEAF2 mp then
       bindM (slot_key csrc (top_ki c)) (\<lambda>key. ret (key, Some \<lparr>mv_size = 0, mv_data = []\<rparr>, 0, 0))
     else
       (let node = NODEPTR mp (top_ki c); m = mp_body mp;
            big = F_ISSET (mn_flags m node) F_BIGDATA;
            data = \<lparr>mv_size = unat (NODEDSZ m node),
                    mv_data = rd m (NODEDATA m node) (if big then 8 else unat (NODEDSZ m node))\<rparr>
        in
        seqM (assertM (\<lambda>_. even node))
        (bindM
          (if top_ki c = 0 \<and> IS_BRANCH mp then
             bindM (lowest_key csrc) (\<lambda>key. seqM (cursor_up csrc (mc_snum c)) (ret key))
           else ret (NODEKEY m node)) (\<lambda>key.
         ret (key, Some data, NODEPGNO m node, ucast (mn_flags m node)))))))"

text \<open>
  A node put in front of the first one of a branch page: that one now needs its key. A
  failure of the search leaves the temporary cursor behind.
\<close>

definition name_first :: "nat \<Rightarrow> unit op" where
  "name_first cdst =
     bindM (topM cdst) (\<lambda>mp.
     bindM (curM cdst) (\<lambda>c.
     if IS_BRANCH mp \<and> top_ki c = 0 then
       bindM new_cursor (\<lambda>mn.
       seqM (mdb_cursor_copy cdst mn)
       (bindM (lowest_key mn) (\<lambda>bkey.
        seqM (cursor_up mn (mc_snum c))
        (seqM (upd_curM mn (set_top_ki 0))
        (update_keyM mn (val_of bkey))))))
     else ret ()))"

text \<open>
  The separators of a page whose first node changed: the new first key goes to the parent
  node, and on a branch page it is cleared in the page. \<open>ksize\<close> is the size the \<open>P_LEAF2\<close>
  case keeps from the node moved.
\<close>

definition update_separator :: "nat \<Rightarrow> bool \<Rightarrow> unit op" where
  "update_separator mc leaf2 =
     bindM (curM mc) (\<lambda>c.
     if top_ki c \<noteq> 0 then ret ()
     else
       seqM
         (if mc_ki c (mc_top c - 1) \<noteq> 0 then
            bindM (topM mc) (\<lambda>mp.
            bindM (getM (\<lambda>s. unat (md_pad (cursor_db s mc)))) (\<lambda>pad.
            let key = (if leaf2 then leaf2_key mp 0 pad else NODEKEY (mp_body mp) (NODEPTR mp 0)) in
            bindM new_cursor (\<lambda>mn.
            seqM (mdb_cursor_copy mc mn)
            (seqM (upd_curM mn (\<lambda>n. n\<lparr>mc_snum := mc_snum n - 1, mc_top := mc_top n - 1\<rparr>))
            (update_keyM mn (val_of key))))))
          else ret ())
       (bindM (topM mc) (\<lambda>mp.
        if IS_BRANCH mp then
          bindM (curM mc) (\<lambda>c.
          let ix = top_ki c in
          seqM (upd_curM mc (set_top_ki 0))
          (tryM (update_keyM mc (val_of [])) (\<lambda>r.
           seqM (upd_curM mc (set_top_ki ix))
           (assertM (\<lambda>_. r = Inr ())))))
        else ret ())))"

definition mdb_node_move :: "nat \<Rightarrow> nat \<Rightarrow> unit op" where
  "mdb_node_move csrc cdst =
     seqM (mdb_page_touch csrc)
     (seqM (mdb_page_touch cdst)
     (bindM (moved_node csrc) (\<lambda>(key, data, srcpg, flags).
      seqM (name_first cdst)
      (bindM (curM cdst) (\<lambda>d.
      seqM (node_addM cdst (top_ki d) (Some (val_of key)) data srcpg flags)
      (seqM (node_delM csrc (length key))
      (bindM (curM csrc) (\<lambda>c.
       bindM (curM cdst) (\<lambda>d.
       bindM (trackedM csrc) (\<lambda>ms.
       seqM (assertM (\<lambda>_. \<not> any_set (mc_flags c) C_SUB))
       (seqM
         (adjust_cursors (\<lambda>m. m\<lparr>mc_pg := (mc_pg m)(mc_top c := top_ref d), mc_ki := (mc_ki m)(mc_top c := top_ki d)\<rparr>)
            (\<lambda>m. mc_pg m (mc_top c) = top_ref c \<and> mc_ki m (mc_top c) = top_ki c) csrc ms)
       (bindM (topM csrc) (\<lambda>mp.
        seqM (update_separator csrc (IS_LEAF2 mp))
        (bindM (topM csrc) (\<lambda>mp.
         update_separator cdst (IS_LEAF2 mp))))))))))))))))"

section \<open>Merging two pages\<close>

text \<open>All nodes of the source page, appended to the destination page.\<close>

fun merge_leaf2 :: "nat \<Rightarrow> mdb_page \<Rightarrow> nat \<Rightarrow> nat \<Rightarrow> nat \<Rightarrow> nat \<Rightarrow> unit op" where
  "merge_leaf2 cdst psrc ksize i j 0 = ret ()"
| "merge_leaf2 cdst psrc ksize i j (Suc n) =
     seqM (node_addM cdst j (Some (val_of (leaf2_key psrc i ksize))) None 0 0)
     (merge_leaf2 cdst psrc ksize (i + 1) (j + 1) n)"

fun merge_nodes :: "nat \<Rightarrow> nat \<Rightarrow> page_ref \<Rightarrow> nat \<Rightarrow> nat \<Rightarrow> nat \<Rightarrow> unit op" where
  "merge_nodes csrc cdst psrc i j 0 = ret ()"
| "merge_nodes csrc cdst psrc i j (Suc n) =
     bindM (pageM psrc) (\<lambda>mp.
     let m = mp_body mp; node = NODEPTR mp i; big = F_ISSET (mn_flags m node) F_BIGDATA in
     bindM
       (if i = 0 \<and> IS_BRANCH mp then
          bindM new_cursor (\<lambda>mn. seqM (mdb_cursor_copy csrc mn) (lowest_key mn))
        else ret (NODEKEY m node)) (\<lambda>key.
     seqM (node_addM cdst j (Some (val_of key))
             (Some \<lparr>mv_size = unat (NODEDSZ m node),
                    mv_data = rd m (NODEDATA m node) (if big then 8 else unat (NODEDSZ m node))\<rparr>)
             (NODEPGNO m node) (ucast (mn_flags m node)))
     (merge_nodes csrc cdst psrc (i + 1) (j + 1) n)))"

text \<open>The source page is unlinked from its parent, whose first node never has a key.\<close>

definition unlink_source :: "nat \<Rightarrow> unit op" where
  "unlink_source csrc =
     seqM (upd_curM csrc (\<lambda>c. c\<lparr>mc_top := mc_top c - 1\<rparr>))
     (seqM (node_delM csrc 0)
     (bindM (curM csrc) (\<lambda>c.
      tryM (if top_ki c = 0 then update_keyM csrc (val_of []) else ret ()) (\<lambda>r.
      seqM (upd_curM csrc (\<lambda>c. c\<lparr>mc_top := mc_top c + 1\<rparr>))
      (case r of Inl e \<Rightarrow> err e | Inr _ \<Rightarrow> ret ())))))"

text \<open>
  \<open>mdb_page_merge\<close>. The page \<open>pdst\<close> the other cursors are moved to is the one the
  destination was before it was touched. Rebalancing the parent is the parameter.
\<close>

definition page_merge :: "(nat \<Rightarrow> unit op) \<Rightarrow> nat \<Rightarrow> nat \<Rightarrow> unit op" where
  "page_merge rebalance csrc cdst =
     bindM (curM csrc) (\<lambda>c.
     bindM (curM cdst) (\<lambda>d.
     let psrc = top_ref c; pdst = top_ref d in
     seqM (assertM (\<lambda>_. mc_snum c > 1 \<and> mc_snum d > 1))
     (seqM (mdb_page_touch cdst)
     (bindM (pageM psrc) (\<lambda>ps.
      bindM (pageM pdst) (\<lambda>pd.
      let nkeys = NUMKEYS pd in
      bindM (getM (\<lambda>s. unat (md_pad (cursor_db s csrc)))) (\<lambda>pad.
      seqM (if IS_LEAF2 ps then merge_leaf2 cdst ps pad 0 nkeys (NUMKEYS ps)
            else merge_nodes csrc cdst psrc 0 nkeys (NUMKEYS ps))
      (seqM (unlink_source csrc)
      (bindM (curM csrc) (\<lambda>c.
       let psrc = top_ref c in
       seqM (mdb_page_loose csrc psrc)
       (bindM (pageM psrc) (\<lambda>ps.
        seqM (upd_dbM csrc (\<lambda>db. if IS_LEAF ps then db\<lparr>md_leaf_pages := md_leaf_pages db - 1\<rparr>
                                 else db\<lparr>md_branch_pages := md_branch_pages db - 1\<rparr>))
        (bindM (trackedM csrc) (\<lambda>ms.
         seqM (assertM (\<lambda>_. \<not> any_set (mc_flags c) C_SUB))
         (seqM
           (adjust_cursors (\<lambda>m. m\<lparr>mc_pg := (mc_pg m)(mc_top c := pdst),
                                  mc_ki := (mc_ki m)(mc_top c := indx_t (mc_ki m (mc_top c) + nkeys))\<rparr>)
              (\<lambda>m. mc_snum m \<ge> mc_snum c \<and> mc_pg m (mc_top c) = psrc) csrc ms)
         (bindM (curM cdst) (\<lambda>d.
          bindM (getM (\<lambda>s. md_depth (cursor_db s cdst))) (\<lambda>depth.
          seqM (upd_curM cdst mdb_cursor_pop)
          (tryM (rebalance cdst) (\<lambda>r.
           bindM (getM (\<lambda>s. md_depth (cursor_db s cdst))) (\<lambda>depth'.
           seqM (cursor_up cdst (if depth > depth' then mc_snum d - 1 else mc_snum d))
           (case r of Inl e \<Rightarrow> err e | Inr _ \<Rightarrow> ret ()))))))))))))))))))))))"

section \<open>Rebalancing\<close>

text \<open>The root page: an emptied tree loses it, a branch page with one node makes its child the root.\<close>

definition drop_root :: "nat \<Rightarrow> page_ref \<Rightarrow> mdb_page \<Rightarrow> unit op" where
  "drop_root mc mp p =
     seqM (upd_dbM mc (\<lambda>d. d\<lparr>md_root := P_INVALID, md_depth := 0, md_leaf_pages := 0\<rparr>))
     (bindM (getM (\<lambda>s. mt_free_pgs (st_txn s))) (\<lambda>l.
      bindM (idlM (\<lambda>ok l. mdb_midl_append ok l (mp_pgno p)) l) (\<lambda>l.
      seqM (txnM (\<lambda>t. t\<lparr>mt_free_pgs := l\<rparr>))
      (let reset = (\<lambda>c. c\<lparr>mc_snum := 0, mc_top := 0, mc_flags := clear_flag (mc_flags c) C_INITIALIZED\<rparr>) in
       seqM (upd_curM mc reset)
       (bindM (trackedM mc) (\<lambda>ms.
        adjust_cursors reset (\<lambda>m. mc_pg m 0 = mp) mc ms))))))"

definition collapse_root :: "nat \<Rightarrow> page_ref \<Rightarrow> mdb_page \<Rightarrow> unit op" where
  "collapse_root mc mp p =
     bindM (getM (\<lambda>s. mt_free_pgs (st_txn s))) (\<lambda>l.
     bindM (idlM (\<lambda>ok l. mdb_midl_append ok l (mp_pgno p)) l) (\<lambda>l.
     seqM (txnM (\<lambda>t. t\<lparr>mt_free_pgs := l\<rparr>))
     (let root = NODEPGNO (mp_body p) (NODEPTR p 0) in
      seqM (upd_dbM mc (\<lambda>d. d\<lparr>md_root := root\<rparr>))
      (bindM (mdb_page_get root) (\<lambda>(r, lvl).
       seqM (upd_dbM mc (\<lambda>d. d\<lparr>md_depth := md_depth d - 1, md_branch_pages := md_branch_pages d - 1\<rparr>))
       (bindM (getM (\<lambda>s. unat (md_depth (cursor_db s mc)))) (\<lambda>depth.
        seqM (upd_curM mc (\<lambda>c. c\<lparr>
                mc_pg := (\<lambda>i. if i = 0 then r else if i < depth then mc_pg c (i + 1) else mc_pg c i),
                mc_ki := (\<lambda>i. if i = 0 then mc_ki c 1 else if i < depth then mc_ki c (i + 1) else mc_ki c i)\<rparr>))
        (bindM (curM mc) (\<lambda>c.
         bindM (trackedM mc) (\<lambda>ms.
         adjust_cursors
           (\<lambda>m. m\<lparr>mc_snum := mc_snum m - 1, mc_top := mc_top m - 1,
                  mc_pg := (\<lambda>i. if i < mc_snum m - 1 then mc_pg m (i + 1) else mc_pg m i),
                  mc_ki := (\<lambda>i. if i < mc_snum m - 1 then mc_ki m (i + 1) else mc_ki m i)\<rparr>)
           (\<lambda>m. mc_snum m \<ge> mc_snum c \<and> mc_pg m 0 = mp) mc ms))))))))))"

definition rebalance_root :: "nat \<Rightarrow> unit op" where
  "rebalance_root mc =
     bindM (curM mc) (\<lambda>c.
     let mp = mc_pg c 0 in
     bindM (pageM mp) (\<lambda>p.
     seqM (assertM (\<lambda>_. \<not> any_set (mc_flags c) C_SUB))
     (if IS_SUBP p then ret ()
      else if NUMKEYS p = 0 then drop_root mc mp p
      else if IS_BRANCH p \<and> NUMKEYS p = 1 then collapse_root mc mp p
      else ret ())))"

text \<open>
  The neighbour: to the right of the first child of the parent, to the left of any other.
  The cursor \<open>mn\<close> is put on it.
\<close>

definition find_neighbour :: "nat \<Rightarrow> nat \<Rightarrow> nat \<Rightarrow> unit op" where
  "find_neighbour mc mn ptop =
     bindM (curM mc) (\<lambda>c.
     bindM (pageM (mc_pg c ptop)) (\<lambda>pp.
     let left = mc_ki c ptop \<noteq> 0; pki = (if left then mc_ki c ptop - 1 else mc_ki c ptop + 1) in
     seqM (upd_curM mn (\<lambda>n. n\<lparr>mc_ki := (mc_ki n)(ptop := indx_t pki)\<rparr>))
     (bindM (mdb_page_get (NODEPGNO (mp_body pp) (NODEPTR pp (indx_t pki)))) (\<lambda>(r, lvl).
      seqM (upd_curM mn (\<lambda>n. n\<lparr>mc_pg := (mc_pg n)(mc_top n := r)\<rparr>))
      (if left then
         bindM (pageM r) (\<lambda>q.
         seqM (upd_curM mn (set_top_ki (indx_sub (NUMKEYS q) 1)))
         (upd_curM mc (set_top_ki 0)))
       else
         bindM (topM mc) (\<lambda>mp.
         seqM (upd_curM mn (set_top_ki 0))
         (upd_curM mc (set_top_ki (NUMKEYS mp)))))))))"

text \<open>A full neighbour gives one node; otherwise the two pages are merged into the left one.\<close>

definition use_neighbour :: "(nat \<Rightarrow> unit op) \<Rightarrow> nat \<Rightarrow> nat \<Rightarrow> nat \<Rightarrow> nat \<Rightarrow> unit op" where
  "use_neighbour rebalance mc mn ptop oldki =
     bindM (topM mn) (\<lambda>q.
     bindM (getM (\<lambda>s. me_psize (st_env s))) (\<lambda>psize.
     bindM (curM mc) (\<lambda>c.
     bindM
       (if PAGEFILL psize q \<ge> FILL_THRESHOLD \<and> NUMKEYS q > 1 + (if IS_BRANCH q then 1 else 0) then
          tryM (mdb_node_move mn mc) (\<lambda>r.
          bindM (curM mc) (\<lambda>c.
          ret (r, if mc_ki c ptop \<noteq> 0 then indx_t (oldki + 1) else oldki)))
        else
          bindM
            (if mc_ki c ptop = 0 then tryM (page_merge rebalance mn mc) (\<lambda>r. ret (r, oldki))
             else
               bindM (curM mn) (\<lambda>n.
               seqM (upd_curM mn (set_top_ki (top_ki n + mc_ki c (mc_top n) + 1)))
               (tryM (page_merge rebalance mc mn) (\<lambda>r.
                seqM (mdb_cursor_copy mn mc) (ret (r, indx_t (oldki + NUMKEYS q))))))) (\<lambda>res.
          seqM (upd_curM mc (\<lambda>c. c\<lparr>mc_flags := clear_flag (mc_flags c) C_EOF\<rparr>)) (ret res))) (\<lambda>(r, oldki).
     seqM (upd_curM mc (set_top_ki oldki))
     (case r of Inl e \<Rightarrow> err e | Inr _ \<Rightarrow> ret ())))))"

definition rebalance_step :: "(nat \<Rightarrow> unit op) \<Rightarrow> nat \<Rightarrow> unit op" where
  "rebalance_step rebalance mc =
     bindM (topM mc) (\<lambda>mp.
     bindM (getM (\<lambda>s. me_psize (st_env s))) (\<lambda>psize.
     if PAGEFILL psize mp \<ge> FILL_THRESHOLD \<and> NUMKEYS mp \<ge> 1 + (if IS_BRANCH mp then 1 else 0) then ret ()
     else
       bindM (curM mc) (\<lambda>c.
       if mc_snum c < 2 then rebalance_root mc
       else
         (let ptop = mc_top c - 1; oldki = top_ki c in
          bindM (pageM (mc_pg c ptop)) (\<lambda>pp.
          seqM (assertM (\<lambda>_. NUMKEYS pp > 1))
          (bindM new_cursor (\<lambda>mn.
           seqM (mdb_cursor_copy mc mn)
           (seqM (find_neighbour mc mn ptop)
           (use_neighbour rebalance mc mn ptop oldki)))))))))"

text \<open>
  \<open>mdb_rebalance\<close> and \<open>mdb_page_merge\<close> call each other, one level nearer to the root every
  time: the size of the stack bounds the recursion.
\<close>

primrec rebalance :: "nat \<Rightarrow> nat \<Rightarrow> unit op" where
  "rebalance 0 = rebalance_step (\<lambda>mc. stuck)"
| "rebalance (Suc n) = rebalance_step (rebalance n)"

definition mdb_rebalance :: "nat \<Rightarrow> unit op" where
  "mdb_rebalance = rebalance CURSOR_STACK"

section \<open>Deleting\<close>

text \<open>A move to the right sibling that ends at the end of the database is no error.\<close>

definition sibling_or_eof :: "nat \<Rightarrow> unit op" where
  "sibling_or_eof mc =
     tryM (mdb_cursor_sibling mc True) (\<lambda>r.
     case r of
       Inr _ \<Rightarrow> ret ()
     | Inl e \<Rightarrow> if e = MDB_NOTFOUND then upd_curM mc (\<lambda>c. c\<lparr>mc_flags := mc_flags c OR C_EOF\<rparr>) else err e)"

text \<open>The other cursors on the page, whose node moved down or is gone.\<close>

fun del_adjust :: "nat \<Rightarrow> page_ref \<Rightarrow> nat \<Rightarrow> nat \<Rightarrow> nat list \<Rightarrow> unit op" where
  "del_adjust mc mp ki nkeys [] = ret ()"
| "del_adjust mc mp ki nkeys (m3 # ms) =
     bindM (curM mc) (\<lambda>c.
     bindM (curM m3) (\<lambda>m.
     let lvl = mc_top c in
     seqM
       (if any_set (mc_flags m) C_INITIALIZED \<and> m3 \<noteq> mc \<and> mc_snum m \<ge> mc_snum c \<and> mc_pg m lvl = mp then
          seqM (whenM (mc_ki m lvl \<ge> ki) (upd_curM m3 (\<lambda>m. m\<lparr>mc_flags := mc_flags m OR C_DEL,
                  mc_ki := (if mc_ki m lvl > ki then (mc_ki m)(lvl := mc_ki m lvl - 1) else mc_ki m)\<rparr>)))
          (bindM (curM m3) (\<lambda>m. if mc_ki m lvl \<ge> nkeys then sibling_or_eof m3 else ret ()))
        else ret ())
     (del_adjust mc mp ki nkeys ms)))"

definition mdb_cursor_del0 :: "nat \<Rightarrow> unit op" where
  "mdb_cursor_del0 mc =
     bindM (curM mc) (\<lambda>c.
     let ki = top_ki c in
     bindM (getM (\<lambda>s. unat (md_pad (cursor_db s mc)))) (\<lambda>pad.
     seqM (node_delM mc pad)
     (seqM (upd_dbM mc (\<lambda>d. d\<lparr>md_entries := md_entries d - 1\<rparr>))
     (onfail fail_txn
       (seqM (mdb_rebalance mc)
       (bindM (curM mc) (\<lambda>c.
        bindM (topM mc) (\<lambda>mp.
        let nkeys = NUMKEYS mp in
        tryM (if top_ki c \<ge> nkeys then sibling_or_eof mc else ret ()) (\<lambda>r.
        tryM (case r of Inl e \<Rightarrow> err e
              | Inr _ \<Rightarrow> bindM (trackedM mc) (\<lambda>ms. seqM (plain_db mc) (del_adjust mc (top_ref c) ki nkeys ms))) (\<lambda>r.
        seqM (upd_curM mc (\<lambda>c. c\<lparr>mc_flags := mc_flags c OR C_DEL\<rparr>))
        (case r of Inl e \<Rightarrow> err e | Inr _ \<Rightarrow> ret ())))))))))))"

definition mdb_cursor_del :: "nat \<Rightarrow> u32 \<Rightarrow> unit op" where
  "mdb_cursor_del mc flags =
     bindM (getM (\<lambda>s. mt_flags (st_txn s))) (\<lambda>mtf.
     if any_set mtf (MDB_TXN_RDONLY OR MDB_TXN_ERROR)
     then err (if any_set mtf MDB_TXN_RDONLY then EACCES else MDB_BAD_TXN)
     else
       bindM (curM mc) (\<lambda>c.
       if \<not> any_set (mc_flags c) C_INITIALIZED then err EINVAL
       else
         bindM (topM mc) (\<lambda>mp.
         if top_ki c \<ge> NUMKEYS mp then err MDB_NOTFOUND
         else
           seqM (if any_set flags MDB_NOSPILL then ret () else mdb_page_spill mc None (val_of []))
           (seqM (mdb_cursor_touch mc)
           (bindM (topM mc) (\<lambda>mp.
            bindM (curM mc) (\<lambda>c.
            let m = mp_body mp; leaf = NODEPTR mp (top_ki c) in
            if IS_LEAF2 mp then mdb_cursor_del0 mc
            else if F_ISSET (mn_flags m leaf) F_DUPDATA then stuck
            else
              seqM
                (if F_ISSET (mn_flags m leaf) F_BIGDATA then
                   onfail fail_txn
                     (bindM (mdb_page_get (bytes_u64 (rd m (NODEDATA m leaf) 8))) (\<lambda>(omp, lvl).
                      mdb_ovpage_free mc omp))
                 else ret ())
              (mdb_cursor_del0 mc))))))))"

text \<open>The cursor is tracked while it deletes, so that a split of its pages keeps it right.\<close>

definition mdb_del0 :: "nat \<Rightarrow> bytes \<Rightarrow> u32 \<Rightarrow> unit op" where
  "mdb_del0 dbi key flags =
     bindM new_cursor (\<lambda>mc.
     seqM (mdb_cursor_init mc dbi)
     (bindM (mdb_cursor_set mc key False MDB_SET True) (\<lambda>_.
      seqM (upd_curM mc (\<lambda>c. c\<lparr>mc_flags := mc_flags c OR C_UNTRACK\<rparr>))
      (bindM (getM (\<lambda>s. mt_cursors (st_txn s) dbi)) (\<lambda>ms.
       seqM (txnM (\<lambda>t. t\<lparr>mt_cursors := (mt_cursors t)(dbi := mc # ms)\<rparr>))
       (tryM (mdb_cursor_del mc (flags OR MDB_NODUPDATA)) (\<lambda>r.
        seqM (txnM (\<lambda>t. t\<lparr>mt_cursors := (mt_cursors t)(dbi := ms)\<rparr>))
        (case r of Inl e \<Rightarrow> err e | Inr _ \<Rightarrow> ret ()))))))))"

text \<open>Without sorted duplicates the data the caller gives is ignored.\<close>

definition mdb_del :: "nat \<Rightarrow> bytes option \<Rightarrow> unit op" where
  "mdb_del dbi key =
     bindM (getM st_txn) (\<lambda>txn.
     if key = None \<or> dbi = FREE_DBI \<or> \<not> TXN_DBI_EXIST txn dbi then err EINVAL
     else if any_set (mt_flags txn) (MDB_TXN_RDONLY OR MDB_TXN_ERROR)
     then err (if any_set (mt_flags txn) MDB_TXN_RDONLY then EACCES else MDB_BAD_TXN)
     else
       seqM (assertM (\<lambda>s. \<not> any_set (md_flags (mt_dbs txn dbi)) MDB_DUPSORT))
       (mdb_del0 dbi (the key) 0))"

section \<open>Opening and closing cursors\<close>

text \<open>The array of tracked cursors is absent in a read-only transaction.\<close>

definition mdb_cursor_open :: "nat \<Rightarrow> nat op" where
  "mdb_cursor_open dbi =
     bindM (getM st_txn) (\<lambda>txn.
     let rdonly = F_ISSET (mt_flags txn) MDB_TXN_RDONLY in
     if \<not> TXN_DBI_EXIST txn dbi then err EINVAL
     else if any_set (mt_flags txn) MDB_TXN_ERROR then err MDB_BAD_TXN
     else if dbi = 0 \<and> \<not> rdonly then err EINVAL
     else
       bindM askM (\<lambda>ok.
       if \<not> ok then err ENOMEM
       else
         bindM new_cursor (\<lambda>mc.
         seqM (mdb_cursor_init mc dbi)
         (seqM (whenM (\<not> rdonly)
                  (seqM (txnM (\<lambda>t. t\<lparr>mt_cursors := (mt_cursors t)(dbi := mc # mt_cursors t dbi)\<rparr>))
                  (upd_curM mc (\<lambda>c. c\<lparr>mc_flags := mc_flags c OR C_UNTRACK\<rparr>))))
         (ret mc)))))"

definition mdb_cursor_renew :: "nat \<Rightarrow> unit op" where
  "mdb_cursor_renew mc =
     bindM (getM st_txn) (\<lambda>txn.
     bindM (curM mc) (\<lambda>c.
     if \<not> TXN_DBI_EXIST txn (mc_dbi c) then err EINVAL
     else if any_set (mc_flags c) C_UNTRACK \<or> \<not> F_ISSET (mt_flags txn) MDB_TXN_RDONLY then err EINVAL
     else if any_set (mt_flags txn) MDB_TXN_ERROR then err MDB_BAD_TXN
     else mdb_cursor_init mc (mc_dbi c)))"

text \<open>
  The cursor leaves the list of its database, if it is in it. Nested transactions, which
  shadow cursors (\<open>mc_backup\<close>), do not occur.
\<close>

definition mdb_cursor_close :: "nat \<Rightarrow> unit op" where
  "mdb_cursor_close mc =
     bindM (curM mc) (\<lambda>c.
     bindM (getM st_txn) (\<lambda>txn.
     whenM (any_set (mc_flags c) C_UNTRACK \<and> \<not> F_ISSET (mt_flags txn) MDB_TXN_RDONLY)
       (txnM (\<lambda>t. t\<lparr>mt_cursors := (mt_cursors t)(mc_dbi c := remove1 mc (mt_cursors t (mc_dbi c)))\<rparr>))))"

end
