(* ===== verification/Commit.thy ===== *)
theory Commit
  imports Rebalance Txn
begin

text \<open>
  The end of a write transaction: \<open>mdb_freelist_save\<close>, which stores the numbers of the free
  pages in the free database, and \<open>mdb_txn_commit\<close>. Nothing in the code bounds the loops of
  the former, as saving the list changes it: if they do not end, the result is \<open>None\<close>.
\<close>

section \<open>Saving the free pages\<close>

definition ids_bytes :: "mdb_id list \<Rightarrow> bytes" where
  "ids_bytes ids = concat (map u64_bytes ids)"

text \<open>A store through the pointer that \<open>MDB_RESERVE\<close> gave.\<close>

definition store_reserved :: "put_result \<Rightarrow> bytes \<Rightarrow> unit op" where
  "store_reserved place bs =
     (case place of
        Reserved r off \<Rightarrow> upd_pageM r (\<lambda>p. p\<lparr>mp_body := wr (mp_body p) off bs\<rparr>)
      | _ \<Rightarrow> stuck)"

text \<open>Without room in \<open>me_pghead\<close> the loose pages are freed like others.\<close>

definition free_loose :: "unit op" where
  "free_loose =
     bindM (getM st_env) (\<lambda>env.
     bindM (getM st_txn) (\<lambda>txn.
     if me_pghead env = None \<and> mt_loose_pgs txn \<noteq> [] then
       bindM (idlM (\<lambda>ok l. mdb_midl_need ok l (word_of_int (mt_loose_count txn))) (mt_free_pgs txn)) (\<lambda>l.
       seqM (txnM (\<lambda>t. t\<lparr>mt_free_pgs := l\<rparr>))
       (bindM (\<lambda>s. if \<exists>r \<in> set (mt_loose_pgs txn). page_at s r = None then None
                   else Some (s, Inr (map (\<lambda>r. mp_pgno (the (page_at s r))) (mt_loose_pgs txn)))) (\<lambda>pgs.
        txnM (\<lambda>t. t\<lparr>mt_free_pgs := (mt_free_pgs t)\<lparr>mi_ids := foldl mdb_midl_xappend (mi_ids (mt_free_pgs t)) pgs\<rparr>,
                 mt_loose_pgs := [], mt_loose_count := 0\<rparr>))))
     else ret ()))"

text \<open>The variables of the loop. \<open>fs_more\<close> is \<open>more\<close>.\<close>

record freelist_vars =
  fs_pglast :: u64
  fs_head_id :: u64
  fs_freecnt :: u64
  fs_head_room :: int
  fs_total_room :: int
  fs_more :: int
  fs_mop_len :: int

text \<open>A search for the path to an end of the free database; an empty one is no error.\<close>

definition search_end :: "nat \<Rightarrow> u32 \<Rightarrow> unit op" where
  "search_end mc flag =
     tryM (mdb_page_search mdb_page_touch mc None (flag OR MDB_PS_MODIFY)) (\<lambda>r.
     case r of Inr _ \<Rightarrow> ret () | Inl e \<Rightarrow> if e = MDB_NOTFOUND then ret () else err e)"

text \<open>
  \<open>do { \<dots> } while (freecnt < free_pgs[0])\<close>: the count saved, the place reserved and its size.
\<close>

partial_function (option) save_free ::
  "nat \<Rightarrow> mdb_state \<Rightarrow> (mdb_state \<times> (mdb_err + u64 \<times> put_result \<times> nat)) option" where
  "save_free mc s =
     (let freecnt = mi_ids (mt_free_pgs (st_txn s)) ! 0; size = (unat freecnt + 1) * 8 in
      case mdb_cursor_put mc (u64_bytes (mt_txnid (st_txn s))) \<lparr>mv_size = size, mv_data = []\<rparr> MDB_RESERVE s of
        None \<Rightarrow> None
      | Some (s, Inl e) \<Rightarrow> Some (s, Inl e)
      | Some (s, Inr place) \<Rightarrow>
          if freecnt < mi_ids (mt_free_pgs (st_txn s)) ! 0 then save_free mc s
          else Some (s, Inr (freecnt, place, size)))"

text \<open>
  One round: a record of the free database that was used is deleted; or the pages freed by
  the transaction are saved; or room for \<open>me_pghead\<close> is reserved. \<open>False\<close> ends the loop.
\<close>

definition delete_used :: "nat \<Rightarrow> freelist_vars \<Rightarrow> (bool \<times> freelist_vars) op" where
  "delete_used mc v =
     bindM (mdb_cursor_first mc False) (\<lambda>(key, _).
     let id = bytes_u64 (take 8 key) in
     seqM (assertM (\<lambda>s. id \<le> me_pglast (st_env s)))
     (seqM (mdb_cursor_del mc 0)
     (ret (True, v\<lparr>fs_pglast := id, fs_head_id := id, fs_total_room := 0, fs_head_room := 0\<rparr>))))"

definition save_freed :: "nat \<Rightarrow> freelist_vars \<Rightarrow> (bool \<times> freelist_vars) op" where
  "save_freed mc v =
     seqM (whenM (fs_freecnt v = 0) (search_end mc MDB_PS_LAST))
     (bindM (save_free mc) (\<lambda>(freecnt, place, size).
      bindM (getM (\<lambda>s. mt_free_pgs (st_txn s))) (\<lambda>l.
      case mdb_midl_sort (mi_ids l) of
        None \<Rightarrow> stuck
      | Some ids \<Rightarrow>
          seqM (txnM (\<lambda>t. t\<lparr>mt_free_pgs := l\<lparr>mi_ids := ids\<rparr>\<rparr>))
          (seqM (store_reserved place (take size (ids_bytes ids)))
          (ret (True, v\<lparr>fs_freecnt := freecnt\<rparr>))))))"

definition room_sizes :: "int \<Rightarrow> int \<Rightarrow> freelist_vars \<Rightarrow> freelist_vars" where
  "room_sizes maxfree mop_len v =
     (let v = (if fs_total_room v < mop_len \<and> fs_head_room v \<ge> maxfree \<and> fs_head_id v > 1
               then v\<lparr>fs_head_id := fs_head_id v - 1, fs_head_room := 0\<rparr> else v);
          total = fs_total_room v - fs_head_room v;
          head = mop_len - total;
          head = (if head > maxfree \<and> fs_head_id v > 1 then
                    (let head = head div uint (fs_head_id v)
                     in head + (maxfree - head mod (maxfree + 1)))
                  else if head < 0 then 0 else head)
      in v\<lparr>fs_total_room := total, fs_head_room := head\<rparr>)"

definition reserve_room :: "nat \<Rightarrow> freelist_vars \<Rightarrow> (bool \<times> freelist_vars) op" where
  "reserve_room mc v =
     bindM (getM st_env) (\<lambda>env.
     bindM (getM (\<lambda>s. int (unat (pghead_ids s ! 0)) + mt_loose_count (st_txn s))) (\<lambda>mop_len.
     let maxfree = int (me_maxfree_1pg env); full = fs_total_room v \<ge> mop_len;
         v = (if full \<and> fs_total_room v \<noteq> mop_len then v\<lparr>fs_more := fs_more v - 1\<rparr> else v)
     in
     if full \<and> (fs_total_room v = mop_len \<or> fs_more v < 0) then ret (False, v\<lparr>fs_mop_len := mop_len\<rparr>)
     else
       (let v = room_sizes maxfree mop_len v; head = fs_head_room v;
            clean = (if any_set (me_flags env) (MDB_NOMEMINIT OR MDB_WRITEMAP) then False else head > maxfree);
            zeros = (if clean then nat head + 1 else 1)
        in
        bindM (mdb_cursor_put mc (u64_bytes (fs_head_id v)) \<lparr>mv_size = (nat head + 1) * 8, mv_data = []\<rparr> MDB_RESERVE)
          (\<lambda>place.
        seqM (store_reserved place (replicate (zeros * 8) 0))
        (ret (True, v\<lparr>fs_total_room := fs_total_room v + head\<rparr>))))))"

definition freelist_step :: "nat \<Rightarrow> freelist_vars \<Rightarrow> (bool \<times> freelist_vars) op" where
  "freelist_step mc v =
     bindM (getM (\<lambda>s. (me_pglast (st_env s), mi_ids (mt_free_pgs (st_txn s)) ! 0))) (\<lambda>(pglast, freed).
     if fs_pglast v < pglast then delete_used mc v
     else if fs_freecnt v < freed then save_freed mc v
     else reserve_room mc v)"

partial_function (option) freelist_loop ::
  "nat \<Rightarrow> freelist_vars \<Rightarrow> mdb_state \<Rightarrow> (mdb_state \<times> (mdb_err + freelist_vars)) option" where
  "freelist_loop mc v s =
     (case freelist_step mc v s of
        None \<Rightarrow> None
      | Some (s, Inl e) \<Rightarrow> Some (s, Inl e)
      | Some (s, Inr (goes_on, v)) \<Rightarrow> if goes_on then freelist_loop mc v s else Some (s, Inr v))"

text \<open>
  The loose pages that are left are merged into \<open>me_pghead\<close>, sorted in the room at its end.
  The result is the number of page numbers to store.
\<close>

definition return_loose :: "int \<Rightarrow> int op" where
  "return_loose mop_len =
     bindM (getM st_txn) (\<lambda>txn.
     if mt_loose_pgs txn = [] then ret mop_len
     else
       bindM (getM (\<lambda>s. me_pghead (st_env s))) (\<lambda>head.
       case head of
         None \<Rightarrow> stuck
       | Some l \<Rightarrow>
           bindM (idlM (\<lambda>ok l. mdb_midl_need ok l (2 * word_of_int (mt_loose_count txn) + 1)) l) (\<lambda>l.
           bindM (\<lambda>s. if \<exists>r \<in> set (mt_loose_pgs txn). page_at s r = None then None
                      else Some (s, Inr (map (\<lambda>r. mp_pgno (the (page_at s r))) (mt_loose_pgs txn)))) (\<lambda>pgs.
           let base = mi_alloc l - nat (mt_loose_count txn) in
           case mdb_midl_sort (word_of_nat (length pgs) # pgs) of
             None \<Rightarrow> stuck
           | Some loose \<Rightarrow>
               (let mop = mdb_midl_xmerge (blit (mi_ids l) base loose) loose in
                seqM (envM (\<lambda>e. e\<lparr>me_pghead := Some (l\<lparr>mi_ids := mop\<rparr>)\<rparr>))
                (seqM (txnM (\<lambda>t. t\<lparr>mt_loose_pgs := [], mt_loose_count := 0\<rparr>))
                (ret (int (unat (mop ! 0))))))))))"

text \<open>
  The records reserved for \<open>me_pghead\<close> are filled from its end; the cell before the numbers
  that go into a record is their count while it is written. The result is the number left.
\<close>

definition fill_record :: "nat \<Rightarrow> nat \<Rightarrow> bytes \<times> bytes option \<Rightarrow> nat op" where
  "fill_record mc mop_len item =
     (case item of (key, data) \<Rightarrow>
      bindM (getM (\<lambda>s. (me_pglast (st_env s), pghead_ids s))) (\<lambda>(pglast, mop).
      case data of
        None \<Rightarrow> stuck
      | Some d \<Rightarrow>
          (let id = bytes_u64 (take 8 key); len = length d div 8 - 1; size = length d;
               (len, size) = (if len > mop_len then (mop_len, (mop_len + 1) * 8) else (len, size));
               p = mop_len - len; save = mop ! p;
               set_cell = (\<lambda>x. envM (\<lambda>e. e\<lparr>me_pghead := map_option (\<lambda>l. l\<lparr>mi_ids := (mi_ids l)[p := x]\<rparr>) (me_pghead e)\<rparr>))
           in
           seqM (assertM (\<lambda>_. length d \<ge> 8 \<and> id \<le> pglast))
           (seqM (set_cell (word_of_nat len))
           (tryM (mdb_cursor_put mc (u64_bytes id)
                    \<lparr>mv_size = size, mv_data = ids_bytes (drop p (mop[p := word_of_nat len]))\<rparr> MDB_CURRENT) (\<lambda>r.
            seqM (set_cell save)
            (case r of Inl e \<Rightarrow> err e | Inr _ \<Rightarrow> ret (mop_len - len))))))))"

partial_function (option) fill_loop ::
  "nat \<Rightarrow> nat \<Rightarrow> bytes \<times> bytes option \<Rightarrow> mdb_state \<Rightarrow> (mdb_state \<times> (mdb_err + unit)) option" where
  "fill_loop mc mop_len item s =
     (case fill_record mc mop_len item s of
        None \<Rightarrow> None
      | Some (s, Inl e) \<Rightarrow> Some (s, Inl e)
      | Some (s, Inr n) \<Rightarrow>
          if n = 0 then Some (s, Inr ())
          else
            (case mdb_cursor_next mc True s of
               None \<Rightarrow> None
             | Some (s, Inl e) \<Rightarrow> Some (s, Inl e)
             | Some (s, Inr item) \<Rightarrow> fill_loop mc n item s))"

definition mdb_freelist_save :: "unit op" where
  "mdb_freelist_save =
     bindM new_cursor (\<lambda>mc.
     seqM (mdb_cursor_init mc FREE_DBI)
     (bindM (getM (\<lambda>s. me_pghead (st_env s))) (\<lambda>head.
      seqM (whenM (head \<noteq> None) (search_end mc MDB_PS_FIRST))
      (seqM free_loose
      (bindM (freelist_loop mc \<lparr>fs_pglast = 0, fs_head_id = 0, fs_freecnt = 0, fs_head_room = 0, fs_total_room = 0,
                fs_more = 1, fs_mop_len = 0\<rparr>) (\<lambda>v.
       bindM (return_loose (fs_mop_len v)) (\<lambda>mop_len.
       if mop_len \<noteq> 0 then
         bindM (mdb_cursor_first mc True) (\<lambda>item. fill_loop mc (nat mop_len) item)
       else ret ())))))))"

section \<open>Commit\<close>

text \<open>The records of the named databases that changed are stored in the main database.\<close>

fun update_roots :: "nat \<Rightarrow> nat \<Rightarrow> nat \<Rightarrow> unit op" where
  "update_roots mc i 0 = ret ()"
| "update_roots mc i (Suc n) =
     bindM (getM (\<lambda>s. (mt_dbflags (st_txn s) i, TXN_DBI_CHANGED s i, md_name (me_dbxs (st_env s) i),
                       mt_dbs (st_txn s) i))) (\<lambda>(dbflag, changed, name, db).
     if any_set dbflag DB_DIRTY then
       (if changed then err MDB_BAD_DBI
        else
          bindM (mdb_cursor_put mc (case name of None \<Rightarrow> [] | Some nm \<Rightarrow> nm) (val_of (db_bytes db)) 0) (\<lambda>_.
          update_roots mc (i + 1) n))
     else update_roots mc (i + 1) n)"

text \<open>\<open>mdb_env_write_meta\<close> on the state; its calls are the next two.\<close>

definition write_metaM :: "unit op" where
  "write_metaM =
     bindM next_call (\<lambda>k.
     bindM next_call (\<lambda>k2. \<lambda>s.
       case mdb_env_write_meta (\<lambda>n sync bs off. st_write s (k + n) (length bs)) (\<lambda>off len async. st_sync s k)
              (st_env s) (st_txn s) of
         (env, r) \<Rightarrow> Some (s\<lparr>st_env := env\<rparr>, r)))"

definition commit_write :: "unit op" where
  "commit_write =
     bindM (getM (\<lambda>s. mt_numdbs (st_txn s))) (\<lambda>numdbs.
     seqM
       (if numdbs > 2 then
          bindM new_cursor (\<lambda>mc.
          seqM (mdb_cursor_init mc MAIN_DBI) (update_roots mc 2 (numdbs - 2)))
        else ret ())
     (seqM mdb_freelist_save
     (seqM (envM (\<lambda>e. e\<lparr>me_pghead := None\<rparr>))
     (bindM askM (\<lambda>ok.
      bindM (getM (\<lambda>s. mdb_midl_shrink ok (mt_free_pgs (st_txn s)))) (\<lambda>(shrunk, l).
      seqM (whenM shrunk (seqM (txnM (\<lambda>t. t\<lparr>mt_free_pgs := l\<rparr>)) (envM (\<lambda>e. e\<lparr>me_free_pgs := l\<rparr>))))
      (seqM (mdb_page_flush 0)
      (seqM (mdb_env_sync False)
      (seqM write_metaM
      (bindM (getM (\<lambda>s. me_flags (st_env s))) (\<lambda>flags.
       whenM (\<not> any_set flags MDB_WRITEMAP) mdb_dlist_free)))))))))))"

definition commit_done :: "unit op" where
  "commit_done =
     seqM (envM (\<lambda>e. e\<lparr>me_pglast := 0, me_txn := False\<rparr>))
     (bindM (getM st_txn) (\<lambda>txn.
      seqM (envM (mdb_dbis_update txn True))
      (bindM (getM (\<lambda>s. me_txns (st_env s))) (\<lambda>ti.
       seqM (whenM (ti \<noteq> None) unlock_w) leave_txn0))))"

text \<open>
  \<open>mdb_txn_commit\<close>. A read-only transaction keeps its new handles; a write transaction that
  changed nothing writes nothing; every failure aborts.
\<close>

definition mdb_txn_commit :: "unit op" where
  "mdb_txn_commit =
     bindM (getM st_txn) (\<lambda>txn.
     if F_ISSET (mt_flags txn) MDB_TXN_RDONLY then
       seqM (envM (mdb_dbis_update txn True))
       (seqM (txnM (\<lambda>t. t\<lparr>mt_numdbs := 2\<rparr>)) mdb_txn_abort)
     else
       tryM
         (if F_ISSET (mt_flags txn) MDB_TXN_ERROR then err MDB_BAD_TXN
          else
            bindM (getM (\<lambda>s. me_txn (st_env s))) (\<lambda>current.
            if \<not> current then err EINVAL
            else
              seqM (txnM mdb_cursors_close)
              (if mid (mt_dirty_list txn ! 0) = 0 \<and> \<not> any_set (mt_flags txn) (MDB_TXN_DIRTY OR MDB_TXN_SPILLS)
               then ret () else commit_write)))
         (\<lambda>r. case r of
            Inl e \<Rightarrow> seqM mdb_txn_abort (err e)
          | Inr _ \<Rightarrow> commit_done))"

end
