(* ===== verification/Dbi.thy ===== *)
theory Dbi
  imports Commit
begin

text \<open>
  Database handles and statistics: \<open>mdb_dbi_open\<close>, \<open>mdb_dbi_close\<close>, \<open>mdb_drop\<close>, \<open>mdb_stat\<close>
  and the small accessors; and the settings of an environment: \<open>mdb_env_create\<close>,
  \<open>mdb_env_open2\<close>, \<open>mdb_env_set_mapsize\<close> and others.
\<close>

section \<open>Statistics\<close>

record mdb_stat_rec =
  ms_psize :: nat
  ms_depth :: u16
  ms_branch_pages :: u64
  ms_leaf_pages :: u64
  ms_overflow_pages :: u64
  ms_entries :: u64

definition mdb_stat0 :: "mdb_env \<Rightarrow> mdb_db \<Rightarrow> mdb_stat_rec" where
  "mdb_stat0 env db = \<lparr>ms_psize = me_psize env, ms_depth = md_depth db, ms_branch_pages = md_branch_pages db,
     ms_leaf_pages = md_leaf_pages db, ms_overflow_pages = md_overflow_pages db, ms_entries = md_entries db\<rparr>"

definition mdb_env_stat :: "mdb_env \<Rightarrow> mdb_stat_rec" where
  "mdb_env_stat env = mdb_stat0 env (snd (mm_dbs (me_metas env (mdb_env_pick_meta env))))"

definition mdb_stat :: "nat \<Rightarrow> mdb_stat_rec op" where
  "mdb_stat dbi =
     bindM (getM st_txn) (\<lambda>txn.
     if \<not> TXN_DBI_EXIST txn dbi then err EINVAL
     else if any_set (mt_flags txn) MDB_TXN_ERROR then err MDB_BAD_TXN
     else
       seqM (if any_set (mt_dbflags txn dbi) DB_STALE then bindM new_cursor (\<lambda>mc. mdb_cursor_init mc dbi) else ret ())
       (getM (\<lambda>s. mdb_stat0 (st_env s) (mt_dbs (st_txn s) dbi))))"

record mdb_envinfo =
  ei_mapaddr :: u64
  ei_mapsize :: u64
  ei_last_pgno :: u64
  ei_last_txnid :: u64
  ei_maxreaders :: nat
  ei_numreaders :: nat

definition mdb_env_info :: "mdb_env \<Rightarrow> mdb_envinfo" where
  "mdb_env_info env =
     (let m = me_metas env (mdb_env_pick_meta env) in
      \<lparr>ei_mapaddr = mm_address m, ei_mapsize = me_mapsize env, ei_last_pgno = mm_last_pg m, ei_last_txnid = mm_txnid m,
       ei_maxreaders = me_maxreaders env,
       ei_numreaders = (case me_txns env of Some ti \<Rightarrow> mti_numreaders ti | None \<Rightarrow> me_numreaders env)\<rparr>)"

section \<open>Handles\<close>

definition MDB_CREATE :: u32 where "MDB_CREATE = 0x40000"
definition VALID_FLAGS :: u32 where
  "VALID_FLAGS = ucast (MDB_REVERSEKEY OR MDB_DUPSORT OR MDB_INTEGERKEY OR MDB_DUPFIXED OR MDB_INTEGERDUP OR MDB_REVERSEDUP)
     OR MDB_CREATE"

definition default_cmpM :: "nat \<Rightarrow> unit op" where
  "default_cmpM dbi =
     bindM (getM (\<lambda>s. mdb_default_cmp (md_flags (mt_dbs (st_txn s) dbi)))) (\<lambda>(cmp, dcmp).
     envM (\<lambda>e. e\<lparr>me_dbxs := (me_dbxs e)(dbi := (me_dbxs e dbi)\<lparr>md_cmp := Some cmp, md_dcmp := dcmp\<rparr>)\<rparr>))"

text \<open>
  \<open>for (i=2; i<txn->mt_numdbs; i++)\<close>: the handle that has the name, and the first free
  slot (0 for none).
\<close>

fun find_handle :: "(nat \<Rightarrow> mdb_dbx) \<Rightarrow> bytes \<Rightarrow> nat \<Rightarrow> nat \<Rightarrow> nat \<Rightarrow> nat option \<times> nat" where
  "find_handle dbxs name i 0 unused = (None, unused)"
| "find_handle dbxs name i (Suc n) unused =
     (let nm = (case md_name (dbxs i) of None \<Rightarrow> [] | Some nm \<Rightarrow> nm) in
      if nm = [] then find_handle dbxs name (i + 1) n (if unused = 0 then i else unused)
      else if nm = name then (Some i, unused)
      else find_handle dbxs name (i + 1) n unused)"

text \<open>
  The record of a named database: found in the main database, where it must be a database,
  or created. With it the flags of the handle.
\<close>

definition find_db :: "bytes \<Rightarrow> u32 \<Rightarrow> (bytes \<times> u8) op" where
  "find_db name flags =
     bindM new_cursor (\<lambda>mc.
     seqM (mdb_cursor_init mc MAIN_DBI)
     (tryM (mdb_cursor_set mc name True MDB_SET True) (\<lambda>r.
      case r of
        Inr (k, data) \<Rightarrow>
          bindM (topM mc) (\<lambda>mp.
          bindM (curM mc) (\<lambda>c.
          if \<not> any_set (mn_flags (mp_body mp) (NODEPTR mp (top_ki c))) F_SUBDATA then err MDB_INCOMPATIBLE
          else (case data of None \<Rightarrow> stuck | Some d \<Rightarrow> ret (d, DB_NEW OR DB_VALID))))
      | Inl e \<Rightarrow>
          if e = MDB_NOTFOUND \<and> any_set flags MDB_CREATE then
            (let d = db_bytes \<lparr>md_pad = 0, md_flags = ucast flags AND PERSISTENT_FLAGS, md_depth = 0, md_branch_pages = 0,
                       md_leaf_pages = 0, md_overflow_pages = 0, md_entries = 0, md_root = P_INVALID\<rparr>
             in bindM (mdb_cursor_put mc name (val_of d) (ucast F_SUBDATA)) (\<lambda>_.
                ret (d, DB_NEW OR DB_VALID OR DB_DIRTY)))
          else err e)))"

text \<open>The handle is added to the table. The result of \<open>strdup\<close> is not looked at in the code.\<close>

definition add_handle :: "bytes \<Rightarrow> nat \<Rightarrow> bytes \<times> u8 \<Rightarrow> nat op" where
  "add_handle name unused info =
     (case info of (data, dbflag) \<Rightarrow>
      bindM (getM (\<lambda>s. mt_numdbs (st_txn s))) (\<lambda>numdbs.
      let slot = (if unused \<noteq> 0 then unused else numdbs) in
      bindM askM (\<lambda>ok.
      if \<not> ok then stuck
      else
        seqM (envM (\<lambda>e. e\<lparr>me_dbxs := (me_dbxs e)(slot := (me_dbxs e slot)\<lparr>md_name := Some name\<rparr>),
                         me_dbiseqs := (me_dbiseqs e)(slot := me_dbiseqs e slot + 1)\<rparr>))
        (bindM (getM (\<lambda>s. me_dbiseqs (st_env s) slot)) (\<lambda>seq.
         seqM (txnM (\<lambda>t. t\<lparr>mt_dbflags := (mt_dbflags t)(slot := dbflag), mt_dbiseqs := (mt_dbiseqs t)(slot := seq),
                          mt_dbs := (mt_dbs t)(slot := bytes_db data)\<rparr>))
         (seqM (default_cmpM slot)
         (seqM (whenM (unused = 0) (txnM (\<lambda>t. t\<lparr>mt_numdbs := mt_numdbs t + 1\<rparr>)))
         (ret slot))))))))"

definition open_main :: "u32 \<Rightarrow> nat op" where
  "open_main flags =
     bindM (getM (\<lambda>s. md_flags (mt_dbs (st_txn s) MAIN_DBI))) (\<lambda>old.
     let f2 = ucast flags AND PERSISTENT_FLAGS in
     seqM (whenM (old OR f2 \<noteq> old)
            (txnM (\<lambda>t. t\<lparr>mt_dbs := (mt_dbs t)(MAIN_DBI := (mt_dbs t MAIN_DBI)\<lparr>md_flags := old OR f2\<rparr>),
                       mt_flags := mt_flags t OR MDB_TXN_DIRTY\<rparr>)))
     (seqM (default_cmpM MAIN_DBI) (ret MAIN_DBI)))"

definition mdb_dbi_open :: "bytes option \<Rightarrow> u32 \<Rightarrow> nat op" where
  "mdb_dbi_open name flags =
     bindM (getM (\<lambda>s. md_cmp (me_dbxs (st_env s) FREE_DBI))) (\<lambda>fcmp.
     seqM (whenM (fcmp = None) (default_cmpM FREE_DBI))
     (bindM (getM st_txn) (\<lambda>txn.
      if flags AND VALID_FLAGS \<noteq> flags then err EINVAL
      else if any_set (mt_flags txn) MDB_TXN_ERROR then err MDB_BAD_TXN
      else
        (case name of
           None \<Rightarrow> open_main flags
         | Some nm \<Rightarrow>
             bindM (getM (\<lambda>s. md_cmp (me_dbxs (st_env s) MAIN_DBI))) (\<lambda>mcmp.
             seqM (whenM (mcmp = None) (default_cmpM MAIN_DBI))
             (bindM (getM st_env) (\<lambda>env.
              case find_handle (me_dbxs env) nm 2 (mt_numdbs txn - 2) 0 of
                (Some i, _) \<Rightarrow> ret i
              | (None, unused) \<Rightarrow>
                  if unused = 0 \<and> mt_numdbs txn \<ge> me_maxdbs env then err MDB_DBS_FULL
                  else if any_set (md_flags (mt_dbs txn MAIN_DBI)) (MDB_DUPSORT OR MDB_INTEGERKEY)
                  then err (if any_set flags MDB_CREATE then MDB_INCOMPATIBLE else MDB_NOTFOUND)
                  else bindM (find_db nm flags) (add_handle nm unused))))))))"

definition mdb_dbi_close :: "mdb_env \<Rightarrow> nat \<Rightarrow> mdb_env" where
  "mdb_dbi_close env dbi =
     (if dbi \<le> MAIN_DBI \<or> dbi \<ge> me_maxdbs env then env
      else if md_name (me_dbxs env dbi) \<noteq> None then
        env\<lparr>me_dbxs := (me_dbxs env)(dbi := (me_dbxs env dbi)\<lparr>md_name := None\<rparr>),
            me_dbflags := (me_dbflags env)(dbi := 0),
            me_dbiseqs := (me_dbiseqs env)(dbi := me_dbiseqs env dbi + 1)\<rparr>
      else env)"

definition mdb_dbi_flags :: "mdb_txn \<Rightarrow> nat \<Rightarrow> mdb_err + u16" where
  "mdb_dbi_flags txn dbi =
     (if dbi = FREE_DBI \<or> \<not> TXN_DBI_EXIST txn dbi then Inl EINVAL
      else Inr (md_flags (mt_dbs txn dbi) AND PERSISTENT_FLAGS))"

definition mdb_set_compare :: "nat \<Rightarrow> cmp_func \<Rightarrow> unit op" where
  "mdb_set_compare dbi cmp =
     bindM (getM st_txn) (\<lambda>txn.
     if dbi = FREE_DBI \<or> \<not> TXN_DBI_EXIST txn dbi then err EINVAL
     else envM (\<lambda>e. e\<lparr>me_dbxs := (me_dbxs e)(dbi := (me_dbxs e dbi)\<lparr>md_cmp := Some cmp\<rparr>)\<rparr>))"

definition mdb_set_dupsort :: "nat \<Rightarrow> cmp_func \<Rightarrow> unit op" where
  "mdb_set_dupsort dbi cmp =
     bindM (getM st_txn) (\<lambda>txn.
     if dbi = FREE_DBI \<or> \<not> TXN_DBI_EXIST txn dbi then err EINVAL
     else envM (\<lambda>e. e\<lparr>me_dbxs := (me_dbxs e)(dbi := (me_dbxs e dbi)\<lparr>md_dcmp := Some cmp\<rparr>)\<rparr>))"

section \<open>Dropping a database\<close>

text \<open>The pages a page refers to become free: overflow pages of a leaf, children of a branch page.\<close>

fun free_big :: "mdb_page \<Rightarrow> nat \<Rightarrow> nat \<Rightarrow> unit op" where
  "free_big mp i 0 = ret ()"
| "free_big mp i (Suc n) =
     (let m = mp_body mp; ni = NODEPTR mp i in
      seqM
        (if any_set (mn_flags m ni) F_BIGDATA then
           (let pg = bytes_u64 (rd m (NODEDATA m ni) 8) in
            bindM (mdb_page_get pg) (\<lambda>(omp, lvl).
            bindM (pageM omp) (\<lambda>p.
            seqM (assertM (\<lambda>_. IS_OVERFLOW p))
            (bindM (getM (\<lambda>s. mt_free_pgs (st_txn s))) (\<lambda>l.
             bindM (idlM (\<lambda>ok l. mdb_midl_append_range ok l pg (word_of_nat (mp_pages p))) l) (\<lambda>l.
             txnM (\<lambda>t. t\<lparr>mt_free_pgs := l\<rparr>)))))))
         else ret ())
      (free_big mp (i + 1) n))"

definition free_children :: "mdb_page \<Rightarrow> unit op" where
  "free_children mp =
     (let n = NUMKEYS mp in
      bindM (getM (\<lambda>s. mt_free_pgs (st_txn s))) (\<lambda>l.
      bindM (idlM (\<lambda>ok l. mdb_midl_need ok l (word_of_nat n)) l) (\<lambda>l.
      txnM (\<lambda>t. t\<lparr>mt_free_pgs := l\<lparr>mi_ids :=
        foldl mdb_midl_xappend (mi_ids l) (map (\<lambda>i. NODEPGNO (mp_body mp) (NODEPTR mp i)) [0..<n])\<rparr>\<rparr>))))"

text \<open>
  One round of the walk: the page the cursor is on, then its right sibling; behind the last
  page of a level back to the first page of the level above. \<open>mx\<close> has the path to the
  first leaf. \<open>False\<close> ends the walk.
\<close>

definition drop_step :: "nat \<Rightarrow> nat \<Rightarrow> bool op" where
  "drop_step mc mx =
     bindM (curM mc) (\<lambda>c.
     if mc_snum c = 0 then ret False
     else
       bindM (topM mc) (\<lambda>mp.
       seqM (if IS_LEAF mp then free_big mp 0 (NUMKEYS mp) else free_children mp)
       (if mc_top c = 0 then ret False
        else
          seqM (upd_curM mc (set_top_ki (NUMKEYS mp)))
          (tryM (mdb_cursor_sibling mc True) (\<lambda>r.
           case r of
             Inr _ \<Rightarrow> ret True
           | Inl e \<Rightarrow>
               if e \<noteq> MDB_NOTFOUND then err e
               else
                 seqM (upd_curM mc mdb_cursor_pop)
                 (bindM (curM mx) (\<lambda>x.
                  seqM (upd_curM mc (\<lambda>c. c\<lparr>
                          mc_ki := (\<lambda>i. if i = 0 \<or> i < mc_snum c then 0 else mc_ki c i),
                          mc_pg := (\<lambda>i. if 0 < i \<and> i < mc_snum c then mc_pg x i else mc_pg c i)\<rparr>))
                  (ret True))))))))"

partial_function (option) drop_walk :: "nat \<Rightarrow> nat \<Rightarrow> mdb_state \<Rightarrow> (mdb_state \<times> (mdb_err + unit)) option" where
  "drop_walk mc mx s =
     (case drop_step mc mx s of
        None \<Rightarrow> None
      | Some (s, Inl e) \<Rightarrow> Some (s, Inl e)
      | Some (s, Inr goes_on) \<Rightarrow> if goes_on then drop_walk mc mx s else Some (s, Inr ()))"

text \<open>\<open>subs\<close> is only set for sorted duplicates.\<close>

definition mdb_drop0 :: "nat \<Rightarrow> unit op" where
  "mdb_drop0 mc =
     tryM (search_ro mc None MDB_PS_FIRST) (\<lambda>r.
     case r of
       Inl e \<Rightarrow> if e = MDB_NOTFOUND then ret () else err e
     | Inr _ \<Rightarrow>
         bindM (topM mc) (\<lambda>mp.
         seqM (whenM (IS_LEAF2 mp) (upd_curM mc mdb_cursor_pop))
         (bindM new_cursor (\<lambda>mx.
          seqM (mdb_cursor_copy mc mx)
          (onfail fail_txn
            (seqM (drop_walk mc mx)
            (bindM (getM (\<lambda>s. (mt_free_pgs (st_txn s), md_root (cursor_db s mc)))) (\<lambda>(l, root).
             bindM (idlM (\<lambda>ok l. mdb_midl_append ok l root) l) (\<lambda>l.
             txnM (\<lambda>t. t\<lparr>mt_free_pgs := l\<rparr>))))))))))"

definition drop_record :: "nat \<Rightarrow> bool \<Rightarrow> unit op" where
  "drop_record dbi del =
     (if del \<and> dbi > MAIN_DBI then
        bindM (getM (\<lambda>s. md_name (me_dbxs (st_env s) dbi))) (\<lambda>name.
        onfail fail_txn
          (seqM (mdb_del0 MAIN_DBI (case name of None \<Rightarrow> [] | Some nm \<Rightarrow> nm) 0)
          (seqM (txnM (\<lambda>t. t\<lparr>mt_dbflags := (mt_dbflags t)(dbi := DB_STALE)\<rparr>))
          (envM (\<lambda>e. mdb_dbi_close e dbi)))))
      else
        txnM (\<lambda>t. t\<lparr>mt_dbflags := (mt_dbflags t)(dbi := mt_dbflags t dbi OR DB_DIRTY),
          mt_dbs := (mt_dbs t)(dbi := (mt_dbs t dbi)\<lparr>md_depth := 0, md_branch_pages := 0, md_leaf_pages := 0,
             md_overflow_pages := 0, md_entries := 0, md_root := P_INVALID\<rparr>),
          mt_flags := mt_flags t OR MDB_TXN_DIRTY\<rparr>))"

definition mdb_drop :: "nat \<Rightarrow> bool \<Rightarrow> unit op" where
  "mdb_drop dbi del =
     bindM (getM (\<lambda>s. (st_txn s, TXN_DBI_CHANGED s dbi))) (\<lambda>(txn, changed).
     if dbi = FREE_DBI \<or> \<not> TXN_DBI_EXIST txn dbi then err EINVAL
     else if F_ISSET (mt_flags txn) MDB_TXN_RDONLY then err EACCES
     else if dbi > MAIN_DBI \<and> changed then err MDB_BAD_DBI
     else
       bindM (mdb_cursor_open dbi) (\<lambda>mc.
       tryM (mdb_drop0 mc) (\<lambda>r.
       bindM (trackedM mc) (\<lambda>ms.
       seqM (updM (\<lambda>s. s\<lparr>st_cursors := (\<lambda>i. if i \<in> set ms
               then (st_cursors s i)\<lparr>mc_flags := clear_flag (mc_flags (st_cursors s i)) (C_INITIALIZED OR C_EOF)\<rparr>
               else st_cursors s i)\<rparr>))
       (tryM (case r of Inl e \<Rightarrow> err e | Inr _ \<Rightarrow> drop_record dbi del) (\<lambda>r.
        seqM (mdb_cursor_close mc) (case r of Inl e \<Rightarrow> err e | Inr _ \<Rightarrow> ret ())))))))"

end
