(* ===== verification/Env.thy ===== *)
theory Env
  imports Meta
begin

text \<open>
  Creating an environment and setting it up: \<open>mdb_env_create\<close>, \<open>mdb_env_open2\<close> and the
  settings. What maps the file is outside: \<open>mdb_env_map\<close> is a parameter, with its result.
\<close>

definition MDB_FIXEDMAP :: u32 where "MDB_FIXEDMAP = 0x01"
definition MDB_NOSUBDIR :: u32 where "MDB_NOSUBDIR = 0x4000"
definition MDB_NOLOCK :: u32 where "MDB_NOLOCK = 0x400000"
definition MDB_NORDAHEAD :: u32 where "MDB_NORDAHEAD = 0x800000"

definition CHANGEABLE :: u32 where
  "CHANGEABLE = MDB_NOSYNC OR MDB_NOMETASYNC OR MDB_MAPASYNC OR MDB_NOMEMINIT"
definition CHANGELESS :: u32 where
  "CHANGELESS = MDB_FIXEDMAP OR MDB_NOSUBDIR OR MDB_RDONLY OR MDB_WRITEMAP OR MDB_NOTLS OR MDB_NOLOCK OR MDB_NORDAHEAD"

definition DEFAULT_READERS :: nat where "DEFAULT_READERS = 126"
definition DEFAULT_MAPSIZE :: u64 where "DEFAULT_MAPSIZE = 1048576"
definition MAX_PAGESIZE :: nat where "MAX_PAGESIZE = 0x8000"
definition MDB_MINKEYS :: nat where "MDB_MINKEYS = 2"

text \<open>\<open>calloc\<close> gives a struct of zeros, \<open>zero\<close>; some fields get values.\<close>

definition mdb_env_create :: "bool \<Rightarrow> mdb_env \<Rightarrow> int \<Rightarrow> nat \<Rightarrow> mdb_err + mdb_env" where
  "mdb_env_create ok zero pid pagesize =
     (if \<not> ok then Inl ENOMEM
      else Inr (zero\<lparr>me_maxreaders := DEFAULT_READERS, me_maxdbs := 2, me_numdbs := 2, me_pid := pid,
                     me_os_psize := pagesize\<rparr>))"

text \<open>
  A count of databases is an \<open>unsigned int\<close>. \<open>mapped\<close> is whether the environment is open (\<open>me_map\<close> is not NULL); \<open>env_map\<close> gives the
  error number of mapping so many bytes, or 0.
\<close>

definition mdb_env_set_mapsize :: "bool \<Rightarrow> (u64 \<Rightarrow> int) \<Rightarrow> mdb_env \<Rightarrow> u64 \<Rightarrow> mdb_env \<times> (mdb_err + unit)" where
  "mdb_env_set_mapsize mapped env_map env sz =
     (let m = me_metas env (mdb_env_pick_meta env);
          minsize = (mm_last_pg m + 1) * word_of_nat (me_psize env);
          sz' = (if \<not> mapped then sz
                   else if sz = 0 then mm_mapsize m
                   else if sz < me_mapsize env then (if sz < minsize then minsize else sz)
                   else sz);
          done = (let env = env\<lparr>me_mapsize := sz'\<rparr> in
                  (if me_psize env \<noteq> 0 then env\<lparr>me_maxpg := me_mapsize env div word_of_nat (me_psize env)\<rparr> else env,
                   Inr ()))
      in if mapped then
           (if me_txn env then (env, Inl EINVAL)
            else if env_map sz' \<noteq> 0 then (env\<lparr>me_mapsize := sz'\<rparr>, Inl (Errno (env_map sz')))
            else done)
         else done)"

definition mdb_env_set_maxdbs :: "bool \<Rightarrow> mdb_env \<Rightarrow> u32 \<Rightarrow> mdb_env \<times> (mdb_err + unit)" where
  "mdb_env_set_maxdbs mapped env dbs =
     (if mapped then (env, Inl EINVAL) else (env\<lparr>me_maxdbs := unat (dbs + 2)\<rparr>, Inr ()))"

definition mdb_env_set_maxreaders :: "bool \<Rightarrow> mdb_env \<Rightarrow> nat \<Rightarrow> mdb_env \<times> (mdb_err + unit)" where
  "mdb_env_set_maxreaders mapped env readers =
     (if mapped \<or> readers < 1 then (env, Inl EINVAL) else (env\<lparr>me_maxreaders := readers\<rparr>, Inr ()))"

definition mdb_env_get_maxreaders :: "mdb_env \<Rightarrow> nat" where
  "mdb_env_get_maxreaders env = me_maxreaders env"

definition mdb_env_set_flags :: "bool \<Rightarrow> mdb_env \<Rightarrow> u32 \<Rightarrow> bool \<Rightarrow> mdb_env \<times> (mdb_err + unit)" where
  "mdb_env_set_flags mapped env flag onoff =
     (if any_set flag (if mapped then NOT CHANGEABLE else NOT (CHANGEABLE OR CHANGELESS)) then (env, Inl EINVAL)
      else (env\<lparr>me_flags := (if onoff then me_flags env OR flag else clear_flag (me_flags env) flag)\<rparr>, Inr ()))"

definition mdb_env_get_flags :: "mdb_env \<Rightarrow> u32" where
  "mdb_env_get_flags env = me_flags env"

section \<open>Opening\<close>

text \<open>
  The sizes that follow from the size of a page, in \<open>unsigned int\<close>, so that they wrap around for a
  page size below 24. \<open>me_maxfree_1pg\<close> is an \<open>int\<close>; this is its bits.
\<close>

definition page_sizes :: "mdb_env \<Rightarrow> mdb_env" where
  "page_sizes env =
     (let room = word_of_nat (me_psize env) - word_of_nat PAGEHDRSZ :: u32 in
      env\<lparr>me_maxfree_1pg := unat (ucast (ucast room div 8 - 1 :: u64) :: u32),
          me_nodemax := unat ((room div word_of_nat MDB_MINKEYS AND (- 2)) - 2),
          me_maxpg := me_mapsize env div word_of_nat (me_psize env)\<rparr>)"

definition open_mapsize :: "u64 \<Rightarrow> mdb_meta option \<Rightarrow> u64" where
  "open_mapsize mapsize meta =
     (case meta of
        None \<Rightarrow> if mapsize = 0 then DEFAULT_MAPSIZE else mapsize
      | Some m \<Rightarrow>
          if mapsize = 0 then mm_mapsize m
          else if mapsize < mm_mapsize m then
            (let minsize = (mm_last_pg m + 1) * ucast (mm_psize m) in if mapsize < minsize then minsize else mapsize)
          else mapsize)"

definition blank_meta :: mdb_meta where
  "blank_meta =
     (let db = \<lparr>md_pad = 0, md_flags = 0, md_depth = 0, md_branch_pages = 0, md_leaf_pages = 0, md_overflow_pages = 0,
                md_entries = 0, md_root = 0\<rparr>
      in \<lparr>mm_magic = 0, mm_version = 0, mm_address = 0, mm_mapsize = 0, mm_dbs = (db, db), mm_last_pg = 0, mm_txnid = 0\<rparr>)"

text \<open>The meta pages in the map are those of the file.\<close>

definition map_metas :: "(nat \<Rightarrow> read_result) \<Rightarrow> mdb_env \<Rightarrow> mdb_env" where
  "map_metas pread env =
     env\<lparr>me_metas := (\<lambda>i. case pread (if i = 0 then 0 else me_psize env) of Read_meta fl m \<Rightarrow> m | _ \<Rightarrow> blank_meta)\<rparr>"

text \<open>
  \<open>mem\<close>: there is memory for the pages of a new file; \<open>map_addr\<close>: where the file is mapped. A page
  size of 0 in the header is accepted, and the map size divided by it (\<open>None\<close>).
\<close>

definition mdb_env_open2 ::
  "bool \<Rightarrow> u64 \<Rightarrow> (nat \<Rightarrow> read_result) \<Rightarrow> (u64 \<Rightarrow> int) \<Rightarrow> (nat \<Rightarrow> write_result) \<Rightarrow> mdb_env
   \<Rightarrow> (mdb_env \<times> (mdb_err + unit)) option" where
  "mdb_env_open2 mem map_addr pread env_map pwrite env =
     (let finish = (\<lambda>env. if me_psize env = 0 then None else Some (page_sizes env, Inr ()));
          setup = (\<lambda>meta.
            let env = env\<lparr>me_psize := (case meta of None \<Rightarrow> min (me_os_psize env) MAX_PAGESIZE | Some m \<Rightarrow> unat (mm_psize m)),
                          me_mapsize := open_mapsize (me_mapsize env) meta\<rparr>
            in if env_map (me_mapsize env) \<noteq> 0 then Some (env, Inl (Errno (env_map (me_mapsize env))))
               else
                 (case meta of
                    Some m \<Rightarrow> finish (map_metas pread env)
                  | None \<Rightarrow>
                      (case mdb_env_init_meta mem pwrite env
                              (blank_meta\<lparr>mm_address := (if any_set (me_flags env) MDB_FIXEDMAP then map_addr else 0)\<rparr>) of
                         None \<Rightarrow> None
                       | Some (m, Inl e) \<Rightarrow> Some (env, Inl e)
                       | Some (m, Inr file) \<Rightarrow> finish (map_metas file env))))
      in case mdb_env_read_header pread of
           Inl e \<Rightarrow> if err_code e = err_code ENOENT then setup None else Some (env, Inl e)
         | Inr meta \<Rightarrow> setup meta)"

section \<open>The types of the settings\<close>

datatype env_setting = Set_mapsize u64 | Set_maxdbs u32 | Set_maxreaders nat | Set_flags u32 bool

text \<open>A setting of an environment that is not open yet; a call that fails changes nothing.\<close>

fun configure :: "mdb_env \<Rightarrow> env_setting \<Rightarrow> mdb_env" where
  "configure env (Set_mapsize sz) = fst (mdb_env_set_mapsize False (\<lambda>_. 0) env sz)"
| "configure env (Set_maxdbs dbs) = fst (mdb_env_set_maxdbs False env dbs)"
| "configure env (Set_maxreaders n) = fst (mdb_env_set_maxreaders False env n)"
| "configure env (Set_flags flag onoff) = fst (mdb_env_set_flags False env flag onoff)"

text \<open>
  What every field that is configured may hold. The number of databases does not wrap around
  when the two that are always there are added.
\<close>

definition env_typed :: "mdb_env \<Rightarrow> bool" where
  "env_typed env \<longleftrightarrow> 1 \<le> me_maxreaders env \<and> me_numdbs env = 2 \<and> 2 \<le> me_maxdbs env \<and>
     \<not> any_set (me_flags env) (NOT (CHANGEABLE OR CHANGELESS)) \<and>
     (me_psize env \<noteq> 0 \<longrightarrow> me_maxpg env = me_mapsize env div word_of_nat (me_psize env))"

fun setting_fits :: "env_setting \<Rightarrow> bool" where
  "setting_fits (Set_maxdbs dbs) \<longleftrightarrow> unat dbs + 2 < 2 ^ 32"
| "setting_fits _ \<longleftrightarrow> True"

lemma any_set_or: "\<not> any_set (v OR w) m \<longleftrightarrow> \<not> any_set v m \<and> \<not> any_set w m"
  by (auto simp: any_set_def bit_eq_iff bit_simps)

lemma any_set_and: "\<not> any_set v m \<Longrightarrow> \<not> any_set (v AND w) m"
  by (auto simp: any_set_def bit_eq_iff bit_simps)

lemma configure_typed: "env_typed env \<Longrightarrow> setting_fits st \<Longrightarrow> env_typed (configure env st)"
  by (cases st) (auto simp: env_typed_def mdb_env_set_mapsize_def mdb_env_set_maxdbs_def mdb_env_set_maxreaders_def
      mdb_env_set_flags_def Let_def any_set_or any_set_and clear_flag_def unat_word_ariths)

lemma configured_typed: "env_typed env \<Longrightarrow> \<forall>st \<in> set sts. setting_fits st \<Longrightarrow> env_typed (foldl configure env sts)"
  by (induction sts arbitrary: env) (auto intro: configure_typed)

lemma configure_psize: "me_psize (configure env st) = me_psize env"
  by (cases st) (auto simp: mdb_env_set_mapsize_def mdb_env_set_maxdbs_def mdb_env_set_maxreaders_def
      mdb_env_set_flags_def Let_def)

lemma open_sizes:
  assumes "mdb_env_open2 mem addr pread env_map pwrite env = Some (env', Inr ())"
  shows "\<exists>e. env' = page_sizes e \<and> me_maxreaders e = me_maxreaders env \<and> me_numdbs e = me_numdbs env \<and>
    me_maxdbs e = me_maxdbs env \<and> me_flags e = me_flags env \<and> me_psize e < 2 ^ 32 \<and> 0 < me_psize e"
proof -
  have "min a MAX_PAGESIZE < 4294967296" for a by (simp add: MAX_PAGESIZE_def min_def)
  moreover have "unat v < 4294967296" for v :: u32 using unsigned_less [of v] by simp
  ultimately show ?thesis
    using assms
    by (auto simp: mdb_env_open2_def Let_def map_metas_def split: if_splits sum.splits option.splits prod.splits)
qed

lemma and_not_mask: "w AND NOT (mask n) = push_bit n (drop_bit n w)" for w :: u32
  by (rule bit_word_eqI) (auto simp: bit_simps)

lemma unat_and_minus_2: "unat (w AND (- 2) :: u32) = unat w - unat w mod 2"
proof -
  have "w AND NOT (mask 1) = w - take_bit 1 w"
    unfolding and_not_mask using bits_ident [of 1 w] by (metis add_diff_cancel_right')
  then have "w AND (- 2) = w - take_bit 1 w" by simp
  moreover have "unat (take_bit 1 w) = unat w mod 2"
    by (subst unsigned_take_bit_eq) (simp add: take_bit_eq_mod)
  ultimately show ?thesis by (simp add: unat_sub word_le_nat_alt)
qed

lemma page_sizes_nat:
  assumes "PAGEHDRSZ + 4 * MDB_MINKEYS \<le> me_psize e" "me_psize e < 2 ^ 32"
  shows "me_nodemax (page_sizes e) = (let n = (me_psize e - PAGEHDRSZ) div MDB_MINKEYS in n - n mod 2 - 2)"
    "me_maxfree_1pg (page_sizes e) = (me_psize e - PAGEHDRSZ) div 8 - 1"
proof -
  define room where "room = (word_of_nat (me_psize e) - word_of_nat PAGEHDRSZ :: u32)"
  define n where "n = (me_psize e - PAGEHDRSZ) div MDB_MINKEYS"
  have r: "unat room = me_psize e - PAGEHDRSZ"
    using assms by (simp add: room_def unat_sub word_le_nat_alt unat_of_nat PAGEHDRSZ_def MDB_MINKEYS_def)
  then have d: "unat (room div word_of_nat MDB_MINKEYS) = n"
    by (simp add: n_def unat_div MDB_MINKEYS_def)
  have n: "4 \<le> n" using assms(1) by (auto simp: n_def MDB_MINKEYS_def)
  then have "2 \<le> n - n mod 2" by presburger
  then have "unat ((room div word_of_nat MDB_MINKEYS AND (- 2)) - 2) = n - n mod 2 - 2"
    by (simp add: unat_sub word_le_nat_alt unat_and_minus_2 d)
  then show "me_nodemax (page_sizes e) = (let n = (me_psize e - PAGEHDRSZ) div MDB_MINKEYS in n - n mod 2 - 2)"
    by (simp add: page_sizes_def Let_def room_def n_def)
  have u: "unat (ucast room div 8 :: u64) = (me_psize e - PAGEHDRSZ) div 8"
    using r assms(2) by (simp add: unat_div unsigned_ucast_eq take_bit_nat_eq_self)
  moreover have "1 \<le> (me_psize e - PAGEHDRSZ) div 8" using assms(1) by (simp add: PAGEHDRSZ_def MDB_MINKEYS_def)
  ultimately have "unat (ucast room div 8 - 1 :: u64) = (me_psize e - PAGEHDRSZ) div 8 - 1"
    by (simp add: unat_sub word_le_nat_alt)
  then show "me_maxfree_1pg (page_sizes e) = (me_psize e - PAGEHDRSZ) div 8 - 1"
    using assms(2) by (simp add: page_sizes_def Let_def room_def unat_ucast_32)
qed

lemma page_sizes_fit:
  assumes "PAGEHDRSZ + 4 * MDB_MINKEYS \<le> psize" "psize = me_psize e" "psize < 2 ^ 32"
  shows "even (me_nodemax (page_sizes e)) \<and> MDB_MINKEYS * (me_nodemax (page_sizes e) + 2) \<le> psize - PAGEHDRSZ \<and>
    8 * (me_maxfree_1pg (page_sizes e) + 1) \<le> psize - PAGEHDRSZ"
proof -
  define n where "n = (psize - PAGEHDRSZ) div MDB_MINKEYS"
  have n: "4 \<le> n" "MDB_MINKEYS * n \<le> psize - PAGEHDRSZ"
    using assms(1) by (auto simp: n_def MDB_MINKEYS_def)
  have m: "me_nodemax (page_sizes e) = n - n mod 2 - 2" "me_maxfree_1pg (page_sizes e) = (psize - PAGEHDRSZ) div 8 - 1"
    using page_sizes_nat [of e] assms by (simp_all add: n_def Let_def)
  have "n - n mod 2 - 2 + 2 \<le> n" using n(1) by presburger
  then have "MDB_MINKEYS * (n - n mod 2 - 2 + 2) \<le> psize - PAGEHDRSZ"
    using n(2) by (auto simp: MDB_MINKEYS_def)
  moreover have "even (n - n mod 2 - 2)" using n(1) by presburger
  moreover have "8 * ((psize - PAGEHDRSZ) div 8 - 1 + 1) \<le> psize - PAGEHDRSZ"
    using assms(1) by (simp add: MDB_MINKEYS_def)
  ultimately show ?thesis unfolding m by blast
qed

text \<open>
  C36: The settings of an environment are well typed. From \<open>mdb_env_create\<close> on a zeroed struct,
  through any settings, whether they are accepted or refused, as long as no
  \<open>mdb_env_set_maxdbs\<close> asks for \<open>2 ^ 32 - 2\<close> databases or more (2 are added to an
  \<open>unsigned int\<close>), to a successful \<open>mdb_env_open2\<close>: there is a reader slot, room for the two
  databases that always exist, no flag but those an application may set, and the number of pages
  is the map size in pages. If the page size is at least 24, which \<open>mdb_env_read_header\<close> does
  not check, the sizes that follow from it fit it: a page has room for two nodes of
  \<open>me_nodemax\<close> bytes, an even number, with their pointers, and for a record of
  \<open>me_maxfree_1pg\<close> page numbers.
\<close>

theorem env_open_typed:
  assumes "mdb_env_create ok zero pid pagesize = Inr env1" "me_flags zero = 0" "me_psize zero = 0"
    and "\<forall>st \<in> set sts. setting_fits st"
    and "mdb_env_open2 mem addr pread env_map pwrite (foldl configure env1 sts) = Some (env, Inr ())"
  shows "env_typed env \<and> 0 < me_psize env \<and> (PAGEHDRSZ + 4 * MDB_MINKEYS \<le> me_psize env \<longrightarrow>
    even (me_nodemax env) \<and> MDB_MINKEYS * (me_nodemax env + 2) \<le> me_psize env - PAGEHDRSZ \<and>
    8 * (me_maxfree_1pg env + 1) \<le> me_psize env - PAGEHDRSZ)"
proof -
  have "env_typed env1"
    using assms(1-3) by (auto simp: mdb_env_create_def env_typed_def DEFAULT_READERS_def any_set_def split: if_splits)
  then have conf: "env_typed (foldl configure env1 sts)" using assms(4) by (rule configured_typed)
  obtain e where e: "env = page_sizes e" "me_maxreaders e = me_maxreaders (foldl configure env1 sts)"
    "me_numdbs e = me_numdbs (foldl configure env1 sts)" "me_maxdbs e = me_maxdbs (foldl configure env1 sts)"
    "me_flags e = me_flags (foldl configure env1 sts)" "me_psize e < 2 ^ 32" "0 < me_psize e"
    using open_sizes [OF assms(5)] by blast
  have p: "me_psize env = me_psize e" by (simp add: e(1) page_sizes_def Let_def)
  have "env_typed env" using conf e(2-5) by (simp add: env_typed_def e(1) page_sizes_def Let_def)
  then show ?thesis using page_sizes_fit [of "me_psize env" e] p e(1,6,7) by simp
qed

theorem env_open_typed_witness:
  "\<exists>env. mdb_env_open2 True 0 (\<lambda>_. Read_short 0) (\<lambda>_. 0) Wrote
      (foldl configure (env0\<lparr>me_psize := 0, me_flags := 0, me_maxreaders := 126, me_maxdbs := 2, me_numdbs := 2, me_pid := 42,
         me_os_psize := 4096\<rparr>) [Set_maxdbs 8, Set_flags MDB_NOSYNC True, Set_maxreaders 0])
     = Some (env, Inr ()) \<and> me_maxdbs env = 10 \<and> env_typed env \<and> me_nodemax env = 2038"
proof -
  let ?e = "env0\<lparr>me_psize := 0, me_flags := 0, me_maxreaders := 126, me_maxdbs := 2, me_numdbs := 2, me_pid := 42,
         me_os_psize := 4096\<rparr>"
  have create: "mdb_env_create True (env0\<lparr>me_psize := 0\<rparr>) 42 4096 = Inr ?e"
    by (simp add: mdb_env_create_def DEFAULT_READERS_def env0_def)
  have "\<not> any_set MDB_NOSYNC (NOT (CHANGEABLE OR CHANGELESS))"
    by (simp add: any_set_def CHANGEABLE_def CHANGELESS_def MDB_NOSYNC_def MDB_NOMETASYNC_def MDB_MAPASYNC_def MDB_NOMEMINIT_def
        MDB_FIXEDMAP_def MDB_NOSUBDIR_def MDB_RDONLY_def MDB_WRITEMAP_def MDB_NOTLS_def MDB_NOLOCK_def MDB_NORDAHEAD_def)
  then have conf: "foldl configure ?e [Set_maxdbs 8, Set_flags MDB_NOSYNC True, Set_maxreaders 0]
      = ?e\<lparr>me_maxdbs := 10, me_flags := MDB_NOSYNC\<rparr>"
    by (simp add: mdb_env_set_maxdbs_def mdb_env_set_flags_def mdb_env_set_maxreaders_def)
  have hdr: "read_header_loop (\<lambda>_. Read_short 0) 2 0 None = Inl ENOENT" by (simp add: numeral_2_eq_2)
  obtain env where run: "mdb_env_open2 True 0 (\<lambda>_. Read_short 0) (\<lambda>_. 0) Wrote
      (foldl configure ?e [Set_maxdbs 8, Set_flags MDB_NOSYNC True, Set_maxreaders 0]) = Some (env, Inr ())"
    and v: "me_maxdbs env = 10" "me_psize env = 4096" "me_nodemax env = 2038"
    unfolding conf
    by (auto simp: mdb_env_open2_def mdb_env_read_header_def Let_def mdb_env_init_meta_def page_sizes_def map_metas_def
      hdr MAX_PAGESIZE_def PAGEHDRSZ_def MDB_MINKEYS_def)
  show ?thesis
    using env_open_typed [OF create _ _ _ run] run v env0_flags by auto
qed

text \<open>
  The page size a file names is not looked at: a header with the size 0 is accepted, and
  \<open>mdb_env_open2\<close> then divides the map size by it. A size below 24 makes the limit of a node wrap around.
\<close>

lemma tiny_page_nodemax: "me_psize e = 18 \<Longrightarrow> me_nodemax (page_sizes e) = 2 ^ 32 - 2"
proof -
  assume "me_psize e = 18"
  then have "me_nodemax (page_sizes e) = unat (((18 - 16) div 2 AND (- 2)) - 2 :: u32)"
    by (simp add: page_sizes_def Let_def PAGEHDRSZ_def MDB_MINKEYS_def)
  then show ?thesis by simp
qed

lemma page_size_unchecked:
  defines "file n \<equiv> \<lambda>_. Read_meta P_META (meta0\<lparr>mm_dbs := (db0\<lparr>md_pad := n\<rparr>, db0)\<rparr>)"
  shows "mdb_env_read_header (file n) = Inr (Some (meta0\<lparr>mm_dbs := (db0\<lparr>md_pad := n\<rparr>, db0)\<rparr>))"
    "mdb_env_open2 mem addr (file 0) (\<lambda>_. 0) pwrite env = None"
    "\<exists>env'. mdb_env_open2 mem addr (file 18) (\<lambda>_. 0) pwrite env = Some (env', Inr ()) \<and> me_nodemax env' = 2 ^ 32 - 2"
proof -
  show h: "mdb_env_read_header (file n) = Inr (Some (meta0\<lparr>mm_dbs := (db0\<lparr>md_pad := n\<rparr>, db0)\<rparr>))" for n
    by (simp add: file_def mdb_env_read_header_def numeral_2_eq_2 F_ISSET_def) (simp add: meta0_def)
  show "mdb_env_open2 mem addr (file 0) (\<lambda>_. 0) pwrite env = None"
    "\<exists>env'. mdb_env_open2 mem addr (file 18) (\<lambda>_. 0) pwrite env = Some (env', Inr ()) \<and> me_nodemax env' = 2 ^ 32 - 2"
    by (simp_all add: mdb_env_open2_def h Let_def map_metas_def tiny_page_nodemax del: power_numeral)
qed

end
