(* ===== verification/Split_Facts.thy ===== *)
theory Split_Facts
  imports Split
begin

text \<open>
  What a split does to a page: where \<open>split_point\<close> divides it so that both halves fit an
  empty page, where it does not, and that the two pages then hold the old nodes and the new
  one in their order.
\<close>

section \<open>The split point\<close>

text \<open>The space the nodes take with their slots, the new node among them.\<close>

definition split_sizes :: "mdb_page \<Rightarrow> nat \<Rightarrow> nat \<Rightarrow> nat list" where
  "split_sizes p newindx nsize = insert_at newindx nsize (map (\<lambda>x. EVEN (length x) + 2) (page_nodes p))"

lemma split_ptrs_spec:
  assumes "i + n = nkeys" "j = (if newindx < i then i + 1 else i)"
  shows "split_ptrs src newindx dst i j n x =
    (if x < j \<or> (if newindx < nkeys then nkeys + 1 else nkeys) \<le> x then dst x
     else if x < newindx then src x
     else if x = newindx \<and> newindx < nkeys then 0
     else src (x - 1))"
  using assms
proof (induction n arbitrary: i j dst)
  case 0
  then show ?case by auto
next
  case (Suc n)
  let ?j = "if i = newindx then j + 1 else j"
  let ?d = "(if i = newindx then dst(j := 0) else dst)(?j := src i)"
  have "split_ptrs src newindx dst i j (Suc n) x = split_ptrs src newindx ?d (i + 1) (?j + 1) n x"
    by simp
  also have "\<dots> = (if x < ?j + 1 \<or> (if newindx < nkeys then nkeys + 1 else nkeys) \<le> x then ?d x
     else if x < newindx then src x
     else if x = newindx \<and> newindx < nkeys then 0
     else src (x - 1))"
    using Suc.prems by (intro Suc.IH) auto
  finally show ?case using Suc.prems by (auto simp: not_less le_Suc_eq less_Suc_eq)
qed

lemma split_ptrs_nth:
  assumes "x \<le> nkeys" "x \<noteq> newindx" "newindx \<le> nkeys"
  shows "split_ptrs src newindx dst 0 0 nkeys x = (if x < newindx then src x else src (x - 1))"
  using assms by (auto simp: split_ptrs_spec [where nkeys = nkeys])

lemma EVEN_2: "EVEN (n + 2) = EVEN n + 2"
  by (auto simp: EVEN_def)

lemma split_node_size_eq:
  "EVEN (split_node_size p node) = EVEN (node_len (IS_LEAF p) (mp_body p) node) + 2"
proof -
  have "split_node_size p node = node_len (IS_LEAF p) (mp_body p) node + 2"
    by (simp add: split_node_size_def node_len_def Let_def)
  then show ?thesis by (simp only: EVEN_2)
qed

text \<open>What a round of the scan adds, for the index in the copy.\<close>

lemma split_size_at:
  assumes "i \<le> NUMKEYS p" "newindx \<le> NUMKEYS p" "even psz" "even nsize"
  shows "(if i = newindx then psz + nsize
          else EVEN (psz + split_node_size p (split_ptrs (mp_ptrs p) newindx dst 0 0 (NUMKEYS p) i + PAGEBASE)))
    = psz + split_sizes p newindx nsize ! i"
proof (cases "i = newindx")
  case True
  then show ?thesis using assms by (simp add: split_sizes_def nth_insert_at)
next
  case False
  then show ?thesis
    using assms by (auto simp: split_sizes_def nth_insert_at EVEN_add split_node_size_eq split_ptrs_nth PAGEBASE_def
        nth_page_nodes)
qed

lemma even_split_sizes: "even nsize \<Longrightarrow> x \<in> set (split_sizes p newindx nsize) \<Longrightarrow> even x"
  by (auto simp: split_sizes_def insert_at_def dest!: in_set_takeD in_set_dropD)

lemma even_sum_list: "(\<And>x. x \<in> set xs \<Longrightarrow> even x) \<Longrightarrow> even (sum_list xs :: nat)"
  by (induction xs) auto

text \<open>Forwards the scan stops at the first index where the sum of what it saw is too large, or at the last.\<close>

lemma split_scan_up:
  assumes "\<And>x psz. x < m \<Longrightarrow> even psz \<Longrightarrow>
      (if x = newindx then psz + nsize else EVEN (psz + split_node_size mp (ptrs x + PAGEBASE))) = psz + w ! x"
    and "\<And>x. x < m \<Longrightarrow> even (w ! x)" "m \<le> length w" "i < m" "sum_list (take i w) \<le> pmax"
  shows "\<exists>k. split_scan mp ptrs newindx nsize pmax 1 (int m) (sum_list (take i w)) (int i) (m - i) = Some k \<and>
     i \<le> k \<and> k < m \<and> sum_list (take k w) \<le> pmax \<and> (k = m - 1 \<or> pmax < sum_list (take (Suc k) w))"
  using assms(4,5)
proof (induction "m - i" arbitrary: i)
  case 0
  then show ?case by simp
next
  case (Suc n)
  have e: "even (sum_list (take i w))"
    using assms(2,3) Suc.prems(1) by (intro even_sum_list) (auto simp: in_set_conv_nth)
  have t: "sum_list (take (Suc i) w) = sum_list (take i w) + w ! i"
    using assms(3) Suc.prems(1) by (simp add: take_Suc_conv_app_nth)
  have n: "m - i = Suc (m - Suc i)" using Suc.prems by simp
  show ?case
  proof (cases "pmax < sum_list (take (Suc i) w) \<or> Suc i = m")
    case True
    then show ?thesis
      using Suc.prems assms(1) [OF Suc.prems(1) e] by (auto simp: n t Let_def)
  next
    case False
    then have "Suc i < m" "sum_list (take (Suc i) w) \<le> pmax" using Suc.prems by auto
    then show ?thesis
      using Suc.hyps(1) [of "Suc i"] Suc.hyps(2) False assms(1) [OF Suc.prems(1) e]
      by (auto simp: n t Let_def Suc_le_eq add.commute less_imp_le)
  qed
qed

text \<open>Backwards it adds up the right half.\<close>

lemma split_scan_down:
  assumes "\<And>x psz. x < length w \<Longrightarrow> even psz \<Longrightarrow>
      (if x = newindx then psz + nsize else EVEN (psz + split_node_size mp (ptrs x + PAGEBASE))) = psz + w ! x"
    and "\<And>x. x < length w \<Longrightarrow> even (w ! x)" "lo \<le> i" "i < length w" "sum_list (drop (Suc i) w) \<le> pmax"
  shows "\<exists>k. split_scan mp ptrs newindx nsize pmax (- 1) (int lo - 1) (sum_list (drop (Suc i) w)) (int i) (Suc i - lo)
      = Some (Suc k) \<and>
     lo \<le> k \<and> k \<le> i \<and> sum_list (drop (Suc k) w) \<le> pmax \<and> (k = lo \<or> pmax < sum_list (drop k w))"
  using assms(3-5)
proof (induction "i - lo" arbitrary: i)
  case 0
  have e: "even (sum_list (drop (Suc i) w))"
    using assms(2) by (intro even_sum_list) (auto simp: in_set_conv_nth)
  show ?case using 0 assms(1) [OF 0(3) e] by (auto simp: Let_def)
next
  case (Suc n)
  have e: "even (sum_list (drop (Suc i) w))"
    using assms(2) by (intro even_sum_list) (auto simp: in_set_conv_nth)
  have t: "sum_list (drop i w) = sum_list (drop (Suc i) w) + w ! i"
    using Suc.prems(2) by (simp add: Cons_nth_drop_Suc [symmetric])
  have n: "Suc i - lo = Suc (i - lo)" using Suc.prems by simp
  show ?case
  proof (cases "pmax < sum_list (drop i w)")
    case True
    then show ?thesis
      using Suc.prems assms(1) [OF Suc.prems(2) e] by (auto simp: n t Let_def)
  next
    case False
    then have "lo \<le> i - 1" "i - 1 < length w" "n = i - 1 - lo" "Suc (i - 1) = i" using Suc by auto
    then show ?thesis
      using Suc.hyps(1) [of "i - 1"] Suc.hyps(2) False assms(1) [OF Suc.prems(2) e]
      by (auto simp: n t Let_def of_nat_diff not_less)
  qed
qed

text \<open>A part of the list that has the new node leaves no more than the old page for the rest.\<close>

lemma split_sizes_total:
  assumes "page_ok psize p" "newindx \<le> NUMKEYS p"
  shows "sum_list (split_sizes p newindx nsize) \<le> nsize + (psize - 16)"
proof -
  have page_fill: "(\<Sum>x \<leftarrow> page_nodes p. EVEN (length x)) = psize - mp_upper p"
    using assms(1) unfolding page_ok_def by blast
  have bounds: "16 + 2 * NUMKEYS p \<le> mp_upper p" "mp_upper p \<le> psize"
    using assms(1) unfolding page_ok_def PAGEHDRSZ_def by linarith+
  have "sum_list (split_sizes p newindx nsize) = nsize + (\<Sum>x \<leftarrow> page_nodes p. EVEN (length x) + 2)"
    by (metis mset_insert_at split_sizes_def sum_mset_sum_list sum_mset.add_mset)
  also have "\<dots> = nsize + (psize - mp_upper p) + 2 * NUMKEYS p"
    by (simp only: sum_list_addf sum_list_triv page_fill length_page_nodes) simp
  also have "\<dots> \<le> nsize + (psize - 16)"
    using bounds by linarith
  finally show ?thesis .
qed

lemma sum_take_drop: "sum_list (take k w) + sum_list (drop k w) = (sum_list w :: nat)"
  by (metis append_take_drop_id sum_list_append)

lemma nth_le_sum: "i < length w \<Longrightarrow> w ! i \<le> sum_list (w :: nat list)"
  by (simp add: elem_le_sum_list)

lemma split_sums:
  fixes w :: "nat list"
  assumes "sum_list w \<le> nsize + pmax" "newindx < length w" "w ! newindx = nsize" "nsize \<le> pmax div 2"
    and "k < length w" "w ! k \<le> pmax div 2"
  shows "sum_list (take k w) \<le> pmax \<Longrightarrow> newindx < k \<or> pmax < sum_list (take (Suc k) w) \<Longrightarrow> sum_list (drop k w) \<le> pmax"
    and "sum_list (drop (Suc k) w) \<le> pmax \<Longrightarrow> k < newindx \<or> pmax < sum_list (drop k w)
      \<Longrightarrow> sum_list (take (Suc k) w) \<le> pmax"
proof -
  have t: "sum_list (take (Suc k) w) = sum_list (take k w) + w ! k" "sum_list (drop k w) = w ! k + sum_list (drop (Suc k) w)"
    using assms(5) by (simp_all add: take_Suc_conv_app_nth Cons_nth_drop_Suc [symmetric])
  have l: "newindx < k \<Longrightarrow> nsize \<le> sum_list (take k w)"
    using nth_le_sum [of newindx "take k w"] assms(2,3,5) by simp
  have r: "k < newindx \<Longrightarrow> nsize \<le> sum_list (drop (Suc k) w)"
    using nth_le_sum [of "newindx - Suc k" "drop (Suc k) w"] assms(2,3,5) by simp
  show "sum_list (take k w) \<le> pmax \<Longrightarrow> newindx < k \<or> pmax < sum_list (take (Suc k) w) \<Longrightarrow> sum_list (drop k w) \<le> pmax"
    using sum_take_drop [of k w] assms(1,4,6) l t by linarith
  show "sum_list (drop (Suc k) w) \<le> pmax \<Longrightarrow> k < newindx \<or> pmax < sum_list (drop k w)
      \<Longrightarrow> sum_list (take (Suc k) w) \<le> pmax"
    using sum_take_drop [of "Suc k" w] assms(1,4,6) r t by linarith
qed

lemma split_point_fits_spec:
  fixes dst :: "nat \<Rightarrow> nat"
  assumes "page_ok psize p" "newindx \<le> NUMKEYS p" "2 \<le> NUMKEYS p" "even nsize" "nsize \<le> (psize - 16) div 2"
    and "\<And>x. x \<in> set (page_nodes p) \<Longrightarrow> EVEN (length x) + 2 \<le> (psize - 16) div 2"
    and "NUMKEYS p < 20 \<or> (psize - 16) div 16 < nsize \<or> newindx = NUMKEYS p"
  defines "k \<equiv> split_point psize p (split_ptrs (mp_ptrs p) newindx dst 0 0 (NUMKEYS p)) newindx nsize ((NUMKEYS p + 1) div 2)"
    and "w \<equiv> split_sizes p newindx nsize"
  shows "0 < k \<and> k \<le> NUMKEYS p \<and> sum_list (take k w) \<le> psize - 16 \<and> sum_list (drop k w) \<le> psize - 16"
proof -
  let ?n = "NUMKEYS p" and ?pmax = "psize - PAGEHDRSZ" 
  let ?ptrs = "split_ptrs (mp_ptrs p) newindx dst 0 0 (NUMKEYS p)"
  define s where "s = (?n + 1) div 2"
  have s: "0 < s" "s < ?n" using assms(3) by (auto simp: s_def)
  have len: "length w = ?n + 1" using assms(2) by (simp add: w_def split_sizes_def)
  have new: "w ! newindx = nsize" "newindx < length w"
    using assms(2) by (simp_all add: w_def split_sizes_def nth_insert_at)
  have small: "w ! i \<le> ?pmax div 2" if "i < length w" for i
  proof -
    have "w ! i \<in> set w" using that by simp
    then show ?thesis using assms(5,6)
      by (auto simp: w_def split_sizes_def insert_at_def PAGEHDRSZ_def dest!: in_set_takeD in_set_dropD)
  qed
  have ev: "even (w ! i)" if "i < length w" for i
    using even_split_sizes [OF assms(4), of "w ! i" p newindx] that by (simp add: w_def)
  have step: "(if x = newindx then psz + nsize else EVEN (psz + split_node_size p (?ptrs x + PAGEBASE))) = psz + w ! x"
    if "x < length w" "even psz" for x psz
    using split_size_at [of x p newindx psz nsize dst] that assms(2,4) len by (simp add: w_def)
  have total: "sum_list w \<le> nsize + ?pmax"
    using split_sizes_total [OF assms(1,2)] by (simp add: w_def PAGEHDRSZ_def)
  have half: "nsize \<le> ?pmax div 2" using assms(5) by (simp add: PAGEHDRSZ_def)
  have cond: "?n < 20 \<or> ?pmax div 16 < nsize \<or> ?n \<le> newindx" using assms(7) by (auto simp: PAGEHDRSZ_def)
  note sums = split_sums [OF total new(2,1) half]
  show ?thesis
  proof (cases "newindx \<le> s \<or> newindx = ?n")
    case True
    define m where "m = (if newindx = ?n then ?n else s + 2)"
    have m: "m \<le> length w" "1 < m" using assms(3) len s by (auto simp: m_def)
    obtain k' where k': "split_scan p ?ptrs newindx nsize ?pmax 1 (int m) 0 0 m = Some k'" "k' < m"
      "sum_list (take k' w) \<le> ?pmax" "k' = m - 1 \<or> ?pmax < sum_list (take (Suc k') w)"
      using split_scan_up [of m newindx nsize p ?ptrs w 0 ?pmax] step ev m by auto
    have "k = k'"
      using cond True k'(1) assms(2) unfolding k_def split_point_def Let_def m_def s_def [symmetric]
      by (cases "newindx = ?n") (auto simp: nat_add_distrib add.commute simp del: split_scan.simps)
    moreover have "0 < k'"
      using k'(4) m small [of 0] len by (cases k') (auto simp: take_Suc_conv_app_nth)
    moreover have "sum_list (drop k' w) \<le> ?pmax"
    proof (cases "?pmax < sum_list (take (Suc k') w) \<or> newindx < k'")
      case True
      then show ?thesis using sums(1) [of k'] small k' m by auto
    next
      case False
      then have "k' = ?n - 1" "newindx = ?n" using k'(4) True assms(2) by (auto simp: m_def split: if_splits)
      then have "drop k' w = [w ! k', w ! ?n]"
        using len assms(3) by (simp add: Cons_nth_drop_Suc [symmetric])
      then show ?thesis using small [of k'] small [of ?n] len \<open>k' = ?n - 1\<close> k'(2) m by auto
    qed
    ultimately show ?thesis using k'(2,3) m len by (auto simp: PAGEHDRSZ_def)
  next
    case False
    then have lo: "s < newindx" "newindx < ?n" "s \<le> ?n" using assms(2) s by auto
    obtain k' where k': "split_scan p ?ptrs newindx nsize ?pmax (- 1) (int s - 1) 0 (int ?n) (Suc ?n - s) = Some (Suc k')"
      "s \<le> k'" "k' \<le> ?n" "sum_list (drop (Suc k') w) \<le> ?pmax" "k' = s \<or> ?pmax < sum_list (drop k' w)"
      using split_scan_down [of w newindx nsize p ?ptrs s ?n ?pmax] step ev len lo by auto
    have "nat \<bar>int s - 1 - int ?n\<bar> = Suc ?n - s" using lo by linarith
    then have "k = Suc k'"
      using cond False k'(1) lo unfolding k_def split_point_def Let_def s_def [symmetric]
      by (auto simp del: split_scan.simps)
    moreover have "k' \<noteq> ?n"
    proof
      assume n: "k' = ?n"
      have "drop ?n w = [w ! ?n]" using len by (simp add: Cons_nth_drop_Suc [symmetric])
      then show False using k'(5) n lo small [of ?n] len by auto
    qed
    moreover have "sum_list (take (Suc k') w) \<le> ?pmax"
      using sums(2) [of k'] small [of k'] k' len lo by auto
    ultimately show ?thesis using k' by (auto simp: PAGEHDRSZ_def)
  qed
qed

text \<open>
  C33: Where \<open>mdb_page_split\<close> looks for the split point (fewer than 20 nodes, a new node of
  more than a sixteenth of a page, or one at the end), the point it finds is right: each
  half has a node, and the nodes of either half, the new one counted, fit an empty page
  with their slots. What it needs is what \<open>me_nodemax\<close> grants: no node takes more than half
  of the space of a page.
\<close>

theorem split_point_fits:
  assumes "page_ok psize p" "newindx \<le> NUMKEYS p" "2 \<le> NUMKEYS p" "even nsize" "nsize \<le> (psize - 16) div 2"
    and "\<And>x. x \<in> set (page_nodes p) \<Longrightarrow> EVEN (length x) + 2 \<le> (psize - 16) div 2"
    and "NUMKEYS p < 20 \<or> (psize - 16) div 16 < nsize \<or> newindx = NUMKEYS p"
    and "k = split_point psize p (split_ptrs (mp_ptrs p) newindx dst 0 0 (NUMKEYS p)) newindx nsize ((NUMKEYS p + 1) div 2)"
  shows "0 < k \<and> k \<le> NUMKEYS p \<and> sum_list (take k (split_sizes p newindx nsize)) \<le> psize - 16 \<and>
    sum_list (drop k (split_sizes p newindx nsize)) \<le> psize - 16"
  using split_point_fits_spec [OF assms(1-7), of dst] assms(8) by auto

text \<open>
  Otherwise the middle is taken unseen. A full page of 4096 bytes with ten small and ten
  large nodes, whose new node of 254 bytes goes among the large ones.
\<close>

definition uneven_page :: mdb_page where
  "uneven_page = \<lparr>mp_pgno = 7, mp_pad = 0, mp_flags = P_LEAF, mp_lower = 56, mp_upper = 56,
     mp_ptrs = (\<lambda>i. if i < 10 then 3996 + 10 * i else 56 + 394 * (i - 10)),
     mp_body = (\<lambda>x.
       if x < 3996 then
         (let i = (x - 56) div 394; r = (x - 56) mod 394
          in if r = 0 then 128 else if r = 1 then 1 else if r = 6 then 2 else if r = 8 then 1
             else if r = 9 then word_of_nat i else 0)
       else
         (let i = (x - 3996) div 10; r = (x - 3996) mod 10
          in if r = 6 then 2 else if r = 9 then word_of_nat i else 0))\<rparr>"

lemma uneven_page_fields: "NUMKEYS uneven_page = 20" "IS_LEAF uneven_page" "\<not> IS_LEAF2 uneven_page"
  "mp_lower uneven_page = 56" "mp_upper uneven_page = 56" "SIZELEFT uneven_page = 0"
  by (simp_all add: uneven_page_def NUMKEYS_def PAGEHDRSZ_def PAGEBASE_def IS_LEAF_def IS_LEAF2_def P_LEAF_def
      P_LEAF2_def F_ISSET_def SIZELEFT_def indx_sub_def)

lemma uneven_ptrs: "mp_ptrs uneven_page i = (if i < 10 then 3996 + 10 * i else 56 + 394 * (i - 10))"
  by (simp add: uneven_page_def)

lemma uneven_small:
  "i < 10 \<Longrightarrow> c < 10 \<Longrightarrow> mp_body uneven_page (3996 + 10 * i + c) = (if c = 6 then 2 else if c = 9 then word_of_nat i else 0)"
  by (simp add: uneven_page_def Let_def)

lemma uneven_large:
  "j < 10 \<Longrightarrow> c < 394 \<Longrightarrow> mp_body uneven_page (56 + 394 * j + c) =
    (if c = 0 then 128 else if c = 1 then 1 else if c = 6 then 2 else if c = 8 then 1 else if c = 9 then word_of_nat j else 0)"
  by (simp add: uneven_page_def Let_def)

lemma uneven_node_len:
  assumes "i < 20"
  shows "node_len True (mp_body uneven_page) (mp_ptrs uneven_page i) = (if i < 10 then 10 else 394)"
proof -
  define a where "a = mp_ptrs uneven_page i"
  define m where "m = mp_body uneven_page"
  have s: "m (a + c) = (if i < 10 then (if c = 6 then 2 else if c = 9 then word_of_nat i else 0)
      else (if c = 0 then 128 else if c = 1 then 1 else if c = 6 then 2 else if c = 8 then 1
            else if c = 9 then word_of_nat (i - 10) else 0))" if "c < 10" for c
    using uneven_small [of i c] uneven_large [of "i - 10" c] that assms by (simp add: a_def m_def uneven_ptrs)
  have b: "m a = (if i < 10 then 0 else 128)" "m (a + 1) = (if i < 10 then 0 else 1)" "m (a + 2) = 0" "m (a + 3) = 0"
    "m (a + 4) = 0" "m (a + 5) = 0" "m (a + 6) = 2" "m (a + 7) = 0"
    using s [of 0] s [of 1] s [of 2] s [of 3] s [of 4] s [of 5] s [of 6] s [of 7] by simp_all
  then have "m (Suc (Suc (Suc a))) = 0" "m (5 + a) = 0" "m (7 + a) = 0"
    by (simp_all add: add.commute numeral_3_eq_3)
  with b show ?thesis
    unfolding a_def [symmetric] m_def [symmetric]
    by (simp add: node_len_def mn_flags_def mn_ksize_def mn_lo_def mn_hi_def NODEKSZ_def NODEDSZ_def
        rd16_def NODESIZE_def F_ISSET_def F_BIGDATA_def Let_def add.assoc)
qed

lemma uneven_page_nodes:
  "map length (page_nodes uneven_page) = replicate 10 10 @ replicate 10 394"
  by (rule nth_equalityI)
    (auto simp: uneven_page_fields nth_page_nodes uneven_node_len nth_append nth_Cons')

lemma uneven_page_ok: "page_ok 4096 uneven_page"
proof -
  have sz: "node_sz uneven_page i = (if i < 10 then 10 else 394)" if "i < 20" for i
    using that by (simp add: node_sz_def uneven_page_fields uneven_node_len EVEN_def)
  have "(\<Sum>x \<leftarrow> page_nodes uneven_page. EVEN (length x)) = sum_list (map EVEN (map length (page_nodes uneven_page)))"
    by (simp add: comp_def)
  also have "\<dots> = 4040" by (simp add: uneven_page_nodes EVEN_def sum_list_replicate)
  finally have "(\<Sum>x \<leftarrow> page_nodes uneven_page. EVEN (length x)) = 4040" .
  moreover have "even (mp_ptrs uneven_page i) \<and> 56 \<le> mp_ptrs uneven_page i \<and>
      mp_ptrs uneven_page i + node_sz uneven_page i \<le> 4096" if "i < 20" for i
    using that by (auto simp: sz uneven_ptrs)
  moreover have "mp_ptrs uneven_page i + node_sz uneven_page i \<le> mp_ptrs uneven_page j \<or>
      mp_ptrs uneven_page j + node_sz uneven_page j \<le> mp_ptrs uneven_page i" if "i < 20" "j < 20" "i \<noteq> j" for i j
    using that by (auto simp: sz uneven_ptrs)
  ultimately show ?thesis
    by (simp add: page_ok_def uneven_page_fields PAGEHDRSZ_def)
qed

text \<open>
  C34: Where the code takes the middle without looking, the split can fail. The page
  \<open>uneven_page\<close> is well formed and full and has 20 nodes; the new node, at index 15, takes
  254 bytes, less than a sixteenth of a page, and no node takes more than half of one. The
  split point is 10, but the nodes from there on, 4214 bytes, do not fit the 4080 bytes of
  an empty page, so \<open>mdb_node_add\<close> fails with \<open>MDB_PAGE_FULL\<close> in the middle of the split;
  a split at 13 would fit.
\<close>

theorem split_point_overflow:
  "let k = split_point 4096 uneven_page (split_ptrs (mp_ptrs uneven_page) 15 (mp_ptrs uneven_page) 0 0 20) 15 254 10;
       w = split_sizes uneven_page 15 254
   in page_ok 4096 uneven_page \<and> NUMKEYS uneven_page = 20 \<and> SIZELEFT uneven_page < 254 \<and>
    list_all (\<lambda>x. x \<le> 2040) w \<and> k = 10 \<and> sum_list (drop k w) = 4214 \<and>
    sum_list (take 13 w) \<le> 4080 \<and> sum_list (drop 13 w) \<le> 4080"
proof -
  define k where "k = split_point 4096 uneven_page (split_ptrs (mp_ptrs uneven_page) 15 (mp_ptrs uneven_page) 0 0 20) 15 254 10"
  define w where "w = split_sizes uneven_page 15 254"
  have w: "w = insert_at 15 254 (replicate 10 12 @ replicate 10 396)"
  proof -
    have "map (\<lambda>x. EVEN (length x) + 2) (page_nodes uneven_page) = map (\<lambda>n. EVEN n + 2) (map length (page_nodes uneven_page))"
      by (simp add: comp_def)
    then show ?thesis by (simp add: w_def split_sizes_def uneven_page_nodes EVEN_def)
  qed
  have k: "k = 10" by (simp add: k_def split_point_def uneven_page_fields PAGEHDRSZ_def Let_def)
  have "list_all (\<lambda>x. x \<le> 2040) w \<and> k = 10 \<and> sum_list (drop k w) = 4214"
    by (simp add: k w insert_at_def sum_list_replicate list_all_iff)
  moreover have "sum_list (take 13 w) \<le> 4080 \<and> sum_list (drop 13 w) \<le> 4080"
    by (simp add: w insert_at_def sum_list_replicate)
  moreover have "NUMKEYS uneven_page = 20 \<and> SIZELEFT uneven_page < 254" by (simp add: uneven_page_fields)
  ultimately show ?thesis using uneven_page_ok unfolding Let_def k_def [symmetric] w_def [symmetric] by blast
qed

text \<open>The page with a node of 254 bytes at its end.\<close>

theorem split_point_fits_witness:
  "\<exists>k. split_point 4096 uneven_page (split_ptrs (mp_ptrs uneven_page) 20 (mp_ptrs uneven_page) 0 0 20) 20 254 10 = k \<and>
     0 < k \<and> k \<le> 20 \<and> sum_list (drop k (split_sizes uneven_page 20 254)) \<le> 4080"
proof -
  have small: "EVEN (length x) + 2 \<le> (4096 - 16) div 2" if "x \<in> set (page_nodes uneven_page)" for x
  proof -
    have "length x \<in> set (map length (page_nodes uneven_page))" using that by simp
    then show ?thesis by (auto simp: uneven_page_nodes EVEN_def)
  qed
  show ?thesis
    using split_point_fits [OF uneven_page_ok, of 20 254 _ "mp_ptrs uneven_page"] small
    by (simp add: uneven_page_fields)
qed

end
