(* ===== verification/Split_Moves.thy ===== *)
theory Split_Moves
  imports Split_Facts Tree
begin

text \<open>
  The pages after a split: \<open>move_nodes\<close> and \<open>split_reset\<close> leave the first nodes, in order, on
  the page and the rest on its right sibling, and the cursor on the new node.
\<close>

section \<open>A node added again\<close>

lemma dsize_split:
  "(ucast ((ucast (ucast lo OR push_bit 16 (ucast hi) :: u32) :: u64) AND 0xffff) :: u16) = lo"
  "(ucast (drop_bit 16 (ucast (ucast lo OR push_bit 16 (ucast hi) :: u32) :: u64)) :: u16) = hi"
proof -
  have mask: "(0xffff :: u64) = mask 16" by (simp add: mask_eq_exp_minus_1)
  show "(ucast ((ucast (ucast lo OR push_bit 16 (ucast hi) :: u32) :: u64) AND 0xffff) :: u16) = lo"
    unfolding mask by (rule bit_word_eqI) (auto simp: bit_simps dest: bit_imp_le_length)
  show "(ucast (drop_bit 16 (ucast (ucast lo OR push_bit 16 (ucast hi) :: u32) :: u64)) :: u16) = hi"
    by (rule bit_word_eqI) (auto simp: bit_simps dest: bit_imp_le_length)
qed

lemma rd_2: "rd m a 2 = bytes16 (rd16 m a)"
  unfolding rd16_def bytes16_def rd_def
  by (simp add: upt_rec) (intro conjI bit_word_eqI, auto simp: bit_simps dest: bit_imp_le_length)

text \<open>The bytes of a leaf node, from its parts.\<close>

lemma node_image_leaf:
  "node_image True m a = leaf_node (mn_flags m a) (unat (NODEDSZ m a)) (NODEKEY m a)
     (rd m (NODEDATA m a) (if bit (mn_flags m a) 0 then 8 else unat (NODEDSZ m a)))"
proof -
  let ?d = "if bit (mn_flags m a) 0 then 8 else unat (NODEDSZ m a)"
  have "node_len True m a = 2 + (2 + (2 + (2 + (NODEKSZ m a + ?d))))"
    by (simp add: node_len_def NODESIZE_def)
  then have "node_image True m a = rd m a 2 @ rd m (a + 2) 2 @ rd m (a + 4) 2 @ rd m (a + 6) 2 @
      rd m (a + 8) (NODEKSZ m a) @ rd m (a + 8 + NODEKSZ m a) ?d"
    by (simp only: node_image_def rd_append) (simp add: add.assoc del: add_2_eq_Suc add_2_eq_Suc')
  then show ?thesis
    by (simp add: leaf_node_def mk_node_def rd_2 NODEDSZ_def dsize_split [simplified] NODEKEY_def NODEDATA_def NODESIZE_def
        NODEKSZ_def mn_lo_def mn_hi_def mn_flags_def mn_ksize_def)
qed

section \<open>Appending a leaf node to a page\<close>

lemma node_add_update_ptrs:
  assumes "node_add_update p indx node_size key data pgno flags ofp = Some (p', r)"
  shows "mp_ptrs p' = (ptrs_shift_up (mp_ptrs p) indx (NUMKEYS p))(indx := indx_sub (mp_upper p) node_size)"
    "mp_upper p' = indx_sub (mp_upper p) node_size" "mp_pgno p' = mp_pgno p" "mp_flags p' = mp_flags p"
    "mp_lower p' = indx_t (mp_lower p + 2)"
  using assms by (auto simp: node_add_update_def Let_def split: if_splits bool.splits option.splits)

text \<open>The room the nodes of a page take.\<close>

definition nodes_room :: "bytes list \<Rightarrow> nat" where
  "nodes_room xs = (\<Sum>x \<leftarrow> xs. EVEN (length x) + 2)"

lemma nodes_room_append [simp]: "nodes_room (xs @ ys) = nodes_room xs + nodes_room ys"
  and nodes_room_Cons [simp]: "nodes_room (x # xs) = EVEN (length x) + 2 + nodes_room xs"
  and nodes_room_Nil [simp]: "nodes_room [] = 0"
  by (simp_all add: nodes_room_def)

lemma page_room:
  assumes "page_ok psize p" "nodes_room (page_nodes p) + n + 2 \<le> psize - 16" "16 \<le> psize"
  shows "mp_lower p + 2 + n \<le> mp_upper p"
proof -
  have "nodes_room (page_nodes p) = psize - mp_upper p + 2 * NUMKEYS p"
    using assms(1) by (simp only: nodes_room_def sum_list_addf sum_list_triv length_page_nodes) (simp add: page_ok_def)
  then show ?thesis using assms(2,3) page_ok_bounds [OF assms(1)] by linarith
qed

text \<open>The page after a node is appended.\<close>

definition page_append :: "nat \<Rightarrow> mdb_page \<Rightarrow> bytes \<Rightarrow> mdb_page \<Rightarrow> bool" where
  "page_append psize q img q' \<longleftrightarrow>
     page_ok psize q' \<and> page_nodes q' = page_nodes q @ [img] \<and> mp_flags q' = mp_flags q \<and> mp_pgno q' = mp_pgno q \<and>
     (\<forall>x > NUMKEYS q. mp_ptrs q' x = mp_ptrs q x) \<and> mp_ptrs q' (NUMKEYS q) = mp_upper q' \<and>
     NUMKEYS q' = NUMKEYS q + 1"

lemma node_add_append:
  assumes ok: "page_ok psize q" "IS_LEAF q" and k: "val_ok k" "mv_size k < 65536"
    and d: "mv_size d < 2 ^ 32" "data = (if bit flags 0 then take 8 (mv_data d) else val_bytes d)"
      "length data = (if bit flags 0 then 8 else mv_size d)"
    and fl: "\<not> F_ISSET flags MDB_RESERVE" "\<not> bit flags 0 \<Longrightarrow> 8 + mv_size k + mv_size d \<le> nodemax"
    and room: "mp_lower q + 2 + EVEN (8 + mv_size k + length data) \<le> mp_upper q"
  shows "\<exists>q'. mdb_node_add page_new pad nodemax psize s mtf q (NUMKEYS q) (Some k) (Some d) pgno flags
      = Some (s, mtf, Inr (q', None)) \<and> page_append psize q (leaf_node (ucast flags) (mv_size d) (val_bytes k) data) q'"
proof -
  have bit_16: "bit (ucast flags :: u16) 0 = bit flags 0" by (simp add: bit_simps)
  obtain q' where u: "node_add_update q (NUMKEYS q) (EVEN (8 + mv_size k + length data)) (Some k) (Some d) pgno flags None
      = Some (q', None)" "page_ok psize q'"
      "page_nodes q' = insert_at (NUMKEYS q) (leaf_node (ucast flags) (mv_size d) (val_bytes k) data) (page_nodes q)"
    using node_add_update_leaf [OF ok(1) order.refl ok(2) k d(1), where data = data and ofp = None and flags = flags
        and pgno = pgno and node_size = "EVEN (8 + mv_size k + length data)"] d(2,3) fl(1) room bit_16
    by auto
  note p = node_add_update_ptrs [OF u(1)]
  have n: "page_nodes q' = page_nodes q @ [leaf_node (ucast flags) (mv_size d) (val_bytes k) data]"
    using u(3) by (simp add: insert_at_def)
  have "NUMKEYS q' = NUMKEYS q + 1"
    by (metis Suc_eq_plus1 length_append_singleton length_page_nodes n)
  then have "page_append psize q (leaf_node (ucast flags) (mv_size d) (val_bytes k) data) q'"
    using u(2) n p by (simp add: page_append_def ptrs_shift_up_nth)
  moreover have b: "mp_lower q \<le> mp_upper q" "\<not> IS_LEAF2 q" using ok by (simp_all add: page_ok_def)
  moreover have "\<not> int (EVEN (8 + mv_size k + length data)) > int (SIZELEFT q) - 2"
    using node_add_room [OF ok(1)] room by simp
  ultimately show ?thesis
    using u(1) d(3) fl(2) ok(2)
    by (auto simp: mdb_node_add_def Let_def INDXSIZE_def NODESIZE_def split: if_splits)
qed

text \<open>A node of one page appended to another, as \<open>move_nodes\<close> does it.\<close>

lemma moved_flags: "(ucast (ucast (fl :: u16) :: u32) :: u16) = fl" "bit (ucast fl :: u32) 0 = bit fl 0"
  "\<not> F_ISSET (ucast fl :: u32) MDB_RESERVE"
proof -
  show "(ucast (ucast fl :: u32) :: u16) = fl" by (rule bit_word_eqI) (auto simp: bit_simps)
  show "bit (ucast fl :: u32) 0 = bit fl 0" by (simp add: bit_simps)
  have "\<not> bit ((ucast fl :: u32) AND MDB_RESERVE) 16"
    by (auto simp: bit_simps dest: bit_imp_le_length)
  moreover have "bit MDB_RESERVE 16" by (simp add: MDB_RESERVE_def)
  ultimately show "\<not> F_ISSET (ucast fl :: u32) MDB_RESERVE" unfolding F_ISSET_def by metis
qed

lemma move_append:
  assumes "IS_LEAF p" "page_ok psize q" "IS_LEAF q"
    and "bit (mn_flags (mp_body p) a) 0 \<or> node_len True (mp_body p) a \<le> nodemax"
    and "mp_lower q + 2 + EVEN (node_len True (mp_body p) a) \<le> mp_upper q"
    and "node_to_move p a = (k, d, pgno, flags)"
  shows "\<exists>q'. mdb_node_add page_new pad nodemax psize s mtf q (NUMKEYS q) k d pgno flags = Some (s, mtf, Inr (q', None)) \<and>
    page_append psize q (node_image True (mp_body p) a) q'"
proof -
  let ?m = "mp_body p"
  let ?n = "if bit (mn_flags ?m a) 0 then 8 else unat (NODEDSZ ?m a)"
  let ?d = "\<lparr>mv_size = unat (NODEDSZ ?m a), mv_data = rd ?m (NODEDATA ?m a) ?n\<rparr>"
  have e: "k = Some (val_of (NODEKEY ?m a))" "d = Some ?d" "flags = ucast (mn_flags ?m a)"
    using assms(1,6) by (simp_all add: node_to_move_def Let_def)
  have len: "node_len True ?m a = 8 + length (NODEKEY ?m a) + ?n"
    by (simp add: node_len_def NODESIZE_def NODEKEY_def)
  have ks: "length (NODEKEY ?m a) < 65536"
    using unsigned_less [of "mn_ksize ?m a"] by (simp add: NODEKEY_def NODEKSZ_def)
  have ds: "unat (NODEDSZ ?m a) < 2 ^ 32" using unsigned_less [of "NODEDSZ ?m a"] by simp
  have "\<exists>q'. mdb_node_add page_new pad nodemax psize s mtf q (NUMKEYS q) (Some (val_of (NODEKEY ?m a))) (Some ?d) pgno flags
      = Some (s, mtf, Inr (q', None)) \<and>
      page_append psize q (leaf_node (ucast flags) (mv_size ?d) (val_bytes (val_of (NODEKEY ?m a))) (rd ?m (NODEDATA ?m a) ?n)) q'"
  proof (rule node_add_append [OF assms(2,3)])
    show "\<not> F_ISSET flags MDB_RESERVE" by (simp add: e moved_flags)
    show "rd ?m (NODEDATA ?m a) ?n = (if bit flags 0 then take 8 (mv_data ?d) else val_bytes ?d)"
      by (simp add: e moved_flags)
    show "length (rd ?m (NODEDATA ?m a) ?n) = (if bit flags 0 then 8 else mv_size ?d)"
      by (simp add: e moved_flags)
    show "8 + mv_size (val_of (NODEKEY ?m a)) + mv_size ?d \<le> nodemax" if "\<not> bit flags 0"
      using that assms(4) len by (simp add: e moved_flags val_of_def)
    show "mp_lower q + 2 + EVEN (8 + mv_size (val_of (NODEKEY ?m a)) + length (rd ?m (NODEDATA ?m a) ?n)) \<le> mp_upper q"
      using assms(5) len by (simp add: val_of_def)
  qed (use ks ds in \<open>simp_all add: val_ok_def val_of_def\<close>)
  then show ?thesis by (simp add: e node_image_leaf [symmetric] moved_flags val_of_def)
qed

section \<open>On the state\<close>

lemma heap_before_cursors:
  "s\<lparr>st_cursors := cs, st_heap := h\<rparr> = s\<lparr>st_heap := h, st_cursors := cs\<rparr>" for s :: mdb_state
  by simp

lemma node_addM_run:
  assumes "st_heap s a = Some q" "top_ref (st_cursors s mc) = HeapPg a"
    and "mdb_node_add (ovpage_new mc) (unat (md_pad (cursor_db s mc))) (me_nodemax (st_env s)) (me_psize (st_env s))
       (Some (s, NullPg)) (mt_flags (st_txn s)) q j k d pgno flags
      = Some (Some (s, NullPg), mt_flags (st_txn s), Inr (q', None))"
  shows "node_addM mc j k d pgno flags s = Some (s\<lparr>st_heap := (st_heap s)(a := Some q')\<rparr>, Inr ())"
  using assms by (simp add: node_addM_def topM_def op_simps set_pageM_def)

text \<open>
  What a split of a leaf page starts from: page, right sibling and copy are three dirty
  pages, the old nodes and the new one are small enough, and the new one is not to be
  reserved and not large.
\<close>

definition leaf_split_ready ::
  "mdb_state \<Rightarrow> nat \<Rightarrow> nat \<Rightarrow> nat \<Rightarrow> mdb_page \<Rightarrow> nat \<Rightarrow> mdb_val \<Rightarrow> mdb_val \<Rightarrow> u32 \<Rightarrow> bool" where
  "leaf_split_ready s am ar ac p newindx key data flags \<longleftrightarrow>
     am \<noteq> ar \<and> am \<noteq> ac \<and> ar \<noteq> ac \<and> st_heap s am = Some p \<and> page_ok (me_psize (st_env s)) p \<and> IS_LEAF p \<and>
     newindx \<le> NUMKEYS p \<and> 16 \<le> me_psize (st_env s) \<and>
     (\<forall>i < NUMKEYS p. bit (mn_flags (mp_body p) (mp_ptrs p i)) 0 \<or>
        node_len True (mp_body p) (mp_ptrs p i) \<le> me_nodemax (st_env s)) \<and>
     val_ok key \<and> mv_size key < 65536 \<and> val_ok data \<and> mv_size data < 2 ^ 32 \<and>
     8 + mv_size key + mv_size data \<le> me_nodemax (st_env s) \<and> \<not> bit flags 0 \<and> \<not> F_ISSET flags MDB_RESERVE"

definition split_images :: "mdb_page \<Rightarrow> nat \<Rightarrow> mdb_val \<Rightarrow> mdb_val \<Rightarrow> u32 \<Rightarrow> bytes list" where
  "split_images p newindx key data flags =
     insert_at newindx (leaf_node (ucast flags) (mv_size data) (val_bytes key) (val_bytes data)) (page_nodes p)"

text \<open>One round of the loop: the node of index \<open>i\<close> is appended to the page the cursor is on.\<close>

lemma move_step:
  assumes ready: "leaf_split_ready s am ar ac p newindx key data flags" and i: "i \<le> NUMKEYS p"
    and c: "st_heap s ac = Some c" "\<And>x. x \<le> NUMKEYS p \<Longrightarrow> i \<le> x \<Longrightarrow> x \<noteq> newindx \<Longrightarrow>
      mp_ptrs c x = (if x < newindx then mp_ptrs p x else mp_ptrs p (x - 1))"
    and t: "st_heap s a = Some t" "top_ref (st_cursors s mc) = HeapPg a" "NUMKEYS t = j"
      "page_ok (me_psize (st_env s)) t" "IS_LEAF t" "j < 65536"
    and room: "nodes_room (page_nodes t) + EVEN (length (split_images p newindx key data flags ! i)) + 2
      \<le> me_psize (st_env s) - 16"
  shows "\<exists>t'. page_append (me_psize (st_env s)) t (split_images p newindx key data flags ! i) t' \<and>
    move_nodes mc (HeapPg am) (HeapPg ac) newindx (NUMKEYS p) k (Some key, Some data, pgno, flags) i j (Suc n) s =
      (let cur = (if i = newindx then set_top_ki j (st_cursors s mc) else st_cursors s mc);
           cur = (if i = NUMKEYS p then cur\<lparr>mc_pg := (mc_pg cur)(mc_top cur := HeapPg ac)\<rparr> else cur);
           s1 = s\<lparr>st_heap := (st_heap s)(a := Some t'), st_cursors := (st_cursors s)(mc := cur)\<rparr>;
           i' = (if i = NUMKEYS p then 0 else i + 1); j' = (if i = NUMKEYS p then 0 else j + 1)
       in if i' = k then Some (s1, Inr ())
          else move_nodes mc (HeapPg am) (HeapPg ac) newindx (NUMKEYS p) k (Some key, Some data, pgno, flags) i' j' n s1)"
proof -
  note r = ready [unfolded leaf_split_ready_def]
  let ?ps = "me_psize (st_env s)"
  define s0 where "s0 = (if i = newindx then s\<lparr>st_cursors := (st_cursors s)(mc := set_top_ki j (st_cursors s mc))\<rparr> else s)"
  obtain k' d' g' f' where m: "(if i = newindx then (Some key, Some data, pgno, flags)
      else node_to_move p (mp_ptrs c i + PAGEBASE)) = (k', d', g', f')"
    by (cases "if i = newindx then (Some key, Some data, pgno, flags) else node_to_move p (mp_ptrs c i + PAGEBASE)") auto
  have room': "mp_lower t + 2 + EVEN (length (split_images p newindx key data flags ! i)) \<le> mp_upper t"
    using page_room [OF t(4)] room r by auto
  have "\<exists>t'. mdb_node_add (ovpage_new mc) (unat (md_pad (cursor_db s0 mc))) (me_nodemax (st_env s)) ?ps
       (Some (s0, NullPg)) (mt_flags (st_txn s)) t j k' d' g' f' = Some (Some (s0, NullPg), mt_flags (st_txn s), Inr (t', None))
     \<and> page_append ?ps t (split_images p newindx key data flags ! i) t'"
  proof (cases "i = newindx")
    case True
    then have e: "k' = Some key" "d' = Some data" "f' = flags" using m by simp_all
    have im: "split_images p newindx key data flags ! i = leaf_node (ucast flags) (mv_size data) (val_bytes key) (val_bytes data)"
      using True r by (simp add: split_images_def nth_insert_at)
    have len: "length (leaf_node (ucast flags) (mv_size data) (val_bytes key) (val_bytes data)) = 8 + mv_size key + mv_size data"
      using r by (simp add: leaf_node_def length_mk_node del: length_take)
    show ?thesis
      unfolding e im t(3) [symmetric]
      by (rule node_add_append [OF t(4,5)]) (use r room' im len in \<open>simp_all add: val_ok_def\<close>)
  next
    case False
    define x where "x = (if i < newindx then i else i - 1)"
    have x: "x < NUMKEYS p" "mp_ptrs c i = mp_ptrs p x" using False i r c(2) [of i] by (auto simp: x_def)
    have im: "split_images p newindx key data flags ! i = node_image True (mp_body p) (mp_ptrs p x)"
      using False i r x(1) by (auto simp: split_images_def nth_insert_at nth_page_nodes x_def)
    show ?thesis
      unfolding im t(3) [symmetric]
      by (rule move_append [OF _ t(4,5)]) (use r room' im m x False in \<open>auto simp: PAGEBASE_def\<close>)
  qed
  then obtain t' where t': "page_append ?ps t (split_images p newindx key data flags ! i) t'"
    and add: "mdb_node_add (ovpage_new mc) (unat (md_pad (cursor_db s0 mc))) (me_nodemax (st_env s)) ?ps
       (Some (s0, NullPg)) (mt_flags (st_txn s)) t j k' d' g' f' = Some (Some (s0, NullPg), mt_flags (st_txn s), Inr (t', None))"
    by auto
  have s0: "st_heap s0 = st_heap s" "top_ref (st_cursors s0 mc) = HeapPg a" "st_env s0 = st_env s" "st_txn s0 = st_txn s"
    using t(2) by (simp_all add: s0_def set_top_ki_def top_ref_def)
  have na: "node_addM mc j k' d' g' f' s0 = Some (s0\<lparr>st_heap := (st_heap s0)(a := Some t')\<rparr>, Inr ())"
    by (rule node_addM_run) (use s0 t(1) add in simp_all)
  have pq: "page_at s (HeapPg am) = Some p" "page_at s (HeapPg ac) = Some c" "IS_LEAF p" using r c(1) by simp_all
  show ?thesis
  proof (intro exI conjI)
    show "page_append ?ps t (split_images p newindx key data flags ! i) t'" by (rule t')
    show "move_nodes mc (HeapPg am) (HeapPg ac) newindx (NUMKEYS p) k (Some key, Some data, pgno, flags) i j (Suc n) s =
      (let cur = (if i = newindx then set_top_ki j (st_cursors s mc) else st_cursors s mc);
           cur = (if i = NUMKEYS p then cur\<lparr>mc_pg := (mc_pg cur)(mc_top cur := HeapPg ac)\<rparr> else cur);
           s1 = s\<lparr>st_heap := (st_heap s)(a := Some t'), st_cursors := (st_cursors s)(mc := cur)\<rparr>;
           i' = (if i = NUMKEYS p then 0 else i + 1); j' = (if i = NUMKEYS p then 0 else j + 1)
       in if i' = k then Some (s1, Inr ())
          else move_nodes mc (HeapPg am) (HeapPg ac) newindx (NUMKEYS p) k (Some key, Some data, pgno, flags) i' j' n s1)"
    proof (cases "i = newindx")
      case True
      then have "k' = Some key" "d' = Some data" "g' = pgno" "f' = flags" using m by simp_all
      with True na pq show ?thesis
        by (simp add: op_simps Let_def s0_def pageM_run heap_before_cursors)
    next
      case False
      then have "node_to_move p (mp_ptrs c i + PAGEBASE) = (k', d', g', f')" using m by simp
      with False na pq show ?thesis
        by (simp add: op_simps Let_def s0_def pageM_run)
    qed
  qed
qed

lemma leaf_split_ready_heap:
  "leaf_split_ready s am ar ac p newindx key data flags \<Longrightarrow> a \<noteq> am \<Longrightarrow>
    leaf_split_ready (s\<lparr>st_heap := (st_heap s)(a := x), st_cursors := cs\<rparr>) am ar ac p newindx key data flags"
  by (simp add: leaf_split_ready_def)

lemma length_split_images:
  "leaf_split_ready s am ar ac p newindx key data flags \<Longrightarrow> length (split_images p newindx key data flags) = NUMKEYS p + 1"
  by (simp add: split_images_def leaf_split_ready_def)

lemma nodes_room_part:
  "i < k \<Longrightarrow> k \<le> length xs \<Longrightarrow> nodes_room (take i xs) + EVEN (length (xs ! i)) + 2 \<le> nodes_room (take k xs)"
proof -
  assume "i < k" "k \<le> length xs"
  then have "take k xs = take (Suc i) xs @ take (k - Suc i) (drop (Suc i) xs)"
    using take_add [of "Suc i" "k - Suc i" xs] by simp
  also have "take (Suc i) xs = take i xs @ [xs ! i]"
    using \<open>i < k\<close> \<open>k \<le> length xs\<close> by (simp add: take_Suc_conv_app_nth)
  finally show ?thesis by simp
qed

lemma numkeys_bound: "page_ok psize p \<Longrightarrow> NUMKEYS p < 65535"
  using page_ok_bounds [of psize p] by linarith

lemma leaf_flags: "mp_flags p = mp_flags q \<Longrightarrow> IS_LEAF p = IS_LEAF q"
  by (simp add: IS_LEAF_def)

definition top_to :: "page_ref \<Rightarrow> mdb_cursor \<Rightarrow> mdb_cursor" where
  "top_to x c = c\<lparr>mc_pg := (mc_pg c)(mc_top c := x)\<rparr>"

text \<open>The nodes before the split point, appended to the copy.\<close>

lemma move_left:
  assumes "leaf_split_ready s am ar ac p newindx key data flags" "i < k" "k \<le> NUMKEYS p"
    and "st_heap s ac = Some c" "page_ok (me_psize (st_env s)) c" "IS_LEAF c"
      "page_nodes c = take i (split_images p newindx key data flags)"
    and "\<And>x. x \<le> NUMKEYS p \<Longrightarrow> i \<le> x \<Longrightarrow> x \<noteq> newindx \<Longrightarrow>
      mp_ptrs c x = (if x < newindx then mp_ptrs p x else mp_ptrs p (x - 1))"
    and "top_ref (st_cursors s mc) = HeapPg ac"
    and "nodes_room (take k (split_images p newindx key data flags)) \<le> me_psize (st_env s) - 16"
  shows "\<exists>c'. move_nodes mc (HeapPg am) (HeapPg ac) newindx (NUMKEYS p) k (Some key, Some data, pgno, flags) i i (k - i) s
      = Some (s\<lparr>st_heap := (st_heap s)(ac := Some c'), st_cursors := (st_cursors s)(mc :=
          (if i \<le> newindx \<and> newindx < k then set_top_ki newindx (st_cursors s mc) else st_cursors s mc))\<rparr>, Inr ()) \<and>
    page_ok (me_psize (st_env s)) c' \<and> page_nodes c' = take k (split_images p newindx key data flags) \<and>
    mp_flags c' = mp_flags c \<and> mp_ptrs c' (k - 1) = mp_upper c'"
  using assms
proof (induction "k - i" arbitrary: i s c)
  case 0
  then show ?case by simp
next
  case (Suc n)
  let ?L = "split_images p newindx key data flags"
  have len: "length ?L = NUMKEYS p + 1" using Suc.prems(1) by (rule length_split_images)
  have n: "k - i = Suc n" and nk: "NUMKEYS c = i" "i \<noteq> NUMKEYS p"
    using Suc.hyps(2) Suc.prems(2,3) len arg_cong [OF Suc.prems(7), of length] by auto
  have b: "i < 65536" using numkeys_bound [OF Suc.prems(5)] nk by simp
  have i: "i \<le> NUMKEYS p" using Suc.prems(2,3) by simp
  have ptrs: "\<And>x. x \<le> NUMKEYS p \<Longrightarrow> i \<le> x \<Longrightarrow> x \<noteq> newindx \<Longrightarrow>
      mp_ptrs c x = (if x < newindx then mp_ptrs p x else mp_ptrs p (x - 1))" by (rule Suc.prems(8))
  have room: "nodes_room (page_nodes c) + EVEN (length (?L ! i)) + 2 \<le> me_psize (st_env s) - 16"
    using nodes_room_part [of i k ?L] Suc.prems(2,3,7,10) len by auto
  obtain c1 where c1: "page_append (me_psize (st_env s)) c (?L ! i) c1"
    and run: "move_nodes mc (HeapPg am) (HeapPg ac) newindx (NUMKEYS p) k (Some key, Some data, pgno, flags) i i (Suc n) s =
      (let cur = (if i = newindx then set_top_ki i (st_cursors s mc) else st_cursors s mc);
           s1 = s\<lparr>st_heap := (st_heap s)(ac := Some c1), st_cursors := (st_cursors s)(mc := cur)\<rparr>
       in if i + 1 = k then Some (s1, Inr ())
          else move_nodes mc (HeapPg am) (HeapPg ac) newindx (NUMKEYS p) k (Some key, Some data, pgno, flags) (i + 1) (i + 1) n s1)"
    using move_step [OF Suc.prems(1) i Suc.prems(4) ptrs Suc.prems(4,9) nk(1) Suc.prems(5,6) b room, where k = k and pgno = pgno and n = n] nk(2)
    by (auto simp: Let_def simp del: move_nodes.simps)
  have c1': "page_ok (me_psize (st_env s)) c1" "page_nodes c1 = take (Suc i) ?L" "mp_flags c1 = mp_flags c"
    "\<And>x. x > i \<Longrightarrow> mp_ptrs c1 x = mp_ptrs c x" "mp_ptrs c1 i = mp_upper c1"
    using c1 Suc.prems(2,3,7) len nk by (auto simp: page_append_def take_Suc_conv_app_nth)
  show ?case
  proof (cases "i + 1 = k")
    case True
    then show ?thesis
      using run n c1' Suc.prems(2) by (auto simp: Let_def simp del: move_nodes.simps)
  next
    case False
    define s1 where "s1 = s\<lparr>st_heap := (st_heap s)(ac := Some c1), st_cursors := (st_cursors s)(mc :=
      (if i = newindx then set_top_ki i (st_cursors s mc) else st_cursors s mc))\<rparr>"
    have s1: "leaf_split_ready s1 am ar ac p newindx key data flags" "st_heap s1 ac = Some c1" "st_env s1 = st_env s"
      "top_ref (st_cursors s1 mc) = HeapPg ac"
      using leaf_split_ready_heap [OF Suc.prems(1), of ac] Suc.prems(1,9)
      by (auto simp: s1_def leaf_split_ready_def set_top_ki_def top_ref_def)
    have "\<exists>c'. move_nodes mc (HeapPg am) (HeapPg ac) newindx (NUMKEYS p) k (Some key, Some data, pgno, flags) (i + 1) (i + 1) (k - (i + 1)) s1
        = Some (s1\<lparr>st_heap := (st_heap s1)(ac := Some c'), st_cursors := (st_cursors s1)(mc :=
            (if i + 1 \<le> newindx \<and> newindx < k then set_top_ki newindx (st_cursors s1 mc) else st_cursors s1 mc))\<rparr>, Inr ()) \<and>
      page_ok (me_psize (st_env s1)) c' \<and> page_nodes c' = take k ?L \<and>
      mp_flags c' = mp_flags c1 \<and> mp_ptrs c' (k - 1) = mp_upper c'"
      by (rule Suc.hyps(1)) (use Suc.prems Suc.hyps(2) s1 c1' False leaf_flags [OF c1'(3)] in auto)
    then obtain c' where c': "move_nodes mc (HeapPg am) (HeapPg ac) newindx (NUMKEYS p) k (Some key, Some data, pgno, flags) (i + 1) (i + 1) (k - (i + 1)) s1
        = Some (s1\<lparr>st_heap := (st_heap s1)(ac := Some c'), st_cursors := (st_cursors s1)(mc :=
            (if i + 1 \<le> newindx \<and> newindx < k then set_top_ki newindx (st_cursors s1 mc) else st_cursors s1 mc))\<rparr>, Inr ())"
      "page_ok (me_psize (st_env s1)) c'" "page_nodes c' = take k ?L" "mp_flags c' = mp_flags c1" "mp_ptrs c' (k - 1) = mp_upper c'"
      by blast
    have kn: "k - (i + 1) = n" using n by simp
    have st: "s1\<lparr>st_heap := (st_heap s1)(ac := Some c'), st_cursors := (st_cursors s1)(mc :=
            (if i + 1 \<le> newindx \<and> newindx < k then set_top_ki newindx (st_cursors s1 mc) else st_cursors s1 mc))\<rparr>
      = s\<lparr>st_heap := (st_heap s)(ac := Some c'), st_cursors := (st_cursors s)(mc :=
          (if i \<le> newindx \<and> newindx < k then set_top_ki newindx (st_cursors s mc) else st_cursors s mc))\<rparr>"
      using Suc.prems(2) by (auto simp: s1_def heap_before_cursors)
    have "move_nodes mc (HeapPg am) (HeapPg ac) newindx (NUMKEYS p) k (Some key, Some data, pgno, flags) i i (k - i) s =
      move_nodes mc (HeapPg am) (HeapPg ac) newindx (NUMKEYS p) k (Some key, Some data, pgno, flags) (i + 1) (i + 1) (k - (i + 1)) s1"
      using run False unfolding n kn by (simp add: Let_def s1_def del: move_nodes.simps)
    then show ?thesis
      using c' s1(3) c1'(3) unfolding st by auto
  qed
qed

text \<open>The nodes from the split point on, appended to the sibling.\<close>

lemma move_right:
  assumes "leaf_split_ready s am ar ac p newindx key data flags" "k \<le> i" "i \<le> NUMKEYS p" "0 < k"
    and "st_heap s ar = Some r" "page_ok (me_psize (st_env s)) r" "IS_LEAF r"
      "page_nodes r = take (i - k) (drop k (split_images p newindx key data flags))"
    and "st_heap s ac = Some c" "\<And>x. x \<le> NUMKEYS p \<Longrightarrow> x \<noteq> newindx \<Longrightarrow>
      mp_ptrs c x = (if x < newindx then mp_ptrs p x else mp_ptrs p (x - 1))"
    and "top_ref (st_cursors s mc) = HeapPg ar"
    and "nodes_room (drop k (split_images p newindx key data flags)) \<le> me_psize (st_env s) - 16"
  shows "\<exists>r'. move_nodes mc (HeapPg am) (HeapPg ac) newindx (NUMKEYS p) k (Some key, Some data, pgno, flags) i (i - k)
        (Suc (NUMKEYS p) - i + m) s
      = move_nodes mc (HeapPg am) (HeapPg ac) newindx (NUMKEYS p) k (Some key, Some data, pgno, flags) 0 0 m
        (s\<lparr>st_heap := (st_heap s)(ar := Some r'), st_cursors := (st_cursors s)(mc := top_to (HeapPg ac)
          (if i \<le> newindx then set_top_ki (newindx - k) (st_cursors s mc) else st_cursors s mc))\<rparr>) \<and>
    page_ok (me_psize (st_env s)) r' \<and> page_nodes r' = drop k (split_images p newindx key data flags) \<and>
    mp_flags r' = mp_flags r"
  using assms
proof (induction "NUMKEYS p - i" arbitrary: i s r)
  case (0 i s r)
  let ?L = "split_images p newindx key data flags"
  have len: "length ?L = NUMKEYS p + 1" using 0(2) by (rule length_split_images)
  have i: "i = NUMKEYS p" using 0(1,4) by simp
  have nk: "NUMKEYS r = i - k" using arg_cong [OF 0(9), of length] len i 0(3) by simp
  have b: "i - k < 65536" using numkeys_bound [OF 0(7)] nk by simp
  have room: "nodes_room (page_nodes r) + EVEN (length (?L ! i)) + 2 \<le> me_psize (st_env s) - 16"
    using nodes_room_part [of "i - k" "Suc (i - k)" "drop k ?L"] 0(3,4,9,13) len i by (simp add: Suc_diff_le)
  obtain r1 where r1: "page_append (me_psize (st_env s)) r (?L ! i) r1"
    and run: "move_nodes mc (HeapPg am) (HeapPg ac) newindx (NUMKEYS p) k (Some key, Some data, pgno, flags) i (i - k) (Suc m) s =
      move_nodes mc (HeapPg am) (HeapPg ac) newindx (NUMKEYS p) k (Some key, Some data, pgno, flags) 0 0 m
        (s\<lparr>st_heap := (st_heap s)(ar := Some r1), st_cursors := (st_cursors s)(mc := top_to (HeapPg ac)
          (if i = newindx then set_top_ki (i - k) (st_cursors s mc) else st_cursors s mc))\<rparr>)"
    using move_step [OF 0(2) 0(4) 0(10) _ 0(6,12) nk 0(7,8) b room, where k = k and pgno = pgno and n = m] 0(5,11) i
    by (auto simp: Let_def top_to_def simp del: move_nodes.simps)
  have e: "(if i \<le> newindx then set_top_ki (newindx - k) (st_cursors s mc) else st_cursors s mc) =
      (if i = newindx then set_top_ki (i - k) (st_cursors s mc) else st_cursors s mc)" using 0(2) i by (auto simp: leaf_split_ready_def)
  have ok1: "page_ok (me_psize (st_env s)) r1" "page_nodes r1 = drop k ?L" "mp_flags r1 = mp_flags r"
    using r1 0(3,9) len i take_Suc_conv_app_nth [of "i - k" "drop k ?L"] by (auto simp: page_append_def)
  have nn: "Suc (NUMKEYS p) - i + m = Suc m" using i by simp
  show ?case unfolding e nn using run ok1 by blast
next
  case (Suc n i s r)
  let ?L = "split_images p newindx key data flags"
  have len: "length ?L = NUMKEYS p + 1" using Suc(3) by (rule length_split_images)
  have i: "i < NUMKEYS p" using Suc(2) by simp
  have nk: "NUMKEYS r = i - k" using arg_cong [OF Suc(10), of length] len i Suc(4) by simp
  have b: "i - k < 65536" using numkeys_bound [OF Suc(8)] nk by simp
  have room: "nodes_room (page_nodes r) + EVEN (length (?L ! i)) + 2 \<le> me_psize (st_env s) - 16"
    using nodes_room_part [of "i - k" "NUMKEYS p + 1 - k" "drop k ?L"] Suc(4,10,14) len i diff_le_mono [OF less_imp_le [OF i], of k]
    by (simp add: Suc_diff_le less_Suc_eq_le)
  define s1 where "s1 r1 = s\<lparr>st_heap := (st_heap s)(ar := Some r1), st_cursors := (st_cursors s)(mc :=
      (if i = newindx then set_top_ki (i - k) (st_cursors s mc) else st_cursors s mc))\<rparr>" for r1
  obtain r1 where r1: "page_append (me_psize (st_env s)) r (?L ! i) r1"
    and run: "move_nodes mc (HeapPg am) (HeapPg ac) newindx (NUMKEYS p) k (Some key, Some data, pgno, flags) i (i - k)
        (Suc (n + Suc m)) s =
      move_nodes mc (HeapPg am) (HeapPg ac) newindx (NUMKEYS p) k (Some key, Some data, pgno, flags) (i + 1) (i - k + 1) (n + Suc m) (s1 r1)"
    using move_step [OF Suc(3) less_imp_le [OF i] Suc(11) _ Suc(7,13) nk Suc(8,9) b room, where k = k and pgno = pgno and n = "n + Suc m"]
      Suc(4,12) i
    by (auto simp: Let_def s1_def simp del: move_nodes.simps)
  have s1: "leaf_split_ready (s1 r1) am ar ac p newindx key data flags" "st_heap (s1 r1) ar = Some r1"
    "st_heap (s1 r1) ac = Some c" "st_env (s1 r1) = st_env s" "top_ref (st_cursors (s1 r1) mc) = HeapPg ar"
    using leaf_split_ready_heap [OF Suc(3), of ar] Suc(3,11,13)
    by (auto simp: s1_def leaf_split_ready_def set_top_ki_def top_ref_def)
  have c1: "page_ok (me_psize (st_env s)) r1" "page_nodes r1 = take (Suc (i - k)) (drop k ?L)" "mp_flags r1 = mp_flags r"
    using r1 Suc(4,10) len i by (auto simp: page_append_def take_Suc_conv_app_nth)
  have "\<exists>r'. move_nodes mc (HeapPg am) (HeapPg ac) newindx (NUMKEYS p) k (Some key, Some data, pgno, flags) (i + 1) (i + 1 - k)
        (Suc (NUMKEYS p) - (i + 1) + m) (s1 r1)
      = move_nodes mc (HeapPg am) (HeapPg ac) newindx (NUMKEYS p) k (Some key, Some data, pgno, flags) 0 0 m
        ((s1 r1)\<lparr>st_heap := (st_heap (s1 r1))(ar := Some r'), st_cursors := (st_cursors (s1 r1))(mc := top_to (HeapPg ac)
          (if i + 1 \<le> newindx then set_top_ki (newindx - k) (st_cursors (s1 r1) mc) else st_cursors (s1 r1) mc))\<rparr>) \<and>
    page_ok (me_psize (st_env (s1 r1))) r' \<and> page_nodes r' = drop k ?L \<and> mp_flags r' = mp_flags r1"
    by (rule Suc(1)) (use Suc(2,4,6,9,12,14) i s1 c1 leaf_flags [OF c1(3)] in \<open>auto simp: Suc_diff_le\<close>)
  then obtain r' where r': "move_nodes mc (HeapPg am) (HeapPg ac) newindx (NUMKEYS p) k (Some key, Some data, pgno, flags)
        (i + 1) (i + 1 - k) (Suc (NUMKEYS p) - (i + 1) + m) (s1 r1)
      = move_nodes mc (HeapPg am) (HeapPg ac) newindx (NUMKEYS p) k (Some key, Some data, pgno, flags) 0 0 m
        ((s1 r1)\<lparr>st_heap := (st_heap (s1 r1))(ar := Some r'), st_cursors := (st_cursors (s1 r1))(mc := top_to (HeapPg ac)
          (if i + 1 \<le> newindx then set_top_ki (newindx - k) (st_cursors (s1 r1) mc) else st_cursors (s1 r1) mc))\<rparr>)"
      "page_ok (me_psize (st_env s)) r'" "page_nodes r' = drop k ?L" "mp_flags r' = mp_flags r"
    using s1(4) c1(3) by auto
  have st: "(s1 r1)\<lparr>st_heap := (st_heap (s1 r1))(ar := Some r'), st_cursors := (st_cursors (s1 r1))(mc := top_to (HeapPg ac)
          (if i + 1 \<le> newindx then set_top_ki (newindx - k) (st_cursors (s1 r1) mc) else st_cursors (s1 r1) mc))\<rparr> =
      s\<lparr>st_heap := (st_heap s)(ar := Some r'), st_cursors := (st_cursors s)(mc := top_to (HeapPg ac)
          (if i \<le> newindx then set_top_ki (newindx - k) (st_cursors s mc) else st_cursors s mc))\<rparr>"
    by (cases "i = newindx") (auto simp: s1_def heap_before_cursors)
  have nn: "Suc (NUMKEYS p) - i + m = Suc (n + Suc m)" "Suc (NUMKEYS p) - (i + 1) + m = n + Suc m" "i - k + 1 = i + 1 - k"
    using Suc(2,4) i by simp_all
  have "move_nodes mc (HeapPg am) (HeapPg ac) newindx (NUMKEYS p) k (Some key, Some data, pgno, flags) i (i - k)
        (Suc (NUMKEYS p) - i + m) s
      = move_nodes mc (HeapPg am) (HeapPg ac) newindx (NUMKEYS p) k (Some key, Some data, pgno, flags) 0 0 m
        (s\<lparr>st_heap := (st_heap s)(ar := Some r'), st_cursors := (st_cursors s)(mc := top_to (HeapPg ac)
          (if i \<le> newindx then set_top_ki (newindx - k) (st_cursors s mc) else st_cursors s mc))\<rparr>)"
    using run r'(1) unfolding nn st by simp
  with r'(2-4) show ?case by blast
qed

section \<open>The pages after the split\<close>

lemma split_copied_back:
  assumes "page_ok psize c" "0 < NUMKEYS c" "mp_ptrs c (NUMKEYS c - 1) = mp_upper c" "mp_flags p = mp_flags c"
  defines "base \<equiv> mp_ptrs c (NUMKEYS c - 1) + PAGEBASE"
  defines "p' \<equiv> p\<lparr>mp_ptrs := (\<lambda>i. if i < NUMKEYS c then mp_ptrs c i else mp_ptrs p i),
            mp_lower := mp_lower c, mp_upper := mp_upper c,
            mp_body := wr (mp_body p) base (rd (mp_body c) base (psize - mp_upper c - PAGEBASE))\<rparr>"
  shows "page_nodes p' = page_nodes c" "page_ok psize p'"
proof -
  have "mp_flags p' = mp_flags c \<and> mp_lower p' = mp_lower c \<and> mp_upper p' = mp_upper c"
    "\<And>i. i < NUMKEYS c \<Longrightarrow> mp_ptrs p' i = mp_ptrs c i"
    using assms(4) by (simp_all add: p'_def)
  moreover have "\<And>x. mp_upper c \<le> x \<Longrightarrow> x < psize \<Longrightarrow> mp_body p' x = mp_body c x"
    using assms(3) by (simp add: p'_def base_def PAGEBASE_def wr_def rd_def)
  ultimately show "page_nodes p' = page_nodes c" "page_ok psize p'"
    using page_same [OF assms(1), of p'] by auto
qed

lemma nodes_room_split:
  "nodes_room (take k (split_images p newindx key data flags)) =
     sum_list (take k (split_sizes p newindx (EVEN (length (leaf_node (ucast flags) (mv_size data) (val_bytes key) (val_bytes data))) + 2)))"
  "nodes_room (drop k (split_images p newindx key data flags)) =
     sum_list (drop k (split_sizes p newindx (EVEN (length (leaf_node (ucast flags) (mv_size data) (val_bytes key) (val_bytes data))) + 2)))"
  by (simp_all add: nodes_room_def split_images_def split_sizes_def insert_at_def take_map [symmetric] drop_map [symmetric] del: length_take)
    (simp_all add: take_Cons' drop_Cons' take_map drop_map)

lemma split_moves:
  assumes ready: "leaf_split_ready s am ar ac p newindx key data flags" and k: "0 < k" "k \<le> NUMKEYS p"
    and r: "st_heap s ar = Some r" "page_ok (me_psize (st_env s)) r" "IS_LEAF r" "page_nodes r = []"
    and c: "st_heap s ac = Some c" "page_ok (me_psize (st_env s)) c" "page_nodes c = []" "mp_flags c = mp_flags p"
      "mp_ptrs c = split_ptrs (mp_ptrs p) newindx dst 0 0 (NUMKEYS p)"
    and cur: "top_ref (st_cursors s mc) = HeapPg ar" "ptop < mc_top (st_cursors s mc)"
      "page_at s (mc_pg (st_cursors s mc) ptop) \<noteq> None"
    and room: "nodes_room (take k (split_images p newindx key data flags)) \<le> me_psize (st_env s) - 16"
      "nodes_room (drop k (split_images p newindx key data flags)) \<le> me_psize (st_env s) - 16"
  shows "\<exists>s' p' r'. seqM (move_nodes mc (HeapPg am) (HeapPg ac) newindx (NUMKEYS p) k (Some key, Some data, pgno, flags) k 0 (NUMKEYS p + 1))
        (split_reset mc mn (HeapPg am) (HeapPg ar) (HeapPg ac) newindx k ptop) s = Some (s', Inr ()) \<and>
      st_heap s' am = Some p' \<and> page_ok (me_psize (st_env s)) p' \<and>
      page_nodes p' = take k (split_images p newindx key data flags) \<and>
      st_heap s' ar = Some r' \<and> page_ok (me_psize (st_env s)) r' \<and>
      page_nodes r' = drop k (split_images p newindx key data flags) \<and>
      top_ref (st_cursors s' mc) = (if newindx < k then HeapPg am else HeapPg ar) \<and>
      top_ki (st_cursors s' mc) = (if newindx < k then newindx else newindx - k)"
proof -
  let ?L = "split_images p newindx key data flags"
  let ?mv = "move_nodes mc (HeapPg am) (HeapPg ac) newindx (NUMKEYS p) k (Some key, Some data, pgno, flags)"
  have len: "length ?L = NUMKEYS p + 1" using ready by (rule length_split_images)
  have rd: "newindx \<le> NUMKEYS p" "IS_LEAF p" using ready by (simp_all add: leaf_split_ready_def)
  have ne: "am \<noteq> ar" "am \<noteq> ac" "ar \<noteq> ac" "st_heap s am = Some p" using ready by (simp_all add: leaf_split_ready_def)
  have ptrs: "mp_ptrs c x = (if x < newindx then mp_ptrs p x else mp_ptrs p (x - 1))" if "x \<le> NUMKEYS p" "x \<noteq> newindx" for x
    using split_ptrs_nth [OF that rd(1)] c(5) by simp
  have leaf: "IS_LEAF c" using rd(2) leaf_flags [OF c(4)] by simp
  have nn: "Suc (NUMKEYS p) - k + k = NUMKEYS p + 1" "k - k = 0" using k by simp_all
  have r0: "page_nodes r = take (k - k) (drop k ?L)" using r(4) by simp
  obtain r' where r': "?mv k 0 (NUMKEYS p + 1) s = ?mv 0 0 k
        (s\<lparr>st_heap := (st_heap s)(ar := Some r'), st_cursors := (st_cursors s)(mc := top_to (HeapPg ac)
          (if k \<le> newindx then set_top_ki (newindx - k) (st_cursors s mc) else st_cursors s mc))\<rparr>)"
      "page_ok (me_psize (st_env s)) r'" "page_nodes r' = drop k ?L"
    using move_right [where m = k and pgno = pgno, OF ready order.refl k(2,1) r(1,2,3) r0 c(1) ptrs cur(1) room(2), unfolded nn]
    by blast
  define s1 where "s1 = s\<lparr>st_heap := (st_heap s)(ar := Some r'), st_cursors := (st_cursors s)(mc := top_to (HeapPg ac)
          (if k \<le> newindx then set_top_ki (newindx - k) (st_cursors s mc) else st_cursors s mc))\<rparr>"
  have s1: "leaf_split_ready s1 am ar ac p newindx key data flags" "st_heap s1 ac = Some c" "st_env s1 = st_env s"
      "top_ref (st_cursors s1 mc) = HeapPg ac"
    using leaf_split_ready_heap [OF ready, of ar] ne c(1) by (auto simp: s1_def top_to_def top_ref_def leaf_split_ready_def)
  have c0: "page_ok (me_psize (st_env s1)) c" "page_nodes c = take 0 ?L" "nodes_room (take k ?L) \<le> me_psize (st_env s1) - 16"
    using c(2,3) room(1) s1(3) by simp_all
  obtain c' where c': "?mv 0 0 (k - 0) s1 = Some (s1\<lparr>st_heap := (st_heap s1)(ac := Some c'), st_cursors := (st_cursors s1)(mc :=
          (if 0 \<le> newindx \<and> newindx < k then set_top_ki newindx (st_cursors s1 mc) else st_cursors s1 mc))\<rparr>, Inr ())"
      "page_ok (me_psize (st_env s)) c'" "page_nodes c' = take k ?L" "mp_flags c' = mp_flags c" "mp_ptrs c' (k - 1) = mp_upper c'"
    using move_left [where pgno = pgno, OF s1(1) k s1(2) c0(1) leaf c0(2) ptrs s1(4) c0(3)] s1(3) by metis
  have nk: "NUMKEYS c' = k" using arg_cong [OF c'(3), of length] len k by simp
  define s2 where "s2 = s1\<lparr>st_heap := (st_heap s1)(ac := Some c'), st_cursors := (st_cursors s1)(mc :=
          (if newindx < k then set_top_ki newindx (st_cursors s1 mc) else st_cursors s1 mc))\<rparr>"
  have run: "?mv k 0 (NUMKEYS p + 1) s = Some (s2, Inr ())" using r'(1) c'(1) by (simp add: s1_def [symmetric] s2_def)
  have "newindx < 65536" using numkeys_bound [of "me_psize (st_env s)" p] ready by (simp add: leaf_split_ready_def)
  then have small: "indx_t newindx = newindx" "indx_t (newindx - k) = newindx - k" by (simp_all add: indx_t_def)
  have h2: "st_heap s2 am = Some p" "st_heap s2 ar = Some r'" "st_heap s2 ac = Some c'" "st_env s2 = st_env s"
      "mc_top (st_cursors s2 mc) = mc_top (st_cursors s mc)" "mc_pg (st_cursors s2 mc) ptop = mc_pg (st_cursors s mc) ptop"
      "newindx < k \<Longrightarrow> top_ki (st_cursors s2 mc) = newindx" "k \<le> newindx \<Longrightarrow> top_ki (st_cursors s2 mc) = newindx - k"
    using ne cur small by (auto simp: s2_def s1_def top_to_def set_top_ki_def top_ki_def)
  define p' where "p' = p\<lparr>mp_ptrs := (\<lambda>i. if i < NUMKEYS c' then mp_ptrs c' i else mp_ptrs p i),
            mp_lower := mp_lower c', mp_upper := mp_upper c',
            mp_body := wr (mp_body p) (mp_ptrs c' (NUMKEYS c' - 1) + PAGEBASE)
              (rd (mp_body c') (mp_ptrs c' (NUMKEYS c' - 1) + PAGEBASE) (me_psize (st_env s) - mp_upper c' - PAGEBASE))\<rparr>"
  have p': "page_nodes p' = take k ?L" "page_ok (me_psize (st_env s)) p'"
    using split_copied_back [OF c'(2), of p] nk k(1) c'(3,4,5) c(4) unfolding p'_def by simp_all
  define s3 where "s3 = s2\<lparr>st_heap := (st_heap s2)(am := Some p')\<rparr>"
  have copied: "(upd_pageM (HeapPg am) (\<lambda>p. p\<lparr>mp_ptrs := (\<lambda>i. if i < NUMKEYS c' then mp_ptrs c' i else mp_ptrs p i),
            mp_lower := mp_lower c', mp_upper := mp_upper c',
            mp_body := wr (mp_body p) (mp_ptrs c' (NUMKEYS c' - 1) + PAGEBASE)
              (rd (mp_body c') (mp_ptrs c' (NUMKEYS c' - 1) + PAGEBASE) (me_psize (st_env s) - mp_upper c' - PAGEBASE))\<rparr>)) s2
      = Some (s3, Inr ())"
    using h2(1) by (simp add: op_simps s3_def p'_def)
  have "page_at s3 (mc_pg (st_cursors s mc) ptop) \<noteq> None"
    using cur(3) by (cases "mc_pg (st_cursors s mc) ptop") (auto simp: s3_def s2_def s1_def)
  then obtain pp where pp: "page_at s3 (mc_pg (st_cursors s mc) ptop) = Some pp" by blast
  have "\<exists>s'. split_reset mc mn (HeapPg am) (HeapPg ar) (HeapPg ac) newindx k ptop s2 = Some (s', Inr ()) \<and>
      st_heap s' = st_heap s3 \<and>
      top_ref (st_cursors s' mc) = (if newindx < k then HeapPg am else HeapPg ar) \<and>
      top_ki (st_cursors s' mc) = (if newindx < k then newindx else newindx - k)"
  proof (cases "newindx < k")
    case True
    with h2(3,4,5,7) nk k(1) copied show ?thesis
      by (simp add: split_reset_def Let_def op_simps s3_def top_ref_def top_ki_def)
  next
    case False
    moreover have "st_cursors s3 = st_cursors s2" by (simp add: s3_def)
    ultimately show ?thesis
      using h2(3,4,5,6,8) nk k(1) copied cur(2) pp
      by (simp add: split_reset_def Let_def op_simps top_ref_def top_ki_def)
  qed
  then show ?thesis using run p' r'(2,3) h2(2) ne by (auto simp: s3_def seqM_run simp del: move_nodes.simps)
qed

text \<open>
  C15: A leaf page \<open>p\<close> of at least two nodes, with a new node for the index \<open>newindx\<close>, is
  split at the point \<open>mdb_page_split\<close> finds. The property is about the splits where the code
  looks for a point that fits (fewer than 20 nodes, a new node of more than a sixteenth of the
  space, or one at the end; elsewhere the middle is taken unseen, and a half may not fit), about
  nodes, the new one included, of at most half the space of a page, and about a new item whose
  data is stored in its node and not reserved. There moving the nodes and resetting the page
  succeeds: after it the page holds the first \<open>k\<close> of the nodes, the sibling the rest, in
  order and byte for byte, with the new node at its place; both pages are well formed and
  neither is empty; and the cursor is on the new node.
\<close>

theorem split_leaf_nodes:
  assumes "leaf_split_ready s am ar ac p newindx key data flags" "2 \<le> NUMKEYS p"
    and "\<And>x. x \<in> set (page_nodes p) \<Longrightarrow> EVEN (length x) + 2 \<le> (me_psize (st_env s) - 16) div 2"
    and "nsize = mdb_leaf_size (me_nodemax (st_env s)) key data" "nsize \<le> (me_psize (st_env s) - 16) div 2"
    and "NUMKEYS p < 20 \<or> (me_psize (st_env s) - 16) div 16 < nsize \<or> newindx = NUMKEYS p"
    and "k = split_point (me_psize (st_env s)) p (mp_ptrs c) newindx nsize ((NUMKEYS p + 1) div 2)"
    and "st_heap s ar = Some r" "page_ok (me_psize (st_env s)) r" "IS_LEAF r" "page_nodes r = []"
    and "st_heap s ac = Some c" "page_ok (me_psize (st_env s)) c" "page_nodes c = []" "mp_flags c = mp_flags p"
      "mp_ptrs c = split_ptrs (mp_ptrs p) newindx dst 0 0 (NUMKEYS p)"
    and "top_ref (st_cursors s mc) = HeapPg ar" "ptop < mc_top (st_cursors s mc)"
      "page_at s (mc_pg (st_cursors s mc) ptop) \<noteq> None"
  shows "\<exists>s' p' r'. seqM (move_nodes mc (HeapPg am) (HeapPg ac) newindx (NUMKEYS p) k (Some key, Some data, pgno, flags) k 0 (NUMKEYS p + 1))
        (split_reset mc mn (HeapPg am) (HeapPg ar) (HeapPg ac) newindx k ptop) s = Some (s', Inr ()) \<and>
      st_heap s' am = Some p' \<and> page_ok (me_psize (st_env s)) p' \<and> page_nodes p' \<noteq> [] \<and>
      st_heap s' ar = Some r' \<and> page_ok (me_psize (st_env s)) r' \<and> page_nodes r' \<noteq> [] \<and>
      page_nodes p' @ page_nodes r' =
        insert_at newindx (leaf_node (ucast flags) (mv_size data) (val_bytes key) (val_bytes data)) (page_nodes p) \<and>
      NUMKEYS p' = k \<and>
      top_ref (st_cursors s' mc) = (if newindx < k then HeapPg am else HeapPg ar) \<and>
      top_ki (st_cursors s' mc) = (if newindx < k then newindx else newindx - k)"
proof -
  let ?L = "split_images p newindx key data flags"
  have ready: "page_ok (me_psize (st_env s)) p" "newindx \<le> NUMKEYS p" "val_ok key" "val_ok data"
    "8 + mv_size key + mv_size data \<le> me_nodemax (st_env s)"
    using assms(1) by (simp_all add: leaf_split_ready_def)
  have n: "nsize = EVEN (length (leaf_node (ucast flags :: u16) (mv_size data) (val_bytes key) (val_bytes data))) + 2"
    using ready(3-5) EVEN_2 [of "8 + mv_size key + mv_size data"]
    by (simp add: assms(4) mdb_leaf_size_def LEAFSIZE_def NODESIZE_def leaf_node_def length_mk_node val_ok_def
        add.commute [of _ "numeral n" for n] add.left_commute [of _ "numeral n" for n] del: length_take)
  have "even nsize" by (simp add: n)
  note fit = split_point_fits_spec [OF ready(1,2) assms(2) \<open>even nsize\<close> assms(5,3,6), of dst]
  have k: "0 < k" "k \<le> NUMKEYS p" and room: "nodes_room (take k ?L) \<le> me_psize (st_env s) - 16"
      "nodes_room (drop k ?L) \<le> me_psize (st_env s) - 16"
    using fit by (simp_all add: assms(7,16) nodes_room_split n)
  have len: "length ?L = NUMKEYS p + 1" using assms(1) by (rule length_split_images)
  obtain s' p' r' where s': "seqM (move_nodes mc (HeapPg am) (HeapPg ac) newindx (NUMKEYS p) k (Some key, Some data, pgno, flags) k 0 (NUMKEYS p + 1))
        (split_reset mc mn (HeapPg am) (HeapPg ar) (HeapPg ac) newindx k ptop) s = Some (s', Inr ())"
      "st_heap s' am = Some p'" "page_ok (me_psize (st_env s)) p'" "page_nodes p' = take k ?L"
      "st_heap s' ar = Some r'" "page_ok (me_psize (st_env s)) r'" "page_nodes r' = drop k ?L"
      "top_ref (st_cursors s' mc) = (if newindx < k then HeapPg am else HeapPg ar)"
      "top_ki (st_cursors s' mc) = (if newindx < k then newindx else newindx - k)"
    using split_moves [where pgno = pgno and mn = mn, OF assms(1) k assms(8-11) assms(12-19) room] by blast
  have "page_nodes p' \<noteq> []" "page_nodes r' \<noteq> []" "page_nodes p' @ page_nodes r' = ?L"
    using s'(4,7) len k by auto
  moreover have "NUMKEYS p' = k" using arg_cong [OF s'(4), of length] len k by simp
  ultimately show ?thesis using s' by (auto simp: split_images_def)
qed

text \<open>The page of 20 nodes again, with a value of 242 bytes for its end.\<close>

definition uneven_state :: mdb_state where
  "uneven_state = state0\<lparr>st_env := env0\<lparr>me_psize := 4096, me_nodemax := 2038\<rparr>,
     st_heap := [4 \<mapsto> uneven_page, 2 \<mapsto> empty_page 4096 P_LEAF,
       3 \<mapsto> (empty_page 4096 P_LEAF)\<lparr>mp_ptrs := split_ptrs (mp_ptrs uneven_page) 20 (\<lambda>_. 0) 0 0 20\<rparr>],
     st_cursors := (\<lambda>_. \<lparr>mc_dbi = 1, mc_snum = 2, mc_top = 1, mc_flags = 0,
       mc_pg = (\<lambda>i. if i = 0 then MapPg 2 else HeapPg 2), mc_ki = (\<lambda>i. if i = 0 then 0 else 20)\<rparr>)\<rparr>"

theorem split_leaf_nodes_witness:
  "\<exists>k s' p' r'. seqM (move_nodes 0 (HeapPg 4) (HeapPg 3) 20 20 k
        (Some \<lparr>mv_size = 2, mv_data = [1, 30]\<rparr>, Some \<lparr>mv_size = 242, mv_data = replicate 242 7\<rparr>, 0, 0) k 0 21)
      (split_reset 0 1 (HeapPg 4) (HeapPg 2) (HeapPg 3) 20 k 0) uneven_state = Some (s', Inr ()) \<and>
    st_heap s' 4 = Some p' \<and> st_heap s' 2 = Some r' \<and>
    page_nodes p' @ page_nodes r' = page_nodes uneven_page @ [leaf_node 0 242 [1, 30] (replicate 242 7)]"
proof -
  let ?key = "\<lparr>mv_size = 2, mv_data = [1, 30]\<rparr> :: mdb_val"
  let ?data = "\<lparr>mv_size = 242, mv_data = replicate 242 7\<rparr> :: mdb_val"
  let ?c = "(empty_page 4096 P_LEAF)\<lparr>mp_ptrs := split_ptrs (mp_ptrs uneven_page) 20 (\<lambda>_. 0) 0 0 20\<rparr>"
  have f: "me_psize (st_env uneven_state) = 4096" "me_nodemax (st_env uneven_state) = 2038"
    "st_heap uneven_state 4 = Some uneven_page" "st_heap uneven_state 2 = Some (empty_page 4096 P_LEAF)"
    "st_heap uneven_state 3 = Some ?c" "top_ref (st_cursors uneven_state 0) = HeapPg 2"
    "0 < mc_top (st_cursors uneven_state 0)" "page_at uneven_state (mc_pg (st_cursors uneven_state 0) 0) \<noteq> None"
    by (simp_all add: uneven_state_def top_ref_def)
  have small: "length x \<le> 394" if "x \<in> set (page_nodes uneven_page)" for x
  proof -
    have "length x \<in> set (map length (page_nodes uneven_page))" using that by simp
    then show ?thesis by (auto simp: uneven_page_nodes)
  qed
  have ready: "leaf_split_ready uneven_state 4 2 3 uneven_page 20 ?key ?data 0"
    by (simp add: leaf_split_ready_def f uneven_page_fields uneven_page_ok uneven_node_len val_ok_def F_ISSET_def MDB_RESERVE_def)
  have fl: "IS_LEAF (empty_page 4096 P_LEAF)" "\<not> F_ISSET P_LEAF P_LEAF2" "mp_flags uneven_page = P_LEAF"
    "mp_flags (empty_page 4096 P_LEAF) = P_LEAF"
    by (simp_all add: empty_page_def IS_LEAF_def F_ISSET_def P_LEAF_def P_LEAF2_def uneven_page_def)
  note e = empty_page_ok [of 4096 P_LEAF, simplified fl, simplified]
  have c: "page_ok 4096 ?c" "page_nodes ?c = []"
    using page_same [of 4096 "empty_page 4096 P_LEAF" ?c] e by simp_all
  have nsize: "mdb_leaf_size 2038 ?key ?data = 254"
    by (simp add: mdb_leaf_size_def LEAFSIZE_def NODESIZE_def EVEN_def)
  have "EVEN (length x) + 2 \<le> 2040" if "x \<in> set (page_nodes uneven_page)" for x
    using small [OF that] EVEN_le [of "length x"] by simp
  then show ?thesis
    using split_leaf_nodes [where dst = "\<lambda>_. 0", OF ready, where nsize = 254 and r = "empty_page 4096 P_LEAF" and c = ?c
        and mc = 0 and mn = 1 and ptop = 0 and pgno = 0] f fl e c nsize
    by (auto simp: uneven_page_fields insert_at_def)
qed

end
