(* ===== verification/Frame.thy ===== *)
theory Frame
  imports Dbi
begin

text \<open>
  What operations leave alone. \<open>keeps R m\<close> says that \<open>R\<close> relates the state before to the state
  after every run of \<open>m\<close>, successful or not. The locales are contracts of growing strength on
  \<open>R\<close>: the changes that reading makes, those that writing makes in memory, those that
  flushing makes in the file. Under each the operations of that kind keep \<open>R\<close>.
\<close>

definition keeps :: "(mdb_state \<Rightarrow> mdb_state \<Rightarrow> bool) \<Rightarrow> 'a op \<Rightarrow> bool" where
  "keeps R m \<longleftrightarrow> (\<forall>s s' r. m s = Some (s', r) \<longrightarrow> R s s')"

named_theorems keep \<open>rules for operations that keep a relation\<close>

lemma keepsI: "(\<And>s s' r. m s = Some (s', r) \<Longrightarrow> R s s') \<Longrightarrow> keeps R m"
  by (simp add: keeps_def)

lemma keepsD: "keeps R m \<Longrightarrow> m s = Some (s', r) \<Longrightarrow> R s s'"
  by (auto simp: keeps_def)

text \<open>The branches of the model's operations.\<close>

lemma keeps_if [keep]: "(b \<Longrightarrow> keeps R m) \<Longrightarrow> (\<not> b \<Longrightarrow> keeps R n) \<Longrightarrow> keeps R (if b then m else n)"
  by simp

lemma keeps_option [keep]:
  "keeps R m \<Longrightarrow> (\<And>x. keeps R (n x)) \<Longrightarrow> keeps R (case v of None \<Rightarrow> m | Some x \<Rightarrow> n x)"
  by (cases v) simp_all

lemma keeps_sum [keep]:
  "(\<And>x. keeps R (m x)) \<Longrightarrow> (\<And>x. keeps R (n x)) \<Longrightarrow> keeps R (case v of Inl x \<Rightarrow> m x | Inr x \<Rightarrow> n x)"
  by (cases v) simp_all

lemma keeps_pair [keep]: "(\<And>x y. keeps R (m x y)) \<Longrightarrow> keeps R (case v of (x, y) \<Rightarrow> m x y)"
  by (cases v) simp

lemma keeps_nat [keep]: "keeps R m \<Longrightarrow> (\<And>i. keeps R (n i)) \<Longrightarrow> keeps R (case v of 0 \<Rightarrow> m | Suc i \<Rightarrow> n i)"
  by (cases v) simp_all

lemma keeps_ref [keep]:
  "keeps R m \<Longrightarrow> (\<And>x. keeps R (n x)) \<Longrightarrow> (\<And>x. keeps R (l x)) \<Longrightarrow>
    keeps R (case v of NullPg \<Rightarrow> m | MapPg x \<Rightarrow> n x | HeapPg x \<Rightarrow> l x)"
  by (cases v) simp_all

lemma keeps_set_where [keep]:
  "keeps R m1 \<Longrightarrow> keeps R m2 \<Longrightarrow> keeps R m3 \<Longrightarrow> (\<And>e. keeps R (m4 e)) \<Longrightarrow>
    keeps R (case w of At_set1 \<Rightarrow> m1 | At_set2 \<Rightarrow> m2 | From_root \<Rightarrow> m3 | Set_fails e \<Rightarrow> m4 e)"
  by (cases w) simp_all

lemma keeps_put_at [keep]:
  "keeps R m1 \<Longrightarrow> keeps R m2 \<Longrightarrow> keeps R m3 \<Longrightarrow> (\<And>d. keeps R (m4 d)) \<Longrightarrow>
    keeps R (case w of Key_found \<Rightarrow> m1 | Key_missing \<Rightarrow> m2 | No_root \<Rightarrow> m3 | Key_exists d \<Rightarrow> m4 d)"
  by (cases w) simp_all

lemma keeps_written [keep]:
  "(\<And>n. keeps R (m n)) \<Longrightarrow> (\<And>e n. keeps R (l e n)) \<Longrightarrow>
    keeps R (case w of Wrote n \<Rightarrow> m n | Write_failed e n \<Rightarrow> l e n)"
  by (cases w) simp_all

section \<open>Reflexive and transitive relations\<close>

locale state_relation =
  fixes R :: "mdb_state \<Rightarrow> mdb_state \<Rightarrow> bool"
  assumes R_refl: "R s s"
    and R_trans: "R s s1 \<Longrightarrow> R s1 s2 \<Longrightarrow> R s s2"
begin

lemma keeps_ret [keep]: "keeps R (ret x)"
  and keeps_err [keep]: "keeps R (err e)"
  and keeps_stuck [keep]: "keeps R stuck"
  and keeps_getM [keep]: "keeps R (getM f)"
  and keeps_assertM [keep]: "keeps R (assertM P)"
  and keeps_curM [keep]: "keeps R (curM mc)"
  by (auto simp: keeps_def op_simps R_refl split: if_splits)

lemma keeps_pageM [keep]: "keeps R (pageM r)"
  by (auto simp: keeps_def pageM_def R_refl split: option.splits)

lemma keeps_bindM [keep]: "keeps R m \<Longrightarrow> (\<And>x. keeps R (f x)) \<Longrightarrow> keeps R (bindM m f)"
  unfolding keeps_def bindM_def by (auto split: option.splits sum.splits) (blast intro: R_trans)+

lemma keeps_tryM [keep]: "keeps R m \<Longrightarrow> (\<And>x. keeps R (f x)) \<Longrightarrow> keeps R (tryM m f)"
  unfolding keeps_def tryM_def by (auto split: option.splits) (blast intro: R_trans)

lemma keeps_seqM [keep]: "keeps R m \<Longrightarrow> keeps R n \<Longrightarrow> keeps R (seqM m n)"
  unfolding seqM_def by (intro keeps_bindM)

lemma keeps_whenM [keep]: "(b \<Longrightarrow> keeps R m) \<Longrightarrow> keeps R (whenM b m)"
  unfolding whenM_def by (intro keep)

lemma keeps_onfail [keep]: "keeps R m \<Longrightarrow> (\<And>s. R s (f s)) \<Longrightarrow> keeps R (onfail f m)"
  unfolding keeps_def onfail_def by (auto split: option.splits prod.splits sum.splits) (blast intro: R_trans)+

lemma keeps_updM [keep]: "(\<And>s. R s (f s)) \<Longrightarrow> keeps R (updM f)"
  by (auto simp: keeps_def op_simps)

end

text \<open>A transaction keeps its number and whether it is read-only.\<close>

definition txn_kept :: "mdb_txn \<Rightarrow> mdb_txn \<Rightarrow> bool" where
  "txn_kept t t' \<longleftrightarrow> mt_txnid t' = mt_txnid t \<and>
     F_ISSET (mt_flags t') MDB_TXN_RDONLY = F_ISSET (mt_flags t) MDB_TXN_RDONLY"

lemma error_not_rdonly [simp, keep]: "MDB_TXN_ERROR AND MDB_TXN_RDONLY = 0" "MDB_TXN_DIRTY AND MDB_TXN_RDONLY = 0"
  "MDB_TXN_SPILLS AND MDB_TXN_RDONLY = 0"
  by (simp_all add: MDB_TXN_ERROR_def MDB_TXN_DIRTY_def MDB_TXN_SPILLS_def MDB_TXN_RDONLY_def)

lemma rdonly_or [simp]: "F_ISSET (a OR b) MDB_TXN_RDONLY \<longleftrightarrow> F_ISSET a MDB_TXN_RDONLY \<or> F_ISSET b MDB_TXN_RDONLY"
proof -
  have "F_ISSET w MDB_TXN_RDONLY \<longleftrightarrow> bit w 0" for w :: u32
    by (auto simp: F_ISSET_def MDB_TXN_RDONLY_def and_one_eq bit_0 mod2_eq_if)
  then show ?thesis by (simp add: bit_simps)
qed

lemma error_rdonly [simp]: "\<not> F_ISSET MDB_TXN_ERROR MDB_TXN_RDONLY" "\<not> F_ISSET MDB_TXN_DIRTY MDB_TXN_RDONLY"
  "\<not> F_ISSET MDB_TXN_SPILLS MDB_TXN_RDONLY"
  by (simp_all add: F_ISSET_def MDB_TXN_RDONLY_def MDB_TXN_ERROR_def MDB_TXN_DIRTY_def MDB_TXN_SPILLS_def)

lemma other_flags_rdonly: "fl AND MDB_TXN_RDONLY = 0 \<Longrightarrow> \<not> F_ISSET fl MDB_TXN_RDONLY"
  by (simp add: F_ISSET_def MDB_TXN_RDONLY_def)

declare txn_kept_def [simp]

text \<open>An operation that comes after others: \<open>R\<close> relates the state \<open>s\<close> before them to the one after it.\<close>

definition keeps_from :: "mdb_state \<Rightarrow> (mdb_state \<Rightarrow> mdb_state \<Rightarrow> bool) \<Rightarrow> 'a op \<Rightarrow> bool" where
  "keeps_from s R m \<longleftrightarrow> (\<forall>s1 s2 r. R s s1 \<longrightarrow> m s1 = Some (s2, r) \<longrightarrow> R s s2)"

lemma keeps_fromD: "keeps_from s R m \<Longrightarrow> R s s1 \<Longrightarrow> m s1 = Some (s2, r) \<Longrightarrow> R s s2"
  unfolding keeps_from_def by blast

lemma keeps_from_bindM:
  assumes m: "keeps_from s R m" and f: "\<And>x. keeps_from s R (f x)"
  shows "keeps_from s R (bindM m f)"
  unfolding keeps_from_def
proof (intro allI impI)
  fix s1 s2 r
  assume s1: "R s s1" and run: "bindM m f s1 = Some (s2, r)"
  then obtain t q where t: "m s1 = Some (t, q)" by (cases "m s1") (auto simp: bindM_def)
  note st = keeps_fromD [OF m s1 t]
  show "R s s2"
  proof (cases q)
    case (Inl e)
    then show ?thesis using run t st by (simp add: bindM_def)
  next
    case (Inr x)
    then have "f x t = Some (s2, r)" using run t by (simp add: bindM_def)
    then show ?thesis by (rule keeps_fromD [OF f st])
  qed
qed

lemma keeps_from_seqM: "keeps_from s R m \<Longrightarrow> keeps_from s R n \<Longrightarrow> keeps_from s R (seqM m n)"
  unfolding seqM_def by (intro keeps_from_bindM)

lemma keeps_from_cases:
  "(b \<Longrightarrow> keeps_from s R m) \<Longrightarrow> (\<not> b \<Longrightarrow> keeps_from s R n) \<Longrightarrow> keeps_from s R (if b then m else n)"
  "keeps_from s R m \<Longrightarrow> (\<And>x. keeps_from s R (l x)) \<Longrightarrow> keeps_from s R (case v of None \<Rightarrow> m | Some x \<Rightarrow> l x)"
  "(\<And>x y. keeps_from s R (k x y)) \<Longrightarrow> keeps_from s R (case w of (x, y) \<Rightarrow> k x y)"
  by (simp, cases v, simp_all, cases w, simp)

context state_relation
begin

lemma keeps_from_keeps: "keeps R m \<Longrightarrow> keeps_from s R m"
  unfolding keeps_def keeps_from_def by (blast intro: R_trans)

end

text \<open>The record \<open>rec\<close> of the database \<open>i\<close> is read in.\<close>

definition read_in :: "nat \<Rightarrow> mdb_db \<Rightarrow> mdb_txn \<Rightarrow> mdb_txn" where
  "read_in i rec t = t\<lparr>mt_dbs := (mt_dbs t)(i := rec), mt_dbflags := (mt_dbflags t)(i := clear_flag (mt_dbflags t i) DB_STALE)\<rparr>"

section \<open>Reading\<close>

text \<open>
  Reading moves cursors, may mark the transaction as failed, and may store the record of a
  database in it that was stale when the operation began, and only the record of such a one.
\<close>

locale reading_relation = state_relation +
  assumes R_cursors [keep]: "R s (s\<lparr>st_cursors := cs\<rparr>)"
    and R_cfresh [keep]: "R s (s\<lparr>st_cfresh := n\<rparr>)"
    and R_failed [keep]: "R s (s\<lparr>st_txn := (st_txn s)\<lparr>mt_flags := mt_flags (st_txn s) OR MDB_TXN_ERROR\<rparr>\<rparr>)"
    and R_stale: "R s s1 \<Longrightarrow> any_set (mt_dbflags (st_txn s) i) DB_STALE \<Longrightarrow> R s (s1\<lparr>st_txn := read_in i rec (st_txn s1)\<rparr>)"
begin

lemma keeps_upd_curM [keep]: "keeps R (upd_curM mc f)"
  unfolding upd_curM_def by (intro keep)

lemma keeps_new_cursor [keep]: "keeps R new_cursor"
  by (rule keepsI) (auto simp: new_cursor_def R_cfresh)

lemma keeps_topM [keep]: "keeps R (topM mc)"
  and keeps_page_get [keep]: "keeps R (mdb_page_get pg)"
  and keeps_cursor_push [keep]: "keeps R (mdb_cursor_push mc r)"
  and keeps_cmpM [keep]: "keeps R (cmpM mc a b)"
  and keeps_node_searchM [keep]: "keeps R (node_searchM mc key)"
  and keeps_node_read [keep]: "keeps R (mdb_node_read m leaf)"
  and keeps_root_cached [keep]: "keeps R (root_cached r root)"
  unfolding topM_def mdb_page_get_def mdb_cursor_push_def cmpM_def node_searchM_def mdb_node_read_def
    root_cached_def Let_def
  by (intro keep)+

lemma keeps_search_child [keep]: "keeps R (search_child mc mp key flags)"
  unfolding search_child_def by (intro keep)

lemma keeps_search_root_loop [keep]:
  assumes [keep]: "\<And>mc. keeps R (touch mc)"
  shows "keeps R (search_root_loop fuel touch mc mpr key flags)"
proof (induction fuel arbitrary: mc mpr)
  case 0
  show ?case by (subst search_root_loop.simps, simp only: nat.case, intro keep)
next
  case (Suc fuel)
  note Suc.IH [keep]
  show ?case by (subst search_root_loop.simps, simp only: nat.case, intro keep)
qed

lemma keeps_page_search_root [keep]: "(\<And>mc. keeps R (touch mc)) \<Longrightarrow> keeps R (mdb_page_search_root touch mc key flags)"
  unfolding mdb_page_search_root_def by (intro keep)

lemma keeps_page_search_lowest [keep]: "keeps R (mdb_page_search_lowest mc)"
  unfolding mdb_page_search_lowest_def by (intro keep)

lemma keeps_cursor_init_with [keep]: "(\<And>mc. keeps R (search mc)) \<Longrightarrow> keeps R (cursor_init_with search mc dbi)"
  unfolding cursor_init_with_def by (intro keep)

text \<open>The record of a stale database is read in; the search asks before whether it is stale.\<close>

lemma read_stale_db_from:
  assumes [keep]: "\<And>mc key flags. keeps R (search mc key flags)"
    and stale: "any_set (mt_dbflags (st_txn s) (mc_dbi (st_cursors s mc))) DB_STALE"
    and run: "read_stale_db search mc s = Some (s', r)"
  shows "R s s'"
proof -
  let ?i = "mc_dbi (st_cursors s mc)"
  have store: "keeps_from s R (txnM (\<lambda>t. t\<lparr>mt_dbs := (mt_dbs t)(?i := rec),
      mt_dbflags := (mt_dbflags t)(?i := clear_flag (mt_dbflags t ?i) DB_STALE)\<rparr>))" for rec
    using R_stale [OF _ stale, of _ rec] by (auto simp: keeps_from_def op_simps read_in_def)
  obtain m where m: "read_stale_db search mc = bindM (curM mc) m" and kept: "keeps_from s R (m (st_cursors s mc))"
  proof
    show "read_stale_db search mc = bindM (curM mc) (\<lambda>c.
     bindM (getM (\<lambda>s. (TXN_DBI_CHANGED s (mc_dbi c), md_name (me_dbxs (st_env s) (mc_dbi c))))) (\<lambda>(changed, name).
     if changed then err MDB_BAD_DBI
     else
       bindM new_cursor (\<lambda>mc2.
       seqM (cursor_init_with (\<lambda>mc. search mc None MDB_PS_ROOTONLY) mc2 MAIN_DBI)
       (seqM (search mc2 name 0)
       (case name of None \<Rightarrow> stuck
        | Some nm \<Rightarrow>
            bindM (node_searchM mc2 nm) (\<lambda>(exact, leaf).
            if \<not> exact then err MDB_NOTFOUND
            else (case leaf of None \<Rightarrow> stuck
             | Some node \<Rightarrow>
                 bindM (topM mc2) (\<lambda>mp.
                 bindM (mdb_node_read (mp_body mp) node) (\<lambda>data.
                 bindM (getM (\<lambda>s. cursor_db s mc)) (\<lambda>db.
                 if md_flags db AND PERSISTENT_FLAGS \<noteq> db_flags_in data then err MDB_INCOMPATIBLE
                 else txnM (\<lambda>t. t\<lparr>mt_dbs := (mt_dbs t)(mc_dbi c := bytes_db data),
                                 mt_dbflags := (mt_dbflags t)(mc_dbi c := clear_flag (mt_dbflags t (mc_dbi c)) DB_STALE)\<rparr>)))))))))))"
      by (simp add: read_stale_db_def)
  qed (intro keeps_from_bindM keeps_from_seqM keeps_from_cases store; rule keeps_from_keeps; intro keep)+
  have "m (st_cursors s mc) s = Some (s', r)" using run by (simp add: m bindM_def op_simps)
  then show ?thesis by (rule keeps_fromD [OF kept R_refl])
qed

lemma keeps_if_stale:
  assumes [keep]: "\<And>mc key flags. keeps R (search mc key flags)" "\<And>c. keeps R (rest c)"
  shows "keeps R (bindM (getM st_txn) (\<lambda>txn.
    if F_ISSET (mt_flags txn) MDB_TXN_ERROR then err MDB_BAD_TXN
    else bindM (curM mc) (\<lambda>c.
      seqM (if any_set (mt_dbflags txn (mc_dbi c)) DB_STALE then read_stale_db search mc else ret ()) (rest c))))"
proof (rule keepsI)
  fix s s' r
  assume run: "bindM (getM st_txn) (\<lambda>txn.
    if F_ISSET (mt_flags txn) MDB_TXN_ERROR then err MDB_BAD_TXN
    else bindM (curM mc) (\<lambda>c.
      seqM (if any_set (mt_dbflags txn (mc_dbi c)) DB_STALE then read_stale_db search mc else ret ()) (rest c))) s = Some (s', r)"
  let ?c = "st_cursors s mc"
  show "R s s'"
  proof (cases "any_set (mt_dbflags (st_txn s) (mc_dbi ?c)) DB_STALE \<and> \<not> F_ISSET (mt_flags (st_txn s)) MDB_TXN_ERROR")
    case True
    then obtain s1 q where s1: "read_stale_db search mc s = Some (s1, q)"
      and rest: "(case q of Inl e \<Rightarrow> Some (s1, Inl e) | Inr _ \<Rightarrow> rest ?c s1) = Some (s', r)"
      using run by (auto simp: bindM_def seqM_def op_simps split: option.splits)
    have "R s s1" by (rule read_stale_db_from [OF assms(1) _ s1]) (use True in simp)
    moreover have "R s1 s'" using rest keepsD [OF assms(2)] R_refl by (auto split: sum.splits)
    ultimately show ?thesis by (rule R_trans)
  next
    case False
    then show ?thesis
      using run R_refl keepsD [OF assms(2)] by (auto simp: bindM_def seqM_def op_simps split: if_splits)
  qed
qed

lemma keeps_page_search_n:
  "(\<And>mc. keeps R (touch mc)) \<Longrightarrow> keeps R (page_search n touch mc key flags)"
proof (induction n arbitrary: touch mc key flags)
  case 0
  note 0 [keep]
  show ?case by (subst page_search.simps, simp only: nat.case, intro keep)
next
  case (Suc n)
  note Suc.prems [keep]
  have [keep]: "keeps R (page_search n (\<lambda>_. stuck) mc key flags)" for mc key flags
    by (rule Suc.IH) (rule keeps_stuck)
  show ?case by (subst page_search.simps, simp only: nat.case, rule keeps_if_stale; intro keep)
qed

lemma keeps_page_search [keep]: "(\<And>mc. keeps R (touch mc)) \<Longrightarrow> keeps R (mdb_page_search touch mc key flags)"
  unfolding mdb_page_search_def by (rule keeps_page_search_n)

lemma keeps_cursor_init [keep]: "keeps R (mdb_cursor_init mc dbi)"
  unfolding mdb_cursor_init_def by (intro keep)

lemma keeps_sibling_child [keep]: "keeps R (sibling_child mc right)"
  unfolding sibling_child_def by (intro keep)

lemma keeps_cursor_sibling_n [keep]: "keeps R (cursor_sibling n mc right)"
proof (induction n)
  case 0
  show ?case by (subst cursor_sibling.simps, simp only: nat.case, intro keep)
next
  case (Suc n)
  note Suc.IH [keep]
  show ?case by (subst cursor_sibling.simps, simp only: nat.case, intro keep)
qed

lemma keeps_cursor_sibling [keep]: "keeps R (mdb_cursor_sibling mc right)"
  unfolding mdb_cursor_sibling_def by (intro keep)

lemma keeps_node_item [keep]: "keeps R (node_item want mp leaf)"
  and keeps_plain_db [keep]: "keeps R (plain_db mc)"
  unfolding node_item_def plain_db_def by (intro keep)+

lemma keeps_item_at [keep]: "keeps R (item_at mc want)"
  unfolding item_at_def by (intro keep)

lemma keeps_parent_has_right [keep]: "keeps R (parent_has_right mc i n)"
  by (induction n arbitrary: i) (unfold parent_has_right.simps, (intro keep | assumption)+)

lemma keeps_set_on_page [keep]: "keeps R (set_on_page mc key oper exactp)"
  unfolding set_on_page_def Let_def by (intro keep)

lemma keeps_cursor_set1 [keep]: "keeps R (cursor_set1 mc key want oper)"
  unfolding cursor_set1_def Let_def by (intro keep)

lemma keeps_cursor_set2 [keep]: "keeps R (cursor_set2 mc key want oper exactp)"
  unfolding cursor_set2_def by (intro keep)

lemma keeps_cursor_moves [keep]:
  "keeps R (mdb_cursor_next mc want)" "keeps R (mdb_cursor_prev mc want)"
  "keeps R (mdb_cursor_first mc want)" "keeps R (mdb_cursor_last mc want)"
  "keeps R (mdb_cursor_set mc key want oper exactp)"
  unfolding mdb_cursor_next_def mdb_cursor_prev_def mdb_cursor_first_def mdb_cursor_last_def mdb_cursor_set_def
  by (intro keep)+

lemma keeps_cursor_get [keep]: "keeps R (mdb_cursor_get mc key want oper)"
  unfolding mdb_cursor_get_def Let_def by (cases oper; simp only: cursor_op.case; intro keep)

lemma keeps_get [keep]: "keeps R (mdb_get dbi key want)"
  unfolding mdb_get_def by (intro keep)

lemma keeps_found_or_missing [keep]: "keeps R (found_or_missing r m)" if "\<And>x. keeps R (m x)"
  unfolding found_or_missing_def by (intro keep that)

lemma keeps_put_position [keep]: "keeps R (put_position mc key flags)"
  unfolding put_position_def Let_def by (intro keep)

lemma keeps_stat [keep]: "keeps R (mdb_stat dbi)"
  unfolding mdb_stat_def by (intro keep)

end

section \<open>Writing in memory\<close>

text \<open>What no operation of a transaction but the last step of its commit changes in the environment.\<close>

definition env_frame :: "mdb_env \<Rightarrow> mdb_env \<Rightarrow> bool" where
  "env_frame e e' \<longleftrightarrow> me_metas e' = me_metas e \<and> me_flags e' = me_flags e \<and> me_psize e' = me_psize e \<and>
     me_mapsize e' = me_mapsize e \<and> me_maxpg e' = me_maxpg e \<and> me_nodemax e' = me_nodemax e \<and>
     map_option mti_txnid (me_txns e') = map_option mti_txnid (me_txns e)"

lemma env_frame_dbis_update [simp]: "env_frame e (mdb_dbis_update txn k e)"
proof -
  have "env_frame e (dbis_update_loop txn k n e)" for n
    by (induction n arbitrary: e) (auto simp: env_frame_def split: if_splits)
  then show ?thesis by (cases k) (simp_all add: mdb_dbis_update_def Let_def env_frame_def)
qed

lemma env_frame_upd_reader [simp]: "env_frame e (upd_reader i f e)"
  by (cases "me_txns e") (simp_all add: upd_reader_def env_frame_def)

locale writing_relation = state_relation +
  assumes W_cursors [keep]: "R s (s\<lparr>st_cursors := cs\<rparr>)"
    and W_cfresh [keep]: "R s (s\<lparr>st_cfresh := n\<rparr>)"
    and W_heap [keep]: "R s (s\<lparr>st_heap := h\<rparr>)"
    and W_fresh [keep]: "R s (s\<lparr>st_fresh := n\<rparr>)"
    and W_clock [keep]: "R s (s\<lparr>st_clock := n\<rparr>)"
    and W_txn [keep]: "txn_kept (st_txn s) t \<Longrightarrow> R s (s\<lparr>st_txn := t\<rparr>)"
    and W_env [keep]: "env_frame (st_env s) e \<Longrightarrow> R s (s\<lparr>st_env := e\<rparr>)"
    and W_page: "set_page s r p = Some s' \<Longrightarrow> R s s'"

sublocale writing_relation < reading_relation
proof unfold_locales
  show "R s (s1\<lparr>st_txn := read_in i rec (st_txn s1)\<rparr>)" if "R s s1" for s s1 i rec
    by (rule R_trans [OF that W_txn]) (simp add: read_in_def)
qed (intro keep; simp)+

context writing_relation
begin

lemma keeps_set_pageM [keep]: "keeps R (set_pageM r p)"
  by (rule keepsI) (auto simp: set_pageM_def split: option.splits intro: W_page)

lemma keeps_upd_pageM [keep]: "keeps R (upd_pageM r f)"
  unfolding upd_pageM_def by (intro keep)

lemma keeps_askM [keep]: "keeps R askM"
  and keeps_next_call [keep]: "keeps R next_call"
  by (auto simp: keeps_def op_simps next_call_def W_clock)

lemma keeps_idlM [keep]: "keeps R (idlM f l)"
  unfolding idlM_def by (intro keep)

lemma W_new_heap [keep]: "R s (s\<lparr>st_fresh := n, st_heap := h\<rparr>)"
  by (rule R_trans [OF W_fresh]) (rule W_heap)

lemma W_fail_txn [keep]: "R s (fail_txn s)"
  unfolding fail_txn_def by (rule W_txn) simp

lemma keeps_page_malloc [keep]: "keeps R (mdb_page_malloc n)"
  unfolding mdb_page_malloc_def Let_def by (intro keep; simp add: env_frame_def)

lemma keeps_page_free [keep]: "keeps R (mdb_page_free r)"
  unfolding mdb_page_free_def by (intro keep; simp add: env_frame_def)

lemma keeps_dpage_free [keep]: "keeps R (mdb_dpage_free r)"
  unfolding mdb_dpage_free_def by (intro keep)

lemma keeps_dlist_free_loop [keep]: "keeps R (dlist_free_loop dl i n)"
  by (induction n arbitrary: i) (simp_all only: dlist_free_loop.simps, (intro keep | assumption)+)

lemma keeps_dlist_free [keep]: "keeps R mdb_dlist_free"
  unfolding mdb_dlist_free_def by (intro keep; simp)

lemma keeps_page_dirty [keep]: "keeps R (mdb_page_dirty r)"
  unfolding mdb_page_dirty_def by (intro keep; simp)

subsection \<open>Allocation\<close>

lemma keeps_too_recent [keep]: "keeps R (too_recent v)"
  unfolding too_recent_def by (intro keep; simp add: env_frame_def)

lemma keeps_merge_record [keep]: "keeps R (merge_record data txnid)"
  unfolding merge_record_def Let_def by (intro keep; simp add: env_frame_def)

lemma keeps_fetch_first [keep]: "keeps R fetch_first"
  unfolding fetch_first_def by (intro keep)

lemma keeps_fetch_record [keep]: "keeps R (fetch_record v)"
  unfolding fetch_record_def by (intro keep)

lemma keeps_alloc_search [keep]: "keeps R (alloc_search num retry v)"
proof (rule keepsI)
  fix s s' r
  assume ret: "alloc_search num retry v s = Some (s', r)"
  have "R s (fst (s', r))"
  proof (rule alloc_search.raw_induct [where P = "\<lambda>num retry v s y. R s (fst y)", OF _ ret])
    fix f num retry v s y
    assume IH: "\<And>num retry v s y. f num retry v s = Some y \<Longrightarrow> R s (fst y)"
      and eq: "(let mop = pghead_ids s; n2 = num - 1; mop_len = unat (mop ! 0); big = mop_len > n2;
          found = (if big then find_range mop n2 mop_len else None);
          retry = (if big then retry - 1 else retry)
      in if found \<noteq> None then Some (s, Inr found)
         else if big \<and> retry < 0 then Some (s, Inr None)
         else
           (case (case v of None \<Rightarrow> fetch_first s | Some v \<Rightarrow> Some (s, Inr v)) of
              None \<Rightarrow> None
            | Some (s, Inl e) \<Rightarrow> Some (s, Inl e)
            | Some (s, Inr v) \<Rightarrow>
                (case fetch_record v s of
                   None \<Rightarrow> None
                 | Some (s, Inl e) \<Rightarrow> Some (s, Inl e)
                 | Some (s, Inr (goes_on, v)) \<Rightarrow>
                     if goes_on then f num retry (Some v) s else Some (s, Inr None)))) = Some y"
    show "R s (fst y)"
      using eq
      by (auto simp: Let_def R_refl split: if_splits option.splits sum.splits prod.splits
        dest!: IH keepsD [OF keeps_fetch_first] keepsD [OF keeps_fetch_record] intro: R_trans)
  qed
  then show "R s s'" by simp
qed

lemma keeps_take_pages [keep]: "keeps R (take_pages num found)"
  unfolding take_pages_def Let_def by (intro keep; simp add: env_frame_def)

lemma keeps_page_alloc [keep]: "keeps R (mdb_page_alloc num)"
  unfolding mdb_page_alloc_def by (intro keep; simp)

lemma keeps_page_new [keep]: "keeps R (mdb_page_new mc flags num)"
  unfolding mdb_page_new_def Let_def by (intro keep; simp)

lemma keeps_page_loose [keep]: "keeps R (mdb_page_loose mc r)"
  unfolding mdb_page_loose_def by (intro keep; simp)

lemma keeps_ovpage_free [keep]: "keeps R (mdb_ovpage_free mc r)"
  unfolding mdb_ovpage_free_def Let_def by (intro keep; simp add: env_frame_def)

lemma keeps_page_unspill [keep]: "keeps R (mdb_page_unspill r)"
  unfolding mdb_page_unspill_def Let_def by (intro keep; simp)

lemma keeps_redirect_cursors [keep]: "keeps R (redirect_cursors ms snum lvl mp np)"
  by (induction ms) (simp_all only: redirect_cursors.simps, (intro keep | assumption)+)

lemma keeps_touch_done [keep]: "keeps R (touch_done mc mp np)"
  unfolding touch_done_def by (intro keep)

lemma keeps_touch_copy [keep]: "keeps R (touch_copy mc mp p)"
  unfolding touch_copy_def Let_def by (intro keep; simp)

lemma keeps_page_touch [keep]: "keeps R (mdb_page_touch mc)"
  unfolding mdb_page_touch_def Let_def by (intro keep)

subsection \<open>Nodes and splits\<close>

lemma keeps_upd_dbM [keep]: "keeps R (upd_dbM mc f)"
  unfolding upd_dbM_def by (intro keep; simp)

lemma keeps_cursor_copy [keep]: "keeps R (mdb_cursor_copy mc mn)"
  unfolding mdb_cursor_copy_def by (intro keep)

lemma node_add_state:
  assumes "mdb_node_add page_new pad nodemax psize st mtf mp indx key data pgno flags = Some (st', mtf', x)"
  shows "(st' = st \<or> (\<exists>n z. page_new st n = (st', z))) \<and> (mtf' = mtf \<or> mtf' = mtf OR MDB_TXN_ERROR)"
  using assms
  by (auto simp: mdb_node_add_def Let_def split: if_splits option.splits sum.splits prod.splits)

lemma ovpage_new_keeps: "ovpage_new mc (Some (s, r)) n = (Some (s', r'), x) \<Longrightarrow> R s s'"
  by (auto simp: ovpage_new_def split: option.splits sum.splits prod.splits dest: keepsD [OF keeps_page_new])

end

interpretation kept: writing_relation "\<lambda>s s'. txn_kept (st_txn s) (st_txn s')"
  by unfold_locales (auto simp: set_page_env_txn)

context writing_relation
begin

lemma keeps_node_addM [keep]: "keeps R (node_addM mc indx key data pgno flags)"
proof -
  have node: "keeps R (\<lambda>s. case mdb_node_add (ovpage_new mc) pad nodemax psize (Some (s, NullPg)) (mt_flags (st_txn s)) mp indx key data pgno flags of
         None \<Rightarrow> None
       | Some (None, _, _) \<Rightarrow> None
       | Some (Some (s, ofp), mtf, r) \<Rightarrow> seqM (flagM mtf) (f mtf r ofp) s)"
    if f: "\<And>mtf r ofp. keeps R (f mtf r ofp)" for pad nodemax psize mp and f :: "u32 \<Rightarrow> mdb_err + mdb_page \<times> mdb_page option \<Rightarrow> page_ref \<Rightarrow> unit op"
  proof (rule keepsI)
    fix s s' r
    assume "(case mdb_node_add (ovpage_new mc) pad nodemax psize (Some (s, NullPg)) (mt_flags (st_txn s)) mp indx key data pgno flags of
         None \<Rightarrow> None
       | Some (None, _, _) \<Rightarrow> None
       | Some (Some (s, ofp), mtf, r) \<Rightarrow> seqM (flagM mtf) (f mtf r ofp) s) = Some (s', r)"
    then obtain s1 ofp mtf q where 1: "mdb_node_add (ovpage_new mc) pad nodemax psize (Some (s, NullPg)) (mt_flags (st_txn s)) mp
        indx key data pgno flags = Some (Some (s1, ofp), mtf, q)" "seqM (flagM mtf) (f mtf q ofp) s1 = Some (s', r)"
      by (auto split: option.splits prod.splits)
    note added = node_add_state [OF 1(1)]
    have "R s s1" using added by (auto simp: R_refl dest: ovpage_new_keeps)
    moreover have "txn_kept (st_txn s) (st_txn s1)" using added by (auto dest: kept.ovpage_new_keeps)
    then have "R s1 (s1\<lparr>st_txn := (st_txn s1)\<lparr>mt_flags := mt_flags (st_txn s1) OR mtf\<rparr>\<rparr>)"
      using added by (intro W_txn) auto
    moreover have "f mtf q ofp (s1\<lparr>st_txn := (st_txn s1)\<lparr>mt_flags := mt_flags (st_txn s1) OR mtf\<rparr>\<rparr>) = Some (s', r)"
      using 1(2) by (simp add: seqM_def bindM_def op_simps)
    ultimately show "R s s'" using keepsD [OF f] by (blast intro: R_trans)
  qed
  show ?thesis unfolding node_addM_def by (intro keep node)
qed

lemma keeps_node_delM [keep]: "keeps R (node_delM mc ksize)"
  unfolding node_delM_def by (intro keep)

lemma keeps_split_root [keep]: "keeps R (split_root mc r)"
  unfolding split_root_def Let_def by (intro keep)

lemma keeps_split_follow [keep]: "keeps R (split_follow mc mn ptop)"
  unfolding split_follow_def by (intro keep)

lemma keeps_split_parent [keep]:
  "(\<And>mc key data pgno flags. keeps R (split mc key data pgno flags)) \<Longrightarrow> keeps R (split_parent split mc mn rp sep ptop)"
  unfolding split_parent_def by (intro keep)

lemma keeps_move_nodes [keep]: "keeps R (move_nodes mc mp copy newindx nkeys k new i j n)"
  by (induction n arbitrary: i j) (simp_all only: move_nodes.simps Let_def, (intro keep | assumption)+)

lemma keeps_split_reset [keep]: "keeps R (split_reset mc mn mp rp copy newindx k ptop)"
  unfolding split_reset_def Let_def by (intro keep)

lemma keeps_adjust_cursors [keep]: "keeps R (adjust_cursors f P mc ms)"
  by (induction ms) (simp_all only: adjust_cursors.simps, (intro keep | assumption)+)

lemma keeps_trackedM [keep]: "keeps R (trackedM mc)"
  unfolding trackedM_def by (intro keep)

lemma keeps_split_cursors [keep]: "keeps R (split_cursors mc mn mp rp newindx k root did ptop flags)"
  unfolding split_cursors_def Let_def by (intro keep)

lemma keeps_with_copy [keep]: "(\<And>r. keeps R (f r)) \<Longrightarrow> keeps R (with_copy f)"
  unfolding with_copy_def by (intro keep)

lemma keeps_split_step:
  assumes [keep]: "\<And>mc key data pgno flags. keeps R (split mc key data pgno flags)"
  shows "keeps R (split_step split mc key data pgno flags)"
  unfolding split_step_def split_append_def split_fixed_def split_nodes_def Let_def by (intro keep)

lemma keeps_page_split [keep]: "keeps R (mdb_page_split mc key data pgno flags)"
proof -
  have "keeps R (page_split n mc key data pgno flags)" for n mc key data pgno flags
    by (induction n arbitrary: mc key data pgno flags) (simp_all only: page_split.simps, (rule keeps_split_step keeps_stuck | assumption)+)
  then show ?thesis by (simp only: mdb_page_split_def)
qed

lemma keeps_update_keyM [keep]: "keeps R (update_keyM mc key)"
  unfolding update_keyM_def by (intro keep)

subsection \<open>Putting, deleting, rebalancing\<close>

lemma keeps_touch_path [keep]: "keeps R (touch_path mc n)"
  by (induction n) (simp_all only: touch_path.simps, (intro keep | assumption)+)

lemma keeps_touch_main [keep]: "keeps R (touch_main mc)"
  unfolding touch_main_def by (intro keep; simp)

lemma keeps_cursor_touch [keep]: "keeps R (mdb_cursor_touch mc)"
  unfolding mdb_cursor_touch_def by (intro keep)

lemma keeps_put_new_root [keep]: "keeps R (put_new_root mc)"
  unfolding put_new_root_def Let_def by (intro keep; simp)

lemma keeps_fix_parent [keep]: "keeps R (fix_parent mc key)"
  unfolding fix_parent_def Let_def by (intro keep)

lemma keeps_overwrite_leaf2 [keep]: "keeps R (overwrite_leaf2 mc mp key)"
  unfolding overwrite_leaf2_def Let_def by (intro keep)

lemma keeps_overwrite_big [keep]: "keeps R (overwrite_big mc mp leaf data flags)"
  unfolding overwrite_big_def Let_def by (intro keep)

lemma keeps_overwrite_node [keep]: "keeps R (overwrite_node mc mp data flags)"
  unfolding overwrite_node_def Let_def by (intro keep)

lemma keeps_reserved_at [keep]: "keeps R (reserved_at mc)"
  unfolding reserved_at_def Let_def by (intro keep)

lemma keeps_put_insert [keep]: "keeps R (put_insert mc key data flags new)"
  unfolding put_insert_def Let_def by (intro keep)

lemma keeps_slot_key [keep]: "keeps R (slot_key mc i)"
  unfolding slot_key_def by (intro keep)

lemma keeps_lowest_key [keep]: "keeps R (lowest_key mc)"
  unfolding lowest_key_def by (intro keep)

lemma keeps_cursor_up [keep]: "keeps R (cursor_up mc n)"
  unfolding cursor_up_def by (intro keep)

lemma keeps_node_move [keep]: "keeps R (mdb_node_move csrc cdst)"
  unfolding mdb_node_move_def moved_node_def name_first_def update_separator_def Let_def by (intro keep)

lemma keeps_merge_leaf2 [keep]: "keeps R (merge_leaf2 cdst ps ksize i j n)"
  by (induction n arbitrary: i j) (simp_all only: merge_leaf2.simps, (intro keep | assumption)+)

lemma keeps_merge_nodes [keep]: "keeps R (merge_nodes csrc cdst ps i j n)"
  by (induction n arbitrary: i j) (simp_all only: merge_nodes.simps Let_def, (intro keep | assumption)+)

lemma keeps_unlink_source [keep]: "keeps R (unlink_source mc)"
  unfolding unlink_source_def by (intro keep)

lemma keeps_page_merge [keep]: "(\<And>mc. keeps R (f mc)) \<Longrightarrow> keeps R (page_merge f csrc cdst)"
  unfolding page_merge_def Let_def by (intro keep)

lemma keeps_rebalance_root [keep]: "keeps R (rebalance_root mc)"
  unfolding rebalance_root_def drop_root_def collapse_root_def Let_def by (intro keep; simp)

lemma keeps_find_neighbour [keep]: "keeps R (find_neighbour mc mn ptop)"
  unfolding find_neighbour_def Let_def by (intro keep)

lemma keeps_rebalance_step: "(\<And>mc. keeps R (f mc)) \<Longrightarrow> keeps R (rebalance_step f mc)"
  unfolding rebalance_step_def use_neighbour_def Let_def by (intro keep)

lemma keeps_rebalance [keep]: "keeps R (mdb_rebalance mc)"
proof -
  have "keeps R (rebalance n mc)" for n mc
    by (induction n arbitrary: mc) (simp_all only: rebalance.simps, (rule keeps_rebalance_step keeps_stuck | assumption)+)
  then show ?thesis by (simp only: mdb_rebalance_def)
qed

lemma keeps_sibling_or_eof [keep]: "keeps R (sibling_or_eof mc)"
  unfolding sibling_or_eof_def by (intro keep)

lemma keeps_del_adjust [keep]: "keeps R (del_adjust mc mp ki nkeys ms)"
  by (induction ms) (simp_all only: del_adjust.simps Let_def, (intro keep | assumption)+)

lemma keeps_cursor_del0 [keep]: "keeps R (mdb_cursor_del0 mc)"
  unfolding mdb_cursor_del0_def Let_def by (intro keep)

lemma keeps_cursor_open [keep]: "keeps R (mdb_cursor_open dbi)"
  and keeps_cursor_renew [keep]: "keeps R (mdb_cursor_renew mc)"
  and keeps_cursor_close [keep]: "keeps R (mdb_cursor_close mc)"
  unfolding mdb_cursor_open_def mdb_cursor_renew_def mdb_cursor_close_def Let_def by (intro keep; simp)+

subsection \<open>Marking pages for a spill\<close>

lemma keeps_xkeep_ref [keep]: "keeps R (xkeep_ref fl r)"
  unfolding xkeep_ref_def by (intro keep)

lemma keeps_xkeep_path [keep]: "keeps R (xkeep_path fl c j n)"
  by (induction n arbitrary: j) (simp_all only: xkeep_path.simps, (intro keep | assumption)+)

lemma keeps_xkeep_cursors [keep]: "keeps R (xkeep_cursors fl ms)"
  by (induction ms) (simp_all only: xkeep_cursors.simps, (intro keep | assumption)+)

lemma keeps_xkeep_roots [keep]: "keeps R (xkeep_roots fl i n)"
  by (induction n arbitrary: i) (simp_all only: xkeep_roots.simps, (intro keep | assumption)+)

lemma keeps_pages_xkeep [keep]: "keeps R (mdb_pages_xkeep mc fl roots)"
  unfolding mdb_pages_xkeep_def by (intro keep)

lemma keeps_spill_select [keep]: "keeps R (spill_select i need)"
  by (induction i arbitrary: need) (simp_all only: spill_select.simps, (intro keep | assumption | simp)+)

subsection \<open>Without spilling\<close>

text \<open>\<open>mdb_cursor_put\<close> and \<open>mdb_cursor_del\<close>, where they do not spill dirty pages.\<close>

lemma keeps_cursor_put_spill:
  assumes [keep]: "\<not> any_set flags MDB_NOSPILL \<Longrightarrow> keeps R (mdb_page_spill mc (Some (val_of key)) data)"
  shows "keeps R (mdb_cursor_put mc key data flags)"
  unfolding mdb_cursor_put_def Let_def by (intro keep)

lemma keeps_cursor_del_spill:
  assumes [keep]: "\<not> any_set flags MDB_NOSPILL \<Longrightarrow> keeps R (mdb_page_spill mc None (val_of []))"
  shows "keeps R (mdb_cursor_del mc flags)"
  unfolding mdb_cursor_del_def Let_def by (intro keep)

end

section \<open>Flushing\<close>

locale flushing_relation = writing_relation +
  assumes W_map [keep]: "R s (s\<lparr>st_map := m\<rparr>)"
begin

lemma keeps_store_iov [keep]: "keeps R (store_iov psize wpos n rs)"
  by (induction rs arbitrary: wpos n) (simp_all only: store_iov.simps Let_def, (intro keep | assumption)+)

lemma keeps_write_group [keep]: "keeps R (write_group wpos wsize iov)"
  unfolding write_group_def by (intro keep)

lemma keeps_flush_pending [keep]: "keeps R (flush_pending at_end v)"
  unfolding flush_pending_def by (intro keep)

lemma keeps_flush_write [keep]: "keeps R (flush_write i n v)"
  by (induction n arbitrary: i v) (simp_all only: flush_write.simps, (intro keep | assumption | simp)+)

lemma keeps_flush_compact [keep]: "keeps R (flush_compact i j n)"
  by (induction n arbitrary: i j) (simp_all only: flush_compact.simps, (intro keep | assumption | simp)+)

lemma keeps_flush_map [keep]: "keeps R (flush_map i j n)"
  by (induction n arbitrary: i j) (simp_all only: flush_map.simps, (intro keep | assumption | simp)+)

lemma keeps_page_flush [keep]: "keeps R (mdb_page_flush n)"
  unfolding mdb_page_flush_def by (intro keep; simp)

lemma keeps_page_spill [keep]: "keeps R (mdb_page_spill mc key data)"
  unfolding mdb_page_spill_def Let_def by (intro keep; simp)

lemma keeps_cursor_put [keep]: "keeps R (mdb_cursor_put mc key data flags)"
  by (rule keeps_cursor_put_spill) (rule keeps_page_spill)

lemma keeps_cursor_del [keep]: "keeps R (mdb_cursor_del mc flags)"
  by (rule keeps_cursor_del_spill) (rule keeps_page_spill)

lemma keeps_put [keep]: "keeps R (mdb_put dbi key data flags)"
  unfolding mdb_put_def by (intro keep)

lemma keeps_del0 [keep]: "keeps R (mdb_del0 dbi key flags)"
  unfolding mdb_del0_def by (intro keep; simp)

lemma keeps_del [keep]: "keeps R (mdb_del dbi key)"
  unfolding mdb_del_def by (intro keep)

lemma keeps_env_sync [keep]: "keeps R (mdb_env_sync force)"
  unfolding mdb_env_sync_def by (intro keep)

subsection \<open>Saving the free pages\<close>

lemma keeps_store_reserved [keep]: "keeps R (store_reserved place bs)"
  unfolding store_reserved_def by (cases place; simp only: put_result.case; intro keep)

lemma keeps_loose_numbers [keep]:
  "keeps R (\<lambda>s. if \<exists>r \<in> set (mt_loose_pgs txn). page_at s r = None then None
     else Some (s, Inr (map (\<lambda>r. mp_pgno (the (page_at s r))) (mt_loose_pgs txn))))"
  by (auto simp: keeps_def R_refl split: if_splits)

lemma keeps_free_loose [keep]: "keeps R free_loose"
  unfolding free_loose_def by (intro keep; simp)

lemma keeps_search_end [keep]: "keeps R (search_end mc flag)"
  unfolding search_end_def by (intro keep)

lemma keeps_save_free [keep]: "keeps R (save_free mc)"
proof (rule keepsI)
  fix s s' r
  assume ret: "save_free mc s = Some (s', r)"
  have "R s (fst (s', r))"
    by (rule save_free.raw_induct [where P = "\<lambda>mc s y. R s (fst y)", OF _ ret])
      (auto simp: Let_def split: if_splits option.splits sum.splits prod.splits
        dest!: keepsD [OF keeps_cursor_put] intro: R_trans)
  then show "R s s'" by simp
qed

lemma keeps_delete_used [keep]: "keeps R (delete_used mc v)"
  unfolding delete_used_def Let_def by (intro keep)

lemma keeps_save_freed [keep]: "keeps R (save_freed mc v)"
  unfolding save_freed_def by (intro keep; simp)

lemma keeps_reserve_room [keep]: "keeps R (reserve_room mc v)"
  unfolding reserve_room_def Let_def by (intro keep)

lemma keeps_freelist_step [keep]: "keeps R (freelist_step mc v)"
  unfolding freelist_step_def by (intro keep)

lemma keeps_freelist_loop [keep]: "keeps R (freelist_loop mc v)"
proof (rule keepsI)
  fix s s' r
  assume ret: "freelist_loop mc v s = Some (s', r)"
  have "R s (fst (s', r))"
    by (rule freelist_loop.raw_induct [where P = "\<lambda>mc v s y. R s (fst y)", OF _ ret])
      (auto split: if_splits option.splits sum.splits prod.splits dest!: keepsD [OF keeps_freelist_step] intro: R_trans)
  then show "R s s'" by simp
qed

lemma keeps_return_loose [keep]: "keeps R (return_loose n)"
  unfolding return_loose_def Let_def by (intro keep; simp add: env_frame_def)

lemma keeps_fill_record [keep]: "keeps R (fill_record mc n item)"
  unfolding fill_record_def Let_def by (intro keep; simp add: env_frame_def)

lemma keeps_fill_loop [keep]: "keeps R (fill_loop mc n item)"
proof (rule keepsI)
  fix s s' r
  assume ret: "fill_loop mc n item s = Some (s', r)"
  have "R s (fst (s', r))"
    by (rule fill_loop.raw_induct [where P = "\<lambda>mc n item s y. R s (fst y)", OF _ ret])
      (auto split: if_splits option.splits sum.splits prod.splits
        dest!: keepsD [OF keeps_fill_record] keepsD [OF keeps_cursor_moves(1)] intro: R_trans)
  then show "R s s'" by simp
qed

lemma keeps_freelist_save [keep]: "keeps R mdb_freelist_save"
  unfolding mdb_freelist_save_def by (intro keep)

lemma keeps_update_roots [keep]: "keeps R (update_roots mc i n)"
  by (induction n arbitrary: i) (simp_all only: update_roots.simps Let_def, (intro keep | assumption)+)

subsection \<open>The end of a transaction\<close>

lemma keeps_unlock_w [keep]: "keeps R unlock_w"
  and keeps_leave_txn0 [keep]: "keeps R leave_txn0"
  unfolding unlock_w_def leave_txn0_def by (intro keep; simp add: env_frame_def)+

lemma keeps_txn_reset0 [keep]: "keeps R mdb_txn_reset0"
  unfolding mdb_txn_reset0_def by (intro keep; (simp add: mdb_cursors_close_def; fail | simp add: env_frame_def))

lemma keeps_txn_abort [keep]: "keeps R mdb_txn_abort"
  unfolding mdb_txn_abort_def by (intro keep; simp)

lemma keeps_commit_done [keep]: "keeps R commit_done"
  unfolding commit_done_def by (intro keep; (simp; fail | simp add: env_frame_def))

subsection \<open>Handles\<close>

lemma keeps_default_cmpM [keep]: "keeps R (default_cmpM dbi)"
  unfolding default_cmpM_def by (intro keep; simp add: env_frame_def)

lemma keeps_find_db [keep]: "keeps R (find_db name flags)"
  unfolding find_db_def Let_def by (intro keep)

lemma keeps_add_handle [keep]: "keeps R (add_handle name unused info)"
  unfolding add_handle_def Let_def by (intro keep; simp add: env_frame_def)

lemma keeps_open_main [keep]: "keeps R (open_main flags)"
  unfolding open_main_def Let_def by (intro keep; simp)

lemma keeps_dbi_open [keep]: "keeps R (mdb_dbi_open name flags)"
  unfolding mdb_dbi_open_def by (intro keep)

lemma keeps_set_compare [keep]: "keeps R (mdb_set_compare dbi f)"
  and keeps_set_dupsort [keep]: "keeps R (mdb_set_dupsort dbi f)"
  unfolding mdb_set_compare_def mdb_set_dupsort_def by (intro keep; simp add: env_frame_def)+

subsection \<open>Dropping a database\<close>

lemma keeps_free_big [keep]: "keeps R (free_big mp i n)"
  by (induction n arbitrary: i) (simp_all only: free_big.simps Let_def, (intro keep | assumption | simp)+)

lemma keeps_free_children [keep]: "keeps R (free_children mp)"
  unfolding free_children_def Let_def by (intro keep; simp)

lemma keeps_drop_step [keep]: "keeps R (drop_step mc mx)"
  unfolding drop_step_def by (intro keep)

lemma keeps_drop_walk [keep]: "keeps R (drop_walk mc mx)"
proof (rule keepsI)
  fix s s' r
  assume ret: "drop_walk mc mx s = Some (s', r)"
  have "R s (fst (s', r))"
    by (rule drop_walk.raw_induct [where P = "\<lambda>mc mx s y. R s (fst y)", OF _ ret])
      (auto split: if_splits option.splits sum.splits prod.splits dest!: keepsD [OF keeps_drop_step] intro: R_trans)
  then show "R s s'" by simp
qed

lemma keeps_drop0 [keep]: "keeps R (mdb_drop0 mc)"
  unfolding mdb_drop0_def by (intro keep; simp)

lemma keeps_drop_record [keep]: "keeps R (drop_record dbi del)"
  unfolding drop_record_def by (intro keep; simp add: env_frame_def mdb_dbi_close_def)

lemma keeps_drop [keep]: "keeps R (mdb_drop dbi del)"
  unfolding mdb_drop_def by (intro keep)

end

end
