(* ===== verification/Isolation.thy ===== *)
theory Isolation
  imports Frame Tree
begin

text \<open>
  What a transaction changes where: lookups change no page; the meta pages change only in the
  last step of a commit; a commit is atomic. The contracts of \<^theory_text>\<open>Frame\<close> are
  interpreted on the relations that say so.
\<close>

section \<open>Lookups\<close>

text \<open>
  The changes a lookup may make: cursors, the error flag of the transaction, and the records of
  databases that were stale; a record that is read in is no longer stale, all else of it and
  all records that were not stale stay.
\<close>

definition reads_in :: "mdb_txn \<Rightarrow> mdb_txn \<Rightarrow> bool" where
  "reads_in t t' \<longleftrightarrow>
     (mt_flags t' = mt_flags t \<or> mt_flags t' = mt_flags t OR MDB_TXN_ERROR) \<and>
     (\<forall>i. mt_dbs t' i = mt_dbs t i \<and> mt_dbflags t' i = mt_dbflags t i \<or>
        any_set (mt_dbflags t i) DB_STALE \<and> mt_dbflags t' i = clear_flag (mt_dbflags t i) DB_STALE) \<and>
     t' = t\<lparr>mt_flags := mt_flags t', mt_dbs := mt_dbs t', mt_dbflags := mt_dbflags t'\<rparr>"

definition only_looks :: "mdb_state \<Rightarrow> mdb_state \<Rightarrow> bool" where
  "only_looks s s' \<longleftrightarrow> reads_in (st_txn s) (st_txn s') \<and>
     (\<exists>cs n. s' = s\<lparr>st_cursors := cs, st_cfresh := n, st_txn := st_txn s'\<rparr>)"

lemma not_stale_cleared: "\<not> any_set (clear_flag w DB_STALE) DB_STALE"
  by (auto simp: any_set_def clear_flag_def bit_eq_iff bit_simps)

lemma clear_flag_twice: "clear_flag (clear_flag w f) f = clear_flag w f"
  by (simp add: clear_flag_def)

lemma reads_in_trans: "reads_in t t1 \<Longrightarrow> reads_in t1 t2 \<Longrightarrow> reads_in t t2"
proof -
  assume r: "reads_in t t1" "reads_in t1 t2"
  have fl: "mt_flags t2 = mt_flags t \<or> mt_flags t2 = mt_flags t OR MDB_TXN_ERROR"
    using r by (auto simp: reads_in_def)
  have db: "mt_dbs t2 i = mt_dbs t i \<and> mt_dbflags t2 i = mt_dbflags t i \<or>
      any_set (mt_dbflags t i) DB_STALE \<and> mt_dbflags t2 i = clear_flag (mt_dbflags t i) DB_STALE" for i
  proof -
    have "mt_dbs t1 i = mt_dbs t i \<and> mt_dbflags t1 i = mt_dbflags t i \<or>
        any_set (mt_dbflags t i) DB_STALE \<and> mt_dbflags t1 i = clear_flag (mt_dbflags t i) DB_STALE"
      "mt_dbs t2 i = mt_dbs t1 i \<and> mt_dbflags t2 i = mt_dbflags t1 i \<or>
        any_set (mt_dbflags t1 i) DB_STALE \<and> mt_dbflags t2 i = clear_flag (mt_dbflags t1 i) DB_STALE"
      using r unfolding reads_in_def by blast+
    then show ?thesis using not_stale_cleared by metis
  qed
  have "t2 = t\<lparr>mt_flags := mt_flags t2, mt_dbs := mt_dbs t2, mt_dbflags := mt_dbflags t2\<rparr>"
  proof -
    have "t1 = t\<lparr>mt_flags := mt_flags t1, mt_dbs := mt_dbs t1, mt_dbflags := mt_dbflags t1\<rparr>"
      "t2 = t1\<lparr>mt_flags := mt_flags t2, mt_dbs := mt_dbs t2, mt_dbflags := mt_dbflags t2\<rparr>"
      using r unfolding reads_in_def by blast+
    then show ?thesis by (cases t; cases t1; cases t2) simp
  qed
  then show ?thesis using fl db unfolding reads_in_def by blast
qed

lemma reads_in_stale:
  assumes "reads_in t t1" "any_set (mt_dbflags t i) DB_STALE"
  shows "reads_in t (read_in i rec t1)"
proof -
  have "mt_dbflags t1 i = mt_dbflags t i \<or> mt_dbflags t1 i = clear_flag (mt_dbflags t i) DB_STALE"
    using assms(1) unfolding reads_in_def by blast
  then have c: "clear_flag (mt_dbflags t1 i) DB_STALE = clear_flag (mt_dbflags t i) DB_STALE"
    using clear_flag_twice by metis
  have t1: "t1 = t\<lparr>mt_flags := mt_flags t1, mt_dbs := mt_dbs t1, mt_dbflags := mt_dbflags t1\<rparr>"
    using assms(1) unfolding reads_in_def by blast
  have "read_in i rec t1 = t\<lparr>mt_flags := mt_flags (read_in i rec t1), mt_dbs := mt_dbs (read_in i rec t1),
      mt_dbflags := mt_dbflags (read_in i rec t1)\<rparr>"
    using t1 by (cases t; cases t1) (simp add: read_in_def)
  then show ?thesis
    using assms c unfolding reads_in_def by (auto simp: read_in_def)
qed

lemma only_looksI: "reads_in (st_txn s) t \<Longrightarrow> s' = s\<lparr>st_cursors := cs, st_cfresh := n, st_txn := t\<rparr> \<Longrightarrow> only_looks s s'"
  by (auto simp: only_looks_def)

lemma only_looksE:
  assumes "only_looks s s'"
  obtains cs n where "s' = s\<lparr>st_cursors := cs, st_cfresh := n, st_txn := st_txn s'\<rparr>" "reads_in (st_txn s) (st_txn s')"
  using assms unfolding only_looks_def by (elim conjE exE) (rule that)

interpretation looking: reading_relation only_looks
proof
  have refl: "reads_in t t" for t by (simp add: reads_in_def)
  show "only_looks s s" for s by (rule only_looksI [OF refl, where cs = "st_cursors s" and n = "st_cfresh s"]) simp
  show "only_looks s s2" if l: "only_looks s s1" "only_looks s1 s2" for s s1 s2
  proof -
    obtain cs n where 1: "s1 = s\<lparr>st_cursors := cs, st_cfresh := n, st_txn := st_txn s1\<rparr>" "reads_in (st_txn s) (st_txn s1)"
      using l(1) by (rule only_looksE)
    obtain cs2 n2 where 2: "s2 = s1\<lparr>st_cursors := cs2, st_cfresh := n2, st_txn := st_txn s2\<rparr>"
      "reads_in (st_txn s1) (st_txn s2)"
      using l(2) by (rule only_looksE)
    have "s2 = s\<lparr>st_cursors := cs2, st_cfresh := n2, st_txn := st_txn s2\<rparr>"
      using 1(1) 2(1) by (cases s; cases s1; cases s2) simp
    then show ?thesis by (rule only_looksI [OF reads_in_trans [OF 1(2) 2(2)]])
  qed
  show "only_looks s (s\<lparr>st_cursors := cs\<rparr>)" "only_looks s (s\<lparr>st_cfresh := n\<rparr>)" for s cs n
    by (rule only_looksI [OF refl, where n = "st_cfresh s" and cs = cs], simp)
      (rule only_looksI [OF refl, where n = n and cs = "st_cursors s"], simp)
  show "only_looks s (s\<lparr>st_txn := (st_txn s)\<lparr>mt_flags := mt_flags (st_txn s) OR MDB_TXN_ERROR\<rparr>\<rparr>)" for s
    by (rule only_looksI [where cs = "st_cursors s" and n = "st_cfresh s"]) (simp_all add: reads_in_def)
  show "only_looks s (s1\<lparr>st_txn := read_in i rec (st_txn s1)\<rparr>)"
    if l: "only_looks s s1" "any_set (mt_dbflags (st_txn s) i) DB_STALE" for s s1 i rec
  proof -
    obtain cs n where 1: "s1 = s\<lparr>st_cursors := cs, st_cfresh := n, st_txn := st_txn s1\<rparr>" "reads_in (st_txn s) (st_txn s1)"
      using l(1) by (rule only_looksE)
    have "s1\<lparr>st_txn := read_in i rec (st_txn s1)\<rparr> = s\<lparr>st_cursors := cs, st_cfresh := n, st_txn := read_in i rec (st_txn s1)\<rparr>"
      using 1(1) by (cases s; cases s1) simp
    then show ?thesis by (rule only_looksI [OF reads_in_stale [OF 1(2) l(2)]])
  qed
qed

section \<open>The frame of a transaction\<close>

definition txn_frame :: "mdb_state \<Rightarrow> mdb_state \<Rightarrow> bool" where
  "txn_frame s s' \<longleftrightarrow> env_frame (st_env s) (st_env s') \<and> txn_kept (st_txn s) (st_txn s') \<and>
     st_write s' = st_write s \<and> st_sync s' = st_sync s"

lemma set_page_oracles: "set_page s r p = Some s' \<Longrightarrow> st_write s' = st_write s \<and> st_sync s' = st_sync s"
  by (cases r) (auto split: if_splits option.splits)

interpretation txn: flushing_relation txn_frame
  by unfold_locales (auto simp: txn_frame_def env_frame_def set_page_env_txn dest: set_page_oracles)

text \<open>\<open>m\<close> runs something that keeps \<open>R\<close> and then, unless that fails, \<open>t\<close>.\<close>

definition ends_in :: "(mdb_state \<Rightarrow> mdb_state \<Rightarrow> bool) \<Rightarrow> 'a op \<Rightarrow> 'a op \<Rightarrow> bool" where
  "ends_in R m t \<longleftrightarrow> (\<forall>s s' r. m s = Some (s', r) \<longrightarrow>
     (\<exists>s1. R s s1 \<and> t s1 = Some (s', r)) \<or> R s s' \<and> (\<exists>e. r = Inl e))"

named_theorems ends \<open>rules for how an operation ends\<close>

lemma ends_in_pair [ends]: "(\<And>x y. ends_in R (f x y) t) \<Longrightarrow> ends_in R (case v of (x, y) \<Rightarrow> f x y) t"
  by (cases v) simp

context state_relation
begin

lemma ends_in_self: "ends_in R t t"
  by (auto simp: ends_in_def R_refl)

lemma ends_in_bindM [ends]: "keeps R m \<Longrightarrow> (\<And>x. ends_in R (f x) t) \<Longrightarrow> ends_in R (bindM m f) t"
  unfolding keeps_def ends_in_def bindM_def by (auto split: option.splits sum.splits) (blast intro: R_trans)+

lemma ends_in_seqM [ends]: "keeps R m \<Longrightarrow> ends_in R n t \<Longrightarrow> ends_in R (seqM m n) t"
  unfolding seqM_def by (rule ends_in_bindM)

end

text \<open>\<open>commit_write\<close> keeps the frame up to the write of the meta page.\<close>

definition commit_tail :: "unit op" where
  "commit_tail =
     seqM write_metaM
     (bindM (getM (\<lambda>s. me_flags (st_env s))) (\<lambda>flags. whenM (\<not> any_set flags MDB_WRITEMAP) mdb_dlist_free))"

lemma commit_write_ends: "ends_in txn_frame commit_write commit_tail"
  unfolding commit_write_def commit_tail_def [symmetric]
  by (intro ends txn.ends_in_self keep; simp add: env_frame_def)

text \<open>Freeing the dirty pages changes no database record and does not fail.\<close>

definition same_roots :: "mdb_state \<Rightarrow> mdb_state \<Rightarrow> bool" where
  "same_roots s s' \<longleftrightarrow> me_metas (st_env s') = me_metas (st_env s) \<and> me_txns (st_env s') = me_txns (st_env s) \<and>
     mt_dbs (st_txn s') = mt_dbs (st_txn s) \<and> mt_next_pgno (st_txn s') = mt_next_pgno (st_txn s)"

interpretation roots: state_relation same_roots
  by unfold_locales (auto simp: same_roots_def)

lemma set_page_roots: "set_page s r p = Some s' \<Longrightarrow> same_roots s s'"
  by (simp add: same_roots_def set_page_env_txn)

lemma dlist_free_roots: "keeps same_roots mdb_dlist_free"
proof -
  have page: "keeps same_roots (mdb_page_free r)" for r
    unfolding mdb_page_free_def by (intro keep; simp add: same_roots_def)
  have "keeps same_roots (mdb_dpage_free r)" for r
    unfolding mdb_dpage_free_def by (intro keep page; simp add: same_roots_def)
  note [keep] = this
  have "keeps same_roots (dlist_free_loop dl i n)" for dl i n
    by (induction n arbitrary: i) (simp_all only: dlist_free_loop.simps, (intro keep | assumption)+)
  then show ?thesis
    unfolding mdb_dlist_free_def by (intro keep; simp add: same_roots_def)
qed

definition succeeds :: "'a op \<Rightarrow> bool" where
  "succeeds m \<longleftrightarrow> (\<forall>s. m s = None \<or> (\<exists>s' x. m s = Some (s', Inr x)))"

lemma succeeds_seqM: "succeeds m \<Longrightarrow> succeeds n \<Longrightarrow> succeeds (seqM m n)"
  unfolding succeeds_def seqM_def bindM_def
  by (intro allI, drule_tac x = s in spec) auto

lemma dlist_free_succeeds: "succeeds mdb_dlist_free"
proof -
  have "succeeds (mdb_dpage_free q)" for q
    by (auto simp: succeeds_def mdb_dpage_free_def mdb_page_free_def bindM_def pageM_def op_simps
        split: option.splits page_ref.splits)
  then have "succeeds (dlist_free_loop dl i n)" for dl i n
    by (induction n arbitrary: i) (simp_all add: succeeds_seqM, simp add: succeeds_def op_simps)
  then show ?thesis
    unfolding mdb_dlist_free_def succeeds_def bindM_def seqM_def
    by (auto simp: op_simps split: option.splits sum.splits) (metis (no_types) Inr_Inl_False option.distinct(1) option.inject prod.inject)
qed

lemma commit_tail_cases:
  assumes "commit_tail s = Some (s', r)"
  obtains (written) s1 where "write_metaM s = Some (s1, Inr ())" "r = Inr ()" "txn_frame s1 s'" "same_roots s1 s'"
    | (failed) e where "write_metaM s = Some (s', Inl e)" "r = Inl e"
proof -
  obtain s1 q where w: "write_metaM s = Some (s1, q)"
    using assms by (cases "write_metaM s") (auto simp: commit_tail_def seqM_def bindM_def)
  show thesis
  proof (cases q)
    case (Inl e)
    then have "s' = s1 \<and> r = Inl e" using assms w by (auto simp: commit_tail_def seqM_def bindM_def)
    then show thesis using failed [of e] w Inl by simp
  next
    case (Inr u)
    then have "whenM (\<not> any_set (me_flags (st_env s1)) MDB_WRITEMAP) mdb_dlist_free s1 = Some (s', r)"
      using assms w by (simp add: commit_tail_def seqM_def bindM_def op_simps)
    then consider "s' = s1" "r = Inr ()" | "mdb_dlist_free s1 = Some (s', r)"
      by (auto simp: whenM_def op_simps split: if_splits)
    then have "r = Inr () \<and> txn_frame s1 s' \<and> same_roots s1 s'"
    proof cases
      case 1
      then show ?thesis by (simp add: txn.R_refl roots.R_refl)
    next
      case 2
      then show ?thesis
        using keepsD [OF txn.keeps_dlist_free 2] keepsD [OF dlist_free_roots 2] dlist_free_succeeds
        by (fastforce simp: succeeds_def dest: spec [of _ s1])
    qed
    then show thesis using written [of s1] w Inr by simp
  qed
qed

section \<open>Commit\<close>

definition picked :: "mdb_state \<Rightarrow> mdb_meta" where
  "picked s = me_metas (st_env s) (mdb_env_pick_meta (st_env s))"

text \<open>No write of a meta page is cut inside the 8 bytes of the transaction ID.\<close>

definition whole_ids :: "mdb_state \<Rightarrow> bool" where
  "whole_ids s \<longleftrightarrow> (\<forall>k. reached (st_write s k 120) \<le> 112 \<or> 120 \<le> reached (st_write s k 120))"

text \<open>
  The environment between transactions, and with a write transaction: the newest meta page
  has the parity of its ID, the lock file names it, and the transaction is the next one.
\<close>

definition file_ready :: "mdb_state \<Rightarrow> bool" where
  "file_ready s \<longleftrightarrow> metas_ok (me_metas (st_env s)) \<and> \<not> any_set (me_flags (st_env s)) MDB_WRITEMAP \<and> whole_ids s \<and>
     map_option mti_txnid (me_txns (st_env s)) \<in> {None, Some (mm_txnid (picked s))}"

definition txn_ready :: "mdb_state \<Rightarrow> bool" where
  "txn_ready s \<longleftrightarrow> file_ready s \<and> mt_txnid (st_txn s) = mm_txnid (picked s) + 1 \<and> mt_txnid (st_txn s) \<noteq> 0"

definition committed_meta :: "mdb_txn \<Rightarrow> mdb_meta \<Rightarrow> bool" where
  "committed_meta txn m \<longleftrightarrow> mm_txnid m = mt_txnid txn \<and> mm_dbs m = (mt_dbs txn 0, mt_dbs txn 1) \<and>
     mm_last_pg m = mt_next_pgno txn - 1"

lemma frame_picked: "txn_frame s s' \<Longrightarrow> picked s' = picked s"
  by (simp add: txn_frame_def env_frame_def picked_def pick_meta_env)

lemma frame_file_ready: "txn_frame s s' \<Longrightarrow> file_ready s' \<longleftrightarrow> file_ready s"
  using frame_picked [of s s'] by (simp add: file_ready_def txn_frame_def env_frame_def whole_ids_def)

lemma frame_txn_ready: "txn_frame s s' \<Longrightarrow> txn_ready s' \<longleftrightarrow> txn_ready s"
  using frame_picked [of s s'] frame_file_ready [of s s'] by (simp add: txn_ready_def txn_frame_def)

lemma write_meta_flags: "mdb_env_write_meta pwrite msync env txn = (env', Inr u) \<Longrightarrow> me_flags env' = me_flags env"
  by (auto simp: mdb_env_write_meta_def Let_def split: if_splits option.splits prod.splits)

lemma write_meta_sizes:
  "mdb_env_write_meta (\<lambda>n sync bs off. w n (length bs)) msync env txn =
   mdb_env_write_meta (\<lambda>n sync bs off. w n 120) msync env txn"
  by (simp only: mdb_env_write_meta_def length_meta_tail)

lemma write_metaM_ready:
  assumes "txn_ready s" "write_metaM s = Some (s', r)"
  shows "st_txn s' = st_txn s \<and> (case r of
      Inr _ \<Rightarrow> file_ready s' \<and> committed_meta (st_txn s) (picked s')
    | Inl e \<Rightarrow> any_set (me_flags (st_env s')) MDB_FATAL_ERROR \<and>
        (picked s' = picked s \<or> mm_txnid (picked s') = mt_txnid (st_txn s)))"
proof -
  define k where "k = st_clock s"
  obtain env' where run: "mdb_env_write_meta (\<lambda>n sync bs off. st_write s (k + n) 120) (\<lambda>off len async. st_sync s k)
      (st_env s) (st_txn s) = (env', r)"
    and s': "s' = s\<lparr>st_clock := st_clock s + 2, st_env := env'\<rparr>"
    using assms(2)
    by (auto simp: write_metaM_def bindM_def next_call_def k_def write_meta_sizes [of "\<lambda>n. st_write s (st_clock s + n)"]
        split: prod.splits)
  have ready: "metas_ok (me_metas (st_env s))" "\<not> any_set (me_flags (st_env s)) MDB_WRITEMAP" "whole_ids s"
    "mt_txnid (st_txn s) = mm_txnid (me_metas (st_env s) (mdb_env_pick_meta (st_env s))) + 1" "mt_txnid (st_txn s) \<noteq> 0"
    using assms(1) unfolding txn_ready_def file_ready_def picked_def by blast+
  have txns: "map_option mti_txnid (me_txns env') \<in> {None, Some (mt_txnid (st_txn s))}"
    if "\<forall>ti. me_txns env' = Some ti \<longrightarrow> mti_txnid ti = mt_txnid (st_txn s)"
    using that by (cases "me_txns env'") auto
  have whole: "whole_ids s'" using ready(3) by (simp add: s' whole_ids_def)
  have p: "picked s' = me_metas env' (mdb_env_pick_meta env')" by (simp add: picked_def s')
  have wrote: "case r of
      Inr _ \<Rightarrow> mm_txnid (picked s') = mt_txnid (st_txn s) \<and> mm_dbs (picked s') = (mt_dbs (st_txn s) 0, mt_dbs (st_txn s) 1) \<and>
        mm_last_pg (picked s') = mt_next_pgno (st_txn s) - 1 \<and> me_mapsize (st_env s) \<le> mm_mapsize (picked s') \<and>
        metas_ok (me_metas env') \<and> (\<forall>ti. me_txns env' = Some ti \<longrightarrow> mti_txnid ti = mt_txnid (st_txn s))
    | Inl e \<Rightarrow> any_set (me_flags env') MDB_FATAL_ERROR \<and>
        (picked s' = me_metas (st_env s) (mdb_env_pick_meta (st_env s)) \<or>
         mm_txnid (picked s') = mt_txnid (st_txn s) \<and> mm_dbs (picked s') = (mt_dbs (st_txn s) 0, mt_dbs (st_txn s) 1))"
    using ready(3) by (intro write_meta_done [OF ready(1,2,4,5) _ run p]) (simp add: whole_ids_def)
  show ?thesis
  proof (cases r)
    case (Inl e)
    then show ?thesis using wrote by (auto simp: s' picked_def)
  next
    case (Inr u)
    have "file_ready s'"
      using wrote txns whole write_meta_flags [OF run [unfolded Inr]] ready(2) by (simp add: Inr file_ready_def s' picked_def)
    then show ?thesis using wrote by (simp add: Inr committed_meta_def s')
  qed
qed

lemma commit_write_ready:
  assumes "txn_ready s" "commit_write s = Some (s', r)"
  shows "case r of
      Inr _ \<Rightarrow> file_ready s' \<and> committed_meta (st_txn s') (picked s') \<and> mt_txnid (st_txn s') = mt_txnid (st_txn s)
    | Inl e \<Rightarrow> txn_frame s s' \<or> any_set (me_flags (st_env s')) MDB_FATAL_ERROR \<and>
        (picked s' = picked s \<or> mm_txnid (picked s') = mt_txnid (st_txn s))"
proof -
  consider s1 where "txn_frame s s1" "commit_tail s1 = Some (s', r)" | e where "txn_frame s s'" "r = Inl e"
    using commit_write_ends assms(2) unfolding ends_in_def by blast
  then show ?thesis
  proof cases
    case (1 s1)
    then have s1: "txn_ready s1" "picked s1 = picked s" "mt_txnid (st_txn s1) = mt_txnid (st_txn s)"
      using assms(1) frame_txn_ready frame_picked by (auto simp: txn_frame_def)
    from 1(2) show ?thesis
    proof (cases rule: commit_tail_cases)
      case (written s2)
      then have "file_ready s2" "committed_meta (st_txn s2) (picked s2)" "st_txn s2 = st_txn s1"
        using write_metaM_ready [OF s1(1) written(1)] by simp_all
      moreover have "picked s' = picked s2" "file_ready s' \<longleftrightarrow> file_ready s2" "mt_txnid (st_txn s') = mt_txnid (st_txn s2)"
        using written(3) frame_picked frame_file_ready by (auto simp: txn_frame_def)
      ultimately show ?thesis using written(2,4) s1(3) by (simp add: committed_meta_def same_roots_def)
    next
      case (failed e)
      then show ?thesis using write_metaM_ready [OF s1(1) failed(1)] s1 by auto
    qed
  qed simp
qed

interpretation same_txn: state_relation "\<lambda>s s'. st_txn s' = st_txn s"
  by unfold_locales simp_all

lemma commit_done_txn: "keeps (\<lambda>s s'. st_txn s' = st_txn s) commit_done"
  unfolding commit_done_def unlock_w_def leave_txn0_def by (intro keep; simp)

lemma commit_done_succeeds: "commit_done s = Some (s', r) \<Longrightarrow> r = Inr ()"
  by (auto simp: commit_done_def unlock_w_def leave_txn0_def whenM_def seqM_def bindM_def op_simps split: if_splits)

text \<open>The transaction changed nothing.\<close>

definition txn_clean :: "mdb_txn \<Rightarrow> bool" where
  "txn_clean txn \<longleftrightarrow> mid (mt_dirty_list txn ! 0) = 0 \<and> \<not> any_set (mt_flags txn) (MDB_TXN_DIRTY OR MDB_TXN_SPILLS)"

lemma commit_atomic':
  assumes "txn_ready s" "\<not> F_ISSET (mt_flags (st_txn s)) MDB_TXN_RDONLY" "mdb_txn_commit s = Some (s', r)"
  shows "case r of
      Inr _ \<Rightarrow> file_ready s' \<and>
        (if txn_clean (st_txn s) then me_metas (st_env s') = me_metas (st_env s)
         else committed_meta (st_txn s') (picked s') \<and> mt_txnid (st_txn s') = mt_txnid (st_txn s))
    | Inl e \<Rightarrow> me_metas (st_env s') = me_metas (st_env s) \<and> file_ready s' \<or>
        any_set (me_flags (st_env s')) MDB_FATAL_ERROR \<and>
        (picked s' = picked s \<or> mm_txnid (picked s') = mt_txnid (st_txn s))"
proof -
  define work where "work =
    (if F_ISSET (mt_flags (st_txn s)) MDB_TXN_ERROR then err MDB_BAD_TXN
     else
       bindM (getM (\<lambda>s. me_txn (st_env s))) (\<lambda>current.
       if \<not> current then err EINVAL
       else seqM (txnM mdb_cursors_close) (if txn_clean (st_txn s) then ret () else commit_write)))"
  have "tryM work (\<lambda>q. case q of Inl e \<Rightarrow> seqM mdb_txn_abort (err e) | Inr _ \<Rightarrow> commit_done) s = Some (s', r)"
    using assms(2,3) unfolding work_def txn_clean_def by (simp add: mdb_txn_commit_def bindM_def [of "getM st_txn"] op_simps)
  then obtain s1 q where work: "work s = Some (s1, q)" and
    rest: "(case q of Inl e \<Rightarrow> seqM mdb_txn_abort (err e) | Inr _ \<Rightarrow> commit_done) s1 = Some (s', r)"
    by (auto simp: tryM_def split: option.splits)
  have close: "txn_frame s (s\<lparr>st_txn := mdb_cursors_close (st_txn s)\<rparr>)"
    by (rule txn.W_txn) (simp add: mdb_cursors_close_def)
  have after: "case q of
      Inr _ \<Rightarrow> file_ready s1 \<and> (if txn_clean (st_txn s) then txn_frame s s1
         else committed_meta (st_txn s1) (picked s1) \<and> mt_txnid (st_txn s1) = mt_txnid (st_txn s))
    | Inl e \<Rightarrow> txn_frame s s1 \<or> any_set (me_flags (st_env s1)) MDB_FATAL_ERROR \<and>
        (picked s1 = picked s \<or> mm_txnid (picked s1) = mt_txnid (st_txn s))"
  proof (cases "txn_clean (st_txn s) \<or> F_ISSET (mt_flags (st_txn s)) MDB_TXN_ERROR \<or> \<not> me_txn (st_env s)")
    case True
    then show ?thesis
      using work close frame_file_ready [OF close] assms(1)
      by (auto simp: work_def bindM_def seqM_def op_simps txn.R_refl txn_ready_def split: if_splits)
  next
    case False
    then have "commit_write (s\<lparr>st_txn := mdb_cursors_close (st_txn s)\<rparr>) = Some (s1, q)"
      using work by (simp add: work_def bindM_def seqM_def op_simps)
    then show ?thesis
      using commit_write_ready [of "s\<lparr>st_txn := mdb_cursors_close (st_txn s)\<rparr>" s1 q] assms(1) False
        frame_txn_ready [OF close] frame_picked [OF close] txn.R_trans [OF close]
      by (cases q) (auto simp: mdb_cursors_close_def)
  qed
  show ?thesis
  proof (cases q)
    case (Inl e)
    then have "txn_frame s1 s'" "\<exists>e. r = Inl e"
      using rest by (auto simp: seqM_def bindM_def op_simps split: option.splits sum.splits dest: keepsD [OF txn.keeps_txn_abort])
    then show ?thesis
      using after Inl assms(1) frame_picked [of s1 s'] frame_file_ready [of s s'] txn.R_trans [of s s1 s']
      by (auto simp: txn_ready_def txn_frame_def env_frame_def)
  next
    case (Inr u)
    then have f: "txn_frame s1 s'" "st_txn s' = st_txn s1" "r = Inr ()"
      using rest keepsD [OF txn.keeps_commit_done] keepsD [OF commit_done_txn] commit_done_succeeds by auto
    then show ?thesis
      using after Inr frame_file_ready [OF f(1)] frame_picked [OF f(1)]
      by (auto simp: txn_frame_def env_frame_def committed_meta_def)
  qed
qed

text \<open>
  C12: A commit is atomic. A write transaction that changed something and commits makes the
  meta page chosen next the one with its ID, its two root records and its last page, and
  leaves an environment ready for the next transaction; one that changed nothing leaves the
  meta pages alone. When the commit fails, in whatever step, the meta pages are those of the
  last commit, or the environment is marked as failed and the page chosen is the last
  commit's or has the ID of this one.
\<close>

theorem commit_atomic:
  assumes "txn_ready s" "\<not> F_ISSET (mt_flags (st_txn s)) MDB_TXN_RDONLY" "mdb_txn_commit s = Some (s', r)"
  shows "case r of
      Inr _ \<Rightarrow> file_ready s' \<and>
        (if txn_clean (st_txn s) then me_metas (st_env s') = me_metas (st_env s)
         else committed_meta (st_txn s') (picked s') \<and> mt_txnid (st_txn s') = mt_txnid (st_txn s))
    | Inl e \<Rightarrow> me_metas (st_env s') = me_metas (st_env s) \<and> file_ready s' \<or>
        any_set (me_flags (st_env s')) MDB_FATAL_ERROR \<and>
        (picked s' = picked s \<or> mm_txnid (picked s') = mt_txnid (st_txn s))"
  using commit_atomic' [OF assms] .

text \<open>A commit of a transaction that has no page to write: only the meta page changes.\<close>

lemma freelist_save_nothing:
  assumes "me_pghead (st_env s) = None" "me_pglast (st_env s) = 0" "mt_loose_pgs (st_txn s) = []"
    "mt_loose_count (st_txn s) = 0" "mi_ids (mt_free_pgs (st_txn s)) ! 0 = 0"
    "\<not> any_set (mt_dbflags (st_txn s) FREE_DBI) DB_STALE" "\<not> any_set (md_flags (mt_dbs (st_txn s) FREE_DBI)) MDB_DUPSORT"
  shows "\<exists>cs. mdb_freelist_save s = Some (s\<lparr>st_cfresh := st_cfresh s + 1, st_cursors := cs\<rparr>, Inr ())"
proof -
  have "\<exists>cs. mdb_cursor_init mc FREE_DBI s1 = Some (s1\<lparr>st_cursors := cs\<rparr>, Inr ())"
    if "st_txn s1 = st_txn s" for mc s1
    using assms(6,7) that
    by (auto simp: mdb_cursor_init_def cursor_init_with_def upd_curM_def whenM_def seqM_def bindM_def op_simps)
  then obtain cs where init: "mdb_cursor_init (st_cfresh s) FREE_DBI (s\<lparr>st_cfresh := st_cfresh s + 1\<rparr>)
      = Some (s\<lparr>st_cfresh := st_cfresh s + 1, st_cursors := cs\<rparr>, Inr ())"
    by (fastforce simp del: mdb_cursor_init_def)
  have loop: "freelist_loop mc \<lparr>fs_pglast = 0, fs_head_id = 0, fs_freecnt = 0, fs_head_room = 0, fs_total_room = 0,
      fs_more = 1, fs_mop_len = 0\<rparr> s1 = Some (s1, Inr \<lparr>fs_pglast = 0, fs_head_id = 0, fs_freecnt = 0, fs_head_room = 0,
      fs_total_room = 0, fs_more = 1, fs_mop_len = 0\<rparr>)" if "st_txn s1 = st_txn s" "st_env s1 = st_env s" for mc s1
    using assms that
    by (subst freelist_loop.simps) (simp add: freelist_step_def reserve_room_def pghead_ids_def bindM_def seqM_def op_simps)
  show ?thesis
    using init assms
    by (auto simp: mdb_freelist_save_def free_loose_def return_loose_def whenM_def seqM_def bindM_def op_simps loop
        intro!: exI [of _ cs])
qed

definition commit_state0 :: mdb_state where
  "commit_state0 = state0\<lparr>st_env := env0\<lparr>me_txn := True\<rparr>,
     st_txn := txn1\<lparr>mt_dbs := (\<lambda>i. if i = 0 then db0 else db0\<lparr>md_root := 2\<rparr>), mt_flags := MDB_TXN_DIRTY,
       mt_dirty_list := [\<lparr>mid = 0, mptr = NullPg\<rparr>]\<rparr>,
     st_write := (\<lambda>k n. Wrote n), st_sync := (\<lambda>k. 0), st_oracle := (\<lambda>k. True)\<rparr>"

lemma commit_state0_simps [simp]:
  "st_env commit_state0 = env0\<lparr>me_txn := True\<rparr>" "mt_flags (st_txn commit_state0) = MDB_TXN_DIRTY"
  "mt_dirty_list (st_txn commit_state0) = [\<lparr>mid = 0, mptr = NullPg\<rparr>]"
  "mt_txnid (st_txn commit_state0) = 1" "st_write commit_state0 = (\<lambda>k n. Wrote n)" "st_sync commit_state0 = (\<lambda>k. 0)"
  "st_oracle commit_state0 = (\<lambda>k. True)"
  by (simp_all add: commit_state0_def)

lemma commit_state0_ready: "txn_ready commit_state0"
  by (simp add: txn_ready_def file_ready_def whole_ids_def picked_def env0_flags pick_meta_env)
    (simp add: env0_def any_set_def)

lemma commit_state0_commits: "\<exists>s'. mdb_txn_commit commit_state0 = Some (s', Inr ())"
proof -
  let ?s = "commit_state0\<lparr>st_txn := mdb_cursors_close (st_txn commit_state0)\<rparr>"
  have e: "me_flags (st_env ?s) = 0" "mt_numdbs (st_txn ?s) = 2" "mid (mt_dirty_list (st_txn ?s) ! 0) = 0"
    "mt_dirty_list (st_txn ?s) = [\<lparr>mid = 0, mptr = NullPg\<rparr>]" "mi_alloc (mt_free_pgs (st_txn ?s)) = 8"
    by (simp_all add: mdb_cursors_close_def env0_def) (simp_all add: commit_state0_def txn1_def midl0_def)
  have "\<exists>cs. mdb_freelist_save ?s = Some (?s\<lparr>st_cfresh := st_cfresh ?s + 1, st_cursors := cs\<rparr>, Inr ())"
    by (rule freelist_save_nothing)
      (simp_all add: commit_state0_def mdb_cursors_close_def env0_def txn1_def midl0_def FREE_DBI_def DB_VALID_def DB_STALE_def
        any_set_def db0_def MDB_INTEGERKEY_def MDB_DUPSORT_def)
  then obtain cs where save: "mdb_freelist_save ?s = Some (?s\<lparr>st_cfresh := st_cfresh ?s + 1, st_cursors := cs\<rparr>, Inr ())" ..
  have flags: "\<not> any_set 0 MDB_WRITEMAP" "\<not> F_ISSET 0 MDB_NOSYNC" "\<not> F_ISSET MDB_TXN_DIRTY MDB_TXN_RDONLY"
    "\<not> F_ISSET MDB_TXN_DIRTY MDB_TXN_ERROR" "any_set MDB_TXN_DIRTY (MDB_TXN_DIRTY OR MDB_TXN_SPILLS)"
    by (simp_all add: any_set_def F_ISSET_def MDB_NOSYNC_def MDB_TXN_DIRTY_def MDB_TXN_RDONLY_def MDB_TXN_ERROR_def MDB_TXN_SPILLS_def)
  have meta: "r = Inr ()"
    if "mdb_env_write_meta (\<lambda>n sync bs off. Wrote (length bs)) (\<lambda>off len async. 0) env txn = (env', r)" "me_flags env = 0"
    for env txn env' r
    using that by (auto simp: mdb_env_write_meta_def Let_def flags)
  have "\<exists>s'. commit_write ?s = Some (s', Inr ())"
    using e flags save
    by (auto simp: commit_write_def bindM_def seqM_def op_simps whenM_def mdb_midl_shrink_def MDB_IDL_UM_MAX_def
      mdb_page_flush_def id2l_count_def flush_pending_def mdb_env_sync_def next_call_def write_metaM_def
      mdb_cursors_close_def mdb_dlist_free_def env0_flags dest!: meta split: prod.split)
  then obtain s1 where "commit_write ?s = Some (s1, Inr ())" ..
  then show ?thesis
    using flags by (auto simp: mdb_txn_commit_def tryM_def bindM_def seqM_def op_simps commit_done_def unlock_w_def leave_txn0_def whenM_def)
qed

text \<open>The commit of a transaction that only changed the record of its main database.\<close>

theorem commit_atomic_witness:
  "\<exists>s'. mdb_txn_commit commit_state0 = Some (s', Inr ()) \<and> mm_txnid (picked s') = 1 \<and> file_ready s'"
proof -
  obtain s' where run: "mdb_txn_commit commit_state0 = Some (s', Inr ())" using commit_state0_commits ..
  have "\<not> txn_clean (st_txn commit_state0)" "\<not> F_ISSET (mt_flags (st_txn commit_state0)) MDB_TXN_RDONLY"
    by (simp_all add: txn_clean_def any_set_def F_ISSET_def MDB_TXN_DIRTY_def MDB_TXN_SPILLS_def MDB_TXN_RDONLY_def)
  then show ?thesis
    using commit_atomic [OF commit_state0_ready _ run] run by (simp add: committed_meta_def)
qed

end
