(* ===== verification/Sessions.thy ===== *)
theory Sessions
  imports Isolation
begin

text \<open>
  Sessions: the calls of one application on an open environment, in any order the interface
  allows. A step relation has the phases of the application; the invariant is that between
  the transactions the file is ready for the next one, and that its committed state moves
  only by whole transactions.
\<close>

section \<open>Beginning a transaction\<close>

definition env_only :: "mdb_state \<Rightarrow> mdb_state \<Rightarrow> bool" where
  "env_only s s' \<longleftrightarrow> env_frame (st_env s) (st_env s') \<and> st_write s' = st_write s \<and> st_sync s' = st_sync s"

interpretation env: flushing_relation env_only
  by unfold_locales (auto simp: env_only_def env_frame_def set_page_env_txn dest: set_page_oracles)

lemma env_only_txn [keep]: "env_only s (s\<lparr>st_txn := t\<rparr>)"
  by (simp add: env_only_def env_frame_def)

lemma txn_env_frame: "txn_frame s s' \<Longrightarrow> env_only s s'"
  by (simp add: txn_frame_def env_only_def)

lemma env_only_picked: "env_only s s' \<Longrightarrow> picked s' = picked s"
  by (simp add: env_only_def env_frame_def picked_def pick_meta_env)

lemma env_only_ready: "env_only s s' \<Longrightarrow> file_ready s' \<longleftrightarrow> file_ready s"
  using env_only_picked [of s s'] by (simp add: file_ready_def env_only_def env_frame_def whole_ids_def)

lemma keeps_syscallM [keep]: "keeps env_only syscallM"
  and keeps_lock_r [keep]: "keeps env_only lock_r"
  and keeps_unlock_r [keep]: "keeps env_only unlock_r"
  and keeps_lock_w [keep]: "keeps env_only lock_w"
  unfolding syscallM_def lock_r_def unlock_r_def lock_w_def by (intro keep; simp add: env_frame_def)+

lemma keeps_reader_slot [keep]: "keeps env_only (reader_slot tid ti)"
  unfolding reader_slot_def Let_def
  by (intro keep; (simp; fail | simp add: env_frame_def env_only_def option.map_comp comp_def))

lemma keeps_renew_rdonly [keep]: "keeps env_only (renew_rdonly tid)"
  unfolding renew_rdonly_def Let_def by (intro keep; simp)

lemma keeps_renew_write [keep]: "keeps env_only renew_write"
  unfolding renew_write_def Let_def by (intro keep; simp add: env_frame_def)

lemma keeps_txn_renew0 [keep]: "keeps env_only (mdb_txn_renew0 tid)"
  unfolding mdb_txn_renew0_def by (intro keep; simp)

lemma keeps_txn_renew [keep]: "keeps env_only (mdb_txn_renew tid)"
  unfolding mdb_txn_renew_def by (intro keep)

lemma keeps_txn_begin [keep]: "keeps env_only (mdb_txn_begin tid flags)"
  unfolding mdb_txn_begin_def by (intro keep)

lemma keeps_txn_reset [keep]: "keeps env_only mdb_txn_reset"
  unfolding mdb_txn_reset_def by (intro keep)

lemma renew_write_txnid:
  assumes "renew_write s = Some (s', Inr meta)" "file_ready s"
  shows "mt_txnid (st_txn s') = mm_txnid (picked s) + 1" "mt_flags (st_txn s') = mt_flags (st_txn s)"
proof -
  have lock: "st_txn s1 = st_txn s" if "lock_w s = Some (s1, r)" for s1 and r :: "mdb_err + unit"
    using that by (auto simp: lock_w_def syscallM_def next_call_def seqM_def bindM_def op_simps split: if_splits)
  have ti: "mti_txnid ti = mm_txnid (picked s)" if "me_txns (st_env s) = Some ti" for ti
    using assms(2) that by (simp add: file_ready_def)
  show "mt_txnid (st_txn s') = mm_txnid (picked s) + 1" "mt_flags (st_txn s') = mt_flags (st_txn s)"
    using assms(1) lock ti
    by (auto simp: renew_write_def Let_def seqM_def bindM_def op_simps picked_def split: option.splits sum.splits)
qed

lemma db_infos_kept [simp]: "mt_txnid (db_infos env meta t) = mt_txnid t" "mt_flags (db_infos env meta t) = mt_flags t"
  by (simp_all add: db_infos_def)

lemma renew0_write:
  assumes "mdb_txn_renew0 tid s = Some (s', Inr u)" "file_ready s" "\<not> any_set (mt_flags (st_txn s)) MDB_TXN_RDONLY"
  shows "mt_txnid (st_txn s') = mm_txnid (picked s) + 1" "mt_flags (st_txn s') = mt_flags (st_txn s)"
proof -
  let ?s = "s\<lparr>st_txn := (st_txn s)\<lparr>mt_numdbs := me_numdbs (st_env s), mt_dbxs := True\<rparr>\<rparr>"
  obtain s1 meta where 1: "renew_write ?s = Some (s1, Inr meta)"
    "st_txn s' = db_infos (st_env s1) meta (st_txn s1)"
    using assms(1,3)
    by (auto simp: mdb_txn_renew0_def seqM_def bindM_def op_simps split: option.splits sum.splits if_splits)
  have "env_only s ?s" by (rule env_only_txn)
  then have "file_ready ?s" "picked ?s = picked s" using assms(2) env_only_ready env_only_picked by auto
  then show "mt_txnid (st_txn s') = mm_txnid (picked s) + 1" "mt_flags (st_txn s') = mt_flags (st_txn s)"
    using renew_write_txnid [OF 1(1)] 1(2) by auto
qed

text \<open>A write transaction begins as the one after the last commit.\<close>

lemma txn_begin_write:
  assumes "mdb_txn_begin tid flags s = Some (s', Inr u)" "file_ready s" "\<not> any_set flags MDB_RDONLY"
    and "mm_txnid (picked s) + 1 \<noteq> 0"
  shows "txn_ready s' \<and> \<not> F_ISSET (mt_flags (st_txn s')) MDB_TXN_RDONLY"
proof -
  let ?s = "s\<lparr>st_txn := (me_txn0 (st_env s))\<lparr>mt_flags := 0\<rparr>\<rparr>"
  have run: "mdb_txn_renew0 tid ?s = Some (s', Inr u)"
    using assms(1,3) by (auto simp: mdb_txn_begin_def seqM_def bindM_def op_simps split: if_splits)
  have e: "env_only s ?s" "env_only s s'" using env_only_txn keepsD [OF keeps_txn_begin assms(1)] by auto
  show ?thesis
    using renew0_write [OF run] e assms(2,4) env_only_ready [OF e(1)] env_only_picked [OF e(1)]
      env_only_ready [OF e(2)] env_only_picked [OF e(2)]
    by (simp add: txn_ready_def any_set_def F_ISSET_def MDB_TXN_RDONLY_def)
qed

section \<open>Read-only transactions\<close>

definition same_access :: "mdb_state \<Rightarrow> mdb_state \<Rightarrow> bool" where
  "same_access s s' \<longleftrightarrow>
     F_ISSET (mt_flags (st_txn s')) MDB_TXN_RDONLY = F_ISSET (mt_flags (st_txn s)) MDB_TXN_RDONLY"

interpretation access: flushing_relation same_access
  by unfold_locales (auto simp: same_access_def set_page_env_txn)

lemma same_access_txn [keep]: "mt_flags t = mt_flags (st_txn s) \<Longrightarrow> same_access s (s\<lparr>st_txn := t\<rparr>)"
  by (simp add: same_access_def)

lemma same_access_env [keep]: "same_access s (s\<lparr>st_env := e\<rparr>)"
  by (simp add: same_access_def)

lemma access_reader_slot [keep]: "keeps same_access (reader_slot tid ti)"
  unfolding reader_slot_def lock_r_def unlock_r_def syscallM_def Let_def by (intro keep; simp add: same_access_def)

lemma access_renew_parts [keep]: "keeps same_access (renew_rdonly tid)" "keeps same_access renew_write"
  unfolding renew_rdonly_def renew_write_def lock_w_def syscallM_def Let_def by (intro keep; simp add: same_access_def)+

lemma access_renew0: "keeps same_access (mdb_txn_renew0 tid)"
  unfolding mdb_txn_renew0_def by (intro keep; simp add: same_access_def)

lemma access_renew: "keeps same_access (mdb_txn_renew tid)"
  unfolding mdb_txn_renew_def by (intro keep access_renew0)

lemma access_reset: "keeps same_access mdb_txn_reset"
  unfolding mdb_txn_reset_def by (intro keep)

lemma txn_begin_read:
  assumes "mdb_txn_begin tid flags s = Some (s', Inr u)" "any_set flags MDB_RDONLY"
  shows "F_ISSET (mt_flags (st_txn s')) MDB_TXN_RDONLY"
proof -
  obtain s1 where 1: "mdb_txn_renew0 tid s1 = Some (s', Inr u)" "mt_flags (st_txn s1) = MDB_TXN_RDONLY"
    using assms by (auto simp: mdb_txn_begin_def seqM_def bindM_def op_simps split: if_splits)
  have "same_access s1 s'" by (rule keepsD [OF access_renew0 1(1)])
  then show ?thesis using 1(2) by (simp add: same_access_def F_ISSET_def)
qed

text \<open>A read-only transaction commits without writing.\<close>

lemma commit_rdonly:
  assumes "mdb_txn_commit s = Some (s', r)" "F_ISSET (mt_flags (st_txn s)) MDB_TXN_RDONLY"
  shows "env_only s s'"
proof -
  have k: "keeps env_only
    (seqM (envM (mdb_dbis_update txn True)) (seqM (txnM (\<lambda>t. t\<lparr>mt_numdbs := 2\<rparr>)) mdb_txn_abort))" for txn
    by (intro keep; simp)
  show ?thesis
    using assms by (auto simp: mdb_txn_commit_def bindM_def [of "getM st_txn"] op_simps intro: keepsD [OF k])
qed

section \<open>The calls of an application\<close>

datatype api_call =
    Call_put nat "bytes option" "mdb_val option" u32
  | Call_del nat "bytes option"
  | Call_get nat "bytes option" bool
  | Call_drop nat bool
  | Call_dbi_open "bytes option" u32
  | Call_dbi_close nat
  | Call_stat nat
  | Call_set_compare nat cmp_func
  | Call_cursor_open nat
  | Call_cursor_renew nat
  | Call_cursor_close nat
  | Call_cursor_get nat "bytes option" bool cursor_op
  | Call_cursor_put nat bytes mdb_val u32
  | Call_cursor_del nat u32
  | Call_sync bool

text \<open>The state after a call; its result is the caller's.\<close>

definition after :: "'a op \<Rightarrow> mdb_state \<Rightarrow> mdb_state option" where
  "after m s = map_option fst (m s)"

fun run_call :: "api_call \<Rightarrow> mdb_state \<Rightarrow> mdb_state option" where
  "run_call (Call_put dbi key data flags) = after (mdb_put dbi key data flags)"
| "run_call (Call_del dbi key) = after (mdb_del dbi key)"
| "run_call (Call_get dbi key want) = after (mdb_get dbi key want)"
| "run_call (Call_drop dbi del) = after (mdb_drop dbi del)"
| "run_call (Call_dbi_open name flags) = after (mdb_dbi_open name flags)"
| "run_call (Call_dbi_close dbi) = after (envM (\<lambda>e. mdb_dbi_close e dbi))"
| "run_call (Call_stat dbi) = after (mdb_stat dbi)"
| "run_call (Call_set_compare dbi f) = after (mdb_set_compare dbi f)"
| "run_call (Call_cursor_open dbi) = after (mdb_cursor_open dbi)"
| "run_call (Call_cursor_renew mc) = after (mdb_cursor_renew mc)"
| "run_call (Call_cursor_close mc) = after (mdb_cursor_close mc)"
| "run_call (Call_cursor_get mc key want oper) = after (mdb_cursor_get mc key want oper)"
| "run_call (Call_cursor_put mc key data flags) = after (mdb_cursor_put mc key data flags)"
| "run_call (Call_cursor_del mc flags) = after (mdb_cursor_del mc flags)"
| "run_call (Call_sync force) = after (mdb_env_sync force)"

lemma afterD: "after m s = Some s' \<Longrightarrow> keeps R m \<Longrightarrow> R s s'"
  by (auto simp: after_def keeps_def)

lemma dbi_close_frame [simp]: "env_frame e (mdb_dbi_close e dbi)"
  by (simp add: mdb_dbi_close_def env_frame_def)

lemmas call_rules = txn.keeps_put txn.keeps_del txn.keeps_get txn.keeps_drop txn.keeps_dbi_open txn.keeps_stat
  txn.keeps_set_compare txn.keeps_cursor_open txn.keeps_cursor_renew txn.keeps_cursor_close txn.keeps_cursor_get
  txn.keeps_cursor_put txn.keeps_cursor_del txn.keeps_env_sync txn.keeps_updM [OF txn.W_env [OF dbi_close_frame]]

lemma run_call_frame: "run_call c s = Some s' \<Longrightarrow> txn_frame s s'"
  by (cases c; simp only: run_call.simps; erule afterD; rule call_rules)

lemma run_call_access: "run_call c s = Some s' \<Longrightarrow> same_access s s'"
  using run_call_frame [of c s s'] by (simp add: txn_frame_def same_access_def)

section \<open>Lookups\<close>

fun is_lookup :: "api_call \<Rightarrow> bool" where
  "is_lookup (Call_get dbi key want) = True"
| "is_lookup (Call_cursor_get mc key want oper) = True"
| "is_lookup (Call_stat dbi) = True"
| "is_lookup _ = False"

text \<open>
  C35: Looking up changes no page. \<open>mdb_get\<close>, \<open>mdb_cursor_get\<close> with every operation and
  \<open>mdb_stat\<close>, in a transaction of any kind and whether they succeed or fail, leave the map,
  the pages in memory, the environment and all of the transaction as they are, but for the error
  flag, which they may set, and the record of a database that was marked stale, which they may
  read in and then mark as not stale; a record that was not stale keeps its root and its flags.
\<close>

theorem lookups_change_no_page:
  assumes "run_call c s = Some s'" "is_lookup c"
  shows "st_map s' = st_map s \<and> st_heap s' = st_heap s \<and> st_env s' = st_env s \<and>
    mt_flags (st_txn s') \<in> {mt_flags (st_txn s), mt_flags (st_txn s) OR MDB_TXN_ERROR} \<and>
    (\<forall>i. mt_dbs (st_txn s') i = mt_dbs (st_txn s) i \<and> mt_dbflags (st_txn s') i = mt_dbflags (st_txn s) i \<or>
       any_set (mt_dbflags (st_txn s) i) DB_STALE \<and>
       mt_dbflags (st_txn s') i = clear_flag (mt_dbflags (st_txn s) i) DB_STALE) \<and>
    (\<exists>cs n fl dbs dbflags. s' = s\<lparr>st_cursors := cs, st_cfresh := n,
       st_txn := (st_txn s)\<lparr>mt_flags := fl, mt_dbs := dbs, mt_dbflags := dbflags\<rparr>\<rparr>)"
proof -
  have "only_looks s s'"
    using assms afterD [OF _ looking.keeps_get] afterD [OF _ looking.keeps_cursor_get] afterD [OF _ looking.keeps_stat]
    by (cases c) auto
  then obtain cs n where s': "s' = s\<lparr>st_cursors := cs, st_cfresh := n, st_txn := st_txn s'\<rparr>"
    and r: "reads_in (st_txn s) (st_txn s')" by (rule only_looksE)
  from r have t: "st_txn s' = (st_txn s)\<lparr>mt_flags := mt_flags (st_txn s'), mt_dbs := mt_dbs (st_txn s'),
      mt_dbflags := mt_dbflags (st_txn s')\<rparr>" unfolding reads_in_def by blast
  have "st_map s' = st_map s" "st_heap s' = st_heap s" "st_env s' = st_env s" by (subst s', simp)+
  moreover have "\<exists>cs n fl dbs dbflags. s' = s\<lparr>st_cursors := cs, st_cfresh := n,
       st_txn := (st_txn s)\<lparr>mt_flags := fl, mt_dbs := dbs, mt_dbflags := dbflags\<rparr>\<rparr>"
    using s' t by metis
  ultimately show ?thesis using r unfolding reads_in_def by auto
qed

theorem lookups_witness:
  "\<exists>s'. run_call (Call_get 1 (Some [7]) True) state0 = Some s' \<and> st_map s' = st_map state0 \<and>
    (\<forall>i. \<not> any_set (mt_dbflags (st_txn state0) i) DB_STALE \<longrightarrow> mt_dbs (st_txn s') i = mt_dbs (st_txn state0) i)"
proof -
  have "\<exists>s'. mdb_get 1 (Some [7]) True state0 = Some (s', Inr [107])"
    using memn.get_run [of state0 1 1 "[7]", unfolded root_state0 node_cmp_memn] db_ready_state0 tree_ok_state0
    by (simp only: tree_items_state0) (auto simp: CURSOR_STACK_def node_cmp_memn)
  then obtain s' where "run_call (Call_get 1 (Some [7]) True) state0 = Some s'" by (auto simp: after_def)
  moreover from lookups_change_no_page [OF this] have "st_map s' = st_map state0"
    "\<forall>i. \<not> any_set (mt_dbflags (st_txn state0) i) DB_STALE \<longrightarrow> mt_dbs (st_txn s') i = mt_dbs (st_txn state0) i"
    by auto
  ultimately show ?thesis by blast
qed

section \<open>Sessions\<close>

text \<open>
  The phases: no transaction, a read-only one, a read-only one that was reset, a write
  transaction. Each step has the name of what the application did, with its result. The numbers
  of transactions do not wrap around.
\<close>

datatype phase = Idle | Reading | Parked | Writing

datatype session_event =
  Begins "mdb_err + unit" | Calls api_call | Resets | Renews | Aborts | Commits "mdb_err + unit"

inductive session_step :: "phase \<times> mdb_state \<Rightarrow> session_event \<Rightarrow> phase \<times> mdb_state \<Rightarrow> bool" where
  begin_read: "any_set fl MDB_RDONLY \<Longrightarrow> mdb_txn_begin tid fl s = Some (s', Inr ()) \<Longrightarrow>
    session_step (Idle, s) (Begins (Inr ())) (Reading, s')"
| begin_write: "\<not> any_set fl MDB_RDONLY \<Longrightarrow> mdb_txn_begin tid fl s = Some (s', Inr ()) \<Longrightarrow>
    mm_txnid (picked s) + 1 \<noteq> 0 \<Longrightarrow> session_step (Idle, s) (Begins (Inr ())) (Writing, s')"
| begin_fails: "mdb_txn_begin tid fl s = Some (s', Inl e) \<Longrightarrow> session_step (Idle, s) (Begins (Inl e)) (Idle, s')"
| call: "ph \<noteq> Idle \<Longrightarrow> run_call c s = Some s' \<Longrightarrow> session_step (ph, s) (Calls c) (ph, s')"
| reset: "mdb_txn_reset s = Some (s', r) \<Longrightarrow> session_step (Reading, s) Resets (Parked, s')"
| renew: "mdb_txn_renew tid s = Some (s', r) \<Longrightarrow>
    session_step (Parked, s) Renews (case r of Inr _ \<Rightarrow> Reading | Inl _ \<Rightarrow> Parked, s')"
| abort: "ph \<noteq> Idle \<Longrightarrow> mdb_txn_abort s = Some (s', r) \<Longrightarrow> session_step (ph, s) Aborts (Idle, s')"
| commit: "ph \<noteq> Idle \<Longrightarrow> mdb_txn_commit s = Some (s', r) \<Longrightarrow> session_step (ph, s) (Commits r) (Idle, s')"

definition fatal :: "mdb_state \<Rightarrow> bool" where
  "fatal s \<longleftrightarrow> any_set (me_flags (st_env s)) MDB_FATAL_ERROR"

fun session_ok :: "phase \<times> mdb_state \<Rightarrow> bool" where
  "session_ok (Idle, s) \<longleftrightarrow> file_ready s"
| "session_ok (Writing, s) \<longleftrightarrow> txn_ready s \<and> \<not> F_ISSET (mt_flags (st_txn s)) MDB_TXN_RDONLY"
| "session_ok (_, s) \<longleftrightarrow> file_ready s \<and> F_ISSET (mt_flags (st_txn s)) MDB_TXN_RDONLY"

lemma session_okD: "session_ok (ph, s) \<Longrightarrow> file_ready s"
  by (cases ph) (simp_all add: txn_ready_def)

lemma session_step_env:
  assumes "session_step x ev y" "\<not> (fst x = Writing \<and> (\<exists>r. ev = Commits r))" "session_ok x"
  shows "env_only (snd x) (snd y) \<and> session_ok y"
  using assms
proof (cases rule: session_step.cases)
  case (begin_read fl tid s s')
  note e = keepsD [OF keeps_txn_begin begin_read(5)]
  then show ?thesis
    using begin_read assms(3) env_only_ready [OF e] txn_begin_read [OF begin_read(5,4)] by simp
next
  case (begin_write fl tid s s')
  note e = keepsD [OF keeps_txn_begin begin_write(5)]
  show ?thesis using begin_write e assms(3) txn_begin_write [OF begin_write(5) _ begin_write(4,6)] by simp
next
  case (begin_fails tid fl s s' e)
  note e = keepsD [OF keeps_txn_begin begin_fails(4)]
  then show ?thesis using begin_fails assms(3) env_only_ready [OF e] by simp
next
  case (call ph c s s')
  note f = run_call_frame [OF call(5)]
  then show ?thesis
    using call assms(3) frame_file_ready [OF f] frame_txn_ready [OF f] txn_env_frame [OF f]
    by (cases ph) (auto simp: txn_frame_def)
next
  case (reset s s' r)
  note e = keepsD [OF keeps_txn_reset reset(4)] keepsD [OF access_reset reset(4)]
  then show ?thesis using reset assms(3) env_only_ready [OF e(1)] by (simp add: same_access_def)
next
  case (renew tid s s' r)
  note e = keepsD [OF keeps_txn_renew renew(4)] keepsD [OF access_renew renew(4)]
  then show ?thesis
    using renew assms(3) env_only_ready [OF e(1)] by (auto simp: same_access_def split: sum.split)
next
  case (abort ph s s' r)
  note f = keepsD [OF txn.keeps_txn_abort abort(5)]
  then show ?thesis
    using abort assms(3) frame_file_ready [OF f] txn_env_frame [OF f] session_okD [of ph s] by simp
next
  case (commit ph s s' r)
  then have "F_ISSET (mt_flags (st_txn s)) MDB_TXN_RDONLY" "file_ready s"
    using assms(2,3) by (cases ph; simp)+
  note e = commit_rdonly [OF commit(5) this(1)]
  then show ?thesis using commit \<open>file_ready s\<close> env_only_ready [OF e] by simp
qed

text \<open>
  How the committed state may move: by the whole next transaction when a write transaction
  commits with success; a commit that fails may have done so only with a fatal error.
\<close>

definition next_committed :: "mdb_state \<Rightarrow> mdb_state \<Rightarrow> bool" where
  "next_committed s s' \<longleftrightarrow> mm_txnid (picked s) + 1 \<noteq> 0 \<and> mm_txnid (picked s') = mm_txnid (picked s) + 1"

definition moves_committed :: "phase \<Rightarrow> session_event \<Rightarrow> mdb_state \<Rightarrow> mdb_state \<Rightarrow> bool" where
  "moves_committed ph ev s s' \<longleftrightarrow>
     (if ph = Writing \<and> ev = Commits (Inr ()) \<and> \<not> txn_clean (st_txn s)
      then next_committed s s' \<and> committed_meta (st_txn s') (picked s')
      else picked s' = picked s \<or>
        ph = Writing \<and> (\<exists>e. ev = Commits (Inl e)) \<and> fatal s' \<and> next_committed s s')"

lemma session_step_commit:
  assumes "session_step (Writing, s) (Commits r) (ph, s')" "session_ok (Writing, s)"
  shows "ph = Idle \<and> (file_ready s' \<or> fatal s') \<and> moves_committed Writing (Commits r) s s'"
  using assms(1)
proof (cases rule: session_step.cases)
  case commit
  have ready: "txn_ready s" "\<not> F_ISSET (mt_flags (st_txn s)) MDB_TXN_RDONLY" using assms(2) by simp_all
  note c = commit_atomic' [OF ready commit(3)]
  show ?thesis
  proof (cases r)
    case (Inl e)
    then show ?thesis
      using c ready(1) commit
      by (auto simp: txn_ready_def fatal_def next_committed_def moves_committed_def picked_def pick_meta_env)
  next
    case (Inr u)
    then show ?thesis
      using c ready(1) commit
      by (auto simp: txn_ready_def committed_meta_def next_committed_def moves_committed_def picked_def pick_meta_env
          split: if_splits)
  qed
qed

lemma session_step_moves:
  assumes "session_step x ev y" "session_ok x"
  shows "(session_ok y \<or> fatal (snd y)) \<and> moves_committed (fst x) ev (snd x) (snd y)"
proof (cases "fst x = Writing \<and> (\<exists>r. ev = Commits r)")
  case True
  then obtain s ph s' r where "x = (Writing, s)" "y = (ph, s')" "ev = Commits r" by (metis prod.collapse)
  then show ?thesis using session_step_commit [of s r ph s'] assms by auto
next
  case False
  then have "picked (snd y) = picked (snd x)" "session_ok y"
    using session_step_env [OF assms(1) False assms(2)] env_only_picked by blast+
  then show ?thesis using False by (auto simp: moves_committed_def)
qed

lemma unat_next: "(w :: u64) + 1 \<noteq> 0 \<Longrightarrow> unat (w + 1) = Suc (unat w)"
  by (metis Suc_eq_plus1 unatSuc add.commute)

text \<open>The states an application reaches from an open environment, up to a fatal error.\<close>

inductive session :: "mdb_state \<Rightarrow> phase \<times> mdb_state \<Rightarrow> bool" for s0 where
  opened: "session s0 (Idle, s0)"
| step: "session s0 x \<Longrightarrow> \<not> fatal (snd x) \<Longrightarrow> session_step x ev y \<Longrightarrow> session s0 y"


lemma commit_state0_file: "file_ready commit_state0"
  using commit_state0_ready by (simp add: txn_ready_def)

definition idle_state0 :: mdb_state where
  "idle_state0 = commit_state0\<lparr>st_env := env0\<lparr>me_txn0 := txn1\<lparr>mt_dirty_list := [\<lparr>mid = 0, mptr = NullPg\<rparr>]\<rparr>,
     me_dirty_list := [\<lparr>mid = 0, mptr = NullPg\<rparr>]\<rparr>\<rparr>"

lemma idle_state0_ready: "file_ready idle_state0" "\<not> fatal idle_state0" "mm_txnid (picked idle_state0) = 0"
  by (simp_all add: file_ready_def whole_ids_def picked_def idle_state0_def env0_flags pick_meta_env fatal_def any_set_def)
    (simp add: env0_def)

lemma lock_w_free:
  "\<not> me_wlocked (st_env s) \<Longrightarrow> st_sync s (st_clock s) = 0 \<Longrightarrow>
    lock_w s = Some (s\<lparr>st_clock := st_clock s + 1, st_env := (st_env s)\<lparr>me_wlocked := True\<rparr>\<rparr>, Inr ())"
  by (simp add: lock_w_def syscallM_def next_call_def seqM_def bindM_def op_simps)

lemma idle_state0_begins: "\<exists>s'. mdb_txn_begin 7 0 idle_state0 = Some (s', Inr ())"
proof -
  have e: "\<not> me_wlocked env0" "me_txns env0 = Some \<lparr>mti_txnid = 0, mti_numreaders = 0,
      mti_readers = (\<lambda>_. \<lparr>mr_txnid = 0, mr_pid = 0, mr_tid = 0\<rparr>)\<rparr>" "me_maxpg env0 = 256" "mm_last_pg meta0 = 1"
    by (simp_all add: env0_def meta0_def)
  show ?thesis
    by (simp add: mdb_txn_begin_def mdb_txn_renew0_def renew_write_def lock_w_free e db_infos_def
        seqM_def bindM_def op_simps idle_state0_def env0_flags any_set_def)
qed


end
