(* ===== verification/Flush.thy ===== *)
theory Flush
  imports Spill
begin

text \<open>
  What \<open>mdb_page_flush\<close> puts where: the dirty pages that are not kept reach the file at their
  own numbers, however they are grouped into writes, and nothing else in the file changes.
\<close>

section \<open>One group\<close>

text \<open>The page a dirty-list entry points at, in the memory \<open>h\<close> of \<open>malloc\<close>.\<close>

fun heap_page :: "(nat \<Rightarrow> mdb_page option) \<Rightarrow> page_ref \<Rightarrow> mdb_page option" where
  "heap_page h (HeapPg a) = h a"
| "heap_page h r = None"

definition entry_page :: "(nat \<Rightarrow> mdb_page option) \<Rightarrow> page_ref mdb_id2 \<Rightarrow> mdb_page" where
  "entry_page h e = the (heap_page h (mptr e))"

definition in_heap :: "(nat \<Rightarrow> mdb_page option) \<Rightarrow> page_ref mdb_id2 \<Rightarrow> bool" where
  "in_heap h e \<longleftrightarrow> heap_page h (mptr e) \<noteq> None"

lemma in_heap_page: "in_heap (st_heap s) e \<Longrightarrow> page_at s (mptr e) = Some (entry_page (st_heap s) e)"
  by (cases "mptr e") (auto simp: in_heap_def entry_page_def)

text \<open>
  \<open>laid psize h wpos g\<close>: the pages of the entries \<open>g\<close> lie one behind the other in the file,
  from the position \<open>wpos\<close>; \<open>span\<close> is the number of bytes they take.
\<close>

definition entry_bytes :: "nat \<Rightarrow> (nat \<Rightarrow> mdb_page option) \<Rightarrow> page_ref mdb_id2 \<Rightarrow> nat" where
  "entry_bytes psize h e = page_bytes psize (entry_page h e)"

fun laid :: "nat \<Rightarrow> (nat \<Rightarrow> mdb_page option) \<Rightarrow> u64 \<Rightarrow> page_ref mdb_id2 list \<Rightarrow> bool" where
  "laid psize h wpos [] \<longleftrightarrow> True"
| "laid psize h wpos (e # g) \<longleftrightarrow> in_heap h e \<and> wpos div word_of_nat psize = mid e \<and>
     laid psize h (wpos + word_of_nat (entry_bytes psize h e)) g"

definition span :: "nat \<Rightarrow> (nat \<Rightarrow> mdb_page option) \<Rightarrow> page_ref mdb_id2 list \<Rightarrow> nat" where
  "span psize h g = sum_list (map (entry_bytes psize h) g)"

lemma span_simps [simp]: "span psize h [] = 0" "span psize h (e # g) = entry_bytes psize h e + span psize h g"
  "span psize h (f @ g) = span psize h f + span psize h g"
  by (simp_all add: span_def)

lemma laid_append:
  "laid psize h wpos (f @ g) \<longleftrightarrow> laid psize h wpos f \<and> laid psize h (wpos + word_of_nat (span psize h f)) g"
  by (induction f arbitrary: wpos) (auto simp: ac_simps)

text \<open>
  The file after the pages of \<open>g\<close> were written, or a part of them: nothing changes at other
  numbers, and after a success the pages are those of memory.
\<close>

definition stored ::
  "(nat \<Rightarrow> mdb_page option) \<Rightarrow> page_ref mdb_id2 set \<Rightarrow> bool \<Rightarrow> (u64 \<Rightarrow> mdb_page) \<Rightarrow> (u64 \<Rightarrow> mdb_page) \<Rightarrow> bool" where
  "stored h g done m m' \<longleftrightarrow> (\<forall>pg. pg \<notin> mid ` g \<longrightarrow> m' pg = m pg) \<and>
     (done \<longrightarrow> (\<forall>e \<in> g. m' (mid e) = entry_page h e))"

lemma store_iov_stored:
  assumes "laid psize (st_heap s) wpos g" "distinct (map mid g)"
  shows "\<exists>m. store_iov psize wpos n (map mptr g) s = Some (s\<lparr>st_map := m\<rparr>, Inr ()) \<and>
    stored (st_heap s) (set g) (span psize (st_heap s) g \<le> n) (st_map s) m"
  using assms
proof (induction g arbitrary: wpos n s)
  case Nil
  show ?case by (intro exI [of _ "st_map s"]) (simp add: ret_def stored_def)
next
  case (Cons e g)
  define p where "p = entry_page (st_heap s) e"
  define len where "len = page_bytes psize p"
  define m1 where "m1 = (st_map s)(mid e := (if len \<le> n then p else if n = 0 then st_map s (mid e)
      else st_torn s (st_map s (mid e)) p n))"
  have e: "page_at s (mptr e) = Some p" "wpos div word_of_nat psize = mid e"
    using Cons.prems(1) by (simp_all add: p_def in_heap_page)
  have run: "store_iov psize wpos n (map mptr (e # g)) s
      = store_iov psize (wpos + word_of_nat len) (n - len) (map mptr g) (s\<lparr>st_map := m1\<rparr>)"
    by (simp add: pageM_def bindM_def seqM_def op_simps e Let_def m1_def len_def)
  obtain m where m: "store_iov psize (wpos + word_of_nat len) (n - len) (map mptr g) (s\<lparr>st_map := m1\<rparr>)
        = Some (s\<lparr>st_map := m1\<rparr>\<lparr>st_map := m\<rparr>, Inr ())"
      "stored (st_heap s) (set g) (span psize (st_heap s) g \<le> n - len) m1 m"
    using Cons.IH [of "s\<lparr>st_map := m1\<rparr>" "wpos + word_of_nat len" "n - len"] Cons.prems
    by (auto simp: len_def p_def entry_bytes_def)
  have "mid e \<notin> mid ` set g" using Cons.prems(2) by auto
  then show ?case
    using m run by (intro exI [of _ m]) (auto simp: stored_def m1_def p_def len_def entry_bytes_def)
qed

text \<open>The system does what it is asked.\<close>

definition io_ok :: "mdb_state \<Rightarrow> bool" where
  "io_ok s \<longleftrightarrow> (\<forall>k. st_sync s k = 0) \<and> (\<forall>k n. st_write s k n = Wrote n)"

lemma write_group_stored:
  assumes "laid (me_psize (st_env s)) (st_heap s) wpos g" "distinct (map mid g)"
    and "unat wsize = span (me_psize (st_env s)) (st_heap s) g"
  shows "\<exists>m c r. write_group wpos wsize (map mptr g) s = Some (s\<lparr>st_map := m, st_clock := c\<rparr>, r) \<and>
    stored (st_heap s) (set g) (r = Inr ()) (st_map s) m \<and> (io_ok s \<longrightarrow> r = Inr ())"
proof -
  define s1 where "s1 = (if length g = 1 then s else s\<lparr>st_clock := st_clock s + 1\<rparr>)"
  define seek where "seek = (if length g = 1 then 0 else st_sync s (st_clock s))"
  define res where "res = st_write s (st_clock s1) (unat wsize)"
  define s2 where "s2 = s1\<lparr>st_clock := st_clock s1 + 1\<rparr>"
  define r where "r = (case res of Wrote n \<Rightarrow> (if n \<noteq> unat wsize then Inl EIO else Inr ())
           | Write_failed e n \<Rightarrow> Inl (Errno e))"
  have s2: "s2 = s\<lparr>st_map := st_map s, st_clock := st_clock s2\<rparr>" "s1 = s\<lparr>st_map := st_map s, st_clock := st_clock s1\<rparr>"
    by (simp_all add: s1_def s2_def)
  have run: "write_group wpos wsize (map mptr g) s =
     (if seek \<noteq> 0 then Some (s1, Inl (Errno seek))
      else (case store_iov (me_psize (st_env s)) wpos (reached res) (map mptr g) s2 of
         None \<Rightarrow> None
       | Some (s3, Inl e) \<Rightarrow> Some (s3, Inl e)
       | Some (s3, Inr u) \<Rightarrow> Some (s3, r)))"
    by (auto simp: write_group_def bindM_def seqM_def op_simps next_call_def seek_def s1_def s2_def res_def r_def
        split: option.splits sum.splits write_result.splits)
  show ?thesis
  proof (cases "seek = 0")
    case False
    have "stored (st_heap s) (set g) (Inl (Errno seek) = Inr ()) (st_map s) (st_map s)" "\<not> io_ok s"
      using False by (auto simp: stored_def io_ok_def seek_def split: if_splits)
    then show ?thesis
      using run False
      by (intro exI [of _ "st_map s"] exI [of _ "st_clock s1"] exI [of _ "Inl (Errno seek)"]) (simp only: s2(2) [symmetric] if_True simp_thms)
  next
    case True
    have "st_heap s2 = st_heap s" "st_map s2 = st_map s" by (simp_all add: s2_def s1_def)
    then obtain m where m: "store_iov (me_psize (st_env s)) wpos (reached res) (map mptr g) s2 = Some (s2\<lparr>st_map := m\<rparr>, Inr ())"
      "stored (st_heap s) (set g) (span (me_psize (st_env s)) (st_heap s) g \<le> reached res) (st_map s) m"
      using store_iov_stored [of "me_psize (st_env s)" s2 wpos g "reached res"] assms(1,2) by auto
    have "r = Inr () \<Longrightarrow> unat wsize \<le> reached res"
      by (cases res) (auto simp: r_def split: if_splits)
    then have "stored (st_heap s) (set g) (r = Inr ()) (st_map s) m"
      using m(2) assms(3) by (auto simp: stored_def)
    moreover have "io_ok s \<longrightarrow> r = Inr ()" by (simp add: io_ok_def r_def res_def)
    moreover have "s2\<lparr>st_map := m\<rparr> = s\<lparr>st_map := m, st_clock := st_clock s2\<rparr>" by (subst s2(1)) simp
    ultimately show ?thesis using m(1) run True by auto
  qed
qed

section \<open>The loop\<close>

text \<open>The page of an entry ends before position \<open>2 ^ 63\<close> of the file.\<close>

definition fits :: "nat \<Rightarrow> (nat \<Rightarrow> mdb_page option) \<Rightarrow> page_ref mdb_id2 \<Rightarrow> bool" where
  "fits psize h e \<longleftrightarrow> in_heap h e \<and> 0 < entry_bytes psize h e \<and>
     unat (mid e) * psize + entry_bytes psize h e < 2 ^ 63"

text \<open>The variables of the loop, with the entries of the pages that wait to be written.\<close>

definition pending :: "nat \<Rightarrow> (nat \<Rightarrow> mdb_page option) \<Rightarrow> flush_vars \<Rightarrow> page_ref mdb_id2 list \<Rightarrow> bool" where
  "pending psize h v g \<longleftrightarrow> fv_iov v = map mptr g \<and> laid psize h (fv_wpos v) g \<and> distinct (map mid g) \<and>
     unat (fv_wsize v) = span psize h g \<and> span psize h g < 2 ^ 63 \<and> fv_pos v \<noteq> fv_next v \<and>
     (if g = [] then fv_next v = 1 else fv_next v = fv_wpos v + fv_wsize v)"

lemma entry_pos:
  assumes "fits psize h e" "1 < psize"
  shows "mid e * word_of_nat psize div word_of_nat psize = mid e" "mid e * word_of_nat psize \<noteq> 1"
    "mid e * word_of_nat psize \<noteq> mid e * word_of_nat psize + word_of_nat (entry_bytes psize h e)"
    "unat (word_of_nat (entry_bytes psize h e) :: u64) = entry_bytes psize h e"
proof -
  have b: "0 < entry_bytes psize h e" "unat (mid e) * psize + entry_bytes psize h e < 2 ^ 63"
    using assms(1) by (simp_all add: fits_def)
  show len: "unat (word_of_nat (entry_bytes psize h e) :: u64) = entry_bytes psize h e"
    using b by (simp add: unat_of_nat)
  have "psize \<le> entry_bytes psize h e"
    using b(1) by (auto simp: entry_bytes_def page_bytes_def)
  then have w: "unat (word_of_nat psize :: u64) = psize" using b(2) by (simp add: unat_of_nat)
  have m: "unat (mid e * word_of_nat psize) = unat (mid e) * psize"
    using b(2) w by (simp add: unat_word_ariths)
  show "mid e * word_of_nat psize div word_of_nat psize = mid e"
    by (rule word_unat_eq_iff [THEN iffD2]) (use assms(2) in \<open>simp add: unat_div m w\<close>)
  show "mid e * word_of_nat psize \<noteq> 1"
  proof
    assume "mid e * word_of_nat psize = 1"
    then have "unat (mid e) * psize = 1" using m by simp
    then show False using assms(2) by simp
  qed
  show "mid e * word_of_nat psize \<noteq> mid e * word_of_nat psize + word_of_nat (entry_bytes psize h e)"
    using len b(1) by auto
qed

definition flush_add :: "page_ref \<Rightarrow> flush_vars \<Rightarrow> flush_vars" where
  "flush_add r v = v\<lparr>fv_next := fv_pos v + fv_size v, fv_iov := fv_iov v @ [r], fv_wsize := fv_wsize v + fv_size v\<rparr>"

lemma flush_pending_run:
  fixes s :: mdb_state and psize v h e
  assumes h: "h = st_heap s" "psize = me_psize (st_env s)" and p: "1 < psize" "pending psize h v g" "fits psize h e"
    and new: "mid e \<notin> mid ` set g"
  shows "\<exists>m c r. flush_pending False (v\<lparr>fv_pos := mid e * word_of_nat psize,
        fv_size := word_of_nat (entry_bytes psize h e)\<rparr>) s = Some (s\<lparr>st_map := m, st_clock := c\<rparr>, r) \<and>
     (case r of
        Inl _ \<Rightarrow> stored h (set g) False (st_map s) m \<and> \<not> io_ok s
      | Inr v2 \<Rightarrow> (\<exists>g1 g2. g = g1 @ g2 \<and> stored h (set g1) True (st_map s) m \<and>
          pending psize h (flush_add (mptr e) v2) (g2 @ [e])))"
proof -
  define pos where "pos = mid e * (word_of_nat psize :: u64)"
  define size where "size = (word_of_nat (entry_bytes psize h e) :: u64)"
  define v1 where "v1 = v\<lparr>fv_pos := pos, fv_size := size\<rparr>"
  note pos = entry_pos [OF p(3,1), folded pos_def size_def]
  note pend = p(2) [unfolded pending_def]
  have e: "in_heap h e" "entry_bytes psize h e < 2 ^ 63" using p(3) by (simp_all add: fits_def)
  show ?thesis
  proof (cases "pos \<noteq> fv_next v \<or> length (fv_iov v) = MDB_COMMIT_PAGES \<or> fv_wsize v + size > MAX_WRITE")
    case True
    have add: "pending psize h (flush_add (mptr e) (v1\<lparr>fv_iov := [], fv_wpos := fv_pos v1, fv_wsize := 0\<rparr>)) ([] @ [e])"
      using pos e by (simp add: pending_def flush_add_def v1_def)
    have opened: "flush_pending False v1 s =
      bindM (if g \<noteq> [] then write_group (fv_wpos v) (fv_wsize v) (map mptr g) else ret ())
        (\<lambda>_. ret (v1\<lparr>fv_iov := [], fv_wpos := fv_pos v1, fv_wsize := 0\<rparr>)) s"
      using True pend by (simp add: flush_pending_def v1_def seqM_def)
    obtain m c q where w: "(if g \<noteq> [] then write_group (fv_wpos v) (fv_wsize v) (map mptr g) else ret ()) s
        = Some (s\<lparr>st_map := m, st_clock := c\<rparr>, q)" "stored h (set g) (q = Inr ()) (st_map s) m" "io_ok s \<longrightarrow> q = Inr ()"
    proof (cases "g = []")
      case True
      then show thesis using that [where m = "st_map s" and c = "st_clock s" and q = "Inr ()"] by (simp add: ret_def stored_def)
    next
      case False
      then show thesis
        using that write_group_stored [of s "fv_wpos v" g "fv_wsize v"] pend h by auto
    qed
    show ?thesis
    proof (cases q)
      case (Inl x)
      then show ?thesis
        using w unfolding v1_def [symmetric] pos_def [symmetric] size_def [symmetric]
        by (intro exI [of _ m] exI [of _ c] exI [of _ "Inl x"]) (simp add: opened bindM_def)
    next
      case (Inr u)
      then show ?thesis
        using w add unfolding v1_def [symmetric] pos_def [symmetric] size_def [symmetric]
        by (intro exI [of _ m] exI [of _ c] exI [of _ "Inr (v1\<lparr>fv_iov := [], fv_wpos := fv_pos v1, fv_wsize := 0\<rparr>)"])
          (auto simp: opened bindM_def op_simps intro: exI [of _ g])
    qed
  next
    case False
    then have g: "g \<noteq> []" using pend pos by auto
    have sum: "unat (fv_wsize v + size) = span psize h g + entry_bytes psize h e"
      using pend e(2) pos(4) by (simp add: unat_word_ariths size_def)
    have small: "unat (fv_wsize v + size) \<le> 2 ^ 31"
      using False by (simp add: word_le_nat_alt MAX_WRITE_def not_less)
    have "fv_wsize v = word_of_nat (span psize h g)" using pend by (intro word_unat_eq_iff [THEN iffD2]) (simp add: unat_of_nat)
    then have at: "fv_wpos v + word_of_nat (span psize h g) = pos" using pend g False by simp
    have added: "pending psize h (flush_add (mptr e) v1) (g @ [e])"
      using pend sum small at pos new e g False
      by (auto simp: pending_def flush_add_def v1_def laid_append size_def ac_simps)
    have "\<exists>g1 g2. g = g1 @ g2 \<and> stored h (set g1) True (st_map s) (st_map s) \<and>
        pending psize h (flush_add (mptr e) v1) (g2 @ [e])"
      using added by (intro exI [of _ "[]"] exI [of _ g]) (simp add: stored_def)
    moreover have "flush_pending False v1 s = Some (s\<lparr>st_map := st_map s, st_clock := st_clock s\<rparr>, Inr v1)"
      using False by (simp add: flush_pending_def v1_def op_simps)
    ultimately show ?thesis
      unfolding v1_def [symmetric] pos_def [symmetric] size_def [symmetric]
      by (intro exI [of _ "st_map s"] exI [of _ "st_clock s"] exI [of _ "Inr v1"]) simp
  qed
qed

definition kept_page :: "mdb_page \<Rightarrow> bool" where
  "kept_page p \<longleftrightarrow> any_set (mp_flags p) (P_LOOSE OR P_KEEP)"

text \<open>What the loop makes of a page: a kept one loses its mark, a written one is no longer dirty.\<close>

definition after_flush :: "mdb_page \<Rightarrow> mdb_page" where
  "after_flush p = p\<lparr>mp_flags := clear_flag (mp_flags p) (if kept_page p then P_KEEP else P_DIRTY)\<rparr>"

lemma page_bytes_after [simp]: "page_bytes psize (after_flush p) = page_bytes psize p"
proof -
  have "F_ISSET (clear_flag w f) P_OVERFLOW \<longleftrightarrow> F_ISSET w P_OVERFLOW" if "f = P_KEEP \<or> f = P_DIRTY" for w f
    using that by (auto simp: F_ISSET_clear_other P_KEEP_def P_DIRTY_def P_OVERFLOW_def)
  then show ?thesis by (auto simp: page_bytes_def after_flush_def IS_OVERFLOW_def mp_pages_def)
qed

lemma heap_cong:
  assumes "\<forall>e \<in> set g. heap_page h' (mptr e) = heap_page h (mptr e)"
  shows "laid psize h' w g = laid psize h w g" "span psize h' g = span psize h g" "pending psize h' v g = pending psize h v g"
proof -
  show l: "laid psize h' w g = laid psize h w g" for w
    using assms by (induction g arbitrary: w) (simp_all add: in_heap_def entry_bytes_def entry_page_def)
  show "span psize h' g = span psize h g"
    using assms by (induction g) (simp_all add: entry_bytes_def entry_page_def)
  then show "pending psize h' v g = pending psize h v g" by (simp add: pending_def l)
qed

lemma upd_heap_page:
  "in_heap (st_heap s) e \<Longrightarrow> mptr e = HeapPg a \<Longrightarrow>
    upd_pageM (mptr e) f s = Some (s\<lparr>st_heap := (st_heap s)(a := Some (f (entry_page (st_heap s) e)))\<rparr>, Inr ())"
  by (auto simp: upd_pageM_def set_pageM_def pageM_def bindM_def in_heap_def entry_page_def)

text \<open>The heap and the dirty list after a success.\<close>

definition flushed_heap ::
  "(nat \<Rightarrow> mdb_page option) \<Rightarrow> page_ref mdb_id2 list \<Rightarrow> (nat \<Rightarrow> mdb_page option) \<Rightarrow> bool" where
  "flushed_heap h es h' \<longleftrightarrow> (\<forall>e \<in> set es. heap_page h' (mptr e) = Some (after_flush (entry_page h e))) \<and>
     (\<forall>r. r \<notin> mptr ` set es \<longrightarrow> heap_page h' r = heap_page h r)"

definition marked_list ::
  "(nat \<Rightarrow> mdb_page option) \<Rightarrow> nat \<Rightarrow> nat \<Rightarrow> page_ref id2l \<Rightarrow> page_ref id2l \<Rightarrow> bool" where
  "marked_list h i n dl dl' \<longleftrightarrow> length dl' = length dl \<and>
     (\<forall>k < length dl. dl' ! k = (if i \<le> k \<and> k < i + n \<and> kept_page (entry_page h (dl ! k)) then (dl ! k)\<lparr>mid := 0\<rparr> else dl ! k))"

lemma flushed_heap_Cons:
  assumes "flushed_heap (h(a := Some (after_flush p))) es h'" "mptr e = HeapPg a" "h a = Some p" "mptr e \<notin> mptr ` set es"
  shows "flushed_heap h (e # es) h'"
proof -
  have other: "heap_page (h(a := Some (after_flush p))) r = heap_page h r" if "r \<noteq> mptr e" for r
    using that assms(2) by (cases r) auto
  then have "entry_page (h(a := Some (after_flush p))) x = entry_page h x" if "x \<in> set es" for x
    using other [of "mptr x"] image_eqI [OF refl that, of mptr] assms(4) by (metis entry_page_def)
  moreover have "heap_page h' (mptr e) = Some (after_flush p)" using assms(1,2,4) by (auto simp: flushed_heap_def)
  moreover have "entry_page h e = p" using assms(2,3) by (simp add: entry_page_def)
  ultimately show ?thesis using assms(1) other by (auto simp: flushed_heap_def)
qed

lemma marked_list_Suc:
  assumes "marked_list h1 (i + 1) n dl1 dl'" "length dl1 = length dl" "i < length dl"
    and "\<forall>k. i < k \<longrightarrow> dl1 ! k = dl ! k" "\<forall>k. k < i \<longrightarrow> dl1 ! k = dl ! k"
    and "dl1 ! i = (if kept_page (entry_page h (dl ! i)) then (dl ! i)\<lparr>mid := 0\<rparr> else dl ! i)"
    and "\<forall>k. i < k \<and> k < i + Suc n \<longrightarrow> entry_page h1 (dl ! k) = entry_page h (dl ! k)"
  shows "marked_list h i (Suc n) dl dl'"
  unfolding marked_list_def
proof (intro conjI allI impI)
  show "length dl' = length dl" using assms(1,2) by (simp add: marked_list_def)
  fix k assume k: "k < length dl"
  then have "dl' ! k = (if i + 1 \<le> k \<and> k < i + 1 + n \<and> kept_page (entry_page h1 (dl1 ! k)) then (dl1 ! k)\<lparr>mid := 0\<rparr> else dl1 ! k)"
    using assms(1,2) by (simp add: marked_list_def)
  then show "dl' ! k = (if i \<le> k \<and> k < i + Suc n \<and> kept_page (entry_page h (dl ! k)) then (dl ! k)\<lparr>mid := 0\<rparr> else dl ! k)"
    using assms(4-7) by (cases k i rule: linorder_cases) auto
qed

lemma flush_write_run:
  assumes "i + n \<le> length (mt_dirty_list (st_txn s))" "1 < me_psize (st_env s)"
    and "pending (me_psize (st_env s)) (st_heap s) v g"
    and "es = map ((!) (mt_dirty_list (st_txn s))) [i..<i + n]" "\<forall>e \<in> set es. fits (me_psize (st_env s)) (st_heap s) e"
    and "distinct (map mptr (g @ es))" "distinct (map mid (g @ es))"
  shows "\<exists>m c h' dl' r. flush_write i n v s = Some (s\<lparr>st_map := m, st_clock := c, st_heap := h',
        st_txn := (st_txn s)\<lparr>mt_dirty_list := dl'\<rparr>\<rparr>, r) \<and>
     (\<forall>pg. pg \<notin> mid ` (set g \<union> {e \<in> set es. \<not> kept_page (entry_page (st_heap s) e)}) \<longrightarrow> m pg = st_map s pg) \<and>
     (r = Inr () \<longrightarrow> (\<forall>e \<in> set g. m (mid e) = entry_page (st_heap s) e) \<and>
        (\<forall>e \<in> set es. \<not> kept_page (entry_page (st_heap s) e) \<longrightarrow> m (mid e) = after_flush (entry_page (st_heap s) e)) \<and>
        flushed_heap (st_heap s) es h' \<and> marked_list (st_heap s) i n (mt_dirty_list (st_txn s)) dl') \<and>
     (io_ok s \<longrightarrow> r = Inr ())"
  using assms
proof (induction n arbitrary: i v s g es)
  case 0
  have es: "es = []" using "0.prems"(4) by simp
  note pend = "0.prems"(3) [unfolded pending_def]
  have keep: "s\<lparr>st_map := m, st_clock := c\<rparr> = s\<lparr>st_map := m, st_clock := c, st_heap := st_heap s,
      st_txn := (st_txn s)\<lparr>mt_dirty_list := mt_dirty_list (st_txn s)\<rparr>\<rparr>" for m c by simp
  have "\<exists>m c r. (if fv_iov v \<noteq> [] then write_group (fv_wpos v) (fv_wsize v) (fv_iov v) else ret ()) s
      = Some (s\<lparr>st_map := m, st_clock := c\<rparr>, r) \<and> stored (st_heap s) (set g) (r = Inr ()) (st_map s) m \<and> (io_ok s \<longrightarrow> r = Inr ())"
  proof (cases "g = []")
    case True
    then show ?thesis using pend by (intro exI [of _ "st_map s"] exI [of _ "st_clock s"] exI [of _ "Inr ()"]) (simp add: ret_def stored_def)
  next
    case False
    then show ?thesis using pend write_group_stored [of s "fv_wpos v" g "fv_wsize v"] by auto
  qed
  then obtain m c r where w: "(if fv_iov v \<noteq> [] then write_group (fv_wpos v) (fv_wsize v) (fv_iov v) else ret ()) s
      = Some (s\<lparr>st_map := m, st_clock := c\<rparr>, r)" "stored (st_heap s) (set g) (r = Inr ()) (st_map s) m"
      "io_ok s \<longrightarrow> r = Inr ()" by blast
  have "flush_write i 0 v s = Some (s\<lparr>st_map := m, st_clock := c\<rparr>, r)"
    using pend w(1) by (cases r) (auto simp: flush_pending_def seqM_def bindM_def op_simps split: if_splits)
  then show ?case
    using w(2,3) by (intro exI [of _ m] exI [of _ c] exI [of _ "st_heap s"] exI [of _ "mt_dirty_list (st_txn s)"] exI [of _ r])
      (auto simp: es stored_def flushed_heap_def marked_list_def simp del: flush_write.simps)
next
  case (Suc n)
  define dl where "dl = mt_dirty_list (st_txn s)"
  define psize where "psize = me_psize (st_env s)"
  define h where "h = st_heap s"
  define e where "e = dl ! i"
  define es' where "es' = map ((!) dl) [Suc i..<Suc i + n]"
  define p where "p = entry_page h e"
  have es: "es = e # es'" using Suc.prems(4) by (simp add: es'_def e_def dl_def upt_rec [of i] del: upt_Suc)
  have i: "i < length dl" using Suc.prems(1) by (simp add: dl_def)
  have fit: "fits psize h e" using Suc.prems(5) by (simp add: es psize_def h_def)
  then obtain a where a: "mptr e = HeapPg a" "h a = Some p"
    by (cases "mptr e") (auto simp: fits_def in_heap_def p_def entry_page_def)
  define h1 where "h1 = h(a := Some (after_flush p))"
  have new: "mptr e \<notin> mptr ` set (g @ es')" "mid e \<notin> mid ` set (g @ es')"
    using Suc.prems(6,7) by (auto simp: es)
  have other: "heap_page h1 r = heap_page h r" if "r \<noteq> mptr e" for r
    using that a by (cases r) (auto simp: h1_def)
  then have old: "\<forall>x \<in> set (g @ es'). heap_page h1 (mptr x) = heap_page h (mptr x)"
    using new(1) other by (metis image_eqI)
  then have page: "entry_page h1 x = entry_page h x" if "x \<in> set (g @ es')" for x
    using that by (simp add: entry_page_def)
  have same_kept: "{x \<in> set es'. \<not> kept_page (entry_page h1 x)} = {x \<in> set es'. \<not> kept_page (entry_page h x)}"
    using page by (intro Collect_cong) auto
  have in_es: "dl ! k \<in> set es'" if "i < k \<and> k < i + Suc n" for k
    unfolding es'_def set_map set_upt by (rule imageI) (use that in simp)
  have e1: "entry_page h1 e = after_flush p" using a(1) by (simp add: entry_page_def h1_def)
  have fit': "\<forall>x \<in> set es'. fits psize h1 x"
    using Suc.prems(5) old by (auto simp: es fits_def in_heap_def entry_bytes_def entry_page_def psize_def h_def)
  have at_e: "page_at s (mptr e) = Some p" using a by (simp add: h_def)
  have pend1: "pending psize h1 v g" using Suc.prems(3) heap_cong(3) [of g h1 h] old by (simp add: psize_def h_def)
  have upd: "upd_pageM (HeapPg a) f s = Some (s\<lparr>st_heap := h(a := Some (f p))\<rparr>, Inr ())" for f
    using a(2) by (simp add: upd_pageM_def set_pageM_def pageM_def bindM_def h_def)
  note fold = dl_def [symmetric] psize_def [symmetric] h_def [symmetric]
  have goal: ?case if "flush_write i (Suc n) v s = Some (s\<lparr>st_map := m, st_clock := c, st_heap := h',
        st_txn := (st_txn s)\<lparr>mt_dirty_list := dl'\<rparr>\<rparr>, r)"
    "\<forall>pg. pg \<notin> mid ` (set g \<union> {x \<in> set es'. \<not> kept_page (entry_page h x)} \<union> (if kept_page p then {} else {e})) \<longrightarrow> m pg = st_map s pg"
    "r = Inr () \<longrightarrow> (\<forall>x \<in> set g. m (mid x) = entry_page h x) \<and> (\<not> kept_page p \<longrightarrow> m (mid e) = after_flush p) \<and>
       (\<forall>x \<in> set es'. \<not> kept_page (entry_page h x) \<longrightarrow> m (mid x) = after_flush (entry_page h x)) \<and>
       flushed_heap h1 es' h' \<and> marked_list h1 (i + 1) n (if kept_page p then dl[i := e\<lparr>mid := 0\<rparr>] else dl) dl'"
    "io_ok s \<longrightarrow> r = Inr ()"
    for m c h' dl' r
  proof -
    have "flushed_heap h (e # es') h'" if "flushed_heap h1 es' h'"
      using flushed_heap_Cons [OF that [unfolded h1_def] a] new(1) by (simp add: image_Un)
    moreover have "marked_list h i (Suc n) dl dl'"
      if "marked_list h1 (i + 1) n (if kept_page p then dl[i := e\<lparr>mid := 0\<rparr>] else dl) dl'"
    proof (rule marked_list_Suc [OF that])
      show "\<forall>k. i < k \<and> k < i + Suc n \<longrightarrow> entry_page h1 (dl ! k) = entry_page h (dl ! k)"
        using page in_es by simp
    qed (use i in \<open>auto simp: p_def [symmetric] e_def [symmetric]\<close>)
    moreover have "set g \<union> {x \<in> set es. \<not> kept_page (entry_page h x)}
        = set g \<union> {x \<in> set es'. \<not> kept_page (entry_page h x)} \<union> (if kept_page p then {} else {e})"
      by (auto simp: es p_def)
    ultimately show ?thesis
      using that(1,3,4) that(2) [folded \<open>_ = _ \<union> (if kept_page p then {} else {e})\<close>] unfolding fold
      by (intro exI [of _ m] exI [of _ c] exI [of _ h'] exI [of _ dl'] exI [of _ r])
        (auto simp: es p_def [symmetric] simp del: flush_write.simps)
  qed
  show ?case
  proof (cases "kept_page p")
    case True
    define dl1 where "dl1 = dl[i := e\<lparr>mid := 0\<rparr>]"
    define s1 where "s1 = s\<lparr>st_heap := h1, st_txn := (st_txn s)\<lparr>mt_dirty_list := dl1\<rparr>\<rparr>"
    have run: "flush_write i (Suc n) v s = flush_write (i + 1) n v s1"
      using True a at_e upd
      by (simp add: dl_def [symmetric] e_def [symmetric] kept_page_def bindM_def seqM_def op_simps pageM_def s1_def dl1_def h1_def
        after_flush_def)
    have s1: "mt_dirty_list (st_txn s1) = dl1" "me_psize (st_env s1) = psize" "st_heap s1 = h1" "st_map s1 = st_map s"
      by (simp_all add: s1_def psize_def)
    have "es' = map ((!) dl1) [i + 1..<i + 1 + n]" "i + 1 + n \<le> length dl1"
      "distinct (map mptr (g @ es'))" "distinct (map mid (g @ es'))"
      using Suc.prems(1,6,7) by (auto simp: es'_def dl1_def es dl_def)
    then obtain m c h' dl' r where ih: "flush_write (i + 1) n v s1 = Some (s1\<lparr>st_map := m, st_clock := c, st_heap := h',
        st_txn := (st_txn s1)\<lparr>mt_dirty_list := dl'\<rparr>\<rparr>, r)"
      "\<forall>pg. pg \<notin> mid ` (set g \<union> {x \<in> set es'. \<not> kept_page (entry_page h1 x)}) \<longrightarrow> m pg = st_map s pg"
      "r = Inr () \<longrightarrow> (\<forall>x \<in> set g. m (mid x) = entry_page h1 x) \<and>
        (\<forall>x \<in> set es'. \<not> kept_page (entry_page h1 x) \<longrightarrow> m (mid x) = after_flush (entry_page h1 x)) \<and>
        flushed_heap h1 es' h' \<and> marked_list h1 (i + 1) n dl1 dl'"
      "io_ok s1 \<longrightarrow> r = Inr ()"
      using Suc.IH [of "i + 1" s1 v g es', unfolded s1] Suc.prems(2) [folded psize_def] pend1 fit' by blast
    have st: "s1\<lparr>st_map := m, st_clock := c, st_heap := h', st_txn := (st_txn s1)\<lparr>mt_dirty_list := dl'\<rparr>\<rparr>
        = s\<lparr>st_map := m, st_clock := c, st_heap := h', st_txn := (st_txn s)\<lparr>mt_dirty_list := dl'\<rparr>\<rparr>"
      by (simp add: s1_def)
    show ?thesis
    proof (rule goal [where m = m and c = c and h' = h' and dl' = dl' and r = r])
      show "flush_write i (Suc n) v s = Some (s\<lparr>st_map := m, st_clock := c, st_heap := h',
          st_txn := (st_txn s)\<lparr>mt_dirty_list := dl'\<rparr>\<rparr>, r)"
        using run ih(1) st by (simp only:)
    qed (use ih(2-4) page True in \<open>simp_all add: same_kept dl1_def s1_def io_ok_def\<close>)
  next
    case False
    define s1 where "s1 = s\<lparr>st_heap := h1\<rparr>"
    define v1 where "v1 = v\<lparr>fv_pos := mid e * word_of_nat psize, fv_size := word_of_nat (entry_bytes psize h1 e)\<rparr>"
    have clean: "p\<lparr>mp_flags := clear_flag (mp_flags p) P_DIRTY\<rparr> = after_flush p" using False by (simp add: after_flush_def)
    have len: "entry_bytes psize h1 e = page_bytes psize p" using e1 by (simp add: entry_bytes_def)
    have run: "flush_write i (Suc n) v s =
        bindM (flush_pending False v1) (\<lambda>v. flush_write (i + 1) n (flush_add (mptr e) v)) s1"
      using False a at_e upd e1
      by (simp add: dl_def [symmetric] psize_def [symmetric] e_def [symmetric] kept_page_def bindM_def seqM_def op_simps pageM_def
        s1_def h1_def [symmetric] v1_def clean flush_add_def len)
    have "fits psize h1 e"
      using fit a e1 by (simp add: fits_def in_heap_def entry_bytes_def h1_def p_def)
    then have "\<exists>m c r. flush_pending False v1 s1 = Some (s1\<lparr>st_map := m, st_clock := c\<rparr>, r) \<and>
      (case r of
        Inl _ \<Rightarrow> stored h1 (set g) False (st_map s1) m \<and> \<not> io_ok s1
      | Inr v2 \<Rightarrow> (\<exists>g1 g2. g = g1 @ g2 \<and> stored h1 (set g1) True (st_map s1) m \<and>
          pending psize h1 (flush_add (mptr e) v2) (g2 @ [e])))"
      unfolding v1_def
      using Suc.prems(2) pend1 new(2) by (intro flush_pending_run) (auto simp: s1_def psize_def)
    moreover have "st_map s1 = st_map s" "io_ok s1 = io_ok s" by (simp_all add: s1_def io_ok_def)
    ultimately have q': "\<exists>m c r. flush_pending False v1 s1 = Some (s1\<lparr>st_map := m, st_clock := c\<rparr>, r) \<and>
      (case r of
        Inl _ \<Rightarrow> stored h1 (set g) False (st_map s) m \<and> \<not> io_ok s
      | Inr v2 \<Rightarrow> (\<exists>g1 g2. g = g1 @ g2 \<and> stored h1 (set g1) True (st_map s) m \<and>
          pending psize h1 (flush_add (mptr e) v2) (g2 @ [e])))"
      by (simp only:)
    obtain m1 c1 q where q: "flush_pending False v1 s1 = Some (s1\<lparr>st_map := m1, st_clock := c1\<rparr>, q)"
      "case q of
        Inl _ \<Rightarrow> stored h1 (set g) False (st_map s) m1 \<and> \<not> io_ok s
      | Inr v2 \<Rightarrow> (\<exists>g1 g2. g = g1 @ g2 \<and> stored h1 (set g1) True (st_map s) m1 \<and>
          pending psize h1 (flush_add (mptr e) v2) (g2 @ [e]))"
      using q' by auto
    show ?thesis
    proof (cases q)
      case (Inl x)
      then have "stored h1 (set g) False (st_map s) m1" "\<not> io_ok s" using q(2) by simp_all
      then show ?thesis
        using q(1) run Inl
        by (intro goal [where m = m1 and c = c1 and h' = h1 and dl' = dl and r = "Inl x"]) (auto simp: bindM_def stored_def s1_def dl_def simp del: flush_write.simps)
    next
      case (Inr v2)
      then obtain g1 g2 where g: "g = g1 @ g2" "stored h1 (set g1) True (st_map s) m1"
        "pending psize h1 (flush_add (mptr e) v2) (g2 @ [e])" using q(2) by auto
      define s2 where "s2 = s1\<lparr>st_map := m1, st_clock := c1\<rparr>"
      have s2: "mt_dirty_list (st_txn s2) = dl" "me_psize (st_env s2) = psize" "st_heap s2 = h1" "st_map s2 = m1"
        by (simp_all add: s2_def s1_def psize_def dl_def)
      have "es' = map ((!) dl) [i + 1..<i + 1 + n]" "i + 1 + n \<le> length dl" using Suc.prems(1) by (auto simp: es'_def dl_def)
      moreover have "distinct (map mptr ((g2 @ [e]) @ es'))" "distinct (map mid ((g2 @ [e]) @ es'))"
        using Suc.prems(6,7) by (auto simp: es g(1))
      ultimately obtain m c h' dl' r where ih: "flush_write (i + 1) n (flush_add (mptr e) v2) s2
          = Some (s2\<lparr>st_map := m, st_clock := c, st_heap := h', st_txn := (st_txn s2)\<lparr>mt_dirty_list := dl'\<rparr>\<rparr>, r)"
        "\<forall>pg. pg \<notin> mid ` (set (g2 @ [e]) \<union> {x \<in> set es'. \<not> kept_page (entry_page h1 x)}) \<longrightarrow> m pg = m1 pg"
        "r = Inr () \<longrightarrow> (\<forall>x \<in> set (g2 @ [e]). m (mid x) = entry_page h1 x) \<and>
          (\<forall>x \<in> set es'. \<not> kept_page (entry_page h1 x) \<longrightarrow> m (mid x) = after_flush (entry_page h1 x)) \<and>
          flushed_heap h1 es' h' \<and> marked_list h1 (i + 1) n dl dl'" "io_ok s2 \<longrightarrow> r = Inr ()"
        using Suc.IH [of "i + 1" s2 "flush_add (mptr e) v2" "g2 @ [e]" es', unfolded s2] Suc.prems(2) [folded psize_def] g(3) fit'
        by blast
      have st: "s2\<lparr>st_map := m, st_clock := c, st_heap := h', st_txn := (st_txn s2)\<lparr>mt_dirty_list := dl'\<rparr>\<rparr>
          = s\<lparr>st_map := m, st_clock := c, st_heap := h', st_txn := (st_txn s)\<lparr>mt_dirty_list := dl'\<rparr>\<rparr>"
        by (simp add: s2_def s1_def)
      have apart: "mid x \<notin> mid ` (set (g2 @ [e]) \<union> {x \<in> set es'. \<not> kept_page (entry_page h1 x)})" if "x \<in> set g1" for x
        using Suc.prems(7) image_eqI [OF refl that, of mid] by (auto simp: es g(1))
      show ?thesis
      proof (rule goal [where m = m and c = c and h' = h' and dl' = dl' and r = r])
        show "flush_write i (Suc n) v s = Some (s\<lparr>st_map := m, st_clock := c, st_heap := h',
            st_txn := (st_txn s)\<lparr>mt_dirty_list := dl'\<rparr>\<rparr>, r)"
          using run q(1) Inr ih(1) st by (simp add: bindM_def s2_def [symmetric] del: flush_write.simps)
        show "\<forall>pg. pg \<notin> mid ` (set g \<union> {x \<in> set es'. \<not> kept_page (entry_page h x)} \<union> (if kept_page p then {} else {e})) \<longrightarrow> m pg = st_map s pg"
          using ih(2) g(2) False unfolding same_kept stored_def g(1) by (simp add: image_Un)
        show "r = Inr () \<longrightarrow> (\<forall>x \<in> set g. m (mid x) = entry_page h x) \<and> (\<not> kept_page p \<longrightarrow> m (mid e) = after_flush p) \<and>
         (\<forall>x \<in> set es'. \<not> kept_page (entry_page h x) \<longrightarrow> m (mid x) = after_flush (entry_page h x)) \<and>
         flushed_heap h1 es' h' \<and> marked_list h1 (i + 1) n (if kept_page p then dl[i := e\<lparr>mid := 0\<rparr>] else dl) dl'"
          using ih(2,3) g(2) page False e1 apart by (auto simp: stored_def g(1))
        show "io_ok s \<longrightarrow> r = Inr ()" using ih(4) by (simp add: s2_def s1_def io_ok_def)
      qed
    qed
  qed
qed

section \<open>The dirty list after a flush\<close>

lemma dpage_free_run:
  assumes "in_heap (st_heap s) e"
  shows "\<exists>h' d. mdb_dpage_free (mptr e) s = Some (s\<lparr>st_heap := h', st_env := (st_env s)\<lparr>me_dpages := d\<rparr>\<rparr>, Inr ()) \<and>
    (\<forall>r. r \<noteq> mptr e \<longrightarrow> heap_page h' r = heap_page (st_heap s) r)"
proof -
  obtain a p where a: "mptr e = HeapPg a" "st_heap s a = Some p"
    using assms by (cases "mptr e") (auto simp: in_heap_def)
  show ?thesis
  proof (cases "\<not> IS_OVERFLOW p \<or> mp_pages p = 1")
    case True
    then show ?thesis
      using a by (intro exI [of _ "st_heap s"] exI [of _ "a # me_dpages (st_env s)"])
        (simp add: mdb_dpage_free_def mdb_page_free_def bindM_def pageM_def op_simps)
  next
    case False
    have "heap_page ((st_heap s)(a := None)) r = heap_page (st_heap s) r" if "r \<noteq> HeapPg a" for r
      using that by (cases r) auto
    then show ?thesis
      using a False by (intro exI [of _ "(st_heap s)(a := None)"] exI [of _ "me_dpages (st_env s)"])
        (simp add: mdb_dpage_free_def bindM_def pageM_def op_simps)
  qed
qed

text \<open>The entries that stay, with their numbers.\<close>

definition renumbered :: "(nat \<Rightarrow> mdb_page option) \<Rightarrow> page_ref mdb_id2 list \<Rightarrow> page_ref mdb_id2 list" where
  "renumbered h es = map (\<lambda>e. e\<lparr>mid := mp_pgno (entry_page h e)\<rparr>) (filter (\<lambda>e. mid e = 0) es)"

lemma flush_compact_run:
  assumes "i + n \<le> length (mt_dirty_list (st_txn s))" "j < i"
    and "es = map ((!) (mt_dirty_list (st_txn s))) [i..<i + n]" "\<forall>e \<in> set es. in_heap (st_heap s) e" "distinct (map mptr es)"
  shows "\<exists>h' d dl'. flush_compact i j n s = Some (s\<lparr>st_heap := h', st_env := (st_env s)\<lparr>me_dpages := d\<rparr>,
        st_txn := (st_txn s)\<lparr>mt_dirty_list := dl'\<rparr>\<rparr>, Inr (j + length (renumbered (st_heap s) es))) \<and>
     length dl' = length (mt_dirty_list (st_txn s)) \<and>
     take (j + 1 + length (renumbered (st_heap s) es)) dl' = take (j + 1) (mt_dirty_list (st_txn s)) @ renumbered (st_heap s) es \<and>
     (\<forall>r. r \<notin> mptr ` {e \<in> set es. mid e \<noteq> 0} \<longrightarrow> heap_page h' r = heap_page (st_heap s) r)"
  using assms
proof (induction n arbitrary: i j s es)
  case 0
  then have "es = []" by simp
  then show ?case
    by (intro exI [of _ "st_heap s"] exI [of _ "me_dpages (st_env s)"] exI [of _ "mt_dirty_list (st_txn s)"])
      (simp add: op_simps renumbered_def)
next
  case (Suc n)
  define dl where "dl = mt_dirty_list (st_txn s)"
  define h where "h = st_heap s"
  define e where "e = dl ! i"
  define es' where "es' = map ((!) dl) [Suc i..<Suc i + n]"
  have es: "es = e # es'" using Suc.prems(3) by (simp add: es'_def e_def dl_def upt_rec [of i] del: upt_Suc)
  have e: "in_heap h e" "mptr e \<notin> mptr ` set es'" using Suc.prems(4,5) by (simp_all add: es h_def)
  have i: "i < length dl" "j + 1 \<le> i" using Suc.prems(1,2) by (simp_all add: dl_def)
  note fold = dl_def [symmetric] h_def [symmetric]
  show ?case
  proof (cases "mid e = 0")
    case True
    define x where "x = e\<lparr>mid := mp_pgno (entry_page h e)\<rparr>"
    define dl1 where "dl1 = dl[j + 1 := x]"
    define s1 where "s1 = s\<lparr>st_txn := (st_txn s)\<lparr>mt_dirty_list := dl1\<rparr>\<rparr>"
    have s1: "mt_dirty_list (st_txn s1) = dl1" "st_heap s1 = h" by (simp_all add: s1_def h_def)
    have run: "flush_compact i j (Suc n) s = flush_compact (i + 1) (j + 1) n s1"
      using True in_heap_page [of s e] e(1)
      by (simp add: fold e_def [symmetric] bindM_def seqM_def op_simps pageM_def s1_def dl1_def x_def)
    have ren: "renumbered h es = x # renumbered h es'" by (simp add: es renumbered_def x_def True)
    have len: "length dl1 = length dl" by (simp add: dl1_def)
    have "es' = map ((!) dl1) [i + 1..<i + 1 + n]" "i + 1 + n \<le> length dl1"
      using Suc.prems(1,2) by (auto simp: es'_def dl1_def dl_def)
    then obtain h' d dl' where ih: "flush_compact (i + 1) (j + 1) n s1 = Some (s1\<lparr>st_heap := h', st_env := (st_env s1)\<lparr>me_dpages := d\<rparr>,
        st_txn := (st_txn s1)\<lparr>mt_dirty_list := dl'\<rparr>\<rparr>, Inr (j + 1 + length (renumbered h es')))"
      "length dl' = length dl1"
      "take (j + 1 + 1 + length (renumbered h es')) dl' = take (j + 1 + 1) dl1 @ renumbered h es'"
      "\<forall>r. r \<notin> mptr ` {e \<in> set es'. mid e \<noteq> 0} \<longrightarrow> heap_page h' r = heap_page h r"
      using Suc.IH [of "i + 1" s1 "j + 1" es', unfolded s1] Suc.prems(2,4,5) i by (auto simp: es fold)
    have t: "take (j + 1 + 1) dl1 = take (j + 1) dl @ [x]"
      using take_Suc_conv_app_nth [of "j + 1" dl1] i by (simp add: dl1_def)
    have sets: "{e \<in> set es. mid e \<noteq> 0} = {e \<in> set es'. mid e \<noteq> 0}" using True by (auto simp: es)
    show ?thesis
      unfolding fold ren sets run
      using ih t len by (intro exI [of _ h'] exI [of _ d] exI [of _ dl']) (simp add: s1_def)
  next
    case False
    obtain h1 d1 where free: "mdb_dpage_free (mptr e) s = Some (s\<lparr>st_heap := h1, st_env := (st_env s)\<lparr>me_dpages := d1\<rparr>\<rparr>, Inr ())"
      "\<forall>r. r \<noteq> mptr e \<longrightarrow> heap_page h1 r = heap_page h r"
      using dpage_free_run [of s e] e(1) unfolding h_def by blast
    define s1 where "s1 = s\<lparr>st_heap := h1, st_env := (st_env s)\<lparr>me_dpages := d1\<rparr>\<rparr>"
    have s1: "mt_dirty_list (st_txn s1) = dl" "st_heap s1 = h1" by (simp_all add: s1_def dl_def)
    have run: "flush_compact i j (Suc n) s = flush_compact (i + 1) j n s1"
      using False free(1) by (simp add: fold e_def [symmetric] bindM_def seqM_def op_simps s1_def)
    have same: "heap_page h1 (mptr y) = heap_page h (mptr y)" if "y \<in> set es'" for y
      using free(2) e(2) that by (metis image_eqI)
    then have ren: "renumbered h es = renumbered h1 es'"
      using False by (auto simp: es renumbered_def entry_page_def)
    have "es' = map ((!) dl) [i + 1..<i + 1 + n]" "i + 1 + n \<le> length dl" "\<forall>e \<in> set es'. in_heap h1 e"
      using Suc.prems(1,4) same by (auto simp: es'_def dl_def es in_heap_def h_def)
    then obtain h' d dl' where ih: "flush_compact (i + 1) j n s1 = Some (s1\<lparr>st_heap := h', st_env := (st_env s1)\<lparr>me_dpages := d\<rparr>,
        st_txn := (st_txn s1)\<lparr>mt_dirty_list := dl'\<rparr>\<rparr>, Inr (j + length (renumbered h1 es')))"
      "length dl' = length dl" "take (j + 1 + length (renumbered h1 es')) dl' = take (j + 1) dl @ renumbered h1 es'"
      "\<forall>r. r \<notin> mptr ` {e \<in> set es'. mid e \<noteq> 0} \<longrightarrow> heap_page h' r = heap_page h1 r"
      using Suc.IH [of "i + 1" s1 j es', unfolded s1] Suc.prems(2,5) by (auto simp: es)
    have sets: "{e \<in> set es. mid e \<noteq> 0} = insert e {e \<in> set es'. mid e \<noteq> 0}" using False by (auto simp: es)
    show ?thesis
      unfolding fold ren sets run
      using ih free(2) by (intro exI [of _ h'] exI [of _ d] exI [of _ dl']) (simp add: s1_def)
  qed
qed

section \<open>The property\<close>

text \<open>
  A dirty list whose entries from \<open>keep\<close> on may be flushed: pages in memory, under their own
  numbers, all different.
\<close>

definition flushable :: "mdb_state \<Rightarrow> page_ref mdb_id2 list \<Rightarrow> bool" where
  "flushable s es \<longleftrightarrow> 1 < me_psize (st_env s) \<and> id2l_ok (mt_dirty_list (st_txn s)) \<and>
     distinct (map mptr es) \<and> distinct (map mid es) \<and>
     (\<forall>e \<in> set es. mid e \<noteq> 0 \<and> fits (me_psize (st_env s)) (st_heap s) e \<and> mp_pgno (entry_page (st_heap s) e) = mid e)"

definition written :: "mdb_state \<Rightarrow> page_ref mdb_id2 list \<Rightarrow> page_ref mdb_id2 list" where
  "written s es = filter (\<lambda>e. \<not> kept_page (entry_page (st_heap s) e)) es"

lemma page_flush_run:
  assumes "\<not> any_set (me_flags (st_env s)) MDB_WRITEMAP" "flushable s es"
    and "es = drop keep (id2l_elems (mt_dirty_list (st_txn s)))" "keep \<le> id2l_count (mt_dirty_list (st_txn s))"
  shows "\<exists>s' r. mdb_page_flush keep s = Some (s', r) \<and>
    (\<forall>pg. pg \<notin> mid ` set (written s es) \<longrightarrow> st_map s' pg = st_map s pg) \<and>
    (r = Inr () \<longrightarrow>
       (\<forall>e \<in> set (written s es). st_map s' (mid e) = after_flush (entry_page (st_heap s) e)) \<and>
       id2l_elems (mt_dirty_list (st_txn s')) = take keep (id2l_elems (mt_dirty_list (st_txn s)))
         @ filter (\<lambda>e. kept_page (entry_page (st_heap s) e)) es \<and>
       mt_dirty_room (st_txn s') = mt_dirty_room (st_txn s) + length (written s es)) \<and>
    (io_ok s \<longrightarrow> r = Inr ())"
proof -
  define dl where "dl = mt_dirty_list (st_txn s)"
  define n where "n = id2l_count dl - keep"
  define h where "h = st_heap s"
  define psize where "psize = me_psize (st_env s)"
  define v0 where "v0 = \<lparr>fv_iov = [], fv_wpos = 0, fv_wsize = 0, fv_next = 1, fv_pos = 0, fv_size = 0\<rparr>"
  have ok: "id2l_ok dl" "1 < psize" "distinct (map mptr es)" "distinct (map mid es)"
    "\<forall>e \<in> set es. mid e \<noteq> 0" "\<forall>e \<in> set es. fits psize h e" "\<forall>e \<in> set es. mp_pgno (entry_page h e) = mid e"
    using assms(2) by (simp_all add: flushable_def dl_def h_def psize_def)
  have len: "keep + 1 + n \<le> length dl" using ok(1) assms(4) by (simp add: id2l_ok_def n_def dl_def)
  have es: "es = map ((!) dl) [keep + 1..<keep + 1 + n]"
  proof (rule nth_equalityI)
    show "length es = length (map ((!) dl) [keep + 1..<keep + 1 + n])"
      using ok(1) by (simp add: assms(3) dl_def [symmetric] n_def del: upt_Suc)
    show "es ! i = map ((!) dl) [keep + 1..<keep + 1 + n] ! i" if "i < length es" for i
      using that ok(1) assms(4) by (simp add: assms(3) dl_def [symmetric] n_def nth_id2l_elems del: upt_Suc)
  qed
  have "pending psize h v0 []" by (simp add: pending_def v0_def)
  then obtain m c h' dl' r where w: "flush_write (keep + 1) n v0 s = Some (s\<lparr>st_map := m, st_clock := c, st_heap := h',
        st_txn := (st_txn s)\<lparr>mt_dirty_list := dl'\<rparr>\<rparr>, r)"
     "\<forall>pg. pg \<notin> mid ` {e \<in> set es. \<not> kept_page (entry_page h e)} \<longrightarrow> m pg = st_map s pg"
     "r = Inr () \<longrightarrow> (\<forall>e \<in> set es. \<not> kept_page (entry_page h e) \<longrightarrow> m (mid e) = after_flush (entry_page h e)) \<and>
        flushed_heap h es h' \<and> marked_list h (keep + 1) n dl dl'"
     "io_ok s \<longrightarrow> r = Inr ()"
    using flush_write_run [of "keep + 1" n s v0 "[]" es] len ok(2,3,4,6) es
    by (auto simp: dl_def h_def psize_def)
  define s1 where "s1 = s\<lparr>st_map := m, st_clock := c, st_heap := h', st_txn := (st_txn s)\<lparr>mt_dirty_list := dl'\<rparr>\<rparr>"
  define ks where "ks = filter (\<lambda>e. kept_page (entry_page h e)) es"
  have wr: "set (written s es) = {e \<in> set es. \<not> kept_page (entry_page h e)}" by (auto simp: written_def h_def)
  have opened: "mdb_page_flush keep s = bindM (\<lambda>s. flush_write (keep + 1) n v0 s)
    (\<lambda>_. bindM (flush_compact (keep + 1) keep n) (\<lambda>j.
      txnM (\<lambda>t. t\<lparr>mt_dirty_room := mt_dirty_room t + (id2l_count dl - j),
              mt_dirty_list := (mt_dirty_list t)[0 := (mt_dirty_list t ! 0)\<lparr>mid := word_of_nat j\<rparr>]\<rparr>))) s"
    using assms(1) by (simp add: mdb_page_flush_def bindM_def seqM_def op_simps v0_def n_def dl_def
        split: option.splits sum.splits)
  show ?thesis
  proof (cases r)
    case (Inl x)
    then show ?thesis
      using w(1,2,4) wr by (intro exI [of _ s1] exI [of _ "Inl x"]) (simp add: opened bindM_def s1_def)
  next
    case (Inr u)
    then have heap: "flushed_heap h es h'" and mark: "marked_list h (keep + 1) n dl dl'" 
      and stored: "\<forall>e \<in> set es. \<not> kept_page (entry_page h e) \<longrightarrow> m (mid e) = after_flush (entry_page h e)" using w(3) by auto
    define es1 where "es1 = map ((!) dl') [keep + 1..<keep + 1 + n]"
    have es1: "es1 = map (\<lambda>e. if kept_page (entry_page h e) then e\<lparr>mid := 0\<rparr> else e) es"
      using mark len unfolding es es1_def by (auto simp: marked_list_def simp del: upt_Suc)
    have page: "entry_page h' e = after_flush (entry_page h e)" "in_heap h' e" if "e \<in> set es" for e
      using heap that by (auto simp: flushed_heap_def entry_page_def in_heap_def)
    have ren: "renumbered h' es1 = ks"
    proof -
      have "renumbered h' (map (\<lambda>e. if kept_page (entry_page h e) then e\<lparr>mid := 0\<rparr> else e) xs)
          = filter (\<lambda>e. kept_page (entry_page h e)) xs" if "set xs \<subseteq> set es" for xs
        using that ok(5,7) page by (induction xs) (auto simp: renumbered_def entry_page_def after_flush_def)
      then show ?thesis by (simp add: es1 ks_def)
    qed
    have refs: "distinct (map mptr es1)" "\<forall>e \<in> set es1. in_heap h' e"
      using ok(3) page(2) by (auto simp: es1 comp_def if_distrib in_heap_def cong: if_cong)
    have s1: "mt_dirty_list (st_txn s1) = dl'" "st_heap s1 = h'" by (simp_all add: s1_def)
    have len': "keep + 1 + n \<le> length dl'" using mark len by (simp add: marked_list_def)
    obtain h2 d dl2 where c: "flush_compact (keep + 1) keep n s1 = Some (s1\<lparr>st_heap := h2, st_env := (st_env s1)\<lparr>me_dpages := d\<rparr>,
        st_txn := (st_txn s1)\<lparr>mt_dirty_list := dl2\<rparr>\<rparr>, Inr (keep + length ks))"
      "length dl2 = length dl'" "take (keep + 1 + length ks) dl2 = take (keep + 1) dl' @ ks"
      using flush_compact_run [of "keep + 1" n s1 keep es1, unfolded s1 ren] len' es1_def refs(2,1) by auto
    define dl3 where "dl3 = dl2[0 := (dl2 ! 0)\<lparr>mid := word_of_nat (keep + length ks)\<rparr>]"
    have count: "keep + length ks \<le> id2l_count dl"
      using assms(4) len es length_filter_le [of "\<lambda>e. kept_page (entry_page h e)" es]
      by (simp add: ks_def n_def dl_def [symmetric] del: upt_Suc)
    have small: "unat (word_of_nat (keep + length ks) :: u64) = keep + length ks"
    proof -
      have "unat (mid (dl ! 0)) < 2 ^ 64" using unsigned_less [of "mid (dl ! 0)"] by simp
      then have "keep + length ks < 2 ^ 64" using count by (simp add: id2l_count_def)
      then show ?thesis by (simp add: unat_of_nat del: of_nat_add)
    qed
    have "dl' \<noteq> []" "length dl' = length dl" using mark len by (auto simp: marked_list_def)
    then have dl3: "dl3 ! 0 = (dl2 ! 0)\<lparr>mid := word_of_nat (keep + length ks)\<rparr>" "tl dl3 = tl dl2"
      using c(2) by (cases dl2; simp add: dl3_def)+
    have front: "take (keep + 1) dl' = take (keep + 1) dl"
      using mark len by (auto simp: marked_list_def intro!: nth_equalityI)
    have elems: "id2l_elems dl3 = take keep (id2l_elems dl) @ ks"
    proof -
      have "id2l_elems dl3 = tl (take (keep + 1 + length ks) dl2)"
        using small by (cases dl2) (simp_all add: id2l_elems_def id2l_count_def dl3)
      also have "\<dots> = tl (take (keep + 1) dl) @ ks"
        using c(3) front len by (cases dl) simp_all
      also have "tl (take (keep + 1) dl) = take keep (id2l_elems dl)"
        using assms(4) by (cases dl) (simp_all add: id2l_elems_def dl_def [symmetric] min_def)
      finally show ?thesis .
    qed
    have room: "id2l_count dl - (keep + length ks) = length (written s es)"
      using sum_length_filter_compl [of "\<lambda>e. kept_page (entry_page h e)" es] es
      by (simp add: written_def ks_def h_def n_def del: upt_Suc)
    show ?thesis
      using w(1,2) stored wr Inr c(1) elems room
      by (auto simp: opened bindM_def op_simps s1_def dl3_def ks_def h_def dl_def)
  qed
qed

end
