(* ===== verification/Write_Back.thy ===== *)
theory Write_Back
  imports Sessions Flush
begin

text \<open>
  Writing back: while a transaction puts and deletes, the data file changes at most at pages
  that were in its dirty list, when \<open>mdb_page_spill\<close> makes room; and what \<open>mdb_page_flush\<close>
  leaves in the file and in the dirty list.
\<close>

section \<open>In memory\<close>

definition map_kept :: "mdb_state \<Rightarrow> mdb_state \<Rightarrow> bool" where
  "map_kept s s' \<longleftrightarrow> me_flags (st_env s') = me_flags (st_env s) \<and>
     (\<not> any_set (me_flags (st_env s)) MDB_WRITEMAP \<longrightarrow> st_map s' = st_map s)"

lemma set_page_map: "set_page s r p = Some s' \<Longrightarrow> map_kept s s'"
  by (cases r) (auto simp: map_kept_def split: if_splits option.splits)

interpretation memory: writing_relation map_kept
  by unfold_locales (auto simp: map_kept_def env_frame_def dest: set_page_map [unfolded map_kept_def])

section \<open>Up to the flush\<close>

text \<open>
  Before the flush the dirty list stays as it is, and the pages it points at keep their
  numbers and sizes.
\<close>

definition same_shape :: "nat \<Rightarrow> mdb_page \<Rightarrow> mdb_page \<Rightarrow> bool" where
  "same_shape psize p p' \<longleftrightarrow> mp_pgno p' = mp_pgno p \<and> page_bytes psize p' = page_bytes psize p"

definition before_flush :: "mdb_state \<Rightarrow> mdb_state \<Rightarrow> bool" where
  "before_flush s s' \<longleftrightarrow> st_env s' = st_env s \<and> mt_dirty_list (st_txn s') = mt_dirty_list (st_txn s) \<and>
     (\<forall>a. rel_option (same_shape (me_psize (st_env s))) (st_heap s a) (st_heap s' a)) \<and>
     (\<not> any_set (me_flags (st_env s)) MDB_WRITEMAP \<longrightarrow> st_map s' = st_map s)"

lemma same_heap [simp]: "\<forall>a. rel_option (same_shape n) (h a) (h a)"
  by (auto simp: same_shape_def intro: option.rel_refl)

lemma same_shape_trans:
  "rel_option (same_shape n) x y \<Longrightarrow> rel_option (same_shape n) y z \<Longrightarrow> rel_option (same_shape n) x z"
  by (cases x; cases y; cases z) (auto simp: same_shape_def)

interpretation before: reading_relation before_flush
proof
  show "before_flush s s2" if "before_flush s s1" "before_flush s1 s2" for s s1 s2
    using that same_shape_trans by (fastforce simp: before_flush_def)
qed (simp_all add: before_flush_def read_in_def)

lemma before_txn [keep]: "mt_dirty_list t = mt_dirty_list (st_txn s) \<Longrightarrow> before_flush s (s\<lparr>st_txn := t\<rparr>)"
  by (simp add: before_flush_def)

lemma before_clock [keep]: "before_flush s (s\<lparr>st_clock := n\<rparr>)"
  by (simp add: before_flush_def)

lemma before_askM [keep]: "keeps before_flush askM"
  by (auto simp: keeps_def op_simps before_clock)

lemma before_idlM [keep]: "keeps before_flush (idlM f l)"
  unfolding idlM_def by (intro keep)

lemma keep_flag_bytes:
  "page_bytes n (p\<lparr>mp_flags := mp_flags p XOR P_KEEP\<rparr>) = page_bytes n p"
proof -
  have "F_ISSET (w XOR P_KEEP) P_OVERFLOW \<longleftrightarrow> F_ISSET w P_OVERFLOW" for w
  proof -
    have "(w XOR P_KEEP) AND P_OVERFLOW = w AND P_OVERFLOW"
      by (simp add: bit.conj_xor_distrib2) (simp add: P_KEEP_def P_OVERFLOW_def)
    then show ?thesis by (simp add: F_ISSET_def)
  qed
  then show ?thesis by (simp add: page_bytes_def IS_OVERFLOW_def mp_pages_def)
qed

lemma before_xkeep_ref [keep]: "keeps before_flush (xkeep_ref fl r)"
proof (rule keepsI)
  fix s s' q
  assume run: "xkeep_ref fl r s = Some (s', q)"
  then obtain p where p: "page_at s r = Some p"
    and "s' = s \<or> set_page s r (p\<lparr>mp_flags := mp_flags p XOR P_KEEP\<rparr>) = Some s'"
    by (auto simp: xkeep_ref_def bindM_def pageM_def set_pageM_def op_simps split: option.splits if_splits)
  then show "before_flush s s'"
    by (cases r) (auto simp: before.R_refl before_flush_def same_shape_def keep_flag_bytes split: if_splits option.splits)
qed

lemma before_xkeep_path [keep]: "keeps before_flush (xkeep_path fl c j n)"
  by (induction n arbitrary: j) (simp_all only: xkeep_path.simps, (intro keep | assumption)+)

lemma before_xkeep_cursors [keep]: "keeps before_flush (xkeep_cursors fl ms)"
  by (induction ms) (simp_all only: xkeep_cursors.simps, (intro keep | assumption)+)

lemma before_xkeep_roots [keep]: "keeps before_flush (xkeep_roots fl i n)"
  by (induction n arbitrary: i) (simp_all only: xkeep_roots.simps, (intro keep | assumption)+)

lemma before_pages_xkeep [keep]: "keeps before_flush (mdb_pages_xkeep mc fl roots)"
  unfolding mdb_pages_xkeep_def by (intro keep)

lemma before_spill_select [keep]: "keeps before_flush (spill_select i need)"
  by (induction i arbitrary: need) (simp_all only: spill_select.simps, (intro keep | assumption | simp)+)

section \<open>Writing to the file\<close>

definition dirty_entries :: "mdb_state \<Rightarrow> page_ref mdb_id2 list" where
  "dirty_entries s = id2l_elems (mt_dirty_list (st_txn s))"

text \<open>The file changes only at the numbers of the pages that are dirty before.\<close>

definition writes_dirty :: "mdb_state \<Rightarrow> mdb_state \<Rightarrow> bool" where
  "writes_dirty s s' \<longleftrightarrow> me_flags (st_env s') = me_flags (st_env s) \<and>
     (\<not> any_set (me_flags (st_env s)) MDB_WRITEMAP \<and> flushable s (dirty_entries s) \<longrightarrow>
      (\<forall>pg. pg \<notin> mid ` set (dirty_entries s) \<longrightarrow> st_map s' pg = st_map s pg))"

lemma kept_writes: "map_kept s s' \<Longrightarrow> writes_dirty s s'"
  by (simp add: map_kept_def writes_dirty_def)

lemma before_kept: "before_flush s s' \<Longrightarrow> map_kept s s'"
  by (simp add: map_kept_def before_flush_def)

lemma before_page:
  assumes "before_flush s s'" "in_heap (st_heap s) e"
  shows "in_heap (st_heap s') e" "same_shape (me_psize (st_env s)) (entry_page (st_heap s) e) (entry_page (st_heap s') e)"
proof -
  obtain a p where a: "mptr e = HeapPg a" "st_heap s a = Some p"
    using assms(2) by (cases "mptr e") (auto simp: in_heap_def)
  then have "rel_option (same_shape (me_psize (st_env s))) (Some p) (st_heap s' a)"
    using assms(1) unfolding before_flush_def by metis
  then show "in_heap (st_heap s') e" "same_shape (me_psize (st_env s)) (entry_page (st_heap s) e) (entry_page (st_heap s') e)"
    using a by (auto simp: in_heap_def entry_page_def option_rel_Some1)
qed

lemma before_flushable:
  assumes "before_flush s s'" "flushable s es"
  shows "flushable s' es"
proof -
  have "fits (me_psize (st_env s)) (st_heap s') e \<and> mp_pgno (entry_page (st_heap s') e) = mid e" if "e \<in> set es" for e
    using assms(2) that before_page [OF assms(1), of e]
    by (auto simp: flushable_def fits_def same_shape_def entry_bytes_def)
  then show ?thesis using assms by (auto simp: flushable_def before_flush_def)
qed

lemma before_writes: "before_flush s s1 \<Longrightarrow> writes_dirty s1 s2 \<Longrightarrow> writes_dirty s s2"
  using before_flushable [of s s1 "dirty_entries s"]
  by (auto simp: writes_dirty_def before_flush_def dirty_entries_def)

lemma writes_kept: "writes_dirty s s1 \<Longrightarrow> map_kept s1 s2 \<Longrightarrow> writes_dirty s s2"
  by (simp add: writes_dirty_def map_kept_def)

lemma write_before: "keeps before_flush m \<Longrightarrow> (\<And>x. keeps writes_dirty (f x)) \<Longrightarrow> keeps writes_dirty (bindM m f)"
  unfolding keeps_def bindM_def
  by (auto split: option.splits sum.splits) (blast intro: before_writes kept_writes before_kept)+

lemma write_after: "keeps writes_dirty m \<Longrightarrow> (\<And>x. keeps map_kept (f x)) \<Longrightarrow> keeps writes_dirty (bindM m f)"
  unfolding keeps_def bindM_def
  by (auto split: option.splits sum.splits) (blast intro: writes_kept)+

lemma write_seq_before: "keeps before_flush m \<Longrightarrow> keeps writes_dirty n \<Longrightarrow> keeps writes_dirty (seqM m n)"
  and write_seq_after: "keeps writes_dirty m \<Longrightarrow> keeps map_kept n \<Longrightarrow> keeps writes_dirty (seqM m n)"
  unfolding seqM_def by (rule write_before write_after; assumption)+

lemma write_try_after: "keeps writes_dirty m \<Longrightarrow> (\<And>x. keeps map_kept (f x)) \<Longrightarrow> keeps writes_dirty (tryM m f)"
  unfolding keeps_def tryM_def
  by (auto split: option.splits) (blast intro: writes_kept)

lemma write_kept: "keeps map_kept m \<Longrightarrow> keeps writes_dirty m"
  unfolding keeps_def by (blast intro: kept_writes)

lemma flush_none:
  assumes "\<not> any_set (me_flags (st_env s)) MDB_WRITEMAP" "id2l_count (mt_dirty_list (st_txn s)) \<le> keep"
    and "mdb_page_flush keep s = Some (s', r)"
  shows "st_map s' = st_map s"
proof -
  have "flush_write i 0 \<lparr>fv_iov = [], fv_wpos = 0, fv_wsize = 0, fv_next = 1, fv_pos = 0, fv_size = 0\<rparr> s = Some (s, Inr ())" for i
    by (simp add: flush_pending_def seqM_def bindM_def op_simps)
  then have "\<exists>t q. mdb_page_flush keep s = Some (s\<lparr>st_txn := t\<rparr>, q)"
    unfolding mdb_page_flush_def using assms(1,2) by (simp add: bindM_def seqM_def op_simps del: flush_write.simps)
      (rule exI, rule refl)
  then show ?thesis using assms(3) by fastforce
qed

lemma flush_flags: "mdb_page_flush keep s = Some (s', r) \<Longrightarrow> me_flags (st_env s') = me_flags (st_env s)"
  using keepsD [OF txn.keeps_page_flush] by (simp add: txn_frame_def env_frame_def)

lemma page_flush_writes: "keeps writes_dirty (mdb_page_flush keep)"
proof (rule keepsI)
  fix s s' r
  assume run: "mdb_page_flush keep s = Some (s', r)"
  have "st_map s' pg = st_map s pg"
    if w: "\<not> any_set (me_flags (st_env s)) MDB_WRITEMAP" "flushable s (dirty_entries s)"
      and pg: "pg \<notin> mid ` set (dirty_entries s)" for pg
  proof (cases "keep \<le> id2l_count (mt_dirty_list (st_txn s))")
    case True
    let ?es = "drop keep (dirty_entries s)"
    have "set ?es \<subseteq> set (dirty_entries s)" by (rule set_drop_subset)
    then have "flushable s ?es" "mid ` set (written s ?es) \<subseteq> mid ` set (dirty_entries s)"
      using w(2) by (auto simp: flushable_def written_def drop_map [symmetric] distinct_drop)
    then show ?thesis
      using page_flush_run [OF w(1) _ _ True] run pg by (fastforce simp: dirty_entries_def)
  next
    case False
    then show ?thesis using flush_none [OF w(1) _ run] by simp
  qed
  then show "writes_dirty s s'" using flush_flags [OF run] by (simp add: writes_dirty_def)
qed

lemma writes_simple [keep]: "keeps writes_dirty (ret x)" "keeps writes_dirty (err e)" "keeps writes_dirty stuck"
  by (rule write_kept, rule keep)+

lemma page_spill_writes: "keeps writes_dirty (mdb_page_spill mc key data)"
proof -
  have flush: "keeps writes_dirty
      (case sl of None \<Rightarrow> stuck
       | Some sl \<Rightarrow>
          (case mdb_midl_sort (mi_ids sl) of None \<Rightarrow> stuck
           | Some ids \<Rightarrow>
               seqM (txnM (\<lambda>t. t\<lparr>mt_spill_pgs := Some (sl\<lparr>mi_ids := ids\<rparr>)\<rparr>))
               (seqM (mdb_page_flush i) (mdb_pages_xkeep mc (P_DIRTY OR P_KEEP) (i \<noteq> 0)))))" for sl i
    by (intro writes_simple keeps_option write_seq_before write_seq_after page_flush_writes memory.keeps_pages_xkeep
        before.keeps_updM before_txn) simp
  have work: "keeps writes_dirty
     (seqM (mdb_pages_xkeep mc P_DIRTY True)
         (bindM (spill_select n need) (\<lambda>i.
          bindM (getM (\<lambda>s. mt_spill_pgs (st_txn s))) (\<lambda>sl.
          case sl of None \<Rightarrow> stuck
          | Some sl \<Rightarrow>
              (case mdb_midl_sort (mi_ids sl) of None \<Rightarrow> stuck
               | Some ids \<Rightarrow>
                   seqM (txnM (\<lambda>t. t\<lparr>mt_spill_pgs := Some (sl\<lparr>mi_ids := ids\<rparr>)\<rparr>))
                   (seqM (mdb_page_flush i)
                   (mdb_pages_xkeep mc (P_DIRTY OR P_KEEP) (i \<noteq> 0))))))))" for n need
    by (intro write_seq_before write_before flush before_pages_xkeep before_spill_select before.keeps_getM)
  have make: "keeps before_flush (case sl of
            None \<Rightarrow>
              bindM askM (\<lambda>ok. case mdb_midl_alloc ok MDB_IDL_UM_MAX of
                None \<Rightarrow> err ENOMEM | Some l \<Rightarrow> txnM (\<lambda>t. t\<lparr>mt_spill_pgs := Some l\<rparr>))
          | Some l \<Rightarrow> txnM (\<lambda>t. t\<lparr>mt_spill_pgs := Some (purge_spilled l)\<rparr>))" for sl
    by (intro keep; simp)
  have finish: "keeps map_kept (case r of
            Inl e \<Rightarrow> seqM (flagM MDB_TXN_ERROR) (err e)
          | Inr (_ :: unit) \<Rightarrow> flagM MDB_TXN_SPILLS)" for r
    by (intro keep; simp)
  show ?thesis
    unfolding mdb_page_spill_def Let_def
    by (intro write_before before.keeps_curM before.keeps_getM keeps_if writes_simple write_seq_before make
        write_try_after work finish)
qed

section \<open>Putting and deleting\<close>

lemma put_rest_kept: "keeps map_kept
  (seqM (if pos = No_root then put_new_root mc else mdb_cursor_touch mc)
    (if pos = Key_found then
      bindM (topM mc) (\<lambda>mp.
      if IS_LEAF2 mp then seqM (overwrite_leaf2 mc mp key) (ret Stored)
      else
        bindM (overwrite_node mc mp data flags) (\<lambda>r.
        case r of Some x \<Rightarrow> ret x | None \<Rightarrow> put_insert mc key data flags False))
     else seqM (plain_db mc) (put_insert mc key data flags True)))"
  by (intro keep)

lemma cursor_put_writes: "keeps writes_dirty (mdb_cursor_put mc key data flags)"
proof -
  have spill: "keeps writes_dirty (if nospill then ret () else mdb_page_spill mc k d)" for nospill k d
    by (intro keeps_if writes_simple page_spill_writes)
  have position: "keeps before_flush (put_position mc key fl)"
    "keeps before_flush (upd_curM mc (\<lambda>c. if any_set (mc_flags c) C_DEL then c\<lparr>mc_flags := mc_flags c XOR C_DEL\<rparr> else c))" for fl
    by (intro keep)+
  show ?thesis
    unfolding mdb_cursor_put_def Let_def
    by (intro write_before before.keeps_getM keeps_pair keeps_if writes_simple position keeps_put_at
        write_seq_before write_seq_after spill put_rest_kept)
qed

lemma put_writes: "keeps writes_dirty (mdb_put dbi key data flags)"
  unfolding mdb_put_def
  by (intro write_before before.keeps_getM keeps_if writes_simple before.keeps_new_cursor write_seq_before
      before.keeps_cursor_init cursor_put_writes)

lemma del_rest_kept: "keeps map_kept
  (seqM (mdb_cursor_touch mc)
   (bindM (topM mc) (\<lambda>mp.
    bindM (curM mc) (\<lambda>c.
    if IS_LEAF2 mp then mdb_cursor_del0 mc
    else if F_ISSET (mn_flags (mp_body mp) (NODEPTR mp (top_ki c))) F_DUPDATA then stuck
    else
      seqM
        (if F_ISSET (mn_flags (mp_body mp) (NODEPTR mp (top_ki c))) F_BIGDATA then
           onfail fail_txn
             (bindM (mdb_page_get (bytes_u64 (rd (mp_body mp) (NODEDATA (mp_body mp) (NODEPTR mp (top_ki c))) 8))) (\<lambda>(omp, lvl).
              mdb_ovpage_free mc omp))
         else ret ())
      (mdb_cursor_del0 mc)))))"
  by (intro keep)

lemma cursor_del_writes: "keeps writes_dirty (mdb_cursor_del mc flags)"
proof -
  have spill: "keeps writes_dirty (if nospill then ret () else mdb_page_spill mc k d)" for nospill k d
    by (intro keeps_if writes_simple page_spill_writes)
  show ?thesis
    unfolding mdb_cursor_del_def Let_def
    by (intro write_before before.keeps_getM before.keeps_curM before.keeps_topM keeps_if writes_simple
        write_seq_after spill del_rest_kept)
qed

lemma del_writes: "keeps writes_dirty (mdb_del dbi key)"
proof -
  have rest: "keeps map_kept (seqM (txnM (\<lambda>t. t\<lparr>mt_cursors := (mt_cursors t)(dbi := ms)\<rparr>))
      (case r of Inl e \<Rightarrow> err e | Inr (_ :: unit) \<Rightarrow> ret ()))" for dbi ms r
    by (intro keep; simp)
  have "keeps writes_dirty (mdb_del0 dbi key flags)" for dbi key flags
    unfolding mdb_del0_def
    by (intro write_before write_seq_before write_try_after cursor_del_writes rest before.keeps_new_cursor
        before.keeps_cursor_init before.keeps_cursor_moves before.keeps_upd_curM before.keeps_getM before.keeps_updM
        before_txn) simp
  then show ?thesis
    unfolding mdb_del_def
    by (intro write_before before.keeps_getM keeps_if writes_simple write_seq_before before.keeps_assertM)
qed

text \<open>
  What a put or a deletion may do to the file: with a dirty list of pages in memory, all under
  numbers of their own, only the flush within \<open>mdb_page_spill\<close> writes, and it writes at numbers
  of pages that were dirty before. (That a clean page is not changed in place is not the point
  here: the map is read-only without \<open>MDB_WRITEMAP\<close>.)
\<close>

lemma writes_only_dirty_pages:
  assumes "run_call c s = Some s'" "\<not> any_set (me_flags (st_env s)) MDB_WRITEMAP" "flushable s (dirty_entries s)"
    and "c \<in> {Call_put dbi key data flags, Call_del dbi key, Call_cursor_put mc k d flags, Call_cursor_del mc flags}"
    and "pg \<notin> mid ` set (dirty_entries s)"
  shows "st_map s' pg = st_map s pg"
proof -
  have "writes_dirty s s'"
    using assms(1,4) afterD [OF _ put_writes] afterD [OF _ del_writes] afterD [OF _ cursor_put_writes]
      afterD [OF _ cursor_del_writes] by auto
  then show ?thesis using assms(2,3,5) by (simp add: writes_dirty_def)
qed

text \<open>A transaction with one dirty page, number 5, at address 0.\<close>

definition dirty_page0 :: mdb_page where
  "dirty_page0 = \<lparr>mp_pgno = 5, mp_pad = 0, mp_flags = P_LEAF OR P_DIRTY, mp_lower = 16, mp_upper = 4096,
     mp_ptrs = (\<lambda>_. 0), mp_body = (\<lambda>_. 0)\<rparr>"

definition dirty_state0 :: mdb_state where
  "dirty_state0 = commit_state0\<lparr>st_heap := [0 \<mapsto> dirty_page0],
     st_txn := (st_txn commit_state0)\<lparr>mt_dirty_list := [\<lparr>mid = 1, mptr = NullPg\<rparr>, \<lparr>mid = 5, mptr = HeapPg 0\<rparr>]\<rparr>\<rparr>"

lemma dirty_state0_flushable:
  "dirty_entries dirty_state0 = [\<lparr>mid = 5, mptr = HeapPg 0\<rparr>]" "flushable dirty_state0 (dirty_entries dirty_state0)"
  "\<not> any_set (me_flags (st_env dirty_state0)) MDB_WRITEMAP" "id2l_count (mt_dirty_list (st_txn dirty_state0)) = 1"
  "io_ok dirty_state0"
proof -
  show e: "dirty_entries dirty_state0 = [\<lparr>mid = 5, mptr = HeapPg 0\<rparr>]" "id2l_count (mt_dirty_list (st_txn dirty_state0)) = 1"
    by (simp_all add: dirty_entries_def dirty_state0_def id2l_elems_def id2l_count_def)
  have "page_bytes 4096 dirty_page0 = 4096"
    by (simp add: page_bytes_def IS_OVERFLOW_def dirty_page0_def F_ISSET_def P_LEAF_def P_DIRTY_def P_OVERFLOW_def)
  then show "flushable dirty_state0 (dirty_entries dirty_state0)"
    unfolding e by (simp add: flushable_def fits_def entry_bytes_def entry_page_def in_heap_def dirty_state0_def env0_flags
      id2l_ok_def id2l_count_def) (simp add: dirty_page0_def)
  show "\<not> any_set (me_flags (st_env dirty_state0)) MDB_WRITEMAP" "io_ok dirty_state0"
    by (simp_all add: dirty_state0_def env0_flags any_set_def io_ok_def)
qed

section \<open>The flush\<close>

text \<open>
  C13: \<open>mdb_page_flush\<close> writes the dirty pages back. With a dirty list of pages in memory under
  numbers of their own, it returns; in the file nothing changes but at the numbers of the
  pages that are neither loose nor to be kept, whatever calls fail. When it succeeds, and it
  does if the system writes what it is asked to, each of these pages is in the file as it is
  in memory, without its dirty flag, however the pages were grouped into writes; the dirty
  list is left with the entries it kept, in order, and has room for as many more.
\<close>

theorem page_flush_correct:
  assumes "\<not> any_set (me_flags (st_env s)) MDB_WRITEMAP" "keep \<le> id2l_count (mt_dirty_list (st_txn s))"
    and "flushable s (drop keep (dirty_entries s))"
  shows "\<exists>s' r. mdb_page_flush keep s = Some (s', r) \<and>
    (let out = written s (drop keep (dirty_entries s)) in
     (\<forall>pg. pg \<notin> mid ` set out \<longrightarrow> st_map s' pg = st_map s pg) \<and>
     (r = Inr () \<longrightarrow>
       (\<forall>e \<in> set out. st_map s' (mid e) = (entry_page (st_heap s) e)
          \<lparr>mp_flags := clear_flag (mp_flags (entry_page (st_heap s) e)) P_DIRTY\<rparr>) \<and>
       dirty_entries s' = take keep (dirty_entries s)
         @ filter (\<lambda>e. any_set (mp_flags (entry_page (st_heap s) e)) (P_LOOSE OR P_KEEP)) (drop keep (dirty_entries s)) \<and>
       mt_dirty_room (st_txn s') = mt_dirty_room (st_txn s) + length out) \<and>
     (io_ok s \<longrightarrow> r = Inr ()))"
proof -
  have "after_flush (entry_page (st_heap s) e) = (entry_page (st_heap s) e)
      \<lparr>mp_flags := clear_flag (mp_flags (entry_page (st_heap s) e)) P_DIRTY\<rparr>"
    if "e \<in> set (written s es)" for e es
    using that by (simp add: written_def after_flush_def)
  then show ?thesis
    using page_flush_run [OF assms(1,3) _ assms(2)] unfolding dirty_entries_def Let_def kept_page_def [symmetric] by fastforce
qed

theorem page_flush_witness:
  "\<exists>s'. mdb_page_flush 0 dirty_state0 = Some (s', Inr ()) \<and> mp_flags (st_map s' 5) = P_LEAF \<and> dirty_entries s' = []"
proof -
  have p: "written dirty_state0 (dirty_entries dirty_state0) = [\<lparr>mid = 5, mptr = HeapPg 0\<rparr>]"
    "entry_page (st_heap dirty_state0) \<lparr>mid = 5, mptr = HeapPg 0\<rparr> = dirty_page0" "\<not> any_set (mp_flags dirty_page0) (P_LOOSE OR P_KEEP)"
    "clear_flag (mp_flags dirty_page0) P_DIRTY = P_LEAF"
    unfolding written_def dirty_state0_flushable(1) kept_page_def
    by (simp_all add: entry_page_def dirty_state0_def dirty_page0_def any_set_def clear_flag_def P_LOOSE_def P_KEEP_def
        P_LEAF_def P_DIRTY_def)
  show ?thesis
    using page_flush_correct [OF dirty_state0_flushable(3), of 0] dirty_state0_flushable(1,2,5) p by auto
qed

end
