(* ===== verification/Copy_Thread.thy ===== *)
theory Copy_Thread
  imports Prelude "HOL-Library.Sublist"
begin

text \<open>
  The two threads of a compacting copy (\<open>mdb_env_copyfd1\<close>): the main thread fills two buffers
  in turn, the writer thread (\<open>mdb_env_copythr\<close>) writes them to the file. They meet at a mutex,
  a condition variable and the field \<open>mc_new\<close>. What the main thread fills in is a parameter
  here, the list of pages the tree walk hands over. A critical section of the main thread is
  one step, since between taking and releasing the mutex it neither waits nor writes to a
  file; the writer thread keeps the mutex while it writes, and each \<open>write\<close> is a step.
\<close>

section \<open>State\<close>

definition MDB_WBUF :: nat where "MDB_WBUF = 1024 * 1024"

text \<open>
  The fields of \<open>struct mdb_copy\<close> the threads share; \<open>mc_toggle\<close> and the indices of the pairs
  of buffers are bits. \<open>mc_olen\<close> is an \<open>int\<close>.
\<close>

record mdb_copy =
  mc_wbuf :: "bool \<Rightarrow> bytes"
  mc_over :: "bool \<Rightarrow> bytes"
  mc_wlen :: "bool \<Rightarrow> nat"
  mc_olen :: "bool \<Rightarrow> int"
  mc_status :: int
  mc_new :: int
  mc_toggle :: bool

text \<open>One page the walk puts into the buffer, and the other pages of an overflow page.\<close>

record copy_item =
  ci_page :: bytes
  ci_tail :: bytes

text \<open>
  Where the threads are. The writer at \<open>W_loop\<close>, \<open>W_write\<close> and \<open>W_exit\<close> holds the mutex; at
  \<open>W_wait\<close> it is in \<open>pthread_cond_wait\<close>, asleep or on the way to take the mutex again.
  \<open>W_write ptr wsize\<close> are the bytes from \<open>ptr\<close> on and the local \<open>wsize\<close>.
\<close>

datatype writer_pc = W_start | W_loop | W_wait | W_write bytes int | W_exit | W_gone

text \<open>
  The main thread: beginning the read transaction; waiting for the writer to start; in the
  walk, with the pages still to come; about to put a page into the buffer; entering
  \<open>mdb_env_cthr_toggle(my, st)\<close> and what follows it; waiting there; waiting for the writer
  to end; joining it.
\<close>

datatype main_pc =
    M_begin | M_handshake
  | M_walk "copy_item list" | M_put copy_item "copy_item list"
  | M_toggle int main_pc | M_retest int main_pc
  | M_finish | M_join | M_done

record copy_run = mdb_copy +
  cr_held :: bool
  cr_writer :: writer_pc
  cr_wtoggle :: bool
  cr_wasleep :: bool
  cr_main :: main_pc
  cr_masleep :: bool
  cr_rc :: int
  cr_file :: bytes

text \<open>
  What the main thread is given: the result of \<open>mdb_txn_begin\<close>, the two meta pages it writes,
  the pages of the walk and the walk's return code.
\<close>

record copy_job =
  cj_begin :: int
  cj_meta :: bytes
  cj_items :: "copy_item list"
  cj_rc :: int

section \<open>The writer thread\<close>

text \<open>\<open>mdb_env_copythr\<close> between two calls of \<open>write\<close>. \<open>None\<close>: the thread cannot go on now.\<close>

fun writer_step :: "copy_run \<Rightarrow> copy_run option" where
  "writer_step s =
     (case cr_writer s of
        W_start \<Rightarrow>
          if cr_held s then None
          else Some (s\<lparr>cr_held := True, mc_new := 0, cr_masleep := False, cr_writer := W_loop\<rparr>)
      | W_loop \<Rightarrow>
          if mc_new s = 0 then Some (s\<lparr>cr_held := False, cr_wasleep := True, cr_writer := W_wait\<rparr>)
          else if mc_new s < 0 then Some (s\<lparr>mc_new := 0, cr_writer := W_exit\<rparr>)
          else Some (s\<lparr>mc_new := 0,
                 cr_writer := W_write (mc_wbuf s (cr_wtoggle s)) (int (mc_wlen s (cr_wtoggle s)))\<rparr>)
      | W_wait \<Rightarrow>
          if cr_wasleep s \<or> cr_held s then None else Some (s\<lparr>cr_held := True, cr_writer := W_loop\<rparr>)
      | W_write ptr wsize \<Rightarrow>
          let t = cr_wtoggle s in
          if wsize > 0 then None
          else if mc_olen s t \<noteq> 0
          then Some (s\<lparr>mc_olen := (mc_olen s)(t := 0), cr_writer := W_write (mc_over s t) (mc_olen s t)\<rparr>)
          else Some (s\<lparr>mc_wlen := (mc_wlen s)(t := 0), cr_wtoggle := \<not> t, cr_masleep := False, cr_writer := W_loop\<rparr>)
      | W_exit \<Rightarrow> Some (s\<lparr>cr_masleep := False, cr_held := False, cr_writer := W_gone\<rparr>)
      | W_gone \<Rightarrow> None)"

text \<open>A call of \<open>write\<close> that writes \<open>n\<close> bytes.\<close>

fun writer_wrote :: "nat \<Rightarrow> copy_run \<Rightarrow> copy_run option" where
  "writer_wrote n s =
     (case cr_writer s of
        W_write ptr wsize \<Rightarrow>
          if 0 < n \<and> int n \<le> wsize
          then Some (s\<lparr>cr_file := cr_file s @ take n ptr, cr_writer := W_write (drop n ptr) (wsize - int n)\<rparr>)
          else None
      | _ \<Rightarrow> None)"

text \<open>One that fails with the code \<open>rc\<close>, \<open>EIO\<close> when it has written nothing.\<close>

fun writer_fails :: "int \<Rightarrow> copy_run \<Rightarrow> copy_run option" where
  "writer_fails rc s =
     (case cr_writer s of
        W_write ptr wsize \<Rightarrow>
          if 0 < wsize \<and> rc \<noteq> 0 then Some (s\<lparr>mc_status := rc, cr_writer := W_exit\<rparr>) else None
      | _ \<Rightarrow> None)"

section \<open>The main thread\<close>

text \<open>\<open>mdb_env_cthr_toggle\<close> from the test of \<open>mc_new\<close> on.\<close>

definition toggle_wait :: "int \<Rightarrow> main_pc \<Rightarrow> copy_run \<Rightarrow> copy_run" where
  "toggle_wait st k s =
     (if mc_new s = 1 then s\<lparr>cr_masleep := True, cr_main := M_retest st k\<rparr>
      else s\<lparr>mc_new := st, mc_toggle := \<not> mc_toggle s, cr_wasleep := False, cr_main := k\<rparr>)"

text \<open>
  \<open>mdb_env_copyfd1\<close> after the walk: the last buffer, then \<open>mdb_env_cthr_toggle(&my, -1)\<close>, whose
  result is not used.
\<close>

definition closing :: main_pc where "closing = M_toggle (- 1) M_finish"

definition mdb_env_cthr_toggle :: "int \<Rightarrow> main_pc \<Rightarrow> copy_run \<Rightarrow> copy_run" where
  "mdb_env_cthr_toggle st k s =
     (if mc_status s \<noteq> 0
      then (if st < 0 then s\<lparr>cr_main := k\<rparr> else s\<lparr>cr_rc := mc_status s, cr_main := closing\<rparr>)
      else toggle_wait st k s)"

text \<open>\<open>mc_olen\<close> is an \<open>int\<close>: the length of the tail is cut to 32 bits.\<close>

definition olen_of :: "nat \<Rightarrow> int" where
  "olen_of n = sint (word_of_nat n :: 32 word)"

text \<open>\<open>mdb_env_cwalk\<close> putting a page into the buffer.\<close>

definition copy_put :: "copy_item \<Rightarrow> main_pc \<Rightarrow> copy_run \<Rightarrow> copy_run" where
  "copy_put i k s =
     (let t = mc_toggle s;
          s = s\<lparr>mc_wbuf := (mc_wbuf s)(t := take (mc_wlen s t) (mc_wbuf s t) @ ci_page i),
                mc_wlen := (mc_wlen s)(t := mc_wlen s t + length (ci_page i))\<rparr>
      in if ci_tail i = [] then s\<lparr>cr_main := k\<rparr>
         else s\<lparr>mc_olen := (mc_olen s)(t := olen_of (length (ci_tail i))),
                mc_over := (mc_over s)(t := ci_tail i), cr_main := M_toggle 1 k\<rparr>)"

fun main_step :: "copy_job \<Rightarrow> copy_run \<Rightarrow> copy_run option" where
  "main_step job s =
     (case cr_main s of
        M_begin \<Rightarrow>
          if cj_begin job \<noteq> 0 then Some (s\<lparr>cr_rc := cj_begin job, cr_main := M_done\<rparr>)
          else Some (s\<lparr>mc_wbuf := (mc_wbuf s)(False := cj_meta job),
                       mc_wlen := (mc_wlen s)(False := length (cj_meta job)), cr_main := M_handshake\<rparr>)
      | M_handshake \<Rightarrow>
          if cr_masleep s \<or> cr_held s then None
          else if mc_new s \<noteq> 0 then Some (s\<lparr>cr_masleep := True\<rparr>)
          else Some (s\<lparr>cr_main := M_walk (cj_items job)\<rparr>)
      | M_walk [] \<Rightarrow>
          Some (s\<lparr>cr_rc := cj_rc job,
                  cr_main := (if cj_rc job = 0 \<and> mc_wlen s (mc_toggle s) \<noteq> 0 then M_toggle 1 closing else closing)\<rparr>)
      | M_walk (i # is) \<Rightarrow>
          Some (s\<lparr>cr_main := (if MDB_WBUF \<le> mc_wlen s (mc_toggle s) then M_toggle 1 (M_put i is) else M_put i is)\<rparr>)
      | M_put i is \<Rightarrow> Some (copy_put i (M_walk is) s)
      | M_toggle st k \<Rightarrow> if cr_held s then None else Some (mdb_env_cthr_toggle st k s)
      | M_retest st k \<Rightarrow> if cr_masleep s \<or> cr_held s then None else Some (toggle_wait st k s)
      | M_finish \<Rightarrow>
          if cr_masleep s \<or> cr_held s then None
          else if mc_new s \<noteq> 0 then Some (s\<lparr>cr_masleep := True\<rparr>)
          else Some (s\<lparr>cr_main := M_join\<rparr>)
      | M_join \<Rightarrow> if cr_writer s = W_gone then Some (s\<lparr>cr_main := M_done\<rparr>) else None
      | M_done \<Rightarrow> None)"

section \<open>Steps of both\<close>

text \<open>The buffers and fields as \<open>mdb_env_copyfd1\<close> sets them before it starts the thread.\<close>

definition copy_start :: copy_run where
  "copy_start = \<lparr>mc_wbuf = (\<lambda>_. []), mc_over = (\<lambda>_. []), mc_wlen = (\<lambda>_. 0), mc_olen = (\<lambda>_. 0), mc_status = 0,
     mc_new = 1, mc_toggle = False, cr_held = False, cr_writer = W_start, cr_wtoggle = False, cr_wasleep = False,
     cr_main = M_begin, cr_masleep = False, cr_rc = 0, cr_file = []\<rparr>"

text \<open>
  What happens next: a step of a thread, a \<open>write\<close>, or \<open>pthread_cond_wait\<close> returning without a
  signal, which POSIX allows.
\<close>

datatype copy_event = Main | Writer | Wrote nat | Fails int | Wakes_main | Wakes_writer

fun copy_step :: "copy_job \<Rightarrow> copy_event \<Rightarrow> copy_run \<Rightarrow> copy_run option" where
  "copy_step job Main s = main_step job s"
| "copy_step job Writer s = writer_step s"
| "copy_step job (Wrote n) s = writer_wrote n s"
| "copy_step job (Fails rc) s = writer_fails rc s"
| "copy_step job Wakes_main s = (if cr_masleep s then Some (s\<lparr>cr_masleep := False\<rparr>) else None)"
| "copy_step job Wakes_writer s = (if cr_wasleep s then Some (s\<lparr>cr_wasleep := False\<rparr>) else None)"

text \<open>The states some sequence of events leads to.\<close>

inductive copy_reach :: "copy_job \<Rightarrow> copy_run \<Rightarrow> copy_run \<Rightarrow> bool" for job s where
  refl: "copy_reach job s s"
| step: "copy_reach job s s1 \<Longrightarrow> copy_step job e s1 = Some s2 \<Longrightarrow> copy_reach job s s2"

text \<open>Events other than failures and stray wake-ups.\<close>

definition smooth :: "copy_event \<Rightarrow> bool" where
  "smooth e \<longleftrightarrow> (case e of Fails _ \<Rightarrow> False | Wakes_main \<Rightarrow> False | Wakes_writer \<Rightarrow> False | _ \<Rightarrow> True)"

fun copy_events :: "copy_job \<Rightarrow> copy_event list \<Rightarrow> copy_run \<Rightarrow> copy_run option" where
  "copy_events job [] s = Some s"
| "copy_events job (e # es) s = (case copy_step job e s of None \<Rightarrow> None | Some s1 \<Rightarrow> copy_events job es s1)"

lemma copy_events_reach:
  "copy_reach job s0 s \<Longrightarrow> copy_events job es s = Some s' \<Longrightarrow> copy_reach job s0 s'"
  by (induction es arbitrary: s) (auto split: option.splits intro: copy_reach.step)

section \<open>Control\<close>

text \<open>The image of the copy, and what the main thread has not put into a buffer yet.\<close>

definition items_bytes :: "copy_item list \<Rightarrow> bytes" where
  "items_bytes is = concat (map (\<lambda>i. ci_page i @ ci_tail i) is)"

lemma items_bytes_simps [simp]:
  "items_bytes [] = []" "items_bytes (i # is) = ci_page i @ ci_tail i @ items_bytes is"
  by (simp_all add: items_bytes_def)

definition copy_image :: "copy_job \<Rightarrow> bytes" where
  "copy_image job = cj_meta job @ items_bytes (cj_items job)"

fun still_to_come :: "copy_job \<Rightarrow> main_pc \<Rightarrow> bytes" where
  "still_to_come job M_begin = copy_image job"
| "still_to_come job M_handshake = items_bytes (cj_items job)"
| "still_to_come job (M_walk is) = items_bytes is"
| "still_to_come job (M_put i is) = items_bytes (i # is)"
| "still_to_come job (M_toggle st k) = still_to_come job k"
| "still_to_come job (M_retest st k) = still_to_come job k"
| "still_to_come job _ = []"

text \<open>Pages of one size that divides the buffer, tails that fit an \<open>int\<close>.\<close>

definition item_ok :: "nat \<Rightarrow> copy_item \<Rightarrow> bool" where
  "item_ok psize i \<longleftrightarrow> length (ci_page i) = psize \<and> length (ci_tail i) < 2 ^ 31"

definition job_ok :: "nat \<Rightarrow> copy_job \<Rightarrow> bool" where
  "job_ok psize job \<longleftrightarrow> 0 < psize \<and> psize dvd MDB_WBUF \<and> 2 * psize \<le> MDB_WBUF \<and> length (cj_meta job) = 2 * psize \<and>
     cj_begin job = 0 \<and> (\<forall>i \<in> set (cj_items job). item_ok psize i)"

text \<open>The places of the main thread, with the pages it carries.\<close>

fun place_ok :: "nat \<Rightarrow> main_pc \<Rightarrow> bool" where
  "place_ok psize (M_walk is) \<longleftrightarrow> (\<forall>i \<in> set is. item_ok psize i)"
| "place_ok psize (M_put i is) \<longleftrightarrow> (\<forall>i \<in> set (i # is). item_ok psize i)"
| "place_ok psize (M_toggle st k) \<longleftrightarrow> place_ok psize k \<and>
     (st = - 1 \<and> k = M_finish \<or> st = 1 \<and> (case k of M_walk _ \<Rightarrow> True | M_put _ _ \<Rightarrow> True | _ \<Rightarrow> k = closing))"
| "place_ok psize (M_retest st k) \<longleftrightarrow> place_ok psize k \<and>
     (st = - 1 \<and> k = M_finish \<or> st = 1 \<and> (case k of M_walk _ \<Rightarrow> True | M_put _ _ \<Rightarrow> True | _ \<Rightarrow> k = closing))"
| "place_ok psize _ \<longleftrightarrow> True"

text \<open>Before the first page, and after the last.\<close>

fun starting :: "main_pc \<Rightarrow> bool" where
  "starting M_begin = True"
| "starting M_handshake = True"
| "starting _ = False"

fun ending :: "main_pc \<Rightarrow> bool" where
  "ending M_finish = True"
| "ending M_join = True"
| "ending M_done = True"
| "ending _ = False"

text \<open>After the last buffer has been handed over.\<close>

fun closed :: "main_pc \<Rightarrow> bool" where
  "closed (M_toggle st k) \<longleftrightarrow> st < 0"
| "closed (M_retest st k) \<longleftrightarrow> st < 0"
| "closed k \<longleftrightarrow> ending k"

text \<open>The places where the main thread fills the buffer \<open>mc_toggle\<close>.\<close>

fun filling :: "main_pc \<Rightarrow> bool" where
  "filling (M_toggle st k) \<longleftrightarrow> False"
| "filling (M_retest st k) \<longleftrightarrow> False"
| "filling k \<longleftrightarrow> \<not> ending k"

fun putting :: "main_pc \<Rightarrow> bool" where
  "putting (M_put i is) = True"
| "putting _ = False"

lemma closing_simps [simp]:
  "\<not> putting closing"
  "still_to_come job closing = []" "place_ok psize closing" "closed closing" "\<not> filling closing"
  "closing \<noteq> M_begin" "closing \<noteq> M_handshake" "closing \<noteq> M_finish" "closing \<noteq> M_join" "closing \<noteq> M_done"
  "\<not> starting closing" "\<not> ending closing" "closing \<noteq> M_walk is" "closing \<noteq> M_put i is" "closing \<noteq> M_retest st k"
  by (simp_all add: closing_def)

definition empty_buffer :: "copy_run \<Rightarrow> bool \<Rightarrow> bool" where
  "empty_buffer s t \<longleftrightarrow> mc_wlen s t = 0 \<and> mc_olen s t = 0"

text \<open>What the place of the writer thread tells, while no write has failed.\<close>

definition writer_ok :: "copy_run \<Rightarrow> bool" where
  "writer_ok s \<longleftrightarrow>
     (case cr_writer s of
        W_start \<Rightarrow> mc_new s = 1 \<and> \<not> mc_toggle s \<and> \<not> cr_wtoggle s \<and> (cr_main s = M_begin \<or> cr_main s = M_handshake) \<and>
          empty_buffer s True
      | W_write ptr wsize \<Rightarrow> mc_new s = 0 \<and> mc_toggle s = (\<not> cr_wtoggle s) \<and> 0 \<le> wsize \<and> wsize \<le> int (length ptr) \<and>
          \<not> starting (cr_main s) \<and> \<not> ending (cr_main s)
      | W_exit \<Rightarrow> mc_new s = 0 \<and> ending (cr_main s)
      | W_gone \<Rightarrow> mc_new s = 0 \<and> ending (cr_main s)
      | _ \<Rightarrow>
          if mc_new s = 0
          then mc_toggle s = cr_wtoggle s \<and> empty_buffer s (\<not> cr_wtoggle s) \<and> \<not> ending (cr_main s)
          else if mc_new s = 1
          then mc_toggle s = (\<not> cr_wtoggle s) \<and> \<not> starting (cr_main s) \<and> \<not> ending (cr_main s)
          else mc_new s = - 1 \<and> cr_main s = M_finish)"

definition buffer_ok :: "nat \<Rightarrow> copy_run \<Rightarrow> bool \<Rightarrow> bool" where
  "buffer_ok psize s t \<longleftrightarrow> mc_wlen s t \<le> length (mc_wbuf s t) \<and> mc_wlen s t \<le> MDB_WBUF \<and> psize dvd mc_wlen s t \<and>
     0 \<le> mc_olen s t \<and> mc_olen s t \<le> int (length (mc_over s t))"

definition filling_ok :: "copy_run \<Rightarrow> bool" where
  "filling_ok s \<longleftrightarrow> (filling (cr_main s) \<longrightarrow> mc_olen s (mc_toggle s) = 0) \<and>
     (putting (cr_main s) \<longrightarrow> mc_wlen s (mc_toggle s) < MDB_WBUF) \<and>
     (cr_main s = M_begin \<longrightarrow> mc_wlen s (mc_toggle s) = 0) \<and> (starting (cr_main s) \<longrightarrow> \<not> mc_toggle s)"

fun writer_holds :: "writer_pc \<Rightarrow> bool" where
  "writer_holds W_loop = True"
| "writer_holds (W_write ptr wsize) = True"
| "writer_holds W_exit = True"
| "writer_holds _ = False"

definition control_ok :: "nat \<Rightarrow> copy_run \<Rightarrow> bool" where
  "control_ok psize s \<longleftrightarrow> mc_status s = 0 \<and> cr_held s = writer_holds (cr_writer s) \<and>
     place_ok psize (cr_main s) \<and> writer_ok s \<and> filling_ok s \<and> (\<forall>t. buffer_ok psize s t)"

lemma olen_of_id: "n < 2 ^ 31 \<Longrightarrow> olen_of n = int n"
  by (simp add: olen_of_def signed_of_nat signed_take_bit_int_eq_self)

lemma control_ok_writer:
  assumes ok: "control_ok psize s" and step: "writer_step s = Some s'"
  shows "control_ok psize s'"
proof -
  have buffers: "\<forall>t. buffer_ok psize s' t"
    using ok step by (auto simp: control_ok_def buffer_ok_def Let_def split: writer_pc.splits if_splits)
  have rest: "mc_status s' = 0" "cr_held s' = writer_holds (cr_writer s')" "cr_main s' = cr_main s" "filling_ok s'"
    subgoal using ok step by (auto simp: control_ok_def Let_def split: writer_pc.splits if_splits)
    subgoal using ok step by (auto simp: control_ok_def Let_def split: writer_pc.splits if_splits)
    subgoal using ok step by (auto simp: control_ok_def Let_def split: writer_pc.splits if_splits)
    subgoal
    proof -
      have "mc_wlen s' u \<le> mc_wlen s u" "mc_olen s' u = 0 \<or> mc_olen s' u = mc_olen s u" "mc_toggle s' = mc_toggle s"
        "cr_main s' = cr_main s" for u
        using step by (auto simp: Let_def split: writer_pc.splits if_splits)
      from this(1,2) [of "mc_toggle s"] this(3,4) show ?thesis using ok by (auto simp: control_ok_def filling_ok_def)
    qed
    done
  have "writer_ok s'"
  proof (cases "cr_writer s")
    case (W_write ptr wsize)
    then show ?thesis using ok step
      by (auto simp: control_ok_def writer_ok_def empty_buffer_def buffer_ok_def Let_def split: if_splits)
  qed (use ok step in \<open>auto simp: control_ok_def writer_ok_def empty_buffer_def buffer_ok_def split: if_splits\<close>)
  then show ?thesis using ok buffers rest by (simp add: control_ok_def)
qed

lemma control_ok_wrote:
  assumes "control_ok psize s" "writer_wrote n s = Some s'"
  shows "control_ok psize s'"
proof -
  obtain ptr wsize where w: "cr_writer s = W_write ptr wsize" "0 < n" "int n \<le> wsize"
    "s' = s\<lparr>cr_file := cr_file s @ take n ptr, cr_writer := W_write (drop n ptr) (wsize - int n)\<rparr>"
    using assms(2) by (auto split: writer_pc.splits if_splits)
  then show ?thesis using assms(1)
    by (auto simp: control_ok_def writer_ok_def filling_ok_def buffer_ok_def)
qed

lemma control_ok_wakes:
  "control_ok psize (s\<lparr>cr_masleep := b\<rparr>) = control_ok psize s" "control_ok psize (s\<lparr>cr_wasleep := b\<rparr>) = control_ok psize s"
  by (cases "cr_writer s"; simp add: control_ok_def writer_ok_def filling_ok_def buffer_ok_def empty_buffer_def)+

text \<open>A place the main thread moves on to, where it does not touch the buffers.\<close>

lemma control_ok_move:
  assumes ok: "control_ok psize s" and k: "place_ok psize k"
    and "filling k \<Longrightarrow> filling (cr_main s)" "starting k \<Longrightarrow> starting (cr_main s)" "ending (cr_main s) = ending k"
    and "k \<noteq> M_begin" "cr_main s = M_finish \<Longrightarrow> mc_new s = 0 \<or> k = M_finish"
    and "putting k \<Longrightarrow> mc_wlen s (mc_toggle s) < MDB_WBUF"
    and w: "cr_writer s = W_start \<Longrightarrow> k = M_handshake"
  shows "control_ok psize (s\<lparr>cr_main := k\<rparr>)"
proof -
  have "writer_ok (s\<lparr>cr_main := k\<rparr>)"
    using assms by (auto simp: control_ok_def writer_ok_def empty_buffer_def split: writer_pc.splits if_splits)
  then show ?thesis using assms by (auto simp: control_ok_def filling_ok_def buffer_ok_def)
qed

lemma control_ok_rc: "control_ok psize (s\<lparr>cr_rc := b\<rparr>) = control_ok psize s"
  by (cases "cr_writer s"; simp add: control_ok_def writer_ok_def filling_ok_def buffer_ok_def empty_buffer_def)

text \<open>Handing over the buffer: the writer thread is waiting, and has emptied the other one.\<close>

lemma control_ok_toggle:
  assumes ok: "control_ok psize s" and held: "\<not> cr_held s"
    and p: "cr_main s = M_toggle st k \<or> cr_main s = M_retest st k"
  shows "control_ok psize (toggle_wait st k s)"
    and "mc_new s \<noteq> 1 \<Longrightarrow> cr_writer s = W_wait \<and> mc_new s = 0 \<and> mc_toggle s = cr_wtoggle s \<and> empty_buffer s (\<not> cr_wtoggle s)"
proof -
  have place: "place_ok psize (M_retest st k)" "\<not> filling (cr_main s)" "\<not> starting (cr_main s)" "\<not> ending (cr_main s)"
    "cr_main s \<noteq> M_begin" "cr_main s \<noteq> M_handshake" "cr_main s \<noteq> M_finish"
    using ok p by (auto simp: control_ok_def)
  show free: "cr_writer s = W_wait \<and> mc_new s = 0 \<and> mc_toggle s = cr_wtoggle s \<and> empty_buffer s (\<not> cr_wtoggle s)" if "mc_new s \<noteq> 1"
    using ok held place that by (auto simp: control_ok_def writer_ok_def split: writer_pc.splits if_splits)
  show "control_ok psize (toggle_wait st k s)"
  proof (cases "mc_new s = 1")
    case True
    have "cr_writer s \<noteq> W_start" using ok place by (auto simp: control_ok_def writer_ok_def)
    moreover have "control_ok psize (s\<lparr>cr_masleep := True\<rparr>)" using ok by (simp only: control_ok_wakes)
    ultimately have "control_ok psize (s\<lparr>cr_masleep := True, cr_main := M_retest st k\<rparr>)"
      using place True by (intro control_ok_move) auto
    then show ?thesis using True by (simp add: toggle_wait_def)
  next
    case False
    define s1 where "s1 = s\<lparr>mc_new := st, mc_toggle := \<not> mc_toggle s, cr_wasleep := False, cr_main := k\<rparr>"
    note f = free [OF False]
    have k: "st = - 1 \<and> k = M_finish \<or> st = 1 \<and> ((\<exists>is. k = M_walk is) \<or> (\<exists>i is. k = M_put i is) \<or> k = closing)" "place_ok psize k"
      using place(1) by (auto split: main_pc.splits)
    then have "writer_ok s1" using f by (auto simp: s1_def writer_ok_def)
    moreover have "filling_ok s1" using f k by (auto simp: s1_def filling_ok_def empty_buffer_def MDB_WBUF_def)
    moreover have "\<forall>t. buffer_ok psize s1 t" using ok by (simp add: control_ok_def buffer_ok_def s1_def)
    ultimately have "control_ok psize s1" using ok k by (simp add: control_ok_def s1_def)
    then show ?thesis using False by (simp add: toggle_wait_def s1_def)
  qed
qed

lemma control_ok_put:
  assumes ok: "control_ok psize s" and p: "cr_main s = M_put i xs" and size: "psize dvd MDB_WBUF"
  shows "control_ok psize (copy_put i (M_walk xs) s)"
proof -
  define t where "t = mc_toggle s"
  have i: "length (ci_page i) = psize" "length (ci_tail i) < 2 ^ 31" "\<forall>i \<in> set xs. item_ok psize i"
    using ok p by (auto simp: control_ok_def item_ok_def)
  have "mc_wlen s t < MDB_WBUF" "psize dvd mc_wlen s t" "mc_wlen s t \<le> length (mc_wbuf s t)" "mc_olen s t = 0"
    using ok p by (auto simp: control_ok_def filling_ok_def buffer_ok_def t_def)
  moreover from this have "psize \<le> MDB_WBUF - mc_wlen s t" using size by (intro dvd_imp_le dvd_diff_nat) simp_all
  ultimately have room: "mc_wlen s t + psize \<le> MDB_WBUF" "psize dvd mc_wlen s t + psize" "mc_wlen s t \<le> length (mc_wbuf s t)"
    by simp_all
  have buffers: "buffer_ok psize (copy_put i (M_walk xs) s) u" for u
    using ok i room
    by (cases "u = t") (auto simp: control_ok_def buffer_ok_def copy_put_def Let_def t_def [symmetric] olen_of_id)
  have "writer_ok (copy_put i (M_walk xs) s)"
    using ok p by (cases "cr_writer s") (auto simp: control_ok_def writer_ok_def empty_buffer_def copy_put_def Let_def split: if_splits)
  moreover have "filling_ok (copy_put i (M_walk xs) s)"
    using ok p by (auto simp: control_ok_def filling_ok_def copy_put_def Let_def)
  ultimately show ?thesis using ok buffers i by (simp add: control_ok_def copy_put_def Let_def)
qed

lemma control_ok_main:
  assumes ok: "control_ok psize s" and step: "main_step job s = Some s'" and job: "job_ok psize job"
  shows "control_ok psize s'"
proof -
  have st: "mc_status s = 0" "writer_ok s" using ok by (simp_all add: control_ok_def)
  show ?thesis
  proof (cases "cr_main s")
    case M_begin
    define s1 where "s1 = s\<lparr>mc_wbuf := (mc_wbuf s)(False := cj_meta job), mc_wlen := (mc_wlen s)(False := length (cj_meta job))\<rparr>"
    have "s' = s1\<lparr>cr_main := M_handshake\<rparr>" using step M_begin job by (simp add: job_ok_def s1_def)
    moreover have "writer_ok (s1\<lparr>cr_main := M_handshake\<rparr>)"
      using ok M_begin
      by (cases "cr_writer s") (auto simp: control_ok_def writer_ok_def filling_ok_def empty_buffer_def s1_def split: if_splits)
    moreover have "filling_ok (s1\<lparr>cr_main := M_handshake\<rparr>)"
      using ok M_begin by (auto simp: control_ok_def filling_ok_def s1_def)
    moreover have "buffer_ok psize (s1\<lparr>cr_main := M_handshake\<rparr>) t" for t
      using ok job by (cases t) (auto simp: control_ok_def buffer_ok_def s1_def job_ok_def)
    ultimately show ?thesis using ok by (simp add: control_ok_def s1_def)
  next
    case M_handshake
    then show ?thesis using ok step job
      by (cases "cr_writer s") (auto simp: control_ok_def writer_ok_def filling_ok_def buffer_ok_def empty_buffer_def job_ok_def split: if_splits)
  next
    case (M_walk xs)
    then have "cr_writer s \<noteq> W_start" using ok by (auto simp: control_ok_def writer_ok_def)
    note move = control_ok_move [OF ok]
    show ?thesis
    proof (cases xs)
      case Nil
      have "control_ok psize (s\<lparr>cr_rc := cj_rc job\<rparr>)" using ok by (simp only: control_ok_rc)
      then have "control_ok psize (s\<lparr>cr_rc := cj_rc job, cr_main := k\<rparr>)" if "k = M_toggle 1 closing \<or> k = closing" for k
        using that M_walk \<open>cr_writer s \<noteq> W_start\<close> by (intro control_ok_move) (auto simp: closing_def)
      then show ?thesis using M_walk Nil step by (auto split: if_splits)
    next
      case (Cons i ys)
      have "item_ok psize i \<and> (\<forall>i \<in> set ys. item_ok psize i)" using ok M_walk Cons by (simp add: control_ok_def)
      then show ?thesis using M_walk Cons step \<open>cr_writer s \<noteq> W_start\<close> by (auto intro!: move split: if_splits)
    qed
  next
    case (M_put i xs)
    then show ?thesis using control_ok_put [OF ok, of i "xs"] job step by (simp add: job_ok_def)
  next
    case (M_toggle st k)
    then show ?thesis using control_ok_toggle(1) [OF ok, of st k] step st(1) by (simp add: mdb_env_cthr_toggle_def split: if_splits)
  next
    case (M_retest st k)
    then show ?thesis using control_ok_toggle(1) [OF ok, of st k] step by (simp split: if_splits)
  next
    case M_finish
    then have "cr_writer s \<noteq> W_start" using ok by (auto simp: control_ok_def writer_ok_def)
    then show ?thesis using M_finish step ok by (auto intro!: control_ok_move simp: control_ok_wakes split: if_splits)
  next
    case M_join
    then have "cr_writer s \<noteq> W_start" using ok by (auto simp: control_ok_def writer_ok_def)
    then show ?thesis using M_join step ok by (auto intro!: control_ok_move split: if_splits)
  qed (use step in simp)
qed

section \<open>The file\<close>

text \<open>What a buffer holds, what the writer thread has still to write, and what comes after it.\<close>

definition buffer_bytes :: "copy_run \<Rightarrow> bool \<Rightarrow> bytes" where
  "buffer_bytes s t = take (mc_wlen s t) (mc_wbuf s t) @ take (nat (mc_olen s t)) (mc_over s t)"

definition writer_bytes :: "copy_run \<Rightarrow> bytes" where
  "writer_bytes s =
     (case cr_writer s of
        W_write ptr wsize \<Rightarrow> take (nat wsize) ptr @ take (nat (mc_olen s (cr_wtoggle s))) (mc_over s (cr_wtoggle s))
      | W_loop \<Rightarrow> if mc_new s = 1 then buffer_bytes s (cr_wtoggle s) else []
      | W_wait \<Rightarrow> if mc_new s = 1 then buffer_bytes s (cr_wtoggle s) else []
      | _ \<Rightarrow> [])"

definition main_bytes :: "copy_job \<Rightarrow> copy_run \<Rightarrow> bytes" where
  "main_bytes job s = (if closed (cr_main s) then [] else buffer_bytes s (mc_toggle s) @ still_to_come job (cr_main s))"

text \<open>In order, and nothing is left out unless the walk failed.\<close>

definition data_ok :: "copy_job \<Rightarrow> copy_run \<Rightarrow> bool" where
  "data_ok job s \<longleftrightarrow>
     (\<exists>rest. cr_file s @ writer_bytes s @ main_bytes job s @ rest = copy_image job \<and>
        (closed (cr_main s) \<and> cr_rc s \<noteq> 0 \<or> rest = []))"

lemma empty_buffer_bytes: "empty_buffer s t \<Longrightarrow> buffer_bytes s t = []"
  by (simp add: empty_buffer_def buffer_bytes_def)

lemma data_ok_writer:
  assumes "control_ok psize s" "data_ok job s" "writer_step s = Some s'"
  shows "data_ok job s'"
proof -
  have same: "cr_file s' = cr_file s" "cr_main s' = cr_main s" "cr_rc s' = cr_rc s"
    using assms(3) by (auto simp: Let_def split: writer_pc.splits if_splits)
  have ok: "buffer_ok psize s t" "writer_ok s" for t using assms(1) by (simp_all add: control_ok_def)
  have "writer_bytes s' = writer_bytes s \<and> (\<not> closed (cr_main s) \<longrightarrow> buffer_bytes s' (mc_toggle s') = buffer_bytes s (mc_toggle s))"
  proof (cases "cr_writer s")
    case (W_write ptr wsize)
    show ?thesis
    proof (cases "wsize > 0")
      case False
      then have "wsize = 0" using ok(2) W_write by (simp add: writer_ok_def)
      then show ?thesis using W_write assms(3) ok(2) ok(1) [of "cr_wtoggle s"]
        by (auto simp: Let_def writer_bytes_def buffer_bytes_def writer_ok_def split: if_splits)
    qed (use W_write assms(3) in simp)
  next
    case W_loop
    then show ?thesis using assms(3) ok(2)
      by (auto simp: writer_bytes_def buffer_bytes_def writer_ok_def split: if_splits)
  qed (use assms(3) ok(2) in \<open>auto simp: writer_bytes_def buffer_bytes_def writer_ok_def split: if_splits\<close>)
  then show ?thesis using assms(2) same by (auto simp: data_ok_def main_bytes_def)
qed

lemma data_ok_wrote:
  assumes "control_ok psize s" "data_ok job s" "writer_wrote n s = Some s'"
  shows "data_ok job s'"
proof -
  obtain ptr wsize where w: "cr_writer s = W_write ptr wsize" "0 < n" "int n \<le> wsize"
    "s' = s\<lparr>cr_file := cr_file s @ take n ptr, cr_writer := W_write (drop n ptr) (wsize - int n)\<rparr>"
    using assms(3) by (auto split: writer_pc.splits if_splits)
  have "take n ptr @ take (nat (wsize - int n)) (drop n ptr) = take (nat wsize) ptr"
    using w(2,3) by (simp add: nat_diff_distrib flip: take_add)
  then have "take n ptr @ take (nat (wsize - int n)) (drop n ptr) @ ys = take (nat wsize) ptr @ ys" for ys
    by (metis append_assoc)
  moreover have "buffer_bytes s' t = buffer_bytes s t" for t by (simp add: w(4) buffer_bytes_def)
  ultimately have "cr_file s' @ writer_bytes s' = cr_file s @ writer_bytes s" "main_bytes job s' = main_bytes job s"
    by (simp_all add: w writer_bytes_def main_bytes_def)
  then show ?thesis using assms(2) unfolding data_ok_def by (simp add: w(4) flip: append_assoc)
qed

lemma data_ok_move:
  assumes "data_ok job s" and "still_to_come job k = still_to_come job (cr_main s)" "closed k = closed (cr_main s)"
  shows "data_ok job (s\<lparr>cr_main := k\<rparr>)"
proof -
  have "writer_bytes (s\<lparr>cr_main := k\<rparr>) = writer_bytes s" "buffer_bytes (s\<lparr>cr_main := k\<rparr>) t = buffer_bytes s t" for t
    by (simp_all add: writer_bytes_def buffer_bytes_def cong: writer_pc.case_cong if_cong)
  then show ?thesis using assms by (cases "closed (cr_main s)") (simp_all add: data_ok_def main_bytes_def)
qed

lemma data_ok_sleep: "data_ok job (s\<lparr>cr_masleep := b\<rparr>) = data_ok job s"
proof -
  have "writer_bytes (s\<lparr>cr_masleep := b\<rparr>) = writer_bytes s" "buffer_bytes (s\<lparr>cr_masleep := b\<rparr>) t = buffer_bytes s t" for t
    by (simp_all add: writer_bytes_def buffer_bytes_def cong: writer_pc.case_cong if_cong)
  then show ?thesis by (simp add: data_ok_def main_bytes_def)
qed

lemma data_ok_toggle:
  assumes ok: "control_ok psize s" and held: "\<not> cr_held s" and data: "data_ok job s"
    and p: "cr_main s = M_toggle st k \<or> cr_main s = M_retest st k"
  shows "data_ok job (toggle_wait st k s)"
proof (cases "mc_new s = 1")
  case True
  have "data_ok job (s\<lparr>cr_masleep := True\<rparr>)" using data by (simp only: data_ok_sleep)
  then have "data_ok job (s\<lparr>cr_masleep := True, cr_main := M_retest st k\<rparr>)"
    using p by (intro data_ok_move) auto
  then show ?thesis using True by (simp add: toggle_wait_def)
next
  case False
  define s1 where "s1 = s\<lparr>mc_new := st, mc_toggle := \<not> mc_toggle s, cr_wasleep := False, cr_main := k\<rparr>"
  have f: "cr_writer s = W_wait" "mc_new s = 0" "mc_toggle s = cr_wtoggle s" "empty_buffer s (\<not> cr_wtoggle s)"
    using control_ok_toggle(2) [OF ok held p False] by simp_all
  have k: "st = - 1 \<and> k = M_finish \<or> st = 1 \<and> ((\<exists>is. k = M_walk is) \<or> (\<exists>i is. k = M_put i is) \<or> k = closing)"
    using ok p by (auto simp: control_ok_def split: main_pc.splits)
  have "buffer_bytes s1 t = buffer_bytes s t" for t by (simp add: s1_def buffer_bytes_def)
  moreover have "writer_bytes s1 = (if st = 1 then buffer_bytes s (mc_toggle s) else [])" "writer_bytes s = []"
    using f by (simp_all add: s1_def writer_bytes_def buffer_bytes_def)
  ultimately have "writer_bytes s1 = (if st = 1 then buffer_bytes s (mc_toggle s) else [])"
    "writer_bytes s = []" "main_bytes job s1 = (if closed k then [] else still_to_come job k)"
    using f(3) empty_buffer_bytes [OF f(4)] by (simp_all add: s1_def main_bytes_def)
  moreover have "main_bytes job s = (if st = 1 then buffer_bytes s (mc_toggle s) @ still_to_come job k else [])"
    using p k by (auto simp: main_bytes_def)
  moreover have "st = 1 \<and> closed k \<Longrightarrow> still_to_come job k = []" using k by auto
  moreover have "closed (cr_main s) \<longleftrightarrow> st = - 1" "st = - 1 \<Longrightarrow> closed k" using p k by auto
  moreover have "st = 1 \<or> st = - 1" using k by auto
  ultimately have "data_ok job s1" using data unfolding data_ok_def
    by (elim ex_forward) (auto simp: s1_def)
  then show ?thesis using False by (simp add: toggle_wait_def s1_def)
qed

lemma data_ok_main:
  assumes ok: "control_ok psize s" and data: "data_ok job s" and step: "main_step job s = Some s'" and job: "job_ok psize job"
  shows "data_ok job s'"
proof (cases "cr_main s")
  case M_begin
  then have f: "mc_wlen s False = 0" "mc_olen s False = 0" "\<not> mc_toggle s" "s' = s\<lparr>mc_wbuf := (mc_wbuf s)(False := cj_meta job),
      mc_wlen := (mc_wlen s)(False := length (cj_meta job)), cr_main := M_handshake\<rparr>"
    using ok step job by (auto simp: control_ok_def filling_ok_def job_ok_def)
  moreover have "writer_bytes s = []" "writer_bytes s' = []"
    using ok M_begin by (auto simp: control_ok_def writer_ok_def writer_bytes_def f split: writer_pc.splits if_splits)
  ultimately show ?thesis using data M_begin by (simp add: data_ok_def main_bytes_def buffer_bytes_def copy_image_def)
next
  case M_handshake
  then show ?thesis using data step by (auto intro!: data_ok_move simp: data_ok_sleep split: if_splits)
next
  case (M_walk xs)
  show ?thesis
  proof (cases xs)
    case Nil
    have o: "mc_olen s (mc_toggle s) = 0" using ok M_walk by (simp add: control_ok_def filling_ok_def)
    have "writer_bytes (s\<lparr>cr_rc := rc, cr_main := k\<rparr>) = writer_bytes s" "buffer_bytes (s\<lparr>cr_rc := rc, cr_main := k\<rparr>) t = buffer_bytes s t" for rc k t
      by (simp_all add: writer_bytes_def buffer_bytes_def cong: writer_pc.case_cong if_cong)
    moreover define rest where "rest = take (mc_wlen s (mc_toggle s)) (mc_wbuf s (mc_toggle s))"
    moreover have "cr_file s @ writer_bytes s @ rest = copy_image job"
      using data M_walk Nil o by (simp add: data_ok_def main_bytes_def buffer_bytes_def rest_def)
    moreover have "s' = s\<lparr>cr_rc := cj_rc job, cr_main := if cj_rc job = 0 \<and> mc_wlen s (mc_toggle s) \<noteq> 0 then M_toggle 1 closing else closing\<rparr>"
      using step M_walk Nil by simp
    ultimately show ?thesis using o
      by (cases "cj_rc job = 0 \<and> mc_wlen s (mc_toggle s) \<noteq> 0") (auto simp: data_ok_def main_bytes_def buffer_bytes_def)
  next
    case (Cons i ys)
    then show ?thesis using M_walk step data by (auto intro!: data_ok_move split: if_splits)
  qed
next
  case (M_put i xs)
  define t where "t = mc_toggle s"
  have f: "mc_olen s t = 0" "mc_wlen s t \<le> length (mc_wbuf s t)" "length (ci_tail i) < 2 ^ 31"
    using ok M_put by (simp_all add: control_ok_def filling_ok_def buffer_ok_def item_ok_def t_def)
  have "buffer_bytes (copy_put i (M_walk xs) s) t = buffer_bytes s t @ ci_page i @ ci_tail i"
    "buffer_bytes (copy_put i (M_walk xs) s) (\<not> t) = buffer_bytes s (\<not> t)"
    using f by (auto simp: copy_put_def Let_def buffer_bytes_def t_def [symmetric] olen_of_id)
  moreover have "writer_bytes (copy_put i (M_walk xs) s) = writer_bytes s"
    using ok M_put calculation(2) by (cases "cr_writer s") (auto simp: control_ok_def writer_ok_def writer_bytes_def copy_put_def Let_def t_def buffer_bytes_def split: if_splits)
  moreover have "mc_toggle (copy_put i (M_walk xs) s) = t" "cr_file (copy_put i (M_walk xs) s) = cr_file s"
    "cr_main (copy_put i (M_walk xs) s) = (if ci_tail i = [] then M_walk xs else M_toggle 1 (M_walk xs))"
    by (simp_all add: copy_put_def Let_def t_def)
  moreover have "s' = copy_put i (M_walk xs) s" using step M_put by simp
  ultimately show ?thesis using data M_put by (auto simp: data_ok_def main_bytes_def t_def [symmetric])
next
  case (M_toggle st k)
  then show ?thesis using data_ok_toggle [OF ok _ data, of st k] step ok
    by (auto simp: mdb_env_cthr_toggle_def control_ok_def split: if_splits)
next
  case (M_retest st k)
  then show ?thesis using data_ok_toggle [OF ok _ data, of st k] step by (simp split: if_splits)
next
  case M_finish
  then show ?thesis using data step by (auto intro!: data_ok_move simp: data_ok_sleep split: if_splits)
next
  case M_join
  then show ?thesis using data step by (auto intro!: data_ok_move split: if_splits)
qed (use step in simp)

section \<open>Invariant\<close>

text \<open>A failed write ends the writer thread; the main thread does not touch the file.\<close>

definition copy_failed :: "copy_job \<Rightarrow> copy_run \<Rightarrow> bool" where
  "copy_failed job s \<longleftrightarrow> mc_status s \<noteq> 0 \<and> (cr_writer s = W_exit \<or> cr_writer s = W_gone) \<and> prefix (cr_file s) (copy_image job)"

definition copy_inv :: "nat \<Rightarrow> copy_job \<Rightarrow> copy_run \<Rightarrow> bool" where
  "copy_inv psize job s \<longleftrightarrow> control_ok psize s \<and> data_ok job s \<or> copy_failed job s"

lemma main_keeps:
  assumes "main_step job s = Some s'"
  shows "mc_status s' = mc_status s \<and> cr_writer s' = cr_writer s \<and> cr_file s' = cr_file s"
proof (cases "cr_main s")
  case (M_walk xs)
  then show ?thesis using assms by (cases xs) auto
next
  case (M_toggle st k)
  then show ?thesis using assms by (auto simp: mdb_env_cthr_toggle_def toggle_wait_def split: if_splits)
next
  case (M_retest st k)
  then show ?thesis using assms by (auto simp: toggle_wait_def split: if_splits)
next
  case (M_put i xs)
  then show ?thesis using assms by (auto simp: copy_put_def Let_def)
qed (use assms in \<open>auto split: if_splits\<close>)

lemma copy_failed_step:
  assumes "copy_failed job s" "copy_step job e s = Some s'"
  shows "copy_failed job s'"
proof (cases e)
  case Main
  then have "main_step job s = Some s'" using assms(2) by (simp only: copy_step.simps)
  from main_keeps [OF this] show ?thesis using assms(1) by (simp add: copy_failed_def)
qed (use assms in \<open>auto simp: copy_failed_def split: if_splits\<close>)

lemma data_ok_wakes: "data_ok job (s\<lparr>cr_wasleep := b\<rparr>) = data_ok job s"
proof -
  have "writer_bytes (s\<lparr>cr_wasleep := b\<rparr>) = writer_bytes s" "buffer_bytes (s\<lparr>cr_wasleep := b\<rparr>) t = buffer_bytes s t" for t
    by (simp_all add: writer_bytes_def buffer_bytes_def cong: writer_pc.case_cong if_cong)
  then show ?thesis by (simp add: data_ok_def main_bytes_def)
qed

lemma copy_inv_step:
  assumes inv: "copy_inv psize job s" and step: "copy_step job e s = Some s'" and job: "job_ok psize job"
  shows "copy_inv psize job s'"
proof (cases "copy_failed job s")
  case True
  then show ?thesis using copy_failed_step step by (auto simp: copy_inv_def)
next
  case False
  then have ok: "control_ok psize s" "data_ok job s" using inv by (auto simp: copy_inv_def)
  show ?thesis
  proof (cases e)
    case Main
    then show ?thesis using control_ok_main [OF ok(1) _ job] data_ok_main [OF ok _ job] step by (auto simp: copy_inv_def)
  next
    case Writer
    then show ?thesis using control_ok_writer [OF ok(1)] data_ok_writer [OF ok] step by (auto simp: copy_inv_def)
  next
    case (Wrote n)
    then show ?thesis using control_ok_wrote [OF ok(1)] data_ok_wrote [OF ok] step by (auto simp: copy_inv_def)
  next
    case (Fails rc)
    have "prefix (cr_file s) (copy_image job)" using ok(2) unfolding data_ok_def prefix_def by metis
    then show ?thesis using Fails step by (auto simp: copy_inv_def copy_failed_def split: writer_pc.splits if_splits)
  next
    case Wakes_main
    then show ?thesis using ok step by (auto simp: copy_inv_def control_ok_wakes data_ok_sleep split: if_splits)
  next
    case Wakes_writer
    then show ?thesis using ok step by (auto simp: copy_inv_def control_ok_wakes data_ok_wakes split: if_splits)
  qed
qed

lemma copy_inv_start: "copy_inv psize job copy_start"
proof -
  have "control_ok psize copy_start"
    by (simp add: control_ok_def copy_start_def writer_ok_def empty_buffer_def filling_ok_def buffer_ok_def)
  moreover have "data_ok job copy_start"
    by (simp add: data_ok_def copy_start_def writer_bytes_def main_bytes_def buffer_bytes_def)
  ultimately show ?thesis by (simp add: copy_inv_def)
qed

lemma copy_inv_reach: "copy_reach job s s' \<Longrightarrow> copy_inv psize job s \<Longrightarrow> job_ok psize job \<Longrightarrow> copy_inv psize job s'"
  by (induction rule: copy_reach.induct) (auto intro: copy_inv_step)

section \<open>Progress\<close>

text \<open>After the walk \<open>rc\<close> is the walk's result.\<close>

fun after_walk :: "main_pc \<Rightarrow> bool" where
  "after_walk (M_toggle st k) \<longleftrightarrow> st < 0 \<or> k = closing"
| "after_walk (M_retest st k) \<longleftrightarrow> st < 0 \<or> k = closing"
| "after_walk k \<longleftrightarrow> ending k"

text \<open>A thread sleeps only where the other is about to signal it.\<close>

fun awaited :: "copy_run \<Rightarrow> main_pc \<Rightarrow> bool" where
  "awaited s M_handshake \<longleftrightarrow> cr_writer s = W_start"
| "awaited s (M_retest st k) \<longleftrightarrow> mc_new s = 1 \<or> (case cr_writer s of W_write ptr wsize \<Rightarrow> True | _ \<Rightarrow> False)"
| "awaited s M_finish \<longleftrightarrow> mc_new s = - 1 \<or> cr_writer s = W_exit"
| "awaited s _ \<longleftrightarrow> False"

fun retesting :: "main_pc \<Rightarrow> bool" where
  "retesting (M_retest st k) = True"
| "retesting _ = False"

definition sleep_ok :: "copy_run \<Rightarrow> bool" where
  "sleep_ok s \<longleftrightarrow>
     (cr_wasleep s \<longrightarrow> cr_writer s = W_wait \<and> mc_new s = 0) \<and>
     (cr_masleep s \<longrightarrow> awaited s (cr_main s)) \<and>
     (\<not> cr_masleep s \<and> retesting (cr_main s) \<longrightarrow> mc_new s \<noteq> 1)"

fun stage :: "copy_job \<Rightarrow> main_pc \<Rightarrow> nat" where
  "stage job M_begin = 6 * length (cj_items job) + 9"
| "stage job M_handshake = 6 * length (cj_items job) + 8"
| "stage job (M_walk is) = 6 * length is + 7"
| "stage job (M_put i is) = 6 * length is + 10"
| "stage job (M_toggle st k) = stage job k + 2"
| "stage job (M_retest st k) = stage job k + 1"
| "stage job M_finish = 2"
| "stage job M_join = 1"
| "stage job M_done = 0"

fun writer_stage :: "copy_run \<Rightarrow> nat" where
  "writer_stage s =
     (case cr_writer s of
        W_start \<Rightarrow> 3
      | W_loop \<Rightarrow> if mc_new s \<noteq> 0 then 5 else 1
      | W_wait \<Rightarrow> if mc_new s \<noteq> 0 then 6 else if cr_wasleep s then 0 else 2
      | W_write ptr wsize \<Rightarrow> if mc_olen s (cr_wtoggle s) \<noteq> 0 then 4 else 3
      | W_exit \<Rightarrow> 2
      | W_gone \<Rightarrow> 0)"

definition copy_measure :: "copy_job \<Rightarrow> copy_run \<Rightarrow> nat" where
  "copy_measure job s = 10 * stage job (cr_main s) + (if cr_masleep s then 0 else 1) + writer_stage s +
     (length (copy_image job) - length (cr_file s))"

definition copy_live :: "nat \<Rightarrow> copy_job \<Rightarrow> copy_run \<Rightarrow> bool" where
  "copy_live psize job s \<longleftrightarrow> control_ok psize s \<and> data_ok job s \<and> sleep_ok s \<and> (after_walk (cr_main s) \<longrightarrow> cr_rc s = cj_rc job)"

lemma after_closing [simp]: "after_walk closing" "stage job closing = 4" by (simp_all add: closing_def)

lemma writer_step_cases:
  assumes "writer_step s = Some s'"
  obtains (start) "cr_writer s = W_start" "\<not> cr_held s" "s' = s\<lparr>cr_held := True, mc_new := 0, cr_masleep := False, cr_writer := W_loop\<rparr>"
  | (sleep) "cr_writer s = W_loop" "mc_new s = 0" "s' = s\<lparr>cr_held := False, cr_wasleep := True, cr_writer := W_wait\<rparr>"
  | (stop) "cr_writer s = W_loop" "mc_new s < 0" "s' = s\<lparr>mc_new := 0, cr_writer := W_exit\<rparr>"
  | (take) "cr_writer s = W_loop" "mc_new s > 0"
      "s' = s\<lparr>mc_new := 0, cr_writer := W_write (mc_wbuf s (cr_wtoggle s)) (int (mc_wlen s (cr_wtoggle s)))\<rparr>"
  | (wake) "cr_writer s = W_wait" "\<not> cr_wasleep s" "\<not> cr_held s" "s' = s\<lparr>cr_held := True, cr_writer := W_loop\<rparr>"
  | (tail) ptr wsize where "cr_writer s = W_write ptr wsize" "\<not> wsize > 0" "mc_olen s (cr_wtoggle s) \<noteq> 0"
      "s' = s\<lparr>mc_olen := (mc_olen s)(cr_wtoggle s := 0), cr_writer := W_write (mc_over s (cr_wtoggle s)) (mc_olen s (cr_wtoggle s))\<rparr>"
  | (finish) ptr wsize where "cr_writer s = W_write ptr wsize" "\<not> wsize > 0" "mc_olen s (cr_wtoggle s) = 0"
      "s' = s\<lparr>mc_wlen := (mc_wlen s)(cr_wtoggle s := 0), cr_wtoggle := \<not> cr_wtoggle s, cr_masleep := False, cr_writer := W_loop\<rparr>"
  | (exit) "cr_writer s = W_exit" "s' = s\<lparr>cr_masleep := False, cr_held := False, cr_writer := W_gone\<rparr>"
proof (cases "cr_writer s")
  case W_start then show ?thesis using assms start by (simp split: if_splits)
next
  case W_loop then show ?thesis using assms sleep stop take by (cases "mc_new s" "0 :: int" rule: linorder_cases) simp_all
next
  case W_wait then show ?thesis using assms wake by (simp split: if_splits)
next
  case (W_write ptr wsize) then show ?thesis using assms tail finish by (simp add: Let_def split: if_splits)
next
  case W_exit then show ?thesis using assms exit by simp
next
  case W_gone then show ?thesis using assms by simp
qed

lemma writer_progress:
  assumes live: "copy_live psize job s" and step: "writer_step s = Some s'"
  shows "copy_live psize job s'" "copy_measure job s' < copy_measure job s"
proof -
  have ok: "control_ok psize s" "data_ok job s" "sleep_ok s" "writer_ok s"
    using live by (auto simp: copy_live_def control_ok_def)
  have same: "cr_file s' = cr_file s" "cr_main s' = cr_main s" "cr_rc s' = cr_rc s"
    using step by (auto simp: Let_def split: writer_pc.splits if_splits)
  have "sleep_ok s'"
  proof (cases "cr_masleep s")
    case True
    then show ?thesis using ok(3,4) step
      by (cases "cr_main s"; cases "cr_writer s") (auto simp: sleep_ok_def writer_ok_def Let_def split: if_splits)
  next
    case False
    then show ?thesis using ok(3,4) step
      by (cases "cr_writer s") (auto simp: sleep_ok_def writer_ok_def Let_def split: if_splits)
  qed
  then show "copy_live psize job s'"
    using control_ok_writer [OF ok(1) step] data_ok_writer [OF ok(1,2) step] live same by (simp add: copy_live_def)
  have "(if cr_masleep s' then 0 else 1) + writer_stage s' < (if cr_masleep s then 0 else 1) + writer_stage s"
    using step
  proof (cases rule: writer_step_cases)
    case (finish ptr wsize)
    then show ?thesis using ok(4) by (simp add: writer_ok_def)
  qed (use ok(3,4) in \<open>simp_all add: sleep_ok_def writer_ok_def\<close>)
  then show "copy_measure job s' < copy_measure job s" using same by (simp only: copy_measure_def)
qed

lemma wrote_progress:
  assumes live: "copy_live psize job s" and step: "writer_wrote n s = Some s'"
  shows "copy_live psize job s'" "copy_measure job s' < copy_measure job s"
proof -
  have ok: "control_ok psize s" "data_ok job s" "sleep_ok s" "writer_ok s"
    using live by (auto simp: copy_live_def control_ok_def)
  obtain ptr wsize where w: "cr_writer s = W_write ptr wsize" "0 < n" "int n \<le> wsize"
    "s' = s\<lparr>cr_file := cr_file s @ take n ptr, cr_writer := W_write (drop n ptr) (wsize - int n)\<rparr>"
    using step by (auto split: writer_pc.splits if_splits)
  have data: "data_ok job s'" by (rule data_ok_wrote [OF ok(1,2) step])
  have "sleep_ok s'" using ok(3) w by (cases "cr_main s") (simp_all add: sleep_ok_def)
  then show "copy_live psize job s'" using control_ok_wrote [OF ok(1) step] data live w by (simp add: copy_live_def)
  obtain rest where "copy_image job = cr_file s' @ rest" using data unfolding data_ok_def by metis
  moreover have "n \<le> length ptr" using ok(4) w by (simp add: writer_ok_def)
  ultimately have "length (copy_image job) - length (cr_file s') < length (copy_image job) - length (cr_file s)"
    using w by simp
  then show "copy_measure job s' < copy_measure job s" using w by (simp add: copy_measure_def)
qed

lemma toggle_progress:
  assumes live: "copy_live psize job s" and held: "\<not> cr_held s" and awake: "\<not> cr_masleep s"
    and p: "cr_main s = M_toggle st k \<or> cr_main s = M_retest st k"
  shows "copy_live psize job (toggle_wait st k s)" "copy_measure job (toggle_wait st k s) < copy_measure job s"
proof -
  have ok: "control_ok psize s" "data_ok job s" "sleep_ok s" "after_walk (cr_main s) \<longrightarrow> cr_rc s = cj_rc job"
    using live by (simp_all add: copy_live_def)
  note kept = control_ok_toggle(1) [OF ok(1) held p] data_ok_toggle [OF ok(1) held ok(2) p]
  have k: "st = - 1 \<and> k = M_finish \<or> st = 1 \<and> ((\<exists>is. k = M_walk is) \<or> (\<exists>i is. k = M_put i is) \<or> k = closing)"
    using ok p by (auto simp: control_ok_def split: main_pc.splits)
  have rc: "after_walk (M_retest st k) \<Longrightarrow> cr_rc s = cj_rc job" "after_walk k \<Longrightarrow> cr_rc s = cj_rc job"
    using ok(4) p k by auto
  have "sleep_ok (toggle_wait st k s) \<and> copy_measure job (toggle_wait st k s) < copy_measure job s"
  proof (cases "mc_new s = 1")
    case True
    then have "cr_main s = M_toggle st k" using p awake ok(3) by (auto simp: sleep_ok_def)
    then show ?thesis using True awake ok(3) by (cases "cr_writer s") (simp_all add: toggle_wait_def sleep_ok_def copy_measure_def)
  next
    case False
    have "\<not> retesting k" "st \<noteq> 0" using k by (auto simp: closing_def)
    moreover have "10 * stage job k + 10 \<le> 10 * stage job (cr_main s)" using p by auto
    ultimately show ?thesis
      using False awake control_ok_toggle(2) [OF ok(1) held p False] by (simp add: toggle_wait_def sleep_ok_def copy_measure_def)
  qed
  moreover have "after_walk (cr_main (toggle_wait st k s)) \<longrightarrow> cr_rc (toggle_wait st k s) = cj_rc job"
    using rc by (simp add: toggle_wait_def)
  ultimately show "copy_live psize job (toggle_wait st k s)" "copy_measure job (toggle_wait st k s) < copy_measure job s"
    using kept by (simp_all add: copy_live_def)
qed

lemma main_progress:
  assumes live: "copy_live psize job s" and step: "main_step job s = Some s'" and job: "job_ok psize job"
  shows "copy_live psize job s' \<and> copy_measure job s' < copy_measure job s"
proof -
  have ok: "control_ok psize s" "data_ok job s" "sleep_ok s" "after_walk (cr_main s) \<longrightarrow> cr_rc s = cj_rc job" "mc_status s = 0" "writer_ok s"
    using live by (simp_all add: copy_live_def control_ok_def)
  note kept = control_ok_main [OF ok(1) step job] data_ok_main [OF ok(1,2) step job]
  have other: ?thesis
    if "sleep_ok s'" "after_walk (cr_main s') \<longrightarrow> cr_rc s' = cj_rc job" "copy_measure job s' < copy_measure job s"
    using kept that by (simp add: copy_live_def)
  show ?thesis
  proof (cases "cr_main s")
    case M_begin
    then have "s' = s\<lparr>mc_wbuf := (mc_wbuf s)(False := cj_meta job),
                       mc_wlen := (mc_wlen s)(False := length (cj_meta job)), cr_main := M_handshake\<rparr>"
      using step job by (simp add: job_ok_def)
    then show ?thesis using M_begin ok(3) by (intro other) (simp_all add: sleep_ok_def copy_measure_def)
  next
    case M_handshake
    show ?thesis
    proof (cases "mc_new s = 0")
      case True
      then have "s' = s\<lparr>cr_main := M_walk (cj_items job)\<rparr>" "\<not> cr_masleep s" using step M_handshake by (simp_all split: if_splits)
      then show ?thesis using M_handshake ok(3) by (intro other) (simp_all add: sleep_ok_def copy_measure_def)
    next
      case False
      then have f: "s' = s\<lparr>cr_masleep := True\<rparr>" "\<not> cr_masleep s" using step M_handshake by (simp_all split: if_splits)
      have "cr_writer s = W_start" using False ok(6) M_handshake by (cases "cr_writer s") (simp_all add: writer_ok_def split: if_splits)
      then show ?thesis using M_handshake ok(3) f by (intro other) (simp_all add: sleep_ok_def copy_measure_def)
    qed
  next
    case (M_walk xs)
    have awake: "\<not> cr_masleep s" using ok(3) M_walk by (simp add: sleep_ok_def)
    show ?thesis
    proof (cases xs)
      case Nil
      define k where "k = (if cj_rc job = 0 \<and> mc_wlen s (mc_toggle s) \<noteq> 0 then M_toggle 1 closing else closing)"
      have "s' = s\<lparr>cr_rc := cj_rc job, cr_main := k\<rparr>" using step M_walk Nil by (simp add: k_def)
      moreover have "\<not> retesting k" "stage job k \<le> 6" by (simp_all add: k_def closing_def)
      ultimately show ?thesis using M_walk Nil awake ok(3) by (intro other) (simp_all add: sleep_ok_def copy_measure_def)
    next
      case (Cons i ys)
      define k where "k = (if MDB_WBUF \<le> mc_wlen s (mc_toggle s) then M_toggle 1 (M_put i ys) else M_put i ys)"
      have "s' = s\<lparr>cr_main := k\<rparr>" using step M_walk Cons by (simp add: k_def)
      moreover have "\<not> retesting k" "stage job k \<le> 6 * length ys + 12" "\<not> after_walk k" by (simp_all add: k_def closing_def)
      ultimately show ?thesis using M_walk Cons awake ok(3) by (intro other) (simp_all add: sleep_ok_def copy_measure_def)
    qed
  next
    case (M_put i xs)
    have awake: "\<not> cr_masleep s" using ok(3) M_put by (simp add: sleep_ok_def)
    have s': "s' = copy_put i (M_walk xs) s" using step M_put by simp
    then have same: "cr_writer s' = cr_writer s" "mc_new s' = mc_new s" "cr_wasleep s' = cr_wasleep s" "cr_masleep s' = cr_masleep s"
      "cr_file s' = cr_file s" "cr_main s' = M_walk xs \<or> cr_main s' = M_toggle 1 (M_walk xs)"
      by (simp_all add: copy_put_def Let_def)
    have "writer_stage s' = writer_stage s"
      using ok(6) M_put by (cases "cr_writer s"; cases "ci_tail i = []") (auto simp: s' copy_put_def Let_def writer_ok_def)
    then show ?thesis using M_put awake ok(3) same
      by (intro other) (auto simp: sleep_ok_def copy_measure_def closing_def)
  next
    case (M_toggle st k)
    then have "s' = toggle_wait st k s" "\<not> cr_held s" "\<not> cr_masleep s"
      using step ok(3,5) by (auto simp: mdb_env_cthr_toggle_def sleep_ok_def split: if_splits)
    then show ?thesis using toggle_progress [OF live, of st k] M_toggle by simp
  next
    case (M_retest st k)
    then have "s' = toggle_wait st k s" "\<not> cr_held s" "\<not> cr_masleep s" using step by (auto split: if_splits)
    then show ?thesis using toggle_progress [OF live, of st k] M_retest by simp
  next
    case M_finish
    show ?thesis
    proof (cases "mc_new s = 0")
      case True
      then have "s' = s\<lparr>cr_main := M_join\<rparr>" "\<not> cr_masleep s" using step M_finish by (simp_all split: if_splits)
      then show ?thesis using M_finish ok(3,4) by (intro other) (simp_all add: sleep_ok_def copy_measure_def)
    next
      case False
      then have f: "s' = s\<lparr>cr_masleep := True\<rparr>" "\<not> cr_masleep s" using step M_finish by (simp_all split: if_splits)
      have "mc_new s = - 1" using False ok(6) M_finish by (cases "cr_writer s") (simp_all add: writer_ok_def split: if_splits)
      then show ?thesis using M_finish ok(3,4) f by (intro other) (simp_all add: sleep_ok_def copy_measure_def)
    qed
  next
    case M_join
    then have "s' = s\<lparr>cr_main := M_done\<rparr>" "\<not> cr_masleep s" using step ok(3) by (auto simp: sleep_ok_def split: if_splits)
    then show ?thesis using M_join ok(3,4) by (intro other) (simp_all add: sleep_ok_def copy_measure_def)
  next
    case M_done
    then show ?thesis using step by simp
  qed
qed

text \<open>One of the threads can move, without a failure or a stray wake-up.\<close>

lemma copy_can_move:
  assumes live: "copy_live psize job s" and main: "cr_main s \<noteq> M_done"
  shows "\<exists>e. smooth e \<and> copy_step job e s \<noteq> None"
proof -
  have ok: "sleep_ok s" "writer_ok s" "cr_held s = writer_holds (cr_writer s)" "place_ok psize (cr_main s)"
    using live by (simp_all add: copy_live_def control_ok_def)
  have moves: ?thesis if "writer_step s \<noteq> None" using that by (intro exI [of _ Writer]) (simp add: smooth_def del: writer_step.simps)
  have mains: ?thesis if "main_step job s \<noteq> None" using that by (intro exI [of _ Main]) (simp add: smooth_def del: main_step.simps)
  have main_moves: "main_step job s \<noteq> None" if "\<not> cr_held s" "\<not> cr_masleep s" "cr_main s = M_join \<longrightarrow> cr_writer s = W_gone"
  proof (cases "cr_main s")
    case (M_walk xs)
    then show ?thesis by (cases xs) simp_all
  next
    case M_done
    then show ?thesis using main by simp
  qed (use that in \<open>simp_all\<close>)
  show ?thesis
  proof (cases "cr_writer s")
    case W_start
    then show ?thesis using ok by (intro moves) simp
  next
    case W_loop
    then show ?thesis by (intro moves) simp
  next
    case (W_write ptr wsize)
    show ?thesis
    proof (cases "wsize > 0")
      case True
      then show ?thesis using W_write by (intro exI [of _ "Wrote (nat wsize)"]) (simp add: smooth_def)
    next
      case False
      then show ?thesis using W_write by (intro moves) (simp add: Let_def)
    qed
  next
    case W_exit
    then show ?thesis by (intro moves) simp
  next
    case W_gone
    then have "\<not> cr_masleep s" using ok(1,2) by (cases "cr_main s") (simp_all add: sleep_ok_def writer_ok_def)
    then show ?thesis using W_gone ok(3) by (intro mains main_moves) simp_all
  next
    case W_wait
    show ?thesis
    proof (cases "cr_wasleep s")
      case True
      then have "mc_new s = 0" using ok(1) by (simp add: sleep_ok_def)
      then have "\<not> cr_masleep s" "\<not> ending (cr_main s)"
        using ok(1,2) W_wait by (cases "cr_main s"; simp add: sleep_ok_def writer_ok_def)+
      then show ?thesis using W_wait ok(3) by (intro mains main_moves) auto
    next
      case False
      then show ?thesis using W_wait ok(3) by (intro moves) simp
    qed
  qed
qed

lemma copy_live_start: "copy_live psize job copy_start"
proof -
  have "sleep_ok copy_start" by (simp add: sleep_ok_def copy_start_def)
  moreover have "control_ok psize copy_start \<and> data_ok job copy_start"
    using copy_inv_start [of psize job] by (simp add: copy_inv_def copy_failed_def copy_start_def)
  ultimately show ?thesis by (simp add: copy_live_def copy_start_def)
qed

lemma copy_live_events:
  "copy_events job es s = Some s' \<Longrightarrow> copy_live psize job s \<Longrightarrow> job_ok psize job \<Longrightarrow> list_all smooth es \<Longrightarrow>
    copy_live psize job s' \<and> length es + copy_measure job s' \<le> copy_measure job s"
proof (induction es arbitrary: s)
  case (Cons e es)
  then obtain s1 where s1: "copy_step job e s = Some s1" "copy_events job es s1 = Some s'" by (auto split: option.splits)
  have "copy_live psize job s1 \<and> copy_measure job s1 < copy_measure job s"
  proof (cases e)
    case Main
    then show ?thesis using main_progress [OF Cons.prems(2) _ Cons.prems(3)] s1(1) by (simp del: main_step.simps)
  next
    case Writer
    then show ?thesis using writer_progress [OF Cons.prems(2)] s1(1) by (simp del: writer_step.simps)
  next
    case (Wrote n)
    then show ?thesis using wrote_progress [OF Cons.prems(2)] s1(1) by (simp del: writer_wrote.simps)
  qed (use Cons.prems(4) in \<open>simp_all add: smooth_def\<close>)
  then show ?case using Cons.IH [OF s1(2)] Cons.prems by auto
qed simp

lemma copy_live_done:
  assumes "copy_live psize job s" "cr_main s = M_done"
  shows "cr_rc s = cj_rc job" "cr_rc s = 0 \<Longrightarrow> cr_file s = copy_image job"
proof -
  have ok: "data_ok job s" "writer_ok s" "after_walk (cr_main s) \<longrightarrow> cr_rc s = cj_rc job"
    using assms(1) by (simp_all add: copy_live_def control_ok_def)
  show "cr_rc s = cj_rc job" using ok(3) assms(2) by simp
  have "writer_bytes s = []" using ok(2) assms(2) by (cases "cr_writer s") (simp_all add: writer_ok_def writer_bytes_def split: if_splits)
  then show "cr_file s = copy_image job" if "cr_rc s = 0" using ok(1) that assms(2) by (simp add: data_ok_def main_bytes_def)
qed

section \<open>A failed write\<close>

text \<open>
  The writer thread has ended, or is about to, and the main thread hands over a buffer that
  nobody will take: it will wait for \<open>mc_new\<close> to become 0 for ever.
\<close>

definition doomed :: "nat \<Rightarrow> copy_run \<Rightarrow> bool" where
  "doomed psize s \<longleftrightarrow> mc_status s \<noteq> 0 \<and> place_ok psize (cr_main s) \<and>
     (cr_writer s = W_exit \<and> cr_held s \<and> retesting (cr_main s) \<and> mc_new s \<noteq> 1 \<or>
      cr_writer s = W_gone \<and> \<not> cr_held s \<and>
        (retesting (cr_main s) \<and> mc_new s \<noteq> 1 \<or>
         mc_new s \<noteq> 0 \<and> \<not> starting (cr_main s) \<and> cr_main s \<noteq> M_join \<and> cr_main s \<noteq> M_done))"

lemma doomed_main:
  assumes doomed: "doomed psize s" and step: "main_step job s = Some s'"
  shows "doomed psize s'"
proof -
  note keeps = main_keeps [OF step]
  have d: "mc_status s \<noteq> 0" "place_ok psize (cr_main s)" "cr_writer s = W_exit \<or> cr_writer s = W_gone"
    "\<not> starting (cr_main s)" "cr_main s \<noteq> M_join" "cr_main s \<noteq> M_done"
    using doomed by (cases "cr_main s"; simp add: doomed_def; blast)+
  show ?thesis
  proof (cases "cr_main s")
    case (M_retest st k)
    then have s': "s' = toggle_wait st k s" "\<not> cr_held s" using step by (simp_all split: if_splits)
    have "st \<noteq> 0" "place_ok psize k" "\<not> starting k" "k \<noteq> M_join" "k \<noteq> M_done"
      using d(2) M_retest by (auto simp: closing_def split: main_pc.splits)
    then show ?thesis using doomed s' M_retest by (auto simp: doomed_def toggle_wait_def)
  next
    case (M_toggle st k)
    then have s': "s' = (if st < 0 then s\<lparr>cr_main := k\<rparr> else s\<lparr>cr_rc := mc_status s, cr_main := closing\<rparr>)"
      using step d(1) by (simp add: mdb_env_cthr_toggle_def split: if_splits)
    have "st < 0 \<Longrightarrow> k = M_finish" using d(2) M_toggle by (auto split: main_pc.splits)
    then show ?thesis using doomed s' M_toggle by (auto simp: doomed_def)
  next
    case (M_walk xs)
    then have gone: "cr_writer s = W_gone" "\<not> cr_held s" "mc_new s \<noteq> 0" using doomed by (simp_all add: doomed_def)
    obtain rc k where k: "s' = s\<lparr>cr_rc := rc, cr_main := k\<rparr>" "place_ok psize k" "\<not> starting k" "k \<noteq> M_join" "k \<noteq> M_done"
    proof (cases xs)
      case Nil
      then show thesis using step M_walk that [of "if cj_rc job = 0 \<and> mc_wlen s (mc_toggle s) \<noteq> 0 then M_toggle 1 closing else closing" "cj_rc job"]
        by (simp add: closing_def)
    next
      case (Cons i ys)
      then show thesis using step M_walk d(2) that [of "if MDB_WBUF \<le> mc_wlen s (mc_toggle s) then M_toggle 1 (M_put i ys) else M_put i ys" "cr_rc s"]
        by simp
    qed
    show ?thesis unfolding k(1) doomed_def using d(1) gone k(2-5) by simp
  next
    case (M_put i xs)
    then have "s' = copy_put i (M_walk xs) s" using step by simp
    then show ?thesis using doomed M_put by (auto simp: doomed_def copy_put_def Let_def)
  next
    case M_finish
    then have "mc_new s \<noteq> 0" using doomed by (simp add: doomed_def)
    then have "s' = s\<lparr>cr_masleep := True\<rparr>" using step M_finish by (simp split: if_splits)
    then show ?thesis using doomed by (simp add: doomed_def)
  qed (use d in simp_all)
qed

lemma doomed_step:
  assumes doomed: "doomed psize s" and step: "copy_step job e s = Some s'"
  shows "doomed psize s'"
proof -
  have w: "cr_writer s = W_exit \<or> cr_writer s = W_gone" using doomed by (auto simp: doomed_def)
  show ?thesis
  proof (cases e)
    case Main
    then have "main_step job s = Some s'" using step by (simp only: copy_step.simps)
    then show ?thesis by (rule doomed_main [OF doomed])
  next
    case Writer
    then have s': "s' = s\<lparr>cr_masleep := False, cr_held := False, cr_writer := W_gone\<rparr>" "cr_writer s = W_exit" using step w by auto
    show ?thesis using doomed s' by (simp add: doomed_def)
  next
    case Wakes_main
    then show ?thesis using step doomed by (auto simp: doomed_def split: if_splits)
  next
    case Wakes_writer
    then show ?thesis using step doomed by (auto simp: doomed_def split: if_splits)
  qed (use step w in auto)
qed

lemma doomed_reach: "copy_reach job s s' \<Longrightarrow> doomed psize s \<Longrightarrow> doomed psize s'"
  by (induction rule: copy_reach.induct) (auto intro: doomed_step)

text \<open>A waiting main thread puts its page behind the end of the buffer that was not written.\<close>

lemma retest_after_failure:
  assumes "cr_main s = M_retest 1 (M_put i xs)" "cr_writer s = W_write ptr wsize" "0 < wsize" "rc \<noteq> 0" "mc_new s = 0"
  shows "copy_events job [Fails rc, Writer, Main, Main] s =
    Some (copy_put i (M_walk xs) (s\<lparr>mc_status := rc, cr_masleep := False, cr_held := False, cr_writer := W_gone,
      mc_new := 1, mc_toggle := \<not> mc_toggle s, cr_wasleep := False, cr_main := M_put i xs\<rparr>))"
  using assms by (simp add: toggle_wait_def)

section \<open>Properties\<close>

text \<open>
  C4: The two threads of a compacting copy work together: whatever the interleaving, the lengths
  of the writes and stray wake-ups of the condition variable, the file always holds a
  beginning of the two meta pages followed by the pages of the walk with their overflow tails,
  in order, even after a failed write. As long as no write has failed no buffer is filled
  beyond its end and the buffer being filled is not the one being written; and when the copy
  then returns success, the file is complete.
\<close>

theorem compact_copy_in_order:
  assumes "job_ok psize job" "copy_reach job copy_start s"
  shows "prefix (cr_file s) (copy_image job) \<and>
    (mc_status s = 0 \<longrightarrow> (\<forall>t. mc_wlen s t \<le> MDB_WBUF) \<and>
      (\<forall>ptr wsize. cr_writer s = W_write ptr wsize \<longrightarrow> mc_toggle s \<noteq> cr_wtoggle s)) \<and>
    (mc_status s = 0 \<and> cr_main s = M_done \<and> cr_rc s = 0 \<longrightarrow> cr_file s = copy_image job)"
proof -
  have "copy_inv psize job s" by (rule copy_inv_reach [OF assms(2) copy_inv_start assms(1)])
  then consider (ok) "control_ok psize s" "data_ok job s" | (failed) "copy_failed job s" by (auto simp: copy_inv_def)
  then show ?thesis
  proof cases
    case ok
    have w: "writer_ok s" "\<forall>t. mc_wlen s t \<le> MDB_WBUF" using ok(1) by (simp_all add: control_ok_def buffer_ok_def)
    have "prefix (cr_file s) (copy_image job)" using ok(2) unfolding data_ok_def prefix_def by metis
    moreover have "cr_writer s = W_write ptr wsize \<longrightarrow> mc_toggle s \<noteq> cr_wtoggle s" for ptr wsize
      using w(1) by (auto simp: writer_ok_def)
    moreover have "cr_file s = copy_image job" if "cr_main s = M_done" "cr_rc s = 0"
    proof -
      have "writer_bytes s = []" using w(1) that by (cases "cr_writer s") (simp_all add: writer_ok_def writer_bytes_def split: if_splits)
      then show ?thesis using ok(2) that by (simp add: data_ok_def main_bytes_def)
    qed
    ultimately show ?thesis using w(2) by simp
  qed (simp add: copy_failed_def)
qed

text \<open>For the witnesses: a page with a tail and a page without, and a run to the end.\<close>

definition copy_job0 :: copy_job where
  "copy_job0 = \<lparr>cj_begin = 0, cj_meta = [1, 2],
     cj_items = [\<lparr>ci_page = [3], ci_tail = [4, 5]\<rparr>, \<lparr>ci_page = [6], ci_tail = []\<rparr>], cj_rc = 0\<rparr>"

lemma copy_job0: "job_ok 1 copy_job0" "copy_image copy_job0 = [1, 2, 3, 4, 5, 6]"
  by (simp_all add: copy_job0_def job_ok_def item_ok_def copy_image_def MDB_WBUF_def)

definition copy_events0 :: "copy_event list" where
  "copy_events0 =
     [Main, Writer, Writer, Main, Main, Main, Main, Writer, Writer, Wrote 3, Writer, Wrote 2, Writer, Writer,
      Main, Main, Main, Main, Writer, Writer]"

text \<open>The last page is about to be written.\<close>

lemma copy_last0: "\<exists>s. copy_events copy_job0 copy_events0 copy_start = Some s \<and> cr_writer s = W_write [6] 1 \<and>
    cr_main s = closing \<and> mc_status s = 0 \<and> mc_new s = 0 \<and> cr_held s \<and> \<not> cr_masleep s \<and> \<not> cr_wasleep s \<and>
    mc_olen s = (\<lambda>_. 0) \<and> cr_rc s = 0 \<and> cr_file s = [1, 2, 3, 4, 5]"
  by (simp add: copy_events0_def copy_job0_def copy_start_def copy_put_def MDB_WBUF_def olen_of_id mdb_env_cthr_toggle_def
      toggle_wait_def fun_eq_iff)


theorem compact_copy_witness: "\<exists>s. copy_reach copy_job0 copy_start s \<and> cr_main s = M_done \<and> cr_file s = [1, 2, 3, 4, 5, 6]"
proof -
  obtain s where s: "copy_events copy_job0 copy_events0 copy_start = Some s" "cr_writer s = W_write [6] 1" "cr_main s = closing"
      "mc_status s = 0" "mc_new s = 0" "cr_held s" "\<not> cr_masleep s" "\<not> cr_wasleep s" "mc_olen s = (\<lambda>_. 0)" "cr_rc s = 0"
    using copy_last0 by blast
  have "\<exists>s'. copy_events copy_job0 [Wrote 1, Writer, Writer, Main, Writer, Writer, Writer, Main, Main] s = Some s' \<and>
      cr_main s' = M_done \<and> mc_status s' = 0 \<and> cr_rc s' = 0"
    using s(2-10) by (simp add: closing_def mdb_env_cthr_toggle_def toggle_wait_def Let_def)
  then obtain s' where s': "copy_events copy_job0 [Wrote 1, Writer, Writer, Main, Writer, Writer, Writer, Main, Main] s = Some s'"
      "cr_main s' = M_done" "mc_status s' = 0" "cr_rc s' = 0" by blast
  have r: "copy_reach copy_job0 copy_start s'"
    by (rule copy_events_reach [OF copy_events_reach [OF copy_reach.refl s(1)] s'(1)])
  from compact_copy_in_order [OF copy_job0(1) this] s'(2-4) copy_job0(2) r show ?thesis by auto
qed

text \<open>
  C5: A compacting copy returns: without a failed write every run of the two threads, in whatever
  interleaving and with writes of whatever length, has at most a number of steps that is
  linear in the pages and bytes to copy, neither thread waits for ever, and at the end the
  copy returns the result of the walk, with the complete file when that is success.
\<close>

theorem compact_copy_completes:
  assumes "job_ok psize job" "copy_events job es copy_start = Some s" "list_all smooth es"
  shows "length es \<le> 60 * length (cj_items job) + length (copy_image job) + 94 \<and>
    (if cr_main s = M_done then cr_rc s = cj_rc job \<and> (cr_rc s = 0 \<longrightarrow> cr_file s = copy_image job)
     else \<exists>e. smooth e \<and> copy_step job e s \<noteq> None)"
proof -
  have live: "copy_live psize job s" "length es \<le> copy_measure job copy_start"
    using copy_live_events [OF assms(2) copy_live_start assms(1,3)] by simp_all
  have "copy_measure job copy_start = 60 * length (cj_items job) + length (copy_image job) + 94"
    by (simp add: copy_measure_def copy_start_def)
  then show ?thesis using live copy_live_done [OF live(1)] copy_can_move [OF live(1)] by simp
qed

theorem compact_copy_completes_witness:
  "\<exists>s. copy_events copy_job0 copy_events0 copy_start = Some s \<and> (\<exists>e. smooth e \<and> copy_step copy_job0 e s \<noteq> None)"
proof -
  obtain s where s: "copy_events copy_job0 copy_events0 copy_start = Some s" "cr_main s = closing" using copy_last0 by blast
  have "list_all smooth copy_events0" by (simp add: copy_events0_def smooth_def)
  from compact_copy_completes [OF copy_job0(1) s(1) this] s show ?thesis by auto
qed

text \<open>
  C6: A failed write can hang the copy for ever: when the main thread is waiting in
  \<open>mdb_env_cthr_toggle\<close> while the write fails, it hands the next buffer over without looking at
  \<open>mc_status\<close> again; the writer thread has ended, so \<open>mc_new\<close> never becomes 0, and
  \<open>mdb_env_copyfd1\<close> waits for that: from no state that can follow does it return.
\<close>

theorem failed_write_hangs:
  assumes "job_ok psize job" "copy_reach job copy_start s"
    and "cr_main s = M_retest st k" "cr_writer s = W_write ptr wsize" "0 < wsize" "rc \<noteq> 0"
  shows "\<exists>s1. copy_step job (Fails rc) s = Some s1 \<and> \<not> (\<exists>s2. copy_reach job s1 s2 \<and> cr_main s2 = M_done)"
proof -
  have "copy_inv psize job s" by (rule copy_inv_reach [OF assms(2) copy_inv_start assms(1)])
  then have ok: "control_ok psize s" using assms(4) by (auto simp: copy_inv_def copy_failed_def)
  define s1 where "s1 = s\<lparr>mc_status := rc, cr_writer := W_exit\<rparr>"
  have "doomed psize s1"
    using ok assms(3,4,6) by (simp add: doomed_def s1_def control_ok_def writer_ok_def)
  then have "doomed psize s2" if "copy_reach job s1 s2" for s2 using doomed_reach that by blast
  then have "cr_main s2 \<noteq> M_done" if "copy_reach job s1 s2" for s2
    using that by (fastforce simp: doomed_def)
  moreover have "copy_step job (Fails rc) s = Some s1" using assms(4-6) by (simp add: s1_def)
  ultimately show ?thesis by blast
qed

text \<open>For the witness: two overflow pages, the second filled in before the first is taken.\<close>

definition copy_job1 :: copy_job where
  "copy_job1 = \<lparr>cj_begin = 0, cj_meta = [1, 2],
     cj_items = [\<lparr>ci_page = [3], ci_tail = [4]\<rparr>, \<lparr>ci_page = [5], ci_tail = [6]\<rparr>], cj_rc = 0\<rparr>"

theorem failed_write_hangs_witness:
  "\<exists>s. copy_reach copy_job1 copy_start s \<and> mc_status s = 5 \<and> \<not> (\<exists>s2. copy_reach copy_job1 s s2 \<and> cr_main s2 = M_done)"
proof -
  have ok: "job_ok 1 copy_job1" by (simp add: copy_job1_def job_ok_def item_ok_def MDB_WBUF_def)
  have "\<exists>s. copy_events copy_job1 [Main, Writer, Writer, Main, Main, Main, Main, Main, Main, Main, Writer, Writer] copy_start = Some s \<and>
      cr_main s = M_retest 1 (M_walk []) \<and> cr_writer s = W_write [1, 2, 3] 3"
    by (simp add: copy_job1_def copy_start_def copy_put_def MDB_WBUF_def olen_of_id mdb_env_cthr_toggle_def toggle_wait_def)
  then obtain s where s: "copy_reach copy_job1 copy_start s" "cr_main s = M_retest 1 (M_walk [])" "cr_writer s = W_write [1, 2, 3] 3"
    using copy_events_reach [OF copy_reach.refl] by blast
  from failed_write_hangs [OF ok s, of 5] obtain s1 where s1: "copy_step copy_job1 (Fails 5) s = Some s1"
    "\<not> (\<exists>s2. copy_reach copy_job1 s1 s2 \<and> cr_main s2 = M_done)" by auto
  moreover have "copy_reach copy_job1 copy_start s1" by (rule copy_reach.step [OF s(1) s1(1)])
  moreover have "mc_status s1 = 5" using s1(1) s(3) by auto
  ultimately show ?thesis by blast
qed

text \<open>
  C24: A failed write can also be lost: when it hits the last buffer, the copy returns success
  although the file lacks its last page. \<open>mdb_env_copyfd1\<close> does not use the result of the last
  \<open>mdb_env_cthr_toggle\<close> nor \<open>mc_status\<close>.
\<close>

theorem failed_write_lost:
  "\<exists>s. copy_reach copy_job0 copy_start s \<and> cr_main s = M_done \<and> cr_rc s = 0 \<and> mc_status s = 28 \<and>
    cr_file s = butlast (copy_image copy_job0)"
proof -
  obtain s where s: "copy_events copy_job0 copy_events0 copy_start = Some s" "cr_writer s = W_write [6] 1" "cr_main s = closing"
      "mc_new s = 0" "cr_held s" "\<not> cr_masleep s" "\<not> cr_wasleep s" "cr_rc s = 0" "cr_file s = [1, 2, 3, 4, 5]"
    using copy_last0 by blast
  have "\<exists>s'. copy_events copy_job0 [Fails 28, Writer, Main, Main, Main] s = Some s' \<and>
      cr_main s' = M_done \<and> mc_status s' = 28 \<and> cr_rc s' = 0 \<and> cr_file s' = [1, 2, 3, 4, 5]"
    using s(2-9) by (simp add: closing_def mdb_env_cthr_toggle_def toggle_wait_def)
  then obtain s' where s': "copy_events copy_job0 [Fails 28, Writer, Main, Main, Main] s = Some s'"
      "cr_main s' = M_done" "mc_status s' = 28" "cr_rc s' = 0" "cr_file s' = [1, 2, 3, 4, 5]" by blast
  have "copy_reach copy_job0 copy_start s'"
    by (rule copy_events_reach [OF copy_events_reach [OF copy_reach.refl s(1)] s'(1)])
  then show ?thesis using s'(2-5) copy_job0(2) by auto
qed

text \<open>
  C23: A failed write can damage memory: the buffer that was not written keeps its length, and a
  main thread that was waiting with a page for it puts the page behind its end. When that is
  the second buffer, the page is written behind the allocation.
\<close>

theorem failed_write_overruns:
  assumes "job_ok psize job" "copy_reach job copy_start s"
    and "cr_main s = M_retest 1 (M_put i is)" "cr_writer s = W_write ptr wsize" "0 < wsize" "rc \<noteq> 0"
    and "mc_wlen s (cr_wtoggle s) = MDB_WBUF"
  shows "\<exists>s1. copy_events job [Fails rc, Writer, Main, Main] s = Some s1 \<and>
    mc_toggle s1 = cr_wtoggle s \<and> mc_wlen s1 (cr_wtoggle s) = MDB_WBUF + psize"
proof -
  have "copy_inv psize job s" by (rule copy_inv_reach [OF assms(2) copy_inv_start assms(1)])
  then have "control_ok psize s" using assms(4) by (auto simp: copy_inv_def copy_failed_def)
  then have "mc_new s = 0" "mc_toggle s = (\<not> cr_wtoggle s)" "length (ci_page i) = psize"
    using assms(3,4) by (simp_all add: control_ok_def writer_ok_def item_ok_def)
  then show ?thesis
    using retest_after_failure [OF assms(3-6)] assms(7) by (simp add: copy_put_def Let_def)
qed

text \<open>For the witness: pages without tails that fill both buffers, and one more.\<close>

definition plain_page :: copy_item where
  "plain_page = \<lparr>ci_page = replicate 65536 0, ci_tail = []\<rparr>"

definition copy_job2 :: copy_job where
  "copy_job2 = \<lparr>cj_begin = 0, cj_meta = replicate 131072 0, cj_items = replicate 31 plain_page, cj_rc = 0\<rparr>"

text \<open>Putting \<open>n\<close> of them into a buffer with room.\<close>

lemma fill_buffer:
  assumes "cr_main s = M_walk (replicate n plain_page @ xs)" "mc_wlen s (mc_toggle s) + n * 65536 \<le> MDB_WBUF"
  shows "\<exists>s'. copy_reach copy_job2 s s' \<and> cr_main s' = M_walk xs \<and>
    mc_wlen s' = (mc_wlen s)(mc_toggle s := mc_wlen s (mc_toggle s) + n * 65536) \<and>
    mc_wbuf s' (\<not> mc_toggle s) = mc_wbuf s (\<not> mc_toggle s) \<and>
    mc_olen s' = mc_olen s \<and> mc_status s' = mc_status s \<and> mc_new s' = mc_new s \<and> mc_toggle s' = mc_toggle s \<and>
    cr_held s' = cr_held s \<and> cr_writer s' = cr_writer s \<and> cr_wtoggle s' = cr_wtoggle s \<and>
    cr_wasleep s' = cr_wasleep s \<and> cr_masleep s' = cr_masleep s"
  using assms
proof (induction n arbitrary: s)
  case 0
  then show ?case by (intro exI [of _ s]) (simp add: copy_reach.refl)
next
  case (Suc n)
  define t where "t = mc_toggle s"
  define s1 where "s1 = copy_put plain_page (M_walk (replicate n plain_page @ xs)) (s\<lparr>cr_main := M_put plain_page (replicate n plain_page @ xs)\<rparr>)"
  have "mc_wlen s t < MDB_WBUF" using Suc.prems(2) by (simp add: t_def)
  then have "copy_events copy_job2 [Main, Main] s = Some s1" using Suc.prems(1) by (simp add: s1_def t_def)
  then have r: "copy_reach copy_job2 s s1" by (rule copy_events_reach [OF copy_reach.refl])
  have s1: "mc_wlen s1 = (mc_wlen s)(t := mc_wlen s t + 65536)" "mc_toggle s1 = t" "cr_main s1 = M_walk (replicate n plain_page @ xs)"
    "mc_wbuf s1 (\<not> t) = mc_wbuf s (\<not> t)"
    "mc_olen s1 = mc_olen s \<and> mc_status s1 = mc_status s \<and> mc_new s1 = mc_new s \<and>
     cr_held s1 = cr_held s \<and> cr_writer s1 = cr_writer s \<and> cr_wtoggle s1 = cr_wtoggle s \<and>
     cr_wasleep s1 = cr_wasleep s \<and> cr_masleep s1 = cr_masleep s"
    by (simp_all add: s1_def copy_put_def Let_def t_def plain_page_def)
  have "mc_wlen s1 (mc_toggle s1) + n * 65536 \<le> MDB_WBUF" using Suc.prems(2) by (simp add: s1 t_def)
  from Suc.IH [OF s1(3) this] obtain s' where s': "copy_reach copy_job2 s1 s'" "cr_main s' = M_walk xs"
    "mc_wlen s' = (mc_wlen s1)(t := mc_wlen s1 t + n * 65536)" "mc_wbuf s' (\<not> t) = mc_wbuf s1 (\<not> t)" "mc_toggle s' = t"
    "mc_olen s' = mc_olen s1 \<and> mc_status s' = mc_status s1 \<and> mc_new s' = mc_new s1 \<and>
     cr_held s' = cr_held s1 \<and> cr_writer s' = cr_writer s1 \<and> cr_wtoggle s' = cr_wtoggle s1 \<and>
     cr_wasleep s' = cr_wasleep s1 \<and> cr_masleep s' = cr_masleep s1"
    unfolding s1(2) by blast
  have "copy_reach copy_job2 s s'" using s'(1) r by (induction rule: copy_reach.induct) (auto intro: copy_reach.step)
  then show ?case using s'(2-6) s1 by (intro exI [of _ s']) (simp add: fun_eq_iff t_def)
qed

lemma copy_job2:
  "cj_begin copy_job2 = 0" "length (cj_meta copy_job2) = 131072" "cj_items copy_job2 = replicate (14 + 17) plain_page"
  unfolding copy_job2_def by simp_all

lemma copy_reach_events: "copy_reach job s0 s \<Longrightarrow> \<exists>s'. copy_events job es s = Some s' \<and> P s' \<Longrightarrow> \<exists>s'. copy_reach job s0 s' \<and> P s'"
  using copy_events_reach by blast

lemma copy_reach_trans: "copy_reach job s1 s2 \<Longrightarrow> copy_reach job s0 s1 \<Longrightarrow> copy_reach job s0 s2"
  by (induction rule: copy_reach.induct) (auto intro: copy_reach.step)

lemma plain_page: "ci_tail plain_page = []" "length (ci_page plain_page) = 65536"
  unfolding plain_page_def by simp_all

text \<open>No write has begun, \<open>n\<close> pages are still to come.\<close>

definition pages_left :: "copy_run \<Rightarrow> nat \<Rightarrow> bool" where
  "pages_left s n \<longleftrightarrow> cr_main s = M_walk (replicate n plain_page) \<and> mc_status s = 0 \<and> \<not> cr_held s \<and> cr_writer s = W_wait \<and>
     \<not> cr_wtoggle s \<and> \<not> cr_masleep s"

lemma fill_more:
  assumes "pages_left s (n + m)" "mc_wlen s (mc_toggle s) + n * 65536 \<le> MDB_WBUF"
  obtains s' where "copy_reach copy_job2 s s'" "pages_left s' m" "mc_new s' = mc_new s" "mc_toggle s' = mc_toggle s"
    "mc_wlen s' = (mc_wlen s)(mc_toggle s := mc_wlen s (mc_toggle s) + n * 65536)" "cr_wasleep s' = cr_wasleep s"
proof -
  have "cr_main s = M_walk (replicate n plain_page @ replicate m plain_page)" using assms(1) by (simp add: pages_left_def replicate_add)
  from fill_buffer [OF this assms(2)] show thesis using assms(1) that unfolding pages_left_def by metis
qed

theorem failed_write_overruns_witness:
  "\<exists>s. copy_reach copy_job2 copy_start s \<and> mc_wlen s False = MDB_WBUF + 65536"
proof -
  have ok: "job_ok 65536 copy_job2"
    by (simp add: job_ok_def copy_job2_def item_ok_def plain_page_def MDB_WBUF_def)
  have "\<exists>s. copy_events copy_job2 [Main, Writer, Writer, Main] copy_start = Some s \<and>
      pages_left s (14 + 17) \<and> mc_new s = 0 \<and> \<not> mc_toggle s \<and> mc_wlen s = (\<lambda>_. 0)(False := 131072)"
    using copy_job2 by (simp add: copy_start_def pages_left_def)
  from copy_reach_events [OF copy_reach.refl this] obtain s1 where s1: "copy_reach copy_job2 copy_start s1" "pages_left s1 (14 + 17)"
      "mc_new s1 = 0" "\<not> mc_toggle s1" "mc_wlen s1 = (\<lambda>_. 0)(False := 131072)"
    by blast
  have r1: "mc_wlen s1 (mc_toggle s1) + 14 * 65536 \<le> MDB_WBUF" using s1(4,5) by (simp add: MDB_WBUF_def)
  obtain s2 where s2: "copy_reach copy_job2 s1 s2" "pages_left s2 17" "mc_new s2 = 0" "\<not> mc_toggle s2" "mc_wlen s2 = (\<lambda>_. 0)(False := MDB_WBUF)"
    by (rule fill_more [OF s1(2) r1], rule that) (use s1(3-5) in \<open>simp_all add: MDB_WBUF_def fun_eq_iff\<close>)
  have "replicate 17 plain_page = plain_page # replicate 16 plain_page" using replicate_Suc [of 16 plain_page] by simp
  with s2(2-5) have "\<exists>s. copy_events copy_job2 [Main, Main, Main] s2 = Some s \<and>
      pages_left s (15 + 1) \<and> mc_new s = 1 \<and> mc_toggle s \<and> mc_wlen s = (\<lambda>_. 65536)(False := MDB_WBUF) \<and> \<not> cr_wasleep s"
    by (simp add: pages_left_def mdb_env_cthr_toggle_def toggle_wait_def copy_put_def Let_def plain_page fun_eq_iff)
  from copy_reach_events [OF copy_reach_trans [OF s2(1) s1(1)] this] obtain s3 where s3: "copy_reach copy_job2 copy_start s3" "pages_left s3 (15 + 1)" "mc_new s3 = 1" "mc_toggle s3"
      "mc_wlen s3 = (\<lambda>_. 65536)(False := MDB_WBUF)" "\<not> cr_wasleep s3"
    by blast
  have r3: "mc_wlen s3 (mc_toggle s3) + 15 * 65536 \<le> MDB_WBUF" using s3(4,5) by (simp add: MDB_WBUF_def)
  obtain s4 where s4: "copy_reach copy_job2 s3 s4" "pages_left s4 1" "mc_new s4 = 1" "mc_toggle s4" "mc_wlen s4 = (\<lambda>_. MDB_WBUF)" "\<not> cr_wasleep s4"
    by (rule fill_more [OF s3(2) r3], rule that) (use s3(3-6) in \<open>simp_all add: MDB_WBUF_def fun_eq_iff\<close>)
  have "\<exists>s. copy_events copy_job2 [Main, Main, Writer, Writer] s4 = Some s \<and>
      cr_main s = M_retest 1 (M_put plain_page []) \<and> (\<exists>ptr. cr_writer s = W_write ptr (int MDB_WBUF)) \<and>
      mc_wlen s = (\<lambda>_. MDB_WBUF) \<and> \<not> cr_wtoggle s"
    using s4(2-6) by (simp add: pages_left_def mdb_env_cthr_toggle_def toggle_wait_def)
  from copy_reach_events [OF copy_reach_trans [OF s4(1) s3(1)] this] obtain s5 ptr where s5: "copy_reach copy_job2 copy_start s5" "cr_main s5 = M_retest 1 (M_put plain_page [])"
      "cr_writer s5 = W_write ptr (int MDB_WBUF)" "mc_wlen s5 = (\<lambda>_. MDB_WBUF)" "\<not> cr_wtoggle s5"
    by blast
  have pos: "0 < int MDB_WBUF" by (simp add: MDB_WBUF_def)
  have "mc_wlen s5 (cr_wtoggle s5) = MDB_WBUF" using s5(4) by simp
  from failed_write_overruns [OF ok s5(1-3) pos, of 5, OF _ this] obtain s6
    where "copy_events copy_job2 [Fails 5, Writer, Main, Main] s5 = Some s6" "mc_wlen s6 False = MDB_WBUF + 65536"
    using s5(5) by auto
  then show ?thesis using copy_events_reach [OF s5(1)] by blast
qed

text \<open>When \<open>mdb_txn_begin\<close> fails, the copy returns while the writer thread uses its variables.\<close>

lemma begin_failure_leaves_thread:
  assumes "cj_begin job \<noteq> 0"
  shows "copy_events job [Main, Writer] copy_start =
    Some (copy_start\<lparr>cr_rc := cj_begin job, cr_main := M_done, cr_held := True, mc_new := 0, cr_writer := W_loop\<rparr>)"
  using assms by (simp add: copy_start_def)

text \<open>The tail of an overflow page is cut to 32 bits, so one of 2 GiB or more is left out.\<close>

lemma long_tail_left_out:
  assumes "2 ^ 31 \<le> n" "n < 2 ^ 32"
  shows "olen_of n < 0"
proof -
  have "n div 2 ^ 31 = 1" using assms by (intro div_nat_eqI) simp_all
  then have "bit n 31" by (simp add: bit_iff_odd)
  then have "bit (int n) 31" by (simp add: bit_of_nat_iff_bit)
  then show ?thesis by (simp add: olen_of_def signed_of_nat signed_take_bit_negative_iff)
qed

end
