(* ===== verification/Copy.thy ===== *)
theory Copy
  imports Cursor_Get Copy_Thread
begin

text \<open>
  The compacting copy of an environment, without its second thread: \<open>mdb_env_cwalk\<close> walks the
  tree of a database depth first and hands over each page with a new number, after the pages
  below it, and \<open>mdb_env_copyfd1\<close> makes the meta pages that name the last page as the root.
  The walk reads the pages of a read-only transaction and works on copies, so it is a function
  of the pages; what it hands over is the list \<open>cw_out\<close>, the input of the threads of
  \<open>Copy_Thread\<close>. The error flag that a missing page sets in the transaction is left out: the
  transaction is aborted after the walk.
\<close>

section \<open>State\<close>

text \<open>
  What the walk uses: the pages by number (\<open>None\<close> is \<open>MDB_PAGE_NOTFOUND\<close>), the page size,
  what the target of \<open>mdb_page_copy\<close> held before, and which calls of \<open>malloc\<close> succeed.
\<close>

record copy_source =
  cs_get :: "u64 \<Rightarrow> mdb_page option"
  cs_psize :: nat
  cs_junk :: "mdb_page \<Rightarrow> mdb_page"
  cs_malloc :: "nat \<Rightarrow> bool"

text \<open>
  The next page number, the pages handed over, each with the number of pages it stands for,
  and the calls of \<open>malloc\<close> so far.
\<close>

record copy_walk =
  cw_next :: u64
  cw_out :: "(mdb_page \<times> nat) list"
  cw_mallocs :: nat

type_synonym 'a walked = "(copy_walk \<times> (mdb_err + 'a)) option"

text \<open>The pages a read-only transaction sees.\<close>

definition snapshot :: "mdb_state \<Rightarrow> u64 \<Rightarrow> mdb_page option" where
  "snapshot s pgno = (if pgno < mt_next_pgno (st_txn s) then Some (st_map s pgno) else None)"

definition page_copy :: "copy_source \<Rightarrow> mdb_page \<Rightarrow> mdb_page" where
  "page_copy cs p = mdb_page_copy (cs_junk cs p) p (cs_psize cs)"

text \<open>A page is put into the buffer under the next number.\<close>

definition hand_over :: "mdb_page \<Rightarrow> nat \<Rightarrow> copy_walk \<Rightarrow> copy_walk" where
  "hand_over p n w = w\<lparr>cw_next := cw_next w + word_of_nat n, cw_out := cw_out w @ [(p\<lparr>mp_pgno := cw_next w\<rparr>, n)]\<rparr>"

section \<open>Down to the first leaf\<close>

text \<open>
  The path of a cursor, the page on top first, with the indices. The first descent is
  \<open>mdb_page_search_root\<close> with \<open>MDB_PS_FIRST\<close>; the branch pages on it are then copied.
\<close>

type_synonym copy_path = "(mdb_page \<times> nat) list"

fun first_path :: "nat \<Rightarrow> copy_source \<Rightarrow> mdb_page \<Rightarrow> (mdb_err + copy_path) option" where
  "first_path room cs mp =
     (if \<not> IS_BRANCH mp then (if IS_LEAF mp then Some (Inr [(mp, 0)]) else Some (Inl MDB_CORRUPTED))
      else if NUMKEYS mp \<le> 1 then None
      else
        (case cs_get cs (NODEPGNO (mp_body mp) (NODEPTR mp 0)) of
           None \<Rightarrow> Some (Inl MDB_PAGE_NOTFOUND)
         | Some q \<Rightarrow>
             (case room of
                0 \<Rightarrow> Some (Inl MDB_CURSOR_FULL)
              | Suc room \<Rightarrow>
                  (case first_path room cs q of
                     None \<Rightarrow> None
                   | Some (Inl e) \<Rightarrow> Some (Inl e)
                   | Some (Inr path) \<Rightarrow> Some (Inr (path @ [(page_copy cs mp, 0)]))))))"

declare first_path.simps [simp del]

text \<open>
  From one child of a branch page to the next (label \<open>again\<close>): every branch page on the way
  down is copied, the leaf is not. Here nothing looks at the size of the cursor's stack.
\<close>

fun next_path :: "nat \<Rightarrow> copy_source \<Rightarrow> mdb_page \<Rightarrow> nat \<Rightarrow> (mdb_err + copy_path) option" where
  "next_path room cs mp ki =
     (case cs_get cs (NODEPGNO (mp_body mp) (NODEPTR mp ki)) of
        None \<Rightarrow> Some (Inl MDB_PAGE_NOTFOUND)
      | Some q \<Rightarrow>
          (case room of
             0 \<Rightarrow> None
           | Suc room \<Rightarrow>
               if IS_BRANCH q
               then (case next_path room cs q 0 of
                       None \<Rightarrow> None
                     | Some (Inl e) \<Rightarrow> Some (Inl e)
                     | Some (Inr path) \<Rightarrow> Some (Inr (path @ [(page_copy cs q, 0)])))
               else Some (Inr [(q, 0)])))"

declare next_path.simps [simp del]

section \<open>A leaf\<close>

text \<open>
  One node of a leaf: an overflow page is handed over, a database in it is walked, and the
  number in the node is replaced. \<open>own\<close> tells whether the leaf is the writable copy.
\<close>

definition copy_node ::
  "(u64 \<Rightarrow> bool \<Rightarrow> copy_walk \<Rightarrow> u64 walked) \<Rightarrow> copy_source \<Rightarrow> nat \<Rightarrow> mdb_page \<times> bool \<Rightarrow> copy_walk
    \<Rightarrow> (mdb_page \<times> bool) walked" where
  "copy_node sub cs i = (\<lambda>(mp, own) w.
     let fl = mn_flags (mp_body mp) (NODEPTR mp i);
         mp' = (if own then mp else page_copy cs mp);
         m = mp_body mp'; ni = NODEPTR mp' i
     in
     if F_ISSET fl F_BIGDATA then
       (case cs_get cs (bytes_u64 (rd m (NODEDATA m ni) 8)) of
          None \<Rightarrow> Some (w, Inl MDB_PAGE_NOTFOUND)
        | Some omp \<Rightarrow>
            Some (hand_over omp (mp_pages omp) w,
              Inr (mp'\<lparr>mp_body := wr m (NODEDATA m ni) (u64_bytes (cw_next w))\<rparr>, True)))
     else if F_ISSET fl F_SUBDATA then
       (let db = bytes_db (rd m (NODEDATA m ni) 48) in
        case sub (md_root db) (F_ISSET fl F_DUPDATA) w of
          None \<Rightarrow> None
        | Some (w, Inl e) \<Rightarrow> Some (w, Inl e)
        | Some (w, Inr root) \<Rightarrow>
            Some (w, Inr (mp'\<lparr>mp_body := wr m (NODEDATA m ni) (db_bytes (db\<lparr>md_root := root\<rparr>))\<rparr>, True)))
     else Some (w, Inr (mp, own)))"

fun copy_nodes ::
  "(u64 \<Rightarrow> bool \<Rightarrow> copy_walk \<Rightarrow> u64 walked) \<Rightarrow> copy_source \<Rightarrow> nat list \<Rightarrow> mdb_page \<times> bool \<Rightarrow> copy_walk
    \<Rightarrow> (mdb_page \<times> bool) walked" where
  "copy_nodes sub cs [] mp w = Some (w, Inr mp)"
| "copy_nodes sub cs (i # is) mp w =
     (case copy_node sub cs i mp w of
        None \<Rightarrow> None
      | Some (w, Inl e) \<Rightarrow> Some (w, Inl e)
      | Some (w, Inr mp) \<Rightarrow> copy_nodes sub cs is mp w)"

text \<open>\<open>dup\<close>: the data of one key (flag \<open>F_DUPDATA\<close>), whose nodes hold nothing else.\<close>

definition copy_leaf ::
  "(u64 \<Rightarrow> bool \<Rightarrow> copy_walk \<Rightarrow> u64 walked) \<Rightarrow> copy_source \<Rightarrow> bool \<Rightarrow> mdb_page \<Rightarrow> copy_walk \<Rightarrow> mdb_page walked" where
  "copy_leaf sub cs dup mp w =
     (if IS_LEAF2 mp \<or> dup then Some (w, Inr mp)
      else (case copy_nodes sub cs [0..<NUMKEYS mp] (mp, False) w of
              None \<Rightarrow> None
            | Some (w, Inl e) \<Rightarrow> Some (w, Inl e)
            | Some (w, Inr (mp, own)) \<Rightarrow> Some (w, Inr mp)))"

section \<open>The walk\<close>

text \<open>The parent gets the number of the page handed over.\<close>

definition name_child :: "mdb_page \<Rightarrow> nat \<Rightarrow> u64 \<Rightarrow> mdb_page" where
  "name_child p ki pgno = p\<lparr>mp_body := SETPGNO (mp_body p) (NODEPTR p ki) pgno\<rparr>"

text \<open>\<open>while (mc.mc_snum > 0)\<close>; the path is never empty. The result is the number of the root.\<close>

partial_function (option) walk_loop ::
  "(mdb_page \<Rightarrow> copy_walk \<Rightarrow> mdb_page walked) \<Rightarrow> copy_source \<Rightarrow> copy_path \<Rightarrow> copy_walk
    \<Rightarrow> (copy_walk \<times> (mdb_err + u64)) option" where
  "walk_loop leaf cs path w =
     (case path of
        [] \<Rightarrow> None
      | (mp, ki) # up \<Rightarrow>
          if \<not> IS_LEAF mp \<and> ki + 1 < NUMKEYS mp
          then
            (case next_path (CURSOR_STACK - length path) cs mp (ki + 1) of
               None \<Rightarrow> None
             | Some (Inl e) \<Rightarrow> Some (w, Inl e)
             | Some (Inr down) \<Rightarrow> walk_loop leaf cs (down @ (mp, ki + 1) # up) w)
          else
            (case (if IS_LEAF mp then leaf mp w else Some (w, Inr mp)) of
               None \<Rightarrow> None
             | Some (w, Inl e) \<Rightarrow> Some (w, Inl e)
             | Some (w, Inr mp) \<Rightarrow>
                 (case up of
                    [] \<Rightarrow> Some (hand_over (page_copy cs mp) 1 w, Inr (cw_next w))
                  | (p, k) # rest \<Rightarrow>
                      walk_loop leaf cs ((name_child p k (cw_next w), k) # rest) (hand_over (page_copy cs mp) 1 w))))"

text \<open>
  \<open>mdb_env_cwalk\<close>. A database named in the main database may have, for sorted duplicates,
  databases of its own, so three levels are enough; the first argument counts them.
\<close>

fun mdb_env_cwalk :: "nat \<Rightarrow> copy_source \<Rightarrow> u64 \<Rightarrow> bool \<Rightarrow> copy_walk \<Rightarrow> u64 walked" where
  "mdb_env_cwalk 0 cs pg dup w = None"
| "mdb_env_cwalk (Suc levels) cs pg dup w =
     (if pg = P_INVALID then Some (w, Inr pg)
      else
        (case cs_get cs pg of
           None \<Rightarrow> Some (w, Inl MDB_PAGE_NOTFOUND)
         | Some mp \<Rightarrow>
             (case first_path (CURSOR_STACK - 1) cs mp of
                None \<Rightarrow> None
              | Some (Inl e) \<Rightarrow> Some (w, Inl e)
              | Some (Inr path) \<Rightarrow>
                  if \<not> cs_malloc cs (cw_mallocs w) then Some (w, Inl ENOMEM)
                  else walk_loop (copy_leaf (mdb_env_cwalk levels cs) cs dup) cs path (w\<lparr>cw_mallocs := cw_mallocs w + 1\<rparr>))))"

section \<open>The meta pages\<close>

text \<open>
  The number of free pages: the numbers of the records of the free list and the pages of its
  own tree. Each record begins with its count.
\<close>

partial_function (option) free_records :: "nat \<Rightarrow> u64 \<Rightarrow> mdb_state \<Rightarrow> (mdb_state \<times> (mdb_err + u64)) option" where
  "free_records mc n s =
     (case mdb_cursor_get mc None True MDB_NEXT s of
        None \<Rightarrow> None
      | Some (s, Inl e) \<Rightarrow> Some (s, Inr n)
      | Some (s, Inr (key, data)) \<Rightarrow>
          free_records mc (n + bytes_u64 (take 8 (case data of None \<Rightarrow> [] | Some d \<Rightarrow> d))) s)"

definition free_pages :: "u64 op" where
  "free_pages =
     bindM new_cursor (\<lambda>mc.
     seqM (mdb_cursor_init mc FREE_DBI)
     (bindM (free_records mc 0) (\<lambda>n.
      getM (\<lambda>s. let d = mt_dbs (st_txn s) FREE_DBI in n + md_branch_pages d + md_leaf_pages d + md_overflow_pages d))))"

text \<open>The two meta pages of the copy; the second is the newer one.\<close>

definition copy_metas :: "mdb_env \<Rightarrow> mdb_txn \<Rightarrow> u64 \<Rightarrow> mdb_meta \<Rightarrow> mdb_meta \<times> mdb_meta" where
  "copy_metas env txn freecount zeroed =
     (let m0 = (mdb_env_init_meta0 env zeroed)\<lparr>mm_address := mm_address (me_metas env 0)\<rparr>;
          last = mt_next_pgno txn - freecount - 1
      in (m0, m0\<lparr>mm_last_pg := last,
                 mm_dbs := (fst (mm_dbs m0), (mt_dbs txn MAIN_DBI)\<lparr>md_root := last\<rparr>), mm_txnid := 1\<rparr>))"

end
