(* ===== verification/Tree_Update.thy ===== *)
theory Tree_Update
  imports Tree Page_Del
begin

text \<open>
  Changing one leaf of a tree: a leaf page seen as its nodes, the pages a tree uses, what
  stays when other pages change, and the items of the tree when the leaf that covers a key
  gets other nodes.
\<close>

section \<open>The items of a leaf, by its nodes\<close>

text \<open>A node as bytes, laid at offset 0.\<close>

definition img_mem :: "bytes \<Rightarrow> mem" where
  "img_mem img = (\<lambda>x. if x < length img then img ! x else 0)"

definition img_key :: "bytes \<Rightarrow> bytes" where
  "img_key img = NODEKEY (img_mem img) 0"

definition img_flags :: "bytes \<Rightarrow> u16" where
  "img_flags img = mn_flags (img_mem img) 0"

definition img_value :: "mdb_state \<Rightarrow> bytes \<Rightarrow> bytes option" where
  "img_value s img = node_value s (img_mem img) 0"

lemma rd_img_mem: "rd (img_mem img) 0 (length img) = img"
  by (rule nth_equalityI) (simp_all add: img_mem_def)

lemma rd_img_part: "x + j \<le> length img \<Longrightarrow> rd (img_mem img) x j = take j (drop x img)"
  by (rule nth_equalityI) (simp_all add: img_mem_def)

lemma img_node:
  fixes m :: mem and a :: nat
  defines "img \<equiv> node_image True m a"
  shows "NODEKEY m a = img_key img" "mn_flags m a = img_flags img" "node_value s m a = img_value s img"
    "rd m (NODEDATA m a) 8 = rd (img_mem img) (NODEDATA (img_mem img) 0) 8 \<or> \<not> F_ISSET (mn_flags m a) F_BIGDATA"
proof -
  let ?m = "img_mem img" and ?n = "node_len True m a"
  have len: "length img = ?n" by (simp add: img_def)
  have rd_all: "rd ?m 0 ?n = rd m a ?n" using rd_img_mem [of img] by (simp add: len) (simp add: img_def node_image_def)
  have part: "rd ?m x k = rd m (a + x) k" if "x + k \<le> ?n" for x k
    using rd_part [OF rd_all that] by simp
  have h8: "rd ?m 0 8 = rd m a 8" using part [of 0 8] node_len_ge [of True m a] by simp
  note h = node_header_cong [OF h8]
  have k: "NODEKSZ ?m 0 = NODEKSZ m a" "NODEDSZ ?m 0 = NODEDSZ m a" by (simp_all add: NODEKSZ_def NODEDSZ_def h)
  show "NODEKEY m a = img_key img"
    using part [of 8 "NODEKSZ m a"] by (simp add: img_key_def NODEKEY_def k NODESIZE_def node_len_def)
  show f: "mn_flags m a = img_flags img" by (simp add: img_flags_def h)
  have d: "rd m (NODEDATA m a) n = rd ?m (NODEDATA ?m 0) n"
    if "n \<le> (if F_ISSET (mn_flags m a) F_BIGDATA then 8 else unat (NODEDSZ m a))" for n
    using part [of "8 + NODEKSZ m a" n] that by (simp add: NODEDATA_def k NODESIZE_def node_len_def add.assoc)
  show "rd m (NODEDATA m a) 8 = rd ?m (NODEDATA ?m 0) 8 \<or> \<not> F_ISSET (mn_flags m a) F_BIGDATA" using d [of 8] by auto
  show "node_value s m a = img_value s img"
    using d by (simp add: node_value_def img_value_def k f [unfolded img_flags_def] img_flags_def [symmetric]
        split: option.splits)
qed

definition img_item :: "mdb_state \<Rightarrow> bytes \<Rightarrow> bytes \<times> bytes" where
  "img_item s img = (img_key img, the (img_value s img))"

lemma nth_leaf_nodes: "IS_LEAF p \<Longrightarrow> i < NUMKEYS p \<Longrightarrow> page_nodes p ! i = node_image True (mp_body p) (NODEPTR p i)"
  by (simp add: nth_page_nodes NODEPTR_def PAGEBASE_def)

lemma leaf_items_nodes: "IS_LEAF p \<Longrightarrow> leaf_items s p = map (img_item s) (page_nodes p)"
  by (rule nth_equalityI) (simp_all add: leaf_items_def nth_leaf_nodes img_item_def img_node)

lemma page_keys_nodes: "IS_LEAF p \<Longrightarrow> page_keys p = map img_key (page_nodes p)"
  by (rule nth_equalityI) (simp_all add: nth_page_keys nth_leaf_nodes img_node)

lemma leaf_ok_nodes:
  assumes "IS_LEAF p"
  shows "leaf_ok valid rank s p lo hi \<longleftrightarrow> \<not> IS_BRANCH p \<and> \<not> IS_LEAF2 p \<and> NUMKEYS p < 65535 \<and>
     (\<forall>k \<in> set (map img_key (page_nodes p)). valid k \<and> within lo hi (rank k)) \<and>
     sorted_wrt (<) (map rank (map img_key (page_nodes p))) \<and>
     (\<forall>img \<in> set (page_nodes p). \<not> F_ISSET (img_flags img) F_DUPDATA \<and> img_value s img \<noteq> None)"
proof -
  have "(\<forall>i < NUMKEYS p. P (page_nodes p ! i)) \<longleftrightarrow> (\<forall>img \<in> set (page_nodes p). P img)" for P
    by (simp add: all_set_conv_all_nth)
  from this [of "\<lambda>img. \<not> F_ISSET (img_flags img) F_DUPDATA \<and> img_value s img \<noteq> None"]
  show ?thesis using assms
    by (simp add: leaf_ok_def page_keys_nodes nth_leaf_nodes img_node cong: conj_cong)
qed

text \<open>The node \<open>mdb_node_add\<close> makes for a small item.\<close>

lemma leaf_node_view:
  assumes "length key < 65536" "length data < 2 ^ 32" "\<not> F_ISSET fl F_BIGDATA"
  shows "img_key (leaf_node fl (length data) key data) = key" "img_flags (leaf_node fl (length data) key data) = fl"
    "img_value s (leaf_node fl (length data) key data) = Some data"
proof -
  define n where "n = length data"
  define lo where "lo = (ucast ((word_of_nat n :: u64) AND 0xffff) :: u16)"
  define hi where "hi = (ucast (drop_bit 16 (word_of_nat n :: u64)) :: u16)"
  let ?img = "mk_node lo hi fl key data" and ?m = "img_mem (mk_node lo hi fl key data)"
  have r: "rd ?m 0 (8 + length key + length data) = ?img" using rd_img_mem [of ?img] by simp
  note h = mk_node_header [OF r]
  have k: "NODEKSZ ?m 0 = length key" using assms(1) by (simp add: NODEKSZ_def h unat_of_nat)
  have d: "unat (NODEDSZ ?m 0) = n"
    using dsize_parts [of n, folded lo_def hi_def] assms(2) unfolding NODEDSZ_def h(1,2) n_def [symmetric] .
  have part: "rd ?m x j = take j (drop x ?img)" if "x + j \<le> 8 + length key + length data" for x j
    using that by (intro rd_img_part) simp
  have key: "rd ?m 8 (length key) = key" using part [of 8 "length key"] by (simp add: mk_node_def)
  have data: "rd ?m (8 + length key) n = data" using part [of "8 + length key" n] by (simp add: mk_node_def n_def)
  show "img_key (leaf_node fl (length data) key data) = key" "img_flags (leaf_node fl (length data) key data) = fl"
    "img_value s (leaf_node fl (length data) key data) = Some data"
    using assms(3) key data
    by (simp_all add: leaf_node_def img_key_def NODEKEY_def k NODESIZE_def img_flags_def h img_value_def node_value_def
        NODEDATA_def d n_def [symmetric] lo_def [symmetric] hi_def [symmetric])
qed

section \<open>The pages of a tree\<close>

text \<open>The overflow page of a node, if it has one, and all the pages a tree is made of.\<close>

definition img_refs :: "mdb_state \<Rightarrow> bytes \<Rightarrow> page_ref list" where
  "img_refs s img =
     (if F_ISSET (img_flags img) F_BIGDATA
      then (case page_of s (bytes_u64 (rd (img_mem img) (NODEDATA (img_mem img) 0) 8)) of None \<Rightarrow> [] | Some (r, p) \<Rightarrow> [r])
      else [])"

definition leaf_refs :: "mdb_state \<Rightarrow> mdb_page \<Rightarrow> page_ref list" where
  "leaf_refs s p = concat (map (img_refs s) (page_nodes p))"

fun tree_refs :: "mdb_state \<Rightarrow> nat \<Rightarrow> u64 \<Rightarrow> page_ref list" where
  "tree_refs s 0 pg = (case page_of s pg of None \<Rightarrow> [] | Some (r, p) \<Rightarrow> r # leaf_refs s p)"
| "tree_refs s (Suc d) pg =
     (case page_of s pg of None \<Rightarrow> []
      | Some (r, p) \<Rightarrow> r # concat (map (\<lambda>i. tree_refs s d (child p i)) [0..<NUMKEYS p]))"

text \<open>States that look pages up alike and have the same pages at some references.\<close>

definition agree :: "mdb_state \<Rightarrow> mdb_state \<Rightarrow> page_ref set \<Rightarrow> bool" where
  "agree s s' R \<longleftrightarrow> (\<forall>pg. page_lookup (st_env s') (st_txn s') pg = page_lookup (st_env s) (st_txn s) pg) \<and>
     (\<forall>r \<in> R. page_at s' r = page_at s r)"

lemma agree_mono: "agree s s' R \<Longrightarrow> R' \<subseteq> R \<Longrightarrow> agree s s' R'"
  by (auto simp: agree_def)

lemma agree_page: "agree s s' R \<Longrightarrow> page_of s pg = Some (r, p) \<Longrightarrow> r \<in> R \<Longrightarrow> page_of s' pg = Some (r, p)"
  by (auto simp: agree_def page_of_def split: option.splits)

lemma agree_img:
  assumes "agree s s' R" "set (img_refs s img) \<subseteq> R" "img_value s img \<noteq> None"
  shows "img_value s' img = img_value s img" "img_refs s' img = img_refs s img"
proof -
  define pg where "pg = bytes_u64 (rd (img_mem img) (NODEDATA (img_mem img) 0) 8)"
  have same: "page_of s' pg = page_of s pg" if big: "F_ISSET (img_flags img) F_BIGDATA"
  proof -
    have "page_of s pg \<noteq> None"
      using assms(3) big by (simp add: img_value_def node_value_def img_flags_def pg_def split: option.splits)
    then obtain r p where r: "page_of s pg = Some (r, p)" by (metis option.exhaust surj_pair)
    then have "img_refs s img = [r]" unfolding img_refs_def pg_def using big by simp
    then have "r \<in> R" using assms(2) by simp
    with assms(1) r show ?thesis using agree_page by metis
  qed
  show "img_value s' img = img_value s img"
    using same by (simp add: img_value_def node_value_def img_flags_def pg_def)
  show "img_refs s' img = img_refs s img" using same by (simp add: img_refs_def pg_def)
qed

lemma agree_nodes:
  assumes "agree s s' R" "set (concat (map (img_refs s) imgs)) \<subseteq> R" "\<forall>img \<in> set imgs. img_value s img \<noteq> None"
  shows "\<forall>img \<in> set imgs. img_value s' img = img_value s img" "map (img_item s') imgs = map (img_item s) imgs"
    "concat (map (img_refs s') imgs) = concat (map (img_refs s) imgs)"
proof -
  have *: "img_value s' img = img_value s img" "img_refs s' img = img_refs s img" if "img \<in> set imgs" for img
    using agree_img [OF assms(1), of img] assms(2,3) that by auto
  show "\<forall>img \<in> set imgs. img_value s' img = img_value s img" using *(1) by blast
  show "map (img_item s') imgs = map (img_item s) imgs" using *(1) by (simp add: img_item_def)
  have "map (img_refs s') imgs = map (img_refs s) imgs" using *(2) by simp
  then show "concat (map (img_refs s') imgs) = concat (map (img_refs s) imgs)" by (simp only:)
qed

text \<open>A tree none of whose pages changed is the same tree.\<close>

lemma tree_frame:
  "tree_ok valid rank s d pg lo hi \<Longrightarrow> agree s s' (set (tree_refs s d pg)) \<Longrightarrow>
    tree_ok valid rank s' d pg lo hi \<and> tree_items s' d pg = tree_items s d pg \<and> tree_refs s' d pg = tree_refs s d pg"
proof (induction d arbitrary: pg lo hi)
  case 0
  then obtain r p where p: "page_of s pg = Some (r, p)" "leaf_ok valid rank s p lo hi" by (auto split: option.splits)
  then have lf: "IS_LEAF p" by (simp add: leaf_ok_def)
  have p': "page_of s' pg = Some (r, p)" using agree_page [OF 0(2) p(1)] p(1) by simp
  have "set (concat (map (img_refs s) (page_nodes p))) \<subseteq> set (tree_refs s 0 pg)"
    using p(1) by (auto simp: leaf_refs_def)
  moreover have "\<forall>img \<in> set (page_nodes p). img_value s img \<noteq> None"
    using p(2) leaf_ok_nodes [OF lf] by blast
  ultimately have *: "\<forall>img \<in> set (page_nodes p). img_value s' img = img_value s img"
    "map (img_item s') (page_nodes p) = map (img_item s) (page_nodes p)" "leaf_refs s' p = leaf_refs s p"
    unfolding leaf_refs_def using agree_nodes [OF 0(2)] by blast+
  have "leaf_ok valid rank s' p lo hi" using p(2) *(1) unfolding leaf_ok_nodes [OF lf] by auto
  then show ?case using p(1) p' *(2,3) by (simp add: leaf_items_nodes [OF lf])
next
  case (Suc d)
  then obtain r p where p: "page_of s pg = Some (r, p)" "branch_ok valid rank p lo hi"
    "\<And>i. i < NUMKEYS p \<Longrightarrow> tree_ok valid rank s d (child p i) (low_of rank p lo i) (high_of rank p hi i)"
    by (auto split: option.splits)
  have p': "page_of s' pg = Some (r, p)" using agree_page [OF Suc.prems(2) p(1)] p(1) by simp
  have c: "tree_ok valid rank s' d (child p i) (low_of rank p lo i) (high_of rank p hi i) \<and>
      tree_items s' d (child p i) = tree_items s d (child p i) \<and> tree_refs s' d (child p i) = tree_refs s d (child p i)"
    if i: "i < NUMKEYS p" for i
  proof (rule Suc.IH [OF p(3) [OF i]], rule agree_mono [OF Suc.prems(2)])
    show "set (tree_refs s d (child p i)) \<subseteq> set (tree_refs s (Suc d) pg)" using p(1) i by auto
  qed
  then have same: "map (\<lambda>i. tree_items s' d (child p i)) [0..<NUMKEYS p] = map (\<lambda>i. tree_items s d (child p i)) [0..<NUMKEYS p]"
    "map (\<lambda>i. tree_refs s' d (child p i)) [0..<NUMKEYS p] = map (\<lambda>i. tree_refs s d (child p i)) [0..<NUMKEYS p]"
    by simp_all
  show ?case using p(1,2) p' c by (simp add: same del: map_eq_conv)
qed

section \<open>A new leaf on the path of a key\<close>

lemma key_path_ref: "key_path rank s key c j d pg \<Longrightarrow>
    tree_ok valid rank s d pg lo hi \<Longrightarrow> within lo hi (rank key) \<Longrightarrow> mc_pg c (j + d) \<in> set (tree_refs s d pg)"
proof (induction d arbitrary: j pg lo hi)
  case 0
  then show ?case by (auto split: option.splits)
next
  case (Suc d)
  then obtain r p where p: "page_of s pg = Some (r, p)" "branch_ok valid rank p lo hi"
    "\<And>i. i < NUMKEYS p \<Longrightarrow> tree_ok valid rank s d (child p i) (low_of rank p lo i) (high_of rank p hi i)"
    by (auto split: option.splits)
  note i = child_index_within [OF p(2) Suc.prems(3)]
  have "key_path rank s key c (j + 1) d (child p (child_index rank p key))" using Suc.prems(1) p(1) by simp
  from Suc.IH [OF this p(3) [OF i(1)] i(2)] show ?case using p(1) i(1) by auto
qed

lemma key_path_leaf: "key_path rank s key c j d pg \<Longrightarrow> tree_ok valid rank s d pg lo hi \<Longrightarrow> within lo hi (rank key) \<Longrightarrow>
    page_at s (mc_pg c (j + d)) = Some p \<Longrightarrow> \<exists>lo hi. leaf_ok valid rank s p lo hi \<and> within lo hi (rank key)"
proof (induction d arbitrary: j pg lo hi)
  case 0
  then show ?case by (intro exI [of _ lo] exI [of _ hi]) (auto simp: page_of_def split: option.splits)
next
  case (Suc d)
  then obtain r q where q: "page_of s pg = Some (r, q)" "branch_ok valid rank q lo hi"
    "\<And>i. i < NUMKEYS q \<Longrightarrow> tree_ok valid rank s d (child q i) (low_of rank q lo i) (high_of rank q hi i)"
    by (auto split: option.splits)
  note i = child_index_within [OF q(2) Suc.prems(3)]
  have "key_path rank s key c (j + 1) d (child q (child_index rank q key))" using Suc.prems(1) q(1) by simp
  from Suc.IH [OF this q(3) [OF i(1)] i(2)] show ?case using Suc.prems(4) by simp
qed

lemma concat_update:
  assumes "i < n" "\<And>k. k < n \<Longrightarrow> k \<noteq> i \<Longrightarrow> f' k = f k"
  shows "concat (map f' [0..<n]) = concat (map f [0..<i]) @ f' i @ concat (map f [i + 1..<n])"
proof -
  have "map f' [0..<i] = map f [0..<i]" "map f' [i + 1..<n] = map f [i + 1..<n]" using assms by auto
  then show ?thesis using items_split [OF assms(1), of f'] by (simp only:)
qed

lemma distinct_concat_child:
  assumes "distinct (concat (map f [0..<n]))" "i < n"
  shows "distinct (f i)" and "k < n \<Longrightarrow> k \<noteq> i \<Longrightarrow> set (f k) \<inter> set (f i) = {}"
proof -
  have *: "concat (map f [0..<n]) = concat (map f [0..<i]) @ f i @ concat (map f [i + 1..<n])"
    by (rule items_split [OF assms(2)])
  then show "distinct (f i)" using assms(1) by simp
  assume k: "k < n" "k \<noteq> i"
  have d: "(set (concat (map f [0..<i])) \<union> set (concat (map f [i + 1..<n]))) \<inter> set (f i) = {}"
    using assms(1) unfolding * by auto
  have "set (f k) \<subseteq> set (concat (map f [0..<i])) \<union> set (concat (map f [i + 1..<n]))"
    using k by (cases "k < i") (auto simp: not_less)
  with d show "set (f k) \<inter> set (f i) = {}" by blast
qed

text \<open>
  The leaf that covers \<open>key\<close> becomes \<open>p'\<close>, which is in order wherever the old page is, and
  uses the same overflow pages; all other pages stay. Then the tree is in order and its
  items are the old ones with the items of the leaf exchanged.
\<close>

lemma tree_update:
  assumes "tree_ok valid rank s d pg lo hi" "within lo hi (rank key)" "distinct (tree_refs s d pg)"
    and "key_path rank s key c j d pg" "page_at s (mc_pg c (j + d)) = Some p"
    and s': "agree s s' (- {mc_pg c (j + d)})" "page_at s' (mc_pg c (j + d)) = Some p'"
    and p': "IS_LEAF p'" "leaf_refs s p' = leaf_refs s p"
      "\<And>lo hi. leaf_ok valid rank s p lo hi \<Longrightarrow> within lo hi (rank key) \<Longrightarrow> leaf_ok valid rank s p' lo hi"
  shows "tree_ok valid rank s' d pg lo hi \<and> tree_refs s' d pg = tree_refs s d pg \<and>
    (\<exists>before after. tree_items s d pg = before @ leaf_items s p @ after \<and> tree_items s' d pg = before @ leaf_items s p' @ after \<and>
      (\<forall>x \<in> set before. rank (fst x) < rank key) \<and> (\<forall>x \<in> set after. rank key < rank (fst x)))"
  using assms(1-5) s'
proof (induction d arbitrary: j pg lo hi)
  case 0
  define r where "r = mc_pg c j"
  have p: "page_of s pg = Some (r, p)" "leaf_ok valid rank s p lo hi"
    using 0 by (auto simp: r_def page_of_def split: option.splits)
  then have new: "leaf_ok valid rank s p' lo hi" using p'(3) 0(2) by blast
  have of': "page_of s' pg = Some (r, p')"
    using p(1) 0(6,7) by (auto simp: page_of_def agree_def r_def split: option.splits)
  have used: "set (concat (map (img_refs s) (page_nodes p'))) \<subseteq> - {r}"
    using 0(3) p(1) p'(2) by (auto simp: leaf_refs_def)
  have vals: "\<forall>img \<in> set (page_nodes p'). img_value s img \<noteq> None"
    using new leaf_ok_nodes [OF p'(1)] by blast
  have "agree s s' (- {r})" using 0(6) by (simp add: r_def)
  note same = agree_nodes [OF this used vals, folded leaf_refs_def]
  have "leaf_ok valid rank s' p' lo hi" using new same(1) unfolding leaf_ok_nodes [OF p'(1)] by auto
  moreover have "tree_items s' 0 pg = leaf_items s p'"
    using of' same(2) by (simp add: leaf_items_nodes [OF p'(1)] del: map_eq_conv)
  ultimately show ?case
    using p(1) of' same(3) p'(2) by (intro conjI exI [of _ "[]"]) simp_all
next
  case (Suc d)
  obtain r q where q: "page_of s pg = Some (r, q)" "branch_ok valid rank q lo hi"
    "\<And>i. i < NUMKEYS q \<Longrightarrow> tree_ok valid rank s d (child q i) (low_of rank q lo i) (high_of rank q hi i)"
    using Suc.prems(1) by (auto split: option.splits)
  define i where "i = child_index rank q key"
  define leaf where "leaf = mc_pg c (j + Suc d)"
  note i = child_index_within [OF q(2) Suc.prems(2), folded i_def]
  have path: "key_path rank s key c (j + 1) d (child q i)" using Suc.prems(4) q(1) by (simp add: i_def)
  have refs: "tree_refs s (Suc d) pg = r # concat (map (\<lambda>i. tree_refs s d (child q i)) [0..<NUMKEYS q])"
    using q(1) by simp
  note dist = distinct_concat_child [of "\<lambda>i. tree_refs s d (child q i)" "NUMKEYS q" i, OF _ i(1)]
  have dc: "distinct (concat (map (\<lambda>i. tree_refs s d (child q i)) [0..<NUMKEYS q]))" using Suc.prems(3) refs by simp
  have mem: "leaf \<in> set (tree_refs s d (child q i))"
    using key_path_ref [OF path q(3) [OF i(1)] i(2)] by (simp add: leaf_def)
  obtain before after where new: "tree_ok valid rank s' d (child q i) (low_of rank q lo i) (high_of rank q hi i)"
    "tree_refs s' d (child q i) = tree_refs s d (child q i)"
    "tree_items s d (child q i) = before @ leaf_items s p @ after" "tree_items s' d (child q i) = before @ leaf_items s p' @ after"
    "\<forall>x \<in> set before. rank (fst x) < rank key" "\<forall>x \<in> set after. rank key < rank (fst x)"
    using Suc.IH [OF q(3) [OF i(1)] i(2) dist(1) [OF dc] path] Suc.prems(5-7) by auto
  have other: "tree_ok valid rank s' d (child q k) (low_of rank q lo k) (high_of rank q hi k) \<and>
      tree_items s' d (child q k) = tree_items s d (child q k) \<and> tree_refs s' d (child q k) = tree_refs s d (child q k)"
    if k: "k < NUMKEYS q" "k \<noteq> i" for k
  proof (rule tree_frame [OF q(3) [OF k(1)]], rule agree_mono [OF Suc.prems(6)])
    show "set (tree_refs s d (child q k)) \<subseteq> - {mc_pg c (j + Suc d)}"
      using dist(2) [OF dc k] mem unfolding leaf_def [symmetric] by blast
  qed
  have "r \<noteq> leaf" using Suc.prems(3) refs mem i(1) by auto
  then have of': "page_of s' pg = Some (r, q)" using agree_page [OF Suc.prems(6) q(1)] by (simp add: leaf_def)
  have "tree_ok valid rank s' (Suc d) pg lo hi" using of' q(2) new(1) other by auto
  moreover have "tree_refs s' (Suc d) pg = tree_refs s (Suc d) pg"
  proof -
    have "tree_refs s' d (child q k) = tree_refs s d (child q k)" if "k < NUMKEYS q" for k
      using new(2) other [OF that] by (cases "k = i") simp_all
    then have "map (\<lambda>i. tree_refs s' d (child q i)) [0..<NUMKEYS q] = map (\<lambda>i. tree_refs s d (child q i)) [0..<NUMKEYS q]"
      by simp
    then show ?thesis using of' q(1) by (simp del: map_eq_conv)
  qed
  moreover have "\<exists>b a. tree_items s (Suc d) pg = b @ leaf_items s p @ a \<and> tree_items s' (Suc d) pg = b @ leaf_items s p' @ a \<and>
      (\<forall>x \<in> set b. rank (fst x) < rank key) \<and> (\<forall>x \<in> set a. rank key < rank (fst x))"
  proof -
    note sp = tree_child_split [OF Suc.prems(1,2) q(1), folded i_def]
    have "tree_items s' (Suc d) pg = concat (map (\<lambda>i. tree_items s d (child q i)) [0..<i]) @ tree_items s' d (child q i) @
        concat (map (\<lambda>i. tree_items s d (child q i)) [i + 1..<NUMKEYS q])"
      using of' concat_update [OF i(1), of "\<lambda>i. tree_items s' d (child q i)"] other by simp
    with sp show ?thesis unfolding new(3,4) using new(5,6)
      by (intro exI [of _ "concat (map (\<lambda>i. tree_items s d (child q i)) [0..<i]) @ before"]
          exI [of _ "after @ concat (map (\<lambda>i. tree_items s d (child q i)) [i + 1..<NUMKEYS q])"])
        (auto simp del: tree_items.simps)
  qed
  ultimately show ?case by blast
qed

section \<open>Exchanging the node of a key\<close>

text \<open>
  The nodes of a leaf with keys below \<open>key\<close>, of \<open>key\<close>, and above it, of which those in the
  middle are exchanged. Neither the old nor the new ones use overflow pages.
\<close>

definition key_nodes :: "(bytes \<Rightarrow> 'o::linorder) \<Rightarrow> bytes \<Rightarrow> bytes list \<Rightarrow> bytes list \<Rightarrow> bytes list \<Rightarrow> bytes list \<Rightarrow> bool" where
  "key_nodes rank key nodes L M R \<longleftrightarrow> nodes = L @ M @ R \<and> length M \<le> 1 \<and>
     (\<forall>img \<in> set M. img_key img = key \<and> \<not> F_ISSET (img_flags img) F_BIGDATA) \<and>
     (\<forall>img \<in> set L. rank (img_key img) < rank key) \<and> (\<forall>img \<in> set R. rank key < rank (img_key img))"

definition middle_value :: "mdb_state \<Rightarrow> bytes list \<Rightarrow> bytes option" where
  "middle_value s M = (case M of [] \<Rightarrow> None | img # _ \<Rightarrow> img_value s img)"

lemma length_le_1: "length M \<le> Suc 0 \<longleftrightarrow> M = [] \<or> (\<exists>x. M = [x])"
  by (cases M) auto

lemma map_of_other: "\<forall>x \<in> set xs. P (fst x) \<Longrightarrow> \<not> P k \<Longrightarrow> map_of xs k = None"
  by (auto simp: map_of_eq_None_iff)

lemma map_of_middle:
  assumes "key_nodes rank key nodes L M R" "\<forall>img \<in> set M. img_value s img \<noteq> None"
  shows "map_of (map (img_item s) nodes) =
    (map_of (map (img_item s) R) ++ map_of (map (img_item s) L))(key := middle_value s M)"
proof
  fix k
  have L: "map_of (map (img_item s) L) key = None" and R: "map_of (map (img_item s) R) key = None"
    using assms(1) map_of_other [of "map (img_item s) L" "\<lambda>k. rank k < rank key" key]
      map_of_other [of "map (img_item s) R" "\<lambda>k. rank key < rank k" key]
    by (auto simp: key_nodes_def img_item_def)
  have "M = [] \<or> (\<exists>img. M = [img])" using assms(1) by (simp add: key_nodes_def length_le_1)
  then show "map_of (map (img_item s) nodes) k =
    ((map_of (map (img_item s) R) ++ map_of (map (img_item s) L))(key := middle_value s M)) k"
    using assms L R by (auto simp: key_nodes_def img_item_def middle_value_def map_add_def split: option.splits)
qed

lemma leaf_exchange:
  assumes l: "leaf_ok valid rank s p lo hi" and key: "valid key" "within lo hi (rank key)"
    and old: "key_nodes rank key (page_nodes p) L M R" and new: "key_nodes rank key (page_nodes p') L M' R"
    and M': "\<forall>img \<in> set M'. \<not> F_ISSET (img_flags img) F_DUPDATA \<and> img_value s img \<noteq> None"
    and p': "mp_flags p' = mp_flags p" "NUMKEYS p' < 65535"
  shows "leaf_ok valid rank s p' lo hi"
    and "map_of (leaf_items s p') = (map_of (leaf_items s p))(key := middle_value s M')"
proof -
  have lf: "IS_LEAF p" "IS_LEAF p'" and fl: "IS_BRANCH p' = IS_BRANCH p" "IS_LEAF2 p' = IS_LEAF2 p"
    using l p'(1) by (simp_all add: leaf_ok_def IS_LEAF_def IS_BRANCH_def IS_LEAF2_def)
  note n = old [unfolded key_nodes_def] new [unfolded key_nodes_def]
  note l' = l [unfolded leaf_ok_nodes [OF lf(1)]]
  have m: "M' = [] \<or> (\<exists>img. M' = [img])" using n by (simp add: length_le_1)
  have LR: "sorted_wrt (<) (map rank (map img_key (L @ R)))" and LRv: "\<forall>img \<in> set (L @ R). valid (img_key img) \<and> within lo hi (rank (img_key img))"
    "\<forall>img \<in> set (L @ R). \<not> F_ISSET (img_flags img) F_DUPDATA \<and> img_value s img \<noteq> None"
    using l' n(1) by (auto simp: sorted_wrt_append)
  have "sorted_wrt (<) (map rank (map img_key (page_nodes p')))"
    using LR n(2) m by (auto simp: sorted_wrt_append)
  then show "leaf_ok valid rank s p' lo hi"
    unfolding leaf_ok_nodes [OF lf(2)] using l' p'(2) fl n(2) LRv M' key by auto
  have "\<forall>img \<in> set M. img_value s img \<noteq> None" using l' n(1) by auto
  then show "map_of (leaf_items s p') = (map_of (leaf_items s p))(key := middle_value s M')"
    unfolding leaf_items_nodes [OF lf(1)] leaf_items_nodes [OF lf(2)]
    using map_of_middle [OF old] map_of_middle [OF new] M' by simp
qed

lemma leaf_refs_exchange:
  "key_nodes rank key (page_nodes p) L M R \<Longrightarrow> key_nodes rank key (page_nodes p') L M' R \<Longrightarrow> leaf_refs s p' = leaf_refs s p"
  by (auto simp: key_nodes_def leaf_refs_def length_le_1 img_refs_def)

text \<open>The whole tree.\<close>

lemma tree_exchange:
  assumes t: "tree_ok valid rank s d pg lo hi" "within lo hi (rank key)" "distinct (tree_refs s d pg)" and key: "valid key"
    and c: "key_path rank s key c j d pg" "page_at s (mc_pg c (j + d)) = Some p"
    and s': "agree s s' (- {mc_pg c (j + d)})" "page_at s' (mc_pg c (j + d)) = Some p'"
    and n: "key_nodes rank key (page_nodes p) L M R" "key_nodes rank key (page_nodes p') L M' R"
    and M': "\<forall>img \<in> set M'. \<not> F_ISSET (img_flags img) F_DUPDATA \<and> img_value s img \<noteq> None"
    and p': "IS_LEAF p" "mp_flags p' = mp_flags p" "NUMKEYS p' < 65535"
  shows "tree_ok valid rank s' d pg lo hi" "tree_refs s' d pg = tree_refs s d pg"
    "map_of (tree_items s' d pg) = (map_of (tree_items s d pg))(key := middle_value s M')"
proof -
  have lf: "IS_LEAF p'" using p' by (simp add: IS_LEAF_def)
  have change: "leaf_ok valid rank s p' lo hi" "map_of (leaf_items s p') = (map_of (leaf_items s p))(key := middle_value s M')"
    if "leaf_ok valid rank s p lo hi" "within lo hi (rank key)" for lo hi
    using leaf_exchange [OF that(1) key that(2) n M' p'(2,3)] .
  obtain lo' hi' where leaf: "leaf_ok valid rank s p lo' hi'" "within lo' hi' (rank key)"
    using key_path_leaf [OF c(1) t(1,2) c(2)] by blast
  have up: "tree_ok valid rank s' d pg lo hi \<and> tree_refs s' d pg = tree_refs s d pg \<and>
    (\<exists>before after. tree_items s d pg = before @ leaf_items s p @ after \<and> tree_items s' d pg = before @ leaf_items s p' @ after \<and>
      (\<forall>x \<in> set before. rank (fst x) < rank key) \<and> (\<forall>x \<in> set after. rank key < rank (fst x)))"
    using t c s' lf leaf_refs_exchange [OF n] change(1) by (rule tree_update)
  then show "tree_ok valid rank s' d pg lo hi" "tree_refs s' d pg = tree_refs s d pg" by blast+
  obtain before after where i: "tree_items s d pg = before @ leaf_items s p @ after" "tree_items s' d pg = before @ leaf_items s p' @ after"
      "\<forall>x \<in> set before. rank (fst x) < rank key" "\<forall>x \<in> set after. rank key < rank (fst x)"
    using up by blast
  have "map_of before key = None" "map_of after key = None"
    using map_of_other [OF i(3), of key] map_of_other [OF i(4), of key] by simp_all
  then show "map_of (tree_items s' d pg) = (map_of (tree_items s d pg))(key := middle_value s M')"
    unfolding i(1,2) by (auto simp: change(2) [OF leaf] fun_eq_iff map_add_def split: option.splits)
qed

lemma in_set_drop_nth: "y \<in> set (drop x xs) \<longleftrightarrow> (\<exists>k. x \<le> k \<and> k < length xs \<and> y = xs ! k)"
proof
  assume "y \<in> set (drop x xs)"
  then obtain i where "i < length xs - x" "y = xs ! (x + i)" by (auto simp: in_set_conv_nth)
  then show "\<exists>k. x \<le> k \<and> k < length xs \<and> y = xs ! k" by (intro exI [of _ "x + i"]) simp
next
  assume "\<exists>k. x \<le> k \<and> k < length xs \<and> y = xs ! k"
  then obtain k where "x \<le> k" "k < length xs" "y = xs ! k" by blast
  then show "y \<in> set (drop x xs)" unfolding in_set_conv_nth by (intro exI [of _ "k - x"]) simp
qed

text \<open>How the position of a key divides the nodes of its leaf.\<close>

context key_embedding
begin

lemma leaf_key_nodes:
  assumes l: "leaf_ok valid rank s p lo hi" and key: "valid key"
    and x: "x = length (filter (\<lambda>k. rank k < rank key) (page_keys p))"
  shows "key \<notin> set (page_keys p) \<Longrightarrow> key_nodes rank key (page_nodes p) (take x (page_nodes p)) [] (drop x (page_nodes p))"
    and "key \<in> set (page_keys p) \<Longrightarrow> \<not> F_ISSET (img_flags (page_nodes p ! x)) F_BIGDATA \<Longrightarrow>
      key_nodes rank key (page_nodes p) (take x (page_nodes p)) [page_nodes p ! x] (drop (Suc x) (page_nodes p))"
proof -
  have lf: "IS_LEAF p" using l by (simp add: leaf_ok_def)
  note i = leaf_index [OF l x]
  have nth: "page_keys p ! k = img_key (page_nodes p ! k)" if "k < NUMKEYS p" for k
    using that by (simp add: page_keys_nodes [OF lf])
  have L: "\<forall>img \<in> set (take x (page_nodes p)). rank (img_key img) < rank key"
    using i(1,2) by (auto simp: in_set_conv_nth nth [symmetric])
  have ge: "rank key \<le> rank (img_key (page_nodes p ! k))" if "x \<le> k" "k < NUMKEYS p" for k
    using i(2) [OF that(2)] that by (simp add: nth [symmetric])
  show "key_nodes rank key (page_nodes p) (take x (page_nodes p)) [] (drop x (page_nodes p))" if new: "key \<notin> set (page_keys p)"
  proof -
    have "rank key \<noteq> rank (img_key (page_nodes p ! k))" if "k < NUMKEYS p" for k
    proof -
      have "page_keys p ! k \<in> set (page_keys p)" using that by simp
      then have "valid (page_keys p ! k)" "page_keys p ! k \<noteq> key" using l new by (auto simp: leaf_ok_def)
      then show ?thesis using rank_inj [OF key] nth [OF that] by metis
    qed
    then have "\<forall>img \<in> set (drop x (page_nodes p)). rank key < rank (img_key img)"
      using ge by (fastforce simp: in_set_drop_nth less_le)
    then show ?thesis using L by (simp add: key_nodes_def)
  qed
  assume k: "key \<in> set (page_keys p)" "\<not> F_ISSET (img_flags (page_nodes p ! x)) F_BIGDATA"
  then have at: "x < NUMKEYS p" "page_keys p ! x = key" using i(3) by auto
  have "rank key < rank (img_key (page_nodes p ! j))" if "x < j" "j < NUMKEYS p" for j
    using l sorted_wrt_nth_less [of "(<)" "map rank (page_keys p)" x j] that at nth [OF that(2)] by (simp add: leaf_ok_def)
  then have "\<forall>img \<in> set (drop (Suc x) (page_nodes p)). rank key < rank (img_key img)"
    by (auto simp: in_set_drop_nth)
  moreover have "page_nodes p = take x (page_nodes p) @ [page_nodes p ! x] @ drop (Suc x) (page_nodes p)"
    using at(1) by (simp add: id_take_nth_drop [symmetric])
  ultimately show "key_nodes rank key (page_nodes p) (take x (page_nodes p)) [page_nodes p ! x] (drop (Suc x) (page_nodes p))"
    using L k(2) at nth [OF at(1)] by (simp add: key_nodes_def)
qed

end

end
