(* ===== verification/Copy_Tree.thy ===== *)
theory Copy_Tree
  imports Copy Tree_Update
begin

text \<open>
  The tree a compacting copy makes: the walk along a cursor is a recursion over the tree, the
  pages are numbered in the order they are handed over, and read through their new numbers
  they form the same tree.
\<close>

section \<open>Writing into a node\<close>

lemma rewrite_node:
  assumes ok: "page_ok psize p" and x: "x < NUMKEYS p"
    and inside: "NODEPTR p x \<le> b" "b + length bs \<le> NODEPTR p x + node_len (IS_LEAF p) (mp_body p) (NODEPTR p x)"
    and len: "node_len (IS_LEAF p) (wr (mp_body p) b bs) (NODEPTR p x) = node_len (IS_LEAF p) (mp_body p) (NODEPTR p x)"
  defines "p' \<equiv> p\<lparr>mp_body := wr (mp_body p) b bs\<rparr>"
  shows "page_nodes p' = (page_nodes p)[x := node_image (IS_LEAF p) (wr (mp_body p) b bs) (NODEPTR p x)]" "page_ok psize p'"
proof -
  let ?m = "mp_body p" and ?m' = "wr (mp_body p) b bs" and ?leaf = "IS_LEAF p"
  have hdr: "NUMKEYS p' = NUMKEYS p" "mp_ptrs p' = mp_ptrs p" "mp_body p' = ?m'" "IS_LEAF p' = IS_LEAF p" "NODEPTR p x = mp_ptrs p x"
    by (simp_all add: p'_def NUMKEYS_def NODEPTR_def PAGEBASE_def IS_LEAF_def)
  have other: "node_image ?leaf ?m' (mp_ptrs p i) = node_image ?leaf ?m (mp_ptrs p i)" if i: "i < NUMKEYS p" "i \<noteq> x" for i
  proof (rule node_image_cong(2), rule rd_wr_disjoint)
    show "mp_ptrs p i + node_len ?leaf ?m (mp_ptrs p i) \<le> b \<or> b + length bs \<le> mp_ptrs p i"
      using page_ok_node(4) [OF ok i(1) x i(2)] node_sz_ge [of p i] node_sz_ge [of p x] inside hdr(5) by auto
  qed
  show nodes: "page_nodes p' = (page_nodes p)[x := node_image ?leaf ?m' (NODEPTR p x)]"
  proof (rule nth_equalityI)
    fix i assume "i < length (page_nodes p')"
    then have i: "i < NUMKEYS p" using hdr(1) by simp
    then show "page_nodes p' ! i = (page_nodes p)[x := node_image ?leaf ?m' (NODEPTR p x)] ! i"
      using other [OF i] hdr by (cases "i = x") (simp_all add: nth_page_nodes)
  qed (simp add: hdr)
  have "length (page_nodes p' ! i) = length (page_nodes p ! i)" if "i < NUMKEYS p" for i
    using that len x unfolding nodes by (cases "i = x") (simp_all add: nth_page_nodes NODEPTR_def PAGEBASE_def)
  then have sz: "node_sz p' i = node_sz p i" if "i < NUMKEYS p" for i using that by (simp add: node_sz_nth hdr)
  have "map length (page_nodes p') = map length (page_nodes p)"
    using len x unfolding nodes
    by (intro nth_equalityI) (auto simp: nth_list_update nth_page_nodes NODEPTR_def PAGEBASE_def)
  then have "map (EVEN \<circ> length) (page_nodes p') = map (EVEN \<circ> length) (page_nodes p)" by (metis list.map_comp)
  then have "(\<Sum>x \<leftarrow> page_nodes p'. EVEN (length x)) = (\<Sum>x \<leftarrow> page_nodes p. EVEN (length x))" by (simp add: comp_def)
  moreover have "IS_LEAF2 p' = IS_LEAF2 p" "mp_lower p' = mp_lower p" "mp_upper p' = mp_upper p" by (simp_all add: p'_def IS_LEAF2_def)
  ultimately show "page_ok psize p'" using ok sz by (simp add: page_ok_def hdr)
qed

text \<open>The number in a branch node.\<close>

lemma SETPGNO_wr:
  "SETPGNO m a pg = wr m a (bytes16 (ucast (pg AND 0xffff)) @ bytes16 (ucast (drop_bit 16 pg)) @ bytes16 (ucast (drop_bit 32 pg)))"
  by (simp add: SETPGNO_def wr16_def wr_append Let_def)

lemma pgno_parts:
  assumes "pg < 2 ^ 48"
  shows "ucast (ucast (pg AND 0xffff) :: u16) OR push_bit 16 (ucast (ucast (drop_bit 16 pg) :: u16))
      OR push_bit 32 (ucast (ucast (drop_bit 32 pg) :: u16)) = (pg :: u64)"
proof -
  have "(0xffff :: u64) = mask 16" by (simp add: mask_eq_exp_minus_1)
  then have and_mask: "pg AND 0xffff = take_bit 16 pg" by (simp only: take_bit_eq_mask)
  have "unat pg < 2 ^ 48" using assms by (simp add: word_less_nat_alt)
  then have "take_bit 48 (unat pg) = unat pg" by (simp add: take_bit_nat_eq_self)
  then have "take_bit 48 pg = pg" by (metis unsigned_take_bit_eq unsigned_word_eqI)
  then have high: "\<not> bit pg n" if "48 \<le> n" for n using that by (metis bit_take_bit_iff linorder_not_less)
  show ?thesis unfolding and_mask
  proof (rule bit_word_eqI)
    fix n assume "n < LENGTH(64)"
    consider "n < 16" | "16 \<le> n" "n < 32" | "32 \<le> n" "n < 48" | "48 \<le> n" by linarith
    then show "bit (ucast (ucast (take_bit 16 pg) :: u16) OR push_bit 16 (ucast (ucast (drop_bit 16 pg) :: u16))
        OR push_bit 32 (ucast (ucast (drop_bit 32 pg) :: u16)) :: u64) n = bit pg n"
      using \<open>n < LENGTH(64)\<close> high by cases (auto simp: bit_simps)
  qed
qed

lemma NODEPGNO_SETPGNO:
  assumes "pg < 2 ^ 48"
  shows "NODEPGNO (SETPGNO m a pg) a = pg"
proof -
  let ?m = "SETPGNO m a pg"
  have "rd16 ?m a = ucast (pg AND 0xffff)" "rd16 ?m (a + 2) = ucast (drop_bit 16 pg)" "rd16 ?m (a + 4) = ucast (drop_bit 32 pg)"
    by (simp_all add: SETPGNO_def Let_def mem_simps)
  then show ?thesis using pgno_parts [OF assms] by (simp add: NODEPGNO_def mn_lo_def mn_hi_def mn_flags_def or.assoc)
qed


text \<open>A node that is written to keeps key, flags and sizes if the write is after its key.\<close>

lemma write_after_header:
  fixes m :: mem and bs :: bytes and b :: nat
  assumes "a + 8 \<le> b"
  defines "m' \<equiv> wr m b bs"
  shows "mn_flags m' a = mn_flags m a" "NODEDSZ m' a = NODEDSZ m a" "NODEKSZ m' a = NODEKSZ m a"
    "NODEDATA m' a = NODEDATA m a" "node_len leaf m' a = node_len leaf m a"
    "a + 8 + NODEKSZ m a \<le> b \<Longrightarrow> NODEKEY m' a = NODEKEY m a"
proof -
  have "rd m' a 8 = rd m a 8" unfolding m'_def by (rule rd_wr_disjoint) (use assms(1) in simp)
  note h = node_header_cong [OF this] node_len_cong [OF this]
  show f: "mn_flags m' a = mn_flags m a" "NODEDSZ m' a = NODEDSZ m a" "NODEKSZ m' a = NODEKSZ m a"
    "NODEDATA m' a = NODEDATA m a" "node_len leaf m' a = node_len leaf m a"
    by (simp_all add: NODEDSZ_def NODEKSZ_def NODEDATA_def h)
  show "NODEKEY m' a = NODEKEY m a" if "a + 8 + NODEKSZ m a \<le> b"
  proof -
    have "rd m' (a + NODESIZE) (NODEKSZ m a) = rd m (a + NODESIZE) (NODEKSZ m a)"
      unfolding m'_def by (rule rd_wr_disjoint) (use that in \<open>simp add: NODESIZE_def\<close>)
    then show ?thesis by (simp add: NODEKEY_def f)
  qed
qed

section \<open>What a tree holds\<close>

text \<open>
  The contents of a tree with its shape: the keys of every page and the values, which may be on
  overflow pages or be databases, but no page numbers.
\<close>

datatype value_image = Value bytes | Large bytes | Database mdb_db tree_image | Lost
and tree_image = Empty | Leaf_image "(bytes \<times> value_image) list" | Branch_image "(bytes \<times> tree_image) list" | Missing

type_synonym pages = "u64 \<Rightarrow> mdb_page option"

definition node_data :: "mem \<Rightarrow> nat \<Rightarrow> bytes" where
  "node_data m a = rd m (NODEDATA m a) (if F_ISSET (mn_flags m a) F_BIGDATA then 8 else unat (NODEDSZ m a))"

definition value_at :: "(nat \<Rightarrow> u64 \<Rightarrow> tree_image) \<Rightarrow> pages \<Rightarrow> mem \<Rightarrow> nat \<Rightarrow> value_image" where
  "value_at sub get m a =
     (let d = node_data m a in
      if F_ISSET (mn_flags m a) F_BIGDATA then (case get (bytes_u64 d) of None \<Rightarrow> Lost
                   | Some p \<Rightarrow> Large (rd (mp_body p) PAGEHDRSZ (unat (NODEDSZ m a))))
      else if F_ISSET (mn_flags m a) F_SUBDATA
      then Database ((bytes_db d)\<lparr>md_root := 0\<rparr>) (sub (unat (md_depth (bytes_db d))) (md_root (bytes_db d)))
      else Value d)"

fun page_image :: "(mem \<Rightarrow> nat \<Rightarrow> value_image) \<Rightarrow> pages \<Rightarrow> nat \<Rightarrow> mdb_page \<Rightarrow> tree_image" where
  "page_image vf get 0 p =
     Leaf_image (map (\<lambda>i. (NODEKEY (mp_body p) (NODEPTR p i), vf (mp_body p) (NODEPTR p i))) [0..<NUMKEYS p])"
| "page_image vf get (Suc d) p =
     Branch_image (map (\<lambda>i. (NODEKEY (mp_body p) (NODEPTR p i),
       case get (child p i) of None \<Rightarrow> Missing | Some q \<Rightarrow> page_image vf get d q)) [0..<NUMKEYS p])"

text \<open>A database by its root and depth; the first argument counts databases within databases.\<close>

fun db_image :: "nat \<Rightarrow> pages \<Rightarrow> nat \<Rightarrow> u64 \<Rightarrow> tree_image" where
  "db_image 0 get depth root = Missing"
| "db_image (Suc levels) get depth root =
     (if root = P_INVALID then Empty
      else (case get root of None \<Rightarrow> Missing
            | Some p \<Rightarrow> page_image (value_at (db_image levels get) get) get (depth - 1) p))"

text \<open>The trees the walk is about, without sorted duplicates, and how many pages they have.\<close>

fun page_fit :: "(mem \<Rightarrow> nat \<Rightarrow> bool) \<Rightarrow> nat \<Rightarrow> pages \<Rightarrow> nat \<Rightarrow> mdb_page \<Rightarrow> bool" where
  "page_fit vok psize get 0 p \<longleftrightarrow> page_ok psize p \<and> IS_LEAF p \<and> \<not> IS_BRANCH p \<and>
     (\<forall>i < NUMKEYS p. vok (mp_body p) (NODEPTR p i))"
| "page_fit vok psize get (Suc d) p \<longleftrightarrow> page_ok psize p \<and> IS_BRANCH p \<and> \<not> IS_LEAF p \<and> 1 < NUMKEYS p \<and>
     (\<forall>i < NUMKEYS p. case get (child p i) of None \<Rightarrow> False | Some q \<Rightarrow> page_fit vok psize get d q)"

fun page_count :: "(mem \<Rightarrow> nat \<Rightarrow> nat) \<Rightarrow> pages \<Rightarrow> nat \<Rightarrow> mdb_page \<Rightarrow> nat" where
  "page_count vn get 0 p = Suc (\<Sum>i \<leftarrow> [0..<NUMKEYS p]. vn (mp_body p) (NODEPTR p i))"
| "page_count vn get (Suc d) p =
     Suc (\<Sum>i \<leftarrow> [0..<NUMKEYS p]. case get (child p i) of None \<Rightarrow> 0 | Some q \<Rightarrow> page_count vn get d q)"

definition value_fit :: "(nat \<Rightarrow> u64 \<Rightarrow> bool) \<Rightarrow> pages \<Rightarrow> mem \<Rightarrow> nat \<Rightarrow> bool" where
  "value_fit sub get m a \<longleftrightarrow>
     (if F_ISSET (mn_flags m a) F_BIGDATA
      then (case get (bytes_u64 (node_data m a)) of None \<Rightarrow> False | Some p \<Rightarrow> 0 < mp_pages p)
      else if F_ISSET (mn_flags m a) F_SUBDATA
      then \<not> F_ISSET (mn_flags m a) F_DUPDATA \<and> unat (NODEDSZ m a) = 48 \<and>
        (let db = bytes_db (node_data m a) in sub (unat (md_depth db)) (md_root db))
      else True)"

definition value_count :: "(nat \<Rightarrow> u64 \<Rightarrow> nat) \<Rightarrow> pages \<Rightarrow> mem \<Rightarrow> nat \<Rightarrow> nat" where
  "value_count sub get m a =
     (if F_ISSET (mn_flags m a) F_BIGDATA
      then (case get (bytes_u64 (node_data m a)) of None \<Rightarrow> 0 | Some p \<Rightarrow> mp_pages p)
      else if F_ISSET (mn_flags m a) F_SUBDATA
      then (let db = bytes_db (node_data m a) in sub (unat (md_depth db)) (md_root db))
      else 0)"

fun db_fit :: "nat \<Rightarrow> nat \<Rightarrow> pages \<Rightarrow> nat \<Rightarrow> u64 \<Rightarrow> bool" where
  "db_fit 0 psize get depth root \<longleftrightarrow> False"
| "db_fit (Suc levels) psize get depth root \<longleftrightarrow>
     root = P_INVALID \<or> 0 < depth \<and> depth \<le> CURSOR_STACK \<and>
       (case get root of None \<Rightarrow> False
        | Some p \<Rightarrow> page_fit (value_fit (db_fit levels psize get) get) psize get (depth - 1) p)"

fun db_count :: "nat \<Rightarrow> pages \<Rightarrow> nat \<Rightarrow> u64 \<Rightarrow> nat" where
  "db_count 0 get depth root = 0"
| "db_count (Suc levels) get depth root =
     (if root = P_INVALID then 0
      else (case get root of None \<Rightarrow> 0
            | Some p \<Rightarrow> page_count (value_count (db_count levels get) get) get (depth - 1) p))"


section \<open>Pages handed over\<close>

text \<open>The pages are numbered one after the other, an overflow page by the first of its numbers.\<close>

fun numbered :: "nat \<Rightarrow> (mdb_page \<times> nat) list \<Rightarrow> bool" where
  "numbered n [] \<longleftrightarrow> True"
| "numbered n ((p, k) # ps) \<longleftrightarrow> unat (mp_pgno p) = n \<and> 0 < k \<and> numbered (n + k) ps"

definition pages_of :: "(mdb_page \<times> nat) list \<Rightarrow> nat" where
  "pages_of ps = sum_list (map snd ps)"

text \<open>A reader of the copy finds a page by its number.\<close>

definition copied :: "(mdb_page \<times> nat) list \<Rightarrow> pages" where
  "copied ps = map_of (map (\<lambda>(p, k). (mp_pgno p, p)) ps)"

lemma pages_of_simps [simp]: "pages_of [] = 0" "pages_of ((p, k) # ps) = k + pages_of ps" "pages_of (ps @ qs) = pages_of ps + pages_of qs"
  by (simp_all add: pages_of_def)

lemma numbered_append [simp]: "numbered n (ps @ qs) \<longleftrightarrow> numbered n ps \<and> numbered (n + pages_of ps) qs"
  by (induction n ps rule: numbered.induct) (auto simp: add.assoc)

lemma numbered_from: "numbered n ps \<Longrightarrow> (p, k) \<in> set ps \<Longrightarrow> n \<le> unat (mp_pgno p)"
  by (induction n ps rule: numbered.induct) auto

lemma copied_found: "numbered n ps \<Longrightarrow> (p, k) \<in> set ps \<Longrightarrow> copied ps (mp_pgno p) = Some p"
proof (induction n ps rule: numbered.induct)
  case (2 n q j ps)
  show ?case
  proof (cases "(p, k) = (q, j)")
    case False
    then have "(p, k) \<in> set ps" using 2 by auto
    then have "n < unat (mp_pgno p)" "copied ps (mp_pgno p) = Some p" using 2 numbered_from by fastforce+
    then show ?thesis using 2 by (auto simp: copied_def)
  qed (simp add: copied_def)
qed simp

text \<open>A part of the walk hands over the pages \<open>ps\<close>.\<close>

definition walked :: "copy_walk \<Rightarrow> copy_walk \<Rightarrow> (mdb_page \<times> nat) list \<Rightarrow> bool" where
  "walked w w' ps \<longleftrightarrow> cw_out w' = cw_out w @ ps \<and> numbered (unat (cw_next w)) ps \<and>
     unat (cw_next w') = unat (cw_next w) + pages_of ps"

definition holds :: "pages \<Rightarrow> (mdb_page \<times> nat) list \<Rightarrow> bool" where
  "holds get ps \<longleftrightarrow> (\<forall>(p, k) \<in> set ps. get (mp_pgno p) = Some p)"

lemma walked_refl [simp]: "walked w w []"
  by (simp add: walked_def)

lemma walked_trans: "walked w w' ps \<Longrightarrow> walked w' w'' qs \<Longrightarrow> walked w w'' (ps @ qs)"
  by (simp add: walked_def)

lemma walked_mallocs [simp]: "walked (w\<lparr>cw_mallocs := n\<rparr>) w' ps = walked w w' ps"
  by (simp add: walked_def)

lemma holds_append [simp]: "holds get (ps @ qs) \<longleftrightarrow> holds get ps \<and> holds get qs" "holds get []"
  "holds get [(p, k)] \<longleftrightarrow> get (mp_pgno p) = Some p"
  by (auto simp: holds_def)

lemma walked_hand_over:
  assumes "0 < k" "unat (cw_next w) + k \<le> 2 ^ 48"
  shows "walked w (hand_over p k w) [(p\<lparr>mp_pgno := cw_next w\<rparr>, k)]" "cw_next w < 2 ^ 48"
proof -
  have "unat (cw_next w + word_of_nat k) = unat (cw_next w) + k"
    using assms by (simp add: unat_word_ariths unat_of_nat)
  then show "walked w (hand_over p k w) [(p\<lparr>mp_pgno := cw_next w\<rparr>, k)]"
    using assms(1) by (simp add: walked_def hand_over_def)
  show "cw_next w < 2 ^ 48" using assms by (simp add: word_less_nat_alt)
qed

section \<open>Pages with other numbers\<close>

text \<open>A branch page is its keys and its children.\<close>

lemma branch_node_view:
  fixes m :: mem and a :: nat
  defines "img \<equiv> node_image False m a"
  shows "NODEKEY m a = img_key img" "NODEPGNO m a = NODEPGNO (img_mem img) 0"
proof -
  let ?m = "img_mem img" and ?n = "node_len False m a"
  have len: "length img = ?n" by (simp add: img_def)
  have rd_all: "rd ?m 0 ?n = rd m a ?n" using rd_img_mem [of img] by (simp add: len) (simp add: img_def node_image_def)
  have part: "rd ?m x k = rd m (a + x) k" if "x + k \<le> ?n" for x k
    using rd_part [OF rd_all that] by simp
  have h8: "rd ?m 0 8 = rd m a 8" using part [of 0 8] node_len_ge [of False m a] by simp
  note h = node_header_cong [OF h8]
  show "NODEPGNO m a = NODEPGNO ?m 0" by (simp add: NODEPGNO_def h)
  show "NODEKEY m a = img_key img"
    using part [of 8 "NODEKSZ m a"] by (simp add: img_key_def NODEKEY_def NODEKSZ_def h NODESIZE_def node_len_def)
qed

definition same_branch :: "mdb_page \<Rightarrow> mdb_page \<Rightarrow> bool" where
  "same_branch p q \<longleftrightarrow> NUMKEYS p = NUMKEYS q \<and> IS_LEAF p = IS_LEAF q \<and> IS_BRANCH p = IS_BRANCH q \<and>
     (\<forall>i < NUMKEYS q. NODEKEY (mp_body p) (NODEPTR p i) = NODEKEY (mp_body q) (NODEPTR q i))"

lemma page_copy_page:
  assumes "page_ok (cs_psize cs) p"
  shows "page_nodes (page_copy cs p) = page_nodes p" "page_ok (cs_psize cs) (page_copy cs p)"
    "IS_LEAF (page_copy cs p) = IS_LEAF p" "IS_BRANCH (page_copy cs p) = IS_BRANCH p" "NUMKEYS (page_copy cs p) = NUMKEYS p"
    "\<not> IS_LEAF p \<Longrightarrow> i < NUMKEYS p \<Longrightarrow> child (page_copy cs p) i = child p i"
    "\<not> IS_LEAF p \<Longrightarrow> same_branch (page_copy cs p) p"
proof -
  note c = page_copy_spec [OF assms, of "cs_junk cs p", folded page_copy_def]
  show n: "page_nodes (page_copy cs p) = page_nodes p" "page_ok (cs_psize cs) (page_copy cs p)"
    "IS_LEAF (page_copy cs p) = IS_LEAF p" "IS_BRANCH (page_copy cs p) = IS_BRANCH p"
    using c by (simp_all add: IS_LEAF_def IS_BRANCH_def)
  show k: "NUMKEYS (page_copy cs p) = NUMKEYS p" using n(1) by (metis length_page_nodes)
  have view: "NODEKEY (mp_body p) (NODEPTR p i) = img_key (page_nodes p ! i)"
    "child p i = NODEPGNO (img_mem (page_nodes p ! i)) 0" if "\<not> IS_LEAF p" "i < NUMKEYS p" for p i
    using that branch_node_view by (simp_all add: nth_page_nodes child_def NODEPTR_def PAGEBASE_def)
  show "child (page_copy cs p) i = child p i" if "\<not> IS_LEAF p" "i < NUMKEYS p" using that view n k by simp
  show "same_branch (page_copy cs p) p" if "\<not> IS_LEAF p"
    using that view n k by (simp add: same_branch_def)
qed

lemma name_child_page:
  assumes ok: "page_ok psize p" "\<not> IS_LEAF p" "x < NUMKEYS p" and pg: "pg < 2 ^ 48"
  shows "page_ok psize (name_child p x pg)" "same_branch (name_child p x pg) p" "child (name_child p x pg) x = pg"
    "i < NUMKEYS p \<Longrightarrow> i \<noteq> x \<Longrightarrow> child (name_child p x pg) i = child p i"
proof -
  let ?a = "NODEPTR p x" and ?m = "mp_body p"
  define bs where "bs = bytes16 (ucast (pg AND 0xffff)) @ bytes16 (ucast (drop_bit 16 pg)) @ bytes16 (ucast (drop_bit 32 pg))"
  have len: "length bs = 6" by (simp add: bs_def)
  have m': "SETPGNO ?m ?a pg = wr ?m ?a bs" unfolding bs_def by (rule SETPGNO_wr)
  define m' where "m' = wr ?m ?a bs"
  have k6: "rd m' (?a + 6) j = rd ?m (?a + 6) j" for j unfolding m'_def by (rule rd_wr_disjoint) (simp add: len)
  have ks: "mn_ksize m' ?a = mn_ksize ?m ?a" using rd16_cong [OF k6 [of 2], of 0] by (simp add: mn_ksize_def)
  have nl: "node_len (IS_LEAF p) m' ?a = node_len (IS_LEAF p) ?m ?a" using ok(2) by (simp add: node_len_def NODEKSZ_def ks)
  note rw = rewrite_node [OF ok(1,3), of ?a bs, folded m'_def]
  have nodes: "page_nodes (name_child p x pg) = (page_nodes p)[x := node_image (IS_LEAF p) m' ?a]"
    "page_ok psize (name_child p x pg)"
    using rw [OF order_refl _ nl] node_len_ge [of "IS_LEAF p" ?m ?a]
    by (simp_all add: name_child_def m' m'_def len)
  show "page_ok psize (name_child p x pg)" by (fact nodes(2))
  have hdr: "NUMKEYS (name_child p x pg) = NUMKEYS p" "IS_LEAF (name_child p x pg) = IS_LEAF p"
    "IS_BRANCH (name_child p x pg) = IS_BRANCH p"
    by (simp_all add: name_child_def NUMKEYS_def IS_LEAF_def IS_BRANCH_def)
  have view: "NODEKEY (mp_body p) (NODEPTR p i) = img_key (page_nodes p ! i)"
    "child p i = NODEPGNO (img_mem (page_nodes p ! i)) 0" if "\<not> IS_LEAF p" "i < NUMKEYS p" for p i
    using that branch_node_view by (simp_all add: nth_page_nodes child_def NODEPTR_def PAGEBASE_def)
  show "child (name_child p x pg) i = child p i" if "i < NUMKEYS p" "i \<noteq> x"
    using that view ok(2) hdr by (simp add: nodes)
  have "NODEPTR (name_child p x pg) x = ?a" by (simp add: name_child_def NODEPTR_def PAGEBASE_def)
  then show "child (name_child p x pg) x = pg"
    using NODEPGNO_SETPGNO [OF pg] by (simp add: child_def) (simp add: name_child_def)
  have "NODEKEY m' ?a = NODEKEY ?m ?a"
    using rd_part [OF k6 [of "2 + NODEKSZ ?m ?a"], of 2 "NODEKSZ ?m ?a"]
    by (simp add: NODEKEY_def NODEKSZ_def ks NODESIZE_def ac_simps)
  then have "img_key (page_nodes (name_child p x pg) ! i) = img_key (page_nodes p ! i)" if "i < NUMKEYS p" for i
    using that ok branch_node_view(1) [of m' ?a] branch_node_view(1) [of ?m ?a]
    by (cases "i = x") (simp_all add: nodes nth_page_nodes NODEPTR_def PAGEBASE_def)
  then show "same_branch (name_child p x pg) p"
    using view ok(2) hdr by (simp add: same_branch_def)
qed


section \<open>Down to a leaf\<close>

text \<open>The path to the first leaf below a page, with the branch pages copied.\<close>

fun down :: "copy_source \<Rightarrow> nat \<Rightarrow> mdb_page \<Rightarrow> copy_path" where
  "down cs 0 p = [(p, 0)]"
| "down cs (Suc d) p = down cs d (the (cs_get cs (child p 0))) @ [(page_copy cs p, 0)]"

lemma length_down [simp]: "length (down cs d p) = Suc d"
  by (induction cs d p rule: down.induct) simp_all

lemma page_fit_child:
  assumes "page_fit vok psize get (Suc d) p" "i < NUMKEYS p"
  obtains q where "get (child p i) = Some q" "page_fit vok psize get d q"
  using assms by (auto split: option.splits)

lemma page_fit_branch:
  "page_fit vok psize get (Suc d) p \<Longrightarrow> IS_BRANCH p \<and> \<not> IS_LEAF p \<and> 0 < NUMKEYS p \<and> 1 < NUMKEYS p \<and> page_ok psize p"
  by auto

lemma page_fit_kind: "page_fit vok psize get d p \<Longrightarrow> IS_BRANCH p = (d \<noteq> 0) \<and> IS_LEAF p = (d = 0) \<and> page_ok psize p"
  by (cases d) simp_all

lemma page_count_kids:
  assumes "page_fit vok psize get (Suc d) p"
  shows "page_count vn get (Suc d) p = Suc (\<Sum>i \<leftarrow> [0..<NUMKEYS p]. page_count vn get d (the (get (child p i))))"
proof -
  have e: "map (\<lambda>i. case get (child p i) of None \<Rightarrow> 0 | Some q \<Rightarrow> page_count vn get d q) [0..<NUMKEYS p]
      = map (\<lambda>i. page_count vn get d (the (get (child p i)))) [0..<NUMKEYS p]"
  proof (rule map_cong [OF HOL.refl])
    fix i assume "i \<in> set [0..<NUMKEYS p]"
    then obtain q where "get (child p i) = Some q" using page_fit_child [OF assms, of i] by auto
    then show "(case get (child p i) of None \<Rightarrow> 0 | Some q \<Rightarrow> page_count vn get d q) = page_count vn get d (the (get (child p i)))"
      by simp
  qed
  show ?thesis by (simp only: page_count.simps e)
qed

lemma first_path_down:
  "page_fit vok psize (cs_get cs) d p \<Longrightarrow> d \<le> room \<Longrightarrow> first_path room cs p = Some (Inr (down cs d p))"
proof (induction d arbitrary: p room)
  case (Suc d)
  obtain q where q: "cs_get cs (child p 0) = Some q" "page_fit vok psize (cs_get cs) d q"
    using page_fit_child [OF Suc.prems(1), of 0] page_fit_branch [OF Suc.prems(1)] by blast
  obtain r where r: "room = Suc r" "d \<le> r" using Suc.prems(2) by (cases room) simp_all
  have "IS_BRANCH p" "\<not> NUMKEYS p \<le> 1" using Suc.prems(1) by auto
  then show ?case using Suc.IH [OF q(2) r(2)] q(1) r(1) by (simp add: first_path.simps [of "Suc r"] child_def)
qed (simp add: first_path.simps)

lemma next_path_down:
  "cs_get cs (child p i) = Some q \<Longrightarrow> page_fit vok psize (cs_get cs) d q \<Longrightarrow> d < room \<Longrightarrow>
   next_path room cs p i = Some (Inr (down cs d q))"
proof (induction d arbitrary: p q i room)
  case 0
  then show ?case by (cases room) (simp_all add: next_path.simps child_def)
next
  case (Suc d)
  obtain q' where q: "cs_get cs (child q 0) = Some q'" "page_fit vok psize (cs_get cs) d q'"
    using page_fit_child [OF Suc.prems(2), of 0] page_fit_branch [OF Suc.prems(2)] by blast
  obtain r where r: "room = Suc r" "d < r" using Suc.prems(3) by (cases room) simp_all
  have "IS_BRANCH q" using Suc.prems(2) by auto
  then show ?case using Suc.IH [OF q r(2)] Suc.prems(1) q(1) r(1)
    by (simp add: next_path.simps [of "Suc r"] child_def)
qed

section \<open>The walk of a tree\<close>

text \<open>What the loop does once the top page of the path is complete.\<close>

definition finish ::
  "(mdb_page \<Rightarrow> copy_walk \<Rightarrow> mdb_page walked) \<Rightarrow> copy_source \<Rightarrow> copy_path \<Rightarrow> mdb_page \<Rightarrow> copy_walk \<Rightarrow> u64 walked" where
  "finish lf cs P p w =
     (case P of
        [] \<Rightarrow> Some (hand_over (page_copy cs p) 1 w, Inr (cw_next w))
      | (q, k) # rest \<Rightarrow>
          walk_loop lf cs ((name_child q k (cw_next w), k) # rest) (hand_over (page_copy cs p) 1 w))"

lemma walk_loop_leaf:
  assumes "IS_LEAF p" "lf p w = Some (w', Inr p')"
  shows "walk_loop lf cs ((p, k) # P) w = finish lf cs P p' w'"
  using assms by (simp add: walk_loop.simps finish_def)

lemma walk_loop_last:
  assumes "\<not> IS_LEAF p" "NUMKEYS p \<le> k + 1"
  shows "walk_loop lf cs ((p, k) # P) w = finish lf cs P p w"
  using assms by (simp add: walk_loop.simps finish_def)

lemma walk_loop_next:
  assumes "\<not> IS_LEAF p" "k + 1 < NUMKEYS p"
    "next_path (CURSOR_STACK - Suc (length P)) cs p (k + 1) = Some (Inr path)"
  shows "walk_loop lf cs ((p, k) # P) w = walk_loop lf cs (path @ (p, k + 1) # P) w"
  using assms by (simp add: walk_loop.simps)

text \<open>
  The result of a part of the walk: \<open>q\<close> takes the place of a page with the image \<open>im\<close>, and the
  pages \<open>ps\<close> were handed over, one less than the \<open>n\<close> of the tree since \<open>q\<close> itself is not.
\<close>

definition replaced ::
  "nat \<Rightarrow> (pages \<Rightarrow> mem \<Rightarrow> nat \<Rightarrow> value_image) \<Rightarrow> nat \<Rightarrow> tree_image \<Rightarrow> nat \<Rightarrow> mdb_page \<Rightarrow> (mdb_page \<times> nat) list \<Rightarrow> bool" where
  "replaced psize vf d im n q ps \<longleftrightarrow> page_ok psize q \<and> IS_LEAF q = (d = 0) \<and> Suc (pages_of ps) = n \<and>
     (\<forall>get. holds get ps \<longrightarrow> page_image (vf get) get d q = im)"

definition leaf_works ::
  "(mdb_page \<Rightarrow> copy_walk \<Rightarrow> mdb_page walked) \<Rightarrow> copy_source \<Rightarrow> (pages \<Rightarrow> mem \<Rightarrow> nat \<Rightarrow> value_image) \<Rightarrow>
   (mem \<Rightarrow> nat \<Rightarrow> bool) \<Rightarrow> (mem \<Rightarrow> nat \<Rightarrow> nat) \<Rightarrow> bool" where
  "leaf_works lf cs vf vok vn \<longleftrightarrow>
     (\<forall>p w. page_fit vok (cs_psize cs) (cs_get cs) 0 p \<and> unat (cw_next w) + page_count vn (cs_get cs) 0 p \<le> 2 ^ 48 \<longrightarrow>
        (\<exists>w' q ps. lf p w = Some (w', Inr q) \<and> walked w w' ps \<and>
           replaced (cs_psize cs) vf 0 (page_image (vf (cs_get cs)) (cs_get cs) 0 p) (page_count vn (cs_get cs) 0 p) q ps))"


definition node_local :: "(pages \<Rightarrow> mem \<Rightarrow> nat \<Rightarrow> 'x) \<Rightarrow> bool" where
  "node_local vf \<longleftrightarrow> (\<forall>get m a m' a'. node_image True m a = node_image True m' a' \<longrightarrow> vf get m a = vf get m' a')"

lemma page_image_nodes:
  assumes "page_nodes p = page_nodes q" "IS_LEAF p = IS_LEAF q" "IS_LEAF q = (d = 0)" "node_local vf"
  shows "page_image (vf get) get d p = page_image (vf get) get d q"
proof -
  have n: "NUMKEYS p = NUMKEYS q" using assms(1) by (metis length_page_nodes)
  have img: "node_image (IS_LEAF q) (mp_body p) (NODEPTR p i) = node_image (IS_LEAF q) (mp_body q) (NODEPTR q i)" if "i < NUMKEYS q" for i
    using that assms(1,2) nth_page_nodes [of i p] nth_page_nodes [of i q] n by (simp add: NODEPTR_def PAGEBASE_def)
  show ?thesis
  proof (cases d)
    case 0
    then have img: "node_image True (mp_body p) (NODEPTR p i) = node_image True (mp_body q) (NODEPTR q i)" if "i < NUMKEYS q" for i
      using img [OF that] assms(3) by simp
    then have "vf get (mp_body p) (NODEPTR p i) = vf get (mp_body q) (NODEPTR q i)" if "i < NUMKEYS q" for i
      using that assms(4) unfolding node_local_def by blast
    moreover have "NODEKEY (mp_body p) (NODEPTR p i) = NODEKEY (mp_body q) (NODEPTR q i)" if "i < NUMKEYS q" for i
      using img [OF that] by (metis img_node(1))
    ultimately show ?thesis using 0 n by simp
  next
    case (Suc k)
    then have img: "node_image False (mp_body p) (NODEPTR p i) = node_image False (mp_body q) (NODEPTR q i)" if "i < NUMKEYS q" for i
      using img [OF that] assms(3) by simp
    have "NODEKEY (mp_body p) (NODEPTR p i) = NODEKEY (mp_body q) (NODEPTR q i)" "child p i = child q i" if "i < NUMKEYS q" for i
      using img [OF that] branch_node_view by (metis, metis child_def)
    then show ?thesis using Suc n by simp
  qed
qed

text \<open>A completed page is handed over and can be read by its number.\<close>

lemma hand_over_replaced:
  assumes r: "replaced (cs_psize cs) vf d im n q ps" and loc: "node_local vf"
    and bound: "unat (cw_next w) + 1 \<le> 2 ^ 48"
  obtains c where "walked w (hand_over (page_copy cs q) 1 w) [(c, 1)]" "mp_pgno c = cw_next w"
    "\<And>get. holds get ps \<Longrightarrow> page_image (vf get) get d c = im"
proof -
  let ?c = "(page_copy cs q)\<lparr>mp_pgno := cw_next w\<rparr>"
  have q: "page_ok (cs_psize cs) q" "IS_LEAF q = (d = 0)" using r by (simp_all add: replaced_def)
  have c: "page_nodes ?c = page_nodes q" "IS_LEAF ?c = IS_LEAF q"
    using page_copy_page(1,3) [OF q(1)] by (simp_all add: page_nodes_def NUMKEYS_def IS_LEAF_def)
  show thesis
  proof (rule that [of ?c])
    show "walked w (hand_over (page_copy cs q) 1 w) [(?c, 1)]" using walked_hand_over(1) [of 1 w] bound by simp
    show "page_image (vf get) get d ?c = im" if "holds get ps" for get
      using page_image_nodes [OF c q(2) loc] r that by (simp add: replaced_def)
  qed simp
qed

text \<open>A branch page in the walk: the children before \<open>k\<close> are in the copy, \<open>q\<close> names them.\<close>

definition partly ::
  "copy_source \<Rightarrow> (pages \<Rightarrow> mem \<Rightarrow> nat \<Rightarrow> value_image) \<Rightarrow> (mem \<Rightarrow> nat \<Rightarrow> nat) \<Rightarrow> nat \<Rightarrow> mdb_page \<Rightarrow> nat \<Rightarrow> mdb_page
    \<Rightarrow> (mdb_page \<times> nat) list \<Rightarrow> bool" where
  "partly cs vf vn d p k q ps \<longleftrightarrow>
     (let kid = (\<lambda>i. the (cs_get cs (child p i))) in
      page_ok (cs_psize cs) q \<and> same_branch q p \<and> (\<forall>i. k \<le> i \<and> i < NUMKEYS p \<longrightarrow> child q i = child p i) \<and>
      (\<forall>get. holds get ps \<longrightarrow> (\<forall>i < k. \<exists>r. get (child q i) = Some r \<and>
         page_image (vf get) get d r = page_image (vf (cs_get cs)) (cs_get cs) d (kid i))) \<and>
      pages_of ps = (\<Sum>i \<leftarrow> [0..<k]. page_count vn (cs_get cs) d (kid i)))"

lemma partly_start:
  assumes "page_fit vok (cs_psize cs) (cs_get cs) (Suc d) p"
  shows "partly cs vf vn d p 0 (page_copy cs p) []"
  using page_copy_page [of cs p] page_fit_branch [OF assms] by (simp add: partly_def)

lemma partly_end:
  assumes "partly cs vf vn d p (NUMKEYS p) q ps" and fit: "page_fit vok (cs_psize cs) (cs_get cs) (Suc d) p"
  shows "replaced (cs_psize cs) vf (Suc d) (page_image (vf (cs_get cs)) (cs_get cs) (Suc d) p)
    (page_count vn (cs_get cs) (Suc d) p) q ps"
proof -
  have kid: "cs_get cs (child p i) = Some (the (cs_get cs (child p i)))" if "i < NUMKEYS p" for i
    using page_fit_child [OF fit that] by force
  have p: "page_ok (cs_psize cs) q" "same_branch q p" "\<And>get. holds get ps \<Longrightarrow> (\<forall>i < NUMKEYS p. \<exists>r. get (child q i) = Some r \<and>
         page_image (vf get) get d r = page_image (vf (cs_get cs)) (cs_get cs) d (the (cs_get cs (child p i))))"
    "pages_of ps = (\<Sum>i \<leftarrow> [0..<NUMKEYS p]. page_count vn (cs_get cs) d (the (cs_get cs (child p i))))"
    using assms(1) by (simp_all add: partly_def Let_def)
  have "page_image (vf get) get (Suc d) q = page_image (vf (cs_get cs)) (cs_get cs) (Suc d) p" if "holds get ps" for get
  proof -
    have "(case get (child q i) of None \<Rightarrow> Missing | Some r \<Rightarrow> page_image (vf get) get d r)
        = (case cs_get cs (child p i) of None \<Rightarrow> Missing | Some r \<Rightarrow> page_image (vf (cs_get cs)) (cs_get cs) d r)"
      if "i < NUMKEYS p" for i
      using p(3) [OF \<open>holds get ps\<close>] that kid [OF that] by (metis option.simps(5))
    then show ?thesis using p(2) by (simp add: same_branch_def)
  qed
  moreover have "\<not> IS_LEAF q" using p(2) page_fit_branch [OF fit] by (simp add: same_branch_def)
  ultimately show ?thesis using p(1,4) page_count_kids [OF fit, of vn] by (simp add: replaced_def)
qed


lemma partly_next:
  assumes p: "partly cs vf vn d p k q ps" and fit: "page_fit vok (cs_psize cs) (cs_get cs) (Suc d) p" and k: "k < NUMKEYS p"
    and r: "replaced (cs_psize cs) vf d (page_image (vf (cs_get cs)) (cs_get cs) d (the (cs_get cs (child p k))))
        (page_count vn (cs_get cs) d (the (cs_get cs (child p k)))) c ps1"
    and loc: "node_local vf" and bound: "unat (cw_next w) + 1 \<le> 2 ^ 48"
  obtains ps2 where "walked w (hand_over (page_copy cs c) 1 w) ps2"
    "partly cs vf vn d p (Suc k) (name_child q k (cw_next w)) (ps @ ps1 @ ps2)"
proof -
  obtain c' where c': "walked w (hand_over (page_copy cs c) 1 w) [(c', 1)]" "mp_pgno c' = cw_next w"
    "\<And>get. holds get ps1 \<Longrightarrow> page_image (vf get) get d c' = page_image (vf (cs_get cs)) (cs_get cs) d (the (cs_get cs (child p k)))"
    using hand_over_replaced [OF r loc bound] by blast
  define pg where "pg = cw_next w"
  have pg: "pg < 2 ^ 48" unfolding pg_def using bound by (simp add: word_less_nat_alt)
  have q: "page_ok (cs_psize cs) q" "same_branch q p" "\<And>i. k \<le> i \<Longrightarrow> i < NUMKEYS p \<Longrightarrow> child q i = child p i"
    "\<And>get i. holds get ps \<Longrightarrow> i < k \<Longrightarrow> \<exists>r. get (child q i) = Some r \<and>
         page_image (vf get) get d r = page_image (vf (cs_get cs)) (cs_get cs) d (the (cs_get cs (child p i)))"
    "pages_of ps = (\<Sum>i \<leftarrow> [0..<k]. page_count vn (cs_get cs) d (the (cs_get cs (child p i))))"
    using p by (simp_all add: partly_def Let_def)
  have n: "NUMKEYS q = NUMKEYS p" "\<not> IS_LEAF q" using q(2) page_fit_branch [OF fit] by (simp_all add: same_branch_def)
  note nc = name_child_page [OF q(1) n(2) _ pg, of k, unfolded n(1), OF k]
  have "same_branch (name_child q k pg) p" using nc(2) q(2) by (simp add: same_branch_def)
  moreover have "child (name_child q k pg) i = child p i" if "Suc k \<le> i" "i < NUMKEYS p" for i
    using nc(4) [of i] q(3) [of i] that by simp
  moreover have "\<exists>r. get (child (name_child q k pg) i) = Some r \<and>
         page_image (vf get) get d r = page_image (vf (cs_get cs)) (cs_get cs) d (the (cs_get cs (child p i)))"
    if "holds get (ps @ ps1 @ [(c', 1)])" "i < Suc k" for get i
  proof (cases "i = k")
    case True
    then show ?thesis using that nc(3) c'(2,3) by (simp add: pg_def)
  next
    case False
    then show ?thesis using that q(4) [of get i] nc(4) [of i] k by simp
  qed
  moreover have "pages_of (ps @ ps1 @ [(c', 1)]) = (\<Sum>i \<leftarrow> [0..<Suc k]. page_count vn (cs_get cs) d (the (cs_get cs (child p i))))"
    using q(5) r by (simp add: replaced_def)
  ultimately have "partly cs vf vn d p (Suc k) (name_child q k pg) (ps @ ps1 @ [(c', 1)])"
    using nc(1) unfolding partly_def Let_def by blast
  then show thesis using that [OF c'(1)] by (simp add: pg_def)
qed

lemma count_prefix:
  fixes f :: "nat \<Rightarrow> nat"
  assumes "k < n"
  shows "(\<Sum>i \<leftarrow> [0..<k]. f i) + f k \<le> (\<Sum>i \<leftarrow> [0..<n]. f i)"
proof -
  have "(\<Sum>i \<leftarrow> [0..<n]. f i) = (\<Sum>i \<leftarrow> [0..<Suc k]. f i) + (\<Sum>i \<leftarrow> [Suc k..<n]. f i)"
    using assms upt_add_eq_append [of 0 "Suc k" "n - Suc k"] by simp
  then show ?thesis by simp
qed

definition page_walks ::
  "(mdb_page \<Rightarrow> copy_walk \<Rightarrow> mdb_page walked) \<Rightarrow> copy_source \<Rightarrow> (pages \<Rightarrow> mem \<Rightarrow> nat \<Rightarrow> value_image) \<Rightarrow>
   (mem \<Rightarrow> nat \<Rightarrow> bool) \<Rightarrow> (mem \<Rightarrow> nat \<Rightarrow> nat) \<Rightarrow> nat \<Rightarrow> bool" where
  "page_walks lf cs vf vok vn d \<longleftrightarrow>
     (\<forall>p P w. page_fit vok (cs_psize cs) (cs_get cs) d p \<and> d + length P < CURSOR_STACK \<and>
        unat (cw_next w) + page_count vn (cs_get cs) d p \<le> 2 ^ 48 \<longrightarrow>
        (\<exists>w' q ps. walk_loop lf cs (down cs d p @ P) w = finish lf cs P q w' \<and> walked w w' ps \<and>
           replaced (cs_psize cs) vf d (page_image (vf (cs_get cs)) (cs_get cs) d p) (page_count vn (cs_get cs) d p) q ps))"

lemma walk_children:
  assumes ih: "page_walks lf cs vf vok vn d" and loc: "node_local vf"
    and fit: "page_fit vok (cs_psize cs) (cs_get cs) (Suc d) p" and room: "Suc d + length P < CURSOR_STACK"
    and bound: "unat (cw_next w0) + page_count vn (cs_get cs) (Suc d) p \<le> 2 ^ 48"
  shows "k < NUMKEYS p \<Longrightarrow> partly cs vf vn d p k q ps \<Longrightarrow> walked w0 w ps \<Longrightarrow>
    \<exists>w' q' ps'. walk_loop lf cs (down cs d (the (cs_get cs (child p k))) @ (q, k) # P) w = finish lf cs P q' w' \<and>
      walked w0 w' ps' \<and> partly cs vf vn d p (NUMKEYS p) q' ps'"
proof (induction "NUMKEYS p - k" arbitrary: k q ps w rule: less_induct)
  case less
  let ?kid = "\<lambda>i. the (cs_get cs (child p i))" and ?cnt = "\<lambda>i. page_count vn (cs_get cs) d (the (cs_get cs (child p i)))"
  have kid: "cs_get cs (child p i) = Some (?kid i)" "page_fit vok (cs_psize cs) (cs_get cs) d (?kid i)" if "i < NUMKEYS p" for i
    using page_fit_child [OF fit that] by force+
  note total = page_count_kids [OF fit, of vn]
  have "pages_of ps = (\<Sum>i \<leftarrow> [0..<k]. ?cnt i)" using less.prems(2) by (simp add: partly_def Let_def)
  then have b: "unat (cw_next w) + ?cnt k < 2 ^ 48"
    using bound total count_prefix [of k "NUMKEYS p" ?cnt] less.prems(1,3) by (simp add: walked_def)
  obtain w1 c ps1 where w1: "walk_loop lf cs (down cs d (?kid k) @ (q, k) # P) w = finish lf cs ((q, k) # P) c w1"
    "walked w w1 ps1" "replaced (cs_psize cs) vf d (page_image (vf (cs_get cs)) (cs_get cs) d (?kid k)) (?cnt k) c ps1"
    using ih kid(2) [OF less.prems(1)] room b unfolding page_walks_def by (metis add_Suc add_Suc_right length_Cons less_imp_le)
  have "unat (cw_next w1) + 1 \<le> 2 ^ 48" using w1(2,3) b by (simp add: walked_def replaced_def)
  from partly_next [OF less.prems(2) fit less.prems(1) w1(3) loc this]
  obtain ps2 where ps2: "walked w1 (hand_over (page_copy cs c) 1 w1) ps2"
    "partly cs vf vn d p (Suc k) (name_child q k (cw_next w1)) (ps @ ps1 @ ps2)" .
  define q2 where "q2 = name_child q k (cw_next w1)"
  define w2 where "w2 = hand_over (page_copy cs c) 1 w1"
  have now: "walk_loop lf cs (down cs d (?kid k) @ (q, k) # P) w = walk_loop lf cs ((q2, k) # P) w2"
    by (simp add: w1(1) finish_def q2_def w2_def)
  have walked2: "walked w0 w2 (ps @ ps1 @ ps2)"
    using walked_trans [OF less.prems(3) walked_trans [OF w1(2) ps2(1)]] by (simp add: w2_def)
  have part2: "partly cs vf vn d p (Suc k) q2 (ps @ ps1 @ ps2)" using ps2(2) by (simp add: q2_def)
  then have q2: "NUMKEYS q2 = NUMKEYS p" "\<not> IS_LEAF q2"
    using page_fit_branch [OF fit] by (simp_all add: partly_def Let_def same_branch_def)
  show ?case
  proof (cases "Suc k < NUMKEYS p")
    case True
    have ch: "child q2 (Suc k) = child p (Suc k)" using part2 True by (simp add: partly_def Let_def)
    then have "next_path (CURSOR_STACK - Suc (length P)) cs q2 (k + 1) = Some (Inr (down cs d (?kid (Suc k))))"
      using next_path_down [of cs q2 "Suc k" "?kid (Suc k)"] kid [OF True] room by simp
    then have "walk_loop lf cs ((q2, k) # P) w2 = walk_loop lf cs (down cs d (?kid (Suc k)) @ (q2, Suc k) # P) w2"
      using walk_loop_next [OF q2(2)] q2(1) True by simp
    then show ?thesis unfolding now using less.hyps [OF _ True part2 walked2] less.prems(1) True by simp
  next
    case False
    then have e: "Suc k = NUMKEYS p" using less.prems(1) by simp
    have "walk_loop lf cs ((q2, k) # P) w2 = finish lf cs P q2 w2" by (rule walk_loop_last) (use q2 e in simp_all)
    then show ?thesis unfolding now using walked2 part2 e by auto
  qed
qed

lemma walk_page:
  assumes leaf: "leaf_works lf cs vf vok vn" and loc: "node_local vf"
  shows "page_walks lf cs vf vok vn d"
proof (induction d)
  case 0
  show ?case unfolding page_walks_def
  proof (intro allI impI, elim conjE)
    fix p and P :: copy_path and w :: copy_walk
    assume p: "page_fit vok (cs_psize cs) (cs_get cs) 0 p" "unat (cw_next w) + page_count vn (cs_get cs) 0 p \<le> 2 ^ 48"
    then obtain w' q ps where q: "lf p w = Some (w', Inr q)" "walked w w' ps"
      "replaced (cs_psize cs) vf 0 (page_image (vf (cs_get cs)) (cs_get cs) 0 p) (page_count vn (cs_get cs) 0 p) q ps"
      using leaf unfolding leaf_works_def by blast
    have "walk_loop lf cs (down cs 0 p @ P) w = finish lf cs P q w'" using walk_loop_leaf [of p lf w w' q cs 0 P] q(1) p(1) by simp
    then show "\<exists>w' q ps. walk_loop lf cs (down cs 0 p @ P) w = finish lf cs P q w' \<and> walked w w' ps \<and>
        replaced (cs_psize cs) vf 0 (page_image (vf (cs_get cs)) (cs_get cs) 0 p) (page_count vn (cs_get cs) 0 p) q ps"
      using q(2,3) by blast
  qed
next
  case (Suc d)
  show ?case unfolding page_walks_def
  proof (intro allI impI, elim conjE)
    fix p and P :: copy_path and w :: copy_walk
    assume p: "page_fit vok (cs_psize cs) (cs_get cs) (Suc d) p" "Suc d + length P < CURSOR_STACK"
      "unat (cw_next w) + page_count vn (cs_get cs) (Suc d) p \<le> 2 ^ 48"
    have n: "0 < NUMKEYS p" using page_fit_branch [OF p(1)] by simp
    obtain w' q' ps' where "walk_loop lf cs (down cs d (the (cs_get cs (child p 0))) @ (page_copy cs p, 0) # P) w = finish lf cs P q' w'"
      "walked w w' ps'" "partly cs vf vn d p (NUMKEYS p) q' ps'"
      using walk_children [OF Suc loc p n partly_start [OF p(1)] walked_refl] by blast
    moreover from this(3) have "replaced (cs_psize cs) vf (Suc d) (page_image (vf (cs_get cs)) (cs_get cs) (Suc d) p)
        (page_count vn (cs_get cs) (Suc d) p) q' ps'"
      using p(1) by (rule partly_end)
    moreover have "walk_loop lf cs (down cs (Suc d) p @ P) w = finish lf cs P q' w'" using calculation(1) by simp
    ultimately show "\<exists>w' q ps. walk_loop lf cs (down cs (Suc d) p @ P) w = finish lf cs P q w' \<and> walked w w' ps \<and>
        replaced (cs_psize cs) vf (Suc d) (page_image (vf (cs_get cs)) (cs_get cs) (Suc d) p) (page_count vn (cs_get cs) (Suc d) p) q ps"
      by blast
  qed
qed


section \<open>The nodes of a leaf\<close>

lemma node_image_parts:
  assumes "node_image True m a = node_image True m' a'"
  shows "mn_flags m a = mn_flags m' a'" "NODEDSZ m a = NODEDSZ m' a'" "NODEKSZ m a = NODEKSZ m' a'" "node_data m a = node_data m' a'"
proof -
  let ?n = "node_len True m a"
  have n: "?n = node_len True m' a'" using arg_cong [OF assms, of length] by simp
  have all: "rd m a ?n = rd m' a' ?n" using assms by (simp add: node_image_def n)
  have "rd m a 8 = rd m' a' 8" using rd_prefix [OF all] node_len_ge by blast
  note h = node_header_cong [OF this]
  show f: "mn_flags m a = mn_flags m' a'" "NODEDSZ m a = NODEDSZ m' a'" "NODEKSZ m a = NODEKSZ m' a'"
    by (simp_all add: NODEDSZ_def NODEKSZ_def h)
  let ?j = "if F_ISSET (mn_flags m a) F_BIGDATA then 8 else unat (NODEDSZ m a)"
  have "8 + NODEKSZ m a + ?j \<le> ?n" by (simp add: node_len_def NODESIZE_def)
  then have "rd m (a + (8 + NODEKSZ m a)) ?j = rd m' (a' + (8 + NODEKSZ m a)) ?j" by (rule rd_part [OF all])
  then show "node_data m a = node_data m' a'" by (simp add: node_data_def NODEDATA_def NODESIZE_def f add.assoc)
qed

lemma value_local: "node_local (\<lambda>get. value_at (sub get) get)" "node_local (value_fit ok)" "node_local (value_count cnt)"
proof -
  have "value_at s get m a = value_at s get m' a' \<and> value_fit ok get m a = value_fit ok get m' a' \<and>
      value_count cnt get m a = value_count cnt get m' a'"
    if "node_image True m a = node_image True m' a'" for s get m a m' a'
    unfolding value_at_def value_fit_def value_count_def by (simp only: node_image_parts [OF that] conj_assoc simp_thms)
  then show "node_local (\<lambda>get. value_at (sub get) get)" "node_local (value_fit ok)" "node_local (value_count cnt)"
    unfolding node_local_def by blast+
qed

lemma image_again: "node_image True (img_mem (node_image True m a)) 0 = node_image True m a"
  by (rule node_image_cong(2)) (metis length_node_image node_image_def rd_img_mem)

lemma node_local_img: "node_local vf \<Longrightarrow> vf get m a = vf get (img_mem (node_image True m a)) 0"
  unfolding node_local_def using image_again by metis

text \<open>New data of the same length.\<close>

lemma rewrite_data:
  assumes ok: "page_ok psize p" "IS_LEAF p" "x < NUMKEYS p" and len: "length bs = length (node_data (mp_body p) (NODEPTR p x))"
  defines "a \<equiv> NODEPTR p x" and "m' \<equiv> wr (mp_body p) (NODEDATA (mp_body p) (NODEPTR p x)) bs"
  defines "p' \<equiv> p\<lparr>mp_body := m'\<rparr>"
  shows "page_ok psize p'" "page_nodes p' = (page_nodes p)[x := node_image True m' a]"
    "mn_flags m' a = mn_flags (mp_body p) a" "NODEDSZ m' a = NODEDSZ (mp_body p) a"
    "NODEKEY m' a = NODEKEY (mp_body p) a" "node_data m' a = bs"
proof -
  let ?m = "mp_body p" and ?b = "NODEDATA (mp_body p) (NODEPTR p x)"
  have b: "?b = a + 8 + NODEKSZ ?m a" by (simp add: a_def NODEDATA_def NODESIZE_def)
  then have b8: "a + 8 \<le> ?b" by simp
  note w = write_after_header [OF b8, where m = ?m and bs = bs, folded m'_def]
  have fin: "?b + length bs = a + node_len True ?m a"
    by (simp add: len node_data_def node_len_def b a_def NODESIZE_def)
  note r = rewrite_node [OF ok(1,3), of ?b bs, folded m'_def a_def, folded p'_def]
  show "page_ok psize p'" "page_nodes p' = (page_nodes p)[x := node_image True m' a]"
    using r b8 fin w(5) ok(2) by (simp_all add: a_def)
  show f: "mn_flags m' a = mn_flags ?m a" "NODEDSZ m' a = NODEDSZ ?m a" by (simp_all add: w)
  show "NODEKEY m' a = NODEKEY ?m a" using w(6) b by simp
  show "node_data m' a = bs" using len f w(4) rd_wr_same [of "length bs" bs ?m ?b]
    by (simp add: node_data_def a_def m'_def split: if_splits)
qed


section \<open>A leaf in the walk\<close>

text \<open>The first \<open>k\<close> nodes of the leaf \<open>p\<close> are done; \<open>q\<close> is the leaf or its copy.\<close>

definition nodes_done ::
  "copy_source \<Rightarrow> (pages \<Rightarrow> mem \<Rightarrow> nat \<Rightarrow> value_image) \<Rightarrow> (mem \<Rightarrow> nat \<Rightarrow> nat) \<Rightarrow> mdb_page \<Rightarrow> nat \<Rightarrow> mdb_page
    \<Rightarrow> (mdb_page \<times> nat) list \<Rightarrow> bool" where
  "nodes_done cs vf vn p k q ps \<longleftrightarrow> page_ok (cs_psize cs) q \<and> IS_LEAF q \<and> NUMKEYS q = NUMKEYS p \<and>
     (\<forall>i. k \<le> i \<and> i < NUMKEYS p \<longrightarrow> page_nodes q ! i = page_nodes p ! i) \<and>
     (\<forall>i < NUMKEYS p. img_key (page_nodes q ! i) = img_key (page_nodes p ! i)) \<and>
     (\<forall>get. holds get ps \<longrightarrow> (\<forall>i < k. vf get (img_mem (page_nodes q ! i)) 0 = vf (cs_get cs) (img_mem (page_nodes p ! i)) 0)) \<and>
     pages_of ps = (\<Sum>i \<leftarrow> [0..<k]. vn (mp_body p) (NODEPTR p i))"

lemma nodes_done_copy:
  assumes "nodes_done cs vf vn p k q ps"
  shows "nodes_done cs vf vn p k (page_copy cs q) ps"
proof -
  have "page_ok (cs_psize cs) q" using assms by (simp add: nodes_done_def)
  from page_copy_page [OF this] assms show ?thesis unfolding nodes_done_def by simp
qed

lemma nodes_done_end:
  assumes nd: "nodes_done cs vf vn p (NUMKEYS p) q ps" and p: "IS_LEAF p" and loc: "node_local vf"
  shows "replaced (cs_psize cs) vf 0 (page_image (vf (cs_get cs)) (cs_get cs) 0 p) (page_count vn (cs_get cs) 0 p) q ps"
proof -
  have q: "page_ok (cs_psize cs) q" "IS_LEAF q" "NUMKEYS q = NUMKEYS p"
    "\<And>i. i < NUMKEYS p \<Longrightarrow> img_key (page_nodes q ! i) = img_key (page_nodes p ! i)"
    "\<And>get i. holds get ps \<Longrightarrow> i < NUMKEYS p \<Longrightarrow>
      vf get (img_mem (page_nodes q ! i)) 0 = vf (cs_get cs) (img_mem (page_nodes p ! i)) 0"
    "pages_of ps = (\<Sum>i \<leftarrow> [0..<NUMKEYS p]. vn (mp_body p) (NODEPTR p i))"
    using nd by (simp_all add: nodes_done_def)
  have "NODEKEY (mp_body q) (NODEPTR q i) = NODEKEY (mp_body p) (NODEPTR p i) \<and>
      vf get (mp_body q) (NODEPTR q i) = vf (cs_get cs) (mp_body p) (NODEPTR p i)"
    if "holds get ps" "i < NUMKEYS p" for get i
    using q(2,3) q(4) [OF that(2)] q(5) [OF that] that(2) p nth_leaf_nodes [of q i] nth_leaf_nodes [of p i]
      node_local_img [OF loc] img_node(1) by metis
  then have "page_image (vf get) get 0 q = page_image (vf (cs_get cs)) (cs_get cs) 0 p" if "holds get ps" for get
    using that q(3) by simp
  then show ?thesis using q by (simp add: replaced_def)
qed

text \<open>What holds of node \<open>k\<close> in the leaf holds of it in the copy, while it is not done.\<close>

lemma nodes_done_view:
  assumes nd: "nodes_done cs vf vn p k q ps" and p: "IS_LEAF p" "k < NUMKEYS p"
  shows "node_image True (mp_body q) (NODEPTR q k) = node_image True (mp_body p) (NODEPTR p k)"
    "page_nodes q ! k = node_image True (mp_body q) (NODEPTR q k)" "page_nodes p ! k = node_image True (mp_body p) (NODEPTR p k)"
proof -
  have "page_nodes q ! k = page_nodes p ! k" "IS_LEAF q" "NUMKEYS q = NUMKEYS p" using nd p by (simp_all add: nodes_done_def)
  then show "node_image True (mp_body q) (NODEPTR q k) = node_image True (mp_body p) (NODEPTR p k)"
    "page_nodes q ! k = node_image True (mp_body q) (NODEPTR q k)" "page_nodes p ! k = node_image True (mp_body p) (NODEPTR p k)"
    using p by (simp_all add: nth_leaf_nodes)
qed

text \<open>Nothing to do for a node.\<close>

lemma nodes_done_skip:
  assumes nd: "nodes_done cs vf vn p k q ps" and p: "IS_LEAF p" "k < NUMKEYS p" and loc: "node_local vf"
    and same: "\<And>get. vf get (mp_body p) (NODEPTR p k) = vf (cs_get cs) (mp_body p) (NODEPTR p k)" "vn (mp_body p) (NODEPTR p k) = 0"
  shows "nodes_done cs vf vn p (Suc k) q ps"
proof -
  have "vf get (img_mem (page_nodes q ! k)) 0 = vf (cs_get cs) (img_mem (page_nodes p ! k)) 0" for get
    using same(1) [of get] nodes_done_view [OF nd p] node_local_img [OF loc] by metis
  then show ?thesis using nd same(2) by (auto simp: nodes_done_def less_Suc_eq)
qed

text \<open>The data of a node is replaced by bytes that read the same in the copy.\<close>

lemma nodes_done_write:
  assumes nd: "nodes_done cs vf vn p k q ps" and p: "IS_LEAF p" "k < NUMKEYS p" and loc: "node_local vf"
    and len: "length bs = length (node_data (mp_body p) (NODEPTR p k))"
    and same: "\<And>get m a. holds get (ps @ ps') \<Longrightarrow> mn_flags m a = mn_flags (mp_body p) (NODEPTR p k) \<Longrightarrow>
       NODEDSZ m a = NODEDSZ (mp_body p) (NODEPTR p k) \<Longrightarrow> node_data m a = bs \<Longrightarrow>
       vf get m a = vf (cs_get cs) (mp_body p) (NODEPTR p k)"
    and pages: "pages_of ps' = vn (mp_body p) (NODEPTR p k)"
  shows "nodes_done cs vf vn p (Suc k) (q\<lparr>mp_body := wr (mp_body q) (NODEDATA (mp_body q) (NODEPTR q k)) bs\<rparr>) (ps @ ps')"
    (is "nodes_done cs vf vn p (Suc k) ?q (ps @ ps')")
proof -
  let ?a = "NODEPTR q k" and ?m = "wr (mp_body q) (NODEDATA (mp_body q) (NODEPTR q k)) bs"
  have q: "page_ok (cs_psize cs) q" "IS_LEAF q" "NUMKEYS q = NUMKEYS p" using nd by (simp_all add: nodes_done_def)
  note v = nodes_done_view [OF nd p]
  note w = rewrite_data [OF q(1,2), of k bs, unfolded q(3), OF p(2)] and parts = node_image_parts [OF v(1)]
  have l: "length bs = length (node_data (mp_body q) (NODEPTR q k))" using len parts(4) by simp
  note w = w [OF l]
  have hdr: "IS_LEAF ?q" "NUMKEYS ?q = NUMKEYS p" using q by (simp_all add: IS_LEAF_def NUMKEYS_def)
  have key: "img_key (node_image True ?m ?a) = img_key (page_nodes q ! k)"
    using w(5) v(2) img_node(1) by metis
  have val: "vf get (img_mem (node_image True ?m ?a)) 0 = vf (cs_get cs) (img_mem (page_nodes p ! k)) 0"
    if "holds get (ps @ ps')" for get
    using same [OF that, of ?m ?a] w(3,4,6) parts(1,2) v(3) node_local_img [OF loc] by metis
  have nodes: "page_nodes ?q ! i = (if i = k then node_image True ?m ?a else page_nodes q ! i)" if "i < NUMKEYS p" for i
    using that p q(3) by (simp add: w(2))
  have len': "pages_of (ps @ ps') = (\<Sum>i \<leftarrow> [0..<Suc k]. vn (mp_body p) (NODEPTR p i))"
    using nd pages by (simp add: nodes_done_def)
  have "vf get (img_mem (page_nodes ?q ! i)) 0 = vf (cs_get cs) (img_mem (page_nodes p ! i)) 0"
    if "holds get (ps @ ps')" "i < Suc k" for get i
    using val [OF that(1)] nd that p(2) by (cases "i = k") (simp_all add: nodes nodes_done_def)
  moreover have "img_key (page_nodes ?q ! i) = img_key (page_nodes p ! i)" if "i < NUMKEYS p" for i
    using key nd that p(2) by (simp add: nodes nodes_done_def)
  moreover have "page_nodes ?q ! i = page_nodes p ! i" if "Suc k \<le> i" "i < NUMKEYS p" for i
    using nd that by (simp add: nodes nodes_done_def)
  ultimately show ?thesis using w(1) hdr len' unfolding nodes_done_def by blast
qed


text \<open>What the walk of a database must do for the walk of one that names it.\<close>

definition sub_works ::
  "(u64 \<Rightarrow> bool \<Rightarrow> copy_walk \<Rightarrow> u64 walked) \<Rightarrow> copy_source \<Rightarrow> (pages \<Rightarrow> nat \<Rightarrow> u64 \<Rightarrow> tree_image) \<Rightarrow>
   (nat \<Rightarrow> u64 \<Rightarrow> bool) \<Rightarrow> (nat \<Rightarrow> u64 \<Rightarrow> nat) \<Rightarrow> bool" where
  "sub_works sub cs im ok cnt \<longleftrightarrow>
     (\<forall>depth root w. ok depth root \<and> unat (cw_next w) + cnt depth root \<le> 2 ^ 48 \<longrightarrow>
        (\<exists>w' root' ps. sub root False w = Some (w', Inr root') \<and> walked w w' ps \<and> pages_of ps = cnt depth root \<and>
           (\<forall>get. holds get ps \<longrightarrow> im get depth root' = im (cs_get cs) depth root)))"

lemma copy_node_step:
  fixes cs :: copy_source and im ok cnt
  defines "vf \<equiv> \<lambda>get. value_at (im get) get" and "vok \<equiv> value_fit ok (cs_get cs)" and "vn \<equiv> value_count cnt (cs_get cs)"
  assumes sub: "sub_works sub cs im ok cnt"
    and nd: "nodes_done cs vf vn p k q ps" and p: "IS_LEAF p" "k < NUMKEYS p" "vok (mp_body p) (NODEPTR p k)"
    and bound: "unat (cw_next w) + vn (mp_body p) (NODEPTR p k) \<le> 2 ^ 48"
  shows "\<exists>w' q' own' ps'. copy_node sub cs k (q, own) w = Some (w', Inr (q', own')) \<and> walked w w' ps' \<and>
    nodes_done cs vf vn p (Suc k) q' (ps @ ps')"
proof -
  have loc: "node_local vf" unfolding vf_def by (rule value_local)
  define q1 where "q1 = (if own then q else page_copy cs q)"
  have nd1: "nodes_done cs vf vn p k q1 ps" using nd nodes_done_copy by (simp add: q1_def)
  let ?m = "mp_body p" and ?a = "NODEPTR p k" and ?m1 = "mp_body q1" and ?a1 = "NODEPTR q1 k"
  note fl = node_image_parts(1) [OF nodes_done_view(1) [OF nd p(1,2)]]
  note v1 = node_image_parts [OF nodes_done_view(1) [OF nd1 p(1,2)]]
  consider (big) "F_ISSET (mn_flags ?m ?a) F_BIGDATA"
    | (db) "\<not> F_ISSET (mn_flags ?m ?a) F_BIGDATA" "F_ISSET (mn_flags ?m ?a) F_SUBDATA"
    | (plain) "\<not> F_ISSET (mn_flags ?m ?a) F_BIGDATA" "\<not> F_ISSET (mn_flags ?m ?a) F_SUBDATA" by blast
  then show ?thesis
  proof cases
    case big
    define pg where "pg = bytes_u64 (node_data ?m ?a)"
    obtain omp where omp: "cs_get cs pg = Some omp" "0 < mp_pages omp" "vn ?m ?a = mp_pages omp"
      using p(3) big unfolding vok_def vn_def value_fit_def value_count_def by (auto simp: pg_def split: option.splits)
    have d1: "rd ?m1 (NODEDATA ?m1 ?a1) 8 = node_data ?m ?a" using v1(4) v1(1) big by (simp add: node_data_def)
    let ?w = "hand_over omp (mp_pages omp) w" and ?ps = "[(omp\<lparr>mp_pgno := cw_next w\<rparr>, mp_pages omp)]"
    have run: "copy_node sub cs k (q, own) w = Some (?w, Inr
        (q1\<lparr>mp_body := wr ?m1 (NODEDATA ?m1 ?a1) (u64_bytes (cw_next w))\<rparr>, True))"
      using big omp(1) by (simp add: copy_node_def Let_def fl q1_def [symmetric] d1 pg_def)
    have "nodes_done cs vf vn p (Suc k) (q1\<lparr>mp_body := wr ?m1 (NODEDATA ?m1 ?a1) (u64_bytes (cw_next w))\<rparr>) (ps @ ?ps)"
    proof (rule nodes_done_write [OF nd1 p(1,2) loc])
      show "length (u64_bytes (cw_next w)) = length (node_data ?m ?a)" using big by (simp add: node_data_def)
      show "pages_of ?ps = vn ?m ?a" using omp by simp
      fix get m a
      assume "holds get (ps @ ?ps)" "mn_flags m a = mn_flags ?m ?a" "NODEDSZ m a = NODEDSZ ?m ?a"
        "node_data m a = u64_bytes (cw_next w)"
      then show "vf get m a = vf (cs_get cs) ?m ?a"
        using big omp(1) by (simp add: vf_def value_at_def Let_def pg_def [symmetric])
    qed
    moreover have "walked w ?w ?ps" using walked_hand_over(1) [OF omp(2), of w omp] bound omp(3) by simp
    ultimately show ?thesis using run by blast
  next
    case db
    define old where "old = bytes_db (node_data ?m ?a)"
    have sz: "\<not> F_ISSET (mn_flags ?m ?a) F_DUPDATA" "unat (NODEDSZ ?m ?a) = 48" "ok (unat (md_depth old)) (md_root old)"
      "vn ?m ?a = cnt (unat (md_depth old)) (md_root old)"
      using p(3) db unfolding vok_def vn_def value_fit_def value_count_def by (simp_all add: old_def Let_def)
    have d1: "rd ?m1 (NODEDATA ?m1 ?a1) 48 = node_data ?m ?a" using v1(4) v1(1,2) db sz(2) by (simp add: node_data_def)
    obtain w' root ps' where s: "sub (md_root old) False w = Some (w', Inr root)" "walked w w' ps'" "pages_of ps' = vn ?m ?a"
      "\<And>get. holds get ps' \<Longrightarrow> im get (unat (md_depth old)) root = im (cs_get cs) (unat (md_depth old)) (md_root old)"
      using sub sz(3,4) bound unfolding sub_works_def by metis
    let ?db = "old\<lparr>md_root := root\<rparr>"
    have run: "copy_node sub cs k (q, own) w = Some (w', Inr
        (q1\<lparr>mp_body := wr ?m1 (NODEDATA ?m1 ?a1) (db_bytes ?db)\<rparr>, True))"
      using db sz(1) s(1) by (simp add: copy_node_def Let_def fl q1_def [symmetric] d1 old_def [symmetric])
    have "nodes_done cs vf vn p (Suc k) (q1\<lparr>mp_body := wr ?m1 (NODEDATA ?m1 ?a1) (db_bytes ?db)\<rparr>) (ps @ ps')"
    proof (rule nodes_done_write [OF nd1 p(1,2) loc _ _ s(3)])
      show "length (db_bytes ?db) = length (node_data ?m ?a)" using db sz(2) by (simp add: node_data_def)
      fix get m a
      assume "holds get (ps @ ps')" "mn_flags m a = mn_flags ?m ?a" "NODEDSZ m a = NODEDSZ ?m ?a" "node_data m a = db_bytes ?db"
      then show "vf get m a = vf (cs_get cs) ?m ?a"
        using db s(4) by (simp add: vf_def value_at_def Let_def old_def [symmetric])
    qed
    then show ?thesis using run s(2) by blast
  next
    case plain
    have run: "copy_node sub cs k (q, own) w = Some (w, Inr (q, own))"
      using plain by (simp add: copy_node_def Let_def fl)
    have "nodes_done cs vf vn p (Suc k) q ps"
      by (rule nodes_done_skip [OF nd p(1,2) loc]) (use plain in \<open>simp_all add: vf_def vn_def value_at_def value_count_def Let_def\<close>)
    then show ?thesis using run by (metis append_Nil2 walked_refl)
  qed
qed

lemma copy_nodes_run:
  fixes cs :: copy_source and im ok cnt
  defines "vf \<equiv> \<lambda>get. value_at (im get) get" and "vok \<equiv> value_fit ok (cs_get cs)" and "vn \<equiv> value_count cnt (cs_get cs)"
  assumes sub: "sub_works sub cs im ok cnt"
    and p: "IS_LEAF p" "\<forall>i < NUMKEYS p. vok (mp_body p) (NODEPTR p i)"
    and bound: "unat (cw_next w0) + (\<Sum>i \<leftarrow> [0..<NUMKEYS p]. vn (mp_body p) (NODEPTR p i)) \<le> 2 ^ 48"
  shows "k \<le> NUMKEYS p \<Longrightarrow> nodes_done cs vf vn p k q ps \<Longrightarrow> walked w0 w ps \<Longrightarrow>
    \<exists>w' q' own' ps'. copy_nodes sub cs [k..<NUMKEYS p] (q, own) w = Some (w', Inr (q', own')) \<and> walked w0 w' ps' \<and>
      nodes_done cs vf vn p (NUMKEYS p) q' ps'"
proof (induction "NUMKEYS p - k" arbitrary: k q ps w own)
  case 0
  then show ?case by auto
next
  case (Suc j)
  then have k: "k < NUMKEYS p" by simp
  have "unat (cw_next w) + vn (mp_body p) (NODEPTR p k) \<le> 2 ^ 48"
    using Suc.prems(2,3) bound count_prefix [OF k, of "\<lambda>i. vn (mp_body p) (NODEPTR p i)"] by (simp add: nodes_done_def walked_def)
  then have b: "unat (cw_next w) + value_count cnt (cs_get cs) (mp_body p) (NODEPTR p k) \<le> 2 ^ 48" by (simp add: vn_def)
  have fit: "value_fit ok (cs_get cs) (mp_body p) (NODEPTR p k)" using p(2) k by (simp add: vok_def)
  obtain w' q' own' ps' where s: "copy_node sub cs k (q, own) w = Some (w', Inr (q', own'))" "walked w w' ps'"
      "nodes_done cs vf vn p (Suc k) q' (ps @ ps')"
    using copy_node_step [OF sub Suc.prems(2) [unfolded vf_def vn_def] p(1) k fit b, of own, folded vf_def vn_def] by blast
  have "copy_nodes sub cs [k..<NUMKEYS p] (q, own) w = copy_nodes sub cs [Suc k..<NUMKEYS p] (q', own') w'"
    using s(1) by (simp add: upt_conv_Cons [OF k])
  moreover have "j = NUMKEYS p - Suc k" "Suc k \<le> NUMKEYS p" using Suc.hyps(2) k by simp_all
  note Suc.hyps(1) [OF this s(3) walked_trans [OF Suc.prems(3) s(2)], of own']
  ultimately show ?case by (simp only:)
qed

lemma copy_leaf_works:
  fixes cs :: copy_source and im ok cnt
  defines "vf \<equiv> \<lambda>get. value_at (im get) get" and "vok \<equiv> value_fit ok (cs_get cs)" and "vn \<equiv> value_count cnt (cs_get cs)"
  assumes sub: "sub_works sub cs im ok cnt"
  shows "leaf_works (copy_leaf sub cs False) cs vf vok vn"
  unfolding leaf_works_def
proof (intro allI impI, elim conjE)
  fix p and w :: copy_walk
  assume fit: "page_fit vok (cs_psize cs) (cs_get cs) 0 p" and b: "unat (cw_next w) + page_count vn (cs_get cs) 0 p \<le> 2 ^ 48"
  have p: "page_ok (cs_psize cs) p" "IS_LEAF p" "\<forall>i < NUMKEYS p. vok (mp_body p) (NODEPTR p i)" using fit by simp_all
  then have "nodes_done cs vf vn p 0 p []" "\<not> IS_LEAF2 p" by (simp_all add: nodes_done_def page_ok_def)
  then obtain w' q' own' ps' where s: "copy_nodes sub cs [0..<NUMKEYS p] (p, False) w = Some (w', Inr (q', own'))" "walked w w' ps'"
      "nodes_done cs vf vn p (NUMKEYS p) q' ps'"
    using copy_nodes_run [OF sub p(2,3) [unfolded vok_def], of w 0 p "[]" w False, folded vf_def vn_def] b by auto
  have "copy_leaf sub cs False p w = Some (w', Inr q')" using s(1) \<open>\<not> IS_LEAF2 p\<close> by (simp add: copy_leaf_def)
  moreover have "node_local vf" unfolding vf_def by (rule value_local)
  ultimately show "\<exists>w' q ps. copy_leaf sub cs False p w = Some (w', Inr q) \<and> walked w w' ps \<and>
      replaced (cs_psize cs) vf 0 (page_image (vf (cs_get cs)) (cs_get cs) 0 p) (page_count vn (cs_get cs) 0 p) q ps"
    using s(2) nodes_done_end [OF s(3) p(2)] by blast
qed


section \<open>The walk of a database\<close>

lemma P_INVALID_large: "pg < 2 ^ 48 \<Longrightarrow> pg \<noteq> P_INVALID"
  by (auto simp: P_INVALID_def)

text \<open>
  The walk ends, hands over as many pages as the tree has, numbered one after the other, the
  root last, and what is read from its root is what is read from the old root.
\<close>

lemma cwalk_run:
  assumes malloc: "\<And>n. cs_malloc cs n"
  shows "db_fit lev (cs_psize cs) (cs_get cs) depth root \<Longrightarrow>
    unat (cw_next w) + db_count lev (cs_get cs) depth root \<le> 2 ^ 48 \<Longrightarrow>
    \<exists>w' root' ps. mdb_env_cwalk lev cs root False w = Some (w', Inr root') \<and> walked w w' ps \<and>
      pages_of ps = db_count lev (cs_get cs) depth root \<and> (root \<noteq> P_INVALID \<longrightarrow> root' + 1 = cw_next w') \<and>
      (\<forall>get. holds get ps \<longrightarrow> db_image lev get depth root' = db_image lev (cs_get cs) depth root)"
proof (induction lev arbitrary: depth root w)
  case (Suc lev)
  let ?sub = "mdb_env_cwalk lev cs" and ?im = "db_image lev" and ?ok = "db_fit lev (cs_psize cs) (cs_get cs)"
    and ?cnt = "db_count lev (cs_get cs)"
  let ?lf = "copy_leaf ?sub cs False" and ?vf = "\<lambda>get. value_at (?im get) get"
    and ?vok = "value_fit ?ok (cs_get cs)" and ?vn = "value_count ?cnt (cs_get cs)"
  have "sub_works ?sub cs ?im ?ok ?cnt" using Suc.IH unfolding sub_works_def by blast
  then have walks: "page_walks ?lf cs ?vf ?vok ?vn d" for d
    using walk_page [OF copy_leaf_works value_local(1)] by blast
  show ?case
  proof (cases "root = P_INVALID")
    case True
    then show ?thesis by (intro exI [of _ w] exI [of _ root] exI [of _ "[]"]) simp
  next
    case False
    then obtain p where p: "cs_get cs root = Some p" "page_fit ?vok (cs_psize cs) (cs_get cs) (depth - 1) p"
      and d: "0 < depth" "depth \<le> CURSOR_STACK"
      using Suc.prems(1) by (auto split: option.splits)
    let ?d = "depth - 1" and ?w = "w\<lparr>cw_mallocs := cw_mallocs w + 1\<rparr>"
    have b: "unat (cw_next w) + page_count ?vn (cs_get cs) ?d p \<le> 2 ^ 48" using Suc.prems(2) False p(1) by simp
    have "first_path (CURSOR_STACK - 1) cs p = Some (Inr (down cs ?d p))"
      using first_path_down [OF p(2)] d by simp
    then have start: "mdb_env_cwalk (Suc lev) cs root False w = walk_loop ?lf cs (down cs ?d p) ?w"
      using False p(1) malloc by simp
    obtain w1 q ps where q: "walk_loop ?lf cs (down cs ?d p @ []) ?w = finish ?lf cs [] q w1" "walked ?w w1 ps"
      "replaced (cs_psize cs) ?vf ?d (page_image (?vf (cs_get cs)) (cs_get cs) ?d p) (page_count ?vn (cs_get cs) ?d p) q ps"
    proof -
      have "page_fit ?vok (cs_psize cs) (cs_get cs) ?d p \<and> ?d + length ([] :: copy_path) < CURSOR_STACK \<and>
          unat (cw_next ?w) + page_count ?vn (cs_get cs) ?d p \<le> 2 ^ 48"
        using p(2) b d by simp
      from walks [unfolded page_walks_def, rule_format, OF this] that show thesis by blast
    qed
    have b1: "unat (cw_next w1) + 1 \<le> 2 ^ 48" using q(2,3) b by (simp add: walked_def replaced_def)
    obtain c where c: "walked w1 (hand_over (page_copy cs q) 1 w1) [(c, 1)]" "mp_pgno c = cw_next w1"
      "\<And>get. holds get ps \<Longrightarrow> page_image (?vf get) get ?d c = page_image (?vf (cs_get cs)) (cs_get cs) ?d p"
      using hand_over_replaced [OF q(3) value_local(1) b1] by blast
    let ?w' = "hand_over (page_copy cs q) 1 w1"
    have "mdb_env_cwalk (Suc lev) cs root False w = Some (?w', Inr (cw_next w1))"
      unfolding start using q(1) by (simp add: finish_def)
    moreover have "walked w ?w' (ps @ [(c, 1)])" using walked_trans [OF q(2) c(1)] by (simp add: walked_def)
    moreover have "pages_of (ps @ [(c, 1)]) = db_count (Suc lev) (cs_get cs) depth root"
      using q(3) False p(1) by (simp add: replaced_def)
    moreover have "cw_next w1 + 1 = cw_next ?w'" by (simp add: hand_over_def)
    moreover have "db_image (Suc lev) get depth (cw_next w1) = db_image (Suc lev) (cs_get cs) depth root"
      if "holds get (ps @ [(c, 1)])" for get
    proof -
      have "cw_next w1 \<noteq> P_INVALID" using b1 by (intro P_INVALID_large) (simp add: word_less_nat_alt)
      then show ?thesis using that c(2,3) False p(1) by simp
    qed
    ultimately show ?thesis by blast
  qed
qed simp


text \<open>The walk as \<open>mdb_env_copyfd1\<close> starts it, after the two meta pages.\<close>

definition copy_start_walk :: copy_walk where
  "copy_start_walk = \<lparr>cw_next = 2, cw_out = [], cw_mallocs = 0\<rparr>"

lemma cwalk_copied:
  assumes "\<And>n. cs_malloc cs n" "db_fit lev (cs_psize cs) (cs_get cs) depth root"
    and "2 + db_count lev (cs_get cs) depth root \<le> 2 ^ 48"
  obtains w' root' where "mdb_env_cwalk lev cs root False copy_start_walk = Some (w', Inr root')"
    "numbered 2 (cw_out w')" "pages_of (cw_out w') = db_count lev (cs_get cs) depth root"
    "root \<noteq> P_INVALID \<Longrightarrow> unat root' = 1 + db_count lev (cs_get cs) depth root"
    "db_image lev (copied (cw_out w')) depth root' = db_image lev (cs_get cs) depth root"
proof -
  obtain w' root' ps where w: "mdb_env_cwalk lev cs root False copy_start_walk = Some (w', Inr root')"
    "walked copy_start_walk w' ps" "pages_of ps = db_count lev (cs_get cs) depth root"
    "root \<noteq> P_INVALID \<longrightarrow> root' + 1 = cw_next w'"
    "\<And>get. holds get ps \<Longrightarrow> db_image lev get depth root' = db_image lev (cs_get cs) depth root"
    using cwalk_run [OF assms(1,2), of copy_start_walk] assms(3) by (auto simp: copy_start_walk_def)
  then have out: "cw_out w' = ps" "numbered 2 ps" "unat (cw_next w') = 2 + pages_of ps"
    by (simp_all add: walked_def copy_start_walk_def)
  have "holds (copied ps) ps" using copied_found [OF out(2)] by (auto simp: holds_def)
  moreover have "unat root' = 1 + db_count lev (cs_get cs) depth root" if "root \<noteq> P_INVALID"
  proof -
    have "root' = cw_next w' - 1" using w(4) that by (metis add_diff_cancel)
    moreover have "(1 :: u64) \<le> cw_next w'" using out(3) by (simp add: word_le_nat_alt)
    ultimately show ?thesis using out(3) w(3) by (simp add: unat_sub)
  qed
  ultimately show thesis using that w out by metis
qed

section \<open>The copy\<close>

text \<open>
  C7: A compacting copy keeps the main database and the databases in it. For a database
  without sorted duplicates and with well-formed pages, the walk ends without an error; the pages it
  hands over are numbered one after the other from 2 on, as many as the trees have; and read by their
  new numbers from the new root they hold what the old pages held: the same keys in the same pages,
  the same values, also those on overflow pages, and the same databases.
\<close>

theorem cwalk_copies_tree:
  assumes "\<And>n. cs_malloc cs n"
    and "db_fit lev (cs_psize cs) (cs_get cs) depth root" "2 + db_count lev (cs_get cs) depth root \<le> 2 ^ 48"
  shows "\<exists>w' root'. mdb_env_cwalk lev cs root False copy_start_walk = Some (w', Inr root') \<and>
    numbered 2 (cw_out w') \<and> pages_of (cw_out w') = db_count lev (cs_get cs) depth root \<and>
    db_image lev (copied (cw_out w')) depth root' = db_image lev (cs_get cs) depth root"
  using cwalk_copied [OF assms] by metis

text \<open>
  C37: The root and last page in the newer meta page of the copy. They are computed before the
  walk, from the number of free pages. When every page of the environment is a meta page, free,
  or a page of a database, they are the number the walk gives to the root and the last number given.
\<close>

theorem copy_meta_names_root:
  fixes env :: mdb_env and txn :: mdb_txn
  defines "root \<equiv> md_root (mt_dbs txn MAIN_DBI)"
  assumes "\<And>n. cs_malloc cs n" "root \<noteq> P_INVALID"
    and "db_fit lev (cs_psize cs) (cs_get cs) depth root" "2 + db_count lev (cs_get cs) depth root \<le> 2 ^ 48"
    and pages: "unat (mt_next_pgno txn) = 2 + db_count lev (cs_get cs) depth root + unat freecount"
  shows "\<exists>w'. mdb_env_cwalk lev cs root False copy_start_walk
      = Some (w', Inr (md_root (snd (mm_dbs (snd (copy_metas env txn freecount zeroed)))))) \<and>
    unat (mm_last_pg (snd (copy_metas env txn freecount zeroed))) = 1 + pages_of (cw_out w')"
proof -
  obtain w' root' where w: "mdb_env_cwalk lev cs root False copy_start_walk = Some (w', Inr root')"
    "pages_of (cw_out w') = db_count lev (cs_get cs) depth root" "unat root' = 1 + db_count lev (cs_get cs) depth root"
    using cwalk_copied [OF assms(2,4,5)] assms(3) by metis
  have "freecount \<le> mt_next_pgno txn" using pages by (simp add: word_le_nat_alt)
  then have "unat (mt_next_pgno txn - freecount) = 2 + db_count lev (cs_get cs) depth root"
    using pages by (simp add: unat_sub)
  moreover from this have "(1 :: u64) \<le> mt_next_pgno txn - freecount" by (simp add: word_le_nat_alt)
  ultimately have "unat (mt_next_pgno txn - freecount - 1) = 1 + db_count lev (cs_get cs) depth root"
    by (simp add: unat_sub)
  then have "mt_next_pgno txn - freecount - 1 = root'" "unat (mt_next_pgno txn - freecount - 1) = 1 + pages_of (cw_out w')"
    using w(2,3) by (simp_all add: word_unat_eq_iff)
  then show ?thesis using w(1) by (simp add: copy_metas_def Let_def)
qed

text \<open>
  C38: The copy of an environment whose main database is empty. Its meta page names page 1, a
  meta page, as the root of the main database, where \<open>P_INVALID\<close> stands for an empty one.
  The first search in the copy, in any state whose main database has that root, fails the
  assertion \<open>root > 1\<close> of \<open>mdb_page_search\<close>.
\<close>

theorem empty_copy_unusable:
  fixes s :: mdb_state
  assumes "md_root (mt_dbs txn MAIN_DBI) = P_INVALID" "mt_next_pgno txn = 2 + freecount"
    and "mc_dbi (st_cursors s mc) = MAIN_DBI"
    and "md_root (mt_dbs (st_txn s) MAIN_DBI) = md_root (snd (mm_dbs (snd (copy_metas env txn freecount zeroed))))"
    and "\<not> F_ISSET (mt_flags (st_txn s)) MDB_TXN_ERROR" "\<not> any_set (mt_dbflags (st_txn s) MAIN_DBI) DB_STALE"
  shows "mdb_env_cwalk 1 cs (md_root (mt_dbs txn MAIN_DBI)) False copy_start_walk = Some (copy_start_walk, Inr P_INVALID) \<and>
    mdb_page_search touch mc key flags s = None"
proof
  show "mdb_env_cwalk 1 cs (md_root (mt_dbs txn MAIN_DBI)) False copy_start_walk = Some (copy_start_walk, Inr P_INVALID)"
    using assms(1) by simp
  have "md_root (mt_dbs (st_txn s) MAIN_DBI) = 1" using assms(2,4) by (simp add: copy_metas_def Let_def)
  moreover have "(1 :: u64) \<noteq> P_INVALID" "\<not> (1 :: u64) < 1" by (simp_all add: P_INVALID_def)
  ultimately show "mdb_page_search touch mc key flags s = None"
    using assms(3,5,6)
    by (simp add: mdb_page_search_def page_search.simps [of 2] bindM_def seqM_def getM_def curM_def ret_def cursor_db_def assertM_def)
qed

section \<open>The items of the copy\<close>

text \<open>
  The contents of a database without databases in it as a list of items, as \<open>tree_items\<close> reads
  them in a state; then those of one with named databases in it.
\<close>

fun value_bytes :: "value_image \<Rightarrow> bytes option" where
  "value_bytes (Value b) = Some b"
| "value_bytes (Large b) = Some b"
| "value_bytes (Database db t) = None"
| "value_bytes Lost = None"

fun image_items :: "tree_image \<Rightarrow> (bytes \<times> bytes) list" where
  "image_items (Leaf_image xs) = map (\<lambda>(k, v). (k, the (value_bytes v))) xs"
| "image_items (Branch_image xs) = concat (map (\<lambda>(k, t). image_items t) xs)"
| "image_items Empty = []"
| "image_items Missing = []"

fun plain_items :: "tree_image \<Rightarrow> bool" where
  "plain_items (Leaf_image xs) \<longleftrightarrow> (\<forall>(k, v) \<in> set xs. value_bytes v \<noteq> None)"
| "plain_items (Branch_image xs) \<longleftrightarrow> (\<forall>(k, t) \<in> set xs. plain_items t)"
| "plain_items Empty \<longleftrightarrow> True"
| "plain_items Missing \<longleftrightarrow> True"

text \<open>The pages of a state.\<close>

definition pages_seen :: "mdb_state \<Rightarrow> pages" where
  "pages_seen s pg = (case page_of s pg of None \<Rightarrow> None | Some (r, p) \<Rightarrow> Some p)"

lemma value_at_node_value:
  assumes "value_bytes (value_at sub (pages_seen s) m a) \<noteq> None"
  shows "value_bytes (value_at sub (pages_seen s) m a) = node_value s m a"
  using assms
  by (auto simp: value_at_def node_value_def node_data_def pages_seen_def Let_def split: option.splits if_splits prod.splits)

lemma tree_items_image:
  "plain_items (page_image (value_at sub (pages_seen s)) (pages_seen s) d p) \<Longrightarrow> page_of s pg = Some (r, p) \<Longrightarrow>
    tree_items s d pg = image_items (page_image (value_at sub (pages_seen s)) (pages_seen s) d p)"
proof (induction d arbitrary: p pg r)
  case 0
  then show ?case using value_at_node_value [of sub s] by (auto simp: leaf_items_def)
next
  case (Suc d)
  let ?im = "\<lambda>q. page_image (value_at sub (pages_seen s)) (pages_seen s) d q"
  have "tree_items s d (child p i) = image_items (case pages_seen s (child p i) of None \<Rightarrow> Missing | Some q \<Rightarrow> ?im q)"
    if i: "i < NUMKEYS p" for i
  proof (cases "page_of s (child p i)")
    case None
    then show ?thesis by (cases d) (simp_all add: pages_seen_def)
  next
    case (Some x)
    then obtain r' q where q: "page_of s (child p i) = Some (r', q)" by (cases x) auto
    then have "pages_seen s (child p i) = Some q" by (simp add: pages_seen_def)
    moreover from this have "plain_items (?im q)" using Suc.prems(1) i by force
    ultimately show ?thesis using Suc.IH [OF _ q] by simp
  qed
  then have e: "map (\<lambda>i. tree_items s d (child p i)) [0..<NUMKEYS p]
      = map (\<lambda>i. image_items (case pages_seen s (child p i) of None \<Rightarrow> Missing | Some q \<Rightarrow> ?im q)) [0..<NUMKEYS p]"
    by (intro map_cong [OF HOL.refl]) (simp del: page_image.simps)
  have "image_items (page_image (value_at sub (pages_seen s)) (pages_seen s) (Suc d) p) = concat (map (\<lambda>i. image_items (case pages_seen s (child p i) of None \<Rightarrow> Missing | Some q \<Rightarrow> ?im q)) [0..<NUMKEYS p])"
    by (simp add: comp_def)
  then show ?case using Suc.prems(2) by (simp only: tree_items.simps option.case prod.case e)
qed

lemma db_items:
  assumes "db_image lev (pages_seen s) depth root \<noteq> Missing" "plain_items (db_image lev (pages_seen s) depth root)"
  shows "image_items (db_image lev (pages_seen s) depth root)
    = (if root = P_INVALID then [] else tree_items s (depth - 1) root)"
proof (cases "root = P_INVALID \<or> lev = 0")
  case True
  then show ?thesis using assms(1) by (cases lev) auto
next
  case False
  then obtain l where lev: "lev = Suc l" by (cases lev) auto
  obtain r p where p: "page_of s root = Some (r, p)"
    using assms(1) False by (auto simp: lev pages_seen_def split: option.splits)
  then have "db_image lev (pages_seen s) depth root
      = page_image (value_at (db_image l (pages_seen s)) (pages_seen s)) (pages_seen s) (depth - 1) p"
    using False by (simp add: lev pages_seen_def)
  then show ?thesis using tree_items_image [OF _ p, of "db_image l (pages_seen s)" "depth - 1"] assms(2) False by simp
qed

text \<open>
  The contents of a database that may have records of named databases: a record counts as the
  database it stands for, its fields but the root and its items.
\<close>

datatype content = Item bytes | Named mdb_db "(bytes \<times> bytes) list"

definition node_content :: "mdb_state \<Rightarrow> mem \<Rightarrow> nat \<Rightarrow> content" where
  "node_content s m a =
     (if \<not> F_ISSET (mn_flags m a) F_BIGDATA \<and> F_ISSET (mn_flags m a) F_SUBDATA
      then (let db = bytes_db (node_data m a)
            in Named (db\<lparr>md_root := 0\<rparr>)
                 (if md_root db = P_INVALID then [] else tree_items s (unat (md_depth db) - 1) (md_root db)))
      else Item (the (node_value s m a)))"

fun tree_contents :: "mdb_state \<Rightarrow> nat \<Rightarrow> u64 \<Rightarrow> (bytes \<times> content) list" where
  "tree_contents s 0 pg = (case page_of s pg of None \<Rightarrow> [] | Some (r, p) \<Rightarrow>
     map (\<lambda>i. (NODEKEY (mp_body p) (NODEPTR p i), node_content s (mp_body p) (NODEPTR p i))) [0..<NUMKEYS p])"
| "tree_contents s (Suc d) pg = (case page_of s pg of None \<Rightarrow> [] | Some (r, p) \<Rightarrow>
     concat (map (\<lambda>i. tree_contents s d (child p i)) [0..<NUMKEYS p]))"

fun image_content :: "value_image \<Rightarrow> content" where
  "image_content (Database db t) = Named db (image_items t)"
| "image_content v = Item (the (value_bytes v))"

fun image_contents :: "tree_image \<Rightarrow> (bytes \<times> content) list" where
  "image_contents (Leaf_image xs) = map (\<lambda>(k, v). (k, image_content v)) xs"
| "image_contents (Branch_image xs) = concat (map (\<lambda>(k, t). image_contents t) xs)"
| "image_contents Empty = []"
| "image_contents Missing = []"

text \<open>No page is missing, and the databases in the database have keys and values only.\<close>

fun known_value :: "value_image \<Rightarrow> bool" where
  "known_value (Database db t) \<longleftrightarrow> t \<noteq> Missing \<and> plain_items t"
| "known_value v \<longleftrightarrow> value_bytes v \<noteq> None"

fun known_items :: "tree_image \<Rightarrow> bool" where
  "known_items (Leaf_image xs) \<longleftrightarrow> (\<forall>(k, v) \<in> set xs. known_value v)"
| "known_items (Branch_image xs) \<longleftrightarrow> (\<forall>(k, t) \<in> set xs. known_items t)"
| "known_items Empty \<longleftrightarrow> True"
| "known_items Missing \<longleftrightarrow> True"

lemma node_content_image:
  assumes "known_value (value_at (db_image l (pages_seen s)) (pages_seen s) m a)"
  shows "image_content (value_at (db_image l (pages_seen s)) (pages_seen s) m a) = node_content s m a"
proof (cases "\<not> F_ISSET (mn_flags m a) F_BIGDATA \<and> F_ISSET (mn_flags m a) F_SUBDATA")
  case True
  then show ?thesis
    using assms db_items [of l s "unat (md_depth (bytes_db (node_data m a)))" "md_root (bytes_db (node_data m a))"]
    by (simp add: value_at_def node_content_def Let_def)
next
  case False
  let ?v = "value_at (db_image l (pages_seen s)) (pages_seen s) m a"
  have "?v \<noteq> Database db t" for db t
    using False by (auto simp: value_at_def Let_def split: option.splits)
  then have "image_content ?v = Item (the (value_bytes ?v))" "value_bytes ?v \<noteq> None"
    using assms by (cases ?v; auto)+
  then show ?thesis using value_at_node_value [of "db_image l (pages_seen s)" s m a] False by (auto simp: node_content_def)
qed

lemma tree_contents_image:
  defines "im \<equiv> \<lambda>s l d q. page_image (value_at (db_image l (pages_seen s)) (pages_seen s)) (pages_seen s) d q"
  shows "known_items (im s l d p) \<Longrightarrow> page_of s pg = Some (r, p) \<Longrightarrow>
    tree_contents s d pg = image_contents (im s l d p)"
proof (induction d arbitrary: p pg r)
  case 0
  then show ?case using node_content_image [of l s] by (auto simp: im_def)
next
  case (Suc d)
  have "tree_contents s d (child p i) = image_contents (case pages_seen s (child p i) of None \<Rightarrow> Missing | Some q \<Rightarrow> im s l d q)"
    if i: "i < NUMKEYS p" for i
  proof (cases "page_of s (child p i)")
    case None
    then show ?thesis by (cases d) (simp_all add: pages_seen_def)
  next
    case (Some x)
    then obtain r' q where q: "page_of s (child p i) = Some (r', q)" by (cases x) auto
    then have get: "pages_seen s (child p i) = Some q" by (simp add: pages_seen_def)
    moreover from this have "known_items (im s l d q)" using Suc.prems(1) i by (force simp: im_def)
    ultimately show ?thesis using Suc.IH [OF _ q] by simp
  qed
  then have e: "map (\<lambda>i. tree_contents s d (child p i)) [0..<NUMKEYS p]
      = map (\<lambda>i. image_contents (case pages_seen s (child p i) of None \<Rightarrow> Missing | Some q \<Rightarrow> im s l d q)) [0..<NUMKEYS p]"
    by (intro map_cong [OF HOL.refl]) simp
  have "image_contents (im s l (Suc d) p) = concat (map (\<lambda>i. image_contents (case pages_seen s (child p i) of None \<Rightarrow> Missing | Some q \<Rightarrow> im s l d q)) [0..<NUMKEYS p])"
    unfolding im_def by (simp add: comp_def)
  then show ?case using Suc.prems(2) by (simp only: tree_contents.simps option.case prod.case e)
qed

lemma db_contents:
  assumes "db_image lev (pages_seen s) (Suc d) root \<notin> {Missing, Empty}" "known_items (db_image lev (pages_seen s) (Suc d) root)"
  shows "image_contents (db_image lev (pages_seen s) (Suc d) root) = tree_contents s d root"
proof -
  obtain l where lev: "lev = Suc l" using assms(1) by (cases lev) auto
  have root: "root \<noteq> P_INVALID" using assms(1) by (auto simp: lev)
  obtain r p where p: "page_of s root = Some (r, p)"
    using assms(1) root by (auto simp: lev pages_seen_def split: option.splits)
  then have "db_image lev (pages_seen s) (Suc d) root
      = page_image (value_at (db_image l (pages_seen s)) (pages_seen s)) (pages_seen s) d p"
    using root by (simp add: lev pages_seen_def)
  then show ?thesis using tree_contents_image [OF _ p, of l d] assms(2) by simp
qed

lemma items_kept:
  assumes "\<And>n. cs_malloc cs n" "cs_get cs = pages_seen s"
    and "db_fit lev (cs_psize cs) (pages_seen s) (Suc d) root" "2 + db_count lev (pages_seen s) (Suc d) root \<le> 2 ^ 48"
    and "root \<noteq> P_INVALID" "known_items (db_image lev (pages_seen s) (Suc d) root)"
  shows "\<exists>w' root'. mdb_env_cwalk lev cs root False copy_start_walk = Some (w', Inr root') \<and>
    (\<forall>s'. holds (pages_seen s') (cw_out w') \<longrightarrow> tree_contents s' d root' = tree_contents s d root \<and>
       (plain_items (db_image lev (pages_seen s) (Suc d) root) \<longrightarrow> tree_items s' d root' = tree_items s d root))"
proof -
  obtain w' root' ps where w: "mdb_env_cwalk lev cs root False copy_start_walk = Some (w', Inr root')"
    "walked copy_start_walk w' ps" "root' + 1 = cw_next w'" "pages_of ps = db_count lev (pages_seen s) (Suc d) root"
    "\<And>get. holds get ps \<Longrightarrow> db_image lev get (Suc d) root' = db_image lev (pages_seen s) (Suc d) root"
    using cwalk_run [OF assms(1), of lev "Suc d" root copy_start_walk, unfolded assms(2)] assms(3-5)
    by (auto simp: copy_start_walk_def)
  have found: "db_image lev (pages_seen s) (Suc d) root \<notin> {Missing, Empty}"
    using assms(3,5) by (cases lev; cases d) (auto split: option.splits)
  have "tree_contents s' d root' = tree_contents s d root \<and>
      (plain_items (db_image lev (pages_seen s) (Suc d) root) \<longrightarrow> tree_items s' d root' = tree_items s d root)"
    if "holds (pages_seen s') (cw_out w')" for s'
  proof -
    have same: "db_image lev (pages_seen s') (Suc d) root' = db_image lev (pages_seen s) (Suc d) root"
      using w(2,5) that by (simp add: walked_def copy_start_walk_def)
    have "root' \<noteq> P_INVALID"
    proof
      assume "root' = P_INVALID"
      then have "db_image lev (pages_seen s') (Suc d) root' \<in> {Missing, Empty}" by (cases lev) simp_all
      then show False using found same by simp
    qed
    then show ?thesis
      using db_contents [of lev s' d root'] db_contents [OF found assms(6)] found assms(5,6) same
        db_items [of lev s' "Suc d" root'] db_items [of lev s "Suc d" root] by simp
  qed
  then show ?thesis using w(1) by blast
qed

text \<open>A read-only transaction sees the pages of the map.\<close>

lemma pages_seen_snapshot: "any_set (mt_flags (st_txn s)) MDB_TXN_RDONLY \<Longrightarrow> pages_seen s = snapshot s"
  by (rule ext) (simp add: pages_seen_def snapshot_def page_of_def page_lookup_def)

text \<open>
  C8: The contents of a database survive a compacting copy. The walk reads the pages of a state in
  a read-only transaction; the database has keys and values and may have records of named databases,
  which have keys and values only. Let another state, one that has opened the copy, find the pages
  the walk handed over by their new numbers. Then the tree below the new root has there the keys of
  the old tree in the same order, each with the same value, or with a record of the same fields but
  the root, whose new root has below it the items of the named database. Where there are no such
  records, the items of the tree are the same bytes.
\<close>

theorem copy_keeps_items:
  assumes "\<And>n. cs_malloc cs n" "cs_get cs = snapshot s" "any_set (mt_flags (st_txn s)) MDB_TXN_RDONLY"
    and "db_fit lev (cs_psize cs) (snapshot s) (Suc d) root" "2 + db_count lev (snapshot s) (Suc d) root \<le> 2 ^ 48"
    and "root \<noteq> P_INVALID" "known_items (db_image lev (snapshot s) (Suc d) root)"
  shows "\<exists>w' root'. mdb_env_cwalk lev cs root False copy_start_walk = Some (w', Inr root') \<and>
    (\<forall>s'. holds (pages_seen s') (cw_out w') \<longrightarrow> tree_contents s' d root' = tree_contents s d root \<and>
       (plain_items (db_image lev (snapshot s) (Suc d) root) \<longrightarrow> tree_items s' d root' = tree_items s d root))"
  using items_kept [of cs s lev d root] assms pages_seen_snapshot [OF assms(3)] by simp

section \<open>An example\<close>

text \<open>A tree of three pages of 100 bytes: page 7 with the children 3 and 4.\<close>

definition twig :: mdb_page where
  "twig = \<lparr>mp_pgno = 7, mp_pad = 0, mp_flags = P_BRANCH, mp_lower = 20, mp_upper = 82,
     mp_ptrs = (\<lambda>i. if i = 0 then 82 else 90),
     mp_body = (\<lambda>_. 0)(82 := 3, 90 := 4, 96 := 1, 98 := 7)\<rparr>"

definition source0 :: copy_source where
  "source0 = \<lparr>cs_get = [7 \<mapsto> twig, 3 \<mapsto> leaf_page 3 5 6, 4 \<mapsto> leaf_page 4 7 9], cs_psize = 100,
     cs_junk = (\<lambda>_. empty_page 100 P_LEAF), cs_malloc = (\<lambda>_. True)\<rparr>"

lemma twig_simps [simp]: "NUMKEYS twig = 2" "\<not> IS_LEAF twig" "IS_BRANCH twig" "\<not> IS_LEAF2 twig"
  "NODEPTR twig 0 = 82" "NODEPTR twig (Suc 0) = 90" "child twig 0 = 3" "child twig (Suc 0) = 4"
proof -
  show n: "NUMKEYS twig = 2" "\<not> IS_LEAF twig" "IS_BRANCH twig" "\<not> IS_LEAF2 twig"
    by (simp_all add: twig_def NUMKEYS_def PAGEHDRSZ_def PAGEBASE_def NODEPTR_def IS_LEAF_def IS_BRANCH_def
        IS_LEAF2_def F_ISSET_def P_LEAF_def P_BRANCH_def P_LEAF2_def)
  show p: "NODEPTR twig 0 = 82" "NODEPTR twig (Suc 0) = 90" by (simp_all add: twig_def NODEPTR_def PAGEBASE_def)
  show "child twig 0 = 3" "child twig (Suc 0) = 4"
    unfolding child_def p NODEPGNO_def by (simp_all add: twig_def mn_lo_def mn_hi_def mn_flags_def rd16_def)
qed

lemma twig_nodes: "NODEKEY (mp_body twig) 82 = []" "NODEKEY (mp_body twig) 90 = [7]"
  "node_len False (mp_body twig) 82 = 8" "node_len False (mp_body twig) 90 = 9"
proof -
  have k: "NODEKSZ (mp_body twig) 82 = 0" "NODEKSZ (mp_body twig) 90 = 1"
    by (simp_all add: twig_def NODEKSZ_def mn_ksize_def rd16_def)
  show "NODEKEY (mp_body twig) 82 = []" "NODEKEY (mp_body twig) 90 = [7]"
    by (simp_all add: NODEKEY_def k NODESIZE_def rd_def) (simp_all add: twig_def)
  show "node_len False (mp_body twig) 82 = 8" "node_len False (mp_body twig) 90 = 9" by (simp_all add: node_len_def k NODESIZE_def)
qed

lemma leaf_page_data:
  fixes a b :: u8 and pg :: u64
  defines "m \<equiv> mp_body (leaf_page pg a b)"
  shows "node_data m 80 = [a + 100]" "node_data m 90 = [b + 100]" "node_len True m 80 = 10" "node_len True m 90 = 10"
proof -
  have k: "NODEKSZ m 80 = 1" "NODEKSZ m 90 = 1" "unat (NODEDSZ m 80) = 1" "unat (NODEDSZ m 90) = 1" "mn_flags m 80 = 0" "mn_flags m 90 = 0"
    by (simp_all add: m_def leaf_page_def NODEKSZ_def mn_ksize_def mn_flags_def NODEDSZ_def mn_lo_def mn_hi_def rd16_def)
  show "node_data m 80 = [a + 100]" "node_data m 90 = [b + 100]"
    using leaf_page_nodes(5,6) [of pg a b] by (simp_all add: node_data_def k m_def [symmetric] F_ISSET_def F_BIGDATA_def)
  show "node_len True m 80 = 10" "node_len True m 90 = 10"
    by (simp_all add: node_len_def k NODESIZE_def F_ISSET_def F_BIGDATA_def)
qed

lemma page_ok_example: "page_ok 100 twig" "page_ok 100 (leaf_page pg a b)"
proof -
  have t: "mp_ptrs twig 0 = 82" "mp_ptrs twig (Suc 0) = 90" "mp_upper twig = 82" "mp_lower twig = 20" by (simp_all add: twig_def)
  have l: "mp_ptrs (leaf_page pg a b) 0 = 80" "mp_ptrs (leaf_page pg a b) (Suc 0) = 90" "mp_upper (leaf_page pg a b) = 80"
    "mp_lower (leaf_page pg a b) = 20" by (simp_all add: leaf_page_def)
  have u: "[0..<2] = [0, Suc 0]" by (simp add: numeral_2_eq_2)
  have e: "EVEN 8 = 8" "EVEN 9 = 10" "EVEN 10 = 10" by (simp_all add: EVEN_def)
  have s: "node_sz twig 0 = 8" "node_sz twig (Suc 0) = 10" "node_sz (leaf_page pg a b) 0 = 10" "node_sz (leaf_page pg a b) (Suc 0) = 10"
    by (simp_all add: node_sz_def t l e twig_nodes leaf_page_data)
  show "page_ok 100 twig"
    by (simp add: page_ok_def less_2 page_nodes_def PAGEHDRSZ_def t s u e twig_nodes)
  show "page_ok 100 (leaf_page pg a b)"
    by (simp add: page_ok_def less_2 page_nodes_def PAGEHDRSZ_def l s u e leaf_page_data)
qed

lemma example_facts:
  assumes get: "get 7 = Some twig" "get 3 = Some (leaf_page 3 5 6)" "get 4 = Some (leaf_page 4 7 9)"
  shows "db_fit 1 100 get 2 7" "db_count 1 get 2 7 = 3"
    "db_image 1 get 2 7 = Branch_image
      [([], Leaf_image [([5], Value [105]), ([6], Value [106])]), ([7], Leaf_image [([7], Value [107]), ([9], Value [109])])]"
proof -
  have u: "[0..<2] = [0, Suc 0]" by (simp add: numeral_2_eq_2)
  have two: "2 - Suc 0 = Suc 0" "(7 :: u64) \<noteq> P_INVALID" by (simp_all add: P_INVALID_def)
  have f: "\<not> F_ISSET 0 F_BIGDATA" "\<not> F_ISSET 0 F_SUBDATA" by (simp_all add: F_ISSET_def F_BIGDATA_def F_SUBDATA_def)
  show "db_fit 1 100 get 2 7"
    by (simp add: get two less_2 page_ok_example value_fit_def leaf_page_nodes f CURSOR_STACK_def)
  show "db_count 1 get 2 7 = 3"
    by (simp add: get two u value_count_def leaf_page_nodes f)
  show "db_image 1 get 2 7 = Branch_image
      [([], Leaf_image [([5], Value [105]), ([6], Value [106])]), ([7], Leaf_image [([7], Value [107]), ([9], Value [109])])]"
    by (simp add: get two u value_at_def leaf_page_nodes leaf_page_data twig_nodes f Let_def)
qed

lemma source0_facts: "db_fit 1 (cs_psize source0) (cs_get source0) 2 7" "db_count 1 (cs_get source0) 2 7 = 3"
  "db_image 1 (cs_get source0) 2 7 = Branch_image
     [([], Leaf_image [([5], Value [105]), ([6], Value [106])]), ([7], Leaf_image [([7], Value [107]), ([9], Value [109])])]"
  using example_facts [of "cs_get source0"] by (simp_all add: source0_def)

text \<open>The same pages in a state.\<close>

definition state7 :: mdb_state where
  "state7 = state0\<lparr>st_txn := (st_txn state0)\<lparr>mt_next_pgno := 8\<rparr>, st_map := (st_map state0)(7 := twig)\<rparr>"

lemma page_of_state7: "page_of state7 7 = Some (MapPg 7, twig)" "page_of state7 3 = Some (MapPg 3, leaf_page 3 5 6)"
  "page_of state7 4 = Some (MapPg 4, leaf_page 4 7 9)"
  by (simp_all add: page_of_def page_lookup_def state7_def state0_def any_set_def MDB_TXN_RDONLY_def)

theorem cwalk_copies_tree_witness:
  "\<exists>w' root'. mdb_env_cwalk 1 source0 7 False copy_start_walk = Some (w', Inr root') \<and>
    numbered 2 (cw_out w') \<and> pages_of (cw_out w') = 3 \<and>
    db_image 1 (copied (cw_out w')) 2 root' = Branch_image
      [([], Leaf_image [([5], Value [105]), ([6], Value [106])]), ([7], Leaf_image [([7], Value [107]), ([9], Value [109])])]"
  using cwalk_copies_tree [of source0 1 2 7, unfolded source0_facts(2,3)] source0_facts(1) by (simp add: source0_def)

theorem copy_meta_names_root_witness:
  "\<exists>(txn :: mdb_txn) w'. mt_next_pgno txn = 7 \<and>
    mdb_env_cwalk 1 source0 7 False copy_start_walk
      = Some (w', Inr (md_root (snd (mm_dbs (snd (copy_metas env0 txn 2 (me_metas env0 0))))))) \<and>
    unat (mm_last_pg (snd (copy_metas env0 txn 2 (me_metas env0 0)))) = 1 + pages_of (cw_out w')"
proof -
  let ?txn = "txn1\<lparr>mt_next_pgno := 7, mt_dbs := (mt_dbs txn1)(MAIN_DBI := db0\<lparr>md_root := 7\<rparr>)\<rparr>"
  have r: "md_root (mt_dbs ?txn MAIN_DBI) = 7" "mt_next_pgno ?txn = 7" by simp_all
  have "\<exists>w'. mdb_env_cwalk 1 source0 7 False copy_start_walk
      = Some (w', Inr (md_root (snd (mm_dbs (snd (copy_metas env0 ?txn 2 (me_metas env0 0))))))) \<and>
    unat (mm_last_pg (snd (copy_metas env0 ?txn 2 (me_metas env0 0)))) = 1 + pages_of (cw_out w')"
  proof (rule copy_meta_names_root [of source0 ?txn 1 2 2 env0 "me_metas env0 0", unfolded r])
    show "cs_malloc source0 n" for n by (simp add: source0_def)
    show "(7 :: u64) \<noteq> P_INVALID" by (simp add: P_INVALID_def)
    show "db_fit 1 (cs_psize source0) (cs_get source0) 2 7" by (rule source0_facts)
    show "2 + db_count 1 (cs_get source0) 2 7 \<le> 2 ^ 48" unfolding source0_facts by simp
    show "unat (7 :: u64) = 2 + db_count 1 (cs_get source0) 2 7 + unat (2 :: u64)" unfolding source0_facts by simp
  qed
  then show ?thesis using r(2) by blast
qed

theorem copy_keeps_items_witness:
  "\<exists>w' root'. mdb_env_cwalk 1 (source0\<lparr>cs_get := snapshot state7\<rparr>) 7 False copy_start_walk = Some (w', Inr root') \<and>
    (\<forall>s'. holds (pages_seen s') (cw_out w') \<longrightarrow>
      tree_items s' 1 root' = [([5], [105]), ([6], [106]), ([7], [107]), ([9], [109])])"
proof -
  have ro: "any_set (mt_flags (st_txn state7)) MDB_TXN_RDONLY" by (simp add: state7_def state0_def any_set_def MDB_TXN_RDONLY_def)
  have get: "snapshot state7 7 = Some twig" "snapshot state7 3 = Some (leaf_page 3 5 6)" "snapshot state7 4 = Some (leaf_page 4 7 9)"
    by (simp_all add: pages_seen_snapshot [OF ro, symmetric] pages_seen_def page_of_state7)
  note e = example_facts [OF get, unfolded numeral_2_eq_2]
  have u: "[0..<2] = [0, Suc 0]" by (simp add: numeral_2_eq_2)
  have "tree_items state7 1 7 = [([5], [105]), ([6], [106]), ([7], [107]), ([9], [109])]"
    by (simp add: page_of_state7 leaf_items_def u leaf_page_nodes)
  moreover have "(7 :: u64) \<noteq> P_INVALID" by (simp add: P_INVALID_def)
  moreover have "plain_items (db_image 1 (snapshot state7) (Suc (Suc 0)) 7)"
    "known_items (db_image 1 (snapshot state7) (Suc (Suc 0)) 7)"
    unfolding e(3) by simp_all
  ultimately show ?thesis
    using copy_keeps_items [of "source0\<lparr>cs_get := snapshot state7\<rparr>" state7 1 1 7] ro e(1,2)
    by (simp add: source0_def del: mdb_env_cwalk.simps db_fit.simps db_count.simps db_image.simps tree_items.simps tree_contents.simps) blast
qed

definition empty_copy :: mdb_state where
  "empty_copy = state0\<lparr>st_txn := (st_txn state0)\<lparr>mt_dbs := (\<lambda>_. db0\<lparr>md_root := 1\<rparr>)\<rparr>,
     st_cursors := (\<lambda>_. (st_cursors state0 0)\<lparr>mc_dbi := MAIN_DBI\<rparr>)\<rparr>"

theorem empty_copy_unusable_witness:
  "\<exists>txn :: mdb_txn. md_root (mt_dbs txn MAIN_DBI) = P_INVALID \<and>
    mdb_env_cwalk 1 source0 (md_root (mt_dbs txn MAIN_DBI)) False copy_start_walk = Some (copy_start_walk, Inr P_INVALID) \<and>
    search_ro 0 (Some [5]) 0 empty_copy = None"
proof -
  let ?txn = "txn1\<lparr>mt_next_pgno := 2, mt_dbs := (\<lambda>_. db0\<lparr>md_root := P_INVALID\<rparr>)\<rparr>"
  have "\<not> F_ISSET (mt_flags (st_txn empty_copy)) MDB_TXN_ERROR" "\<not> any_set (mt_dbflags (st_txn empty_copy) MAIN_DBI) DB_STALE"
    by (simp_all add: empty_copy_def state0_def txn1_def F_ISSET_def any_set_def MDB_TXN_ERROR_def MDB_TXN_RDONLY_def DB_STALE_def DB_VALID_def)
  then have "mdb_env_cwalk 1 source0 (md_root (mt_dbs ?txn MAIN_DBI)) False copy_start_walk = Some (copy_start_walk, Inr P_INVALID) \<and>
    search_ro 0 (Some [5]) 0 empty_copy = None"
    by (intro empty_copy_unusable [of ?txn 0 empty_copy 0 env0 "me_metas env0 0"])
      (simp_all add: empty_copy_def copy_metas_def Let_def)
  moreover have "md_root (mt_dbs ?txn MAIN_DBI) = P_INVALID" by simp
  ultimately show ?thesis by blast
qed

end
