(* ===== verification/Touch.thy ===== *)
theory Touch
  imports Alloc Copy_Tree
begin

text \<open>
  Copy on write, one page at a time: \<open>mdb_page_touch\<close> gives the page a cursor stands on a
  copy in memory under another number, hangs the copy into the tree and leaves the page
  itself, which readers may use, as it is. The page for the copy is one the transaction has
  at hand: a loose page, or memory under a reclaimed number.
\<close>

section \<open>A page at hand\<close>

text \<open>
  The address and the number of the page \<open>mdb_page_alloc\<close> hands out when it need not read
  the free database.
\<close>

definition next_addr :: "mdb_state \<Rightarrow> nat" where
  "next_addr s = (case mt_loose_pgs (st_txn s) of
     HeapPg a # _ \<Rightarrow> a
   | _ \<Rightarrow> (case me_dpages (st_env s) of a # _ \<Rightarrow> a | [] \<Rightarrow> st_fresh s))"

definition next_pgno :: "mdb_state \<Rightarrow> u64" where
  "next_pgno s = (case mt_loose_pgs (st_txn s) of
     HeapPg a # _ \<Rightarrow> mp_pgno (the (st_heap s a))
   | _ \<Rightarrow> last (idl_elems (mi_ids (the (me_pghead (st_env s))))))"

definition dirty_set :: "mdb_state \<Rightarrow> page_ref mdb_id2 set" where
  "dirty_set s = set (id2l_elems (mt_dirty_list (st_txn s)))"

definition loose_at_hand :: "mdb_state \<Rightarrow> bool" where
  "loose_at_hand s \<longleftrightarrow> (\<exists>a q rest. mt_loose_pgs (st_txn s) = HeapPg a # rest \<and> st_heap s a = Some q \<and>
     \<lparr>mid = mp_pgno q, mptr = HeapPg a\<rparr> \<in> dirty_set s)"

definition number_at_hand :: "mdb_state \<Rightarrow> bool" where
  "number_at_hand s \<longleftrightarrow> mt_loose_pgs (st_txn s) = [] \<and> mt_dirty_room (st_txn s) \<noteq> 0 \<and>
     (\<exists>l. me_pghead (st_env s) = Some l \<and> idl_ok (mi_ids l) \<and> 0 < idl_count (mi_ids l)) \<and>
     id2l_wf (mt_dirty_list (st_txn s)) \<and> id2l_count (mt_dirty_list (st_txn s)) < MDB_IDL_UM_MAX \<and>
     next_pgno s \<notin> mid ` dirty_set s \<and>
     (\<forall>a \<in> set (me_dpages (st_env s)). st_heap s a \<noteq> None) \<and> st_heap s (st_fresh s) = None"

text \<open>What taking it changes.\<close>

definition same_but :: "mdb_state \<Rightarrow> mdb_state \<Rightarrow> bool" where
  "same_but s s' \<longleftrightarrow> st_map s' = st_map s \<and> st_cursors s' = st_cursors s \<and>
     me_flags (st_env s') = me_flags (st_env s) \<and> me_psize (st_env s') = me_psize (st_env s) \<and>
     mt_dbs (st_txn s') = mt_dbs (st_txn s) \<and> mt_cursors (st_txn s') = mt_cursors (st_txn s) \<and>
     mt_free_pgs (st_txn s') = mt_free_pgs (st_txn s)"

definition page_taken :: "mdb_state \<Rightarrow> mdb_state \<Rightarrow> bool" where
  "page_taken s s' \<longleftrightarrow> same_but s s' \<and>
     (\<exists>q. st_heap s' = (st_heap s)(next_addr s := Some q) \<and> mp_pgno q = next_pgno s) \<and>
     dirty_set s' = insert \<lparr>mid = next_pgno s, mptr = HeapPg (next_addr s)\<rparr> (dirty_set s)"

definition page_refused :: "mdb_state \<Rightarrow> mdb_state \<Rightarrow> bool" where
  "page_refused s s' \<longleftrightarrow> same_but s s' \<and> st_heap s' = st_heap s \<and> dirty_set s' = dirty_set s \<and>
     any_set (mt_flags (st_txn s')) MDB_TXN_ERROR"

lemma alloc_loose:
  assumes "loose_at_hand s"
  shows "\<exists>s'. mdb_page_alloc 1 s = Some (s', Inr (HeapPg (next_addr s))) \<and> page_taken s s'"
proof -
  obtain a q rest where l: "mt_loose_pgs (st_txn s) = HeapPg a # rest" "st_heap s a = Some q"
    "\<lparr>mid = mp_pgno q, mptr = HeapPg a\<rparr> \<in> dirty_set s"
    using assms by (auto simp: loose_at_hand_def)
  moreover have "st_heap s = (st_heap s)(a := Some q)" using l(2) by auto
  ultimately show ?thesis
    by (auto simp: mdb_page_alloc_def op_simps page_taken_def same_but_def next_addr_def next_pgno_def
        dirty_set_def insert_absorb)
qed

lemma error_any_set: "any_set (fl OR MDB_TXN_ERROR) MDB_TXN_ERROR"
  by (simp add: any_set_def MDB_TXN_ERROR_def bit.conj_disj_distrib2)

lemma search_last:
  assumes "me_pghead (st_env s) = Some l" "0 < idl_count (mi_ids l)"
  shows "alloc_search 1 k None s = Some (s, Inr (Some (idl_count (mi_ids l))))"
proof -
  have "find_range (mi_ids l) 0 n = Some n" if "0 < n" for n
    using that by (cases n) auto
  then show ?thesis
    using assms by (subst alloc_search.simps) (simp add: pghead_ids_def Let_def idl_count_def)
qed

text \<open>Entering the new page into the dirty list.\<close>

lemma page_dirty_run:
  assumes "st_heap s a = Some p" "\<not> any_set (me_flags (st_env s)) MDB_WRITEMAP"
    and "id2l_wf (mt_dirty_list (st_txn s))" "id2l_count (mt_dirty_list (st_txn s)) < MDB_IDL_UM_MAX"
    and "mp_pgno p \<notin> mid ` dirty_set s"
  shows "\<exists>t. mdb_page_dirty (HeapPg a) s = Some (s\<lparr>st_txn := t\<rparr>, Inr ()) \<and>
    mt_dbs t = mt_dbs (st_txn s) \<and> mt_cursors t = mt_cursors (st_txn s) \<and> mt_free_pgs t = mt_free_pgs (st_txn s) \<and>
    set (id2l_elems (mt_dirty_list t)) = insert \<lparr>mid = mp_pgno p, mptr = HeapPg a\<rparr> (dirty_set s)"
proof -
  obtain rc dl where i: "mdb_mid2l_insert (mt_dirty_list (st_txn s)) \<lparr>mid = mp_pgno p, mptr = HeapPg a\<rparr> = (rc, dl)"
    by (cases "mdb_mid2l_insert (mt_dirty_list (st_txn s)) \<lparr>mid = mp_pgno p, mptr = HeapPg a\<rparr>")
  have set: "set (insert_at i x xs) = insert x (set xs)" for i and x :: "page_ref mdb_id2" and xs
    using mset_insert_at [of i x xs] by (metis set_mset_mset set_mset_add_mset_insert)
  have "rc = 0" "set (id2l_elems dl) = insert \<lparr>mid = mp_pgno p, mptr = HeapPg a\<rparr> (dirty_set s)"
    using id2l_wf_insert [OF assms(3), of "\<lparr>mid = mp_pgno p, mptr = HeapPg a\<rparr>"] i assms(4,5)
    by (auto simp: dirty_set_def set)
  then show ?thesis
    using assms(1,2) i by (simp add: mdb_page_dirty_def op_simps)
      (rule exI [of _ "(st_txn s)\<lparr>mt_dirty_list := dl, mt_dirty_room := mt_dirty_room (st_txn s) - 1\<rparr>"], simp)
qed

lemma take_butlast:
  assumes "idl_ok ids" "0 < idl_count ids"
  shows "ids ! idl_count ids = last (idl_elems ids)"
    "move_stragglers (ids[0 := word_of_nat (idl_count ids - 1)]) (idl_count ids - 1) i (idl_count ids - 1) =
      ids[0 := word_of_nat (idl_count ids - 1)]"
proof -
  have "idl_elems ids \<noteq> []" using assms by (metis length_idl_elems list.size(3) nat_less_le)
  then have "last (idl_elems ids) = idl_elems ids ! (idl_count ids - 1)" using assms by (simp add: last_conv_nth)
  then show "ids ! idl_count ids = last (idl_elems ids)" using assms nth_idl_elems [of ids "idl_count ids - 1"] by simp
qed (simp add: move_stragglers.simps)

text \<open>The memory for a page of the map.\<close>

lemma malloc_one:
  assumes "mt_loose_pgs (st_txn s) = []" "\<forall>a \<in> set (me_dpages (st_env s)). st_heap s a \<noteq> None"
  shows "\<exists>s' np. mdb_page_malloc 1 s = Some (s', Inr np) \<and> same_but s s' \<and>
    me_pghead (st_env s') = me_pghead (st_env s) \<and> mt_dirty_list (st_txn s') = mt_dirty_list (st_txn s) \<and>
    (if np = NullPg then st_heap s' = st_heap s \<and> \<not> st_oracle s (st_clock s)
     else np = HeapPg (next_addr s) \<and> (\<exists>q. st_heap s' = (st_heap s)(next_addr s := Some q)))"
proof (cases "me_dpages (st_env s)")
  case Nil
  then show ?thesis
    using assms(1) by (cases "st_oracle s (st_clock s)")
      (simp_all add: mdb_page_malloc_def op_simps next_addr_def Let_def same_but_def, blast)
next
  case (Cons a as)
  then obtain q where "st_heap s a = Some q" using assms(2) by auto
  then have "st_heap s = (st_heap s)(a := Some q)" by auto
  then show ?thesis
    using assms(1) Cons by (auto simp: mdb_page_malloc_def op_simps next_addr_def same_but_def)
qed

lemma alloc_number:
  assumes "number_at_hand s" "\<not> any_set (me_flags (st_env s)) MDB_WRITEMAP"
  shows "\<exists>s' r. mdb_page_alloc 1 s = Some (s', r) \<and>
    (r = Inr (HeapPg (next_addr s)) \<and> page_taken s s' \<or>
     r = Inl ENOMEM \<and> \<not> st_oracle s (st_clock s) \<and> page_refused s s')"
proof -
  obtain l where l: "me_pghead (st_env s) = Some l" "idl_ok (mi_ids l)" "0 < idl_count (mi_ids l)"
    and a: "mt_loose_pgs (st_txn s) = []" "mt_dirty_room (st_txn s) \<noteq> 0"
      "id2l_wf (mt_dirty_list (st_txn s))" "id2l_count (mt_dirty_list (st_txn s)) < MDB_IDL_UM_MAX"
      "next_pgno s \<notin> mid ` dirty_set s" "\<forall>a \<in> set (me_dpages (st_env s)). st_heap s a \<noteq> None"
    using assms(1) by (auto simp: number_at_hand_def)
  let ?n = "idl_count (mi_ids l)"
  have pgno: "mi_ids l ! ?n = next_pgno s" using take_butlast(1) [OF l(2,3)] a(1) l(1) by (simp add: next_pgno_def)
  obtain s1 np where m: "mdb_page_malloc 1 s = Some (s1, Inr np)" "same_but s s1"
      "me_pghead (st_env s1) = Some l" "mt_dirty_list (st_txn s1) = mt_dirty_list (st_txn s)"
      "if np = NullPg then st_heap s1 = st_heap s \<and> \<not> st_oracle s (st_clock s)
       else np = HeapPg (next_addr s) \<and> (\<exists>q. st_heap s1 = (st_heap s)(next_addr s := Some q))"
    using malloc_one [OF a(1,6)] l(1) by auto
  have run: "mdb_page_alloc 1 s = onfail fail_txn (take_pages 1 (Some ?n)) s"
    using a(1,2) search_last [OF l(1,3)] by (simp add: mdb_page_alloc_def op_simps)
  show ?thesis
  proof (cases "np = NullPg")
    case True
    have "take_pages 1 (Some ?n) s = Some (s1, Inl ENOMEM)"
      using assms(2) m(1) True by (simp add: take_pages_def op_simps Let_def)
    then have "mdb_page_alloc 1 s = Some (fail_txn s1, Inl ENOMEM)" unfolding run by (simp add: op_simps)
    moreover have "page_refused s (fail_txn s1)"
      using m True by (simp add: page_refused_def same_but_def dirty_set_def fail_txn_def error_any_set)
    ultimately show ?thesis using m(5) True by auto
  next
    case False
    then obtain q where q: "np = HeapPg (next_addr s)" "st_heap s1 = (st_heap s)(next_addr s := Some q)" using m(5) by auto
    define s2 where "s2 = s1\<lparr>st_env := (st_env s1)\<lparr>me_pghead := Some (l\<lparr>mi_ids := (mi_ids l)[0 := word_of_nat (?n - 1)]\<rparr>)\<rparr>,
      st_heap := (st_heap s1)(next_addr s := Some (q\<lparr>mp_pgno := next_pgno s\<rparr>))\<rparr>"
    have "take_pages 1 (Some ?n) s = seqM (mdb_page_dirty np) (ret np) s2"
      using assms(2) m(1,3) False q l(1) pgno take_butlast(2) [OF l(2,3), of ?n]
      by (simp add: take_pages_def op_simps Let_def s2_def pghead_ids_def idl_count_def)
    moreover obtain t where t: "mdb_page_dirty np s2 = Some (s2\<lparr>st_txn := t\<rparr>, Inr ())"
        "mt_dbs t = mt_dbs (st_txn s2) \<and> mt_cursors t = mt_cursors (st_txn s2) \<and> mt_free_pgs t = mt_free_pgs (st_txn s2)"
        "set (id2l_elems (mt_dirty_list t)) = insert \<lparr>mid = next_pgno s, mptr = HeapPg (next_addr s)\<rparr> (dirty_set s2)"
      using page_dirty_run [of s2 "next_addr s" "q\<lparr>mp_pgno := next_pgno s\<rparr>"] assms(2) a(3-5) m(2,4) q(1)
      by (auto simp: s2_def same_but_def dirty_set_def)
    ultimately have "mdb_page_alloc 1 s = Some (s2\<lparr>st_txn := t\<rparr>, Inr np)" unfolding run by (simp add: op_simps)
    moreover have "page_taken s (s2\<lparr>st_txn := t\<rparr>)"
      using m(2,4) q t by (simp add: page_taken_def same_but_def dirty_set_def s2_def)
        (rule exI [of _ "q\<lparr>mp_pgno := next_pgno s\<rparr>"], simp)
    ultimately show ?thesis using q(1) by auto
  qed
qed

section \<open>The cursors\<close>

definition redirected :: "(nat \<Rightarrow> mdb_cursor) \<Rightarrow> nat set \<Rightarrow> nat \<Rightarrow> nat \<Rightarrow> page_ref \<Rightarrow> page_ref \<Rightarrow> nat \<Rightarrow> mdb_cursor" where
  "redirected cs ms snum lvl mp np = (\<lambda>m.
     if m \<in> ms \<and> snum \<le> mc_snum (cs m) \<and> mc_pg (cs m) lvl = mp
     then (cs m)\<lparr>mc_pg := (mc_pg (cs m))(lvl := np)\<rparr> else cs m)"

lemma redirect_run:
  "mp \<noteq> np \<Longrightarrow> redirect_cursors ms snum lvl mp np s =
    Some (s\<lparr>st_cursors := redirected (st_cursors s) (set ms) snum lvl mp np\<rparr>, Inr ())"
proof (induction ms arbitrary: s)
  case Nil
  then show ?case by (simp add: op_simps redirected_def)
next
  case (Cons m ms)
  let ?c = "st_cursors s m"
  have "redirected (if snum \<le> mc_snum ?c \<and> mc_pg ?c lvl = mp
      then (st_cursors s)(m := ?c\<lparr>mc_pg := (mc_pg ?c)(lvl := np)\<rparr>) else st_cursors s) (set ms) snum lvl mp np =
    redirected (st_cursors s) (set (m # ms)) snum lvl mp np"
    using Cons.prems by (auto simp: redirected_def fun_eq_iff)
  then show ?case
    using Cons by (auto simp: op_simps)
qed

section \<open>The copy\<close>

text \<open>
  The page below the cursor is a well formed page of the map, and so far clean; the cursor
  came to it through a branch page that is dirty already, or it is the root. The transaction
  has spilled no page and has a page at hand, under another number.
\<close>

definition touch_ready :: "mdb_state \<Rightarrow> nat \<Rightarrow> u64 \<Rightarrow> bool" where
  "touch_ready s mc pg \<longleftrightarrow> (let c = st_cursors s mc; k = mc_top c - 1 in
     top_ref c = MapPg pg \<and> page_ok (me_psize (st_env s)) (st_map s pg) \<and>
     \<not> F_ISSET (mp_flags (st_map s pg)) P_DIRTY \<and> mp_pgno (st_map s pg) = pg \<and>
     \<not> any_set (me_flags (st_env s)) MDB_WRITEMAP \<and> \<not> any_set (mt_flags (st_txn s)) MDB_TXN_SPILLS \<and>
     midl_wf (mt_free_pgs (st_txn s)) \<and> idl_count (mi_ids (mt_free_pgs (st_txn s))) + 1 < 2 ^ 30 \<and>
     (loose_at_hand s \<or> number_at_hand s) \<and> next_pgno s \<noteq> pg \<and> next_pgno s < 2 ^ 48 \<and>
     (mc_top c \<noteq> 0 \<longrightarrow> (\<exists>b par. mc_pg c k = HeapPg b \<and> b \<noteq> next_addr s \<and> st_heap s b = Some par \<and>
        page_ok (me_psize (st_env s)) par \<and> \<not> IS_LEAF par \<and> mc_ki c k < NUMKEYS par)))"

text \<open>The root of the database, or the parent of the page, names the copy; all else is as before.\<close>

definition names_copy :: "mdb_state \<Rightarrow> mdb_state \<Rightarrow> mdb_cursor \<Rightarrow> u64 \<Rightarrow> bool" where
  "names_copy s s' c n \<longleftrightarrow>
     (if mc_top c = 0 then
        mt_dbs (st_txn s') = (mt_dbs (st_txn s))(mc_dbi c := (mt_dbs (st_txn s) (mc_dbi c))\<lparr>md_root := n\<rparr>) \<and>
        (\<forall>x. x \<noteq> next_addr s \<longrightarrow> st_heap s' x = st_heap s x)
      else
        mt_dbs (st_txn s') = mt_dbs (st_txn s) \<and>
        (\<exists>b par par'. mc_pg c (mc_top c - 1) = HeapPg b \<and> st_heap s b = Some par \<and> st_heap s' b = Some par' \<and>
           page_ok (me_psize (st_env s)) par' \<and> same_branch par' par \<and>
           (\<forall>i < NUMKEYS par. child par' i = (if i = mc_ki c (mc_top c - 1) then n else child par i)) \<and>
           (\<forall>x. x \<noteq> next_addr s \<and> x \<noteq> b \<longrightarrow> st_heap s' x = st_heap s x)))"

definition is_copy :: "nat \<Rightarrow> mdb_page \<Rightarrow> u64 \<Rightarrow> mdb_page \<Rightarrow> bool" where
  "is_copy psize p n q \<longleftrightarrow> page_nodes q = page_nodes p \<and> page_ok psize q \<and> mp_pgno q = n \<and>
     mp_flags q = mp_flags p OR P_DIRTY"

lemma alloc_at_hand:
  assumes "loose_at_hand s \<or> number_at_hand s" "\<not> any_set (me_flags (st_env s)) MDB_WRITEMAP"
  shows "\<exists>s' r. mdb_page_alloc 1 s = Some (s', r) \<and>
    (r = Inr (HeapPg (next_addr s)) \<and> page_taken s s' \<or>
     r = Inl ENOMEM \<and> \<not> st_oracle s (st_clock s) \<and> page_refused s s')"
  using assms alloc_loose [of s] alloc_number [of s] by blast

lemma at_hand_kept:
  assumes "mt_loose_pgs t = mt_loose_pgs (st_txn s)" "mt_dirty_room t = mt_dirty_room (st_txn s)"
    "mt_dirty_list t = mt_dirty_list (st_txn s)"
  shows "loose_at_hand (s\<lparr>st_clock := k, st_txn := t\<rparr>) = loose_at_hand s"
    "number_at_hand (s\<lparr>st_clock := k, st_txn := t\<rparr>) = number_at_hand s"
    "next_pgno (s\<lparr>st_clock := k, st_txn := t\<rparr>) = next_pgno s" "next_addr (s\<lparr>st_clock := k, st_txn := t\<rparr>) = next_addr s"
    "dirty_set (s\<lparr>st_clock := k, st_txn := t\<rparr>) = dirty_set s"
  using assms by (simp_all add: loose_at_hand_def number_at_hand_def next_pgno_def next_addr_def dirty_set_def
    cong: list.case_cong page_ref.case_cong)

lemma page_flags_copy [simp]: "mp_flags (mdb_page_copy dst src psize) = mp_flags src"
  by (simp add: mdb_page_copy_def Let_def page_memcpy_head_def page_memcpy_tail_def)

definition copy_of :: "nat \<Rightarrow> mdb_page \<Rightarrow> mdb_page \<Rightarrow> mdb_page" where
  "copy_of psize p q = (mdb_page_copy q p psize)\<lparr>mp_pgno := mp_pgno q, mp_flags := mp_flags p OR P_DIRTY\<rparr>"

lemma flags_dirty:
  "page_nodes (p\<lparr>mp_pgno := n, mp_flags := mp_flags p OR P_DIRTY\<rparr>) = page_nodes p"
  "page_ok psize (p\<lparr>mp_pgno := n, mp_flags := mp_flags p OR P_DIRTY\<rparr>) = page_ok psize p"
proof -
  have flag: "F_ISSET (w OR P_DIRTY) P_LEAF = F_ISSET w P_LEAF" "F_ISSET (w OR P_DIRTY) P_LEAF2 = F_ISSET w P_LEAF2" for w
    by (simp_all add: F_ISSET_def P_DIRTY_def P_LEAF_def P_LEAF2_def bit.conj_disj_distrib2)
  show "page_nodes (p\<lparr>mp_pgno := n, mp_flags := mp_flags p OR P_DIRTY\<rparr>) = page_nodes p"
    "page_ok psize (p\<lparr>mp_pgno := n, mp_flags := mp_flags p OR P_DIRTY\<rparr>) = page_ok psize p"
    by (simp_all add: page_ok_def page_nodes_def IS_LEAF2_def IS_LEAF_def NUMKEYS_def node_sz_def flag)
qed

lemma copy_of_copy: "page_ok psize p \<Longrightarrow> is_copy psize p (mp_pgno q) (copy_of psize p q)"
  using page_copy_spec [of psize p q] flags_dirty [where p = "mdb_page_copy q p psize"] by (simp add: is_copy_def copy_of_def)

text \<open>The state after a touch that got the memory at \<open>a\<close>, apart from the name of the copy.\<close>

definition touch_end :: "nat \<Rightarrow> u64 \<Rightarrow> nat \<Rightarrow> mdb_page \<Rightarrow> mdb_state \<Rightarrow> mdb_state" where
  "touch_end mc pg a q s = (let c = st_cursors s mc; t = st_txn s in
     s\<lparr>st_txn := t\<lparr>mt_free_pgs := (mt_free_pgs t)\<lparr>mi_ids := mdb_midl_xappend (mi_ids (mt_free_pgs t)) pg\<rparr>\<rparr>,
       st_heap := (st_heap s)(a := Some (copy_of (me_psize (st_env s)) (st_map s pg) q)),
       st_cursors := redirected ((st_cursors s)(mc := c\<lparr>mc_pg := (mc_pg c)(mc_top c := HeapPg a)\<rparr>))
         (set (mt_cursors t (mc_dbi c))) (mc_snum c) (mc_top c) (MapPg pg) (HeapPg a)\<rparr>)"

lemma touch_run:
  assumes "touch_ready s mc pg" "mdb_midl_need (st_oracle s (st_clock s)) (mt_free_pgs (st_txn s)) 1 = Inr l"
    and "mdb_page_alloc 1 (s\<lparr>st_clock := st_clock s + 1, st_txn := (st_txn s)\<lparr>mt_free_pgs := l\<rparr>\<rparr>) = Some (s2, Inr (HeapPg a))"
    and "st_heap s2 a = Some q" "mp_pgno q \<noteq> pg" "st_cursors s2 = st_cursors s" "st_map s2 = st_map s"
  shows "mc_top (st_cursors s mc) = 0 \<Longrightarrow> mdb_page_touch mc s = Some (touch_end mc pg a q
      (s2\<lparr>st_txn := (st_txn s2)\<lparr>mt_dbs := (mt_dbs (st_txn s2))(mc_dbi (st_cursors s mc) :=
         (mt_dbs (st_txn s2) (mc_dbi (st_cursors s mc)))\<lparr>md_root := mp_pgno q\<rparr>)\<rparr>\<rparr>), Inr ())"
    and "\<lbrakk>mc_top (st_cursors s mc) \<noteq> 0; mc_pg (st_cursors s mc) (mc_top (st_cursors s mc) - 1) = HeapPg b;
      b \<noteq> a; st_heap s2 b = Some par\<rbrakk> \<Longrightarrow> mdb_page_touch mc s = Some (touch_end mc pg a q
      (s2\<lparr>st_heap := (st_heap s2)(b := Some (name_child par (mc_ki (st_cursors s mc) (mc_top (st_cursors s mc) - 1)) (mp_pgno q)))\<rparr>), Inr ())"
proof -
  note r = assms(1) [unfolded touch_ready_def Let_def]
  show "mdb_page_touch mc s = Some (touch_end mc pg a q
      (s2\<lparr>st_txn := (st_txn s2)\<lparr>mt_dbs := (mt_dbs (st_txn s2))(mc_dbi (st_cursors s mc) :=
         (mt_dbs (st_txn s2) (mc_dbi (st_cursors s mc)))\<lparr>md_root := mp_pgno q\<rparr>)\<rparr>\<rparr>), Inr ())"
    if "mc_top (st_cursors s mc) = 0"
    using r that assms(2-) unfolding mdb_page_touch_def touch_copy_def touch_done_def idlM_def
    by (simp add: op_simps Let_def redirect_run touch_end_def copy_of_def)
  show "mdb_page_touch mc s = Some (touch_end mc pg a q
      (s2\<lparr>st_heap := (st_heap s2)(b := Some (name_child par (mc_ki (st_cursors s mc) (mc_top (st_cursors s mc) - 1)) (mp_pgno q)))\<rparr>), Inr ())"
    if "mc_top (st_cursors s mc) \<noteq> 0" "mc_pg (st_cursors s mc) (mc_top (st_cursors s mc) - 1) = HeapPg b"
      "b \<noteq> a" "st_heap s2 b = Some par"
    using r that assms(2-) unfolding mdb_page_touch_def touch_copy_def touch_done_def idlM_def
    by (simp add: op_simps Let_def redirect_run touch_end_def copy_of_def name_child_def)
qed

lemma redirected_self:
  assumes "mc_pg (cs mc) lvl = mp" "snum \<le> mc_snum (cs mc)"
  shows "redirected (cs(mc := (cs mc)\<lparr>mc_pg := (mc_pg (cs mc))(lvl := np)\<rparr>)) ms snum lvl mp np =
    redirected cs (insert mc ms) snum lvl mp np"
  using assms by (auto simp: redirected_def fun_eq_iff)

lemma touch_failed:
  assumes "page_refused s0 s1" "st_heap s0 = st_heap s" "st_cursors s0 = st_cursors s" "dirty_set s0 = dirty_set s"
    "mt_dbs (st_txn s0) = mt_dbs (st_txn s)" "st_map s0 = st_map s"
  shows "st_heap (fail_txn s1) = st_heap s" "st_cursors (fail_txn s1) = st_cursors s" "dirty_set (fail_txn s1) = dirty_set s"
    "mt_dbs (st_txn (fail_txn s1)) = mt_dbs (st_txn s)" "st_map (fail_txn s1) = st_map s"
    "mt_free_pgs (st_txn (fail_txn s1)) = mt_free_pgs (st_txn s0)"
    "any_set (mt_flags (st_txn (fail_txn s1))) MDB_TXN_ERROR"
  using assms by (simp_all add: page_refused_def same_but_def fail_txn_def dirty_set_def error_any_set)

text \<open>What a touch that got the memory has done.\<close>

definition touched :: "mdb_state \<Rightarrow> mdb_state \<Rightarrow> nat \<Rightarrow> u64 \<Rightarrow> bool" where
  "touched s s' mc pg \<longleftrightarrow> (let c = st_cursors s mc; n = next_pgno s; a = next_addr s in
     (\<exists>q. st_heap s' a = Some q \<and> is_copy (me_psize (st_env s)) (st_map s pg) n q) \<and>
     names_copy s s' c n \<and>
     idl_elems (mi_ids (mt_free_pgs (st_txn s'))) = idl_elems (mi_ids (mt_free_pgs (st_txn s))) @ [pg] \<and>
     dirty_set s' = insert \<lparr>mid = n, mptr = HeapPg a\<rparr> (dirty_set s) \<and>
     st_cursors s' = redirected (st_cursors s) (insert mc (set (mt_cursors (st_txn s) (mc_dbi c))))
       (mc_snum c) (mc_top c) (MapPg pg) (HeapPg a))"

lemma names_copy_cong:
  assumes "mt_dbs (st_txn s1) = mt_dbs (st_txn s2)" "st_heap s1 = st_heap s2"
  shows "names_copy s s1 c n = names_copy s s2 c n"
  unfolding names_copy_def assms ..

lemma touch_end_touched:
  assumes ready: "touch_ready s mc pg" and s0: "s0 = s\<lparr>st_clock := st_clock s + 1, st_txn := (st_txn s)\<lparr>mt_free_pgs := l\<rparr>\<rparr>"
    and l: "midl_wf l" "idl_elems (mi_ids l) = idl_elems (mi_ids (mt_free_pgs (st_txn s)))" "idl_count (mi_ids l) < mi_alloc l"
    and taken: "page_taken s0 s2" and q: "st_heap s2 (next_addr s) = Some q" "mp_pgno q = next_pgno s"
    and s3: "same_but (s2\<lparr>st_txn := (st_txn s2)\<lparr>mt_dbs := dbs\<rparr>\<rparr>) s3" "mt_dirty_list (st_txn s3) = mt_dirty_list (st_txn s2)"
    and named: "names_copy s (s3\<lparr>st_heap := (st_heap s3)(next_addr s := Some x)\<rparr>) (st_cursors s mc) (next_pgno s)"
      "x = copy_of (me_psize (st_env s)) (st_map s pg) q"
  shows "touched s (touch_end mc pg (next_addr s) q s3) mc pg" "st_map (touch_end mc pg (next_addr s) q s3) = st_map s"
proof -
  have same: "st_map s3 = st_map s" "st_cursors s3 = st_cursors s" "me_psize (st_env s3) = me_psize (st_env s)"
    "mt_cursors (st_txn s3) = mt_cursors (st_txn s)" "mt_free_pgs (st_txn s3) = l"
    "dirty_set s3 = insert \<lparr>mid = next_pgno s, mptr = HeapPg (next_addr s)\<rparr> (dirty_set s)"
    using taken s3 at_hand_kept [of "(st_txn s)\<lparr>mt_free_pgs := l\<rparr>" s "st_clock s + 1"]
    by (simp_all add: s0 page_taken_def same_but_def dirty_set_def)
  show "st_map (touch_end mc pg (next_addr s) q s3) = st_map s" by (simp add: touch_end_def Let_def same(1))
  have ok: "page_ok (me_psize (st_env s)) (st_map s pg)" "top_ref (st_cursors s mc) = MapPg pg"
    using ready by (auto simp: touch_ready_def Let_def)
  then have copy: "is_copy (me_psize (st_env s)) (st_map s pg) (next_pgno s) x" using copy_of_copy q(2) named(2) by metis
  have names: "names_copy s (touch_end mc pg (next_addr s) q s3) (st_cursors s mc) (next_pgno s)"
    by (rule names_copy_cong [THEN iffD1, OF _ _ named(1)]) (simp_all add: touch_end_def Let_def same named(2))
  show "touched s (touch_end mc pg (next_addr s) q s3) mc pg"
    unfolding touched_def Let_def
    using copy names named(2) midl_xappend_spec(1) [OF l(1,3)] l(2) ok(2)
    by (simp add: touch_end_def Let_def same dirty_set_def [of "s3\<lparr>st_txn := _, st_heap := _, st_cursors := _\<rparr>"]
      redirected_self top_ref_def) (use same(6) in \<open>simp add: dirty_set_def\<close>)
qed

lemma touch_success:
  assumes ready: "touch_ready s mc pg" and s0: "s0 = s\<lparr>st_clock := st_clock s + 1, st_txn := (st_txn s)\<lparr>mt_free_pgs := l\<rparr>\<rparr>"
    and need: "mdb_midl_need (st_oracle s (st_clock s)) (mt_free_pgs (st_txn s)) 1 = Inr l"
    and l: "midl_wf l" "idl_elems (mi_ids l) = idl_elems (mi_ids (mt_free_pgs (st_txn s)))" "idl_count (mi_ids l) < mi_alloc l"
    and run: "mdb_page_alloc 1 s0 = Some (s2, Inr (HeapPg (next_addr s)))" and taken: "page_taken s0 s2"
  shows "\<exists>s'. mdb_page_touch mc s = Some (s', Inr ()) \<and> st_map s' = st_map s \<and> touched s s' mc pg"
proof -
  let ?c = "st_cursors s mc" and ?a = "next_addr s"
  let ?k = "mc_top ?c - 1"
  note r = ready [unfolded touch_ready_def Let_def]
  note kept = at_hand_kept [of "(st_txn s)\<lparr>mt_free_pgs := l\<rparr>" s "st_clock s + 1", folded s0]
  obtain q where q: "st_heap s2 = (st_heap s)(?a := Some q)" "mp_pgno q = next_pgno s"
    using taken kept by (auto simp: page_taken_def s0)
  have same: "st_cursors s2 = st_cursors s" "st_map s2 = st_map s" "mt_dbs (st_txn s2) = mt_dbs (st_txn s)"
    using taken by (simp_all add: page_taken_def same_but_def s0)
  note t = touch_run [OF ready need run [unfolded s0], of q]
  note e = touch_end_touched [OF ready s0 l taken, of q]
  show ?thesis
  proof (cases "mc_top ?c = 0")
    case True
    define dbs where "dbs = (mt_dbs (st_txn s))(mc_dbi ?c := (mt_dbs (st_txn s) (mc_dbi ?c))\<lparr>md_root := next_pgno s\<rparr>)"
    let ?s3 = "s2\<lparr>st_txn := (st_txn s2)\<lparr>mt_dbs := dbs\<rparr>\<rparr>"
    have "mdb_page_touch mc s = Some (touch_end mc pg ?a q ?s3, Inr ())"
      using t(1) True q same r by (simp add: dbs_def)
    then show ?thesis
      using e [of dbs ?s3] q True by (auto simp: same_but_def names_copy_def dbs_def)
  next
    case False
    then obtain b par where b: "mc_pg ?c ?k = HeapPg b" "b \<noteq> ?a" "st_heap s b = Some par"
        "page_ok (me_psize (st_env s)) par" "\<not> IS_LEAF par" "mc_ki ?c ?k < NUMKEYS par"
      using r by auto
    let ?s3 = "s2\<lparr>st_heap := (st_heap s2)(b := Some (name_child par (mc_ki ?c ?k) (next_pgno s)))\<rparr>"
    have "mdb_page_touch mc s = Some (touch_end mc pg ?a q ?s3, Inr ())"
      using t(2) [of b par] False b q same r by simp
    moreover have "names_copy s (?s3\<lparr>st_heap := (st_heap ?s3)(?a := x)\<rparr>) ?c (next_pgno s)" for x
      using name_child_page [OF b(4-6), of "next_pgno s"] r False b q same
      by (auto simp: names_copy_def)
    ultimately show ?thesis
      using e [of "mt_dbs (st_txn s2)" ?s3] q b(2) by (auto simp: same_but_def)
  qed
qed


text \<open>A cursor below a dirty root on a clean leaf, with a loose page of number 9 at hand.\<close>

definition touch_state0 :: mdb_state where
  "touch_state0 = state0\<lparr>st_env := env0\<lparr>me_psize := 100\<rparr>,
     st_txn := (st_txn state0)\<lparr>mt_flags := 0, mt_loose_pgs := [HeapPg 1],
       mt_dirty_list := [\<lparr>mid = 2, mptr = NullPg\<rparr>, \<lparr>mid = 7, mptr = HeapPg 0\<rparr>, \<lparr>mid = 9, mptr = HeapPg 1\<rparr>]\<rparr>,
     st_heap := [0 \<mapsto> twig\<lparr>mp_pgno := 7, mp_flags := mp_flags twig OR P_DIRTY\<rparr>, 1 \<mapsto> leaf_page 9 1 2],
     st_cursors := (\<lambda>_. \<lparr>mc_dbi = 1, mc_snum = 2, mc_top = 1, mc_flags = C_INITIALIZED,
       mc_pg = (\<lambda>i. if i = 0 then HeapPg 0 else MapPg 4), mc_ki = (\<lambda>i. if i = 0 then 1 else 0)\<rparr>)\<rparr>"

lemma touch_state0_ready: "touch_ready touch_state0 0 4"
proof -
  define tw where "tw = twig\<lparr>mp_pgno := 7, mp_flags := mp_flags twig OR P_DIRTY\<rparr>"
  have c: "st_cursors touch_state0 0 = \<lparr>mc_dbi = 1, mc_snum = 2, mc_top = 1, mc_flags = C_INITIALIZED,
       mc_pg = (\<lambda>i. if i = 0 then HeapPg 0 else MapPg 4), mc_ki = (\<lambda>i. if i = 0 then 1 else 0)\<rparr>"
    by (simp add: touch_state0_def)
  have p: "st_map touch_state0 4 = leaf_page 4 7 9" "mp_pgno (leaf_page n a b) = n" "mp_flags (leaf_page n a b) = P_LEAF" for n a b
    by (simp_all add: touch_state0_def state0_def leaf_page_def)
  have h: "st_heap touch_state0 = [0 \<mapsto> tw, 1 \<mapsto> leaf_page 9 1 2]"
    "me_psize (st_env touch_state0) = 100" "me_flags (st_env touch_state0) = 0" "mt_flags (st_txn touch_state0) = 0"
    "mt_loose_pgs (st_txn touch_state0) = [HeapPg 1]" "mt_free_pgs (st_txn touch_state0) = midl0"
    by (simp_all add: touch_state0_def state0_def env0_flags txn1_def tw_def)
  have n: "next_pgno touch_state0 = 9" "next_addr touch_state0 = 1" by (simp_all add: next_pgno_def next_addr_def h p)
  have hand: "loose_at_hand touch_state0"
    by (simp add: loose_at_hand_def h p dirty_set_def) (simp add: touch_state0_def id2l_elems_def id2l_count_def)
  have midl: "midl_wf midl0" "idl_count (mi_ids midl0) = 0" by (simp_all add: midl0_def midl_wf_def idl_ok_def idl_count_def)
  have twig: "page_ok 100 tw" "NUMKEYS tw = 2"
    "\<not> IS_LEAF tw"
    by (simp add: tw_def flags_dirty page_ok_example)
      (simp_all add: tw_def NUMKEYS_def twig_def PAGEHDRSZ_def PAGEBASE_def IS_LEAF_def F_ISSET_def P_BRANCH_def P_DIRTY_def P_LEAF_def)
  show ?thesis
    unfolding touch_ready_def Let_def c p(1) h
    by (simp add: top_ref_def p page_ok_example n hand midl twig F_ISSET_def P_LEAF_def P_DIRTY_def any_set_def)
qed


end
