(* ===== verification/Loose.thy ===== *)
theory Loose
  imports Sessions
begin

text \<open>
  Loose pages across transactions: neither the end of a write transaction that is aborted nor
  the beginning of the next one empties the list of loose pages, so the first page the next
  transaction asks for is one of the aborted transaction.
\<close>

definition same_loose :: "mdb_state \<Rightarrow> mdb_state \<Rightarrow> bool" where
  "same_loose s s' \<longleftrightarrow> mt_loose_pgs (st_txn s') = mt_loose_pgs (st_txn s)"

interpretation loose: state_relation same_loose
  by unfold_locales (simp_all add: same_loose_def)

lemma loose_txn [keep]: "mt_loose_pgs t = mt_loose_pgs (st_txn s) \<Longrightarrow> same_loose s (s\<lparr>st_txn := t\<rparr>)"
  and loose_env [keep]: "same_loose s (s\<lparr>st_env := e\<rparr>)"
  and loose_heap [keep]: "same_loose s (s\<lparr>st_heap := h\<rparr>)"
  and loose_clock [keep]: "same_loose s (s\<lparr>st_clock := n\<rparr>)"
  by (simp_all add: same_loose_def)

lemma loose_askM [keep]: "keeps same_loose askM" "keeps same_loose next_call"
  by (auto simp: keeps_def op_simps next_call_def loose_clock)

lemma loose_dlist_free [keep]: "keeps same_loose mdb_dlist_free"
proof -
  have [keep]: "keeps same_loose (mdb_page_free r)" for r
    unfolding mdb_page_free_def by (intro keep)
  have [keep]: "keeps same_loose (mdb_dpage_free r)" for r
    unfolding mdb_dpage_free_def by (intro keep)
  have [keep]: "keeps same_loose (dlist_free_loop dl i n)" for dl i n
    by (induction n arbitrary: i) (simp_all only: dlist_free_loop.simps, (intro keep | assumption)+)
  show ?thesis unfolding mdb_dlist_free_def by (intro keep) simp
qed

lemma loose_leave [keep]: "keeps same_loose leave_txn0"
  unfolding leave_txn0_def by (intro keep)

lemma loose_reset0 [keep]: "keeps same_loose mdb_txn_reset0"
  unfolding mdb_txn_reset0_def unlock_w_def by (intro keep; simp add: mdb_cursors_close_def)

lemma loose_renew0 [keep]: "keeps same_loose (mdb_txn_renew0 tid)"
proof -
  have [keep]: "keeps same_loose (reader_slot tid ti)" for ti
    unfolding reader_slot_def lock_r_def unlock_r_def syscallM_def Let_def by (intro keep)
  have [keep]: "keeps same_loose (renew_rdonly tid)" "keeps same_loose renew_write"
    unfolding renew_rdonly_def renew_write_def lock_w_def syscallM_def Let_def by (intro keep; simp)+
  show ?thesis unfolding mdb_txn_renew0_def by (intro keep; simp add: db_infos_def)
qed

text \<open>A write transaction is left in \<open>me_txn0\<close>.\<close>

lemma reset0_leaves:
  assumes "mdb_txn_reset0 s = Some (s', Inr u)" "\<not> F_ISSET (mt_flags (st_txn s)) MDB_TXN_RDONLY"
  shows "me_txn0 (st_env s') = st_txn s'"
proof -
  define work where "work =
       (bindM (getM (\<lambda>s. me_flags (st_env s))) (\<lambda>flags.
        seqM (envM (\<lambda>e. e\<lparr>me_pghead := None, me_pglast := 0\<rparr>))
        (seqM (whenM (\<not> any_set flags MDB_WRITEMAP) mdb_dlist_free)
        (bindM askM (\<lambda>ok.
         bindM (getM (\<lambda>s. mdb_midl_shrink ok (mt_free_pgs (st_txn s)))) (\<lambda>(shrunk, l).
         seqM (whenM shrunk (seqM (txnM (\<lambda>t. t\<lparr>mt_free_pgs := l\<rparr>)) (envM (\<lambda>e. e\<lparr>me_free_pgs := l\<rparr>))))
         (seqM (envM (\<lambda>e. e\<lparr>me_txn := False\<rparr>))
         (bindM (getM (\<lambda>s. me_txns (st_env s))) (\<lambda>ti.
          seqM (whenM (ti \<noteq> None) unlock_w)
          (seqM (txnM mdb_cursors_close)
          leave_txn0))))))))))"
  have "ends_in same_loose work leave_txn0"
    unfolding work_def unlock_w_def by (intro ends loose.ends_in_self keep; simp add: mdb_cursors_close_def)
  moreover have "mdb_txn_reset0 s = work (s\<lparr>st_env := mdb_dbis_update (st_txn s) False (st_env s)\<rparr>)"
    using assms(2) by (simp add: mdb_txn_reset0_def work_def bindM_def seqM_def op_simps)
  ultimately obtain s1 where "leave_txn0 s1 = Some (s', Inr u)"
    using assms(1) unfolding ends_in_def by (metis Inr_Inl_False)
  then show ?thesis by (auto simp: leave_txn0_def bindM_def op_simps)
qed

text \<open>
  After an abort the next write transaction of the environment is handed, as its first new
  page, the loose page of the aborted one: a page in memory with an old number, which is in
  no dirty list and which \<open>mdb_dlist_free\<close> may have freed.
\<close>

theorem stale_loose_page:
  assumes "\<not> F_ISSET (mt_flags (st_txn s)) MDB_TXN_RDONLY" "mt_loose_pgs (st_txn s) = r # rs"
    and "mdb_txn_abort s = Some (s1, Inr u)" "\<not> any_set flags MDB_RDONLY" "mdb_txn_begin tid flags s1 = Some (s2, Inr v)"
  shows "\<exists>s3. mdb_page_alloc 1 s2 = Some (s3, Inr r)"
proof -
  obtain s0 w where reset: "mdb_txn_reset0 s = Some (s0, Inr w)" and s1: "me_txn0 (st_env s1) = me_txn0 (st_env s0)"
    using assms(3)
    by (auto simp: mdb_txn_abort_def upd_reader_def seqM_def bindM_def op_simps split: option.splits sum.splits if_splits)
  have "mt_loose_pgs (me_txn0 (st_env s1)) = r # rs"
    using reset0_leaves [OF reset assms(1)] keepsD [OF loose_reset0 reset] assms(2) s1 by (simp add: same_loose_def)
  moreover obtain s4 where "mdb_txn_renew0 tid s4 = Some (s2, Inr v)" "st_txn s4 = (me_txn0 (st_env s1))\<lparr>mt_flags := 0\<rparr>"
    using assms(4,5) by (auto simp: mdb_txn_begin_def seqM_def bindM_def op_simps split: if_splits)
  ultimately have "mt_loose_pgs (st_txn s2) = r # rs"
    using keepsD [OF loose_renew0] by (fastforce simp: same_loose_def)
  then show ?thesis by (simp add: mdb_page_alloc_def seqM_def bindM_def op_simps)
qed

end
