(* ===== verification/Put_Tree.thy ===== *)
theory Put_Tree
  imports Tree_Update Put
begin

text \<open>
  \<open>mdb_put\<close> as an update of the map that a tree stands for: an item that fits its leaf, on a
  path that the transaction has already copied.
\<close>

section \<open>The path and the leaf of a key\<close>

text \<open>The leaf that covers a key, by the pages and not by a cursor.\<close>

fun leaf_of_key :: "(bytes \<Rightarrow> 'o::linorder) \<Rightarrow> mdb_state \<Rightarrow> bytes \<Rightarrow> nat \<Rightarrow> u64 \<Rightarrow> (page_ref \<times> mdb_page) option" where
  "leaf_of_key rank s key 0 pg = page_of s pg"
| "leaf_of_key rank s key (Suc d) pg =
     (case page_of s pg of None \<Rightarrow> None
      | Some (r, p) \<Rightarrow> leaf_of_key rank s key d (child p (child_index rank p key)))"

text \<open>All pages from the root to that leaf are dirty: copies the transaction made.\<close>

fun path_dirty :: "(bytes \<Rightarrow> 'o::linorder) \<Rightarrow> mdb_state \<Rightarrow> bytes \<Rightarrow> nat \<Rightarrow> u64 \<Rightarrow> bool" where
  "path_dirty rank s key 0 pg = (case page_of s pg of None \<Rightarrow> False | Some (r, p) \<Rightarrow> F_ISSET (mp_flags p) P_DIRTY)"
| "path_dirty rank s key (Suc d) pg =
     (case page_of s pg of None \<Rightarrow> False
      | Some (r, p) \<Rightarrow> F_ISSET (mp_flags p) P_DIRTY \<and> path_dirty rank s key d (child p (child_index rank p key)))"

lemma key_path_leaf_of:
  "key_path rank s key c j d pg \<Longrightarrow> \<exists>p. leaf_of_key rank s key d pg = Some (mc_pg c (j + d), p) \<and>
    page_at s (mc_pg c (j + d)) = Some p"
proof (induction d arbitrary: j pg)
  case 0
  then show ?case by (auto simp: page_of_def split: option.splits)
next
  case (Suc d)
  then obtain r p where "page_of s pg = Some (r, p)" "key_path rank s key c (j + 1) d (child p (child_index rank p key))"
    by (auto split: option.splits)
  with Suc.IH [of "j + 1"] show ?case by simp
qed

lemma key_path_dirty:
  "key_path rank s key c j d pg \<Longrightarrow> path_dirty rank s key d pg \<Longrightarrow> k \<le> d \<Longrightarrow>
    \<exists>p. page_at s (mc_pg c (j + k)) = Some p \<and> F_ISSET (mp_flags p) P_DIRTY"
proof (induction d arbitrary: j k pg)
  case 0
  then show ?case by (auto simp: page_of_def split: option.splits)
next
  case (Suc d)
  then obtain r p where p: "page_of s pg = Some (r, p)" "mc_pg c j = r" "F_ISSET (mp_flags p) P_DIRTY"
    "key_path rank s key c (j + 1) d (child p (child_index rank p key))"
    "path_dirty rank s key d (child p (child_index rank p key))"
    by (auto split: option.splits)
  show ?case
  proof (cases k)
    case 0
    then show ?thesis using p(1-3) page_get_run(2) [OF p(1)] by simp
  next
    case (Suc k')
    then show ?thesis using Suc.IH [OF p(4,5), of k'] Suc.prems(3) by simp
  qed
qed

section \<open>Touching a path that is dirty\<close>

lemma page_touch_dirty:
  assumes "page_at s (top_ref (st_cursors s mc)) = Some p" "F_ISSET (mp_flags p) P_DIRTY"
  shows "mdb_page_touch mc s = Some (s, Inr ())"
  using assms by (simp add: mdb_page_touch_def op_simps Let_def)

lemma touch_path_dirty:
  assumes "\<forall>k < n. \<exists>p. page_at s (mc_pg (st_cursors s mc) (mc_top (st_cursors s mc) + k)) = Some p \<and> F_ISSET (mp_flags p) P_DIRTY"
  shows "touch_path mc n s = Some (s\<lparr>st_cursors := (st_cursors s)(mc :=
    (st_cursors s mc)\<lparr>mc_top := mc_top (st_cursors s mc) + n\<rparr>)\<rparr>, Inr ())"
  using assms
proof (induction n arbitrary: s)
  case 0
  then show ?case by (simp add: op_simps)
next
  case (Suc n)
  define c where "c = st_cursors s mc"
  define s1 where "s1 = s\<lparr>st_cursors := (st_cursors s)(mc := c\<lparr>mc_top := mc_top c + 1\<rparr>)\<rparr>"
  obtain p where "page_at s (top_ref c) = Some p" "F_ISSET (mp_flags p) P_DIRTY"
    using Suc.prems by (force simp: top_ref_def c_def)
  then have t: "mdb_page_touch mc s = Some (s, Inr ())" using page_touch_dirty by (simp add: c_def)
  have "\<forall>k < n. \<exists>p. page_at s1 (mc_pg (st_cursors s1 mc) (mc_top (st_cursors s1 mc) + k)) = Some p \<and> F_ISSET (mp_flags p) P_DIRTY"
  proof (intro allI impI)
    fix k assume "k < n"
    then show "\<exists>p. page_at s1 (mc_pg (st_cursors s1 mc) (mc_top (st_cursors s1 mc) + k)) = Some p \<and> F_ISSET (mp_flags p) P_DIRTY"
      using Suc.prems [rule_format, of "Suc k"] by (simp add: s1_def c_def)
  qed
  from Suc.IH [OF this] show ?case using t by (simp add: op_simps s1_def c_def fun_upd_def cong: if_cong)
qed

text \<open>\<open>mdb_cursor_touch\<close> changes nothing when the path and the database are dirty.\<close>

lemma cursor_touch_dirty:
  assumes c: "st_cursors s mc = c" "mc_snum c = Suc (mc_top c)"
    and db: "mc_dbi c \<le> MAIN_DBI \<or> any_set (mt_dbflags (st_txn s) (mc_dbi c)) DB_DIRTY"
    and p: "\<And>k. k \<le> mc_top c \<Longrightarrow> \<exists>p. page_at s (mc_pg c k) = Some p \<and> F_ISSET (mp_flags p) P_DIRTY"
  shows "mdb_cursor_touch mc s = Some (s, Inr ())"
proof -
  have main: "touch_main mc s = Some (s, Inr ())"
    using db c(1) by (auto simp: touch_main_def op_simps)
  define s1 where "s1 = s\<lparr>st_cursors := (st_cursors s)(mc := c\<lparr>mc_top := 0\<rparr>)\<rparr>"
  have "touch_path mc (mc_snum c) s1 = Some (s1\<lparr>st_cursors := (st_cursors s1)(mc :=
      (st_cursors s1 mc)\<lparr>mc_top := mc_top (st_cursors s1 mc) + mc_snum c\<rparr>)\<rparr>, Inr ())"
    by (rule touch_path_dirty) (use p c(2) in \<open>simp add: s1_def less_Suc_eq_le\<close>)
  moreover have "s\<lparr>st_cursors := (st_cursors s)(mc := c)\<rparr> = s" using c(1) by auto
  ultimately show ?thesis using main c by (simp add: mdb_cursor_touch_def op_simps s1_def)
qed

section \<open>Pages after a put\<close>

text \<open>Data of the same size, written into the node.\<close>

lemma overwrite_page:
  assumes ok: "page_ok psize p" "IS_LEAF p" and x: "x < NUMKEYS p"
    and big: "\<not> F_ISSET (mn_flags (mp_body p) (NODEPTR p x)) F_BIGDATA"
    and d: "length data = unat (NODEDSZ (mp_body p) (NODEPTR p x))"
    and p': "p' = p\<lparr>mp_body := wr (mp_body p) (NODEDATA (mp_body p) (NODEPTR p x)) data\<rparr>"
  shows "\<exists>img. page_nodes p' = (page_nodes p)[x := img] \<and> img_key img = img_key (page_nodes p ! x) \<and>
    img_flags img = img_flags (page_nodes p ! x) \<and> img_value s img = Some data"
proof -
  define m where "m = mp_body p"
  define a where "a = NODEPTR p x"
  define m' where "m' = mp_body p'"
  have m': "m' = wr m (NODEDATA m a) data" by (simp add: m'_def p' m_def a_def)
  have hdr: "IS_LEAF p'" "NUMKEYS p' = NUMKEYS p" "mp_ptrs p' = mp_ptrs p" "a = mp_ptrs p x"
    using ok(2) by (simp_all add: p' NUMKEYS_def a_def NODEPTR_def PAGEBASE_def)
  have len: "node_len True m a = NODEDATA m a - a + length data" "a + 8 \<le> NODEDATA m a"
    using big d by (simp_all add: node_len_def NODEDATA_def m_def a_def NODESIZE_def)
  have before: "rd m' b n = rd m b n" if "b + n \<le> NODEDATA m a" for b n
    unfolding m' using that by (intro rd_wr_disjoint) auto
  have "rd m' a 8 = rd m a 8" using before len(2) by simp
  note h = node_header_cong [OF this]
  have k: "NODEKSZ m' a = NODEKSZ m a" "NODEDSZ m' a = NODEDSZ m a" "NODEDATA m' a = NODEDATA m a"
    by (simp_all add: NODEKSZ_def NODEDSZ_def NODEDATA_def h)
  have key: "NODEKEY m' a = NODEKEY m a"
    using before [of "a + 8" "NODEKSZ m a"] by (simp add: NODEKEY_def k NODESIZE_def NODEDATA_def)
  have "node_value s m' a = Some data"
    using big d by (simp add: node_value_def h k m_def [symmetric] a_def [symmetric]) (simp add: m' rd_wr_same)
  then have img: "img_key (node_image True m' a) = img_key (page_nodes p ! x)"
    "img_flags (node_image True m' a) = img_flags (page_nodes p ! x)" "img_value s (node_image True m' a) = Some data"
    using key h(3) x hdr(4) nth_leaf_nodes [OF ok(2) x] img_node [where m = m' and a = a] img_node [where m = m and a = a]
    by (simp_all add: m_def [symmetric] a_def [symmetric])
  have other: "node_image True m' (mp_ptrs p i) = node_image True m (mp_ptrs p i)" if i: "i < NUMKEYS p" "i \<noteq> x" for i
  proof (rule node_image_cong(2), unfold m', rule rd_wr_disjoint)
    have "node_len True m (mp_ptrs p i) \<le> node_sz p i" "node_len True m a \<le> node_sz p x"
      using node_sz_ge [of p i] node_sz_ge [of p x] ok(2) hdr(4) by (simp_all add: m_def)
    then show "mp_ptrs p i + node_len True m (mp_ptrs p i) \<le> NODEDATA m a \<or>
        NODEDATA m a + length data \<le> mp_ptrs p i"
      using page_ok_node(4) [OF ok(1) i(1) x i(2)] len hdr(4) by auto
  qed
  have "page_nodes p' = (page_nodes p)[x := node_image True m' a]"
  proof (rule nth_equalityI)
    fix i assume "i < length (page_nodes p')"
    then have i: "i < NUMKEYS p" using hdr(2) by simp
    have "page_nodes p' ! i = node_image True m' (mp_ptrs p i)"
      using i hdr by (simp add: nth_page_nodes m'_def)
    then show "page_nodes p' ! i = (page_nodes p)[x := node_image True m' a] ! i"
      using i other [OF i] hdr(4) ok(2) by (cases "i = x") (simp_all add: nth_page_nodes m_def)
  qed (simp add: hdr)
  with img show ?thesis by blast
qed

text \<open>\<open>mdb_node_add\<close> leaves the kind and the number of the page alone.\<close>

lemma node_add_update_flags:
  "node_add_update mp indx sz key data pgno flags ofp = Some (p', ov) \<Longrightarrow> mp_flags p' = mp_flags mp \<and> mp_pgno p' = mp_pgno mp"
  unfolding node_add_update_def Let_def by (auto split: if_splits option.splits bool.splits)

lemma node_add_flags:
  "mdb_node_add page_new pad nodemax psize s mtf mp indx key data pgno flags = Some (s', fl', Inr (p', ov)) \<Longrightarrow>
    mp_flags p' = mp_flags mp \<and> mp_pgno p' = mp_pgno mp"
  unfolding mdb_node_add_def Let_def
  by (auto simp: node_add_leaf2_def Let_def split: if_splits option.splits prod.splits sum.splits dest: node_add_update_flags)

section \<open>Adding and deleting through the cursor\<close>

lemma page_lookup_dbs [simp]: "page_lookup env (t\<lparr>mt_dbs := dbs\<rparr>) pg = page_lookup env t pg"
  by (simp add: page_lookup_def spilled_at_def dirty_at_def Let_def)

lemma agree_refl [simp]: "agree s s R"
  by (simp add: agree_def)

lemma agree_trans: "agree s s1 R \<Longrightarrow> agree s1 s2 R \<Longrightarrow> agree s s2 R"
  by (simp add: agree_def)

lemma agree_set_page: "set_page s r p = Some s' \<Longrightarrow> agree s s' (- {r}) \<and> page_at s' r = Some p"
  using page_at_set_page [of s r p s'] by (simp add: agree_def set_page_env_txn)

definition can_write :: "mdb_state \<Rightarrow> page_ref \<Rightarrow> bool" where
  "can_write s r \<longleftrightarrow> (\<forall>p. set_page s r p \<noteq> None)"

lemma can_write_heap: "can_write s r \<longleftrightarrow> (case r of NullPg \<Rightarrow> False | MapPg pg \<Rightarrow> any_set (me_flags (st_env s)) MDB_WRITEMAP
    | HeapPg a \<Rightarrow> st_heap s a \<noteq> None)"
  by (cases r) (auto simp: can_write_def split: option.splits)

lemma set_page_can_write: "set_page s r p = Some s' \<Longrightarrow> can_write s r \<Longrightarrow> can_write s' r"
  by (cases r) (auto simp: can_write_heap split: option.splits if_splits)

lemma set_page_user: "set_page s r p = Some s' \<Longrightarrow> st_user s' = st_user s"
  by (cases r) (auto split: option.splits if_splits)

text \<open>What a put on one leaf leaves alone: everything that looks pages up, and all other pages.\<close>

definition leaf_step :: "mdb_state \<Rightarrow> mdb_state \<Rightarrow> page_ref \<Rightarrow> mdb_page \<Rightarrow> bool" where
  "leaf_step s s' r p' \<longleftrightarrow> agree s s' (- {r}) \<and> page_at s' r = Some p' \<and> can_write s' r \<and> st_env s' = st_env s \<and>
     st_user s' = st_user s"

lemma leaf_step_set:
  assumes "can_write s r"
  obtains s' where "set_pageM r p' s = Some (s', Inr ())" "leaf_step s s' r p'" "st_txn s' = st_txn s"
    "st_cursors s' = st_cursors s"
proof -
  obtain s' where s': "set_page s r p' = Some s'" using assms by (auto simp: can_write_def)
  then show thesis
    using that [of s'] agree_set_page [OF s'] set_page_can_write [OF s' assms] set_page_user [OF s'] set_page_env_txn [OF s']
    by (simp add: leaf_step_def op_simps)
qed

lemma leaf_step_trans: "leaf_step s s1 r p1 \<Longrightarrow> leaf_step s1 s2 r p2 \<Longrightarrow> leaf_step s s2 r p2"
  by (auto simp: leaf_step_def intro: agree_trans)

lemma page_at_txn [simp]: "page_at (s\<lparr>st_txn := t\<rparr>) r = page_at s r"
  by (cases r) simp_all

lemma leaf_step_cursors:
  "leaf_step s (s'\<lparr>st_cursors := cs\<rparr>) r p = leaf_step s s' r p"
  "leaf_step s (s'\<lparr>st_txn := (st_txn s')\<lparr>mt_dbs := dbs\<rparr>\<rparr>) r p = leaf_step s s' r p"
  by (cases r; simp add: leaf_step_def agree_def can_write_heap)+

fun adjusted :: "(mdb_cursor \<Rightarrow> mdb_cursor) \<Rightarrow> (mdb_cursor \<Rightarrow> bool) \<Rightarrow> nat \<Rightarrow> nat list \<Rightarrow> (nat \<Rightarrow> mdb_cursor) \<Rightarrow> nat \<Rightarrow> mdb_cursor" where
  "adjusted f P mc [] cs = cs"
| "adjusted f P mc (m # ms) cs = adjusted f P mc ms (if m \<noteq> mc \<and> P (cs m) then cs(m := f (cs m)) else cs)"

lemma adjust_cursors_run:
  "adjust_cursors f P mc ms s = Some (s\<lparr>st_cursors := adjusted f P mc ms (st_cursors s)\<rparr>, Inr ())"
  by (induction ms arbitrary: s) (simp_all add: op_simps)

lemma adjusted_self [simp]: "adjusted f P mc ms cs mc = cs mc"
  by (induction ms arbitrary: cs) simp_all

lemma leaf_addM_run:
  assumes c: "st_cursors s mc = c" "page_at s (top_ref c) = Some p" "can_write s (top_ref c)"
    and ok: "page_ok (me_psize (st_env s)) p" "IS_LEAF p" "x \<le> NUMKEYS p"
    and k: "length key < 65536" "val_ok data" "mv_size data < 2 ^ 32"
    and fits: "8 + length key + mv_size data \<le> me_nodemax (st_env s)" "mdb_leaf_size (me_nodemax (st_env s)) (val_of key) data \<le> SIZELEFT p"
  shows "\<exists>s' p'. node_addM mc x (Some (val_of key)) (Some data) 0 0 s = Some (s', Inr ()) \<and>
    leaf_step s s' (top_ref c) p' \<and> st_txn s' = st_txn s \<and> st_cursors s' = st_cursors s \<and>
    page_ok (me_psize (st_env s)) p' \<and> mp_flags p' = mp_flags p \<and>
    page_nodes p' = insert_at x (leaf_node 0 (mv_size data) key (val_bytes data)) (page_nodes p)"
proof -
  have room: "\<not> mp_upper p < mp_lower p + 2 + node_add_need (me_nodemax (st_env s)) (val_of key) data"
    using fits page_ok_bounds [OF ok(1)] by (auto simp: mdb_leaf_size_def LEAFSIZE_def NODESIZE_def node_add_need_def val_of_def Let_def EVEN_def)
  obtain p' where p': "mdb_node_add (ovpage_new mc) (unat (md_pad (cursor_db s mc))) (me_nodemax (st_env s)) (me_psize (st_env s))
      (Some (s, NullPg)) (mt_flags (st_txn s)) p x (Some (val_of key)) (Some data) 0 0
      = Some (Some (s, NullPg), mt_flags (st_txn s), Inr (p', None))"
    "page_ok (me_psize (st_env s)) p'" "page_nodes p' = insert_at x (leaf_node 0 (mv_size data) key (val_bytes data)) (page_nodes p)"
    using node_add_leaf_spec [OF ok(1,3,2), of "val_of key" data 0 "ovpage_new mc" "unat (md_pad (cursor_db s mc))"
        "me_nodemax (st_env s)" "Some (s, NullPg)" "mt_flags (st_txn s)" 0] room k fits(1)
    by (auto simp: val_of_def val_ok_def F_ISSET_def MDB_RESERVE_def)
  obtain s' where s': "set_pageM (top_ref c) p' s = Some (s', Inr ())" "leaf_step s s' (top_ref c) p'"
    "st_txn s' = st_txn s" "st_cursors s' = st_cursors s"
    using leaf_step_set [OF c(3)] by metis
  have "s\<lparr>st_txn := (st_txn s)\<lparr>mt_flags := mt_flags (st_txn s) OR mt_flags (st_txn s)\<rparr>\<rparr> = s" by simp
  then have "node_addM mc x (Some (val_of key)) (Some data) 0 0 s = Some (s', Inr ())"
    using c(1,2) p'(1) s'(1) by (simp add: node_addM_def op_simps topM_def)
  then show ?thesis using s' p' node_add_flags [OF p'(1)] by blast
qed

text \<open>The record of the database after an item was added.\<close>

definition counted :: "bool \<Rightarrow> nat \<Rightarrow> mdb_txn \<Rightarrow> mdb_txn" where
  "counted new dbi t =
     (if new then t\<lparr>mt_dbs := (mt_dbs t)(dbi := (mt_dbs t dbi)\<lparr>md_entries := md_entries (mt_dbs t dbi) + 1\<rparr>)\<rparr> else t)"

lemma reserve_not_added: "flags AND NODE_ADD_FLAGS = 0 \<Longrightarrow> \<not> F_ISSET flags MDB_RESERVE"
proof
  assume fl: "flags AND NODE_ADD_FLAGS = 0" and "F_ISSET flags MDB_RESERVE"
  then have "MDB_RESERVE AND (flags AND NODE_ADD_FLAGS) = MDB_RESERVE AND NODE_ADD_FLAGS"
    unfolding F_ISSET_def by (metis and.assoc and.commute)
  then show False using fl by (simp add: MDB_RESERVE_def NODE_ADD_FLAGS_def F_DUPDATA_def F_SUBDATA_def MDB_APPEND_def)
qed

lemma put_insert_run:
  assumes c: "st_cursors s mc = c" "page_at s (top_ref c) = Some p" "can_write s (top_ref c)"
    and ok: "page_ok (me_psize (st_env s)) p" "IS_LEAF p" "top_ki c \<le> NUMKEYS p"
    and k: "length key < 65536" "val_ok data" "mv_size data < 2 ^ 32"
    and fits: "8 + length key + mv_size data \<le> me_nodemax (st_env s)" "mdb_leaf_size (me_nodemax (st_env s)) (val_of key) data \<le> SIZELEFT p"
    and fl: "flags AND NODE_ADD_FLAGS = 0"
  shows "\<exists>s' p'. put_insert mc key data flags new s = Some (s', Inr Stored) \<and>
    leaf_step s s' (top_ref c) p' \<and> st_txn s' = counted new (mc_dbi c) (st_txn s) \<and>
    page_ok (me_psize (st_env s)) p' \<and> mp_flags p' = mp_flags p \<and>
    page_nodes p' = insert_at (top_ki c) (leaf_node 0 (mv_size data) key (val_bytes data)) (page_nodes p)"
proof -
  have l2: "\<not> IS_LEAF2 p" using ok(1) by (simp add: page_ok_def)
  have "\<not> F_ISSET flags MDB_RESERVE" using reserve_not_added [OF fl] .
  obtain s1 p1 where add: "node_addM mc (top_ki c) (Some (val_of key)) (Some data) 0 0 s = Some (s1, Inr ())"
    "leaf_step s s1 (top_ref c) p1" "st_txn s1 = st_txn s" "st_cursors s1 = st_cursors s"
    "page_ok (me_psize (st_env s)) p1" "mp_flags p1 = mp_flags p"
    "page_nodes p1 = insert_at (top_ki c) (leaf_node 0 (mv_size data) key (val_bytes data)) (page_nodes p)"
    using leaf_addM_run [OF c ok k fits] by blast
  show ?thesis
  proof (cases new)
    case False
    then show ?thesis
      using add c l2 fits fl \<open>\<not> F_ISSET flags MDB_RESERVE\<close>
      by (intro exI [of _ s1] exI [of _ p1]) (simp add: put_insert_def op_simps topM_def counted_def)
  next
    case True
    define cs where "cs = adjusted (\<lambda>m. m\<lparr>mc_ki := (mc_ki m)(mc_top c := indx_t (mc_ki m (mc_top c) + 1))\<rparr>)
      (\<lambda>m. mc_snum m \<ge> mc_snum c \<and> mc_pg m (mc_top c) = top_ref c \<and> mc_ki m (mc_top c) \<ge> top_ki c)
      mc (mt_cursors (st_txn s) (mc_dbi c)) (st_cursors s)"
    have cs: "cs mc = c" using c(1) by (simp add: cs_def)
    define s2 where "s2 = s1\<lparr>st_txn := counted True (mc_dbi c) (st_txn s1),
      st_cursors := cs(mc := c\<lparr>mc_flags := mc_flags c OR C_INITIALIZED\<rparr>)\<rparr>"
    have "put_insert mc key data flags new s = Some (s2, Inr Stored)"
      using add(1,3,4) c(1,2) l2 fits(2) fl True \<open>\<not> F_ISSET flags MDB_RESERVE\<close>
      by (simp add: put_insert_def op_simps topM_def counted_def trackedM_def upd_dbM_def s2_def adjust_cursors_run
          cs_def)
    moreover have "leaf_step s s2 (top_ref c) p1"
      using add(2) by (simp add: s2_def counted_def leaf_step_cursors)
    ultimately show ?thesis using add(3,5-7) True by (intro exI [of _ s2] exI [of _ p1]) (simp add: s2_def)
  qed
qed

section \<open>Storing at the position found\<close>

text \<open>
  A small item fits the leaf: there is room for its node, or, if the key is there with data in
  the page, for the new node instead of the old one.
\<close>

definition put_fits :: "(bytes \<Rightarrow> 'o::linorder) \<Rightarrow> mdb_state \<Rightarrow> bytes \<Rightarrow> mdb_val \<Rightarrow> page_ref \<Rightarrow> mdb_page \<Rightarrow> bool" where
  "put_fits rank s key data r p \<longleftrightarrow>
     (let x = length (filter (\<lambda>k. rank k < rank key) (page_keys p)); node = NODEPTR p x;
          nodemax = me_nodemax (st_env s); need = mdb_leaf_size nodemax (val_of key) data
      in can_write s r \<and> page_ok (me_psize (st_env s)) p \<and> 8 + length key + mv_size data \<le> nodemax \<and>
         (if key \<in> set (page_keys p) then
            \<not> F_ISSET (mn_flags (mp_body p) node) F_BIGDATA \<and>
            (mv_size data = unat (NODEDSZ (mp_body p) node) \<or> need \<le> SIZELEFT p + node_sz p x + 2)
          else need \<le> SIZELEFT p))"

definition store_at :: "nat \<Rightarrow> bytes \<Rightarrow> mdb_val \<Rightarrow> u32 \<Rightarrow> bool \<Rightarrow> put_result op" where
  "store_at mc key data flags found =
     (if found then
        bindM (topM mc) (\<lambda>mp.
        if IS_LEAF2 mp then seqM (overwrite_leaf2 mc mp key) (ret Stored)
        else
          bindM (overwrite_node mc mp data flags) (\<lambda>r.
          case r of Some x \<Rightarrow> ret x | None \<Rightarrow> put_insert mc key data flags False))
      else seqM (plain_db mc) (put_insert mc key data flags True))"

lemma node_delM_run:
  assumes c: "st_cursors s mc = c" "page_at s (top_ref c) = Some p" "can_write s (top_ref c)"
    and ok: "page_ok psize p" "top_ki c < NUMKEYS p"
  shows "\<exists>s' p'. node_delM mc ks s = Some (s', Inr ()) \<and> leaf_step s s' (top_ref c) p' \<and> st_txn s' = st_txn s \<and>
    st_cursors s' = st_cursors s \<and> mdb_node_del ks p (top_ki c) = Some p' \<and> page_ok psize p' \<and> page_nodes p' = remove_at (top_ki c) (page_nodes p) \<and>
    mp_flags p' = mp_flags p \<and> SIZELEFT p' = SIZELEFT p + node_sz p (top_ki c) + 2"
proof -
  obtain p' where p': "mdb_node_del ks p (top_ki c) = Some p'" "page_ok psize p'" "page_nodes p' = remove_at (top_ki c) (page_nodes p)"
    "mp_flags p' = mp_flags p" "SIZELEFT p' = SIZELEFT p + node_sz p (top_ki c) + 2"
    using node_del_spec [OF ok] by blast
  obtain s' where "set_pageM (top_ref c) p' s = Some (s', Inr ())" "leaf_step s s' (top_ref c) p'"
    "st_txn s' = st_txn s" "st_cursors s' = st_cursors s"
    using leaf_step_set [OF c(3)] by metis
  then show ?thesis using c(1,2) p' by (intro exI [of _ s'] exI [of _ p']) (simp add: node_delM_def op_simps topM_def)
qed

lemma page_ok_NUMKEYS: "page_ok psize p \<Longrightarrow> NUMKEYS p < 65535"
  using page_ok_bounds [of psize p] by linarith

context key_embedding
begin

lemma store_at_run:
  assumes c: "st_cursors s mc = c" "page_at s (top_ref c) = Some p" "top_ki c = x"
      "\<not> any_set (md_flags (mt_dbs (st_txn s) (mc_dbi c))) MDB_DUPSORT" "\<not> any_set (mc_flags c) C_SUB"
    and l: "leaf_ok valid rank s p lo hi" and x: "x = length (filter (\<lambda>k. rank k < rank key) (page_keys p))"
    and fits: "put_fits rank s key data (top_ref c) p"
    and k: "length key < 65536" "val_ok data" "mv_size data < 2 ^ 32" and fl: "flags AND NODE_ADD_FLAGS = 0"
    and found: "found \<longleftrightarrow> key \<in> set (page_keys p)"
  shows "\<exists>s' p' img. store_at mc key data flags found s = Some (s', Inr Stored) \<and>
    leaf_step s s' (top_ref c) p' \<and> st_txn s' = counted (\<not> found) (mc_dbi c) (st_txn s) \<and>
    mp_flags p' = mp_flags p \<and> NUMKEYS p' < 65535 \<and>
    page_nodes p' = take x (page_nodes p) @ [img] @ drop (if found then Suc x else x) (page_nodes p) \<and>
    img_key img = key \<and> img_value s img = Some (val_bytes data) \<and> \<not> F_ISSET (img_flags img) F_BIGDATA \<and>
    \<not> F_ISSET (img_flags img) F_DUPDATA"
proof -
  have lf: "IS_LEAF p" "\<not> IS_LEAF2 p" using l by (simp_all add: leaf_ok_def)
  note i = leaf_index [OF l x]
  have w: "can_write s (top_ref c)" and ok: "page_ok (me_psize (st_env s)) p"
    and small: "8 + length key + mv_size data \<le> me_nodemax (st_env s)"
    using fits by (simp_all add: put_fits_def Let_def)
  define img where "img = leaf_node 0 (mv_size data) key (val_bytes data)"
  have img: "img_key img = key" "img_flags img = 0" "img_value s img = Some (val_bytes data)"
    using leaf_node_view [of key "val_bytes data" 0, unfolded length_val_bytes [OF k(2)], OF k(1,3)]
    by (simp_all add: img_def F_ISSET_def F_BIGDATA_def)
  have no_flags: "\<not> F_ISSET (0 :: u16) F_BIGDATA" "\<not> F_ISSET (0 :: u16) F_DUPDATA"
    by (simp_all add: F_ISSET_def F_BIGDATA_def F_DUPDATA_def)
  show ?thesis
  proof (cases found)
    case False
    then have room: "mdb_leaf_size (me_nodemax (st_env s)) (val_of key) data \<le> SIZELEFT p"
      using fits found by (simp add: put_fits_def Let_def)
    obtain s' p' where s': "put_insert mc key data flags True s = Some (s', Inr Stored)"
      "leaf_step s s' (top_ref c) p'" "st_txn s' = counted True (mc_dbi c) (st_txn s)"
      "page_ok (me_psize (st_env s)) p'" "mp_flags p' = mp_flags p" "page_nodes p' = insert_at x img (page_nodes p)"
      using put_insert_run [OF c(1,2) w ok lf(1) _ k small room fl, of True] i(1) c(3) by (auto simp: img_def)
    then show ?thesis
      using False c img no_flags page_ok_NUMKEYS [OF s'(4)]
      by (intro exI [of _ s'] exI [of _ p'] exI [of _ img])
        (simp add: store_at_def op_simps plain_db_def cursor_db_def insert_at_def)
  next
    case True
    then have key: "x < NUMKEYS p" "page_keys p ! x = key" using i(3) found by auto
    have old: "\<not> F_ISSET (mn_flags (mp_body p) (NODEPTR p x)) F_BIGDATA" "\<not> F_ISSET (mn_flags (mp_body p) (NODEPTR p x)) F_DUPDATA"
      using fits found True l key(1) by (simp_all add: put_fits_def Let_def x [symmetric] leaf_ok_def)
    have "\<not> F_ISSET flags MDB_RESERVE" using fl reserve_not_added by blast
    note code = store_at_def overwrite_node_def op_simps plain_db_def cursor_db_def topM_def Let_def
    show ?thesis
    proof (cases "mv_size data = unat (NODEDSZ (mp_body p) (NODEPTR p x))")
      case same: True
      define p' where "p' = p\<lparr>mp_body := wr (mp_body p) (NODEDATA (mp_body p) (NODEPTR p x)) (val_bytes data)\<rparr>"
      obtain img' where img': "page_nodes p' = (page_nodes p)[x := img']" "img_key img' = img_key (page_nodes p ! x)"
        "img_flags img' = img_flags (page_nodes p ! x)" "img_value s img' = Some (val_bytes data)"
        using overwrite_page [OF ok lf(1) key(1) old(1) _ p'_def, of s, unfolded length_val_bytes [OF k(2)], OF same] by blast
      obtain s' where s': "set_pageM (top_ref c) p' s = Some (s', Inr ())" "leaf_step s s' (top_ref c) p'" "st_txn s' = st_txn s"
        using leaf_step_set [OF w] by metis
      have "store_at mc key data flags found s = Some (s', Inr Stored)"
        using True c lf(2) old(1) same s'(1) \<open>\<not> F_ISSET flags MDB_RESERVE\<close> by (simp add: code p'_def)
      moreover have "page_nodes p' = take x (page_nodes p) @ [img'] @ drop (Suc x) (page_nodes p)"
        using img'(1) key(1) by (simp add: upd_conv_take_nth_drop)
      moreover have "img_key img' = key" "\<not> F_ISSET (img_flags img') F_BIGDATA" "\<not> F_ISSET (img_flags img') F_DUPDATA"
        using img'(2,3) old key nth_leaf_nodes [OF lf(1) key(1)] img_node(2) [where m = "mp_body p" and a = "NODEPTR p x"]
        by (simp_all add: page_keys_nodes [OF lf(1)])
      moreover have "mp_flags p' = mp_flags p" "NUMKEYS p' < 65535"
        using page_ok_NUMKEYS [OF ok] by (simp_all add: p'_def NUMKEYS_def)
      ultimately show ?thesis using s' True img'(4)
        by (intro exI [of _ s'] exI [of _ p'] exI [of _ img']) (simp add: counted_def)
    next
      case False
      have room: "mdb_leaf_size (me_nodemax (st_env s)) (val_of key) data \<le> SIZELEFT p + node_sz p x + 2"
        using fits found True False by (simp add: put_fits_def Let_def x [symmetric])
      obtain s1 p1 where s1: "node_delM mc 0 s = Some (s1, Inr ())" "leaf_step s s1 (top_ref c) p1" "st_txn s1 = st_txn s"
        "st_cursors s1 = st_cursors s" "page_ok (me_psize (st_env s)) p1" "page_nodes p1 = remove_at x (page_nodes p)"
        "mp_flags p1 = mp_flags p" "SIZELEFT p1 = SIZELEFT p + node_sz p x + 2"
        using node_delM_run [OF c(1,2) w ok, of 0] key(1) c(3) by auto
      have at1: "st_cursors s1 mc = c" "page_at s1 (top_ref c) = Some p1" "can_write s1 (top_ref c)" "st_env s1 = st_env s"
        using s1(2,4) c(1) by (simp_all add: leaf_step_def)
      have "NUMKEYS p1 = NUMKEYS p - 1" using s1(6) key(1) by (metis length_page_nodes length_remove_at)
      then have n1: "top_ki c \<le> NUMKEYS p1" using key(1) c(3) by linarith
      obtain s' p' where s': "put_insert mc key data flags False s1 = Some (s', Inr Stored)"
        "leaf_step s1 s' (top_ref c) p'" "st_txn s' = st_txn s"
        "page_ok (me_psize (st_env s)) p'" "mp_flags p' = mp_flags p" "page_nodes p' = insert_at x img (page_nodes p1)"
        using put_insert_run [OF at1(1-3), of key data flags False] s1 k small room fl lf(1) key(1) c(3) n1
        by (auto simp: img_def at1(4) counted_def IS_LEAF_def)
      have "store_at mc key data flags found s = Some (s', Inr Stored)"
        using True c lf(2) old(1) False s1(1) s'(1) by (simp add: code)
      moreover have "page_nodes p' = take x (page_nodes p) @ [img] @ drop (Suc x) (page_nodes p)"
        using s'(6) s1(6) key(1) by (simp add: insert_at_def remove_at_def)
      ultimately show ?thesis
        using True img no_flags page_ok_NUMKEYS [OF s'(4)] leaf_step_trans [OF s1(2) s'(2)] s'(3,5)
        by (intro exI [of _ s'] exI [of _ p'] exI [of _ img]) (simp add: counted_def)
    qed
  qed
qed

end

section \<open>Put\<close>

text \<open>The cursor on the stack of \<open>mdb_put\<close> changes no page.\<close>

lemma with_fresh_simps [simp]:
  "st_env (with_fresh s c) = st_env s" "st_txn (with_fresh s c) = st_txn s" "st_user (with_fresh s c) = st_user s"
  "st_cursors (with_fresh s c) (st_cfresh s) = c" "page_at (with_fresh s c) r = page_at s r"
  "page_of (with_fresh s c) pg = page_of s pg" "tree_items (with_fresh s c) d pg = tree_items s d pg"
  "tree_ok valid rank (with_fresh s c) d pg lo hi = tree_ok valid rank s d pg lo hi"
  "leaf_ok valid rank (with_fresh s c) p lo hi = leaf_ok valid rank s p lo hi"
  "key_path rank (with_fresh s c) key c' j d pg = key_path rank s key c' j d pg"
  by (simp_all add: with_fresh_def)

lemma tree_refs_with_fresh [simp]: "tree_refs (with_fresh s c) d pg = tree_refs s d pg"
proof -
  have "img_refs (with_fresh s c) = img_refs s" by (simp add: img_refs_def fun_eq_iff)
  then have "leaf_refs (with_fresh s c) p = leaf_refs s p" for p by (simp add: leaf_refs_def)
  then show ?thesis by (induction d arbitrary: pg) (auto split: option.splits)
qed

lemma put_fits_with_fresh [simp]: "put_fits rank (with_fresh s c) = put_fits rank s"
  by (simp add: put_fits_def fun_eq_iff can_write_heap with_fresh_def split: page_ref.splits)

text \<open>
  The state lets an item be stored where it is: a write transaction without error, the
  database's record dirty, room in the dirty list so that nothing is spilled, the path of the
  key dirty and the item small enough for the leaf.
\<close>

definition put_ready :: "(bytes \<Rightarrow> 'o::linorder) \<Rightarrow> mdb_state \<Rightarrow> nat \<Rightarrow> nat \<Rightarrow> bytes \<Rightarrow> mdb_val \<Rightarrow> bool" where
  "put_ready rank s dbi d key data \<longleftrightarrow> db_ready s dbi \<and>
     \<not> any_set (mt_flags (st_txn s)) (MDB_TXN_RDONLY OR MDB_TXN_ERROR) \<and>
     (dbi \<le> MAIN_DBI \<or> any_set (mt_dbflags (st_txn s) dbi) DB_DIRTY) \<and>
     spill_need (st_txn s) dbi (me_psize (st_env s)) (Some (val_of key)) data < mt_dirty_room (st_txn s) \<and>
     path_dirty rank s key d (md_root (mt_dbs (st_txn s) dbi)) \<and>
     (case leaf_of_key rank s key d (md_root (mt_dbs (st_txn s) dbi)) of
        None \<Rightarrow> False | Some (r, p) \<Rightarrow> put_fits rank s key data r p)"

lemma put_flags:
  assumes "flags = 0 \<or> flags = MDB_NOOVERWRITE"
  shows "\<not> any_set flags MDB_NOSPILL" "\<not> any_set flags MDB_MULTIPLE" "clear_flag flags MDB_NOSPILL = flags" "flags \<noteq> MDB_CURRENT"
    "\<not> any_set flags MDB_APPEND" "any_set flags MDB_NOOVERWRITE \<longleftrightarrow> flags = MDB_NOOVERWRITE" "flags AND NODE_ADD_FLAGS = 0"
    "flags AND (MDB_NOOVERWRITE OR MDB_NODUPDATA OR MDB_RESERVE OR MDB_APPEND OR MDB_APPENDDUP) = flags"
  using assms
  by (auto simp: any_set_def clear_flag_def MDB_NOSPILL_def MDB_MULTIPLE_def MDB_CURRENT_def MDB_APPEND_def MDB_NOOVERWRITE_def
      NODE_ADD_FLAGS_def F_DUPDATA_def F_SUBDATA_def MDB_RESERVE_def MDB_NODUPDATA_def MDB_APPENDDUP_def)

lemma cursor_put_steps:
  assumes pos: "put_position mc key flags s = Some (s1, Inr pos)" "pos = Key_found \<or> pos = Key_missing"
    and fl: "flags = 0 \<or> flags = MDB_NOOVERWRITE" and k: "key \<noteq> []" "length key \<le> MDB_MAXKEYSIZE" "mv_size data < 2 ^ 32"
    and db: "\<not> any_set (mt_flags (st_txn s)) (MDB_TXN_RDONLY OR MDB_TXN_ERROR)" "\<not> any_set (md_flags (cursor_db s mc)) MDB_DUPSORT"
    and c: "\<not> any_set (mc_flags (st_cursors s1 mc)) C_DEL" "\<not> any_set (mc_flags (st_cursors s1 mc)) C_SUB"
    and room: "spill_need (st_txn s1) (mc_dbi (st_cursors s1 mc)) (me_psize (st_env s1)) (Some (val_of key)) data < mt_dirty_room (st_txn s1)"
    and touch: "mdb_cursor_touch mc s1 = Some (s1, Inr ())"
  shows "mdb_cursor_put mc key data flags s = store_at mc key data flags (pos = Key_found) s1"
proof -
  have same: "s1\<lparr>st_cursors := (st_cursors s1)(mc := st_cursors s1 mc)\<rparr> = s1" by simp
  have spill: "mdb_page_spill mc (Some (val_of key)) data s1 = Some (s1, Inr ())"
    using room c(2) by (simp add: mdb_page_spill_def op_simps Let_def)
  show ?thesis
    using assms(2) pos(1) put_flags [OF fl] k db c(1) spill touch same
    by (auto simp: mdb_cursor_put_def op_simps Let_def MAXDATASIZE_def store_at_def)
qed

context key_embedding
begin

lemma put_position_run:
  assumes "db_ready s dbi" and t: "tree_ok valid rank s d (md_root (mt_dbs (st_txn s) dbi)) None None" "d < CURSOR_STACK"
    and v: "valid key" "key \<noteq> []" and fl: "flags = 0 \<or> flags = MDB_NOOVERWRITE"
    and f: "run_cmp (st_user s) f = cmp" "\<And>p. node_cmp f p = f" "md_cmp (me_dbxs (st_env s) dbi) = Some f"
  obtains c' where "key_position valid rank s key d (md_root (mt_dbs (st_txn s) dbi)) (start_cursor dbi s) c'"
    "put_position (st_cfresh s) key flags (start_state dbi s) = Some (with_fresh s c', Inr
      (case map_of (tree_items s d (md_root (mt_dbs (st_txn s) dbi))) key of
         None \<Rightarrow> Key_missing | Some v \<Rightarrow> if flags = MDB_NOOVERWRITE then Key_exists v else Key_found))"
proof -
  obtain c' where c': "mdb_cursor_set (st_cfresh s) key True MDB_SET True (start_state dbi s)
    = Some (with_fresh s c', case map_of (tree_items s d (md_root (mt_dbs (st_txn s) dbi))) key of
          None \<Rightarrow> Inl MDB_NOTFOUND | Some v \<Rightarrow> Inr (key, Some v))"
    "key_position valid rank s key d (md_root (mt_dbs (st_txn s) dbi)) (start_cursor dbi s) c'"
    using fresh_set_run [OF assms(1) t v f, of True] unfolding if_True by blast
  have "mc_dbi (start_cursor dbi s) = dbi" by (simp add: start_cursor_def)
  then have "put_position (st_cfresh s) key flags (start_state dbi s) = Some (with_fresh s c', Inr
      (case map_of (tree_items s d (md_root (mt_dbs (st_txn s) dbi))) key of
         None \<Rightarrow> Key_missing | Some v \<Rightarrow> if flags = MDB_NOOVERWRITE then Key_exists v else Key_found))"
    using c'(1) assms(1) put_flags [OF fl]
    by (simp add: put_position_def op_simps cursor_db_def db_ready_def found_or_missing_def split: option.splits)
  with c'(2) show thesis by (rule that)
qed

text \<open>What the position tells of the leaf.\<close>

lemma key_position_leaf:
  assumes "key_position valid rank s key d root (start_cursor dbi s) c'" and key: "valid key"
  obtains p lo hi where "page_at s (top_ref c') = Some p" "leaf_ok valid rank s p lo hi" "key_path rank s key c' 0 d root"
    "leaf_of_key rank s key d root = Some (top_ref c', p)" "mc_top c' = d" "mc_snum c' = Suc d" "mc_dbi c' = dbi"
    "\<not> any_set (mc_flags c') C_DEL" "\<not> any_set (mc_flags c') C_SUB"
    "top_ki c' = length (filter (\<lambda>k. rank k < rank key) (page_keys p))"
    "map_of (tree_items s d root) key \<noteq> None \<longleftrightarrow> key \<in> set (page_keys p)" "any_set (mc_flags c') C_INITIALIZED"
proof -
  have a: "arrived valid rank s key d root (key_start (start_cursor dbi s)) c'" using assms(1) by (simp add: key_position_def)
  obtain p where p: "page_at s (top_ref c') = Some p" "key_leaf valid rank s key (tree_items s d root) p"
    using a by (auto simp: arrived_def)
  then obtain lo hi where l: "leaf_ok valid rank s p lo hi" by (auto simp: key_leaf_def)
  have top: "mc_top c' = d" "mc_snum c' = Suc d" "mc_dbi c' = dbi" "key_path rank s key c' 0 d root"
    "mc_flags c' = clear_flag (0 OR C_INITIALIZED) C_EOF"
    using a by (simp_all add: arrived_def key_start_def start_cursor_def)
  define x where "x = length (filter (\<lambda>k. rank k < rank key) (page_keys p))"
  have "key \<in> set (page_keys p) \<Longrightarrow> node_value s (mp_body p) (NODEPTR p x) \<noteq> None"
    using leaf_index(3) [OF l x_def] l by (simp add: leaf_ok_def)
  then have "map_of (tree_items s d root) key \<noteq> None \<longleftrightarrow> key \<in> set (page_keys p)"
    using map_of_leaf [OF p(2) key x_def] by simp
  moreover have "leaf_of_key rank s key d root = Some (top_ref c', p)"
    using key_path_leaf_of [OF top(4)] p(1) by (auto simp: top_ref_def top(1))
  moreover have "top_ki c' = length (filter (\<lambda>k. rank k < rank key) (page_keys p))"
    using assms(1) p(1) by (simp add: key_position_def)
  ultimately show thesis
    using that [of p lo hi] p(1) l top by (simp add: clear_flag_def any_set_def C_INITIALIZED_def C_EOF_def C_DEL_def C_SUB_def)
qed

lemma put_run:
  assumes ready: "put_ready rank s dbi d key data"
    and t: "tree_ok valid rank s d (md_root (mt_dbs (st_txn s) dbi)) None None" "d < CURSOR_STACK"
      "distinct (tree_refs s d (md_root (mt_dbs (st_txn s) dbi)))"
    and v: "valid key" "key \<noteq> []" "length key \<le> MDB_MAXKEYSIZE" "val_ok data" "mv_size data < 2 ^ 32"
    and fl: "flags = 0 \<or> flags = MDB_NOOVERWRITE"
    and f: "run_cmp (st_user s) f = cmp" "\<And>p. node_cmp f p = f" "md_cmp (me_dbxs (st_env s) dbi) = Some f"
  defines "root \<equiv> md_root (mt_dbs (st_txn s) dbi)" and "m \<equiv> map_of (tree_items s d (md_root (mt_dbs (st_txn s) dbi)))"
  shows "\<exists>s'. mdb_put dbi (Some key) (Some data) flags s =
      Some (s', Inr (if flags = MDB_NOOVERWRITE \<and> m key \<noteq> None then Exists (the (m key)) else Stored)) \<and>
    map_of (tree_items s' d root) = (if flags = MDB_NOOVERWRITE \<and> m key \<noteq> None then m else m(key \<mapsto> val_bytes data)) \<and>
    tree_ok valid rank s' d root None None \<and> tree_refs s' d root = tree_refs s d root \<and>
    st_env s' = st_env s \<and> st_txn s' = counted (m key = None) dbi (st_txn s)"
proof -
  have db: "db_ready s dbi" and rw: "\<not> any_set (mt_flags (st_txn s)) (MDB_TXN_RDONLY OR MDB_TXN_ERROR)"
    and dirty: "dbi \<le> MAIN_DBI \<or> any_set (mt_dbflags (st_txn s) dbi) DB_DIRTY"
    and room: "spill_need (st_txn s) dbi (me_psize (st_env s)) (Some (val_of key)) data < mt_dirty_room (st_txn s)"
    and path: "path_dirty rank s key d root"
    using ready by (simp_all add: put_ready_def root_def)
  define pos where "pos = (case m key of None \<Rightarrow> Key_missing | Some v \<Rightarrow> if flags = MDB_NOOVERWRITE then Key_exists v else Key_found)"
  obtain c' where c': "key_position valid rank s key d root (start_cursor dbi s) c'"
    "put_position (st_cfresh s) key flags (start_state dbi s) = Some (with_fresh s c', Inr pos)"
    using put_position_run [OF db t(1,2) v(1,2) fl f] unfolding root_def pos_def m_def by blast
  define S where "S = with_fresh s c'"
  obtain p lo hi where p: "page_at s (top_ref c') = Some p" "leaf_ok valid rank s p lo hi" "key_path rank s key c' 0 d root"
    "leaf_of_key rank s key d root = Some (top_ref c', p)" "mc_top c' = d" "mc_snum c' = Suc d" "mc_dbi c' = dbi"
    "\<not> any_set (mc_flags c') C_DEL" "\<not> any_set (mc_flags c') C_SUB"
    "top_ki c' = length (filter (\<lambda>k. rank k < rank key) (page_keys p))"
    "m key \<noteq> None \<longleftrightarrow> key \<in> set (page_keys p)"
    unfolding m_def root_def [symmetric] by (rule key_position_leaf [OF c'(1) v(1)])
  have start: "mdb_put dbi (Some key) (Some data) flags s = mdb_cursor_put (st_cfresh s) key data flags (start_state dbi s)"
    using cursor_init_run [OF db] put_flags(8) [OF fl] db by (simp add: mdb_put_def op_simps db_ready_def)
  show ?thesis
  proof (cases "flags = MDB_NOOVERWRITE \<and> m key \<noteq> None")
    case True
    then obtain v where v': "m key = Some v" "pos = Key_exists v" by (auto simp: pos_def)
    have "mdb_cursor_put (st_cfresh s) key data flags (start_state dbi s) = Some (S, Inr (Exists v))"
      using c'(2) v'(2) rw put_flags [OF fl] v db
      by (simp add: mdb_cursor_put_def op_simps Let_def MAXDATASIZE_def S_def cursor_db_def start_cursor_def db_ready_def)
    then show ?thesis using start True v'(1) t(1) by (intro exI [of _ S]) (simp add: S_def root_def m_def counted_def)
  next
    case False
    have fits: "put_fits rank s key data (top_ref c') p"
      using ready p(4) by (simp add: put_ready_def root_def)
    have pos: "pos = Key_found \<or> pos = Key_missing" "pos = Key_found \<longleftrightarrow> key \<in> set (page_keys p)"
      using False p(11) by (auto simp: pos_def split: option.splits)
    have touch: "mdb_cursor_touch (st_cfresh s) S = Some (S, Inr ())"
    proof (rule cursor_touch_dirty)
      show "\<exists>p. page_at S (mc_pg c' k) = Some p \<and> F_ISSET (mp_flags p) P_DIRTY" if "k \<le> mc_top c'" for k
        using key_path_dirty [OF p(3) path, of k] that by (simp add: S_def p(5))
    qed (use dirty p(5-7) in \<open>simp_all add: S_def\<close>)
    have "mdb_cursor_put (st_cfresh s) key data flags (start_state dbi s) = store_at (st_cfresh s) key data flags (pos = Key_found) S"
      using cursor_put_steps [OF c'(2) pos(1) fl v(2,3,5), folded S_def] rw db room touch p(7-9)
      by (simp add: S_def cursor_db_def start_cursor_def db_ready_def)
    moreover obtain s' p' img where s': "store_at (st_cfresh s) key data flags (pos = Key_found) S = Some (s', Inr Stored)"
      "leaf_step S s' (top_ref c') p'" "st_txn s' = counted (pos \<noteq> Key_found) dbi (st_txn s)"
      "mp_flags p' = mp_flags p" "NUMKEYS p' < 65535"
      "page_nodes p' = take (top_ki c') (page_nodes p) @ [img] @ drop (if pos = Key_found then Suc (top_ki c') else top_ki c') (page_nodes p)"
      "img_key img = key" "img_value S img = Some (val_bytes data)" "\<not> F_ISSET (img_flags img) F_BIGDATA"
      "\<not> F_ISSET (img_flags img) F_DUPDATA"
    proof -
      have "\<exists>s' p' img. store_at (st_cfresh s) key data flags (pos = Key_found) S = Some (s', Inr Stored) \<and>
        leaf_step S s' (top_ref c') p' \<and> st_txn s' = counted (pos \<noteq> Key_found) (mc_dbi c') (st_txn S) \<and>
        mp_flags p' = mp_flags p \<and> NUMKEYS p' < 65535 \<and>
        page_nodes p' = take (top_ki c') (page_nodes p) @ [img] @ drop (if pos = Key_found then Suc (top_ki c') else top_ki c') (page_nodes p) \<and>
        img_key img = key \<and> img_value S img = Some (val_bytes data) \<and> \<not> F_ISSET (img_flags img) F_BIGDATA \<and>
        \<not> F_ISSET (img_flags img) F_DUPDATA"
        by (rule store_at_run [where p = p and lo = lo and hi = hi])
          (use p fits pos(2) v fl put_flags(7) [OF fl] db in
            \<open>simp_all add: S_def db_ready_def MDB_MAXKEYSIZE_def\<close>)
      then show thesis using that p(7) by (auto simp: S_def)
    qed
    define L where "L = take (top_ki c') (page_nodes p)"
    define R where "R = drop (if pos = Key_found then Suc (top_ki c') else top_ki c') (page_nodes p)"
    obtain M where old: "key_nodes rank key (page_nodes p) L M R"
    proof (cases "pos = Key_found")
      case True
      then have "\<not> F_ISSET (img_flags (page_nodes p ! top_ki c')) F_BIGDATA"
        using fits pos(2) p(10) leaf_index(3) [OF p(2,10)] p(2)
        by (simp add: put_fits_def Let_def leaf_ok_def nth_leaf_nodes img_node(2))
      then show thesis
        using that leaf_key_nodes(2) [OF p(2) v(1) p(10)] pos(2) True by (simp add: L_def R_def)
    next
      case False
      then show thesis using that leaf_key_nodes(1) [OF p(2) v(1) p(10)] pos(2) by (simp add: L_def R_def)
    qed
    have new: "key_nodes rank key (page_nodes p') L [img] R"
      using old s'(6,7,9) by (simp add: key_nodes_def L_def R_def)
    have top: "top_ref c' = mc_pg c' d" by (simp add: top_ref_def p(5))
    have st: "tree_ok valid rank S d root None None" "within None None (rank key)" "distinct (tree_refs S d root)"
        "key_path rank S key c' 0 d root" "page_at S (mc_pg c' (0 + d)) = Some p"
        "agree S s' (- {mc_pg c' (0 + d)})" "page_at s' (mc_pg c' (0 + d)) = Some p'"
        "\<forall>img \<in> set [img]. \<not> F_ISSET (img_flags img) F_DUPDATA \<and> img_value S img \<noteq> None" "IS_LEAF p"
      using t(1,3) p(1-3) s'(2,8,10) by (simp_all add: S_def root_def within_def leaf_step_def leaf_ok_def top)
    note tree = tree_exchange [OF st(1-3) v(1) st(4-7) old new st(8,9) s'(4,5)]
    have "m key = None \<longleftrightarrow> pos \<noteq> Key_found" using p(11) pos(2) by auto
    then have "st_txn s' = counted (m key = None) dbi (st_txn s)" using s'(3) by simp
    moreover have "map_of (tree_items s' d root) = m(key \<mapsto> val_bytes data)"
      using tree(3) s'(8) by (simp add: middle_value_def m_def root_def S_def)
    moreover have "tree_ok valid rank s' d root None None" "tree_refs s' d root = tree_refs s d root"
      using tree(1,2) by (simp_all add: S_def)
    moreover have "st_env s' = st_env s" using s'(2) by (simp add: leaf_step_def S_def)
    ultimately show ?thesis using False start s'(1) by (intro exI [of _ s']) auto
  qed
qed

end

section \<open>Properties\<close>

text \<open>
  C2: A put that splits no page is an update of the map that the database's B+tree stands for.
  What it takes for granted: default key comparison and no sorted duplicates; the flags are 0 or
  \<open>MDB_NOOVERWRITE\<close>; the write transaction has no error, the record of the database and the
  pages from the root to the leaf of the key are dirty already, and the dirty list has so much
  room that nothing is spilled; key and data together stay within \<open>me_nodemax\<close>, so that no
  overflow page is taken; an old value of the key is not on overflow pages, and has the size
  of the new one or leaves, with the free space of the leaf, room for the new node; a new node
  has room in the leaf. Then \<open>mdb_put\<close> succeeds: afterwards the map has the new data
  for the key and nothing else changed, the tree is in order, uses the same pages, and the
  record of the database counts the items. With \<open>MDB_NOOVERWRITE\<close> an existing item stays
  and is given back.
\<close>

theorem mdb_put_correct:
  assumes "put_ready (\<lambda>k. k) s dbi d key data"
    and "tree_ok (\<lambda>k. length k < 2 ^ 32) (\<lambda>k. k) s d (md_root (mt_dbs (st_txn s) dbi)) None None" "d < CURSOR_STACK"
    and "distinct (tree_refs s d (md_root (mt_dbs (st_txn s) dbi)))"
    and "key \<noteq> []" "length key \<le> MDB_MAXKEYSIZE" "val_ok data" "mv_size data < 2 ^ 32"
    and "flags = 0 \<or> flags = MDB_NOOVERWRITE" "md_cmp (me_dbxs (st_env s) dbi) = Some Cmp_memn"
  defines "root \<equiv> md_root (mt_dbs (st_txn s) dbi)" and "m \<equiv> map_of (tree_items s d (md_root (mt_dbs (st_txn s) dbi)))"
  shows "\<exists>s'. mdb_put dbi (Some key) (Some data) flags s =
      Some (s', Inr (if flags = MDB_NOOVERWRITE \<and> m key \<noteq> None then Exists (the (m key)) else Stored)) \<and>
    map_of (tree_items s' d root) = (if flags = MDB_NOOVERWRITE \<and> m key \<noteq> None then m else m(key \<mapsto> val_bytes data)) \<and>
    tree_ok (\<lambda>k. length k < 2 ^ 32) (\<lambda>k. k) s' d root None None \<and> tree_refs s' d root = tree_refs s d root \<and>
    st_env s' = st_env s \<and> st_txn s' = counted (m key = None) dbi (st_txn s)"
  unfolding root_def m_def
  by (rule memn.put_run [OF assms(1-4) _ assms(5-9) _ _ assms(10)]) (use assms(6) in \<open>simp_all add: node_cmp_memn MDB_MAXKEYSIZE_def\<close>)

text \<open>
  For the witness: the database of \<open>state0\<close> in a write transaction that has copied the root
  and the leaf with the keys 7 and 9.
\<close>

definition dirty_page :: "mdb_page \<Rightarrow> mdb_page" where
  "dirty_page p = p\<lparr>mp_flags := mp_flags p OR P_DIRTY\<rparr>"

definition put_list0 :: "page_ref id2l" where
  "put_list0 = [\<lparr>mid = 2, mptr = NullPg\<rparr>, \<lparr>mid = 2, mptr = HeapPg 0\<rparr>, \<lparr>mid = 4, mptr = HeapPg 1\<rparr>]"

definition put_state0 :: mdb_state where
  "put_state0 = state0\<lparr>st_env := env0\<lparr>me_psize := 100, me_nodemax := 40\<rparr>,
     st_txn := (st_txn state0)\<lparr>mt_flags := MDB_TXN_DIRTY, mt_dirty_list :=
       put_list0\<rparr>,
     st_heap := (\<lambda>_. None)(0 := Some (dirty_page branch_page), 1 := Some (dirty_page (leaf_page 4 7 9)))\<rparr>"

lemma put_list0_simps [simp]:
  "mdb_mid2l_search put_list0 2 = 1" "mdb_mid2l_search put_list0 3 = 2" "mdb_mid2l_search put_list0 4 = 2"
  "put_list0 ! 0 = \<lparr>mid = 2, mptr = NullPg\<rparr>" "put_list0 ! Suc 0 = \<lparr>mid = 2, mptr = HeapPg 0\<rparr>"
  "put_list0 ! 2 = \<lparr>mid = 4, mptr = HeapPg 1\<rparr>"
  unfolding put_list0_def by (code_simp, code_simp, code_simp, simp_all)

lemma dirty_page_simps [simp]:
  "NUMKEYS (dirty_page p) = NUMKEYS p" "NODEPTR (dirty_page p) i = NODEPTR p i" "mp_body (dirty_page p) = mp_body p"
  "page_keys (dirty_page p) = page_keys p" "child (dirty_page p) i = child p i"
  "IS_LEAF (dirty_page p) = IS_LEAF p" "IS_BRANCH (dirty_page p) = IS_BRANCH p" "IS_LEAF2 (dirty_page p) = IS_LEAF2 p"
  "F_ISSET (mp_flags (dirty_page p)) P_DIRTY" "page_nodes (dirty_page p) = page_nodes p" "page_ok n (dirty_page p) = page_ok n p"
  "SIZELEFT (dirty_page p) = SIZELEFT p"
proof -
  show *: "NUMKEYS (dirty_page p) = NUMKEYS p" "NODEPTR (dirty_page p) i = NODEPTR p i" "mp_body (dirty_page p) = mp_body p" for i
    by (simp_all add: dirty_page_def NUMKEYS_def NODEPTR_def)
  show "page_keys (dirty_page p) = page_keys p" "child (dirty_page p) i = child p i"
    by (simp_all add: page_keys_def child_def *)
  show "F_ISSET (mp_flags (dirty_page p)) P_DIRTY" by (simp add: dirty_page_def flag_simps)
  show t: "IS_LEAF (dirty_page p) = IS_LEAF p" "IS_BRANCH (dirty_page p) = IS_BRANCH p" "IS_LEAF2 (dirty_page p) = IS_LEAF2 p"
    by (simp_all add: dirty_page_def IS_LEAF_def IS_BRANCH_def IS_LEAF2_def F_ISSET_or_other P_LEAF_def P_BRANCH_def
        P_LEAF2_def P_DIRTY_def)
  show n: "page_nodes (dirty_page p) = page_nodes p" by (simp add: page_nodes_def t *) (simp add: dirty_page_def)
  show "page_ok n (dirty_page p) = page_ok n p"
    unfolding page_ok_def n t * node_sz_def by (simp add: dirty_page_def)
  show "SIZELEFT (dirty_page p) = SIZELEFT p" by (simp add: SIZELEFT_def dirty_page_def)
qed

lemma page_of_put_state0:
  "page_of put_state0 2 = Some (HeapPg 0, dirty_page branch_page)" "page_of put_state0 3 = Some (MapPg 3, leaf_page 3 5 6)"
  "page_of put_state0 4 = Some (HeapPg 1, dirty_page (leaf_page 4 7 9))"
  by (simp_all add: page_of_def page_lookup_def spilled_at_def dirty_at_def put_state0_def state0_def txn1_def env0_def
      Let_def any_set_def MDB_TXN_RDONLY_def MDB_TXN_DIRTY_def)

lemma leaf_page_images:
  "page_nodes (leaf_page pg a b) = [node_image True (mp_body (leaf_page pg a b)) 80, node_image True (mp_body (leaf_page pg a b)) 90]"
  by (simp add: page_nodes_def numeral_2_eq_2) (simp add: leaf_page_def)

lemma put_state0_tree:
  "tree_ok (\<lambda>k. length k < 2 ^ 32) (\<lambda>k. k) put_state0 1 2 None None"
  "tree_items put_state0 1 2 = [([5], [105]), ([6], [106]), ([7], [107]), ([9], [109])]"
  "tree_refs put_state0 1 2 = [HeapPg 0, MapPg 3, HeapPg 1]"
proof -
  have l: "leaf_ok (\<lambda>k. length k < 2 ^ 32) (\<lambda>k. k) put_state0 (leaf_page 3 5 6) None (Some [7])"
    "leaf_ok (\<lambda>k. length k < 2 ^ 32) (\<lambda>k. k) put_state0 (dirty_page (leaf_page 4 7 9)) (Some [7]) None"
    by (auto simp: leaf_ok_def within_def less_2 leaf_page_nodes F_ISSET_def F_DUPDATA_def)
  have b: "branch_ok (\<lambda>k. length k < 2 ^ 32) (\<lambda>k. k) (dirty_page branch_page) None None"
    by (simp add: branch_ok_def within_def)
  show "tree_ok (\<lambda>k. length k < 2 ^ 32) (\<lambda>k. k) put_state0 1 2 None None"
    using l b by (auto simp: page_of_put_state0 less_2 low_of_def high_of_def)
  show "tree_items put_state0 1 2 = [([5], [105]), ([6], [106]), ([7], [107]), ([9], [109])]"
    by (simp add: page_of_put_state0 leaf_items_def numeral_2_eq_2 leaf_page_nodes)
  have "img_refs put_state0 (node_image True (mp_body (leaf_page pg a b)) n) = []" if "n = 80 \<or> n = 90" for pg a b n
    using that img_node(2) [where m = "mp_body (leaf_page pg a b)" and a = n]
    by (auto simp: img_refs_def leaf_page_nodes F_ISSET_def F_BIGDATA_def)
  then have "leaf_refs put_state0 (leaf_page pg a b) = []" "leaf_refs put_state0 (dirty_page (leaf_page pg a b)) = []" for pg a b
    by (simp_all add: leaf_refs_def leaf_page_images)
  then show "tree_refs put_state0 1 2 = [HeapPg 0, MapPg 3, HeapPg 1]"
    by (simp add: page_of_put_state0 numeral_2_eq_2)
qed

lemma leaf_page_ok: "page_ok 100 (leaf_page pg a b)"
proof -
  have "node_len True (mp_body (leaf_page pg a b)) 80 = 10" "node_len True (mp_body (leaf_page pg a b)) 90 = 10"
    by (simp_all add: node_len_def NODESIZE_def NODEKSZ_def mn_ksize_def NODEDSZ_def mn_lo_def mn_hi_def mn_flags_def rd16_def
        leaf_page_def F_ISSET_def F_BIGDATA_def)
  moreover have "mp_ptrs (leaf_page pg a b) 0 = 80" "mp_ptrs (leaf_page pg a b) (Suc 0) = 90"
    "mp_lower (leaf_page pg a b) = 20" "mp_upper (leaf_page pg a b) = 80"
    by (simp_all add: leaf_page_def)
  ultimately show ?thesis
    by (auto simp: page_ok_def less_2 node_sz_def leaf_page_images PAGEHDRSZ_def EVEN_def)
qed

theorem mdb_put_witness:
  "\<exists>s'. mdb_put 1 (Some [8]) (Some \<lparr>mv_size = 2, mv_data = [1, 2]\<rparr>) 0 put_state0 = Some (s', Inr Stored) \<and>
    map_of (tree_items s' 1 2) [8] = Some [1, 2] \<and> map_of (tree_items s' 1 2) [7] = Some [107]"
proof -
  let ?data = "\<lparr>mv_size = 2, mv_data = [1, 2]\<rparr> :: mdb_val"
  have st: "md_root (mt_dbs (st_txn put_state0) 1) = 2" "md_cmp (me_dbxs (st_env put_state0) 1) = Some Cmp_memn"
    "me_psize (st_env put_state0) = 100" "me_nodemax (st_env put_state0) = 40" "mt_flags (st_txn put_state0) = MDB_TXN_DIRTY"
    "mt_dirty_room (st_txn put_state0) = 131071" "md_depth (mt_dbs (st_txn put_state0) 1) = md_depth db0"
    "st_heap put_state0 (Suc 0) = Some (dirty_page (leaf_page 4 7 9))"
    by (simp_all add: put_state0_def state0_def txn1_def env0_def)
  have ready: "db_ready put_state0 1"
    using db_ready_state0 by (simp add: db_ready_def put_state0_def state0_def TXN_DBI_EXIST_def MDB_TXN_DIRTY_def MDB_TXN_ERROR_def)
  have way: "child_index (\<lambda>k. k) (dirty_page branch_page) [8] = 1"
    by (simp add: child_index_def)
  have leaf: "leaf_of_key (\<lambda>k. k) put_state0 [8] 1 2 = Some (HeapPg 1, dirty_page (leaf_page 4 7 9))"
    by (simp add: page_of_put_state0 way)
  have path: "path_dirty (\<lambda>k. k) put_state0 [8] 1 2" by (simp add: page_of_put_state0 way)
  have fits: "put_fits (\<lambda>k. k) put_state0 [8] ?data (HeapPg 1) (dirty_page (leaf_page 4 7 9))"
    by (simp add: put_fits_def st can_write_heap leaf_page_ok mdb_leaf_size_def LEAFSIZE_def val_of_def NODESIZE_def EVEN_def)
      (simp add: SIZELEFT_def leaf_page_def indx_sub_def)
  have "put_ready (\<lambda>k. k) put_state0 1 1 [8] ?data"
    using ready leaf fits path
    by (simp add: put_ready_def st page_of_put_state0 way spill_need_def MAIN_DBI_def val_of_def LEAFSIZE_def NODESIZE_def db0_def
        any_set_def MDB_TXN_DIRTY_def MDB_TXN_RDONLY_def MDB_TXN_ERROR_def del: One_nat_def)
  from mdb_put_correct [OF this, unfolded st(1), OF put_state0_tree(1), of 0] st(2)
  show ?thesis unfolding put_state0_tree(2,3) by (auto simp: CURSOR_STACK_def MDB_MAXKEYSIZE_def val_ok_def)
qed

end
