(* ===== verification/Del_Tree.thy ===== *)
theory Del_Tree
  imports Put_Tree Iterate Rebalance
begin

text \<open>
  \<open>mdb_del\<close> as an update of the map that a tree stands for: an item of a leaf that stays full
  enough, on a path that the transaction has already copied. The cursor then moves on to the
  next leaf if it was on the last item.
\<close>

section \<open>States with the same pages\<close>

definition same_pages :: "mdb_state \<Rightarrow> mdb_state \<Rightarrow> bool" where
  "same_pages s s' \<longleftrightarrow> (\<forall>r. page_at s' r = page_at s r) \<and>
     (\<forall>pg. page_lookup (st_env s') (st_txn s') pg = page_lookup (st_env s) (st_txn s) pg)"

lemma same_pages_of: "same_pages s s' \<Longrightarrow> page_of s' = page_of s"
  by (auto simp: same_pages_def page_of_def fun_eq_iff split: option.splits)

lemma page_lookup_tracked [simp]: "page_lookup env (t\<lparr>mt_cursors := cs\<rparr>) pg = page_lookup env t pg"
  by (simp add: page_lookup_def spilled_at_def dirty_at_def Let_def)

lemma same_pages_tree:
  assumes "same_pages s s'"
  shows "tree_items s' d pg = tree_items s d pg" "tree_ok valid rank s' d pg lo hi = tree_ok valid rank s d pg lo hi"
    "tree_refs s' d pg = tree_refs s d pg" "key_path rank s' key c j d pg = key_path rank s key c j d pg"
    "leaf_ok valid rank s' p lo hi = leaf_ok valid rank s p lo hi"
proof -
  note of' = same_pages_of [OF assms]
  have nv: "node_value s' = node_value s" by (simp add: node_value_def fun_eq_iff of')
  have li: "leaf_items s' = leaf_items s" by (simp add: leaf_items_def fun_eq_iff nv)
  have lk: "leaf_ok valid rank s' = leaf_ok valid rank s" by (simp add: leaf_ok_def fun_eq_iff nv)
  have ir: "img_refs s' = img_refs s" by (simp add: img_refs_def fun_eq_iff of')
  have lr: "leaf_refs s' = leaf_refs s" unfolding leaf_refs_def fun_eq_iff ir by simp
  show "leaf_ok valid rank s' p lo hi = leaf_ok valid rank s p lo hi" by (simp add: lk)
  show "tree_items s' d pg = tree_items s d pg" by (induction d arbitrary: pg) (simp_all add: of' li split: option.splits)
  show "tree_ok valid rank s' d pg lo hi = tree_ok valid rank s d pg lo hi"
    by (induction d arbitrary: pg lo hi) (simp_all add: of' lk split: option.splits)
  show "tree_refs s' d pg = tree_refs s d pg" by (induction d arbitrary: pg) (simp_all add: of' lr split: option.splits)
  show "key_path rank s' key c j d pg = key_path rank s key c j d pg"
    by (induction d arbitrary: j pg) (simp_all add: of' split: option.splits)
qed

section \<open>The path after the leaf changed\<close>

lemma key_path_on_path:
  "key_path rank s key c j d pg \<Longrightarrow> tree_ok valid rank s d pg lo hi \<Longrightarrow> within lo hi (rank key) \<Longrightarrow> on_path s c j d pg"
proof (induction d arbitrary: j pg lo hi)
  case 0
  then show ?case by (auto split: option.splits)
next
  case (Suc d)
  then obtain r p where p: "page_of s pg = Some (r, p)" "branch_ok valid rank p lo hi" "mc_pg c j = r"
    "mc_ki c j = child_index rank p key" "key_path rank s key c (j + 1) d (child p (child_index rank p key))"
    "\<And>i. i < NUMKEYS p \<Longrightarrow> tree_ok valid rank s d (child p i) (low_of rank p lo i) (high_of rank p hi i)"
    by (auto split: option.splits)
  note i = child_index_within [OF p(2) Suc.prems(3)]
  show ?case using Suc.IH [OF p(5) p(6) [OF i(1)] i(2)] p i(1) by simp
qed

lemma key_path_agree:
  "key_path rank s key c j d pg \<Longrightarrow> tree_ok valid rank s d pg lo hi \<Longrightarrow> within lo hi (rank key) \<Longrightarrow>
    distinct (tree_refs s d pg) \<Longrightarrow> agree s s' (- {mc_pg c (j + d)}) \<Longrightarrow> page_at s' (mc_pg c (j + d)) = Some p' \<Longrightarrow>
    key_path rank s' key c j d pg"
proof (induction d arbitrary: j pg lo hi)
  case 0
  then show ?case by (auto simp: page_of_def agree_def split: option.splits)
next
  case (Suc d)
  then obtain r q where q: "page_of s pg = Some (r, q)" "branch_ok valid rank q lo hi" "mc_pg c j = r"
    "mc_ki c j = child_index rank q key" "key_path rank s key c (j + 1) d (child q (child_index rank q key))"
    "\<And>i. i < NUMKEYS q \<Longrightarrow> tree_ok valid rank s d (child q i) (low_of rank q lo i) (high_of rank q hi i)"
    by (auto split: option.splits)
  note i = child_index_within [OF q(2) Suc.prems(3)]
  have dist: "distinct (r # concat (map (\<lambda>i. tree_refs s d (child q i)) [0..<NUMKEYS q]))" using Suc.prems(4) q(1) by simp
  have "mc_pg c (j + Suc d) \<in> set (tree_refs s d (child q (child_index rank q key)))"
    using key_path_ref [OF q(5) q(6) [OF i(1)] i(2)] by simp
  then have "r \<noteq> mc_pg c (j + Suc d)" using dist i(1) by auto
  then have "page_of s' pg = Some (r, q)" using agree_page [OF Suc.prems(5) q(1)] by simp
  moreover have "distinct (tree_refs s d (child q (child_index rank q key)))"
    using distinct_concat_child(1) [of "\<lambda>i. tree_refs s d (child q i)", OF _ i(1)] dist by simp
  then have "key_path rank s' key c (j + 1) d (child q (child_index rank q key))"
    using Suc.IH [OF q(5) q(6) [OF i(1)] i(2)] Suc.prems(5,6) by simp
  ultimately show ?case using q(3,4) by simp
qed

section \<open>Deleting in the leaf\<close>

text \<open>
  The leaf keeps an item and is not to be merged (a root leaf never is); the item has no
  overflow pages.
\<close>

definition del_fits :: "(bytes \<Rightarrow> 'o::linorder) \<Rightarrow> mdb_state \<Rightarrow> bytes \<Rightarrow> nat \<Rightarrow> page_ref \<Rightarrow> mdb_page \<Rightarrow> bool" where
  "del_fits rank s key d r p \<longleftrightarrow>
     (let x = length (filter (\<lambda>k. rank k < rank key) (page_keys p)) in
      can_write s r \<and> page_ok (me_psize (st_env s)) p \<and> \<not> IS_SUBP p \<and>
      \<not> F_ISSET (mn_flags (mp_body p) (NODEPTR p x)) F_BIGDATA \<and>
      (case mdb_node_del 0 p x of None \<Rightarrow> False
       | Some p' \<Rightarrow> 1 \<le> NUMKEYS p' \<and> (d = 0 \<or> FILL_THRESHOLD \<le> PAGEFILL (me_psize (st_env s)) p')))"

lemma node_del_ksize: "\<not> IS_LEAF2 p \<Longrightarrow> mdb_node_del ks p i = mdb_node_del 0 p i"
  by (simp add: mdb_node_del_def Let_def)

lemma rebalance_nothing:
  assumes "st_cursors s mc = c" "page_at s (top_ref c) = Some p" "IS_LEAF p" "\<not> IS_BRANCH p" "\<not> IS_SUBP p" "1 \<le> NUMKEYS p"
    and "mc_top c = 0 \<or> FILL_THRESHOLD \<le> PAGEFILL (me_psize (st_env s)) p" "mc_snum c = Suc (mc_top c)"
    and "\<not> any_set (mc_flags c) C_SUB"
  shows "mdb_rebalance mc s = Some (s, Inr ())"
proof -
  have "mc_pg c 0 = top_ref c" if "mc_top c = 0" using that by (simp add: top_ref_def)
  then have "rebalance_step f mc s = Some (s, Inr ())" for f
    using assms by (auto simp: rebalance_step_def rebalance_root_def op_simps topM_def Let_def)
  then have "rebalance n mc s = Some (s, Inr ())" for n by (cases n) simp_all
  then show ?thesis by (simp add: mdb_rebalance_def)
qed

lemma del_adjust_nothing:
  "\<forall>m \<in> set ms. m \<noteq> mc \<longrightarrow> mc_pg (st_cursors s m) (mc_top (st_cursors s mc)) \<noteq> mp \<Longrightarrow>
    del_adjust mc mp ki nkeys ms s = Some (s, Inr ())"
  by (induction ms) (auto simp: op_simps Let_def)

lemma sibling_or_eof_run:
  assumes "on_path s c 0 d root" "tree_ok valid rank s d root lo hi" "st_cursors s mc = c" "mc_top c = d" "mc_snum c = Suc d"
    and "d < CURSOR_STACK"
  shows "\<exists>c'. sibling_or_eof mc s = Some (s\<lparr>st_cursors := (st_cursors s)(mc := c')\<rparr>, Inr ()) \<and> mc_top c' = d \<and> mc_dbi c' = mc_dbi c"
proof -
  have run: "mdb_cursor_sibling mc True s = cursor_sibling (Suc d) mc True s"
    using assms(3,5) by (simp add: mdb_cursor_sibling_def op_simps)
  have top: "mc_snum c = d + 1" "tree_ok valid rank s (d + 0) root lo hi" "d \<le> Suc d" using assms(2,5) by simp_all
  note sib = sibling_right [OF assms(1) top(2) assms(3) [symmetric] assms(4) top(1,3) assms(6)]
  show ?thesis
  proof (cases "\<forall>j < d. at_last s c j")
    case True
    then have "mdb_cursor_sibling mc True s = Some (s, Inl MDB_NOTFOUND)" using sib run by simp
    then show ?thesis using assms(3,4)
      by (intro exI [of _ "c\<lparr>mc_flags := mc_flags c OR C_EOF\<rparr>"]) (simp add: sibling_or_eof_def op_simps)
  next
    case False
    then obtain c' k where "moved_right s c c' k d root"
      "mdb_cursor_sibling mc True s = Some (s\<lparr>st_cursors := (st_cursors s)(mc := c')\<rparr>, Inr ())"
      using sib False run by (simp only: if_False) blast
    then show ?thesis using assms(4) by (auto simp: sibling_or_eof_def op_simps moved_right_def)
  qed
qed

text \<open>The record of the database after an item was taken out.\<close>

definition uncounted :: "nat \<Rightarrow> mdb_txn \<Rightarrow> mdb_txn" where
  "uncounted dbi t =
     t\<lparr>mt_dbs := (mt_dbs t)(dbi := (mt_dbs t dbi)\<lparr>md_entries := md_entries (mt_dbs t dbi) - 1\<rparr>)\<rparr>"

context key_embedding
begin

text \<open>\<open>mdb_cursor_del0\<close> with the cursor on the key, in its leaf.\<close>

lemma cursor_del0_run:
  assumes t: "tree_ok valid rank s d root None None" "d < CURSOR_STACK" "distinct (tree_refs s d root)" and v: "valid key"
    and c: "st_cursors s mc = c" "mc_top c = d" "mc_snum c = Suc d" "\<not> any_set (mc_flags c) C_SUB"
      "key_path rank s key c 0 d root" "page_at s (top_ref c) = Some p"
      "top_ki c = length (filter (\<lambda>k. rank k < rank key) (page_keys p))"
    and l: "leaf_ok valid rank s p lo hi" and key: "key \<in> set (page_keys p)" and fits: "del_fits rank s key d (top_ref c) p"
    and db: "\<not> any_set (md_flags (mt_dbs (st_txn s) (mc_dbi c))) MDB_DUPSORT"
    and ms: "\<forall>m \<in> set (mt_cursors (st_txn s) (mc_dbi c)). m \<noteq> mc \<longrightarrow> mc_pg (st_cursors s m) d \<noteq> top_ref c"
  shows "\<exists>s'. mdb_cursor_del0 mc s = Some (s', Inr ()) \<and> tree_ok valid rank s' d root None None \<and>
    tree_refs s' d root = tree_refs s d root \<and> map_of (tree_items s' d root) = (map_of (tree_items s d root))(key := None) \<and>
    st_env s' = st_env s \<and> st_txn s' = uncounted (mc_dbi c) (st_txn s)"
proof -
  define r where "r = top_ref c"
  define pad where "pad = unat (md_pad (cursor_db s mc))"
  have lf: "IS_LEAF p" "\<not> IS_BRANCH p" "\<not> IS_LEAF2 p" using l by (simp_all add: leaf_ok_def)
  have x: "top_ki c < NUMKEYS p" using leaf_index(3) [OF l c(7) key] by simp
  have w: "can_write s r" "page_ok (me_psize (st_env s)) p"
    and small: "\<not> IS_SUBP p" "\<not> F_ISSET (mn_flags (mp_body p) (NODEPTR p (top_ki c))) F_BIGDATA"
    using fits by (simp_all add: del_fits_def Let_def r_def c(7))
  obtain s1 p' where s1: "node_delM mc pad s = Some (s1, Inr ())" "leaf_step s s1 r p'" "st_txn s1 = st_txn s"
    "st_cursors s1 = st_cursors s" "mdb_node_del pad p (top_ki c) = Some p'" "page_nodes p' = remove_at (top_ki c) (page_nodes p)"
    "mp_flags p' = mp_flags p" "page_ok (me_psize (st_env s)) p'"
    using node_delM_run [OF c(1,6) w(1) [unfolded r_def] w(2) x] unfolding r_def by blast
  have "mdb_node_del 0 p (top_ki c) = Some p'" using s1(5) node_del_ksize [OF lf(3), of pad] by simp
  then have left: "1 \<le> NUMKEYS p'" "d = 0 \<or> FILL_THRESHOLD \<le> PAGEFILL (me_psize (st_env s)) p'"
    using fits by (simp_all add: del_fits_def Let_def c(7) [symmetric])
  define s2 where "s2 = s1\<lparr>st_txn := uncounted (mc_dbi c) (st_txn s1)\<rparr>"
  have s2: "leaf_step s s2 r p'" "st_cursors s2 = st_cursors s" "st_env s2 = st_env s"
    using s1(2,4) by (simp_all add: s2_def uncounted_def leaf_step_cursors) (simp add: leaf_step_def)
  define L where "L = take (top_ki c) (page_nodes p)"
  define R where "R = drop (Suc (top_ki c)) (page_nodes p)"
  have old: "key_nodes rank key (page_nodes p) L [page_nodes p ! top_ki c] R"
    using leaf_key_nodes(2) [OF l v c(7) key] small(2) x nth_leaf_nodes [OF lf(1) x] by (simp add: img_node(2) L_def R_def)
  have new: "key_nodes rank key (page_nodes p') L [] R"
    using old s1(6) by (simp add: key_nodes_def L_def R_def remove_at_def)
  have r: "mc_pg c (0 + d) = r" by (simp add: r_def top_ref_def c(2))
  have within: "within None None (rank key)" by (simp add: within_def)
  have at2: "agree s s2 (- {mc_pg c (0 + d)})" "page_at s2 (mc_pg c (0 + d)) = Some p'"
    using s2(1) unfolding r by (simp_all add: leaf_step_def)
  have p0: "page_at s (mc_pg c (0 + d)) = Some p" using c(6) unfolding r by (simp add: r_def)
  have "\<forall>img \<in> set []. \<not> F_ISSET (img_flags img) F_DUPDATA \<and> img_value s img \<noteq> None" by simp
  note tree = tree_exchange [OF t(1) within t(3) v c(5) p0 at2 old new this lf(1) s1(7) page_ok_NUMKEYS [OF s1(8)]]
  have path: "on_path s2 c 0 d root"
    using key_path_on_path [OF key_path_agree [OF c(5) t(1) within t(3) at2] tree(1) within] .
  have reb: "mdb_rebalance mc s2 = Some (s2, Inr ())"
    by (rule rebalance_nothing [where p = p'])
      (use c lf small(1) s1(7) s2 left at2(2) r in \<open>simp_all add: r_def IS_LEAF_def IS_BRANCH_def IS_SUBP_def\<close>)
  have sib: "\<exists>c'. (if NUMKEYS p' \<le> top_ki c then sibling_or_eof mc else ret ()) s2
      = Some (s2\<lparr>st_cursors := (st_cursors s2)(mc := c')\<rparr>, Inr ()) \<and> mc_top c' = d \<and> mc_dbi c' = mc_dbi c"
  proof (cases "NUMKEYS p' \<le> top_ki c")
    case True
    then show ?thesis using sibling_or_eof_run [OF path tree(1) _ c(2,3) t(2), of mc] c(1) s2(2) by simp
  next
    case False
    have "s2\<lparr>st_cursors := (st_cursors s2)(mc := c)\<rparr> = s2" using c(1) s2(2) by auto
    then show ?thesis using False c(2) by (intro exI [of _ c]) (simp add: op_simps)
  qed
  then obtain c' where c': "(if NUMKEYS p' \<le> top_ki c then sibling_or_eof mc else ret ()) s2
      = Some (s2\<lparr>st_cursors := (st_cursors s2)(mc := c')\<rparr>, Inr ())" "mc_top c' = d" "mc_dbi c' = mc_dbi c" by blast
  define s3 where "s3 = s2\<lparr>st_cursors := (st_cursors s2)(mc := c')\<rparr>"
  have adj: "del_adjust mc (top_ref c) (top_ki c) (NUMKEYS p') (mt_cursors (st_txn s) (mc_dbi c)) s3 = Some (s3, Inr ())"
    by (rule del_adjust_nothing) (use ms c'(2) s2(2) in \<open>simp add: s3_def\<close>)
  define s4 where "s4 = s3\<lparr>st_cursors := (st_cursors s3)(mc := c'\<lparr>mc_flags := mc_flags c' OR C_DEL\<rparr>)\<rparr>"
  have "mdb_cursor_del0 mc s = Some (s4, Inr ())"
  proof -
    have first: "node_delM mc (unat (md_pad (cursor_db s mc))) s = Some (s1, Inr ())" using s1(1) by (simp add: pad_def)
    have second: "upd_dbM mc (\<lambda>d. d\<lparr>md_entries := md_entries d - 1\<rparr>) s1 = Some (s2, Inr ())"
      using c(1) s1(3,4) by (simp add: upd_dbM_def op_simps s2_def uncounted_def)
    have top: "page_at s2 (top_ref c) = Some p'" "st_cursors s2 mc = c" using s2(1,2) c(1) by (simp_all add: leaf_step_def r_def)
    have third: "st_cursors s3 mc = c'" "st_txn s3 = uncounted (mc_dbi c) (st_txn s)"
      by (simp_all add: s3_def s2_def s1(3))
    have plain: "plain_db mc s3 = Some (s3, Inr ())"
      using db c'(3) third by (simp add: plain_db_def op_simps cursor_db_def uncounted_def)
    have track: "trackedM mc s3 = Some (s3, Inr (mt_cursors (st_txn s) (mc_dbi c)))"
      using c'(3) third by (simp add: trackedM_def op_simps uncounted_def)
    note sib' = c'(1) [folded s3_def]
    show ?thesis
      unfolding mdb_cursor_del0_def Let_def
      using c(1) first second reb top sib' plain track adj third(1)
      by (simp add: op_simps topM_def s4_def)
  qed
  moreover have "same_pages s2 s4"
  proof -
    have "page_at s4 q = page_at s2 q" for q by (simp add: s4_def s3_def)
    then show ?thesis by (simp add: same_pages_def) (simp add: s4_def s3_def)
  qed
  note last = same_pages_tree [OF this]
  moreover have "st_env s4 = st_env s" "st_txn s4 = uncounted (mc_dbi c) (st_txn s)"
    using s2(3) by (simp_all add: s4_def s3_def s2_def s1(3))
  ultimately show ?thesis
    using tree by (intro exI [of _ s4]) (simp add: last middle_value_def)
qed

end

text \<open>
  The state lets an item be deleted where it is: as for a put, and no cursor that is open on
  the database stands in the leaf.
\<close>

definition del_ready :: "(bytes \<Rightarrow> 'o::linorder) \<Rightarrow> mdb_state \<Rightarrow> nat \<Rightarrow> nat \<Rightarrow> bytes \<Rightarrow> bool" where
  "del_ready rank s dbi d key \<longleftrightarrow> db_ready s dbi \<and>
     \<not> any_set (mt_flags (st_txn s)) (MDB_TXN_RDONLY OR MDB_TXN_ERROR) \<and>
     (dbi \<le> MAIN_DBI \<or> any_set (mt_dbflags (st_txn s) dbi) DB_DIRTY) \<and>
     spill_need (st_txn s) dbi (me_psize (st_env s)) None (val_of []) < mt_dirty_room (st_txn s) \<and>
     path_dirty rank s key d (md_root (mt_dbs (st_txn s) dbi)) \<and>
     (case leaf_of_key rank s key d (md_root (mt_dbs (st_txn s) dbi)) of
        None \<Rightarrow> False
      | Some (r, p) \<Rightarrow> (key \<in> set (page_keys p) \<longrightarrow> del_fits rank s key d r p) \<and>
          (\<forall>m \<in> set (mt_cursors (st_txn s) dbi). mc_pg (st_cursors s m) d \<noteq> r))"

text \<open>\<open>mdb_cursor_del\<close> up to the deletion: nothing is spilled or touched.\<close>

lemma cursor_del_steps:
  assumes fl: "\<not> any_set flags MDB_NOSPILL" and mtf: "\<not> any_set (mt_flags (st_txn s)) (MDB_TXN_RDONLY OR MDB_TXN_ERROR)"
    and c: "st_cursors s mc = c" "any_set (mc_flags c) C_INITIALIZED" "\<not> any_set (mc_flags c) C_SUB" "page_at s (top_ref c) = Some p"
      "top_ki c < NUMKEYS p" "\<not> IS_LEAF2 p"
    and node: "\<not> F_ISSET (mn_flags (mp_body p) (NODEPTR p (top_ki c))) F_DUPDATA"
      "\<not> F_ISSET (mn_flags (mp_body p) (NODEPTR p (top_ki c))) F_BIGDATA"
    and room: "spill_need (st_txn s) (mc_dbi c) (me_psize (st_env s)) None (val_of []) < mt_dirty_room (st_txn s)"
    and touch: "mdb_cursor_touch mc s = Some (s, Inr ())"
  shows "mdb_cursor_del mc flags s = mdb_cursor_del0 mc s"
proof -
  have "mdb_page_spill mc None (val_of []) s = Some (s, Inr ())"
    using room c(1,3) by (simp add: mdb_page_spill_def op_simps Let_def)
  then show ?thesis
    using assms by (simp add: mdb_cursor_del_def op_simps topM_def Let_def)
qed

context key_embedding
begin

lemma del_run:
  assumes ready: "del_ready rank s dbi d key"
    and t: "tree_ok valid rank s d (md_root (mt_dbs (st_txn s) dbi)) None None" "d < CURSOR_STACK"
      "distinct (tree_refs s d (md_root (mt_dbs (st_txn s) dbi)))"
    and v: "valid key" "key \<noteq> []"
    and f: "run_cmp (st_user s) f = cmp" "\<And>p. node_cmp f p = f" "md_cmp (me_dbxs (st_env s) dbi) = Some f"
  defines "root \<equiv> md_root (mt_dbs (st_txn s) dbi)" and "m \<equiv> map_of (tree_items s d (md_root (mt_dbs (st_txn s) dbi)))"
  shows "\<exists>s'. mdb_del dbi (Some key) s = Some (s', if m key = None then Inl MDB_NOTFOUND else Inr ()) \<and>
    map_of (tree_items s' d root) = m(key := None) \<and>
    tree_ok valid rank s' d root None None \<and> tree_refs s' d root = tree_refs s d root \<and>
    st_env s' = st_env s \<and> st_txn s' = (if m key = None then st_txn s else uncounted dbi (st_txn s))"
proof -
  have db: "db_ready s dbi" and rw: "\<not> any_set (mt_flags (st_txn s)) (MDB_TXN_RDONLY OR MDB_TXN_ERROR)"
    and dirty: "dbi \<le> MAIN_DBI \<or> any_set (mt_dbflags (st_txn s) dbi) DB_DIRTY"
    and room: "spill_need (st_txn s) dbi (me_psize (st_env s)) None (val_of []) < mt_dirty_room (st_txn s)"
    and path: "path_dirty rank s key d root"
    using ready by (simp_all add: del_ready_def root_def)
  define mc where "mc = st_cfresh s"
  obtain c' where set: "mdb_cursor_set mc key False MDB_SET True (start_state dbi s)
    = Some (with_fresh s c', case m key of None \<Rightarrow> Inl MDB_NOTFOUND | Some v \<Rightarrow> Inr (key, None))"
    and pos: "key_position valid rank s key d root (start_cursor dbi s) c'"
    using fresh_set_run [OF db t(1,2) v f, of False] unfolding if_False mc_def m_def root_def by blast
  obtain p lo hi where p: "page_at s (top_ref c') = Some p" "leaf_ok valid rank s p lo hi" "key_path rank s key c' 0 d root"
    "leaf_of_key rank s key d root = Some (top_ref c', p)" "mc_top c' = d" "mc_snum c' = Suc d" "mc_dbi c' = dbi"
    "\<not> any_set (mc_flags c') C_DEL" "\<not> any_set (mc_flags c') C_SUB"
    "top_ki c' = length (filter (\<lambda>k. rank k < rank key) (page_keys p))"
    "m key \<noteq> None \<longleftrightarrow> key \<in> set (page_keys p)" "any_set (mc_flags c') C_INITIALIZED"
    unfolding m_def root_def [symmetric] by (rule key_position_leaf [OF pos v(1)])
  define ms where "ms = mt_cursors (st_txn s) dbi"
  have start: "mdb_del dbi (Some key) s = mdb_del0 dbi key 0 s"
    using rw db by (simp add: mdb_del_def op_simps db_ready_def)
  have init: "mdb_cursor_init mc dbi (s\<lparr>st_cfresh := st_cfresh s + 1\<rparr>) = Some (start_state dbi s, Inr ())"
    using cursor_init_run [OF db] by (simp add: mc_def)
  show ?thesis
  proof (cases "m key = None")
    case True
    have "mdb_del0 dbi key 0 s = Some (with_fresh s c', Inl MDB_NOTFOUND)"
      using init set True by (simp add: mdb_del0_def op_simps mc_def)
    then show ?thesis using start True t(1) by (intro exI [of _ "with_fresh s c'"]) (auto simp: root_def m_def)
  next
    case False
    then have key: "key \<in> set (page_keys p)" and fits: "del_fits rank s key d (top_ref c') p"
      and others: "\<forall>m \<in> set ms. mc_pg (st_cursors s m) d \<noteq> top_ref c'"
      using ready p(4,11) by (auto simp: del_ready_def root_def ms_def)
    define c where "c = c'\<lparr>mc_flags := mc_flags c' OR C_UNTRACK\<rparr>"
    define s1 where "s1 = (with_fresh s c)\<lparr>st_txn := (st_txn s)\<lparr>mt_cursors := (mt_cursors (st_txn s))(dbi := mc # ms)\<rparr>\<rparr>"
    have fl: "any_set (mc_flags c) C_INITIALIZED" "\<not> any_set (mc_flags c) C_SUB"
      using p(9,12) by (auto simp: c_def any_set_def C_UNTRACK_def C_SUB_def C_INITIALIZED_def word_ao_dist)
    have c: "st_cursors s1 mc = c" "mc_top c = d" "mc_snum c = Suc d" "mc_dbi c = dbi" "top_ref c = top_ref c'" "top_ki c = top_ki c'"
      "mc_pg c = mc_pg c'"
      using p(5-7) by (simp_all add: s1_def mc_def c_def top_ref_def top_ki_def)
    have pages: "same_pages s s1" by (simp add: same_pages_def s1_def with_fresh_def)
    note same = same_pages_tree [OF pages]
    have at: "page_at s1 r = page_at s r" for r using pages by (simp add: same_pages_def)
    have kp: "key_path rank s1 key c 0 d root"
      using p(3) unfolding same c_def by simp
    have touch: "mdb_cursor_touch mc s1 = Some (s1, Inr ())"
    proof (rule cursor_touch_dirty [OF c(1)])
      show "\<exists>p. page_at s1 (mc_pg c k) = Some p \<and> F_ISSET (mp_flags p) P_DIRTY" if "k \<le> mc_top c" for k
        using key_path_dirty [OF p(3) path, of k] that by (simp add: at c)
    qed (use dirty c in \<open>simp_all add: s1_def\<close>)
    have x: "top_ki c < NUMKEYS p" using leaf_index(3) [OF p(2,10) key] c(6) by simp
    have fits1: "del_fits rank s1 key d (top_ref c) p"
    proof -
      have eq: "can_write s1 = can_write s" "st_env s1 = st_env s"
        by (simp_all add: fun_eq_iff can_write_heap s1_def with_fresh_def split: page_ref.splits)
      show ?thesis using fits unfolding del_fits_def c(5) eq .
    qed
    have "mdb_cursor_del mc MDB_NODUPDATA s1 = mdb_cursor_del0 mc s1"
    proof (rule cursor_del_steps [where p = p])
      show "\<not> F_ISSET (mn_flags (mp_body p) (NODEPTR p (top_ki c))) F_BIGDATA"
        using fits by (simp add: del_fits_def Let_def c(6) p(10))
      show "\<not> F_ISSET (mn_flags (mp_body p) (NODEPTR p (top_ki c))) F_DUPDATA" "\<not> IS_LEAF2 p"
        using p(2) x by (simp_all add: leaf_ok_def)
    qed (use rw fl c x touch p(1) room in \<open>simp_all add: at s1_def any_set_def MDB_NODUPDATA_def MDB_NOSPILL_def spill_need_def Let_def split: if_splits\<close>)
    moreover obtain s2 where s2: "mdb_cursor_del0 mc s1 = Some (s2, Inr ())" "tree_ok valid rank s2 d root None None"
      "tree_refs s2 d root = tree_refs s1 d root" "map_of (tree_items s2 d root) = (map_of (tree_items s1 d root))(key := None)"
      "st_env s2 = st_env s1" "st_txn s2 = uncounted dbi (st_txn s1)"
    proof -
      have "\<exists>s2. mdb_cursor_del0 mc s1 = Some (s2, Inr ()) \<and> tree_ok valid rank s2 d root None None \<and>
        tree_refs s2 d root = tree_refs s1 d root \<and> map_of (tree_items s2 d root) = (map_of (tree_items s1 d root))(key := None) \<and>
        st_env s2 = st_env s1 \<and> st_txn s2 = uncounted (mc_dbi c) (st_txn s1)"
      proof (rule cursor_del0_run [where p = p and lo = lo and hi = hi])
        show "tree_ok valid rank s1 d root None None" "distinct (tree_refs s1 d root)" "leaf_ok valid rank s1 p lo hi"
          using t(1,3) p(2) unfolding same root_def by simp_all
        show "\<forall>m \<in> set (mt_cursors (st_txn s1) (mc_dbi c)). m \<noteq> mc \<longrightarrow> mc_pg (st_cursors s1 m) d \<noteq> top_ref c"
          using others by (auto simp: s1_def c with_fresh_def mc_def)
      qed (use c kp fl fits1 key p t(2) v db in \<open>simp_all add: at s1_def db_ready_def\<close>)
      then show thesis using that c(4) by auto
    qed
    define s3 where "s3 = s2\<lparr>st_txn := uncounted dbi (st_txn s)\<rparr>"
    have un: "(st_txn s2)\<lparr>mt_cursors := (mt_cursors (st_txn s2))(dbi := ms)\<rparr> = uncounted dbi (st_txn s)"
      by (simp add: s2(6) s1_def uncounted_def ms_def)
    ultimately have "mdb_del0 dbi key 0 s = Some (s3, Inr ())"
    proof -
      assume del: "mdb_cursor_del mc MDB_NODUPDATA s1 = mdb_cursor_del0 mc s1"
      have tracked: "(with_fresh s c')\<lparr>st_cursors := (st_cursors (with_fresh s c'))(mc := c),
          st_txn := (st_txn s)\<lparr>mt_cursors := (mt_cursors (st_txn s))(dbi := mc # ms)\<rparr>\<rparr> = s1"
        by (simp add: s1_def with_fresh_def mc_def)
      have mc': "st_cursors (with_fresh s c') mc = c'" by (simp add: mc_def)
      have fl0: "(0 :: u32) OR MDB_NODUPDATA = MDB_NODUPDATA" by simp
      show ?thesis
        unfolding mdb_del0_def
        using init set False del s2(1) un tracked mc'
        by (auto simp: op_simps fl0 mc_def [symmetric] c_def [symmetric] ms_def [symmetric] s3_def)
    qed
    moreover have "same_pages s2 s3"
      by (simp add: same_pages_def s3_def un [symmetric])
    note last = same_pages_tree [OF this]
    moreover have "st_env s3 = st_env s" "st_txn s3 = uncounted dbi (st_txn s)"
      using s2(5) by (simp_all add: s3_def s1_def)
    ultimately show ?thesis
      using False start s2(2-4) by (intro exI [of _ s3]) (simp add: last same m_def root_def)
  qed
qed

end

section \<open>Properties\<close>

text \<open>
  C3: A deletion that rebalances nothing removes one key from the map that the database's B+tree
  stands for. What it takes for granted: default key comparison and no sorted duplicates; the
  write transaction has no error, the record of the database and the pages from the root to the
  leaf of the key are dirty already, and the dirty list has so much room that nothing is spilled;
  no tracked cursor of the database stands on the leaf; if the key is there, its value is not on
  overflow pages, and the leaf keeps an item and, unless it is the root, stays full enough not to
  be merged. Then \<open>mdb_del\<close> without data returns \<open>MDB_NOTFOUND\<close> for a missing key and
  otherwise succeeds: afterwards the key is gone and nothing else changed, the tree is in order,
  uses the same pages, and the record of the database counts one item less.
\<close>

theorem mdb_del_correct:
  assumes "del_ready (\<lambda>k. k) s dbi d key"
    and "tree_ok (\<lambda>k. length k < 2 ^ 32) (\<lambda>k. k) s d (md_root (mt_dbs (st_txn s) dbi)) None None" "d < CURSOR_STACK"
    and "distinct (tree_refs s d (md_root (mt_dbs (st_txn s) dbi)))"
    and "key \<noteq> []" "length key < 2 ^ 32" "md_cmp (me_dbxs (st_env s) dbi) = Some Cmp_memn"
  defines "root \<equiv> md_root (mt_dbs (st_txn s) dbi)" and "m \<equiv> map_of (tree_items s d (md_root (mt_dbs (st_txn s) dbi)))"
  shows "\<exists>s'. mdb_del dbi (Some key) s = Some (s', if m key = None then Inl MDB_NOTFOUND else Inr ()) \<and>
    map_of (tree_items s' d root) = m(key := None) \<and>
    tree_ok (\<lambda>k. length k < 2 ^ 32) (\<lambda>k. k) s' d root None None \<and> tree_refs s' d root = tree_refs s d root \<and>
    st_env s' = st_env s \<and> st_txn s' = (if m key = None then st_txn s else uncounted dbi (st_txn s))"
  unfolding root_def m_def
  by (rule memn.del_run [OF assms(1-4) assms(6,5) _ _ assms(7)]) (simp_all add: node_cmp_memn)

text \<open>For the witness: the leaf with the keys 7 and 9 is the root.\<close>

definition del_state0 :: mdb_state where
  "del_state0 = put_state0\<lparr>st_txn := (st_txn put_state0)\<lparr>mt_dbs := (\<lambda>_. db0\<lparr>md_root := 4, md_entries := 2\<rparr>), mt_cursors := (\<lambda>_. [])\<rparr>\<rparr>"

lemma del_state0_page: "page_of del_state0 4 = Some (HeapPg 1, dirty_page (leaf_page 4 7 9))"
  by (simp add: page_of_def page_lookup_def spilled_at_def dirty_at_def del_state0_def put_state0_def state0_def txn1_def env0_def
      Let_def any_set_def MDB_TXN_RDONLY_def MDB_TXN_DIRTY_def)

lemma del_state0_tree:
  "tree_ok (\<lambda>k. length k < 2 ^ 32) (\<lambda>k. k) del_state0 0 4 None None"
  "tree_items del_state0 0 4 = [([7], [107]), ([9], [109])]"
  "distinct (tree_refs del_state0 0 4)"
proof -
  have "leaf_ok (\<lambda>k. length k < 2 ^ 32) (\<lambda>k. k) del_state0 (dirty_page (leaf_page 4 7 9)) None None"
    by (auto simp: leaf_ok_def within_def less_2 leaf_page_nodes F_ISSET_def F_DUPDATA_def)
  then show "tree_ok (\<lambda>k. length k < 2 ^ 32) (\<lambda>k. k) del_state0 0 4 None None" by (simp add: del_state0_page)
  show "tree_items del_state0 0 4 = [([7], [107]), ([9], [109])]"
    by (simp add: del_state0_page leaf_items_def numeral_2_eq_2 leaf_page_nodes)
  have "img_refs del_state0 (node_image True (mp_body (leaf_page pg a b)) n) = []" if "n = 80 \<or> n = 90" for pg a b n
    using that img_node(2) [where m = "mp_body (leaf_page pg a b)" and a = n]
    by (auto simp: img_refs_def leaf_page_nodes F_ISSET_def F_BIGDATA_def)
  then have "leaf_refs del_state0 (dirty_page (leaf_page pg a b)) = []" for pg a b
    by (simp add: leaf_refs_def leaf_page_images)
  then show "distinct (tree_refs del_state0 0 4)" by (simp add: del_state0_page)
qed

theorem mdb_del_witness:
  "\<exists>s'. mdb_del 1 (Some [9]) del_state0 = Some (s', Inr ()) \<and>
    map_of (tree_items s' 0 4) [9] = None \<and> map_of (tree_items s' 0 4) [7] = Some [107]"
proof -
  have st: "md_root (mt_dbs (st_txn del_state0) 1) = 4" "md_cmp (me_dbxs (st_env del_state0) 1) = Some Cmp_memn"
    "me_psize (st_env del_state0) = 100" "mt_flags (st_txn del_state0) = MDB_TXN_DIRTY"
    "mt_dirty_room (st_txn del_state0) = 131071" "md_depth (mt_dbs (st_txn del_state0) 1) = md_depth db0"
    "st_heap del_state0 (Suc 0) = Some (dirty_page (leaf_page 4 7 9))" "mt_cursors (st_txn del_state0) 1 = []"
    by (simp_all add: del_state0_def put_state0_def state0_def txn1_def env0_def)
  have ready: "db_ready del_state0 1"
    using db_ready_state0
    by (simp add: db_ready_def del_state0_def put_state0_def state0_def TXN_DBI_EXIST_def MDB_TXN_DIRTY_def MDB_TXN_ERROR_def db0_def
        any_set_def MDB_INTEGERKEY_def MDB_DUPSORT_def P_INVALID_def)
  have node: "\<exists>p'. mdb_node_del 0 (dirty_page (leaf_page 4 7 9)) (Suc 0) = Some p' \<and> NUMKEYS p' = 1"
    by (simp add: mdb_node_del_def Let_def) (simp add: NUMKEYS_def dirty_page_def leaf_page_def indx_sub_def PAGEHDRSZ_def PAGEBASE_def)
  have sub: "\<not> IS_SUBP (dirty_page (leaf_page 4 7 9))"
    by (simp add: IS_SUBP_def dirty_page_def leaf_page_def F_ISSET_def P_LEAF_def P_DIRTY_def P_SUBP_def)
  have fits: "del_fits (\<lambda>k. k) del_state0 [9] 0 (HeapPg 1) (dirty_page (leaf_page 4 7 9))"
    using node sub by (auto simp: del_fits_def st can_write_heap leaf_page_ok leaf_page_nodes)
  have "del_ready (\<lambda>k. k) del_state0 1 0 [9]"
    using ready fits
    by (simp add: del_ready_def st del_state0_page spill_need_def MAIN_DBI_def val_of_def LEAFSIZE_def NODESIZE_def db0_def
        any_set_def MDB_TXN_DIRTY_def MDB_TXN_RDONLY_def MDB_TXN_ERROR_def del: One_nat_def)
  from mdb_del_correct [OF this, unfolded st(1), OF del_state0_tree(1)] st(2) del_state0_tree(3)
  show ?thesis unfolding del_state0_tree(2) by (auto simp: CURSOR_STACK_def)
qed

end
