(* ===== verification/Copy_File.thy ===== *)
theory Copy_File
  imports Env Txn Spill
begin

text \<open>
  Copying an environment as it is (\<open>mdb_env_copyfd0\<close>), and the choice between the two kinds
  of copy with the handling of the target file (\<open>mdb_env_copyfd2\<close>, \<open>mdb_env_copy2\<close>). The bytes
  of the map may change while they are written, since other processes go on with write
  transactions; so the map is given at the time of each write.
\<close>

section \<open>Writing the map to a file\<close>

text \<open>The map at the \<open>k\<close>-th write, what that write does, and the size of the data file.\<close>

record copy_io =
  io_map :: "nat \<Rightarrow> mem"
  io_write :: "nat \<Rightarrow> nat \<Rightarrow> write_result"
  io_fsize :: u64

text \<open>
  A loop of writes: at most \<open>limit\<close> bytes at a time. The result is the number of writes so far,
  the pointer, the bytes of the target file and the return code. A write of \<open>w2\<close> bytes writes at
  most \<open>w2\<close>.
\<close>

function copy_writes ::
  "copy_io \<Rightarrow> nat \<Rightarrow> nat \<Rightarrow> nat \<Rightarrow> nat \<Rightarrow> bytes \<Rightarrow> nat \<times> nat \<times> bytes \<times> (mdb_err + unit)" where
  "copy_writes io limit k ptr wsize out =
     (if wsize = 0 then (k, ptr, out, Inr ())
      else
        let w2 = min limit wsize in
        case io_write io k w2 of
          Write_failed e n \<Rightarrow> (k + 1, ptr, out @ rd (io_map io k) ptr (min n w2), Inl (Errno e))
        | Wrote n \<Rightarrow>
            if min n w2 = 0 then (k + 1, ptr, out, Inl EIO)
            else copy_writes io limit (k + 1) (ptr + min n w2) (wsize - min n w2) (out @ rd (io_map io k) ptr (min n w2)))"
  by auto

termination
  by (relation "measure (\<lambda>(io, limit, k, ptr, wsize, out). wsize)") (auto simp: min_def split: if_splits)

declare copy_writes.simps [simp del]

text \<open>
  The two meta pages, then the rest of the file up to the last page of the transaction, but
  not beyond the end of the file. \<open>wsize\<close> and \<open>w2\<close> are of type \<open>size_t\<close>.
\<close>

definition copy_metas_bytes :: "copy_io \<Rightarrow> nat \<Rightarrow> nat \<times> nat \<times> bytes \<times> (mdb_err + unit)" where
  "copy_metas_bytes io psize = copy_writes io (psize * 2) 0 0 (psize * 2) []"

definition copy_rest_bytes :: "copy_io \<Rightarrow> nat \<Rightarrow> u64 \<Rightarrow> nat \<Rightarrow> nat \<Rightarrow> bytes \<Rightarrow> bytes \<times> (mdb_err + unit)" where
  "copy_rest_bytes io psize next_pgno k ptr out =
     (let w2 = next_pgno * word_of_nat psize;
          w2 = (if w2 > io_fsize io then io_fsize io else w2);
          wsize = w2 - word_of_nat (psize * 2)
      in case copy_writes io (unat MAX_WRITE) k ptr (unat wsize) out of (k, ptr, out, r) \<Rightarrow> (out, r))"

text \<open>
  The read transaction is begun, and with a lock file begun again while writers are blocked,
  so that the meta pages in the copy are the ones of the snapshot.
\<close>

definition copy_snapshot :: "u64 \<Rightarrow> unit op" where
  "copy_snapshot tid =
     seqM mdb_txn_reset0
     (seqM lock_w
     (onfail (\<lambda>s. s\<lparr>st_env := (st_env s)\<lparr>me_wlocked := False\<rparr>\<rparr>) (mdb_txn_renew0 tid)))"

definition mdb_env_copyfd0 :: "u64 \<Rightarrow> copy_io \<Rightarrow> (bytes \<times> (mdb_err + unit)) op" where
  "mdb_env_copyfd0 tid io =
     tryM (mdb_txn_begin tid MDB_RDONLY) (\<lambda>r.
     case r of
       Inl e \<Rightarrow> ret ([], Inl e)
     | Inr _ \<Rightarrow>
         bindM (getM (\<lambda>s. me_txns (st_env s))) (\<lambda>ti.
         tryM (if ti = None then ret () else copy_snapshot tid) (\<lambda>r.
         case r of
           Inl e \<Rightarrow> seqM mdb_txn_abort (ret ([], Inl e))
         | Inr _ \<Rightarrow>
             bindM (getM (\<lambda>s. (me_psize (st_env s), mt_next_pgno (st_txn s)))) (\<lambda>(psize, nxt).
             case copy_metas_bytes io psize of
               (k, ptr, out, r) \<Rightarrow>
                 seqM (whenM (ti \<noteq> None) unlock_w)
                 (let file = (case r of Inl e \<Rightarrow> (out, Inl e) | Inr _ \<Rightarrow> copy_rest_bytes io psize nxt k ptr out)
                  in seqM mdb_txn_abort (ret file))))))"

section \<open>The target file\<close>

definition MDB_CP_COMPACT :: u32 where "MDB_CP_COMPACT = 1"

definition mdb_env_copyfd2 :: "'a op \<Rightarrow> 'a op \<Rightarrow> u32 \<Rightarrow> 'a op" where
  "mdb_env_copyfd2 copyfd1 copyfd0 flags = (if any_set flags MDB_CP_COMPACT then copyfd1 else copyfd0)"

text \<open>
  What the system does for \<open>mdb_env_copy2\<close>: \<open>malloc\<close> of the path, \<open>open\<close>, the \<open>fcntl\<close> that turns the
  cache off (on Apple systems), \<open>close\<close>; each with its error number.
\<close>

record copy_target =
  ct_malloc :: bool
  ct_open :: "int option"
  ct_nocache :: "int option"
  ct_close :: "int option"

text \<open>\<open>me_psize \<ge> me_os_psize\<close>: only then the cache is turned off. The copy is an argument.\<close>

definition mdb_env_copy2 :: "copy_target \<Rightarrow> nat \<Rightarrow> unit op \<Rightarrow> unit op" where
  "mdb_env_copy2 ct os_psize copyfd2 =
     bindM (getM st_env) (\<lambda>env.
     if \<not> any_set (me_flags env) MDB_NOSUBDIR \<and> \<not> ct_malloc ct then err ENOMEM
     else
       case ct_open ct of
         Some e \<Rightarrow> err (Errno e)
       | None \<Rightarrow>
           tryM
             (case ct_nocache ct of
                Some e \<Rightarrow> if os_psize \<le> me_psize env then err (Errno e) else copyfd2
              | None \<Rightarrow> copyfd2)
             (\<lambda>r. case r of
                Inl e \<Rightarrow> err e
              | Inr _ \<Rightarrow> (case ct_close ct of Some e \<Rightarrow> err (Errno e) | None \<Rightarrow> ret ())))"

section \<open>What is in the copy\<close>

text \<open>Bytes that do not change while the copy is made are in it at their place.\<close>

lemma copy_writes_spec:
  "copy_writes io limit k ptr wsize out = (k', ptr', out', r) \<Longrightarrow>
    \<exists>bs. out' = out @ bs \<and> length bs \<le> wsize \<and> (r = Inr () \<longrightarrow> length bs = wsize \<and> ptr' = ptr + wsize) \<and>
      (\<forall>x < length bs. \<exists>j. bs ! x = io_map io j (ptr + x))"
proof (induction io limit k ptr wsize out rule: copy_writes.induct)
  case (1 io limit k ptr wsize out)
  let ?w = "min limit wsize"
  show ?case
  proof (cases "wsize = 0")
    case True
    then show ?thesis using "1.prems" by (simp add: copy_writes.simps [of io limit k])
  next
    case False
    show ?thesis
    proof (cases "io_write io k ?w")
      case (Write_failed e n)
      then have "out' = out @ rd (io_map io k) ptr (min n ?w)" "r = Inl (Errno e)"
        using "1.prems" False by (auto simp: copy_writes.simps [of io limit k] Let_def)
      then show ?thesis by (intro exI [of _ "rd (io_map io k) ptr (min n ?w)"]) auto
    next
      case (Wrote n)
      let ?n = "min n ?w"
      show ?thesis
      proof (cases "?n = 0")
        case True
        then have "out' = out" "r = Inl EIO"
          using "1.prems" False Wrote by (auto simp: copy_writes.simps [of io limit k] Let_def)
        then show ?thesis by simp
      next
        case n: False
        then have run: "copy_writes io limit (k + 1) (ptr + ?n) (wsize - ?n) (out @ rd (io_map io k) ptr ?n) = (k', ptr', out', r)"
          using "1.prems" by (simp only: copy_writes.simps [of io limit k] Let_def Wrote write_result.case False n if_False)
        obtain bs where bs: "out' = (out @ rd (io_map io k) ptr ?n) @ bs" "length bs \<le> wsize - ?n"
          "r = Inr () \<longrightarrow> length bs = wsize - ?n \<and> ptr' = ptr + ?n + (wsize - ?n)"
          "\<forall>x < length bs. \<exists>j. bs ! x = io_map io j (ptr + ?n + x)"
          using "1.IH" [OF False HOL.refl Wrote n run] by blast
        have "\<exists>j. (rd (io_map io k) ptr ?n @ bs) ! x = io_map io j (ptr + x)" if "x < ?n + length bs" for x
          using that bs(4) [rule_format, of "x - ?n"] by (cases "x < ?n") (auto simp: nth_append)
        then show ?thesis using bs(1-3) by (intro exI [of _ "rd (io_map io k) ptr ?n @ bs"]) auto
      qed
    qed
  qed
qed

text \<open>
  C39: The file of a plain copy that succeeds has the length of the environment up to the last page of
  the transaction (or of the data file, when that is shorter), and each of its bytes is a byte the map had
  at this place when it was written: pages that no writer changes meanwhile are copied to their place.
\<close>

theorem plain_copy_correct:
  fixes io :: copy_io and psize :: nat and next_pgno :: u64
  defines "sz \<equiv> min (next_pgno * word_of_nat psize) (io_fsize io)"
  assumes "copy_metas_bytes io psize = (k, ptr, out, Inr ())"
    and "copy_rest_bytes io psize next_pgno k ptr out = (file, Inr ())" and "psize * 2 \<le> unat sz"
  shows "length file = unat sz \<and> (\<forall>x < length file. \<exists>j. file ! x = io_map io j x)"
proof -
  have two: "unat (word_of_nat (psize * 2) :: u64) = psize * 2"
  proof -
    have "unat sz < 2 ^ 64" using unsigned_less [of sz, where 'a = nat] by simp
    then have "psize * 2 < 2 ^ 64" using assms(4) by linarith
    then show ?thesis by (simp only: unsigned_of_nat) (simp add: take_bit_nat_eq_self)
  qed
  have m: "length out = psize * 2" "ptr = psize * 2" "\<And>x. x < psize * 2 \<Longrightarrow> \<exists>j. out ! x = io_map io j x"
    using copy_writes_spec [OF assms(2) [unfolded copy_metas_bytes_def]] by auto
  let ?w = "sz - word_of_nat (psize * 2)"
  have w: "unat ?w = unat sz - psize * 2" using assms(4) two by (simp add: unat_sub word_le_nat_alt)
  have "(if next_pgno * word_of_nat psize > io_fsize io then io_fsize io else next_pgno * word_of_nat psize) = sz"
    by (auto simp: sz_def min_def)
  then obtain k' ptr' where run: "copy_writes io (unat MAX_WRITE) k ptr (unat ?w) out = (k', ptr', file, Inr ())"
    using assms(3) by (auto simp: copy_rest_bytes_def Let_def split: prod.splits)
  from copy_writes_spec [OF this] obtain bs where bs: "file = out @ bs" "length bs = unat sz - psize * 2"
    "\<And>x. x < length bs \<Longrightarrow> \<exists>j. bs ! x = io_map io j (psize * 2 + x)"
    using w m(2) by auto
  have len: "length file = unat sz" using bs(1,2) m(1) assms(4) by simp
  have "\<exists>j. file ! x = io_map io j x" if "x < length file" for x
    using that m(1,3) bs(1,2) bs(3) [of "x - psize * 2"] by (cases "x < psize * 2") (auto simp: nth_append len)
  then show ?thesis using len by blast
qed

text \<open>Three pages of two bytes, in writes of at most three bytes.\<close>

definition short_writes :: copy_io where
  "short_writes = \<lparr>io_map = (\<lambda>k x. word_of_nat x), io_write = (\<lambda>k n. Wrote 3), io_fsize = 100\<rparr>"

theorem plain_copy_witness:
  "\<exists>k ptr out file. copy_metas_bytes short_writes 2 = (k, ptr, out, Inr ()) \<and>
    copy_rest_bytes short_writes 2 3 k ptr out = (file, Inr ()) \<and> length file = 6 \<and>
    (\<forall>x < length file. \<exists>j. file ! x = io_map short_writes j x)"
proof -
  have step: "copy_writes short_writes l k p w out
      = copy_writes short_writes l (k + 1) (p + min 3 w) (w - min 3 w) (out @ rd (\<lambda>x. word_of_nat x) p (min 3 w))"
    if "0 < w" "3 < l" for l k p w out
    using that by (subst copy_writes.simps) (simp add: short_writes_def Let_def min_def)
  have stop: "copy_writes short_writes l k p 0 out = (k, p, out, Inr ())" for l k p out by (subst copy_writes.simps) simp
  have a: "copy_metas_bytes short_writes 2 = (2, 4, [0, 1, 2, 3], Inr ())"
    by (simp add: copy_metas_bytes_def step stop rd_def upt_rec)
  have b: "copy_rest_bytes short_writes 2 3 2 4 [0, 1, 2, 3] = ([0, 1, 2, 3, 4, 5], Inr ())"
  proof -
    have "io_fsize short_writes = 100" "3 < unat MAX_WRITE" by (simp_all add: short_writes_def MAX_WRITE_def)
    then show ?thesis by (simp add: copy_rest_bytes_def step stop rd_def upt_rec)
  qed
  show ?thesis using plain_copy_correct [OF a b] a b by (simp add: short_writes_def)
qed

end
