(* ===== verification/Env_Open.thy ===== *)
theory Env_Open
  imports Env Txn
begin

text \<open>
  Opening and closing an environment: \<open>mdb_env_open\<close> with \<open>mdb_env_setup_locks\<close>,
  \<open>mdb_env_excl_lock\<close>, \<open>mdb_env_share_locks\<close> and \<open>mdb_env_map\<close>, and \<open>mdb_env_close0\<close>, which
  also cleans up after an \<open>mdb_env_open\<close> that fails. What matters here is what the process
  holds: memory, descriptors, mappings, semaphores, a thread key; and which of it the fields of
  the environment still name when something fails.
\<close>

section \<open>State\<close>

text \<open>One for each field of \<open>MDB_env\<close> that refers to something that has to be given back, and the buffer of the file names.\<close>

datatype resource =
    Res_names | Res_free_pgs | Res_dirty_list | Res_path | Res_dbxs | Res_dbflags | Res_dbiseqs | Res_pbuf | Res_txn0
  | Res_txkey | Res_map | Res_mfd | Res_fd | Res_lfd | Res_txns | Res_rmutex | Res_wmutex

text \<open>
  \<open>es_ptr\<close>: the field is set (not NULL, \<open>INVALID_HANDLE_VALUE\<close> or \<open>SEM_FAILED\<close>); for
  \<open>Res_mfd\<close>, set to a descriptor of its own. \<open>es_held\<close>: how many of the kind are allocated. \<open>es_excl\<close> is the
  local variable \<open>excl\<close>; \<open>es_errno\<close> the error of the last call that failed; \<open>es_sems\<close> tells
  whether semaphores of these names exist in the system.
\<close>

record env_sys =
  es_env :: mdb_env
  es_ptr :: "resource \<Rightarrow> bool"
  es_held :: "resource \<Rightarrow> nat"
  es_excl :: int
  es_errno :: int
  es_sems :: bool
  es_calls :: nat

text \<open>
  The system: the error number of the \<open>n\<close>-th call, or 0 (a call that is interrupted is made again,
  and counts when it is not); the size and the contents of the lock file; whether \<open>mmap\<close> takes the address of a
  fixed map, and where it maps otherwise; whether \<open>calloc\<close> has memory for the meta pages of a new file; reading the meta
  pages of the data file and writing new ones.
\<close>

record env_os =
  eo_rc :: "nat \<Rightarrow> int"
  eo_lock_size :: u64
  eo_lock_magic :: u32
  eo_lock_format :: u32
  eo_lock_info :: mdb_txninfo
  eo_moved :: bool
  eo_map_addr :: u64
  eo_calloc :: bool
  eo_pread :: "nat \<Rightarrow> read_result"
  eo_pwrite :: "nat \<Rightarrow> write_result"

type_synonym env_step = "env_sys \<Rightarrow> (env_sys \<times> (mdb_err + unit)) option"

definition MDB_ENV_TXKEY :: u32 where "MDB_ENV_TXKEY = 0x10000000"
definition MDB_LOCK_FORMAT :: u32 where "MDB_LOCK_FORMAT = 1"
definition EACCES_errno :: int where "EACCES_errno = 13"
definition EAGAIN_errno :: int where "EAGAIN_errno = 35"
definition EBUSY_errno :: int where "EBUSY_errno = 16"
definition EROFS_errno :: int where "EROFS_errno = 30"

section \<open>Steps\<close>

definition pass :: env_step where "pass = (\<lambda>s. Some (s, Inr ()))"

definition andthen :: "env_step \<Rightarrow> env_step \<Rightarrow> env_step" where
  "andthen m n = (\<lambda>s. case m s of None \<Rightarrow> None | Some (s, Inl e) \<Rightarrow> Some (s, Inl e) | Some (s, Inr _) \<Rightarrow> n s)"

text \<open>Go on whatever the result, and return the first error.\<close>

definition anyway :: "env_step \<Rightarrow> env_step \<Rightarrow> env_step" where
  "anyway m n = (\<lambda>s. case m s of None \<Rightarrow> None
     | Some (s, r) \<Rightarrow> (case n s of None \<Rightarrow> None | Some (s, r') \<Rightarrow> Some (s, case r of Inl e \<Rightarrow> Inl e | Inr _ \<Rightarrow> r')))"

definition modify :: "(env_sys \<Rightarrow> env_sys) \<Rightarrow> env_step" where
  "modify f = (\<lambda>s. Some (f s, Inr ()))"

definition modify_env :: "(mdb_env \<Rightarrow> mdb_env) \<Rightarrow> env_step" where
  "modify_env f = modify (\<lambda>s. s\<lparr>es_env := f (es_env s)\<rparr>)"

definition branch_on :: "(env_sys \<Rightarrow> bool) \<Rightarrow> env_step \<Rightarrow> env_step \<Rightarrow> env_step" where
  "branch_on c m n = (\<lambda>s. if c s then m s else n s)"

definition failing :: "mdb_err \<Rightarrow> env_step" where
  "failing e = (\<lambda>s. Some (s, Inl e))"

text \<open>A system call, and what it changes when it succeeds.\<close>

definition sys_call :: "env_os \<Rightarrow> (env_sys \<Rightarrow> env_sys) \<Rightarrow> env_step" where
  "sys_call os f = (\<lambda>s.
     let rc = eo_rc os (es_calls s); s = s\<lparr>es_calls := es_calls s + 1\<rparr> in
     if rc \<noteq> 0 then Some (s\<lparr>es_errno := rc\<rparr>, Inl (Errno rc)) else Some (f s, Inr ()))"

definition gain :: "resource \<Rightarrow> env_sys \<Rightarrow> env_sys" where
  "gain r s = s\<lparr>es_ptr := (es_ptr s)(r := True), es_held := (es_held s)(r := es_held s r + 1)\<rparr>"

text \<open>\<open>malloc\<close> and \<open>calloc\<close>.\<close>

definition alloc_mem :: "env_os \<Rightarrow> resource \<Rightarrow> (mdb_env \<Rightarrow> mdb_env) \<Rightarrow> env_step" where
  "alloc_mem os r f = (\<lambda>s.
     case sys_call os (\<lambda>s. (gain r s)\<lparr>es_env := f (es_env s)\<rparr>) s of
       Some (s, Inl e) \<Rightarrow> Some (s, Inl ENOMEM)
     | x \<Rightarrow> x)"

text \<open>
  Giving something back if the field is set; the fields are not reset. To give back what is
  not held is undefined.
\<close>

definition give_back :: "resource \<Rightarrow> env_step" where
  "give_back r = (\<lambda>s.
     if \<not> es_ptr s r then Some (s, Inr ())
     else if es_held s r = 0 then None
     else Some (s\<lparr>es_held := (es_held s)(r := es_held s r - 1)\<rparr>, Inr ()))"

fun give_back_all :: "resource list \<Rightarrow> env_step" where
  "give_back_all [] = pass"
| "give_back_all (r # rs) = andthen (give_back r) (give_back_all rs)"

section \<open>The lock file\<close>

text \<open>
  An exclusive lock if nobody else has the file open, otherwise a shared one, for which it
  waits, if it has none yet.
\<close>

definition mdb_env_excl_lock :: "env_os \<Rightarrow> env_step" where
  "mdb_env_excl_lock os = (\<lambda>s.
     case sys_call os (\<lambda>s. s\<lparr>es_excl := 1\<rparr>) s of
       Some (s, Inl e) \<Rightarrow> if es_excl s < 0 then sys_call os (\<lambda>s. s\<lparr>es_excl := 0\<rparr>) s else Some (s, Inl e)
     | x \<Rightarrow> x)"

definition mdb_env_share_locks :: "env_os \<Rightarrow> env_step" where
  "mdb_env_share_locks os =
     andthen (modify_env (\<lambda>env. env\<lparr>me_txns :=
         map_option (\<lambda>ti. ti\<lparr>mti_txnid := mm_txnid (me_metas env (mdb_env_pick_meta env))\<rparr>) (me_txns env)\<rparr>))
     (\<lambda>s. case sys_call os (\<lambda>s. s\<lparr>es_excl := 0\<rparr>) s of
        Some (s, Inl e) \<Rightarrow> Some (s\<lparr>es_excl := - 1\<rparr>, Inl e)
      | x \<Rightarrow> x)"

text \<open>\<open>sizeof(MDB_reader)\<close> and \<open>sizeof(MDB_txninfo)\<close>, which includes one reader.\<close>

definition reader_size :: u64 where "reader_size = 64"
definition txninfo_size :: u64 where "txninfo_size = 192"

definition lock_region_size :: "mdb_env \<Rightarrow> u64" where
  "lock_region_size env = (word_of_nat (me_maxreaders env) - 1) * reader_size + txninfo_size"

text \<open>
  A file without an exclusive owner is made large enough; of another one the size tells how many
  readers there may be.
\<close>

definition size_lock_file :: "env_os \<Rightarrow> env_step" where
  "size_lock_file os = (\<lambda>s.
     if eo_lock_size os < lock_region_size (es_env s) \<and> es_excl s > 0 then sys_call os (\<lambda>s. s) s
     else modify_env (\<lambda>env. env\<lparr>me_maxreaders := unat ((eo_lock_size os - txninfo_size) div reader_size + 1) mod 2 ^ 32\<rparr>) s)"

text \<open>The two semaphores, created anew by the first process, opened by others.\<close>

definition open_sems :: "env_os \<Rightarrow> bool \<Rightarrow> env_step" where
  "open_sems os create =
     andthen (if create then modify (\<lambda>s. s\<lparr>es_sems := False\<rparr>) else pass)
     (andthen (sys_call os (\<lambda>s. (gain Res_rmutex s)\<lparr>es_sems := create \<or> es_sems s\<rparr>))
     (sys_call os (gain Res_wmutex)))"

definition join_region :: "env_os \<Rightarrow> env_step" where
  "join_region os = (\<lambda>s.
     if eo_lock_magic os \<noteq> MDB_MAGIC then Some (s, Inl MDB_INVALID)
     else if eo_lock_format os \<noteq> MDB_LOCK_FORMAT then Some (s, Inl MDB_VERSION_MISMATCH)
     else if es_errno s \<noteq> 0 \<and> es_errno s \<noteq> EACCES_errno \<and> es_errno s \<noteq> EAGAIN_errno then Some (s, Inl (Errno (es_errno s)))
     else open_sems os False s)"

definition init_region :: "env_os \<Rightarrow> env_step" where
  "init_region os =
     andthen (sys_call os (\<lambda>s. s))
     (andthen (open_sems os True)
     (modify_env (\<lambda>env. env\<lparr>me_txns := map_option (\<lambda>ti. ti\<lparr>mti_txnid := 0, mti_numreaders := 0\<rparr>) (me_txns env)\<rparr>)))"

definition mdb_env_setup_locks :: "env_os \<Rightarrow> env_step" where
  "mdb_env_setup_locks os = (\<lambda>s.
     case sys_call os (gain Res_lfd) s of
       None \<Rightarrow> None
     | Some (s, Inl e) \<Rightarrow>
         if es_errno s = EROFS_errno \<and> any_set (me_flags (es_env s)) MDB_RDONLY then Some (s, Inr ()) else Some (s, Inl e)
     | Some (s, Inr _) \<Rightarrow>
         andthen (branch_on (\<lambda>s. any_set (me_flags (es_env s)) MDB_NOTLS) pass
                    (sys_call os (\<lambda>s. (gain Res_txkey s)\<lparr>es_env := (es_env s)\<lparr>me_flags := me_flags (es_env s) OR MDB_ENV_TXKEY\<rparr>\<rparr>)))
         (andthen (mdb_env_excl_lock os)
         (andthen (sys_call os (\<lambda>s. s))
         (andthen (size_lock_file os)
         (andthen (sys_call os (\<lambda>s. (gain Res_txns s)\<lparr>es_env := (es_env s)\<lparr>me_txns := Some (eo_lock_info os)\<rparr>\<rparr>))
         (branch_on (\<lambda>s. es_excl s > 0) (init_region os) (join_region os)))))) s)"

section \<open>The data file\<close>

text \<open>
  The error number of \<open>mdb_env_map\<close>, and whether the file is mapped then: with \<open>MDB_FIXEDMAP\<close>
  the map may be at another address than the one asked for.
\<close>

definition mdb_env_map :: "env_os \<Rightarrow> bool \<Rightarrow> env_step" where
  "mdb_env_map os fixed =
     andthen (branch_on (\<lambda>s. any_set (me_flags (es_env s)) MDB_WRITEMAP) (sys_call os (\<lambda>s. s)) pass)
     (andthen (sys_call os (gain Res_map))
     (if fixed \<and> eo_moved os then failing (Errno EBUSY_errno) else pass))"

text \<open>
  \<open>mdb_env_open2\<close> takes the result of \<open>mdb_env_map\<close> as an argument, and calls it unless the
  meta pages cannot be read. An address is asked for with \<open>MDB_FIXEDMAP\<close> if the meta page has one.
\<close>

definition open_data :: "env_os \<Rightarrow> env_step" where
  "open_data os = (\<lambda>s.
     let header = mdb_env_read_header (eo_pread os);
         fixed = (any_set (me_flags (es_env s)) MDB_FIXEDMAP \<and>
                  (case header of Inr (Some m) \<Rightarrow> mm_address m \<noteq> 0 | _ \<Rightarrow> False));
         finish = (\<lambda>rc s.
           map_option (\<lambda>(env, r). (s\<lparr>es_env := env\<rparr>, r))
             (mdb_env_open2 (eo_calloc os) (eo_map_addr os) (eo_pread os) (\<lambda>_. rc) (eo_pwrite os) (es_env s)))
     in case header of
          Inl e \<Rightarrow>
            if err_code e = err_code ENOENT
            then (case mdb_env_map os fixed s of
                    None \<Rightarrow> None | Some (s, Inl e) \<Rightarrow> finish (err_code e) s | Some (s, Inr _) \<Rightarrow> finish 0 s)
            else finish 0 s
        | Inr _ \<Rightarrow>
            (case mdb_env_map os fixed s of
               None \<Rightarrow> None | Some (s, Inl e) \<Rightarrow> finish (err_code e) s | Some (s, Inr _) \<Rightarrow> finish 0 s))"

section \<open>Closing\<close>

text \<open>
  \<open>for (i = env->me_maxdbs; --i > MAIN_DBI; ) free(env->me_dbxs[i].md_name.mv_data)\<close>: with more than the
  two core databases the array is read.
\<close>

definition free_names :: env_step where
  "free_names = (\<lambda>s.
     if me_maxdbs (es_env s) \<le> 2 then Some (s, Inr ())
     else if es_ptr s Res_dbxs then
       modify_env (\<lambda>env. env\<lparr>me_dbxs := (\<lambda>i. if MAIN_DBI < i \<and> i < me_maxdbs env then (me_dbxs env i)\<lparr>md_name := None\<rparr> else me_dbxs env i)\<rparr>) s
     else None)"

definition clear_readers :: "mdb_env \<Rightarrow> mdb_env" where
  "clear_readers env =
     env\<lparr>me_txns := map_option (\<lambda>ti. ti\<lparr>mti_readers := (\<lambda>i.
        if i < me_numreaders env \<and> mr_pid (mti_readers ti i) = me_pid env then (mti_readers ti i)\<lparr>mr_pid := 0\<rparr>
        else mti_readers ti i)\<rparr>) (me_txns env)\<rparr>"

text \<open>The names of the semaphores are removed by the last process.\<close>

definition close_sems :: "env_os \<Rightarrow> env_step" where
  "close_sems os = (\<lambda>s.
     if \<not> es_ptr s Res_rmutex then Some (s, Inr ())
     else
       andthen (give_back_all [Res_rmutex, Res_wmutex])
       (\<lambda>s. case (if es_excl s = 0 then mdb_env_excl_lock os s else Some (s, Inr ())) of
          None \<Rightarrow> None
        | Some (s, _) \<Rightarrow> Some (if es_excl s > 0 then s\<lparr>es_sems := False\<rparr> else s, Inr ())) s)"

definition mdb_env_close0 :: "env_os \<Rightarrow> env_step" where
  "mdb_env_close0 os = (\<lambda>s.
     if \<not> any_set (me_flags (es_env s)) MDB_ENV_ACTIVE then Some (s, Inr ())
     else
       andthen free_names
       (andthen (give_back_all [Res_pbuf, Res_dbiseqs, Res_dbflags, Res_dbxs, Res_path, Res_dirty_list, Res_txn0, Res_free_pgs])
       (andthen (branch_on (\<lambda>s. any_set (me_flags (es_env s)) MDB_ENV_TXKEY) (give_back Res_txkey) pass)
       (andthen (give_back_all [Res_map, Res_mfd, Res_fd])
       (andthen (branch_on (\<lambda>s. es_ptr s Res_txns)
                   (andthen (modify_env clear_readers) (andthen (close_sems os) (give_back Res_txns))) pass)
       (andthen (give_back Res_lfd)
       (modify_env (\<lambda>env. env\<lparr>me_flags := clear_flag (me_flags env) (MDB_ENV_ACTIVE OR MDB_ENV_TXKEY)\<rparr>))))))) s)"

text \<open>The single pages kept for reuse are freed first.\<close>

definition mdb_env_close :: "env_os \<Rightarrow> env_step" where
  "mdb_env_close os =
     andthen (modify_env (\<lambda>env. env\<lparr>me_dpages := []\<rparr>))
     (andthen (modify (\<lambda>s. s\<lparr>es_excl := 0\<rparr>)) (mdb_env_close0 os))"

section \<open>Opening\<close>

text \<open>What \<open>calloc\<close> and \<open>mdb_midl_alloc\<close> make of the fields.\<close>

definition fresh_lists :: "mdb_env \<Rightarrow> mdb_env" where
  "fresh_lists env = env\<lparr>me_free_pgs := the (mdb_midl_alloc True MDB_IDL_UM_MAX)\<rparr>"

definition fresh_dirty :: "mdb_env \<Rightarrow> mdb_env" where
  "fresh_dirty env = env\<lparr>me_dirty_list := replicate MDB_IDL_UM_SIZE \<lparr>mid = 0, mptr = NullPg\<rparr>\<rparr>"

definition open_lists :: "env_os \<Rightarrow> u32 \<Rightarrow> env_step" where
  "open_lists os flags =
     anyway (if any_set flags MDB_RDONLY then pass
             else andthen (alloc_mem os Res_free_pgs fresh_lists) (alloc_mem os Res_dirty_list fresh_dirty))
       (modify_env (\<lambda>env. env\<lparr>me_flags :=
          (if any_set flags MDB_RDONLY then clear_flag flags MDB_WRITEMAP else flags) OR MDB_ENV_ACTIVE\<rparr>))"

definition open_arrays :: "env_os \<Rightarrow> env_step" where
  "open_arrays os =
     anyway (alloc_mem os Res_path (\<lambda>env. env))
     (anyway (alloc_mem os Res_dbxs (\<lambda>env. env\<lparr>me_dbxs := (\<lambda>_. \<lparr>md_name = None, md_cmp = None, md_dcmp = None\<rparr>)\<rparr>))
     (anyway (alloc_mem os Res_dbflags (\<lambda>env. env\<lparr>me_dbflags := (\<lambda>_. 0)\<rparr>))
     (alloc_mem os Res_dbiseqs (\<lambda>env. env\<lparr>me_dbiseqs := (\<lambda>_. 0)\<rparr>))))"

text \<open>After \<open>mdb_env_open2\<close>: the descriptor for the meta pages, the lock, a page buffer and the write transaction.\<close>

definition open_rest :: "env_os \<Rightarrow> u32 \<Rightarrow> env_step" where
  "open_rest os flags =
     andthen (if any_set flags (MDB_RDONLY OR MDB_WRITEMAP) then pass else sys_call os (gain Res_mfd))
     (andthen (branch_on (\<lambda>s. es_excl s > 0) (mdb_env_share_locks os) pass)
     (if any_set flags MDB_RDONLY then pass
      else anyway (alloc_mem os Res_pbuf (\<lambda>env. env)) (alloc_mem os Res_txn0 (\<lambda>env. env\<lparr>me_txn0 := blank_txn\<rparr>))))"

definition open_body :: "env_os \<Rightarrow> u32 \<Rightarrow> env_step" where
  "open_body os flags =
     andthen (open_lists os flags)
     (let flags = (if any_set flags MDB_RDONLY then clear_flag flags MDB_WRITEMAP else flags) in
      andthen (open_arrays os)
      (andthen (if any_set flags (MDB_RDONLY OR MDB_NOLOCK) then pass else mdb_env_setup_locks os)
      (andthen (sys_call os (gain Res_fd))
      (andthen (if any_set flags MDB_RDONLY \<and> \<not> any_set flags MDB_NOLOCK then mdb_env_setup_locks os else pass)
      (andthen (open_data os)
      (open_rest os flags))))))"

definition mdb_env_open :: "env_os \<Rightarrow> u32 \<Rightarrow> env_step" where
  "mdb_env_open os flags = (\<lambda>s.
     if es_ptr s Res_fd \<or> any_set flags (NOT (CHANGEABLE OR CHANGELESS)) then Some (s, Inl EINVAL)
     else
       andthen (alloc_mem os Res_names (\<lambda>env. env))
       (\<lambda>s. case open_body os (flags OR me_flags (es_env s)) (s\<lparr>es_excl := - 1\<rparr>) of
          None \<Rightarrow> None
        | Some (s, r) \<Rightarrow>
            (case (if r = Inr () then Some (s, Inr ()) else mdb_env_close0 os s) of
               None \<Rightarrow> None
             | Some (s, _) \<Rightarrow>
                 (case give_back Res_names s of
                    None \<Rightarrow> None
                  | Some (s, _) \<Rightarrow> Some (s\<lparr>es_ptr := (es_ptr s)(Res_names := False)\<rparr>, r)))) s)"

section \<open>What is held\<close>

text \<open>
  The fields name what is held, the semaphores only with the lock region, the second only with
  the first, the thread key by a flag.
\<close>

definition accounted :: "env_sys \<Rightarrow> bool" where
  "accounted s \<longleftrightarrow> (\<forall>r. es_held s r = (if es_ptr s r then 1 else 0)) \<and>
     (es_ptr s Res_rmutex \<longrightarrow> es_ptr s Res_txns) \<and> (es_ptr s Res_wmutex \<longrightarrow> es_ptr s Res_rmutex) \<and>
     (es_ptr s Res_txkey \<longleftrightarrow> any_set (me_flags (es_env s)) MDB_ENV_TXKEY)"

text \<open>In the middle of opening: the fields \<open>R\<close> are not set yet, the fields \<open>Q\<close> are set.\<close>

definition clean :: "nat \<Rightarrow> resource set \<Rightarrow> resource set \<Rightarrow> env_sys \<Rightarrow> bool" where
  "clean n R Q s \<longleftrightarrow> accounted s \<and> me_maxdbs (es_env s) = n \<and> 0 < me_os_psize (es_env s) \<and>
     any_set (me_flags (es_env s)) MDB_ENV_ACTIVE \<and> (\<forall>r \<in> R. \<not> es_ptr s r) \<and> (\<forall>r \<in> Q. es_ptr s r)"

text \<open>
  A step that ends from such a state, or, only if \<open>k\<close>, in the use of a NULL pointer or a division by zero.
\<close>

definition goes :: "bool \<Rightarrow> nat \<Rightarrow> resource set \<Rightarrow> resource set \<Rightarrow> env_step \<Rightarrow> resource set \<Rightarrow> resource set \<Rightarrow> bool" where
  "goes k n R Q m R' Q' \<longleftrightarrow>
     (\<forall>s. clean n R Q s \<longrightarrow> (case m s of None \<Rightarrow> k | Some (s', Inl e) \<Rightarrow> clean n {} {} s' | Some (s', Inr _) \<Rightarrow> clean n R' Q' s'))"

lemma goesI:
  assumes "\<And>s. clean n R Q s \<Longrightarrow> \<exists>s' r. m s = Some (s', r) \<and> (case r of Inl e \<Rightarrow> clean n {} {} s' | Inr _ \<Rightarrow> clean n R' Q' s')"
  shows "goes k n R Q m R' Q'"
  unfolding goes_def
proof (intro allI impI)
  fix s assume "clean n R Q s"
  then obtain s' r where "m s = Some (s', r)" "case r of Inl e \<Rightarrow> clean n {} {} s' | Inr _ \<Rightarrow> clean n R' Q' s'" using assms by blast
  then show "case m s of None \<Rightarrow> k | Some (s', Inl e) \<Rightarrow> clean n {} {} s' | Some (s', Inr _) \<Rightarrow> clean n R' Q' s'"
    by (cases r) simp_all
qed

lemma goesE:
  assumes "goes k n R Q m R' Q'" "clean n R Q s"
  obtains (go) s' where "m s = Some (s', Inr ())" "clean n R' Q' s'" | (fail) s' e where "m s = Some (s', Inl e)" "clean n {} {} s'"
    | (crash) "m s = None" "k"
proof -
  have g: "case m s of None \<Rightarrow> k | Some (s', Inl e) \<Rightarrow> clean n {} {} s' | Some (s', Inr _) \<Rightarrow> clean n R' Q' s'"
    using assms unfolding goes_def by blast
  show thesis
  proof (cases "m s")
    case None
    then show thesis using g that by simp
  next
    case (Some x)
    obtain s' r where "x = (s', r)" by fastforce
    then show thesis using g that Some by (cases r) simp_all
  qed
qed

lemma goesD:
  assumes "goes False n R Q m R' Q'" "clean n R Q s"
  obtains s' where "m s = Some (s', Inr ())" "clean n R' Q' s'" | s' e where "m s = Some (s', Inl e)" "clean n {} {} s'"
  using assms by (cases rule: goesE) blast+

lemma goes_lift: "goes False n R Q m R' Q' \<Longrightarrow> goes k n R Q m R' Q'"
  unfolding goes_def by (fastforce split: option.splits)

lemma goes_andthen:
  assumes m: "goes k n R Q m R' Q'" and j: "goes k n R' Q' j R'' Q''"
  shows "goes k n R Q (andthen m j) R'' Q''"
  unfolding goes_def
proof (intro allI impI)
  fix s assume "clean n R Q s"
  from m this show "case andthen m j s of None \<Rightarrow> k | Some (s', Inl e) \<Rightarrow> clean n {} {} s' | Some (s', Inr _) \<Rightarrow> clean n R'' Q'' s'"
  proof (cases rule: goesE)
    case (go s')
    then show ?thesis using j unfolding goes_def by (simp add: andthen_def)
  qed (simp_all add: andthen_def)
qed

lemma goes_branch: "goes k n R Q m R' Q' \<Longrightarrow> goes k n R Q j R' Q' \<Longrightarrow> goes k n R Q (branch_on c m j) R' Q'"
  by (auto simp: goes_def branch_on_def)

lemma goes_if: "(c \<Longrightarrow> goes k n R Q m R' Q') \<Longrightarrow> (\<not> c \<Longrightarrow> goes k n R Q j R' Q') \<Longrightarrow> goes k n R Q (if c then m else j) R' Q'"
  by simp

lemma clean_weaken: "clean n R Q s \<Longrightarrow> R' \<subseteq> R \<Longrightarrow> Q' \<subseteq> Q \<Longrightarrow> clean n R' Q' s"
  by (auto simp: clean_def)

lemma clean_any: "clean n R Q s \<Longrightarrow> clean n {} {} s"
  by (simp add: clean_def)

lemma goes_weaken:
  assumes g: "goes k n R Q m R' Q'" and sub: "R \<subseteq> R1" "Q \<subseteq> Q1" "R1' \<subseteq> R'" "Q1' \<subseteq> Q'"
  shows "goes k n R1 Q1 m R1' Q1'"
  unfolding goes_def
proof (intro allI impI)
  fix s assume "clean n R1 Q1 s"
  then have "clean n R Q s" using sub by (elim clean_weaken)
  with g show "case m s of None \<Rightarrow> k | Some (s', Inl e) \<Rightarrow> clean n {} {} s' | Some (s', Inr _) \<Rightarrow> clean n R1' Q1' s'"
    by (cases rule: goesE) (auto intro: clean_weaken [OF _ sub(3,4)])
qed

lemma goes_pass: "goes k n R Q pass R Q"
  by (simp add: goes_def pass_def)

lemma goes_failing: "goes k n R Q (failing e) R' Q'"
  by (auto simp: goes_def failing_def dest: clean_any)

text \<open>A step that changes no field and no count.\<close>

lemma goes_modify:
  assumes "\<And>s. es_ptr (f s) = es_ptr s \<and> es_held (f s) = es_held s \<and> me_flags (es_env (f s)) = me_flags (es_env s) \<and>
    me_maxdbs (es_env (f s)) = me_maxdbs (es_env s) \<and> me_os_psize (es_env (f s)) = me_os_psize (es_env s)"
  shows "goes k n R Q (modify f) R Q" "goes k n R Q (sys_call os f) R Q"
proof -
  have c: "clean n R Q (f s) = clean n R Q s" for s using assms [of s] by (simp add: clean_def accounted_def)
  have d: "clean n R Q (s\<lparr>es_calls := k\<rparr>) = clean n R Q s" "clean n R Q (s\<lparr>es_errno := e\<rparr>) = clean n R Q s" for s k e R Q
    by (simp_all add: clean_def accounted_def)
  show "goes k n R Q (modify f) R Q" by (simp add: goes_def modify_def c)
  show "goes k n R Q (sys_call os f) R Q"
    by (rule goesI) (auto simp: sys_call_def Let_def c d dest: clean_any)
qed

lemma clean_calls: "clean n R Q (s\<lparr>es_calls := k\<rparr>) = clean n R Q s" "clean n R Q (s\<lparr>es_errno := e\<rparr>) = clean n R Q s"
  by (simp_all add: clean_def accounted_def)

text \<open>What is needed before a resource is taken.\<close>

definition needs :: "resource \<Rightarrow> resource set" where
  "needs r = (if r = Res_rmutex then {Res_txns} else if r = Res_wmutex then {Res_rmutex} else {})"

lemma clean_gain:
  assumes c: "clean n R Q s" and r: "r \<in> R" "needs r \<subseteq> Q" "r \<noteq> Res_txkey"
    and f: "es_ptr s' = es_ptr (gain r s)" "es_held s' = es_held (gain r s)" "me_flags (es_env s') = me_flags (es_env s)"
      "me_maxdbs (es_env s') = me_maxdbs (es_env s)" "me_os_psize (es_env s') = me_os_psize (es_env s)"
  shows "clean n (R - {r}) (insert r Q) s'"
proof -
  have p: "\<not> es_ptr s r" using c r(1) by (simp add: clean_def)
  have "accounted s'"
    using c p r(2,3) unfolding clean_def accounted_def f gain_def needs_def by (auto split: if_splits)
  then show ?thesis using c f by (auto simp: clean_def gain_def)
qed

lemma goes_gain:
  assumes "r \<in> R" "needs r \<subseteq> Q" "r \<noteq> Res_txkey"
    and f: "\<And>s. es_ptr (f s) = es_ptr (gain r s) \<and> es_held (f s) = es_held (gain r s) \<and>
      me_flags (es_env (f s)) = me_flags (es_env s) \<and> me_maxdbs (es_env (f s)) = me_maxdbs (es_env s) \<and> me_os_psize (es_env (f s)) = me_os_psize (es_env s)"
  shows "goes k n R Q (sys_call os f) (R - {r}) (insert r Q)"
proof (rule goesI)
  fix s assume c: "clean n R Q s"
  have "clean n (R - {r}) (insert r Q) (f (s\<lparr>es_calls := k\<rparr>))" for k
  proof (rule clean_gain [of n R Q "s\<lparr>es_calls := k\<rparr>"])
    show "clean n R Q (s\<lparr>es_calls := k\<rparr>)" using c by (simp add: clean_calls)
  qed (use assms(1-3) f [of "s\<lparr>es_calls := k\<rparr>"] in simp_all)
  then show "\<exists>s' x. sys_call os f s = Some (s', x) \<and> (case x of Inl e \<Rightarrow> clean n {} {} s' | Inr _ \<Rightarrow> clean n (R - {r}) (insert r Q) s')"
    using clean_any [OF c] by (auto simp: sys_call_def Let_def clean_calls)
qed

section \<open>Opening step by step\<close>

lemma clean_excl: "clean n R Q (s\<lparr>es_excl := k\<rparr>) = clean n R Q s"
  by (simp add: clean_def accounted_def)

lemma goes_excl_lock: "goes k n R Q (mdb_env_excl_lock os) R Q"
proof (rule goesI)
  fix s assume "clean n R Q s"
  then show "\<exists>s' r. mdb_env_excl_lock os s = Some (s', r) \<and> (case r of Inl e \<Rightarrow> clean n {} {} s' | Inr _ \<Rightarrow> clean n R Q s')"
    using clean_any [of n R Q s] by (auto simp: mdb_env_excl_lock_def sys_call_def Let_def clean_calls clean_excl)
qed

lemma goes_share_locks: "goes k n R Q (mdb_env_share_locks os) R Q"
  unfolding mdb_env_share_locks_def
proof (rule goes_andthen)
  show "goes k n R Q (modify_env (\<lambda>env. env\<lparr>me_txns :=
         map_option (\<lambda>ti. ti\<lparr>mti_txnid := mm_txnid (me_metas env (mdb_env_pick_meta env))\<rparr>) (me_txns env)\<rparr>)) R Q"
    unfolding modify_env_def by (rule goes_modify) simp
  show "goes k n R Q (\<lambda>s. case sys_call os (\<lambda>s. s\<lparr>es_excl := 0\<rparr>) s of
        Some (s, Inl e) \<Rightarrow> Some (s\<lparr>es_excl := - 1\<rparr>, Inl e) | x \<Rightarrow> x) R Q"
  proof (rule goesI)
    fix s assume "clean n R Q s"
    then show "\<exists>s' r. (case sys_call os (\<lambda>s. s\<lparr>es_excl := 0\<rparr>) s of
        Some (s, Inl e) \<Rightarrow> Some (s\<lparr>es_excl := - 1\<rparr>, Inl e) | x \<Rightarrow> x) = Some (s', r) \<and>
        (case r of Inl e \<Rightarrow> clean n {} {} s' | Inr _ \<Rightarrow> clean n R Q s')"
      using clean_any [of n R Q s] by (auto simp: sys_call_def Let_def clean_calls clean_excl)
  qed
qed

lemma goes_size_lock_file: "goes k n R Q (size_lock_file os) R Q"
proof -
  have "goes k n R Q (branch_on (\<lambda>s. eo_lock_size os < lock_region_size (es_env s) \<and> es_excl s > 0) (sys_call os (\<lambda>s. s))
    (modify_env (\<lambda>env. env\<lparr>me_maxreaders := unat ((eo_lock_size os - txninfo_size) div reader_size + 1) mod 2 ^ 32\<rparr>))) R Q"
    unfolding modify_env_def by (rule goes_branch; rule goes_modify) simp_all
  moreover have "size_lock_file os = branch_on (\<lambda>s. eo_lock_size os < lock_region_size (es_env s) \<and> es_excl s > 0) (sys_call os (\<lambda>s. s))
    (modify_env (\<lambda>env. env\<lparr>me_maxreaders := unat ((eo_lock_size os - txninfo_size) div reader_size + 1) mod 2 ^ 32\<rparr>))"
    by (simp add: size_lock_file_def branch_on_def fun_eq_iff)
  ultimately show ?thesis by simp
qed

lemma goes_open_sems:
  assumes "Res_rmutex \<in> R" "Res_wmutex \<in> R" "Res_txns \<in> Q"
  shows "goes k n R Q (open_sems os create) (R - {Res_rmutex, Res_wmutex}) Q"
proof -
  have "goes k n R Q (open_sems os create) (R - {Res_rmutex} - {Res_wmutex}) (insert Res_wmutex (insert Res_rmutex Q))"
    unfolding open_sems_def
    by (rule goes_andthen [OF goes_if [OF goes_modify(1) goes_pass]], simp,
        rule goes_andthen [OF goes_gain [where r = Res_rmutex] goes_gain])
      (use assms in \<open>auto simp: needs_def gain_def\<close>)
  then show ?thesis by (rule goes_weaken) auto
qed

lemma goes_region:
  assumes "Res_rmutex \<in> R" "Res_wmutex \<in> R" "Res_txns \<in> Q"
  shows "goes k n R Q (init_region os) (R - {Res_rmutex, Res_wmutex}) Q" "goes False n R Q (join_region os) (R - {Res_rmutex, Res_wmutex}) Q"
proof -
  show "goes k n R Q (init_region os) (R - {Res_rmutex, Res_wmutex}) Q"
    unfolding init_region_def modify_env_def
    by (rule goes_andthen [OF goes_modify(2) goes_andthen [OF goes_open_sems [OF assms] goes_modify(1)]]) simp_all
  show "goes False n R Q (join_region os) (R - {Res_rmutex, Res_wmutex}) Q"
  proof (rule goesI)
    fix s assume c: "clean n R Q s"
    from goes_open_sems [OF assms, of False n os False] c
    show "\<exists>s' r. join_region os s = Some (s', r) \<and> (case r of Inl e \<Rightarrow> clean n {} {} s' | Inr _ \<Rightarrow> clean n (R - {Res_rmutex, Res_wmutex}) Q s')"
      by (cases rule: goesD) (use clean_any [OF c] in \<open>auto simp: join_region_def\<close>)
  qed
qed

lemma any_set_or_iff: "any_set (v OR w) m \<longleftrightarrow> any_set v m \<or> any_set w m"
  using any_set_or by blast

lemma goes_txkey:
  assumes "Res_txkey \<in> R"
  shows "goes k n R Q (sys_call os (\<lambda>s. (gain Res_txkey s)\<lparr>es_env := (es_env s)\<lparr>me_flags := me_flags (es_env s) OR MDB_ENV_TXKEY\<rparr>\<rparr>))
    (R - {Res_txkey}) Q"
proof (rule goesI)
  fix s assume c: "clean n R Q s"
  have "any_set MDB_ENV_TXKEY MDB_ENV_TXKEY" by (simp add: any_set_def MDB_ENV_TXKEY_def)
  moreover have "\<not> es_ptr s Res_txkey" using c assms by (simp add: clean_def)
  ultimately have "clean n (R - {Res_txkey}) Q ((gain Res_txkey s')\<lparr>es_env := (es_env s)\<lparr>me_flags := me_flags (es_env s) OR MDB_ENV_TXKEY\<rparr>\<rparr>)"
    if "s' = s\<lparr>es_calls := k\<rparr>" for s' k
    using c unfolding that by (auto simp: clean_def accounted_def gain_def any_set_or_iff)
  from this [OF HOL.refl]
  show "\<exists>s' r. sys_call os (\<lambda>s. (gain Res_txkey s)\<lparr>es_env := (es_env s)\<lparr>me_flags := me_flags (es_env s) OR MDB_ENV_TXKEY\<rparr>\<rparr>) s
        = Some (s', r) \<and> (case r of Inl e \<Rightarrow> clean n {} {} s' | Inr _ \<Rightarrow> clean n (R - {Res_txkey}) Q s')"
    using clean_any [OF c] by (auto simp: sys_call_def Let_def clean_calls)
qed

lemma goes_setup_locks:
  assumes "{Res_lfd, Res_txkey, Res_txns, Res_rmutex, Res_wmutex} \<subseteq> R"
  shows "goes False n R Q (mdb_env_setup_locks os) (R - {Res_lfd, Res_txkey, Res_txns, Res_rmutex, Res_wmutex}) Q"
proof -
  let ?rest = "andthen (branch_on (\<lambda>s. any_set (me_flags (es_env s)) MDB_NOTLS) pass
                    (sys_call os (\<lambda>s. (gain Res_txkey s)\<lparr>es_env := (es_env s)\<lparr>me_flags := me_flags (es_env s) OR MDB_ENV_TXKEY\<rparr>\<rparr>)))
         (andthen (mdb_env_excl_lock os)
         (andthen (sys_call os (\<lambda>s. s))
         (andthen (size_lock_file os)
         (andthen (sys_call os (\<lambda>s. (gain Res_txns s)\<lparr>es_env := (es_env s)\<lparr>me_txns := Some (eo_lock_info os)\<rparr>\<rparr>))
         (branch_on (\<lambda>s. es_excl s > 0) (init_region os) (join_region os))))))"
  let ?R = "R - {Res_lfd}"
  have key: "goes False n ?R (insert Res_lfd Q) (branch_on (\<lambda>s. any_set (me_flags (es_env s)) MDB_NOTLS) pass
      (sys_call os (\<lambda>s. (gain Res_txkey s)\<lparr>es_env := (es_env s)\<lparr>me_flags := me_flags (es_env s) OR MDB_ENV_TXKEY\<rparr>\<rparr>)))
      (?R - {Res_txkey}) (insert Res_lfd Q)"
    by (rule goes_branch [OF goes_weaken [OF goes_pass [of False n ?R "insert Res_lfd Q"]] goes_txkey]) (use assms in auto)
  have region: "goes False n (?R - {Res_txkey} - {Res_txns}) (insert Res_txns (insert Res_lfd Q))
      (branch_on (\<lambda>s. es_excl s > 0) (init_region os) (join_region os))
      (?R - {Res_txkey} - {Res_txns} - {Res_rmutex, Res_wmutex}) (insert Res_txns (insert Res_lfd Q))"
    by (rule goes_branch; rule goes_region) (use assms in auto)
  have map: "goes False n (?R - {Res_txkey}) (insert Res_lfd Q)
      (sys_call os (\<lambda>s. (gain Res_txns s)\<lparr>es_env := (es_env s)\<lparr>me_txns := Some (eo_lock_info os)\<rparr>\<rparr>))
      (?R - {Res_txkey} - {Res_txns}) (insert Res_txns (insert Res_lfd Q))"
    by (rule goes_gain) (use assms in \<open>auto simp: needs_def gain_def\<close>)
  have rest: "goes False n ?R (insert Res_lfd Q) ?rest (?R - {Res_txkey} - {Res_txns} - {Res_rmutex, Res_wmutex}) (insert Res_txns (insert Res_lfd Q))"
    by (rule goes_andthen [OF key goes_andthen [OF goes_excl_lock goes_andthen [OF goes_modify(2)
          goes_andthen [OF goes_size_lock_file goes_andthen [OF map region]]]]]) simp
  have lfd: "goes False n R Q (sys_call os (gain Res_lfd)) ?R (insert Res_lfd Q)"
    by (rule goes_gain) (use assms in \<open>auto simp: needs_def gain_def\<close>)
  show ?thesis
  proof (rule goesI)
    fix s assume c: "clean n R Q s"
    from lfd c
    show "\<exists>s' r. mdb_env_setup_locks os s = Some (s', r) \<and> (case r of Inl e \<Rightarrow> clean n {} {} s' |
        Inr _ \<Rightarrow> clean n (R - {Res_lfd, Res_txkey, Res_txns, Res_rmutex, Res_wmutex}) Q s')"
    proof (cases rule: goesD)
      case (1 s')
      from rest 1(2) show ?thesis
      proof (cases rule: goesD)
        case (1 s'')
        then have "clean n (R - {Res_lfd, Res_txkey, Res_txns, Res_rmutex, Res_wmutex}) Q s''"
          by (elim clean_weaken) auto
        then show ?thesis using 1 \<open>sys_call os (gain Res_lfd) s = Some (s', Inr ())\<close> by (simp add: mdb_env_setup_locks_def)
      next
        case (2 s'' e)
        then show ?thesis using \<open>sys_call os (gain Res_lfd) s = Some (s', Inr ())\<close> by (simp add: mdb_env_setup_locks_def)
      qed
    next
      case (2 s' e)
      have "s' = s\<lparr>es_calls := es_calls s + 1, es_errno := eo_rc os (es_calls s)\<rparr>"
        using 2(1) by (auto simp: sys_call_def Let_def split: if_splits)
      then have "clean n R Q s'" using c by (simp add: clean_def accounted_def)
      then have "clean n (R - {Res_lfd, Res_txkey, Res_txns, Res_rmutex, Res_wmutex}) Q s'" by (rule clean_weaken) auto
      then show ?thesis using 2 by (simp add: mdb_env_setup_locks_def)
    qed
  qed
qed

text \<open>Memory: a step after which the next is made even if it fails.\<close>

definition always :: "nat \<Rightarrow> resource set \<Rightarrow> env_step \<Rightarrow> resource set \<Rightarrow> resource set \<Rightarrow> bool" where
  "always n R m R' K \<longleftrightarrow>
     (\<forall>Q s. clean n R Q s \<longrightarrow> (\<exists>s' x. m s = Some (s', x) \<and> clean n R' Q s' \<and> (x = Inr () \<longrightarrow> clean n R' (Q \<union> K) s')))"

lemma always_goes:
  assumes "always n R m R' K"
  shows "goes k n R Q m R' (Q \<union> K)"
proof (rule goesI)
  fix s assume "clean n R Q s"
  then obtain s' x where "m s = Some (s', x)" "clean n R' Q s'" "x = Inr () \<longrightarrow> clean n R' (Q \<union> K) s'"
    using assms unfolding always_def by blast
  then show "\<exists>s' r. m s = Some (s', r) \<and> (case r of Inl e \<Rightarrow> clean n {} {} s' | Inr _ \<Rightarrow> clean n R' (Q \<union> K) s')"
    using clean_any [of n R' Q s'] by (cases x) auto
qed

lemma always_alloc:
  assumes "r \<in> R" "needs r = {}" "r \<noteq> Res_txkey"
    and f: "\<And>env. me_flags (f env) = me_flags env \<and> me_maxdbs (f env) = me_maxdbs env \<and> me_os_psize (f env) = me_os_psize env"
  shows "always n R (alloc_mem os r f) (R - {r}) {r}"
  unfolding always_def
proof (intro allI impI)
  fix Q s assume c: "clean n R Q s"
  let ?f = "\<lambda>s. (gain r s)\<lparr>es_env := f (es_env s)\<rparr>"
  show "\<exists>s' x. alloc_mem os r f s = Some (s', x) \<and> clean n (R - {r}) Q s' \<and> (x = Inr () \<longrightarrow> clean n (R - {r}) (Q \<union> {r}) s')"
  proof (cases "eo_rc os (es_calls s) = 0")
    case True
    have "clean n (R - {r}) (insert r Q) (?f (s\<lparr>es_calls := es_calls s + 1\<rparr>))"
      by (rule clean_gain [of n R Q "s\<lparr>es_calls := es_calls s + 1\<rparr>"]) (use c assms(1-3) f in \<open>simp_all add: clean_calls gain_def\<close>)
    moreover from this have "clean n (R - {r}) Q (?f (s\<lparr>es_calls := es_calls s + 1\<rparr>))" by (rule clean_weaken) auto
    ultimately show ?thesis using True by (simp add: alloc_mem_def sys_call_def Let_def)
  next
    case False
    have "clean n (R - {r}) Q s" using c by (rule clean_weaken) auto
    then show ?thesis using False by (simp add: alloc_mem_def sys_call_def Let_def clean_calls)
  qed
qed

lemma always_anyway:
  assumes m: "always n R m R' K" and k: "always n R' k R'' K'"
  shows "always n R (anyway m k) R'' (K \<union> K')"
  unfolding always_def
proof (intro allI impI)
  fix Q s assume "clean n R Q s"
  then obtain s1 x where 1: "m s = Some (s1, x)" "clean n R' Q s1" "x = Inr () \<longrightarrow> clean n R' (Q \<union> K) s1"
    using m unfolding always_def by blast
  then obtain s2 y where 2: "k s1 = Some (s2, y)" "clean n R'' Q s2"
    using k unfolding always_def by blast
  have "clean n R'' (Q \<union> (K \<union> K')) s2" if "x = Inr ()" "y = Inr ()"
    using k [unfolded always_def, rule_format, of "Q \<union> K" s1] 1(3) 2(1) that by (auto simp: Un_assoc)
  then show "\<exists>s' x. anyway m k s = Some (s', x) \<and> clean n R'' Q s' \<and> (x = Inr () \<longrightarrow> clean n R'' (Q \<union> (K \<union> K')) s')"
    using 1(1) 2 by (cases x) (auto simp: anyway_def)
qed

lemma goes_arrays:
  assumes "{Res_path, Res_dbxs, Res_dbflags, Res_dbiseqs} \<subseteq> R"
  shows "goes k n R Q (open_arrays os) (R - {Res_path, Res_dbxs, Res_dbflags, Res_dbiseqs}) (insert Res_dbxs Q)"
proof -
  have "always n R (open_arrays os) (R - {Res_path} - {Res_dbxs} - {Res_dbflags} - {Res_dbiseqs})
      ({Res_path} \<union> ({Res_dbxs} \<union> ({Res_dbflags} \<union> {Res_dbiseqs})))"
    unfolding open_arrays_def
    by (rule always_anyway [OF always_alloc always_anyway [OF always_alloc always_anyway [OF always_alloc always_alloc]]])
      (use assms in \<open>auto simp: needs_def\<close>)
  from always_goes [OF this, where Q = Q] show ?thesis by (rule goes_weaken) auto
qed

lemma goes_rest:
  assumes "{Res_mfd, Res_pbuf, Res_txn0} \<subseteq> R"
  shows "goes k n R Q (open_rest os flags) {} Q"
proof -
  have mfd: "goes k n R Q (if any_set flags (MDB_RDONLY OR MDB_WRITEMAP) then pass else sys_call os (gain Res_mfd)) (R - {Res_mfd}) Q"
    by (rule goes_if [OF goes_weaken [OF goes_pass [of k n R Q]] goes_weaken [OF goes_gain [where r = Res_mfd and R = R and Q = Q]]])
      (use assms in \<open>auto simp: needs_def gain_def\<close>)
  have "always n (R - {Res_mfd}) (anyway (alloc_mem os Res_pbuf (\<lambda>env. env)) (alloc_mem os Res_txn0 (\<lambda>env. env\<lparr>me_txn0 := blank_txn\<rparr>)))
      (R - {Res_mfd} - {Res_pbuf} - {Res_txn0}) ({Res_pbuf} \<union> {Res_txn0})"
    by (rule always_anyway [OF always_alloc always_alloc]) (use assms in \<open>auto simp: needs_def\<close>)
  from always_goes [OF this, where Q = Q and k = k]
  have mem: "goes k n (R - {Res_mfd}) Q (if any_set flags MDB_RDONLY then pass
      else anyway (alloc_mem os Res_pbuf (\<lambda>env. env)) (alloc_mem os Res_txn0 (\<lambda>env. env\<lparr>me_txn0 := blank_txn\<rparr>))) {} Q"
    using goes_weaken [OF goes_pass [of k n "R - {Res_mfd}" Q], of "R - {Res_mfd}" Q "{}" Q] by (auto elim!: goes_weaken)
  show ?thesis unfolding open_rest_def
    by (rule goes_andthen [OF mfd goes_andthen [OF goes_branch [OF goes_share_locks goes_pass] mem]])
qed

lemma always_map:
  assumes "Res_map \<in> R"
  shows "always n R (mdb_env_map os fixed) (R - {Res_map}) {}"
  unfolding always_def
proof (intro allI impI)
  fix Q s assume c: "clean n R Q s"
  have w: "clean n (R - {Res_map}) Q s'" if "clean n R Q s'" for s' using that by (rule clean_weaken) auto
  have g: "clean n (R - {Res_map}) Q (gain Res_map s')" if "clean n R Q s'" for s'
  proof -
    have "clean n (R - {Res_map}) (insert Res_map Q) (gain Res_map s')"
      using that assms by (rule clean_gain) (auto simp: needs_def gain_def)
    then show ?thesis by (rule clean_weaken) auto
  qed
  show "\<exists>s' x. mdb_env_map os fixed s = Some (s', x) \<and> clean n (R - {Res_map}) Q s' \<and>
      (x = Inr () \<longrightarrow> clean n (R - {Res_map}) (Q \<union> {}) s')"
    using c w g by (auto simp: mdb_env_map_def andthen_def branch_on_def sys_call_def Let_def pass_def failing_def clean_calls)
qed

lemma open2_keeps:
  assumes "mdb_env_open2 mem addr pread em pwrite env = Some (env', r)"
  shows "me_flags env' = me_flags env" "me_maxdbs env' = me_maxdbs env" "me_os_psize env' = me_os_psize env"
  using assms
  by (auto simp: mdb_env_open2_def Let_def map_metas_def page_sizes_def split: if_splits sum.splits option.splits prod.splits)

text \<open>
  \<open>mdb_env_open2\<close> does not end when there is no memory for the pages of a new file, or the
  header of the file has the page size 0.
\<close>

definition data_crash :: "env_os \<Rightarrow> bool" where
  "data_crash os =
     (case mdb_env_read_header (eo_pread os) of
        Inr (Some m) \<Rightarrow> mm_psize m = 0
      | Inr None \<Rightarrow> \<not> eo_calloc os
      | Inl e \<Rightarrow> err_code e = err_code ENOENT \<and> \<not> eo_calloc os)"

lemma open2_crash:
  assumes "mdb_env_open2 (eo_calloc os) addr (eo_pread os) em pwrite env = None" "0 < me_os_psize env"
  shows "data_crash os"
proof -
  have "0 < min (me_os_psize env) MAX_PAGESIZE" using assms(2) by (simp add: MAX_PAGESIZE_def)
  then show ?thesis
    using assms(1)
    by (auto simp: data_crash_def mdb_env_open2_def mdb_env_init_meta_def Let_def map_metas_def unat_eq_0
        split: if_splits sum.splits option.splits prod.splits write_result.splits)
qed

lemma goes_open_data:
  assumes "Res_map \<in> R"
  shows "goes (data_crash os) n R Q (open_data os) (R - {Res_map}) Q"
  unfolding goes_def
proof (intro allI impI)
  fix s assume c: "clean n R Q s"
  let ?finish = "\<lambda>rc s. map_option (\<lambda>(env, r). (s\<lparr>es_env := env\<rparr>, r))
    (mdb_env_open2 (eo_calloc os) (eo_map_addr os) (eo_pread os) (\<lambda>_. rc) (eo_pwrite os) (es_env s))"
  have fin: "case ?finish rc s of None \<Rightarrow> data_crash os | Some (s', Inl e) \<Rightarrow> clean n {} {} s'
      | Some (s', Inr _) \<Rightarrow> clean n (R - {Res_map}) Q s'"
    if "clean n (R - {Res_map}) Q s" for s rc
  proof (cases "mdb_env_open2 (eo_calloc os) (eo_map_addr os) (eo_pread os) (\<lambda>_. rc) (eo_pwrite os) (es_env s)")
    case None
    then show ?thesis using open2_crash [OF None] that by (simp add: clean_def)
  next
    case (Some x)
    obtain env r where x: "x = (env, r)" by fastforce
    have "clean n (R - {Res_map}) Q (s\<lparr>es_env := env\<rparr>)"
      using that open2_keeps [OF Some [unfolded x]] by (simp add: clean_def accounted_def)
    from this clean_any [OF this] show ?thesis using Some x by (cases r) simp_all
  qed
  have w: "clean n (R - {Res_map}) Q s" using c by (rule clean_weaken) auto
  have m: "\<exists>s' x. mdb_env_map os fixed s = Some (s', x) \<and> clean n (R - {Res_map}) Q s'" for fixed
    using always_map [OF assms, unfolded always_def] c by blast
  let ?fixed = "any_set (me_flags (es_env s)) MDB_FIXEDMAP \<and>
      (case mdb_env_read_header (eo_pread os) of Inr (Some m) \<Rightarrow> mm_address m \<noteq> 0 | _ \<Rightarrow> False)"
  obtain s1 x where s1: "mdb_env_map os ?fixed s = Some (s1, x)" "clean n (R - {Res_map}) Q s1" using m by blast
  have "open_data os s = ?finish 0 s \<or> open_data os s = ?finish 0 s1 \<or> (\<exists>e. open_data os s = ?finish (err_code e) s1)"
    using s1(1) unfolding open_data_def Let_def by (cases x) (auto split: sum.splits)
  then show "case open_data os s of None \<Rightarrow> data_crash os | Some (s', Inl e) \<Rightarrow> clean n {} {} s'
      | Some (s', Inr _) \<Rightarrow> clean n (R - {Res_map}) Q s'"
    using fin [OF w] fin [OF s1(2)] by (elim disjE exE) simp_all
qed

section \<open>Closing step by step\<close>

text \<open>The things in \<open>D\<close> have been given back.\<close>

definition returned :: "resource set \<Rightarrow> env_sys \<Rightarrow> bool" where
  "returned D s \<longleftrightarrow> (\<forall>r. es_held s r = (if r \<in> D \<or> \<not> es_ptr s r then 0 else 1)) \<and>
     (es_ptr s Res_rmutex \<longrightarrow> es_ptr s Res_txns) \<and> (es_ptr s Res_wmutex \<longrightarrow> es_ptr s Res_rmutex) \<and>
     (es_ptr s Res_txkey \<longleftrightarrow> any_set (me_flags (es_env s)) MDB_ENV_TXKEY)"

definition drops :: "resource set \<Rightarrow> env_step \<Rightarrow> resource set \<Rightarrow> bool" where
  "drops D m D' \<longleftrightarrow>
     (\<forall>s. returned D s \<longrightarrow> (\<exists>s'. m s = Some (s', Inr ()) \<and> returned D' s' \<and> es_ptr s' = es_ptr s))"

lemma drops_andthen: "drops D m D' \<Longrightarrow> drops D' k D'' \<Longrightarrow> drops D (andthen m k) D''"
  unfolding drops_def andthen_def by fastforce

lemma drops_pass: "drops D pass D"
  by (simp add: drops_def pass_def)

lemma drops_give_back: "r \<notin> D \<Longrightarrow> drops D (give_back r) (insert r D)"
  by (auto simp: drops_def give_back_def returned_def)

lemma drops_give_back_all: "distinct rs \<Longrightarrow> set rs \<inter> D = {} \<Longrightarrow> drops D (give_back_all rs) (set rs \<union> D)"
proof (induction rs arbitrary: D)
  case (Cons r rs)
  have "drops D (give_back r) (insert r D)" by (rule drops_give_back) (use Cons.prems in simp)
  moreover have "drops (insert r D) (give_back_all rs) (set rs \<union> insert r D)" by (rule Cons.IH) (use Cons.prems in auto)
  ultimately show ?case using drops_andthen by fastforce
qed (simp add: drops_pass)

text \<open>What is not set need not be given back.\<close>

lemma drops_unset:
  assumes "\<And>s. returned D s \<Longrightarrow> c s \<Longrightarrow> \<exists>s'. m s = Some (s', Inr ()) \<and> returned (D \<union> K) s' \<and> es_ptr s' = es_ptr s"
    and "\<And>s. returned D s \<Longrightarrow> \<not> c s \<Longrightarrow> \<forall>r \<in> K. \<not> es_ptr s r"
  shows "drops D (branch_on c m pass) (D \<union> K)"
proof -
  have "returned (D \<union> K) s" if "returned D s" "\<not> c s" for s
    using that(1) assms(2) [OF that] unfolding returned_def by auto
  then show ?thesis using assms(1) by (auto simp: drops_def branch_on_def pass_def)
qed

lemma returned_cong:
  "es_ptr s' = es_ptr s \<Longrightarrow> es_held s' = es_held s \<Longrightarrow> me_flags (es_env s') = me_flags (es_env s) \<Longrightarrow> returned D s' = returned D s"
  by (simp add: returned_def)

lemma excl_lock_run:
  "\<exists>s' r. mdb_env_excl_lock os s = Some (s', r) \<and> es_ptr s' = es_ptr s \<and> es_held s' = es_held s \<and> es_env s' = es_env s"
  by (simp add: mdb_env_excl_lock_def sys_call_def Let_def)

lemma close_sems_run:
  assumes "returned D s" "Res_rmutex \<notin> D" "Res_wmutex \<notin> D"
  shows "\<exists>s'. close_sems os s = Some (s', Inr ()) \<and> returned (D \<union> {Res_rmutex, Res_wmutex}) s' \<and> es_ptr s' = es_ptr s"
proof (cases "es_ptr s Res_rmutex")
  case False
  then have "returned (D \<union> {Res_rmutex, Res_wmutex}) s" using assms(1) unfolding returned_def by auto
  then show ?thesis using False by (simp add: close_sems_def)
next
  case True
  have "drops D (give_back_all [Res_rmutex, Res_wmutex]) (set [Res_rmutex, Res_wmutex] \<union> D)"
    by (rule drops_give_back_all) (use assms(2,3) in auto)
  then obtain s1 where s1: "give_back_all [Res_rmutex, Res_wmutex] s = Some (s1, Inr ())"
    "returned (D \<union> {Res_rmutex, Res_wmutex}) s1" "es_ptr s1 = es_ptr s"
    using assms(1) unfolding drops_def by (metis Un_commute list.simps(15) empty_set)
  obtain s2 r where s2: "(if es_excl s1 = 0 then mdb_env_excl_lock os s1 else Some (s1, Inr ())) = Some (s2, r)"
    "es_ptr s2 = es_ptr s1" "es_held s2 = es_held s1" "es_env s2 = es_env s1"
    using excl_lock_run [of os s1] by (cases "es_excl s1 = 0") auto
  let ?s = "if es_excl s2 > 0 then s2\<lparr>es_sems := False\<rparr> else s2"
  have "close_sems os s = Some (?s, Inr ())" using True s1(1) s2(1) by (simp add: close_sems_def andthen_def)
  moreover have "returned (D \<union> {Res_rmutex, Res_wmutex}) ?s = returned (D \<union> {Res_rmutex, Res_wmutex}) s1"
    by (rule returned_cong) (use s2 in simp_all)
  ultimately show ?thesis using s1(2,3) s2(2) by simp
qed

lemma close0_run:
  assumes c: "clean n {} {} s" and names: "n \<le> 2 \<or> es_ptr s Res_dbxs"
  obtains s' where "mdb_env_close0 os s = Some (s', Inr ())" "\<And>r. r \<noteq> Res_names \<Longrightarrow> es_held s' r = 0"
    "es_held s' Res_names = es_held s Res_names" "es_ptr s' = es_ptr s" "\<not> any_set (me_flags (es_env s')) MDB_ENV_ACTIVE"
proof -
  let ?A = "[Res_pbuf, Res_dbiseqs, Res_dbflags, Res_dbxs, Res_path, Res_dirty_list, Res_txn0, Res_free_pgs]"
  let ?B = "[Res_map, Res_mfd, Res_fd]"
  let ?flags = "\<lambda>env. env\<lparr>me_flags := clear_flag (me_flags env) (MDB_ENV_ACTIVE OR MDB_ENV_TXKEY)\<rparr>"
  have act: "any_set (me_flags (es_env s)) MDB_ENV_ACTIVE" using c by (simp add: clean_def)
  have r0: "returned {} s" using c by (simp add: clean_def accounted_def returned_def)
  obtain s1 where s1: "free_names s = Some (s1, Inr ())" "returned {} s1" "es_ptr s1 = es_ptr s" "es_held s1 = es_held s"
  proof (cases "me_maxdbs (es_env s) \<le> 2")
    case True
    then show ?thesis using that [of s] r0 by (simp add: free_names_def)
  next
    case False
    then have p: "es_ptr s Res_dbxs" using names c by (simp add: clean_def)
    let ?s = "s\<lparr>es_env := (es_env s)\<lparr>me_dbxs := (\<lambda>i. if MAIN_DBI < i \<and> i < me_maxdbs (es_env s)
        then (me_dbxs (es_env s) i)\<lparr>md_name := None\<rparr> else me_dbxs (es_env s) i)\<rparr>\<rparr>"
    have "returned {} ?s = returned {} s" by (rule returned_cong) simp_all
    then show ?thesis using that [of ?s] r0 False p by (simp add: free_names_def modify_env_def modify_def)
  qed
  have A: "drops {} (give_back_all ?A) (set ?A \<union> {})" by (rule drops_give_back_all) auto
  have key: "drops (set ?A \<union> {}) (branch_on (\<lambda>s. any_set (me_flags (es_env s)) MDB_ENV_TXKEY) (give_back Res_txkey) pass)
      ((set ?A \<union> {}) \<union> {Res_txkey})"
    by (rule drops_unset) (use drops_give_back [of Res_txkey "set ?A \<union> {}"] in \<open>auto simp: drops_def returned_def\<close>)
  have B: "drops ((set ?A \<union> {}) \<union> {Res_txkey}) (give_back_all ?B) (set ?B \<union> ((set ?A \<union> {}) \<union> {Res_txkey}))"
    by (rule drops_give_back_all) auto
  define D where "D = set ?B \<union> ((set ?A \<union> {}) \<union> {Res_txkey})"
  have region: "drops D (branch_on (\<lambda>s. es_ptr s Res_txns)
      (andthen (modify_env clear_readers) (andthen (close_sems os) (give_back Res_txns))) pass) (D \<union> {Res_rmutex, Res_wmutex, Res_txns})"
  proof (rule drops_unset)
    fix s assume r: "returned D s" "es_ptr s Res_txns"
    let ?s = "s\<lparr>es_env := clear_readers (es_env s)\<rparr>"
    have "returned D ?s = returned D s" by (rule returned_cong) (simp_all add: clear_readers_def)
    then obtain s2 where s2: "close_sems os ?s = Some (s2, Inr ())" "returned (D \<union> {Res_rmutex, Res_wmutex}) s2" "es_ptr s2 = es_ptr s"
      using close_sems_run [of D ?s os] r(1) by (auto simp: D_def)
    have "drops (D \<union> {Res_rmutex, Res_wmutex}) (give_back Res_txns) (insert Res_txns (D \<union> {Res_rmutex, Res_wmutex}))"
      by (rule drops_give_back) (simp add: D_def)
    then obtain s3 where "give_back Res_txns s2 = Some (s3, Inr ())" "returned (insert Res_txns (D \<union> {Res_rmutex, Res_wmutex})) s3"
      "es_ptr s3 = es_ptr s2"
      using s2(2) unfolding drops_def by blast
    moreover have "insert Res_txns (D \<union> {Res_rmutex, Res_wmutex}) = D \<union> {Res_rmutex, Res_wmutex, Res_txns}" by auto
    ultimately show "\<exists>s'. andthen (modify_env clear_readers) (andthen (close_sems os) (give_back Res_txns)) s = Some (s', Inr ()) \<and>
        returned (D \<union> {Res_rmutex, Res_wmutex, Res_txns}) s' \<and> es_ptr s' = es_ptr s"
      using s2 by (simp add: andthen_def modify_env_def modify_def)
  qed (auto simp: returned_def)
  have lfd: "drops (D \<union> {Res_rmutex, Res_wmutex, Res_txns}) (give_back Res_lfd) (insert Res_lfd (D \<union> {Res_rmutex, Res_wmutex, Res_txns}))"
    by (rule drops_give_back) (simp add: D_def)
  have all: "drops {} (andthen (give_back_all ?A) (andthen (branch_on (\<lambda>s. any_set (me_flags (es_env s)) MDB_ENV_TXKEY) (give_back Res_txkey) pass)
      (andthen (give_back_all ?B) (andthen (branch_on (\<lambda>s. es_ptr s Res_txns)
        (andthen (modify_env clear_readers) (andthen (close_sems os) (give_back Res_txns))) pass) (give_back Res_lfd)))))
      (insert Res_lfd (D \<union> {Res_rmutex, Res_wmutex, Res_txns}))"
    by (rule drops_andthen [OF A drops_andthen [OF key drops_andthen [OF B [folded D_def] drops_andthen [OF region lfd]]]])
  then obtain s2 where s2: "andthen (give_back_all ?A) (andthen (branch_on (\<lambda>s. any_set (me_flags (es_env s)) MDB_ENV_TXKEY) (give_back Res_txkey) pass)
      (andthen (give_back_all ?B) (andthen (branch_on (\<lambda>s. es_ptr s Res_txns)
        (andthen (modify_env clear_readers) (andthen (close_sems os) (give_back Res_txns))) pass) (give_back Res_lfd)))) s1 = Some (s2, Inr ())"
    "returned (insert Res_lfd (D \<union> {Res_rmutex, Res_wmutex, Res_txns})) s2" "es_ptr s2 = es_ptr s1"
    using s1(2) unfolding drops_def by blast
  have assoc: "andthen m (andthen k j) = andthen (andthen m k) j" for m k j
    by (rule ext) (auto simp: andthen_def split: option.splits sum.splits prod.splits)
  have run: "mdb_env_close0 os s = Some (s2\<lparr>es_env := ?flags (es_env s2)\<rparr>, Inr ())"
    using act s1(1) s2(1) unfolding mdb_env_close0_def assoc by (simp add: andthen_def modify_env_def modify_def)
  have "r = Res_names \<or> r \<in> insert Res_lfd (D \<union> {Res_rmutex, Res_wmutex, Res_txns})" for r
    by (cases r) (simp_all add: D_def)
  then have zero: "es_held s2 r = 0" if "r \<noteq> Res_names" for r using s2(2) that unfolding returned_def by metis
  have keep: "es_held s2 Res_names = es_held s Res_names"
    using s2(2,3) s1(3) c by (simp add: returned_def D_def clean_def accounted_def)
  have "\<not> any_set (clear_flag v (MDB_ENV_ACTIVE OR MDB_ENV_TXKEY)) MDB_ENV_ACTIVE" for v
    by (auto simp: any_set_def clear_flag_def bit_eq_iff bit_simps)
  then show thesis using that [OF run] zero keep s2(3) s1(3) by simp
qed

section \<open>Opening and closing\<close>

lemma any_set_mask: "any_set v (a OR b) \<longleftrightarrow> any_set v a \<or> any_set v b"
  by (auto simp: any_set_def bit_eq_iff bit_simps)

text \<open>An environment that is not open: nothing is set but what \<open>N\<close> says.\<close>

definition closed_env :: "resource set \<Rightarrow> env_sys \<Rightarrow> bool" where
  "closed_env N s \<longleftrightarrow> (\<forall>r. es_ptr s r = (r \<in> N)) \<and> (\<forall>r. es_held s r = (if r \<in> N then 1 else 0))"

lemma lists_run:
  assumes "closed_env {Res_names} s" "\<not> any_set flags MDB_ENV_TXKEY" "me_maxdbs (es_env s) = n" "0 < me_os_psize (es_env s)"
  shows "\<exists>s' x. open_lists os flags s = Some (s', x) \<and> clean n (- {Res_names, Res_free_pgs, Res_dirty_list}) {} s'"
proof -
  let ?fl = "(if any_set flags MDB_RDONLY then clear_flag flags MDB_WRITEMAP else flags) OR MDB_ENV_ACTIVE"
  have fl: "\<not> any_set ?fl MDB_ENV_TXKEY" "any_set ?fl MDB_ENV_ACTIVE"
  proof -
    have m: "\<not> any_set MDB_ENV_ACTIVE MDB_ENV_TXKEY" "any_set MDB_ENV_ACTIVE MDB_ENV_ACTIVE"
      by (simp_all add: any_set_def MDB_ENV_TXKEY_def MDB_ENV_ACTIVE_def)
    have "\<not> any_set (clear_flag flags MDB_WRITEMAP) MDB_ENV_TXKEY"
      unfolding clear_flag_def using assms(2) by (rule any_set_and)
    then show "\<not> any_set ?fl MDB_ENV_TXKEY" "any_set ?fl MDB_ENV_ACTIVE" using assms(2) m by (simp_all add: any_set_or_iff)
  qed
  have c: "clean n (- {Res_names, Res_free_pgs, Res_dirty_list}) {} (s1\<lparr>es_env := (es_env s1)\<lparr>me_flags := ?fl\<rparr>\<rparr>)"
    if "\<forall>r. es_held s1 r = (if es_ptr s1 r then 1 else 0)" "\<forall>r. es_ptr s1 r \<longrightarrow> r \<in> {Res_names, Res_free_pgs, Res_dirty_list}"
      "me_maxdbs (es_env s1) = n" "0 < me_os_psize (es_env s1)" for s1
    using that fl by (auto simp: clean_def accounted_def)
  let ?ok = "\<lambda>s1. (\<forall>r. es_held s1 r = (if es_ptr s1 r then 1 else 0)) \<and>
      (\<forall>r. es_ptr s1 r \<longrightarrow> r \<in> {Res_names, Res_free_pgs, Res_dirty_list}) \<and> me_maxdbs (es_env s1) = n \<and> 0 < me_os_psize (es_env s1)"
  have "\<exists>s1 x. (if any_set flags MDB_RDONLY then pass
      else andthen (alloc_mem os Res_free_pgs fresh_lists) (alloc_mem os Res_dirty_list fresh_dirty)) s = Some (s1, x) \<and> ?ok s1"
  proof (cases "any_set flags MDB_RDONLY")
    case True
    then show ?thesis using assms(1,3,4) by (auto simp: pass_def closed_env_def)
  next
    case False
    then show ?thesis using assms(1,3,4)
      by (cases "eo_rc os (es_calls s) = 0"; cases "eo_rc os (es_calls s + 1) = 0")
        (auto simp: andthen_def alloc_mem_def sys_call_def Let_def gain_def closed_env_def fresh_lists_def fresh_dirty_def)
  qed
  then obtain s1 x where "(if any_set flags MDB_RDONLY then pass
      else andthen (alloc_mem os Res_free_pgs fresh_lists) (alloc_mem os Res_dirty_list fresh_dirty)) s = Some (s1, x)" "?ok s1"
    by blast
  then show ?thesis using c [of s1] by (cases x) (auto simp: open_lists_def anyway_def modify_env_def modify_def)
qed

lemma goes_body:
  fixes os flags
  defines "fl \<equiv> (if any_set flags MDB_RDONLY then clear_flag flags MDB_WRITEMAP else flags)"
  shows "goes (data_crash os) n (- {Res_names, Res_free_pgs, Res_dirty_list}) {}
    (andthen (open_arrays os)
      (andthen (if any_set fl (MDB_RDONLY OR MDB_NOLOCK) then pass else mdb_env_setup_locks os)
      (andthen (sys_call os (gain Res_fd))
      (andthen (if any_set fl MDB_RDONLY \<and> \<not> any_set fl MDB_NOLOCK then mdb_env_setup_locks os else pass)
      (andthen (open_data os) (open_rest os fl)))))) {} {Res_dbxs}"
proof -
  let ?L = "{Res_lfd, Res_txkey, Res_txns, Res_rmutex, Res_wmutex}"
  define R1 where "R1 = - {Res_names, Res_free_pgs, Res_dirty_list} - {Res_path, Res_dbxs, Res_dbflags, Res_dbiseqs}"
  define R2 where "R2 = (if any_set fl (MDB_RDONLY OR MDB_NOLOCK) then R1 else R1 - ?L)"
  have arrays: "goes (data_crash os) n (- {Res_names, Res_free_pgs, Res_dirty_list}) {} (open_arrays os) R1 {Res_dbxs}"
    unfolding R1_def by (rule goes_arrays) auto
  have L1: "?L \<subseteq> R1" by (auto simp: R1_def)
  have lock1: "goes (data_crash os) n R1 {Res_dbxs} (if any_set fl (MDB_RDONLY OR MDB_NOLOCK) then pass else mdb_env_setup_locks os) R2 {Res_dbxs}"
    unfolding R2_def using goes_pass [of "data_crash os" n R1 "{Res_dbxs}"] goes_lift [OF goes_setup_locks [OF L1, of n "{Res_dbxs}" os]] by simp
  have fd: "goes (data_crash os) n R2 {Res_dbxs} (sys_call os (gain Res_fd)) (R2 - {Res_fd}) (insert Res_fd {Res_dbxs})"
    by (rule goes_gain) (auto simp: needs_def gain_def R2_def R1_def)
  have lock2: "goes (data_crash os) n (R2 - {Res_fd}) (insert Res_fd {Res_dbxs})
      (if any_set fl MDB_RDONLY \<and> \<not> any_set fl MDB_NOLOCK then mdb_env_setup_locks os else pass) (R2 - {Res_fd} - ?L) (insert Res_fd {Res_dbxs})"
  proof (cases "any_set fl MDB_RDONLY \<and> \<not> any_set fl MDB_NOLOCK")
    case True
    then have "?L \<subseteq> R2 - {Res_fd}" by (auto simp: R2_def R1_def any_set_mask)
    then show ?thesis using True goes_lift [OF goes_setup_locks] by simp
  next
    case False
    from goes_pass [of "data_crash os" n "R2 - {Res_fd}" "insert Res_fd {Res_dbxs}"]
    have "goes (data_crash os) n (R2 - {Res_fd}) (insert Res_fd {Res_dbxs}) pass (R2 - {Res_fd} - ?L) (insert Res_fd {Res_dbxs})"
      by (rule goes_weaken) auto
    then show ?thesis by (simp only: if_not_P [OF False])
  qed
  have data: "goes (data_crash os) n (R2 - {Res_fd} - ?L) (insert Res_fd {Res_dbxs}) (open_data os) (R2 - {Res_fd} - ?L - {Res_map}) (insert Res_fd {Res_dbxs})"
    by (rule goes_open_data) (auto simp: R2_def R1_def)
  have rest: "goes (data_crash os) n (R2 - {Res_fd} - ?L - {Res_map}) (insert Res_fd {Res_dbxs}) (open_rest os fl) {} (insert Res_fd {Res_dbxs})"
    by (rule goes_rest) (auto simp: R2_def R1_def)
  from goes_andthen [OF arrays goes_andthen [OF lock1 goes_andthen [OF fd goes_andthen [OF lock2 goes_andthen [OF data rest]]]]]
  show ?thesis by (rule goes_weaken) auto
qed

text \<open>No step of opening resets a field.\<close>

definition only_sets :: "env_step \<Rightarrow> bool" where
  "only_sets m \<longleftrightarrow> (\<forall>s s' r q. m s = Some (s', r) \<longrightarrow> es_ptr s q \<longrightarrow> es_ptr s' q)"

named_theorems set_intros \<open>steps that reset no field\<close>

lemma only_sets_pass [set_intros]: "only_sets pass"
  by (simp add: only_sets_def pass_def)

lemma only_sets_failing [set_intros]: "only_sets (failing e)"
  by (simp add: only_sets_def failing_def)

lemma only_sets_modify [set_intros]: "(\<And>s. es_ptr (f s) = es_ptr s) \<Longrightarrow> only_sets (modify f)"
  by (auto simp: only_sets_def modify_def)

lemma only_sets_modify_env [set_intros]: "only_sets (modify_env f)"
  by (simp add: modify_env_def only_sets_modify)

lemma only_sets_sys_call [set_intros]: "(\<And>s q. es_ptr s q \<Longrightarrow> es_ptr (f s) q) \<Longrightarrow> only_sets (sys_call os f)"
  by (auto simp: only_sets_def sys_call_def Let_def)

lemma only_sets_alloc [set_intros]: "only_sets (alloc_mem os r f)"
  by (auto simp: only_sets_def alloc_mem_def sys_call_def Let_def gain_def split: if_splits)

lemma only_sets_andthen [set_intros]: "only_sets m \<Longrightarrow> only_sets n \<Longrightarrow> only_sets (andthen m n)"
  by (fastforce simp: only_sets_def andthen_def split: option.splits sum.splits)

lemma only_sets_anyway [set_intros]: "only_sets m \<Longrightarrow> only_sets n \<Longrightarrow> only_sets (anyway m n)"
  by (fastforce simp: only_sets_def anyway_def split: option.splits)

lemma only_sets_branch [set_intros]: "only_sets m \<Longrightarrow> only_sets n \<Longrightarrow> only_sets (branch_on c m n)"
  by (auto simp: only_sets_def branch_on_def)

lemma only_sets_if [set_intros]: "only_sets m \<Longrightarrow> only_sets n \<Longrightarrow> only_sets (if c then m else n)"
  by simp

lemma only_sets_excl_lock [set_intros]: "only_sets (mdb_env_excl_lock os)"
  by (auto simp: only_sets_def mdb_env_excl_lock_def sys_call_def Let_def split: if_splits)

lemma only_sets_share_locks [set_intros]: "only_sets (mdb_env_share_locks os)"
  unfolding mdb_env_share_locks_def
  by (intro set_intros) (auto simp: only_sets_def sys_call_def Let_def split: if_splits)

lemma only_sets_size_lock_file [set_intros]: "only_sets (size_lock_file os)"
  by (auto simp: only_sets_def size_lock_file_def sys_call_def modify_env_def modify_def Let_def split: if_splits)

lemma only_sets_open_sems [set_intros]: "only_sets (open_sems os create)"
  unfolding open_sems_def by (intro set_intros) (auto simp: gain_def)

lemma only_sets_init_region [set_intros]: "only_sets (init_region os)"
  unfolding init_region_def by (intro set_intros) auto

lemma only_sets_join_region [set_intros]: "only_sets (join_region os)"
  using only_sets_open_sems [of os False] by (auto simp: only_sets_def join_region_def split: if_splits)

lemma only_sets_setup_locks [set_intros]: "only_sets (mdb_env_setup_locks os)"
proof -
  let ?rest = "andthen (branch_on (\<lambda>s. any_set (me_flags (es_env s)) MDB_NOTLS) pass
                    (sys_call os (\<lambda>s. (gain Res_txkey s)\<lparr>es_env := (es_env s)\<lparr>me_flags := me_flags (es_env s) OR MDB_ENV_TXKEY\<rparr>\<rparr>)))
         (andthen (mdb_env_excl_lock os)
         (andthen (sys_call os (\<lambda>s. s))
         (andthen (size_lock_file os)
         (andthen (sys_call os (\<lambda>s. (gain Res_txns s)\<lparr>es_env := (es_env s)\<lparr>me_txns := Some (eo_lock_info os)\<rparr>\<rparr>))
         (branch_on (\<lambda>s. es_excl s > 0) (init_region os) (join_region os))))))"
  have rest: "only_sets ?rest" by (intro set_intros) (auto simp: gain_def)
  have lfd: "only_sets (sys_call os (gain Res_lfd))" by (intro set_intros) (auto simp: gain_def)
  show ?thesis
    unfolding only_sets_def
  proof (intro allI impI)
    fix s s' r q
    assume run: "mdb_env_setup_locks os s = Some (s', r)" and p: "es_ptr s q"
    have "\<exists>s1 x. sys_call os (gain Res_lfd) s = Some (s1, x)" by (simp add: sys_call_def Let_def)
    then obtain s1 x where s1: "sys_call os (gain Res_lfd) s = Some (s1, x)" by blast
    have p1: "es_ptr s1 q" using lfd s1 p by (auto simp: only_sets_def)
    show "es_ptr s' q"
    proof (cases x)
      case (Inl e)
      then show ?thesis using run s1 p1 by (auto simp: mdb_env_setup_locks_def split: if_splits)
    next
      case (Inr u)
      then have "?rest s1 = Some (s', r)" using run s1 by (simp add: mdb_env_setup_locks_def)
      then show ?thesis using rest p1 unfolding only_sets_def by blast
    qed
  qed
qed

lemma only_sets_map [set_intros]: "only_sets (mdb_env_map os fixed)"
  unfolding mdb_env_map_def by (intro set_intros) (auto simp: gain_def)

lemma only_sets_open_data [set_intros]: "only_sets (open_data os)"
  unfolding only_sets_def
proof (intro allI impI)
  fix s s' r q
  assume run: "open_data os s = Some (s', r)" and p: "es_ptr s q"
  let ?fixed = "any_set (me_flags (es_env s)) MDB_FIXEDMAP \<and>
      (case mdb_env_read_header (eo_pread os) of Inr (Some m) \<Rightarrow> mm_address m \<noteq> 0 | _ \<Rightarrow> False)"
  have "es_ptr s1 q" if "mdb_env_map os ?fixed s = Some (s1, x)" for s1 x
    using only_sets_map that p unfolding only_sets_def by blast
  then show "es_ptr s' q"
    using run p by (auto simp: open_data_def Let_def split: sum.splits option.splits if_splits)
qed

lemma only_sets_rest [set_intros]: "only_sets (open_rest os flags)"
  unfolding open_rest_def by (intro set_intros) (auto simp: gain_def)

text \<open>
  One of the allocations up to the one of \<open>me_dbxs\<close> fails; \<open>n\<close> is the number of the first of them.
  The lists are only for writers. The path is allocated before \<open>me_dbxs\<close>, which is tried even if the path fails.
\<close>

definition early_failure :: "env_os \<Rightarrow> u32 \<Rightarrow> nat \<Rightarrow> bool" where
  "early_failure os flags n \<longleftrightarrow>
     (if any_set flags MDB_RDONLY then eo_rc os (n + 1) \<noteq> 0
      else eo_rc os n \<noteq> 0 \<or> eo_rc os (n + 1) \<noteq> 0 \<or> eo_rc os (n + 3) \<noteq> 0)"

lemma lists_calls:
  assumes "open_lists os flags s = Some (s', x)"
  shows "x = Inr () \<and> es_calls s' = es_calls s + (if any_set flags MDB_RDONLY then 0 else 2) \<and>
      (\<not> any_set flags MDB_RDONLY \<longrightarrow> eo_rc os (es_calls s) = 0 \<and> eo_rc os (es_calls s + 1) = 0) \<or>
    x = Inl ENOMEM \<and> \<not> any_set flags MDB_RDONLY \<and> (eo_rc os (es_calls s) \<noteq> 0 \<or> eo_rc os (es_calls s + 1) \<noteq> 0) \<and>
      (\<forall>r. r \<noteq> Res_free_pgs \<longrightarrow> r \<noteq> Res_dirty_list \<longrightarrow> es_ptr s' r = es_ptr s r)"
  using assms
  by (auto simp: open_lists_def anyway_def andthen_def alloc_mem_def sys_call_def Let_def pass_def modify_env_def modify_def gain_def
      split: if_splits)

lemma arrays_dbxs:
  assumes "open_arrays os s = Some (s', x)"
  shows "es_ptr s' Res_dbxs \<longleftrightarrow> es_ptr s Res_dbxs \<or> eo_rc os (es_calls s + 1) = 0"
  using assms
  by (auto simp: open_arrays_def anyway_def alloc_mem_def sys_call_def Let_def gain_def split: if_splits)

text \<open>The part of \<open>open_body\<close> after the arrays.\<close>

definition body_rest :: "env_os \<Rightarrow> u32 \<Rightarrow> env_step" where
  "body_rest os fl =
      andthen (if any_set fl (MDB_RDONLY OR MDB_NOLOCK) then pass else mdb_env_setup_locks os)
      (andthen (sys_call os (gain Res_fd))
      (andthen (if any_set fl MDB_RDONLY \<and> \<not> any_set fl MDB_NOLOCK then mdb_env_setup_locks os else pass)
      (andthen (open_data os) (open_rest os fl))))"

lemma only_sets_body_rest: "only_sets (body_rest os fl)"
  unfolding body_rest_def by (intro set_intros) (auto simp: gain_def)

lemma body_run:
  assumes "closed_env {Res_names} s" "\<not> any_set flags MDB_ENV_TXKEY" "me_maxdbs (es_env s) = n" "0 < me_os_psize (es_env s)"
  shows "case open_body os flags s of None \<Rightarrow> data_crash os
    | Some (s', r) \<Rightarrow> clean n {} {} s' \<and> (r = Inr () \<longrightarrow> es_ptr s' Res_dbxs) \<and>
        (es_ptr s' Res_dbxs \<longleftrightarrow> \<not> early_failure os flags (es_calls s))"
proof -
  let ?fl = "if any_set flags MDB_RDONLY then clear_flag flags MDB_WRITEMAP else flags"
  obtain s1 x where s1: "open_lists os flags s = Some (s1, x)" "clean n (- {Res_names, Res_free_pgs, Res_dirty_list}) {} s1"
    using lists_run [OF assms] by blast
  note calls = lists_calls [OF s1(1)]
  have body: "open_body os flags s = (case x of Inl e \<Rightarrow> Some (s1, Inl e) | Inr _ \<Rightarrow> andthen (open_arrays os) (body_rest os ?fl) s1)"
    by (simp add: open_body_def andthen_def [of "open_lists os flags"] s1(1) Let_def body_rest_def split: sum.split)
  show ?thesis
  proof (cases x)
    case (Inl e)
    then have "\<not> es_ptr s1 Res_dbxs" "early_failure os flags (es_calls s)"
      using calls assms(1) by (auto simp: closed_env_def early_failure_def)
    then show ?thesis using body Inl clean_any [OF s1(2)] by simp
  next
    case (Inr u)
    have no: "\<not> es_ptr s1 Res_dbxs" using s1(2) by (simp add: clean_def)
    have "goes False n (- {Res_names, Res_free_pgs, Res_dirty_list}) {} (open_arrays os)
        (- {Res_names, Res_free_pgs, Res_dirty_list} - {Res_path, Res_dbxs, Res_dbflags, Res_dbiseqs}) (insert Res_dbxs {})"
      by (rule goes_arrays) auto
    then obtain s2 y where s2: "open_arrays os s1 = Some (s2, y)" using s1(2) by (cases rule: goesD) blast+
    have dbxs: "es_ptr s2 Res_dbxs \<longleftrightarrow> \<not> early_failure os flags (es_calls s)"
      using arrays_dbxs [OF s2] no calls Inr by (auto simp: early_failure_def numeral_3_eq_3)
    have keep: "es_ptr s' Res_dbxs \<longleftrightarrow> es_ptr s2 Res_dbxs"
      if run: "andthen (open_arrays os) (body_rest os ?fl) s1 = Some (s', r)" and c: "r = Inr () \<longrightarrow> es_ptr s' Res_dbxs" for s' r
    proof (cases y)
      case (Inl e)
      then show ?thesis using run s2 by (simp add: andthen_def)
    next
      case y: (Inr u)
      have "es_ptr s2 Res_dbxs"
      proof (rule ccontr)
        assume "\<not> es_ptr s2 Res_dbxs"
        then have "eo_rc os (es_calls s1 + 1) \<noteq> 0" using arrays_dbxs [OF s2] by simp
        then show False using s2 y
          by (auto simp: open_arrays_def anyway_def alloc_mem_def sys_call_def Let_def gain_def split: if_splits)
      qed
      moreover have "body_rest os ?fl s2 = Some (s', r)" using run s2 y by (simp add: andthen_def)
      ultimately show ?thesis using only_sets_body_rest unfolding only_sets_def by blast
    qed
    from goes_body [of os n flags] s1(2) show ?thesis
    proof (cases rule: goesE)
      case (go s')
      then have run: "andthen (open_arrays os) (body_rest os ?fl) s1 = Some (s', Inr ())" by (simp add: body_rest_def)
      have p: "es_ptr s' Res_dbxs" using go(2) by (simp add: clean_def)
      then show ?thesis using keep [OF run] dbxs run body Inr clean_any [OF go(2)] by simp
    next
      case (fail s' e)
      then have run: "andthen (open_arrays os) (body_rest os ?fl) s1 = Some (s', Inl e)" by (simp add: body_rest_def)
      then show ?thesis using keep [OF run] dbxs body Inr fail(2) by simp
    next
      case crash
      then have "andthen (open_arrays os) (body_rest os ?fl) s1 = None" by (simp add: body_rest_def)
      then show ?thesis using body Inr crash(2) by simp
    qed
  qed
qed

text \<open>The flags an application may give do not have the internal one.\<close>

lemma open_flags_txkey:
  assumes "\<not> any_set flags (NOT (CHANGEABLE OR CHANGELESS))" "\<not> any_set (me_flags env) MDB_ENV_TXKEY"
  shows "\<not> any_set (flags OR me_flags env) MDB_ENV_TXKEY"
proof -
  have "MDB_ENV_TXKEY AND (NOT (CHANGEABLE OR CHANGELESS)) = MDB_ENV_TXKEY"
    by (simp add: MDB_ENV_TXKEY_def CHANGEABLE_def CHANGELESS_def MDB_NOSYNC_def MDB_NOMETASYNC_def MDB_MAPASYNC_def MDB_NOMEMINIT_def
        MDB_FIXEDMAP_def MDB_NOSUBDIR_def MDB_RDONLY_def MDB_WRITEMAP_def MDB_NOTLS_def MDB_NOLOCK_def MDB_NORDAHEAD_def)
  then have "\<not> any_set flags MDB_ENV_TXKEY"
    using assms(1) unfolding any_set_def by (metis and.left_commute and_zero_eq word_bw_assocs(1))
  then show ?thesis using assms(2) by (simp add: any_set_or_iff)
qed

text \<open>
  C9: Opening an environment and closing it again are balanced, whatever call of the system fails.
  An \<open>mdb_env_open\<close> that fails has given back everything it had taken, and nothing twice; after one that
  succeeds \<open>mdb_env_close\<close> gives everything back. It crashes only in one of three ways: an environment with more
  databases than the two that always exist, when an allocation up to the one of \<open>me_dbxs\<close> fails
  (\<open>early_failure\<close>: \<open>mdb_env_close0\<close> then reads the array through a NULL pointer); a new file, when there is no
  memory for its meta pages; or a file whose header has the page size 0 (\<open>data_crash\<close>). The environment was not open before,
  and the system has a page size.
\<close>

theorem env_open_balanced:
  assumes "closed_env {} s" "\<not> any_set (me_flags (es_env s)) MDB_ENV_TXKEY" "0 < me_os_psize (es_env s)"
  shows "case mdb_env_open os flags s of
      None \<Rightarrow> 2 < me_maxdbs (es_env s) \<and> early_failure os (flags OR me_flags (es_env s)) (es_calls s + 1) \<or> data_crash os
    | Some (s', Inl e) \<Rightarrow> \<forall>r. es_held s' r = 0
    | Some (s', Inr _) \<Rightarrow> (case mdb_env_close os s' of None \<Rightarrow> False | Some (s'', _) \<Rightarrow> \<forall>r. es_held s'' r = 0)"
proof -
  let ?n = "me_maxdbs (es_env s)"
  note tx = open_flags_txkey [OF _ assms(2)]
  have fd: "\<not> es_ptr s Res_fd" using assms(1) by (simp add: closed_env_def)
  show ?thesis
  proof (cases "any_set flags (NOT (CHANGEABLE OR CHANGELESS))")
    case True
    then show ?thesis using assms(1) by (simp add: mdb_env_open_def closed_env_def)
  next
    case legal: False
    show ?thesis
    proof (cases "eo_rc os (es_calls s) = 0")
      case False
      then show ?thesis using assms(1) fd legal
        by (simp add: mdb_env_open_def andthen_def alloc_mem_def sys_call_def Let_def closed_env_def)
    next
      case True
      define s0 where "s0 = (gain Res_names (s\<lparr>es_calls := es_calls s + 1\<rparr>))\<lparr>es_excl := - 1\<rparr>"
      have c0: "closed_env {Res_names} s0" "me_maxdbs (es_env s0) = ?n" "es_env s0 = es_env s" "es_calls s0 = es_calls s + 1"
        using assms(1) by (auto simp: closed_env_def s0_def gain_def)
      note body = body_run [OF c0(1) tx [OF legal] c0(2), of os]
      show ?thesis
      proof (cases "open_body os (flags OR me_flags (es_env s)) s0")
        case None
        then have "mdb_env_open os flags s = None"
          using True fd legal by (simp add: mdb_env_open_def andthen_def alloc_mem_def sys_call_def Let_def s0_def gain_def)
        then show ?thesis using body None c0(3) assms(3) by simp
      next
        case (Some x)
        obtain s1 r where x: "x = (s1, r)" by fastforce
        have s1: "open_body os (flags OR me_flags (es_env s)) s0 = Some (s1, r)" "clean ?n {} {} s1"
            "r = Inr () \<Longrightarrow> es_ptr s1 Res_dbxs" "es_ptr s1 Res_dbxs \<longleftrightarrow> \<not> early_failure os (flags OR me_flags (es_env s)) (es_calls s + 1)"
          using body Some x c0(3,4) assms(3) by simp_all
        have run: "mdb_env_open os flags s = (case (if r = Inr () then Some (s1, Inr ()) else mdb_env_close0 os s1) of
                 None \<Rightarrow> None
               | Some (s, _) \<Rightarrow> (case give_back Res_names s of None \<Rightarrow> None
                    | Some (s, _) \<Rightarrow> Some (s\<lparr>es_ptr := (es_ptr s)(Res_names := False)\<rparr>, r)))"
          using True fd legal s1(1)
          by (simp add: mdb_env_open_def andthen_def alloc_mem_def sys_call_def Let_def s0_def gain_def)
        show ?thesis
        proof (cases r)
          case (Inr u)
          then have r: "r = Inr ()" by simp
          have held: "es_held s1 q = (if es_ptr s1 q then 1 else 0)" for q using s1(2) by (simp add: clean_def accounted_def)
          define s2 where "s2 = s1\<lparr>es_held := (es_held s1)(Res_names := 0), es_ptr := (es_ptr s1)(Res_names := False)\<rparr>"
          have fin: "mdb_env_open os flags s = Some (s2, Inr ())"
            unfolding run using r held [of Res_names] by (auto simp: give_back_def s2_def fun_eq_iff)
          let ?s = "s2\<lparr>es_env := (es_env s2)\<lparr>me_dpages := []\<rparr>, es_excl := 0\<rparr>"
          have "clean ?n {} {} ?s" using s1(2) by (auto simp: clean_def accounted_def s2_def)
          moreover have "?n \<le> 2 \<or> es_ptr ?s Res_dbxs" using s1(3) [OF r] by (simp add: s2_def)
          ultimately obtain s3 where "mdb_env_close0 os ?s = Some (s3, Inr ())" "\<And>q. q \<noteq> Res_names \<Longrightarrow> es_held s3 q = 0"
            "es_held s3 Res_names = es_held ?s Res_names"
            by (rule close0_run [where os = os]) auto
          moreover from this have "es_held s3 q = 0" for q by (cases "q = Res_names") (simp_all add: s2_def)
          ultimately show ?thesis using fin by (simp add: mdb_env_close_def andthen_def modify_env_def modify_def)
        next
          case (Inl e)
          show ?thesis
          proof (cases "?n \<le> 2 \<or> es_ptr s1 Res_dbxs")
            case True
            obtain s3 where s3: "mdb_env_close0 os s1 = Some (s3, Inr ())" "\<And>q. q \<noteq> Res_names \<Longrightarrow> es_held s3 q = 0"
              "es_held s3 Res_names = es_held s1 Res_names" "es_ptr s3 = es_ptr s1"
              using close0_run [OF s1(2) True, of os] by metis
            have "es_held s1 Res_names = (if es_ptr s1 Res_names then 1 else 0)" using s1(2) by (simp add: clean_def accounted_def)
            moreover have "es_held s3 q = 0" if "es_held s3 Res_names = 0" for q using that s3(2) by (cases "q = Res_names") simp_all
            moreover have "((es_held s3)(Res_names := 0)) q = 0" for q using s3(2) by (cases "q = Res_names") simp_all
            ultimately show ?thesis unfolding run using Inl s3(1,3,4) by (simp add: give_back_def)
          next
            case no: False
            have "mdb_env_close0 os s1 = None"
              using no s1(2) by (simp add: mdb_env_close0_def andthen_def free_names_def clean_def)
            then show ?thesis unfolding run using Inl no s1(4) by simp
          qed
      qed
      qed
    qed
  qed
qed

text \<open>
  C40: When memory runs out early, opening an environment with named databases crashes. Let the first allocation of
  \<open>mdb_env_open\<close>, for the names of the files, succeed, and one of the next up to the array \<open>me_dbxs\<close> fail: the list of free
  pages, the dirty list or \<open>me_dbxs\<close>, with \<open>MDB_RDONLY\<close> only the last (\<open>early_failure\<close>). Then it cleans up with
  \<open>mdb_env_close0\<close> without the array, and this function reads it for each named database.
\<close>

theorem env_open_crashes:
  assumes "closed_env {} s" "\<not> any_set (me_flags (es_env s)) MDB_ENV_TXKEY" "0 < me_os_psize (es_env s)"
    and "\<not> any_set flags (NOT (CHANGEABLE OR CHANGELESS))" "2 < me_maxdbs (es_env s)"
    and "eo_rc os (es_calls s) = 0" "early_failure os (flags OR me_flags (es_env s)) (es_calls s + 1)"
  shows "mdb_env_open os flags s = None"
proof -
  let ?s = "(gain Res_names (s\<lparr>es_calls := es_calls s + 1\<rparr>))\<lparr>es_excl := - 1\<rparr>"
  have c: "closed_env {Res_names} ?s" "es_env ?s = es_env s" "es_calls ?s = es_calls s + 1"
    using assms(1) by (auto simp: closed_env_def gain_def)
  have fd: "\<not> es_ptr s Res_fd" using assms(1) by (simp add: closed_env_def)
  note body = body_run [OF c(1) open_flags_txkey [OF assms(4,2)] HOL.refl, unfolded c(2,3), OF assms(3), of os]
  show ?thesis
  proof (cases "open_body os (flags OR me_flags (es_env s)) ?s")
    case None
    then show ?thesis
      using assms(4,6) fd by (simp add: mdb_env_open_def andthen_def alloc_mem_def sys_call_def Let_def gain_def)
  next
    case (Some x)
    obtain s1 r where x: "x = (s1, r)" by fastforce
    have "clean (me_maxdbs (es_env s)) {} {} s1" "\<not> es_ptr s1 Res_dbxs" "r \<noteq> Inr ()"
      using body Some x assms(7) by auto
    then have "mdb_env_close0 os s1 = None" "r \<noteq> Inr ()"
      using assms(5) by (simp_all add: mdb_env_close0_def andthen_def free_names_def clean_def)
    then show ?thesis
      using assms(4,6) fd Some x by (simp add: mdb_env_open_def andthen_def alloc_mem_def sys_call_def Let_def gain_def)
  qed
qed

text \<open>A new file without memory for its meta pages: \<open>mdb_env_open2\<close> uses a NULL pointer in any environment.\<close>

lemma init_meta_unchecked:
  "mdb_env_open2 False addr (\<lambda>_. Read_short 0) (\<lambda>_. 0) pwrite env = None"
  by (simp add: mdb_env_open2_def mdb_env_read_header_def numeral_2_eq_2 Let_def mdb_env_init_meta_def)

text \<open>A system where the call number \<open>k\<close> fails, and an environment that is not open.\<close>

definition failing_os :: "nat \<Rightarrow> env_os" where
  "failing_os k = \<lparr>eo_rc = (\<lambda>n. if n = k then 12 else 0), eo_lock_size = 0, eo_lock_magic = 0, eo_lock_format = 0,
     eo_lock_info = \<lparr>mti_txnid = 0, mti_numreaders = 0, mti_readers = (\<lambda>_. \<lparr>mr_txnid = 0, mr_pid = 0, mr_tid = 0\<rparr>)\<rparr>,
     eo_moved = False, eo_map_addr = 0, eo_calloc = True, eo_pread = (\<lambda>_. Read_short 0), eo_pwrite = Wrote\<rparr>"

definition unopened :: "nat \<Rightarrow> env_sys" where
  "unopened dbs = \<lparr>es_env = env0\<lparr>me_flags := 0, me_maxdbs := dbs\<rparr>, es_ptr = (\<lambda>_. False), es_held = (\<lambda>_. 0), es_excl = 0,
     es_errno = 0, es_sems = False, es_calls = 0\<rparr>"

lemma unopened_facts: "closed_env {} (unopened dbs)" "me_flags (es_env (unopened dbs)) = 0" "me_maxdbs (es_env (unopened dbs)) = dbs"
  "es_calls (unopened dbs) = 0" "0 < me_os_psize (es_env (unopened dbs))"
  by (simp_all add: closed_env_def unopened_def env0_def)

lemma header_missing: "mdb_env_read_header (\<lambda>_. Read_short 0) = Inl ENOENT"
  by (simp add: mdb_env_read_header_def numeral_2_eq_2)

lemma failing_os_data: "\<not> data_crash (failing_os k)"
  by (simp add: data_crash_def failing_os_def header_missing)

theorem env_open_balanced_witness:
  "case mdb_env_open (failing_os 9) MDB_NOSYNC (unopened 2) of
      None \<Rightarrow> False
    | Some (s', Inl e) \<Rightarrow> \<forall>r. es_held s' r = 0
    | Some (s', Inr _) \<Rightarrow> (case mdb_env_close (failing_os 9) s' of None \<Rightarrow> False | Some (s'', _) \<Rightarrow> \<forall>r. es_held s'' r = 0)"
  using env_open_balanced [of "unopened 2" "failing_os 9" MDB_NOSYNC] unopened_facts [of 2] failing_os_data [of 9]
  by (auto simp: any_set_def split: option.splits)

theorem env_open_crashes_witness: "mdb_env_open (failing_os 1) 0 (unopened 10) = None"
  by (rule env_open_crashes)
    (simp_all add: unopened_facts any_set_def, simp_all add: failing_os_def early_failure_def any_set_def)

text \<open>Opening does succeed when no call fails, here without a lock file.\<close>

lemma open2_new: "0 < me_os_psize env \<Longrightarrow> \<exists>e. mdb_env_open2 True addr (\<lambda>_. Read_short 0) (\<lambda>_. 0) Wrote env = Some (e, Inr ())"
  by (simp add: mdb_env_open2_def header_missing Let_def mdb_env_init_meta_def map_metas_def MAX_PAGESIZE_def min_def)
lemma env_open_succeeds: "\<exists>s'. mdb_env_open (failing_os 99) MDB_NOLOCK (unopened 2) = Some (s', Inr ())"
proof -
  have c: "me_flags (es_env (unopened 2)) = 0" "es_calls (unopened 2) = 0" "\<And>r. es_ptr (unopened 2) r = False"
   "\<And>r. es_held (unopened 2) r = 0"
    by (simp_all add: unopened_def)
  have rc: "\<And>n. n < 99 \<Longrightarrow> eo_rc (failing_os 99) n = 0" by (simp add: failing_os_def)
  have f: "eo_pread (failing_os 99) = (\<lambda>_. Read_short 0)" "eo_pwrite (failing_os 99) = Wrote" "eo_moved (failing_os 99) = False"
    "eo_calloc (failing_os 99) = True" "eo_map_addr (failing_os 99) = 0"
    by (simp_all add: failing_os_def)
  have fl: "MDB_NOLOCK = 0x400000" "MDB_RDONLY = 0x20000" "MDB_WRITEMAP = 0x80000" "MDB_ENV_ACTIVE = 0x20000000"
     "MDB_FIXEDMAP = 1" "CHANGEABLE OR CHANGELESS = 0x1ff4001"
    by (simp_all add: MDB_NOLOCK_def CHANGEABLE_def CHANGELESS_def MDB_NOSYNC_def MDB_NOMETASYNC_def MDB_MAPASYNC_def MDB_NOMEMINIT_def MDB_ENV_ACTIVE_def
          MDB_FIXEDMAP_def MDB_NOSUBDIR_def MDB_RDONLY_def MDB_WRITEMAP_def MDB_NOTLS_def MDB_NORDAHEAD_def)
  have flags: "\<And>env. me_flags (fresh_dirty (fresh_lists env)) = me_flags env" by (simp add: fresh_dirty_def fresh_lists_def)
  let ?e = "fresh_dirty (fresh_lists (es_env (unopened 2)))
      \<lparr>me_flags := 0x20400000, me_dbxs := (\<lambda>_. \<lparr>md_name = None, md_cmp = None, md_dcmp = None\<rparr>), me_dbflags := (\<lambda>_. 0), me_dbiseqs := (\<lambda>_. 0)\<rparr>"
  have "0 < me_os_psize ?e" using unopened_facts(5) [of 2] by (simp add: fresh_dirty_def fresh_lists_def)
  from open2_new [OF this] obtain e where e: "mdb_env_open2 True 0 (\<lambda>_. Read_short 0) (\<lambda>_. 0) Wrote ?e = Some (e, Inr ())" by blast
  show ?thesis
    by (simp add: mdb_env_open_def andthen_def anyway_def alloc_mem_def sys_call_def Let_def c rc f any_set_def fl
      open_body_def open_lists_def open_arrays_def open_rest_def open_data_def mdb_env_map_def branch_on_def modify_env_def modify_def pass_def gain_def header_missing 
      give_back_def e)
qed

end
