(* ===== verification/Sub_Page.thy ===== *)
theory Sub_Page
  imports Page_Del
begin

text \<open>
  The sub-pages of \<open>mdb.c\<close>: the data of a key with sorted duplicates is a small page that lies
  within the node of the key. Its header and its offsets are bytes of the main page.
  \<open>mdb_node_shrink\<close> takes the room left in a sub-page out of the node and gives it to the main
  page. The theorem: no node of the main page and no item of the sub-page changes, though most
  of them move. A sub-page holds nodes or, with the flag \<open>P_LEAF2\<close>, keys of one size side by
  side; keys of an odd size altogether stay where they are.
\<close>

section \<open>Sub-pages\<close>

text \<open>The header of the sub-page at offset \<open>sp\<close>, after the eight bytes of its \<open>mp_pgno\<close>.\<close>

definition sub_pad :: "mem \<Rightarrow> nat \<Rightarrow> nat" where "sub_pad m sp = unat (rd16 m (sp + 8))"
definition sub_flags :: "mem \<Rightarrow> nat \<Rightarrow> u16" where "sub_flags m sp = rd16 m (sp + 10)"
definition sub_lower :: "mem \<Rightarrow> nat \<Rightarrow> nat" where "sub_lower m sp = unat (rd16 m (sp + 12))"
definition sub_upper :: "mem \<Rightarrow> nat \<Rightarrow> nat" where "sub_upper m sp = unat (rd16 m (sp + 14))"

definition sub_ptr :: "mem \<Rightarrow> nat \<Rightarrow> nat \<Rightarrow> nat" where
  "sub_ptr m sp i = unat (rd16 m (sp + PAGEHDRSZ + 2 * i))"

definition sub_numkeys :: "mem \<Rightarrow> nat \<Rightarrow> nat" where
  "sub_numkeys m sp = (sub_lower m sp - (PAGEHDRSZ - PAGEBASE)) div 2"

text \<open>\<open>for (i=numkeys-1; i>=0; i--) xp->mp_ptrs[i] = sp->mp_ptrs[i] - delta;\<close>\<close>

fun sub_ptrs_up :: "mem \<Rightarrow> nat \<Rightarrow> nat \<Rightarrow> nat \<Rightarrow> mem" where
  "sub_ptrs_up m sp delta 0 = m"
| "sub_ptrs_up m sp delta (Suc i) =
     sub_ptrs_up (wr16 m (sp + delta + PAGEHDRSZ + 2 * i)
       (rd16 m (sp + PAGEHDRSZ + 2 * i) - word_of_nat delta)) sp delta i"

text \<open>
  \<open>mdb_node_shrink\<close>. The sub-page moves up by the room it has left, header last, since the old
  and the new place overlap; then the nodes below move up with the head of this one.
\<close>

definition mdb_node_shrink :: "mdb_page \<Rightarrow> nat \<Rightarrow> mdb_page" where
  "mdb_node_shrink mp indx =
     (let m = mp_body mp;
          node = NODEPTR mp indx;
          sp = NODEDATA m node;
          delta = indx_sub (sub_upper m sp) (sub_lower m sp);
          xp = sp + delta;
          leaf2 = F_ISSET (sub_flags m sp) P_LEAF2;
          nsize = sub_numkeys m sp * sub_pad m sp in
      if leaf2 \<and> odd nsize then mp
      else
       (let m = (if leaf2 then mem_move m (xp + PAGEHDRSZ) (sp + PAGEHDRSZ) nsize
                 else sub_ptrs_up m sp delta (sub_numkeys m sp));
            m = wr16 m (xp + 14) (rd16 m (sp + 12));
            m = wr16 m (xp + 12) (rd16 m (sp + 12));
            m = wr16 m (xp + 10) (rd16 m (sp + 10));
            m = wr16 m (xp + 8) (rd16 m (sp + 8));
            m = wr m xp (u64_bytes (mp_pgno mp));
            m = SETDSZ m node (ucast (NODEDSZ m node) - word_of_nat delta);
            ptr = mp_ptrs mp indx;
            ptrs = ptrs_adjust (mp_ptrs mp) ptr (- int delta) (NUMKEYS mp);
            base = mp_upper mp + PAGEBASE
        in mp\<lparr>mp_ptrs := ptrs,
              mp_body := mem_move m (base + delta) base
                (ptr - mp_upper mp + NODESIZE + NODEKSZ m node),
              mp_upper := indx_t (mp_upper mp + delta)\<rparr>))"

text \<open>
  The items of a sub-page, and when it is well formed. With nodes, its offsets lie between
  \<open>mp_upper\<close> and its end, which is the end of the node's data, and so do the items; with keys
  of one size, these follow the header and leave the room the header tells.
\<close>

definition sub_leaf2 :: "mem \<Rightarrow> nat \<Rightarrow> bool" where
  "sub_leaf2 m sp = F_ISSET (sub_flags m sp) P_LEAF2"

definition sub_items :: "mem \<Rightarrow> nat \<Rightarrow> bytes list" where
  "sub_items m sp =
     (if sub_leaf2 m sp then map (\<lambda>i. rd m (sp + PAGEHDRSZ + i * sub_pad m sp) (sub_pad m sp)) [0..<sub_numkeys m sp]
      else map (\<lambda>i. node_image True m (sp + sub_ptr m sp i)) [0..<sub_numkeys m sp])"

text \<open>The bytes behind the header that move with it: the keys, or the offsets.\<close>

definition sub_extent :: "mem \<Rightarrow> nat \<Rightarrow> nat" where
  "sub_extent m sp = sub_numkeys m sp * (if sub_leaf2 m sp then sub_pad m sp else 2)"

definition sub_page_ok :: "mem \<Rightarrow> nat \<Rightarrow> nat \<Rightarrow> bool" where
  "sub_page_ok m sp dsz \<longleftrightarrow>
     sub_lower m sp = PAGEHDRSZ + 2 * sub_numkeys m sp \<and> sub_lower m sp \<le> sub_upper m sp
     \<and> even (sub_upper m sp) \<and> PAGEHDRSZ + sub_extent m sp + (sub_upper m sp - sub_lower m sp) \<le> dsz
     \<and> (\<not> sub_leaf2 m sp \<longrightarrow> (\<forall>i < sub_numkeys m sp. sub_upper m sp \<le> sub_ptr m sp i
          \<and> sub_ptr m sp i + node_len True m (sp + sub_ptr m sp i) \<le> dsz))"

section \<open>The writes\<close>

lemma sub_ptrs_up_outside:
  "x < sp + delta + 16 \<or> sp + delta + 16 + 2 * n \<le> x \<Longrightarrow> sub_ptrs_up m sp delta n x = m x"
  by (induction m sp delta n rule: sub_ptrs_up.induct) (auto simp: wr16_def wr_def PAGEHDRSZ_def)

lemma rd16_cong2: "m a = m' b \<Longrightarrow> m (a + 1) = m' (b + 1) \<Longrightarrow> rd16 m a = rd16 m' b"
  by (simp add: rd16_def)

lemma rd16_sub_ptrs_up:
  "i < n \<Longrightarrow> rd16 (sub_ptrs_up m sp delta n) (sp + delta + 16 + 2 * i) = rd16 m (sp + 16 + 2 * i) - word_of_nat delta"
proof (induction m sp delta n rule: sub_ptrs_up.induct)
  case (2 m sp delta n)
  let ?m1 = "wr16 m (sp + delta + PAGEHDRSZ + 2 * n) (rd16 m (sp + PAGEHDRSZ + 2 * n) - word_of_nat delta)"
  show ?case
  proof (cases "i = n")
    case True
    have "rd16 (sub_ptrs_up ?m1 sp delta n) (sp + delta + 16 + 2 * n) = rd16 ?m1 (sp + delta + 16 + 2 * n)"
      by (rule rd16_cong2) (simp_all add: sub_ptrs_up_outside)
    then show ?thesis using True by (simp add: PAGEHDRSZ_def rd16_wr16_same)
  next
    case False
    then have "i < n" using 2 by simp
    then show ?thesis using 2 by (simp add: PAGEHDRSZ_def rd16_wr16_other)
  qed
qed simp

definition sub_moved :: "mem \<Rightarrow> nat \<Rightarrow> nat \<Rightarrow> mem" where
  "sub_moved m sp delta =
     (if sub_leaf2 m sp then mem_move m (sp + delta + PAGEHDRSZ) (sp + PAGEHDRSZ) (sub_numkeys m sp * sub_pad m sp)
      else sub_ptrs_up m sp delta (sub_numkeys m sp))"

lemma sub_moved_outside:
  "x < sp + delta + 16 \<or> sp + delta + 16 + sub_extent m sp \<le> x \<Longrightarrow> sub_moved m sp delta x = m x"
  by (auto simp: sub_moved_def sub_extent_def sub_ptrs_up_outside mem_move_nth PAGEHDRSZ_def)

text \<open>
  The memory when the sub-page has moved and the size of the node is set, and what it holds:
  the new header and offsets, everything else as before.
\<close>

definition shrunk_in_place :: "mem \<Rightarrow> nat \<Rightarrow> nat \<Rightarrow> nat \<Rightarrow> u64 \<Rightarrow> mem" where
  "shrunk_in_place m node sp delta pgno =
     (let xp = sp + delta;
          m = sub_moved m sp delta;
          m = wr16 m (xp + 14) (rd16 m (sp + 12));
          m = wr16 m (xp + 12) (rd16 m (sp + 12));
          m = wr16 m (xp + 10) (rd16 m (sp + 10));
          m = wr16 m (xp + 8) (rd16 m (sp + 8));
          m = wr m xp (u64_bytes pgno)
      in SETDSZ m node (ucast (NODEDSZ m node) - word_of_nat delta))"

lemma shrunk_outside:
  assumes "node + 8 \<le> sp" "x < node \<or> node + 4 \<le> x" "x < sp + delta \<or> sp + delta + 16 + sub_extent m sp \<le> x"
  shows "shrunk_in_place m node sp delta pgno x = m x"
  using assms
  by (auto simp: shrunk_in_place_def SETDSZ_def Let_def wr16_def wr_outside sub_moved_outside)

lemma shrunk_header:
  fixes m :: mem and node sp delta :: nat and pgno :: u64
  assumes "node + 8 \<le> sp"
  defines "s \<equiv> shrunk_in_place m node sp delta pgno"
  shows "sub_pad s (sp + delta) = sub_pad m sp" "sub_flags s (sp + delta) = sub_flags m sp"
    "sub_lower s (sp + delta) = sub_lower m sp" "sub_upper s (sp + delta) = sub_lower m sp"
proof -
  have h: "rd16 (sub_moved m sp delta) (sp + k) = rd16 m (sp + k)" if "k \<le> 12" for k
    by (rule rd16_cong2) (use that in \<open>simp_all add: sub_moved_outside\<close>)
  note code = s_def shrunk_in_place_def SETDSZ_def Let_def
  show "sub_pad s (sp + delta) = sub_pad m sp"
    unfolding sub_pad_def code using assms(1) by (simp add: mem_simps h)
  show "sub_flags s (sp + delta) = sub_flags m sp"
    unfolding sub_flags_def code using assms(1) by (simp add: mem_simps h)
  show "sub_lower s (sp + delta) = sub_lower m sp"
    unfolding sub_lower_def code using assms(1) by (simp add: mem_simps h)
  show "sub_upper s (sp + delta) = sub_lower m sp"
    unfolding sub_upper_def sub_lower_def code using assms(1) by (simp add: mem_simps h)
qed

lemma shrunk_ptr:
  assumes "node + 8 \<le> sp" "i < sub_numkeys m sp" "delta \<le> sub_ptr m sp i" "\<not> sub_leaf2 m sp"
  shows "sub_ptr (shrunk_in_place m node sp delta pgno) (sp + delta) i = sub_ptr m sp i - delta"
proof -
  have "rd16 (shrunk_in_place m node sp delta pgno) (sp + delta + 16 + 2 * i)
      = rd16 m (sp + 16 + 2 * i) - word_of_nat delta"
    unfolding shrunk_in_place_def SETDSZ_def Let_def using assms(1,2,4)
    by (simp add: mem_simps rd16_sub_ptrs_up sub_moved_def)
  moreover have "unat (rd16 m (sp + 16 + 2 * i)) < 65536"
    using unsigned_less [of "rd16 m (sp + 16 + 2 * i)"] by simp
  moreover from this have "delta mod 65536 = delta"
    using assms(3) by (simp add: sub_ptr_def PAGEHDRSZ_def)
  ultimately show ?thesis
    using assms(3) by (simp add: sub_ptr_def PAGEHDRSZ_def unat_sub word_le_nat_alt unat_of_nat)
qed

lemma shrunk_key:
  assumes "node + 8 \<le> sp" "j < sub_numkeys m sp * sub_pad m sp" "sub_leaf2 m sp"
  shows "shrunk_in_place m node sp delta pgno (sp + delta + 16 + j) = m (sp + 16 + j)"
  using assms
  by (simp add: shrunk_in_place_def SETDSZ_def Let_def wr16_def wr_outside sub_moved_def mem_move_nth PAGEHDRSZ_def)
    (simp add: ac_simps)

lemma shrunk_dsize:
  assumes "node + 8 \<le> sp" "delta \<le> unat (NODEDSZ m node)"
  shows "unat (NODEDSZ (shrunk_in_place m node sp delta pgno) node) = unat (NODEDSZ m node) - delta"
proof -
  let ?d = "unat (NODEDSZ m node)"
  have lt: "?d < 2 ^ 32" using unsigned_less [of "NODEDSZ m node"] by simp
  have d: "ucast (NODEDSZ m node) - word_of_nat delta = (word_of_nat (?d - delta) :: u64)"
    using assms(2) by (simp add: of_nat_diff)
  have same: "NODEDSZ (wr (wr16 (wr16 (wr16 (wr16 (sub_moved m sp delta) (sp + delta + 14) a) (sp + delta + 12) b)
      (sp + delta + 10) c) (sp + delta + 8) e) (sp + delta) (u64_bytes pgno)) node = NODEDSZ m node" for a b c e
  proof -
    have "rd16 (sub_moved m sp delta) x = rd16 m x" if "x + 2 \<le> sp" for x
      by (rule rd16_cong2) (use that in \<open>simp_all add: sub_moved_outside\<close>)
    then show ?thesis using assms(1) by (simp add: NODEDSZ_def mn_lo_def mn_hi_def mem_simps)
  qed
  show ?thesis
    unfolding shrunk_in_place_def SETDSZ_def Let_def same d
    using dsize_parts [of "?d - delta"] lt by (simp add: NODEDSZ_def mn_lo_def mn_hi_def mem_simps)
qed

section \<open>The page\<close>

text \<open>The node at \<open>indx\<close> of a leaf page has a well-formed sub-page, which fills its data.\<close>

definition has_sub_page :: "mdb_page \<Rightarrow> nat \<Rightarrow> bool" where
  "has_sub_page p indx \<longleftrightarrow>
     \<not> F_ISSET (mn_flags (mp_body p) (mp_ptrs p indx)) F_BIGDATA
     \<and> sub_page_ok (mp_body p) (NODEDATA (mp_body p) (mp_ptrs p indx)) (unat (NODEDSZ (mp_body p) (mp_ptrs p indx)))"

text \<open>The room the sub-page of a node has left.\<close>

definition sub_room :: "mdb_page \<Rightarrow> nat \<Rightarrow> nat" where
  "sub_room p indx = (let sp = NODEDATA (mp_body p) (mp_ptrs p indx)
     in sub_upper (mp_body p) sp - sub_lower (mp_body p) sp)"

text \<open>Keys of one size, of an odd size altogether: the code leaves the page as it is.\<close>

definition sub_odd :: "mdb_page \<Rightarrow> nat \<Rightarrow> bool" where
  "sub_odd p indx = (let sp = NODEDATA (mp_body p) (mp_ptrs p indx)
     in sub_leaf2 (mp_body p) sp \<and> odd (sub_numkeys (mp_body p) sp * sub_pad (mp_body p) sp))"

lemma node_shrink_odd: "sub_odd p indx \<Longrightarrow> mdb_node_shrink p indx = p"
  by (simp add: sub_odd_def mdb_node_shrink_def Let_def sub_leaf2_def NODEPTR_def PAGEBASE_def)

lemma sub_upper_bound: "sub_upper m sp < 65536"
  using unsigned_less [of "rd16 m (sp + 14)"] by (simp add: sub_upper_def)

lemma sub_room_facts:
  assumes "has_sub_page p indx"
  defines "m \<equiv> mp_body p" and "ptr \<equiv> mp_ptrs p indx" and "delta \<equiv> sub_room p indx"
  defines "sp \<equiv> NODEDATA m ptr"
  shows "sub_upper m sp = delta + sub_lower m sp" "delta \<le> unat (NODEDSZ m ptr)" "even delta"
    "delta + 16 + sub_extent m sp \<le> unat (NODEDSZ m ptr)"
    "\<not> sub_leaf2 m sp \<Longrightarrow> delta + 16 + sub_extent m sp = sub_upper m sp"
proof -
  have so: "sub_lower m sp = 16 + 2 * sub_numkeys m sp" "sub_lower m sp \<le> sub_upper m sp" "even (sub_upper m sp)"
    "16 + sub_extent m sp + (sub_upper m sp - sub_lower m sp) \<le> unat (NODEDSZ m ptr)"
    using assms(1) by (auto simp: has_sub_page_def sub_page_ok_def m_def sp_def ptr_def PAGEHDRSZ_def)
  have d: "delta = sub_upper m sp - sub_lower m sp"
    by (simp add: delta_def sub_room_def sp_def m_def ptr_def Let_def)
  show "sub_upper m sp = delta + sub_lower m sp" using so d by linarith
  show "delta \<le> unat (NODEDSZ m ptr)" "delta + 16 + sub_extent m sp \<le> unat (NODEDSZ m ptr)"
    unfolding d using so(4) by linarith+
  have "even (sub_lower m sp)" using so(1) by simp
  then show "even delta" unfolding d using so(2,3) by simp
  show "delta + 16 + sub_extent m sp = sub_upper m sp" if "\<not> sub_leaf2 m sp"
    using that so(1,2) d by (simp add: sub_extent_def)
qed

lemma node_shrink_page:
  assumes ok: "page_ok psize p" and i: "indx < NUMKEYS p" and leaf: "IS_LEAF p" and sub: "has_sub_page p indx"
  defines "m \<equiv> mp_body p" and "ptr \<equiv> mp_ptrs p indx" and "delta \<equiv> sub_room p indx"
  defines "sp \<equiv> NODEDATA m ptr"
  defines "s \<equiv> shrunk_in_place m ptr sp delta (mp_pgno p)"
  shows "\<not> sub_odd p indx \<Longrightarrow> \<exists>ptrs'. mdb_node_shrink p indx = p\<lparr>mp_ptrs := ptrs', mp_upper := mp_upper p + delta,
      mp_body := mem_move s (mp_upper p + delta) (mp_upper p) (sp - mp_upper p)\<rparr> \<and>
    (\<forall>k < NUMKEYS p. ptrs' k = (if mp_ptrs p k \<le> ptr then mp_ptrs p k + delta else mp_ptrs p k))"
    "sp + unat (NODEDSZ m ptr) \<le> ptr + node_sz p indx"
proof -
  note b = page_ok_bounds [OF ok] and nd = page_ok_node [OF ok i]
  note u = sub_room_facts [OF sub, folded m_def ptr_def delta_def, folded sp_def]
  have big: "\<not> F_ISSET (mn_flags m ptr) F_BIGDATA"
    using sub by (simp add: has_sub_page_def m_def ptr_def)
  show size: "sp + unat (NODEDSZ m ptr) \<le> ptr + node_sz p indx"
    using node_sz_ge [of p indx] leaf big
    by (simp add: node_len_def sp_def NODEDATA_def m_def ptr_def)
  have d: "indx_sub (sub_upper m sp) (sub_lower m sp) = delta"
    using indx_sub_le [of "sub_lower m sp" "sub_upper m sp"] sub_upper_bound [of m sp] u(1) by simp
  note dle = u(2)
  have ptr_up: "mp_upper p \<le> ptr" "ptr + node_sz p indx \<le> psize" using nd(2,3) by (simp_all add: ptr_def)
  have spn: "ptr + 8 \<le> sp" by (simp add: sp_def NODEDATA_def NODESIZE_def)
  have up: "indx_t (mp_upper p + delta) = mp_upper p + delta"
    using ptr_up dle size b(4) spn by simp
  have ks: "NODEKSZ s ptr = NODEKSZ m ptr"
  proof -
    have "rd16 s (ptr + 6) = rd16 m (ptr + 6)"
      unfolding s_def using spn by (intro rd16_cong2) (simp_all add: shrunk_outside)
    then show ?thesis by (simp add: NODEKSZ_def mn_ksize_def)
  qed
  have len: "ptr - mp_upper p + NODESIZE + NODEKSZ s ptr = sp - mp_upper p"
    using ptr_up by (simp add: ks sp_def NODEDATA_def)
  define ptrs' where "ptrs' = ptrs_adjust (mp_ptrs p) ptr (- int delta) (NUMKEYS p)"
  have "mdb_node_shrink p indx = p\<lparr>mp_ptrs := ptrs', mp_upper := mp_upper p + delta,
      mp_body := mem_move s (mp_upper p + delta) (mp_upper p) (sp - mp_upper p)\<rparr>" if "\<not> sub_odd p indx"
  proof -
    have moved: "(if F_ISSET (sub_flags m sp) P_LEAF2
        then mem_move m (sp + delta + PAGEHDRSZ) (sp + PAGEHDRSZ) (sub_numkeys m sp * sub_pad m sp)
        else sub_ptrs_up m sp delta (sub_numkeys m sp)) = sub_moved m sp delta"
      by (simp add: sub_moved_def sub_leaf2_def)
    have moves: "\<not> (F_ISSET (sub_flags m sp) P_LEAF2 \<and> odd (sub_numkeys m sp * sub_pad m sp))"
      using that by (simp add: sub_odd_def Let_def sub_leaf2_def m_def sp_def ptr_def)
    have names: "NODEPTR p indx = ptr" "mp_body p = m" "mp_ptrs p indx = ptr" "NODEDATA m ptr = sp"
      "mp_upper p + PAGEBASE = mp_upper p"
      by (simp_all add: NODEPTR_def PAGEBASE_def ptr_def m_def sp_def)
    show ?thesis
      unfolding mdb_node_shrink_def Let_def names d moved if_not_P [OF moves]
      by (simp add: up ptrs'_def flip: shrunk_in_place_def [unfolded Let_def] s_def len)
  qed
  moreover have "ptrs' k = (if mp_ptrs p k \<le> ptr then mp_ptrs p k + delta else mp_ptrs p k)" if k: "k < NUMKEYS p" for k
  proof -
    have "nat ((int (mp_ptrs p k) - - int delta) mod 65536) = mp_ptrs p k + delta" if "mp_ptrs p k \<le> ptr"
      using that ptr_up dle size b(4) spn by (subst mod_65536_id) auto
    then show ?thesis using k by (simp add: ptrs'_def ptrs_adjust_nth)
  qed
  ultimately show "\<not> sub_odd p indx \<Longrightarrow> \<exists>ptrs'. mdb_node_shrink p indx = p\<lparr>mp_ptrs := ptrs', mp_upper := mp_upper p + delta,
      mp_body := mem_move s (mp_upper p + delta) (mp_upper p) (sp - mp_upper p)\<rparr> \<and>
    (\<forall>k < NUMKEYS p. ptrs' k = (if mp_ptrs p k \<le> ptr then mp_ptrs p k + delta else mp_ptrs p k))"
    by blast
qed

text \<open>The memory after the shrinking, by parts: above the sub-page's items, below the node, its head.\<close>

lemma shrunk_memory:
  assumes ok: "page_ok psize p" and i: "indx < NUMKEYS p" and leaf: "IS_LEAF p" and sub: "has_sub_page p indx"
  defines "m \<equiv> mp_body p" and "ptr \<equiv> mp_ptrs p indx" and "delta \<equiv> sub_room p indx"
  defines "sp \<equiv> NODEDATA m ptr"
  defines "s \<equiv> shrunk_in_place m ptr sp delta (mp_pgno p)"
  defines "m' \<equiv> mem_move s (mp_upper p + delta) (mp_upper p) (sp - mp_upper p)"
  shows "sp + delta + 16 + sub_extent m sp \<le> x \<Longrightarrow> m' x = m x"
    and "sp + delta \<le> x \<Longrightarrow> m' x = s x"
    and "mp_upper p \<le> x \<Longrightarrow> x < sp \<Longrightarrow> m' (x + delta) = s x"
    and "mp_upper p \<le> x \<Longrightarrow> x < sp \<Longrightarrow> x < ptr \<or> ptr + 4 \<le> x \<Longrightarrow> m' (x + delta) = m x"
proof -
  have up: "mp_upper p \<le> ptr" "ptr + 8 \<le> sp"
    using page_ok_node(2) [OF ok i] by (simp_all add: ptr_def sp_def NODEDATA_def NODESIZE_def)
  show s: "m' x = s x" if "sp + delta \<le> x" for x
    using that up by (simp add: m'_def mem_move_nth)
  show "m' x = m x" if "sp + delta + 16 + sub_extent m sp \<le> x" for x
    using that up s by (simp add: s_def shrunk_outside)
  show low: "m' (x + delta) = s x" if "mp_upper p \<le> x" "x < sp" for x
    using that up by (simp add: m'_def mem_move_nth)
  show "m' (x + delta) = m x" if "mp_upper p \<le> x" "x < sp" "x < ptr \<or> ptr + 4 \<le> x" for x
    using that up by (simp add: low s_def shrunk_outside)
qed

text \<open>The node itself: key and flags stay, the data is the sub-page, now full, with its items.\<close>

lemma shrunk_node:
  assumes ok: "page_ok psize p" and i: "indx < NUMKEYS p" and leaf: "IS_LEAF p" and sub: "has_sub_page p indx"
  defines "m \<equiv> mp_body p" and "ptr \<equiv> mp_ptrs p indx" and "delta \<equiv> sub_room p indx"
  defines "sp \<equiv> NODEDATA m ptr"
  defines "s \<equiv> shrunk_in_place m ptr sp delta (mp_pgno p)"
  defines "m' \<equiv> mem_move s (mp_upper p + delta) (mp_upper p) (sp - mp_upper p)"
  shows "mn_flags m' (ptr + delta) = mn_flags m ptr" "NODEKEY m' (ptr + delta) = NODEKEY m ptr"
    "NODEKSZ m' (ptr + delta) = NODEKSZ m ptr" "NODEDATA m' (ptr + delta) = sp + delta"
    "unat (NODEDSZ m' (ptr + delta)) = unat (NODEDSZ m ptr) - delta"
    "sub_items m' (sp + delta) = sub_items m sp" "sub_upper m' (sp + delta) = sub_lower m' (sp + delta)"
    "sub_page_ok m' (sp + delta) (unat (NODEDSZ m ptr) - delta)" "sub_leaf2 m' (sp + delta) = sub_leaf2 m sp"
proof -
  let ?d = "unat (NODEDSZ m ptr)"
  note mem = shrunk_memory [OF ok i leaf sub, folded m_def ptr_def delta_def, folded sp_def, folded s_def, folded m'_def]
  have so: "sub_page_ok m sp ?d" using sub by (simp add: has_sub_page_def m_def sp_def ptr_def)
  have up: "mp_upper p \<le> ptr" "ptr + 8 \<le> sp" "sp = ptr + 8 + NODEKSZ m ptr"
    using page_ok_node(2) [OF ok i] by (simp_all add: ptr_def sp_def NODEDATA_def NODESIZE_def)
  note u = sub_room_facts [OF sub, folded m_def ptr_def delta_def, folded sp_def]
  have head: "rd16 m' (ptr + delta + k) = rd16 s (ptr + k)" if "k \<le> 6" for k
    using that up mem(3) [of "ptr + k"] mem(3) [of "ptr + k + 1"]
    by (intro rd16_cong2) (simp_all add: add.commute add.left_commute)
  have head': "rd16 m' (ptr + delta + k) = rd16 m (ptr + k)" if "4 \<le> k" "k \<le> 6" for k
    using that up mem(4) [of "ptr + k"] mem(4) [of "ptr + k + 1"]
    by (intro rd16_cong2) (simp_all add: add.commute add.left_commute)
  show "mn_flags m' (ptr + delta) = mn_flags m ptr" by (simp add: mn_flags_def head')
  show ks: "NODEKSZ m' (ptr + delta) = NODEKSZ m ptr" by (simp add: NODEKSZ_def mn_ksize_def head')
  show "NODEKEY m' (ptr + delta) = NODEKEY m ptr"
    unfolding NODEKEY_def ks
  proof (rule rd_eqI)
    fix x assume "x < NODEKSZ m ptr"
    then have "m' (ptr + 8 + x + delta) = m (ptr + 8 + x)" using up by (intro mem(4)) auto
    then show "m' (ptr + delta + NODESIZE + x) = m (ptr + NODESIZE + x)"
      by (simp add: NODESIZE_def ac_simps)
  qed
  show "NODEDATA m' (ptr + delta) = sp + delta" by (simp add: NODEDATA_def ks up(3) NODESIZE_def)
  have "NODEDSZ m' (ptr + delta) = NODEDSZ s ptr"
    using head [of 0] head [of 2] by (simp add: NODEDSZ_def mn_lo_def mn_hi_def)
  then show dsz: "unat (NODEDSZ m' (ptr + delta)) = ?d - delta"
    using shrunk_dsize [OF up(2), of delta m "mp_pgno p"] u by (simp add: s_def)
  have sub16: "rd16 m' (sp + delta + k) = rd16 s (sp + delta + k)" for k
    by (rule rd16_cong2) (simp_all add: mem(2))
  have lower: "sub_lower m' (sp + delta) = sub_lower m sp" and upper: "sub_upper m' (sp + delta) = sub_lower m sp"
    and flags: "sub_flags m' (sp + delta) = sub_flags m sp" and pad: "sub_pad m' (sp + delta) = sub_pad m sp"
    using shrunk_header [OF up(2), of m delta "mp_pgno p"] sub16
    by (simp_all add: sub_lower_def sub_upper_def sub_flags_def sub_pad_def s_def)
  have n: "sub_numkeys m' (sp + delta) = sub_numkeys m sp" by (simp add: sub_numkeys_def lower)
  show l2: "sub_leaf2 m' (sp + delta) = sub_leaf2 m sp" by (simp add: sub_leaf2_def flags)
  have item: "sub_upper m sp \<le> sub_ptr m sp k" "sub_ptr m sp k + node_len True m (sp + sub_ptr m sp k) \<le> ?d"
    if "k < sub_numkeys m sp" "\<not> sub_leaf2 m sp" for k
    using so that by (simp_all add: sub_page_ok_def)
  have ptrs: "sub_ptr m' (sp + delta) k = sub_ptr m sp k - delta" if k: "k < sub_numkeys m sp" "\<not> sub_leaf2 m sp" for k
    using shrunk_ptr [OF up(2) k(1) _ k(2), of delta "mp_pgno p"] item(1) [OF k] u(1)
    using sub16 [of "PAGEHDRSZ + 2 * k"] by (simp add: s_def sub_ptr_def add.assoc)
  have image: "node_len True m' (sp + delta + sub_ptr m' (sp + delta) k) = node_len True m (sp + sub_ptr m sp k)"
    "node_image True m' (sp + delta + sub_ptr m' (sp + delta) k) = node_image True m (sp + sub_ptr m sp k)"
    if k: "k < sub_numkeys m sp" "\<not> sub_leaf2 m sp" for k
  proof -
    have a: "sp + delta + sub_ptr m' (sp + delta) k = sp + sub_ptr m sp k"
      using item(1) [OF k] u(1) by (simp add: ptrs [OF k])
    have "rd m' (sp + sub_ptr m sp k) l = rd m (sp + sub_ptr m sp k) l" for l
      by (rule rd_eqI) (use item(1) [OF k] u(5) [OF k(2)] in \<open>simp add: mem(1)\<close>)
    then show "node_len True m' (sp + delta + sub_ptr m' (sp + delta) k) = node_len True m (sp + sub_ptr m sp k)"
      "node_image True m' (sp + delta + sub_ptr m' (sp + delta) k) = node_image True m (sp + sub_ptr m sp k)"
      unfolding a by (rule node_image_cong)+
  qed
  have key: "rd m' (sp + delta + PAGEHDRSZ + k * sub_pad m sp) (sub_pad m sp) = rd m (sp + PAGEHDRSZ + k * sub_pad m sp) (sub_pad m sp)"
    if k: "k < sub_numkeys m sp" "sub_leaf2 m sp" for k
  proof (rule rd_eqI)
    fix x assume "x < sub_pad m sp"
    then have "k * sub_pad m sp + x < sub_numkeys m sp * sub_pad m sp"
      using k(1) mult_le_mono1 [of "Suc k" "sub_numkeys m sp" "sub_pad m sp"] by simp
    from shrunk_key [OF up(2) this k(2), of delta "mp_pgno p"]
    show "m' (sp + delta + PAGEHDRSZ + k * sub_pad m sp + x) = m (sp + PAGEHDRSZ + k * sub_pad m sp + x)"
      by (simp add: mem(2) PAGEHDRSZ_def s_def add.assoc)
  qed
  show "sub_items m' (sp + delta) = sub_items m sp" by (simp add: sub_items_def n l2 pad image(2) key)
  show "sub_upper m' (sp + delta) = sub_lower m' (sp + delta)" by (simp add: lower upper)
  have ext: "sub_extent m' (sp + delta) = sub_extent m sp" by (simp add: sub_extent_def n l2 pad)
  show "sub_page_ok m' (sp + delta) (?d - delta)"
    unfolding sub_page_ok_def n lower upper l2 ext
  proof (intro conjI allI impI)
    fix k assume k: "\<not> sub_leaf2 m sp" "k < sub_numkeys m sp"
    show "sub_lower m sp \<le> sub_ptr m' (sp + delta) k" using item(1) [OF k(2,1)] u(1) by (simp add: ptrs [OF k(2,1)])
    show "sub_ptr m' (sp + delta) k + node_len True m' (sp + delta + sub_ptr m' (sp + delta) k) \<le> ?d - delta"
      using item [OF k(2,1)] u(1) by (simp add: image(1) [OF k(2,1)]) (simp add: ptrs [OF k(2,1)])
  qed (use so u in \<open>auto simp: sub_page_ok_def PAGEHDRSZ_def\<close>)
qed

section \<open>Property\<close>

text \<open>The items of the sub-page of a node.\<close>

definition node_items :: "mdb_page \<Rightarrow> nat \<Rightarrow> bytes list" where
  "node_items p indx = sub_items (mp_body p) (NODEDATA (mp_body p) (mp_ptrs p indx))"

lemma sum_list_but_one:
  assumes "length xs = length ys" "i < length xs" "\<And>k. k < length xs \<Longrightarrow> k \<noteq> i \<Longrightarrow> xs ! k = ys ! k"
  shows "sum_list (map f xs) + f (ys ! i) = sum_list (map f ys) + (f (xs ! i) :: nat)"
proof -
  have "xs = ys[i := xs ! i]"
    using assms by (intro nth_equalityI) (auto simp: nth_list_update)
  then show ?thesis using sum_list_update_at [of i ys f "xs ! i"] assms(1,2) by metis
qed

text \<open>
  A node gets smaller by an even number of bytes, the nodes below it and itself move up by it:
  the page stays well formed.
\<close>

lemma page_ok_node_smaller:
  assumes ok: "page_ok psize p" and i: "indx < NUMKEYS p"
    and p': "mp_lower p' = mp_lower p" "IS_LEAF2 p' = IS_LEAF2 p" "mp_upper p' = mp_upper p + delta"
    and ptrs: "\<And>k. k < NUMKEYS p \<Longrightarrow> mp_ptrs p' k =
      (if mp_ptrs p k \<le> mp_ptrs p indx then mp_ptrs p k + delta else mp_ptrs p k)"
    and other: "\<And>k. k < NUMKEYS p \<Longrightarrow> k \<noteq> indx \<Longrightarrow> page_nodes p' ! k = page_nodes p ! k"
    and sz: "node_sz p indx = node_sz p' indx + delta" and ev: "even delta"
  shows "page_ok psize p'"
proof -
  let ?n = "NUMKEYS p" and ?ptr = "mp_ptrs p indx"
  note nd = page_ok_node [OF ok] and b = page_ok_bounds [OF ok]
  have n: "NUMKEYS p' = ?n" by (simp add: NUMKEYS_def p')
  have at: "mp_ptrs p' indx = ?ptr + delta" using ptrs [OF i] by simp
  have szk: "node_sz p' k = node_sz p k" if "k < ?n" "k \<noteq> indx" for k
    using that by (simp add: node_sz_nth n other)
  have room: "mp_upper p + delta \<le> psize" using nd(2,3) [OF i] sz by simp
  have side: "k = indx \<or> (mp_ptrs p k < ?ptr \<and> mp_ptrs p k + node_sz p k \<le> ?ptr) \<or>
      (?ptr < mp_ptrs p k \<and> ?ptr + node_sz p indx \<le> mp_ptrs p k)" if k: "k < ?n" for k
    using nd(4) [OF k i] node_sz_ge8 [of p k] node_sz_ge8 [of p indx] by fastforce
  have place: "even (mp_ptrs p' k) \<and> mp_upper p' \<le> mp_ptrs p' k \<and> mp_ptrs p' k + node_sz p' k \<le> psize"
    if k: "k < ?n" for k
    using side [OF k] nd(1-3) [OF k] nd(2,3) [OF i] ev room sz szk [OF k]
    by (cases "k = indx") (auto simp: ptrs [OF k] at p'(3))
  have disj: "mp_ptrs p' k + node_sz p' k \<le> mp_ptrs p' l \<or> mp_ptrs p' l + node_sz p' l \<le> mp_ptrs p' k"
    if k: "k < ?n" and l: "l < ?n" and kl: "k \<noteq> l" for k l
    using side [OF k] side [OF l] nd(4) [OF k l kl] kl szk [OF k] szk [OF l] sz
    by (cases "k = indx"; cases "l = indx") (auto simp: ptrs [OF k] ptrs [OF l] at)
  have "(\<Sum>x \<leftarrow> page_nodes p'. EVEN (length x)) + node_sz p indx
      = (\<Sum>x \<leftarrow> page_nodes p. EVEN (length x)) + node_sz p' indx"
    using sum_list_but_one [of "page_nodes p'" "page_nodes p" indx "\<lambda>x. EVEN (length x)"] other i
    by (simp add: n node_sz_nth)
  moreover have "(\<Sum>x \<leftarrow> page_nodes p. EVEN (length x)) = psize - mp_upper p"
    using ok by (simp add: page_ok_def)
  ultimately have "(\<Sum>x \<leftarrow> page_nodes p'. EVEN (length x)) = psize - mp_upper p'"
    using sz room by (simp add: p')
  then show ?thesis
    using place disj ok room by (simp add: page_ok_def p' n)
qed

text \<open>The other nodes keep their bytes.\<close>

lemma shrunk_other:
  assumes ok: "page_ok psize p" and i: "indx < NUMKEYS p" and leaf: "IS_LEAF p" and sub: "has_sub_page p indx"
    and k: "k < NUMKEYS p" "k \<noteq> indx"
  defines "m \<equiv> mp_body p" and "ptr \<equiv> mp_ptrs p indx" and "delta \<equiv> sub_room p indx"
  defines "sp \<equiv> NODEDATA m ptr"
  defines "s \<equiv> shrunk_in_place m ptr sp delta (mp_pgno p)"
  defines "m' \<equiv> mem_move s (mp_upper p + delta) (mp_upper p) (sp - mp_upper p)"
  shows "node_image True m' (if mp_ptrs p k \<le> ptr then mp_ptrs p k + delta else mp_ptrs p k)
    = node_image True m (mp_ptrs p k)"
proof (rule node_image_cong(2), rule rd_eqI)
  note mem = shrunk_memory [OF ok i leaf sub, folded m_def ptr_def delta_def, folded sp_def, folded s_def, folded m'_def]
  let ?q = "if mp_ptrs p k \<le> ptr then mp_ptrs p k + delta else mp_ptrs p k"
  fix x assume "x < node_len True m (mp_ptrs p k)"
  then have x: "x < node_sz p k" using node_sz_ge [of p k] leaf by (simp add: m_def)
  have end': "sp + delta + 16 + sub_extent m sp \<le> ptr + node_sz p indx"
    using sub_room_facts(4) [OF sub, folded m_def ptr_def delta_def, folded sp_def] node_shrink_page(2) [OF ok i leaf sub] by (simp add: m_def ptr_def sp_def)
  have sp: "ptr \<le> sp" by (simp add: sp_def NODEDATA_def)
  consider "mp_ptrs p k + node_sz p k \<le> ptr" | "ptr + node_sz p indx \<le> mp_ptrs p k"
    using page_ok_node(4) [OF ok k(1) i k(2)] by (auto simp: ptr_def)
  then show "m' (?q + x) = m (mp_ptrs p k + x)"
  proof cases
    case 1
    then show ?thesis
      using x page_ok_node(2) [OF ok k(1)] sp mem(4) [of "mp_ptrs p k + x"] by (simp add: ac_simps)
  next
    case 2
    then show ?thesis using end' mem(1) [of "mp_ptrs p k + x"] node_sz_ge8 [of p indx] by simp
  qed
qed

text \<open>
  C28: \<open>mdb_node_shrink\<close> on a leaf page whose node \<open>indx\<close> has a sub-page, of nodes or of keys of
  one size. Keys of an odd size altogether leave the page as it is. Otherwise the page stays well
  formed with its nodes in place, every other node keeps its bytes, the node keeps its key and
  flags and its sub-page all its items, though nearly all of them move; the sub-page has no
  room left, and what it had is now free on the main page.
\<close>

theorem node_shrink_correct:
  assumes ok: "page_ok psize p" and i: "indx < NUMKEYS p" and leaf: "IS_LEAF p" and sub: "has_sub_page p indx"
  shows "if sub_odd p indx then mdb_node_shrink p indx = p
    else \<exists>p'. mdb_node_shrink p indx = p' \<and> page_ok psize p' \<and> NUMKEYS p' = NUMKEYS p
    \<and> (\<forall>k < NUMKEYS p. k \<noteq> indx \<longrightarrow> page_nodes p' ! k = page_nodes p ! k)
    \<and> NODEKEY (mp_body p') (mp_ptrs p' indx) = NODEKEY (mp_body p) (mp_ptrs p indx)
    \<and> mn_flags (mp_body p') (mp_ptrs p' indx) = mn_flags (mp_body p) (mp_ptrs p indx)
    \<and> has_sub_page p' indx \<and> node_items p' indx = node_items p indx
    \<and> sub_room p' indx = 0 \<and> SIZELEFT p' = SIZELEFT p + sub_room p indx"
proof (cases "sub_odd p indx")
  case False
  define m ptr delta where "m = mp_body p" and "ptr = mp_ptrs p indx" and "delta = sub_room p indx"
  define sp where "sp = NODEDATA m ptr"
  define s where "s = shrunk_in_place m ptr sp delta (mp_pgno p)"
  define m' where "m' = mem_move s (mp_upper p + delta) (mp_upper p) (sp - mp_upper p)"
  let ?n = "NUMKEYS p" and ?up = "mp_upper p" and ?d = "unat (NODEDSZ m ptr)"
  note names = m_def [symmetric] ptr_def [symmetric] delta_def [symmetric]
  note fold = sp_def [symmetric] s_def [symmetric] m'_def [symmetric]
  note page = node_shrink_page [OF ok i leaf sub, unfolded names, unfolded fold]
  note node = shrunk_node [OF ok i leaf sub, unfolded names, unfolded fold, unfolded fold, unfolded fold]
  have so: "sub_page_ok m sp ?d" and big: "\<not> F_ISSET (mn_flags m ptr) F_BIGDATA"
    using sub by (simp_all add: has_sub_page_def m_def sp_def ptr_def)
  obtain ptrs' where sh: "mdb_node_shrink p indx = p\<lparr>mp_ptrs := ptrs', mp_upper := ?up + delta, mp_body := m'\<rparr>"
    and ptrs': "\<And>k. k < ?n \<Longrightarrow> ptrs' k = (if mp_ptrs p k \<le> ptr then mp_ptrs p k + delta else mp_ptrs p k)"
    using page(1) False by blast
  define p' where "p' = mdb_node_shrink p indx"
  have p': "mp_ptrs p' = ptrs'" "mp_upper p' = ?up + delta" "mp_body p' = m'" "mp_lower p' = mp_lower p"
    "IS_LEAF p'" "IS_LEAF2 p' = IS_LEAF2 p" "NUMKEYS p' = ?n"
    using leaf by (simp_all add: p'_def sh NUMKEYS_def)
  have at: "mp_ptrs p' indx = ptr + delta" using ptrs' [OF i] by (simp add: p' ptr_def)
  note at' = at [unfolded p']
  have u: "delta \<le> ?d" and ev: "even delta"
    using sub_room_facts(2,3) [OF sub] by (simp_all add: delta_def m_def ptr_def)
  have spn: "sp = ptr + NODESIZE + NODEKSZ m ptr" "ptr + 8 \<le> sp"
    by (simp_all add: sp_def NODEDATA_def NODESIZE_def)
  have szi: "node_sz p indx = EVEN (sp - ptr + ?d)"
    using leaf big spn(1) by (simp add: node_sz_def node_len_def m_def ptr_def)
  have szi': "node_sz p' indx = EVEN (sp - ptr + (?d - delta))"
    using leaf big spn(1) node(1,3,5) p' at by (simp add: node_sz_def node_len_def)
  have split: "sp - ptr + ?d = sp - ptr + (?d - delta) + delta" using u by simp
  have sz: "node_sz p indx = node_sz p' indx + delta"
    unfolding szi szi' split using EVEN_add [OF ev] by (metis add.commute)
  have other: "page_nodes p' ! k = page_nodes p ! k" if k: "k < ?n" "k \<noteq> indx" for k
    using shrunk_other [OF ok i leaf sub k, unfolded names, unfolded fold, unfolded fold, unfolded fold] k leaf
    by (simp add: nth_page_nodes p' ptrs' m_def)
  have ok': "page_ok psize p'"
    by (rule page_ok_node_smaller [OF ok i p'(4,6,2) _ other sz ev]) (use ptrs' in \<open>simp add: p' ptr_def\<close>)
  have data: "NODEDATA m' (ptr + delta) = sp + delta" by (rule node(4))
  have has: "has_sub_page p' indx"
    using node(1,5,8) big by (simp add: has_sub_page_def p' at' data)
  have items: "node_items p' indx = node_items p indx"
    using node(6) by (simp add: node_items_def p' at' data) (simp add: m_def sp_def ptr_def)
  have full: "sub_room p' indx = 0"
    using node(7) by (simp add: sub_room_def p' at' data)
  have free: "SIZELEFT p' = SIZELEFT p + delta"
    using page_ok_bounds(5) [OF ok'] page_ok_bounds(2,5) [OF ok] by (simp add: p')
  show ?thesis
    unfolding if_not_P [OF False]
    using ok' other node(1,2) has items full free
    by (intro exI [of _ p']) (simp add: p'_def [symmetric] p' at' names)
qed (simp add: node_shrink_odd)

text \<open>A page with one key, ''AB'', and a sub-page of one item with two bytes of room.\<close>

definition dup_page :: mdb_page where
  "dup_page = (empty_page 64 P_LEAF)\<lparr>mp_lower := 18, mp_upper := 24, mp_ptrs := (\<lambda>_. 24),
     mp_body := wr (\<lambda>_. 0) 24
       ([30, 0, 0, 0, 4, 0, 2, 0, 65, 66] @
        [0, 0, 0, 0, 0, 0, 0, 0, 0, 0, 0x42, 0, 18, 0, 20, 0, 20, 0, 0, 0] @
        [0, 0, 0, 0, 0, 0, 2, 0, 7, 8])\<rparr>"

lemma dup_page_values:
  "NUMKEYS dup_page = 1" "IS_LEAF dup_page" "\<not> IS_LEAF2 dup_page" "map length (page_nodes dup_page) = [40]"
  "node_sz dup_page 0 = 40" "sub_numkeys (mp_body dup_page) 34 = 1" "NODEDATA (mp_body dup_page) 24 = 34"
  "node_items dup_page 0 = [[0, 0, 0, 0, 0, 0, 2, 0, 7, 8]]" "sub_room dup_page 0 = 2"
  by code_simp+

theorem node_shrink_witness:
  "\<exists>p'. mdb_node_shrink dup_page 0 = p' \<and> page_ok 64 p' \<and> SIZELEFT p' = 8
    \<and> node_items p' 0 = [[0, 0, 0, 0, 0, 0, 2, 0, 7, 8]]"
proof -
  have ok: "page_ok 64 dup_page"
  proof -
    have "(\<Sum>x \<leftarrow> page_nodes dup_page. EVEN (length x)) = sum_list (map EVEN (map length (page_nodes dup_page)))"
      by (simp add: o_def)
    then have "(\<Sum>x \<leftarrow> page_nodes dup_page. EVEN (length x)) = 40" by (simp add: dup_page_values EVEN_def)
    then show ?thesis
      by (simp add: page_ok_def dup_page_values) (simp add: dup_page_def PAGEHDRSZ_def)
  qed
  have sub: "has_sub_page dup_page 0"
  proof -
    have "\<not> F_ISSET (mn_flags (mp_body dup_page) 24) F_BIGDATA" "unat (NODEDSZ (mp_body dup_page) 24) = 30"
      "sub_lower (mp_body dup_page) 34 = 18" "sub_upper (mp_body dup_page) 34 = 20"
      "\<not> sub_leaf2 (mp_body dup_page) 34" "sub_ptr (mp_body dup_page) 34 0 = 20"
      "node_len True (mp_body dup_page) 54 = 10"
      by code_simp+
    moreover have "mp_ptrs dup_page 0 = 24" by (simp add: dup_page_def)
    ultimately show ?thesis by (simp add: has_sub_page_def sub_page_ok_def sub_extent_def dup_page_values PAGEHDRSZ_def)
  qed
  have "\<not> sub_odd dup_page 0" by code_simp
  moreover have "SIZELEFT dup_page = 6" using page_ok_bounds(5) [OF ok] by (simp add: dup_page_def)
  ultimately show ?thesis
    using node_shrink_correct [OF ok _ dup_page_values(2) sub] by (simp add: dup_page_values)
qed

text \<open>The same with one key of two bytes in a sub-page of keys of one size, and with one of three bytes.\<close>

definition fixed_page :: mdb_page where
  "fixed_page = (empty_page 64 P_LEAF)\<lparr>mp_lower := 18, mp_upper := 34, mp_ptrs := (\<lambda>_. 34),
     mp_body := wr (\<lambda>_. 0) 34
       ([20, 0, 0, 0, 4, 0, 2, 0, 65, 66] @ [0, 0, 0, 0, 0, 0, 0, 0, 2, 0, 0x62, 0, 18, 0, 20, 0] @ [7, 8, 0, 0])\<rparr>"

definition odd_page :: mdb_page where
  "odd_page = fixed_page\<lparr>mp_body := (mp_body fixed_page)(52 := 3)\<rparr>"

lemma fixed_page_values:
  "sub_leaf2 (mp_body fixed_page) 44" "\<not> sub_odd fixed_page 0" "sub_room fixed_page 0 = 2"
  "node_items fixed_page 0 = [[7, 8]]" "sub_odd odd_page 0"
  by code_simp+

lemma fixed_page_sub: "has_sub_page fixed_page 0"
proof -
  have "\<not> F_ISSET (mn_flags (mp_body fixed_page) 34) F_BIGDATA" "unat (NODEDSZ (mp_body fixed_page) 34) = 20"
    "NODEDATA (mp_body fixed_page) 34 = 44" "sub_lower (mp_body fixed_page) 44 = 18" "sub_upper (mp_body fixed_page) 44 = 20"
    "sub_numkeys (mp_body fixed_page) 44 = 1" "sub_extent (mp_body fixed_page) 44 = 2" "mp_ptrs fixed_page 0 = 34"
    by code_simp+
  then show ?thesis by (simp add: has_sub_page_def sub_page_ok_def fixed_page_values(1) PAGEHDRSZ_def)
qed

end
