(* ===== verification/Spec2Isabelle.thy ===== *)
theory Spec2Isabelle
  imports Midl_Sort Compare Hash Page_Del Search Readers Txn Iterate Dbi Env Split_Moves
    Frame Isolation Sessions Flush Write_Back Touch Loose Del_Tree Copy_Thread Copy_Tree Copy_File Env_Open Sub_Page
begin

text \<open>
  A verification library of the storage engine that holds the application's message
  database: LMDB, in the copy under src/LegacyDatabase (\<open>mdb.c\<close>, \<open>midl.c\<close>, \<open>midl.h\<close>,
  \<open>lmdb.h\<close>).

  \<^bold>\<open>The program.\<close> The engine keeps named maps from byte strings to byte strings in one file,
  mapped into memory. The file is an array of pages; a database is a B+tree of pages, its
  root is in a record that is stored in the main database or, for the two core databases
  (the free list and the main database), in one of the two meta pages at the head of the
  file. A write transaction never changes a committed page: it copies a page before it
  changes it (\<open>mdb_page_touch\<close>), collects the copies in the dirty list, writes them at commit
  (\<open>mdb_page_flush\<close>) and last of all writes the older of the two meta pages
  (\<open>mdb_env_write_meta\<close>). The page numbers it set free are stored under its transaction
  number in the free list (\<open>mdb_freelist_save\<close>); later transactions use them again
  (\<open>mdb_page_alloc\<close>) when no reader in the reader table of the lock file can still see them
  (\<open>mdb_find_oldest\<close>). Readers take no lock: they note the number of the newest meta page in
  their slot (\<open>mdb_txn_renew0\<close>) and read the pages below its roots.

  \<^bold>\<open>Theories and code.\<close> Definitions have the names of the functions, macros and fields they
  model; a function that is a single long body in C is divided into one definition per loop
  or case, named after it.
  \<^item> \<open>Prelude\<close>, \<open>Errors\<close>: bytes, words of 64-bit little-endian memory and the 16-bit
    arithmetic of page offsets; the return codes and \<open>mdb_strerror\<close>.
  \<^item> \<open>Midl\<close>, \<open>Midl_Lists\<close>, \<open>Midl_Sort\<close>: \<open>midl.c\<close>. An ID list is the list of the cells of its
    array, cell 0 the count; an allocation has the capacity in front. What searching,
    growing, appending, merging and sorting do to the lists.
  \<^item> \<open>Compare\<close>: \<open>mdb_cmp_memn\<close>, \<open>mdb_cmp_memnr\<close>, \<open>mdb_cmp_int\<close>, \<open>mdb_cmp_cint\<close>, \<open>mdb_cmp_long\<close> and
    \<open>mdb_default_cmp\<close>, as orders of keys. \<open>Hash\<close>: \<open>mdb_hash_val\<close> and \<open>mdb_hash_enc\<close>.
  \<^item> \<open>Page\<close>, \<open>Page_Facts\<close>, \<open>Page_Del\<close>: the layout of pages and nodes and the operations on one
    page (\<open>mdb_node_add\<close>, \<open>mdb_node_del\<close>, \<open>mdb_update_key\<close>, \<open>mdb_page_copy\<close>), with their
    effect on the list of nodes. \<open>Sub_Page\<close>: \<open>mdb_node_shrink\<close>, which moves the sub-page within
    a node without changing an item, be they nodes or keys of one size. \<open>Search\<close>: \<open>mdb_node_search\<close>.
  \<^item> \<open>State\<close>, \<open>Ops\<close>: the structs \<open>MDB_env\<close>, \<open>MDB_txn\<close>, \<open>MDB_cursor\<close>, \<open>MDB_db\<close>, \<open>MDB_meta\<close>,
    \<open>MDB_reader\<close> and the memory they point into, as one state; operations as functions of it.
  \<^item> \<open>Meta\<close>, \<open>Env\<close>: reading, initialising, choosing and writing the meta pages;
    \<open>mdb_env_create\<close>, the setters and \<open>mdb_env_open2\<close>. \<open>Env_Open\<close>: \<open>mdb_env_open\<close>, the lock
    file, mapping and \<open>mdb_env_close0\<close>, as steps that take and give back what the process holds;
    they are balanced whatever call fails, but where the code uses a NULL pointer (\<open>me_dbxs\<close> after an
    early failure, the pages of a new file) or divides by a page size of 0. \<open>Readers\<close>: the reader table.
  \<^item> \<open>Cursor\<close>, \<open>Cursor_Get\<close>: \<open>mdb_page_get\<close>, \<open>mdb_page_search\<close>, \<open>mdb_cursor_set\<close>, the moves of a
    cursor, \<open>mdb_cursor_get\<close>, \<open>mdb_get\<close>. \<open>Tree\<close> and \<open>Iterate\<close> give the tree below a root as a
    list of items and show that lookups and scans are those of that list.
  \<^item> \<open>Alloc\<close>, \<open>Spill\<close>, \<open>Split\<close>, \<open>Put\<close>, \<open>Rebalance\<close>: page numbers and memory, writing pages,
    splitting, \<open>mdb_cursor_put\<close>, \<open>mdb_cursor_del\<close> with \<open>mdb_rebalance\<close>. \<open>Split_Facts\<close>,
    \<open>Split_Moves\<close>: where a page is split and what the halves hold. \<open>Flush\<close>: what a flush
    leaves in the file. \<open>Touch\<close>: what \<open>mdb_page_touch\<close> makes of a clean page, the tree above it, the
    free and dirty lists and the cursors. \<open>Tree_Update\<close> tells what changing the nodes of one leaf does to the map
    that a tree stands for; \<open>Put_Tree\<close> and \<open>Del_Tree\<close> show that \<open>mdb_put\<close> and \<open>mdb_del\<close> are
    updates of that map, in a transaction that has copied the path, with nothing to spill and no
    overflow pages, and where the leaf need neither be split nor merged.
  \<^item> \<open>Txn\<close>, \<open>Commit\<close>, \<open>Dbi\<close>: the life of a transaction, its commit with the free list, and
    database handles, \<open>mdb_drop\<close> and \<open>mdb_stat\<close>.
  \<^item> \<open>Copy\<close>, \<open>Copy_Tree\<close>: the tree walk of a compacting copy (\<open>mdb_env_cwalk\<close>) and the meta
    pages \<open>mdb_env_copyfd1\<close> makes. The pages handed over, read by their new numbers, form the
    same tree with the same values and databases, so a reader of the copy finds the same items, and the root is where the meta page says, when
    every page is accounted for; the copy of an empty environment gets an unusable root.
    \<open>Copy_Thread\<close>: the two threads of the compacting copy (\<open>mdb_env_copythr\<close>,
    \<open>mdb_env_cthr_toggle\<close>) as steps in any order. Without a failed write the file is the pages
    in order and the copy ends; with one the copy may hang, overrun a buffer or report success.
    \<open>Copy_File\<close>: the plain copy (\<open>mdb_env_copyfd0\<close>) and \<open>mdb_env_copy2\<close>.
  \<^item> \<open>Frame\<close>: what operations leave alone, as a chain of locales (\<open>state_relation\<close>,
    \<open>reading_relation\<close>, \<open>writing_relation\<close>, \<open>flushing_relation\<close>), each the contract of one group
    of operations: a relation of states that the basic updates of the group respect is
    respected by all its operations. \<open>Isolation\<close>, \<open>Sessions\<close>, \<open>Write_Back\<close> and \<open>Loose\<close> interpret
    them: a commit is atomic, the committed state moves by whole transactions through any
    sequence of calls, lookups change no page, and writing changes the file only at pages that were dirty.

  \<^bold>\<open>State.\<close> \<open>mdb_state\<close> holds the environment, the transaction of the application and its
  cursors, the pages of the file as the map shows them (\<open>st_map\<close>, by page number; an overflow
  page with all its pages at the number of the first) and the pages in allocated memory
  (\<open>st_heap\<close>). A pointer to a page is a \<open>page_ref\<close>, into one or the other; to write through a
  pointer into the map is undefined unless the environment has \<open>MDB_WRITEMAP\<close>. An operation
  returns the new state and an error or a value, or \<open>None\<close>, which stands for undefined
  behaviour, a failed assertion, a deadlock on an own lock, and the uses of the interface
  that are not modelled. Loops whose end depends on the data are \<open>partial_function (option)\<close>,
  so not ending is \<open>None\<close> as well; a property that an operation succeeds excludes it. The
  recursions through \<open>mdb_page_split\<close> and \<open>mdb_rebalance\<close> take the depth of the cursor as a
  bound, at most \<open>CURSOR_STACK\<close> (32), the height at which the code itself fails with
  \<open>MDB_CURSOR_FULL\<close>.

  \<^bold>\<open>Parameters.\<close> What the engine asks of the system is in the state as functions of the number
  of the call: whether an allocation succeeds, the result of each write and sync, what a write
  that was cut off has left of a page, which processes are alive; the results are arbitrary,
  so every error path is in the model. User comparison functions are a parameter.

  \<^bold>\<open>Configuration.\<close> The engine is modelled as the application builds it for Apple's 64-bit
  systems: POSIX semaphores for the locks (their names from the hash), no robust mutexes, keys
  of at most 511 bytes, \<open>MDB_IDL_UM_MAX\<close> of 131071 dirty pages, no debugging code.

  \<^bold>\<open>Assumptions of the sessions.\<close> One application with one transaction at a time, which ends it
  before the next and stops at a fatal error; transaction numbers do not wrap; a write of a
  meta page that is cut off is cut between words of 8 bytes; the environment is not opened with
  \<open>MDB_WRITEMAP\<close>, and its meta pages have the parity of their numbers at first.

  \<^bold>\<open>Not modelled.\<close> Sorted duplicates (\<open>MDB_DUPSORT\<close> and the sub-cursors; of them
  only the sub-page of one node is here) and nested transactions: the key-value store of the application uses neither,
  and using them is \<open>None\<close>; the walk of a compacting copy has the flag for them, but the theorems
  on it leave them out. The bytes a page has in the buffers of a compacting copy: its threads are
  modelled on byte strings, its walk on pages. The names of files and semaphores, and what
  the system does behind a call. Other processes appear through the reader table and the locks only. Of the rest of
  the repository, the application itself is Objective-C and C++; its other C code is vendored
  (signal processing, audio containers, cryptography, compression, a second copy of this
  engine).
\<close>

end
